(* ===== verification/Prelude.thy ===== *)
theory Prelude
  imports Complex_Main
begin

text \<open>
  What the components share: Python exceptions as values, truthiness of optional strings,
  Python's insertion-ordered dictionaries (\<open>dict\<close> and \<open>collections.OrderedDict\<close>) as association
  lists with pairwise different keys.
\<close>

section \<open>Exceptions and truthiness\<close>

datatype py_exn = ValueError | KeyError | TypeError | IndexError | RuntimeError | AssertionError

text \<open>A call that may raise: \<open>Inl\<close> carries the exception, \<open>Inr\<close> the value.\<close>

type_synonym 'a may_raise = "py_exn + 'a"

text \<open>\<open>x or y\<close> on optional strings: \<open>None\<close> and the empty string are false.\<close>

definition str_truthy :: "string option \<Rightarrow> bool" where
  "str_truthy x \<longleftrightarrow> x \<noteq> None \<and> x \<noteq> Some []"

definition str_or :: "string option \<Rightarrow> string option \<Rightarrow> string option" where
  "str_or x y = (if str_truthy x then x else y)"

lemma str_truthy_simps [simp]:
  "\<not> str_truthy None" "\<not> str_truthy (Some [])" "str_truthy (Some (c # cs))"
  by (simp_all add: str_truthy_def)

lemma str_or_simps [simp]:
  "str_or None y = y" "str_or (Some []) y = y" "str_or (Some (c # cs)) y = Some (c # cs)"
  by (simp_all add: str_or_def)

section \<open>Insertion-ordered dictionaries\<close>

type_synonym ('k, 'v) pydict = "('k \<times> 'v) list"

abbreviation pd_keys :: "('k, 'v) pydict \<Rightarrow> 'k list" where
  "pd_keys d \<equiv> map fst d"

abbreviation pd_get :: "('k, 'v) pydict \<Rightarrow> 'k \<Rightarrow> 'v option" where
  "pd_get \<equiv> map_of"

text \<open>\<open>d[k] = v\<close>: a present key keeps its place, a new one goes to the end.\<close>

fun pd_set :: "('k, 'v) pydict \<Rightarrow> 'k \<Rightarrow> 'v \<Rightarrow> ('k, 'v) pydict" where
  "pd_set [] k v = [(k, v)]"
| "pd_set ((k', v') # d) k v = (if k' = k then (k, v) # d else (k', v') # pd_set d k v)"

text \<open>\<open>d.pop(k, None)\<close> and \<open>del d[k]\<close>, the dictionary left behind.\<close>

definition pd_del :: "('k, 'v) pydict \<Rightarrow> 'k \<Rightarrow> ('k, 'v) pydict" where
  "pd_del d k = filter (\<lambda>(k', _). k' \<noteq> k) d"

text \<open>\<open>d.move_to_end(k)\<close> for a present key; the code never calls it for an absent one.\<close>

definition pd_move_to_end :: "('k, 'v) pydict \<Rightarrow> 'k \<Rightarrow> ('k, 'v) pydict" where
  "pd_move_to_end d k =
     (case pd_get d k of None \<Rightarrow> d | Some v \<Rightarrow> pd_del d k @ [(k, v)])"

text \<open>No key twice: what makes an association list a dictionary.\<close>

definition pd_ok :: "('k, 'v) pydict \<Rightarrow> bool" where
  "pd_ok d \<longleftrightarrow> distinct (pd_keys d)"

lemma pd_ok_simps [simp]:
  "pd_ok []" "pd_ok ((k, v) # d) \<longleftrightarrow> k \<notin> fst ` set d \<and> pd_ok d"
  by (auto simp: pd_ok_def)

lemma pd_ok_tl: "pd_ok (x # d) \<Longrightarrow> pd_ok d"
  by (auto simp: pd_ok_def)

lemma pd_get_set [simp]: "pd_get (pd_set d k v) = (pd_get d)(k \<mapsto> v)"
  by (induction d k v rule: pd_set.induct) (auto simp: fun_eq_iff)

lemma pd_set_not_Nil [simp]: "pd_set d k v \<noteq> []"
  by (cases "(d, k, v)" rule: pd_set.cases) auto

lemma pd_keys_set: "pd_keys (pd_set d k v) = (if k \<in> set (pd_keys d) then pd_keys d else pd_keys d @ [k])"
  by (induction d k v rule: pd_set.induct) auto

lemma fst_set_pd_set [simp]: "fst ` set (pd_set d k v) = insert k (fst ` set d)"
  using arg_cong [OF pd_keys_set, of set d k v] by (auto split: if_splits)

lemma pd_ok_set [simp]: "pd_ok d \<Longrightarrow> pd_ok (pd_set d k v)"
  unfolding pd_ok_def pd_keys_set by auto

lemma length_pd_set: "length (pd_set d k v) = (if k \<in> fst ` set d then length d else Suc (length d))"
  using arg_cong [OF pd_keys_set, of length d k v] by (auto split: if_splits)

lemma pd_del_simps [simp]: "pd_del [] k = []"
  by (simp add: pd_del_def)

lemma pd_del_Cons: "pd_del ((k', v) # d) k = (if k' = k then pd_del d k else (k', v) # pd_del d k)"
  by (simp add: pd_del_def)

lemma pd_get_del [simp]: "pd_get (pd_del d k) = (pd_get d)(k := None)"
  by (induction d) (auto simp: pd_del_def fun_eq_iff)

lemma pd_keys_del: "pd_keys (pd_del d k) = filter (\<lambda>k'. k' \<noteq> k) (pd_keys d)"
  by (induction d) (auto simp: pd_del_def)

lemma fst_set_pd_del [simp]: "fst ` set (pd_del d k) = fst ` set d - {k}"
  using arg_cong [OF pd_keys_del, of set d k] by auto

lemma set_pd_del: "set (pd_del d k) = {x \<in> set d. fst x \<noteq> k}"
  by (auto simp: pd_del_def)

lemma pd_ok_del [simp]: "pd_ok d \<Longrightarrow> pd_ok (pd_del d k)"
  unfolding pd_ok_def pd_keys_del by simp

lemma pd_del_absent [simp]: "k \<notin> fst ` set d \<Longrightarrow> pd_del d k = d"
  unfolding pd_del_def by (induction d) auto

lemma pd_get_None_iff: "pd_get d k = None \<longleftrightarrow> k \<notin> fst ` set d"
  by (rule map_of_eq_None_iff)

lemma pd_get_Some_in_keys: "pd_get d k = Some v \<Longrightarrow> k \<in> fst ` set d"
  by (metis option.distinct(1) pd_get_None_iff)

lemma pd_get_eq_Some_iff: "pd_ok d \<Longrightarrow> pd_get d k = Some v \<longleftrightarrow> (k, v) \<in> set d"
  unfolding pd_ok_def by (rule map_of_eq_Some_iff)

lemma length_pd_del: "pd_ok d \<Longrightarrow> k \<in> fst ` set d \<Longrightarrow> Suc (length (pd_del d k)) = length d"
proof (induction d)
  case (Cons x d)
  then show ?case by (cases x) (auto simp: pd_del_Cons)
qed simp

lemma length_pd_del_le: "length (pd_del d k) \<le> length d"
  by (simp add: pd_del_def)

lemma length_pd_del_less: "k \<in> fst ` set d \<Longrightarrow> length (pd_del d k) < length d"
proof (induction d)
  case (Cons x d)
  then show ?case
    using length_pd_del_le [of d k] by (cases x) (auto simp: pd_del_Cons)
qed simp

lemma pd_get_move [simp]: "pd_get (pd_move_to_end d k) = pd_get d"
  by (cases "pd_get d k") (auto simp: pd_move_to_end_def fun_eq_iff map_add_def split: option.split)

lemma fst_set_pd_move [simp]: "fst ` set (pd_move_to_end d k) = fst ` set d"
proof (cases "pd_get d k")
  case (Some v)
  then have "k \<in> fst ` set d" by (rule pd_get_Some_in_keys)
  with Some show ?thesis by (simp add: pd_move_to_end_def image_Un insert_absorb)
qed (simp add: pd_move_to_end_def)

lemma pd_ok_move [simp]: "pd_ok d \<Longrightarrow> pd_ok (pd_move_to_end d k)"
  by (cases "pd_get d k") (auto simp: pd_move_to_end_def pd_ok_def pd_keys_del)

lemma length_pd_move [simp]: "pd_ok d \<Longrightarrow> length (pd_move_to_end d k) = length d"
  using pd_get_Some_in_keys [of d k]
  by (cases "pd_get d k") (auto simp: pd_move_to_end_def length_pd_del)

lemma pd_move_last: "k \<in> fst ` set d \<Longrightarrow> fst (last (pd_move_to_end d k)) = k"
  by (auto simp: pd_move_to_end_def pd_get_None_iff split: option.split)

end
