(* ===== verification/Requests.thy ===== *)
theory Requests
  imports Prelude
begin

text \<open>
  \<open>vmlx_engine/request.py\<close>: the status enumeration, sampling parameters, the request record with
  its counters and priority order, and the restart of running requests after a cache error
  (\<open>Scheduler._reschedule_running_requests\<close> of \<open>scheduler.py\<close>).  Fields that hold MLX tensors
  (\<open>pixel_values\<close>, \<open>image_grid_thw\<close> and the like) and the opaque handles no operation of these
  files reads are left out of the record; floating-point fields are reals.
\<close>

section \<open>Status\<close>

datatype request_status =
    WAITING | RUNNING | PREEMPTED
  | FINISHED_STOPPED | FINISHED_LENGTH_CAPPED | FINISHED_ABORTED | FINISHED_ERROR

text \<open>\<open>IntEnum\<close> with \<open>enum.auto()\<close>: 1, 2, ... in the order of declaration.\<close>

fun status_value :: "request_status \<Rightarrow> int" where
  "status_value WAITING = 1"
| "status_value RUNNING = 2"
| "status_value PREEMPTED = 3"
| "status_value FINISHED_STOPPED = 4"
| "status_value FINISHED_LENGTH_CAPPED = 5"
| "status_value FINISHED_ABORTED = 6"
| "status_value FINISHED_ERROR = 7"

definition status_is_finished :: "request_status \<Rightarrow> bool" where
  "status_is_finished st \<longleftrightarrow> status_value st > status_value PREEMPTED"

definition status_finish_reason :: "request_status \<Rightarrow> string option" where
  "status_finish_reason st =
     (if st = FINISHED_STOPPED then Some ''stop''
      else if st = FINISHED_LENGTH_CAPPED then Some ''length''
      else if st = FINISHED_ABORTED then Some ''abort''
      else if st = FINISHED_ERROR then Some ''error''
      else None)"

lemma status_finish_reason_iff: "status_finish_reason st = None \<longleftrightarrow> \<not> status_is_finished st"
  by (cases st) (auto simp: status_finish_reason_def status_is_finished_def)

lemma status_finish_reason_nonempty: "status_finish_reason st \<noteq> Some []"
  by (auto simp: status_finish_reason_def)

section \<open>Sampling parameters and requests\<close>

record sampling_params =
  sp_max_tokens :: int
  sp_temperature :: real
  sp_top_p :: real
  sp_top_k :: int
  sp_min_p :: real
  sp_repetition_penalty :: real
  sp_frequency_penalty :: real
  sp_presence_penalty :: real
  sp_logit_bias :: "(int, real) pydict option"
  sp_seed :: "int option"
  sp_stop :: "string list option"
  sp_stop_token_ids :: "int list option"
  sp_logprobs :: bool
  sp_top_logprobs :: int

definition sp_default :: sampling_params where
  "sp_default = \<lparr>sp_max_tokens = 256, sp_temperature = 0, sp_top_p = 1, sp_top_k = 0, sp_min_p = 0,
     sp_repetition_penalty = 1, sp_frequency_penalty = 0, sp_presence_penalty = 0,
     sp_logit_bias = None, sp_seed = None, sp_stop = None, sp_stop_token_ids = None,
     sp_logprobs = False, sp_top_logprobs = 0\<rparr>"

text \<open>\<open>__post_init__\<close>: absent collections become empty ones.\<close>

definition sp_post_init :: "sampling_params \<Rightarrow> sampling_params" where
  "sp_post_init p =
     (let p1 = (if sp_stop p = None then p\<lparr>sp_stop := Some []\<rparr> else p);
          p2 = (if sp_stop_token_ids p1 = None then p1\<lparr>sp_stop_token_ids := Some []\<rparr> else p1);
          p3 = (if sp_logit_bias p2 = None then p2\<lparr>sp_logit_bias := Some []\<rparr> else p2)
      in p3)"

datatype prompt = PromptText string | PromptTokens "int list"

record request =
  request_id :: string
  req_prompt :: prompt
  sampling :: sampling_params
  arrival_time :: real
  priority :: int
  prompt_token_ids :: "int list option"
  num_prompt_tokens :: int
  status :: request_status
  num_computed_tokens :: int
  output_token_ids :: "int list"
  output_logprobs :: "real list"
  output_text :: string
  total_output_tokens :: int
  recovery_restarts :: int
  batch_uid :: "int option"
  prompt_cache :: "nat option"
  cached_tokens :: int
  remaining_tokens :: "int list option"
  shared_prefix_blocks :: int
  bypass_prefix_cache :: bool
  finish_reason :: "string option"

definition new_request :: "string \<Rightarrow> prompt \<Rightarrow> sampling_params \<Rightarrow> real \<Rightarrow> request" where
  "new_request rid p sp now =
     \<lparr>request_id = rid, req_prompt = p, sampling = sp, arrival_time = now, priority = 0,
      prompt_token_ids = None, num_prompt_tokens = 0, status = WAITING, num_computed_tokens = 0,
      output_token_ids = [], output_logprobs = [], output_text = [], total_output_tokens = 0,
      recovery_restarts = 0, batch_uid = None, prompt_cache = None, cached_tokens = 0,
      remaining_tokens = None, shared_prefix_blocks = 0, bypass_prefix_cache = False,
      finish_reason = None\<rparr>"

definition num_output_tokens :: "request \<Rightarrow> int" where
  "num_output_tokens r = int (length (output_token_ids r))"

definition num_tokens :: "request \<Rightarrow> int" where
  "num_tokens r = num_prompt_tokens r + num_output_tokens r"

definition req_max_tokens :: "request \<Rightarrow> int" where
  "req_max_tokens r = sp_max_tokens (sampling r)"

definition remaining_output_budget :: "request \<Rightarrow> int" where
  "remaining_output_budget r = max 1 (sp_max_tokens (sampling r) - total_output_tokens r)"

definition req_is_finished :: "request \<Rightarrow> bool" where
  "req_is_finished r = status_is_finished (status r)"

definition req_get_finish_reason :: "request \<Rightarrow> string option" where
  "req_get_finish_reason r =
     (if str_truthy (finish_reason r) then finish_reason r else status_finish_reason (status r))"

definition append_output_token :: "request \<Rightarrow> int \<Rightarrow> request" where
  "append_output_token r t =
     r\<lparr>output_token_ids := output_token_ids r @ [t],
       num_computed_tokens := num_computed_tokens r + 1,
       total_output_tokens := total_output_tokens r + 1\<rparr>"

definition set_finished :: "request \<Rightarrow> request_status \<Rightarrow> string option \<Rightarrow> request" where
  "set_finished r st reason =
     r\<lparr>status := st, finish_reason := str_or reason (status_finish_reason st)\<rparr>"

definition req_lt :: "request \<Rightarrow> request \<Rightarrow> bool" where
  "req_lt a b =
     (if priority a \<noteq> priority b then priority a < priority b
      else arrival_time a < arrival_time b)"

definition req_eq :: "request \<Rightarrow> request \<Rightarrow> bool" where
  "req_eq a b \<longleftrightarrow> request_id a = request_id b"

section \<open>Outputs\<close>

record request_output =
  ro_request_id :: string
  ro_new_token_ids :: "int list"
  ro_new_text :: string
  ro_output_token_ids :: "int list"
  ro_output_text :: string
  ro_logprobs :: "real list option"
  ro_finished :: bool
  ro_finish_reason :: "string option"
  ro_prompt_tokens :: int
  ro_completion_tokens :: int
  ro_cached_tokens :: int
  ro_cache_detail :: string
  ro_error :: "string option"
  ro_error_code :: "string option"
  ro_error_prompt_tokens :: "int option"
  ro_error_max_prompt_tokens :: "int option"
  ro_error_source :: "string option"
  ro_generated_at :: real

record usage_report =
  us_prompt_tokens :: int
  us_completion_tokens :: int
  us_total_tokens :: int
  us_cached_details :: "int option"

definition ro_usage :: "request_output \<Rightarrow> usage_report" where
  "ro_usage r =
     \<lparr>us_prompt_tokens = ro_prompt_tokens r, us_completion_tokens = ro_completion_tokens r,
      us_total_tokens = ro_prompt_tokens r + ro_completion_tokens r,
      us_cached_details = (if ro_cached_tokens r > 0 then Some (ro_cached_tokens r) else None)\<rparr>"

section \<open>Restarting running requests\<close>

text \<open>
  The two queues of the scheduler the restart touches: \<open>waiting\<close> is a deque, \<open>running\<close> a dict
  by request id.
\<close>

record sched_queues =
  waiting_q :: "request list"
  running_q :: "(string, request) pydict"

definition restart_request :: "request \<Rightarrow> request" where
  "restart_request r =
     r\<lparr>recovery_restarts := recovery_restarts r + 1, status := WAITING, batch_uid := None,
       prompt_cache := None, cached_tokens := 0, remaining_tokens := prompt_token_ids r,
       output_token_ids := [], output_text := [], num_computed_tokens := 0\<rparr>"

definition reschedule_running :: "sched_queues \<Rightarrow> sched_queues" where
  "reschedule_running s =
     fold (\<lambda>(rid, r) q. q\<lparr>waiting_q := restart_request r # waiting_q q,
                          running_q := pd_del (running_q q) rid\<rparr>)
       (running_q s) s"

section \<open>Lemmas\<close>

lemmas request_op_defs =
  num_output_tokens_def num_tokens_def req_max_tokens_def remaining_output_budget_def
  append_output_token_def restart_request_def set_finished_def

lemma fold_append_output:
  "total_output_tokens (fold (\<lambda>t r. append_output_token r t) ts r) = total_output_tokens r + int (length ts)"
  "output_token_ids (fold (\<lambda>t r. append_output_token r t) ts r) = output_token_ids r @ ts"
  "sampling (fold (\<lambda>t r. append_output_token r t) ts r) = sampling r"
  "recovery_restarts (fold (\<lambda>t r. append_output_token r t) ts r) = recovery_restarts r"
  "num_computed_tokens (fold (\<lambda>t r. append_output_token r t) ts r) = num_computed_tokens r + int (length ts)"
  by (induction ts arbitrary: r) (auto simp: append_output_token_def)

lemma reschedule_fold:
  "pd_ok d \<Longrightarrow>
   fold (\<lambda>(rid, r) q. q\<lparr>waiting_q := restart_request r # waiting_q q,
                        running_q := pd_del (running_q q) rid\<rparr>) d s =
   s\<lparr>waiting_q := rev (map (restart_request \<circ> snd) d) @ waiting_q s,
     running_q := filter (\<lambda>(k, v). k \<notin> fst ` set d) (running_q s)\<rparr>"
proof (induction d arbitrary: s)
  case (Cons x d)
  then show ?case
    by (cases x) (auto simp: pd_del_def case_prod_unfold)
qed simp

section \<open>Properties\<close>

text \<open>
  Rescheduling empties the running table, puts every running request at the front of the waiting
  queue (the last one first) in the state a fresh prefill needs, and keeps the lifetime output counter
  and, unlike the other generation state, the collected log probabilities.
\<close>

lemma reschedule_running_spec:
  assumes "pd_ok (running_q s)"
  shows "running_q (reschedule_running s) = [] \<and>
         waiting_q (reschedule_running s) = rev (map (restart_request \<circ> snd) (running_q s)) @ waiting_q s \<and>
         status (restart_request r) = WAITING \<and> output_token_ids (restart_request r) = [] \<and>
         num_computed_tokens (restart_request r) = 0 \<and>
         remaining_tokens (restart_request r) = prompt_token_ids r \<and>
         total_output_tokens (restart_request r) = total_output_tokens r \<and>
         output_logprobs (restart_request r) = output_logprobs r"
proof -
  have eq: "reschedule_running s =
    s\<lparr>waiting_q := rev (map (restart_request \<circ> snd) (running_q s)) @ waiting_q s,
      running_q := filter (\<lambda>(k, v). k \<notin> fst ` set (running_q s)) (running_q s)\<rparr>"
    unfolding reschedule_running_def by (rule reschedule_fold [OF assms])
  have "filter (\<lambda>(k, v). k \<notin> fst ` set (running_q s)) (running_q s) = []"
    by (auto simp: filter_empty_conv) (metis fst_conv image_eqI)
  with eq show ?thesis by (simp add: restart_request_def)
qed

lemma reschedule_running_spec_example:
  "\<exists>s. pd_ok (running_q s) \<and> length (running_q s) = 2 \<and> running_q (reschedule_running s) = [] \<and>
     map request_id (waiting_q (reschedule_running s)) = [''b'', ''a'', ''w'']"
proof -
  let ?r = "\<lambda>i. new_request i (PromptTokens [1]) sp_default 0"
  let ?s = "\<lparr>waiting_q = [?r ''w''], running_q = [(''a'', ?r ''a''), (''b'', ?r ''b'')]\<rparr>"
  have ok: "pd_ok (running_q ?s)" by simp
  show ?thesis
    using reschedule_running_spec [OF ok] ok
    by (intro exI [of _ ?s]) (simp add: restart_request_def new_request_def)
qed

end
