(* ===== verification/Output_Collector.thy ===== *)
theory Output_Collector
  imports Requests
begin

text \<open>
  \<open>vmlx_engine/output_collector.py\<close> and the distribution step of \<open>engine_core.py\<close>: the buffer
  between the engine loop and one streaming consumer, the count of waiting consumers shared by all
  collectors, and the batching of outputs by \<open>stream_interval\<close>.  Coroutine switches happen only at
  \<open>await\<close>, so \<open>get\<close> is modelled by the pieces between its awaits; \<open>ready\<close> is the
  \<open>asyncio.Event\<close>.
\<close>

section \<open>One collector\<close>

record collector =
  col_output :: "request_output option"
  col_ready :: bool
  col_aggregate :: bool
  col_is_waiting :: bool
  col_cancelled :: bool

definition new_collector :: "bool \<Rightarrow> collector" where
  "new_collector agg = \<lparr>col_output = None, col_ready = False, col_aggregate = agg,
     col_is_waiting = False, col_cancelled = False\<rparr>"

definition opt_or_else :: "int option \<Rightarrow> int option \<Rightarrow> int option" where
  "opt_or_else x y = (if x \<noteq> None then x else y)"

text \<open>\<open>now\<close> is the reading of \<open>time.perf_counter()\<close> by the default of \<open>generated_at\<close>.\<close>

definition merge_outputs :: "real \<Rightarrow> request_output \<Rightarrow> request_output \<Rightarrow> request_output" where
  "merge_outputs now existing new =
     \<lparr>ro_request_id = ro_request_id new,
      ro_new_token_ids = ro_new_token_ids existing @ ro_new_token_ids new,
      ro_new_text = ro_new_text existing @ ro_new_text new,
      ro_output_token_ids = ro_output_token_ids new,
      ro_output_text = ro_output_text new,
      ro_logprobs = ro_logprobs new,
      ro_finished = ro_finished new,
      ro_finish_reason = ro_finish_reason new,
      ro_prompt_tokens = ro_prompt_tokens new,
      ro_completion_tokens = ro_completion_tokens new,
      ro_cached_tokens = ro_cached_tokens new,
      ro_cache_detail = ro_cache_detail new,
      ro_error = str_or (ro_error new) (ro_error existing),
      ro_error_code = str_or (ro_error_code new) (ro_error_code existing),
      ro_error_prompt_tokens = opt_or_else (ro_error_prompt_tokens new) (ro_error_prompt_tokens existing),
      ro_error_max_prompt_tokens =
        opt_or_else (ro_error_max_prompt_tokens new) (ro_error_max_prompt_tokens existing),
      ro_error_source = str_or (ro_error_source new) (ro_error_source existing),
      ro_generated_at = now\<rparr>"

definition col_put :: "real \<Rightarrow> collector \<Rightarrow> request_output \<Rightarrow> collector" where
  "col_put now c out =
     (let c1 = (case col_output c of
                  None \<Rightarrow> c\<lparr>col_output := Some out\<rparr>
                | Some old \<Rightarrow>
                    if col_aggregate c then c\<lparr>col_output := Some (merge_outputs now old out)\<rparr>
                    else c\<lparr>col_output := Some out\<rparr>)
      in c1\<lparr>col_ready := True\<rparr>)"

definition col_get_nowait :: "collector \<Rightarrow> request_output option \<times> collector" where
  "col_get_nowait c =
     (case col_output c of
        None \<Rightarrow> (None, c)
      | Some out \<Rightarrow> (Some out, c\<lparr>col_output := None, col_ready := False\<rparr>))"

section \<open>Waiting consumers\<close>

text \<open>
  The collectors of the process, by number, and the class attribute \<open>_waiting_consumers\<close>.
  A consumer inside \<open>get\<close> is either about to test the loop condition or suspended in
  \<open>ready.wait()\<close>; \<open>get\<close> returns or raises in \<open>get_test\<close>.
\<close>

record col_system =
  cols :: "nat \<Rightarrow> collector"
  waiting_consumers :: int

definition upd_col :: "col_system \<Rightarrow> nat \<Rightarrow> collector \<Rightarrow> col_system" where
  "upd_col s i c = s\<lparr>cols := (cols s)(i := c)\<rparr>"

text \<open>Before the first test: the consumer registers itself once per collector.\<close>

definition get_enter :: "col_system \<Rightarrow> nat \<Rightarrow> col_system" where
  "get_enter s i =
     (if \<not> col_is_waiting (cols s i)
      then (upd_col s i ((cols s i)\<lparr>col_is_waiting := True\<rparr>))
             \<lparr>waiting_consumers := waiting_consumers s + 1\<rparr>
      else s)"

text \<open>The \<open>finally\<close> block.\<close>

definition get_leave :: "col_system \<Rightarrow> nat \<Rightarrow> col_system" where
  "get_leave s i =
     (if col_is_waiting (cols s i)
      then (upd_col s i ((cols s i)\<lparr>col_is_waiting := False\<rparr>))
             \<lparr>waiting_consumers := waiting_consumers s - 1\<rparr>
      else s)"

datatype get_result = Suspend | Raise py_exn | Return request_output

text \<open>
  One evaluation of the loop: with no output it raises when cancelled and otherwise suspends on the
  event; with an output it takes it through \<open>get_nowait\<close> and leaves.
\<close>

definition get_test :: "col_system \<Rightarrow> nat \<Rightarrow> get_result \<times> col_system" where
  "get_test s i =
     (let c = cols s i in
      if col_output c = None then
        (if col_cancelled c then (Raise RuntimeError, get_leave s i) else (Suspend, s))
      else
        (case col_get_nowait c of
           (None, c') \<Rightarrow> (Raise RuntimeError, get_leave (upd_col s i c') i)
         | (Some out, c') \<Rightarrow> (Return out, get_leave (upd_col s i c') i)))"

definition col_clear :: "col_system \<Rightarrow> nat \<Rightarrow> col_system" where
  "col_clear s i =
     (let s1 = upd_col s i ((cols s i)\<lparr>col_output := None, col_cancelled := True, col_ready := True\<rparr>)
      in if col_is_waiting (cols s1 i)
         then (upd_col s1 i ((cols s1 i)\<lparr>col_is_waiting := False\<rparr>))
                \<lparr>waiting_consumers := waiting_consumers s1 - 1\<rparr>
         else s1)"

definition has_waiting_consumers :: "col_system \<Rightarrow> bool" where
  "has_waiting_consumers s \<longleftrightarrow> waiting_consumers s > 0"

section \<open>Batching by \<open>stream_interval\<close>\<close>

record stream_state =
  stream_interval :: int
  sent_tokens :: int
  pending_new_text :: string
  pending_new_token_ids :: "int list"

definition should_send :: "stream_state \<Rightarrow> int \<Rightarrow> bool \<Rightarrow> bool" where
  "should_send st tot finished =
     (if finished then True
      else if sent_tokens st = 0 then True
      else tot - sent_tokens st \<ge> stream_interval st)"

definition accumulate :: "stream_state \<Rightarrow> string \<Rightarrow> int list \<Rightarrow> stream_state" where
  "accumulate st txt ids =
     st\<lparr>pending_new_text := pending_new_text st @ txt,
        pending_new_token_ids := pending_new_token_ids st @ ids\<rparr>"

definition drain_pending :: "stream_state \<Rightarrow> (string \<times> int list) \<times> stream_state" where
  "drain_pending st =
     ((pending_new_text st, pending_new_token_ids st),
      st\<lparr>pending_new_text := [], pending_new_token_ids := []\<rparr>)"

definition mark_sent :: "stream_state \<Rightarrow> int \<Rightarrow> stream_state" where
  "mark_sent st tot = st\<lparr>sent_tokens := tot\<rparr>"

text \<open>
  The engine's distribution of one output to a request with a collector and a stream state
  (\<open>simple\<close>: every \<open>stream_interval\<close> is 1 and the batching is skipped).
\<close>

definition distribute ::
  "bool \<Rightarrow> real \<Rightarrow> stream_state \<times> collector \<Rightarrow> request_output \<Rightarrow> stream_state \<times> collector" where
  "distribute simple now sc out =
     (let (st, c) = sc in
      if simple then (st, col_put now c out)
      else if should_send st (ro_completion_tokens out) (ro_finished out) then
        (let ((txt, ids), st1) = drain_pending st;
             out1 = (if txt \<noteq> [] \<or> ids \<noteq> []
                     then out\<lparr>ro_new_text := txt @ ro_new_text out,
                              ro_new_token_ids := ids @ ro_new_token_ids out\<rparr>
                     else out)
         in (mark_sent st1 (ro_completion_tokens out1), col_put now c out1))
      else (accumulate st (ro_new_text out) (ro_new_token_ids out), c))"

section \<open>Lemmas\<close>

text \<open>What a collector and a stream state still hold back from the consumer.\<close>

definition buffered_ids :: "collector \<Rightarrow> int list" where
  "buffered_ids c = (case col_output c of None \<Rightarrow> [] | Some out \<Rightarrow> ro_new_token_ids out)"

definition buffered_text :: "collector \<Rightarrow> string" where
  "buffered_text c = (case col_output c of None \<Rightarrow> [] | Some out \<Rightarrow> ro_new_text out)"

lemma col_put_aggregate [simp]: "col_aggregate (col_put now c out) = col_aggregate c"
  by (simp add: col_put_def Let_def split: option.split)

lemma buffered_put:
  assumes "col_aggregate c"
  shows "buffered_ids (col_put now c out) = buffered_ids c @ ro_new_token_ids out"
    and "buffered_text (col_put now c out) = buffered_text c @ ro_new_text out"
  using assms
  by (auto simp: col_put_def buffered_ids_def buffered_text_def merge_outputs_def Let_def split: option.split)

lemma distribute_conserves:
  assumes "distribute simple now (st, c) out = (st', c')" and "col_aggregate c"
    and "simple \<Longrightarrow> pending_new_token_ids st = [] \<and> pending_new_text st = []"
  shows "buffered_ids c' @ pending_new_token_ids st' =
         buffered_ids c @ pending_new_token_ids st @ ro_new_token_ids out"
    and "buffered_text c' @ pending_new_text st' =
         buffered_text c @ pending_new_text st @ ro_new_text out"
    and "col_aggregate c'"
    and "simple \<Longrightarrow> st' = st"
  using assms
  by (auto simp: distribute_def drain_pending_def mark_sent_def accumulate_def buffered_put Let_def
      split: if_splits prod.splits)

lemma get_nowait_conserves:
  assumes "col_get_nowait c = (r, c')"
  shows "(case r of None \<Rightarrow> [] | Some out \<Rightarrow> ro_new_token_ids out) @ buffered_ids c' = buffered_ids c"
    and "(case r of None \<Rightarrow> [] | Some out \<Rightarrow> ro_new_text out) @ buffered_text c' = buffered_text c"
    and "col_aggregate c' = col_aggregate c"
  using assms
  by (auto simp: col_get_nowait_def buffered_ids_def buffered_text_def split: option.splits)

text \<open>
  One stream as a transition system: the engine distributes an output, or the consumer polls.
  The two histories record what was produced and what was delivered.
\<close>

record stream_run =
  sr_state :: stream_state
  sr_col :: collector
  sr_produced :: "request_output list"
  sr_delivered :: "request_output list"

inductive stream_step :: "bool \<Rightarrow> stream_run \<Rightarrow> stream_run \<Rightarrow> bool" for simple where
  engine: "distribute simple now (sr_state s, sr_col s) out = (st', c') \<Longrightarrow>
     stream_step simple s (s\<lparr>sr_state := st', sr_col := c', sr_produced := sr_produced s @ [out]\<rparr>)"
| poll_hit: "col_get_nowait (sr_col s) = (Some out, c') \<Longrightarrow>
     stream_step simple s (s\<lparr>sr_col := c', sr_delivered := sr_delivered s @ [out]\<rparr>)"
| poll_miss: "col_get_nowait (sr_col s) = (None, c') \<Longrightarrow>
     stream_step simple s (s\<lparr>sr_col := c'\<rparr>)"

definition stream_start :: "int \<Rightarrow> stream_run" where
  "stream_start n =
     \<lparr>sr_state = \<lparr>stream_interval = n, sent_tokens = 0, pending_new_text = [], pending_new_token_ids = []\<rparr>,
      sr_col = new_collector True, sr_produced = [], sr_delivered = []\<rparr>"

definition all_ids :: "request_output list \<Rightarrow> int list" where
  "all_ids outs = concat (map ro_new_token_ids outs)"

definition all_text :: "request_output list \<Rightarrow> string" where
  "all_text outs = concat (map ro_new_text outs)"

definition stream_inv :: "bool \<Rightarrow> stream_run \<Rightarrow> bool" where
  "stream_inv simple s \<longleftrightarrow>
     col_aggregate (sr_col s) \<and>
     (simple \<longrightarrow> pending_new_token_ids (sr_state s) = [] \<and> pending_new_text (sr_state s) = []) \<and>
     all_ids (sr_delivered s) @ buffered_ids (sr_col s) @ pending_new_token_ids (sr_state s) =
       all_ids (sr_produced s) \<and>
     all_text (sr_delivered s) @ buffered_text (sr_col s) @ pending_new_text (sr_state s) =
       all_text (sr_produced s)"

lemma stream_inv_start: "stream_inv simple (stream_start n)"
  by (simp add: stream_inv_def stream_start_def new_collector_def buffered_ids_def buffered_text_def
      all_ids_def all_text_def)

lemma stream_step_inv: "stream_step simple s t \<Longrightarrow> stream_inv simple s \<Longrightarrow> stream_inv simple t"
proof (induction rule: stream_step.induct)
  case (engine now s out st' c')
  then have agg: "col_aggregate (sr_col s)"
    and sim: "simple \<Longrightarrow> pending_new_token_ids (sr_state s) = [] \<and> pending_new_text (sr_state s) = []"
    by (simp_all add: stream_inv_def)
  note con = distribute_conserves [OF engine.hyps agg sim]
  show ?case
    using engine.prems con by (auto simp: stream_inv_def all_ids_def all_text_def)
next
  case (poll_hit s out c')
  note con = get_nowait_conserves [OF poll_hit.hyps]
  have "buffered_ids (sr_col s) = ro_new_token_ids out @ buffered_ids c'"
    and "buffered_text (sr_col s) = ro_new_text out @ buffered_text c'"
    using con(1,2) by simp_all
  with poll_hit.prems con(3) show ?case
    by (simp add: stream_inv_def all_ids_def all_text_def)
next
  case (poll_miss s c')
  then show ?case
    using get_nowait_conserves [OF poll_miss.hyps]
    by (simp add: stream_inv_def all_ids_def all_text_def)
qed

lemma stream_run_inv: "(stream_step simple)\<^sup>*\<^sup>* s t \<Longrightarrow> stream_inv simple s \<Longrightarrow> stream_inv simple t"
  by (induction rule: rtranclp_induct) (auto intro: stream_step_inv)

subsection \<open>The count of waiting consumers\<close>

definition waiting_set :: "col_system \<Rightarrow> nat set" where
  "waiting_set s = {i. col_is_waiting (cols s i)}"

definition waiting_ok :: "col_system \<Rightarrow> bool" where
  "waiting_ok s \<longleftrightarrow> finite (waiting_set s) \<and> waiting_consumers s = int (card (waiting_set s))"

inductive col_step :: "col_system \<Rightarrow> col_system \<Rightarrow> bool" where
  cs_put: "col_step s (upd_col s i (col_put now (cols s i) out))"
| cs_poll: "col_get_nowait (cols s i) = (r, c') \<Longrightarrow> col_step s (upd_col s i c')"
| cs_enter: "col_step s (get_enter s i)"
| cs_test: "get_test s i = (r, s') \<Longrightarrow> col_step s s'"
| cs_clear: "col_step s (col_clear s i)"

lemma waiting_set_upd:
  "waiting_set (upd_col s i c) = (if col_is_waiting c then insert i (waiting_set s) else waiting_set s - {i})"
  by (auto simp: waiting_set_def upd_col_def)

lemma waiting_set_more [simp]: "waiting_set (s\<lparr>waiting_consumers := n\<rparr>) = waiting_set s"
  by (simp add: waiting_set_def)

lemma in_waiting_set: "i \<in> waiting_set s \<longleftrightarrow> col_is_waiting (cols s i)"
  by (simp add: waiting_set_def)

lemma waiting_consumers_upd [simp]: "waiting_consumers (upd_col s i c) = waiting_consumers s"
  by (simp add: upd_col_def)

lemma cols_upd [simp]: "cols (upd_col s i c) i = c"
  by (simp add: upd_col_def)

lemma waiting_ok_same:
  "waiting_ok s \<Longrightarrow> col_is_waiting c = col_is_waiting (cols s i) \<Longrightarrow> waiting_ok (upd_col s i c)"
  by (auto simp: waiting_ok_def waiting_set_upd insert_absorb in_waiting_set)

lemma col_put_waiting [simp]: "col_is_waiting (col_put now c out) = col_is_waiting c"
  by (simp add: col_put_def Let_def split: option.split)

lemma get_nowait_waiting: "col_get_nowait c = (r, c') \<Longrightarrow> col_is_waiting c' = col_is_waiting c"
  by (auto simp: col_get_nowait_def split: option.splits)

lemma waiting_ok_enter: "waiting_ok s \<Longrightarrow> waiting_ok (get_enter s i)"
  by (auto simp: get_enter_def waiting_ok_def waiting_set_upd in_waiting_set)

lemma waiting_ok_leave: "waiting_ok s \<Longrightarrow> waiting_ok (get_leave s i)"
proof -
  assume ok: "waiting_ok s"
  show ?thesis
  proof (cases "col_is_waiting (cols s i)")
    case True
    then have "i \<in> waiting_set s" by (simp add: in_waiting_set)
    with ok have "int (card (waiting_set s - {i})) = waiting_consumers s - 1"
      by (simp add: waiting_ok_def of_nat_diff card_Diff_singleton) (metis One_nat_def Suc_leI card_gt_0_iff empty_iff of_nat_1 of_nat_diff)
    with True ok show ?thesis
      by (simp add: get_leave_def waiting_ok_def waiting_set_upd)
  qed (use ok in \<open>simp add: get_leave_def\<close>)
qed

lemma waiting_ok_test: "get_test s i = (r, s') \<Longrightarrow> waiting_ok s \<Longrightarrow> waiting_ok s'"
  by (auto simp: get_test_def Let_def dest: get_nowait_waiting
      intro!: waiting_ok_leave waiting_ok_same split: if_splits prod.splits option.splits)

lemma col_clear_via_leave:
  "col_clear s i =
   get_leave (upd_col s i ((cols s i)\<lparr>col_output := None, col_cancelled := True, col_ready := True\<rparr>)) i"
  by (simp add: col_clear_def get_leave_def Let_def)

lemma waiting_ok_clear: "waiting_ok s \<Longrightarrow> waiting_ok (col_clear s i)"
  unfolding col_clear_via_leave by (intro waiting_ok_leave waiting_ok_same) simp_all

lemma col_step_waiting_ok: "col_step s t \<Longrightarrow> waiting_ok s \<Longrightarrow> waiting_ok t"
  by (induction rule: col_step.induct)
    (auto intro: waiting_ok_same waiting_ok_enter waiting_ok_test waiting_ok_clear dest: get_nowait_waiting)

lemma col_run_waiting_ok: "col_step\<^sup>*\<^sup>* s t \<Longrightarrow> waiting_ok s \<Longrightarrow> waiting_ok t"
  by (induction rule: rtranclp_induct) (auto intro: col_step_waiting_ok)

lemma waiting_ok_pos: "waiting_ok s \<Longrightarrow> waiting_consumers s > 0 \<longleftrightarrow> waiting_set s \<noteq> {}"
  by (auto simp: waiting_ok_def card_gt_0_iff)

subsection \<open>The end of a stream\<close>

definition ended :: "stream_run \<Rightarrow> bool" where
  "ended s \<longleftrightarrow> sr_produced s \<noteq> [] \<and> ro_finished (last (sr_produced s))"

definition flushed_at_end :: "stream_run \<Rightarrow> bool" where
  "flushed_at_end s \<longleftrightarrow>
     (ended s \<longrightarrow> pending_new_token_ids (sr_state s) = [] \<and> pending_new_text (sr_state s) = [])"

lemma distribute_finished:
  assumes "distribute simple now (st, c) out = (st', c')" and "ro_finished out"
    and "simple \<Longrightarrow> pending_new_token_ids st = [] \<and> pending_new_text st = []"
  shows "pending_new_token_ids st' = []" and "pending_new_text st' = []"
  using assms
  by (auto simp: distribute_def should_send_def drain_pending_def mark_sent_def Let_def
      split: if_splits prod.splits)

lemma stream_step_flushed:
  "stream_step simple s t \<Longrightarrow> stream_inv simple s \<Longrightarrow> flushed_at_end s \<Longrightarrow> flushed_at_end t"
proof (induction rule: stream_step.induct)
  case (engine now s out st' c')
  then show ?case
    using distribute_finished [OF engine.hyps]
    by (auto simp: flushed_at_end_def ended_def stream_inv_def)
qed (auto simp: flushed_at_end_def ended_def)

lemma stream_run_flushed:
  "(stream_step simple)\<^sup>*\<^sup>* s t \<Longrightarrow> stream_inv simple s \<Longrightarrow> flushed_at_end s \<Longrightarrow> flushed_at_end t"
proof (induction rule: rtranclp_induct)
  case (step t u)
  then show ?case by (blast intro: stream_step_flushed stream_run_inv)
qed

section \<open>Properties\<close>

text \<open>
  C12. No token is lost or reordered between the engine and the consumer, whatever the stream interval
  and however engine steps and polls interleave: the token ids and the text delivered so far, followed
  by what the collector buffers and by what the stream state holds back, are those produced.
\<close>

theorem stream_conserves_output:
  assumes "(stream_step simple)\<^sup>*\<^sup>* (stream_start n) s"
  shows "all_ids (sr_delivered s) @ buffered_ids (sr_col s) @ pending_new_token_ids (sr_state s) =
         all_ids (sr_produced s) \<and>
         all_text (sr_delivered s) @ buffered_text (sr_col s) @ pending_new_text (sr_state s) =
         all_text (sr_produced s)"
  using stream_run_inv [OF assms stream_inv_start] by (auto simp: stream_inv_def)

definition sample_output :: "int list \<Rightarrow> string \<Rightarrow> int \<Rightarrow> bool \<Rightarrow> request_output" where
  "sample_output ids txt n fin =
     \<lparr>ro_request_id = ''r'', ro_new_token_ids = ids, ro_new_text = txt, ro_output_token_ids = [],
      ro_output_text = [], ro_logprobs = None, ro_finished = fin, ro_finish_reason = None,
      ro_prompt_tokens = 1, ro_completion_tokens = n, ro_cached_tokens = 0, ro_cache_detail = [],
      ro_error = None, ro_error_code = None, ro_error_prompt_tokens = None,
      ro_error_max_prompt_tokens = None, ro_error_source = None, ro_generated_at = 0\<rparr>"

lemmas stream_eval = stream_start_def new_collector_def distribute_def should_send_def col_put_def
  drain_pending_def mark_sent_def accumulate_def col_get_nowait_def sample_output_def merge_outputs_def

theorem stream_conserves_output_witness:
  "\<exists>s. (stream_step False)\<^sup>*\<^sup>* (stream_start 3) s \<and> all_ids (sr_produced s) = [4, 5] \<and>
     all_ids (sr_delivered s) = [4] \<and>
     all_ids (sr_delivered s) @ buffered_ids (sr_col s) @ pending_new_token_ids (sr_state s) = [4, 5]"
proof -
  let ?s0 = "stream_start 3"
  let ?o1 = "sample_output [4] ''a'' 1 False"
  let ?o2 = "sample_output [5] ''b'' 2 False"
  obtain st1 c1 where d1: "distribute False 0 (sr_state ?s0, sr_col ?s0) ?o1 = (st1, c1)" by fastforce
  let ?s1 = "?s0\<lparr>sr_state := st1, sr_col := c1, sr_produced := sr_produced ?s0 @ [?o1]\<rparr>"
  have e1: "stream_step False ?s0 ?s1" by (rule engine [OF d1])
  obtain c2 where g: "col_get_nowait (sr_col ?s1) = (Some ?o1, c2)"
    using d1 by (auto simp: stream_eval Let_def)
  let ?s2 = "?s1\<lparr>sr_col := c2, sr_delivered := sr_delivered ?s1 @ [?o1]\<rparr>"
  have e2: "stream_step False ?s1 ?s2" by (rule poll_hit [OF g])
  obtain st3 c3 where d3: "distribute False 0 (sr_state ?s2, sr_col ?s2) ?o2 = (st3, c3)" by fastforce
  let ?s3 = "?s2\<lparr>sr_state := st3, sr_col := c3, sr_produced := sr_produced ?s2 @ [?o2]\<rparr>"
  have e3: "stream_step False ?s2 ?s3" by (rule engine [OF d3])
  from e1 e2 e3 have run: "(stream_step False)\<^sup>*\<^sup>* ?s0 ?s3"
    by (meson converse_rtranclp_into_rtranclp r_into_rtranclp)
  have "all_ids (sr_produced ?s3) = [4, 5]" and "all_ids (sr_delivered ?s3) = [4]"
    by (simp_all add: all_ids_def stream_start_def sample_output_def)
  with run stream_conserves_output [OF run] show ?thesis by metis
qed

text \<open>
  A stream that ended (its last output was marked finished) and was polled until the collector
  is empty has delivered every token id and all the text that was produced.
\<close>

lemma ended_stream_delivered:
  assumes "(stream_step simple)\<^sup>*\<^sup>* (stream_start n) s" and "ended s"
    and "col_output (sr_col s) = None"
  shows "all_ids (sr_delivered s) = all_ids (sr_produced s) \<and>
         all_text (sr_delivered s) = all_text (sr_produced s)"
proof -
  have "flushed_at_end (stream_start n)"
    by (simp add: flushed_at_end_def ended_def stream_start_def)
  with assms(1) have "flushed_at_end s"
    by (rule stream_run_flushed [OF _ stream_inv_start])
  with assms(2,3) stream_run_inv [OF assms(1) stream_inv_start]
  show ?thesis
    by (auto simp: flushed_at_end_def stream_inv_def buffered_ids_def buffered_text_def)
qed

text \<open>
  The process-wide counter of waiting consumers is always the number of collectors with a
  registered consumer, so \<open>has_waiting_consumers\<close> is exact and the counter never goes negative, for
  every interleaving of \<open>put\<close>, \<open>get_nowait\<close>, the pieces of \<open>get\<close> and \<open>clear\<close>.
\<close>

lemma waiting_counter_exact:
  assumes "col_step\<^sup>*\<^sup>* s t" and "waiting_consumers s = 0" and "\<forall>i. \<not> col_is_waiting (cols s i)"
  shows "waiting_consumers t = int (card (waiting_set t)) \<and>
         (has_waiting_consumers t \<longleftrightarrow> (\<exists>i. col_is_waiting (cols t i)))"
proof -
  have "waiting_ok s" using assms(2,3) by (simp add: waiting_ok_def waiting_set_def)
  with assms(1) have ok: "waiting_ok t" by (rule col_run_waiting_ok)
  then show ?thesis
    using waiting_ok_pos [OF ok] by (auto simp: waiting_ok_def has_waiting_consumers_def waiting_set_def)
qed

end
