(* ===== verification/Py_Values.thy ===== *)
theory Py_Values
  imports Prelude
begin

text \<open>
  The dynamic values the cache code inspects: request discriminators (\<open>cache_extra_keys\<close>) and
  cache payloads.  An MLX array is its dtype name, shape and raw bytes.  Values are trees: a payload
  whose containers share objects is not distinguished from its unfolding.
\<close>

datatype pyval =
    PyNone
  | PyBool bool
  | PyInt int
  | PyFloat real
  | PyStr string
  | PyBytes string
  | PyTuple "pyval list"
  | PyList "pyval list"
  | PyDict "(pyval \<times> pyval) list"
  | PyArray string "int list" string

text \<open>\<open>len(...)\<close> of tuples and lists; \<open>isinstance(v, (tuple, list))\<close>.\<close>

fun py_items :: "pyval \<Rightarrow> pyval list option" where
  "py_items (PyTuple vs) = Some vs"
| "py_items (PyList vs) = Some vs"
| "py_items _ = None"

fun py_str_of :: "pyval \<Rightarrow> string option" where
  "py_str_of (PyStr s) = Some s"
| "py_str_of _ = None"

fun py_dict_of :: "pyval \<Rightarrow> (pyval \<times> pyval) list option" where
  "py_dict_of (PyDict d) = Some d"
| "py_dict_of _ = None"

text \<open>
  \<open>int(v)\<close> on the values that occur: integers, booleans and floats (truncation towards zero);
  everything else raises.  Numeric strings, which \<open>int\<close> would parse, are read by the parameter
  \<open>parse_int\<close> of the definitions that need them.
\<close>

definition trunc_real :: "real \<Rightarrow> int" where
  "trunc_real x = (if 0 \<le> x then \<lfloor>x\<rfloor> else \<lceil>x\<rceil>)"

fun py_int :: "(string \<Rightarrow> int option) \<Rightarrow> pyval \<Rightarrow> int may_raise" where
  "py_int parse (PyInt i) = Inr i"
| "py_int parse (PyBool b) = Inr (if b then 1 else 0)"
| "py_int parse (PyFloat x) = Inr (trunc_real x)"
| "py_int parse (PyStr s) = (case parse s of None \<Rightarrow> Inl ValueError | Some i \<Rightarrow> Inr i)"
| "py_int parse (PyBytes s) = (case parse s of None \<Rightarrow> Inl ValueError | Some i \<Rightarrow> Inr i)"
| "py_int parse _ = Inl TypeError"

section \<open>Text of values\<close>

text \<open>
  A \<open>string\<close> of the model is the UTF-8 byte sequence of a Python string.  Decimal notation is
  written out; the \<open>repr\<close> of floats, strings, bytes and containers is Python's own and a parameter
  \<open>rp\<close> of the definitions.
\<close>

fun digits_of :: "nat \<Rightarrow> string" where
  "digits_of n = (if n < 10 then [char_of (48 + n)] else digits_of (n div 10) @ [char_of (48 + n mod 10)])"

declare digits_of.simps [simp del]

definition show_int :: "int \<Rightarrow> string" where
  "show_int i = (if i < 0 then CHR ''-'' # digits_of (nat (- i)) else digits_of (nat i))"

definition numeric_char :: "char \<Rightarrow> bool" where
  "numeric_char c \<longleftrightarrow> c = CHR ''-'' \<or> (48 \<le> (of_char c :: nat) \<and> (of_char c :: nat) < 58)"

text \<open>\<open>str(tuple(xs))\<close> of a list of integers.\<close>

fun str_tuple_tail :: "int list \<Rightarrow> string" where
  "str_tuple_tail [] = '')''"
| "str_tuple_tail (i # is) = '', '' @ show_int i @ str_tuple_tail is"

fun str_tuple_rest :: "int list \<Rightarrow> string" where
  "str_tuple_rest [] = '',)''"
| "str_tuple_rest (i # is) = str_tuple_tail (i # is)"

fun str_tuple :: "int list \<Rightarrow> string" where
  "str_tuple [] = ''()''"
| "str_tuple (i # is) = ''('' @ show_int i @ str_tuple_rest is"

fun py_type_name :: "pyval \<Rightarrow> string" where
  "py_type_name PyNone = ''NoneType''"
| "py_type_name (PyBool _) = ''bool''"
| "py_type_name (PyInt _) = ''int''"
| "py_type_name (PyFloat _) = ''float''"
| "py_type_name (PyStr _) = ''str''"
| "py_type_name (PyBytes _) = ''bytes''"
| "py_type_name (PyTuple _) = ''tuple''"
| "py_type_name (PyList _) = ''list''"
| "py_type_name (PyDict _) = ''dict''"
| "py_type_name (PyArray _ _ _) = ''array''"

fun py_repr :: "(pyval \<Rightarrow> string) \<Rightarrow> pyval \<Rightarrow> string" where
  "py_repr rp PyNone = ''None''"
| "py_repr rp (PyBool b) = (if b then ''True'' else ''False'')"
| "py_repr rp (PyInt i) = show_int i"
| "py_repr rp v = rp v"

fun py_str :: "(pyval \<Rightarrow> string) \<Rightarrow> pyval \<Rightarrow> string" where
  "py_str rp (PyStr s) = s"
| "py_str rp v = py_repr rp v"

text \<open>\<open>str.strip()\<close> and \<open>str.lower()\<close> on ASCII text.\<close>

definition space_char :: "char \<Rightarrow> bool" where
  "space_char c \<longleftrightarrow> (let n = (of_char c :: nat) in n = 32 \<or> (9 \<le> n \<and> n \<le> 13) \<or> (28 \<le> n \<and> n \<le> 31))"

definition py_strip :: "string \<Rightarrow> string" where
  "py_strip s = rev (dropWhile space_char (rev (dropWhile space_char s)))"

definition lower_char :: "char \<Rightarrow> char" where
  "lower_char c = (let n = (of_char c :: nat) in if 65 \<le> n \<and> n \<le> 90 then char_of (n + 32) else c)"

definition py_lower :: "string \<Rightarrow> string" where
  "py_lower s = map lower_char s"

lemma digit_char: "n < 10 \<Longrightarrow> (of_char (char_of (48 + n) :: char) :: nat) = 48 + n"
  by (simp add: of_char_of)

lemma digits_of_numeric: "c \<in> set (digits_of n) \<Longrightarrow> 48 \<le> (of_char c :: nat) \<and> (of_char c :: nat) < 58"
  by (induction n rule: digits_of.induct) (subst (asm) (2) digits_of.simps, auto simp: digit_char split: if_splits)

lemma digits_of_not_Nil [simp]: "digits_of n \<noteq> []"
  by (subst digits_of.simps) simp

lemma digits_of_single: "length (digits_of n) = 1 \<longleftrightarrow> n < 10"
  by (subst digits_of.simps) simp

lemma digits_of_inj: "digits_of m = digits_of n \<Longrightarrow> m = n"
proof (induction m arbitrary: n rule: digits_of.induct)
  case (1 m)
  have char_inj: "(char_of (48 + i) :: char) = char_of (48 + j) \<Longrightarrow> i = j" if "i < 10" "j < 10" for i j :: nat
    using that digit_char by (metis add_left_cancel)
  show ?case
  proof (cases "m < 10"; cases "n < 10")
    assume "m < 10" "n < 10"
    then show ?thesis using "1.prems" char_inj by (simp add: digits_of.simps [of m] digits_of.simps [of n])
  next
    assume "m < 10" "\<not> n < 10"
    then show ?thesis using "1.prems" digits_of_single [of m] digits_of_single [of n] by simp
  next
    assume "\<not> m < 10" "n < 10"
    then show ?thesis using "1.prems" digits_of_single [of m] digits_of_single [of n] by simp
  next
    assume big: "\<not> m < 10" "\<not> n < 10"
    with "1.prems" have "digits_of (m div 10) = digits_of (n div 10)"
      and "(char_of (48 + m mod 10) :: char) = char_of (48 + n mod 10)"
      by (simp_all add: digits_of.simps [of m] digits_of.simps [of n])
    then have "m div 10 = n div 10" "m mod 10 = n mod 10"
      using "1.IH" [OF big(1)] char_inj [of "m mod 10" "n mod 10"] by simp_all
    then show ?thesis by (metis div_mult_mod_eq)
  qed
qed

lemma show_int_numeric: "c \<in> set (show_int i) \<Longrightarrow> numeric_char c"
  using digits_of_numeric by (auto simp: show_int_def numeric_char_def split: if_splits)

lemma digits_of_no_minus: "digits_of n \<noteq> CHR ''-'' # cs"
proof
  assume "digits_of n = CHR ''-'' # cs"
  then have "CHR ''-'' \<in> set (digits_of n)" by simp
  then show False using digits_of_numeric [of "CHR ''-''" n] by simp
qed

lemma show_int_inj: "show_int i = show_int j \<Longrightarrow> i = j"
  using digits_of_no_minus digits_of_no_minus [symmetric] digits_of_inj
  by (auto simp: show_int_def split: if_splits dest!: digits_of_inj)

lemma show_int_eq [simp]: "show_int i = show_int j \<longleftrightarrow> i = j"
  using show_int_inj by blast

lemma takeWhile_numeric:
  "\<not> numeric_char c \<Longrightarrow> takeWhile numeric_char (show_int i @ c # r) = show_int i"
  by (simp add: takeWhile_append2 show_int_numeric)

text \<open>A decimal followed by a non-numeric character is read back.\<close>

lemma show_int_append:
  assumes "show_int i @ c # r = show_int j @ d # s" and "\<not> numeric_char c" "\<not> numeric_char d"
  shows "i = j \<and> c = d \<and> r = s"
proof -
  have "show_int i = show_int j"
    using arg_cong [OF assms(1), of "takeWhile numeric_char"] takeWhile_numeric assms(2,3) by simp
  then show ?thesis using assms(1) show_int_inj by auto
qed

lemma not_numeric [simp]:
  "\<not> numeric_char CHR '',''" "\<not> numeric_char CHR '')''" "\<not> numeric_char CHR ''(''" "\<not> numeric_char CHR ''|''"
  by (simp_all add: numeric_char_def)

lemma str_tuple_tail_prefix:
  "str_tuple_tail is @ r = str_tuple_tail js @ s \<Longrightarrow> is = js \<and> r = s"
proof (induction "is" arbitrary: js)
  case Nil
  then show ?case by (cases js) auto
next
  case (Cons i "is")
  then obtain j js' where js: "js = j # js'" by (cases js) auto
  obtain c x where x: "str_tuple_tail is @ r = c # x" "\<not> numeric_char c" by (cases "is") auto
  obtain d y where y: "str_tuple_tail js' @ s = d # y" "\<not> numeric_char d" by (cases js') auto
  from Cons.prems js have "show_int i @ c # x = show_int j @ d # y" using x(1) y(1) by simp
  from show_int_append [OF this x(2) y(2)] have "i = j" "str_tuple_tail is @ r = str_tuple_tail js' @ s"
    using x y by simp_all
  with Cons.IH js show ?case by simp
qed

lemma str_tuple_rest_prefix:
  "str_tuple_rest is @ r = str_tuple_rest js @ s \<Longrightarrow> is = js \<and> r = s"
  by (cases "is"; cases js) (auto simp del: str_tuple_tail.simps dest: str_tuple_tail_prefix, simp_all)

lemma str_tuple_rest_head: "\<exists>c x. str_tuple_rest is @ r = c # x \<and> \<not> numeric_char c"
  by (cases "is") simp_all

lemma show_int_head: "\<exists>c x. show_int i = c # x \<and> numeric_char c"
  using show_int_numeric [of _ i] by (cases "show_int i") (auto simp: show_int_def split: if_splits)

text \<open>The text of a tuple of integers determines it and where it ends.\<close>

lemma str_tuple_prefix:
  assumes "str_tuple is @ r = str_tuple js @ s"
  shows "is = js \<and> r = s"
proof (cases "is"; cases js)
  fix i is' j js' assume eq: "is = i # is'" "js = j # js'"
  obtain c x where x: "str_tuple_rest is' @ r = c # x" "\<not> numeric_char c"
    using str_tuple_rest_head by blast
  obtain d y where y: "str_tuple_rest js' @ s = d # y" "\<not> numeric_char d"
    using str_tuple_rest_head by blast
  from assms eq x y have "show_int i @ c # x = show_int j @ d # y" by simp
  from show_int_append [OF this x(2) y(2)] have "i = j" "str_tuple_rest is' @ r = str_tuple_rest js' @ s"
    using x y by simp_all
  then show ?thesis using eq str_tuple_rest_prefix by blast
next
  fix j js' assume "is = []" "js = j # js'"
  then show ?thesis using assms show_int_head [of j] by auto
next
  fix i is' assume "is = i # is'" "js = []"
  then show ?thesis using assms show_int_head [of i] by auto
qed (use assms in simp)

end
