(* ===== verification/Free_Queue.thy ===== *)
theory Free_Queue
  imports Py_Values
begin

text \<open>
  \<open>vmlx_engine/paged_cache.py\<close>: \<open>CacheBlock\<close> and \<open>FreeKVCacheBlockQueue\<close>, the intrusive doubly
  linked list of free blocks.  Blocks are heap objects: a reference to a block is its \<open>block_id\<close>,
  the two sentinels of the queue are the blocks \<open>-1\<close> and \<open>-2\<close>, and \<open>blk\<close> is the heap.  The queue
  refines a list of block ids (\<open>queue_rep\<close>).
\<close>

section \<open>Blocks\<close>

record cache_block =
  block_id :: int
  ref_count :: int
  block_hash :: "string option"
  parent_hash :: "string option"
  prev_free_block :: "int option"
  next_free_block :: "int option"
  is_null :: bool
  cache_data :: "pyval option"
  cache_data_from_disk :: bool
  cache_data_transient :: bool
  dsv4_native_interval :: "(int \<times> int) option"
  suppress_l2_republish :: bool
  block_resident_bytes :: int
  keep_resident :: bool
  durability_write_pending :: bool
  durability_retry_after :: real
  release_resident_when_unreferenced :: bool
  token_count :: int
  hash_value :: "string option"
  last_access :: real

definition new_block :: "int \<Rightarrow> cache_block" where
  "new_block i = \<lparr>block_id = i, ref_count = 0, block_hash = None, parent_hash = None,
     prev_free_block = None, next_free_block = None, is_null = False, cache_data = None,
     cache_data_from_disk = False, cache_data_transient = False, dsv4_native_interval = None,
     suppress_l2_republish = False, block_resident_bytes = 0, keep_resident = False,
     durability_write_pending = False, durability_retry_after = 0,
     release_resident_when_unreferenced = False, token_count = 0, hash_value = None,
     last_access = 0\<rparr>"

definition is_full :: "cache_block \<Rightarrow> int \<Rightarrow> bool" where
  "is_full b bsize \<longleftrightarrow> token_count b \<ge> bsize"

definition is_shared :: "cache_block \<Rightarrow> bool" where
  "is_shared b \<longleftrightarrow> ref_count b > 1"

definition reset_hash :: "cache_block \<Rightarrow> cache_block" where
  "reset_hash b = b\<lparr>block_hash := None, parent_hash := None, hash_value := None,
     cache_data_from_disk := False, cache_data_transient := False, dsv4_native_interval := None,
     suppress_l2_republish := False, keep_resident := False, durability_write_pending := False,
     durability_retry_after := 0, release_resident_when_unreferenced := False\<rparr>"

definition touch_block :: "real \<Rightarrow> cache_block \<Rightarrow> cache_block" where
  "touch_block now b = b\<lparr>last_access := now\<rparr>"

section \<open>The heap and the queue\<close>

record block_heap =
  blk :: "int \<Rightarrow> cache_block"
  num_free_blocks :: int

abbreviation (input) fake_head :: int where "fake_head \<equiv> -1"
abbreviation (input) fake_tail :: int where "fake_tail \<equiv> -2"

definition upd_blk :: "('a block_heap_scheme) \<Rightarrow> int \<Rightarrow> (cache_block \<Rightarrow> cache_block) \<Rightarrow> 'a block_heap_scheme" where
  "upd_blk s i f = s\<lparr>blk := (blk s)(i := f (blk s i))\<rparr>"

definition set_next :: "'a block_heap_scheme \<Rightarrow> int \<Rightarrow> int option \<Rightarrow> 'a block_heap_scheme" where
  "set_next s i v = upd_blk s i (\<lambda>b. b\<lparr>next_free_block := v\<rparr>)"

definition set_prev :: "'a block_heap_scheme \<Rightarrow> int \<Rightarrow> int option \<Rightarrow> 'a block_heap_scheme" where
  "set_prev s i v = upd_blk s i (\<lambda>b. b\<lparr>prev_free_block := v\<rparr>)"

text \<open>\<open>__init__\<close>: the loop over the indices, then the sentinels.\<close>

definition queue_link_step :: "int list \<Rightarrow> nat \<Rightarrow> 'a block_heap_scheme \<Rightarrow> 'a block_heap_scheme" where
  "queue_link_step bs i s =
     (let s1 = (if i > 0 then set_prev s (bs ! i) (Some (bs ! (i - 1))) else s)
      in if i < length bs - 1 then set_next s1 (bs ! i) (Some (bs ! (i + 1))) else s1)"

definition queue_init :: "int list \<Rightarrow> 'a block_heap_scheme \<Rightarrow> 'a block_heap_scheme" where
  "queue_init bs s =
     (let s1 = s\<lparr>num_free_blocks := int (length bs)\<rparr>;
          s2 = fold (queue_link_step bs) [0..<length bs] s1;
          s3 = s2\<lparr>blk := (blk s2)(fake_head := new_block fake_head, fake_tail := new_block fake_tail)\<rparr>
      in if bs \<noteq> [] then
           set_next (set_prev (set_prev (set_next s3 fake_head (Some (hd bs)))
             (hd bs) (Some fake_head)) fake_tail (Some (last bs))) (last bs) (Some fake_tail)
         else set_prev (set_next s3 fake_head (Some fake_tail)) fake_tail (Some fake_head))"

definition popleft :: "'a block_heap_scheme \<Rightarrow> int may_raise \<times> 'a block_heap_scheme" where
  "popleft s =
     (if next_free_block (blk s fake_head) = Some fake_tail then (Inl ValueError, s)
      else case next_free_block (blk s fake_head) of
        None \<Rightarrow> (Inl AssertionError, s)
      | Some b \<Rightarrow>
          (let nx = next_free_block (blk s b);
               s1 = set_next s fake_head nx;
               s2 = (case nx of None \<Rightarrow> s1 | Some n \<Rightarrow> set_prev s1 n (Some fake_head));
               s3 = set_next (set_prev s2 b None) b None
           in (Inr b, s3\<lparr>num_free_blocks := num_free_blocks s3 - 1\<rparr>)))"

text \<open>
  \<open>popleft_n\<close>: the loop walks from the head, detaching each node, and the list is reconnected once
  at the end.
\<close>

fun popleft_n_loop ::
  "nat \<Rightarrow> int option \<Rightarrow> 'a block_heap_scheme \<Rightarrow> int list may_raise \<times> int option \<times> 'a block_heap_scheme" where
  "popleft_n_loop 0 cur s = (Inr [], cur, s)"
| "popleft_n_loop (Suc n) cur s =
     (case cur of
        None \<Rightarrow> (Inl AssertionError, cur, s)
      | Some c \<Rightarrow>
          if c = fake_tail then (Inl AssertionError, cur, s)
          else
            (let cur' = next_free_block (blk s c);
                 s1 = set_next (set_prev s c None) c None
             in case popleft_n_loop n cur' s1 of
                  (Inl e, cu, t) \<Rightarrow> (Inl e, cu, t)
                | (Inr bs, cu, t) \<Rightarrow> (Inr (c # bs), cu, t)))"

definition popleft_n :: "nat \<Rightarrow> 'a block_heap_scheme \<Rightarrow> int list may_raise \<times> 'a block_heap_scheme" where
  "popleft_n n s =
     (if n = 0 then (Inr [], s)
      else if num_free_blocks s < int n then (Inl AssertionError, s)
      else case popleft_n_loop n (next_free_block (blk s fake_head)) s of
        (Inl e, cu, t) \<Rightarrow> (Inl e, t)
      | (Inr bs, cu, t) \<Rightarrow>
          (let t1 = set_next t fake_head cu;
               t2 = (case cu of None \<Rightarrow> t1 | Some c \<Rightarrow> set_prev t1 c (Some fake_head))
           in (Inr bs, t2\<lparr>num_free_blocks := num_free_blocks t2 - int n\<rparr>)))"

definition queue_remove :: "'a block_heap_scheme \<Rightarrow> int \<Rightarrow> unit may_raise \<times> 'a block_heap_scheme" where
  "queue_remove s b =
     (case (prev_free_block (blk s b), next_free_block (blk s b)) of
        (Some p, Some n) \<Rightarrow>
          (let s1 = set_prev (set_next s p (Some n)) n (Some p);
               s2 = set_next (set_prev s1 b None) b None
           in (Inr (), s2\<lparr>num_free_blocks := num_free_blocks s2 - 1\<rparr>))
      | _ \<Rightarrow> (Inl RuntimeError, s))"

text \<open>
  \<open>append\<close> and \<open>append_n\<close> assert that the tail has a predecessor; the models return the state
  unchanged when it has none, a case \<open>queue_rep\<close> excludes.
\<close>

definition queue_append :: "'a block_heap_scheme \<Rightarrow> int \<Rightarrow> 'a block_heap_scheme" where
  "queue_append s b =
     (case prev_free_block (blk s fake_tail) of
        None \<Rightarrow> s
      | Some l \<Rightarrow>
          (let s1 = set_next s l (Some b);
               s2 = set_next (set_prev s1 b (Some l)) b (Some fake_tail);
               s3 = set_prev s2 fake_tail (Some b)
           in s3\<lparr>num_free_blocks := num_free_blocks s3 + 1\<rparr>))"

fun append_n_loop :: "int list \<Rightarrow> int \<Rightarrow> 'a block_heap_scheme \<Rightarrow> int \<times> 'a block_heap_scheme" where
  "append_n_loop [] l s = (l, s)"
| "append_n_loop (b # bs) l s = append_n_loop bs b (set_next (set_prev s b (Some l)) l (Some b))"

definition queue_append_n :: "'a block_heap_scheme \<Rightarrow> int list \<Rightarrow> 'a block_heap_scheme" where
  "queue_append_n s bs =
     (if bs = [] then s
      else case prev_free_block (blk s fake_tail) of
        None \<Rightarrow> s
      | Some l \<Rightarrow>
          (case append_n_loop bs l s of
             (l', s1) \<Rightarrow>
               (let s2 = set_prev (set_next s1 l' (Some fake_tail)) fake_tail (Some l')
                in s2\<lparr>num_free_blocks := num_free_blocks s2 + int (length bs)\<rparr>)))"

text \<open>The traversal follows \<open>next_free_block\<close> until the tail or a null pointer; it may not end.\<close>

partial_function (option) walk_free :: "(int \<Rightarrow> cache_block) \<Rightarrow> int option \<Rightarrow> int list option" where
  "walk_free h cur =
     (case cur of
        None \<Rightarrow> Some []
      | Some c \<Rightarrow>
          if c = fake_tail then Some []
          else Option.bind (walk_free h (next_free_block (h c))) (\<lambda>bs. Some (c # bs)))"

definition get_all_free_blocks :: "'a block_heap_scheme \<Rightarrow> int list option" where
  "get_all_free_blocks s = walk_free (blk s) (next_free_block (blk s fake_head))"

section \<open>Projections\<close>

lemma upd_blk_simps [simp]:
  "blk (upd_blk s i f) = (blk s)(i := f (blk s i))"
  "num_free_blocks (upd_blk s i f) = num_free_blocks s"
  "block_heap.more (upd_blk s i f) = block_heap.more s"
  by (simp_all add: upd_blk_def)

lemma set_link_simps [simp]:
  "next_free_block (blk (set_next s i v) j) = (if j = i then v else next_free_block (blk s j))"
  "prev_free_block (blk (set_next s i v) j) = prev_free_block (blk s j)"
  "next_free_block (blk (set_prev s i v) j) = next_free_block (blk s j)"
  "prev_free_block (blk (set_prev s i v) j) = (if j = i then v else prev_free_block (blk s j))"
  "num_free_blocks (set_next s i v) = num_free_blocks s"
  "num_free_blocks (set_prev s i v) = num_free_blocks s"
  "block_heap.more (set_next s i v) = block_heap.more s"
  "block_heap.more (set_prev s i v) = block_heap.more s"
  by (simp_all add: set_next_def set_prev_def)

text \<open>The part of a block the queue never writes.\<close>

definition payload_of :: "cache_block \<Rightarrow> cache_block" where
  "payload_of b = b\<lparr>prev_free_block := None, next_free_block := None\<rparr>"

lemma payload_of_set [simp]:
  "payload_of (blk (set_next s i v) j) = payload_of (blk s j)"
  "payload_of (blk (set_prev s i v) j) = payload_of (blk s j)"
  by (simp_all add: set_next_def set_prev_def payload_of_def)

definition same_payloads :: "'a block_heap_scheme \<Rightarrow> 'a block_heap_scheme \<Rightarrow> bool" where
  "same_payloads s t \<longleftrightarrow>
     (\<forall>i. payload_of (blk t i) = payload_of (blk s i)) \<and> block_heap.more t = block_heap.more s"

lemma same_payloads_refl [simp]: "same_payloads s s"
  by (simp add: same_payloads_def)

lemma same_payloads_trans: "same_payloads s t \<Longrightarrow> same_payloads t u \<Longrightarrow> same_payloads s u"
  by (simp add: same_payloads_def)

lemma payload_of_fields:
  assumes "payload_of b = payload_of c"
  shows "ref_count b = ref_count c" "block_hash b = block_hash c" "is_null b = is_null c"
    "parent_hash b = parent_hash c" "cache_data b = cache_data c" "token_count b = token_count c"
    "keep_resident b = keep_resident c" "block_resident_bytes b = block_resident_bytes c"
    "hash_value b = hash_value c" "last_access b = last_access c" "block_id b = block_id c"
    "durability_write_pending b = durability_write_pending c"
    "durability_retry_after b = durability_retry_after c"
    "release_resident_when_unreferenced b = release_resident_when_unreferenced c"
    "suppress_l2_republish b = suppress_l2_republish c"
    "cache_data_transient b = cache_data_transient c"
    "cache_data_from_disk b = cache_data_from_disk c"
    "dsv4_native_interval b = dsv4_native_interval c"
  using assms by (cases b; cases c; simp add: payload_of_def)+

lemma same_payloadsD:
  assumes "same_payloads s t"
  shows "ref_count (blk t i) = ref_count (blk s i)" "block_hash (blk t i) = block_hash (blk s i)"
    "is_null (blk t i) = is_null (blk s i)" "parent_hash (blk t i) = parent_hash (blk s i)"
    "cache_data (blk t i) = cache_data (blk s i)" "token_count (blk t i) = token_count (blk s i)"
    "keep_resident (blk t i) = keep_resident (blk s i)"
    "block_resident_bytes (blk t i) = block_resident_bytes (blk s i)"
    "hash_value (blk t i) = hash_value (blk s i)" "block_id (blk t i) = block_id (blk s i)"
    "last_access (blk t i) = last_access (blk s i)"
    "release_resident_when_unreferenced (blk t i) = release_resident_when_unreferenced (blk s i)"
    "cache_data_transient (blk t i) = cache_data_transient (blk s i)"
    "block_heap.more t = block_heap.more s"
proof -
  have "payload_of (blk t i) = payload_of (blk s i)" and more: "block_heap.more t = block_heap.more s"
    using assms by (simp_all add: same_payloads_def)
  note f = payload_of_fields [OF this(1)]
  show "ref_count (blk t i) = ref_count (blk s i)" "block_hash (blk t i) = block_hash (blk s i)"
    "is_null (blk t i) = is_null (blk s i)" "parent_hash (blk t i) = parent_hash (blk s i)"
    "cache_data (blk t i) = cache_data (blk s i)" "token_count (blk t i) = token_count (blk s i)"
    "keep_resident (blk t i) = keep_resident (blk s i)"
    "block_resident_bytes (blk t i) = block_resident_bytes (blk s i)"
    "hash_value (blk t i) = hash_value (blk s i)" "block_id (blk t i) = block_id (blk s i)"
    "last_access (blk t i) = last_access (blk s i)"
    "release_resident_when_unreferenced (blk t i) = release_resident_when_unreferenced (blk s i)"
    "cache_data_transient (blk t i) = cache_data_transient (blk s i)"
    "block_heap.more t = block_heap.more s"
    by (fact f more)+
qed

section \<open>Refinement to lists\<close>

fun links :: "(int \<Rightarrow> cache_block) \<Rightarrow> int list \<Rightarrow> bool" where
  "links h (a # b # ns) \<longleftrightarrow>
     next_free_block (h a) = Some b \<and> prev_free_block (h b) = Some a \<and> links h (b # ns)"
| "links h _ \<longleftrightarrow> True"

lemma links_append: "links h (xs @ a # ys) \<longleftrightarrow> links h (xs @ [a]) \<and> links h (a # ys)"
proof (induction xs)
  case (Cons x xs)
  then show ?case by (cases xs) auto
qed (cases ys, auto)

lemma links_Cons: "links h (a # ns) \<longleftrightarrow>
    (case ns of [] \<Rightarrow> True | b # _ \<Rightarrow> next_free_block (h a) = Some b \<and> prev_free_block (h b) = Some a \<and> links h ns)"
  by (cases ns) auto

lemma links_cong:
  assumes "\<And>a. a \<in> set (butlast ns) \<Longrightarrow> next_free_block (h' a) = next_free_block (h a)"
    and "\<And>a. a \<in> set (tl ns) \<Longrightarrow> prev_free_block (h' a) = prev_free_block (h a)"
  shows "links h' ns \<longleftrightarrow> links h ns"
  using assms
proof (induction h ns rule: links.induct)
  case (1 h a b ns)
  have "next_free_block (h' a) = next_free_block (h a)"
    by (rule "1.prems"(1)) simp
  moreover have "prev_free_block (h' b) = prev_free_block (h b)"
    by (rule "1.prems"(2)) simp
  moreover have "links h' (b # ns) \<longleftrightarrow> links h (b # ns)"
  proof (rule "1.IH")
    fix c assume "c \<in> set (butlast (b # ns))"
    then show "next_free_block (h' c) = next_free_block (h c)" by (intro "1.prems"(1)) simp
  next
    fix c assume "c \<in> set (tl (b # ns))"
    then show "prev_free_block (h' c) = prev_free_block (h c)" by (intro "1.prems"(2)) simp
  qed
  ultimately show ?case by simp
qed simp_all

definition queue_rep :: "'a block_heap_scheme \<Rightarrow> int list \<Rightarrow> bool" where
  "queue_rep s xs \<longleftrightarrow>
     links (blk s) (fake_head # xs @ [fake_tail]) \<and> distinct xs \<and>
     fake_head \<notin> set xs \<and> fake_tail \<notin> set xs \<and> num_free_blocks s = int (length xs) \<and>
     (\<forall>i. i \<notin> set xs \<and> i \<noteq> fake_head \<and> i \<noteq> fake_tail \<longrightarrow>
        prev_free_block (blk s i) = None \<and> next_free_block (blk s i) = None)"

lemma queue_repD:
  assumes "queue_rep s xs"
  shows "distinct xs" "fake_head \<notin> set xs" "fake_tail \<notin> set xs" "num_free_blocks s = int (length xs)"
    "links (blk s) (fake_head # xs @ [fake_tail])"
    "i \<notin> set xs \<Longrightarrow> i \<noteq> fake_head \<Longrightarrow> i \<noteq> fake_tail \<Longrightarrow>
       prev_free_block (blk s i) = None \<and> next_free_block (blk s i) = None"
  using assms by (auto simp: queue_rep_def)

lemma links_first: "links h (a # xs @ [b]) \<Longrightarrow> next_free_block (h a) = Some (hd (xs @ [b]))"
  by (cases xs) auto

lemma links_last: "links h (a # xs @ [b]) \<Longrightarrow> prev_free_block (h b) = Some (last (a # xs))"
proof (induction xs arbitrary: a)
  case (Cons x xs)
  from Cons.prems have "links h (x # xs @ [b])" by simp
  then have "prev_free_block (h b) = Some (last (x # xs))" by (rule Cons.IH)
  then show ?case by simp
qed simp

lemma links_middle:
  assumes "links h (a # xs @ x # ys @ [b])"
  shows "prev_free_block (h x) = Some (last (a # xs))" and "next_free_block (h x) = Some (hd (ys @ [b]))"
proof -
  from assms have "links h ((a # xs) @ [x])" and "links h (x # ys @ [b])"
    using links_append [of h "a # xs" x "ys @ [b]"] by (simp_all del: links.simps)
  then show "prev_free_block (h x) = Some (last (a # xs))"
    and "next_free_block (h x) = Some (hd (ys @ [b]))"
    using links_last [of h a xs x] links_first [of h x ys b] by (simp_all del: links.simps)
qed

text \<open>A block is linked exactly when it is in the queue, the test the manager makes.\<close>

lemma queue_rep_linked_iff:
  assumes "queue_rep s xs" and "i \<noteq> fake_head" and "i \<noteq> fake_tail"
  shows "prev_free_block (blk s i) = None \<longleftrightarrow> i \<notin> set xs"
    and "next_free_block (blk s i) = None \<longleftrightarrow> i \<notin> set xs"
proof -
  have "prev_free_block (blk s i) \<noteq> None \<and> next_free_block (blk s i) \<noteq> None" if "i \<in> set xs"
  proof -
    from that obtain us vs where "xs = us @ i # vs" by (meson split_list)
    with queue_repD(5) [OF assms(1)] have "links (blk s) (fake_head # us @ i # vs @ [fake_tail])" by simp
    from links_middle [OF this] show ?thesis by simp
  qed
  then show "prev_free_block (blk s i) = None \<longleftrightarrow> i \<notin> set xs"
    and "next_free_block (blk s i) = None \<longleftrightarrow> i \<notin> set xs"
    using queue_repD(6) [OF assms(1)] assms(2,3) by blast+
qed

lemma queue_rep_unique: "queue_rep s xs \<Longrightarrow> queue_rep s ys \<Longrightarrow> xs = ys"
proof -
  have "links h (a # xs @ [fake_tail]) \<Longrightarrow> links h (a # ys @ [fake_tail]) \<Longrightarrow>
    fake_tail \<notin> set xs \<Longrightarrow> fake_tail \<notin> set ys \<Longrightarrow> xs = ys" for h a
  proof (induction xs arbitrary: a ys)
    case Nil
    then show ?case by (cases ys) auto
  next
    case (Cons x xs)
    then show ?case by (cases ys) auto
  qed
  then show "queue_rep s xs \<Longrightarrow> queue_rep s ys \<Longrightarrow> xs = ys"
    by (auto simp: queue_rep_def)
qed

lemma queue_rep_cong:
  assumes "\<And>i. prev_free_block (blk t i) = prev_free_block (blk s i)"
    and "\<And>i. next_free_block (blk t i) = next_free_block (blk s i)"
    and "num_free_blocks t = num_free_blocks s"
  shows "queue_rep t xs \<longleftrightarrow> queue_rep s xs"
proof -
  have "links (blk t) ns \<longleftrightarrow> links (blk s) ns" for ns
    by (rule links_cong) (simp_all add: assms)
  then show ?thesis by (simp add: queue_rep_def assms)
qed

text \<open>
  Every operation of the queue replaces a segment \<open>mid\<close> by a segment \<open>mid'\<close>: it may write the next
  pointer of the node before it, the previous pointer of the node after it, and the pointers of the
  nodes of the two segments.
\<close>

lemma links_splice:
  assumes "links h (ps @ p # mid @ n # ns)"
    and "\<And>a. a \<in> set ps \<union> set (n # ns) \<Longrightarrow> next_free_block (h' a) = next_free_block (h a)"
    and "\<And>a. a \<in> set (ps @ [p]) \<union> set ns \<Longrightarrow> prev_free_block (h' a) = prev_free_block (h a)"
    and "links h' (p # mid' @ [n])"
  shows "links h' (ps @ p # mid' @ n # ns)"
proof -
  have "links h (ps @ [p])" and R: "links h ((p # mid) @ n # ns)"
    using assms(1) links_append [of h ps p "mid @ n # ns"] by simp_all
  moreover have "links h (n # ns)"
    using R links_append [of h "p # mid" n ns] by simp
  moreover have "links h' (ps @ [p]) \<longleftrightarrow> links h (ps @ [p])"
  proof (rule links_cong)
    fix a assume "a \<in> set (tl (ps @ [p]))"
    then have "a \<in> set (ps @ [p])" by (cases ps) auto
    then show "prev_free_block (h' a) = prev_free_block (h a)" by (intro assms(3)) auto
  qed (simp add: assms(2))
  moreover have "links h' (n # ns) \<longleftrightarrow> links h (n # ns)"
  proof (rule links_cong)
    fix a assume "a \<in> set (butlast (n # ns))"
    then have "a \<in> set (n # ns)" by (rule in_set_butlastD)
    then show "next_free_block (h' a) = next_free_block (h a)" by (intro assms(2)) auto
  qed (simp add: assms(3))
  ultimately show ?thesis
    using assms(4) links_append [of h' ps p "mid' @ n # ns"] links_append [of h' "p # mid'" n ns]
    by simp
qed

lemma queue_rep_splice:
  assumes rep: "queue_rep s (us @ mid @ vs)"
    and p: "p = last (fake_head # us)" and n: "n = hd (vs @ [fake_tail])"
    and nexts: "\<And>i. i \<noteq> p \<Longrightarrow> i \<notin> set mid \<Longrightarrow> i \<notin> set mid' \<Longrightarrow>
      next_free_block (blk t i) = next_free_block (blk s i)"
    and prevs: "\<And>i. i \<noteq> n \<Longrightarrow> i \<notin> set mid \<Longrightarrow> i \<notin> set mid' \<Longrightarrow>
      prev_free_block (blk t i) = prev_free_block (blk s i)"
    and detached: "\<And>i. i \<in> set mid \<Longrightarrow> i \<notin> set mid' \<Longrightarrow>
      prev_free_block (blk t i) = None \<and> next_free_block (blk t i) = None"
    and seg: "links (blk t) (p # mid' @ [n])"
    and num: "num_free_blocks t = num_free_blocks s - int (length mid) + int (length mid')"
    and fresh: "distinct mid'" "set mid' \<inter> (set us \<union> set vs) = {}" "fake_head \<notin> set mid'" "fake_tail \<notin> set mid'"
  shows "queue_rep t (us @ mid' @ vs)"
proof -
  note R = queue_repD [OF rep]
  obtain ps where ps: "fake_head # us = ps @ [p]" using p by (metis append_butlast_last_id list.discI)
  obtain ns where ns: "vs @ [fake_tail] = n # ns" using n by (cases vs) auto
  have split: "fake_head # (us @ ms @ vs) @ [fake_tail] = ps @ p # ms @ n # ns" for ms
    using ps ns by (metis append.assoc append_Cons append_Nil)
  have "distinct ((fake_head # us) @ mid @ (vs @ [fake_tail]))" using R(1-3) by auto
  then have dist: "distinct (ps @ p # mid @ n # ns)" unfolding ps ns by simp
  have "set mid' \<inter> set ((fake_head # us) @ (vs @ [fake_tail])) = {}" using fresh by auto
  then have disj: "set mid' \<inter> set (ps @ p # n # ns) = {}" unfolding ps ns by simp
  have "links (blk t) (ps @ p # mid' @ n # ns)"
  proof (rule links_splice)
    show "links (blk s) (ps @ p # mid @ n # ns)" using R(5) unfolding split .
    show "next_free_block (blk t a) = next_free_block (blk s a)" if "a \<in> set ps \<union> set (n # ns)" for a
      by (rule nexts) (use that dist disj in auto)
    show "prev_free_block (blk t a) = prev_free_block (blk s a)" if "a \<in> set (ps @ [p]) \<union> set ns" for a
      by (rule prevs) (use that dist disj in auto)
  qed (rule seg)
  moreover have "prev_free_block (blk t i) = None \<and> next_free_block (blk t i) = None"
    if i: "i \<notin> set (us @ mid' @ vs)" "i \<noteq> fake_head" "i \<noteq> fake_tail" for i
  proof (cases "i \<in> set mid")
    case False
    have "p \<in> set (fake_head # us)" "n \<in> set (vs @ [fake_tail])" unfolding ps ns by simp_all
    with i have "i \<noteq> p" "i \<noteq> n" by auto
    with False i show ?thesis using nexts [of i] prevs [of i] R(6) [of i] by simp
  qed (use detached i in simp)
  ultimately show ?thesis
    unfolding queue_rep_def split using R(1-4) fresh num by auto
qed

section \<open>The operations on the represented list\<close>

lemma same_payloads_links [simp]:
  "same_payloads s (set_next s i v)" "same_payloads s (set_prev s i v)"
  by (simp_all add: same_payloads_def)

lemma same_payloads_num [simp]:
  "same_payloads s (t\<lparr>num_free_blocks := n\<rparr>) \<longleftrightarrow> same_payloads s t"
  by (simp add: same_payloads_def)

lemma same_payloads_step [simp]:
  "same_payloads s (set_next t i v) \<longleftrightarrow> same_payloads s t"
  "same_payloads s (set_prev t i v) \<longleftrightarrow> same_payloads s t"
  by (simp_all add: same_payloads_def)

lemma queue_rep_head: "queue_rep s xs \<Longrightarrow> next_free_block (blk s fake_head) = Some (hd (xs @ [fake_tail]))"
  using queue_repD(5) links_first by blast

lemma queue_rep_tail: "queue_rep s xs \<Longrightarrow> prev_free_block (blk s fake_tail) = Some (last (fake_head # xs))"
  using queue_repD(5) links_last by blast

lemma queue_rep_middle:
  assumes "queue_rep s (us @ b # vs)"
  shows "prev_free_block (blk s b) = Some (last (fake_head # us))"
    and "next_free_block (blk s b) = Some (hd (vs @ [fake_tail]))"
proof -
  have "links (blk s) (fake_head # us @ b # vs @ [fake_tail])" using queue_repD(5) [OF assms] by simp
  then show "prev_free_block (blk s b) = Some (last (fake_head # us))"
    and "next_free_block (blk s b) = Some (hd (vs @ [fake_tail]))" by (rule links_middle)+
qed

lemma queue_remove_rep:
  assumes "queue_rep s (us @ b # vs)"
  shows "\<exists>t. queue_remove s b = (Inr (), t) \<and> queue_rep t (us @ vs) \<and> same_payloads s t"
proof -
  let ?p = "last (fake_head # us)" and ?n = "hd (vs @ [fake_tail])"
  have mid: "prev_free_block (blk s b) = Some ?p" "next_free_block (blk s b) = Some ?n"
    using queue_rep_middle [OF assms] by simp_all
  note R = queue_repD [OF assms]
  have "?p \<in> set (fake_head # us)" by (rule last_in_set) simp
  moreover have "?n \<in> set (vs @ [fake_tail])" by (rule list.set_sel(1)) simp
  ultimately have ne: "?p \<noteq> b" "?n \<noteq> b" "b \<noteq> fake_head" "b \<noteq> fake_tail" using R(1-3) by auto
  obtain t where t: "queue_remove s b = (Inr (), t)"
    and t_def: "t = (set_next (set_prev (set_prev (set_next s ?p (Some ?n)) ?n (Some ?p)) b None) b None)
       \<lparr>num_free_blocks := num_free_blocks s - 1\<rparr>"
    by (simp add: queue_remove_def mid Let_def)
  have "queue_rep t (us @ [] @ vs)"
    by (rule queue_rep_splice [where s = s and mid = "[b]" and p = ?p and n = ?n])
      (use assms ne in \<open>auto simp: t_def\<close>)
  then show ?thesis using t by (auto simp: t_def)
qed

lemma popleft_empty: "queue_rep s [] \<Longrightarrow> popleft s = (Inl ValueError, s)"
  using queue_rep_head [of s "[]"] by (simp add: popleft_def)

lemma popleft_rep:
  assumes "queue_rep s (b # xs)"
  shows "\<exists>t. popleft s = (Inr b, t) \<and> queue_rep t xs \<and> same_payloads s t"
proof -
  let ?n = "hd (xs @ [fake_tail])"
  note R = queue_repD [OF assms]
  have "next_free_block (blk s b) = Some ?n" using queue_rep_middle [of s "[]" b xs] assms by simp
  moreover have "next_free_block (blk s fake_head) = Some b" using queue_rep_head [OF assms] by simp
  moreover have ne: "b \<noteq> fake_head" "b \<noteq> fake_tail" "?n \<noteq> b" using R(1-3) by (cases xs; auto)+
  ultimately obtain t where t: "popleft s = (Inr b, t)"
    and t_def: "t = (set_next (set_prev (set_prev (set_next s fake_head (Some ?n)) ?n (Some fake_head)) b None) b None)
       \<lparr>num_free_blocks := num_free_blocks s - 1\<rparr>"
    by (simp add: popleft_def Let_def)
  have "queue_rep t ([] @ [] @ xs)"
    by (rule queue_rep_splice [where s = s and mid = "[b]" and p = fake_head and n = ?n])
      (use assms ne in \<open>auto simp: t_def\<close>)
  then show ?thesis using t by (auto simp: t_def)
qed

lemma queue_append_rep:
  assumes "queue_rep s xs" and "b \<notin> set xs" "b \<noteq> fake_head" "b \<noteq> fake_tail"
  shows "queue_rep (queue_append s b) (xs @ [b])" and "same_payloads s (queue_append s b)"
proof -
  let ?l = "last (fake_head # xs)"
  have "?l \<in> set (fake_head # xs)" by (rule last_in_set) simp
  with assms have ne: "?l \<noteq> b" "b \<noteq> ?l" by auto
  have tail: "prev_free_block (blk s fake_tail) = Some ?l" using queue_rep_tail [OF assms(1)] .
  have eq: "queue_append s b = (set_prev (set_next (set_prev (set_next s ?l (Some b)) b (Some ?l)) b (Some fake_tail))
      fake_tail (Some b))\<lparr>num_free_blocks := num_free_blocks s + 1\<rparr>"
    by (simp add: queue_append_def tail Let_def)
  have "queue_rep (queue_append s b) (xs @ [b] @ [])"
    by (rule queue_rep_splice [where s = s and mid = "[]" and p = ?l and n = fake_tail])
      (use assms ne in \<open>auto simp: eq\<close>)
  then show "queue_rep (queue_append s b) (xs @ [b])" by simp
  show "same_payloads s (queue_append s b)" by (simp add: eq)
qed

lemma append_n_loop_spec:
  assumes "append_n_loop bs l s = (l', t)" and "distinct (l # bs)"
  shows "l' = last (l # bs)" "links (blk t) (l # bs)" "num_free_blocks t = num_free_blocks s"
    "same_payloads s t"
    "i \<notin> set (l # bs) \<Longrightarrow> next_free_block (blk t i) = next_free_block (blk s i)"
    "i \<notin> set bs \<Longrightarrow> prev_free_block (blk t i) = prev_free_block (blk s i)"
proof -
  have "l' = last (l # bs) \<and> links (blk t) (l # bs) \<and> num_free_blocks t = num_free_blocks s \<and> same_payloads s t \<and>
    (\<forall>i. i \<notin> set (l # bs) \<longrightarrow> next_free_block (blk t i) = next_free_block (blk s i)) \<and>
    (\<forall>i. i \<notin> set bs \<longrightarrow> prev_free_block (blk t i) = prev_free_block (blk s i))"
    using assms
  proof (induction bs l s rule: append_n_loop.induct)
    case (2 b bs l s)
    let ?s = "set_next (set_prev s b (Some l)) l (Some b)"
    from "2.prems" have "append_n_loop bs b ?s = (l', t)" "distinct (b # bs)" by simp_all
    note IH = "2.IH" [OF this]
    have "same_payloads s t" using IH same_payloads_trans [of s ?s t] by simp
    moreover have "next_free_block (blk t l) = Some b" "prev_free_block (blk t b) = Some l"
      using IH "2.prems"(2) by simp_all
    ultimately show ?case using IH "2.prems"(2) by simp
  qed auto
  then show "l' = last (l # bs)" "links (blk t) (l # bs)" "num_free_blocks t = num_free_blocks s"
    "same_payloads s t"
    "i \<notin> set (l # bs) \<Longrightarrow> next_free_block (blk t i) = next_free_block (blk s i)"
    "i \<notin> set bs \<Longrightarrow> prev_free_block (blk t i) = prev_free_block (blk s i)"
    by simp_all
qed

lemma queue_append_n_rep:
  assumes rep: "queue_rep s xs" and bs: "distinct bs" "set bs \<inter> set xs = {}" "fake_head \<notin> set bs" "fake_tail \<notin> set bs"
  shows "queue_rep (queue_append_n s bs) (xs @ bs)" and "same_payloads s (queue_append_n s bs)"
proof -
  let ?l = "last (fake_head # xs)" and ?t = "queue_append_n s bs"
  note R = queue_repD [OF rep]
  have "?l \<in> set (fake_head # xs)" by (rule last_in_set) simp
  with bs R have l: "?l \<notin> set bs" "?l \<noteq> fake_tail" by auto
  have tail: "prev_free_block (blk s fake_tail) = Some ?l" using queue_rep_tail [OF rep] .
  have "queue_rep ?t (xs @ bs) \<and> same_payloads s ?t"
  proof (cases "bs = []")
    case False
    obtain l' t where loop: "append_n_loop bs ?l s = (l', t)" by fastforce
    have "distinct (?l # bs)" using l bs by simp
    note spec = append_n_loop_spec [OF loop this]
    have eq: "?t = (set_prev (set_next t l' (Some fake_tail)) fake_tail (Some l'))
        \<lparr>num_free_blocks := num_free_blocks s + int (length bs)\<rparr>"
      by (simp add: queue_append_n_def tail loop False Let_def spec(3) del: last.simps)
    have l': "l' = last bs" using spec(1) False by simp
    then have "l' \<in> set bs" using False by simp
    then have ne: "l' \<noteq> fake_tail" "l' \<noteq> ?l" using bs l by auto
    have seg: "links (blk ?t) (?l # bs @ [fake_tail])"
    proof -
      have "links (blk ?t) (?l # bs) \<longleftrightarrow> links (blk t) (?l # bs)"
      proof (rule links_cong)
        fix a assume "a \<in> set (butlast (?l # bs))"
        then have "a \<noteq> l'" using l' False bs(1) ne(2)
          by (cases bs rule: rev_cases) auto
        then show "next_free_block (blk ?t a) = next_free_block (blk t a)" by (simp add: eq)
      qed (use bs in \<open>auto simp: eq\<close>)
      then have 1: "links (blk ?t) (?l # bs)" using spec(2) by simp
      have 2: "links (blk ?t) [l', fake_tail]" using ne by (simp add: eq)
      have bs_eq: "bs = butlast bs @ [l']" using l' False by simp
      have "links (blk ?t) ((?l # butlast bs) @ [l'])"
        by (rule subst [OF bs_eq, of "\<lambda>z. links (blk ?t) (?l # z)", simplified append_Cons [symmetric]]) (rule 1)
      then have "links (blk ?t) ((?l # butlast bs) @ l' # [fake_tail])"
        using 2 links_append [of "blk ?t" "?l # butlast bs" l' "[fake_tail]"] by blast
      moreover have "(?l # butlast bs) @ l' # [fake_tail] = ?l # bs @ [fake_tail]"
        by (metis bs_eq append.assoc append_Cons append_Nil)
      ultimately show ?thesis by (simp only:)
    qed
    have "queue_rep ?t (xs @ bs @ [])"
    proof (rule queue_rep_splice [where s = s and mid = "[]" and p = ?l and n = fake_tail])
      fix i assume "i \<noteq> ?l" "i \<notin> set bs"
      then show "next_free_block (blk ?t i) = next_free_block (blk s i)"
        using spec(5) [of i] \<open>l' \<in> set bs\<close> by (auto simp: eq simp del: last.simps)
    next
      fix i assume "i \<noteq> fake_tail" "i \<notin> set bs"
      then show "prev_free_block (blk ?t i) = prev_free_block (blk s i)"
        using spec(6) [of i] by (auto simp: eq)
    qed (use rep bs seg in \<open>auto simp: eq simp del: last.simps\<close>)
    then show ?thesis using spec(4) by (simp add: eq)
  qed (use rep in \<open>simp add: queue_append_n_def\<close>)
  then show "queue_rep ?t (xs @ bs)" "same_payloads s ?t" by simp_all
qed

lemma popleft_n_loop_spec:
  assumes "links (blk s) (xs @ [fake_tail])" "distinct xs" "fake_tail \<notin> set xs" "n \<le> length xs"
  shows "\<exists>t. popleft_n_loop n (Some (hd (xs @ [fake_tail]))) s = (Inr (take n xs), Some (hd (drop n xs @ [fake_tail])), t) \<and>
    same_payloads s t \<and> num_free_blocks t = num_free_blocks s \<and>
    (\<forall>i. next_free_block (blk t i) = (if i \<in> set (take n xs) then None else next_free_block (blk s i))) \<and>
    (\<forall>i. prev_free_block (blk t i) = (if i \<in> set (take n xs) then None else prev_free_block (blk s i)))"
  using assms
proof (induction n arbitrary: xs s)
  case (Suc n)
  from Suc.prems obtain c ys where xs: "xs = c # ys" by (cases xs) auto
  let ?s = "set_next (set_prev s c None) c None"
  have nx: "next_free_block (blk s c) = Some (hd (ys @ [fake_tail]))"
    using Suc.prems(1) links_first xs by simp
  have "links (blk s) (ys @ [fake_tail])"
    using Suc.prems(1) links_append [of "blk s" "[c]" "hd (ys @ [fake_tail])" "tl (ys @ [fake_tail])"]
    by (simp add: xs)
  moreover have "links (blk ?s) (ys @ [fake_tail]) \<longleftrightarrow> links (blk s) (ys @ [fake_tail])"
  proof (rule links_cong)
    fix a assume "a \<in> set (tl (ys @ [fake_tail]))"
    then have "a \<in> set (ys @ [fake_tail])" by (rule list.set_sel(2) [rotated]) simp
    then show "prev_free_block (blk ?s a) = prev_free_block (blk s a)" using Suc.prems xs by auto
  qed (use Suc.prems xs in auto)
  ultimately have "links (blk ?s) (ys @ [fake_tail])" by simp
  from Suc.IH [OF this] Suc.prems xs obtain t where
    t: "popleft_n_loop n (Some (hd (ys @ [fake_tail]))) ?s = (Inr (take n ys), Some (hd (drop n ys @ [fake_tail])), t)"
      "same_payloads ?s t" "num_free_blocks t = num_free_blocks s"
      "\<forall>i. next_free_block (blk t i) = (if i \<in> set (take n ys) then None else next_free_block (blk ?s i))"
      "\<forall>i. prev_free_block (blk t i) = (if i \<in> set (take n ys) then None else prev_free_block (blk ?s i))"
    by auto
  have "same_payloads s t" using t(2) same_payloads_trans [of s ?s t] by simp
  moreover have "popleft_n_loop (Suc n) (Some (hd (xs @ [fake_tail]))) s =
      (Inr (take (Suc n) xs), Some (hd (drop (Suc n) xs @ [fake_tail])), t)"
    using Suc.prems xs t(1) nx by (auto simp: Let_def)
  ultimately show ?case using t(3-5) xs by auto
qed simp

lemma popleft_n_rep:
  assumes rep: "queue_rep s xs" and n: "n \<le> length xs"
  shows "\<exists>t. popleft_n n s = (Inr (take n xs), t) \<and> queue_rep t (drop n xs) \<and> same_payloads s t"
proof (cases "n = 0")
  case False
  note R = queue_repD [OF rep]
  have "links (blk s) (xs @ [fake_tail])"
    using R(5) links_append [of "blk s" "[fake_head]" "hd (xs @ [fake_tail])" "tl (xs @ [fake_tail])"] by simp
  from popleft_n_loop_spec [OF this R(1) R(3) n] obtain t where
    t: "popleft_n_loop n (Some (hd (xs @ [fake_tail]))) s = (Inr (take n xs), Some (hd (drop n xs @ [fake_tail])), t)"
      "same_payloads s t" "num_free_blocks t = num_free_blocks s"
      "\<And>i. next_free_block (blk t i) = (if i \<in> set (take n xs) then None else next_free_block (blk s i))"
      "\<And>i. prev_free_block (blk t i) = (if i \<in> set (take n xs) then None else prev_free_block (blk s i))"
    by blast
  let ?c = "hd (drop n xs @ [fake_tail])"
  let ?u = "(set_prev (set_next t fake_head (Some ?c)) ?c (Some fake_head))\<lparr>num_free_blocks := num_free_blocks t - int n\<rparr>"
  have "popleft_n n s = (Inr (take n xs), ?u)"
    using False n R(4) t(1) queue_rep_head [OF rep] by (simp add: popleft_n_def Let_def)
  moreover have "queue_rep ?u ([] @ [] @ drop n xs)"
  proof (rule queue_rep_splice [where s = s and mid = "take n xs" and p = fake_head and n = ?c])
    have "?c \<in> set (drop n xs @ [fake_tail])" by (rule list.set_sel(1)) simp
    moreover have "set (take n xs) \<inter> set (drop n xs) = {}" using R(1) by (simp add: set_take_disj_set_drop_if_distinct)
    ultimately have c: "?c \<notin> set (take n xs)" using R(3) by (auto dest: in_set_takeD)
    show "prev_free_block (blk ?u i) = None \<and> next_free_block (blk ?u i) = None"
      if "i \<in> set (take n xs)" for i
      using that c R(2) t(4,5) [of i] by (auto dest: in_set_takeD)
  qed (use rep n t in auto)
  moreover have "same_payloads s ?u" using t(2) by simp
  ultimately show ?thesis by (metis append_Nil)
qed (use rep in \<open>simp add: popleft_n_def\<close>)

lemma popleft_n_short:
  "queue_rep s xs \<Longrightarrow> length xs < n \<Longrightarrow> popleft_n n s = (Inl AssertionError, s)"
  using queue_repD(4) [of s xs] by (simp add: popleft_n_def)

lemma walk_free_links:
  "links h (xs @ [fake_tail]) \<Longrightarrow> fake_tail \<notin> set xs \<Longrightarrow> walk_free h (Some (hd (xs @ [fake_tail]))) = Some xs"
proof (induction xs)
  case (Cons x xs)
  have "links h (xs @ [fake_tail])"
    using Cons.prems(1) links_append [of h "[x]" "hd (xs @ [fake_tail])" "tl (xs @ [fake_tail])"] by simp
  moreover have "next_free_block (h x) = Some (hd (xs @ [fake_tail]))"
    using Cons.prems(1) links_first by simp
  ultimately show ?case using Cons by (subst walk_free.simps) simp
qed (subst walk_free.simps, simp)

lemma get_all_free_blocks_rep: "queue_rep s xs \<Longrightarrow> get_all_free_blocks s = Some xs"
proof -
  assume rep: "queue_rep s xs"
  note R = queue_repD [OF rep]
  have "links (blk s) (xs @ [fake_tail])"
    using R(5) links_append [of "blk s" "[fake_head]" "hd (xs @ [fake_tail])" "tl (xs @ [fake_tail])"] by simp
  then show ?thesis
    using walk_free_links R(3) queue_rep_head [OF rep] by (simp add: get_all_free_blocks_def)
qed

lemma links_nth:
  "links h ns \<longleftrightarrow> (\<forall>i. Suc i < length ns \<longrightarrow>
     next_free_block (h (ns ! i)) = Some (ns ! Suc i) \<and> prev_free_block (h (ns ! Suc i)) = Some (ns ! i))"
proof (induction h ns rule: links.induct)
  case (1 h a b ns)
  let ?P = "\<lambda>i. Suc i < length (a # b # ns) \<longrightarrow>
     next_free_block (h ((a # b # ns) ! i)) = Some ((a # b # ns) ! Suc i) \<and>
     prev_free_block (h ((a # b # ns) ! Suc i)) = Some ((a # b # ns) ! i)"
  have "(\<forall>i. ?P i) \<longleftrightarrow> ?P 0 \<and> (\<forall>i. ?P (Suc i))" by (metis nat.exhaust)
  with "1.IH" show ?case by simp
qed simp_all

lemma fold_link_step:
  assumes "distinct bs" "k \<le> length bs"
    and "\<And>i. prev_free_block (blk s i) = None \<and> next_free_block (blk s i) = None"
  defines "t \<equiv> fold (queue_link_step bs) [0..<k] s"
  shows "(\<forall>j < k. prev_free_block (blk t (bs ! j)) = (if j = 0 then None else Some (bs ! (j - 1))) \<and>
           next_free_block (blk t (bs ! j)) = (if Suc j < length bs then Some (bs ! Suc j) else None)) \<and>
         (\<forall>i. i \<notin> set (take k bs) \<longrightarrow> prev_free_block (blk t i) = None \<and> next_free_block (blk t i) = None) \<and>
         num_free_blocks t = num_free_blocks s \<and> same_payloads s t"
  using assms(2) unfolding t_def
proof (induction k)
  case 0
  then show ?case using assms(3) by simp
next
  case (Suc k)
  let ?t = "fold (queue_link_step bs) [0..<k] s" and ?u = "fold (queue_link_step bs) [0..<Suc k] s"
  have k: "k < length bs" using Suc.prems by simp
  have u: "?u = queue_link_step bs k ?t" by simp
  have inj: "bs ! i = bs ! j \<longleftrightarrow> i = j" if "i < length bs" "j < length bs" for i j
    using assms(1) that by (simp add: nth_eq_iff_index_eq)
  have new: "bs ! k \<notin> set (take k bs)"
    using assms(1) k by (auto simp: in_set_conv_nth inj)
  have fields:
    "prev_free_block (blk ?u i) = (if i = bs ! k \<and> 0 < k then Some (bs ! (k - 1)) else prev_free_block (blk ?t i))"
    "next_free_block (blk ?u i) = (if i = bs ! k \<and> Suc k < length bs then Some (bs ! Suc k) else next_free_block (blk ?t i))" for i
    using k by (auto simp: u queue_link_step_def Let_def)
  have "num_free_blocks ?u = num_free_blocks ?t \<and> same_payloads ?t ?u"
    by (auto simp: u queue_link_step_def Let_def)
  with Suc have "num_free_blocks ?u = num_free_blocks s \<and> same_payloads s ?u"
    by (auto intro: same_payloads_trans simp: u)
  moreover have "\<forall>i. i \<notin> set (take (Suc k) bs) \<longrightarrow> prev_free_block (blk ?u i) = None \<and> next_free_block (blk ?u i) = None"
    using Suc k unfolding fields by (auto simp: take_Suc_conv_app_nth)
  moreover have "\<forall>j < Suc k. prev_free_block (blk ?u (bs ! j)) = (if j = 0 then None else Some (bs ! (j - 1))) \<and>
      next_free_block (blk ?u (bs ! j)) = (if Suc j < length bs then Some (bs ! Suc j) else None)"
    using Suc k new unfolding fields by (auto simp: inj less_Suc_eq)
  ultimately show ?case by blast
qed

lemma queue_init_rep:
  assumes "distinct bs" "fake_head \<notin> set bs" "fake_tail \<notin> set bs"
    and "\<And>i. prev_free_block (blk s i) = None \<and> next_free_block (blk s i) = None"
  shows "queue_rep (queue_init bs s) bs"
    and "i \<noteq> fake_head \<Longrightarrow> i \<noteq> fake_tail \<Longrightarrow> payload_of (blk (queue_init bs s) i) = payload_of (blk s i)"
    and "block_heap.more (queue_init bs s) = block_heap.more s"
proof -
  let ?s1 = "s\<lparr>num_free_blocks := int (length bs)\<rparr>"
  let ?s2 = "fold (queue_link_step bs) [0..<length bs] ?s1"
  let ?t = "queue_init bs s"
  have F: "\<And>j. j < length bs \<Longrightarrow> prev_free_block (blk ?s2 (bs ! j)) = (if j = 0 then None else Some (bs ! (j - 1)))"
    "\<And>j. j < length bs \<Longrightarrow> next_free_block (blk ?s2 (bs ! j)) = (if Suc j < length bs then Some (bs ! Suc j) else None)"
    "\<And>i. i \<notin> set bs \<Longrightarrow> prev_free_block (blk ?s2 i) = None \<and> next_free_block (blk ?s2 i) = None"
    "num_free_blocks ?s2 = int (length bs)" "same_payloads ?s1 ?s2"
    using fold_link_step [OF assms(1) order_refl, of ?s1] assms(4) by simp_all
  have payload: "payload_of (blk ?s2 i) = payload_of (blk s i)" for i
    using F(5) by (simp add: same_payloads_def)
  have more: "block_heap.more ?s2 = block_heap.more s"
    using F(5) by (simp add: same_payloads_def)
  show "block_heap.more ?t = block_heap.more s"
    using more by (simp add: queue_init_def Let_def)
  show "payload_of (blk ?t i) = payload_of (blk s i)" if "i \<noteq> fake_head" "i \<noteq> fake_tail" for i
    using payload that by (simp add: queue_init_def Let_def)
  have ends: "bs \<noteq> [] \<Longrightarrow> hd bs = bs ! 0 \<and> last bs = bs ! (length bs - 1)"
    by (simp add: hd_conv_nth last_conv_nth)
  have ends_ne: "bs \<noteq> [] \<Longrightarrow> hd bs \<noteq> fake_head \<and> hd bs \<noteq> fake_tail \<and> last bs \<noteq> fake_head \<and> last bs \<noteq> fake_tail"
    using assms(2,3) by (metis hd_in_set last_in_set)
  have nxt: "next_free_block (blk ?t i) = (if i = fake_head then Some (hd (bs @ [fake_tail])) else if i = fake_tail then None
      else if bs \<noteq> [] \<and> i = last bs then Some fake_tail else next_free_block (blk ?s2 i))" for i
    using ends_ne by (auto simp: queue_init_def Let_def new_block_def)
  have prv: "prev_free_block (blk ?t i) = (if i = fake_head then None else if i = fake_tail then Some (last (fake_head # bs))
      else if bs \<noteq> [] \<and> i = hd bs then Some fake_head else prev_free_block (blk ?s2 i))" for i
    using ends_ne by (auto simp: queue_init_def Let_def new_block_def)
  have "links (blk ?t) (fake_head # bs @ [fake_tail])"
    unfolding links_nth
  proof (intro allI impI)
    let ?ns = "fake_head # bs @ [fake_tail]"
    fix i assume i: "Suc i < length ?ns"
    have fwd: "next_free_block (blk ?t (bs ! j)) = Some ((bs @ [fake_tail]) ! Suc j)" if j: "j < length bs" for j
    proof -
      have "bs ! j \<in> set bs" using j by simp
      then have "bs ! j \<noteq> fake_head" "bs ! j \<noteq> fake_tail" using assms(2,3) by auto
      moreover have ne: "bs \<noteq> []" using j by auto
      moreover have "bs ! j = last bs \<longleftrightarrow> Suc j = length bs"
        using j ends [OF ne] nth_eq_iff_index_eq [OF assms(1) j, of "length bs - 1"] by auto
      ultimately show ?thesis unfolding nxt using F(2) [OF j] j by (simp add: nth_append)
    qed
    have bwd: "prev_free_block (blk ?t (bs ! j)) = Some (?ns ! j)" if j: "j < length bs" for j
    proof -
      have "bs ! j \<in> set bs" using j by simp
      then have "bs ! j \<noteq> fake_head" "bs ! j \<noteq> fake_tail" using assms(2,3) by auto
      moreover have ne: "bs \<noteq> []" using j by auto
      moreover have "bs ! j = hd bs \<longleftrightarrow> j = 0"
        using ne ends [OF ne] nth_eq_iff_index_eq [OF assms(1) j, of 0] by simp
      ultimately show ?thesis unfolding prv using F(1) [OF j] j by (cases j) (simp_all add: nth_append)
    qed
    show "next_free_block (blk ?t (?ns ! i)) = Some (?ns ! Suc i) \<and> prev_free_block (blk ?t (?ns ! Suc i)) = Some (?ns ! i)"
    proof
      show "next_free_block (blk ?t (?ns ! i)) = Some (?ns ! Suc i)"
      proof (cases i)
        case 0
        then show ?thesis by (simp add: nxt hd_conv_nth)
      next
        case (Suc j)
        with i have "j < length bs" by simp
        with Suc show ?thesis using fwd [of j] by (simp add: nth_append)
      qed
      show "prev_free_block (blk ?t (?ns ! Suc i)) = Some (?ns ! i)"
      proof (cases "i < length bs")
        case True
        then show ?thesis using bwd [OF True] by (simp add: nth_append)
      next
        case False
        with i have "i = length bs" by simp
        moreover have "?ns ! length bs = last (fake_head # bs)"
          by (cases bs rule: rev_cases) (simp_all add: nth_append)
        moreover have "?ns ! Suc (length bs) = fake_tail" by (simp add: nth_append)
        moreover have "prev_free_block (blk ?t fake_tail) = Some (last (fake_head # bs))" by (simp add: prv)
        ultimately show ?thesis by (simp only:)
      qed
    qed
  qed
  moreover have "num_free_blocks ?t = int (length bs)"
    using F(4) by (simp add: queue_init_def Let_def)
  moreover have "prev_free_block (blk ?t i) = None \<and> next_free_block (blk ?t i) = None"
    if "i \<notin> set bs" "i \<noteq> fake_head" "i \<noteq> fake_tail" for i
    using that F(3) [of i] by (auto simp: prv nxt)
  ultimately show "queue_rep ?t bs" using assms(1-3) by (simp add: queue_rep_def)
qed

section \<open>The contract of the free list\<close>

text \<open>
  What the manager relies on: taking from the front, giving back at the end, and taking out of the
  middle when a cached block is used again.  \<open>drain\<close> is a loop of single takes.
\<close>

fun drain :: "('s \<Rightarrow> 'e may_raise \<times> 's) \<Rightarrow> nat \<Rightarrow> 's \<Rightarrow> 'e list may_raise \<times> 's" where
  "drain take1 0 s = (Inr [], s)"
| "drain take1 (Suc n) s =
     (case take1 s of
        (Inl e, t) \<Rightarrow> (Inl e, t)
      | (Inr x, t) \<Rightarrow> (case drain take1 n t of (Inl e, u) \<Rightarrow> (Inl e, u) | (Inr xs, u) \<Rightarrow> (Inr (x # xs), u)))"

locale lru_list =
  fixes rep :: "'s \<Rightarrow> 'e list \<Rightarrow> bool"
    and node :: "'e \<Rightarrow> bool"
    and take1 :: "'s \<Rightarrow> 'e may_raise \<times> 's"
    and give :: "'s \<Rightarrow> 'e \<Rightarrow> 's"
    and take_out :: "'s \<Rightarrow> 'e \<Rightarrow> unit may_raise \<times> 's"
  assumes rep_distinct: "rep s xs \<Longrightarrow> distinct xs"
    and rep_nodes: "rep s xs \<Longrightarrow> x \<in> set xs \<Longrightarrow> node x"
    and take1_Cons: "rep s (x # xs) \<Longrightarrow> \<exists>t. take1 s = (Inr x, t) \<and> rep t xs"
    and take1_Nil: "rep s [] \<Longrightarrow> take1 s = (Inl ValueError, s)"
    and give_rep: "rep s xs \<Longrightarrow> node x \<Longrightarrow> x \<notin> set xs \<Longrightarrow> rep (give s x) (xs @ [x])"
    and take_out_rep: "rep s (us @ x # vs) \<Longrightarrow> \<exists>t. take_out s x = (Inr (), t) \<and> rep t (us @ vs)"
begin

text \<open>Using a block again and releasing it makes it the last candidate.\<close>

lemma reuse_moves_to_back:
  assumes "rep s (us @ x # vs)"
  shows "\<exists>t. take_out s x = (Inr (), t) \<and> rep (give t x) (us @ vs @ [x])"
proof -
  obtain t where t: "take_out s x = (Inr (), t)" "rep t (us @ vs)"
    using take_out_rep [OF assms] by blast
  have "node x" "x \<notin> set (us @ vs)" using rep_nodes [OF assms] rep_distinct [OF assms] by auto
  from give_rep [OF t(2) this] t(1) show ?thesis by auto
qed

lemma drain_rep:
  "rep s xs \<Longrightarrow> n \<le> length xs \<Longrightarrow> \<exists>t. drain take1 n s = (Inr (take n xs), t) \<and> rep t (drop n xs)"
proof (induction n arbitrary: s xs)
  case (Suc n)
  then obtain x ys where xs: "xs = x # ys" by (cases xs) auto
  with Suc.prems obtain t where t: "take1 s = (Inr x, t)" "rep t ys" using take1_Cons by blast
  with Suc.IH [OF t(2)] Suc.prems xs show ?case by auto
qed simp

lemma drain_short: "rep s xs \<Longrightarrow> length xs < n \<Longrightarrow> fst (drain take1 n s) = Inl ValueError"
proof (induction n arbitrary: s xs)
  case (Suc n)
  show ?case
  proof (cases xs)
    case Nil
    then show ?thesis using Suc.prems take1_Nil by simp
  next
    case (Cons x ys)
    with Suc.prems obtain t where t: "take1 s = (Inr x, t)" "rep t ys" using take1_Cons by blast
    with Suc.IH [OF t(2)] Suc.prems Cons show ?thesis by (auto split: prod.splits sum.splits)
  qed
qed simp

text \<open>Eviction order: a block in use again is taken after every block that was waiting behind it.\<close>

lemma reuse_evicts_last:
  assumes "rep s (us @ x # vs)"
  shows "\<exists>t u w. take_out s x = (Inr (), t) \<and>
    drain take1 (length us + length vs) (give t x) = (Inr (us @ vs), u) \<and> take1 u = (Inr x, w) \<and> rep w []"
proof -
  obtain t where t: "take_out s x = (Inr (), t)" "rep (give t x) (us @ vs @ [x])"
    using reuse_moves_to_back [OF assms] by blast
  from drain_rep [OF t(2), of "length us + length vs"] obtain u
    where u: "drain take1 (length us + length vs) (give t x) = (Inr (us @ vs), u)" "rep u [x]" by auto
  from take1_Cons [OF u(2)] t u show ?thesis by blast
qed

end

interpretation fq: lru_list queue_rep "\<lambda>i. i \<noteq> fake_head \<and> i \<noteq> fake_tail" popleft queue_append queue_remove
proof
  fix s :: "'b block_heap_scheme" and xs us vs :: "int list" and x :: int
  show "queue_rep s xs \<Longrightarrow> distinct xs" by (rule queue_repD)
  show "queue_rep s xs \<Longrightarrow> x \<in> set xs \<Longrightarrow> x \<noteq> fake_head \<and> x \<noteq> fake_tail"
    by (auto dest: queue_repD)
  show "queue_rep s (x # xs) \<Longrightarrow> \<exists>t. popleft s = (Inr x, t) \<and> queue_rep t xs"
    using popleft_rep by blast
  show "queue_rep s [] \<Longrightarrow> popleft s = (Inl ValueError, s)" by (rule popleft_empty)
  show "queue_rep s xs \<Longrightarrow> x \<noteq> fake_head \<and> x \<noteq> fake_tail \<Longrightarrow> x \<notin> set xs \<Longrightarrow> queue_rep (queue_append s x) (xs @ [x])"
    by (simp add: queue_append_rep)
  show "queue_rep s (us @ x # vs) \<Longrightarrow> \<exists>t. queue_remove s x = (Inr (), t) \<and> queue_rep t (us @ vs)"
    using queue_remove_rep by blast
qed

definition fresh_heap :: "unit block_heap_scheme" where
  "fresh_heap = \<lparr>blk = new_block, num_free_blocks = 0\<rparr>"

lemma fresh_heap_init_rep:
  "distinct bs \<Longrightarrow> fake_head \<notin> set bs \<Longrightarrow> fake_tail \<notin> set bs \<Longrightarrow> queue_rep (queue_init bs fresh_heap) bs"
  by (rule queue_init_rep) (simp_all add: fresh_heap_def new_block_def)

section \<open>Properties\<close>

text \<open>
  A queue built over pairwise different unlinked blocks holds exactly those blocks, in the order
  given: the traversal ends and returns them all, and the first one is handed out first.
\<close>

lemma queue_init_order:
  assumes "distinct (b # bs)" "fake_head \<notin> set (b # bs)" "fake_tail \<notin> set (b # bs)"
    and "\<And>i. prev_free_block (blk s i) = None \<and> next_free_block (blk s i) = None"
  shows "get_all_free_blocks (queue_init (b # bs) s) = Some (b # bs) \<and>
    num_free_blocks (queue_init (b # bs) s) = int (length (b # bs)) \<and>
    fst (popleft (queue_init (b # bs) s)) = Inr b \<and>
    get_all_free_blocks (snd (popleft (queue_init (b # bs) s))) = Some bs"
proof -
  have rep: "queue_rep (queue_init (b # bs) s) (b # bs)" using assms by (rule queue_init_rep)
  from popleft_rep [OF rep] get_all_free_blocks_rep [OF rep] queue_repD(4) [OF rep]
  show ?thesis by (auto dest: get_all_free_blocks_rep)
qed

lemma queue_init_order_example:
  "get_all_free_blocks (queue_init [4, 1, 9] fresh_heap) = Some [4, 1, 9] \<and>
   fst (popleft (queue_init [4, 1, 9] fresh_heap)) = Inr 4"
  using queue_init_order [of 4 "[1, 9]" fresh_heap] by (simp add: fresh_heap_def new_block_def)

text \<open>
  Taking \<open>n\<close> blocks at once gives the first \<open>n\<close> free blocks in their order, exactly the blocks
  \<open>n\<close> single takes give, and leaves the other free blocks in their order with the right count;
  asking for more than are free raises and changes nothing.
\<close>

lemma popleft_n_spec:
  assumes "queue_rep s xs"
  shows "(n \<le> length xs \<longrightarrow>
      fst (popleft_n n s) = Inr (take n xs) \<and> fst (popleft_n n s) = fst (drain popleft n s) \<and>
      get_all_free_blocks (snd (popleft_n n s)) = Some (drop n xs) \<and>
      num_free_blocks (snd (popleft_n n s)) = int (length xs - n)) \<and>
    (length xs < n \<longrightarrow> popleft_n n s = (Inl AssertionError, s))"
proof (cases "n \<le> length xs")
  case True
  obtain t where t: "popleft_n n s = (Inr (take n xs), t)" "queue_rep t (drop n xs)"
    using popleft_n_rep [OF assms True] by blast
  then show ?thesis
    using True fq.drain_rep [OF assms True] get_all_free_blocks_rep [OF t(2)] queue_repD(4) [OF t(2)] by auto
qed (use popleft_n_short [OF assms] in simp)

lemma popleft_n_spec_example:
  "queue_rep (queue_init [4, 1, 9] fresh_heap) [4, 1, 9] \<and>
   fst (popleft_n 2 (queue_init [4, 1, 9] fresh_heap)) = Inr [4, 1] \<and>
   popleft_n 4 (queue_init [4, 1, 9] fresh_heap) = (Inl AssertionError, queue_init [4, 1, 9] fresh_heap)"
proof -
  have "queue_rep (queue_init [4, 1, 9] fresh_heap) [4, 1, 9]" by (rule fresh_heap_init_rep) simp_all
  with popleft_n_spec [OF this, of 2] popleft_n_spec [OF this, of 4] show ?thesis by simp
qed

text \<open>
  Taking a free block out of the queue, wherever it is, and giving it back puts it behind every
  other free block: the others are handed out first, in their old order, and it comes last.
\<close>

lemma queue_reuse_order:
  assumes "queue_rep s (us @ b # vs)"
  shows "fst (queue_remove s b) = Inr () \<and>
    get_all_free_blocks (queue_append (snd (queue_remove s b)) b) = Some (us @ vs @ [b]) \<and>
    fst (drain popleft (length us + length vs) (queue_append (snd (queue_remove s b)) b)) = Inr (us @ vs) \<and>
    fst (popleft (snd (drain popleft (length us + length vs) (queue_append (snd (queue_remove s b)) b)))) = Inr b"
  using fq.reuse_moves_to_back [OF assms] fq.reuse_evicts_last [OF assms]
  by (auto dest: get_all_free_blocks_rep)

end
