(* ===== verification/Block_Hash_Map.thy ===== *)
theory Block_Hash_Map
  imports Prelude
begin

text \<open>
  \<open>vmlx_engine/paged_cache.py\<close>: \<open>BlockHashToBlockMap\<close>, the content index of the paged cache.  A
  hash is bound to one block or, once a second block with the same content is inserted, to a
  dictionary from block id to block.  Blocks are heap objects, so the value stored for a block is
  its id.  The index refines a function from hashes to lists of block ids (\<open>hm_ids\<close>).
\<close>

datatype hash_entry = OneBlock int | BlockDict "(int, int) pydict"

type_synonym hash_map = "(string, hash_entry) pydict"

definition hm_get_block :: "hash_map \<Rightarrow> string \<Rightarrow> int option" where
  "hm_get_block m h =
     (case pd_get m h of
        None \<Rightarrow> None
      | Some (OneBlock b) \<Rightarrow> Some b
      | Some (BlockDict d) \<Rightarrow> (if d = [] then None else Some (snd (last d))))"

definition hm_insert :: "hash_map \<Rightarrow> string \<Rightarrow> int \<Rightarrow> hash_map" where
  "hm_insert m h b =
     (case pd_get m h of
        None \<Rightarrow> pd_set m h (OneBlock b)
      | Some (OneBlock e) \<Rightarrow> pd_set m h (BlockDict (pd_set (pd_set [] e e) b b))
      | Some (BlockDict d) \<Rightarrow> pd_set m h (BlockDict (pd_set d b b)))"

definition hm_pop :: "hash_map \<Rightarrow> string \<Rightarrow> int \<Rightarrow> int option \<times> hash_map" where
  "hm_pop m h i =
     (case pd_get m h of
        None \<Rightarrow> (None, m)
      | Some (OneBlock b) \<Rightarrow>
          if b = i then (Some b, pd_del m h) else (None, pd_set (pd_del m h) h (OneBlock b))
      | Some (BlockDict d) \<Rightarrow>
          (let d' = pd_del d i
           in (pd_get d i, if d' \<noteq> [] then pd_set (pd_del m h) h (BlockDict d') else pd_del m h)))"

definition hm_pop_all :: "hash_map \<Rightarrow> string \<Rightarrow> int list \<times> hash_map" where
  "hm_pop_all m h =
     (case pd_get m h of
        None \<Rightarrow> ([], m)
      | Some (OneBlock b) \<Rightarrow> ([b], pd_del m h)
      | Some (BlockDict d) \<Rightarrow> (map snd d, pd_del m h))"

definition hm_len :: "hash_map \<Rightarrow> nat" where
  "hm_len m = length m"

section \<open>The ids bound to a hash\<close>

fun entry_ids :: "hash_entry \<Rightarrow> int list" where
  "entry_ids (OneBlock b) = [b]"
| "entry_ids (BlockDict d) = map snd d"

definition hm_ids :: "hash_map \<Rightarrow> string \<Rightarrow> int list" where
  "hm_ids m h = (case pd_get m h of None \<Rightarrow> [] | Some e \<Rightarrow> entry_ids e)"

fun entry_ok :: "hash_entry \<Rightarrow> bool" where
  "entry_ok (OneBlock b) \<longleftrightarrow> True"
| "entry_ok (BlockDict d) \<longleftrightarrow> d \<noteq> [] \<and> pd_ok d \<and> map snd d = map fst d"

definition hm_ok :: "hash_map \<Rightarrow> bool" where
  "hm_ok m \<longleftrightarrow> pd_ok m \<and> (\<forall>h e. pd_get m h = Some e \<longrightarrow> entry_ok e)"

lemma hm_ok_Nil [simp]: "hm_ok []" and hm_ids_Nil [simp]: "hm_ids [] h = []"
  by (simp_all add: hm_ok_def hm_ids_def)

lemma self_keyed_set: "map snd d = map fst d \<Longrightarrow> map snd (pd_set d b b) = map fst (pd_set d b b)"
proof (induction d)
  case (Cons x d)
  then show ?case by (cases x) (simp del: map_eq_conv)
qed simp

lemma self_keyed_del: "map snd d = map fst d \<Longrightarrow> map snd (pd_del d b) = map fst (pd_del d b)"
proof (induction d)
  case (Cons x d)
  then show ?case by (cases x) (simp add: pd_del_Cons del: map_eq_conv)
qed simp

lemma self_keyed_get: "map snd d = map fst d \<Longrightarrow> pd_get d b = (if b \<in> set (map snd d) then Some b else None)"
  by (induction d) auto

lemma map_snd_set:
  "map snd d = map fst d \<Longrightarrow> map snd (pd_set d b b) = (if b \<in> set (map snd d) then map snd d else map snd d @ [b])"
  by (simp only: self_keyed_set pd_keys_set)

lemma map_snd_del: "map snd d = map fst d \<Longrightarrow> map snd (pd_del d b) = filter (\<lambda>x. x \<noteq> b) (map snd d)"
  by (simp only: self_keyed_del pd_keys_del)

lemma hm_get_block_ids:
  "hm_get_block m h = (if hm_ids m h = [] then None else Some (last (hm_ids m h)))"
  by (auto simp: hm_get_block_def hm_ids_def last_map split: option.splits hash_entry.splits)

lemma hm_get_block_None: "hm_get_block m h = None \<longleftrightarrow> hm_ids m h = []"
  and hm_get_block_in: "hm_get_block m h = Some b \<Longrightarrow> b \<in> set (hm_ids m h)"
  by (auto simp: hm_get_block_ids split: if_splits)

lemma hm_ids_distinct: "hm_ok m \<Longrightarrow> distinct (hm_ids m h)"
proof (cases "pd_get m h")
  case (Some e)
  moreover assume "hm_ok m"
  ultimately have "entry_ok e" by (simp add: hm_ok_def)
  with Some show ?thesis by (cases e) (simp_all add: hm_ids_def pd_ok_def del: map_eq_conv)
qed (simp add: hm_ids_def)

lemma hm_insert_ids:
  assumes "hm_ok m"
  shows "hm_ids (hm_insert m h b) h' =
    (if h' = h then (if b \<in> set (hm_ids m h) then hm_ids m h else hm_ids m h @ [b]) else hm_ids m h')"
proof (cases "pd_get m h")
  case (Some e)
  with assms have "entry_ok e" by (simp add: hm_ok_def)
  with Some show ?thesis by (cases e) (auto simp: hm_ids_def hm_insert_def map_snd_set)
qed (auto simp: hm_ids_def hm_insert_def)

lemma hm_insert_ok: "hm_ok m \<Longrightarrow> hm_ok (hm_insert m h b)"
proof (cases "pd_get m h")
  case (Some e)
  moreover assume "hm_ok m"
  moreover from calculation have "entry_ok e" by (simp add: hm_ok_def)
  ultimately show ?thesis
    by (cases e) (auto simp: hm_ok_def hm_insert_def self_keyed_set simp del: pd_set.simps intro!: pd_ok_set)
qed (auto simp: hm_ok_def hm_insert_def)

lemma hm_pop_ids:
  assumes "hm_ok m"
  shows "fst (hm_pop m h b) = (if b \<in> set (hm_ids m h) then Some b else None)"
    and "hm_ids (snd (hm_pop m h b)) h' =
      (if h' = h then filter (\<lambda>x. x \<noteq> b) (hm_ids m h) else hm_ids m h')"
proof -
  have "fst (hm_pop m h b) = (if b \<in> set (hm_ids m h) then Some b else None) \<and>
    hm_ids (snd (hm_pop m h b)) h' = (if h' = h then filter (\<lambda>x. x \<noteq> b) (hm_ids m h) else hm_ids m h')"
  proof (cases "pd_get m h")
    case (Some e)
    with assms have ok: "entry_ok e" by (simp add: hm_ok_def)
    show ?thesis
    proof (cases e)
      case (BlockDict d)
      have "pd_get d b = (if b \<in> set (map snd d) then Some b else None)"
        using ok BlockDict by (simp add: self_keyed_get)
      moreover have "map snd (pd_del d b) = filter (\<lambda>x. x \<noteq> b) (map snd d)"
        using ok BlockDict by (simp add: map_snd_del)
      moreover from this have "pd_del d b = [] \<longleftrightarrow> filter (\<lambda>x. x \<noteq> b) (map snd d) = []"
        by (metis map_is_Nil_conv)
      ultimately show ?thesis using Some BlockDict by (auto simp: hm_ids_def hm_pop_def Let_def)
    qed (use Some in \<open>auto simp: hm_ids_def hm_pop_def\<close>)
  qed (auto simp: hm_ids_def hm_pop_def)
  then show "fst (hm_pop m h b) = (if b \<in> set (hm_ids m h) then Some b else None)"
    and "hm_ids (snd (hm_pop m h b)) h' =
      (if h' = h then filter (\<lambda>x. x \<noteq> b) (hm_ids m h) else hm_ids m h')" by blast+
qed

lemma hm_pop_ok: "hm_ok m \<Longrightarrow> hm_ok (snd (hm_pop m h b))"
proof (cases "pd_get m h")
  case (Some e)
  moreover assume "hm_ok m"
  moreover from calculation have "entry_ok e" by (simp add: hm_ok_def)
  ultimately show ?thesis
    by (cases e) (auto simp: hm_ok_def hm_pop_def Let_def self_keyed_del split: if_splits)
qed (auto simp: hm_ok_def hm_pop_def)

lemma hm_pop_all_ids:
  "fst (hm_pop_all m h) = hm_ids m h"
  "hm_ids (snd (hm_pop_all m h)) h' = (if h' = h then [] else hm_ids m h')"
  by (auto simp: hm_ids_def hm_pop_all_def split: option.splits hash_entry.splits)

lemma hm_pop_all_ok: "hm_ok m \<Longrightarrow> hm_ok (snd (hm_pop_all m h))"
  by (auto simp: hm_ok_def hm_pop_all_def split: option.splits hash_entry.splits)

section \<open>The contract of a content index\<close>

text \<open>
  What the paged cache relies on: inserting adds a block to the candidates of its hash, removing
  takes it away, other hashes are untouched and lookup returns a candidate when there is one.  Every
  operation therefore keeps a property of the indexed pairs (\<open>sound\<close>).
\<close>

locale content_index =
  fixes ok :: "'m \<Rightarrow> bool"
    and ids :: "'m \<Rightarrow> 'h \<Rightarrow> 'b list"
    and get :: "'m \<Rightarrow> 'h \<Rightarrow> 'b option"
    and ins :: "'m \<Rightarrow> 'h \<Rightarrow> 'b \<Rightarrow> 'm"
    and del :: "'m \<Rightarrow> 'h \<Rightarrow> 'b \<Rightarrow> 'm"
  assumes ok_ins: "ok m \<Longrightarrow> ok (ins m h b)"
    and ok_del: "ok m \<Longrightarrow> ok (del m h b)"
    and ids_ins: "ok m \<Longrightarrow> ids (ins m h b) h' =
      (if h' = h then (if b \<in> set (ids m h) then ids m h else ids m h @ [b]) else ids m h')"
    and ids_del: "ok m \<Longrightarrow> ids (del m h b) h' = (if h' = h then filter (\<lambda>x. x \<noteq> b) (ids m h) else ids m h')"
    and get_ids: "get m h = (if ids m h = [] then None else Some (last (ids m h)))"
begin

definition sound :: "('b \<Rightarrow> 'h \<Rightarrow> bool) \<Rightarrow> 'm \<Rightarrow> bool" where
  "sound P m \<longleftrightarrow> ok m \<and> (\<forall>h. \<forall>b \<in> set (ids m h). P b h)"

lemma sound_ins: "sound P m \<Longrightarrow> P b h \<Longrightarrow> sound P (ins m h b)"
  by (auto simp: sound_def ok_ins ids_ins)

lemma sound_del:
  "sound P m \<Longrightarrow> (\<And>b' h'. P b' h' \<Longrightarrow> (b', h') \<noteq> (b, h) \<Longrightarrow> Q b' h') \<Longrightarrow> sound Q (del m h b)"
  by (fastforce simp: sound_def ok_del ids_del)

lemma sound_weaken: "sound P m \<Longrightarrow> (\<And>b h. b \<in> set (ids m h) \<Longrightarrow> P b h \<Longrightarrow> Q b h) \<Longrightarrow> sound Q m"
  by (simp add: sound_def)

lemma sound_get: "sound P m \<Longrightarrow> get m h = Some b \<Longrightarrow> P b h"
  by (auto simp: sound_def get_ids split: if_splits)

lemma get_after_ins: "ok m \<Longrightarrow> get (ins m h b) h \<noteq> None"
  by (auto simp: get_ids ids_ins)

lemma not_found_after_del: "ok m \<Longrightarrow> get (del m h b) h \<noteq> Some b"
  using last_in_set [of "ids (del m h b) h"] by (auto simp: get_ids ids_del)

end

interpretation hm: content_index hm_ok hm_ids hm_get_block hm_insert "\<lambda>m h b. snd (hm_pop m h b)"
  by unfold_locales (simp_all add: hm_insert_ok hm_pop_ok hm_insert_ids hm_pop_ids hm_get_block_ids)

section \<open>Refinement to lists of ids\<close>

datatype index_op = Ins string int | Del string int | DelAll string

fun index_step :: "index_op \<Rightarrow> hash_map \<Rightarrow> hash_map" where
  "index_step (Ins h b) m = hm_insert m h b"
| "index_step (Del h b) m = snd (hm_pop m h b)"
| "index_step (DelAll h) m = snd (hm_pop_all m h)"

fun ids_step :: "index_op \<Rightarrow> (string \<Rightarrow> int list) \<Rightarrow> (string \<Rightarrow> int list)" where
  "ids_step (Ins h b) f = (if b \<in> set (f h) then f else f(h := f h @ [b]))"
| "ids_step (Del h b) f = f(h := filter (\<lambda>x. x \<noteq> b) (f h))"
| "ids_step (DelAll h) f = f(h := [])"

lemma index_step_refines:
  "hm_ok m \<Longrightarrow> hm_ok (index_step p m) \<and> hm_ids (index_step p m) = ids_step p (hm_ids m)"
  by (cases p) (auto simp: fun_eq_iff hm_insert_ok hm_pop_ok hm_pop_all_ok hm_insert_ids hm_pop_ids hm_pop_all_ids)

lemma index_run_refines:
  "hm_ok m \<Longrightarrow> hm_ok (fold index_step ps m) \<and> hm_ids (fold index_step ps m) = fold ids_step ps (hm_ids m)"
proof (induction ps arbitrary: m)
  case (Cons p ps)
  with index_step_refines [of m p] show ?case by simp
qed simp

section \<open>Properties\<close>

text \<open>
  The content index is a refinement of a function from hashes to lists of block ids: after any
  sequence of insertions, removals and retirements, a lookup returns the candidate that has been in
  the index for the shortest time, removal reports the block exactly when it was a candidate, and
  retirement returns every candidate, oldest first.
\<close>

lemma index_refines_lists:
  defines "run ps \<equiv> fold index_step ps []" and "spec ps \<equiv> fold ids_step ps (\<lambda>_. [])"
  shows "hm_get_block (run ps) h = (if spec ps h = [] then None else Some (last (spec ps h))) \<and>
    fst (hm_pop (run ps) h b) = (if b \<in> set (spec ps h) then Some b else None) \<and>
    fst (hm_pop_all (run ps) h) = spec ps h \<and> distinct (spec ps h)"
proof -
  have "hm_ids [] = (\<lambda>_. [])" by (simp add: fun_eq_iff)
  with index_run_refines [of "[]" ps] have "hm_ok (run ps)" "hm_ids (run ps) = spec ps"
    by (simp_all add: run_def spec_def)
  then show ?thesis
    using hm_ids_distinct [of "run ps" h] by (simp add: hm_get_block_ids hm_pop_ids hm_pop_all_ids)
qed

text \<open>
  Inserting a block that is already indexed under the hash does not make it the preferred one:
  lookups answer as before the insertion.
\<close>

lemma reinsert_keeps_preference:
  assumes "b \<in> set (hm_ids m h)" and "hm_ok m"
  shows "hm_get_block (hm_insert m h b) h' = hm_get_block m h'"
  using assms by (simp add: hm_get_block_ids hm_insert_ids)

lemma reinsert_keeps_preference_example:
  "1 \<in> set (hm_ids (fold index_step [Ins ''h'' 1, Ins ''h'' 2] []) ''h'') \<and>
   hm_get_block (hm_insert (fold index_step [Ins ''h'' 1, Ins ''h'' 2] []) ''h'' 1) ''h'' = Some 2"
proof -
  have "hm_ok (fold index_step [Ins ''h'' 1, Ins ''h'' 2] [])"
    and "hm_ids (fold index_step [Ins ''h'' 1, Ins ''h'' 2] []) ''h'' = [1, 2]"
    using index_run_refines [of "[]" "[Ins ''h'' 1, Ins ''h'' 2]"] by simp_all
  with reinsert_keeps_preference [of 1 "fold index_step [Ins ''h'' 1, Ins ''h'' 2] []" "''h''" "''h''"]
  show ?thesis by (simp add: hm_get_block_ids)
qed

end
