(* ===== verification/Block_Hash.thy ===== *)
theory Block_Hash
  imports Py_Values "HOL-Library.Product_Lexorder" "HOL-Library.List_Lexorder" "HOL-Library.Char_ord"
begin

text \<open>
  \<open>vmlx_engine/paged_cache.py\<close>: \<open>compute_block_hash\<close>, the content address of a block, with the
  canonical encoding of the request discriminator.  SHA-256 is a parameter \<open>H\<close>: what is proved is
  that the byte string it is given determines the parent, the tokens and the discriminator.
\<close>

section \<open>The bytes given to the hash\<close>

text \<open>\<open>struct.pack("<Q", n)\<close>: eight bytes, least significant first.\<close>

fun le_bytes :: "nat \<Rightarrow> nat \<Rightarrow> string" where
  "le_bytes 0 n = []"
| "le_bytes (Suc k) n = char_of n # le_bytes k (n div 256)"

definition pack_q :: "nat \<Rightarrow> string" where
  "pack_q n = le_bytes 8 n"

definition update_sized :: "string \<Rightarrow> string \<Rightarrow> string" where
  "update_sized tag payload = tag @ pack_q (length payload) @ payload"

text \<open>The sort key of the dictionary keys; every key type of the model is in module \<open>builtins\<close>.\<close>

definition dict_sort_key :: "(pyval \<Rightarrow> string) \<Rightarrow> pyval \<Rightarrow> string \<times> string" where
  "dict_sort_key rp k = (py_type_name k, py_repr rp k)"

text \<open>
  \<open>_hash_extra\<close>, the bytes it feeds to the hasher.  The pieces of a dictionary are sorted with their
  sort keys beside them.
\<close>

fun hash_extra :: "(pyval \<Rightarrow> string) \<Rightarrow> pyval \<Rightarrow> string" where
  "hash_extra rp (PyArray dtype shape raw) =
     update_sized ''A'' (dtype @ ''|'' @ str_tuple shape) @ update_sized ''a'' raw"
| "hash_extra rp (PyDict d) =
     ''D'' @ pack_q (length d) @
     concat (map snd (sort_key fst
       (map (\<lambda>(k, v). (dict_sort_key rp k, ''K'' @ hash_extra rp k @ ''V'' @ hash_extra rp v)) d)))"
| "hash_extra rp (PyList vs) = ''L'' @ pack_q (length vs) @ concat (map (hash_extra rp) vs)"
| "hash_extra rp (PyTuple vs) = ''L'' @ pack_q (length vs) @ concat (map (hash_extra rp) vs)"
| "hash_extra rp v = update_sized ''S'' (py_type_name v @ ''|'' @ py_str rp v)"

definition root_seed :: string where
  "root_seed = ''vmlx-engine-root''"

definition block_preimage :: "(pyval \<Rightarrow> string) \<Rightarrow> string option \<Rightarrow> int list \<Rightarrow> pyval \<Rightarrow> string" where
  "block_preimage rp parent tokens extra =
     (case parent of Some (c # cs) \<Rightarrow> c # cs | _ \<Rightarrow> root_seed) @ str_tuple tokens @
     (if extra = PyNone then [] else hash_extra rp extra)"

definition compute_block_hash ::
  "(pyval \<Rightarrow> string) \<Rightarrow> (string \<Rightarrow> string) \<Rightarrow> string option \<Rightarrow> int list \<Rightarrow> pyval \<Rightarrow> string" where
  "compute_block_hash rp H parent tokens extra = H (block_preimage rp parent tokens extra)"

section \<open>What the encoding determines\<close>

text \<open>
  The content of a discriminator: tuples and lists are the same sequence, a dictionary is the list of
  its items in the order of the sort keys.
\<close>

fun content_of :: "(pyval \<Rightarrow> string) \<Rightarrow> pyval \<Rightarrow> pyval" where
  "content_of rp (PyDict d) =
     PyDict (map snd (sort_key fst (map (\<lambda>(k, v). (dict_sort_key rp k, (content_of rp k, content_of rp v))) d)))"
| "content_of rp (PyList vs) = PyList (map (content_of rp) vs)"
| "content_of rp (PyTuple vs) = PyList (map (content_of rp) vs)"
| "content_of rp v = v"

text \<open>Sizes that \<open>struct.pack\<close> accepts; a dtype name has no bar.\<close>

fun packable :: "(pyval \<Rightarrow> string) \<Rightarrow> pyval \<Rightarrow> bool" where
  "packable rp (PyArray dtype shape raw) \<longleftrightarrow> CHR ''|'' \<notin> set dtype \<and>
     length (dtype @ ''|'' @ str_tuple shape) < 256 ^ 8 \<and> length raw < 256 ^ 8"
| "packable rp (PyDict d) \<longleftrightarrow> length d < 256 ^ 8 \<and> (\<forall>(k, v) \<in> set d. packable rp k \<and> packable rp v)"
| "packable rp (PyList vs) \<longleftrightarrow> length vs < 256 ^ 8 \<and> (\<forall>v \<in> set vs. packable rp v)"
| "packable rp (PyTuple vs) \<longleftrightarrow> length vs < 256 ^ 8 \<and> (\<forall>v \<in> set vs. packable rp v)"
| "packable rp v \<longleftrightarrow> length (py_type_name v @ ''|'' @ py_str rp v) < 256 ^ 8"

text \<open>The floats and byte strings of a value, whose text is Python's \<open>repr\<close>.\<close>

fun repr_leaves :: "pyval \<Rightarrow> pyval list" where
  "repr_leaves (PyFloat x) = [PyFloat x]"
| "repr_leaves (PyBytes b) = [PyBytes b]"
| "repr_leaves (PyDict d) = concat (map (\<lambda>(k, v). repr_leaves k @ repr_leaves v) d)"
| "repr_leaves (PyList vs) = concat (map repr_leaves vs)"
| "repr_leaves (PyTuple vs) = concat (map repr_leaves vs)"
| "repr_leaves _ = []"

definition repr_separates :: "(pyval \<Rightarrow> string) \<Rightarrow> pyval \<Rightarrow> pyval \<Rightarrow> bool" where
  "repr_separates rp v w \<longleftrightarrow>
     (\<forall>x \<in> set (repr_leaves v). \<forall>y \<in> set (repr_leaves w). py_type_name x = py_type_name y \<longrightarrow> rp x = rp y \<longrightarrow> x = y)"

lemma length_le_bytes [simp]: "length (le_bytes k n) = k"
  by (induction k arbitrary: n) simp_all

lemma le_bytes_inj: "le_bytes k m = le_bytes k n \<Longrightarrow> m < 256 ^ k \<Longrightarrow> n < 256 ^ k \<Longrightarrow> m = n"
proof (induction k arbitrary: m n)
  case (Suc k)
  then have "(char_of m :: char) = char_of n" and rest: "le_bytes k (m div 256) = le_bytes k (n div 256)" by simp_all
  then have "m mod 256 = n mod 256" by (metis of_char_of)
  moreover have "m div 256 = n div 256"
    by (rule Suc.IH [OF rest]) (use Suc.prems(2,3) in \<open>simp_all add: less_mult_imp_div_less mult.commute\<close>)
  ultimately show ?case by (metis div_mult_mod_eq)
qed simp

lemma length_pack_q [simp]: "length (pack_q n) = 8"
  by (simp add: pack_q_def)

lemma pack_q_inj: "pack_q m = pack_q n \<Longrightarrow> m < 256 ^ 8 \<Longrightarrow> n < 256 ^ 8 \<Longrightarrow> m = n"
  unfolding pack_q_def by (rule le_bytes_inj)

lemma pack_q_prefix:
  "pack_q m @ r = pack_q n @ s \<Longrightarrow> m < 256 ^ 8 \<Longrightarrow> n < 256 ^ 8 \<Longrightarrow> m = n \<and> r = s"
  using pack_q_inj by (auto simp: append_eq_append_conv)

lemma update_sized_prefix:
  assumes "update_sized t p @ r = update_sized t q @ s" "length p < 256 ^ 8" "length q < 256 ^ 8"
  shows "p = q \<and> r = s"
proof -
  from assms(1) have "pack_q (length p) @ p @ r = pack_q (length q) @ q @ s"
    by (simp add: update_sized_def)
  from pack_q_prefix [OF this assms(2,3)] have "length p = length q \<and> p @ r = q @ s" .
  then show ?thesis by auto
qed

lemma sort_key_map: "sort_key f (map g xs) = map g (sort_key (f \<circ> g) xs)"
proof -
  have ins: "insort_key f (g x) (map g ys) = map g (insort_key (f \<circ> g) x ys)" for x ys
    by (induction ys) simp_all
  show ?thesis by (induction xs) (simp_all add: ins [unfolded comp_def] comp_def)
qed

definition sorted_items :: "(pyval \<Rightarrow> string) \<Rightarrow> (pyval \<times> pyval) list \<Rightarrow> (pyval \<times> pyval) list" where
  "sorted_items rp d = sort_key (\<lambda>(k, v). dict_sort_key rp k) d"

lemma sorted_items_simps [simp]: "set (sorted_items rp d) = set d" "length (sorted_items rp d) = length d"
  by (simp_all add: sorted_items_def)

lemma hash_extra_dict: "hash_extra rp (PyDict d) = ''D'' @ pack_q (length d) @
    concat (map (\<lambda>(k, v). ''K'' @ hash_extra rp k @ ''V'' @ hash_extra rp v) (sorted_items rp d))"
  by (simp add: sorted_items_def sort_key_map comp_def case_prod_unfold)

lemma content_of_dict: "content_of rp (PyDict d) =
    PyDict (map (\<lambda>(k, v). (content_of rp k, content_of rp v)) (sorted_items rp d))"
  by (simp add: sorted_items_def sort_key_map comp_def case_prod_unfold)

declare hash_extra.simps(2) [simp del] content_of.simps(1) [simp del]

fun is_leaf :: "pyval \<Rightarrow> bool" where
  "is_leaf (PyArray _ _ _) \<longleftrightarrow> False"
| "is_leaf (PyDict _) \<longleftrightarrow> False"
| "is_leaf (PyList _) \<longleftrightarrow> False"
| "is_leaf (PyTuple _) \<longleftrightarrow> False"
| "is_leaf _ \<longleftrightarrow> True"

definition leaf_text :: "(pyval \<Rightarrow> string) \<Rightarrow> pyval \<Rightarrow> string" where
  "leaf_text rp v = py_type_name v @ ''|'' @ py_str rp v"

lemma leaf_simps:
  assumes "is_leaf v"
  shows "hash_extra rp v = update_sized ''S'' (leaf_text rp v)" "content_of rp v = v"
    "packable rp v \<longleftrightarrow> length (leaf_text rp v) < 256 ^ 8"
  using assms by (cases v; simp add: leaf_text_def)+

lemma separator_split:
  "xs @ c # ys = xs' @ c # ys' \<Longrightarrow> c \<notin> set xs \<Longrightarrow> c \<notin> set xs' \<Longrightarrow> xs = xs' \<and> ys = ys'"
proof (induction xs arbitrary: xs')
  case Nil
  then show ?case by (cases xs') auto
next
  case (Cons x xs)
  then show ?case by (cases xs') auto
qed

lemma py_type_name_bar [simp]: "CHR ''|'' \<notin> set (py_type_name v)"
  by (cases v) simp_all

lemma leaf_text_inj:
  assumes "leaf_text rp v = leaf_text rp w" "is_leaf v" "is_leaf w" "repr_separates rp v w"
  shows "v = w"
proof -
  from assms(1) have "py_type_name v @ CHR ''|'' # py_str rp v = py_type_name w @ CHR ''|'' # py_str rp w"
    by (simp add: leaf_text_def)
  from separator_split [OF this] have "py_type_name v = py_type_name w" "py_str rp v = py_str rp w" by simp_all
  then show ?thesis
    using assms(2-4) by (cases v; cases w; simp add: repr_separates_def split: if_splits)
qed

lemma repr_separates_sub:
  "repr_separates rp v w \<Longrightarrow> set (repr_leaves v') \<subseteq> set (repr_leaves v) \<Longrightarrow> set (repr_leaves w') \<subseteq> set (repr_leaves w) \<Longrightarrow>
   repr_separates rp v' w'"
  unfolding repr_separates_def by blast

text \<open>The encoding of \<open>v\<close> determines its content and where it ends.\<close>

definition decodable :: "(pyval \<Rightarrow> string) \<Rightarrow> pyval \<Rightarrow> bool" where
  "decodable rp v \<longleftrightarrow> (\<forall>w r s. packable rp v \<longrightarrow> packable rp w \<longrightarrow> repr_separates rp v w \<longrightarrow>
     hash_extra rp v @ r = hash_extra rp w @ s \<longrightarrow> content_of rp v = content_of rp w \<and> r = s)"

lemma decodableD:
  "decodable rp v \<Longrightarrow> packable rp v \<Longrightarrow> packable rp w \<Longrightarrow> repr_separates rp v w \<Longrightarrow>
   hash_extra rp v @ r = hash_extra rp w @ s \<Longrightarrow> content_of rp v = content_of rp w \<and> r = s"
  by (simp add: decodable_def)

lemma decode_list:
  assumes "\<And>v. v \<in> set vs \<Longrightarrow> decodable rp v \<and> packable rp v"
    and "\<And>w. w \<in> set ws \<Longrightarrow> packable rp w"
    and "\<And>v w. v \<in> set vs \<Longrightarrow> w \<in> set ws \<Longrightarrow> repr_separates rp v w"
    and "length vs = length ws"
    and "concat (map (hash_extra rp) vs) @ r = concat (map (hash_extra rp) ws) @ s"
  shows "map (content_of rp) vs = map (content_of rp) ws \<and> r = s"
  using assms(4,1-3,5)
proof (induction vs ws rule: list_induct2)
  case (Cons v vs w ws)
  have "hash_extra rp v @ (concat (map (hash_extra rp) vs) @ r) = hash_extra rp w @ (concat (map (hash_extra rp) ws) @ s)"
    using Cons.prems(4) by simp
  from decodableD [OF _ _ _ _ this] Cons.prems(1-3)
  have "content_of rp v = content_of rp w" "concat (map (hash_extra rp) vs) @ r = concat (map (hash_extra rp) ws) @ s"
    by auto
  with Cons.IH Cons.prems(1-3) show ?case by auto
qed simp

lemma decode_items:
  assumes "\<And>k v. (k, v) \<in> set ds \<Longrightarrow> decodable rp k \<and> decodable rp v \<and> packable rp k \<and> packable rp v"
    and "\<And>k v. (k, v) \<in> set es \<Longrightarrow> packable rp k \<and> packable rp v"
    and "\<And>k v l w. (k, v) \<in> set ds \<Longrightarrow> (l, w) \<in> set es \<Longrightarrow> repr_separates rp k l \<and> repr_separates rp v w"
    and "length ds = length es"
    and "concat (map (\<lambda>(k, v). ''K'' @ hash_extra rp k @ ''V'' @ hash_extra rp v) ds) @ r =
      concat (map (\<lambda>(k, v). ''K'' @ hash_extra rp k @ ''V'' @ hash_extra rp v) es) @ s"
  shows "map (\<lambda>(k, v). (content_of rp k, content_of rp v)) ds = map (\<lambda>(k, v). (content_of rp k, content_of rp v)) es \<and> r = s"
  using assms(4,1-3,5)
proof (induction ds es rule: list_induct2)
  case (Cons x ds y es)
  obtain k v l w where xy: "x = (k, v)" "y = (l, w)" by (cases x; cases y)
  let ?f = "\<lambda>(k, v). ''K'' @ hash_extra rp k @ ''V'' @ hash_extra rp v"
  have "hash_extra rp k @ (''V'' @ hash_extra rp v @ concat (map ?f ds) @ r) =
      hash_extra rp l @ (''V'' @ hash_extra rp w @ concat (map ?f es) @ s)"
    using Cons.prems(4) xy by simp
  from decodableD [OF _ _ _ _ this] Cons.prems(1) [of k v] Cons.prems(2) [of l w] Cons.prems(3) [of k v l w] xy
  have k: "content_of rp k = content_of rp l"
    and "''V'' @ hash_extra rp v @ concat (map ?f ds) @ r = ''V'' @ hash_extra rp w @ concat (map ?f es) @ s"
    by auto
  then have "hash_extra rp v @ (concat (map ?f ds) @ r) = hash_extra rp w @ (concat (map ?f es) @ s)" by simp
  from decodableD [OF _ _ _ _ this] Cons.prems(1) [of k v] Cons.prems(2) [of l w] Cons.prems(3) [of k v l w] xy
  have v: "content_of rp v = content_of rp w" and rest: "concat (map ?f ds) @ r = concat (map ?f es) @ s" by auto
  have "map (\<lambda>(k, v). (content_of rp k, content_of rp v)) ds = map (\<lambda>(k, v). (content_of rp k, content_of rp v)) es \<and> r = s"
  proof (rule Cons.IH [OF _ _ _ rest])
    show "decodable rp k \<and> decodable rp v \<and> packable rp k \<and> packable rp v" if "(k, v) \<in> set ds" for k v
      by (rule Cons.prems(1)) (use that in simp)
    show "packable rp k \<and> packable rp v" if "(k, v) \<in> set es" for k v
      by (rule Cons.prems(2)) (use that in simp)
    show "repr_separates rp k l \<and> repr_separates rp v w" if "(k, v) \<in> set ds" "(l, w) \<in> set es" for k v l w
      by (rule Cons.prems(3)) (use that in simp_all)
  qed
  with k v xy show ?case by simp
qed simp

fun tag_of :: "pyval \<Rightarrow> char" where
  "tag_of (PyArray _ _ _) = CHR ''A''"
| "tag_of (PyDict _) = CHR ''D''"
| "tag_of (PyList _) = CHR ''L''"
| "tag_of (PyTuple _) = CHR ''L''"
| "tag_of _ = CHR ''S''"

lemma hash_extra_tag: "\<exists>x. hash_extra rp v @ r = tag_of v # x"
  by (cases v) (simp_all add: update_sized_def hash_extra_dict)

lemma hash_extra_tags: "hash_extra rp v @ r = hash_extra rp w @ s \<Longrightarrow> tag_of v = tag_of w"
  using hash_extra_tag [of rp v r] hash_extra_tag [of rp w s] by auto

lemma leaf_tag: "is_leaf v \<longleftrightarrow> tag_of v = CHR ''S''"
  by (cases v) simp_all

lemma decodable_leaf: "is_leaf v \<Longrightarrow> decodable rp v"
  unfolding decodable_def
proof (intro allI impI)
  fix w r s
  assume v: "is_leaf v" "packable rp v" and w: "packable rp w" and sep: "repr_separates rp v w"
    and eq: "hash_extra rp v @ r = hash_extra rp w @ s"
  from hash_extra_tags [OF eq] v(1) have lw: "is_leaf w" by (simp add: leaf_tag)
  from update_sized_prefix [OF eq [unfolded leaf_simps(1) [OF v(1)] leaf_simps(1) [OF lw]]]
  have "leaf_text rp v = leaf_text rp w" "r = s"
    using v w leaf_simps(3) lw by simp_all
  then show "content_of rp v = content_of rp w \<and> r = s"
    using leaf_text_inj v(1) lw sep by blast
qed

lemma decodable_array: "decodable rp (PyArray dtype shape raw)"
  unfolding decodable_def
proof (intro allI impI)
  fix w r s
  assume v: "packable rp (PyArray dtype shape raw)" and w: "packable rp w"
    and eq: "hash_extra rp (PyArray dtype shape raw) @ r = hash_extra rp w @ s"
  from hash_extra_tags [OF eq] obtain dtype' shape' raw' where W: "w = PyArray dtype' shape' raw'"
    by (cases w) auto
  from eq W have "update_sized ''A'' (dtype @ ''|'' @ str_tuple shape) @ update_sized ''a'' raw @ r =
      update_sized ''A'' (dtype' @ ''|'' @ str_tuple shape') @ update_sized ''a'' raw' @ s" by simp
  from update_sized_prefix [OF this] v w W
  have hd: "dtype @ ''|'' @ str_tuple shape = dtype' @ ''|'' @ str_tuple shape'"
    and "update_sized ''a'' raw @ r = update_sized ''a'' raw' @ s" by auto
  from update_sized_prefix [OF this(2)] v w W have "raw = raw'" "r = s" by auto
  moreover have "dtype @ CHR ''|'' # str_tuple shape = dtype' @ CHR ''|'' # str_tuple shape'" using hd by simp
  from separator_split [OF this] v w W have "dtype = dtype'" "str_tuple shape = str_tuple shape'" by auto
  moreover from this(2) have "shape = shape'" using str_tuple_prefix [of shape "[]" shape' "[]"] by simp
  ultimately show "content_of rp (PyArray dtype shape raw) = content_of rp w \<and> r = s" using W by simp
qed

lemma list_like_tag: "tag_of w = CHR ''L'' \<Longrightarrow> \<exists>ws. w = PyList ws \<or> w = PyTuple ws"
  by (cases w) auto

lemma decodable_sequence:
  assumes "\<And>v. v \<in> set vs \<Longrightarrow> decodable rp v" and V: "V = PyList vs \<or> V = PyTuple vs"
  shows "decodable rp V"
  unfolding decodable_def
proof (intro allI impI)
  fix w r s
  assume v: "packable rp V" and w: "packable rp w" and sep: "repr_separates rp V w"
    and eq: "hash_extra rp V @ r = hash_extra rp w @ s"
  have "tag_of w = CHR ''L''" using hash_extra_tags [OF eq] V by auto
  then obtain ws where W: "w = PyList ws \<or> w = PyTuple ws" using list_like_tag by blast
  have len: "length vs < 256 ^ 8" "length ws < 256 ^ 8" using v w V W by auto
  from eq V W have "pack_q (length vs) @ (concat (map (hash_extra rp) vs) @ r) = pack_q (length ws) @ (concat (map (hash_extra rp) ws) @ s)"
    by auto
  from pack_q_prefix [OF this len]
  have "length vs = length ws" and rest: "concat (map (hash_extra rp) vs) @ r = concat (map (hash_extra rp) ws) @ s"
    by simp_all
  moreover have "repr_separates rp x y" if "x \<in> set vs" "y \<in> set ws" for x y
    by (rule repr_separates_sub [OF sep]) (use that V W in auto)
  moreover have "decodable rp x \<and> packable rp x" if "x \<in> set vs" for x using that assms v V by auto
  moreover have "packable rp y" if "y \<in> set ws" for y using that w W by auto
  ultimately have "map (content_of rp) vs = map (content_of rp) ws \<and> r = s"
    using decode_list [of vs rp ws r s] by blast
  then show "content_of rp V = content_of rp w \<and> r = s" using V W by auto
qed

lemma decodable_dict:
  assumes "\<And>k v. (k, v) \<in> set d \<Longrightarrow> decodable rp k \<and> decodable rp v"
  shows "decodable rp (PyDict d)"
  unfolding decodable_def
proof (intro allI impI)
  fix w r s
  assume v: "packable rp (PyDict d)" and w: "packable rp w" and sep: "repr_separates rp (PyDict d) w"
    and eq: "hash_extra rp (PyDict d) @ r = hash_extra rp w @ s"
  from hash_extra_tags [OF eq] obtain e where W: "w = PyDict e" by (cases w) auto
  let ?f = "\<lambda>(k, v). ''K'' @ hash_extra rp k @ ''V'' @ hash_extra rp v"
  have len: "length d < 256 ^ 8" "length e < 256 ^ 8" using v w W by simp_all
  from eq W have "pack_q (length d) @ (concat (map ?f (sorted_items rp d)) @ r) = pack_q (length e) @ (concat (map ?f (sorted_items rp e)) @ s)"
    by (simp add: hash_extra_dict)
  from pack_q_prefix [OF this len]
  have "length (sorted_items rp d) = length (sorted_items rp e)"
    and rest: "concat (map ?f (sorted_items rp d)) @ r = concat (map ?f (sorted_items rp e)) @ s" by simp_all
  then have "map (\<lambda>(k, v). (content_of rp k, content_of rp v)) (sorted_items rp d) =
      map (\<lambda>(k, v). (content_of rp k, content_of rp v)) (sorted_items rp e) \<and> r = s"
  proof (intro decode_items)
    fix k v assume kv: "(k, v) \<in> set (sorted_items rp d)"
    then show "decodable rp k \<and> decodable rp v \<and> packable rp k \<and> packable rp v"
      using assms v by auto
    fix l x assume "(l, x) \<in> set (sorted_items rp e)"
    with kv have mem: "(k, v) \<in> set d" "(l, x) \<in> set e" by simp_all
    show "repr_separates rp k l \<and> repr_separates rp v x"
    proof
      have "set (repr_leaves k) \<union> set (repr_leaves v) \<subseteq> set (repr_leaves (PyDict d))"
        using mem(1) by (auto intro!: bexI [of _ "(k, v)"])
      moreover have "set (repr_leaves l) \<union> set (repr_leaves x) \<subseteq> set (repr_leaves w)"
        using mem(2) W by (auto intro!: bexI [of _ "(l, x)"])
      ultimately show "repr_separates rp k l" "repr_separates rp v x"
        by (blast intro: repr_separates_sub [OF sep])+
    qed
  next
    fix k v assume "(k, v) \<in> set (sorted_items rp e)"
    then show "packable rp k \<and> packable rp v" using w W by auto
  qed
  then show "content_of rp (PyDict d) = content_of rp w \<and> r = s" using W by (simp add: content_of_dict)
qed

lemma decodable: "decodable rp v"
proof (induction v)
  case (PyTuple vs)
  show ?case by (rule decodable_sequence [of vs]) (use PyTuple in simp_all)
next
  case (PyList vs)
  show ?case by (rule decodable_sequence [of vs]) (use PyList in simp_all)
next
  case (PyDict d)
  have "decodable rp k \<and> decodable rp v" if "(k, v) \<in> set d" for k v
    using PyDict.IH(1) [OF that, of k] PyDict.IH(2) [OF that, of v] by (simp add: fsts.intros snds.intros)
  then show ?case by (rule decodable_dict)
next
  case (PyArray dtype shape raw)
  then show ?case by (rule decodable_array)
qed (simp_all add: decodable_leaf)

section \<open>The preimage of a block\<close>

definition usable_digest :: "string \<Rightarrow> bool" where
  "usable_digest h \<longleftrightarrow> length h = 32 \<and> take 16 h \<noteq> root_seed"

definition parent_ok :: "string option \<Rightarrow> bool" where
  "parent_ok p \<longleftrightarrow> (case p of None \<Rightarrow> True | Some h \<Rightarrow> usable_digest h)"

lemma preimage_parent:
  assumes "parent_ok p"
  shows "block_preimage rp p ts x = (case p of None \<Rightarrow> root_seed | Some h \<Rightarrow> h) @ str_tuple ts @
    (if x = PyNone then [] else hash_extra rp x)"
  using assms by (auto simp: block_preimage_def parent_ok_def usable_digest_def split: option.splits list.splits)

lemma root_seed_length [simp]: "length root_seed = 16"
  by (simp add: root_seed_def)

lemma block_preimage_inj:
  assumes "block_preimage rp p ts x = block_preimage rp q us y" "parent_ok p" "parent_ok q"
    and "packable rp x" "packable rp y" "repr_separates rp x y"
  shows "p = q \<and> ts = us \<and> content_of rp x = content_of rp y"
proof -
  let ?e = "\<lambda>x. if x = PyNone then [] else hash_extra rp x"
  from assms(1-3) have eq: "(case p of None \<Rightarrow> root_seed | Some h \<Rightarrow> h) @ str_tuple ts @ ?e x =
      (case q of None \<Rightarrow> root_seed | Some h \<Rightarrow> h) @ str_tuple us @ ?e y" by (simp only: preimage_parent)
  have len: "length h = 32" "take 16 h \<noteq> root_seed" if "p = Some h \<or> q = Some h" for h
    using that assms(2,3) by (auto simp: parent_ok_def usable_digest_def)
  have pq: "p = q"
  proof (cases p; cases q)
    fix h k assume "p = Some h" "q = Some k"
    then show ?thesis using eq len [of h] len [of k] by (simp add: append_eq_append_conv)
  next
    fix h assume h: "p = Some h" "q = None"
    then show ?thesis using arg_cong [OF eq, of "take 16"] len [of h] by simp
  next
    fix h assume h: "q = Some h" "p = None"
    then show ?thesis using arg_cong [OF eq, of "take 16"] len [of h] by simp
  qed simp
  with eq have "str_tuple ts @ ?e x = str_tuple us @ ?e y" by simp
  from str_tuple_prefix [OF this] have "ts = us" and e: "?e x = ?e y" by simp_all
  have ne: "hash_extra rp z \<noteq> []" for z using hash_extra_tag [of rp z "[]"] by auto
  have "content_of rp x = content_of rp y"
  proof (cases "x = PyNone \<or> y = PyNone")
    case False
    with e have "hash_extra rp x @ [] = hash_extra rp y @ []" by simp
    from decodableD [OF decodable _ _ _ this] assms(4-6) show ?thesis by simp
  qed (use e ne ne [symmetric] in \<open>auto split: if_splits\<close>)
  with pq \<open>ts = us\<close> show ?thesis by simp
qed

section \<open>Chains of blocks\<close>

text \<open>The hash of a chain: each block is hashed with the hash of the chain before it.\<close>

definition chain_hash :: "(pyval \<Rightarrow> string) \<Rightarrow> (string \<Rightarrow> string) \<Rightarrow> (int list \<times> pyval) list \<Rightarrow> string option" where
  "chain_hash rp H bs = foldl (\<lambda>p (ts, x). Some (compute_block_hash rp H p ts x)) None bs"

definition chain_preimages :: "(pyval \<Rightarrow> string) \<Rightarrow> (string \<Rightarrow> string) \<Rightarrow> (int list \<times> pyval) list \<Rightarrow> string set" where
  "chain_preimages rp H bs = (\<lambda>i. block_preimage rp (chain_hash rp H (take i bs)) (fst (bs ! i)) (snd (bs ! i))) ` {..<length bs}"

lemma chain_hash_snoc [simp]:
  "chain_hash rp H [] = None"
  "chain_hash rp H (bs @ [(ts, x)]) = Some (H (block_preimage rp (chain_hash rp H bs) ts x))"
  by (simp_all add: chain_hash_def compute_block_hash_def)

lemma chain_preimages_snoc [simp]:
  "chain_preimages rp H [] = {}"
  "chain_preimages rp H (bs @ [(ts, x)]) = insert (block_preimage rp (chain_hash rp H bs) ts x) (chain_preimages rp H bs)"
  by (auto simp: chain_preimages_def nth_append lessThan_Suc image_def)

lemma chain_hash_parent_ok:
  "\<forall>z \<in> chain_preimages rp H bs. usable_digest (H z) \<Longrightarrow> parent_ok (chain_hash rp H bs)"
  by (cases bs rule: rev_cases) (auto simp: parent_ok_def)

lemma chain_hash_inj:
  assumes "chain_hash rp H bs = chain_hash rp H cs"
    and "inj_on H (chain_preimages rp H bs \<union> chain_preimages rp H cs)"
    and "\<forall>z \<in> chain_preimages rp H bs \<union> chain_preimages rp H cs. usable_digest (H z)"
    and "\<forall>(ts, x) \<in> set bs. packable rp x" "\<forall>(us, y) \<in> set cs. packable rp y"
    and "\<forall>(ts, x) \<in> set bs. \<forall>(us, y) \<in> set cs. repr_separates rp x y"
  shows "map (\<lambda>(ts, x). (ts, content_of rp x)) bs = map (\<lambda>(us, y). (us, content_of rp y)) cs"
  using assms
proof (induction bs arbitrary: cs rule: rev_induct)
  case Nil
  then show ?case by (cases cs rule: rev_cases) auto
next
  case (snoc b bs)
  obtain ts x where b: "b = (ts, x)" by (cases b)
  have "cs \<noteq> []" using snoc.prems(1) b by auto
  then obtain ds c where cs: "cs = ds @ [c]" by (cases cs rule: rev_cases) auto
  obtain us y where c: "c = (us, y)" by (cases c)
  let ?z = "block_preimage rp (chain_hash rp H bs) ts x" and ?z' = "block_preimage rp (chain_hash rp H ds) us y"
  have "H ?z = H ?z'" using snoc.prems(1) b c cs by simp
  then have "?z = ?z'" by (rule inj_onD [OF snoc.prems(2)]) (simp_all add: b c cs)
  moreover have "parent_ok (chain_hash rp H bs)" "parent_ok (chain_hash rp H ds)"
    by (rule chain_hash_parent_ok; use snoc.prems(3) b c cs in simp)+
  ultimately have eq: "chain_hash rp H bs = chain_hash rp H ds \<and> ts = us \<and> content_of rp x = content_of rp y"
    using snoc.prems(4-6) b c cs by (intro block_preimage_inj) simp_all
  have "map (\<lambda>(ts, x). (ts, content_of rp x)) bs = map (\<lambda>(us, y). (us, content_of rp y)) ds"
  proof (rule snoc.IH)
    show "inj_on H (chain_preimages rp H bs \<union> chain_preimages rp H ds)"
      by (rule inj_on_subset [OF snoc.prems(2)]) (auto simp: b c cs)
  qed (use eq snoc.prems(3-6) b c cs in auto)
  with eq b c cs show ?case by simp
qed

section \<open>Properties\<close>

text \<open>
  The canonical encoding of request discriminators is unambiguous: two encodings followed by any
  bytes agree only when the discriminators have the same content (the same tree, up to tuples being
  lists and dictionaries being ordered by key), so neither field boundaries nor nesting nor types can
  be confused.
\<close>

lemma extra_encoding_unambiguous:
  assumes "packable rp v" "packable rp w" "repr_separates rp v w"
    and "hash_extra rp v @ r = hash_extra rp w @ s"
  shows "content_of rp v = content_of rp w \<and> r = s"
  by (rule decodableD [OF decodable assms])

text \<open>
  C19. A chain hash binds the whole prefix: when the hash function is injective on the byte strings the
  two chains feed to it (no collision among them), two chains of blocks with the same hash have the
  same number of blocks, the same tokens in every block and the same discriminator content in every
  block.
\<close>

theorem chain_hash_binds_prefix:
  assumes "inj_on H (chain_preimages rp H bs \<union> chain_preimages rp H cs)"
    and "\<forall>z \<in> chain_preimages rp H bs \<union> chain_preimages rp H cs. usable_digest (H z)"
    and "\<forall>(ts, x) \<in> set bs. packable rp x" "\<forall>(us, y) \<in> set cs. packable rp y"
    and "\<forall>(ts, x) \<in> set bs. \<forall>(us, y) \<in> set cs. repr_separates rp x y"
    and "chain_hash rp H bs = chain_hash rp H cs"
  shows "length bs = length cs \<and> map fst bs = map fst cs \<and>
    map (content_of rp \<circ> snd) bs = map (content_of rp \<circ> snd) cs"
proof -
  have eq: "map (\<lambda>(ts, x). (ts, content_of rp x)) bs = map (\<lambda>(us, y). (us, content_of rp y)) cs"
    using chain_hash_inj assms by blast
  show ?thesis
    using arg_cong [OF eq, of length] arg_cong [OF eq, of "map fst"] arg_cong [OF eq, of "map snd"]
    by (simp add: comp_def case_prod_unfold)
qed

theorem chain_hash_binds_prefix_witness:
  "chain_hash (\<lambda>_. []) (\<lambda>z. take 32 (rev z @ replicate 32 CHR ''x'')) [([1, 23], PyNone)] \<noteq>
   chain_hash (\<lambda>_. []) (\<lambda>z. take 32 (rev z @ replicate 32 CHR ''x'')) [([12, 3], PyNone)]"
proof
  let ?H = "\<lambda>z. take 32 (rev z @ replicate 32 CHR ''x'')"
  have "block_preimage (\<lambda>_. []) None [1, 23] PyNone = ''vmlx-engine-root(1, 23)''"
    and "block_preimage (\<lambda>_. []) None [12, 3] PyNone = ''vmlx-engine-root(12, 3)''" by code_simp+
  then have pre: "chain_preimages (\<lambda>_. []) ?H [([1, 23], PyNone)] = {''vmlx-engine-root(1, 23)''}"
    "chain_preimages (\<lambda>_. []) ?H [([12, 3], PyNone)] = {''vmlx-engine-root(12, 3)''}"
    using chain_preimages_snoc(2) [of "\<lambda>_. []" ?H "[]" "[1, 23]" PyNone]
      chain_preimages_snoc(2) [of "\<lambda>_. []" ?H "[]" "[12, 3]" PyNone] by simp_all
  assume "chain_hash (\<lambda>_. []) ?H [([1, 23], PyNone)] = chain_hash (\<lambda>_. []) ?H [([12, 3], PyNone)]"
  from chain_hash_binds_prefix [OF _ _ _ _ _ this] show False
    unfolding pre by (simp add: usable_digest_def root_seed_def repr_separates_def)
qed

end
