(* ===== verification/Cache_Key.thy ===== *)
theory Cache_Key
  imports Py_Values
begin

text \<open>
  \<open>vmlx_engine/cache_key.py\<close>: request discriminators of the prompt caches.  A discriminator is a
  Python value (\<open>PyNone\<close> when absent); a dictionary may carry, under a reserved key, the first token
  position from which each of its other keys matters.
\<close>

section \<open>Operations\<close>

definition extra_scopes_key :: pyval where
  "extra_scopes_key = PyStr ''__vmlx_cache_extra_scopes_v1__''"

definition scope_cache_extra_key ::
  "(pyval \<Rightarrow> string) \<Rightarrow> pyval \<Rightarrow> string \<Rightarrow> int \<Rightarrow> (pyval, pyval) pydict" where
  "scope_cache_extra_key rp extra key start =
     (let scoped = (case extra of
            PyDict d \<Rightarrow> d
          | PyNone \<Rightarrow> []
          | v \<Rightarrow> [(PyStr ''request'', PyStr (py_repr rp v))]);
          scopes = (case pd_get scoped extra_scopes_key of Some (PyDict s) \<Rightarrow> s | _ \<Rightarrow> []);
          scopes' = pd_set scopes (PyStr key) (PyInt (max 0 start))
      in pd_set scoped extra_scopes_key (PyDict scopes'))"

text \<open>The loop over the items: the resolved dictionary and the scopes that are active.\<close>

fun resolve_items ::
  "(pyval \<Rightarrow> string) \<Rightarrow> (string \<Rightarrow> int option) \<Rightarrow> (pyval, pyval) pydict \<Rightarrow> int \<Rightarrow> (pyval \<times> pyval) list \<Rightarrow>
   (pyval, pyval) pydict \<Rightarrow> (pyval, pyval) pydict \<Rightarrow> (pyval, pyval) pydict \<times> (pyval, pyval) pydict" where
  "resolve_items rp parse scopes range_end [] resolved active = (resolved, active)"
| "resolve_items rp parse scopes range_end ((key, value) # items) resolved active =
     (if key = extra_scopes_key then resolve_items rp parse scopes range_end items resolved active
      else case pd_get scopes (PyStr (py_str rp key)) of
        None \<Rightarrow> resolve_items rp parse scopes range_end items (pd_set resolved key value) active
      | Some PyNone \<Rightarrow> resolve_items rp parse scopes range_end items (pd_set resolved key value) active
      | Some raw \<Rightarrow>
          (case py_int parse raw of
             Inl _ \<Rightarrow> resolve_items rp parse scopes range_end items (pd_set resolved key value) active
           | Inr n \<Rightarrow>
               if range_end > max 0 n then
                 resolve_items rp parse scopes range_end items (pd_set resolved key value)
                   (pd_set active (PyStr (py_str rp key)) (PyInt (max 0 n)))
               else resolve_items rp parse scopes range_end items resolved active))"

definition cache_extra_keys_for_token_range ::
  "(pyval \<Rightarrow> string) \<Rightarrow> (string \<Rightarrow> int option) \<Rightarrow> pyval \<Rightarrow> int \<Rightarrow> int \<Rightarrow> pyval" where
  "cache_extra_keys_for_token_range rp parse extra start_token end_token =
     (case py_dict_of extra of
        None \<Rightarrow> extra
      | Some d \<Rightarrow>
          (case pd_get d extra_scopes_key of
             Some (PyDict scopes) \<Rightarrow>
               if scopes = [] then extra
               else
                 (let (resolved, active) =
                        resolve_items rp parse scopes (max start_token end_token) d [] [];
                      resolved' = (if active \<noteq> [] then pd_set resolved extra_scopes_key (PyDict active) else resolved)
                  in if resolved' = [] then PyNone else PyDict resolved')
           | _ \<Rightarrow> extra))"

text \<open>\<open>json.dumps\<close> and \<open>repr\<close> are the interpreter's: \<open>dumps\<close> answers \<open>None\<close> when it raises.\<close>

definition canonical_cache_extra_marker ::
  "(pyval \<Rightarrow> string) \<Rightarrow> (pyval \<Rightarrow> string option) \<Rightarrow> pyval \<Rightarrow> string option" where
  "canonical_cache_extra_marker rp dumps extra =
     (if extra = PyNone then None
      else case dumps extra of Some s \<Rightarrow> Some s | None \<Rightarrow> Some (py_repr rp extra))"

section \<open>The resolved dictionary\<close>

text \<open>Whether a key is kept for a range: no boundary, an unreadable one, or one before the end.\<close>

definition boundary_of ::
  "(pyval \<Rightarrow> string) \<Rightarrow> (string \<Rightarrow> int option) \<Rightarrow> (pyval, pyval) pydict \<Rightarrow> pyval \<Rightarrow> int option" where
  "boundary_of rp parse scopes key =
     (case pd_get scopes (PyStr (py_str rp key)) of
        None \<Rightarrow> None
      | Some PyNone \<Rightarrow> None
      | Some raw \<Rightarrow> (case py_int parse raw of Inl _ \<Rightarrow> None | Inr n \<Rightarrow> Some (max 0 n)))"

definition key_active ::
  "(pyval \<Rightarrow> string) \<Rightarrow> (string \<Rightarrow> int option) \<Rightarrow> (pyval, pyval) pydict \<Rightarrow> int \<Rightarrow> pyval \<Rightarrow> bool" where
  "key_active rp parse scopes e key \<longleftrightarrow> key \<noteq> extra_scopes_key \<and>
     (case boundary_of rp parse scopes key of None \<Rightarrow> True | Some b \<Rightarrow> b < e)"

lemma resolve_items_step:
  "resolve_items rp parse scopes e ((key, value) # items) resolved active =
     (if key_active rp parse scopes e key then
        resolve_items rp parse scopes e items (pd_set resolved key value)
          (case boundary_of rp parse scopes key of None \<Rightarrow> active
           | Some b \<Rightarrow> pd_set active (PyStr (py_str rp key)) (PyInt b))
      else resolve_items rp parse scopes e items resolved active)"
  by (auto simp: key_active_def boundary_of_def split: option.split sum.split pyval.split)

declare resolve_items.simps(2) [simp del]

lemma resolve_items_append:
  "resolve_items rp parse scopes e items resolved active =
     (fold (\<lambda>(k, v) r. if key_active rp parse scopes e k then pd_set r k v else r) items resolved,
      fold (\<lambda>(k, v) a. if key_active rp parse scopes e k then
          (case boundary_of rp parse scopes k of None \<Rightarrow> a | Some b \<Rightarrow> pd_set a (PyStr (py_str rp k)) (PyInt b))
        else a) items active)"
  by (induction items arbitrary: resolved active) (auto simp: resolve_items_step)

lemma fold_set_get:
  "pd_ok items \<Longrightarrow>
   pd_get (fold (\<lambda>(k, v) r. if P k then pd_set r k v else r) items resolved) key =
     (if P key \<and> pd_get items key \<noteq> None then pd_get items key else pd_get resolved key)"
proof (induction items arbitrary: resolved)
  case (Cons x items)
  then show ?case by (cases x) (auto simp: pd_get_None_iff dest: pd_get_Some_in_keys)
qed simp

text \<open>
  A key of a scoped dictionary is in the discriminator of a token range exactly when it is active
  there, with its value.
\<close>

lemma resolved_get:
  assumes "pd_ok d" and "pd_get d extra_scopes_key = Some (PyDict scopes)" and "scopes \<noteq> []"
    and "key \<noteq> extra_scopes_key"
    and "py_dict_of (cache_extra_keys_for_token_range rp parse (PyDict d) s e) = Some r \<or>
      cache_extra_keys_for_token_range rp parse (PyDict d) s e = PyNone \<and> r = []"
  shows "pd_get r key = (if key_active rp parse scopes (max s e) key then pd_get d key else None)"
proof -
  let ?res = "fold (\<lambda>(k, v) r. if key_active rp parse scopes (max s e) k then pd_set r k v else r) d []"
  have "pd_get ?res key = (if key_active rp parse scopes (max s e) key then pd_get d key else None)"
    unfolding fold_set_get [OF assms(1)] by auto
  moreover have "pd_get r key = pd_get ?res key"
    using assms(2-5) by (auto simp: cache_extra_keys_for_token_range_def resolve_items_append Let_def split: if_splits)
  ultimately show ?thesis by simp
qed

section \<open>Properties\<close>

text \<open>
  Scoping a key at a token position makes it part of the discriminator of exactly the ranges
  that reach past the position: before, the resolved dictionary has no such key, whatever its value;
  from the position on it has the key with its value.  Keys without a boundary stay in every range.
\<close>

lemma scoped_key_activation:
  assumes "pd_ok d" and "key \<noteq> ''__vmlx_cache_extra_scopes_v1__''"
    and "pd_get d (PyStr key) = Some v" and "pd_get d extra_scopes_key = None"
  shows "(case cache_extra_keys_for_token_range rp parse (PyDict (scope_cache_extra_key rp (PyDict d) key start)) s e of
      PyDict r \<Rightarrow>
        pd_get r (PyStr key) = (if max 0 start < max s e then Some v else None) \<and>
        (\<forall>k. k \<noteq> PyStr key \<longrightarrow> k \<noteq> extra_scopes_key \<longrightarrow> py_str rp k \<noteq> key \<longrightarrow> pd_get r k = pd_get d k)
    | PyNone \<Rightarrow> max s e \<le> max 0 start \<and> (\<forall>k. py_str rp k \<noteq> key \<longrightarrow> pd_get d k = None)
    | _ \<Rightarrow> False)"
proof -
  let ?scopes = "[(PyStr key, PyInt (max 0 start))]"
  let ?d = "pd_set d extra_scopes_key (PyDict ?scopes)"
  let ?scoped = "PyDict (scope_cache_extra_key rp (PyDict d) key start)"
  have scoped: "?scoped = PyDict ?d"
    using assms(4) by (simp add: scope_cache_extra_key_def)
  have ne: "PyStr key \<noteq> extra_scopes_key" using assms(2) by (simp add: extra_scopes_key_def)
  let ?v = "cache_extra_keys_for_token_range rp parse ?scoped s e"
  have shape: "?v = PyNone \<or> (\<exists>r. ?v = PyDict r)"
    by (simp add: scoped cache_extra_keys_for_token_range_def Let_def split: prod.split)
  have get: "pd_get r k = (if key_active rp parse ?scopes (max s e) k then pd_get d k else None)"
    if "?v = PyDict r \<or> ?v = PyNone \<and> r = []" "k \<noteq> extra_scopes_key" for r k
  proof -
    have "pd_get ?d k = pd_get d k" using that(2) by simp
    then show ?thesis
      using resolved_get [of ?d ?scopes k rp parse s e r] assms(1) that by (auto simp: scoped)
  qed
  have act: "key_active rp parse ?scopes (max s e) (PyStr key) \<longleftrightarrow> max 0 start < max s e"
    using ne by (simp add: key_active_def boundary_of_def)
  have act_other: "key_active rp parse ?scopes (max s e) k" if "k \<noteq> extra_scopes_key" "py_str rp k \<noteq> key" for k
    using that by (simp add: key_active_def boundary_of_def)
  show ?thesis
  proof (cases "?v = PyNone")
    case True
    have "max s e \<le> max 0 start" using get [of "[]" "PyStr key"] True ne act assms(3) by (auto split: if_splits)
    moreover have "pd_get d k = None" if "py_str rp k \<noteq> key" for k
      using get [of "[]" k] act_other [of k] assms(4) that True by (cases "k = extra_scopes_key") auto
    ultimately show ?thesis using True by simp
  next
    case False
    with shape obtain r where r: "?v = PyDict r" by blast
    then show ?thesis using get [of r] ne act act_other assms(3) by simp
  qed
qed

end
