(* ===== verification/Paged_State.thy ===== *)
theory Paged_State
  imports Free_Queue Block_Hash_Map Block_Hash Cache_Key
begin

text \<open>
  \<open>vmlx_engine/paged_cache.py\<close>: the state of \<open>PagedCacheManager\<close> and its construction, and the pure
  functions over payloads.  The state extends the block heap of the free queue.  The dictionaries
  that map to blocks hold block ids; block tables are heap objects (\<open>tables\<close>), a reference is their
  index.  The L2 disk store is not under \<open>src\<close>'s paged cache: it is a record of functions on a state
  of its own.
\<close>

section \<open>Environment switches and Metal pressure\<close>

definition off_words :: "string list" where
  "off_words = [''0'', ''false'', ''no'', ''off'']"

definition metal_pressure_evict_enabled :: "string \<Rightarrow> bool" where
  "metal_pressure_evict_enabled env =
     (let raw = py_lower (py_strip env) in if raw = [] then True else raw \<notin> set off_words)"

definition default_pressure_margin_bytes :: int where
  "default_pressure_margin_bytes = 10 * 1024 ^ 3"

text \<open>\<open>float(raw)\<close> is a parameter: \<open>None\<close> when it raises \<open>ValueError\<close>.\<close>

definition metal_pressure_margin_bytes :: "(string \<Rightarrow> real option) \<Rightarrow> string \<Rightarrow> int" where
  "metal_pressure_margin_bytes parse_float env =
     (let raw = py_strip env
      in if raw \<noteq> [] then
           (let parsed = (case parse_float raw of None \<Rightarrow> -1 | Some x \<Rightarrow> x)
            in if parsed \<ge> 0 then trunc_real (parsed * 1024 ^ 3) else default_pressure_margin_bytes)
         else default_pressure_margin_bytes)"

text \<open>Floating-point arithmetic is read as real arithmetic.\<close>

definition compute_metal_pressure_overage_bytes :: "int \<Rightarrow> int \<Rightarrow> real \<Rightarrow> int \<Rightarrow> int" where
  "compute_metal_pressure_overage_bytes active_bytes max_ws_bytes threshold_pct margin_bytes =
     (if active_bytes \<le> 0 \<or> max_ws_bytes \<le> 0 then 0
      else
        (let limit = trunc_real (real_of_int max_ws_bytes * (threshold_pct / 100))
         in max 0 (active_bytes + max 0 margin_bytes - limit)))"

text \<open>
  \<open>_metal_pressure_overage_bytes\<close>: \<open>None\<close> for the telemetry when MLX or its counters are not there.
\<close>

definition metal_pressure_overage_bytes ::
  "string \<Rightarrow> (string \<Rightarrow> real option) \<Rightarrow> string \<Rightarrow> (int \<times> int \<times> real) option \<Rightarrow> int" where
  "metal_pressure_overage_bytes evict_env parse_float margin_env telemetry =
     (if \<not> metal_pressure_evict_enabled evict_env then 0
      else case telemetry of
        None \<Rightarrow> 0
      | Some (active_bytes, max_ws_bytes, threshold_pct) \<Rightarrow>
          compute_metal_pressure_overage_bytes active_bytes max_ws_bytes threshold_pct
            (metal_pressure_margin_bytes parse_float margin_env))"

section \<open>Payloads\<close>

text \<open>
  \<open>walk_payload_bytes\<close>: total bytes and number of tensors.  \<open>nbytes\<close> of an array is the length of its
  data.  Values are trees, so no container is met twice.
\<close>

fun walk_payload :: "bool \<Rightarrow> nat option \<Rightarrow> nat \<Rightarrow> pyval \<Rightarrow> int \<times> int" where
  "walk_payload count_raw max_depth depth v =
     (if (case max_depth of None \<Rightarrow> False | Some m \<Rightarrow> depth > m) then (0, 0)
      else case v of
        PyBytes b \<Rightarrow> (if count_raw then (int (length b), 0) else (0, 0))
      | PyArray dtype shape raw \<Rightarrow> (int (length raw), 1)
      | PyDict d \<Rightarrow>
          (let rs = map (\<lambda>(k, x). walk_payload count_raw max_depth (Suc depth) x) d
           in (sum_list (map fst rs), sum_list (map snd rs)))
      | PyList vs \<Rightarrow>
          (let rs = map (walk_payload count_raw max_depth (Suc depth)) vs
           in (sum_list (map fst rs), sum_list (map snd rs)))
      | PyTuple vs \<Rightarrow>
          (let rs = map (walk_payload count_raw max_depth (Suc depth)) vs
           in (sum_list (map fst rs), sum_list (map snd rs)))
      | _ \<Rightarrow> (0, 0))"

declare walk_payload.simps [simp del]

definition estimate_block_nbytes :: "pyval \<Rightarrow> int" where
  "estimate_block_nbytes payload = fst (walk_payload False None 0 payload)"

definition native_tags :: "string list" where
  "native_tags = [''deepseek_v4'', ''deepseek_v4_pending'', ''deepseek_v4_delta_v1'', ''zaya_cca'',
     ''rotating_kv'', ''rotating_kv_pending'']"

definition tagged_native :: "pyval list \<Rightarrow> bool" where
  "tagged_native vs \<longleftrightarrow> (case vs of PyStr t # _ \<Rightarrow> t \<in> set native_tags | _ \<Rightarrow> False)"

fun payload_requires_durable_l2 :: "pyval \<Rightarrow> bool" where
  "payload_requires_durable_l2 (PyTuple vs) \<longleftrightarrow> tagged_native vs \<or> (\<exists>v \<in> set vs. payload_requires_durable_l2 v)"
| "payload_requires_durable_l2 (PyList vs) \<longleftrightarrow> tagged_native vs \<or> (\<exists>v \<in> set vs. payload_requires_durable_l2 v)"
| "payload_requires_durable_l2 _ \<longleftrightarrow> False"

text \<open>
  \<open>_native_dsv4_interval_from_payload\<close>: the loop over the entries with the interval seen so far,
  whether a delta was seen and the ends of the rotating caches; \<open>None\<close> is the early return.
\<close>

definition delta_interval :: "(string \<Rightarrow> int option) \<Rightarrow> pyval list \<Rightarrow> (int \<times> int) option" where
  "delta_interval parse entry =
     (if length entry < 4 then None
      else case (py_dict_of (entry ! 1), py_str_of (entry ! 2), py_dict_of (entry ! 3)) of
        (Some meta, Some _, Some _) \<Rightarrow>
          if pd_get meta (PyStr ''schema'') \<noteq> Some (PyStr ''deepseek_v4_block_delta_v1'') then None
          else (case (pd_get meta (PyStr ''start_token''), pd_get meta (PyStr ''end_token'')) of
              (Some a, Some b) \<Rightarrow>
                (case (py_int parse a, py_int parse b) of
                   (Inr i, Inr j) \<Rightarrow> if j \<le> i then None else Some (i, j)
                 | _ \<Rightarrow> None)
            | _ \<Rightarrow> None)
      | _ \<Rightarrow> None)"

fun scan_entries ::
  "(string \<Rightarrow> int option) \<Rightarrow> pyval list \<Rightarrow> (int \<times> int) option \<Rightarrow> bool \<Rightarrow> int list \<Rightarrow>
   ((int \<times> int) option \<times> bool \<times> int list) option" where
  "scan_entries parse [] interval saw ends = Some (interval, saw, ends)"
| "scan_entries parse (e # es) interval saw ends =
     (case py_items e of
        None \<Rightarrow> None
      | Some [] \<Rightarrow> None
      | Some (tag # rest) \<Rightarrow>
          if tag = PyStr ''deepseek_v4_delta_v1'' then
            (case delta_interval parse (tag # rest) of
               None \<Rightarrow> None
             | Some current \<Rightarrow>
                 (case interval of
                    None \<Rightarrow> scan_entries parse es (Some current) True ends
                  | Some i \<Rightarrow> if current \<noteq> i then None else scan_entries parse es interval True ends))
          else if tag = PyStr ''rotating_kv'' then
            (if length (tag # rest) < 7 then None
             else case py_int parse ((tag # rest) ! 5) of
               Inl _ \<Rightarrow> None
             | Inr j \<Rightarrow> scan_entries parse es interval saw (ends @ [j]))
          else if tag = PyStr ''rotating_kv_pending'' then
            (if length (tag # rest) < 2 then None else scan_entries parse es interval saw ends)
          else None)"

definition native_dsv4_interval ::
  "(string \<Rightarrow> int option) \<Rightarrow> pyval \<Rightarrow> (int \<times> int) option" where
  "native_dsv4_interval parse payload =
     (case scan_entries parse (case py_items payload of None \<Rightarrow> [] | Some es \<Rightarrow> es) None False [] of
        None \<Rightarrow> None
      | Some (interval, saw, ends) \<Rightarrow>
          (case interval of
             None \<Rightarrow> None
           | Some i \<Rightarrow> if \<not> saw \<or> (\<exists>j \<in> set ends. j \<noteq> snd i) then None else Some i))"

section \<open>The manager\<close>

text \<open>
  What an operation reads from outside: the interpreter's \<open>repr\<close> and \<open>int\<close> of strings, SHA-256, the two
  clocks (an operation reads each once) and the Metal pressure overage.
\<close>

record runtime =
  rt_repr :: "pyval \<Rightarrow> string"
  rt_parse_int :: "string \<Rightarrow> int option"
  rt_sha256 :: "string \<Rightarrow> string"
  rt_wall :: real
  rt_mono :: real
  rt_overage :: int

text \<open>The disk store: \<open>None\<close> where the manager's \<open>getattr\<close> finds no callable.\<close>

record 'ds disk_ops =
  op_has_block :: "('ds \<Rightarrow> string option \<Rightarrow> bool may_raise \<times> 'ds) option"
  op_write_block_async :: "'ds \<Rightarrow> string option \<Rightarrow> pyval \<Rightarrow> int \<Rightarrow> string option \<Rightarrow> bool may_raise \<times> 'ds"
  op_read_block :: "'ds \<Rightarrow> string \<Rightarrow> pyval option \<times> 'ds"
  op_partial_token_counts :: "('ds \<Rightarrow> int \<Rightarrow> int list may_raise) option"

record block_table =
  request_id :: string
  table_block_ids :: "int list"
  num_tokens :: int
  matched_tokens :: "int option"
  checkpoint_tokens :: "int option"
  replayed_tokens :: int

definition new_block_table :: "string \<Rightarrow> block_table" where
  "new_block_table rid = \<lparr>request_id = rid, table_block_ids = [], num_tokens = 0,
     matched_tokens = None, checkpoint_tokens = None, replayed_tokens = 0\<rparr>"

definition table_add_block :: "block_table \<Rightarrow> int \<Rightarrow> int \<Rightarrow> block_table" where
  "table_add_block t b n = t\<lparr>table_block_ids := table_block_ids t @ [b], num_tokens := num_tokens t + n\<rparr>"

definition table_copy :: "block_table \<Rightarrow> string \<Rightarrow> block_table" where
  "table_copy t rid = \<lparr>request_id = rid, table_block_ids = table_block_ids t, num_tokens = num_tokens t,
     matched_tokens = matched_tokens t, checkpoint_tokens = checkpoint_tokens t,
     replayed_tokens = replayed_tokens t\<rparr>"

record cache_stats =
  total_blocks :: int
  st_allocated_blocks :: int
  st_free_blocks :: int
  shared_blocks :: int
  total_tokens_cached :: int
  cache_hits :: int
  cache_misses :: int
  cow_copies :: int
  evictions :: int
  disk_hits :: int
  disk_misses :: int

definition new_stats :: "int \<Rightarrow> cache_stats" where
  "new_stats n = \<lparr>total_blocks = n, st_allocated_blocks = 1, st_free_blocks = n - 1, shared_blocks = 0,
     total_tokens_cached = 0, cache_hits = 0, cache_misses = 0, cow_copies = 0, evictions = 0,
     disk_hits = 0, disk_misses = 0\<rparr>"

record 'ds manager = block_heap +
  block_size :: int
  max_blocks :: int
  enable_caching :: bool
  disk_store :: "'ds disk_ops option"
  disk_state :: 'ds
  disk_only :: bool
  paged_frugal :: bool
  ram_mirror_policy :: string
  max_resident_bytes :: int
  resident_bytes :: int
  transient_disk_promotions :: int
  transient_disk_peak_bytes :: int
  hash_cache :: hash_map
  hash_to_block :: "(string, int) pydict"
  tables :: "nat \<Rightarrow> block_table"
  next_table :: nat
  request_tables :: "(string, nat) pydict"
  allocated_blocks :: "(int, int) pydict"
  null_block :: int
  partial_block_sizes :: "int list"
  stats :: cache_stats

text \<open>\<open>self.blocks\<close> is the list of all blocks, in the order of their ids.\<close>

definition all_blocks :: "'ds manager \<Rightarrow> int list" where
  "all_blocks s = map int [0..<nat (max_blocks s)]"

definition upd_stats :: "'ds manager \<Rightarrow> (cache_stats \<Rightarrow> cache_stats) \<Rightarrow> 'ds manager" where
  "upd_stats s f = s\<lparr>stats := f (stats s)\<rparr>"

section \<open>Construction\<close>

definition frugal_env_requested :: "string \<Rightarrow> bool" where
  "frugal_env_requested env = (let v = py_lower (py_strip env) in v \<noteq> [] \<and> v \<notin> set off_words)"

definition mirror_policy :: "bool \<Rightarrow> bool \<Rightarrow> bool \<Rightarrow> string" where
  "mirror_policy only requested config =
     (if only then ''disk_only'' else if requested then ''frugal_env''
      else if config then ''frugal_config'' else ''resident'')"

text \<open>The blocks, the queue over them and the reserved null block, as \<open>__init__\<close> and \<open>clear\<close> build them.\<close>

definition reserve_null :: "'ds manager \<Rightarrow> 'ds manager may_raise" where
  "reserve_null s =
     (case popleft s of
        (Inl e, _) \<Rightarrow> Inl e
      | (Inr b, t) \<Rightarrow>
          (let t1 = upd_blk t b (\<lambda>x. x\<lparr>is_null := True, ref_count := 1\<rparr>)
           in Inr (t1\<lparr>null_block := b, allocated_blocks := pd_set (allocated_blocks t1) b b\<rparr>)))"

definition restored_partial_sizes :: "'ds disk_ops option \<Rightarrow> 'ds \<Rightarrow> int \<Rightarrow> int list" where
  "restored_partial_sizes store ds bsize =
     (case store of
        None \<Rightarrow> []
      | Some ops \<Rightarrow>
          (case op_partial_token_counts ops of
             None \<Rightarrow> []
           | Some f \<Rightarrow>
               (case f ds bsize of
                  Inl _ \<Rightarrow> []
                | Inr sizes \<Rightarrow> remdups (filter (\<lambda>n. 0 < n \<and> n < bsize) sizes))))"

definition init_manager ::
  "int \<Rightarrow> int \<Rightarrow> bool \<Rightarrow> 'ds disk_ops option \<Rightarrow> 'ds \<Rightarrow> int \<Rightarrow> bool \<Rightarrow> bool \<Rightarrow> string \<Rightarrow> 'ds manager may_raise" where
  "init_manager bsize n caching store ds budget only frugal env =
     (if bsize < 1 then Inl ValueError
      else if n < 2 then Inl ValueError
      else if only \<and> Option.is_none store then Inl ValueError
      else
        (let requested = frugal_env_requested env;
             s = \<lparr>blk = new_block, num_free_blocks = 0, block_size = bsize, max_blocks = n,
               enable_caching = caching, disk_store = store, disk_state = ds, disk_only = only,
               paged_frugal = (only \<or> requested \<or> frugal),
               ram_mirror_policy = mirror_policy only requested frugal,
               max_resident_bytes = max 0 budget, resident_bytes = 0, transient_disk_promotions = 0,
               transient_disk_peak_bytes = 0, hash_cache = [], hash_to_block = [],
               tables = (\<lambda>_. new_block_table []), next_table = 0, request_tables = [],
               allocated_blocks = [], null_block = 0, partial_block_sizes = [], stats = new_stats n\<rparr>
         in case reserve_null (queue_init (all_blocks s) s) of
              Inl e \<Rightarrow> Inl e
            | Inr t \<Rightarrow> Inr (t\<lparr>partial_block_sizes := restored_partial_sizes store ds bsize\<rparr>)))"

text \<open>\<open>blocks_in_use\<close> and \<open>clear\<close>.\<close>

definition blocks_in_use :: "'ds manager \<Rightarrow> nat" where
  "blocks_in_use s =
     length (filter (\<lambda>(_, b). \<not> is_null (blk s b) \<and> ref_count (blk s b) > 0) (allocated_blocks s))"

definition clear_pool :: "'ds manager \<Rightarrow> 'ds manager may_raise" where
  "clear_pool s =
     (let s1 = s\<lparr>blk := new_block\<rparr>;
          s2 = (queue_init (all_blocks s) s1)\<lparr>hash_cache := [], hash_to_block := [], request_tables := [],
            allocated_blocks := [], resident_bytes := 0\<rparr>
      in case reserve_null s2 of
           Inl e \<Rightarrow> Inl e
         | Inr t \<Rightarrow> Inr (t\<lparr>stats := new_stats (max_blocks s)\<rparr>))"

definition clear :: "bool \<Rightarrow> 'ds manager \<Rightarrow> bool may_raise \<times> 'ds manager" where
  "clear force s =
     (if \<not> force \<and> blocks_in_use s > 0 then (Inr False, s)
      else case clear_pool s of Inl e \<Rightarrow> (Inl e, s) | Inr t \<Rightarrow> (Inr True, t))"

end
