(* ===== verification/Paged_Inv.thy ===== *)
theory Paged_Inv
  imports Paged_State
begin

text \<open>
  The invariants of the paged cache manager.  \<open>pool_inv B s\<close>: the free queue holds exactly the
  unreferenced usable blocks but those of \<open>B\<close>, which an operation has taken from the queue and not
  yet handed out or given back; between operations \<open>B\<close> is empty.  \<open>index_inv\<close>: a block found under a
  hash has that hash.  \<open>bytes_inv\<close>: the resident bytes are the sum over the blocks.
\<close>

definition in_range :: "'ds manager \<Rightarrow> int \<Rightarrow> bool" where
  "in_range s i \<longleftrightarrow> 0 \<le> i \<and> i < max_blocks s"

definition usable :: "'ds manager \<Rightarrow> int \<Rightarrow> bool" where
  "usable s i \<longleftrightarrow> 1 \<le> i \<and> i < max_blocks s"

definition unreferenced :: "'ds manager \<Rightarrow> int set" where
  "unreferenced s = {i. usable s i \<and> ref_count (blk s i) = 0}"

definition pool_inv :: "int set \<Rightarrow> 'ds manager \<Rightarrow> bool" where
  "pool_inv B s \<longleftrightarrow>
     2 \<le> max_blocks s \<and> null_block s = 0 \<and> is_null (blk s 0) \<and> 1 \<le> ref_count (blk s 0) \<and>
     (\<forall>i. usable s i \<longrightarrow> \<not> is_null (blk s i) \<and> 0 \<le> ref_count (blk s i)) \<and>
     (\<forall>i. in_range s i \<longrightarrow> 0 < ref_count (blk s i) \<longrightarrow> pd_get (allocated_blocks s) i = Some i) \<and>
     (\<forall>k v. pd_get (allocated_blocks s) k = Some v \<longrightarrow> v = k \<and> in_range s k) \<and>
     pd_ok (allocated_blocks s) \<and>
     B \<subseteq> unreferenced s \<and>
     (\<exists>q. queue_rep s q \<and> set q = unreferenced s - B) \<and>
     st_free_blocks (stats s) = num_free_blocks s + int (card B) \<and>
     st_allocated_blocks (stats s) = max_blocks s - num_free_blocks s - int (card B)"

definition index_inv :: "'ds manager \<Rightarrow> bool" where
  "index_inv s \<longleftrightarrow> hm.sound (\<lambda>b h. in_range s b \<and> block_hash (blk s b) = Some h) (hash_cache s)"

definition bytes_inv :: "'ds manager \<Rightarrow> bool" where
  "bytes_inv s \<longleftrightarrow> (\<forall>i. 0 \<le> block_resident_bytes (blk s i)) \<and>
     resident_bytes s = (\<Sum>i = 0..<max_blocks s. block_resident_bytes (blk s i))"

definition manager_inv :: "int set \<Rightarrow> 'ds manager \<Rightarrow> bool" where
  "manager_inv B s \<longleftrightarrow> pool_inv B s \<and> index_inv s \<and> bytes_inv s"

section \<open>Steps the pool invariant cannot see\<close>

definition link_view :: "cache_block \<Rightarrow> int \<times> bool \<times> int option \<times> int option" where
  "link_view b = (ref_count b, is_null b, prev_free_block b, next_free_block b)"

definition config_view where
  "config_view s = (max_blocks s, block_size s, enable_caching s, disk_store s, disk_only s,
     paged_frugal s, ram_mirror_policy s, max_resident_bytes s, null_block s)"

definition same_pool :: "'ds manager \<Rightarrow> 'ds manager \<Rightarrow> bool" where
  "same_pool s t \<longleftrightarrow> (\<forall>i. link_view (blk t i) = link_view (blk s i)) \<and>
     num_free_blocks t = num_free_blocks s \<and> allocated_blocks t = allocated_blocks s \<and>
     config_view t = config_view s \<and>
     st_free_blocks (stats t) = st_free_blocks (stats s) \<and>
     st_allocated_blocks (stats t) = st_allocated_blocks (stats s)"

lemma same_pool_refl [simp]: "same_pool s s"
  by (simp add: same_pool_def)

lemma same_pool_trans [trans]: "same_pool s t \<Longrightarrow> same_pool t u \<Longrightarrow> same_pool s u"
  by (simp add: same_pool_def)

lemma same_poolD:
  assumes "same_pool s t"
  shows "ref_count (blk t i) = ref_count (blk s i)" "is_null (blk t i) = is_null (blk s i)"
    "prev_free_block (blk t i) = prev_free_block (blk s i)" "next_free_block (blk t i) = next_free_block (blk s i)"
    "num_free_blocks t = num_free_blocks s" "allocated_blocks t = allocated_blocks s" "max_blocks t = max_blocks s"
    "block_size t = block_size s" "enable_caching t = enable_caching s" "disk_store t = disk_store s"
    "disk_only t = disk_only s" "paged_frugal t = paged_frugal s" "max_resident_bytes t = max_resident_bytes s"
    "null_block t = null_block s" "st_free_blocks (stats t) = st_free_blocks (stats s)"
    "st_allocated_blocks (stats t) = st_allocated_blocks (stats s)" "in_range t = in_range s" "usable t = usable s"
    "unreferenced t = unreferenced s" "all_blocks t = all_blocks s"
  using assms by (auto simp: same_pool_def link_view_def config_view_def fun_eq_iff in_range_def usable_def
      unreferenced_def all_blocks_def)

lemma same_pool_queue_rep: "same_pool s t \<Longrightarrow> queue_rep t q \<longleftrightarrow> queue_rep s q"
  by (intro queue_rep_cong) (simp_all add: same_poolD)

lemma same_pool_inv: "same_pool s t \<Longrightarrow> pool_inv B t \<longleftrightarrow> pool_inv B s"
  unfolding pool_inv_def by (simp add: same_poolD same_pool_queue_rep)

text \<open>A quiet step keeps the pool as it is and preserves the other invariants.\<close>

definition quiet :: "'ds manager \<Rightarrow> 'ds manager \<Rightarrow> bool" where
  "quiet s t \<longleftrightarrow> same_pool s t \<and> (index_inv s \<longrightarrow> index_inv t) \<and> (bytes_inv s \<longrightarrow> bytes_inv t)"

lemma quiet_refl [simp]: "quiet s s"
  by (simp add: quiet_def)

lemma quiet_trans [trans]: "quiet s t \<Longrightarrow> quiet t u \<Longrightarrow> quiet s u"
  by (auto simp: quiet_def intro: same_pool_trans)

lemma quiet_same_pool: "quiet s t \<Longrightarrow> same_pool s t"
  by (simp add: quiet_def)

lemma quiet_inv: "quiet s t \<Longrightarrow> manager_inv B s \<Longrightarrow> manager_inv B t"
  using same_pool_inv [of s t B] by (simp add: quiet_def manager_inv_def)

lemma quiet_range: "quiet s t \<Longrightarrow> in_range t = in_range s"
  by (simp add: quiet_def same_poolD)

text \<open>Updates of one block that leave links, hash and byte attribution alone.\<close>

lemma quiet_upd_blk:
  assumes "\<And>b. link_view (f b) = link_view b" "\<And>b. block_hash (f b) = block_hash b"
    "\<And>b. block_resident_bytes (f b) = block_resident_bytes b"
  shows "quiet s (upd_blk s i f)"
proof -
  have fields: "link_view (blk (upd_blk s i f) j) = link_view (blk s j)"
    "block_hash (blk (upd_blk s i f) j) = block_hash (blk s j)"
    "block_resident_bytes (blk (upd_blk s i f) j) = block_resident_bytes (blk s j)" for j
    using assms by (cases "j = i"; simp)+
  have rest: "manager.more (upd_blk s i f) = manager.more s" "max_blocks (upd_blk s i f) = max_blocks s"
    "hash_cache (upd_blk s i f) = hash_cache s" "resident_bytes (upd_blk s i f) = resident_bytes s"
    by (simp_all add: upd_blk_def)
  have "same_pool s (upd_blk s i f)"
    using fields(1) by (simp add: same_pool_def upd_blk_def config_view_def)
  moreover have "index_inv (upd_blk s i f) \<longleftrightarrow> index_inv s"
    by (simp add: index_inv_def in_range_def fields(2) rest del: upd_blk_simps)
  moreover have "bytes_inv (upd_blk s i f) \<longleftrightarrow> bytes_inv s"
    by (simp add: bytes_inv_def fields(3) rest del: upd_blk_simps)
  ultimately show ?thesis by (simp add: quiet_def)
qed

lemma upd_blk_fields [simp]:
  "max_blocks (upd_blk s i f) = max_blocks s" "hash_cache (upd_blk s i f) = hash_cache s"
  "resident_bytes (upd_blk s i f) = resident_bytes s" "allocated_blocks (upd_blk s i f) = allocated_blocks s"
  "stats (upd_blk s i f) = stats s" "disk_store (upd_blk s i f) = disk_store s"
  "disk_state (upd_blk s i f) = disk_state s" "config_view (upd_blk s i f) = config_view s"
  "hash_to_block (upd_blk s i f) = hash_to_block s" "block_size (upd_blk s i f) = block_size s"
  "enable_caching (upd_blk s i f) = enable_caching s" "disk_only (upd_blk s i f) = disk_only s"
  "max_resident_bytes (upd_blk s i f) = max_resident_bytes s" "paged_frugal (upd_blk s i f) = paged_frugal s"
  "partial_block_sizes (upd_blk s i f) = partial_block_sizes s" "null_block (upd_blk s i f) = null_block s"
  "ram_mirror_policy (upd_blk s i f) = ram_mirror_policy s"
  by (simp_all add: upd_blk_def config_view_def)

lemma upd_stats_fields [simp]:
  "blk (upd_stats s f) = blk s" "num_free_blocks (upd_stats s f) = num_free_blocks s"
  "max_blocks (upd_stats s f) = max_blocks s" "hash_cache (upd_stats s f) = hash_cache s"
  "resident_bytes (upd_stats s f) = resident_bytes s" "allocated_blocks (upd_stats s f) = allocated_blocks s"
  "stats (upd_stats s f) = f (stats s)" "disk_store (upd_stats s f) = disk_store s"
  "config_view (upd_stats s f) = config_view s" "block_size (upd_stats s f) = block_size s"
  "enable_caching (upd_stats s f) = enable_caching s" "partial_block_sizes (upd_stats s f) = partial_block_sizes s"
  "null_block (upd_stats s f) = null_block s"
  by (simp_all add: upd_stats_def config_view_def)

text \<open>Updates that touch neither blocks nor index nor bytes nor the pool counters.\<close>

lemma quiet_rest:
  assumes "blk t = blk s" "num_free_blocks t = num_free_blocks s" "allocated_blocks t = allocated_blocks s"
    "config_view t = config_view s" "hash_cache t = hash_cache s" "resident_bytes t = resident_bytes s"
    "st_free_blocks (stats t) = st_free_blocks (stats s)" "st_allocated_blocks (stats t) = st_allocated_blocks (stats s)"
  shows "quiet s t"
proof -
  have "max_blocks t = max_blocks s" using assms(4) by (simp add: config_view_def)
  then show ?thesis
    using assms by (simp add: quiet_def same_pool_def index_inv_def bytes_inv_def in_range_def)
qed

lemma quiet_stats:
  assumes "\<And>x. st_free_blocks (f x) = st_free_blocks x" "\<And>x. st_allocated_blocks (f x) = st_allocated_blocks x"
  shows "quiet s (upd_stats s f)"
  by (rule quiet_rest) (simp_all add: assms)

end
