(* ===== verification/Paged_Evict.thy ===== *)
theory Paged_Evict
  imports Paged_Inv
begin

text \<open>
  \<open>vmlx_engine/paged_cache.py\<close>: releasing payloads, the durability fence, eviction of a cached block,
  block allocation and the RAM byte budget.  Every loop is bounded: the allocator scan by the number
  of free blocks, the leaf-first shedding by the number of blocks (\<open>force_drop\<close>, proved enough).
\<close>

section \<open>Releasing payloads\<close>

definition release_resident :: "int \<Rightarrow> 'ds manager \<Rightarrow> 'ds manager" where
  "release_resident b s =
     (if block_resident_bytes (blk s b) \<noteq> 0 then
        upd_blk (s\<lparr>resident_bytes := max 0 (resident_bytes s - block_resident_bytes (blk s b))\<rparr>) b
          (\<lambda>x. x\<lparr>block_resident_bytes := 0\<rparr>)
      else s)"

definition note_resident :: "int \<Rightarrow> int \<Rightarrow> 'ds manager \<Rightarrow> 'ds manager" where
  "note_resident b nbytes s =
     (if max_resident_bytes s \<le> 0 \<and> \<not> disk_only s then s
      else
        (let n = max 0 nbytes
         in upd_blk (s\<lparr>resident_bytes := resident_bytes s + (n - block_resident_bytes (blk s b))\<rparr>) b
              (\<lambda>x. x\<lparr>block_resident_bytes := n\<rparr>)))"

definition drop_payload :: "cache_block \<Rightarrow> cache_block" where
  "drop_payload x = x\<lparr>cache_data := None, cache_data_from_disk := False, cache_data_transient := False,
     keep_resident := False, durability_write_pending := False, durability_retry_after := 0,
     release_resident_when_unreferenced := False\<rparr>"

definition release_resident_payload :: "int \<Rightarrow> 'ds manager \<Rightarrow> 'ds manager" where
  "release_resident_payload b s = release_resident b (upd_blk s b drop_payload)"

definition clear_provenance :: "cache_block \<Rightarrow> cache_block" where
  "clear_provenance x = x\<lparr>cache_data_from_disk := False, cache_data_transient := False,
     keep_resident := False, durability_write_pending := False, durability_retry_after := 0\<rparr>"

definition release_resident_payload_when_unreferenced :: "int \<Rightarrow> 'ds manager \<Rightarrow> bool \<times> 'ds manager" where
  "release_resident_payload_when_unreferenced b s =
     (let s1 = upd_blk s b clear_provenance
      in if ref_count (blk s1 b) > 0 then
           (False, upd_blk s1 b (\<lambda>x. x\<lparr>release_resident_when_unreferenced := True\<rparr>))
         else (True, release_resident_payload b s1))"

definition make_resident_payload_evictable :: "int \<Rightarrow> 'ds manager \<Rightarrow> 'ds manager" where
  "make_resident_payload_evictable b s = upd_blk s b clear_provenance"

section \<open>The durability fence\<close>

definition clear_fence :: "cache_block \<Rightarrow> cache_block" where
  "clear_fence x = x\<lparr>keep_resident := False, durability_write_pending := False, durability_retry_after := 0\<rparr>"

text \<open>The confirmation by \<open>has_block\<close>: an exception counts as no.\<close>

definition l2_confirms :: "'ds disk_ops \<Rightarrow> string option \<Rightarrow> 'ds \<Rightarrow> bool \<times> 'ds" where
  "l2_confirms ops h ds =
     (case op_has_block ops of
        None \<Rightarrow> (False, ds)
      | Some f \<Rightarrow> (case f ds h of (Inl _, ds') \<Rightarrow> (False, ds') | (Inr r, ds') \<Rightarrow> (r, ds')))"

definition l2_admits :: "'ds disk_ops \<Rightarrow> cache_block \<Rightarrow> pyval \<Rightarrow> 'ds \<Rightarrow> bool \<times> 'ds" where
  "l2_admits ops x payload ds =
     (case op_write_block_async ops ds (block_hash x) payload (token_count x) (parent_hash x) of
        (Inl _, ds') \<Rightarrow> (False, ds')
      | (Inr r, ds') \<Rightarrow> (r, ds'))"

definition persist_before_eviction :: "runtime \<Rightarrow> int \<Rightarrow> 'ds manager \<Rightarrow> bool \<times> 'ds manager" where
  "persist_before_eviction rt b s =
     (case cache_data (blk s b) of
        None \<Rightarrow> (True, s)
      | Some payload \<Rightarrow>
          if suppress_l2_republish (blk s b) then (True, upd_blk s b clear_fence)
          else
            (let native = (keep_resident (blk s b) \<or> payload_requires_durable_l2 payload)
             in case disk_store s of
                  None \<Rightarrow> (\<not> keep_resident (blk s b), s)
                | Some ops \<Rightarrow>
                    (let (confirmed, ds1) = l2_confirms ops (block_hash (blk s b)) (disk_state s);
                         s1 = s\<lparr>disk_state := ds1\<rparr>
                     in if confirmed then (True, upd_blk s1 b clear_fence)
                        else if native \<and> durability_write_pending (blk s1 b) \<and>
                                rt_mono rt < durability_retry_after (blk s1 b) then
                          (False, upd_blk s1 b (\<lambda>x. x\<lparr>keep_resident := True\<rparr>))
                        else
                          (let (admitted, ds2) = l2_admits ops (blk s1 b) payload (disk_state s1);
                               s2 = s1\<lparr>disk_state := ds2\<rparr>
                           in if \<not> admitted then
                                (False, upd_blk s2 b (\<lambda>x. x\<lparr>keep_resident := (native \<or> keep_resident x),
                                   durability_write_pending := False, durability_retry_after := rt_mono rt\<rparr>))
                              else if native then
                                (False, upd_blk s2 b (\<lambda>x. x\<lparr>keep_resident := True,
                                   durability_write_pending := True, durability_retry_after := rt_mono rt + 5\<rparr>))
                              else (True, s2)))))"

section \<open>Eviction\<close>

definition drop_legacy :: "int \<Rightarrow> 'ds manager \<Rightarrow> 'ds manager" where
  "drop_legacy b s =
     (case hash_value (blk s b) of
        None \<Rightarrow> s
      | Some hv \<Rightarrow>
          if hv \<noteq> [] \<and> pd_get (hash_to_block s) hv = Some b then s\<lparr>hash_to_block := pd_del (hash_to_block s) hv\<rparr>
          else s)"

definition maybe_evict_cached_block :: "runtime \<Rightarrow> bool \<Rightarrow> int \<Rightarrow> 'ds manager \<Rightarrow> bool \<times> 'ds manager" where
  "maybe_evict_cached_block rt force b s =
     (case block_hash (blk s b) of
        None \<Rightarrow> (False, s)
      | Some h \<Rightarrow>
          (let (persisted, s1) = persist_before_eviction rt b s
           in if \<not> persisted \<and> \<not> force then (False, s1)
              else
                (let s2 = s1\<lparr>hash_cache := snd (hm_pop (hash_cache s1) h b)\<rparr>;
                     s3 = drop_legacy b s2;
                     s4 = upd_blk (upd_blk s3 b reset_hash) b (\<lambda>x. x\<lparr>cache_data := None\<rparr>);
                     s5 = upd_blk (release_resident b s4) b (\<lambda>x. x\<lparr>cache_data_from_disk := False\<rparr>)
                 in (True, upd_stats s5 (\<lambda>st. st\<lparr>evictions := evictions st + 1\<rparr>)))))"

text \<open>\<open>pending.items()\<close>: hashes with the block fenced under each.\<close>

fun discard_nondurable_cache_blocks :: "(string \<times> int option) list \<Rightarrow> 'ds manager \<Rightarrow> int list \<times> 'ds manager" where
  "discard_nondurable_cache_blocks [] s = ([], s)"
| "discard_nondurable_cache_blocks ((h, ob) # pending) s =
     (case ob of
        None \<Rightarrow> discard_nondurable_cache_blocks pending s
      | Some b \<Rightarrow>
          if block_hash (blk s b) \<noteq> Some h \<or> b < 0 then discard_nondurable_cache_blocks pending s
          else
            (let s1 = drop_legacy b (s\<lparr>hash_cache := snd (hm_pop (hash_cache s) h b)\<rparr>);
                 s2 = upd_blk (release_resident_payload b s1) b reset_hash;
                 (retired, t) = discard_nondurable_cache_blocks pending s2
             in (List.insert b retired, t)))"

section \<open>Allocation\<close>

fun pop_recyclable_loop :: "runtime \<Rightarrow> nat \<Rightarrow> 'ds manager \<Rightarrow> int option may_raise \<times> 'ds manager" where
  "pop_recyclable_loop rt 0 s = (Inr None, s)"
| "pop_recyclable_loop rt (Suc n) s =
     (case popleft s of
        (Inl e, t) \<Rightarrow> (Inl e, t)
      | (Inr b, t) \<Rightarrow>
          (let (reusable, u) =
                 (if block_hash (blk t b) = None then (True, t) else maybe_evict_cached_block rt False b t)
           in if reusable then
                (Inr (Some b), if cache_data (blk u b) \<noteq> None then release_resident_payload b u else u)
              else pop_recyclable_loop rt n (queue_append u b)))"

definition pop_recyclable_free_block :: "runtime \<Rightarrow> 'ds manager \<Rightarrow> int option may_raise \<times> 'ds manager" where
  "pop_recyclable_free_block rt s = pop_recyclable_loop rt (nat (num_free_blocks s)) s"

text \<open>Handing a block out: one reference, the access time and the entry in \<open>allocated_blocks\<close>.\<close>

definition hand_out :: "runtime \<Rightarrow> int \<Rightarrow> 'ds manager \<Rightarrow> 'ds manager" where
  "hand_out rt b s =
     (let s1 = upd_blk s b (\<lambda>x. touch_block (rt_wall rt) (x\<lparr>ref_count := 1\<rparr>))
      in s1\<lparr>allocated_blocks := pd_set (allocated_blocks s1) b b\<rparr>)"

definition allocate_block :: "runtime \<Rightarrow> 'ds manager \<Rightarrow> int option may_raise \<times> 'ds manager" where
  "allocate_block rt s =
     (if num_free_blocks s = 0 then (Inr None, s)
      else case pop_recyclable_free_block rt s of
        (Inl e, t) \<Rightarrow> (Inl e, t)
      | (Inr None, t) \<Rightarrow> (Inr None, t)
      | (Inr (Some b), t) \<Rightarrow>
          (Inr (Some b), upd_stats (hand_out rt b t)
             (\<lambda>st. st\<lparr>st_allocated_blocks := st_allocated_blocks st + 1, st_free_blocks := st_free_blocks st - 1\<rparr>)))"

text \<open>The loop of \<open>get_new_blocks\<close>; a failure gives the blocks taken so far back.\<close>

fun take_recyclable :: "runtime \<Rightarrow> nat \<Rightarrow> int list \<Rightarrow> 'ds manager \<Rightarrow> int list may_raise \<times> 'ds manager" where
  "take_recyclable rt 0 bs s = (Inr bs, s)"
| "take_recyclable rt (Suc n) bs s =
     (case pop_recyclable_free_block rt s of
        (Inl e, t) \<Rightarrow> (Inl e, t)
      | (Inr None, t) \<Rightarrow> (Inl ValueError, queue_append_n t bs)
      | (Inr (Some b), t) \<Rightarrow> take_recyclable rt n (bs @ [b]) t)"

definition get_new_blocks :: "runtime \<Rightarrow> int \<Rightarrow> 'ds manager \<Rightarrow> int list may_raise \<times> 'ds manager" where
  "get_new_blocks rt n s =
     (if n > num_free_blocks s then (Inl ValueError, s)
      else case take_recyclable rt (nat n) [] s of
        (Inl e, t) \<Rightarrow> (Inl e, t)
      | (Inr bs, t) \<Rightarrow>
          (Inr bs, upd_stats (fold (hand_out rt) bs t)
             (\<lambda>st. st\<lparr>st_allocated_blocks := st_allocated_blocks st + n, st_free_blocks := st_free_blocks st - n\<rparr>)))"

text \<open>Ceiling division: the number of blocks \<open>n\<close> tokens need.\<close>

definition allocate_blocks_for_tokens :: "runtime \<Rightarrow> int \<Rightarrow> 'ds manager \<Rightarrow> int list may_raise \<times> 'ds manager" where
  "allocate_blocks_for_tokens rt n s = get_new_blocks rt ((n + block_size s - 1) div block_size s) s"

section \<open>The byte budget\<close>

definition enforces_byte_budget :: "'ds manager \<Rightarrow> bool" where
  "enforces_byte_budget s \<longleftrightarrow> max_resident_bytes s > 0 \<or> disk_only s \<or> paged_frugal s"

definition evictable :: "'ds manager \<Rightarrow> int \<Rightarrow> bool" where
  "evictable s b \<longleftrightarrow> ref_count (blk s b) = 0 \<and> \<not> is_null (blk s b) \<and> cache_data (blk s b) \<noteq> None \<and>
     block_hash (blk s b) \<noteq> None"

fun evict_until :: "runtime \<Rightarrow> bool \<Rightarrow> int \<Rightarrow> int list \<Rightarrow> 'ds manager \<Rightarrow> nat \<times> 'ds manager" where
  "evict_until rt force target [] s = (0, s)"
| "evict_until rt force target (b # bs) s =
     (if resident_bytes s \<le> target then (0, s)
      else
        (let (did, s1) = maybe_evict_cached_block rt force b s;
             (n, t) = evict_until rt force target bs s1
         in (if did then Suc n else n, t)))"

definition drainable_soon :: "runtime \<Rightarrow> 'ds manager \<Rightarrow> int \<Rightarrow> bool" where
  "drainable_soon rt s b \<longleftrightarrow> \<not> Option.is_none (disk_store s) \<and>
     durability_write_pending (blk s b) \<and> rt_mono rt < durability_retry_after (blk s b)"

definition live_parents :: "'ds manager \<Rightarrow> string list" where
  "live_parents s = List.map_filter (\<lambda>b. if cache_data (blk s b) \<noteq> None then parent_hash (blk s b) else None) (all_blocks s)"

definition droppable_leaves :: "runtime \<Rightarrow> 'ds manager \<Rightarrow> int list" where
  "droppable_leaves rt s =
     filter (\<lambda>b. evictable s b \<and> the (block_hash (blk s b)) \<notin> set (live_parents s) \<and> \<not> drainable_soon rt s b)
       (all_blocks s)"

fun force_drop_loop :: "runtime \<Rightarrow> int \<Rightarrow> nat \<Rightarrow> 'ds manager \<Rightarrow> nat \<times> 'ds manager" where
  "force_drop_loop rt target 0 s = (0, s)"
| "force_drop_loop rt target (Suc fuel) s =
     (if resident_bytes s \<le> target then (0, s)
      else if droppable_leaves rt s = [] then (0, s)
      else
        (let (n, t) = evict_until rt True target (sort_key (\<lambda>b. last_access (blk s b)) (droppable_leaves rt s)) s
         in if n = 0 then (0, t)
            else (let (m, u) = force_drop_loop rt target fuel t in (n + m, u))))"

definition force_drop_undrainable :: "runtime \<Rightarrow> int \<Rightarrow> 'ds manager \<Rightarrow> nat \<times> 'ds manager" where
  "force_drop_undrainable rt target s = force_drop_loop rt target (Suc (length (all_blocks s))) s"

definition budget_target :: "runtime \<Rightarrow> int \<Rightarrow> 'ds manager \<Rightarrow> int" where
  "budget_target rt required s =
     (let target = (if disk_only s then resident_bytes s else max 0 (max_resident_bytes s - required))
      in if rt_overage rt > 0 then min target (max 0 (resident_bytes s - rt_overage rt - required))
         else target)"

definition enforce_byte_budget :: "runtime \<Rightarrow> int \<Rightarrow> 'ds manager \<Rightarrow> nat \<times> 'ds manager" where
  "enforce_byte_budget rt required_bytes s =
     (if \<not> enforces_byte_budget s then (0, s)
      else
        (let required = max 0 required_bytes;
             target = budget_target rt required s
         in if resident_bytes s \<le> target then (0, s)
            else
              (let candidates = sort_key (\<lambda>b. last_access (blk s b))
                     (filter (\<lambda>b. evictable s b \<and> \<not> keep_resident (blk s b)) (all_blocks s));
                   (n, s1) = evict_until rt False target candidates s
               in if resident_bytes s1 > target then
                    (let (m, s2) = force_drop_undrainable rt target s1 in (n + m, s2))
                  else (n, s1))))"

section \<open>Quiet steps\<close>

lemma sum_upd:
  fixes f :: "'a \<Rightarrow> int"
  assumes "finite A" "b \<in> A"
  shows "(\<Sum>i\<in>A. f ((g(b := x)) i)) = (\<Sum>i\<in>A. f (g i)) - f (g b) + f x"
proof -
  have "(\<Sum>i\<in>A. f ((g(b := x)) i)) = f x + (\<Sum>i\<in>A - {b}. f ((g(b := x)) i))"
    using sum.remove [OF assms, of "\<lambda>i. f ((g(b := x)) i)"] by simp
  also have "(\<Sum>i\<in>A - {b}. f ((g(b := x)) i)) = (\<Sum>i\<in>A - {b}. f (g i))" by (rule sum.cong) auto
  also have "(\<Sum>i\<in>A. f (g i)) = f (g b) + (\<Sum>i\<in>A - {b}. f (g i))"
    using sum.remove [OF assms, of "\<lambda>i. f (g i)"] by simp
  ultimately show ?thesis by simp
qed

lemma manager_resident_simps [simp]:
  "blk (s\<lparr>resident_bytes := n\<rparr>) = blk s" "blk (s\<lparr>disk_state := ds\<rparr>) = blk s"
  "config_view (s\<lparr>resident_bytes := n\<rparr>) = config_view s" "config_view (s\<lparr>disk_state := ds\<rparr>) = config_view s"
  "config_view (s\<lparr>hash_cache := m\<rparr>) = config_view s" "config_view (s\<lparr>hash_to_block := l\<rparr>) = config_view s"
  "config_view (s\<lparr>allocated_blocks := al\<rparr>) = config_view s"
  by (simp_all add: config_view_def)

lemma quiet_set_bytes:
  assumes "in_range s b" "0 \<le> n"
    and "bytes_inv s \<Longrightarrow> m = resident_bytes s + (n - block_resident_bytes (blk s b))"
  shows "quiet s (upd_blk (s\<lparr>resident_bytes := m\<rparr>) b (\<lambda>x. x\<lparr>block_resident_bytes := n\<rparr>))"
proof -
  let ?t = "upd_blk (s\<lparr>resident_bytes := m\<rparr>) b (\<lambda>x. x\<lparr>block_resident_bytes := n\<rparr>)"
  have "link_view (blk ?t i) = link_view (blk s i)" "block_hash (blk ?t i) = block_hash (blk s i)" for i
    by (simp_all add: link_view_def)
  then have "same_pool s ?t" "index_inv ?t \<longleftrightarrow> index_inv s"
    by (simp_all add: same_pool_def index_inv_def in_range_def del: upd_blk_simps(1))
  moreover have "bytes_inv ?t" if "bytes_inv s"
    using that assms sum_upd [of "{0..<max_blocks s}" b block_resident_bytes "blk s" "(blk s b)\<lparr>block_resident_bytes := n\<rparr>"]
    by (simp add: bytes_inv_def in_range_def)
  ultimately show ?thesis by (simp add: quiet_def)
qed

lemma bytes_le_resident:
  assumes "bytes_inv s" "in_range s b"
  shows "block_resident_bytes (blk s b) \<le> resident_bytes s"
proof -
  have "block_resident_bytes (blk s b) \<le> (\<Sum>i = 0..<max_blocks s. block_resident_bytes (blk s i))"
    using assms by (intro member_le_sum) (auto simp: bytes_inv_def in_range_def)
  then show ?thesis using assms(1) by (simp add: bytes_inv_def)
qed

lemma release_resident_quiet: "in_range s b \<Longrightarrow> quiet s (release_resident b s)"
  unfolding release_resident_def using bytes_le_resident [of s b]
  by (auto intro!: quiet_set_bytes)

lemma note_resident_quiet: "in_range s b \<Longrightarrow> quiet s (note_resident b n s)"
  unfolding note_resident_def Let_def by (auto intro!: quiet_set_bytes)

lemma release_resident_fields [simp]:
  "max_blocks (release_resident b s) = max_blocks s" "hash_cache (release_resident b s) = hash_cache s"
  "disk_store (release_resident b s) = disk_store s" "allocated_blocks (release_resident b s) = allocated_blocks s"
  "stats (release_resident b s) = stats s" "hash_to_block (release_resident b s) = hash_to_block s"
  "num_free_blocks (release_resident b s) = num_free_blocks s"
  "block_size (release_resident b s) = block_size s" "partial_block_sizes (release_resident b s) = partial_block_sizes s"
  "block_hash (blk (release_resident b s) i) = block_hash (blk s i)"
  "parent_hash (blk (release_resident b s) i) = parent_hash (blk s i)"
  "cache_data (blk (release_resident b s) i) = cache_data (blk s i)"
  "ref_count (blk (release_resident b s) i) = ref_count (blk s i)"
  "is_null (blk (release_resident b s) i) = is_null (blk s i)"
  "hash_value (blk (release_resident b s) i) = hash_value (blk s i)"
  "token_count (blk (release_resident b s) i) = token_count (blk s i)"
  "block_resident_bytes (blk (release_resident b s) i) = (if i = b then 0 else block_resident_bytes (blk s i))"
  by (simp_all add: release_resident_def)

lemma drop_payload_fields [simp]:
  "link_view (drop_payload x) = link_view x" "block_hash (drop_payload x) = block_hash x"
  "block_resident_bytes (drop_payload x) = block_resident_bytes x" "cache_data (drop_payload x) = None"
  "parent_hash (drop_payload x) = parent_hash x" "ref_count (drop_payload x) = ref_count x"
  "is_null (drop_payload x) = is_null x" "hash_value (drop_payload x) = hash_value x"
  "token_count (drop_payload x) = token_count x"
  by (simp_all add: drop_payload_def link_view_def)

lemma release_resident_payload_quiet: "in_range s b \<Longrightarrow> quiet s (release_resident_payload b s)"
proof -
  assume "in_range s b"
  have "quiet s (upd_blk s b drop_payload)" by (rule quiet_upd_blk) simp_all
  also have "quiet \<dots> (release_resident_payload b s)"
    unfolding release_resident_payload_def
    by (rule release_resident_quiet) (use \<open>in_range s b\<close> in \<open>simp add: in_range_def\<close>)
  finally show ?thesis .
qed

lemma clear_provenance_quiet [simp]: "quiet s (upd_blk s b clear_provenance)"
  by (rule quiet_upd_blk) (simp_all add: clear_provenance_def link_view_def)

lemma make_evictable_quiet: "quiet s (make_resident_payload_evictable b s)"
  by (simp add: make_resident_payload_evictable_def)

lemma release_when_unreferenced_quiet:
  assumes "in_range s b"
  shows "quiet s (snd (release_resident_payload_when_unreferenced b s))"
proof -
  let ?s1 = "upd_blk s b clear_provenance"
  have "quiet s ?s1" by simp
  moreover have "quiet ?s1 (upd_blk ?s1 b (\<lambda>x. x\<lparr>release_resident_when_unreferenced := True\<rparr>))"
    by (rule quiet_upd_blk) (simp_all add: link_view_def)
  moreover have "quiet ?s1 (release_resident_payload b ?s1)"
    by (rule release_resident_payload_quiet) (use assms in \<open>simp add: in_range_def\<close>)
  ultimately show ?thesis
    unfolding release_resident_payload_when_unreferenced_def Let_def
    by (auto simp del: clear_provenance_quiet intro: quiet_trans)
qed

text \<open>What the fence can change: the disk store's state and the block's fence fields.\<close>

lemma persist_form:
  "\<exists>ds k w r. snd (persist_before_eviction rt b s) = upd_blk (s\<lparr>disk_state := ds\<rparr>) b
     (\<lambda>x. x\<lparr>keep_resident := k, durability_write_pending := w, durability_retry_after := r\<rparr>)"
  (is "\<exists>ds k w r. ?t = ?u ds k w r")
proof -
  let ?x = "blk s b"
  have same: "s\<lparr>disk_state := ds\<rparr> = ?u ds (keep_resident ?x) (durability_write_pending ?x) (durability_retry_after ?x)" for ds
    by (simp add: upd_blk_def)
  have s: "s = ?u (disk_state s) (keep_resident ?x) (durability_write_pending ?x) (durability_retry_after ?x)"
    by (simp add: upd_blk_def)
  show ?thesis
  proof (cases "cache_data ?x")
    case None
    then have t: "?t = s" by (simp add: persist_before_eviction_def)
    show ?thesis unfolding t by (intro exI) (rule s)
  next
    case (Some p)
    show ?thesis
    proof (cases "suppress_l2_republish ?x \<or> disk_store s = None")
      case True
      have "upd_blk s b clear_fence = ?u (disk_state s) False False 0" by (simp add: upd_blk_def clear_fence_def)
      moreover have "?t = upd_blk s b clear_fence \<or> ?t = s"
        using True Some by (auto simp: persist_before_eviction_def)
      ultimately have "?t = ?u (disk_state s) False False 0 \<or>
          ?t = ?u (disk_state s) (keep_resident ?x) (durability_write_pending ?x) (durability_retry_after ?x)"
        using s by metis
      then show ?thesis by (elim disjE) (intro exI, assumption)+
    next
      case False
      then obtain ops where ops: "disk_store s = Some ops" "\<not> suppress_l2_republish ?x" by auto
      obtain c ds1 where c: "l2_confirms ops (block_hash ?x) (disk_state s) = (c, ds1)" by fastforce
      obtain a ds2 where a: "l2_admits ops ?x p ds1 = (a, ds2)" by fastforce
      let ?n = "keep_resident ?x \<or> payload_requires_durable_l2 p"
      have cases: "?t \<in> {?u ds1 False False 0, ?u ds1 True (durability_write_pending ?x) (durability_retry_after ?x),
          ?u ds2 (?n \<or> keep_resident ?x) False (rt_mono rt), ?u ds2 True True (rt_mono rt + 5), s\<lparr>disk_state := ds2\<rparr>}"
        using Some ops c a by (simp add: persist_before_eviction_def Let_def upd_blk_def clear_fence_def)
      moreover have ?thesis if "?t = s\<lparr>disk_state := ds2\<rparr>"
        by (intro exI) (rule trans [OF that same])
      ultimately show ?thesis
        unfolding insert_iff empty_iff simp_thms by (elim disjE) ((intro exI, assumption) | (erule(1) meta_mp))+
    qed
  qed
qed

lemma persist_quiet: "quiet s (snd (persist_before_eviction rt b s))"
proof -
  obtain ds k w r where t: "snd (persist_before_eviction rt b s) = upd_blk (s\<lparr>disk_state := ds\<rparr>) b
     (\<lambda>x. x\<lparr>keep_resident := k, durability_write_pending := w, durability_retry_after := r\<rparr>)"
    using persist_form [of rt b s] by (elim exE) (rule that)
  have "quiet s (s\<lparr>disk_state := ds\<rparr>)" by (rule quiet_rest) simp_all
  also have "quiet \<dots> (snd (persist_before_eviction rt b s))"
    unfolding t by (rule quiet_upd_blk) (simp_all add: link_view_def)
  finally show ?thesis .
qed

lemma reset_hash_fields [simp]:
  "link_view (reset_hash x) = link_view x" "block_hash (reset_hash x) = None" "hash_value (reset_hash x) = None"
  "parent_hash (reset_hash x) = None" "cache_data (reset_hash x) = cache_data x"
  "block_resident_bytes (reset_hash x) = block_resident_bytes x" "ref_count (reset_hash x) = ref_count x"
  "is_null (reset_hash x) = is_null x" "token_count (reset_hash x) = token_count x"
  by (simp_all add: reset_hash_def link_view_def)

lemma drop_legacy_fields [simp]:
  "blk (drop_legacy b s) = blk s" "max_blocks (drop_legacy b s) = max_blocks s"
  "hash_cache (drop_legacy b s) = hash_cache s" "resident_bytes (drop_legacy b s) = resident_bytes s"
  "num_free_blocks (drop_legacy b s) = num_free_blocks s" "allocated_blocks (drop_legacy b s) = allocated_blocks s"
  "stats (drop_legacy b s) = stats s" "config_view (drop_legacy b s) = config_view s"
  "disk_store (drop_legacy b s) = disk_store s"
  by (simp_all add: drop_legacy_def split: option.split)

text \<open>Taking a block's hash away together with its index entry.\<close>

lemma index_unhash:
  assumes "block_hash (blk s b) = Some h" and "hash_cache t = snd (hm_pop (hash_cache s) h b)"
    and "max_blocks t = max_blocks s"
    and "\<And>i. block_hash (blk t i) = (if i = b then None else block_hash (blk s i))"
    and "index_inv s"
  shows "index_inv t"
  unfolding index_inv_def assms(2)
proof (rule hm.sound_del [OF assms(5) [unfolded index_inv_def]])
  fix c h' assume "in_range s c \<and> block_hash (blk s c) = Some h'" "(c, h') \<noteq> (b, h)"
  then show "in_range t c \<and> block_hash (blk t c) = Some h'"
    using assms(1,3,4) by (auto simp: in_range_def)
qed

lemma quiet_unhash:
  assumes "block_hash (blk s b) = Some h" and "in_range s b"
  shows "quiet s (upd_blk (drop_legacy b (s\<lparr>hash_cache := snd (hm_pop (hash_cache s) h b)\<rparr>)) b reset_hash)"
    (is "quiet s ?t")
proof -
  have fields: "link_view (blk ?t i) = link_view (blk s i)" "block_hash (blk ?t i) = (if i = b then None else block_hash (blk s i))"
    "block_resident_bytes (blk ?t i) = block_resident_bytes (blk s i)" for i by simp_all
  have "same_pool s ?t" using fields(1) by (simp add: same_pool_def del: upd_blk_simps(1))
  moreover have "index_inv ?t" if "index_inv s" by (rule index_unhash [OF assms(1) _ _ _ that]) simp_all
  moreover have "bytes_inv ?t \<longleftrightarrow> bytes_inv s" by (simp add: bytes_inv_def fields(3) del: upd_blk_simps(1))
  ultimately show ?thesis by (simp add: quiet_def)
qed

lemma persist_fields:
  "i \<noteq> b \<Longrightarrow> blk (snd (persist_before_eviction rt b s)) i = blk s i"
  "block_hash (blk (snd (persist_before_eviction rt b s)) i) = block_hash (blk s i)"
  "cache_data (blk (snd (persist_before_eviction rt b s)) i) = cache_data (blk s i)"
  "ref_count (blk (snd (persist_before_eviction rt b s)) i) = ref_count (blk s i)"
  "hash_cache (snd (persist_before_eviction rt b s)) = hash_cache s"
  "hash_to_block (snd (persist_before_eviction rt b s)) = hash_to_block s"
  "resident_bytes (snd (persist_before_eviction rt b s)) = resident_bytes s"
proof -
  obtain ds k w r where t: "snd (persist_before_eviction rt b s) = upd_blk (s\<lparr>disk_state := ds\<rparr>) b
     (\<lambda>x. x\<lparr>keep_resident := k, durability_write_pending := w, durability_retry_after := r\<rparr>)"
    using persist_form [of rt b s] by (elim exE) (rule that)
  show "i \<noteq> b \<Longrightarrow> blk (snd (persist_before_eviction rt b s)) i = blk s i"
    "block_hash (blk (snd (persist_before_eviction rt b s)) i) = block_hash (blk s i)"
    "cache_data (blk (snd (persist_before_eviction rt b s)) i) = cache_data (blk s i)"
    "ref_count (blk (snd (persist_before_eviction rt b s)) i) = ref_count (blk s i)"
    "hash_cache (snd (persist_before_eviction rt b s)) = hash_cache s"
    "hash_to_block (snd (persist_before_eviction rt b s)) = hash_to_block s"
    "resident_bytes (snd (persist_before_eviction rt b s)) = resident_bytes s"
    unfolding t by simp_all
qed

text \<open>The state after a successful eviction, written over the state after the fence.\<close>

definition evicted_state :: "int \<Rightarrow> string \<Rightarrow> 'ds manager \<Rightarrow> 'ds manager" where
  "evicted_state b h s1 =
     (let s3 = upd_blk (drop_legacy b (s1\<lparr>hash_cache := snd (hm_pop (hash_cache s1) h b)\<rparr>)) b reset_hash
      in upd_stats (upd_blk (release_resident b (upd_blk s3 b (\<lambda>x. x\<lparr>cache_data := None\<rparr>))) b
            (\<lambda>x. x\<lparr>cache_data_from_disk := False\<rparr>)) (\<lambda>st. st\<lparr>evictions := evictions st + 1\<rparr>))"

lemma maybe_evict_cases:
  "maybe_evict_cached_block rt force b s =
     (case block_hash (blk s b) of
        None \<Rightarrow> (False, s)
      | Some h \<Rightarrow>
          if fst (persist_before_eviction rt b s) \<or> force then
            (True, evicted_state b h (snd (persist_before_eviction rt b s)))
          else (False, snd (persist_before_eviction rt b s)))"
  by (auto simp: maybe_evict_cached_block_def evicted_state_def Let_def split: option.split prod.split)

lemma evicted_state_quiet:
  assumes "block_hash (blk s b) = Some h" "in_range s b"
  shows "quiet s (evicted_state b h s)"
proof -
  let ?s3 = "upd_blk (drop_legacy b (s\<lparr>hash_cache := snd (hm_pop (hash_cache s) h b)\<rparr>)) b reset_hash"
  let ?s4 = "upd_blk ?s3 b (\<lambda>x. x\<lparr>cache_data := None\<rparr>)"
  have "quiet s ?s3" by (rule quiet_unhash [OF assms])
  also have "quiet ?s3 ?s4" by (rule quiet_upd_blk) (simp_all add: link_view_def)
  also have "quiet ?s4 (release_resident b ?s4)"
    by (rule release_resident_quiet) (use assms(2) in \<open>simp add: in_range_def\<close>)
  also have "quiet (release_resident b ?s4) (upd_blk (release_resident b ?s4) b (\<lambda>x. x\<lparr>cache_data_from_disk := False\<rparr>))"
    by (rule quiet_upd_blk) (simp_all add: link_view_def)
  also have "quiet \<dots> (evicted_state b h s)"
    unfolding evicted_state_def Let_def by (rule quiet_stats) simp_all
  finally show ?thesis .
qed

lemma maybe_evict_quiet: "in_range s b \<Longrightarrow> quiet s (snd (maybe_evict_cached_block rt force b s))"
proof -
  assume r: "in_range s b"
  let ?s1 = "snd (persist_before_eviction rt b s)"
  have q: "quiet s ?s1" by (rule persist_quiet)
  moreover have "quiet ?s1 (evicted_state b h ?s1)" if "block_hash (blk s b) = Some h" for h
    by (rule evicted_state_quiet) (use that r q in \<open>simp_all add: persist_fields quiet_range\<close>)
  ultimately show ?thesis
    unfolding maybe_evict_cases by (auto split: option.split intro: quiet_trans)
qed

lemma evicted_state_fields:
  "i \<noteq> b \<Longrightarrow> blk (evicted_state b h s) i = blk s i"
  "block_hash (blk (evicted_state b h s) b) = None" "cache_data (blk (evicted_state b h s) b) = None"
  "ref_count (blk (evicted_state b h s) b) = ref_count (blk s b)"
  "block_resident_bytes (blk (evicted_state b h s) b) = 0"
  "hash_value (blk (evicted_state b h s) b) = None" "parent_hash (blk (evicted_state b h s) b) = None"
  by (simp_all add: evicted_state_def Let_def release_resident_def)

lemma maybe_evict_result:
  "i \<noteq> b \<Longrightarrow> blk (snd (maybe_evict_cached_block rt force b s)) i = blk s i"
  "fst (maybe_evict_cached_block rt force b s) \<Longrightarrow>
     block_hash (blk (snd (maybe_evict_cached_block rt force b s)) b) = None \<and>
     cache_data (blk (snd (maybe_evict_cached_block rt force b s)) b) = None"
  "\<not> fst (maybe_evict_cached_block rt force b s) \<Longrightarrow>
     block_hash (blk (snd (maybe_evict_cached_block rt force b s)) b) = block_hash (blk s b) \<and>
     cache_data (blk (snd (maybe_evict_cached_block rt force b s)) b) = cache_data (blk s b)"
  "fst (maybe_evict_cached_block rt True b s) \<longleftrightarrow> block_hash (blk s b) \<noteq> None"
  by (auto simp: maybe_evict_cases persist_fields evicted_state_fields split: option.splits if_splits)

lemma reset_drop_commute:
  "reset_hash (drop_payload x) = drop_payload (reset_hash x)"
  "reset_hash (drop_payload x\<lparr>block_resident_bytes := n\<rparr>) = drop_payload (reset_hash x)\<lparr>block_resident_bytes := n\<rparr>"
  by (cases x, simp add: reset_hash_def drop_payload_def)+

lemma discard_quiet:
  "\<forall>h b. (h, Some b) \<in> set pending \<longrightarrow> b < max_blocks s \<Longrightarrow>
   quiet s (snd (discard_nondurable_cache_blocks pending s))"
proof (induction pending s rule: discard_nondurable_cache_blocks.induct)
  case (2 h ob pending s)
  show ?case
  proof (cases ob)
    case None
    with 2 show ?thesis by simp
  next
    case (Some b)
    show ?thesis
    proof (cases "block_hash (blk s b) \<noteq> Some h \<or> b < 0")
      case True
      with Some 2 show ?thesis by simp
    next
      case False
      with Some "2.prems" have r: "in_range s b" and h: "block_hash (blk s b) = Some h" by (auto simp: in_range_def)
      let ?s1 = "drop_legacy b (s\<lparr>hash_cache := snd (hm_pop (hash_cache s) h b)\<rparr>)"
      let ?s2 = "upd_blk (release_resident_payload b ?s1) b reset_hash"
      let ?u = "upd_blk ?s1 b reset_hash"
      have "quiet s ?u" by (rule quiet_unhash [OF h r])
      moreover have "quiet ?u (release_resident_payload b ?u)"
        by (rule release_resident_payload_quiet) (use r in \<open>simp add: in_range_def\<close>)
      moreover have "?s2 = release_resident_payload b ?u"
        using reset_drop_commute by (simp add: release_resident_payload_def release_resident_def upd_blk_def)
      ultimately have q: "quiet s ?s2" using quiet_trans [of s ?u "release_resident_payload b ?u"] by (simp only:)
      have "max_blocks ?s2 = max_blocks s" by (simp add: release_resident_payload_def)
      then have "quiet ?s2 (snd (discard_nondurable_cache_blocks pending ?s2))"
        using "2.IH"(3) [OF Some False refl refl] "2.prems" by simp
      with q have "quiet s (snd (discard_nondurable_cache_blocks pending ?s2))" by (rule quiet_trans)
      then show ?thesis using Some False by (simp add: Let_def case_prod_unfold)
    qed
  qed
qed simp

end
