(* ===== verification/Paged_Alloc.thy ===== *)
theory Paged_Alloc
  imports Paged_Evict
begin

text \<open>
  \<open>vmlx_engine/paged_cache.py\<close>: block allocation keeps the manager's invariants, hands out only
  unreferenced blocks without payload or hash, disturbs no referenced block and raises nothing but
  the documented errors.
\<close>

section \<open>Queue operations on the pool\<close>

lemma more_fields:
  assumes "block_heap.more t = block_heap.more s"
  shows "max_blocks t = max_blocks s" "hash_cache t = hash_cache s" "resident_bytes t = resident_bytes s"
    "allocated_blocks t = allocated_blocks s" "stats t = stats s" "config_view t = config_view s"
    "null_block t = null_block s" "disk_store t = disk_store s" "disk_state t = disk_state s"
    "hash_to_block t = hash_to_block s" "partial_block_sizes t = partial_block_sizes s"
    "max_resident_bytes t = max_resident_bytes s" "disk_only t = disk_only s" "paged_frugal t = paged_frugal s"
  using assms by (cases s; cases t; simp add: config_view_def)+

lemma same_payloads_fields:
  assumes "same_payloads s t"
  shows "max_blocks t = max_blocks s" "hash_cache t = hash_cache s" "resident_bytes t = resident_bytes s"
    "allocated_blocks t = allocated_blocks s" "stats t = stats s" "config_view t = config_view s"
    "null_block t = null_block s" "in_range t = in_range s" "usable t = usable s" "unreferenced t = unreferenced s"
    "index_inv t = index_inv s" "bytes_inv t = bytes_inv s"
proof -
  note m = more_fields [OF same_payloadsD(14) [OF assms]]
  show "max_blocks t = max_blocks s" "hash_cache t = hash_cache s" "resident_bytes t = resident_bytes s"
    "allocated_blocks t = allocated_blocks s" "stats t = stats s" "config_view t = config_view s"
    "null_block t = null_block s" by (fact m)+
  show r: "in_range t = in_range s" and "usable t = usable s"
    by (auto simp: in_range_def usable_def fun_eq_iff m)
  then show "unreferenced t = unreferenced s" by (simp add: unreferenced_def same_payloadsD [OF assms])
  show "index_inv t = index_inv s" by (simp add: index_inv_def r m same_payloadsD [OF assms])
  show "bytes_inv t = bytes_inv s" by (simp add: bytes_inv_def m same_payloadsD [OF assms])
qed

text \<open>Referenced blocks, and those of \<open>B\<close>, keep everything but their links.\<close>

definition undisturbed :: "int set \<Rightarrow> 'ds manager \<Rightarrow> 'ds manager \<Rightarrow> bool" where
  "undisturbed B s t \<longleftrightarrow> config_view t = config_view s \<and> (\<forall>i. ref_count (blk t i) = ref_count (blk s i)) \<and>
     (\<forall>i. 0 < ref_count (blk s i) \<or> i \<in> B \<longrightarrow> payload_of (blk t i) = payload_of (blk s i))"

lemma undisturbed_refl [simp]: "undisturbed B s s"
  by (simp add: undisturbed_def)

lemma undisturbed_trans [trans]: "undisturbed B s t \<Longrightarrow> undisturbed B t u \<Longrightarrow> undisturbed B s u"
  by (auto simp: undisturbed_def)

lemma undisturbed_mono: "undisturbed B s t \<Longrightarrow> C \<subseteq> B \<Longrightarrow> undisturbed C s t"
  by (auto simp: undisturbed_def)

lemma undisturbed_queue: "same_payloads s t \<Longrightarrow> undisturbed B s t"
  by (simp add: undisturbed_def same_payloads_fields same_payloadsD) (simp add: same_payloads_def)

lemma undisturbed_quiet:
  assumes "quiet s t" and "\<And>i. i \<noteq> b \<Longrightarrow> blk t i = blk s i" and "ref_count (blk s b) \<le> 0" "b \<notin> B"
  shows "undisturbed B s t"
  unfolding undisturbed_def
proof (intro conjI allI impI)
  show "config_view t = config_view s" using assms(1) by (simp add: quiet_def same_pool_def)
  show "ref_count (blk t i) = ref_count (blk s i)" for i
    by (rule same_poolD [OF quiet_same_pool [OF assms(1)]])
  show "payload_of (blk t i) = payload_of (blk s i)" if "0 < ref_count (blk s i) \<or> i \<in> B" for i
    using assms(2) [of i] assms(3,4) that by (cases "i = b") auto
qed

lemma pool_invD:
  assumes "pool_inv B s"
  shows "2 \<le> max_blocks s" "null_block s = 0" "is_null (blk s 0)" "1 \<le> ref_count (blk s 0)"
    "usable s i \<Longrightarrow> \<not> is_null (blk s i)" "usable s i \<Longrightarrow> 0 \<le> ref_count (blk s i)"
    "in_range s i \<Longrightarrow> 0 < ref_count (blk s i) \<Longrightarrow> pd_get (allocated_blocks s) i = Some i"
    "pd_get (allocated_blocks s) k = Some v \<Longrightarrow> v = k \<and> in_range s k"
    "pd_ok (allocated_blocks s)" "B \<subseteq> unreferenced s"
    "st_free_blocks (stats s) = num_free_blocks s + int (card B)"
    "st_allocated_blocks (stats s) = max_blocks s - num_free_blocks s - int (card B)"
  using assms unfolding pool_inv_def by blast+

lemma pool_inv_queue: "pool_inv B s \<Longrightarrow> \<exists>q. queue_rep s q \<and> set q = unreferenced s - B"
  unfolding pool_inv_def by blast

lemma finite_unreferenced [simp]: "finite (unreferenced s)"
  by (rule finite_subset [of _ "{0..<max_blocks s}"]) (auto simp: unreferenced_def usable_def)

lemma pool_inv_finite: "pool_inv B s \<Longrightarrow> finite B"
  by (meson pool_invD(10) finite_subset finite_unreferenced)

text \<open>Changing the queue and the set in transit together.\<close>

lemma pool_inv_requeue:
  assumes "pool_inv B s" "same_payloads s t" "queue_rep t q" "set q = unreferenced s - B'"
    and "B' \<subseteq> unreferenced s" "num_free_blocks t + int (card B') = num_free_blocks s + int (card B)"
  shows "pool_inv B' t"
proof -
  note same = same_payloads_fields [OF assms(2)] same_payloadsD [OF assms(2)]
  have "\<exists>q. queue_rep t q \<and> set q = unreferenced t - B'"
    using assms(3,4) by (auto simp: same)
  then show ?thesis
    using assms(1,5,6) unfolding pool_inv_def same by auto
qed

lemma manager_inv_requeue:
  "manager_inv B s \<Longrightarrow> same_payloads s t \<Longrightarrow> pool_inv B' t \<Longrightarrow> manager_inv B' t"
  by (simp add: manager_inv_def same_payloads_fields)

lemma popleft_inv:
  assumes "manager_inv B s" "num_free_blocks s \<noteq> 0"
  shows "\<exists>b t. popleft s = (Inr b, t) \<and> b \<in> unreferenced s - B \<and> same_payloads s t \<and>
    manager_inv (insert b B) t \<and> num_free_blocks t = num_free_blocks s - 1"
proof -
  have inv: "pool_inv B s" using assms(1) by (simp add: manager_inv_def)
  obtain q where q: "queue_rep s q" "set q = unreferenced s - B" using pool_inv_queue [OF inv] by blast
  with assms(2) obtain b xs where bx: "q = b # xs" using queue_repD(4) [OF q(1)] by (cases q) auto
  obtain t where t: "popleft s = (Inr b, t)" "queue_rep t xs" "same_payloads s t"
    using popleft_rep q(1) bx by blast
  have num: "num_free_blocks t = num_free_blocks s - 1"
    using queue_repD(4) [OF q(1)] queue_repD(4) [OF t(2)] bx by simp
  have b: "b \<in> unreferenced s - B" using q(2) bx by auto
  have "set xs = unreferenced s - insert b B" using q(2) bx queue_repD(1) [OF q(1)] by auto
  moreover have "card (insert b B) = Suc (card B)" using b pool_inv_finite [OF inv] by simp
  ultimately have "pool_inv (insert b B) t"
    using b pool_invD(10) [OF inv] num by (intro pool_inv_requeue [OF inv t(3,2)]) auto
  with t b num show ?thesis using manager_inv_requeue [OF assms(1) t(3)] by blast
qed

lemma unreferenced_not_sentinel: "b \<in> unreferenced s \<Longrightarrow> b \<noteq> fake_head \<and> b \<noteq> fake_tail"
  by (auto simp: unreferenced_def usable_def)

lemma queue_append_inv:
  assumes "manager_inv (insert b B) s" "b \<notin> B"
  shows "manager_inv B (queue_append s b)" "same_payloads s (queue_append s b)"
    "num_free_blocks (queue_append s b) = num_free_blocks s + 1"
proof -
  have inv: "pool_inv (insert b B) s" using assms(1) by (simp add: manager_inv_def)
  obtain q where q: "queue_rep s q" "set q = unreferenced s - insert b B" using pool_inv_queue [OF inv] by blast
  have b: "b \<in> unreferenced s" using pool_invD(10) [OF inv] by auto
  then have "b \<notin> set q" "b \<noteq> fake_head" "b \<noteq> fake_tail" using q(2) unreferenced_not_sentinel [OF b] by auto
  note app = queue_append_rep [OF q(1) this]
  show same: "same_payloads s (queue_append s b)" by (rule app)
  show num: "num_free_blocks (queue_append s b) = num_free_blocks s + 1"
    using queue_repD(4) [OF q(1)] queue_repD(4) [OF app(1)] by simp
  have "finite B" using pool_inv_finite [OF inv] by simp
  then have "card (insert b B) = Suc (card B)" using assms(2) by simp
  moreover have "set (q @ [b]) = unreferenced s - B" using q(2) b assms(2) by auto
  ultimately have "pool_inv B (queue_append s b)"
    using pool_invD(10) [OF inv] num by (intro pool_inv_requeue [OF inv same app(1)]) auto
  then show "manager_inv B (queue_append s b)" using manager_inv_requeue [OF assms(1) same] by blast
qed

lemma queue_append_n_inv:
  assumes "manager_inv (set bs \<union> B) s" "set bs \<inter> B = {}" "distinct bs"
  shows "manager_inv B (queue_append_n s bs)" "same_payloads s (queue_append_n s bs)"
proof -
  have inv: "pool_inv (set bs \<union> B) s" using assms(1) by (simp add: manager_inv_def)
  obtain q where q: "queue_rep s q" "set q = unreferenced s - (set bs \<union> B)" using pool_inv_queue [OF inv] by blast
  have sub: "set bs \<subseteq> unreferenced s" "B \<subseteq> unreferenced s" using pool_invD(10) [OF inv] by auto
  then have "set bs \<inter> set q = {}" "fake_head \<notin> set bs" "fake_tail \<notin> set bs"
    using q(2) unreferenced_not_sentinel [of _ s] by blast+
  note app = queue_append_n_rep [OF q(1) assms(3) this]
  show same: "same_payloads s (queue_append_n s bs)" by (rule app)
  have num: "num_free_blocks (queue_append_n s bs) = num_free_blocks s + int (length bs)"
    using queue_repD(4) [OF q(1)] queue_repD(4) [OF app(1)] by simp
  have "finite B" using pool_inv_finite [OF inv] by simp
  then have "card (set bs \<union> B) = length bs + card B"
    using assms(2,3) by (simp add: card_Un_disjoint distinct_card)
  moreover have "set (q @ bs) = unreferenced s - B" using q(2) sub assms(2) by auto
  ultimately have "pool_inv B (queue_append_n s bs)"
    using sub num by (intro pool_inv_requeue [OF inv same app(1)]) auto
  then show "manager_inv B (queue_append_n s bs)" using manager_inv_requeue [OF assms(1) same] by blast
qed

lemma queue_remove_inv:
  assumes "manager_inv B s" "b \<in> unreferenced s - B"
  shows "\<exists>t. queue_remove s b = (Inr (), t) \<and> same_payloads s t \<and> manager_inv (insert b B) t \<and>
    num_free_blocks t = num_free_blocks s - 1"
proof -
  have inv: "pool_inv B s" using assms(1) by (simp add: manager_inv_def)
  obtain q where q: "queue_rep s q" "set q = unreferenced s - B" using pool_inv_queue [OF inv] by blast
  then obtain us vs where bx: "q = us @ b # vs" using assms(2) by (metis split_list)
  obtain t where t: "queue_remove s b = (Inr (), t)" "queue_rep t (us @ vs)" "same_payloads s t"
    using queue_remove_rep q(1) bx by blast
  have num: "num_free_blocks t = num_free_blocks s - 1"
    using queue_repD(4) [OF q(1)] queue_repD(4) [OF t(2)] bx by simp
  have "set (us @ vs) = unreferenced s - insert b B" using q(2) bx queue_repD(1) [OF q(1)] by auto
  moreover have "card (insert b B) = Suc (card B)" using assms(2) pool_inv_finite [OF inv] by simp
  ultimately have "pool_inv (insert b B) t"
    using assms(2) pool_invD(10) [OF inv] num by (intro pool_inv_requeue [OF inv t(3,2)]) auto
  with t num show ?thesis using manager_inv_requeue [OF assms(1) t(3)] by blast
qed

text \<open>A block is linked exactly when it is free: the test the manager makes before queueing.\<close>

lemma linked_iff_free:
  assumes "pool_inv {} s" "usable s b"
  shows "prev_free_block (blk s b) = None \<and> next_free_block (blk s b) = None \<longleftrightarrow> ref_count (blk s b) \<noteq> 0"
proof -
  obtain q where q: "queue_rep s q" "set q = unreferenced s - {}" using pool_inv_queue [OF assms(1)] by blast
  have "b \<noteq> fake_head" "b \<noteq> fake_tail" using assms(2) by (auto simp: usable_def)
  then show ?thesis using queue_rep_linked_iff [OF q(1)] q(2) assms(2) by (simp add: unreferenced_def)
qed

section \<open>The allocator scan\<close>

lemma unreferenced_in_range: "b \<in> unreferenced s \<Longrightarrow> in_range s b \<and> ref_count (blk s b) = 0"
  by (auto simp: unreferenced_def usable_def in_range_def)

lemma undisturbed_unreferenced: "undisturbed B s t \<Longrightarrow> unreferenced t = unreferenced s"
  by (auto simp: undisturbed_def unreferenced_def usable_def config_view_def)

lemma maybe_evict_undisturbed:
  "b \<in> unreferenced s \<Longrightarrow> b \<notin> B \<Longrightarrow> undisturbed B s (snd (maybe_evict_cached_block rt force b s))"
  using unreferenced_in_range [of b s]
  by (intro undisturbed_quiet [where b = b, OF maybe_evict_quiet]) (simp_all add: maybe_evict_result)

lemma release_payload_fields:
  "i \<noteq> b \<Longrightarrow> blk (release_resident_payload b s) i = blk s i"
  "block_hash (blk (release_resident_payload b s) i) = block_hash (blk s i)"
  "cache_data (blk (release_resident_payload b s) b) = None"
  "ref_count (blk (release_resident_payload b s) i) = ref_count (blk s i)"
  by (simp_all add: release_resident_payload_def release_resident_def)

lemma release_payload_undisturbed:
  "b \<in> unreferenced s \<Longrightarrow> b \<notin> B \<Longrightarrow> undisturbed B s (release_resident_payload b s)"
  using unreferenced_in_range [of b s]
  by (intro undisturbed_quiet [where b = b, OF release_resident_payload_quiet]) (simp_all add: release_payload_fields)

text \<open>The state in which a block leaves the free queue for good: its content is gone.\<close>

definition clean :: "'ds manager \<Rightarrow> int \<Rightarrow> bool" where
  "clean s b \<longleftrightarrow> block_hash (blk s b) = None \<and> cache_data (blk s b) = None"

definition popped :: "int set \<Rightarrow> 'ds manager \<Rightarrow> int option may_raise \<Rightarrow> 'ds manager \<Rightarrow> bool" where
  "popped B s r t \<longleftrightarrow> undisturbed B s t \<and>
     (case r of
        Inl _ \<Rightarrow> False
      | Inr None \<Rightarrow> manager_inv B t \<and> num_free_blocks t = num_free_blocks s
      | Inr (Some b) \<Rightarrow> b \<in> unreferenced s - B \<and> manager_inv (insert b B) t \<and> clean t b \<and>
          num_free_blocks t = num_free_blocks s - 1)"

lemma pop_recyclable_loop_inv:
  "manager_inv B s \<Longrightarrow> int n \<le> num_free_blocks s \<Longrightarrow>
   popped B s (fst (pop_recyclable_loop rt n s)) (snd (pop_recyclable_loop rt n s))"
proof (induction n arbitrary: s)
  case 0
  then show ?case by (simp add: popped_def)
next
  case (Suc n)
  obtain b t where t: "popleft s = (Inr b, t)" "b \<in> unreferenced s - B" "same_payloads s t"
      "manager_inv (insert b B) t" "num_free_blocks t = num_free_blocks s - 1"
    using popleft_inv [OF Suc.prems(1)] Suc.prems(2) by auto
  obtain reusable u where u: "(if block_hash (blk t b) = None then (True, t) else maybe_evict_cached_block rt False b t) = (reusable, u)"
    by fastforce
  have bt: "b \<in> unreferenced t" using t(2,3) by (simp add: same_payloads_fields)
  have u_eq: "u = (if block_hash (blk t b) = None then t else snd (maybe_evict_cached_block rt False b t))"
    using u by (auto split: if_splits)
  have q: "quiet t u" and d: "undisturbed B t u"
    using maybe_evict_quiet unreferenced_in_range [OF bt] maybe_evict_undisturbed [OF bt] t(2) by (auto simp: u_eq)
  have inv: "manager_inv (insert b B) u" and num: "num_free_blocks u = num_free_blocks s - 1"
    using quiet_inv [OF q t(4)] same_poolD(5) [OF quiet_same_pool [OF q]] t(5) by simp_all
  have su: "undisturbed B s u" using undisturbed_trans [OF undisturbed_queue [OF t(3)] d] .
  have bu: "b \<in> unreferenced u" using bt d undisturbed_unreferenced by blast
  show ?case
  proof (cases reusable)
    case True
    have h: "block_hash (blk u b) = None" using u True maybe_evict_result(2) [of rt False b t] by (auto split: if_splits)
    let ?v = "if cache_data (blk u b) \<noteq> None then release_resident_payload b u else u"
    have qv: "quiet u ?v" and dv: "undisturbed B u ?v"
      using release_resident_payload_quiet unreferenced_in_range [OF bu] release_payload_undisturbed [OF bu] t(2) by auto
    have "clean ?v b" using h by (auto simp: clean_def release_payload_fields)
    moreover have "manager_inv (insert b B) ?v" "num_free_blocks ?v = num_free_blocks s - 1"
      using quiet_inv [OF qv inv] same_poolD(5) [OF quiet_same_pool [OF qv]] num by simp_all
    moreover have "pop_recyclable_loop rt (Suc n) s = (Inr (Some b), ?v)"
      using t(1) u True by simp
    ultimately show ?thesis
      using t(2) undisturbed_trans [OF su dv] by (simp add: popped_def)
  next
    case False
    let ?w = "queue_append u b"
    have "b \<notin> B" using t(2) by simp
    note app = queue_append_inv [OF inv this]
    have "int n \<le> num_free_blocks ?w" using app(3) num Suc.prems(2) by simp
    from Suc.IH [OF app(1) this] have IH: "popped B ?w (fst (pop_recyclable_loop rt n ?w)) (snd (pop_recyclable_loop rt n ?w))" .
    have sw: "undisturbed B s ?w" using undisturbed_trans [OF su undisturbed_queue [OF app(2)]] .
    have "popped B s (fst (pop_recyclable_loop rt n ?w)) (snd (pop_recyclable_loop rt n ?w))"
      using IH undisturbed_trans [OF sw] undisturbed_unreferenced [OF sw] app(3) num
      by (auto simp: popped_def split: sum.splits option.splits)
    then show ?thesis using t(1) u False by simp
  qed
qed

lemma queue_count_nonneg: "manager_inv B s \<Longrightarrow> 0 \<le> num_free_blocks s"
  using pool_inv_queue [of B s] queue_repD(4) by (fastforce simp: manager_inv_def)

lemma pop_recyclable_inv:
  "manager_inv B s \<Longrightarrow> popped B s (fst (pop_recyclable_free_block rt s)) (snd (pop_recyclable_free_block rt s))"
  unfolding pop_recyclable_free_block_def
  by (rule pop_recyclable_loop_inv) (use queue_count_nonneg in auto)

section \<open>Handing out\<close>

text \<open>
  Handing out a block in transit, with the counters written in the same step: what
  \<open>allocate_block\<close> does, and \<open>get_new_blocks\<close> once for each of its blocks.
\<close>

definition count_out :: "int \<Rightarrow> 'ds manager \<Rightarrow> 'ds manager" where
  "count_out n s = upd_stats s (\<lambda>st. st\<lparr>st_allocated_blocks := st_allocated_blocks st + n,
     st_free_blocks := st_free_blocks st - n\<rparr>)"

lemma hand_out_fields [simp]:
  "blk (hand_out rt b s) = (blk s)(b := touch_block (rt_wall rt) (blk s b\<lparr>ref_count := 1\<rparr>))"
  "num_free_blocks (hand_out rt b s) = num_free_blocks s" "max_blocks (hand_out rt b s) = max_blocks s"
  "hash_cache (hand_out rt b s) = hash_cache s" "resident_bytes (hand_out rt b s) = resident_bytes s"
  "stats (hand_out rt b s) = stats s" "null_block (hand_out rt b s) = null_block s"
  "allocated_blocks (hand_out rt b s) = pd_set (allocated_blocks s) b b"
  "config_view (hand_out rt b s) = config_view s"
  by (simp_all add: hand_out_def Let_def config_view_def upd_blk_def)

lemma touch_block_fields [simp]:
  "ref_count (touch_block n x) = ref_count x" "is_null (touch_block n x) = is_null x"
  "prev_free_block (touch_block n x) = prev_free_block x" "next_free_block (touch_block n x) = next_free_block x"
  "block_hash (touch_block n x) = block_hash x" "block_resident_bytes (touch_block n x) = block_resident_bytes x"
  "cache_data (touch_block n x) = cache_data x" "token_count (touch_block n x) = token_count x"
  "hash_value (touch_block n x) = hash_value x" "parent_hash (touch_block n x) = parent_hash x"
  by (simp_all add: touch_block_def)

lemma count_out_fields [simp]:
  "blk (count_out n s) = blk s" "num_free_blocks (count_out n s) = num_free_blocks s"
  "max_blocks (count_out n s) = max_blocks s" "hash_cache (count_out n s) = hash_cache s"
  "resident_bytes (count_out n s) = resident_bytes s" "null_block (count_out n s) = null_block s"
  "allocated_blocks (count_out n s) = allocated_blocks s" "config_view (count_out n s) = config_view s"
  "st_free_blocks (stats (count_out n s)) = st_free_blocks (stats s) - n"
  "st_allocated_blocks (stats (count_out n s)) = st_allocated_blocks (stats s) + n"
  by (simp_all add: count_out_def)

lemma blk_payload_inv:
  assumes "\<And>i. block_hash (blk t i) = block_hash (blk s i)" "\<And>i. block_resident_bytes (blk t i) = block_resident_bytes (blk s i)"
    and "max_blocks t = max_blocks s" "hash_cache t = hash_cache s" "resident_bytes t = resident_bytes s"
  shows "index_inv t = index_inv s" "bytes_inv t = bytes_inv s"
  using assms by (simp_all add: index_inv_def bytes_inv_def in_range_def)

text \<open>A step that gives a block in transit a positive count and an entry in \<open>allocated_blocks\<close>.\<close>

lemma activate_inv:
  assumes "manager_inv (insert b B) s" "b \<notin> B" and f: "0 < ref_count (f (blk s b))"
    "is_null (f (blk s b)) = is_null (blk s b)"
    "prev_free_block (f (blk s b)) = prev_free_block (blk s b)" "next_free_block (f (blk s b)) = next_free_block (blk s b)"
    "block_hash (f (blk s b)) = block_hash (blk s b)" "block_resident_bytes (f (blk s b)) = block_resident_bytes (blk s b)"
    and t: "blk t = (blk s)(b := f (blk s b))" "num_free_blocks t = num_free_blocks s" "max_blocks t = max_blocks s"
    "hash_cache t = hash_cache s" "resident_bytes t = resident_bytes s" "null_block t = null_block s"
    "allocated_blocks t = pd_set (allocated_blocks s) b b"
    "st_free_blocks (stats t) = st_free_blocks (stats s) - 1"
    "st_allocated_blocks (stats t) = st_allocated_blocks (stats s) + 1"
  shows "manager_inv B t"
proof -
  have inv: "pool_inv (insert b B) s" using assms(1) by (simp add: manager_inv_def)
  note I = pool_invD [OF inv]
  have b: "b \<in> unreferenced s" using I(10) by simp
  have unref: "unreferenced t = unreferenced s - {b}"
    using f(1) by (auto simp: unreferenced_def usable_def t)
  obtain q where q: "queue_rep s q" "set q = unreferenced s - insert b B" using pool_inv_queue [OF inv] by blast
  have "queue_rep t q \<longleftrightarrow> queue_rep s q"
    by (rule queue_rep_cong) (simp_all add: t f)
  with q have rep: "\<exists>q. queue_rep t q \<and> set q = unreferenced t - B" by (auto simp: unref)
  have card: "card (insert b B) = Suc (card B)" using assms(2) pool_inv_finite [OF inv] by simp
  have sub: "B \<subseteq> unreferenced t" using I(10) assms(2) by (auto simp: unref)
  have ub: "in_range s b" "usable s b" "b \<noteq> 0" using b by (auto simp: unreferenced_def usable_def in_range_def)
  have range: "in_range t = in_range s" "usable t = usable s" by (auto simp: in_range_def usable_def t)
  have "pool_inv B t"
    unfolding pool_inv_def range
  proof (intro conjI allI impI)
    show "2 \<le> max_blocks t" "null_block t = 0" "is_null (blk t 0)" "1 \<le> ref_count (blk t 0)"
      using I(1-4) ub(3) by (simp_all add: t)
    show "\<not> is_null (blk t i)" "0 \<le> ref_count (blk t i)" if "usable s i" for i
      using I(5,6) [OF that] I(5) [OF ub(2)] f(1,2) by (simp_all add: t)
    show "pd_get (allocated_blocks t) i = Some i" if "in_range s i" "0 < ref_count (blk t i)" for i
      using I(7) [OF that(1)] that(2) by (auto simp: t split: if_splits)
    show "v = k" "in_range s k" if "pd_get (allocated_blocks t) k = Some v" for k v
      using I(8) [of k v] that ub(1) by (auto simp: t split: if_splits)
    show "pd_ok (allocated_blocks t)" using I(9) by (simp add: t)
    show "B \<subseteq> unreferenced t" by (rule sub)
    show "\<exists>q. queue_rep t q \<and> set q = unreferenced t - B" by (rule rep)
    show "st_free_blocks (stats t) = num_free_blocks t + int (card B)"
      "st_allocated_blocks (stats t) = max_blocks t - num_free_blocks t - int (card B)"
      using I(11,12) card by (simp_all add: t)
  qed
  moreover have "index_inv t = index_inv s" "bytes_inv t = bytes_inv s"
    by (rule blk_payload_inv; simp add: t f)+
  ultimately show ?thesis using assms(1) by (simp add: manager_inv_def)
qed

lemma hand_out_inv:
  "manager_inv (insert b B) s \<Longrightarrow> b \<notin> B \<Longrightarrow> manager_inv B (count_out 1 (hand_out rt b s))"
  by (rule activate_inv [where f = "\<lambda>x. touch_block (rt_wall rt) (x\<lparr>ref_count := 1\<rparr>)"]) simp_all

text \<open>What an allocation of the blocks \<open>bs\<close> guarantees.\<close>

definition handed_out :: "int list \<Rightarrow> 'ds manager \<Rightarrow> 'ds manager \<Rightarrow> bool" where
  "handed_out bs s t \<longleftrightarrow> distinct bs \<and> set bs \<subseteq> unreferenced s \<and> config_view t = config_view s \<and>
     (\<forall>b \<in> set bs. ref_count (blk t b) = 1 \<and> clean t b) \<and>
     (\<forall>i. i \<notin> set bs \<longrightarrow> ref_count (blk t i) = ref_count (blk s i)) \<and>
     (\<forall>i. 0 < ref_count (blk s i) \<longrightarrow> payload_of (blk t i) = payload_of (blk s i))"

lemma count_out_hand_out: "count_out n (hand_out rt b s) = hand_out rt b (count_out n s)"
  by (simp add: count_out_def hand_out_def upd_stats_def upd_blk_def Let_def)

lemma count_out_add: "count_out m (count_out n s) = count_out (n + m) s"
  by (simp add: count_out_def upd_stats_def)

lemma fold_hand_out_inv:
  "manager_inv (set bs) s \<Longrightarrow> distinct bs \<Longrightarrow> manager_inv {} (count_out (int (length bs)) (fold (hand_out rt) bs s))"
proof (induction bs arbitrary: s)
  case Nil
  have "count_out 0 s = s" by (simp add: count_out_def upd_stats_def)
  with Nil show ?case by simp
next
  case (Cons b bs)
  have comm: "count_out n (fold (hand_out rt) xs u) = fold (hand_out rt) xs (count_out n u)" for n xs u
    by (induction xs arbitrary: u) (simp_all add: count_out_hand_out)
  have "manager_inv (set bs) (count_out 1 (hand_out rt b s))"
    using Cons.prems by (intro hand_out_inv) simp_all
  from Cons.IH [OF this] Cons.prems
  have "manager_inv {} (count_out (int (length bs)) (fold (hand_out rt) bs (count_out 1 (hand_out rt b s))))" by simp
  then show ?case by (simp add: comm [symmetric] count_out_add)
qed

lemma fold_hand_out_blk:
  "distinct bs \<Longrightarrow> blk (fold (hand_out rt) bs s) i =
     (if i \<in> set bs then touch_block (rt_wall rt) (blk s i\<lparr>ref_count := 1\<rparr>) else blk s i)"
  by (induction bs arbitrary: s) auto

lemma fold_hand_out_config: "config_view (fold (hand_out rt) bs s) = config_view s"
  by (induction bs arbitrary: s) simp_all

lemma hand_out_all:
  assumes "manager_inv (set bs) t" "distinct bs" "set bs \<subseteq> unreferenced s" "undisturbed {} s t" "\<forall>b \<in> set bs. clean t b"
  shows "manager_inv {} (count_out (int (length bs)) (fold (hand_out rt) bs t))"
    and "handed_out bs s (count_out (int (length bs)) (fold (hand_out rt) bs t))"
proof -
  show "manager_inv {} (count_out (int (length bs)) (fold (hand_out rt) bs t))"
    by (rule fold_hand_out_inv [OF assms(1,2)])
  have "i \<notin> set bs" if "0 < ref_count (blk s i)" for i
    using that assms(3) unreferenced_in_range [of i s] by auto
  then show "handed_out bs s (count_out (int (length bs)) (fold (hand_out rt) bs t))"
    using assms(2-5) by (auto simp: handed_out_def fold_hand_out_blk fold_hand_out_config undisturbed_def clean_def)
qed

lemma allocate_block_inv:
  assumes "manager_inv {} s"
  shows "\<exists>r t. allocate_block rt s = (Inr r, t) \<and> manager_inv {} t \<and>
    (case r of None \<Rightarrow> undisturbed {} s t \<and> num_free_blocks t = num_free_blocks s
     | Some b \<Rightarrow> handed_out [b] s t \<and> num_free_blocks t = num_free_blocks s - 1)"
proof (cases "num_free_blocks s = 0")
  case True
  then show ?thesis using assms by (simp add: allocate_block_def)
next
  case False
  obtain r t where rt: "pop_recyclable_free_block rt s = (r, t)" by fastforce
  then have P: "popped {} s r t" using pop_recyclable_inv [OF assms, of rt] by simp
  show ?thesis
  proof (cases r)
    case (Inl e)
    with P show ?thesis by (simp add: popped_def)
  next
    case (Inr ob)
    show ?thesis
    proof (cases ob)
      case None
      with P Inr rt False show ?thesis by (simp add: popped_def allocate_block_def)
    next
      case (Some b)
      with P Inr have p: "b \<in> unreferenced s" "manager_inv {b} t" "clean t b" "undisturbed {} s t"
          "num_free_blocks t = num_free_blocks s - 1"
        by (simp_all add: popped_def)
      let ?u = "count_out 1 (hand_out rt b t)"
      have eq: "allocate_block rt s = (Inr (Some b), ?u)"
        using rt Inr Some False by (simp add: allocate_block_def count_out_def)
      have "manager_inv {} ?u" "handed_out [b] s ?u"
        using hand_out_all [of "[b]" t s rt] p by simp_all
      then show ?thesis using eq p(5) by simp
    qed
  qed
qed

lemma take_recyclable_inv:
  assumes "manager_inv (set bs) t" "distinct bs" "set bs \<subseteq> unreferenced s" "undisturbed {} s t" "\<forall>b \<in> set bs. clean t b"
  shows "case take_recyclable rt n bs t of
      (Inl e, u) \<Rightarrow> e = ValueError \<and> manager_inv {} u \<and> undisturbed {} s u
    | (Inr cs, u) \<Rightarrow> length cs = length bs + n \<and> manager_inv (set cs) u \<and> distinct cs \<and> set cs \<subseteq> unreferenced s \<and>
        undisturbed {} s u \<and> (\<forall>b \<in> set cs. clean u b)"
  using assms
proof (induction n arbitrary: bs t)
  case (Suc n)
  obtain r u where ru: "pop_recyclable_free_block rt t = (r, u)" by fastforce
  then have P: "popped (set bs) t r u" using pop_recyclable_inv [OF Suc.prems(1), of rt] by simp
  have tu: "undisturbed (set bs) t u" using P by (simp add: popped_def)
  have su: "undisturbed {} s u" using undisturbed_trans [OF Suc.prems(4) undisturbed_mono [OF tu]] by simp
  show ?case
  proof (cases r)
    case (Inl e)
    with P show ?thesis by (simp add: popped_def)
  next
    case (Inr ob)
    show ?thesis
    proof (cases ob)
      case None
      with P Inr have inv: "manager_inv (set bs) u" by (simp add: popped_def)
      then have "manager_inv (set bs \<union> {}) u" by simp
      from queue_append_n_inv [OF this _ Suc.prems(2)]
      have "manager_inv {} (queue_append_n u bs)" "same_payloads u (queue_append_n u bs)" by simp_all
      then show ?thesis using ru Inr None undisturbed_trans [OF su undisturbed_queue] by simp
    next
      case (Some b)
      with P Inr have p: "b \<in> unreferenced t - set bs" "manager_inv (insert b (set bs)) u" "clean u b"
        by (simp_all add: popped_def)
      have old: "clean u c" if "c \<in> set bs" for c
      proof -
        have "payload_of (blk u c) = payload_of (blk t c)" using tu that by (simp add: undisturbed_def)
        from payload_of_fields(2,5) [OF this] show ?thesis using Suc.prems(5) that by (simp add: clean_def)
      qed
      have unref: "unreferenced t = unreferenced s" using undisturbed_unreferenced [OF Suc.prems(4)] .
      have "case take_recyclable rt n (bs @ [b]) u of
          (Inl e, u) \<Rightarrow> e = ValueError \<and> manager_inv {} u \<and> undisturbed {} s u
        | (Inr cs, u) \<Rightarrow> length cs = length (bs @ [b]) + n \<and> manager_inv (set cs) u \<and> distinct cs \<and>
            set cs \<subseteq> unreferenced s \<and> undisturbed {} s u \<and> (\<forall>b \<in> set cs. clean u b)"
        using p old su Suc.prems(2,3) unref by (intro Suc.IH) auto
      then show ?thesis using ru Inr Some by (simp split: prod.splits sum.splits)
    qed
  qed
qed simp

lemma get_new_blocks_inv:
  assumes "manager_inv {} s" "0 \<le> n"
  shows "case get_new_blocks rt n s of
      (Inl e, t) \<Rightarrow> e = ValueError \<and> manager_inv {} t \<and> undisturbed {} s t
    | (Inr bs, t) \<Rightarrow> int (length bs) = n \<and> manager_inv {} t \<and> handed_out bs s t"
proof (cases "n > num_free_blocks s")
  case True
  then show ?thesis using assms by (simp add: get_new_blocks_def)
next
  case False
  obtain r t where tk: "take_recyclable rt (nat n) [] s = (r, t)" by fastforce
  have P: "case (r, t) of
      (Inl e, u) \<Rightarrow> e = ValueError \<and> manager_inv {} u \<and> undisturbed {} s u
    | (Inr cs, u) \<Rightarrow> length cs = nat n \<and> manager_inv (set cs) u \<and> distinct cs \<and>
        set cs \<subseteq> unreferenced s \<and> undisturbed {} s u \<and> (\<forall>b \<in> set cs. clean u b)"
    using take_recyclable_inv [where bs = "[]" and t = s and s = s and rt = rt and n = "nat n"] assms(1) tk by (simp split: sum.splits)
  show ?thesis
  proof (cases r)
    case (Inl e)
    with P tk False show ?thesis by (simp add: get_new_blocks_def)
  next
    case (Inr bs)
    with P have p: "length bs = nat n" "manager_inv (set bs) t" "distinct bs" "set bs \<subseteq> unreferenced s"
        "undisturbed {} s t" "\<forall>b \<in> set bs. clean t b" by simp_all
    let ?u = "count_out (int (length bs)) (fold (hand_out rt) bs t)"
    have "get_new_blocks rt n s = (Inr bs, ?u)"
      using tk Inr False p(1) assms(2) by (simp add: get_new_blocks_def count_out_def)
    then show ?thesis using hand_out_all [OF p(2-6), of rt] p(1) assms(2) by simp
  qed
qed

section \<open>The byte budget\<close>

lemma all_blocks_range: "set (all_blocks s) = {i. in_range s i}"
proof -
  have "i \<in> set (all_blocks s)" if "in_range s i" for i
    using that by (auto simp: all_blocks_def in_range_def image_iff intro!: bexI [of _ "nat i"])
  then show ?thesis by (auto simp: all_blocks_def in_range_def)
qed

lemma evictable_unreferenced:
  "pool_inv B s \<Longrightarrow> evictable s b \<Longrightarrow> b \<in> set (all_blocks s) \<Longrightarrow> b \<in> unreferenced s"
  using pool_invD(3) [of B s]
  by (auto simp: evictable_def unreferenced_def usable_def all_blocks_range in_range_def) (cases "b = 0"; simp)

lemma evict_until_quiet:
  "set bs \<subseteq> unreferenced s \<Longrightarrow> quiet s (snd (evict_until rt force target bs s)) \<and> undisturbed {} s (snd (evict_until rt force target bs s))"
proof (induction bs arbitrary: s)
  case (Cons b bs)
  let ?t = "snd (maybe_evict_cached_block rt force b s)"
  have b: "b \<in> unreferenced s" using Cons.prems by simp
  have q: "quiet s ?t" and d: "undisturbed {} s ?t"
    using maybe_evict_quiet [of s b rt force] unreferenced_in_range [OF b] maybe_evict_undisturbed [OF b, of "{}" rt force] by simp_all
  have "set bs \<subseteq> unreferenced ?t" using Cons.prems undisturbed_unreferenced [OF d] by simp
  from Cons.IH [OF this] q d show ?case
    by (auto simp: case_prod_unfold Let_def intro: quiet_trans undisturbed_trans)
qed simp

definition payload_blocks :: "'ds manager \<Rightarrow> int set" where
  "payload_blocks s = {i. in_range s i \<and> cache_data (blk s i) \<noteq> None}"

lemma finite_payload_blocks [simp]: "finite (payload_blocks s)"
  by (rule finite_subset [of _ "{0..<max_blocks s}"]) (auto simp: payload_blocks_def in_range_def)

lemma maybe_evict_payloads:
  assumes "in_range s b"
  shows "payload_blocks (snd (maybe_evict_cached_block rt force b s)) \<subseteq> payload_blocks s"
    and "fst (maybe_evict_cached_block rt force b s) \<Longrightarrow> b \<notin> payload_blocks (snd (maybe_evict_cached_block rt force b s))"
proof -
  have r: "in_range (snd (maybe_evict_cached_block rt force b s)) = in_range s"
    by (rule quiet_range [OF maybe_evict_quiet [OF assms]])
  have "cache_data (blk (snd (maybe_evict_cached_block rt force b s)) i) = None \<or>
      cache_data (blk (snd (maybe_evict_cached_block rt force b s)) i) = cache_data (blk s i)" for i
    using maybe_evict_result(1) [of i b rt force s] maybe_evict_result(2,3) [of rt force b s] by (cases "i = b") auto
  then show "payload_blocks (snd (maybe_evict_cached_block rt force b s)) \<subseteq> payload_blocks s"
    by (auto simp: payload_blocks_def r) (metis option.distinct(1))+
  show "b \<notin> payload_blocks (snd (maybe_evict_cached_block rt force b s))" if "fst (maybe_evict_cached_block rt force b s)"
    using maybe_evict_result(2) [OF that] by (simp add: payload_blocks_def)
qed

lemma evict_until_payloads:
  "\<forall>b \<in> set bs. in_range s b \<Longrightarrow> payload_blocks (snd (evict_until rt force target bs s)) \<subseteq> payload_blocks s"
proof (induction bs arbitrary: s)
  case (Cons b bs)
  let ?t = "snd (maybe_evict_cached_block rt force b s)"
  have "in_range ?t = in_range s" using Cons.prems by (intro quiet_range maybe_evict_quiet) simp
  then have "payload_blocks (snd (evict_until rt force target bs ?t)) \<subseteq> payload_blocks ?t"
    using Cons.prems by (intro Cons.IH) simp
  also have "\<dots> \<subseteq> payload_blocks s" using Cons.prems by (intro maybe_evict_payloads) simp
  finally show ?case by (simp add: case_prod_unfold Let_def)
qed simp

lemma evict_until_progress:
  assumes "resident_bytes s > target" "evictable s b" "\<forall>b \<in> set (b # bs). in_range s b"
  shows "fst (evict_until rt True target (b # bs) s) > 0"
    and "payload_blocks (snd (evict_until rt True target (b # bs) s)) \<subset> payload_blocks s"
proof -
  let ?t = "snd (maybe_evict_cached_block rt True b s)"
  have did: "fst (maybe_evict_cached_block rt True b s)"
    using assms(2) maybe_evict_result(4) [of rt b s] by (simp add: evictable_def)
  then show "fst (evict_until rt True target (b # bs) s) > 0"
    using assms(1) by (simp add: case_prod_unfold Let_def)
  have "in_range ?t = in_range s" using assms(3) by (intro quiet_range maybe_evict_quiet) simp
  then have "payload_blocks (snd (evict_until rt True target bs ?t)) \<subseteq> payload_blocks ?t"
    using assms(3) by (intro evict_until_payloads) simp
  moreover have "b \<in> payload_blocks s" using assms(2,3) by (simp add: payload_blocks_def evictable_def)
  moreover have "payload_blocks ?t \<subseteq> payload_blocks s" "b \<notin> payload_blocks ?t"
    using maybe_evict_payloads [of s b rt True] assms(3) did by simp_all
  ultimately show "payload_blocks (snd (evict_until rt True target (b # bs) s)) \<subset> payload_blocks s"
    using assms(1) by (auto simp: case_prod_unfold Let_def)
qed

lemma droppable_leaves_facts:
  assumes "pool_inv B s" "b \<in> set (droppable_leaves rt s)"
  shows "evictable s b" "in_range s b" "b \<in> unreferenced s"
  using assms evictable_unreferenced [OF assms(1)] by (auto simp: droppable_leaves_def all_blocks_range)

lemma force_drop_loop_quiet:
  "manager_inv B s \<Longrightarrow> quiet s (snd (force_drop_loop rt target fuel s)) \<and> undisturbed {} s (snd (force_drop_loop rt target fuel s))"
proof (induction fuel arbitrary: s)
  case (Suc fuel)
  let ?bs = "sort_key (\<lambda>b. last_access (blk s b)) (droppable_leaves rt s)"
  let ?t = "snd (evict_until rt True target ?bs s)"
  have "pool_inv B s" using Suc.prems by (simp add: manager_inv_def)
  then have "set ?bs \<subseteq> unreferenced s" using droppable_leaves_facts by auto
  from evict_until_quiet [OF this] have q: "quiet s ?t" "undisturbed {} s ?t" by simp_all
  from Suc.IH [OF quiet_inv [OF q(1) Suc.prems]] q show ?case
    by (auto simp: case_prod_unfold Let_def intro: quiet_trans undisturbed_trans)
qed simp

text \<open>The fuel is enough: when the loop stops, the target is met or no leaf is left.\<close>

lemma force_drop_loop_exit:
  "manager_inv B s \<Longrightarrow> card (payload_blocks s) < fuel \<Longrightarrow>
   resident_bytes (snd (force_drop_loop rt target fuel s)) \<le> target \<or>
   droppable_leaves rt (snd (force_drop_loop rt target fuel s)) = []"
proof (induction fuel arbitrary: s)
  case (Suc fuel)
  show ?case
  proof (cases "resident_bytes s \<le> target \<or> droppable_leaves rt s = []")
    case False
    let ?bs = "sort_key (\<lambda>b. last_access (blk s b)) (droppable_leaves rt s)"
    have "?bs \<noteq> []" using False by (metis length_0_conv length_sort)
    then obtain b bs where bs: "?bs = b # bs" by (cases ?bs) auto
    let ?t = "snd (evict_until rt True target ?bs s)"
    have inv: "pool_inv B s" using Suc.prems(1) by (simp add: manager_inv_def)
    have mem: "set ?bs = set (droppable_leaves rt s)" by simp
    have range: "\<forall>b \<in> set ?bs. in_range s b" and sub: "set ?bs \<subseteq> unreferenced s"
      using droppable_leaves_facts [OF inv] unfolding mem by auto
    have "b \<in> set (droppable_leaves rt s)" using mem bs by (metis list.set_intros(1))
    then have ev: "evictable s b" by (rule droppable_leaves_facts [OF inv])
    have prog: "fst (evict_until rt True target ?bs s) > 0" "payload_blocks ?t \<subset> payload_blocks s"
      using evict_until_progress [of target s b bs rt] ev range False unfolding bs by simp_all
    have "card (payload_blocks ?t) < fuel"
      using psubset_card_mono [OF _ prog(2)] Suc.prems(2) by simp
    moreover have "manager_inv B ?t" using evict_until_quiet [OF sub, of rt True target] quiet_inv Suc.prems(1) by blast
    ultimately have "resident_bytes (snd (force_drop_loop rt target fuel ?t)) \<le> target \<or>
      droppable_leaves rt (snd (force_drop_loop rt target fuel ?t)) = []" by (intro Suc.IH)
    then show ?thesis using False prog(1) by (simp add: case_prod_unfold Let_def)
  qed auto
qed simp

lemma payload_blocks_bound: "card (payload_blocks s) < Suc (length (all_blocks s))"
proof -
  have "payload_blocks s \<subseteq> set (all_blocks s)" by (auto simp: payload_blocks_def all_blocks_range)
  then have "card (payload_blocks s) \<le> card (set (all_blocks s))" by (intro card_mono) simp_all
  then show ?thesis using card_length [of "all_blocks s"] by simp
qed

lemma enforce_budget_quiet:
  assumes "manager_inv B s"
  shows "quiet s (snd (enforce_byte_budget rt required s)) \<and> undisturbed {} s (snd (enforce_byte_budget rt required s))"
proof -
  let ?tg = "budget_target rt (max 0 required) s"
  let ?cs = "sort_key (\<lambda>b. last_access (blk s b)) (filter (\<lambda>b. evictable s b \<and> \<not> keep_resident (blk s b)) (all_blocks s))"
  let ?t = "snd (evict_until rt False ?tg ?cs s)"
  have "pool_inv B s" using assms by (simp add: manager_inv_def)
  then have "set ?cs \<subseteq> unreferenced s" using evictable_unreferenced by auto
  from evict_until_quiet [OF this] have q: "quiet s ?t" "undisturbed {} s ?t" by simp_all
  moreover have "quiet ?t (snd (force_drop_undrainable rt ?tg ?t))" "undisturbed {} ?t (snd (force_drop_undrainable rt ?tg ?t))"
    using force_drop_loop_quiet [OF quiet_inv [OF q(1) assms]]
    by (simp_all add: force_drop_undrainable_def del: force_drop_loop.simps)
  ultimately show ?thesis
    by (auto simp: enforce_byte_budget_def case_prod_unfold Let_def intro: quiet_trans undisturbed_trans)
qed

text \<open>The outcome of enforcement.\<close>

lemma enforce_budget_exit:
  assumes "manager_inv B s" "enforces_byte_budget s"
  shows "resident_bytes (snd (enforce_byte_budget rt required s)) \<le> budget_target rt (max 0 required) s \<or>
    droppable_leaves rt (snd (enforce_byte_budget rt required s)) = []"
proof -
  let ?tg = "budget_target rt (max 0 required) s"
  let ?cs = "sort_key (\<lambda>b. last_access (blk s b)) (filter (\<lambda>b. evictable s b \<and> \<not> keep_resident (blk s b)) (all_blocks s))"
  let ?u = "snd (evict_until rt False ?tg ?cs s)"
  have "pool_inv B s" using assms by (simp add: manager_inv_def)
  then have "set ?cs \<subseteq> unreferenced s" using evictable_unreferenced by auto
  from evict_until_quiet [OF this] have "manager_inv B ?u" using quiet_inv [OF _ assms(1)] by blast
  from force_drop_loop_exit [OF this payload_blocks_bound]
  have "resident_bytes (snd (force_drop_undrainable rt ?tg ?u)) \<le> ?tg \<or>
      droppable_leaves rt (snd (force_drop_undrainable rt ?tg ?u)) = []"
    by (simp add: force_drop_undrainable_def del: force_drop_loop.simps)
  then show ?thesis
    using assms(2) by (auto simp: enforce_byte_budget_def case_prod_unfold Let_def)
qed

end
