(* ===== verification/Paged_Refs.thy ===== *)
theory Paged_Refs
  imports Paged_Alloc
begin

text \<open>
  \<open>vmlx_engine/paged_cache.py\<close>: reference counting, block tables, copy-on-write, the release of a
  request's references, LRU eviction and the pool resets, with their preservation of the manager's
  invariants.
\<close>

section \<open>Freeing and referencing\<close>

definition count_freed :: "'ds manager \<Rightarrow> 'ds manager" where
  "count_freed s = upd_stats s (\<lambda>st. st\<lparr>st_free_blocks := st_free_blocks st + 1\<rparr>)"

definition is_unlinked :: "'ds manager \<Rightarrow> int \<Rightarrow> bool" where
  "is_unlinked s b \<longleftrightarrow> prev_free_block (blk s b) = None \<and> next_free_block (blk s b) = None"

definition add_ref :: "int \<Rightarrow> int \<Rightarrow> 'ds manager \<Rightarrow> 'ds manager" where
  "add_ref b n s = upd_blk s b (\<lambda>x. x\<lparr>ref_count := ref_count x + n\<rparr>)"

definition free_block :: "int \<Rightarrow> 'ds manager \<Rightarrow> bool \<times> 'ds manager" where
  "free_block i s =
     (case pd_get (allocated_blocks s) i of
        None \<Rightarrow> (False, s)
      | Some b \<Rightarrow>
          if is_null (blk s b) then (False, s)
          else if ref_count (blk s b) \<le> 0 then (False, s)
          else
            (let s1 = add_ref b (-1) s
             in if ref_count (blk s1 b) \<le> 0 then
                  (let s2 = (if release_resident_when_unreferenced (blk s1 b) then release_resident_payload b s1 else s1);
                       s3 = s2\<lparr>allocated_blocks := pd_del (allocated_blocks s2) i\<rparr>;
                       s4 = (if is_unlinked s3 b then count_freed (queue_append s3 b) else s3)
                   in (True, upd_stats s4 (\<lambda>st. st\<lparr>st_allocated_blocks := st_allocated_blocks st - 1\<rparr>)))
                else (False, s1)))"

definition decrement_ref :: "int \<Rightarrow> 'ds manager \<Rightarrow> bool \<times> 'ds manager" where
  "decrement_ref i s = free_block i s"

text \<open>
  The method \<open>free_blocks\<close>, which the property of the same name defined later in the class hides: the
  loop collects the blocks that reached zero, one queue operation gives them back.
\<close>

fun release_each :: "int list \<Rightarrow> 'ds manager \<Rightarrow> int list \<times> 'ds manager" where
  "release_each [] s = ([], s)"
| "release_each (b # bs) s =
     (if is_null (blk s b) \<or> ref_count (blk s b) \<le> 0 then release_each bs s
      else
        (let s1 = add_ref b (-1) s
         in if ref_count (blk s1 b) \<le> 0 then
              (let s2 = (if release_resident_when_unreferenced (blk s1 b) then release_resident_payload b s1 else s1);
                   s3 = s2\<lparr>allocated_blocks := pd_del (allocated_blocks s2) b\<rparr>;
                   s4 = upd_stats s3 (\<lambda>st. st\<lparr>st_allocated_blocks := st_allocated_blocks st - 1,
                     st_free_blocks := st_free_blocks st + 1\<rparr>);
                   (fs, t) = release_each bs s4
               in (b # fs, t))
            else release_each bs s1))"

definition free_blocks_batch :: "int list \<Rightarrow> 'ds manager \<Rightarrow> 'ds manager" where
  "free_blocks_batch bs s = (case release_each bs s of (fs, t) \<Rightarrow> queue_append_n t fs)"

text \<open>A \<open>RuntimeError\<close> of the queue is swallowed.\<close>

definition touch_one :: "runtime \<Rightarrow> int \<Rightarrow> 'ds manager \<Rightarrow> 'ds manager" where
  "touch_one rt b s =
     (let s1 =
        (if ref_count (blk s b) = 0 \<and> \<not> is_null (blk s b) then
           (case queue_remove s b of
              (Inl _, t) \<Rightarrow> t
            | (Inr _, t) \<Rightarrow>
                (let t1 = upd_stats t (\<lambda>st. st\<lparr>st_free_blocks := st_free_blocks st - 1,
                       st_allocated_blocks := st_allocated_blocks st + 1\<rparr>)
                 in t1\<lparr>allocated_blocks := pd_set (allocated_blocks t1) b b\<rparr>))
         else s)
      in upd_blk (add_ref b 1 s1) b (touch_block (rt_wall rt)))"

definition touch :: "runtime \<Rightarrow> int list \<Rightarrow> 'ds manager \<Rightarrow> 'ds manager" where
  "touch rt bs s = fold (touch_one rt) bs s"

definition increment_ref :: "runtime \<Rightarrow> int \<Rightarrow> 'ds manager \<Rightarrow> bool \<times> 'ds manager" where
  "increment_ref rt i s =
     (case pd_get (allocated_blocks s) i of
        None \<Rightarrow> (False, s)
      | Some b \<Rightarrow>
          (let s1 =
             (if ref_count (blk s b) = 0 \<and> \<not> is_null (blk s b) \<and> \<not> is_unlinked s b then
                (case queue_remove s b of
                   (Inl _, t) \<Rightarrow> t
                 | (Inr _, t) \<Rightarrow> upd_stats t (\<lambda>st. st\<lparr>st_free_blocks := max 0 (st_free_blocks st - 1),
                     st_allocated_blocks := st_allocated_blocks st + 1\<rparr>))
              else s);
               s2 = upd_blk (add_ref b 1 s1) b (touch_block (rt_wall rt))
           in (True, if ref_count (blk s2 b) = 2
                     then upd_stats s2 (\<lambda>st. st\<lparr>shared_blocks := shared_blocks st + 1\<rparr>) else s2)))"

section \<open>Block tables\<close>

definition create_block_table :: "string \<Rightarrow> 'ds manager \<Rightarrow> nat \<times> 'ds manager" where
  "create_block_table rid s =
     (let r = next_table s
      in (r, s\<lparr>tables := (tables s)(r := new_block_table rid), next_table := Suc r,
             request_tables := pd_set (request_tables s) rid r\<rparr>))"

definition get_block_table :: "string \<Rightarrow> 'ds manager \<Rightarrow> nat option" where
  "get_block_table rid s = pd_get (request_tables s) rid"

definition get_or_create_block_table :: "string \<Rightarrow> 'ds manager \<Rightarrow> nat \<times> 'ds manager" where
  "get_or_create_block_table rid s =
     (case pd_get (request_tables s) rid of
        Some r \<Rightarrow> (r, s)
      | None \<Rightarrow> create_block_table rid s)"

text \<open>\<open>if table:\<close> tests the length of the table.\<close>

definition delete_block_table :: "string \<Rightarrow> 'ds manager \<Rightarrow> 'ds manager" where
  "delete_block_table rid s =
     (case pd_get (request_tables s) rid of
        None \<Rightarrow> s
      | Some r \<Rightarrow> fold (\<lambda>i u. snd (free_block i u)) (table_block_ids (tables s r))
          (s\<lparr>request_tables := pd_del (request_tables s) rid\<rparr>))"

definition detach_request :: "string \<Rightarrow> 'ds manager \<Rightarrow> 'ds manager" where
  "detach_request rid s = s\<lparr>request_tables := pd_del (request_tables s) rid\<rparr>"

definition add_block_to_table :: "nat \<Rightarrow> int \<Rightarrow> int \<Rightarrow> 'ds manager \<Rightarrow> 'ds manager" where
  "add_block_to_table r b n s =
     upd_blk (s\<lparr>tables := (tables s)(r := table_add_block (tables s r) b n)\<rparr>) b (\<lambda>x. x\<lparr>token_count := n\<rparr>)"

definition fork_block_table :: "runtime \<Rightarrow> nat \<Rightarrow> string \<Rightarrow> 'ds manager \<Rightarrow> nat \<times> 'ds manager" where
  "fork_block_table rt src rid s =
     (let r = next_table s;
          s1 = s\<lparr>tables := (tables s)(r := table_copy (tables s src) rid), next_table := Suc r\<rparr>;
          s2 = fold (\<lambda>i u. snd (increment_ref rt i u)) (table_block_ids (tables s1 r)) s1
      in (r, s2\<lparr>request_tables := pd_set (request_tables s2) rid r\<rparr>))"

text \<open>The body of the loop of \<open>release_request_refs\<close>: whether the block became unreferenced.\<close>

definition release_one :: "int \<Rightarrow> 'ds manager \<Rightarrow> bool \<times> 'ds manager" where
  "release_one i s =
     (case pd_get (allocated_blocks s) i of
        None \<Rightarrow> (False, s)
      | Some b \<Rightarrow>
          if is_null (blk s b) then (False, s)
          else if ref_count (blk s b) \<le> 0 then (False, s)
          else
            (let s1 = add_ref b (-1) s
             in if ref_count (blk s1 b) = 0 then
                  (let s2 = (if release_resident_when_unreferenced (blk s1 b) \<or> cache_data_transient (blk s1 b)
                             then release_resident_payload b s1 else s1)
                   in (True, if is_unlinked s2 b
                        then upd_stats (queue_append s2 b) (\<lambda>st. st\<lparr>
                               st_allocated_blocks := max 0 (st_allocated_blocks st - 1),
                               st_free_blocks := st_free_blocks st + 1\<rparr>)
                        else s2))
                else (False, s1)))"

fun release_loop :: "int list \<Rightarrow> 'ds manager \<Rightarrow> nat \<times> 'ds manager" where
  "release_loop [] s = (0, s)"
| "release_loop (i # is) s =
     (let (z, s1) = release_one i s; (n, t) = release_loop is s1 in (if z then Suc n else n, t))"

definition release_request_refs :: "runtime \<Rightarrow> block_table option \<Rightarrow> 'ds manager \<Rightarrow> nat \<times> 'ds manager" where
  "release_request_refs rt table s =
     (case table of
        None \<Rightarrow> (0, s)
      | Some tb \<Rightarrow>
          (let (n, t) = release_loop (table_block_ids tb) s
           in (n, if n > 0 \<and> enforces_byte_budget t then snd (enforce_byte_budget rt 0 t) else t)))"

section \<open>Copy on write\<close>

definition cow_copy_block :: "runtime \<Rightarrow> int \<Rightarrow> 'ds manager \<Rightarrow> int option may_raise \<times> 'ds manager" where
  "cow_copy_block rt src s =
     (case allocate_block rt s of
        (Inl e, t) \<Rightarrow> (Inl e, t)
      | (Inr None, t) \<Rightarrow> (Inr None, t)
      | (Inr (Some nb), t) \<Rightarrow>
          (let x = blk t src;
               t1 = upd_blk t nb (\<lambda>y. y\<lparr>token_count := token_count x, cache_data := cache_data x,
                      cache_data_from_disk := cache_data_from_disk x\<rparr>);
               t2 = add_ref src (-1) t1
           in (Inr (Some nb), if ref_count (blk t2 src) = 1
               then upd_stats t2 (\<lambda>st. st\<lparr>shared_blocks := shared_blocks st - 1\<rparr>) else t2)))"

text \<open>
  The loop of \<open>get_blocks_for_generation\<close> over the positions of the table: the blocks collected,
  whether one was copied.  Python's loop reads the live list, whose length the loop keeps.
\<close>

fun generation_loop ::
  "runtime \<Rightarrow> nat \<Rightarrow> nat list \<Rightarrow> 'ds manager \<Rightarrow> (int list \<times> bool) may_raise \<times> 'ds manager" where
  "generation_loop rt r [] s = (Inr ([], False), s)"
| "generation_loop rt r (p # ps) s =
     (case pd_get (allocated_blocks s) (table_block_ids (tables s r) ! p) of
        None \<Rightarrow> generation_loop rt r ps s
      | Some b \<Rightarrow>
          (case (if is_shared (blk s b) then cow_copy_block rt b s else (Inr None, s)) of
             (Inl e, t) \<Rightarrow> (Inl e, t)
           | (Inr ob, t) \<Rightarrow>
               (let t1 = (case ob of
                      None \<Rightarrow> t
                    | Some nb \<Rightarrow> upd_stats (t\<lparr>tables := (tables t)(r := tables t r\<lparr>table_block_ids :=
                          (table_block_ids (tables t r))[p := nb]\<rparr>)\<rparr>)
                        (\<lambda>st. st\<lparr>cow_copies := cow_copies st + 1\<rparr>));
                    t2 = upd_blk t1 b (touch_block (rt_wall rt))
                in case generation_loop rt r ps t2 of
                     (Inl e, u) \<Rightarrow> (Inl e, u)
                   | (Inr (bs, copied), u) \<Rightarrow>
                       (Inr ((case ob of None \<Rightarrow> b | Some nb \<Rightarrow> nb) # bs, copied \<or> ob \<noteq> None), u))))"

definition get_blocks_for_generation ::
  "runtime \<Rightarrow> nat \<Rightarrow> 'ds manager \<Rightarrow> (int list \<times> bool) may_raise \<times> 'ds manager" where
  "get_blocks_for_generation rt r s = generation_loop rt r [0..<length (table_block_ids (tables s r))] s"

section \<open>Eviction and resets\<close>

fun evict_lru_loop :: "runtime \<Rightarrow> nat \<Rightarrow> 'ds manager \<Rightarrow> nat \<times> 'ds manager" where
  "evict_lru_loop rt 0 s = (0, s)"
| "evict_lru_loop rt (Suc n) s =
     (case popleft s of
        (Inl _, t) \<Rightarrow> (0, t)
      | (Inr b, t) \<Rightarrow>
          (let was_clean = (block_hash (blk t b) = None);
               (did, u) = maybe_evict_cached_block rt False b t;
               (m, v) = evict_lru_loop rt n (queue_append u b)
           in (if was_clean \<or> did then Suc m else m, v)))"

definition evict_lru_blocks :: "runtime \<Rightarrow> int \<Rightarrow> 'ds manager \<Rightarrow> nat \<times> 'ds manager" where
  "evict_lru_blocks rt n s = evict_lru_loop rt (nat (min n (num_free_blocks s))) s"

definition handle_memory_pressure :: "runtime \<Rightarrow> int \<Rightarrow> 'ds manager \<Rightarrow> bool \<times> 'ds manager" where
  "handle_memory_pressure rt requested s =
     (if num_free_blocks s \<ge> requested then (True, s)
      else
        (let t = snd (evict_lru_blocks rt (requested - num_free_blocks s) s);
             u = upd_stats t (\<lambda>st. st\<lparr>st_free_blocks := num_free_blocks t\<rparr>)
         in (num_free_blocks u \<ge> requested, u)))"

definition wipe_block :: "cache_block \<Rightarrow> cache_block" where
  "wipe_block x = (reset_hash x)\<lparr>cache_data := None, cache_data_from_disk := False, block_resident_bytes := 0\<rparr>"

definition reset_prefix_cache :: "'ds manager \<Rightarrow> bool \<times> 'ds manager" where
  "reset_prefix_cache s =
     (if max_blocks s - num_free_blocks s > 1 then (False, s)
      else
        (let s1 = s\<lparr>hash_cache := [], hash_to_block := []\<rparr>;
             s2 = fold (\<lambda>b u. upd_blk u b wipe_block) (all_blocks s) s1
         in (True, upd_stats (s2\<lparr>resident_bytes := 0\<rparr>)
               (\<lambda>st. st\<lparr>evictions := 0, cache_hits := 0, cache_misses := 0\<rparr>))))"

definition reset_stats :: "'ds manager \<Rightarrow> 'ds manager" where
  "reset_stats s = upd_stats s (\<lambda>st. st\<lparr>cache_hits := 0, cache_misses := 0, cow_copies := 0, evictions := 0\<rparr>)"

section \<open>Reported numbers\<close>

definition free_blocks :: "'ds manager \<Rightarrow> int" where
  "free_blocks s = num_free_blocks s"

definition usage :: "'ds manager \<Rightarrow> real" where
  "usage s = (let n = max_blocks s - 1 in if n = 0 then 0 else 1 - real_of_int (free_blocks s) / real_of_int n)"

definition holds_content :: "'ds manager \<Rightarrow> int \<Rightarrow> bool" where
  "holds_content s b \<longleftrightarrow> \<not> is_null (blk s b) \<and>
     (ref_count (blk s b) > 0 \<or> block_hash (blk s b) \<noteq> None \<or> cache_data (blk s b) \<noteq> None)"

definition get_stats :: "'ds manager \<Rightarrow> cache_stats \<times> 'ds manager" where
  "get_stats s =
     (let t = upd_stats s (\<lambda>st. st\<lparr>
            shared_blocks := int (length (filter (\<lambda>(_, b). ref_count (blk s b) > 1) (allocated_blocks s))),
            st_free_blocks := num_free_blocks s,
            total_tokens_cached := sum_list (map (\<lambda>(_, b). max 0 (token_count (blk s b)))
              (filter (\<lambda>(_, b). holds_content s b) (allocated_blocks s)))\<rparr>)
      in (stats t, t))"

definition live_cached_blocks :: "'ds manager \<Rightarrow> nat" where
  "live_cached_blocks s = length (filter (\<lambda>(_, b). holds_content s b) (allocated_blocks s))"

record memory_usage =
  mu_cached_blocks :: int
  mu_cache_occupancy :: real
  mu_usable_blocks :: int
  mu_capacity_tokens :: int
  mu_allocated_blocks :: int
  mu_free_blocks :: int
  mu_total_tokens_cached :: int
  mu_utilization :: real
  mu_cache_hit_rate :: real

definition get_memory_usage :: "'ds manager \<Rightarrow> memory_usage \<times> 'ds manager" where
  "get_memory_usage s =
     (let (st, t) = get_stats s;
          total_hits = cache_hits st + cache_misses st;
          usable_blocks = max 0 (max_blocks t - 1);
          allocated_usable = max 0 (st_allocated_blocks st - 1);
          cached = int (live_cached_blocks t)
      in (\<lparr>mu_cached_blocks = cached,
           mu_cache_occupancy = (if usable_blocks > 0 then real_of_int cached / real_of_int usable_blocks else 0),
           mu_usable_blocks = usable_blocks,
           mu_capacity_tokens = block_size t * usable_blocks,
           mu_allocated_blocks = st_allocated_blocks st,
           mu_free_blocks = st_free_blocks st,
           mu_total_tokens_cached = total_tokens_cached st,
           mu_utilization = (if usable_blocks > 0 then real_of_int allocated_usable / real_of_int usable_blocks else 0),
           mu_cache_hit_rate = (if total_hits > 0 then real_of_int (cache_hits st) / real_of_int total_hits else 0)\<rparr>, t))"

section \<open>Reference counts and the invariant\<close>

lemma reref_inv:
  assumes "manager_inv B s" "in_range s b" "0 < ref_count (blk s b)"
    and f: "0 < ref_count (f (blk s b))" "is_null (f (blk s b)) = is_null (blk s b)"
    "1 \<le> ref_count (f (blk s b)) \<or> b \<noteq> 0"
    "prev_free_block (f (blk s b)) = prev_free_block (blk s b)" "next_free_block (f (blk s b)) = next_free_block (blk s b)"
    "block_hash (f (blk s b)) = block_hash (blk s b)" "block_resident_bytes (f (blk s b)) = block_resident_bytes (blk s b)"
  shows "manager_inv B (upd_blk s b f)"
proof -
  let ?t = "upd_blk s b f"
  have inv: "pool_inv B s" using assms(1) by (simp add: manager_inv_def)
  note I = pool_invD [OF inv]
  have range: "in_range ?t = in_range s" "usable ?t = usable s" by (auto simp: in_range_def usable_def)
  have unref: "unreferenced ?t = unreferenced s" using assms(3) f(1) by (auto simp: unreferenced_def range)
  have "queue_rep ?t q \<longleftrightarrow> queue_rep s q" for q by (rule queue_rep_cong) (simp_all add: f)
  then have rep: "\<exists>q. queue_rep ?t q \<and> set q = unreferenced ?t - B"
    using pool_inv_queue [OF inv] by (simp add: unref)
  have "pool_inv B ?t"
    unfolding pool_inv_def range
  proof (intro conjI allI impI)
    show "2 \<le> max_blocks ?t" "null_block ?t = 0" "is_null (blk ?t 0)" "1 \<le> ref_count (blk ?t 0)"
      using I(1-4) f(1,2) by auto
    show "\<not> is_null (blk ?t i)" "0 \<le> ref_count (blk ?t i)" if "usable s i" for i
      using I(5,6) [OF that] f(1,2) by auto
    show "pd_get (allocated_blocks ?t) i = Some i" if "in_range s i" "0 < ref_count (blk ?t i)" for i
      using I(7) [OF that(1)] that(2) assms(3) by (auto split: if_splits)
    show "v = k" "in_range s k" if "pd_get (allocated_blocks ?t) k = Some v" for k v
      using I(8) [of k v] that by simp_all
  qed (use I rep unref in simp_all)
  moreover have "index_inv ?t = index_inv s" "bytes_inv ?t = bytes_inv s"
    by (rule blk_payload_inv; simp add: f)+
  ultimately show ?thesis using assms(1) by (simp add: manager_inv_def)
qed

lemma deactivate_inv:
  assumes "manager_inv B s" "usable s b" "0 < ref_count (blk s b)"
    and "\<And>i. i \<noteq> b \<Longrightarrow> link_view (blk t i) = link_view (blk s i)" "ref_count (blk t b) = 0"
    "is_null (blk t b) = is_null (blk s b)" "prev_free_block (blk t b) = prev_free_block (blk s b)"
    "next_free_block (blk t b) = next_free_block (blk s b)"
    and "num_free_blocks t = num_free_blocks s" "config_view t = config_view s"
    and al: "allocated_blocks t = allocated_blocks s \<or> allocated_blocks t = pd_del (allocated_blocks s) b"
    and "st_free_blocks (stats t) = st_free_blocks (stats s) + 1"
    "st_allocated_blocks (stats t) = st_allocated_blocks (stats s) - 1"
    and "index_inv t" "bytes_inv t"
  shows "manager_inv (insert b B) t"
proof -
  have inv: "pool_inv B s" using assms(1) by (simp add: manager_inv_def)
  note I = pool_invD [OF inv]
  have cfg: "max_blocks t = max_blocks s" "null_block t = null_block s" using assms(10) by (simp_all add: config_view_def)
  have range: "in_range t = in_range s" "usable t = usable s" by (auto simp: in_range_def usable_def cfg)
  have view: "is_null (blk t i) = is_null (blk s i)" "prev_free_block (blk t i) = prev_free_block (blk s i)"
      "next_free_block (blk t i) = next_free_block (blk s i)" for i
    using assms(4) [of i] assms(6-8) by (cases "i = b"; simp add: link_view_def)+
  have refs: "ref_count (blk t i) = (if i = b then 0 else ref_count (blk s i))" for i
    using assms(4) [of i] assms(5) by (simp add: link_view_def)
  have b: "b \<noteq> 0" "b \<notin> B" "in_range s b"
    using assms(2,3) I(10) by (auto simp: usable_def unreferenced_def in_range_def)
  have unref: "unreferenced t = insert b (unreferenced s)"
    using assms(2) by (auto simp: unreferenced_def range refs)
  have "queue_rep t q \<longleftrightarrow> queue_rep s q" for q by (rule queue_rep_cong) (simp_all add: view assms)
  moreover have "insert b (unreferenced s) - insert b B = unreferenced s - B"
    using assms(3) by (auto simp: unreferenced_def)
  ultimately have rep: "\<exists>q. queue_rep t q \<and> set q = unreferenced t - insert b B"
    using pool_inv_queue [OF inv] by (simp add: unref)
  have "pool_inv (insert b B) t"
    unfolding pool_inv_def range
  proof (intro conjI allI impI)
    show "2 \<le> max_blocks t" "null_block t = 0" "is_null (blk t 0)" "1 \<le> ref_count (blk t 0)"
      using I(1-4) b by (simp_all add: cfg view refs)
    show "\<not> is_null (blk t i)" "0 \<le> ref_count (blk t i)" if "usable s i" for i
      using I(5,6) [OF that] by (simp_all add: view refs)
    show "pd_get (allocated_blocks t) i = Some i" if "in_range s i" "0 < ref_count (blk t i)" for i
      using I(7) [OF that(1)] that(2) al by (auto simp: refs split: if_splits)
    show "v = k" "in_range s k" if "pd_get (allocated_blocks t) k = Some v" for k v
      using I(8) [of k v] that al by (auto split: if_splits)
    show "pd_ok (allocated_blocks t)" using I(9) al by auto
    show "insert b B \<subseteq> unreferenced t" using I(10) by (auto simp: unref)
    show "\<exists>q. queue_rep t q \<and> set q = unreferenced t - insert b B" by (rule rep)
    show "st_free_blocks (stats t) = num_free_blocks t + int (card (insert b B))"
      "st_allocated_blocks (stats t) = max_blocks t - num_free_blocks t - int (card (insert b B))"
      using I(11,12) b pool_inv_finite [OF inv] assms(9,12,13) by (simp_all add: cfg)
  qed
  then show ?thesis using assms(14,15) by (simp add: manager_inv_def)
qed

lemma queue_append_stats [simp]: "stats (queue_append s b) = stats s"
proof -
  have "block_heap.more (queue_append s b) = block_heap.more s"
    by (simp add: queue_append_def Let_def split: option.split)
  then show ?thesis by (rule more_fields)
qed

lemma release_payload_stats [simp]: "stats (release_resident_payload b s) = stats s"
  by (simp add: release_resident_payload_def)

lemma stats_update_order:
  "st\<lparr>st_free_blocks := f, st_allocated_blocks := a\<rparr> = st\<lparr>st_allocated_blocks := a, st_free_blocks := f\<rparr>"
  by (cases st) simp

lemma upd_stats_queue_append: "queue_append (upd_stats s f) b = upd_stats (queue_append s b) f"
  by (simp add: queue_append_def upd_stats_def set_next_def set_prev_def upd_blk_def Let_def split: option.split)

lemma add_ref_fields [simp]:
  "ref_count (blk (add_ref b n s) i) = (if i = b then ref_count (blk s i) + n else ref_count (blk s i))"
  "is_null (blk (add_ref b n s) i) = is_null (blk s i)"
  "prev_free_block (blk (add_ref b n s) i) = prev_free_block (blk s i)"
  "next_free_block (blk (add_ref b n s) i) = next_free_block (blk s i)"
  "block_hash (blk (add_ref b n s) i) = block_hash (blk s i)"
  "block_resident_bytes (blk (add_ref b n s) i) = block_resident_bytes (blk s i)"
  "cache_data (blk (add_ref b n s) i) = cache_data (blk s i)"
  "cache_data_transient (blk (add_ref b n s) i) = cache_data_transient (blk s i)"
  "release_resident_when_unreferenced (blk (add_ref b n s) i) = release_resident_when_unreferenced (blk s i)"
  "i \<noteq> b \<Longrightarrow> blk (add_ref b n s) i = blk s i"
  "num_free_blocks (add_ref b n s) = num_free_blocks s" "max_blocks (add_ref b n s) = max_blocks s"
  "hash_cache (add_ref b n s) = hash_cache s" "resident_bytes (add_ref b n s) = resident_bytes s"
  "stats (add_ref b n s) = stats s" "allocated_blocks (add_ref b n s) = allocated_blocks s"
  "config_view (add_ref b n s) = config_view s" "null_block (add_ref b n s) = null_block s"
  "token_count (blk (add_ref b n s) i) = token_count (blk s i)"
  by (simp_all add: add_ref_def)

text \<open>
  The common end of \<open>free_block\<close> and \<open>release_request_refs\<close>: the last reference is gone, the
  payload may be dropped, the block goes to the end of the queue.
\<close>

definition last_ref_gone :: "bool \<Rightarrow> bool \<Rightarrow> int \<Rightarrow> 'ds manager \<Rightarrow> 'ds manager" where
  "last_ref_gone dp del b s =
     (let s1 = add_ref b (-1) s;
          s2 = (if dp then release_resident_payload b s1 else s1)
      in count_out (-1) (if del then s2\<lparr>allocated_blocks := pd_del (allocated_blocks s2) b\<rparr> else s2))"

lemma last_ref_gone_fields:
  "ref_count (blk (last_ref_gone dp del b s) i) = (if i = b then ref_count (blk s i) - 1 else ref_count (blk s i))"
  "i \<noteq> b \<Longrightarrow> blk (last_ref_gone dp del b s) i = blk s i"
  "block_hash (blk (last_ref_gone dp del b s) i) = block_hash (blk s i)"
  "cache_data (blk (last_ref_gone dp del b s) b) = (if dp then None else cache_data (blk s b))"
  "config_view (last_ref_gone dp del b s) = config_view s"
  by (simp_all add: last_ref_gone_def Let_def release_resident_payload_def release_resident_def)

lemma last_ref_gone_inv:
  assumes "manager_inv B s" "usable s b" "ref_count (blk s b) = 1"
  shows "manager_inv (insert b B) (last_ref_gone dp del b s)"
proof -
  let ?s1 = "add_ref b (-1) s"
  let ?s2 = "if dp then release_resident_payload b ?s1 else ?s1"
  have r: "in_range ?s1 b" using assms(2) by (simp add: in_range_def usable_def)
  have inv1: "index_inv ?s1 = index_inv s" "bytes_inv ?s1 = bytes_inv s" by (rule blk_payload_inv; simp)+
  have q: "quiet ?s1 ?s2" using release_resident_payload_quiet [OF r] by simp
  then have inv2: "index_inv ?s2" "bytes_inv ?s2"
    using assms(1) inv1 by (simp_all add: quiet_def manager_inv_def)
  note same = same_poolD [OF quiet_same_pool [OF q]]
  have "config_view ?s2 = config_view ?s1" using q by (simp add: quiet_def same_pool_def)
  moreover have "index_inv (last_ref_gone dp del b s) = index_inv ?s2" "bytes_inv (last_ref_gone dp del b s) = bytes_inv ?s2"
    by (rule blk_payload_inv; simp add: last_ref_gone_def Let_def)+
  ultimately show ?thesis
    using assms inv2 same(5,6,15,16) same(1-4) [of b]
    by (intro deactivate_inv [where s = s]) (auto simp: last_ref_gone_def Let_def link_view_def release_payload_fields)
qed

lemma pool_inv_unlinked: "manager_inv {} s \<Longrightarrow> usable s b \<Longrightarrow> ref_count (blk s b) \<noteq> 0 \<Longrightarrow> is_unlinked s b"
  using linked_iff_free [of s b] by (simp add: is_unlinked_def manager_inv_def)

lemma allocated_usable:
  assumes "manager_inv B s" "pd_get (allocated_blocks s) i = Some b" "\<not> is_null (blk s b)"
  shows "b = i" "usable s b" "in_range s b"
proof -
  have inv: "pool_inv B s" using assms(1) by (simp add: manager_inv_def)
  show "b = i" and r: "in_range s b" using pool_invD(8) [OF inv assms(2)] by simp_all
  have "b \<noteq> 0" using assms(3) pool_invD(3) [OF inv] by auto
  with r show "usable s b" by (auto simp: usable_def in_range_def)
qed

section \<open>The operations keep the invariant\<close>

lemma free_block_last:
  assumes "manager_inv {} s" "pd_get (allocated_blocks s) i = Some b" "\<not> is_null (blk s b)" "ref_count (blk s b) = 1"
  shows "free_block i s = (True, queue_append (last_ref_gone (release_resident_when_unreferenced (blk s b)) True b s) b)"
proof -
  note u = allocated_usable [OF assms(1,2,3)]
  have "is_unlinked s b" using pool_inv_unlinked [OF assms(1) u(2)] assms(4) by simp
  then have link: "prev_free_block (blk s b) = None" "next_free_block (blk s b) = None" by (simp_all add: is_unlinked_def)
  let ?s1 = "add_ref b (-1) s"
  let ?s2 = "if release_resident_when_unreferenced (blk s b) then release_resident_payload b ?s1 else ?s1"
  have "in_range ?s1 b" using u(3) by (simp add: in_range_def)
  then have "quiet ?s1 ?s2" using release_resident_payload_quiet by auto
  note same = same_poolD(3,4) [OF quiet_same_pool [OF this], of b]
  have "is_unlinked (?s2\<lparr>allocated_blocks := pd_del (allocated_blocks ?s2) i\<rparr>) b"
    using same link by (simp add: is_unlinked_def)
  then have "free_block i s = (True, upd_stats (count_freed (queue_append (?s2\<lparr>allocated_blocks := pd_del (allocated_blocks ?s2) i\<rparr>) b))
      (\<lambda>st. st\<lparr>st_allocated_blocks := st_allocated_blocks st - 1\<rparr>))"
    using assms(2-4) by (simp add: free_block_def Let_def)
  also have "\<dots> = (True, queue_append (last_ref_gone (release_resident_when_unreferenced (blk s b)) True b s) b)"
    using u(1) by (simp add: last_ref_gone_def Let_def count_freed_def count_out_def upd_stats_queue_append)
      (simp add: upd_stats_def)
  finally show ?thesis .
qed

lemma queue_append_last_ref:
  assumes "manager_inv {} s" "usable s b" "ref_count (blk s b) = 1"
  shows "manager_inv {} (queue_append (last_ref_gone dp del b s) b)"
    "same_payloads (last_ref_gone dp del b s) (queue_append (last_ref_gone dp del b s) b)"
  using queue_append_inv [OF last_ref_gone_inv [OF assms]] by simp_all

text \<open>
  One reference less on \<open>b\<close>, everything else as it was: what freeing and releasing do to the counts
  and to the contents of the blocks still referenced.
\<close>

definition ref_moved :: "int \<Rightarrow> int \<Rightarrow> 'ds manager \<Rightarrow> 'ds manager \<Rightarrow> bool" where
  "ref_moved b n s t \<longleftrightarrow> config_view t = config_view s \<and>
     (\<forall>i. ref_count (blk t i) = (if i = b then ref_count (blk s i) + n else ref_count (blk s i))) \<and>
     (\<forall>i. i \<noteq> b \<longrightarrow> payload_of (blk t i) = payload_of (blk s i)) \<and>
     block_hash (blk t b) = block_hash (blk s b)"

lemma last_ref_moved:
  assumes "manager_inv {} s" "usable s b" "ref_count (blk s b) = 1"
  shows "ref_moved b (-1) s (queue_append (last_ref_gone dp del b s) b)"
proof -
  note q = queue_append_last_ref(2) [OF assms, of dp del]
  have "payload_of (blk (queue_append (last_ref_gone dp del b s) b) i) = payload_of (blk (last_ref_gone dp del b s) i)" for i
    using q by (simp add: same_payloads_def)
  then show ?thesis
    by (simp add: ref_moved_def same_payloadsD(1,2) [OF q] same_payloads_fields(6) [OF q] last_ref_gone_fields)
qed

lemma add_ref_moved: "ref_moved b n s (add_ref b n s)"
  by (simp add: ref_moved_def)

text \<open>What \<open>free_block\<close> does, on every branch.\<close>

lemma free_block_spec:
  assumes "manager_inv {} s"
  shows "manager_inv {} (snd (free_block i s)) \<and>
    (case pd_get (allocated_blocks s) i of
       None \<Rightarrow> free_block i s = (False, s)
     | Some b \<Rightarrow>
         if is_null (blk s b) \<or> ref_count (blk s b) \<le> 0 then free_block i s = (False, s)
         else ref_moved i (-1) s (snd (free_block i s)) \<and> (fst (free_block i s) \<longleftrightarrow> ref_count (blk s i) = 1))"
proof (cases "pd_get (allocated_blocks s) i")
  case None
  then show ?thesis using assms by (simp add: free_block_def)
next
  case (Some b)
  show ?thesis
  proof (cases "is_null (blk s b) \<or> ref_count (blk s b) \<le> 0")
    case True
    then show ?thesis using assms Some by (auto simp: free_block_def)
  next
    case False
    note u = allocated_usable [OF assms Some]
    show ?thesis
    proof (cases "ref_count (blk s b) = 1")
      case True
      then show ?thesis
        using free_block_last [OF assms Some] queue_append_last_ref [OF assms] last_ref_moved [OF assms] False u Some
        by auto
    next
      case nz: False
      then have "free_block i s = (False, add_ref b (-1) s)"
        using False Some by (simp add: free_block_def Let_def)
      moreover have "manager_inv {} (add_ref b (-1) s)"
        unfolding add_ref_def by (rule reref_inv [OF assms]) (use False nz u in auto)
      ultimately show ?thesis using False nz u Some add_ref_moved by simp
    qed
  qed
qed

lemma st_allocated_pos: "pool_inv B s \<Longrightarrow> 1 \<le> st_allocated_blocks (stats s)"
proof -
  assume inv: "pool_inv B s"
  obtain q where q: "queue_rep s q" "set q = unreferenced s - B" using pool_inv_queue [OF inv] by blast
  have "num_free_blocks s + int (card B) = int (card (set q) + card B)"
    using queue_repD(1,4) [OF q(1)] by (simp add: distinct_card)
  also have "card (set q) + card B = card (unreferenced s)"
    using q(2) pool_invD(10) [OF inv] by (simp add: card_Diff_subset finite_subset card_mono)
  also have "int (card (unreferenced s)) \<le> max_blocks s - 1"
  proof -
    have "card (unreferenced s) \<le> card {1..<max_blocks s}"
      by (rule card_mono) (auto simp: unreferenced_def usable_def)
    then show ?thesis using pool_invD(1) [OF inv] by simp
  qed
  finally show ?thesis using pool_invD(12) [OF inv] by simp
qed

lemma release_one_spec:
  assumes "manager_inv {} s"
  shows "manager_inv {} (snd (release_one i s)) \<and>
    (case pd_get (allocated_blocks s) i of
       None \<Rightarrow> release_one i s = (False, s)
     | Some b \<Rightarrow>
         if is_null (blk s b) \<or> ref_count (blk s b) \<le> 0 then release_one i s = (False, s)
         else ref_moved i (-1) s (snd (release_one i s)) \<and> (fst (release_one i s) \<longleftrightarrow> ref_count (blk s i) = 1))"
proof (cases "pd_get (allocated_blocks s) i")
  case None
  then show ?thesis using assms by (simp add: release_one_def)
next
  case (Some b)
  show ?thesis
  proof (cases "is_null (blk s b) \<or> ref_count (blk s b) \<le> 0")
    case True
    then show ?thesis using assms Some by (auto simp: release_one_def)
  next
    case False
    note u = allocated_usable [OF assms Some]
    let ?dp = "release_resident_when_unreferenced (blk s b) \<or> cache_data_transient (blk s b)"
    show ?thesis
    proof (cases "ref_count (blk s b) = 1")
      case True
      have "is_unlinked s b" using pool_inv_unlinked [OF assms u(2)] False True by simp
      then have link: "prev_free_block (blk s b) = None" "next_free_block (blk s b) = None"
        by (simp_all add: is_unlinked_def)
      let ?s1 = "add_ref b (-1) s"
      let ?s2 = "if ?dp then release_resident_payload b ?s1 else ?s1"
      have "in_range ?s1 b" using u(3) False by (simp add: in_range_def)
      then have q: "quiet ?s1 ?s2" using release_resident_payload_quiet by auto
      have un: "is_unlinked ?s2 b"
        using same_poolD(3,4) [OF quiet_same_pool [OF q], of b] link by (simp add: is_unlinked_def)
      have pos: "1 \<le> st_allocated_blocks (stats s)"
        using st_allocated_pos [of "{}" s] assms by (simp add: manager_inv_def)
      have "release_one i s = (True, upd_stats (queue_append ?s2 b) (\<lambda>st. st\<lparr>
          st_allocated_blocks := max 0 (st_allocated_blocks st - 1), st_free_blocks := st_free_blocks st + 1\<rparr>))"
        using Some False True un by (simp add: release_one_def Let_def)
      also have "\<dots> = (True, queue_append (last_ref_gone ?dp False b s) b)"
        using pos by (simp add: last_ref_gone_def Let_def count_out_def upd_stats_queue_append) (simp add: upd_stats_def)
      finally show ?thesis
        using queue_append_last_ref [OF assms] last_ref_moved [OF assms] False u Some True by auto
    next
      case nz: False
      then have "release_one i s = (False, add_ref b (-1) s)"
        using False Some by (simp add: release_one_def Let_def)
      moreover have "manager_inv {} (add_ref b (-1) s)"
        unfolding add_ref_def by (rule reref_inv [OF assms]) (use False nz u in auto)
      ultimately show ?thesis using False nz u Some add_ref_moved by simp
    qed
  qed
qed

lemma free_block_inv: "manager_inv {} s \<Longrightarrow> manager_inv {} (snd (free_block i s))"
  and release_one_inv: "manager_inv {} s \<Longrightarrow> manager_inv {} (snd (release_one i s))"
  using free_block_spec release_one_spec by blast+

lemma fold_free_inv: "manager_inv {} s \<Longrightarrow> manager_inv {} (fold (\<lambda>i u. snd (free_block i u)) is s)"
  by (induction "is" arbitrary: s) (simp_all add: free_block_inv)

lemma release_loop_inv: "manager_inv {} s \<Longrightarrow> manager_inv {} (snd (release_loop is s))"
proof (induction "is" arbitrary: s)
  case (Cons i "is")
  from Cons.IH [OF release_one_inv [OF Cons.prems]] show ?case by (simp add: case_prod_unfold Let_def)
qed simp

lemma release_request_refs_inv:
  assumes "manager_inv {} s"
  shows "manager_inv {} (snd (release_request_refs rt table s))"
proof (cases table)
  case (Some tb)
  have "manager_inv {} (snd (release_loop (table_block_ids tb) s))" by (rule release_loop_inv [OF assms])
  then show ?thesis
    using enforce_budget_quiet quiet_inv Some
    by (fastforce simp: release_request_refs_def case_prod_unfold Let_def)
qed (use assms in \<open>simp add: release_request_refs_def\<close>)

text \<open>Taking a reference.\<close>

lemma touch_one_inv:
  assumes "manager_inv {} s" "in_range s b"
  shows "manager_inv {} (touch_one rt b s)" and "ref_moved b 1 s (touch_one rt b s)"
    and "0 < ref_count (blk (touch_one rt b s) b)"
proof -
  have inv: "pool_inv {} s" using assms(1) by (simp add: manager_inv_def)
  note I = pool_invD [OF inv]
  have nonneg: "0 \<le> ref_count (blk s b)"
    using I(4) I(6) [of b] assms(2) by (cases "b = 0") (auto simp: in_range_def usable_def)
  have "manager_inv {} (touch_one rt b s) \<and> ref_moved b 1 s (touch_one rt b s)"
  proof (cases "ref_count (blk s b) = 0")
    case True
    then have "b \<noteq> 0" using I(4) by auto
    then have b: "b \<in> unreferenced s - {}" "\<not> is_null (blk s b)"
      using True assms(2) I(5) [of b] by (auto simp: unreferenced_def usable_def in_range_def)
    obtain t where t: "queue_remove s b = (Inr (), t)" "same_payloads s t" "manager_inv {b} t"
      using queue_remove_inv [OF assms(1) b(1)] by auto
    let ?f = "\<lambda>x. touch_block (rt_wall rt) (x\<lparr>ref_count := ref_count x + 1\<rparr>)"
    let ?u = "touch_one rt b s"
    have u: "?u = upd_blk (add_ref b 1 ((count_out 1 t)\<lparr>allocated_blocks := pd_set (allocated_blocks t) b b\<rparr>)) b
        (touch_block (rt_wall rt))"
      using True b(2) t(1)
      by (simp add: touch_one_def Let_def count_out_def upd_stats_def stats_update_order)
    have blk_u: "blk ?u = (blk t)(b := ?f (blk t b))" by (simp add: u add_ref_def)
    have ref_t: "ref_count (blk t b) = 0" using same_payloadsD(1) [OF t(2)] True by simp
    have "manager_inv {} ?u"
      by (rule activate_inv [of b "{}" t ?f]) (use t(3) ref_t in \<open>simp_all add: blk_u, simp_all add: u\<close>)
    moreover have "ref_moved b 1 s ?u"
    proof -
      have "config_view ?u = config_view t" by (simp add: u)
      moreover have "payload_of (blk t i) = payload_of (blk s i)" for i using t(2) by (simp add: same_payloads_def)
      ultimately show ?thesis
        using same_payloads_fields(6) [OF t(2)] same_payloadsD(1,2) [OF t(2)] by (simp add: ref_moved_def blk_u)
    qed
    ultimately show ?thesis by blast
  next
    case False
    let ?f = "\<lambda>x. touch_block (rt_wall rt) (x\<lparr>ref_count := ref_count x + 1\<rparr>)"
    have u: "touch_one rt b s = upd_blk s b ?f"
      using False by (simp add: touch_one_def add_ref_def upd_blk_def)
    have "manager_inv {} (upd_blk s b ?f)"
      by (rule reref_inv [OF assms]) (use False nonneg in auto)
    then show ?thesis by (simp add: u ref_moved_def)
  qed
  then show "manager_inv {} (touch_one rt b s)" and "ref_moved b 1 s (touch_one rt b s)" by simp_all
  then show "0 < ref_count (blk (touch_one rt b s) b)" using nonneg by (simp add: ref_moved_def)
qed

lemma ref_moved_range: "ref_moved b n s t \<Longrightarrow> in_range t = in_range s"
  by (auto simp: ref_moved_def config_view_def in_range_def)

lemma touch_inv:
  "manager_inv {} s \<Longrightarrow> \<forall>b \<in> set bs. in_range s b \<Longrightarrow> manager_inv {} (touch rt bs s)"
proof (induction bs arbitrary: s)
  case (Cons b bs)
  then have "manager_inv {} (touch_one rt b s)" "ref_moved b 1 s (touch_one rt b s)"
    by (simp_all add: touch_one_inv)
  with Cons show ?case by (simp add: touch_def ref_moved_range)
qed (simp add: touch_def)

text \<open>
  \<open>increment_ref\<close> is \<open>touch\<close> of one block when the block is allocated, but for the count of shared
  blocks.
\<close>

lemma increment_ref_touch:
  assumes "manager_inv {} s" "pd_get (allocated_blocks s) i = Some b"
  shows "fst (increment_ref rt i s)" and "b = i" and "in_range s i"
    and "quiet (touch_one rt i s) (snd (increment_ref rt i s))"
    and "blk (snd (increment_ref rt i s)) = blk (touch_one rt i s)"
    and "config_view (snd (increment_ref rt i s)) = config_view s"
proof -
  have inv: "pool_inv {} s" using assms(1) by (simp add: manager_inv_def)
  show bi: "b = i" and r: "in_range s i" using pool_invD(8) [OF inv assms(2)] by simp_all
  show "fst (increment_ref rt i s)" using assms(2) by (simp add: increment_ref_def Let_def)
  let ?sh = "\<lambda>s2. if ref_count (blk s2 i) = 2
    then upd_stats s2 (\<lambda>st. st\<lparr>shared_blocks := shared_blocks st + 1\<rparr>) else s2"
  have "\<exists>u. snd (increment_ref rt i s) = ?sh u \<and> quiet (touch_one rt i s) u \<and> blk u = blk (touch_one rt i s)"
  proof (cases "ref_count (blk s i) = 0 \<and> \<not> is_null (blk s i)")
    case True
    then have us: "usable s i" using allocated_usable [OF assms] bi by simp
    then have "i \<in> unreferenced s - {}" using True by (simp add: unreferenced_def)
    then obtain t where t: "queue_remove s i = (Inr (), t)" "same_payloads s t" "manager_inv {i} t" "num_free_blocks t = num_free_blocks s - 1"
      using queue_remove_inv [OF assms(1)] by blast
    have linked: "\<not> is_unlinked s i" using linked_iff_free [OF inv us] True by (simp add: is_unlinked_def)
    have "st_free_blocks (stats t) = num_free_blocks t + 1"
      using pool_invD(11) [of "{i}" t] t(3) by (simp add: manager_inv_def)
    then have pos: "max 0 (st_free_blocks (stats t) - 1) = st_free_blocks (stats t) - 1"
      using queue_count_nonneg [OF t(3)] by simp
    let ?u = "upd_blk (add_ref i 1 (count_out 1 t)) i (touch_block (rt_wall rt))"
    have inc: "snd (increment_ref rt i s) = ?sh ?u"
      using assms(2) bi True linked t(1) pos
      by (simp add: increment_ref_def Let_def count_out_def upd_stats_def stats_update_order)
    have tch: "touch_one rt i s = upd_blk (add_ref i 1 ((count_out 1 t)\<lparr>allocated_blocks := pd_set (allocated_blocks t) i i\<rparr>)) i
        (touch_block (rt_wall rt))"
      using True t(1) by (simp add: touch_one_def Let_def count_out_def upd_stats_def stats_update_order)
    have "pd_set al k v = al" if "pd_get al k = Some v" "pd_ok al" for al :: "(int, int) pydict" and k v
      using that by (induction al k v rule: pd_set.induct) (auto split: if_splits)
    then have "pd_set (allocated_blocks t) i i = allocated_blocks t"
      using assms(2) bi same_payloads_fields(4) [OF t(2)] pool_invD(9) [OF inv] by simp
    then have "?u = touch_one rt i s" by (simp add: tch) (simp add: count_out_def upd_stats_def)
    then show ?thesis by (intro exI [of _ ?u]) (simp add: inc)
  next
    case False
    then have "touch_one rt i s = upd_blk (add_ref i 1 s) i (touch_block (rt_wall rt))"
      by (auto simp: touch_one_def)
    moreover have "snd (increment_ref rt i s) = ?sh (upd_blk (add_ref i 1 s) i (touch_block (rt_wall rt)))"
      using assms(2) bi False by (auto simp: increment_ref_def Let_def)
    ultimately show ?thesis
      by (intro exI [of _ "upd_blk (add_ref i 1 s) i (touch_block (rt_wall rt))"]) simp
  qed
  then obtain u where u: "snd (increment_ref rt i s) = ?sh u" "quiet (touch_one rt i s) u" "blk u = blk (touch_one rt i s)" by blast
  have q: "quiet u (?sh u)" using quiet_stats [of "\<lambda>st. st\<lparr>shared_blocks := shared_blocks st + 1\<rparr>" u] by auto
  show Q: "quiet (touch_one rt i s) (snd (increment_ref rt i s))" using quiet_trans [OF u(2) q] u(1) by simp
  show "blk (snd (increment_ref rt i s)) = blk (touch_one rt i s)" using u by simp
  show "config_view (snd (increment_ref rt i s)) = config_view s"
    using Q touch_one_inv(2) [OF assms(1) r, of rt] by (simp add: quiet_def same_pool_def ref_moved_def)
qed

lemma increment_ref_inv: "manager_inv {} s \<Longrightarrow> manager_inv {} (snd (increment_ref rt i s))"
proof (cases "pd_get (allocated_blocks s) i")
  case (Some b)
  assume "manager_inv {} s"
  note t = increment_ref_touch [OF this Some]
  from quiet_inv [OF t(4) touch_one_inv(1) [OF \<open>manager_inv {} s\<close> t(3)]] show ?thesis .
qed (simp add: increment_ref_def)

lemma quiet_touch_block [simp]: "quiet s (upd_blk s b (touch_block n))"
  by (rule quiet_upd_blk) (simp_all add: link_view_def)

lemma handed_out_in_range: "handed_out bs s t \<Longrightarrow> in_range t = in_range s"
  by (auto simp: handed_out_def config_view_def in_range_def)

text \<open>Copy on write: the copy is a block nobody referenced, the source keeps its other references.\<close>

lemma cow_copy_block_spec:
  assumes "manager_inv {} s" "in_range s src" "1 < ref_count (blk s src)"
  shows "\<exists>r t. cow_copy_block rt src s = (Inr r, t) \<and> manager_inv {} t \<and> config_view t = config_view s \<and>
    (case r of None \<Rightarrow> undisturbed {} s t
     | Some nb \<Rightarrow> nb \<in> unreferenced s \<and> ref_count (blk t nb) = 1 \<and> block_hash (blk t nb) = None \<and>
         ref_count (blk t src) = ref_count (blk s src) - 1 \<and>
         cache_data (blk t nb) = cache_data (blk s src) \<and> token_count (blk t nb) = token_count (blk s src) \<and>
         (\<forall>i. i \<noteq> nb \<longrightarrow> i \<noteq> src \<longrightarrow> ref_count (blk t i) = ref_count (blk s i)))"
proof -
  obtain r t where t: "allocate_block rt s = (Inr r, t)" "manager_inv {} t"
    "case r of None \<Rightarrow> undisturbed {} s t \<and> num_free_blocks t = num_free_blocks s
     | Some b \<Rightarrow> handed_out [b] s t \<and> num_free_blocks t = num_free_blocks s - 1"
    using allocate_block_inv [OF assms(1), of rt] by blast
  show ?thesis
  proof (cases r)
    case None
    then show ?thesis using t by (auto simp: cow_copy_block_def undisturbed_def)
  next
    case (Some nb)
    with t(3) have h: "handed_out [nb] s t" by simp
    have nb: "nb \<in> unreferenced s" "ref_count (blk t nb) = 1" "clean t nb" "nb \<noteq> src"
      using h assms(3) by (auto simp: handed_out_def unreferenced_def)
    have src: "ref_count (blk t src) = ref_count (blk s src)" "payload_of (blk t src) = payload_of (blk s src)"
      using h assms(3) nb(4) by (simp_all add: handed_out_def)
    let ?t1 = "upd_blk t nb (\<lambda>y. y\<lparr>token_count := token_count (blk t src), cache_data := cache_data (blk t src),
                      cache_data_from_disk := cache_data_from_disk (blk t src)\<rparr>)"
    let ?t2 = "add_ref src (-1) ?t1"
    let ?t3 = "if ref_count (blk ?t2 src) = 1 then upd_stats ?t2 (\<lambda>st. st\<lparr>shared_blocks := shared_blocks st - 1\<rparr>) else ?t2"
    have "quiet t ?t1" by (rule quiet_upd_blk) (simp_all add: link_view_def)
    then have inv1: "manager_inv {} ?t1" using quiet_inv t(2) by blast
    have range: "in_range t src" using handed_out_in_range [OF h] assms(2) by simp
    have "manager_inv {} ?t2"
      unfolding add_ref_def
      by (rule reref_inv [OF inv1])
        (use assms(3) nb(4) src(1) range in \<open>auto simp: in_range_def\<close>)
    moreover have "quiet ?t2 ?t3"
      using quiet_stats [of "\<lambda>st. st\<lparr>shared_blocks := shared_blocks st - 1\<rparr>" ?t2] by auto
    ultimately have inv3: "manager_inv {} ?t3" by (rule quiet_inv [rotated])
    have blk3: "blk ?t3 = blk ?t2" by simp
    have fields: "ref_count (blk ?t2 i) = (if i = src then ref_count (blk t src) - 1 else ref_count (blk t i))"
      "block_hash (blk ?t2 nb) = block_hash (blk t nb)" "cache_data (blk ?t2 nb) = cache_data (blk t src)"
      "token_count (blk ?t2 nb) = token_count (blk t src)" for i
      using nb(4) by (auto simp: add_ref_def)
    have "cow_copy_block rt src s = (Inr (Some nb), ?t3)"
      using t(1) Some by (simp add: cow_copy_block_def Let_def)
    moreover have "config_view ?t3 = config_view s" using h by (simp add: handed_out_def)
    moreover have "\<forall>i. i \<noteq> nb \<longrightarrow> i \<noteq> src \<longrightarrow> ref_count (blk ?t3 i) = ref_count (blk s i)"
      using h unfolding blk3 fields by (simp add: handed_out_def)
    ultimately show ?thesis
      using inv3 nb src payload_of_fields(5,6) [OF src(2)] unfolding blk3
      by (intro exI [of _ "Some nb"] exI [of _ ?t3]) (simp add: blk3 fields clean_def del: if_split)
  qed
qed

lemma quiet_tables: "quiet s (s\<lparr>tables := f\<rparr>)" "quiet s (s\<lparr>tables := f, next_table := n\<rparr>)"
  "quiet s (s\<lparr>request_tables := m\<rparr>)" "quiet s (s\<lparr>tables := f, next_table := n, request_tables := m\<rparr>)"
  by (rule quiet_rest; simp add: config_view_def)+

lemma generation_loop_inv:
  "manager_inv {} s \<Longrightarrow> \<exists>x t. generation_loop rt r ps s = (Inr x, t) \<and> manager_inv {} t"
proof (induction ps arbitrary: s)
  case Nil
  then show ?case by (intro exI [of _ "([], False)"] exI [of _ s]) simp
next
  case (Cons p ps)
  show ?case
  proof (cases "pd_get (allocated_blocks s) (table_block_ids (tables s r) ! p)")
    case None
    with Cons show ?thesis by simp
  next
    case (Some b)
    have inv: "pool_inv {} s" using Cons.prems by (simp add: manager_inv_def)
    have range: "in_range s b" using pool_invD(8) [OF inv Some] by simp
    have "\<exists>ob t. (if is_shared (blk s b) then cow_copy_block rt b s else (Inr None, s)) = (Inr ob, t) \<and> manager_inv {} t"
      using cow_copy_block_spec [OF Cons.prems range, of rt] Cons.prems by (auto simp: is_shared_def)
    then obtain ob t where t: "(if is_shared (blk s b) then cow_copy_block rt b s else (Inr None, s)) = (Inr ob, t)"
      "manager_inv {} t" by blast
    let ?t1 = "case ob of None \<Rightarrow> t
      | Some nb \<Rightarrow> upd_stats (t\<lparr>tables := (tables t)(r := tables t r\<lparr>table_block_ids :=
          (table_block_ids (tables t r))[p := nb]\<rparr>)\<rparr>) (\<lambda>st. st\<lparr>cow_copies := cow_copies st + 1\<rparr>)"
    have "quiet t ?t1"
      by (auto intro!: quiet_trans [OF quiet_tables(1) quiet_stats] split: option.split)
    then have "quiet t (upd_blk ?t1 b (touch_block (rt_wall rt)))" using quiet_trans quiet_touch_block by blast
    then have "manager_inv {} (upd_blk ?t1 b (touch_block (rt_wall rt)))" using quiet_inv t(2) by blast
    from Cons.IH [OF this] obtain x u where
      u: "generation_loop rt r ps (upd_blk ?t1 b (touch_block (rt_wall rt))) = (Inr x, u)" "manager_inv {} u" by blast
    obtain bs c where x: "x = (bs, c)" by (cases x)
    have "generation_loop rt r (p # ps) s = (Inr ((case ob of None \<Rightarrow> b | Some nb \<Rightarrow> nb) # bs, c \<or> ob \<noteq> None), u)"
      using Some t(1) u(1) x by (simp add: Let_def)
    with u(2) show ?thesis by blast
  qed
qed

lemma get_blocks_for_generation_inv:
  "manager_inv {} s \<Longrightarrow> \<exists>x t. get_blocks_for_generation rt r s = (Inr x, t) \<and> manager_inv {} t"
  unfolding get_blocks_for_generation_def by (rule generation_loop_inv)

lemma fold_increment_inv: "manager_inv {} s \<Longrightarrow> manager_inv {} (fold (\<lambda>i u. snd (increment_ref rt i u)) is s)"
  by (induction "is" arbitrary: s) (simp_all add: increment_ref_inv)

lemma table_ops_inv:
  assumes "manager_inv {} s"
  shows "manager_inv {} (snd (create_block_table rid s))" "manager_inv {} (snd (get_or_create_block_table rid s))"
    "manager_inv {} (delete_block_table rid s)" "manager_inv {} (detach_request rid s)"
    "manager_inv {} (add_block_to_table r b n s)" "manager_inv {} (snd (fork_block_table rt r rid s))"
proof -
  show c: "manager_inv {} (snd (create_block_table rid s))"
    using quiet_inv [OF quiet_tables(4) assms] by (simp add: create_block_table_def Let_def)
  then show "manager_inv {} (snd (get_or_create_block_table rid s))"
    using assms by (simp add: get_or_create_block_table_def split: option.split)
  show "manager_inv {} (detach_request rid s)"
    using quiet_inv [OF quiet_tables(3) assms] by (simp add: detach_request_def)
  show "manager_inv {} (delete_block_table rid s)"
    using fold_free_inv [OF quiet_inv [OF quiet_tables(3) assms]] assms
    by (simp add: delete_block_table_def split: option.split)
  show "manager_inv {} (add_block_to_table r b n s)"
    unfolding add_block_to_table_def
    by (rule quiet_inv [OF quiet_upd_blk quiet_inv [OF quiet_tables(1) assms]]) (simp_all add: link_view_def)
  show "manager_inv {} (snd (fork_block_table rt r rid s))"
    using quiet_inv [OF quiet_tables(3) fold_increment_inv [OF quiet_inv [OF quiet_tables(2) assms]]]
    by (simp add: fork_block_table_def Let_def)
qed

lemma evict_lru_loop_inv:
  "manager_inv {} s \<Longrightarrow> int n \<le> num_free_blocks s \<Longrightarrow> manager_inv {} (snd (evict_lru_loop rt n s)) \<and>
   num_free_blocks (snd (evict_lru_loop rt n s)) = num_free_blocks s \<and> undisturbed {} s (snd (evict_lru_loop rt n s))"
proof (induction n arbitrary: s)
  case (Suc n)
  obtain b t where t: "popleft s = (Inr b, t)" "b \<in> unreferenced s - {}" "same_payloads s t" "manager_inv {b} t"
      "num_free_blocks t = num_free_blocks s - 1"
    using popleft_inv [OF Suc.prems(1)] Suc.prems(2) by auto
  let ?u = "snd (maybe_evict_cached_block rt False b t)"
  have bt: "b \<in> unreferenced t" using t(2,3) by (simp add: same_payloads_fields)
  have q: "quiet t ?u" and d: "undisturbed {} t ?u"
    using maybe_evict_quiet [of t b rt False] unreferenced_in_range [OF bt] maybe_evict_undisturbed [OF bt, of "{}" rt False]
    by simp_all
  have inv: "manager_inv (insert b {}) ?u" and num: "num_free_blocks ?u = num_free_blocks s - 1"
    using quiet_inv [OF q t(4)] same_poolD(5) [OF quiet_same_pool [OF q]] t(5) by simp_all
  let ?w = "queue_append ?u b"
  note app = queue_append_inv [OF inv, simplified]
  have "undisturbed {} s ?w"
    using undisturbed_trans [OF undisturbed_queue [OF t(3)] undisturbed_trans [OF d undisturbed_queue [OF app(2)]]] .
  moreover have "int n \<le> num_free_blocks ?w" using app(3) num Suc.prems(2) by simp
  ultimately show ?case
    using Suc.IH [OF app(1)] t(1) app(3) num undisturbed_trans
    by (fastforce simp: case_prod_unfold Let_def)
qed simp

lemma evict_lru_blocks_inv:
  assumes "manager_inv {} s"
  shows "manager_inv {} (snd (evict_lru_blocks rt n s))" "num_free_blocks (snd (evict_lru_blocks rt n s)) = num_free_blocks s"
    "undisturbed {} s (snd (evict_lru_blocks rt n s))"
  using evict_lru_loop_inv [OF assms, of "nat (min n (num_free_blocks s))" rt] queue_count_nonneg [OF assms]
  by (simp_all add: evict_lru_blocks_def)

lemma handle_memory_pressure_inv:
  assumes "manager_inv {} s"
  shows "manager_inv {} (snd (handle_memory_pressure rt n s))"
proof -
  let ?t = "snd (evict_lru_blocks rt (n - num_free_blocks s) s)"
  have inv: "manager_inv {} ?t" by (rule evict_lru_blocks_inv [OF assms])
  then have "st_free_blocks (stats ?t) = num_free_blocks ?t"
    using pool_invD(11) [of "{}" ?t] by (simp add: manager_inv_def)
  then have "quiet ?t (upd_stats ?t (\<lambda>st. st\<lparr>st_free_blocks := num_free_blocks ?t\<rparr>))"
    by (intro quiet_rest) simp_all
  from quiet_inv [OF this inv] assms show ?thesis by (simp add: handle_memory_pressure_def Let_def)
qed

section \<open>Construction and resets\<close>

lemma new_block_payload [simp]: "payload_of (new_block i) = new_block i"
  by (simp add: payload_of_def new_block_def)

lemma queue_init_fresh:
  assumes "blk s = new_block" "2 \<le> max_blocks s"
  shows "queue_rep (queue_init (all_blocks s) s) (0 # map int [1..<nat (max_blocks s)])"
    and "payload_of (blk (queue_init (all_blocks s) s) i) = new_block i"
    and "block_heap.more (queue_init (all_blocks s) s) = block_heap.more s"
proof -
  have all: "all_blocks s = 0 # map int [1..<nat (max_blocks s)]"
    using assms(2) by (simp add: all_blocks_def upt_conv_Cons)
  have pre: "distinct (all_blocks s)" "fake_head \<notin> set (all_blocks s)" "fake_tail \<notin> set (all_blocks s)"
    "\<And>i. prev_free_block (blk s i) = None \<and> next_free_block (blk s i) = None"
    using assms(1) by (auto simp: all_blocks_def distinct_map inj_on_def new_block_def)
  note R = queue_init_rep [OF pre]
  show "queue_rep (queue_init (all_blocks s) s) (0 # map int [1..<nat (max_blocks s)])" using R(1) all by simp
  show "block_heap.more (queue_init (all_blocks s) s) = block_heap.more s" by (rule R(3))
  show "payload_of (blk (queue_init (all_blocks s) s) i) = new_block i"
  proof (cases "i = fake_head \<or> i = fake_tail")
    case True
    then show ?thesis by (auto simp: queue_init_def Let_def)
  next
    case False
    then show ?thesis using R(2) [of i] assms(1) by simp
  qed
qed

lemma reserve_null_inv:
  assumes "queue_rep u (0 # map int [1..<nat (max_blocks u)])" "\<And>i. payload_of (blk u i) = new_block i"
    and "hash_cache u = []" "allocated_blocks u = []" "resident_bytes u = 0" "2 \<le> max_blocks u"
  shows "\<exists>t. reserve_null u = Inr t \<and> manager_inv {} (t\<lparr>stats := new_stats (max_blocks u)\<rparr>) \<and>
    config_view t = config_view (u\<lparr>null_block := 0\<rparr>) \<and> stats t = stats u \<and>
    (\<forall>i. 1 \<le> i \<longrightarrow> ref_count (blk t i) = 0 \<and> clean t i) \<and> num_free_blocks t = max_blocks u - 1"
proof -
  obtain v where v: "popleft u = (Inr 0, v)" "queue_rep v (map int [1..<nat (max_blocks u)])" "same_payloads u v"
    using popleft_rep [OF assms(1)] by blast
  note F = same_payloads_fields [OF v(3)]
  let ?t = "(upd_blk v 0 (\<lambda>x. x\<lparr>is_null := True, ref_count := 1\<rparr>))\<lparr>null_block := 0, allocated_blocks := [(0, 0)]\<rparr>"
  let ?t' = "?t\<lparr>stats := new_stats (max_blocks u)\<rparr>"
  have res: "reserve_null u = Inr ?t"
    using v(1) F(4) assms(4) by (simp add: reserve_null_def Let_def upd_blk_def)
  have pay: "payload_of (blk v i) = payload_of (new_block i)" for i
    using v(3) assms(2) by (simp add: same_payloads_def)
  have blkf: "ref_count (blk v i) = 0" "block_hash (blk v i) = None" "is_null (blk v i) = False"
    "cache_data (blk v i) = None" "block_resident_bytes (blk v i) = 0" for i
    using payload_of_fields(1,2,3,5,8) [OF pay [of i]] by (simp_all add: new_block_def)
  have unref: "unreferenced ?t' = set (map int [1..<nat (max_blocks u)])"
  proof -
    have "unreferenced ?t' = {1..<max_blocks u}"
      by (auto simp: unreferenced_def usable_def F blkf)
    moreover have "i \<in> int ` {1..<nat (max_blocks u)}" if "i \<in> {1..<max_blocks u}" for i
      using that by (intro image_eqI [of _ _ "nat i"]) auto
    ultimately show ?thesis by auto
  qed
  have "queue_rep ?t' q \<longleftrightarrow> queue_rep v q" for q by (rule queue_rep_cong) simp_all
  then have rep: "queue_rep ?t' (map int [1..<nat (max_blocks u)])" using v(2) by simp
  have num: "num_free_blocks v = max_blocks u - 1" using queue_repD(4) [OF v(2)] assms(6) by simp
  have "pool_inv {} ?t'"
    unfolding pool_inv_def
  proof (intro conjI allI impI)
    show "\<exists>q. queue_rep ?t' q \<and> set q = unreferenced ?t' - {}" using rep unref by blast
  qed (use assms(6) num in \<open>auto simp: F blkf in_range_def usable_def new_stats_def split: if_splits\<close>)
  moreover have "index_inv ?t'" using F(2) assms(3) by (simp add: index_inv_def hm.sound_def)
  moreover have "bytes_inv ?t'"
  proof -
    have zero: "block_resident_bytes (blk ?t' i) = 0" for i by (simp add: blkf)
    have "resident_bytes ?t' = 0" using F(3) assms(5) by simp
    then show ?thesis unfolding bytes_inv_def zero by simp
  qed
  ultimately have "manager_inv {} ?t'" by (simp add: manager_inv_def)
  moreover have "config_view ?t = config_view (u\<lparr>null_block := 0\<rparr>)" using F(6) by (simp add: config_view_def)
  ultimately show ?thesis using res num F(5) blkf by (intro exI [of _ ?t]) (simp add: clean_def)
qed

text \<open>A new manager satisfies the invariant; every usable block is free and empty.\<close>

lemma init_manager_inv:
  assumes "1 \<le> bsize" "2 \<le> n" "only \<longrightarrow> store \<noteq> None"
  shows "\<exists>s. init_manager bsize n caching store ds budget only frugal env = Inr s \<and> manager_inv {} s \<and>
    max_blocks s = n \<and> block_size s = bsize \<and> num_free_blocks s = n - 1 \<and>
    enable_caching s = caching \<and> max_resident_bytes s = max 0 budget \<and>
    (\<forall>i. 1 \<le> i \<longrightarrow> ref_count (blk s i) = 0 \<and> clean s i)"
proof -
  define s0 where "s0 = \<lparr>blk = new_block, num_free_blocks = 0, block_size = bsize, max_blocks = n,
               enable_caching = caching, disk_store = store, disk_state = ds, disk_only = only,
               paged_frugal = (only \<or> frugal_env_requested env \<or> frugal),
               ram_mirror_policy = mirror_policy only (frugal_env_requested env) frugal,
               max_resident_bytes = max 0 budget, resident_bytes = 0, transient_disk_promotions = 0,
               transient_disk_peak_bytes = 0, hash_cache = [], hash_to_block = [],
               tables = (\<lambda>_. new_block_table []), next_table = 0, request_tables = [],
               allocated_blocks = [], null_block = 0, partial_block_sizes = [], stats = new_stats n\<rparr>"
  let ?u = "queue_init (all_blocks s0) s0"
  note Q = queue_init_fresh [of s0]
  note M = more_fields [OF Q(3)]
  have f: "blk s0 = new_block" "max_blocks s0 = n" "hash_cache s0 = []" "allocated_blocks s0 = []"
    "resident_bytes s0 = 0" "stats s0 = new_stats n" "block_size s0 = bsize" "enable_caching s0 = caching"
    "max_resident_bytes s0 = max 0 budget" by (simp_all add: s0_def)
  have "2 \<le> max_blocks s0" using assms(2) f(2) by simp
  note Q = queue_init_fresh [OF f(1) this] and M = more_fields [OF queue_init_fresh(3) [OF f(1) this]]
  have "\<exists>t. reserve_null ?u = Inr t \<and> manager_inv {} (t\<lparr>stats := new_stats (max_blocks ?u)\<rparr>) \<and>
    config_view t = config_view (?u\<lparr>null_block := 0\<rparr>) \<and> stats t = stats ?u \<and>
    (\<forall>i. 1 \<le> i \<longrightarrow> ref_count (blk t i) = 0 \<and> clean t i) \<and> num_free_blocks t = max_blocks ?u - 1"
    by (rule reserve_null_inv) (use Q M f assms(2) in simp_all)
  then obtain t where t: "reserve_null ?u = Inr t" "manager_inv {} (t\<lparr>stats := new_stats n\<rparr>)" "stats t = new_stats n"
    "config_view t = config_view (?u\<lparr>null_block := 0\<rparr>)"
    "\<forall>i. 1 \<le> i \<longrightarrow> ref_count (blk t i) = 0 \<and> clean t i" "num_free_blocks t = n - 1"
    using M f by auto
  have "t\<lparr>stats := new_stats n\<rparr> = t" using t(3) by (cases t) simp
  with t(2) have inv: "manager_inv {} t" by simp
  let ?r = "t\<lparr>partial_block_sizes := restored_partial_sizes store ds bsize\<rparr>"
  have "quiet t ?r" by (rule quiet_rest) (simp_all add: config_view_def)
  then have "manager_inv {} ?r" using quiet_inv inv by blast
  moreover have "init_manager bsize n caching store ds budget only frugal env = Inr ?r"
    using assms t(1) by (auto simp: init_manager_def Let_def s0_def Option.is_none_def)
  moreover have "max_blocks ?r = n" "block_size ?r = bsize" "enable_caching ?r = caching" "max_resident_bytes ?r = max 0 budget"
    using t(4) M(1,6) f by (simp_all add: config_view_def)
  ultimately show ?thesis using t(5,6) by (intro exI [of _ ?r]) (simp add: clean_def)
qed

lemma clear_inv:
  assumes "manager_inv {} s"
  shows "manager_inv {} (snd (clear force s))" "\<exists>r. fst (clear force s) = Inr r"
proof -
  let ?s1 = "s\<lparr>blk := new_block\<rparr>"
  let ?u = "(queue_init (all_blocks s) ?s1)\<lparr>hash_cache := [], hash_to_block := [], request_tables := [],
            allocated_blocks := [], resident_bytes := 0\<rparr>"
  have n: "2 \<le> max_blocks ?s1" using assms pool_invD(1) [of "{}" s] by (simp add: manager_inv_def)
  have all: "all_blocks ?s1 = all_blocks s" by (simp add: all_blocks_def)
  note Q = queue_init_fresh [of ?s1, OF _ n, unfolded all] and M = more_fields [OF queue_init_fresh(3) [of ?s1, OF _ n, unfolded all]]
  have "queue_rep ?u q \<longleftrightarrow> queue_rep (queue_init (all_blocks s) ?s1) q" for q by (rule queue_rep_cong) simp_all
  then have "\<exists>t. reserve_null ?u = Inr t \<and> manager_inv {} (t\<lparr>stats := new_stats (max_blocks ?u)\<rparr>) \<and>
    config_view t = config_view (?u\<lparr>null_block := 0\<rparr>) \<and> stats t = stats ?u \<and>
    (\<forall>i. 1 \<le> i \<longrightarrow> ref_count (blk t i) = 0 \<and> clean t i) \<and> num_free_blocks t = max_blocks ?u - 1"
    by (intro reserve_null_inv) (use Q M n in simp_all)
  then obtain t where t: "reserve_null ?u = Inr t" "manager_inv {} (t\<lparr>stats := new_stats (max_blocks s)\<rparr>)"
    using M(1) by auto
  then have "clear_pool s = Inr (t\<lparr>stats := new_stats (max_blocks s)\<rparr>)"
    by (simp add: clear_pool_def Let_def)
  then show "manager_inv {} (snd (clear force s))" "\<exists>r. fst (clear force s) = Inr r"
    using assms t(2) by (auto simp: clear_def)
qed

lemma fold_upd_blk:
  "distinct bs \<Longrightarrow> blk (fold (\<lambda>b u. upd_blk u b f) bs s) i = (if i \<in> set bs then f (blk s i) else blk s i)"
  by (induction bs arbitrary: s) auto

lemma fold_upd_blk_rest:
  "num_free_blocks (fold (\<lambda>b u. upd_blk u b f) bs s) = num_free_blocks s"
  "config_view (fold (\<lambda>b u. upd_blk u b f) bs s) = config_view s"
  "allocated_blocks (fold (\<lambda>b u. upd_blk u b f) bs s) = allocated_blocks s"
  "stats (fold (\<lambda>b u. upd_blk u b f) bs s) = stats s"
  "hash_cache (fold (\<lambda>b u. upd_blk u b f) bs s) = hash_cache s"
  "max_blocks (fold (\<lambda>b u. upd_blk u b f) bs s) = max_blocks s"
  by (induction bs arbitrary: s) simp_all

lemma reset_prefix_cache_inv:
  assumes "manager_inv {} s"
  shows "manager_inv {} (snd (reset_prefix_cache s))"
proof (cases "max_blocks s - num_free_blocks s > 1")
  case False
  let ?s1 = "s\<lparr>hash_cache := [], hash_to_block := []\<rparr>"
  let ?t = "snd (reset_prefix_cache s)"
  have t: "?t = upd_stats ((fold (\<lambda>b u. upd_blk u b wipe_block) (all_blocks s) ?s1)\<lparr>resident_bytes := 0\<rparr>)
               (\<lambda>st. st\<lparr>evictions := 0, cache_hits := 0, cache_misses := 0\<rparr>)"
    using False by (simp add: reset_prefix_cache_def Let_def)
  have dist: "distinct (all_blocks s)" by (simp add: all_blocks_def distinct_map inj_on_def)
  have blk_t: "blk ?t i = (if in_range s i then wipe_block (blk s i) else blk s i)" for i
    unfolding t using dist by (simp add: fold_upd_blk all_blocks_range)
  have view: "link_view (wipe_block x) = link_view x" for x by (simp add: wipe_block_def link_view_def reset_hash_def)
  have "config_view ?t = config_view s"
    by (simp add: t fold_upd_blk_rest)
  then have "same_pool s ?t"
    by (simp add: same_pool_def blk_t view) (simp add: t fold_upd_blk_rest)
  moreover have "hash_cache ?t = []" "resident_bytes ?t = 0" by (simp_all add: t fold_upd_blk_rest)
  moreover from this have "index_inv ?t" by (simp add: index_inv_def hm.sound_def)
  moreover have "bytes_inv ?t"
  proof -
    have "max_blocks ?t = max_blocks s" by (rule same_poolD [OF \<open>same_pool s ?t\<close>])
    moreover have "block_resident_bytes (wipe_block x) = 0" for x by (simp add: wipe_block_def)
    moreover have "0 \<le> block_resident_bytes (blk s i)" for i using assms by (simp add: manager_inv_def bytes_inv_def)
    ultimately show ?thesis using \<open>resident_bytes ?t = 0\<close>
      by (simp add: bytes_inv_def blk_t in_range_def)
  qed
  ultimately show ?thesis using assms same_pool_inv by (auto simp: manager_inv_def)
qed (use assms in \<open>simp add: reset_prefix_cache_def\<close>)

lemma reset_stats_inv: "manager_inv {} s \<Longrightarrow> manager_inv {} (reset_stats s)"
  unfolding reset_stats_def by (rule quiet_inv [OF quiet_stats]) simp_all

lemma get_stats_inv: "manager_inv {} s \<Longrightarrow> manager_inv {} (snd (get_stats s))"
proof -
  assume inv: "manager_inv {} s"
  then have "st_free_blocks (stats s) = num_free_blocks s"
    using pool_invD(11) [of "{}" s] by (simp add: manager_inv_def)
  then have "quiet s (snd (get_stats s))"
    unfolding get_stats_def Let_def by (intro quiet_rest) simp_all
  with inv show ?thesis by (rule quiet_inv [rotated])
qed

end
