(* ===== verification/Paged_Prefix.thy ===== *)
theory Paged_Prefix
  imports Paged_Refs
begin

text \<open>
  \<open>vmlx_engine/paged_cache.py\<close>: prefix caching by chain hashes (\<open>cache_full_blocks\<close>,
  \<open>get_computed_blocks\<close>), promotion from the disk tier, and the legacy token-hash index with
  \<open>find_shared_prefix\<close>.  The sections of \<open>get_computed_blocks\<close> that hold the lock are composed in
  the order one thread runs them.
\<close>

section \<open>Chain-hash lookup and registration\<close>

definition py_join_ints :: "int list \<Rightarrow> string" where
  "py_join_ints ts = (case ts of [] \<Rightarrow> [] | t # us \<Rightarrow> show_int t @ concat (map (\<lambda>u. CHR '','' # show_int u) us))"

definition hex_digit :: "nat \<Rightarrow> char" where
  "hex_digit n = char_of (if n < 10 then 48 + n else 87 + n)"

definition hex_of :: "string \<Rightarrow> string" where
  "hex_of s = concat (map (\<lambda>c. let n = (of_char c :: nat) in [hex_digit (n div 16), hex_digit (n mod 16)]) s)"

definition legacy_block_hash :: "runtime \<Rightarrow> int list \<Rightarrow> string" where
  "legacy_block_hash rt ts = take 16 (hex_of (rt_sha256 rt (py_join_ints ts)))"

definition range_block_hash :: "runtime \<Rightarrow> string option \<Rightarrow> int list \<Rightarrow> pyval \<Rightarrow> nat \<Rightarrow> nat \<Rightarrow> string" where
  "range_block_hash rt parent ts extra start e =
     compute_block_hash (rt_repr rt) (rt_sha256 rt) parent ts
       (cache_extra_keys_for_token_range (rt_repr rt) (rt_parse_int rt) extra (int start) (int e))"

definition get_cached_block :: "string \<Rightarrow> 'ds manager \<Rightarrow> int option \<times> 'ds manager" where
  "get_cached_block h s =
     (if \<not> enable_caching s then (None, s)
      else case hm_get_block (hash_cache s) h of
        Some b \<Rightarrow> (Some b, upd_stats s (\<lambda>st. st\<lparr>cache_hits := cache_hits st + 1\<rparr>))
      | None \<Rightarrow> (None, upd_stats s (\<lambda>st. st\<lparr>cache_misses := cache_misses st + 1\<rparr>)))"

definition register_full_block :: "runtime \<Rightarrow> string option \<Rightarrow> int list \<Rightarrow> string \<Rightarrow> int \<Rightarrow> 'ds manager \<Rightarrow> 'ds manager" where
  "register_full_block rt parent ts h b s =
     (let s1 = upd_blk s b (\<lambda>x. x\<lparr>block_hash := Some h, parent_hash := parent, token_count := int (length ts)\<rparr>);
          s2 = s1\<lparr>hash_cache := hm_insert (hash_cache s1) h b\<rparr>;
          lh = legacy_block_hash rt ts;
          s3 = upd_blk s2 b (\<lambda>x. x\<lparr>hash_value := Some lh\<rparr>)
      in s3\<lparr>hash_to_block := pd_set (hash_to_block s3) lh b\<rparr>)"

fun cache_full_loop ::
  "runtime \<Rightarrow> int list \<Rightarrow> int list \<Rightarrow> pyval \<Rightarrow> nat \<Rightarrow> nat \<Rightarrow> string option \<Rightarrow> 'ds manager \<Rightarrow> unit may_raise \<times> 'ds manager" where
  "cache_full_loop rt blocks ts extra 0 i parent s = (Inr (), s)"
| "cache_full_loop rt blocks ts extra (Suc k) i parent s =
     (if length blocks \<le> i then (Inl IndexError, s)
      else case block_hash (blk s (blocks ! i)) of
        Some h \<Rightarrow> cache_full_loop rt blocks ts extra k (Suc i) (Some h) s
      | None \<Rightarrow>
          (let start = i * nat (block_size s);
               e = start + nat (block_size s);
               bts = take (nat (block_size s)) (drop start ts);
               h = range_block_hash rt parent bts extra start e
           in cache_full_loop rt blocks ts extra k (Suc i) (Some h) (register_full_block rt parent bts h (blocks ! i) s)))"

definition cache_full_blocks ::
  "runtime \<Rightarrow> int list \<Rightarrow> int list \<Rightarrow> nat \<Rightarrow> nat \<Rightarrow> pyval \<Rightarrow> 'ds manager \<Rightarrow> unit may_raise \<times> 'ds manager" where
  "cache_full_blocks rt blocks ts cached full extra s =
     (if \<not> enable_caching s then (Inr (), s)
      else if cached \<ge> full then (Inr (), s)
      else if cached > 0 \<and> length blocks < cached then (Inl IndexError, s)
      else cache_full_loop rt blocks ts extra (full - cached) cached
             (if cached > 0 then block_hash (blk s (blocks ! (cached - 1))) else None) s)"

section \<open>Promotion from the disk tier\<close>

text \<open>Admission to the persistent RAM tier, after making room.\<close>

definition promote_admission :: "runtime \<Rightarrow> int \<Rightarrow> 'ds manager \<Rightarrow> bool \<times> 'ds manager" where
  "promote_admission rt nbytes s =
     (let admitted = (\<not> disk_only s \<and> \<not> paged_frugal s)
      in if max_resident_bytes s > 0 \<and> nbytes > 0 then
           (let s1 = snd (enforce_byte_budget rt nbytes s)
            in (if nbytes > max_resident_bytes s1 \<or> resident_bytes s1 + nbytes > max_resident_bytes s1
                then False else admitted, s1))
         else (admitted, s))"

definition promoted_block ::
  "runtime \<Rightarrow> string \<Rightarrow> pyval \<Rightarrow> int \<Rightarrow> string option \<Rightarrow> bool \<Rightarrow> cache_block \<Rightarrow> cache_block" where
  "promoted_block rt h payload n parent admitted x =
     touch_block (rt_wall rt) (x\<lparr>ref_count := 1, block_hash := Some h, parent_hash := parent,
       cache_data := Some payload, cache_data_from_disk := True, cache_data_transient := \<not> admitted,
       dsv4_native_interval := native_dsv4_interval (rt_parse_int rt) payload, token_count := n\<rparr>)"

definition note_transient :: "'ds manager \<Rightarrow> 'ds manager" where
  "note_transient s = s\<lparr>transient_disk_promotions := transient_disk_promotions s + 1,
     transient_disk_peak_bytes := max (transient_disk_peak_bytes s) (resident_bytes s)\<rparr>"

definition populate ::
  "runtime \<Rightarrow> string \<Rightarrow> pyval \<Rightarrow> int \<Rightarrow> string option \<Rightarrow> bool \<Rightarrow> int \<Rightarrow> int \<Rightarrow> 'ds manager \<Rightarrow> 'ds manager" where
  "populate rt h payload n parent admitted nbytes b t =
     (let t1 = upd_blk t b (promoted_block rt h payload n parent admitted);
          t2 = (if enforces_byte_budget t1 then note_resident b nbytes t1 else t1);
          t3 = (if cache_data_transient (blk t2 b) then note_transient t2 else t2);
          t4 = t3\<lparr>allocated_blocks := pd_set (allocated_blocks t3) b b,
            hash_cache := hm_insert (hash_cache t3) h b\<rparr>
      in count_out 1 t4)"

definition promote_from_disk ::
  "runtime \<Rightarrow> string \<Rightarrow> pyval \<Rightarrow> int \<Rightarrow> string option \<Rightarrow> 'ds manager \<Rightarrow> int option may_raise \<times> 'ds manager" where
  "promote_from_disk rt h payload n parent s =
     (let nbytes = estimate_block_nbytes payload;
          (admitted, s1) = promote_admission rt nbytes s
      in if num_free_blocks s1 = 0 then (Inr None, s1)
         else case pop_recyclable_free_block rt s1 of
           (Inl e, t) \<Rightarrow> (Inl e, t)
         | (Inr None, t) \<Rightarrow> (Inr None, t)
         | (Inr (Some b), t) \<Rightarrow>
             (Inr (Some b), populate rt h payload n parent admitted nbytes b t))"

section \<open>Prefix lookup\<close>

text \<open>
  One probe of the two tiers, the code of the three places that look a hash up: a hit in RAM takes a
  reference; after a miss the disk payload is promoted, unless the hash has appeared meanwhile.
\<close>

definition probe_block ::
  "runtime \<Rightarrow> string \<Rightarrow> int \<Rightarrow> string option \<Rightarrow> 'ds manager \<Rightarrow> int option may_raise \<times> 'ds manager" where
  "probe_block rt h n parent s =
     (case hm_get_block (hash_cache s) h of
        Some b \<Rightarrow> (Inr (Some b), touch rt [b] s)
      | None \<Rightarrow>
          (case disk_store s of
             None \<Rightarrow> (Inr None, s)
           | Some ops \<Rightarrow>
               (let (found, ds) = op_read_block ops (disk_state s) h;
                    s1 = s\<lparr>disk_state := ds\<rparr>
                in case found of
                     None \<Rightarrow> (Inr None, s1)
                   | Some payload \<Rightarrow>
                       (case hm_get_block (hash_cache s1) h of
                          Some b \<Rightarrow> (Inr (Some b), touch rt [b] s1)
                        | None \<Rightarrow>
                            (case promote_from_disk rt h payload n parent s1 of
                               (Inl e, t) \<Rightarrow> (Inl e, t)
                             | (Inr None, t) \<Rightarrow> (Inr None, t)
                             | (Inr (Some b), t) \<Rightarrow>
                                 (Inr (Some b), upd_stats t (\<lambda>st. st\<lparr>disk_hits := disk_hits st + 1\<rparr>)))))))"

definition count_hit :: "'ds manager \<Rightarrow> 'ds manager" where
  "count_hit s = upd_stats s (\<lambda>st. st\<lparr>cache_hits := cache_hits st + 1\<rparr>)"

definition count_miss :: "'ds manager \<Rightarrow> 'ds manager" where
  "count_miss s = upd_stats s (\<lambda>st. st\<lparr>cache_misses := cache_misses st + 1,
     disk_misses := (if Option.is_none (disk_store s) then disk_misses st else disk_misses st + 1)\<rparr>)"

text \<open>Trying partial sizes in turn at one chain position; the size comes with the block found.\<close>

fun probe_sizes ::
  "runtime \<Rightarrow> int list \<Rightarrow> pyval \<Rightarrow> nat \<Rightarrow> string option \<Rightarrow> nat list \<Rightarrow> 'ds manager \<Rightarrow>
   (int \<times> nat) option may_raise \<times> 'ds manager" where
  "probe_sizes rt ts extra start parent [] s = (Inr None, s)"
| "probe_sizes rt ts extra start parent (n # ns) s =
     (let h = range_block_hash rt parent (take n (drop start ts)) extra start (start + n)
      in case probe_block rt h (int n) parent s of
           (Inl e, t) \<Rightarrow> (Inl e, t)
         | (Inr (Some b), t) \<Rightarrow> (Inr (Some (b, n)), t)
         | (Inr None, t) \<Rightarrow> probe_sizes rt ts extra start parent ns t)"

definition sizes_descending :: "'ds manager \<Rightarrow> int list" where
  "sizes_descending s = rev (sort (remdups (partial_block_sizes s)))"

definition fallback_sizes :: "int list \<Rightarrow> nat \<Rightarrow> 'ds manager \<Rightarrow> nat list" where
  "fallback_sizes ts start s =
     map nat (filter (\<lambda>n. 0 < n \<and> n < block_size s \<and> int start + n \<le> int (length ts)) (sizes_descending s))"

text \<open>The loop over full blocks: blocks, parent hash and tokens so far, and whether it returned early.\<close>

fun computed_loop ::
  "runtime \<Rightarrow> int list \<Rightarrow> pyval \<Rightarrow> nat \<Rightarrow> nat \<Rightarrow> int list \<Rightarrow> string option \<Rightarrow> nat \<Rightarrow> 'ds manager \<Rightarrow>
   (int list \<times> string option \<times> nat \<times> bool) may_raise \<times> 'ds manager" where
  "computed_loop rt ts extra 0 i bs parent n s = (Inr (bs, parent, n, False), s)"
| "computed_loop rt ts extra (Suc k) i bs parent n s =
     (let size = nat (block_size s);
          start = i * size;
          bts = take size (drop start ts);
          h = range_block_hash rt parent bts extra start (start + size)
      in case probe_block rt h (int (length bts)) parent s of
           (Inl e, t) \<Rightarrow> (Inl e, t)
         | (Inr (Some b), t) \<Rightarrow>
             computed_loop rt ts extra k (Suc i) (bs @ [b]) (Some h) (n + size) (count_hit t)
         | (Inr None, t) \<Rightarrow>
             (case probe_sizes rt ts extra start parent (fallback_sizes ts start t) t of
                (Inl e, u) \<Rightarrow> (Inl e, u)
              | (Inr (Some (b, m)), u) \<Rightarrow> (Inr (bs @ [b], parent, n + m, True), count_hit u)
              | (Inr None, u) \<Rightarrow> (Inr (bs, parent, n, False), count_miss u)))"

definition trailing_sizes :: "nat \<Rightarrow> 'ds manager \<Rightarrow> nat list" where
  "trailing_sizes len s = len # map nat (filter (\<lambda>n. 0 < n \<and> n \<le> int len \<and> n \<noteq> int len) (sizes_descending s))"

definition get_computed_blocks ::
  "runtime \<Rightarrow> int list \<Rightarrow> pyval \<Rightarrow> 'ds manager \<Rightarrow> (int list \<times> int) may_raise \<times> 'ds manager" where
  "get_computed_blocks rt ts extra s =
     (if \<not> enable_caching s then (Inr ([], 0), s)
      else
        (case computed_loop rt ts extra (length ts div nat (block_size s)) 0 [] None 0 s of
           (Inl e, t) \<Rightarrow> (Inl e, t)
         | (Inr (bs, parent, n, returned), t) \<Rightarrow>
             (let rest = length ts - n
              in if returned \<or> rest = 0 \<or> int rest \<ge> block_size t then (Inr (bs, int n), t)
                 else case probe_sizes rt ts extra n parent (trailing_sizes rest t) t of
                   (Inl e, u) \<Rightarrow> (Inl e, u)
                 | (Inr None, u) \<Rightarrow> (Inr (bs, int n), u)
                 | (Inr (Some (b, m)), u) \<Rightarrow> (Inr (bs @ [b], int n + token_count (blk u b)), count_hit u))))"

section \<open>The legacy index\<close>

definition find_cached_block :: "runtime \<Rightarrow> int list \<Rightarrow> 'ds manager \<Rightarrow> int option \<times> 'ds manager" where
  "find_cached_block rt ts s =
     (case pd_get (hash_to_block s) (legacy_block_hash rt ts) of
        Some i \<Rightarrow>
          (case pd_get (allocated_blocks s) i of
             Some b \<Rightarrow> (Some b, count_hit (upd_blk s b (touch_block (rt_wall rt))))
           | None \<Rightarrow> (None, upd_stats s (\<lambda>st. st\<lparr>cache_misses := cache_misses st + 1\<rparr>)))
      | None \<Rightarrow> (None, upd_stats s (\<lambda>st. st\<lparr>cache_misses := cache_misses st + 1\<rparr>)))"

definition register_block_hash :: "runtime \<Rightarrow> int \<Rightarrow> int list \<Rightarrow> 'ds manager \<Rightarrow> 'ds manager" where
  "register_block_hash rt b ts s =
     (let h = legacy_block_hash rt ts;
          s1 = upd_blk s b (\<lambda>x. x\<lparr>hash_value := Some h\<rparr>);
          s2 = s1\<lparr>hash_to_block := pd_set (hash_to_block s1) h b\<rparr>
      in if int (length ts) < block_size s2
         then s2\<lparr>partial_block_sizes := List.insert (int (length ts)) (partial_block_sizes s2)\<rparr> else s2)"

fun match_sizes :: "runtime \<Rightarrow> int list \<Rightarrow> int list \<Rightarrow> 'ds manager \<Rightarrow> (int \<times> nat) option \<times> 'ds manager" where
  "match_sizes rt ts [] s = (None, s)"
| "match_sizes rt ts (n # ns) s =
     (if n \<le> int (length ts) then
        (case find_cached_block rt (take (nat n) ts) s of
           (Some b, t) \<Rightarrow> (Some (b, nat n), t)
         | (None, t) \<Rightarrow> match_sizes rt ts ns t)
      else match_sizes rt ts ns s)"

text \<open>One round of the loop of \<open>find_shared_prefix\<close>: the block matched and the tokens it consumes.\<close>

definition shared_step :: "runtime \<Rightarrow> int list \<Rightarrow> 'ds manager \<Rightarrow> (int \<times> nat) option \<times> 'ds manager" where
  "shared_step rt ts s =
     (let (full, t) =
        (if int (length ts) \<ge> block_size s then
           (case find_cached_block rt (take (nat (block_size s)) ts) s of
              (Some b, t) \<Rightarrow> (Some (b, nat (block_size s)), t)
            | (None, t) \<Rightarrow> (None, t))
         else (None, s))
      in case full of
           Some x \<Rightarrow> (Some x, t)
         | None \<Rightarrow> match_sizes rt ts (sizes_descending t) t)"

partial_function (option) find_shared_loop ::
  "runtime \<Rightarrow> int list \<Rightarrow> int list \<Rightarrow> 'ds manager \<Rightarrow> ((int list \<times> int list) \<times> 'ds manager) option" where
  "find_shared_loop rt shared remaining s =
     (if remaining = [] then Some ((shared, remaining), s)
      else case shared_step rt remaining s of
        (None, t) \<Rightarrow> Some ((shared, remaining), t)
      | (Some (b, n), t) \<Rightarrow> find_shared_loop rt (shared @ [b]) (drop n remaining) t)"

definition find_shared_prefix ::
  "runtime \<Rightarrow> int list \<Rightarrow> 'ds manager \<Rightarrow> ((int list \<times> int list) \<times> 'ds manager) option" where
  "find_shared_prefix rt ts s = find_shared_loop rt [] ts s"

section \<open>Preservation\<close>

text \<open>What a prefix lookup leaves of every block that was referenced before.\<close>

definition keeps :: "'ds manager \<Rightarrow> 'ds manager \<Rightarrow> bool" where
  "keeps s t \<longleftrightarrow> config_view t = config_view s \<and>
     (\<forall>i. 0 < ref_count (blk s i) \<longrightarrow> ref_count (blk s i) \<le> ref_count (blk t i) \<and>
        block_hash (blk t i) = block_hash (blk s i) \<and> cache_data (blk t i) = cache_data (blk s i) \<and>
        token_count (blk t i) = token_count (blk s i))"

lemma keeps_refl [simp]: "keeps s s"
  by (simp add: keeps_def)

lemma keeps_trans [trans]: "keeps s t \<Longrightarrow> keeps t u \<Longrightarrow> keeps s u"
proof -
  assume st: "keeps s t" and tu: "keeps t u"
  have "ref_count (blk s i) \<le> ref_count (blk u i) \<and> block_hash (blk u i) = block_hash (blk s i) \<and>
      cache_data (blk u i) = cache_data (blk s i) \<and> token_count (blk u i) = token_count (blk s i)"
    if "0 < ref_count (blk s i)" for i
  proof -
    have 1: "ref_count (blk s i) \<le> ref_count (blk t i)" "block_hash (blk t i) = block_hash (blk s i)"
      "cache_data (blk t i) = cache_data (blk s i)" "token_count (blk t i) = token_count (blk s i)"
      using st that by (simp_all add: keeps_def)
    have "0 < ref_count (blk t i)" using 1(1) that by simp
    then have 2: "ref_count (blk t i) \<le> ref_count (blk u i)" "block_hash (blk u i) = block_hash (blk t i)"
      "cache_data (blk u i) = cache_data (blk t i)" "token_count (blk u i) = token_count (blk t i)"
      using tu by (simp_all add: keeps_def)
    show ?thesis using 1 2 by simp
  qed
  with st tu show "keeps s u" by (simp add: keeps_def)
qed

lemma keeps_range: "keeps s t \<Longrightarrow> in_range t = in_range s"
  by (auto simp: keeps_def config_view_def in_range_def)

lemma keeps_undisturbed: "undisturbed B s t \<Longrightarrow> keeps s t"
  unfolding undisturbed_def keeps_def by (auto dest: payload_of_fields(2,5,6))

lemma keeps_rest: "blk t = blk s \<Longrightarrow> config_view t = config_view s \<Longrightarrow> keeps s t"
  by (simp add: keeps_def)

lemma touch_one_keeps:
  assumes "manager_inv {} s" "in_range s b"
  shows "keeps s (touch_one rt b s)" "block_hash (blk (touch_one rt b s) b) = block_hash (blk s b)"
    "0 < ref_count (blk (touch_one rt b s) b)"
proof -
  have M: "ref_moved b 1 s (touch_one rt b s)" by (rule touch_one_inv [OF assms])
  have data: "cache_data (blk (touch_one rt b s) b) = cache_data (blk s b) \<and> token_count (blk (touch_one rt b s) b) = token_count (blk s b)"
    if "0 < ref_count (blk s b)"
    using that by (simp add: touch_one_def Let_def add_ref_def)
  have "payload_of (blk (touch_one rt b s) i) = payload_of (blk s i)" if "i \<noteq> b" for i
    using M that by (simp add: ref_moved_def)
  note P = payload_of_fields(2,5,6) [OF this]
  have each: "ref_count (blk s i) \<le> ref_count (blk (touch_one rt b s) i) \<and>
      block_hash (blk (touch_one rt b s) i) = block_hash (blk s i) \<and>
      cache_data (blk (touch_one rt b s) i) = cache_data (blk s i) \<and>
      token_count (blk (touch_one rt b s) i) = token_count (blk s i)" if "0 < ref_count (blk s i)" for i
    using M P [of i] data that by (cases "i = b") (simp_all add: ref_moved_def)
  have "config_view (touch_one rt b s) = config_view s" using M by (simp add: ref_moved_def)
  with each show "keeps s (touch_one rt b s)" unfolding keeps_def by blast
  show "block_hash (blk (touch_one rt b s) b) = block_hash (blk s b)" using M by (simp add: ref_moved_def)
  show "0 < ref_count (blk (touch_one rt b s) b)" by (rule touch_one_inv [OF assms])
qed

text \<open>The outcome of looking up \<open>h\<close>: nothing, or a block that holds \<open>h\<close> and a new reference.\<close>

definition probed :: "string \<Rightarrow> 'ds manager \<Rightarrow> int option may_raise \<Rightarrow> 'ds manager \<Rightarrow> bool" where
  "probed h s r t \<longleftrightarrow> manager_inv {} t \<and> keeps s t \<and>
     (case r of
        Inl _ \<Rightarrow> False
      | Inr None \<Rightarrow> True
      | Inr (Some b) \<Rightarrow> in_range s b \<and> 0 < ref_count (blk t b) \<and> block_hash (blk t b) = Some h)"

lemma touch_hit:
  assumes "manager_inv {} s" "hm_get_block (hash_cache s) h = Some b"
  shows "probed h s (Inr (Some b)) (touch rt [b] s)"
proof -
  have "in_range s b \<and> block_hash (blk s b) = Some h"
    using hm.sound_get [of "\<lambda>b h. in_range s b \<and> block_hash (blk s b) = Some h" "hash_cache s" h b] assms
    by (simp add: manager_inv_def index_inv_def)
  then show ?thesis
    using touch_one_inv [OF assms(1), of b rt] touch_one_keeps [OF assms(1), of b rt]
    by (simp add: probed_def touch_def)
qed

lemma promote_admission_inv:
  assumes "manager_inv {} s"
  shows "manager_inv {} (snd (promote_admission rt n s))" "undisturbed {} s (snd (promote_admission rt n s))"
proof -
  note E = enforce_budget_quiet [OF assms, of rt n]
  show "manager_inv {} (snd (promote_admission rt n s))"
    using E quiet_inv [OF _ assms] assms by (simp add: promote_admission_def Let_def)
  show "undisturbed {} s (snd (promote_admission rt n s))"
    using E by (simp add: promote_admission_def Let_def)
qed

lemma promoted_block_fields [simp]:
  "ref_count (promoted_block rt h p n parent a x) = 1" "is_null (promoted_block rt h p n parent a x) = is_null x"
  "prev_free_block (promoted_block rt h p n parent a x) = prev_free_block x"
  "next_free_block (promoted_block rt h p n parent a x) = next_free_block x"
  "block_hash (promoted_block rt h p n parent a x) = Some h"
  "block_resident_bytes (promoted_block rt h p n parent a x) = block_resident_bytes x"
  "token_count (promoted_block rt h p n parent a x) = n" "cache_data (promoted_block rt h p n parent a x) = Some p"
  by (simp_all add: promoted_block_def)

lemma index_insert:
  assumes "hm.sound (\<lambda>c k. in_range s c \<and> block_hash (blk s c) = Some k) m"
    and "block_hash (blk s b) = None" "in_range s b"
  shows "hm.sound (\<lambda>c k. in_range s c \<and> (if c = b then Some h else block_hash (blk s c)) = Some k) (hm_insert m h b)"
proof (rule hm.sound_ins)
  show "hm.sound (\<lambda>c k. in_range s c \<and> (if c = b then Some h else block_hash (blk s c)) = Some k) m"
    by (rule hm.sound_weaken [OF assms(1)]) (use assms(2) in auto)
qed (use assms(3) in simp)

text \<open>Populating a block in transit and registering it.\<close>

lemma populate_inv:
  assumes "manager_inv {b} t" "clean t b"
  shows "manager_inv {} (populate rt h payload n parent admitted nbytes b t)"
    and "0 < ref_count (blk (populate rt h payload n parent admitted nbytes b t) b)"
    and "block_hash (blk (populate rt h payload n parent admitted nbytes b t) b) = Some h"
    and "i \<noteq> b \<Longrightarrow> blk (populate rt h payload n parent admitted nbytes b t) i = blk t i"
    and "config_view (populate rt h payload n parent admitted nbytes b t) = config_view t"
proof -
  have inv: "pool_inv {b} t" "index_inv t" "bytes_inv t" using assms(1) by (simp_all add: manager_inv_def)
  have b: "in_range t b" using pool_invD(10) [OF inv(1)] unreferenced_in_range by blast
  define t1 where "t1 = upd_blk t b (promoted_block rt h payload n parent admitted)"
  define t2 where "t2 = (if enforces_byte_budget t1 then note_resident b nbytes t1 else t1)"
  define t3 where "t3 = (if cache_data_transient (blk t2 b) then note_transient t2 else t2)"
  define t4 where "t4 = t3\<lparr>allocated_blocks := pd_set (allocated_blocks t3) b b, hash_cache := hm_insert (hash_cache t3) h b\<rparr>"
  have pop: "populate rt h payload n parent admitted nbytes b t = count_out 1 t4"
    by (simp add: populate_def Let_def t1_def t2_def t3_def t4_def)
  have blk_t2: "blk t2 i = (if i = b then (blk t2 b) else blk t i)" for i
    by (simp add: t2_def t1_def note_resident_def Let_def)
  have fb: "ref_count (blk t2 b) = 1" "block_hash (blk t2 b) = Some h" "is_null (blk t2 b) = is_null (blk t b)"
    "prev_free_block (blk t2 b) = prev_free_block (blk t b)" "next_free_block (blk t2 b) = next_free_block (blk t b)"
    by (simp_all add: t2_def t1_def note_resident_def Let_def)
  have rest: "num_free_blocks t3 = num_free_blocks t" "allocated_blocks t3 = allocated_blocks t" "stats t3 = stats t"
    "config_view t3 = config_view t" "hash_cache t3 = hash_cache t" "blk t3 = blk t2" "resident_bytes t3 = resident_bytes t2"
    by (simp_all add: t3_def t2_def t1_def note_resident_def note_transient_def Let_def config_view_def upd_blk_def)
  have mb: "max_blocks t3 = max_blocks t" "null_block t3 = null_block t"
    using rest(4) by (simp_all add: config_view_def)
  show cfg: "config_view (populate rt h payload n parent admitted nbytes b t) = config_view t"
    using rest(4) unfolding pop by (simp add: t4_def)
  show "0 < ref_count (blk (populate rt h payload n parent admitted nbytes b t) b)"
    "block_hash (blk (populate rt h payload n parent admitted nbytes b t) b) = Some h"
    using fb unfolding pop by (simp_all add: t4_def rest)
  show "blk (populate rt h payload n parent admitted nbytes b t) i = blk t i" if "i \<noteq> b"
    using that blk_t2 [of i] unfolding pop by (simp add: t4_def rest)
  have bytes: "bytes_inv t2"
  proof -
    have "bytes_inv t1 = bytes_inv t"
    proof -
      have "block_resident_bytes (blk t1 i) = block_resident_bytes (blk t i)" for i by (simp add: t1_def)
      then show ?thesis by (simp add: bytes_inv_def) (simp add: t1_def)
    qed
    moreover have "quiet t1 (note_resident b nbytes t1)"
      by (rule note_resident_quiet) (use b in \<open>simp add: t1_def in_range_def\<close>)
    ultimately show ?thesis using inv(3) by (auto simp: t2_def quiet_def)
  qed
  have pool: "pool_inv {} (count_out 1 t4)"
  proof -
    let ?g = "\<lambda>x. (blk t2 b)\<lparr>block_hash := block_hash x, block_resident_bytes := block_resident_bytes x\<rparr>"
    let ?v = "(count_out 1 (upd_blk t b ?g))\<lparr>allocated_blocks := pd_set (allocated_blocks t) b b\<rparr>"
    have "manager_inv {} ?v"
      by (rule activate_inv [of b "{}" t ?g]) (use assms(1) fb in \<open>simp_all add: count_out_def upd_stats_def\<close>)
    moreover have "same_pool ?v (count_out 1 t4)"
      unfolding same_pool_def
    proof (intro conjI allI)
      show "link_view (blk (count_out 1 t4) i) = link_view (blk ?v i)" for i
        using blk_t2 [of i] fb by (cases "i = b") (simp_all add: t4_def rest link_view_def)
      show "config_view (count_out 1 t4) = config_view ?v" by (simp add: t4_def rest)
    qed (simp_all add: t4_def rest count_out_def upd_stats_def)
    ultimately show ?thesis using same_pool_inv by (auto simp: manager_inv_def)
  qed
  have "index_inv (count_out 1 t4)"
  proof -
    have "block_hash (blk t2 i) = (if i = b then Some h else block_hash (blk t i))" for i
      using blk_t2 [of i] fb(2) by (simp split: if_splits)
    then have "hm.sound (\<lambda>c k. in_range t c \<and> block_hash (blk t2 c) = Some k) (hm_insert (hash_cache t) h b)"
      using index_insert [of t "hash_cache t" b h] inv(2) assms(2) b by (simp add: index_inv_def clean_def)
    then show ?thesis by (simp add: index_inv_def t4_def rest in_range_def mb)
  qed
  moreover have "bytes_inv (count_out 1 t4)"
  proof -
    have "max_blocks t2 = max_blocks t" by (simp add: t2_def t1_def note_resident_def Let_def)
    then show ?thesis using bytes by (simp add: bytes_inv_def t4_def rest mb)
  qed
  ultimately show "manager_inv {} (populate rt h payload n parent admitted nbytes b t)" using pool unfolding pop by (simp add: manager_inv_def)
qed

end
