(* ===== verification/Paged_Lookup.thy ===== *)
theory Paged_Lookup
  imports Paged_Prefix
begin

text \<open>
  \<open>vmlx_engine/paged_cache.py\<close>: what the prefix lookup finds.  Every operation on the prefix caches
  keeps the manager's invariants; the blocks of a lookup carry the chain hashes of the prefix asked
  for; what was registered is found again; the legacy search ends, or does not.
\<close>

section \<open>Probing\<close>

lemma promote_from_disk_probed:
  assumes "manager_inv {} s"
  shows "probed h s (fst (promote_from_disk rt h payload n parent s)) (snd (promote_from_disk rt h payload n parent s))"
proof -
  let ?nb = "estimate_block_nbytes payload"
  obtain a s1 where a: "promote_admission rt ?nb s = (a, s1)" by fastforce
  have inv1: "manager_inv {} s1" and d1: "undisturbed {} s s1"
    using promote_admission_inv [OF assms, of rt ?nb] a by simp_all
  have k1: "keeps s s1" by (rule keeps_undisturbed [OF d1])
  show ?thesis
  proof (cases "num_free_blocks s1 = 0")
    case True
    then show ?thesis using a inv1 k1 by (simp add: promote_from_disk_def Let_def probed_def)
  next
    case False
    obtain r t where p: "pop_recyclable_free_block rt s1 = (r, t)" by fastforce
    have P: "popped {} s1 r t" using pop_recyclable_inv [OF inv1, of rt] p by simp
    then have "undisturbed {} s1 t" by (simp add: popped_def)
    then have kt: "keeps s t" using keeps_trans [OF k1 keeps_undisturbed] by blast
    show ?thesis
    proof (cases r)
      case (Inl e)
      with P show ?thesis by (simp add: popped_def)
    next
      case (Inr ob)
      show ?thesis
      proof (cases ob)
        case None
        then show ?thesis using a p P Inr False kt
          by (simp add: promote_from_disk_def Let_def probed_def popped_def)
      next
        case (Some b)
        with P Inr have b: "b \<in> unreferenced s1" "manager_inv {b} t" "clean t b" by (simp_all add: popped_def)
        let ?u = "populate rt h payload n parent a ?nb b t"
        note pop = populate_inv [OF b(2,3), where rt = rt and h = h and payload = payload and n = n and parent = parent
          and admitted = a and nbytes = ?nb]
        have ref0: "ref_count (blk t b) = 0"
          using b(2) pool_invD(10) [of "{b}" t] unreferenced_in_range [of b t] by (simp add: manager_inv_def)
        have "keeps t ?u"
          unfolding keeps_def
        proof (intro conjI allI impI)
          fix i assume "0 < ref_count (blk t i)"
          then have "i \<noteq> b" using ref0 by auto
          then show "ref_count (blk t i) \<le> ref_count (blk ?u i)" "block_hash (blk ?u i) = block_hash (blk t i)"
            "cache_data (blk ?u i) = cache_data (blk t i)" "token_count (blk ?u i) = token_count (blk t i)"
            by (simp_all add: pop(4))
        qed (rule pop(5))
        then have "keeps s ?u" using keeps_trans [OF kt] by blast
        moreover have "in_range s b" using unreferenced_in_range [OF b(1)] keeps_range [OF k1] by simp
        moreover have "promote_from_disk rt h payload n parent s = (Inr (Some b), ?u)"
          using a p Inr Some False by (simp add: promote_from_disk_def Let_def)
        ultimately show ?thesis using pop(1-3) by (simp add: probed_def)
      qed
    qed
  qed
qed

lemma probed_quiet:
  assumes "probed h s (Inr r) t" "quiet t u" "blk u = blk t"
  shows "probed h s (Inr r) u"
proof -
  have "config_view u = config_view t" using assms(2) by (simp add: quiet_def same_pool_def)
  then have "keeps t u" using assms(3) by (simp add: keeps_def)
  then show ?thesis
    using assms quiet_inv keeps_trans by (auto simp: probed_def split: option.splits)
qed

lemma probed_from:
  "probed h s1 r t \<Longrightarrow> keeps s s1 \<Longrightarrow> probed h s r t"
  using keeps_trans [of s s1 t] keeps_range [of s s1] by (auto simp: probed_def split: sum.splits option.splits)

lemma probe_block_probed:
  assumes "manager_inv {} s"
  shows "probed h s (fst (probe_block rt h n parent s)) (snd (probe_block rt h n parent s))"
proof (cases "hm_get_block (hash_cache s) h")
  case (Some b)
  then show ?thesis using touch_hit [OF assms Some] by (simp add: probe_block_def)
next
  case None
  show ?thesis
  proof (cases "disk_store s")
    case None2: None
    then show ?thesis using None assms by (simp add: probe_block_def probed_def)
  next
    case (Some ops)
    obtain found ds where r: "op_read_block ops (disk_state s) h = (found, ds)" by fastforce
    let ?s1 = "s\<lparr>disk_state := ds\<rparr>"
    have q: "quiet s ?s1" by (rule quiet_rest) simp_all
    then have inv1: "manager_inv {} ?s1" using quiet_inv assms by blast
    have k1: "keeps s ?s1" by (simp add: keeps_def)
    show ?thesis
    proof (cases found)
      case None3: None
      then show ?thesis using None Some r inv1 k1 by (simp add: probe_block_def probed_def)
    next
      case (Some payload)
      obtain x t where p: "promote_from_disk rt h payload n parent ?s1 = (x, t)" by fastforce
      have P: "probed h ?s1 x t" using promote_from_disk_probed [OF inv1, of h rt payload n parent] p by simp
      then obtain ob where x: "x = Inr ob" by (cases x) (auto simp: probed_def)
      have "probe_block rt h n parent s = (Inr ob, case ob of None \<Rightarrow> t
          | Some b \<Rightarrow> upd_stats t (\<lambda>st. st\<lparr>disk_hits := disk_hits st + 1\<rparr>))"
        using None Some \<open>disk_store s = Some ops\<close> r p x
        by (simp add: probe_block_def split: option.split)
      moreover have "quiet t (upd_stats t (\<lambda>st. st\<lparr>disk_hits := disk_hits st + 1\<rparr>))"
        by (rule quiet_stats) simp_all
      then have "probed h ?s1 (Inr ob) (case ob of None \<Rightarrow> t
          | Some b \<Rightarrow> upd_stats t (\<lambda>st. st\<lparr>disk_hits := disk_hits st + 1\<rparr>))"
        using P x probed_quiet [of h ?s1 ob t "upd_stats t (\<lambda>st. st\<lparr>disk_hits := disk_hits st + 1\<rparr>)"]
        by (auto split: option.split)
      ultimately show ?thesis using probed_from [OF _ k1] by simp
    qed
  qed
qed

lemma count_quiet [simp]: "quiet s (count_hit s)" "quiet s (count_miss s)"
  by (simp_all add: count_hit_def count_miss_def quiet_stats)

lemma count_fields [simp]:
  "blk (count_hit s) = blk s" "blk (count_miss s) = blk s" "hash_cache (count_hit s) = hash_cache s"
  "config_view (count_hit s) = config_view s" "config_view (count_miss s) = config_view s"
  "partial_block_sizes (count_hit s) = partial_block_sizes s" "block_size (count_hit s) = block_size s"
  by (simp_all add: count_hit_def count_miss_def)

lemma in_range_count [simp]: "in_range (count_hit s) = in_range s" "in_range (count_miss s) = in_range s"
  by (simp_all add: fun_eq_iff in_range_def count_hit_def count_miss_def)

lemma keeps_count [simp]: "keeps s (count_hit s)" "keeps s (count_miss s)"
  by (simp_all add: keeps_def)

lemma probe_sizes_probed:
  assumes "manager_inv {} s"
  shows "\<exists>r t. probe_sizes rt ts extra start parent ns s = (Inr r, t) \<and> manager_inv {} t \<and> keeps s t \<and>
    (case r of None \<Rightarrow> True
     | Some (b, n) \<Rightarrow> n \<in> set ns \<and> in_range s b \<and> 0 < ref_count (blk t b) \<and>
         block_hash (blk t b) = Some (range_block_hash rt parent (take n (drop start ts)) extra start (start + n)))"
  using assms
proof (induction ns arbitrary: s)
  case (Cons n ns)
  let ?h = "range_block_hash rt parent (take n (drop start ts)) extra start (start + n)"
  obtain x t where p: "probe_block rt ?h (int n) parent s = (x, t)" by fastforce
  have P: "probed ?h s x t" using probe_block_probed [OF Cons.prems, of ?h rt "int n" parent] p by simp
  then obtain ob where x: "x = Inr ob" by (cases x) (auto simp: probed_def)
  show ?case
  proof (cases ob)
    case None
    with P x have "manager_inv {} t" and kt: "keeps s t" by (simp_all add: probed_def)
    from Cons.IH [OF this(1)] obtain r u where u: "probe_sizes rt ts extra start parent ns t = (Inr r, u)"
      "manager_inv {} u" "keeps t u"
      "case r of None \<Rightarrow> True
       | Some (b, n) \<Rightarrow> n \<in> set ns \<and> in_range t b \<and> 0 < ref_count (blk u b) \<and>
         block_hash (blk u b) = Some (range_block_hash rt parent (take n (drop start ts)) extra start (start + n))"
      by blast
    then show ?thesis
      using p x None keeps_trans [OF kt u(3)] keeps_range [OF kt]
      by (intro exI [of _ r] exI [of _ u]) (auto simp: Let_def split: option.splits)
  next
    case (Some b)
    then show ?thesis using p x P by (intro exI [of _ "Some (b, n)"] exI [of _ t]) (simp add: Let_def probed_def)
  qed
qed simp

section \<open>The chain hashes of a prefix\<close>

text \<open>The hash of the first \<open>k\<close> full blocks of \<open>ts\<close>.\<close>

fun prefix_hash :: "runtime \<Rightarrow> nat \<Rightarrow> int list \<Rightarrow> pyval \<Rightarrow> nat \<Rightarrow> string option" where
  "prefix_hash rt sz ts extra 0 = None"
| "prefix_hash rt sz ts extra (Suc k) =
     Some (range_block_hash rt (prefix_hash rt sz ts extra k) (take sz (drop (k * sz) ts)) extra
       (k * sz) (k * sz + sz))"

text \<open>
  Blocks \<open>bs\<close> carry, in order, the hashes of the full blocks of \<open>ts\<close>, and are referenced.
\<close>

definition full_match :: "runtime \<Rightarrow> nat \<Rightarrow> int list \<Rightarrow> pyval \<Rightarrow> int list \<Rightarrow> 'ds manager \<Rightarrow> bool" where
  "full_match rt sz ts extra bs s \<longleftrightarrow> (\<forall>j < length bs. in_range s (bs ! j) \<and> 0 < ref_count (blk s (bs ! j)) \<and>
     block_hash (blk s (bs ! j)) = prefix_hash rt sz ts extra (Suc j))"

text \<open>A block that ends a match with \<open>m\<close> tokens after the full blocks \<open>bs\<close>.\<close>

definition partial_match :: "runtime \<Rightarrow> nat \<Rightarrow> int list \<Rightarrow> pyval \<Rightarrow> nat \<Rightarrow> int \<Rightarrow> nat \<Rightarrow> 'ds manager \<Rightarrow> bool" where
  "partial_match rt sz ts extra k b m s \<longleftrightarrow> 0 < m \<and> m < sz \<and> k * sz + m \<le> length ts \<and>
     in_range s b \<and> 0 < ref_count (blk s b) \<and>
     block_hash (blk s b) = Some (range_block_hash rt (prefix_hash rt sz ts extra k)
       (take m (drop (k * sz) ts)) extra (k * sz) (k * sz + m))"

lemma keeps_full_match: "keeps s t \<Longrightarrow> full_match rt sz ts extra bs s \<Longrightarrow> full_match rt sz ts extra bs t"
  using keeps_range [of s t] by (fastforce simp: full_match_def keeps_def)

lemma full_match_snoc:
  "full_match rt sz ts extra (bs @ [b]) s \<longleftrightarrow> full_match rt sz ts extra bs s \<and> in_range s b \<and>
     0 < ref_count (blk s b) \<and> block_hash (blk s b) = prefix_hash rt sz ts extra (Suc (length bs))"
  by (auto simp: full_match_def nth_append less_Suc_eq)

lemma keeps_block_size: "keeps s t \<Longrightarrow> block_size t = block_size s"
  by (simp add: keeps_def config_view_def)

lemma fallback_sizes_mem:
  "m \<in> set (fallback_sizes ts start s) \<Longrightarrow> 0 < m \<and> m < nat (block_size s) \<and> start + m \<le> length ts"
  by (auto simp: fallback_sizes_def)

lemma computed_loop_sound:
  assumes "manager_inv {} s" "full_match rt (nat (block_size s)) ts extra bs s" "1 \<le> block_size s"
  shows "\<exists>bs' parent n returned t.
    computed_loop rt ts extra k (length bs) bs (prefix_hash rt (nat (block_size s)) ts extra (length bs))
      (length bs * nat (block_size s)) s = (Inr (bs', parent, n, returned), t) \<and>
    manager_inv {} t \<and> keeps s t \<and>
    (if returned then \<exists>cs b m. bs' = cs @ [b] \<and> full_match rt (nat (block_size s)) ts extra cs t \<and>
         partial_match rt (nat (block_size s)) ts extra (length cs) b m t \<and> n = length cs * nat (block_size s) + m
     else full_match rt (nat (block_size s)) ts extra bs' t \<and> n = length bs' * nat (block_size s) \<and>
         parent = prefix_hash rt (nat (block_size s)) ts extra (length bs') \<and> length bs' \<le> length bs + k)"
  using assms
proof (induction k arbitrary: bs s)
  case 0
  then show ?case
    by (intro exI [of _ bs] exI [of _ "prefix_hash rt (nat (block_size s)) ts extra (length bs)"]
        exI [of _ "length bs * nat (block_size s)"] exI [of _ False] exI [of _ s]) simp
next
  case (Suc k)
  define sz where "sz = nat (block_size s)"
  let ?i = "length bs"
  let ?bts = "take sz (drop (?i * sz) ts)"
  let ?par = "prefix_hash rt sz ts extra ?i"
  let ?h = "range_block_hash rt ?par ?bts extra (?i * sz) (?i * sz + sz)"
  obtain x t where p: "probe_block rt ?h (int (length ?bts)) ?par s = (x, t)" by fastforce
  have P: "probed ?h s x t" using probe_block_probed [OF Suc.prems(1), of ?h rt "int (length ?bts)" ?par] p by simp
  then obtain ob where x: "x = Inr ob" by (cases x) (auto simp: probed_def)
  have inv: "manager_inv {} t" and kt: "keeps s t" using P by (simp_all add: probed_def)
  have bst: "block_size t = block_size s" using keeps_block_size [OF kt] .
  have fm: "full_match rt sz ts extra bs t" using keeps_full_match [OF kt] Suc.prems(2) by (simp add: sz_def)
  show ?case
  proof (cases ob)
    case (Some b)
    let ?c = "count_hit t"
    have fm': "full_match rt sz ts extra (bs @ [b]) ?c"
      using P x Some keeps_full_match [OF keeps_count(1) fm] keeps_range [OF kt]
      by (simp add: full_match_snoc probed_def)
    have invc: "manager_inv {} ?c" using quiet_inv [OF count_quiet(1) inv] .
    have bsc: "nat (block_size ?c) = sz" using bst by (simp add: sz_def)
    have one: "1 \<le> block_size ?c" using Suc.prems(3) bst by simp
    obtain bs' parent n returned u where u:
      "computed_loop rt ts extra k (length (bs @ [b])) (bs @ [b]) (prefix_hash rt sz ts extra (length (bs @ [b])))
        (length (bs @ [b]) * sz) ?c = (Inr (bs', parent, n, returned), u)"
      "manager_inv {} u" "keeps ?c u"
      "if returned then \<exists>cs b m. bs' = cs @ [b] \<and> full_match rt sz ts extra cs u \<and>
         partial_match rt sz ts extra (length cs) b m u \<and> n = length cs * sz + m
       else full_match rt sz ts extra bs' u \<and> n = length bs' * sz \<and>
         parent = prefix_hash rt sz ts extra (length bs') \<and> length bs' \<le> length (bs @ [b]) + k"
      using Suc.IH [OF invc, of "bs @ [b]", unfolded bsc, OF fm' one] by blast
    have "computed_loop rt ts extra (Suc k) ?i bs ?par (?i * sz) s = (Inr (bs', parent, n, returned), u)"
      using p x Some u(1) by (simp add: Let_def sz_def [symmetric] add.commute)
    moreover have "keeps s u" using keeps_trans [OF kt keeps_trans [OF keeps_count(1) u(3)]] .
    ultimately show ?thesis
      using u(2,4) unfolding sz_def [symmetric]
      by (intro exI [of _ bs'] exI [of _ parent] exI [of _ n] exI [of _ returned] exI [of _ u]) (auto simp del: computed_loop.simps)
  next
    case None
    let ?ns = "fallback_sizes ts (?i * sz) t"
    obtain r u where r: "probe_sizes rt ts extra (?i * sz) ?par ?ns t = (Inr r, u)" "manager_inv {} u" "keeps t u"
      "case r of None \<Rightarrow> True
       | Some (b, m) \<Rightarrow> m \<in> set ?ns \<and> in_range t b \<and> 0 < ref_count (blk u b) \<and>
         block_hash (blk u b) = Some (range_block_hash rt ?par (take m (drop (?i * sz) ts)) extra (?i * sz) (?i * sz + m))"
      using probe_sizes_probed [OF inv] by blast
    have ku: "keeps s u" using keeps_trans [OF kt r(3)] .
    have fmu: "full_match rt sz ts extra bs u" by (rule keeps_full_match [OF r(3) fm])
    show ?thesis
    proof (cases r)
      case None2: None
      have "computed_loop rt ts extra (Suc k) ?i bs ?par (?i * sz) s = (Inr (bs, ?par, ?i * sz, False), count_miss u)"
        using p x None r(1) None2 by (simp add: Let_def sz_def [symmetric])
      moreover have "manager_inv {} (count_miss u)" using quiet_inv [OF count_quiet(2) r(2)] .
      moreover have "keeps s (count_miss u)" "full_match rt sz ts extra bs (count_miss u)"
        using keeps_trans [OF ku keeps_count(2)] keeps_full_match [OF keeps_count(2) fmu] by simp_all
      ultimately show ?thesis unfolding sz_def [symmetric]
        by (intro exI [of _ bs] exI [of _ ?par] exI [of _ "?i * sz"] exI [of _ False] exI [of _ "count_miss u"]) (simp del: computed_loop.simps)
    next
      case (Some bm)
      obtain b m where bm: "bm = (b, m)" by (cases bm)
      have m: "0 < m" "m < sz" "?i * sz + m \<le> length ts"
        using r(4) Some bm bst fallback_sizes_mem [of m ts "?i * sz" t] by (simp_all add: sz_def)
      have "partial_match rt sz ts extra ?i b m (count_hit u)"
        using r(4) Some bm m keeps_range [OF r(3)]
        by (simp add: partial_match_def)
      moreover have "computed_loop rt ts extra (Suc k) ?i bs ?par (?i * sz) s =
          (Inr (bs @ [b], ?par, ?i * sz + m, True), count_hit u)"
        using p x None r(1) Some bm by (simp add: Let_def sz_def [symmetric])
      moreover have "manager_inv {} (count_hit u)" using quiet_inv [OF count_quiet(1) r(2)] .
      moreover have "keeps s (count_hit u)" "full_match rt sz ts extra bs (count_hit u)"
        using keeps_trans [OF ku keeps_count(1)] keeps_full_match [OF keeps_count(1) fmu] by simp_all
      ultimately show ?thesis unfolding sz_def [symmetric]
        by (intro exI [of _ "bs @ [b]"] exI [of _ ?par] exI [of _ "?i * sz + m"] exI [of _ True] exI [of _ "count_hit u"]) (auto simp del: computed_loop.simps)
    qed
  qed
qed

text \<open>What \<open>get_computed_blocks\<close> answers.\<close>

definition prefix_found :: "runtime \<Rightarrow> nat \<Rightarrow> int list \<Rightarrow> pyval \<Rightarrow> int list \<Rightarrow> int \<Rightarrow> 'ds manager \<Rightarrow> bool" where
  "prefix_found rt sz ts extra bs n t \<longleftrightarrow>
     full_match rt sz ts extra bs t \<and> n = int (length bs * sz) \<or>
     (\<exists>cs b m. bs = cs @ [b] \<and> full_match rt sz ts extra cs t \<and> partial_match rt sz ts extra (length cs) b m t \<and>
        (n = int (length cs * sz + m) \<or> n = int (length cs * sz) + token_count (blk t b)))"

lemma get_computed_blocks_found:
  assumes "manager_inv {} s" "1 \<le> block_size s"
  shows "\<exists>bs n t. get_computed_blocks rt ts extra s = (Inr (bs, n), t) \<and> manager_inv {} t \<and> keeps s t \<and>
    prefix_found rt (nat (block_size s)) ts extra bs n t"
proof (cases "enable_caching s")
  case False
  then show ?thesis using assms
    by (intro exI [of _ "[]"] exI [of _ 0] exI [of _ s]) (simp add: get_computed_blocks_def prefix_found_def full_match_def)
next
  case True
  define sz where "sz = nat (block_size s)"
  let ?k = "length ts div sz"
  have sz: "0 < sz" using assms(2) by (simp add: sz_def)
  have "full_match rt sz ts extra [] s" by (simp add: full_match_def)
  then obtain bs parent n returned t where t:
    "computed_loop rt ts extra ?k 0 [] None 0 s = (Inr (bs, parent, n, returned), t)" "manager_inv {} t" "keeps s t"
    "if returned then \<exists>cs b m. bs = cs @ [b] \<and> full_match rt sz ts extra cs t \<and>
         partial_match rt sz ts extra (length cs) b m t \<and> n = length cs * sz + m
     else full_match rt sz ts extra bs t \<and> n = length bs * sz \<and> parent = prefix_hash rt sz ts extra (length bs) \<and> length bs \<le> ?k"
    using computed_loop_sound [OF assms(1) _ assms(2), of rt ts extra "[]" ?k]
    unfolding sz_def [symmetric] list.size(3) add_0 mult_0 prefix_hash.simps(1) by blast
  let ?rest = "length ts - n"
  show ?thesis
  proof (cases "returned \<or> ?rest = 0 \<or> int ?rest \<ge> block_size t")
    case stop: True
    have "get_computed_blocks rt ts extra s = (Inr (bs, int n), t)"
      using True t(1) stop by (simp add: get_computed_blocks_def sz_def [symmetric] Let_def)
    moreover have "prefix_found rt sz ts extra bs (int n) t"
      using t(4) by (auto simp: prefix_found_def split: if_splits)
    ultimately show ?thesis using t(2,3) unfolding sz_def [symmetric] by blast
  next
    case more: False
    then have nr: "full_match rt sz ts extra bs t" "n = length bs * sz" "parent = prefix_hash rt sz ts extra (length bs)"
      using t(4) by simp_all
    have lt: "int (length ts) - int n < block_size t" "\<not> length ts \<le> n" "\<not> returned"
      using more by (auto simp: of_nat_diff)
    have rest: "0 < ?rest" "?rest < sz" using more keeps_block_size [OF t(3)] by (auto simp: sz_def)
    obtain r u where r: "probe_sizes rt ts extra n parent (trailing_sizes ?rest t) t = (Inr r, u)" "manager_inv {} u" "keeps t u"
      "case r of None \<Rightarrow> True
       | Some (b, m) \<Rightarrow> m \<in> set (trailing_sizes ?rest t) \<and> in_range t b \<and> 0 < ref_count (blk u b) \<and>
         block_hash (blk u b) = Some (range_block_hash rt parent (take m (drop n ts)) extra n (n + m))"
      using probe_sizes_probed [OF t(2)] by blast
    have fmu: "full_match rt sz ts extra bs u" by (rule keeps_full_match [OF r(3) nr(1)])
    have ku: "keeps s u" using keeps_trans [OF t(3) r(3)] .
    show ?thesis
    proof (cases r)
      case None
      have "get_computed_blocks rt ts extra s = (Inr (bs, int n), u)"
        using True t(1) lt r(1) None by (simp add: get_computed_blocks_def sz_def [symmetric] Let_def)
      moreover have "prefix_found rt sz ts extra bs (int n) u"
        using fmu nr(2) by (simp add: prefix_found_def)
      ultimately show ?thesis using r(2) ku unfolding sz_def [symmetric] by blast
    next
      case (Some bm)
      obtain b m where bm: "bm = (b, m)" by (cases bm)
      have "m = ?rest \<or> 0 < m \<and> m \<le> ?rest" using r(4) Some bm by (auto simp: trailing_sizes_def)
      then have m: "0 < m" "m < sz" "n + m \<le> length ts" using rest by auto
      have pm: "partial_match rt sz ts extra (length bs) b m (count_hit u)"
        using r(4) Some bm m nr(2,3) keeps_range [OF r(3)] by (simp add: partial_match_def)
      have "get_computed_blocks rt ts extra s = (Inr (bs @ [b], int n + token_count (blk u b)), count_hit u)"
        using True t(1) lt r(1) Some bm by (simp add: get_computed_blocks_def sz_def [symmetric] Let_def)
      moreover have "prefix_found rt sz ts extra (bs @ [b]) (int n + token_count (blk u b)) (count_hit u)"
        unfolding prefix_found_def
        using pm keeps_full_match [OF keeps_count(1) fmu] nr(2)
        by (intro disjI2 exI [of _ bs] exI [of _ b] exI [of _ m]) simp
      moreover have "keeps s (count_hit u)" using keeps_trans [OF ku keeps_count(1)] .
      ultimately show ?thesis using quiet_inv [OF count_quiet(1) r(2)] unfolding sz_def [symmetric] by blast
    qed
  qed
qed

section \<open>Registration\<close>

lemma register_full_block_fields:
  "i \<noteq> b \<Longrightarrow> blk (register_full_block rt parent ts h b s) i = blk s i"
  "block_hash (blk (register_full_block rt parent ts h b s) b) = Some h"
  "link_view (blk (register_full_block rt parent ts h b s) i) = link_view (blk s i)"
  "block_resident_bytes (blk (register_full_block rt parent ts h b s) i) = block_resident_bytes (blk s i)"
  "hash_cache (register_full_block rt parent ts h b s) = hm_insert (hash_cache s) h b"
  "num_free_blocks (register_full_block rt parent ts h b s) = num_free_blocks s"
  "allocated_blocks (register_full_block rt parent ts h b s) = allocated_blocks s"
  "stats (register_full_block rt parent ts h b s) = stats s"
  "resident_bytes (register_full_block rt parent ts h b s) = resident_bytes s"
  "config_view (register_full_block rt parent ts h b s) = config_view s"
  by (simp_all add: register_full_block_def Let_def upd_blk_def link_view_def config_view_def)

lemma config_fields:
  assumes "config_view t = config_view s"
  shows "block_size t = block_size s" "max_blocks t = max_blocks s" "enable_caching t = enable_caching s"
    "in_range t = in_range s"
  using assms by (auto simp: config_view_def in_range_def fun_eq_iff)

lemma register_full_block_inv:
  assumes "manager_inv {} s" "in_range s b" "block_hash (blk s b) = None"
  shows "manager_inv {} (register_full_block rt parent ts h b s)"
proof -
  let ?t = "register_full_block rt parent ts h b s"
  note F = register_full_block_fields [where b = b and rt = rt and parent = parent and ts = ts and h = h and s = s]
  note C = config_fields [OF F(10)]
  have "same_pool s ?t" using F by (simp add: same_pool_def)
  moreover have "index_inv ?t"
  proof -
    have "block_hash (blk ?t i) = (if i = b then Some h else block_hash (blk s i))" for i
      using F(1,2) by (cases "i = b") simp_all
    then show ?thesis
      using index_insert [of s "hash_cache s" b h] assms C by (simp add: manager_inv_def index_inv_def F(5))
  qed
  moreover have "bytes_inv ?t" using assms(1) F(4,9) C by (simp add: manager_inv_def bytes_inv_def)
  ultimately show ?thesis using assms(1) same_pool_inv by (auto simp: manager_inv_def)
qed

lemma cache_full_loop_inv:
  "manager_inv {} s \<Longrightarrow> \<forall>b \<in> set blocks. in_range s b \<Longrightarrow> manager_inv {} (snd (cache_full_loop rt blocks ts extra k i parent s))"
proof (induction k arbitrary: i parent s)
  case (Suc k)
  show ?case
  proof (cases "length blocks \<le> i \<or> block_hash (blk s (blocks ! i)) \<noteq> None")
    case True
    then show ?thesis using Suc by (auto split: option.split)
  next
    case False
    let ?st = "i * nat (block_size s)"
    let ?bts = "take (nat (block_size s)) (drop ?st ts)"
    let ?h = "range_block_hash rt parent ?bts extra ?st (?st + nat (block_size s))"
    let ?t = "register_full_block rt parent ?bts ?h (blocks ! i) s"
    have "manager_inv {} ?t" using Suc.prems False by (intro register_full_block_inv) simp_all
    moreover have "in_range ?t = in_range s" by (rule config_fields) (rule register_full_block_fields)
    ultimately show ?thesis using Suc.IH [of ?t] Suc.prems(2) False by (simp add: Let_def)
  qed
qed simp

lemma cache_full_blocks_inv:
  "manager_inv {} s \<Longrightarrow> \<forall>b \<in> set blocks. in_range s b \<Longrightarrow> manager_inv {} (snd (cache_full_blocks rt blocks ts c f extra s))"
  by (simp add: cache_full_blocks_def cache_full_loop_inv)

definition indexed :: "'ds manager \<Rightarrow> string option \<Rightarrow> bool" where
  "indexed s h \<longleftrightarrow> (\<exists>k. h = Some k \<and> hm_get_block (hash_cache s) k \<noteq> None)"

lemma hm_insert_indexed:
  "hm_ok m \<Longrightarrow> hm_get_block m k \<noteq> None \<Longrightarrow> hm_get_block (hm_insert m h b) k \<noteq> None"
  "hm_ok m \<Longrightarrow> hm_get_block (hm_insert m h b) h \<noteq> None"
  by (auto simp: hm_get_block_ids hm_insert_ids)

lemma cache_full_loop_indexed:
  assumes "manager_inv {} s" "\<forall>b \<in> set blocks. in_range s b" "distinct blocks" "i + k \<le> length blocks"
    and "\<forall>j. i \<le> j \<longrightarrow> j < length blocks \<longrightarrow> block_hash (blk s (blocks ! j)) = None"
    and "parent = prefix_hash rt (nat (block_size s)) ts extra i" "\<forall>j \<le> i. 0 < j \<longrightarrow> indexed s (prefix_hash rt (nat (block_size s)) ts extra j)"
  shows "\<exists>t. cache_full_loop rt blocks ts extra k i parent s = (Inr (), t) \<and> config_view t = config_view s \<and>
    (\<forall>j \<le> i + k. 0 < j \<longrightarrow> indexed t (prefix_hash rt (nat (block_size s)) ts extra j))"
  using assms
proof (induction k arbitrary: i parent s)
  case (Suc k)
  define sz where "sz = nat (block_size s)"
  let ?b = "blocks ! i"
  let ?bts = "take sz (drop (i * sz) ts)"
  let ?h = "range_block_hash rt parent ?bts extra (i * sz) (i * sz + sz)"
  let ?t = "register_full_block rt parent ?bts ?h ?b s"
  have i: "i < length blocks" using Suc.prems(4) by simp
  have none: "block_hash (blk s ?b) = None" using Suc.prems(5) i by simp
  note F = register_full_block_fields [where b = ?b and rt = rt and parent = parent and ts = ?bts and h = ?h and s = s]
  note C = config_fields [OF F(10)]
  have h: "Some ?h = prefix_hash rt sz ts extra (Suc i)" using Suc.prems(6) by (simp add: sz_def)
  have ok: "hm_ok (hash_cache s)" using Suc.prems(1) by (simp add: manager_inv_def index_inv_def hm.sound_def)
  have inv: "manager_inv {} ?t" by (rule register_full_block_inv) (use Suc.prems(1,2) i none in simp_all)
  have idx: "\<forall>j \<le> Suc i. 0 < j \<longrightarrow> indexed ?t (prefix_hash rt sz ts extra j)"
  proof (intro allI impI)
    fix j assume "j \<le> Suc i" "0 < j"
    then consider "j \<le> i" | "j = Suc i" by linarith
    then show "indexed ?t (prefix_hash rt sz ts extra j)"
    proof cases
      case 1
      then have "indexed s (prefix_hash rt sz ts extra j)" using Suc.prems(7) \<open>0 < j\<close> by (simp add: sz_def)
      then show ?thesis using hm_insert_indexed(1) [OF ok] by (auto simp: indexed_def F(5))
    next
      case 2
      have "indexed ?t (Some ?h)" using hm_insert_indexed(2) [OF ok, of ?h ?b] by (simp add: indexed_def F(5))
      then show ?thesis by (rule subst [OF h, of "indexed ?t", folded 2])
    qed
  qed
  have others: "\<forall>j. Suc i \<le> j \<longrightarrow> j < length blocks \<longrightarrow> block_hash (blk ?t (blocks ! j)) = None"
    using Suc.prems(3,5) i F(1) by (simp add: nth_eq_iff_index_eq)
  have szt: "nat (block_size ?t) = sz" using C(1) by (simp add: sz_def)
  have "\<exists>u. cache_full_loop rt blocks ts extra k (Suc i) (Some ?h) ?t = (Inr (), u) \<and> config_view u = config_view ?t \<and>
      (\<forall>j \<le> Suc i + k. 0 < j \<longrightarrow> indexed u (prefix_hash rt sz ts extra j))"
  proof (rule Suc.IH [OF inv _ Suc.prems(3) _ others, unfolded szt])
    show "\<forall>b \<in> set blocks. in_range ?t b" using Suc.prems(2) C(4) by (simp only:)
    show "Suc i + k \<le> length blocks" using Suc.prems(4) by simp
  qed (fact h idx)+
  then obtain u where u: "cache_full_loop rt blocks ts extra k (Suc i) (Some ?h) ?t = (Inr (), u)"
    "config_view u = config_view ?t" "\<forall>j \<le> Suc i + k. 0 < j \<longrightarrow> indexed u (prefix_hash rt sz ts extra j)"
    by (elim exE conjE) (rule that)
  have "cache_full_loop rt blocks ts extra (Suc k) i parent s = (Inr (), u)"
    using i none u(1) by (simp add: Let_def sz_def)
  moreover have "config_view u = config_view s" using u(2) F(10) by (rule trans)
  moreover have "\<forall>j \<le> i + Suc k. 0 < j \<longrightarrow> indexed u (prefix_hash rt (nat (block_size s)) ts extra j)"
    using u(3) unfolding sz_def by simp
  ultimately show ?case by (intro exI [of _ u] conjI)
qed simp

lemma queue_remove_hash_cache: "hash_cache (snd (queue_remove s b)) = hash_cache s"
proof -
  have "block_heap.more (snd (queue_remove s b)) = block_heap.more s"
    by (simp add: queue_remove_def Let_def split: option.split)
  then show ?thesis by (rule more_fields)
qed

lemma touch_one_hash_cache: "hash_cache (touch_one rt b s) = hash_cache s"
  using queue_remove_hash_cache [of s b]
  by (auto simp: touch_one_def Let_def split: prod.split sum.split)

lemma touch_hash_cache: "hash_cache (touch rt bs s) = hash_cache s"
  unfolding touch_def by (induction bs arbitrary: s) (simp_all add: touch_one_hash_cache)

lemma computed_loop_hits:
  assumes "\<forall>j. i < j \<longrightarrow> j \<le> i + k \<longrightarrow> indexed s (prefix_hash rt (nat (block_size s)) ts extra j)" "manager_inv {} s"
    and "parent = prefix_hash rt (nat (block_size s)) ts extra i"
  shows "\<exists>cs u. computed_loop rt ts extra k i bs parent n s =
      (Inr (bs @ cs, prefix_hash rt (nat (block_size s)) ts extra (i + k), n + k * nat (block_size s), False), u) \<and>
    length cs = k"
  using assms
proof (induction k arbitrary: i parent n bs s)
  case (Suc k)
  define sz where "sz = nat (block_size s)"
  let ?bts = "take sz (drop (i * sz) ts)"
  let ?h = "range_block_hash rt parent ?bts extra (i * sz) (i * sz + sz)"
  have h: "prefix_hash rt sz ts extra (Suc i) = Some ?h" using Suc.prems(3) by (simp add: sz_def)
  have "indexed s (prefix_hash rt (nat (block_size s)) ts extra (Suc i))"
    by (rule Suc.prems(1) [rule_format]) simp_all
  then obtain b where b: "hm_get_block (hash_cache s) ?h = Some b"
    unfolding indexed_def sz_def [symmetric] h by auto
  let ?t = "touch rt [b] s" let ?c = "count_hit ?t"
  have P: "probed ?h s (Inr (Some b)) ?t" by (rule touch_hit [OF Suc.prems(2) b])
  have inv: "manager_inv {} ?c" using quiet_inv [OF count_quiet(1)] P by (auto simp: probed_def)
  have bs': "block_size ?c = block_size s" using P keeps_block_size [of s ?t] by (simp add: probed_def)
  have idx: "indexed ?c (prefix_hash rt sz ts extra j)" if "Suc i < j" "j \<le> Suc i + k" for j
  proof -
    have "indexed s (prefix_hash rt (nat (block_size s)) ts extra j)" by (rule Suc.prems(1) [rule_format]) (use that in simp_all)
    then show ?thesis unfolding indexed_def sz_def by (simp add: touch_hash_cache)
  qed
  have bsn: "nat (block_size ?c) = sz" using bs' by (simp add: sz_def)
  note IH = Suc.IH [of "Suc i" ?c "Some ?h" "bs @ [b]" "n + sz", unfolded bsn]
  have "\<exists>cs u. computed_loop rt ts extra k (Suc i) (bs @ [b]) (Some ?h) (n + sz) ?c =
      (Inr ((bs @ [b]) @ cs, prefix_hash rt sz ts extra (Suc i + k), n + sz + k * sz, False), u) \<and> length cs = k"
  proof (rule IH)
    show "\<forall>j>Suc i. j \<le> Suc i + k \<longrightarrow> indexed ?c (prefix_hash rt sz ts extra j)" using idx by blast
  qed (fact inv h [symmetric])+
  then obtain cs u where u: "computed_loop rt ts extra k (Suc i) (bs @ [b]) (Some ?h) (n + sz) ?c =
      (Inr ((bs @ [b]) @ cs, prefix_hash rt sz ts extra (Suc i + k), n + sz + k * sz, False), u)" "length cs = k"
    by (elim exE conjE) (rule that)
  have "probe_block rt ?h (int (length ?bts)) parent s = (Inr (Some b), ?t)" using b by (simp add: probe_block_def)
  then have "computed_loop rt ts extra (Suc k) i bs parent n s =
      computed_loop rt ts extra k (Suc i) (bs @ [b]) (Some ?h) (n + sz) ?c"
    by (simp add: Let_def sz_def [symmetric])
  then have "computed_loop rt ts extra (Suc k) i bs parent n s =
      (Inr (bs @ (b # cs), prefix_hash rt sz ts extra (i + Suc k), n + Suc k * sz, False), u)"
    using u(1) by (simp only: append_assoc append_Cons append_Nil add_Suc_right add_Suc mult_Suc add.assoc)
  with u(2) show ?case unfolding sz_def [symmetric]
    by (intro exI [of _ "b # cs"] exI [of _ u] conjI) (simp_all only: length_Cons)
qed simp

lemma registered_found:
  assumes "manager_inv {} s" "enable_caching s" "1 \<le> block_size s" "distinct blocks"
    and "\<forall>b \<in> set blocks. in_range s b \<and> block_hash (blk s b) = None"
    and "length ts = length blocks * nat (block_size s)"
  shows "\<exists>t bs u. cache_full_blocks rt blocks ts 0 (length blocks) extra s = (Inr (), t) \<and> manager_inv {} t \<and>
    get_computed_blocks rt ts extra t = (Inr (bs, int (length ts)), u) \<and> manager_inv {} u \<and>
    length bs = length blocks \<and> full_match rt (nat (block_size s)) ts extra bs u"
proof -
  define sz where "sz = nat (block_size s)"
  let ?k = "length blocks"
  have sz: "0 < sz" using assms(3) by (simp add: sz_def)
  have rng: "\<forall>b \<in> set blocks. in_range s b" using assms(5) by blast
  have none: "\<forall>j. 0 \<le> j \<longrightarrow> j < ?k \<longrightarrow> block_hash (blk s (blocks ! j)) = None" using assms(5) by simp
  have start: "\<forall>j \<le> 0. 0 < j \<longrightarrow> indexed s (prefix_hash rt (nat (block_size s)) ts extra j)" by simp
  obtain t where t: "cache_full_loop rt blocks ts extra ?k 0 None s = (Inr (), t)" "config_view t = config_view s"
    "\<forall>j \<le> 0 + ?k. 0 < j \<longrightarrow> indexed t (prefix_hash rt sz ts extra j)"
    using cache_full_loop_indexed [OF assms(1) rng assms(4) _ none _ start, of ?k None] by (auto simp: sz_def)
  have cf: "cache_full_blocks rt blocks ts 0 ?k extra s = (Inr (), t)"
    using t(1) assms(2) by (cases "?k = 0") (simp_all add: cache_full_blocks_def)
  have inv: "manager_inv {} t" using cache_full_blocks_inv [OF assms(1) rng, of rt ts 0 ?k extra] cf by simp
  note C = config_fields [OF t(2)]
  have szt: "nat (block_size t) = sz" using C(1) by (simp add: sz_def)
  have idx: "\<forall>j > 0. j \<le> 0 + ?k \<longrightarrow> indexed t (prefix_hash rt sz ts extra j)" using t(3) by blast
  have k: "length ts div sz = ?k" using assms(6) sz by (simp add: sz_def)
  obtain cs u where u: "computed_loop rt ts extra ?k 0 [] None 0 t =
      (Inr (cs, prefix_hash rt sz ts extra ?k, ?k * sz, False), u)" "length cs = ?k"
    using computed_loop_hits [of 0 ?k t rt ts extra None "[]" 0, unfolded szt, OF idx inv] by auto
  have fm0: "full_match rt (nat (block_size t)) ts extra [] t" by (simp add: full_match_def)
  have one: "1 \<le> block_size t" using assms(3) C(1) by simp
  obtain bs' parent n returned v where v: "computed_loop rt ts extra ?k 0 [] None 0 t = (Inr (bs', parent, n, returned), v)"
    "manager_inv {} v" "if returned then \<exists>cs b m. bs' = cs @ [b] \<and> full_match rt sz ts extra cs v \<and>
         partial_match rt sz ts extra (length cs) b m v \<and> n = length cs * sz + m
       else full_match rt sz ts extra bs' v \<and> n = length bs' * sz \<and> parent = prefix_hash rt sz ts extra (length bs') \<and> length bs' \<le> ?k"
    using computed_loop_sound [OF inv fm0 one, of ?k]
    unfolding szt list.size(3) add_0 mult_0 prefix_hash.simps(1) by blast
  have fm: "full_match rt sz ts extra cs u" "manager_inv {} u" using u(1) v by (auto split: if_splits)
  have "get_computed_blocks rt ts extra t = (Inr (cs, int (length ts)), u)"
    using assms(2,6) C(3) szt k u(1) by (simp add: get_computed_blocks_def Let_def sz_def)
  then show ?thesis using cf inv u(2) fm unfolding sz_def [symmetric] by blast
qed

section \<open>The legacy index\<close>

definition legacy_get :: "runtime \<Rightarrow> int list \<Rightarrow> 'ds manager \<Rightarrow> int option" where
  "legacy_get rt ts s = (case pd_get (hash_to_block s) (legacy_block_hash rt ts) of
     None \<Rightarrow> None | Some i \<Rightarrow> pd_get (allocated_blocks s) i)"

text \<open>What a legacy search leaves as it was.\<close>

definition searched :: "'ds manager \<Rightarrow> 'ds manager \<Rightarrow> bool" where
  "searched s t \<longleftrightarrow> quiet s t \<and> hash_to_block t = hash_to_block s \<and> partial_block_sizes t = partial_block_sizes s"

lemma searched_refl [simp]: "searched s s"
  by (simp add: searched_def)

lemma searched_trans [trans]: "searched s t \<Longrightarrow> searched t u \<Longrightarrow> searched s u"
  by (auto simp: searched_def intro: quiet_trans)

lemma searched_fields:
  assumes "searched s t"
  shows "legacy_get rt ts t = legacy_get rt ts s" "sizes_descending t = sizes_descending s" "block_size t = block_size s"
    "partial_block_sizes t = partial_block_sizes s"
  using assms by (auto simp: searched_def legacy_get_def sizes_descending_def quiet_def same_poolD split: option.split)

lemma find_cached_block_searched:
  "fst (find_cached_block rt ts s) = legacy_get rt ts s" "searched s (snd (find_cached_block rt ts s))"
proof -
  show "fst (find_cached_block rt ts s) = legacy_get rt ts s"
    by (simp add: find_cached_block_def legacy_get_def split: option.split)
  have m: "searched s (upd_stats s (\<lambda>st. st\<lparr>cache_misses := cache_misses st + 1\<rparr>))"
    by (simp add: searched_def quiet_stats) (simp add: upd_stats_def)
  have h: "searched s (count_hit (upd_blk s b (touch_block w)))" for b w
    using quiet_trans [OF quiet_touch_block count_quiet(1)]
    by (simp add: searched_def) (simp add: count_hit_def upd_stats_def)
  show "searched s (snd (find_cached_block rt ts s))"
    using m h by (simp add: find_cached_block_def split: option.split)
qed

lemma match_sizes_searched:
  "searched s (snd (match_sizes rt ts ns s)) \<and>
   (case fst (match_sizes rt ts ns s) of
      None \<Rightarrow> \<forall>n \<in> set ns. n \<le> int (length ts) \<longrightarrow> legacy_get rt (take (nat n) ts) s = None
    | Some (b, m) \<Rightarrow> \<exists>n \<in> set ns. m = nat n \<and> n \<le> int (length ts) \<and> legacy_get rt (take m ts) s = Some b)"
proof (induction ns arbitrary: s)
  case (Cons n ns)
  show ?case
  proof (cases "n \<le> int (length ts)")
    case True
    obtain ob t where f: "find_cached_block rt (take (nat n) ts) s = (ob, t)" by fastforce
    have ft: "legacy_get rt (take (nat n) ts) s = ob" "searched s t"
      using find_cached_block_searched [where rt = rt and ts = "take (nat n) ts" and s = s] f by simp_all
    show ?thesis
    proof (cases ob)
      case None
      then show ?thesis using Cons.IH [of t] True f ft searched_trans [OF ft(2)] searched_fields(1) [OF ft(2)]
        by (auto split: option.splits)
    qed (use True f ft in \<open>auto\<close>)
  next
    case False
    then show ?thesis using Cons.IH [of s] by (auto split: option.splits)
  qed
qed simp

text \<open>One round matches a registered prefix of the rest, or there is none of a registered size.\<close>

lemma shared_step_searched:
  "searched s (snd (shared_step rt ts s)) \<and>
   (case fst (shared_step rt ts s) of
      None \<Rightarrow> True
    | Some (b, n) \<Rightarrow> legacy_get rt (take n ts) s = Some b \<and> n \<le> length ts \<and>
        (int n = block_size s \<or> n = nat (block_size s) \<or> (\<exists>m \<in> set (partial_block_sizes s). n = nat m)))"
proof -
  obtain ob t where f: "find_cached_block rt (take (nat (block_size s)) ts) s = (ob, t)" by fastforce
  have ft: "legacy_get rt (take (nat (block_size s)) ts) s = ob" "searched s t"
    using find_cached_block_searched [where rt = rt and ts = "take (nat (block_size s)) ts" and s = s] f by simp_all
  have mem: "n \<in> set (sizes_descending u) \<longleftrightarrow> n \<in> set (partial_block_sizes u)" for n and u :: "'a manager"
    by (simp add: sizes_descending_def)
  have part: "searched s (snd (match_sizes rt ts (sizes_descending u) u)) \<and>
     (case fst (match_sizes rt ts (sizes_descending u) u) of
        None \<Rightarrow> True
      | Some (b, n) \<Rightarrow> legacy_get rt (take n ts) s = Some b \<and> n \<le> length ts \<and> (\<exists>m \<in> set (partial_block_sizes s). n = nat m))"
    if "searched s u" for u
    using match_sizes_searched [of u rt ts "sizes_descending u"] searched_trans [OF that] searched_fields [OF that]
    by (auto simp: mem split: option.splits)
  show ?thesis
  proof (cases "int (length ts) \<ge> block_size s")
    case True
    show ?thesis
    proof (cases ob)
      case None
      then show ?thesis using True f part [OF ft(2)] by (auto simp: shared_step_def split: option.splits)
    qed (use True f ft in \<open>auto simp: shared_step_def\<close>)
  next
    case False
    then show ?thesis using part [of s] by (auto simp: shared_step_def split: option.splits)
  qed
qed

text \<open>
  The search ends when every registered size is positive: each round consumes at least one token.
\<close>

definition sizes_positive :: "'ds manager \<Rightarrow> bool" where
  "sizes_positive s \<longleftrightarrow> 1 \<le> block_size s \<and> (\<forall>n \<in> set (partial_block_sizes s). 0 < n)"

lemma find_shared_loop_ends:
  "sizes_positive s \<Longrightarrow> \<exists>shared' rest t. find_shared_loop rt shared ts s = Some ((shared', rest), t) \<and>
     searched s t \<and> length shared \<le> length shared' \<and> length rest + (length shared' - length shared) \<le> length ts \<and>
     (\<exists>m \<le> length ts. rest = drop m ts)"
proof (induction "length ts" arbitrary: ts shared s rule: less_induct)
  case less
  show ?case
  proof (cases "ts = []")
    case True
    then show ?thesis
      by (intro exI [of _ shared] exI [of _ "[]"] exI [of _ s]) (simp add: find_shared_loop.simps)
  next
    case False
    obtain ob t where f: "shared_step rt ts s = (ob, t)" by fastforce
    have st: "searched s t" using shared_step_searched [of s rt ts] f by simp
    show ?thesis
    proof (cases ob)
      case None
      then show ?thesis using False f st
        by (intro exI [of _ shared] exI [of _ ts] exI [of _ t]) (auto simp: find_shared_loop.simps intro: exI [of _ 0])
    next
      case (Some bn)
      obtain b n where bn: "bn = (b, n)" by (cases bn)
      have n: "0 < n" "n \<le> length ts"
        using shared_step_searched [of s rt ts] f Some bn less.prems by (auto simp: sizes_positive_def)
      have pos: "sizes_positive t" using less.prems searched_fields [OF st] by (simp add: sizes_positive_def)
      have shorter: "length (drop n ts) < length ts" using n by simp
      obtain shared' rest u where u: "find_shared_loop rt (shared @ [b]) (drop n ts) t = Some ((shared', rest), u)"
        "searched t u" "length (shared @ [b]) \<le> length shared'"
        "length rest + (length shared' - length (shared @ [b])) \<le> length (drop n ts)"
        "\<exists>m \<le> length (drop n ts). rest = drop m (drop n ts)"
        using less.hyps [OF shorter pos, of "shared @ [b]"] by blast
      have "find_shared_loop rt shared ts s = Some ((shared', rest), u)"
        using u(1) False f Some bn by (simp add: find_shared_loop.simps [of rt shared ts])
      moreover obtain m where "m \<le> length ts - n" "rest = drop (m + n) ts" using u(5) by auto
      then have "\<exists>m \<le> length ts. rest = drop m ts" using n by (intro exI [of _ "m + n"]) simp
      ultimately show ?thesis using u(3,4) n searched_trans [OF st u(2)]
        by (intro exI [of _ shared'] exI [of _ rest] exI [of _ u]) simp
    qed
  qed
qed

lemma shared_step_zero:
  assumes "1 \<le> block_size s" "0 \<in> set (partial_block_sizes s)" "\<forall>n \<in> set (partial_block_sizes s). 0 \<le> n"
    and "legacy_get rt [] s = Some b" "\<forall>n. 0 < n \<longrightarrow> n \<le> length ts \<longrightarrow> legacy_get rt (take n ts) s = None" 
  shows "\<exists>t. shared_step rt ts s = (Some (b, 0), t) \<and> searched s t"
proof -
  obtain ob t where f: "shared_step rt ts s = (ob, t)" by fastforce
  have st: "searched s t" using shared_step_searched [of s rt ts] f by simp
  have mem: "0 \<in> set (sizes_descending u)" if "searched s u" for u
    using searched_fields(4) [OF that] assms(2) by (simp add: sizes_descending_def)
  have miss: "fst (find_cached_block rt (take (nat (block_size s)) ts) s) = None" if "block_size s \<le> int (length ts)"
    using that assms(1,5) by (simp add: find_cached_block_searched(1))
  have part: "fst (match_sizes rt ts (sizes_descending u) u) = Some (b, 0)" if u: "searched s u" for u
  proof (cases "fst (match_sizes rt ts (sizes_descending u) u)")
    case None
    then show ?thesis
      using match_sizes_searched [of u rt ts "sizes_descending u"] mem [OF u] assms(4) searched_fields(1) [OF u] by force
  next
    case (Some cm)
    obtain c m where cm: "cm = (c, m)" by (cases cm)
    then have "legacy_get rt (take m ts) s = Some c" "m \<le> length ts"
      using match_sizes_searched [of u rt ts "sizes_descending u"] Some searched_fields(1) [OF u] by auto
    then show ?thesis using assms(4,5) Some cm by (cases "m = 0") auto
  qed
  have "ob = Some (b, 0)"
  proof (cases "block_size s \<le> int (length ts)")
    case True
    obtain t' where f1: "find_cached_block rt (take (nat (block_size s)) ts) s = (None, t')"
      using miss [OF True] by (metis prod.collapse)
    then have "searched s t'"
      using find_cached_block_searched(2) [where rt = rt and ts = "take (nat (block_size s)) ts" and s = s] by simp
    from part [OF this] show ?thesis using True f f1 by (auto simp: shared_step_def split: prod.splits)
  next
    case False
    then show ?thesis using part [OF searched_refl] f by (auto simp: shared_step_def split: prod.splits)
  qed
  then show ?thesis using f st by simp
qed

text \<open>When the empty token list is registered and nothing else matches, the search never returns.\<close>

lemma find_shared_loop_spins:
  assumes "find_shared_loop rt shared ts s = Some r"
  shows "\<not> (ts \<noteq> [] \<and> 1 \<le> block_size s \<and> 0 \<in> set (partial_block_sizes s) \<and> (\<forall>n \<in> set (partial_block_sizes s). 0 \<le> n) \<and>
    legacy_get rt [] s \<noteq> None \<and> (\<forall>n. 0 < n \<longrightarrow> n \<le> length ts \<longrightarrow> legacy_get rt (take n ts) s = None))"
proof (induction rule: find_shared_loop.raw_induct [OF _ assms])
  case (1 f rt shared ts s r)
  show ?case
  proof (rule notI, elim conjE)
    assume stuck: "ts \<noteq> []" "1 \<le> block_size s" "0 \<in> set (partial_block_sizes s)" "\<forall>n \<in> set (partial_block_sizes s). 0 \<le> n"
      "legacy_get rt [] s \<noteq> None" "\<forall>n>0. n \<le> length ts \<longrightarrow> legacy_get rt (take n ts) s = None"
    then obtain b where b: "legacy_get rt [] s = Some b" by blast
    obtain t where t: "shared_step rt ts s = (Some (b, 0), t)" "searched s t"
      using shared_step_zero [OF stuck(2-4) b] stuck(6) by blast
    have "f rt (shared @ [b]) ts t = Some r" using 1(2) stuck(1) t(1) by simp
    from 1(1) [OF this] show False using stuck searched_fields [OF t(2)] by simp
  qed
qed

end
