(* ===== verification/Paged_Reach.thy ===== *)
theory Paged_Reach
  imports Paged_Lookup
begin

text \<open>
  \<open>vmlx_engine/paged_cache.py\<close>: the manager as a state machine.  A step is one call of a public
  operation, at any clock reading and Metal overage, on blocks of the pool; the invariant holds in every
  state reachable from the constructor.  Then what single operations promise on such states.
\<close>

section \<open>The manager's interface\<close>

inductive manager_step :: "'ds manager \<Rightarrow> 'ds manager \<Rightarrow> bool" where
  allocate: "manager_step s (snd (allocate_block rt s))"
| new_blocks: "0 \<le> n \<Longrightarrow> manager_step s (snd (get_new_blocks rt n s))"
| for_tokens: "1 \<le> block_size s \<Longrightarrow> 0 \<le> n \<Longrightarrow> manager_step s (snd (allocate_blocks_for_tokens rt n s))"
| free: "manager_step s (snd (free_block i s))"
| decrement: "manager_step s (snd (decrement_ref i s))"
| release: "manager_step s (snd (release_request_refs rt tb s))"
| touch: "\<forall>b \<in> set bs. in_range s b \<Longrightarrow> manager_step s (touch rt bs s)"
| increment: "manager_step s (snd (increment_ref rt i s))"
| create_table: "manager_step s (snd (create_block_table rid s))"
| obtain_table: "manager_step s (snd (get_or_create_block_table rid s))"
| delete_table: "manager_step s (delete_block_table rid s)"
| detach: "manager_step s (detach_request rid s)"
| add_to_table: "manager_step s (add_block_to_table r b n s)"
| fork: "manager_step s (snd (fork_block_table rt r rid s))"
| copy_on_write: "in_range s b \<Longrightarrow> 1 < ref_count (blk s b) \<Longrightarrow> manager_step s (snd (cow_copy_block rt b s))"
| generation: "manager_step s (snd (get_blocks_for_generation rt r s))"
| lru: "manager_step s (snd (evict_lru_blocks rt n s))"
| pressure: "manager_step s (snd (handle_memory_pressure rt n s))"
| budget: "manager_step s (snd (enforce_byte_budget rt n s))"
| note_bytes: "in_range s b \<Longrightarrow> manager_step s (note_resident b n s)"
| evictable: "manager_step s (make_resident_payload_evictable b s)"
| drop_later: "in_range s b \<Longrightarrow> manager_step s (snd (release_resident_payload_when_unreferenced b s))"
| discard: "\<forall>h b. (h, Some b) \<in> set pending \<longrightarrow> b < max_blocks s \<Longrightarrow>
    manager_step s (snd (discard_nondurable_cache_blocks pending s))"
| look_up: "1 \<le> block_size s \<Longrightarrow> manager_step s (snd (get_computed_blocks rt ts extra s))"
| get_cached: "manager_step s (snd (get_cached_block h s))"
| register: "\<forall>b \<in> set blocks. in_range s b \<Longrightarrow> manager_step s (snd (cache_full_blocks rt blocks ts c f extra s))"
| promote: "manager_step s (snd (promote_from_disk rt h payload n parent s))"
| find_cached: "manager_step s (snd (find_cached_block rt ts s))"
| register_legacy: "manager_step s (register_block_hash rt b ts s)"
| find_shared: "sizes_positive s \<Longrightarrow> find_shared_prefix rt ts s = Some (r, t) \<Longrightarrow> manager_step s t"
| reset: "manager_step s (snd (reset_prefix_cache s))"
| statistics: "manager_step s (snd (get_stats s))"
| zero_stats: "manager_step s (reset_stats s)"
| clear: "manager_step s (snd (clear force s))"

inductive reachable :: "'ds manager \<Rightarrow> bool" where
  start: "init_manager bsize n caching store ds budget only frugal env = Inr s \<Longrightarrow> reachable s"
| step: "reachable s \<Longrightarrow> manager_step s t \<Longrightarrow> reachable t"

inductive_cases manager_stepE: "manager_step s t"

lemma get_new_blocks_keeps_inv: "manager_inv {} s \<Longrightarrow> 0 \<le> n \<Longrightarrow> manager_inv {} (snd (get_new_blocks rt n s))"
  using get_new_blocks_inv [of s n rt] by (cases "fst (get_new_blocks rt n s)") (auto simp: case_prod_unfold)

lemma allocate_for_tokens_inv:
  assumes "manager_inv {} s" "1 \<le> block_size s" "0 \<le> n"
  shows "manager_inv {} (snd (allocate_blocks_for_tokens rt n s))"
proof -
  have "0 \<le> (n + block_size s - 1) div block_size s" using assms by (intro pos_imp_zdiv_nonneg_iff [THEN iffD2]) simp_all
  from get_new_blocks_keeps_inv [OF assms(1) this] show ?thesis by (simp add: allocate_blocks_for_tokens_def)
qed

lemma legacy_quiet:
  "quiet s (snd (get_cached_block h s))" "quiet s (snd (find_cached_block rt ts s))" "quiet s (register_block_hash rt b ts s)"
proof -
  show "quiet s (snd (get_cached_block h s))" by (simp add: get_cached_block_def quiet_stats split: option.split)
  show "quiet s (snd (find_cached_block rt ts s))" using find_cached_block_searched(2) [of s rt ts] by (simp add: searched_def)
  let ?s1 = "upd_blk s b (\<lambda>x. x\<lparr>hash_value := Some (legacy_block_hash rt ts)\<rparr>)"
  have "quiet s ?s1" by (rule quiet_upd_blk) (simp_all add: link_view_def)
  also have "quiet ?s1 (register_block_hash rt b ts s)"
    by (rule quiet_rest) (simp_all add: register_block_hash_def Let_def config_view_def upd_blk_def)
  finally show "quiet s (register_block_hash rt b ts s)" .
qed

lemma manager_step_inv: "manager_step s t \<Longrightarrow> manager_inv {} s \<Longrightarrow> manager_inv {} t"
proof (induction rule: manager_step.induct)
  case (allocate s rt)
  then show ?case using allocate_block_inv [of s rt] by auto
next
  case (decrement s i)
  then show ?case using free_block_inv [of s i] by (simp add: decrement_ref_def)
next
  case (copy_on_write s b rt)
  then show ?case using cow_copy_block_spec [of s b rt] by auto
next
  case (generation s rt r)
  then show ?case using get_blocks_for_generation_inv [of s rt r] by auto
next
  case (look_up s rt ts extra)
  then show ?case using get_computed_blocks_found [of s rt ts extra] by auto
next
  case (promote s rt h payload n parent)
  then show ?case using promote_from_disk_probed [of s h rt payload n parent] by (simp add: probed_def)
next
  case (find_shared s rt ts r t)
  then have "quiet s t"
    using find_shared_loop_ends [of s rt "[]" ts] by (auto simp: find_shared_prefix_def searched_def)
  then show ?case using find_shared.prems by (rule quiet_inv)
qed (auto intro: get_new_blocks_keeps_inv allocate_for_tokens_inv free_block_inv release_request_refs_inv touch_inv increment_ref_inv
    table_ops_inv evict_lru_blocks_inv handle_memory_pressure_inv cache_full_blocks_inv clear_inv
    reset_prefix_cache_inv reset_stats_inv get_stats_inv
    quiet_inv [OF conjunct1 [OF enforce_budget_quiet]] quiet_inv [OF note_resident_quiet] quiet_inv [OF make_evictable_quiet]
    quiet_inv [OF release_when_unreferenced_quiet] quiet_inv [OF discard_quiet] quiet_inv [OF legacy_quiet(1)]
    quiet_inv [OF legacy_quiet(2)] quiet_inv [OF legacy_quiet(3)])

lemma init_manager_checked:
  "init_manager bsize n caching store ds budget only frugal env = Inr s \<Longrightarrow> manager_inv {} s"
  using init_manager_inv [of bsize n only store caching ds budget frugal env]
  by (auto simp: init_manager_def Option.is_none_def split: if_splits)

lemma reachable_manager_inv: "reachable s \<Longrightarrow> manager_inv {} s"
  by (induction rule: reachable.induct) (auto intro: init_manager_checked manager_step_inv)

section \<open>What the invariant says of the pool\<close>

lemma pool_counts:
  assumes "manager_inv {} s"
  shows "num_free_blocks s = int (card (unreferenced s))"
    and "st_free_blocks (stats s) = num_free_blocks s"
    and "st_free_blocks (stats s) + st_allocated_blocks (stats s) = max_blocks s"
proof -
  have inv: "pool_inv {} s" using assms by (simp add: manager_inv_def)
  then obtain q where q: "queue_rep s q" "set q = unreferenced s" by (auto simp: pool_inv_def)
  then show "num_free_blocks s = int (card (unreferenced s))"
    using distinct_card [of q] by (simp add: queue_rep_def)
  show "st_free_blocks (stats s) = num_free_blocks s" "st_free_blocks (stats s) + st_allocated_blocks (stats s) = max_blocks s"
    using pool_invD(11,12) [OF inv] by simp_all
qed

lemma take_and_free:
  assumes "manager_inv {} s" "usable s b"
  shows "manager_inv {} (snd (free_block b (touch_one rt b s)))"
    and "ref_count (blk (snd (free_block b (touch_one rt b s))) i) = ref_count (blk s i)"
proof -
  let ?t = "touch_one rt b s"
  have r: "in_range s b" and b0: "b \<noteq> 0" using assms(2) by (auto simp: usable_def in_range_def)
  note T = touch_one_inv [OF assms(1) r, of rt]
  have rt: "in_range ?t b" using r T(2) ref_moved_range [OF T(2)] by simp
  have ust: "usable ?t b" using rt b0 by (auto simp: usable_def in_range_def)
  have inv: "pool_inv {} ?t" using T(1) by (simp add: manager_inv_def)
  have "pd_get (allocated_blocks ?t) b = Some b" "\<not> is_null (blk ?t b)"
    using pool_invD(5,7) [OF inv] ust rt T(3) by simp_all
  then have "ref_moved b (-1) ?t (snd (free_block b ?t))"
    using free_block_spec [OF T(1), of b] T(3) by simp
  then show "ref_count (blk (snd (free_block b ?t)) i) = ref_count (blk s i)"
    using T(2) by (simp add: ref_moved_def)
  show "manager_inv {} (snd (free_block b ?t))" by (rule free_block_inv [OF T(1)])
qed

lemma demo_manager:
  "\<exists>s :: unit manager. init_manager 2 4 True None () 10 False False [] = Inr s \<and> manager_inv {} s \<and> max_blocks s = 4 \<and>
     block_size s = 2 \<and> num_free_blocks s = 3 \<and> enable_caching s \<and> max_resident_bytes s = 10 \<and>
     (\<forall>i. 1 \<le> i \<longrightarrow> ref_count (blk s i) = 0 \<and> clean s i)"
  using init_manager_inv [of 2 4 False None True "()" 10 False "[]"] by simp

text \<open>A runtime for the examples.\<close>

definition demo_runtime :: runtime where
  "demo_runtime = \<lparr>rt_repr = (\<lambda>_. []), rt_parse_int = (\<lambda>_. None), rt_sha256 = (\<lambda>x. x), rt_wall = 0, rt_mono = 0,
     rt_overage = 0\<rparr>"

lemma demo_legacy:
  "\<exists>s :: unit manager. hash_to_block s = [] \<and> partial_block_sizes s = [] \<and> pd_get (allocated_blocks s) 0 = Some 0 \<and>
     block_size s = 2 \<and> manager_inv {} s"
proof -
  obtain s :: "unit manager" where s: "manager_inv {} s" "block_size s = 2" using demo_manager by blast
  let ?t = "s\<lparr>hash_to_block := [], partial_block_sizes := []\<rparr>"
  have "quiet s ?t" by (rule quiet_rest) (simp_all add: config_view_def)
  then have "manager_inv {} ?t" using s(1) quiet_inv by blast
  then show ?thesis using s(2) pool_invD(2,4,7) [of "{}" ?t] pool_invD(1) [of "{}" ?t]
    by (intro exI [of _ ?t]) (simp add: manager_inv_def in_range_def)
qed

lemma demo_shared:
  "\<exists>s :: unit manager. manager_inv {} s \<and> in_range s 1 \<and> usable s 1 \<and> 1 < ref_count (blk s 1)"
proof -
  obtain s :: "unit manager" where s: "manager_inv {} s" "max_blocks s = 4" using demo_manager by blast
  have r: "in_range s 1" using s(2) by (simp add: in_range_def)
  note T = touch_one_inv [OF s(1) r]
  fix rt
  let ?t = "touch_one rt 1 s" let ?u = "touch_one rt 1 ?t"
  have rt: "in_range ?t 1" using r ref_moved_range [OF T(2)] by simp
  note U = touch_one_inv [OF T(1) rt]
  have "max_blocks ?t = 4" using T(2) [of rt] s(2) by (simp add: ref_moved_def config_view_def)
  moreover have "max_blocks ?u = max_blocks ?t" using U(2) [of rt] by (simp add: ref_moved_def config_view_def)
  moreover have "1 < ref_count (blk ?u 1)" using U(2) [of rt] T(3) [of rt] by (simp add: ref_moved_def)
  ultimately show ?thesis using U(1) [of rt] by (intro exI [of _ ?u]) (simp add: in_range_def usable_def)
qed

section \<open>Properties\<close>

text \<open>
  C3. Every state the manager can reach from its constructor by its operations satisfies the pool
  invariant: the free queue holds exactly the unreferenced blocks, each once, the counters agree with it
  and add up to the pool, the hash index names only blocks with that hash, and the resident-byte total is
  the sum of the blocks' attributions.
\<close>

theorem reachable_pool_invariant:
  assumes "reachable s"
  shows "manager_inv {} s \<and> num_free_blocks s = int (card (unreferenced s)) \<and>
    st_free_blocks (stats s) + st_allocated_blocks (stats s) = max_blocks s \<and>
    resident_bytes s = (\<Sum>i = 0..<max_blocks s. block_resident_bytes (blk s i))"
  using reachable_manager_inv [OF assms] pool_counts [OF reachable_manager_inv [OF assms]]
  by (simp add: manager_inv_def bytes_inv_def)

theorem reachable_pool_invariant_witness:
  "\<exists>s :: unit manager. reachable s \<and> manager_inv {} s \<and> num_free_blocks s = int (card (unreferenced s))"
proof -
  obtain s :: "unit manager" where s: "init_manager 2 4 True None () 10 False False [] = Inr s"
    using demo_manager by blast
  then have "reachable s" by (rule reachable.start)
  from reachable_pool_invariant [OF this] this show ?thesis by blast
qed

text \<open>
  C20. \<open>get_new_blocks\<close> hands out as many different blocks as asked for, each unreferenced before, now
  with one reference and without hash or payload, and changes the references and contents of no other
  block in use; when it raises it is a \<open>ValueError\<close> and no referenced block has changed.
\<close>

theorem new_blocks_exclusive:
  assumes "manager_inv {} s" "0 \<le> n"
  shows "case get_new_blocks rt n s of
      (Inl e, t) \<Rightarrow> e = ValueError \<and> manager_inv {} t \<and> undisturbed {} s t
    | (Inr bs, t) \<Rightarrow> int (length bs) = n \<and> manager_inv {} t \<and> handed_out bs s t"
  by (rule get_new_blocks_inv [OF assms])

theorem new_blocks_exclusive_witness:
  "\<exists>s :: unit manager. manager_inv {} s \<and> (case get_new_blocks demo_runtime 2 s of
      (Inl e, t) \<Rightarrow> e = ValueError \<and> manager_inv {} t \<and> undisturbed {} s t
    | (Inr bs, t) \<Rightarrow> int (length bs) = 2 \<and> manager_inv {} t \<and> handed_out bs s t)"
proof -
  obtain s :: "unit manager" where "manager_inv {} s" using demo_manager by blast
  then show ?thesis using new_blocks_exclusive [of s 2 demo_runtime] by auto
qed

text \<open>
  \<open>free_block\<close> drops exactly one reference of the block named and says whether it was the last; a
  block that is unknown, null or already without references is refused and nothing changes.
\<close>

lemma free_block_drops_one_reference:
  assumes "manager_inv {} s"
  shows "manager_inv {} (snd (free_block i s)) \<and>
    (case pd_get (allocated_blocks s) i of
       None \<Rightarrow> free_block i s = (False, s)
     | Some b \<Rightarrow>
         if is_null (blk s b) \<or> ref_count (blk s b) \<le> 0 then free_block i s = (False, s)
         else ref_moved i (-1) s (snd (free_block i s)) \<and> (fst (free_block i s) \<longleftrightarrow> ref_count (blk s i) = 1))"
  by (rule free_block_spec [OF assms])

text \<open>
  Taking a reference with \<open>touch\<close> and giving it back with \<open>free_block\<close> leaves the reference count
  of every block as it was, whether or not the block was free before.
\<close>

lemma touch_free_balance:
  assumes "manager_inv {} s" "usable s b"
  shows "manager_inv {} (snd (free_block b (touch rt [b] s))) \<and>
    (\<forall>i. ref_count (blk (snd (free_block b (touch rt [b] s))) i) = ref_count (blk s i))"
  using take_and_free [OF assms, of rt] by (simp add: touch_def)

lemma touch_free_balance_example:
  "\<exists>s :: unit manager. usable s 1 \<and> (\<forall>i. ref_count (blk (snd (free_block 1 (touch demo_runtime [1] s))) i) = ref_count (blk s i))"
proof -
  obtain s :: "unit manager" where "manager_inv {} s" "usable s 1" using demo_shared by blast
  then show ?thesis using touch_free_balance [of s 1 demo_runtime] by blast
qed

text \<open>
  C21. Copying a shared block on write takes a block nobody referenced, gives it the payload and token
  count of the source and no hash, and takes one reference from the source; no other block loses or gains
  a reference.  With no block to take, the source keeps its references and contents.
\<close>

theorem copy_on_write_isolates:
  assumes "manager_inv {} s" "in_range s src" "1 < ref_count (blk s src)"
  shows "\<exists>r t. cow_copy_block rt src s = (Inr r, t) \<and> manager_inv {} t \<and> config_view t = config_view s \<and>
    (case r of None \<Rightarrow> undisturbed {} s t
     | Some nb \<Rightarrow> nb \<in> unreferenced s \<and> ref_count (blk t nb) = 1 \<and> block_hash (blk t nb) = None \<and>
         ref_count (blk t src) = ref_count (blk s src) - 1 \<and>
         cache_data (blk t nb) = cache_data (blk s src) \<and> token_count (blk t nb) = token_count (blk s src) \<and>
         (\<forall>i. i \<noteq> nb \<longrightarrow> i \<noteq> src \<longrightarrow> ref_count (blk t i) = ref_count (blk s i)))"
  by (rule cow_copy_block_spec [OF assms])

theorem copy_on_write_isolates_witness:
  "\<exists>(s :: unit manager) r t. 1 < ref_count (blk s 1) \<and> cow_copy_block demo_runtime 1 s = (Inr r, t) \<and> manager_inv {} t"
proof -
  obtain s :: "unit manager" where "manager_inv {} s" "in_range s 1" "1 < ref_count (blk s 1)" using demo_shared by blast
  then show ?thesis using copy_on_write_isolates [of s 1 demo_runtime] by blast
qed

text \<open>
  C22. \<open>enforce_byte_budget\<close> never touches a referenced block, keeps every reference count, and returns
  only with the resident bytes at or under its target or with no leaf left that it may drop.
\<close>

theorem byte_budget_enforced:
  assumes "manager_inv {} s" "enforces_byte_budget s"
  shows "manager_inv {} (snd (enforce_byte_budget rt required s)) \<and>
    undisturbed {} s (snd (enforce_byte_budget rt required s)) \<and>
    (resident_bytes (snd (enforce_byte_budget rt required s)) \<le> budget_target rt (max 0 required) s \<or>
     droppable_leaves rt (snd (enforce_byte_budget rt required s)) = [])"
  using enforce_budget_quiet [OF assms(1), of rt required] enforce_budget_exit [OF assms, of rt required]
    quiet_inv [OF _ assms(1)] by blast

theorem byte_budget_enforced_witness:
  "\<exists>s :: unit manager. enforces_byte_budget s \<and> undisturbed {} s (snd (enforce_byte_budget demo_runtime 5 s))"
proof -
  obtain s :: "unit manager" where "manager_inv {} s" "max_resident_bytes s = 10" using demo_manager by blast
  then have "enforces_byte_budget s" by (simp add: enforces_byte_budget_def)
  with byte_budget_enforced [OF \<open>manager_inv {} s\<close> this, of demo_runtime 5] show ?thesis by blast
qed

text \<open>
  The Metal pressure valve: its overage grows with the active bytes and with the margin, and once the
  active bytes have gone down by the overage it reports nothing more to evict.
\<close>

lemma metal_overage_settles:
  assumes "active \<le> active'" "margin \<le> margin'"
  shows "compute_metal_pressure_overage_bytes active max_ws pct margin
      \<le> compute_metal_pressure_overage_bytes active' max_ws pct margin' \<and>
    compute_metal_pressure_overage_bytes
      (active - compute_metal_pressure_overage_bytes active max_ws pct margin) max_ws pct margin = 0"
  using assms by (auto simp: compute_metal_pressure_overage_bytes_def Let_def)

text \<open>
  C23. On every state that satisfies the manager's invariant, and for any runtime (hash, texts of values, parsing),
  \<open>get_computed_blocks\<close> returns without an exception: blocks that now hold a reference and carry, in order, the chain hashes of the prompt's
  full blocks under its cache keys, possibly followed by one partial block with the hash of the tokens
  that follow them; nothing a request already referenced loses its hash, payload or a reference.
\<close>

theorem get_computed_blocks_sound:
  assumes "manager_inv {} s" "1 \<le> block_size s"
  shows "\<exists>bs n t. get_computed_blocks rt ts extra s = (Inr (bs, n), t) \<and> manager_inv {} t \<and> keeps s t \<and>
    prefix_found rt (nat (block_size s)) ts extra bs n t"
  by (rule get_computed_blocks_found [OF assms])

theorem get_computed_blocks_sound_witness:
  "\<exists>(s :: unit manager) bs n t. get_computed_blocks demo_runtime [5, 6, 7] PyNone s = (Inr (bs, n), t) \<and>
     prefix_found demo_runtime (nat (block_size s)) [5, 6, 7] PyNone bs n t"
proof -
  obtain s :: "unit manager" where s: "manager_inv {} s" "block_size s = 2" using demo_manager by blast
  then have "1 \<le> block_size s" by simp
  from get_computed_blocks_sound [OF s(1) this, of demo_runtime "[5, 6, 7]" PyNone] show ?thesis by blast
qed

text \<open>
  C24. Blocks registered for a prompt by \<open>cache_full_blocks\<close> are found again: the next lookup of the
  same prompt with the same cache keys answers as many blocks, with the chain hashes of the prompt, and
  covers all of its tokens.
\<close>

theorem registered_prefix_is_found:
  assumes "manager_inv {} s" "enable_caching s" "1 \<le> block_size s" "distinct blocks"
    and "\<forall>b \<in> set blocks. in_range s b \<and> block_hash (blk s b) = None"
    and "length ts = length blocks * nat (block_size s)"
  shows "\<exists>t bs u. cache_full_blocks rt blocks ts 0 (length blocks) extra s = (Inr (), t) \<and> manager_inv {} t \<and>
    get_computed_blocks rt ts extra t = (Inr (bs, int (length ts)), u) \<and> manager_inv {} u \<and>
    length bs = length blocks \<and> full_match rt (nat (block_size s)) ts extra bs u"
  by (rule registered_found [OF assms])

theorem registered_prefix_is_found_witness:
  "\<exists>(s :: unit manager) t bs u. cache_full_blocks demo_runtime [1, 2] [5, 6, 7, 8] 0 2 PyNone s = (Inr (), t) \<and>
     get_computed_blocks demo_runtime [5, 6, 7, 8] PyNone t = (Inr (bs, 4), u) \<and> length bs = 2 \<and>
     full_match demo_runtime (nat (block_size s)) [5, 6, 7, 8] PyNone bs u"
proof -
  obtain s :: "unit manager" where s: "manager_inv {} s" "enable_caching s" "block_size s = 2" "max_blocks s = 4"
      "\<forall>i. 1 \<le> i \<longrightarrow> ref_count (blk s i) = 0 \<and> clean s i"
    using demo_manager by blast
  have "\<forall>b \<in> set [1, 2]. in_range s b \<and> block_hash (blk s b) = None" using s(4,5) by (auto simp: in_range_def clean_def)
  moreover have "1 \<le> block_size s" "distinct [1, 2 :: int]" "length [5, 6, 7, 8 :: int] = length [1, 2 :: int] * nat (block_size s)"
    using s(3) by simp_all
  ultimately obtain t bs u where t: "cache_full_blocks demo_runtime [1, 2] [5, 6, 7, 8] 0 (length [1, 2 :: int]) PyNone s = (Inr (), t)"
    "get_computed_blocks demo_runtime [5, 6, 7, 8] PyNone t = (Inr (bs, int (length [5, 6, 7, 8 :: int])), u)"
    "length bs = length [1, 2 :: int]" "full_match demo_runtime (nat (block_size s)) [5, 6, 7, 8] PyNone bs u"
    using registered_prefix_is_found [OF s(1,2), of "[1, 2]" "[5, 6, 7, 8]" demo_runtime PyNone] by blast
  have "length [1, 2 :: int] = 2" "int (length [5, 6, 7, 8 :: int]) = 4" by simp_all
  with t show ?thesis by metis
qed

text \<open>
  C25. When no empty token list was registered, \<open>find_shared_prefix\<close> returns: the rest it gives is a
  suffix of the prompt, at least one token was consumed per shared block, and the pool is as it was.
\<close>

theorem find_shared_prefix_returns:
  assumes "sizes_positive s"
  shows "\<exists>shared rest t. find_shared_prefix rt ts s = Some ((shared, rest), t) \<and> quiet s t \<and>
    (\<exists>m \<le> length ts. rest = drop m ts \<and> length shared \<le> m)"
proof -
  obtain shared rest t where t: "find_shared_loop rt [] ts s = Some ((shared, rest), t)" "searched s t"
    "length rest + (length shared - length ([] :: int list)) \<le> length ts" "\<exists>m \<le> length ts. rest = drop m ts"
    using find_shared_loop_ends [OF assms] by blast
  then show ?thesis by (auto simp: find_shared_prefix_def searched_def)
qed

theorem find_shared_prefix_returns_witness:
  "\<exists>(s :: unit manager) shared rest t. sizes_positive s \<and> find_shared_prefix demo_runtime [5, 6, 7] s = Some ((shared, rest), t)"
proof -
  obtain s :: "unit manager" where s: "hash_to_block s = []" "partial_block_sizes s = []" "block_size s = 2"
    using demo_legacy by blast
  then have "sizes_positive s" by (simp add: sizes_positive_def)
  with find_shared_prefix_returns [OF this, of demo_runtime "[5, 6, 7]"] show ?thesis by blast
qed

text \<open>
  Registering the empty token list on a live block makes \<open>find_shared_prefix\<close> run forever on
  every non-empty prompt none of whose prefixes is registered: each round matches the empty prefix and
  consumes nothing.
\<close>

lemma empty_registration_diverges:
  assumes "1 \<le> block_size s" "\<forall>n \<in> set (partial_block_sizes s). 0 \<le> n" "pd_get (allocated_blocks s) b \<noteq> None" "ts \<noteq> []"
    and "\<forall>n. 0 < n \<longrightarrow> n \<le> length ts \<longrightarrow> legacy_get rt (take n ts) (register_block_hash rt b [] s) = None"
  shows "find_shared_prefix rt ts (register_block_hash rt b [] s) = None"
proof -
  let ?t = "register_block_hash rt b [] s"
  have "block_size ?t = block_size s" "set (partial_block_sizes ?t) = insert 0 (set (partial_block_sizes s))"
    "legacy_get rt [] ?t = pd_get (allocated_blocks s) b"
    using assms(1) by (simp_all add: register_block_hash_def Let_def legacy_get_def)
  then have stuck: "ts \<noteq> [] \<and> 1 \<le> block_size ?t \<and> 0 \<in> set (partial_block_sizes ?t) \<and>
      (\<forall>n \<in> set (partial_block_sizes ?t). 0 \<le> n) \<and> legacy_get rt [] ?t \<noteq> None \<and>
      (\<forall>n. 0 < n \<longrightarrow> n \<le> length ts \<longrightarrow> legacy_get rt (take n ts) ?t = None)"
    using assms by (simp del: not_None_eq)
  show ?thesis
  proof (cases "find_shared_loop rt [] ts ?t")
    case (Some r)
    from find_shared_loop_spins [OF this] stuck show ?thesis by (rule notE)
  qed (simp add: find_shared_prefix_def)
qed

end
