(* ===== verification/State_Machine.thy ===== *)
theory State_Machine
  imports Py_Values "HOL-Library.Sublist"
begin

text \<open>
  \<open>vmlx_engine/state_machine.py\<close>: the Aho-Corasick tries, the sequence state machine over them and its
  factory.  A trie of nested dictionaries is a store of nodes; since every node is the value of one key
  of one parent, the path of keys from the root is its identity.
\<close>

section \<open>The trie\<close>

record ac_node =
  kids :: "int list"
  fail :: "int list option"
  hit :: "(int list \<times> nat) option"

type_synonym ac_trie = "int list \<rightharpoonup> ac_node"

definition empty_node :: ac_node where
  "empty_node = \<lparr>kids = [], fail = None, hit = None\<rparr>"

definition empty_trie :: ac_trie where
  "empty_trie = [[] \<mapsto> empty_node]"

text \<open>A node that is looked up exists; the default of \<open>node_at\<close> is never used on a built trie.\<close>

definition node_at :: "ac_trie \<Rightarrow> int list \<Rightarrow> ac_node" where
  "node_at t p = (case t p of Some n \<Rightarrow> n | None \<Rightarrow> empty_node)"

definition upd_node :: "ac_trie \<Rightarrow> int list \<Rightarrow> (ac_node \<Rightarrow> ac_node) \<Rightarrow> ac_trie" where
  "upd_node t p f = t(p \<mapsto> f (node_at t p))"

definition has_kid :: "ac_trie \<Rightarrow> int list \<Rightarrow> int \<Rightarrow> bool" where
  "has_kid t p x \<longleftrightarrow> x \<in> set (kids (node_at t p))"

text \<open>\<open>node.setdefault(tok, {})\<close>.\<close>

definition set_default :: "ac_trie \<Rightarrow> int list \<Rightarrow> int \<Rightarrow> ac_trie" where
  "set_default t p x =
     (if has_kid t p x then t
      else upd_node (t(p @ [x] \<mapsto> empty_node)) p (\<lambda>n. n\<lparr>kids := kids n @ [x]\<rparr>))"

text \<open>A pattern is a sequence of tokens, or one token (the \<open>TypeError\<close> branch).\<close>

datatype ac_pattern = Tokens "int list" | Token int

fun pattern_tokens :: "ac_pattern \<Rightarrow> int list" where
  "pattern_tokens (Tokens ts) = ts"
| "pattern_tokens (Token x) = [x]"

fun add_path :: "ac_trie \<Rightarrow> int list \<Rightarrow> int list \<Rightarrow> ac_trie" where
  "add_path t p [] = t"
| "add_path t p (x # xs) = add_path (set_default t p x) (p @ [x]) xs"

definition add_pattern :: "ac_trie \<Rightarrow> int list \<Rightarrow> nat \<Rightarrow> ac_trie" where
  "add_pattern t ts i = upd_node (add_path t [] ts) ts (\<lambda>n. n\<lparr>hit := Some (ts, i)\<rparr>)"

fun add_patterns :: "ac_trie \<Rightarrow> nat \<Rightarrow> ac_pattern list \<Rightarrow> ac_trie" where
  "add_patterns t i [] = t"
| "add_patterns t i (p # ps) = add_patterns (add_pattern t (pattern_tokens p) i) (Suc i) ps"

text \<open>\<open>while key not in fail and fail is not trie: fail = fail["__fail__"]\<close>, with fuel.\<close>

fun chase :: "nat \<Rightarrow> ac_trie \<Rightarrow> int \<Rightarrow> int list \<Rightarrow> int list" where
  "chase 0 t x p = p"
| "chase (Suc n) t x p =
     (if \<not> has_kid t p x \<and> p \<noteq> [] then chase n t x (the (fail (node_at t p))) else p)"

definition step_trie :: "ac_trie \<Rightarrow> int list \<Rightarrow> int \<Rightarrow> int list" where
  "step_trie t p x =
     (let q = chase (length p) t x p in if has_kid t q x then q @ [x] else q)"

definition link_kid :: "int list \<Rightarrow> int \<Rightarrow> ac_trie \<Rightarrow> ac_trie" where
  "link_kid p x t =
     (let f = chase (length p) t x (the (fail (node_at t p)));
          target = (if has_kid t f x then f @ [x] else []);
          t1 = upd_node t (p @ [x]) (\<lambda>n. n\<lparr>fail := Some target\<rparr>)
      in if hit (node_at t1 (p @ [x])) = None \<and> hit (node_at t1 target) \<noteq> None
         then upd_node t1 (p @ [x]) (\<lambda>n. n\<lparr>hit := hit (node_at t1 target)\<rparr>) else t1)"

fun link_loop :: "nat \<Rightarrow> int list list \<Rightarrow> ac_trie \<Rightarrow> ac_trie" where
  "link_loop 0 queue t = t"
| "link_loop (Suc n) [] t = t"
| "link_loop (Suc n) (p # queue) t =
     link_loop n (queue @ map (\<lambda>x. p @ [x]) (kids (node_at t p))) (fold (link_kid p) (kids (node_at t p)) t)"

definition link_root_kid :: "int \<Rightarrow> ac_trie \<Rightarrow> ac_trie" where
  "link_root_kid x t = upd_node t [x] (\<lambda>n. n\<lparr>fail := Some []\<rparr>)"

definition build_trie :: "ac_pattern list \<Rightarrow> ac_trie" where
  "build_trie ps =
     (let t = add_patterns empty_trie 0 ps;
          ks = kids (node_at t [])
      in link_loop (Suc (sum_list (map (length \<circ> pattern_tokens) ps))) (map (\<lambda>x. [x]) ks)
           (fold link_root_kid ks t))"

section \<open>The state machine\<close>

type_synonym edges = "(ac_pattern \<times> string option) list"

record machine =
  initial :: string
  states :: "(string, ac_trie \<times> string option list) pydict"

definition compile_edges :: "edges \<Rightarrow> ac_trie \<times> string option list" where
  "compile_edges es = (build_trie (map fst es), map snd es)"

definition new_machine :: "(string, edges) pydict \<Rightarrow> string \<Rightarrow> machine" where
  "new_machine transitions init =
     (let sts = fold (\<lambda>(src, es) d. pd_set d src (compile_edges es)) transitions []
      in \<lparr>initial = init,
          states = (if pd_get sts init = None then pd_set sts init (build_trie [], []) else sts)\<rparr>)"

text \<open>The per-sequence state: state name (\<open>None\<close> once halted) and trie node.\<close>

type_synonym run_state = "string option \<times> int list"

definition make_state :: "machine \<Rightarrow> run_state may_raise" where
  "make_state m = (if pd_get (states m) (initial m) = None then Inl KeyError else Inr (Some (initial m), []))"

definition match_token ::
  "machine \<Rightarrow> run_state \<Rightarrow> int \<Rightarrow> (run_state \<times> int list option \<times> string option) may_raise" where
  "match_token m st x =
     (case fst st of
        None \<Rightarrow> Inr (st, None, None)
      | Some s \<Rightarrow>
          (case pd_get (states m) s of
             None \<Rightarrow> Inl KeyError
           | Some (t, dsts) \<Rightarrow>
               (let n = step_trie t (snd st) x
                in case hit (node_at t n) of
                     None \<Rightarrow> Inr ((Some s, n), None, Some s)
                   | Some (sq, i) \<Rightarrow>
                       if length dsts \<le> i then Inl IndexError
                       else (case dsts ! i of
                               None \<Rightarrow> Inr ((None, []), Some sq, None)
                             | Some d \<Rightarrow>
                                 if pd_get (states m) d = None then Inl KeyError
                                 else Inr ((Some d, []), Some sq, Some d)))))"

fun advance_from :: "machine \<Rightarrow> run_state \<Rightarrow> int list \<Rightarrow> run_state may_raise" where
  "advance_from m st [] = Inr st"
| "advance_from m st (x # xs) =
     (case match_token m st x of
        Inl e \<Rightarrow> Inl e
      | Inr (st', _, cur) \<Rightarrow> if cur = None then Inr st' else advance_from m st' xs)"

definition current_state :: "run_state \<Rightarrow> string option" where
  "current_state st = fst st"

section \<open>The shape of the trie\<close>

lemma node_at_upd [simp]: "node_at (upd_node t p f) q = (if q = p then f (node_at t p) else node_at t q)"
  by (simp add: upd_node_def node_at_def)

lemma node_at_empty [simp]: "node_at empty_trie q = empty_node"
  by (simp add: empty_trie_def node_at_def)

lemma empty_node_fields [simp]: "kids empty_node = []" "fail empty_node = None" "hit empty_node = None"
  by (simp_all add: empty_node_def)

lemma dom_upd_node [simp]: "p \<in> dom t \<Longrightarrow> dom (upd_node t p f) = dom t"
  by (auto simp: upd_node_def)

definition tree_ok :: "int list set \<Rightarrow> ac_trie \<Rightarrow> bool" where
  "tree_ok N t \<longleftrightarrow> dom t = N \<and> [] \<in> N \<and> (\<forall>p x. has_kid t p x \<longleftrightarrow> p @ [x] \<in> N) \<and>
     (\<forall>p. distinct (kids (node_at t p)))"

definition prefix_closed :: "'a list set \<Rightarrow> bool" where
  "prefix_closed N \<longleftrightarrow> (\<forall>p x. p @ [x] \<in> N \<longrightarrow> p \<in> N)"

lemma tree_okD:
  assumes "tree_ok N t"
  shows "dom t = N" "[] \<in> N" "has_kid t p x \<longleftrightarrow> p @ [x] \<in> N" "distinct (kids (node_at t p))"
    "x \<in> set (kids (node_at t p)) \<longleftrightarrow> p @ [x] \<in> N"
  using assms by (auto simp: tree_ok_def has_kid_def)

lemma tree_ok_closed: "tree_ok N t \<Longrightarrow> prefix_closed N"
proof (unfold prefix_closed_def, intro allI impI)
  fix p x assume t: "tree_ok N t" and "p @ [x] \<in> N"
  then have "has_kid t p x" by (simp add: tree_okD)
  then have "t p \<noteq> None" by (auto simp: has_kid_def node_at_def split: option.splits)
  with tree_okD(1) [OF t] show "p \<in> N" by blast
qed

lemma tree_ok_upd: "tree_ok N t \<Longrightarrow> p \<in> N \<Longrightarrow> (\<And>n. kids (f n) = kids n) \<Longrightarrow> tree_ok N (upd_node t p f)"
  by (auto simp: tree_ok_def has_kid_def)

lemma prefix_closed_append: "prefix_closed N \<Longrightarrow> p @ q \<in> N \<Longrightarrow> p \<in> N"
  by (induction q rule: rev_induct) (auto simp: prefix_closed_def simp flip: append_assoc)

lemma set_default_ok:
  assumes "tree_ok N t" "p \<in> N"
  shows "tree_ok (insert (p @ [x]) N) (set_default t p x)"
    "hit (node_at (set_default t p x) q) = hit (node_at t q)" "fail (node_at (set_default t p x) q) = fail (node_at t q)"
proof -
  note D = tree_okD [OF assms(1)]
  have "tree_ok (insert (p @ [x]) N) (set_default t p x) \<and> hit (node_at (set_default t p x) q) = hit (node_at t q) \<and>
    fail (node_at (set_default t p x) q) = fail (node_at t q)" for q
  proof (cases "has_kid t p x")
    case True
    then show ?thesis using assms D by (simp add: set_default_def insert_absorb)
  next
    case False
    let ?t1 = "t(p @ [x] \<mapsto> empty_node)"
    have t1: "node_at ?t1 r = (if r = p @ [x] then empty_node else node_at t r)" for r by (simp add: node_at_def)
    have new: "p @ [x] \<notin> N" using False D(3) by simp
    then have "t (p @ [x]) = None" using D(1) by blast
    then have absent: "node_at t (p @ [x]) = empty_node" by (simp add: node_at_def)
    have pt: "p \<in> dom ?t1" using D(1) assms(2) by simp
    have eq: "set_default t p x = upd_node ?t1 p (\<lambda>n. n\<lparr>kids := kids n @ [x]\<rparr>)" using False by (simp add: set_default_def)
    have "prefix_closed N" by (rule tree_ok_closed [OF assms(1)])
    then have none: "(p @ [x]) @ [y] \<notin> N" for y using new unfolding prefix_closed_def by blast
    have hk: "has_kid (set_default t p x) r y \<longleftrightarrow> r @ [y] \<in> insert (p @ [x]) N" for r y
      using none [of y] D(5) by (auto simp: has_kid_def eq t1)
    have "distinct (kids (node_at (set_default t p x) r))" for r
      using D(4) False by (auto simp: eq t1 has_kid_def)
    moreover have "dom (set_default t p x) = insert (p @ [x]) N" unfolding eq dom_upd_node [OF pt] using D(1) by simp
    ultimately have "tree_ok (insert (p @ [x]) N) (set_default t p x)" using hk D(2) by (simp add: tree_ok_def)
    then show ?thesis using absent by (simp add: eq t1)
  qed
  then show "tree_ok (insert (p @ [x]) N) (set_default t p x)"
    "hit (node_at (set_default t p x) q) = hit (node_at t q)" "fail (node_at (set_default t p x) q) = fail (node_at t q)"
    by blast+
qed

lemma add_path_ok:
  "tree_ok N t \<Longrightarrow> p \<in> N \<Longrightarrow> tree_ok (N \<union> {p @ ys | ys. prefix ys xs}) (add_path t p xs) \<and>
   hit (node_at (add_path t p xs) q) = hit (node_at t q) \<and> fail (node_at (add_path t p xs) q) = fail (node_at t q)"
proof (induction xs arbitrary: t p N)
  case Nil
  then show ?case by (simp add: insert_absorb)
next
  case (Cons x xs)
  note S = set_default_ok [OF Cons.prems]
  have "{p @ ys | ys. prefix ys (x # xs)} = insert p {(p @ [x]) @ ys | ys. prefix ys xs}"
    by (auto simp: prefix_Cons)
  moreover have "(p @ [x]) \<in> {(p @ [x]) @ ys | ys. prefix ys xs}" by auto
  ultimately have "insert (p @ [x]) N \<union> {(p @ [x]) @ ys | ys. prefix ys xs} = N \<union> {p @ ys | ys. prefix ys (x # xs)}"
    using Cons.prems(2) by auto
  moreover have "p @ [x] \<in> insert (p @ [x]) N" by simp
  ultimately show ?case using Cons.IH [OF S(1), of "p @ [x]" x] S(2,3) by (simp only: add_path.simps simp_thms)
qed

text \<open>The match of a node before linking: the last pattern equal to its path.\<close>

fun own_hit :: "nat \<Rightarrow> int list list \<Rightarrow> int list \<Rightarrow> (int list \<times> nat) option" where
  "own_hit i [] p = None"
| "own_hit i (q # qs) p =
     (case own_hit (Suc i) qs p of Some h \<Rightarrow> Some h | None \<Rightarrow> if q = p then Some (p, i) else None)"

definition path_set :: "int list list \<Rightarrow> int list set" where
  "path_set qs = insert [] {p. \<exists>q \<in> set qs. prefix p q}"

lemma add_patterns_ok:
  "tree_ok N t \<Longrightarrow> tree_ok (N \<union> {p. \<exists>q \<in> set ps. prefix p (pattern_tokens q)}) (add_patterns t i ps) \<and>
   hit (node_at (add_patterns t i ps) p) =
     (case own_hit i (map pattern_tokens ps) p of None \<Rightarrow> hit (node_at t p) | Some h \<Rightarrow> Some h) \<and>
   fail (node_at (add_patterns t i ps) p) = fail (node_at t p)"
proof (induction ps arbitrary: t i N)
  case (Cons q ps)
  let ?ts = "pattern_tokens q" let ?t1 = "add_path t [] ?ts" let ?N1 = "N \<union> {ys. prefix ys ?ts}"
  have A: "tree_ok ?N1 ?t1" "\<And>r. hit (node_at ?t1 r) = hit (node_at t r)" "\<And>r. fail (node_at ?t1 r) = fail (node_at t r)"
    using add_path_ok [OF Cons.prems tree_okD(2) [OF Cons.prems], of ?ts] by simp_all
  have "?ts \<in> ?N1" by simp
  then have ok: "tree_ok ?N1 (add_pattern t ?ts i)"
    unfolding add_pattern_def by (rule tree_ok_upd [OF A(1)]) simp
  have "?N1 \<union> {p. \<exists>q \<in> set ps. prefix p (pattern_tokens q)} = N \<union> {p. \<exists>q \<in> set (q # ps). prefix p (pattern_tokens q)}"
    by auto
  then show ?case using Cons.IH [OF ok, of "Suc i"] A
    by (auto simp: add_pattern_def split: option.splits)
qed simp

lemma empty_tree_ok: "tree_ok {[]} empty_trie"
  by (simp add: tree_ok_def has_kid_def) (simp add: empty_trie_def)

section \<open>Suffixes\<close>

text \<open>The longest suffix of \<open>w\<close> in \<open>N\<close>, and the longest suffix that is a pattern.\<close>

fun lsuf :: "'a list set \<Rightarrow> 'a list \<Rightarrow> 'a list" where
  "lsuf N [] = []"
| "lsuf N (x # xs) = (if x # xs \<in> N then x # xs else lsuf N xs)"

fun best :: "int list list \<Rightarrow> int list \<Rightarrow> (int list \<times> nat) option" where
  "best qs [] = own_hit 0 qs []"
| "best qs (x # xs) = (case own_hit 0 qs (x # xs) of Some h \<Rightarrow> Some h | None \<Rightarrow> best qs xs)"

lemma lsuf_in: "w \<in> N \<Longrightarrow> lsuf N w = w"
  by (cases w) simp_all

lemma lsuf_mem: "[] \<in> N \<Longrightarrow> lsuf N w \<in> N"
  by (induction w) simp_all

lemma length_lsuf: "length (lsuf N w) \<le> length w"
  by (induction w) auto

lemma lsuf_snoc: "prefix_closed N \<Longrightarrow> lsuf N (w @ [x]) = lsuf N (lsuf N w @ [x])"
proof (induction w)
  case (Cons y w)
  show ?case
  proof (cases "y # w \<in> N")
    case False
    then have "y # (w @ [x]) \<notin> N" using Cons.prems by (auto simp: prefix_closed_def simp flip: append_Cons)
    then show ?thesis using Cons False by simp
  qed simp
qed simp

lemma own_hit_None: "own_hit i qs p = None \<longleftrightarrow> p \<notin> set qs"
  by (induction i qs p rule: own_hit.induct) (auto split: option.splits)

lemma best_lsuf: "set qs \<subseteq> N \<Longrightarrow> best qs (lsuf N w) = best qs w"
proof (induction w)
  case (Cons x w)
  then show ?case by (auto simp: own_hit_None split: option.split) (metis own_hit_None option.distinct(1) subsetD)
qed simp

lemma own_hit_Some:
  "own_hit i qs p = Some (q, k) \<longleftrightarrow>
     q = p \<and> i \<le> k \<and> k < i + length qs \<and> qs ! (k - i) = p \<and> (\<forall>j. k < j \<longrightarrow> j < i + length qs \<longrightarrow> qs ! (j - i) \<noteq> p)"
proof (induction i qs p arbitrary: q k rule: own_hit.induct)
  case (2 i q' qs p)
  show ?case
  proof (cases "own_hit (Suc i) qs p")
    case None
    then have "p \<notin> set qs" by (simp add: own_hit_None)
    then have no: "j < length qs \<Longrightarrow> qs ! j \<noteq> p" for j by auto
    have tl: "(q' # qs) ! (j - i) \<noteq> p" if "i < j" "j < i + length (q' # qs)" for j
    proof -
      obtain m where "j = i + Suc m" using \<open>i < j\<close> less_iff_Suc_add by auto
      then show ?thesis using no [of m] that(2) by simp
    qed
    show ?thesis
    proof
      assume "own_hit i (q' # qs) p = Some (q, k)"
      then show "q = p \<and> i \<le> k \<and> k < i + length (q' # qs) \<and> (q' # qs) ! (k - i) = p \<and>
          (\<forall>j. k < j \<longrightarrow> j < i + length (q' # qs) \<longrightarrow> (q' # qs) ! (j - i) \<noteq> p)"
        using None tl by (auto split: if_splits)
    next
      assume R: "q = p \<and> i \<le> k \<and> k < i + length (q' # qs) \<and> (q' # qs) ! (k - i) = p \<and>
          (\<forall>j. k < j \<longrightarrow> j < i + length (q' # qs) \<longrightarrow> (q' # qs) ! (j - i) \<noteq> p)"
      then have "k = i" using tl [of k] by (metis le_neq_implies_less)
      with R None show "own_hit i (q' # qs) p = Some (q, k)" by simp
    qed
  next
    case (Some h)
    have shift: "(q' # qs) ! (j - i) = qs ! (j - Suc i)" if "Suc i \<le> j" for j
      using that by (metis Suc_diff_Suc Suc_le_eq nth_Cons_Suc)
    obtain q1 k1 where h: "h = (q1, k1)" by (cases h)
    have K: "q1 = p" "Suc i \<le> k1" "k1 < Suc i + length qs" "qs ! (k1 - Suc i) = p"
      "\<forall>j. k1 < j \<longrightarrow> j < Suc i + length qs \<longrightarrow> qs ! (j - Suc i) \<noteq> p"
      using 2 [of q1 k1] Some h by simp_all
    show ?thesis
    proof
      assume "own_hit i (q' # qs) p = Some (q, k)"
      then show "q = p \<and> i \<le> k \<and> k < i + length (q' # qs) \<and> (q' # qs) ! (k - i) = p \<and>
          (\<forall>j. k < j \<longrightarrow> j < i + length (q' # qs) \<longrightarrow> (q' # qs) ! (j - i) \<noteq> p)"
        using Some h K shift by auto
    next
      assume R: "q = p \<and> i \<le> k \<and> k < i + length (q' # qs) \<and> (q' # qs) ! (k - i) = p \<and>
          (\<forall>j. k < j \<longrightarrow> j < i + length (q' # qs) \<longrightarrow> (q' # qs) ! (j - i) \<noteq> p)"
      have "\<not> k < k1" using R K shift by auto
      moreover have "\<not> k1 < k" using R K shift [of k] by auto
      ultimately show "own_hit i (q' # qs) p = Some (q, k)" using Some h K R by simp
    qed
  qed
qed simp

section \<open>Linking\<close>

text \<open>The nodes of \<open>A\<close> have their failure link and match; the others still have their own match.\<close>

definition linked :: "int list set \<Rightarrow> int list list \<Rightarrow> int list set \<Rightarrow> ac_trie \<Rightarrow> bool" where
  "linked N qs A t \<longleftrightarrow> tree_ok N t \<and>
     (\<forall>p \<in> A. fail (node_at t p) = Some (lsuf N (tl p)) \<and> hit (node_at t p) = best qs p) \<and>
     (\<forall>p. p \<notin> A \<longrightarrow> hit (node_at t p) = own_hit 0 qs p)"

lemma linkedD:
  assumes "linked N qs A t"
  shows "tree_ok N t" "p \<in> A \<Longrightarrow> fail (node_at t p) = Some (lsuf N (tl p))" "p \<in> A \<Longrightarrow> hit (node_at t p) = best qs p"
    "p \<notin> A \<Longrightarrow> hit (node_at t p) = own_hit 0 qs p"
  using assms by (auto simp: linked_def)

lemma chase_spec:
  assumes "linked N qs A t" "\<forall>r \<in> N. r \<noteq> [] \<longrightarrow> length r \<le> length p \<longrightarrow> r \<in> A" "p \<in> N" "length p \<le> n"
  shows "(if has_kid t (chase n t x p) x then chase n t x p @ [x] else []) = lsuf N (p @ [x])"
    and "\<not> has_kid t (chase n t x p) x \<Longrightarrow> chase n t x p = []"
proof -
  note T = tree_okD [OF linkedD(1) [OF assms(1)]]
  have closed: "prefix_closed N" by (rule tree_ok_closed [OF linkedD(1) [OF assms(1)]])
  have stop: "(if has_kid t [] x then [x] else []) = lsuf N [x]" by (simp add: T(3))
  have "(if has_kid t (chase n t x p) x then chase n t x p @ [x] else []) = lsuf N (p @ [x]) \<and>
    (\<not> has_kid t (chase n t x p) x \<longrightarrow> chase n t x p = [])"
    using assms(2-4)
  proof (induction n arbitrary: p)
    case (Suc n)
    show ?case
    proof (cases "has_kid t p x \<or> p = []")
      case True
      then show ?thesis using stop T(3) by (auto simp: lsuf_in)
    next
      case False
      let ?r = "lsuf N (tl p)"
      obtain y p' where p: "p = y # p'" using False by (cases p) auto
      have r: "fail (node_at t p) = Some ?r" using Suc.prems False linkedD(2) [OF assms(1)] by auto
      have len: "length ?r \<le> length p'" using length_lsuf [of N p'] p by simp
      have "p @ [x] \<notin> N" using False T(3) by simp
      then have same: "lsuf N (p @ [x]) = lsuf N (?r @ [x])"
        using lsuf_snoc [OF closed, of p' x] p by simp
      have "?r \<in> N" by (rule lsuf_mem [OF T(2)])
      then have IH: "(if has_kid t (chase n t x ?r) x then chase n t x ?r @ [x] else []) = lsuf N (?r @ [x]) \<and>
          (\<not> has_kid t (chase n t x ?r) x \<longrightarrow> chase n t x ?r = [])"
        using Suc.prems(1,3) len p by (intro Suc.IH) auto
      have c: "chase (Suc n) t x p = chase n t x ?r" using False r by simp
      show ?thesis unfolding c same by (rule IH)
    qed
  qed (use T(3) [of "[]"] in simp)
  then show "(if has_kid t (chase n t x p) x then chase n t x p @ [x] else []) = lsuf N (p @ [x])"
    "\<not> has_kid t (chase n t x p) x \<Longrightarrow> chase n t x p = []" by blast+
qed

lemma step_trie_spec:
  assumes "linked N qs (N - {[]}) t" "p \<in> N"
  shows "step_trie t p x = lsuf N (p @ [x])"
  using chase_spec [OF assms(1) _ assms(2) order_refl, of x] by (auto simp: step_trie_def Let_def)

lemma link_kid_linked:
  assumes L: "linked N qs A t" and p: "p \<in> A" "p \<noteq> []" "p @ [x] \<in> N" "p @ [x] \<notin> A"
    and short: "\<forall>r \<in> N. r \<noteq> [] \<longrightarrow> length r \<le> length p \<longrightarrow> r \<in> A" and sub: "set qs \<subseteq> N"
  shows "linked N qs (insert (p @ [x]) A) (link_kid p x t)"
proof -
  note T = tree_okD [OF linkedD(1) [OF L]]
  let ?r = "lsuf N (tl p)" let ?g = "lsuf N (tl p @ [x])" let ?c = "p @ [x]"
  let ?f = "chase (length p) t x (the (fail (node_at t p)))"
  have closed: "prefix_closed N" by (rule tree_ok_closed [OF linkedD(1) [OF L]])
  have rl: "length ?r < length p" using length_lsuf [of N "tl p"] p(2) by (cases p) auto
  have "(if has_kid t (chase (length p) t x ?r) x then chase (length p) t x ?r @ [x] else []) = lsuf N (?r @ [x])"
    by (rule chase_spec(1) [OF L]) (use short rl lsuf_mem [OF T(2)] in auto)
  then have tgt: "(if has_kid t ?f x then ?f @ [x] else []) = ?g"
    by (simp only: linkedD(2) [OF L p(1)] option.sel lsuf_snoc [OF closed, of "tl p" x])
  have tlc: "tl ?c = tl p @ [x]" using p(2) by simp
  have gl: "length ?g < length ?c" using length_lsuf [of N "tl p @ [x]"] p(2) by (cases p) auto
  have "?g \<in> N" by (rule lsuf_mem [OF T(2)])
  moreover have "hit (node_at t []) = best qs []" if "[] \<notin> A" using linkedD(4) [OF L that] by simp
  ultimately have gh: "hit (node_at t ?g) = best qs ?g"
    using short gl linkedD(3) [OF L, of ?g] by (cases "?g = []"; cases "[] \<in> A") (auto simp: linkedD(3) [OF L])
  have ch: "hit (node_at t ?c) = own_hit 0 qs ?c" by (rule linkedD(4) [OF L p(4)])
  have bc: "best qs ?c = (case own_hit 0 qs ?c of Some h \<Rightarrow> Some h | None \<Rightarrow> best qs ?g)"
    using p(2) best_lsuf [OF sub, of "tl p @ [x]"] by (cases p) (simp_all split: option.split)
  have ne: "?g \<noteq> ?c" using gl by auto
  let ?t1 = "upd_node t ?c (\<lambda>n. n\<lparr>fail := Some ?g\<rparr>)"
  have lk: "link_kid p x t = (if hit (node_at ?t1 ?c) = None \<and> hit (node_at ?t1 ?g) \<noteq> None
      then upd_node ?t1 ?c (\<lambda>n. n\<lparr>hit := hit (node_at ?t1 ?g)\<rparr>) else ?t1)"
    unfolding link_kid_def Let_def tgt by (rule refl)
  have same: "n\<lparr>fail := a\<rparr> = n\<lparr>fail := a, hit := h\<rparr>" if "hit n = h" for n :: ac_node and a h
    using that by (cases n) simp
  have node: "node_at (link_kid p x t) q = (if q = ?c then (node_at t ?c)\<lparr>fail := Some ?g, hit := best qs ?c\<rparr> else node_at t q)" for q
  proof (cases "own_hit 0 qs ?c")
    case None
    then have "hit (node_at t ?c) = None" "best qs ?c = best qs ?g" using ch bc by simp_all
    then show ?thesis unfolding lk using ne gh same [of "node_at t ?c" None "Some ?g"] by (cases "best qs ?g") simp_all
  next
    case (Some r)
    then have h: "hit (node_at t ?c) = Some r" "best qs ?c = Some r" using ch bc by simp_all
    then show ?thesis unfolding lk using ne same [OF h(1), of "Some ?g"] by simp
  qed
  have t1: "tree_ok N ?t1" by (rule tree_ok_upd [OF linkedD(1) [OF L] p(3)]) simp
  have "tree_ok N (upd_node ?t1 ?c (\<lambda>n. n\<lparr>hit := h\<rparr>))" for h by (rule tree_ok_upd [OF t1 p(3)]) simp
  with t1 have "tree_ok N (link_kid p x t)" unfolding lk by simp
  then show ?thesis using linkedD [OF L] tlc by (auto simp: linked_def node)
qed

lemma fold_link_kid:
  assumes "linked N qs A t" "p \<in> A" "p \<noteq> []" "\<forall>x \<in> set xs. p @ [x] \<in> N \<and> p @ [x] \<notin> A" "distinct xs"
    and "\<forall>r \<in> N. r \<noteq> [] \<longrightarrow> length r \<le> length p \<longrightarrow> r \<in> A" "set qs \<subseteq> N"
  shows "linked N qs (A \<union> (\<lambda>x. p @ [x]) ` set xs) (fold (link_kid p) xs t)"
  using assms
proof (induction xs arbitrary: A t)
  case (Cons x xs)
  have "linked N qs (insert (p @ [x]) A) (link_kid p x t)"
    by (rule link_kid_linked) (use Cons.prems in auto)
  then have "linked N qs (insert (p @ [x]) A \<union> (\<lambda>x. p @ [x]) ` set xs) (fold (link_kid p) xs (link_kid p x t))"
    by (rule Cons.IH) (use Cons.prems in auto)
  then show ?case by (simp add: Un_insert_left)
qed simp

text \<open>The breadth-first order: the linked nodes are the children of the root and of expanded nodes.\<close>

definition frontier :: "int list set \<Rightarrow> int list set \<Rightarrow> int list list \<Rightarrow> bool" where
  "frontier N A q \<longleftrightarrow> set q \<subseteq> A \<and> distinct q \<and> sorted (map length q) \<and>
     (\<forall>r \<in> set q. length r \<le> Suc (length (hd q))) \<and>
     A = {r \<in> N. r \<noteq> [] \<and> (butlast r = [] \<or> butlast r \<in> A - set q)}"

lemma butlast_in: "prefix_closed N \<Longrightarrow> r \<in> N \<Longrightarrow> r \<noteq> [] \<Longrightarrow> butlast r \<in> N"
  by (cases r rule: rev_cases) (auto simp: prefix_closed_def)

lemma frontier_short:
  assumes "frontier N A (p # q)" "prefix_closed N" "r \<in> N" "r \<noteq> []" "length r \<le> length p"
  shows "r \<in> A"
  using assms(3-5)
proof (induction "length r" arbitrary: r rule: less_induct)
  case less
  have A: "A = {r \<in> N. r \<noteq> [] \<and> (butlast r = [] \<or> butlast r \<in> A - set (p # q))}"
    and so: "sorted (map length (p # q))" using assms(1) by (simp_all add: frontier_def)
  show ?case
  proof (cases "butlast r = []")
    case True
    with less.prems A show ?thesis by blast
  next
    case False
    have lt: "length (butlast r) < length r" using less.prems(2) by simp
    then have "butlast r \<in> A"
      using less.hyps [OF lt] butlast_in [OF assms(2) less.prems(1,2)] False less.prems(3) by simp
    moreover have "butlast r \<notin> set (p # q)" using so lt less.prems(3) by auto
    ultimately show ?thesis using less.prems A by blast
  qed
qed

lemma frontier_done:
  assumes "frontier N A []" "prefix_closed N" shows "A = N - {[]}"
proof -
  have A: "A = {r \<in> N. r \<noteq> [] \<and> (butlast r = [] \<or> butlast r \<in> A)}" using assms(1) by (simp add: frontier_def)
  have "r \<in> A" if "r \<in> N" "r \<noteq> []" for r
    using that
  proof (induction "length r" arbitrary: r rule: less_induct)
    case less
    have "butlast r = [] \<or> butlast r \<in> A"
      using less.hyps [of "butlast r"] butlast_in [OF assms(2) less.prems] less.prems by (cases "butlast r = []") simp_all
    with less.prems A show ?case by blast
  qed
  with A show ?thesis by blast
qed

lemma frontier_step:
  assumes F: "frontier N A (p # q)" and t: "tree_ok N t" and ks: "ks = kids (node_at t p)"
  shows "frontier N (A \<union> (\<lambda>x. p @ [x]) ` set ks) (q @ map (\<lambda>x. p @ [x]) ks)"
    and "\<forall>x \<in> set ks. p @ [x] \<in> N \<and> p @ [x] \<notin> A"
proof -
  have A: "A = {r \<in> N. r \<noteq> [] \<and> (butlast r = [] \<or> butlast r \<in> A - set (p # q))}"
    and so: "sorted (map length (p # q))" and sub: "set (p # q) \<subseteq> A" and d: "distinct (p # q)"
    and near: "\<forall>r \<in> set q. length r \<le> Suc (length p)" using F by (simp_all add: frontier_def)
  have pne: "p \<noteq> []" and pA: "p \<in> A" using sub A by auto
  note T = tree_okD [OF t]
  show new: "\<forall>x \<in> set ks. p @ [x] \<in> N \<and> p @ [x] \<notin> A"
  proof
    fix x assume x: "x \<in> set ks"
    have "p @ [x] \<notin> A"
    proof
      assume "p @ [x] \<in> A"
      then have "p = [] \<or> p \<in> A - set (p # q)" using A by (metis (mono_tags, lifting) butlast_snoc mem_Collect_eq)
      then show False using pne by simp
    qed
    then show "p @ [x] \<in> N \<and> p @ [x] \<notin> A" using x T(5) ks by simp
  qed
  let ?K = "(\<lambda>x. p @ [x]) ` set ks" let ?q = "q @ map (\<lambda>x. p @ [x]) ks"
  have K: "?K = {r \<in> N. r \<noteq> [] \<and> butlast r = p}"
  proof
    show "?K \<subseteq> {r \<in> N. r \<noteq> [] \<and> butlast r = p}" using new by auto
    show "{r \<in> N. r \<noteq> [] \<and> butlast r = p} \<subseteq> ?K"
    proof
      fix r assume "r \<in> {r \<in> N. r \<noteq> [] \<and> butlast r = p}"
      then have "r = p @ [last r]" "p @ [last r] \<in> N" by (auto simp: append_butlast_last_id)
      then show "r \<in> ?K" using T(5) ks by blast
    qed
  qed
  have "(A \<union> ?K) - set ?q = (A - set (p # q)) \<union> {p}" using new d pA sub by auto
  moreover have "A \<union> ?K = {r \<in> N. r \<noteq> [] \<and> (butlast r = [] \<or> butlast r \<in> A - set (p # q))} \<union> {r \<in> N. r \<noteq> [] \<and> butlast r = p}"
    using A K by simp
  then have "A \<union> ?K = {r \<in> N. r \<noteq> [] \<and> (butlast r = [] \<or> butlast r \<in> (A - set (p # q)) \<union> {p})}" by blast
  ultimately have eq: "A \<union> ?K = {r \<in> N. r \<noteq> [] \<and> (butlast r = [] \<or> butlast r \<in> (A \<union> ?K) - set ?q)}" by simp
  have disj: "set q \<inter> ?K = {}" using new sub by auto
  have dq: "distinct ?q" using d disj T(4) [of p] ks by (auto simp: distinct_map inj_on_def)
  have "map (length \<circ> (\<lambda>x. p @ [x])) ks = replicate (length ks) (Suc (length p))" by (induction ks) simp_all
  then have sq: "sorted (map length ?q)" using so near by (auto simp: sorted_append)
  have hq: "\<forall>r \<in> set ?q. length r \<le> Suc (length (hd ?q))"
  proof (cases q)
    case Nil
    then show ?thesis by (cases ks) auto
  next
    case (Cons a list)
    then have "length p \<le> length a" using so by simp
    then show ?thesis using Cons near by fastforce
  qed
  show "frontier N (A \<union> ?K) ?q"
    unfolding frontier_def
  proof (intro conjI)
    show "set ?q \<subseteq> A \<union> ?K" using sub by auto
  qed (fact dq sq hq eq)+
qed

lemma link_loop_linked:
  assumes "linked N qs A t" "frontier N A q" "set qs \<subseteq> N" "finite N" "card (N - ({[]} \<union> (A - set q))) < n"
  shows "linked N qs (N - {[]}) (link_loop n q t)"
  using assms
proof (induction n q t arbitrary: A rule: link_loop.induct)
  case (2 n t)
  then have "A = N - {[]}" using frontier_done [OF _ tree_ok_closed [OF linkedD(1)]] by blast
  with 2 show ?case by simp
next
  case (3 n p q t)
  let ?ks = "kids (node_at t p)"
  let ?K = "(\<lambda>x. p @ [x]) ` set ?ks" let ?q = "q @ map (\<lambda>x. p @ [x]) ?ks"
  have t: "tree_ok N t" by (rule linkedD(1) [OF 3(2)])
  note closed = tree_ok_closed [OF t] and F = frontier_step [OF 3(3) t refl]
  have A: "p \<in> A" "p \<notin> set q" "A \<subseteq> N - {[]}" using 3(3) by (auto simp: frontier_def)
  have L: "linked N qs (A \<union> ?K) (fold (link_kid p) ?ks t)"
    by (rule fold_link_kid [OF 3(2)]) (use A F(2) tree_okD(4) [OF t] frontier_short [OF 3(3) closed] 3(4) in auto)
  have "(A \<union> ?K) - set ?q = insert p (A - set (p # q))"
    using F(2) A 3(3) by (auto simp: frontier_def)
  then have "N - ({[]} \<union> ((A \<union> ?K) - set ?q)) = (N - ({[]} \<union> (A - set (p # q)))) - {p}" by auto
  moreover have "p \<in> N - ({[]} \<union> (A - set (p # q)))" using A by auto
  ultimately have "N - ({[]} \<union> ((A \<union> ?K) - set ?q)) \<subset> N - ({[]} \<union> (A - set (p # q)))" by blast
  then have "card (N - ({[]} \<union> ((A \<union> ?K) - set ?q))) < card (N - ({[]} \<union> (A - set (p # q))))"
    using 3(5) by (intro psubset_card_mono) simp_all
  then have "card (N - ({[]} \<union> ((A \<union> ?K) - set ?q))) < n" using 3(6) by simp
  with 3(1) [OF L F(1) 3(4,5)] show ?case by simp
qed simp

section \<open>The built trie\<close>

lemma path_set_eq: "path_set qs = {[]} \<union> {p. \<exists>q \<in> set qs. prefix p q}"
  by (auto simp: path_set_def)

lemma path_set_sup: "set qs \<subseteq> path_set qs"
  by (auto simp: path_set_def)

lemma finite_path_set: "finite (path_set qs)" and card_path_set: "card (path_set qs - {[]}) \<le> sum_list (map length qs)"
proof -
  have "finite (path_set qs) \<and> card (path_set qs - {[]}) \<le> sum_list (map length qs)"
  proof (induction qs)
    case (Cons q qs)
    let ?P = "(\<lambda>n. take (Suc n) q) ` {..<length q}"
    have "path_set (q # qs) - {[]} \<subseteq> (path_set qs - {[]}) \<union> ?P"
    proof
      fix p assume p: "p \<in> path_set (q # qs) - {[]}"
      show "p \<in> (path_set qs - {[]}) \<union> ?P"
      proof (cases "prefix p q")
        case True
        then have "p = take (length p) q" "0 < length p" "length p \<le> length q"
          using p by (auto simp: prefix_def)
        then have "p = take (Suc (length p - 1)) q" by simp
        moreover have "length p - 1 < length q" using \<open>0 < length p\<close> \<open>length p \<le> length q\<close> by linarith
        ultimately show ?thesis by blast
      qed (use p in \<open>auto simp: path_set_def\<close>)
    qed
    moreover have P: "card ?P \<le> length q" by (metis card_image_le card_lessThan finite_lessThan)
    moreover have fin: "finite ((path_set qs - {[]}) \<union> ?P)" using Cons.IH by simp
    ultimately have "finite (path_set (q # qs) - {[]})" and le: "card (path_set (q # qs) - {[]}) \<le> card ((path_set qs - {[]}) \<union> ?P)"
      using finite_subset [OF _ fin] card_mono [OF fin] by blast+
    then have "finite (path_set (q # qs))" by simp
    moreover have "card ((path_set qs - {[]}) \<union> ?P) \<le> card (path_set qs - {[]}) + card ?P" by (rule card_Un_le)
    ultimately show ?case using Cons.IH P le by simp
  qed (simp add: path_set_def)
  then show "finite (path_set qs)" "card (path_set qs - {[]}) \<le> sum_list (map length qs)" by simp_all
qed

lemma fold_link_root:
  assumes "tree_ok N t" "\<forall>x \<in> set ks. [x] \<in> N"
  shows "tree_ok N (fold link_root_kid ks t)" "hit (node_at (fold link_root_kid ks t) p) = hit (node_at t p)"
    "fail (node_at (fold link_root_kid ks t) p) = (if \<exists>x \<in> set ks. p = [x] then Some [] else fail (node_at t p))"
proof -
  have "tree_ok N (fold link_root_kid ks t) \<and> hit (node_at (fold link_root_kid ks t) p) = hit (node_at t p) \<and>
    fail (node_at (fold link_root_kid ks t) p) = (if \<exists>x \<in> set ks. p = [x] then Some [] else fail (node_at t p))"
    using assms
  proof (induction ks arbitrary: t)
    case (Cons x ks)
    have "tree_ok N (link_root_kid x t)" unfolding link_root_kid_def by (rule tree_ok_upd) (use Cons.prems in auto)
    with Cons show ?case by (auto simp: link_root_kid_def)
  qed simp
  then show "tree_ok N (fold link_root_kid ks t)" "hit (node_at (fold link_root_kid ks t) p) = hit (node_at t p)"
    "fail (node_at (fold link_root_kid ks t) p) = (if \<exists>x \<in> set ks. p = [x] then Some [] else fail (node_at t p))"
    by blast+
qed

lemma build_trie_linked:
  assumes "qs = map pattern_tokens ps" "[] \<notin> set qs"
  shows "linked (path_set qs) qs (path_set qs - {[]}) (build_trie ps)"
proof -
  let ?N = "path_set qs" let ?t = "add_patterns empty_trie 0 ps" let ?ks = "kids (node_at ?t [])"
  let ?u = "fold link_root_kid ?ks ?t" let ?A = "(\<lambda>x. [x]) ` set ?ks"
  have P: "tree_ok ?N ?t" "\<And>p. hit (node_at ?t p) = own_hit 0 qs p" "\<And>p. fail (node_at ?t p) = None"
    using add_patterns_ok [OF empty_tree_ok, of ps 0] by (simp_all add: assms(1) path_set_eq split: option.split)
  have kid: "x \<in> set ?ks \<longleftrightarrow> [x] \<in> ?N" for x using tree_okD(5) [OF P(1), of x "[]"] by simp
  note F = fold_link_root [OF P(1), of ?ks]
  have own: "own_hit 0 qs [] = None" using assms(2) by (simp add: own_hit_None)
  have L: "linked ?N qs ?A ?u"
    unfolding linked_def
  proof (intro conjI ballI allI impI)
    fix p assume "p \<in> ?A"
    then obtain x where x: "x \<in> set ?ks" "p = [x]" by blast
    then show "fail (node_at ?u p) = Some (lsuf ?N (tl p))" using F(3) kid by auto
    show "hit (node_at ?u p) = best qs p" using x F(2) kid P(2) own by (simp split: option.split)
  qed (use F(1,2) kid P(2) in auto)
  have so: "sorted (map length (map (\<lambda>x. [x]) ?ks))" by (simp add: comp_def sorted_wrt_map)
  have D: "distinct (map (\<lambda>x. [x]) ?ks)" using tree_okD(4) [OF P(1)] by (simp add: distinct_map inj_on_def)
  have E: "?A = {r \<in> ?N. r \<noteq> [] \<and> (butlast r = [] \<or> butlast r \<in> ?A - set (map (\<lambda>x. [x]) ?ks))}"
  proof
    show "?A \<subseteq> {r \<in> ?N. r \<noteq> [] \<and> (butlast r = [] \<or> butlast r \<in> ?A - set (map (\<lambda>x. [x]) ?ks))}" using kid by auto
    show "{r \<in> ?N. r \<noteq> [] \<and> (butlast r = [] \<or> butlast r \<in> ?A - set (map (\<lambda>x. [x]) ?ks))} \<subseteq> ?A"
    proof
      fix r assume "r \<in> {r \<in> ?N. r \<noteq> [] \<and> (butlast r = [] \<or> butlast r \<in> ?A - set (map (\<lambda>x. [x]) ?ks))}"
      then have "r \<in> ?N" "r = [last r]" by (auto, metis append_butlast_last_id append_Nil)
      then show "r \<in> ?A" using kid by (metis image_eqI)
    qed
  qed
  have "frontier ?N ?A (map (\<lambda>x. [x]) ?ks)"
    unfolding frontier_def
  proof (intro conjI ballI)
    fix r assume "r \<in> set (map (\<lambda>x. [x]) ?ks)"
    then have "length r = 1" by auto
    then show "length r \<le> Suc (length (hd (map (\<lambda>x. [x]) ?ks)))" by linarith
  qed (simp, rule D, rule so, rule E)
  from link_loop_linked [OF L this path_set_sup finite_path_set]
  show ?thesis using card_path_set [of qs]
    by (simp add: build_trie_def Let_def assms(1) comp_def less_Suc_eq_le)
qed

section \<open>What the automaton finds\<close>

definition scan :: "ac_trie \<Rightarrow> int list \<Rightarrow> int list" where
  "scan t w = foldl (step_trie t) [] w"

lemma scan_lsuf:
  assumes "linked N qs (N - {[]}) t"
  shows "scan t w = lsuf N w"
proof (induction w rule: rev_induct)
  case Nil
  then show ?case by (simp add: scan_def)
next
  case (snoc x w)
  note T = tree_okD [OF linkedD(1) [OF assms]]
  have "scan t (w @ [x]) = step_trie t (lsuf N w) x" using snoc by (simp add: scan_def)
  also have "\<dots> = lsuf N (lsuf N w @ [x])" by (rule step_trie_spec [OF assms lsuf_mem [OF T(2)]])
  also have "\<dots> = lsuf N (w @ [x])" by (rule lsuf_snoc [OF tree_ok_closed [OF linkedD(1) [OF assms]], symmetric])
  finally show ?case .
qed

lemma linked_hit: "linked N qs (N - {[]}) t \<Longrightarrow> set qs \<subseteq> N \<Longrightarrow> hit (node_at t (scan t w)) = best qs w"
proof -
  assume L: "linked N qs (N - {[]}) t" and sub: "set qs \<subseteq> N"
  have "lsuf N w \<in> N" by (rule lsuf_mem [OF tree_okD(2) [OF linkedD(1) [OF L]]])
  then have "hit (node_at t (lsuf N w)) = best qs (lsuf N w)"
    using linkedD(3,4) [OF L, of "lsuf N w"] by (cases "lsuf N w = []") auto
  then show ?thesis using scan_lsuf [OF L] best_lsuf [OF sub] by simp
qed

text \<open>\<open>best\<close>: the longest pattern that ends the text, of equal patterns the last.\<close>

lemma best_iff:
  "best qs w = Some (q, k) \<longleftrightarrow> suffix q w \<and> k < length qs \<and> qs ! k = q \<and>
     (\<forall>j < length qs. suffix (qs ! j) w \<longrightarrow> length (qs ! j) \<le> length q \<and> (qs ! j = q \<longrightarrow> j \<le> k))"
proof (induction w)
  case Nil
  show ?case by (auto simp: own_hit_Some) (meson leI)
next
  case (Cons x w)
  show ?case
  proof (cases "own_hit 0 qs (x # w)")
    case None
    then have "x # w \<notin> set qs" by (simp add: own_hit_None)
    then have "suffix (qs ! j) (x # w) \<longleftrightarrow> suffix (qs ! j) w" if "j < length qs" for j
      using that by (metis nth_mem suffix_Cons)
    then show ?thesis using Cons None by auto
  next
    case (Some h)
    obtain q1 k1 where h: "h = (q1, k1)" by (cases h)
    have K: "q1 = x # w" "k1 < length qs" "qs ! k1 = x # w" "\<forall>j. k1 < j \<longrightarrow> j < length qs \<longrightarrow> qs ! j \<noteq> x # w"
      using Some h own_hit_Some [of 0 qs "x # w" q1 k1] by auto
    have long: "q = x # w" if s: "suffix q (x # w)" and l: "length (x # w) \<le> length q" for q
    proof -
      obtain zs where zs: "x # w = zs @ q" using s by (auto simp: suffix_def)
      from arg_cong [OF this, of length] have "length zs = 0" using l by simp
      with zs show ?thesis by simp
    qed
    show ?thesis
    proof
      assume "best qs (x # w) = Some (q, k)"
      then show "suffix q (x # w) \<and> k < length qs \<and> qs ! k = q \<and>
        (\<forall>j < length qs. suffix (qs ! j) (x # w) \<longrightarrow> length (qs ! j) \<le> length q \<and> (qs ! j = q \<longrightarrow> j \<le> k))"
        using Some h K by (auto dest: suffix_length_le) (meson not_le_imp_less)
    next
      assume R: "suffix q (x # w) \<and> k < length qs \<and> qs ! k = q \<and>
        (\<forall>j < length qs. suffix (qs ! j) (x # w) \<longrightarrow> length (qs ! j) \<le> length q \<and> (qs ! j = q \<longrightarrow> j \<le> k))"
      then have "length (x # w) \<le> length q" using K(2,3) by (metis suffix_order.order_refl)
      then have q: "q = x # w" using R long by blast
      then have "k1 = k" using R K by (metis linorder_neqE_nat not_less suffix_order.order_refl)
      then show "best qs (x # w) = Some (q, k)" using Some h K q by simp
    qed
  qed
qed

section \<open>Properties\<close>

text \<open>
  C6. After any tokens, the match of the node the automaton stands on is the longest pattern those tokens
  end with, and the last of equal patterns; there is none exactly when no pattern ends them.
\<close>

theorem trie_finds_longest_suffix:
  assumes "[] \<notin> set (map pattern_tokens ps)"
  shows "hit (node_at (build_trie ps) (scan (build_trie ps) w)) = Some (q, k) \<longleftrightarrow>
    suffix q w \<and> k < length ps \<and> pattern_tokens (ps ! k) = q \<and>
    (\<forall>j < length ps. suffix (pattern_tokens (ps ! j)) w \<longrightarrow>
       length (pattern_tokens (ps ! j)) \<le> length q \<and> (pattern_tokens (ps ! j) = q \<longrightarrow> j \<le> k))"
proof -
  let ?qs = "map pattern_tokens ps"
  have "hit (node_at (build_trie ps) (scan (build_trie ps) w)) = best ?qs w"
    by (rule linked_hit [OF build_trie_linked [OF refl assms] path_set_sup])
  then show ?thesis by (auto simp: best_iff)
qed

theorem trie_finds_longest_suffix_witness:
  "hit (node_at (build_trie [Token 2, Tokens [1, 2]]) (scan (build_trie [Token 2, Tokens [1, 2]]) [7, 1, 2])) = Some ([1, 2], 1)"
proof -
  have "[] \<notin> set (map pattern_tokens [Token 2, Tokens [1, 2]])" by simp
  from trie_finds_longest_suffix [OF this, of "[7, 1, 2]" "[1, 2]" 1] show ?thesis
    by (auto simp: suffix_def less_Suc_eq)
qed

end
