(* ===== verification/Bounded_Store.thy ===== *)
theory Bounded_Store
  imports Prelude
begin

text \<open>
  The interface of the program's size-bounded registries: an insertion is found again, other entries
  either stay or are dropped, and the size never passes the limit.  What a client may rely on is proved
  once here; the state-machine factory's cache and the context-clamp registry provide it.
\<close>

locale bounded_store =
  fixes get :: "'s \<Rightarrow> 'k \<Rightarrow> 'v option"
    and put :: "'k \<Rightarrow> 'v \<Rightarrow> 's \<Rightarrow> 's"
    and count :: "'s \<Rightarrow> nat"
    and limit :: nat
    and ok :: "'s \<Rightarrow> bool"
  assumes put_ok: "ok s \<Longrightarrow> ok (put k v s)"
    and get_put: "ok s \<Longrightarrow> get (put k v s) k = Some v"
    and put_other: "ok s \<Longrightarrow> k' \<noteq> k \<Longrightarrow> get (put k v s) k' = get s k' \<or> get (put k v s) k' = None"
    and ok_limit: "ok s \<Longrightarrow> count s \<le> limit"
begin

definition puts :: "('k \<times> 'v) list \<Rightarrow> 's \<Rightarrow> 's" where
  "puts kvs s = fold (\<lambda>(k, v). put k v) kvs s"

lemma puts_ok: "ok s \<Longrightarrow> ok (puts kvs s)"
  unfolding puts_def by (induction kvs arbitrary: s) (auto simp: put_ok)

lemma puts_limit: "ok s \<Longrightarrow> count (puts kvs s) \<le> limit"
  by (simp add: ok_limit puts_ok)

lemma puts_latest:
  "ok s \<Longrightarrow> get (puts kvs s) k = Some v \<Longrightarrow>
   map_of (rev kvs) k = Some v \<or> k \<notin> fst ` set kvs \<and> get s k = Some v"
proof (induction kvs rule: rev_induct)
  case (snoc x kvs)
  obtain k1 v1 where x: "x = (k1, v1)" by (cases x)
  have ok: "ok (puts kvs s)" by (rule puts_ok [OF snoc.prems(1)])
  have e: "puts (kvs @ [x]) s = put k1 v1 (puts kvs s)" by (simp add: puts_def x)
  show ?case
  proof (cases "k = k1")
    case True
    then show ?thesis using snoc.prems(2) get_put [OF ok] e x by simp
  next
    case False
    then have "get (puts kvs s) k = Some v" using snoc.prems(2) put_other [OF ok False, of v1] e by auto
    with snoc.IH [OF snoc.prems(1)] False show ?thesis by (simp add: x)
  qed
qed (simp add: puts_def)

lemma put_from:
  assumes "ok s" "get (put k v s) k' = Some v'" "get s k' = Some v' \<longrightarrow> P k' v'" "P k v"
  shows "P k' v'"
  using assms get_put [OF assms(1), of k v] put_other [OF assms(1), of k' k v] by (cases "k' = k") auto

end

text \<open>\<open>while len(d) > limit: d.popitem(last=False)\<close>.\<close>

function shrink :: "nat \<Rightarrow> ('k, 'v) pydict \<Rightarrow> ('k, 'v) pydict" where
  "shrink limit d = (if limit < length d then shrink limit (tl d) else d)"
  by pat_completeness auto
termination by (relation "measure (length \<circ> snd)") auto

declare shrink.simps [simp del]

lemma shrink_drop: "shrink limit d = drop (length d - limit) d"
proof (induction limit d rule: shrink.induct)
  case (1 limit d)
  show ?case
  proof (cases "limit < length d")
    case True
    then have "length d - limit = Suc (length (tl d) - limit)" by simp
    moreover have "shrink limit d = shrink limit (tl d)" using True by (simp add: shrink.simps [of limit d])
    ultimately show ?thesis using True 1 by (simp add: drop_Suc)
  qed (simp add: shrink.simps [of limit d])
qed

lemma length_shrink: "length (shrink limit d) \<le> limit"
  by (simp add: shrink_drop)

lemma set_shrink: "set (shrink limit d) \<subseteq> set d"
  by (simp add: shrink_drop set_drop_subset)

lemma pd_ok_shrink: "pd_ok d \<Longrightarrow> pd_ok (shrink limit d)"
  by (simp add: shrink_drop pd_ok_def distinct_drop flip: drop_map)

lemma pd_get_shrink: "pd_ok d \<Longrightarrow> pd_get (shrink limit d) k = pd_get d k \<or> pd_get (shrink limit d) k = None"
proof (cases "pd_get (shrink limit d) k")
  case (Some v)
  assume d: "pd_ok d"
  have "(k, v) \<in> set d" using Some set_shrink [of limit d] by (auto dest: map_of_SomeD)
  then have "pd_get d k = Some v" using d by (simp add: pd_get_eq_Some_iff)
  then show ?thesis using Some by simp
qed simp

text \<open>The entry moved to the end survives.\<close>

lemma pd_move_append: "pd_get d k = Some v \<Longrightarrow> pd_move_to_end d k = pd_del d k @ [(k, v)]"
  by (simp add: pd_move_to_end_def)

lemma shrink_last: "1 \<le> limit \<Longrightarrow> d \<noteq> [] \<Longrightarrow> last (shrink limit d) = last d \<and> shrink limit d \<noteq> []"
  by (cases d rule: rev_cases) (auto simp: shrink_drop)

definition lru_put :: "nat \<Rightarrow> 'k \<Rightarrow> 'v \<Rightarrow> ('k, 'v) pydict \<Rightarrow> ('k, 'v) pydict" where
  "lru_put limit k v d = shrink limit (pd_move_to_end (pd_set d k v) k)"

lemma lru_put_get: "1 \<le> limit \<Longrightarrow> pd_ok d \<Longrightarrow> pd_get (lru_put limit k v d) k = Some v"
proof -
  assume l: "1 \<le> limit" and d: "pd_ok d"
  let ?e = "pd_move_to_end (pd_set d k v) k"
  have e: "?e = pd_del (pd_set d k v) k @ [(k, v)]" by (rule pd_move_append) simp
  then have "last (shrink limit ?e) = (k, v)" "shrink limit ?e \<noteq> []" using shrink_last [OF l, of ?e] by simp_all
  then have "(k, v) \<in> set (shrink limit ?e)" by (metis last_in_set)
  moreover have "pd_ok (shrink limit ?e)" by (rule pd_ok_shrink) (simp add: d)
  ultimately show ?thesis by (simp add: lru_put_def pd_get_eq_Some_iff)
qed

lemma lru_put_store: "1 \<le> limit \<Longrightarrow> bounded_store pd_get (lru_put limit) length limit (\<lambda>d. pd_ok d \<and> length d \<le> limit)"
proof
  fix s :: "('k, 'v) pydict" and k k' v
  assume "1 \<le> limit" and s: "pd_ok s \<and> length s \<le> limit"
  then show "pd_get (lru_put limit k v s) k = Some v" by (simp add: lru_put_get)
  show "pd_ok (lru_put limit k v s) \<and> length (lru_put limit k v s) \<le> limit"
    using s by (simp add: lru_put_def pd_ok_shrink length_shrink)
  show "pd_get (lru_put limit k v s) k' = pd_get s k' \<or> pd_get (lru_put limit k v s) k' = None" if "k' \<noteq> k"
    using pd_get_shrink [of "pd_move_to_end (pd_set s k v) k" limit k'] s that by (simp add: lru_put_def)
qed simp

end
