(* ===== verification/Sequence_Machine.thy ===== *)
theory Sequence_Machine
  imports State_Machine Bounded_Store
begin

text \<open>
  \<open>vmlx_engine/state_machine.py\<close>: what \<open>SequenceStateMachine\<close> and its factory promise.  The machine
  refines a specification without tries, the factory's machines never leave their table, and its cache
  cannot be told from building anew.
\<close>

section \<open>The factory\<close>

fun map_may :: "('a \<Rightarrow> 'b may_raise) \<Rightarrow> 'a list \<Rightarrow> 'b list may_raise" where
  "map_may f [] = Inr []"
| "map_may f (x # xs) =
     (case f x of
        Inl e \<Rightarrow> Inl e
      | Inr y \<Rightarrow> (case map_may f xs of Inl e \<Rightarrow> Inl e | Inr ys \<Rightarrow> Inr (y # ys)))"

definition to_token_seq :: "(string \<Rightarrow> int option) \<Rightarrow> pyval \<Rightarrow> int list may_raise" where
  "to_token_seq parse v =
     (case v of
        PyInt i \<Rightarrow> Inr [i]
      | PyBool b \<Rightarrow> Inr [if b then 1 else 0]
      | PyList vs \<Rightarrow> map_may (py_int parse) vs
      | PyTuple vs \<Rightarrow> map_may (py_int parse) vs
      | _ \<Rightarrow> Inl TypeError)"

record factory_args =
  fa_model_key :: string
  fa_reasoning_parser :: "string option"
  fa_tool_parser :: "string option"
  fa_reasoning_start :: "pyval list"
  fa_reasoning_end :: "pyval list"
  fa_tool_start :: "pyval list"
  fa_tool_end :: "pyval list"
  fa_eos :: "pyval list"
  fa_stop :: "pyval list"
  fa_initial :: string

record factory_key =
  fk_model_key :: string
  fk_reasoning_parser :: string
  fk_tool_parser :: string
  fk_rs :: "int list list"
  fk_re :: "int list list"
  fk_ts :: "int list list"
  fk_te :: "int list list"
  fk_eos :: "int list list"
  fk_stop :: "int list list"
  fk_initial :: string

definition cache_key :: "(string \<Rightarrow> int option) \<Rightarrow> factory_args \<Rightarrow> factory_key may_raise" where
  "cache_key parse a =
     (case map_may (map_may (to_token_seq parse))
        [fa_reasoning_start a, fa_reasoning_end a, fa_tool_start a, fa_tool_end a, fa_eos a, fa_stop a] of
        Inl e \<Rightarrow> Inl e
      | Inr [rs, re, ts, te, eos, stop] \<Rightarrow>
          Inr \<lparr>fk_model_key = fa_model_key a, fk_reasoning_parser = (case fa_reasoning_parser a of None \<Rightarrow> [] | Some p \<Rightarrow> p),
            fk_tool_parser = (case fa_tool_parser a of None \<Rightarrow> [] | Some p \<Rightarrow> p), fk_rs = rs, fk_re = re, fk_ts = ts,
            fk_te = te, fk_eos = eos, fk_stop = stop, fk_initial = fa_initial a\<rparr>
      | Inr _ \<Rightarrow> Inl ValueError)"

abbreviation edges_to :: "int list list \<Rightarrow> string option \<Rightarrow> edges" where
  "edges_to seqs d \<equiv> map (\<lambda>q. (Tokens q, d)) seqs"

definition factory_transitions :: "factory_key \<Rightarrow> (string, edges) pydict" where
  "factory_transitions k =
     [(''normal'', edges_to (fk_rs k) (Some ''reasoning'') @ edges_to (fk_ts k) (Some ''tool'') @
        edges_to (fk_eos k) None @ edges_to (fk_stop k) None)] @
     (if fk_rs k \<noteq> [] \<or> fk_re k \<noteq> [] then
        [(''reasoning'', edges_to (fk_re k) (Some ''normal'') @ edges_to (fk_eos k) None @ edges_to (fk_stop k) None)] else []) @
     (if fk_ts k \<noteq> [] \<or> fk_te k \<noteq> [] then
        [(''tool'', edges_to (fk_te k) (Some ''normal'') @ edges_to (fk_eos k) None @ edges_to (fk_stop k) None)] else [])"

definition factory_machine :: "factory_key \<Rightarrow> machine" where
  "factory_machine k = new_machine (factory_transitions k) (fk_initial k)"

definition factory_cache_max :: nat where
  "factory_cache_max = 100"

type_synonym factory_cache = "(factory_key, machine) pydict"

definition make_state_machine ::
  "(string \<Rightarrow> int option) \<Rightarrow> factory_args \<Rightarrow> factory_cache \<Rightarrow> machine may_raise \<times> factory_cache" where
  "make_state_machine parse a cache =
     (case cache_key parse a of
        Inl e \<Rightarrow> (Inl e, cache)
      | Inr k \<Rightarrow>
          (case pd_get cache k of
             Some m \<Rightarrow> (Inr m, pd_move_to_end cache k)
           | None \<Rightarrow> (let m = factory_machine k in (Inr m, lru_put factory_cache_max k m cache))))"

definition reset_factory_cache :: "factory_cache \<Rightarrow> factory_cache" where
  "reset_factory_cache cache = []"

interpretation fc: bounded_store "pd_get :: factory_cache \<Rightarrow> _" "lru_put factory_cache_max" length factory_cache_max
  "\<lambda>d. pd_ok d \<and> length d \<le> factory_cache_max"
  by (rule lru_put_store) (simp add: factory_cache_max_def)

text \<open>A cache that holds, under each key, the machine that key builds.\<close>

definition coherent :: "factory_cache \<Rightarrow> bool" where
  "coherent c \<longleftrightarrow> (\<forall>k m. pd_get c k = Some m \<longrightarrow> m = factory_machine k)"

definition cache_ok :: "factory_cache \<Rightarrow> bool" where
  "cache_ok c \<longleftrightarrow> pd_ok c \<and> length c \<le> factory_cache_max \<and> coherent c"

lemma make_state_machine_ok:
  assumes "cache_ok c"
  shows "cache_ok (snd (make_state_machine parse a c))"
    and "fst (make_state_machine parse a c) = map_sum id factory_machine (cache_key parse a)"
proof -
  show "fst (make_state_machine parse a c) = map_sum id factory_machine (cache_key parse a)"
    using assms by (auto simp: make_state_machine_def cache_ok_def coherent_def Let_def split: sum.split option.split)
  show "cache_ok (snd (make_state_machine parse a c))"
  proof (cases "cache_key parse a")
    case (Inl e)
    then show ?thesis using assms by (simp add: make_state_machine_def)
  next
    case (Inr k)
    show ?thesis
    proof (cases "pd_get c k")
      case None
      let ?d = "lru_put factory_cache_max k (factory_machine k) c"
      have ok: "pd_ok c \<and> length c \<le> factory_cache_max" using assms by (simp add: cache_ok_def)
      have "m = factory_machine k'" if "pd_get ?d k' = Some m" for k' m
        by (rule fc.put_from [OF ok that, where P = "\<lambda>k m. m = factory_machine k"])
          (use assms in \<open>simp_all add: cache_ok_def coherent_def\<close>)
      then have "coherent ?d" unfolding coherent_def by blast
      moreover have "snd (make_state_machine parse a c) = ?d" using Inr None by (simp add: make_state_machine_def Let_def)
      ultimately show ?thesis using fc.put_ok [OF ok] by (simp add: cache_ok_def)
    next
      case (Some m)
      then show ?thesis using Inr assms by (simp add: make_state_machine_def cache_ok_def coherent_def)
    qed
  qed
qed

section \<open>The machine without tries\<close>

text \<open>
  The specification: a state name and the tokens seen since it was entered.  A transition fires when one
  of its patterns ends those tokens; the longest wins, of equal ones the last.
\<close>

type_synonym spec_state = "string option \<times> int list"

definition edge_patterns :: "edges \<Rightarrow> int list list" where
  "edge_patterns es = map (pattern_tokens \<circ> fst) es"

definition spec_token ::
  "(string \<rightharpoonup> edges) \<Rightarrow> spec_state \<Rightarrow> int \<Rightarrow> spec_state \<times> int list option \<times> string option" where
  "spec_token E st x =
     (case fst st of
        None \<Rightarrow> (st, None, None)
      | Some s \<Rightarrow>
          (let es = the (E s); w = snd st @ [x]
           in case best (edge_patterns es) w of
                None \<Rightarrow> ((Some s, w), None, Some s)
              | Some (q, i) \<Rightarrow> ((snd (es ! i), []), Some q, snd (es ! i))))"

fun feed :: "machine \<Rightarrow> run_state \<Rightarrow> int list \<Rightarrow> ((int list option \<times> string option) list \<times> run_state) may_raise" where
  "feed m st [] = Inr ([], st)"
| "feed m st (x # xs) =
     (case match_token m st x of
        Inl e \<Rightarrow> Inl e
      | Inr (st', out) \<Rightarrow> (case feed m st' xs of Inl e \<Rightarrow> Inl e | Inr (outs, u) \<Rightarrow> Inr (out # outs, u)))"

fun spec_feed :: "(string \<rightharpoonup> edges) \<Rightarrow> spec_state \<Rightarrow> int list \<Rightarrow> (int list option \<times> string option) list \<times> spec_state" where
  "spec_feed E st [] = ([], st)"
| "spec_feed E st (x # xs) =
     (let (st', out) = spec_token E st x; (outs, u) = spec_feed E st' xs in (out # outs, u))"

text \<open>Transition tables whose targets exist and whose patterns are not empty.\<close>

definition table_of :: "(string, edges) pydict \<Rightarrow> string \<Rightarrow> (string \<rightharpoonup> edges)" where
  "table_of T init = (\<lambda>s. if s = init \<and> pd_get T s = None then Some [] else pd_get T s)"

definition table_ok :: "(string, edges) pydict \<Rightarrow> string \<Rightarrow> bool" where
  "table_ok T init \<longleftrightarrow> pd_ok T \<and>
     (\<forall>s es. pd_get T s = Some es \<longrightarrow> [] \<notin> set (edge_patterns es) \<and>
        (\<forall>d. Some d \<in> snd ` set es \<longrightarrow> table_of T init d \<noteq> None))"

lemma fold_compile:
  "pd_ok T \<Longrightarrow> pd_get (fold (\<lambda>(src, es) d. pd_set d src (compile_edges es)) T d) s =
   (case pd_get T s of Some es \<Rightarrow> Some (compile_edges es) | None \<Rightarrow> pd_get d s)"
proof (induction T arbitrary: d)
  case (Cons x T)
  obtain src es where x: "x = (src, es)" by (cases x)
  then have "pd_get T src = None" using Cons.prems by (simp add: pd_get_None_iff)
  with Cons x show ?case by (auto split: option.split)
qed simp

lemma new_machine_states:
  assumes "pd_ok T"
  shows "pd_get (states (new_machine T init)) s = map_option compile_edges (table_of T init s)"
    "initial (new_machine T init) = init"
proof -
  let ?sts = "fold (\<lambda>(src, es) d. pd_set d src (compile_edges es)) T []"
  have F: "pd_get ?sts r = map_option compile_edges (pd_get T r)" for r
    using fold_compile [OF assms, of "[]" r] by (simp split: option.split)
  have nil: "compile_edges [] = (build_trie [], [])" by (simp add: compile_edges_def)
  show "pd_get (states (new_machine T init)) s = map_option compile_edges (table_of T init s)"
    by (cases "pd_get T init") (auto simp: new_machine_def Let_def F table_of_def nil)
  show "initial (new_machine T init) = init" by (simp add: new_machine_def Let_def)
qed

lemma compiled:
  assumes "[] \<notin> set (edge_patterns es)"
  shows "linked (path_set (edge_patterns es)) (edge_patterns es) (path_set (edge_patterns es) - {[]}) (fst (compile_edges es))"
  unfolding compile_edges_def fst_conv by (rule build_trie_linked) (use assms in \<open>simp_all add: edge_patterns_def\<close>)

definition related :: "(string, edges) pydict \<Rightarrow> string \<Rightarrow> spec_state \<Rightarrow> run_state \<Rightarrow> bool" where
  "related T init a c \<longleftrightarrow> fst c = fst a \<and>
     (case fst a of None \<Rightarrow> True
      | Some s \<Rightarrow> table_of T init s \<noteq> None \<and> snd c = scan (build_trie (map fst (the (table_of T init s)))) (snd a))"

lemma related_start: "related T init (Some init, []) (Some init, [])"
  by (simp add: related_def table_of_def scan_def)

lemma match_token_refines:
  assumes T: "table_ok T init" and rel: "related T init a c"
  shows "\<exists>c'. match_token (new_machine T init) c x = Inr (c', snd (spec_token (table_of T init) a x)) \<and>
    related T init (fst (spec_token (table_of T init) a x)) c'"
proof (cases "fst a")
  case None
  then show ?thesis using rel by (simp add: related_def match_token_def spec_token_def)
next
  case (Some s)
  have ok: "pd_ok T" using T by (simp add: table_ok_def)
  note M = new_machine_states(1) [OF ok, of init]
  obtain es where es: "table_of T init s = Some es" and cs: "fst c = Some s" "snd c = scan (build_trie (map fst es)) (snd a)"
    using rel Some by (auto simp: related_def)
  have good: "[] \<notin> set (edge_patterns es) \<and> (\<forall>d. Some d \<in> snd ` set es \<longrightarrow> table_of T init d \<noteq> None)"
  proof (cases "pd_get T s")
    case None
    then have "es = []" using es by (simp add: table_of_def split: if_splits)
    then show ?thesis by (simp add: edge_patterns_def)
  next
    case (Some es')
    then show ?thesis using T es by (auto simp: table_ok_def table_of_def)
  qed
  let ?qs = "edge_patterns es" let ?t = "build_trie (map fst es)" let ?w = "snd a @ [x]"
  have L: "linked (path_set ?qs) ?qs (path_set ?qs - {[]}) ?t"
    using compiled [of es] good by (simp add: compile_edges_def)
  have st: "step_trie ?t (snd c) x = scan ?t ?w" by (simp add: cs(2) scan_def)
  have hit: "hit (node_at ?t (scan ?t ?w)) = best ?qs ?w" by (rule linked_hit [OF L path_set_sup])
  have state: "pd_get (states (new_machine T init)) s = Some (?t, map snd es)" using M es by (simp add: compile_edges_def)
  show ?thesis
  proof (cases "best ?qs ?w")
    case None
    then show ?thesis using Some cs(1) es st hit state
      by (simp add: match_token_def spec_token_def related_def Let_def)
  next
    case (Some qi)
    obtain q i where qi: "qi = (q, i)" by (cases qi)
    then have i: "i < length es" using Some best_iff [of ?qs ?w q i] by (simp add: edge_patterns_def)
    have spec: "spec_token (table_of T init) a x = ((snd (es ! i), []), Some q, snd (es ! i))"
      using \<open>fst a = Some s\<close> es Some qi by (simp add: spec_token_def Let_def)
    have rest: "match_token (new_machine T init) c x = (case snd (es ! i) of
        None \<Rightarrow> Inr ((None, []), Some q, None)
      | Some d \<Rightarrow> if pd_get (states (new_machine T init)) d = None then Inl KeyError else Inr ((Some d, []), Some q, Some d))"
      using cs(1) st hit state Some qi i by (simp add: match_token_def Let_def)
    show ?thesis
    proof (cases "snd (es ! i)")
      case None
      then show ?thesis using rest spec by (simp add: related_def)
    next
      case (Some d)
      then have "Some d \<in> snd ` set es" using i by (metis image_eqI nth_mem)
      then have "table_of T init d \<noteq> None" using good by blast
      then show ?thesis using rest spec Some M by (auto simp: related_def scan_def)
    qed
  qed
qed

lemma feed_refines:
  "table_ok T init \<Longrightarrow> related T init a c \<Longrightarrow>
   \<exists>c'. feed (new_machine T init) c xs = Inr (fst (spec_feed (table_of T init) a xs), c') \<and>
     related T init (snd (spec_feed (table_of T init) a xs)) c'"
proof (induction xs arbitrary: a c)
  case (Cons x xs)
  obtain c1 where c1: "match_token (new_machine T init) c x = Inr (c1, snd (spec_token (table_of T init) a x))"
    "related T init (fst (spec_token (table_of T init) a x)) c1"
    using match_token_refines [OF Cons.prems] by blast
  from Cons.IH [OF Cons.prems(1) c1(2)] show ?case using c1(1) by (auto simp: case_prod_unfold Let_def)
qed simp

text \<open>Skipping a prefix is matching it token by token.\<close>

lemma halted_feed: "feed m (None, n) xs = Inr (replicate (length xs) (None, None), (None, n))"
  by (induction xs) (simp_all add: match_token_def)

lemma match_current: "match_token m st x = Inr (st', sq, cur) \<Longrightarrow> cur = fst st'"
  by (auto simp: match_token_def Let_def split: option.splits if_splits)

lemma advance_feed: "map_sum id snd (feed m st xs) = advance_from m st xs"
proof (induction xs arbitrary: st)
  case (Cons x xs)
  show ?case
  proof (cases "match_token m st x")
    case (Inr r)
    obtain st' sq cur where r: "r = (st', sq, cur)" by (cases r) auto
    show ?thesis
    proof (cases cur)
      case None
      then have "fst st' = None" using match_current [of m st x st' sq cur] Inr r by simp
      then obtain n where "st' = (None, n)" by (cases st') auto
      then show ?thesis using None Inr r by (simp add: halted_feed)
    next
      case (Some s)
      then show ?thesis using Cons.IH [of st'] Inr r by (cases "feed m st' xs") auto
    qed
  qed simp
qed simp

lemma factory_table:
  assumes "[] \<notin> set (fk_rs k @ fk_re k @ fk_ts k @ fk_te k @ fk_eos k @ fk_stop k)"
  shows "table_ok (factory_transitions k) (fk_initial k)"
  unfolding table_ok_def
proof (intro conjI allI impI)
  let ?T = "factory_transitions k"
  show "pd_ok ?T" by (simp add: factory_transitions_def)
  fix s es assume s: "pd_get ?T s = Some es"
  then show "[] \<notin> set (edge_patterns es)"
    using assms by (auto simp: factory_transitions_def edge_patterns_def split: if_splits)
  fix d assume "Some d \<in> snd ` set es"
  with s have "d = ''normal'' \<or> d = ''reasoning'' \<and> fk_rs k \<noteq> [] \<or> d = ''tool'' \<and> fk_ts k \<noteq> []"
    by (auto simp: factory_transitions_def split: if_splits)
  then show "table_of ?T (fk_initial k) d \<noteq> None" by (auto simp: factory_transitions_def table_of_def)
qed

section \<open>Properties\<close>

definition demo_args :: factory_args where
  "demo_args = \<lparr>fa_model_key = ''m'', fa_reasoning_parser = None, fa_tool_parser = Some ''hermes'',
     fa_reasoning_start = [PyList [PyInt 5, PyInt 6]], fa_reasoning_end = [PyInt 7], fa_tool_start = [], fa_tool_end = [],
     fa_eos = [PyInt 2], fa_stop = [], fa_initial = ''normal''\<rparr>"

definition demo_key :: factory_key where
  "demo_key = \<lparr>fk_model_key = ''m'', fk_reasoning_parser = [], fk_tool_parser = ''hermes'', fk_rs = [[5, 6]], fk_re = [[7]],
     fk_ts = [], fk_te = [], fk_eos = [[2]], fk_stop = [], fk_initial = ''normal''\<rparr>"

text \<open>
  C26. A machine of the factory, built from tag, end and stop sequences none of which is empty, never
  raises, whatever tokens it is fed: it makes the transitions of the specification without tries, which
  takes in each state the longest of the state's sequences the tokens since the last transition end with.
\<close>

theorem factory_machine_refines_spec:
  assumes "[] \<notin> set (fk_rs k @ fk_re k @ fk_ts k @ fk_te k @ fk_eos k @ fk_stop k)"
  shows "make_state (factory_machine k) = Inr (Some (fk_initial k), []) \<and>
    (\<exists>c. feed (factory_machine k) (Some (fk_initial k), []) xs =
        Inr (fst (spec_feed (table_of (factory_transitions k) (fk_initial k)) (Some (fk_initial k), []) xs), c) \<and>
      current_state c = fst (snd (spec_feed (table_of (factory_transitions k) (fk_initial k)) (Some (fk_initial k), []) xs)))"
proof -
  note T = factory_table [OF assms]
  have ok: "pd_ok (factory_transitions k)" using T by (simp add: table_ok_def)
  have "make_state (factory_machine k) = Inr (Some (fk_initial k), [])"
    using new_machine_states [OF ok, of "fk_initial k"] by (simp add: make_state_def factory_machine_def table_of_def)
  then show ?thesis
    using feed_refines [OF T related_start, of xs] by (auto simp: factory_machine_def related_def current_state_def)
qed

theorem factory_machine_refines_spec_witness:
  "\<exists>c. feed (factory_machine demo_key) (Some ''normal'', []) [5, 6, 7] =
     Inr (fst (spec_feed (table_of (factory_transitions demo_key) ''normal'') (Some ''normal'', []) [5, 6, 7]), c)"
proof -
  have "[] \<notin> set (fk_rs demo_key @ fk_re demo_key @ fk_ts demo_key @ fk_te demo_key @ fk_eos demo_key @ fk_stop demo_key)"
    by (simp add: demo_key_def)
  from factory_machine_refines_spec [OF this, of "[5, 6, 7]"] show ?thesis by (auto simp: demo_key_def)
qed

text \<open>
  Advancing across a trusted prefix is matching it token by token: the same state, the same
  exception, and a halt inside the prefix is where matching would have stayed.
\<close>

lemma advance_is_matching:
  "advance_from m st xs = map_sum id snd (feed m st xs) \<and>
   (\<forall>st'. advance_from m st xs = Inr st' \<longrightarrow> current_state st' \<noteq> None \<longrightarrow>
      advance_from m st (xs @ ys) = advance_from m st' ys)"
proof -
  have "\<forall>st'. advance_from m st xs = Inr st' \<longrightarrow> current_state st' \<noteq> None \<longrightarrow>
      advance_from m st (xs @ ys) = advance_from m st' ys"
  proof (induction xs arbitrary: st)
    case (Cons x xs)
    show ?case
    proof (cases "match_token m st x")
      case (Inr r)
      obtain st1 sq cur where r: "r = (st1, sq, cur)" by (cases r) auto
      then have "cur = fst st1" using match_current Inr by blast
      then show ?thesis using Cons.IH [of st1] Inr r by (auto simp: current_state_def)
    qed simp
  qed simp
  then show ?thesis using advance_feed [of m st xs] by simp
qed

lemma demo_run:
  "advance_from (factory_machine demo_key) (Some ''normal'', []) [5] = Inr (Some ''normal'', [5])"
  "advance_from (factory_machine demo_key) (Some ''normal'', [5]) [6] = Inr (Some ''reasoning'', [])"
  by code_simp+

text \<open>
  The factory's cache cannot be observed: from a cache the factory has filled, every call returns the
  machine its arguments determine or raises what reading its arguments raises, and leaves a cache of at
  most 100 machines, each under the key that builds it.
\<close>

lemma factory_cache_transparent:
  assumes "cache_ok c"
  shows "fst (make_state_machine parse a c) = map_sum id factory_machine (cache_key parse a) \<and>
    cache_ok (snd (make_state_machine parse a c)) \<and> length (snd (make_state_machine parse a c)) \<le> 100"
  using make_state_machine_ok [OF assms, of parse a] by (simp add: cache_ok_def factory_cache_max_def)

end
