(* ===== verification/Context_Limits.thy ===== *)
theory Context_Limits
  imports Py_Values Bounded_Store
begin

text \<open>
  \<open>vmlx_engine/context_limits.py\<close>: the declared context ceiling, the output clamp, and the two
  registries of clamped and effort-substituted requests.  The module's globals are a record; the
  environment variables are an argument; each call is one critical section.
\<close>

section \<open>State\<close>

record clamp_record =
  cl_prompt_tokens :: int
  cl_requested_max_tokens :: int
  cl_clamped_max_tokens :: int
  cl_declared_context_tokens :: int

record effort_record =
  ef_requested :: string
  ef_effective :: string
  ef_stamped_levels :: "string list"

text \<open>A registry: the dictionary and the list of its keys in order of first insertion.\<close>

record 'v registry =
  entries :: "(string, 'v) pydict"
  order :: "string list"

record limits_state =
  declared_context_tokens :: int
  clamped_requests :: "clamp_record registry"
  effort_substitutions :: "effort_record registry"

definition empty_registry :: "'v registry" where
  "empty_registry = \<lparr>entries = [], order = []\<rparr>"

definition initial_limits :: limits_state where
  "initial_limits = \<lparr>declared_context_tokens = 0, clamped_requests = empty_registry, effort_substitutions = empty_registry\<rparr>"

definition clamp_registry_max :: nat where
  "clamp_registry_max = 256"

section \<open>Operations\<close>

text \<open>\<open>int(value or 0)\<close>: a false value counts as 0.\<close>

fun py_falsy :: "pyval \<Rightarrow> bool" where
  "py_falsy PyNone = True"
| "py_falsy (PyBool b) = (\<not> b)"
| "py_falsy (PyInt i) = (i = 0)"
| "py_falsy (PyFloat x) = (x = 0)"
| "py_falsy (PyStr s) = (s = [])"
| "py_falsy (PyBytes s) = (s = [])"
| "py_falsy (PyList vs) = (vs = [])"
| "py_falsy (PyTuple vs) = (vs = [])"
| "py_falsy (PyDict d) = (d = [])"
| "py_falsy (PyArray _ _ _) = False"

definition int_or_zero :: "(string \<Rightarrow> int option) \<Rightarrow> pyval \<Rightarrow> int may_raise" where
  "int_or_zero parse v = (if py_falsy v then Inr 0 else py_int parse v)"

definition set_declared_context_tokens :: "(string \<Rightarrow> int option) \<Rightarrow> pyval \<Rightarrow> limits_state \<Rightarrow> limits_state" where
  "set_declared_context_tokens parse v s =
     s\<lparr>declared_context_tokens := (case int_or_zero parse v of Inl _ \<Rightarrow> 0 | Inr i \<Rightarrow> max 0 i)\<rparr>"

text \<open>\<open>os.environ.get(A, os.environ.get(B, "1"))\<close>.\<close>

definition clamp_enabled :: "(string \<Rightarrow> string option) \<Rightarrow> bool" where
  "clamp_enabled env =
     (let raw = (case env ''VMLX_CONTEXT_OUTPUT_CLAMP'' of
          Some v \<Rightarrow> v
        | None \<Rightarrow> (case env ''VMLINUX_CONTEXT_OUTPUT_CLAMP'' of Some v \<Rightarrow> v | None \<Rightarrow> ''1''))
      in py_lower (py_strip raw) \<notin> {''0'', ''false'', ''no'', ''off''})"

fun drop_stale :: "nat \<Rightarrow> string list \<Rightarrow> (string, 'v) pydict \<Rightarrow> string list \<times> (string, 'v) pydict" where
  "drop_stale limit [] d = ([], d)"
| "drop_stale limit (x # xs) d = (if limit < length (x # xs) then drop_stale limit xs (pd_del d x) else (x # xs, d))"

definition record_entry :: "string \<Rightarrow> 'v \<Rightarrow> 'v registry \<Rightarrow> 'v registry" where
  "record_entry rid v r =
     (let r1 = (if pd_get (entries r) rid = None then
           (let (o1, d1) = drop_stale clamp_registry_max (order r @ [rid]) (entries r) in \<lparr>entries = d1, order = o1\<rparr>)
         else r)
      in r1\<lparr>entries := pd_set (entries r1) rid v\<rparr>)"

definition pop_entry :: "string \<Rightarrow> 'v registry \<Rightarrow> 'v option \<times> 'v registry" where
  "pop_entry rid r =
     (case pd_get (entries r) rid of
        None \<Rightarrow> (None, r)
      | Some v \<Rightarrow> (Some v, \<lparr>entries = pd_del (entries r) rid, order = remove1 rid (order r)\<rparr>))"

definition peek_entry :: "string \<Rightarrow> 'v registry \<Rightarrow> 'v option" where
  "peek_entry rid r = pd_get (entries r) rid"

definition record_context_clamp :: "string \<Rightarrow> clamp_record \<Rightarrow> limits_state \<Rightarrow> limits_state" where
  "record_context_clamp rid c s = s\<lparr>clamped_requests := record_entry rid c (clamped_requests s)\<rparr>"

definition pop_context_clamp :: "string \<Rightarrow> limits_state \<Rightarrow> clamp_record option \<times> limits_state" where
  "pop_context_clamp rid s = (let (v, r) = pop_entry rid (clamped_requests s) in (v, s\<lparr>clamped_requests := r\<rparr>))"


definition record_effort_substitution :: "string \<Rightarrow> effort_record \<Rightarrow> limits_state \<Rightarrow> limits_state" where
  "record_effort_substitution rid e s = s\<lparr>effort_substitutions := record_entry rid e (effort_substitutions s)\<rparr>"

definition pop_effort_substitution :: "string \<Rightarrow> limits_state \<Rightarrow> effort_record option \<times> limits_state" where
  "pop_effort_substitution rid s =
     (let (v, r) = pop_entry rid (effort_substitutions s) in (v, s\<lparr>effort_substitutions := r\<rparr>))"

text \<open>The clamp: the budget given back is the caller's value unless it is cut or was compared.\<close>

definition clamp_output_to_declared_context ::
  "(string \<Rightarrow> int option) \<Rightarrow> (string \<Rightarrow> string option) \<Rightarrow> pyval \<Rightarrow> pyval \<Rightarrow> string \<Rightarrow> limits_state \<Rightarrow> pyval \<times> limits_state" where
  "clamp_output_to_declared_context parse env prompt_tokens requested_max rid s =
     (if requested_max = PyNone then (PyNone, s)
      else if declared_context_tokens s \<le> 0 \<or> \<not> clamp_enabled env then (requested_max, s)
      else case int_or_zero parse prompt_tokens of
        Inl _ \<Rightarrow> (requested_max, s)
      | Inr prompt \<Rightarrow>
          (case py_int parse requested_max of
             Inl _ \<Rightarrow> (requested_max, s)
           | Inr requested \<Rightarrow>
               (let remaining = declared_context_tokens s - prompt
                in if remaining \<le> 0 then (requested_max, s)
                   else if requested \<le> remaining then (PyInt requested, s)
                   else (PyInt remaining, record_context_clamp rid
                     \<lparr>cl_prompt_tokens = prompt, cl_requested_max_tokens = requested, cl_clamped_max_tokens = remaining,
                      cl_declared_context_tokens = declared_context_tokens s\<rparr> s))))"

section \<open>The registries\<close>

definition registry_ok :: "'v registry \<Rightarrow> bool" where
  "registry_ok r \<longleftrightarrow> pd_ok (entries r) \<and> distinct (order r) \<and> set (order r) = fst ` set (entries r) \<and>
     length (order r) \<le> clamp_registry_max"

lemma drop_stale_spec:
  "drop_stale limit xs d = (drop (length xs - limit) xs, fold (\<lambda>x d. pd_del d x) (take (length xs - limit) xs) d)"
proof (induction limit xs d rule: drop_stale.induct)
  case (2 limit x xs d)
  show ?case
  proof (cases "limit < length (x # xs)")
    case True
    then have "length (x # xs) - limit = Suc (length xs - limit)" by simp
    with 2 True show ?thesis by simp
  qed simp
qed simp

lemma fold_del_spec:
  "pd_ok d \<Longrightarrow> pd_ok (fold (\<lambda>x d. pd_del d x) xs d) \<and>
   pd_get (fold (\<lambda>x d. pd_del d x) xs d) k = (if k \<in> set xs then None else pd_get d k) \<and>
   fst ` set (fold (\<lambda>x d. pd_del d x) xs d) = fst ` set d - set xs"
  by (induction xs arbitrary: d) auto

lemma record_entry_spec:
  assumes "registry_ok r"
  shows "registry_ok (record_entry rid v r)" "peek_entry rid (record_entry rid v r) = Some v"
    "k \<noteq> rid \<Longrightarrow> peek_entry k (record_entry rid v r) = peek_entry k r \<or> peek_entry k (record_entry rid v r) = None"
proof -
  have R: "pd_ok (entries r)" "distinct (order r)" "set (order r) = fst ` set (entries r)" "length (order r) \<le> clamp_registry_max"
    using assms by (simp_all add: registry_ok_def)
  have main: "registry_ok (record_entry rid v r) \<and> peek_entry rid (record_entry rid v r) = Some v \<and>
    (k \<noteq> rid \<longrightarrow> peek_entry k (record_entry rid v r) = peek_entry k r \<or> peek_entry k (record_entry rid v r) = None)"
  proof (cases "pd_get (entries r) rid")
    case None
    then have new: "rid \<notin> set (order r)" using R(3) by (simp add: pd_get_None_iff)
    let ?os = "order r @ [rid]" let ?n = "length ?os - clamp_registry_max"
    let ?d = "fold (\<lambda>x d. pd_del d x) (take ?n ?os) (entries r)"
    have n: "?n \<le> length (order r)" using R(4) by (simp add: clamp_registry_max_def)
    have tk: "take ?n ?os = take ?n (order r)" using n by simp
    have eq: "record_entry rid v r = \<lparr>entries = pd_set ?d rid v, order = drop ?n ?os\<rparr>"
      using None by (simp add: record_entry_def drop_stale_spec)
    note D = fold_del_spec [OF R(1), of "take ?n ?os"]
    have "set (drop ?n (order r)) = set (order r) - set (take ?n (order r))"
      using R(2) by (metis Diff_cancel Diff_empty Un_Diff append_take_drop_id distinct_append set_append Diff_triv inf_commute sup_bot_left)
    then have "set (drop ?n ?os) = insert rid (fst ` set ?d)" using n D R(3) unfolding tk by (simp only: drop_append) auto
    moreover have "distinct ?os" using R(2) new by simp
    then have "distinct (drop ?n ?os)" by (rule distinct_drop)
    moreover have "length (drop ?n ?os) \<le> clamp_registry_max" by simp
    ultimately show ?thesis using D by (simp add: eq registry_ok_def peek_entry_def)
  next
    case (Some w)
    then have "rid \<in> fst ` set (entries r)" by (rule pd_get_Some_in_keys)
    with Some R show ?thesis by (simp add: record_entry_def registry_ok_def peek_entry_def insert_absorb)
  qed
  then show "registry_ok (record_entry rid v r)" "peek_entry rid (record_entry rid v r) = Some v" by simp_all
  show "k \<noteq> rid \<Longrightarrow> peek_entry k (record_entry rid v r) = peek_entry k r \<or> peek_entry k (record_entry rid v r) = None"
    using main by simp
qed

lemma registry_size: "registry_ok r \<Longrightarrow> length (entries r) \<le> clamp_registry_max"
proof -
  assume r: "registry_ok r"
  then have "distinct (map fst (entries r))" by (simp add: registry_ok_def pd_ok_def)
  from distinct_card [OF this] have "length (entries r) = card (set (map fst (entries r)))" by simp
  also have "\<dots> = card (set (order r))" using r by (simp add: registry_ok_def)
  also have "\<dots> \<le> length (order r)" by (rule card_length)
  finally show ?thesis using r by (simp add: registry_ok_def)
qed

interpretation clamp_store: bounded_store "\<lambda>r k. peek_entry k r" "record_entry :: string \<Rightarrow> clamp_record \<Rightarrow> _"
  "\<lambda>r. length (entries r)" clamp_registry_max registry_ok
  by unfold_locales (simp_all add: record_entry_spec registry_size)

interpretation effort_store: bounded_store "\<lambda>r k. peek_entry k r" "record_entry :: string \<Rightarrow> effort_record \<Rightarrow> _"
  "\<lambda>r. length (entries r)" clamp_registry_max registry_ok
  by unfold_locales (simp_all add: record_entry_spec registry_size)

lemma pop_entry_spec:
  assumes "registry_ok r"
  shows "registry_ok (snd (pop_entry rid r))" "fst (pop_entry rid r) = peek_entry rid r"
    "peek_entry k (snd (pop_entry rid r)) = (if k = rid then None else peek_entry k r)"
proof -
  have "length (remove1 rid (order r)) \<le> length (order r)" by (simp add: length_remove1)
  then show "registry_ok (snd (pop_entry rid r))"
    using assms by (auto simp: pop_entry_def registry_ok_def set_remove1_eq split: option.split)
  show "fst (pop_entry rid r) = peek_entry rid r" by (simp add: pop_entry_def peek_entry_def split: option.split)
  show "peek_entry k (snd (pop_entry rid r)) = (if k = rid then None else peek_entry k r)"
    by (simp add: pop_entry_def peek_entry_def split: option.split)
qed

section \<open>The module\<close>

text \<open>The calls that write the module's state.\<close>

inductive limits_step :: "limits_state \<Rightarrow> limits_state \<Rightarrow> bool" where
  declare_context: "limits_step s (set_declared_context_tokens parse v s)"
| clamp: "limits_step s (snd (clamp_output_to_declared_context parse env p m rid s))"
| record_clamp: "limits_step s (record_context_clamp rid c s)"
| pop_clamp: "limits_step s (snd (pop_context_clamp rid s))"
| record_effort: "limits_step s (record_effort_substitution rid e s)"
| pop_effort: "limits_step s (snd (pop_effort_substitution rid s))"

inductive limits_reachable :: "limits_state \<Rightarrow> bool" where
  start: "limits_reachable initial_limits"
| step: "limits_reachable s \<Longrightarrow> limits_step s t \<Longrightarrow> limits_reachable t"

definition limits_ok :: "limits_state \<Rightarrow> bool" where
  "limits_ok s \<longleftrightarrow> 0 \<le> declared_context_tokens s \<and> registry_ok (clamped_requests s) \<and> registry_ok (effort_substitutions s)"

lemma limits_step_ok: "limits_step s t \<Longrightarrow> limits_ok s \<Longrightarrow> limits_ok t"
proof (induction rule: limits_step.induct)
  case (declare_context s parse v)
  then show ?case by (simp add: set_declared_context_tokens_def limits_ok_def split: sum.split)
next
  case (clamp s parse env p m rid)
  then show ?case
    by (auto simp: clamp_output_to_declared_context_def record_context_clamp_def limits_ok_def Let_def record_entry_spec(1) split: sum.split)
qed (simp_all add: record_context_clamp_def pop_context_clamp_def record_effort_substitution_def
    pop_effort_substitution_def limits_ok_def record_entry_spec(1) pop_entry_spec(1) case_prod_unfold Let_def)

lemma limits_reachable_ok: "limits_reachable s \<Longrightarrow> limits_ok s"
proof (induction rule: limits_reachable.induct)
  case start
  then show ?case by (simp add: limits_ok_def initial_limits_def empty_registry_def registry_ok_def)
qed (rule limits_step_ok)

section \<open>Properties\<close>

text \<open>
  The two registries stay bounded and consistent: in every state the module can reach, each holds at
  most 256 requests and its order list names exactly the keys of its dictionary, each once.
\<close>

lemma registries_bounded:
  assumes "limits_reachable s"
  shows "length (entries (clamped_requests s)) \<le> 256 \<and> length (entries (effort_substitutions s)) \<le> 256 \<and>
    distinct (order (clamped_requests s)) \<and> set (order (clamped_requests s)) = fst ` set (entries (clamped_requests s)) \<and>
    distinct (order (effort_substitutions s)) \<and>
    set (order (effort_substitutions s)) = fst ` set (entries (effort_substitutions s))"
  using limits_reachable_ok [OF assms] registry_size [of "clamped_requests s"] registry_size [of "effort_substitutions s"]
  by (simp add: limits_ok_def registry_ok_def clamp_registry_max_def)

text \<open>
  Whatever is recorded later for other requests, a registry never reports the record of another
  request or an outdated one: after any records, what is read for a request is what was recorded last for
  it, or nothing when it was dropped; popping it reads the same and clears it.
\<close>

lemma clamp_records_current:
  assumes "registry_ok r" "peek_entry k (fold (\<lambda>(rid, v). record_entry rid v) kvs r) = Some (v :: clamp_record)"
  shows "(map_of (rev kvs) k = Some v \<or> k \<notin> fst ` set kvs \<and> peek_entry k r = Some v) \<and>
    fst (pop_entry k (fold (\<lambda>(rid, v). record_entry rid v) kvs r)) = Some v \<and>
    peek_entry k (snd (pop_entry k (fold (\<lambda>(rid, v). record_entry rid v) kvs r))) = None"
proof -
  let ?r = "clamp_store.puts kvs r"
  have r: "fold (\<lambda>(rid, v). record_entry rid v) kvs r = ?r" by (simp add: clamp_store.puts_def)
  have ok: "registry_ok ?r" by (rule clamp_store.puts_ok [OF assms(1)])
  show ?thesis
    using clamp_store.puts_latest [OF assms(1), where kvs = kvs and k = k and v = v] pop_entry_spec(2,3) [OF ok] assms(2) unfolding r by simp
qed

lemma clamp_records_current_example:
  "fst (pop_entry ''a'' (fold (\<lambda>(rid, v). record_entry rid v)
     [(''a'', \<lparr>cl_prompt_tokens = 1, cl_requested_max_tokens = 9, cl_clamped_max_tokens = 3, cl_declared_context_tokens = 4\<rparr>)]
     empty_registry)) =
   Some \<lparr>cl_prompt_tokens = 1, cl_requested_max_tokens = 9, cl_clamped_max_tokens = 3, cl_declared_context_tokens = 4\<rparr>"
proof -
  let ?c = "\<lparr>cl_prompt_tokens = 1, cl_requested_max_tokens = 9, cl_clamped_max_tokens = 3, cl_declared_context_tokens = 4\<rparr>"
  have ok: "registry_ok (empty_registry :: clamp_record registry)" by (simp add: registry_ok_def empty_registry_def)
  have "peek_entry ''a'' (fold (\<lambda>(rid, v). record_entry rid v) [(''a'', ?c)] empty_registry) = Some ?c"
    by (simp add: record_entry_spec(2) [OF ok])
  from clamp_records_current [OF ok this] show ?thesis by blast
qed



end
