(* ===== verification/Prompt_Lookup.thy ===== *)
theory Prompt_Lookup
  imports Prelude "HOL-Library.Sublist"
begin

text \<open>
  \<open>vmlx_engine/prompt_lookup.py\<close>: draft tokens from n-gram matches, by scanning the sequence and by the
  incremental index.  Python's ranges over positions are recursions on the number of positions left.
\<close>

section \<open>The scan\<close>

text \<open>\<open>for i in range(k - 1, -1, -1)\<close>: the first position whose n-gram is the query and that has a continuation.\<close>

fun scan_back :: "int list \<Rightarrow> int list \<Rightarrow> nat \<Rightarrow> nat \<Rightarrow> int list option" where
  "scan_back ts q num 0 = None"
| "scan_back ts q num (Suc i) =
     (if take (length q) (drop i ts) = q then
        (let draft = take num (drop (i + length q) ts)
         in if draft \<noteq> [] then Some draft else scan_back ts q num i)
      else scan_back ts q num i)"

text \<open>\<open>for size in range(g, 1, -1)\<close> with an early return.\<close>

fun first_size :: "(nat \<Rightarrow> int list option) \<Rightarrow> nat \<Rightarrow> int list" where
  "first_size f 0 = []"
| "first_size f (Suc 0) = []"
| "first_size f (Suc (Suc g)) = (case f (Suc (Suc g)) of Some d \<Rightarrow> d | None \<Rightarrow> first_size f (Suc g))"

definition last_tokens :: "int list \<Rightarrow> nat \<Rightarrow> int list" where
  "last_tokens ts g = drop (length ts - g) ts"

definition find_draft_tokens :: "int list \<Rightarrow> int \<Rightarrow> int \<Rightarrow> int list" where
  "find_draft_tokens ts num_draft_tokens max_ngram_size =
     (if length ts < 3 \<or> num_draft_tokens \<le> 0 then []
      else first_size (\<lambda>g. scan_back ts (last_tokens ts g) (nat num_draft_tokens) (length ts - g))
             (nat (min max_ngram_size (int (length ts) - 1))))"

section \<open>The index\<close>

text \<open>Each n-gram with its two most recent positions, \<open>-1\<close> for none.\<close>

record ngram_index =
  index :: "int list \<rightharpoonup> int \<times> int"
  indexed_up_to :: nat

definition new_index :: ngram_index where
  "new_index = \<lparr>index = Map.empty, indexed_up_to = 0\<rparr>"

definition add_gram :: "int list \<Rightarrow> nat \<Rightarrow> (int list \<rightharpoonup> int \<times> int) \<Rightarrow> (int list \<rightharpoonup> int \<times> int)" where
  "add_gram key pos m =
     (case m key of
        None \<Rightarrow> m(key \<mapsto> (int pos, -1))
      | Some (p, _) \<Rightarrow> if int pos > p then m(key \<mapsto> (int pos, p)) else m)"

definition index_position :: "int list \<Rightarrow> nat \<Rightarrow> (int list \<rightharpoonup> int \<times> int) \<Rightarrow> (int list \<rightharpoonup> int \<times> int)" where
  "index_position ts i m =
     (let m1 = add_gram [ts ! i, ts ! (i + 1)] i m
      in if i + 2 < length ts then add_gram [ts ! i, ts ! (i + 1), ts ! (i + 2)] i m1 else m1)"

definition index_tokens :: "int list \<Rightarrow> ngram_index \<Rightarrow> ngram_index" where
  "index_tokens ts x =
     \<lparr>index = fold (index_position ts) [indexed_up_to x..<length ts - 1] (index x),
      indexed_up_to = max (indexed_up_to x) (length ts - 1)\<rparr>"

definition look_up_gram :: "int list \<Rightarrow> nat \<Rightarrow> (int list \<rightharpoonup> int \<times> int) \<Rightarrow> nat \<Rightarrow> int list option" where
  "look_up_gram ts num m g =
     (case m (last_tokens ts g) of
        None \<Rightarrow> None
      | Some (p, prev) \<Rightarrow>
          (let pos = (if p < int (length ts) - int g then p else prev)
           in if pos < 0 then None
              else (let drafts = take num (drop (nat pos + g) ts)
                    in if drafts \<noteq> [] then Some drafts else None)))"

definition find_drafts :: "int list \<Rightarrow> int \<Rightarrow> int \<Rightarrow> ngram_index \<Rightarrow> int list \<times> ngram_index" where
  "find_drafts ts num_draft_tokens max_ngram_size x =
     (if length ts < 3 \<or> num_draft_tokens \<le> 0 then ([], x)
      else
        (let y = index_tokens ts x
         in (first_size (look_up_gram ts (nat num_draft_tokens) (index y))
               (nat (min max_ngram_size (int (length ts) - 1))), y)))"

section \<open>Statistics\<close>

record prompt_lookup_stats =
  total_tokens :: int
  draft_found :: int
  first_hit :: int
  total_hit_depth :: int
  completed_seqs :: int

definition coverage :: "prompt_lookup_stats \<Rightarrow> real" where
  "coverage s = real_of_int (draft_found s) / real_of_int (max 1 (total_tokens s))"

definition first_token_hit_rate :: "prompt_lookup_stats \<Rightarrow> real" where
  "first_token_hit_rate s = real_of_int (first_hit s) / real_of_int (max 1 (draft_found s))"

definition mean_hit_depth :: "prompt_lookup_stats \<Rightarrow> real" where
  "mean_hit_depth s = real_of_int (total_hit_depth s) / real_of_int (max 1 (first_hit s))"

definition theoretical_speedup :: "prompt_lookup_stats \<Rightarrow> real" where
  "theoretical_speedup s = real_of_int (total_tokens s) / real_of_int (max 1 (total_tokens s - total_hit_depth s))"

section \<open>Occurrences\<close>

definition occurs :: "int list \<Rightarrow> int list \<Rightarrow> nat \<Rightarrow> bool" where
  "occurs ts q i \<longleftrightarrow> take (length q) (drop i ts) = q"

lemma occurs_fits: "occurs ts q i \<Longrightarrow> q \<noteq> [] \<Longrightarrow> i + length q \<le> length ts"
proof -
  assume o: "occurs ts q i" and q: "q \<noteq> []"
  from o have "min (length q) (length ts - i) = length q"
    unfolding occurs_def by (metis length_drop length_take min.commute)
  then have "length q \<le> length ts - i" by linarith
  moreover have "0 < length q" using q by simp
  ultimately show ?thesis by linarith
qed

lemma length_last_tokens [simp]: "g \<le> length ts \<Longrightarrow> length (last_tokens ts g) = g"
  by (simp add: last_tokens_def)

text \<open>The scan returns the continuation of the last occurrence among the first \<open>k\<close> positions.\<close>

lemma scan_back_spec:
  "0 < num \<Longrightarrow> k + length q \<le> length ts \<Longrightarrow>
   (case scan_back ts q num k of
      None \<Rightarrow> \<forall>i < k. \<not> occurs ts q i
    | Some d \<Rightarrow> \<exists>i < k. occurs ts q i \<and> (\<forall>j < k. occurs ts q j \<longrightarrow> j \<le> i) \<and> d = take num (drop (i + length q) ts) \<and> d \<noteq> [])"
proof (induction k)
  case (Suc k)
  show ?case
  proof (cases "occurs ts q k")
    case True
    have "take num (drop (k + length q) ts) \<noteq> []" using Suc.prems by simp
    then show ?thesis using True by (auto simp: occurs_def Let_def intro!: exI [of _ k])
  next
    case False
    then have "scan_back ts q num (Suc k) = scan_back ts q num k" by (simp add: occurs_def)
    then show ?thesis using Suc False by (auto simp: less_Suc_eq split: option.splits)
  qed
qed simp

text \<open>The first size that answers.\<close>

lemma first_size_spec:
  "(first_size f g = [] \<and> (\<forall>h. 2 \<le> h \<longrightarrow> h \<le> g \<longrightarrow> f h = None \<or> f h = Some [])) \<or>
   (\<exists>h. 2 \<le> h \<and> h \<le> g \<and> f h = Some (first_size f g) \<and> (\<forall>k. h < k \<longrightarrow> k \<le> g \<longrightarrow> f k = None))"
proof (induction f g rule: first_size.induct)
  case (3 f g)
  show ?case
  proof (cases "f (Suc (Suc g))")
    case None
    then have e: "first_size f (Suc (Suc g)) = first_size f (Suc g)" by simp
    from 3 [OF None] show ?thesis
    proof (elim disjE exE)
      assume "first_size f (Suc g) = [] \<and> (\<forall>h. 2 \<le> h \<longrightarrow> h \<le> Suc g \<longrightarrow> f h = None \<or> f h = Some [])"
      then show ?thesis using None unfolding e by (auto simp: le_Suc_eq)
    next
      fix h assume "2 \<le> h \<and> h \<le> Suc g \<and> f h = Some (first_size f (Suc g)) \<and> (\<forall>k. h < k \<longrightarrow> k \<le> Suc g \<longrightarrow> f k = None)"
      then show ?thesis using None unfolding e by (intro disjI2 exI [of _ h]) (auto simp: le_Suc_eq)
    qed
  next
    case (Some d)
    then show ?thesis by (intro disjI2 exI [of _ "Suc (Suc g)"]) simp
  qed
qed simp_all

section \<open>What the index knows\<close>

text \<open>An entry that holds the two largest elements of \<open>S\<close>.\<close>

definition track :: "nat set \<Rightarrow> (int \<times> int) option \<Rightarrow> bool" where
  "track S e \<longleftrightarrow>
     (case e of
        None \<Rightarrow> S = {}
      | Some (p, prev) \<Rightarrow> \<exists>i \<in> S. p = int i \<and> (\<forall>j \<in> S. j \<le> i) \<and>
          (if S = {i} then prev = -1 else \<exists>k \<in> S. k < i \<and> prev = int k \<and> (\<forall>j \<in> S. j < i \<longrightarrow> j \<le> k)))"

lemma track_add:
  assumes "track S (m key)" "\<forall>j \<in> S. j < pos"
  shows "track (insert pos S) (add_gram key pos m key)"
proof (cases "m key")
  case None
  then have "S = {}" using assms(1) by (simp add: track_def)
  then show ?thesis using None by (simp add: track_def add_gram_def)
next
  case (Some e)
  obtain p prev where e: "e = (p, prev)" by (cases e)
  then obtain i where i: "i \<in> S" "p = int i" "\<forall>j \<in> S. j \<le> i" using assms(1) Some by (auto simp: track_def)
  have new: "add_gram key pos m key = Some (int pos, p)" using Some e i assms(2) by (simp add: add_gram_def)
  have "insert pos S \<noteq> {pos}" using i(1) assms(2) by auto
  moreover have "\<exists>k \<in> insert pos S. k < pos \<and> p = int k \<and> (\<forall>j \<in> insert pos S. j < pos \<longrightarrow> j \<le> k)"
    using i assms(2) by (intro bexI [of _ i]) auto
  ultimately show ?thesis using assms(2) unfolding new track_def
    by (auto intro!: bexI [of _ pos] simp: less_imp_le)
qed

lemma add_gram_other: "k \<noteq> key \<Longrightarrow> add_gram key pos m k = m k"
  by (simp add: add_gram_def split: option.split)

text \<open>Bigrams are known at the positions below \<open>u\<close>, trigrams at those of \<open>T\<close>.\<close>

definition tracked :: "int list \<Rightarrow> nat \<Rightarrow> nat set \<Rightarrow> (int list \<rightharpoonup> int \<times> int) \<Rightarrow> bool" where
  "tracked ts u T m \<longleftrightarrow> (\<forall>key.
     if length key = 2 then track {i. i < u \<and> occurs ts key i} (m key)
     else if length key = 3 then track {i \<in> T. occurs ts key i} (m key)
     else m key = None)"

lemma occurs_gram:
  assumes "i + g \<le> length ts"
  shows "length key = g \<and> occurs ts key i \<longleftrightarrow> key = take g (drop i ts)"
  using assms by (auto simp: occurs_def)

lemma gram2: "i + 1 < length ts \<Longrightarrow> take 2 (drop i ts) = [ts ! i, ts ! (i + 1)]"
  by (simp add: numeral_2_eq_2 Cons_nth_drop_Suc [symmetric])

lemma gram3: "i + 2 < length ts \<Longrightarrow> take 3 (drop i ts) = [ts ! i, ts ! (i + 1), ts ! (i + 2)]"
  by (simp add: numeral_3_eq_3 numeral_2_eq_2 Cons_nth_drop_Suc [symmetric])

lemma index_position_tracked:
  assumes "tracked ts i T m" "i + 1 < length ts" "T \<subseteq> {..<i}"
  shows "tracked ts (Suc i) (if i + 2 < length ts then insert i T else T) (index_position ts i m)"
proof -
  let ?k2 = "[ts ! i, ts ! (i + 1)]" let ?k3 = "[ts ! i, ts ! (i + 1), ts ! (i + 2)]"
  let ?m1 = "add_gram ?k2 i m" let ?T = "if i + 2 < length ts then insert i T else T"
  have k2: "length key = 2 \<and> occurs ts key i \<longleftrightarrow> key = ?k2" for key
    using occurs_gram [of i 2 ts key] gram2 [OF assms(2)] assms(2) by simp
  have k3: "length key = 3 \<and> occurs ts key i \<longleftrightarrow> key = ?k3" if "i + 2 < length ts" for key
    using occurs_gram [of i 3 ts key] gram3 [OF that] that by simp
  have old: "if length key = 2 then track {j. j < i \<and> occurs ts key j} (m key)
     else if length key = 3 then track {j \<in> T. occurs ts key j} (m key) else m key = None" for key
    using assms(1) by (simp add: tracked_def)
  show ?thesis
    unfolding tracked_def
  proof
    fix key :: "int list"
    consider (bi) "length key = 2" | (tri) "length key = 3" | (other) "length key \<noteq> 2" "length key \<noteq> 3" by blast
    then show "if length key = 2 then track {j. j < Suc i \<and> occurs ts key j} (index_position ts i m key)
     else if length key = 3 then track {j \<in> ?T. occurs ts key j} (index_position ts i m key)
     else index_position ts i m key = None"
    proof cases
      case bi
      then have "key \<noteq> ?k3" by auto
      then have same: "index_position ts i m key = ?m1 key" by (simp add: index_position_def Let_def add_gram_other)
      have T0: "track {j. j < i \<and> occurs ts key j} (m key)" using old [of key] bi by simp
      show ?thesis
      proof (cases "key = ?k2")
        case True
        then have "{j. j < Suc i \<and> occurs ts key j} = insert i {j. j < i \<and> occurs ts key j}"
          using k2 [of key] by (auto simp: less_Suc_eq)
        moreover have "track (insert i {j. j < i \<and> occurs ts key j}) (?m1 key)"
          using track_add [of _ m key i] T0 True by blast
        ultimately show ?thesis using bi same by simp
      next
        case False
        then have "{j. j < Suc i \<and> occurs ts key j} = {j. j < i \<and> occurs ts key j}"
          using k2 [of key] bi by (auto simp: less_Suc_eq)
        then show ?thesis using bi same T0 False by (simp add: add_gram_other)
      qed
    next
      case tri
      then have n2: "key \<noteq> ?k2" by auto
      have T0: "track {j \<in> T. occurs ts key j} (m key)" using old [of key] tri by simp
      show ?thesis
      proof (cases "i + 2 < length ts \<and> key = ?k3")
        case True
        then have "{j \<in> insert i T. occurs ts key j} = insert i {j \<in> T. occurs ts key j}" using k3 by auto
        moreover have "track (insert i {j \<in> T. occurs ts key j}) (add_gram key i ?m1 key)"
          by (rule track_add) (use T0 n2 assms(3) in \<open>auto simp: add_gram_other\<close>)
        ultimately show ?thesis using tri True by (simp add: index_position_def Let_def)
      next
        case False
        then have "{j \<in> ?T. occurs ts key j} = {j \<in> T. occurs ts key j}" using k3 [of key] tri by auto
        moreover have "index_position ts i m key = m key"
          using False n2 by (auto simp: index_position_def Let_def add_gram_other)
        ultimately show ?thesis using tri T0 by simp
      qed
    next
      case other
      then have "key \<noteq> ?k2" "key \<noteq> ?k3" by auto
      then show ?thesis using other old [of key] by (simp add: index_position_def Let_def add_gram_other)
    qed
  qed
qed

lemma fold_index_tracked:
  "tracked ts a T m \<Longrightarrow> T \<subseteq> {..<a} \<Longrightarrow> a \<le> b \<Longrightarrow> b + 1 \<le> length ts \<Longrightarrow>
   tracked ts b (T \<union> {a..<min b (length ts - 2)}) (fold (index_position ts) [a..<b] m)"
proof (induction "b - a" arbitrary: b)
  case 0
  then show ?case by simp
next
  case (Suc k)
  then obtain c where b: "b = Suc c" "a \<le> c" by (cases b) auto
  let ?T = "T \<union> {a..<min c (length ts - 2)}" let ?m = "fold (index_position ts) [a..<c] m"
  have "tracked ts c ?T ?m" using Suc b by (intro Suc.hyps(1)) auto
  moreover have "c + 1 < length ts" "?T \<subseteq> {..<c}" using Suc.prems b by auto
  ultimately have "tracked ts (Suc c) (if c + 2 < length ts then insert c ?T else ?T) (index_position ts c ?m)"
    by (rule index_position_tracked)
  moreover have "(if c + 2 < length ts then insert c ?T else ?T) = T \<union> {a..<min b (length ts - 2)}"
    using b by (auto simp: min_def split: if_splits)
  ultimately show ?case using b by simp
qed

lemma tracked_grow:
  assumes "tracked ts u T m" "prefix ts us" "u + 1 \<le> length ts" "\<forall>i \<in> T. i + 3 \<le> length ts"
  shows "tracked us u T m"
proof -
  have same: "occurs us key i \<longleftrightarrow> occurs ts key i" if "i + length key \<le> length ts" for key i
    using assms(2) that by (auto simp: occurs_def prefix_def)
  show ?thesis
    unfolding tracked_def
  proof
    fix key :: "int list"
    have "{i. i < u \<and> occurs us key i} = {i. i < u \<and> occurs ts key i}" if "length key = 2"
      using same [of _ key] that assms(3) by auto
    moreover have "{i \<in> T. occurs us key i} = {i \<in> T. occurs ts key i}" if "length key = 3"
      using same [of _ key] that assms(4) by auto
    ultimately show "if length key = 2 then track {i. i < u \<and> occurs us key i} (m key)
      else if length key = 3 then track {i \<in> T. occurs us key i} (m key) else m key = None"
      using assms(1) by (simp add: tracked_def)
  qed
qed

text \<open>An index built by calls on growing sequences, the last of them \<open>ts\<close>.\<close>

definition index_ok :: "int list \<Rightarrow> nat set \<Rightarrow> ngram_index \<Rightarrow> bool" where
  "index_ok ts T x \<longleftrightarrow> tracked ts (indexed_up_to x) T (index x) \<and> T \<subseteq> {..<indexed_up_to x} \<and>
     (\<forall>i \<in> T. i + 3 \<le> length ts) \<and> indexed_up_to x \<le> length ts - 1"

lemma index_ok_new: "index_ok [] {} new_index"
  by (auto simp: index_ok_def tracked_def new_index_def track_def)

lemma index_tokens_ok:
  assumes "index_ok ts T x" "prefix ts us" "3 \<le> length us"
  shows "index_ok us (T \<union> {indexed_up_to x..<length us - 2}) (index_tokens us x)"
    and "indexed_up_to (index_tokens us x) = length us - 1"
proof -
  let ?u = "indexed_up_to x"
  have le: "length ts \<le> length us" using assms(2) by (rule prefix_length_le)
  have x: "tracked ts ?u T (index x)" "T \<subseteq> {..<?u}" "\<forall>i \<in> T. i + 3 \<le> length ts" "?u \<le> length ts - 1"
    using assms(1) by (simp_all add: index_ok_def)
  have "tracked us ?u T (index x)"
  proof (cases "ts = []")
    case True
    then have "T = {}" "?u = 0" using x by auto
    from x(1) show ?thesis unfolding tracked_def \<open>T = {}\<close> \<open>?u = 0\<close> by (auto split: if_splits)
  next
    case False
    then have "0 < length ts" by simp
    then have "?u + 1 \<le> length ts" using x(4) by linarith
    then show ?thesis by (rule tracked_grow [OF x(1) assms(2) _ x(3)])
  qed
  moreover have u: "?u \<le> length us - 1" using x(4) le by linarith
  ultimately have "tracked us (length us - 1) (T \<union> {?u..<min (length us - 1) (length us - 2)})
      (fold (index_position us) [?u..<length us - 1] (index x))"
    using x(2) assms(3) by (intro fold_index_tracked) auto
  moreover have "min (length us - 1) (length us - 2) = length us - 2" by simp
  ultimately show "index_ok us (T \<union> {?u..<length us - 2}) (index_tokens us x)"
    using u x(2,3) le assms(3) by (auto simp: index_ok_def index_tokens_def max_def)
  show "indexed_up_to (index_tokens us x) = length us - 1" using u by (simp add: index_tokens_def)
qed

lemma track_lookup:
  assumes "track S (Some (p, prev))" "\<forall>i \<in> S. i \<le> b"
  defines "pos \<equiv> (if p < int b then p else prev)"
  shows "pos < 0 \<Longrightarrow> S \<inter> {..<b} = {}"
    and "0 \<le> pos \<Longrightarrow> nat pos \<in> S \<and> nat pos < b \<and> (\<forall>j \<in> S. j < b \<longrightarrow> j \<le> nat pos)"
proof -
  obtain i where i: "i \<in> S" "p = int i" "\<forall>j \<in> S. j \<le> i"
    "if S = {i} then prev = -1 else \<exists>k \<in> S. k < i \<and> prev = int k \<and> (\<forall>j \<in> S. j < i \<longrightarrow> j \<le> k)"
    using assms(1) by (auto simp: track_def)
  have ib: "i \<le> b" using i(1) assms(2) by blast
  show "S \<inter> {..<b} = {}" if "pos < 0"
    using that i ib by (auto simp: pos_def split: if_splits)
  show "nat pos \<in> S \<and> nat pos < b \<and> (\<forall>j \<in> S. j < b \<longrightarrow> j \<le> nat pos)" if "0 \<le> pos"
    using that i ib by (auto simp: pos_def split: if_splits)
qed

text \<open>A lookup answers with the last known occurrence before the query itself.\<close>

lemma look_up_gram_spec:
  assumes "track S (m (last_tokens ts g))" "\<forall>i \<in> S. i + g \<le> length ts" "g \<le> length ts" "0 < num"
  shows "case look_up_gram ts num m g of
      None \<Rightarrow> S \<inter> {..<length ts - g} = {}
    | Some d \<Rightarrow> \<exists>i \<in> S. i < length ts - g \<and> (\<forall>j \<in> S. j < length ts - g \<longrightarrow> j \<le> i) \<and>
        d = take num (drop (i + g) ts) \<and> d \<noteq> []"
proof (cases "m (last_tokens ts g)")
  case None
  then show ?thesis using assms(1) by (simp add: look_up_gram_def track_def)
next
  case (Some e)
  obtain p prev where e: "e = (p, prev)" by (cases e)
  define pos where "pos = (if p < int (length ts - g) then p else prev)"
  have b: "\<forall>i \<in> S. i \<le> length ts - g" using assms(2) by auto
  have "track S (Some (p, prev))" using assms(1) Some e by simp
  note T = track_lookup [OF this b, folded pos_def]
  have eq: "look_up_gram ts num m g = (if pos < 0 then None
      else (let drafts = take num (drop (nat pos + g) ts) in if drafts \<noteq> [] then Some drafts else None))"
    using Some e assms(3) by (simp add: look_up_gram_def Let_def of_nat_diff pos_def)
  show ?thesis
  proof (cases "pos < 0")
    case True
    then show ?thesis using T(1) eq by simp
  next
    case False
    then have P: "nat pos \<in> S" "nat pos < length ts - g" "\<forall>j \<in> S. j < length ts - g \<longrightarrow> j \<le> nat pos" using T(2) by simp_all
    then have ne: "take num (drop (nat pos + g) ts) \<noteq> []" using assms(4) by simp
    then have "look_up_gram ts num m g = Some (take num (drop (nat pos + g) ts))" using eq False by (simp add: Let_def)
    then show ?thesis using P ne by auto
  qed
qed

definition known :: "int list \<Rightarrow> nat set \<Rightarrow> ngram_index \<Rightarrow> nat \<Rightarrow> int list \<Rightarrow> nat set" where
  "known ts T x g key = (if g = 2 then {i. i < indexed_up_to x \<and> occurs ts key i} else {i \<in> T. occurs ts key i})"

lemma look_up_index:
  assumes "index_ok ts T x" "g = 2 \<or> g = 3" "g < length ts" "0 < num"
  shows "case look_up_gram ts num (index x) g of
      None \<Rightarrow> known ts T x g (last_tokens ts g) \<inter> {..<length ts - g} = {}
    | Some d \<Rightarrow> \<exists>i \<in> known ts T x g (last_tokens ts g). i < length ts - g \<and>
        (\<forall>j \<in> known ts T x g (last_tokens ts g). j < length ts - g \<longrightarrow> j \<le> i) \<and> d = take num (drop (i + g) ts) \<and> d \<noteq> []"
proof (rule look_up_gram_spec)
  have len: "length (last_tokens ts g) = g" using assms(3) by simp
  then have ne: "last_tokens ts g \<noteq> []" using assms(2) by auto
  show "track (known ts T x g (last_tokens ts g)) (index x (last_tokens ts g))"
    using assms(1,2) len by (auto simp: index_ok_def tracked_def known_def)
  show "\<forall>i \<in> known ts T x g (last_tokens ts g). i + g \<le> length ts"
    using occurs_fits [OF _ ne] len by (auto simp: known_def split: if_splits)
qed (use assms in simp_all)

lemma first_size_cong: "(\<And>g. 2 \<le> g \<Longrightarrow> g \<le> k \<Longrightarrow> f g = h g) \<Longrightarrow> first_size f k = first_size h k"
proof (induction h k rule: first_size.induct)
  case (3 h g)
  then have "f (Suc (Suc g)) = h (Suc (Suc g))" by simp
  then show ?case using 3 by (auto split: option.split)
qed simp_all

text \<open>An index that knows every occurrence agrees with the scan.\<close>

lemma complete_index_scan:
  assumes "index_ok ts T x" "g = 2 \<or> g = 3" "g < length ts" "0 < num"
    and "\<forall>i < length ts - g. occurs ts (last_tokens ts g) i \<longrightarrow> i \<in> known ts T x g (last_tokens ts g)"
  shows "look_up_gram ts num (index x) g = scan_back ts (last_tokens ts g) num (length ts - g)"
proof -
  let ?q = "last_tokens ts g"
  have len: "length ?q = g" using assms(3) by simp
  have S: "case scan_back ts ?q num (length ts - g) of
      None \<Rightarrow> \<forall>i < length ts - g. \<not> occurs ts ?q i
    | Some d \<Rightarrow> \<exists>i < length ts - g. occurs ts ?q i \<and> (\<forall>j < length ts - g. occurs ts ?q j \<longrightarrow> j \<le> i) \<and>
        d = take num (drop (i + g) ts) \<and> d \<noteq> []"
    using scan_back_spec [of num "length ts - g" ?q ts, unfolded len] assms(3,4) by simp
  have K: "i \<in> known ts T x g ?q \<Longrightarrow> occurs ts ?q i" for i by (auto simp: known_def split: if_splits)
  note L = look_up_index [OF assms(1-4)]
  show ?thesis
  proof (cases "look_up_gram ts num (index x) g")
    case None
    then have none: "\<not> occurs ts ?q i" if "i < length ts - g" for i using L assms(5) that by auto
    show ?thesis using S none None by (cases "scan_back ts ?q num (length ts - g)") auto
  next
    case (Some d)
    then obtain i where i: "i \<in> known ts T x g ?q" "i < length ts - g" "\<forall>j \<in> known ts T x g ?q. j < length ts - g \<longrightarrow> j \<le> i"
      "d = take num (drop (i + g) ts)" using L by auto
    have o: "occurs ts ?q i" by (rule K [OF i(1)])
    show ?thesis
    proof (cases "scan_back ts ?q num (length ts - g)")
      case None
      then show ?thesis using S i(2) o by auto
    next
      case (Some d')
      then obtain j where j: "j < length ts - g" "occurs ts ?q j" "\<forall>k < length ts - g. occurs ts ?q k \<longrightarrow> k \<le> j"
        "d' = take num (drop (j + g) ts)" using S by auto
      have "i \<le> j" using j(3) i(2) o by blast
      moreover have "j \<le> i" using i(3) assms(5) j(1,2) by blast
      ultimately show ?thesis using Some \<open>look_up_gram ts num (index x) g = Some d\<close> i(4) j(4) by simp
    qed
  qed
qed

text \<open>Calls with sequences of growing length, from one of length \<open>a\<close> to one of length \<open>b\<close>.\<close>

definition growing_calls :: "int list \<Rightarrow> int \<Rightarrow> int \<Rightarrow> nat \<Rightarrow> nat \<Rightarrow> ngram_index" where
  "growing_calls ts num mx a b = fold (\<lambda>n x. snd (find_drafts (take n ts) num mx x)) [a..<Suc b] new_index"

lemma growing_calls_ok:
  assumes "3 \<le> a" "a \<le> b" "b \<le> length ts" "0 < num"
  shows "index_ok (take b ts) {..<a - 2} (growing_calls ts num mx a b) \<and> indexed_up_to (growing_calls ts num mx a b) = b - 1"
  using assms(2,3)
proof (induction b rule: dec_induct)
  case base
  have "growing_calls ts num mx a a = index_tokens (take a ts) new_index"
    using assms(1,4) base by (simp add: growing_calls_def find_drafts_def Let_def)
  moreover have "index_ok (take a ts) ({} \<union> {indexed_up_to new_index..<length (take a ts) - 2}) (index_tokens (take a ts) new_index)"
    "indexed_up_to (index_tokens (take a ts) new_index) = length (take a ts) - 1"
    by (rule index_tokens_ok [OF index_ok_new]; use base assms(1) in simp)+
  moreover have "{indexed_up_to new_index..<length (take a ts) - 2} = {..<a - 2}" using base by (auto simp: new_index_def)
  ultimately show ?case using base by simp
next
  case (step n)
  let ?x = "growing_calls ts num mx a n"
  have IH: "index_ok (take n ts) {..<a - 2} ?x" "indexed_up_to ?x = n - 1" using step by simp_all
  have "growing_calls ts num mx a (Suc n) = index_tokens (take (Suc n) ts) ?x"
    using assms(1,4) step by (simp add: growing_calls_def find_drafts_def Let_def)
  moreover have pre: "prefix (take n ts) (take (Suc n) ts)"
    by (metis le_SucI order_refl take_is_prefix take_take min.absorb1)
  have "index_ok (take (Suc n) ts) ({..<a - 2} \<union> {indexed_up_to ?x..<length (take (Suc n) ts) - 2}) (index_tokens (take (Suc n) ts) ?x)"
    "indexed_up_to (index_tokens (take (Suc n) ts) ?x) = length (take (Suc n) ts) - 1"
    by (rule index_tokens_ok [OF IH(1) pre]; use step assms(1) in simp)+
  moreover have "{indexed_up_to ?x..<length (take (Suc n) ts) - 2} = {}" using IH(2) step by simp
  ultimately show ?case using step by simp
qed

text \<open>The n-gram sizes a call tries.\<close>

definition tried_sizes :: "int list \<Rightarrow> int \<Rightarrow> nat set" where
  "tried_sizes ts mx = {g. 2 \<le> g \<and> int g \<le> mx \<and> g < length ts}"

section \<open>Properties\<close>

text \<open>
  C28. \<open>find_draft_tokens\<close> returns the tokens after the most recent earlier occurrence of the longest
  final n-gram that has one, and nothing exactly when no final n-gram of a size it tries occurs earlier.
\<close>

theorem scan_drafts_spec:
  assumes "3 \<le> length ts" "0 < num"
  shows "(find_draft_tokens ts num mx = [] \<and> (\<forall>g \<in> tried_sizes ts mx. \<forall>i < length ts - g. \<not> occurs ts (last_tokens ts g) i)) \<or>
    (\<exists>g \<in> tried_sizes ts mx. \<exists>i < length ts - g. occurs ts (last_tokens ts g) i \<and>
       find_draft_tokens ts num mx = take (nat num) (drop (i + g) ts) \<and> find_draft_tokens ts num mx \<noteq> [] \<and>
       (\<forall>j < length ts - g. occurs ts (last_tokens ts g) j \<longrightarrow> j \<le> i) \<and>
       (\<forall>h \<in> tried_sizes ts mx. g < h \<longrightarrow> (\<forall>j < length ts - h. \<not> occurs ts (last_tokens ts h) j)))"
proof -
  let ?f = "\<lambda>g. scan_back ts (last_tokens ts g) (nat num) (length ts - g)"
  let ?k = "nat (min mx (int (length ts) - 1))"
  have f: "find_draft_tokens ts num mx = first_size ?f ?k" using assms by (simp add: find_draft_tokens_def)
  have sizes: "g \<in> tried_sizes ts mx \<longleftrightarrow> 2 \<le> g \<and> g \<le> ?k" for g using assms(1) by (auto simp: tried_sizes_def)
  have S: "case ?f g of None \<Rightarrow> \<forall>i < length ts - g. \<not> occurs ts (last_tokens ts g) i
    | Some d \<Rightarrow> \<exists>i < length ts - g. occurs ts (last_tokens ts g) i \<and>
        (\<forall>j < length ts - g. occurs ts (last_tokens ts g) j \<longrightarrow> j \<le> i) \<and> d = take (nat num) (drop (i + g) ts) \<and> d \<noteq> []"
    if "g \<in> tried_sizes ts mx" for g
  proof -
    have "length (last_tokens ts g) = g" using that by (simp add: tried_sizes_def)
    then show ?thesis using scan_back_spec [of "nat num" "length ts - g" "last_tokens ts g" ts] that assms(2)
      by (auto simp: tried_sizes_def split: option.splits)
  qed
  from first_size_spec [of ?f ?k] show ?thesis
  proof (elim disjE conjE exE)
    assume none: "first_size ?f ?k = []" "\<forall>h. 2 \<le> h \<longrightarrow> h \<le> ?k \<longrightarrow> ?f h = None \<or> ?f h = Some []"
    have "\<forall>i < length ts - g. \<not> occurs ts (last_tokens ts g) i" if "g \<in> tried_sizes ts mx" for g
      using S [OF that] none(2) sizes [of g] that by auto
    then show ?thesis using none(1) f by simp
  next
    fix g assume g: "2 \<le> g" "g \<le> ?k" "?f g = Some (first_size ?f ?k)" "\<forall>h. g < h \<longrightarrow> h \<le> ?k \<longrightarrow> ?f h = None"
    have "\<forall>j < length ts - h. \<not> occurs ts (last_tokens ts h) j" if "h \<in> tried_sizes ts mx" "g < h" for h
      using S [OF that(1)] g(4) sizes [of h] that by auto
    moreover have "g \<in> tried_sizes ts mx" using g sizes by simp
    ultimately show ?thesis using S [of g] g(3) unfolding f by (intro disjI2 bexI [of _ g]) auto
  qed
qed

theorem scan_drafts_spec_witness:
  "find_draft_tokens [1, 2, 3, 4, 1, 2] 2 3 = [3, 4]"
proof -
  have "3 \<le> length [1, 2, 3, 4, 1, 2 :: int]" "0 < (2 :: int)" by simp_all
  from scan_drafts_spec [OF this, of 3] show ?thesis by (simp add: find_draft_tokens_def last_tokens_def eval_nat_numeral Let_def)
qed

text \<open>
  The first lookup of a new index answers as the scan does, on every sequence, for every number of
  drafts and every size limit up to the index's three.
\<close>

lemma fresh_index_is_scan:
  assumes "mx \<le> 3"
  shows "fst (find_drafts ts num mx new_index) = find_draft_tokens ts num mx"
proof (cases "length ts < 3 \<or> num \<le> 0")
  case True
  then show ?thesis by (auto simp: find_drafts_def find_draft_tokens_def)
next
  case False
  let ?x = "index_tokens ts new_index" let ?k = "nat (min mx (int (length ts) - 1))"
  have I: "index_ok ts ({} \<union> {indexed_up_to new_index..<length ts - 2}) ?x" "indexed_up_to ?x = length ts - 1"
    by (rule index_tokens_ok [OF index_ok_new]; use False in simp)+
  then have I0: "index_ok ts {..<length ts - 2} ?x" by (simp add: new_index_def atLeast0LessThan)
  have "look_up_gram ts (nat num) (index ?x) g = scan_back ts (last_tokens ts g) (nat num) (length ts - g)"
    if "2 \<le> g" "g \<le> ?k" for g
  proof -
    have g: "g = 2 \<or> g = 3" "g < length ts" using that assms False by auto
    show ?thesis
    proof (rule complete_index_scan [OF I0 g])
      show "\<forall>i < length ts - g. occurs ts (last_tokens ts g) i \<longrightarrow> i \<in> known ts {..<length ts - 2} ?x g (last_tokens ts g)"
        using g by (auto simp: known_def I(2))
    qed (use False in simp)
  qed
  then have "first_size (look_up_gram ts (nat num) (index ?x)) ?k =
      first_size (\<lambda>g. scan_back ts (last_tokens ts g) (nat num) (length ts - g)) ?k"
    by (rule first_size_cong)
  then show ?thesis using False by (simp add: find_drafts_def find_draft_tokens_def Let_def)
qed

text \<open>
  Drafts from an index that saw any growing sequences are sound: they are the continuation of an
  earlier occurrence of the final bigram or trigram, and when there are none although bigrams are tried,
  the final bigram does not occur earlier.
\<close>

lemma index_drafts_sound:
  assumes "index_ok ts T x" "prefix ts us" "3 \<le> length us" "0 < num" "2 \<le> mx" "mx \<le> 3"
  shows "(\<exists>T'. index_ok us T' (snd (find_drafts us num mx x))) \<and>
    (if fst (find_drafts us num mx x) = [] then \<forall>i < length us - 2. \<not> occurs us (last_tokens us 2) i
     else \<exists>g i. 2 \<le> g \<and> g \<le> 3 \<and> i < length us - g \<and> occurs us (last_tokens us g) i \<and>
       fst (find_drafts us num mx x) = take (nat num) (drop (i + g) us))"
proof -
  let ?y = "index_tokens us x" let ?k = "nat (min mx (int (length us) - 1))"
  let ?T = "T \<union> {indexed_up_to x..<length us - 2}" let ?f = "look_up_gram us (nat num) (index ?y)"
  have e: "find_drafts us num mx x = (first_size ?f ?k, ?y)" using assms by (simp add: find_drafts_def Let_def)
  note I = index_tokens_ok [OF assms(1-3)]
  have L: "case ?f g of
      None \<Rightarrow> known us ?T ?y g (last_tokens us g) \<inter> {..<length us - g} = {}
    | Some d \<Rightarrow> \<exists>i \<in> known us ?T ?y g (last_tokens us g). i < length us - g \<and>
        (\<forall>j \<in> known us ?T ?y g (last_tokens us g). j < length us - g \<longrightarrow> j \<le> i) \<and>
        d = take (nat num) (drop (i + g) us) \<and> d \<noteq> []" if "2 \<le> g" "g \<le> ?k" for g
    by (rule look_up_index [OF I(1)]) (use that assms in auto)
  have occ: "i \<in> known us ?T ?y g q \<Longrightarrow> occurs us q i" for g q i by (auto simp: known_def split: if_splits)
  have two: "2 \<le> ?k" using assms(3,5) by simp
  from first_size_spec [of ?f ?k]
  have "if first_size ?f ?k = [] then \<forall>i < length us - 2. \<not> occurs us (last_tokens us 2) i
     else \<exists>g i. 2 \<le> g \<and> g \<le> 3 \<and> i < length us - g \<and> occurs us (last_tokens us g) i \<and>
       first_size ?f ?k = take (nat num) (drop (i + g) us)"
  proof (elim disjE conjE exE)
    assume none: "first_size ?f ?k = []" "\<forall>h. 2 \<le> h \<longrightarrow> h \<le> ?k \<longrightarrow> ?f h = None \<or> ?f h = Some []"
    then have "?f 2 = None" using L [OF order_refl two] two by (cases "?f 2") auto
    then have "known us ?T ?y 2 (last_tokens us 2) \<inter> {..<length us - 2} = {}" using L [OF order_refl two] by simp
    moreover have "i \<in> known us ?T ?y 2 (last_tokens us 2)" if "i < length us - 2" "occurs us (last_tokens us 2) i" for i
      using that I(2) by (simp add: known_def)
    ultimately have "\<forall>i < length us - 2. \<not> occurs us (last_tokens us 2) i" by blast
    then show ?thesis using none(1) by simp
  next
    fix g assume g: "2 \<le> g" "g \<le> ?k" "?f g = Some (first_size ?f ?k)"
    then obtain i where i: "i \<in> known us ?T ?y g (last_tokens us g)" "i < length us - g"
      "first_size ?f ?k = take (nat num) (drop (i + g) us)" "first_size ?f ?k \<noteq> []"
      using L [OF g(1,2)] by auto
    have "g \<le> 3" using g(2) assms(6) by simp
    then have "\<exists>g i. 2 \<le> g \<and> g \<le> 3 \<and> i < length us - g \<and> occurs us (last_tokens us g) i \<and>
        first_size ?f ?k = take (nat num) (drop (i + g) us)"
      using g(1) i(2,3) occ [OF i(1)] by blast
    then show ?thesis using i(4) by simp
  qed
  then show ?thesis using I(1) unfolding e by auto
qed

text \<open>
  Decoding one token at a time never extends the trigram index: after a first call on \<open>a\<close> tokens and
  one call per further token, every trigram the index holds lies inside those first \<open>a\<close> tokens.
\<close>

lemma growing_index_misses_trigrams:
  assumes "3 \<le> a" "a \<le> b" "b \<le> length ts" "0 < num"
    and "length key = 3" "index (growing_calls ts num mx a b) key = Some (p, prev)"
  shows "p + 3 \<le> int a"
proof -
  have "tracked (take b ts) (b - 1) {..<a - 2} (index (growing_calls ts num mx a b))"
    using growing_calls_ok [OF assms(1-4)] by (metis index_ok_def)
  then have "track {i \<in> {..<a - 2}. occurs (take b ts) key i} (Some (p, prev))"
    using assms(5,6) by (auto simp: tracked_def dest: spec [of _ key])
  then obtain i where "i < a - 2" "p = int i" by (auto simp: track_def)
  then show ?thesis by simp
qed

end
