(* ===== verification/Token_Trie.thy ===== *)
theory Token_Trie
  imports Prelude "HOL-Library.Sublist"
begin

text \<open>
  The nested token dictionaries of \<open>PrefixCacheManager\<close> (\<open>vmlx_engine/prefix_cache.py\<close>): a node holds an
  optional entry (the key \<open>"cache"\<close>) and its children in insertion order.  Insertion, deletion with the
  pruning of empty branches, the walk of \<open>_search\<close> and its breadth-first search for a longer entry.
\<close>

datatype 'e token_trie = Trie (entry: "'e option") (branches: "(int \<times> 'e token_trie) list")

abbreviation empty_token_trie :: "'e token_trie" where
  "empty_token_trie \<equiv> Trie None []"

fun node_of :: "'e token_trie \<Rightarrow> int list \<Rightarrow> 'e token_trie option" where
  "node_of t [] = Some t"
| "node_of (Trie e bs) (x # xs) = (case pd_get bs x of None \<Rightarrow> None | Some c \<Rightarrow> node_of c xs)"

definition trie_lookup :: "'e token_trie \<Rightarrow> int list \<Rightarrow> 'e option" where
  "trie_lookup t ts = (case node_of t ts of None \<Rightarrow> None | Some n \<Rightarrow> entry n)"

fun trie_insert :: "'e \<Rightarrow> 'e token_trie \<Rightarrow> int list \<Rightarrow> 'e token_trie" where
  "trie_insert v (Trie e bs) [] = Trie (Some v) bs"
| "trie_insert v (Trie e bs) (x # xs) =
     Trie e (pd_set bs x (trie_insert v (case pd_get bs x of None \<Rightarrow> empty_token_trie | Some c \<Rightarrow> c) xs))"

text \<open>Deletion: nothing when the path is not there; emptied nodes are unlinked bottom-up.\<close>

fun delete_path :: "'e token_trie \<Rightarrow> int list \<Rightarrow> 'e token_trie" where
  "delete_path (Trie e bs) [] = Trie None bs"
| "delete_path (Trie e bs) (x # xs) =
     (case pd_get bs x of
        None \<Rightarrow> Trie e bs
      | Some c \<Rightarrow>
          (let c' = delete_path c xs
           in if entry c' = None \<and> branches c' = [] then Trie e (pd_del bs x) else Trie e (pd_set bs x c')))"

definition trie_delete :: "'e token_trie \<Rightarrow> int list \<Rightarrow> 'e token_trie" where
  "trie_delete t ts = (if node_of t ts = None then t else delete_path t ts)"

text \<open>The walk along the tokens: where it ends, and the path to the node it failed at.\<close>

datatype 'e walk_end = Reached "'e token_trie" | Stuck "'e token_trie" "int list"

fun walk :: "'e token_trie \<Rightarrow> int list \<Rightarrow> int list \<Rightarrow> 'e walk_end" where
  "walk t path [] = Reached t"
| "walk (Trie e bs) path (x # xs) =
     (case pd_get bs x of None \<Rightarrow> Stuck (Trie e bs) path | Some c \<Rightarrow> walk c (path @ [x]) xs)"

text \<open>The queue of the breadth-first search for the nearest entry.\<close>

definition trie_nodes :: "('e token_trie \<times> int list) list \<Rightarrow> nat" where
  "trie_nodes q = sum_list (map (size_token_trie (\<lambda>_. 0) \<circ> fst) q)"

lemma size_branches:
  "trie_nodes (map (\<lambda>(x, c). (c, p @ [x])) bs) \<le> size_list (size_prod (\<lambda>_. 0) (size_token_trie (\<lambda>_. 0))) bs"
  unfolding trie_nodes_def by (induction bs) auto

function nearest_entry :: "('e token_trie \<times> int list) list \<Rightarrow> int list option" where
  "nearest_entry [] = None"
| "nearest_entry ((Trie e bs, path) # queue) =
     (if e \<noteq> None then Some path else nearest_entry (queue @ map (\<lambda>(x, c). (c, path @ [x])) bs))"
  by pat_completeness auto
termination
proof (relation "measure trie_nodes")
  fix e :: "'e option" and bs path and queue :: "('e token_trie \<times> int list) list"
  have "trie_nodes (queue @ map (\<lambda>(x, c). (c, path @ [x])) bs) =
      trie_nodes queue + trie_nodes (map (\<lambda>(x, c). (c, path @ [x])) bs)"
    by (simp add: trie_nodes_def)
  also have "\<dots> < trie_nodes ((Trie e bs, path) # queue)"
    using size_branches [of path bs] by (simp add: trie_nodes_def)
  finally show "(queue @ map (\<lambda>(x, c). (c, path @ [x])) bs, (Trie e bs, path) # queue) \<in> measure trie_nodes" by simp
qed simp

section \<open>Lookup laws\<close>

lemma lookup_simps [simp]:
  "trie_lookup (Trie e bs) [] = e"
  "trie_lookup (Trie e bs) (x # xs) = (case pd_get bs x of None \<Rightarrow> None | Some c \<Rightarrow> trie_lookup c xs)"
  by (simp_all add: trie_lookup_def split: option.split)

lemma lookup_empty [simp]: "trie_lookup empty_token_trie ts = None"
  by (cases ts) simp_all

lemma lookup_Nil: "trie_lookup t [] = entry t"
  by (cases t) simp

lemma lookup_insert: "trie_lookup (trie_insert v t ts) us = (if us = ts then Some v else trie_lookup t us)"
proof (induction v t ts arbitrary: us rule: trie_insert.induct)
  case (1 v e bs)
  then show ?case by (cases us) auto
next
  case (2 v e bs x xs)
  then show ?case by (cases us) (auto split: option.split)
qed

lemma lookup_delete_path: "node_of t ts \<noteq> None \<Longrightarrow> trie_lookup (delete_path t ts) us = (if us = ts then None else trie_lookup t us)"
proof (induction t ts arbitrary: us rule: delete_path.induct)
  case (1 e bs)
  then show ?case by (cases us) auto
next
  case (2 e bs x xs)
  then obtain c where c: "pd_get bs x = Some c" "node_of c xs \<noteq> None" by (auto split: option.splits)
  let ?c = "delete_path c xs"
  have IH: "trie_lookup ?c us = (if us = xs then None else trie_lookup c us)" for us using 2 c by simp
  show ?case
  proof (cases "entry ?c = None \<and> branches ?c = []")
    case True
    then have "?c = empty_token_trie" by (cases ?c) auto
    then have "trie_lookup c us = None" if "us \<noteq> xs" for us using IH [of us] that by simp
    then show ?thesis using True c by (cases us) (auto simp: Let_def split: option.split)
  next
    case False
    then show ?thesis using c IH by (cases us) (auto simp: Let_def split: option.split)
  qed
qed

lemma lookup_delete: "trie_lookup (trie_delete t ts) us = (if us = ts then None else trie_lookup t us)"
  using lookup_delete_path [of t ts us] by (auto simp: trie_delete_def) (auto simp: trie_lookup_def split: option.splits)

text \<open>Keys are different, and there are no dead branches: every node below the root leads to an entry.\<close>

definition live_node :: "'e token_trie \<Rightarrow> bool" where
  "live_node t \<longleftrightarrow> t \<noteq> empty_token_trie"

lemma dead_iff: "entry t = None \<and> branches t = [] \<longleftrightarrow> \<not> live_node t"
  by (cases t) (simp add: live_node_def)

lemma live_simps [simp]: "live_node (Trie (Some v) bs)" "live_node (Trie e (pd_set bs x c))" "\<not> live_node empty_token_trie"
  by (simp_all add: live_node_def)

lemma delete_path_Cons: "delete_path (Trie e bs) (x # xs) =
   (case pd_get bs x of None \<Rightarrow> Trie e bs
    | Some c \<Rightarrow> if live_node (delete_path c xs) then Trie e (pd_set bs x (delete_path c xs)) else Trie e (pd_del bs x))"
  unfolding delete_path.simps Let_def dead_iff by (simp split: option.split)

fun trie_ok :: "'e token_trie \<Rightarrow> bool" where
  "trie_ok (Trie e bs) \<longleftrightarrow> pd_ok bs \<and> (\<forall>(x, c) \<in> set bs. trie_ok c \<and> live_node c)"

lemma trie_ok_get: "trie_ok (Trie e bs) \<Longrightarrow> pd_get bs x = Some c \<Longrightarrow> trie_ok c \<and> live_node c"
  by (auto dest!: map_of_SomeD)

lemma set_pd_set: "set (pd_set d k v) \<subseteq> insert (k, v) (set d)"
  by (induction d k v rule: pd_set.induct) auto

lemma trie_ok_set: "trie_ok (Trie e bs) \<Longrightarrow> trie_ok c \<Longrightarrow> live_node c \<Longrightarrow> trie_ok (Trie e' (pd_set bs x c))"
  using set_pd_set [of bs x c] by fastforce

lemma trie_ok_insert: "trie_ok t \<Longrightarrow> trie_ok (trie_insert v t ts) \<and> live_node (trie_insert v t ts)"
proof (induction v t ts rule: trie_insert.induct)
  case (2 v e bs x xs)
  let ?c = "case pd_get bs x of None \<Rightarrow> empty_token_trie | Some c \<Rightarrow> c"
  have "trie_ok ?c" using trie_ok_get [OF 2(2)] by (simp split: option.split)
  then have "trie_ok (trie_insert v ?c xs) \<and> live_node (trie_insert v ?c xs)" by (rule 2(1))
  then have "trie_ok (Trie e (pd_set bs x (trie_insert v ?c xs)))" using trie_ok_set [OF 2(2)] by blast
  then show ?case by (simp only: trie_insert.simps live_simps simp_thms)
qed simp

lemma trie_ok_delete_path: "trie_ok t \<Longrightarrow> trie_ok (delete_path t ts)"
proof (induction t ts rule: delete_path.induct)
  case (2 e bs x xs)
  show ?case
  proof (cases "pd_get bs x")
    case (Some c)
    let ?c = "delete_path c xs"
    have c: "trie_ok ?c" using 2 Some trie_ok_get by blast
    have "trie_ok (Trie e (pd_del bs x))" using 2(2) by (auto simp: set_pd_del)
    moreover have "live_node ?c \<Longrightarrow> trie_ok (Trie e (pd_set bs x ?c))" by (rule trie_ok_set [OF 2(2) c])
    ultimately show ?thesis using Some by (simp only: delete_path_Cons option.case split: if_split) blast
  qed (use 2 in \<open>simp add: delete_path_Cons\<close>)
qed simp

lemma trie_ok_delete: "trie_ok t \<Longrightarrow> trie_ok (trie_delete t ts)"
  by (simp add: trie_delete_def trie_ok_delete_path)

text \<open>A live trie holds an entry.\<close>

lemma live_has_entry: "trie_ok t \<Longrightarrow> live_node t \<Longrightarrow> \<exists>ts. trie_lookup t ts \<noteq> None"
proof (induction t)
  case (Trie e bs)
  show ?case
  proof (cases e)
    case None
    then obtain x c where c: "(x, c) \<in> set bs" using Trie.prems(2) by (cases bs) (auto simp: live_node_def)
    then have "trie_ok c" "live_node c" "pd_ok bs" using Trie.prems(1) by auto
    then obtain ts where "trie_lookup c ts \<noteq> None" using Trie.IH [of "(x, c)" c] c by auto
    moreover have "pd_get bs x = Some c" using c \<open>pd_ok bs\<close> by (simp add: pd_get_eq_Some_iff)
    ultimately have "trie_lookup (Trie e bs) (x # ts) \<noteq> None" by simp
    then show ?thesis by blast
  qed (auto intro: exI [of _ "[]"])
qed

section \<open>The walk and the search\<close>

lemma walk_spec:
  "walk t path ts = (case node_of t ts of
     Some n \<Rightarrow> Reached n
   | None \<Rightarrow> (let k = (LEAST k. node_of t (take (Suc k) ts) = None) in Stuck (the (node_of t (take k ts))) (path @ take k ts)))"
proof (induction t path ts rule: walk.induct)
  case (2 e bs path x xs)
  show ?case
  proof (cases "pd_get bs x")
    case None
    then have "(LEAST k. node_of (Trie e bs) (take (Suc k) (x # xs)) = None) = 0" by (intro Least_eq_0) simp
    then show ?thesis using None by simp
  next
    case (Some c)
    show ?thesis
    proof (cases "node_of c xs")
      case None
      have ex: "node_of (Trie e bs) (take (Suc (length xs)) (x # xs)) = None" using Some None by simp
      have z: "node_of (Trie e bs) (take (Suc 0) (x # xs)) \<noteq> None" using Some by simp
      have "(LEAST k. node_of (Trie e bs) (take (Suc k) (x # xs)) = None) =
          Suc (LEAST k. node_of (Trie e bs) (take (Suc (Suc k)) (x # xs)) = None)"
        by (rule Least_Suc [where P = "\<lambda>k. node_of (Trie e bs) (take (Suc k) (x # xs)) = None", OF ex z])
      then show ?thesis using 2 Some None by (simp add: Let_def)
    qed (use 2 Some in simp)
  qed
qed simp

text \<open>The search answers with the nearest entry under the queue's nodes.\<close>

definition level_queue :: "('e token_trie \<times> int list) list \<Rightarrow> bool" where
  "level_queue q \<longleftrightarrow> sorted (map (\<lambda>(t, p). length p) q) \<and> (\<forall>(t, p) \<in> set q. length p \<le> Suc (length (snd (hd q)))) \<and>
     (\<forall>(t, p) \<in> set q. trie_ok t)"

lemma level_queue_step:
  assumes "level_queue ((Trie e bs, path) # queue)"
  shows "level_queue (queue @ map (\<lambda>(x, c). (c, path @ [x])) bs)"
proof -
  let ?K = "map (\<lambda>(x, c). (c, path @ [x])) bs"
  have near: "\<forall>(t, p) \<in> set queue. length p \<le> Suc (length path) \<and> length path \<le> length p"
    and so: "sorted (map (\<lambda>(t, p). length p) queue)" and ok: "\<forall>(t, p) \<in> set queue. trie_ok t" "trie_ok (Trie e bs)"
    using assms by (auto simp: level_queue_def)
  have K: "\<forall>(t, p) \<in> set ?K. length p = Suc (length path) \<and> trie_ok t" using ok(2) by auto
  have "map (\<lambda>(t, p). length p) ?K = replicate (length bs) (Suc (length path))" by (induction bs) auto
  then have "sorted (map (\<lambda>(t, p). length p) (queue @ ?K))"
    using so near unfolding map_append sorted_append by (auto simp del: map_map)
  moreover have "\<forall>(t, p) \<in> set (queue @ ?K). length p \<le> Suc (length (snd (hd (queue @ ?K))))"
    using near K by (cases queue; cases bs) auto
  moreover have "\<forall>(t, p) \<in> set (queue @ ?K). trie_ok t" using K ok(1) by auto
  ultimately show ?thesis unfolding level_queue_def by blast
qed

lemma nearest_entry_spec:
  "level_queue q \<Longrightarrow>
   (case nearest_entry q of
      None \<Rightarrow> \<forall>(t, p) \<in> set q. \<forall>ts. trie_lookup t ts = None
    | Some r \<Rightarrow> (\<exists>(t, p) \<in> set q. \<exists>ts. r = p @ ts \<and> trie_lookup t ts \<noteq> None) \<and>
        (\<forall>(t, p) \<in> set q. \<forall>ts. trie_lookup t ts \<noteq> None \<longrightarrow> length r \<le> length p + length ts))"
proof (induction q rule: nearest_entry.induct)
  case (2 e bs path queue)
  let ?K = "map (\<lambda>(x, c). (c, path @ [x])) bs"
  show ?case
  proof (cases e)
    case (Some v)
    have "length path \<le> length p" if "(t, p) \<in> set ((Trie e bs, path) # queue)" for t p
      using 2(2) that by (auto simp: level_queue_def)
    moreover have "trie_lookup (Trie e bs) [] \<noteq> None" using Some by simp
    ultimately show ?thesis using Some by (auto intro!: bexI [of _ "(Trie e bs, path)"] exI [of _ "[]"] trans_le_add1)
  next
    case None
    have ok: "trie_ok (Trie e bs)" using 2(2) by (simp add: level_queue_def)
    have IH: "case nearest_entry (queue @ ?K) of
      None \<Rightarrow> \<forall>(t, p) \<in> set (queue @ ?K). \<forall>ts. trie_lookup t ts = None
    | Some r \<Rightarrow> (\<exists>(t, p) \<in> set (queue @ ?K). \<exists>ts. r = p @ ts \<and> trie_lookup t ts \<noteq> None) \<and>
        (\<forall>(t, p) \<in> set (queue @ ?K). \<forall>ts. trie_lookup t ts \<noteq> None \<longrightarrow> length r \<le> length p + length ts)"
      using 2(1) [OF _ level_queue_step [OF 2(2)]] None by simp
    have eq: "nearest_entry ((Trie e bs, path) # queue) = nearest_entry (queue @ ?K)" using None by simp
    have down: "\<exists>c x us. (c, path @ [x]) \<in> set ?K \<and> ts = x # us \<and> trie_lookup c us \<noteq> None"
      if l: "trie_lookup (Trie e bs) ts \<noteq> None" for ts
    proof (cases ts)
      case (Cons x us)
      then obtain c where "pd_get bs x = Some c" "trie_lookup c us \<noteq> None" using l by (auto split: option.splits)
      then show ?thesis using Cons map_of_SomeD [of bs x c] by force
    qed (use l None in simp)
    have up: "\<exists>us. p @ ts = path @ us \<and> trie_lookup (Trie e bs) us \<noteq> None"
      if c: "(c, p) \<in> set ?K" "trie_lookup c ts \<noteq> None" for c p ts
    proof -
      obtain x where x: "(x, c) \<in> set bs" "p = path @ [x]" using c(1) by auto
      then have "pd_get bs x = Some c" using ok by (simp add: pd_get_eq_Some_iff)
      then have "trie_lookup (Trie e bs) (x # ts) \<noteq> None" using c(2) by simp
      then show ?thesis using x(2) by force
    qed
    show ?thesis
    proof (cases "nearest_entry (queue @ ?K)")
      case None2: None
      have all: "\<forall>(t, p) \<in> set (queue @ ?K). \<forall>ts. trie_lookup t ts = None" using IH unfolding None2 option.case .
      have "trie_lookup t ts = None" if "(t, p) \<in> set (queue @ ?K)" for t p ts using bspec [OF all that] by simp
      note none = this
      have "trie_lookup (Trie e bs) ts = None" for ts
      proof (rule ccontr)
        assume "trie_lookup (Trie e bs) ts \<noteq> None"
        from down [OF this] obtain c x us where "(c, path @ [x]) \<in> set ?K" "trie_lookup c us \<noteq> None" by blast
        with none [of c "path @ [x]" us] show False by simp
      qed
      moreover have "trie_lookup t ts = None" if "(t, p) \<in> set queue" for t p ts using none [of t p ts] that by simp
      ultimately show ?thesis unfolding eq None2 option.case by auto
    next
      case (Some r)
      note found = IH [unfolded Some option.case]
      have B: "length r \<le> length p + length ts" if "(t, p) \<in> set (queue @ ?K)" "trie_lookup t ts \<noteq> None" for t p ts
        using bspec [OF conjunct2 [OF found] that(1)] that(2) by simp
      have "\<exists>(t, p) \<in> set ((Trie e bs, path) # queue). \<exists>ts. r = p @ ts \<and> trie_lookup t ts \<noteq> None"
      proof -
        obtain t p ts where t: "(t, p) \<in> set (queue @ ?K)" "r = p @ ts" "trie_lookup t ts \<noteq> None"
          using conjunct1 [OF found] by blast
        show ?thesis
        proof (cases "(t, p) \<in> set queue")
          case True
          then show ?thesis using t(2,3) by (intro bexI [of _ "(t, p)"]) auto
        next
          case False
          then obtain us where "p @ ts = path @ us" "trie_lookup (Trie e bs) us \<noteq> None" using up [of t p ts] t by auto
          then show ?thesis using t(2) by (intro bexI [of _ "(Trie e bs, path)"]) auto
        qed
      qed
      moreover have "length r \<le> length p + length ts"
        if l: "(t, p) \<in> set ((Trie e bs, path) # queue)" "trie_lookup t ts \<noteq> None" for t p ts
      proof (cases "(t, p) = (Trie e bs, path)")
        case True
        then obtain c x us where "(c, path @ [x]) \<in> set ?K" "ts = x # us" "trie_lookup c us \<noteq> None" using down l(2) by blast
        then show ?thesis using B [of c "path @ [x]" us] True by auto
      next
        case False
        then show ?thesis using B [of t p ts] l by auto
      qed
      ultimately show ?thesis unfolding eq Some by auto
    qed
  qed
qed simp

text \<open>The nodes below the root are the beginnings of the stored sequences.\<close>

lemma node_of_append: "node_of t (xs @ ys) = (case node_of t xs of None \<Rightarrow> None | Some n \<Rightarrow> node_of n ys)"
  by (induction t xs rule: node_of.induct) (auto split: option.split)

lemma lookup_below: "node_of t xs = Some n \<Longrightarrow> trie_lookup t (xs @ ys) = trie_lookup n ys"
  by (simp add: trie_lookup_def node_of_append)

lemma node_of_ok: "trie_ok t \<Longrightarrow> node_of t xs = Some n \<Longrightarrow> trie_ok n \<and> (xs \<noteq> [] \<longrightarrow> live_node n)"
proof (induction t xs rule: node_of.induct)
  case (2 e bs x xs)
  then obtain c where c: "pd_get bs x = Some c" "node_of c xs = Some n" by (auto split: option.splits)
  then have "trie_ok c \<and> live_node c" using trie_ok_get [OF 2(2)] by blast
  then show ?case using 2(1) [OF c(1)] c(2) by (cases xs) auto
qed simp

lemma node_iff: "trie_ok t \<Longrightarrow> xs \<noteq> [] \<Longrightarrow> node_of t xs \<noteq> None \<longleftrightarrow> (\<exists>ys. trie_lookup t (xs @ ys) \<noteq> None)"
proof
  assume t: "trie_ok t" and xs: "xs \<noteq> []" and n: "node_of t xs \<noteq> None"
  obtain n where n: "node_of t xs = Some n" using n by blast
  then have "trie_ok n" "live_node n" using node_of_ok [OF t n] xs by auto
  then obtain ys where "trie_lookup n ys \<noteq> None" using live_has_entry by blast
  then show "\<exists>ys. trie_lookup t (xs @ ys) \<noteq> None" using lookup_below [OF n] by auto
next
  assume "\<exists>ys. trie_lookup t (xs @ ys) \<noteq> None"
  then show "node_of t xs \<noteq> None" by (auto simp: trie_lookup_def node_of_append split: option.splits)
qed

text \<open>The nearest entry below a node, as a statement about the whole trie.\<close>

lemma nearest_below:
  assumes t: "trie_ok t" and n: "node_of t xs = Some n"
  shows "case nearest_entry [(n, xs)] of
     None \<Rightarrow> \<forall>ys. trie_lookup t (xs @ ys) = None
   | Some r \<Rightarrow> (\<exists>ys. r = xs @ ys) \<and> trie_lookup t r \<noteq> None \<and> (\<forall>ys. trie_lookup t (xs @ ys) \<noteq> None \<longrightarrow> length r \<le> length (xs @ ys))"
proof -
  have "level_queue [(n, xs)]" using node_of_ok [OF t n] by (simp add: level_queue_def)
  from nearest_entry_spec [OF this] show ?thesis by (auto simp: lookup_below [OF n] split: option.splits)
qed

text \<open>Where the walk fails: at the longest beginning of the tokens that is a node.\<close>

lemma walk_stuck:
  assumes "walk t [] ts = Stuck n path"
  shows "\<exists>k < length ts. path = take k ts \<and> node_of t path = Some n \<and> node_of t (take (Suc k) ts) = None"
proof -
  have none: "node_of t ts = None" using assms walk_spec [of t "[]" ts] by (cases "node_of t ts") auto
  define k where "k = (LEAST k. node_of t (take (Suc k) ts) = None)"
  have ts: "ts \<noteq> []" using none by auto
  have ex: "node_of t (take (Suc (length ts - 1)) ts) = None" using none ts by simp
  then have k: "node_of t (take (Suc k) ts) = None" "k \<le> length ts - 1" unfolding k_def by (rule LeastI, rule Least_le)
  have "node_of t (take k ts) \<noteq> None"
  proof (cases k)
    case (Suc j)
    then show ?thesis using not_less_Least [of j "\<lambda>k. node_of t (take (Suc k) ts) = None"] by (simp add: k_def)
  qed simp
  moreover have "n = the (node_of t (take k ts))" "path = take k ts"
    using assms none walk_spec [of t "[]" ts] unfolding k_def by (auto simp: Let_def)
  moreover have "k < length ts" using k(2) ts by (cases ts) auto
  ultimately show ?thesis using k(1) by (intro exI [of _ k]) auto
qed

lemma walk_reached: "walk t [] ts = Reached n \<Longrightarrow> node_of t ts = Some n"
  using walk_spec [of t "[]" ts] by (auto simp: Let_def split: option.splits)

end
