(* ===== verification/Typed_Lru.thy ===== *)
theory Typed_Lru
  imports Prelude
begin

text \<open>
  What the two prompt caches share (\<open>PrefixCacheManager\<close> in \<open>vmlx_engine/prefix_cache.py\<close> and
  \<open>MemoryAwarePrefixCache\<close> in \<open>vmlx_engine/memory_cache.py\<close>): three least-recently-used buckets, one per
  cache type, evicted in the order assistant, user, system, and byte counters per type.  A bucket is an
  \<open>OrderedDict\<close> whose values are all \<open>True\<close>, so its keys in order are the whole of it.
\<close>

datatype cache_type = Assistant | User | System

definition cache_type_priority :: "cache_type list" where
  "cache_type_priority = [Assistant, User, System]"

text \<open>The type named by a string; unknown names count as assistant.\<close>

definition cache_type_of :: "string \<Rightarrow> cache_type" where
  "cache_type_of s = (if s = ''system'' then System else if s = ''user'' then User else Assistant)"

lemma UNIV_cache_type: "UNIV = {Assistant, User, System}"
  using cache_type.exhaust by auto

instantiation cache_type :: "{finite, linorder}"
begin

definition less_eq_cache_type :: "cache_type \<Rightarrow> cache_type \<Rightarrow> bool" where
  "less_eq_cache_type s t \<longleftrightarrow> s = Assistant \<or> s = User \<and> t \<noteq> Assistant \<or> s = System \<and> t = System"

definition less_cache_type :: "cache_type \<Rightarrow> cache_type \<Rightarrow> bool" where
  "less_cache_type s t \<longleftrightarrow> s \<noteq> t \<and> s \<le> t"

instance
proof
  show "finite (UNIV :: cache_type set)" by (simp add: UNIV_cache_type)
  fix x y z :: cache_type
  show "(x < y) = (x \<le> y \<and> \<not> y \<le> x)" by (cases x; cases y) (simp_all add: less_cache_type_def less_eq_cache_type_def)
  show "x \<le> x" by (cases x) (simp_all add: less_eq_cache_type_def)
  show "x \<le> y \<Longrightarrow> y \<le> z \<Longrightarrow> x \<le> z" by (cases x; cases y; cases z) (simp_all add: less_eq_cache_type_def)
  show "x \<le> y \<Longrightarrow> y \<le> x \<Longrightarrow> x = y" by (cases x; cases y) (simp_all add: less_eq_cache_type_def)
  show "x \<le> y \<or> y \<le> x" by (cases x; cases y) (simp_all add: less_eq_cache_type_def)
qed

end

lemmas cache_type_order = less_cache_type_def less_eq_cache_type_def

section \<open>Buckets\<close>

type_synonym 'k buckets = "cache_type \<Rightarrow> 'k list"

text \<open>\<open>d[k] = True; d.move_to_end(k)\<close> and \<open>if k in d: del d[k]\<close>.\<close>

definition bucket_push :: "'k \<Rightarrow> 'k list \<Rightarrow> 'k list" where
  "bucket_push k d = filter (\<lambda>k'. k' \<noteq> k) d @ [k]"

definition bucket_remove :: "'k \<Rightarrow> 'k list \<Rightarrow> 'k list" where
  "bucket_remove k d = filter (\<lambda>k'. k' \<noteq> k) d"

definition total_size :: "'k buckets \<Rightarrow> nat" where
  "total_size lru = (\<Sum>t\<leftarrow>cache_type_priority. length (lru t))"

text \<open>The entry to go next: the head of the first bucket that is not empty.\<close>

fun first_of :: "'k buckets \<Rightarrow> cache_type list \<Rightarrow> (cache_type \<times> 'k) option" where
  "first_of lru [] = None"
| "first_of lru (t # ts) = (case lru t of [] \<Rightarrow> first_of lru ts | k # _ \<Rightarrow> Some (t, k))"

definition victim :: "'k buckets \<Rightarrow> (cache_type \<times> 'k) option" where
  "victim lru = first_of lru cache_type_priority"

lemma total_size_eq: "total_size lru = length (lru Assistant) + length (lru User) + length (lru System)"
  by (simp add: total_size_def cache_type_priority_def)

lemma total_size_upd: "total_size (lru(t := d)) + length (lru t) = total_size lru + length d"
  by (cases t) (simp_all add: total_size_eq)

lemma victim_SomeD:
  "victim lru = Some (t, k) \<Longrightarrow> (\<exists>ks. lru t = k # ks) \<and> (\<forall>s < t. lru s = [])"
proof -
  have less: "s < Assistant \<longleftrightarrow> False" "s < User \<longleftrightarrow> s = Assistant" "s < System \<longleftrightarrow> s = Assistant \<or> s = User" for s
    by (cases s; simp add: cache_type_order)+
  show "victim lru = Some (t, k) \<Longrightarrow> ?thesis"
    by (cases t) (auto simp: victim_def cache_type_priority_def less split: list.splits)
qed

lemma victim_None_iff: "victim lru = None \<longleftrightarrow> total_size lru = 0"
  by (auto simp: victim_def cache_type_priority_def total_size_eq split: list.split)

lemma victim_pop: "victim lru = Some (t, k) \<Longrightarrow> Suc (total_size (lru(t := tl (lru t)))) = total_size lru"
  using victim_SomeD [of lru t k] total_size_upd [of lru t "tl (lru t)"] by auto

section \<open>The bookkeeping invariant\<close>

text \<open>
  Against what the cache holds (a key's type and bytes): every key is in exactly the bucket of its type,
  once, and the counters are the sums of the entries' bytes.
\<close>

type_synonym 'k contents = "'k \<Rightarrow> (cache_type \<times> nat) option"

definition entry_bytes :: "'k contents \<Rightarrow> 'k \<Rightarrow> int" where
  "entry_bytes E k = (case E k of None \<Rightarrow> 0 | Some (_, n) \<Rightarrow> int n)"

definition bucket_bytes :: "'k contents \<Rightarrow> 'k list \<Rightarrow> int" where
  "bucket_bytes E ks = (\<Sum>k\<leftarrow>ks. entry_bytes E k)"

definition typed_ok :: "'k contents \<Rightarrow> 'k buckets \<Rightarrow> (cache_type \<Rightarrow> int) \<Rightarrow> int \<Rightarrow> bool" where
  "typed_ok E lru bytes tot \<longleftrightarrow>
     (\<forall>t. distinct (lru t)) \<and> (\<forall>t k. k \<in> set (lru t) \<longleftrightarrow> (\<exists>n. E k = Some (t, n))) \<and>
     (\<forall>t. bytes t = bucket_bytes E (lru t)) \<and> tot = bytes Assistant + bytes User + bytes System"

lemma entry_bytes_nonneg: "0 \<le> entry_bytes E k"
  by (simp add: entry_bytes_def split: option.split)

lemma bucket_bytes_simps [simp]:
  "bucket_bytes E [] = 0" "bucket_bytes E (k # ks) = entry_bytes E k + bucket_bytes E ks"
  "bucket_bytes E (ks @ ls) = bucket_bytes E ks + bucket_bytes E ls"
  by (simp_all add: bucket_bytes_def)

lemma bucket_bytes_nonneg: "0 \<le> bucket_bytes E ks"
  by (induction ks) (simp_all add: entry_bytes_nonneg)

lemma bucket_bytes_other: "k \<notin> set ks \<Longrightarrow> bucket_bytes (E(k := v)) ks = bucket_bytes E ks"
  by (induction ks) (auto simp: entry_bytes_def)

lemma bucket_bytes_remove:
  "distinct ks \<Longrightarrow> bucket_bytes E (bucket_remove k ks) = bucket_bytes E ks - (if k \<in> set ks then entry_bytes E k else 0)"
  unfolding bucket_remove_def by (induction ks) auto

lemma in_bucket_remove [simp]: "k' \<in> set (bucket_remove k ks) \<longleftrightarrow> k' \<noteq> k \<and> k' \<in> set ks"
  by (auto simp: bucket_remove_def)

lemma in_bucket_push [simp]: "k' \<in> set (bucket_push k ks) \<longleftrightarrow> k' = k \<or> k' \<in> set ks"
  by (auto simp: bucket_push_def)

lemma distinct_remove [simp]: "distinct ks \<Longrightarrow> distinct (bucket_remove k ks)"
  by (simp add: bucket_remove_def)

lemma distinct_push [simp]: "distinct ks \<Longrightarrow> distinct (bucket_push k ks)"
  by (simp add: bucket_push_def)

lemma bucket_remove_absent: "k \<notin> set ks \<Longrightarrow> bucket_remove k ks = ks"
  unfolding bucket_remove_def by (induction ks) auto

lemma bucket_push_eq: "bucket_push k ks = bucket_remove k ks @ [k]"
  by (simp add: bucket_push_def bucket_remove_def)

lemma bucket_remove_tl: "distinct (k # ks) \<Longrightarrow> bucket_remove k (k # ks) = ks"
  using bucket_remove_absent [of k ks] by (simp add: bucket_remove_def)

lemma length_push: "distinct ks \<Longrightarrow> k \<in> set ks \<Longrightarrow> length (bucket_push k ks) = length ks"
proof -
  assume d: "distinct ks" and "k \<in> set ks"
  then obtain a b where ks: "ks = a @ k # b" by (meson split_list)
  with d have "k \<notin> set a" "k \<notin> set b" by auto
  with ks show ?thesis using bucket_remove_absent [of k a] bucket_remove_absent [of k b]
    by (simp add: bucket_push_eq) (simp add: bucket_remove_def)
qed

lemma typed_ok_distinct: "typed_ok E lru bytes tot \<Longrightarrow> distinct (lru t)"
  and typed_ok_in: "typed_ok E lru bytes tot \<Longrightarrow> k \<in> set (lru t) \<longleftrightarrow> (\<exists>n. E k = Some (t, n))"
  and typed_ok_bytes: "typed_ok E lru bytes tot \<Longrightarrow> bytes t = bucket_bytes E (lru t)"
  and typed_ok_total: "typed_ok E lru bytes tot \<Longrightarrow> tot = bytes Assistant + bytes User + bytes System"
  by (simp_all add: typed_ok_def)

lemma typed_ok_empty: "typed_ok (\<lambda>_. None) (\<lambda>_. []) (\<lambda>_. 0) 0"
  by (simp add: typed_ok_def)

lemma typed_ok_nonneg: "typed_ok E lru bytes tot \<Longrightarrow> 0 \<le> bytes t \<and> bytes t \<le> tot"
  using bucket_bytes_nonneg [of E "lru Assistant"] bucket_bytes_nonneg [of E "lru User"] bucket_bytes_nonneg [of E "lru System"]
  by (cases t) (auto simp: typed_ok_def)

lemma typed_ok_entry: "typed_ok E lru bytes tot \<Longrightarrow> E k = Some (t, n) \<Longrightarrow> int n \<le> bytes t"
proof -
  assume ok: "typed_ok E lru bytes tot" and k: "E k = Some (t, n)"
  have "k \<in> set (lru t)" using k typed_ok_in [OF ok] by blast
  then obtain a b where "lru t = a @ k # b" by (meson split_list)
  then have "bytes t = bucket_bytes E a + (int n + bucket_bytes E b)"
    using typed_ok_bytes [OF ok, of t] k by (simp add: entry_bytes_def)
  then show ?thesis using bucket_bytes_nonneg [of E a] bucket_bytes_nonneg [of E b] by simp
qed

text \<open>The sum over the types, when one counter moves.\<close>

lemma total_upd: "(bytes(t := bytes t + d)) Assistant + (bytes(t := bytes t + d)) User + (bytes(t := bytes t + d)) System =
    bytes Assistant + bytes User + bytes System + (d :: int)"
  by (cases t) simp_all

text \<open>Insert a new key, delete a present one, refresh one.\<close>

lemma typed_ok_insert:
  assumes ok: "typed_ok E lru bytes tot" and new: "E k = None"
  shows "typed_ok (E(k \<mapsto> (t, n))) (lru(t := bucket_push k (lru t))) (bytes(t := bytes t + int n)) (tot + int n)"
proof -
  have out: "k \<notin> set (lru s)" for s using typed_ok_in [OF ok, of k s] new by simp
  have push: "bucket_push k (lru t) = lru t @ [k]" using out by (simp add: bucket_push_eq bucket_remove_absent)
  show ?thesis unfolding typed_ok_def
  proof (intro conjI allI)
    fix s k'
    show "distinct ((lru(t := bucket_push k (lru t))) s)" using typed_ok_distinct [OF ok] by simp
    show "k' \<in> set ((lru(t := bucket_push k (lru t))) s) \<longleftrightarrow> (\<exists>m. (E(k \<mapsto> (t, n))) k' = Some (s, m))"
      using typed_ok_in [OF ok, of k' s] out by (cases "k' = k") auto
    show "(bytes(t := bytes t + int n)) s = bucket_bytes (E(k \<mapsto> (t, n))) ((lru(t := bucket_push k (lru t))) s)"
      using typed_ok_bytes [OF ok] out by (auto simp: push bucket_bytes_other) (simp add: entry_bytes_def)
  next
    show "tot + int n = (bytes(t := bytes t + int n)) Assistant + (bytes(t := bytes t + int n)) User +
        (bytes(t := bytes t + int n)) System"
      using typed_ok_total [OF ok] by (simp only: total_upd)
  qed
qed

lemma typed_ok_delete:
  assumes ok: "typed_ok E lru bytes tot" and k: "E k = Some (t, n)"
  shows "typed_ok (E(k := None)) (lru(t := bucket_remove k (lru t))) (bytes(t := bytes t - int n)) (tot - int n)"
proof -
  have at: "k \<in> set (lru s) \<longleftrightarrow> s = t" for s using typed_ok_in [OF ok, of k s] k by auto
  show ?thesis unfolding typed_ok_def
  proof (intro conjI allI)
    fix s k'
    show "distinct ((lru(t := bucket_remove k (lru t))) s)" using typed_ok_distinct [OF ok] by simp
    show "k' \<in> set ((lru(t := bucket_remove k (lru t))) s) \<longleftrightarrow> (\<exists>m. (E(k := None)) k' = Some (s, m))"
      using typed_ok_in [OF ok, of k' s] at by (cases "k' = k") auto
    show "(bytes(t := bytes t - int n)) s = bucket_bytes (E(k := None)) ((lru(t := bucket_remove k (lru t))) s)"
      using typed_ok_bytes [OF ok] at typed_ok_distinct [OF ok, of t] k
      by (auto simp: bucket_bytes_other bucket_bytes_remove) (simp add: entry_bytes_def)
  next
    show "tot - int n = (bytes(t := bytes t - int n)) Assistant + (bytes(t := bytes t - int n)) User +
        (bytes(t := bytes t - int n)) System"
      using typed_ok_total [OF ok] total_upd [of bytes t "- int n"] by simp
  qed
qed

lemma typed_ok_refresh:
  assumes ok: "typed_ok E lru bytes tot" and k: "E k = Some (t, n)"
  shows "typed_ok E (lru(t := bucket_push k (lru t))) bytes tot"
proof -
  have i: "k \<in> set (lru t)" using typed_ok_in [OF ok] k by blast
  have "bucket_bytes E (bucket_push k (lru t)) = bucket_bytes E (lru t)"
    using typed_ok_distinct [OF ok, of t] i by (simp add: bucket_push_eq bucket_bytes_remove)
  then show ?thesis using ok i by (auto simp: typed_ok_def)
qed

text \<open>The clamped counters of the code are the exact ones.\<close>

lemma typed_ok_clamp: "typed_ok E lru bytes tot \<Longrightarrow> E k = Some (t, n) \<Longrightarrow> max 0 (bytes t - int n) = bytes t - int n"
  using typed_ok_entry [of E lru bytes tot k t n] by simp

lemma typed_ok_clamp_total: "typed_ok E lru bytes tot \<Longrightarrow> E k = Some (t, n) \<Longrightarrow> max 0 (tot - int n) = tot - int n"
  using typed_ok_entry [of E lru bytes tot k t n] typed_ok_nonneg [of E lru bytes tot t] by simp

text \<open>The victim is an entry; when there is none, there are no entries and no bytes.\<close>

lemma typed_ok_victim:
  assumes "typed_ok E lru bytes tot" "victim lru = Some (t, k)"
  obtains n ks where "E k = Some (t, n)" "lru t = k # ks" "bucket_remove k (lru t) = ks" "\<forall>s < t. lru s = []"
proof -
  obtain ks where ks: "lru t = k # ks" and less: "\<forall>s < t. lru s = []" using victim_SomeD [OF assms(2)] by blast
  then obtain n where n: "E k = Some (t, n)" using typed_ok_in [OF assms(1), of k t] by auto
  have "distinct (k # ks)" using typed_ok_distinct [OF assms(1), of t] ks by simp
  then have "bucket_remove k (lru t) = ks" unfolding ks by (rule bucket_remove_tl)
  with ks n less show thesis by (intro that)
qed

lemma typed_ok_none: "typed_ok E lru bytes tot \<Longrightarrow> victim lru = None \<Longrightarrow> E = (\<lambda>_. None) \<and> tot = 0"
proof -
  assume ok: "typed_ok E lru bytes tot" and v: "victim lru = None"
  have e: "lru t = []" for t using v by (cases t) (auto simp: victim_None_iff total_size_eq)
  have "E k = None" for k
  proof (cases "E k")
    case (Some p)
    then show ?thesis using typed_ok_in [OF ok, of k "fst p"] e by (cases p) auto
  qed simp
  then show ?thesis using ok e by (auto simp: typed_ok_def)
qed

end
