(* ===== verification/Cache_Layers.thy ===== *)
theory Cache_Layers
  imports Prelude
begin

text \<open>
  A prompt cache is a list of per-layer objects of several classes; the program looks at them through
  \<open>isinstance\<close> and \<open>hasattr\<close>.  The layers as it sees them, the byte estimates of
  \<open>vmlx_engine/memory_cache.py\<close>, and the test for cumulative state of \<open>vmlx_engine/prefix_cache.py\<close>.  The
  arrays themselves are opaque: an array is its identity and, when it has one, its \<open>nbytes\<close>.
\<close>

section \<open>Layers\<close>

text \<open>A cache state: nested dictionaries, lists and tuples over arrays.\<close>

datatype cache_state =
    St_None
  | St_Array nat "nat option"
  | St_Dict "(string \<times> cache_state) list"
  | St_Seq "cache_state list"
  | St_Other

text \<open>
  The buffers of a layer with \<open>keys\<close> and \<open>values\<close>: none yet (\<open>keys is None\<close>, with a numeric \<open>nbytes\<close> or
  not), tuples of arrays, or one array each (\<open>None\<close>: a method, or an object without \<open>nbytes\<close>).
\<close>

datatype kv_buffers =
    Packed "nat option"
  | Quantized "nat option list" "nat option list"
  | Arrays "nat option" "nat option"

datatype 'b cache_layer =
    Dict_Layer (dict_class: string) (dict_state: "cache_state option")
  | Obj_Layer (layer_class: string) (kv: "kv_buffers option") (idx_keys: "nat option") (derived_nbytes: nat)
      (cache_list: "nat option list option") (sub_caches: "'b cache_layer list option")
      (state_attr: "cache_state option") (trimmable: "bool option") (has_trim: bool) (buffers: 'b)

section \<open>Byte estimates\<close>

text \<open>\<open>_estimate_state_memory\<close>: the bytes, and the set of array identities seen so far.\<close>

fun est_state :: "cache_state \<Rightarrow> nat set \<Rightarrow> nat \<times> nat set"
  and est_dict :: "(string \<times> cache_state) list \<Rightarrow> nat set \<Rightarrow> nat \<times> nat set"
  and est_seq :: "cache_state list \<Rightarrow> nat set \<Rightarrow> nat \<times> nat set" where
  "est_state St_None seen = (0, seen)"
| "est_state (St_Array i b) seen =
     (if i \<in> seen then (0, seen) else (case b of Some n \<Rightarrow> n | None \<Rightarrow> 0, insert i seen))"
| "est_state (St_Dict kvs) seen = est_dict kvs seen"
| "est_state (St_Seq xs) seen = est_seq xs seen"
| "est_state St_Other seen = (0, seen)"
| "est_dict [] seen = (0, seen)"
| "est_dict ((k, v) # kvs) seen =
     (let (n, seen') = est_state v seen; (m, seen'') = est_dict kvs seen' in (n + m, seen''))"
| "est_seq [] seen = (0, seen)"
| "est_seq (v # vs) seen =
     (let (n, seen') = est_state v seen; (m, seen'') = est_seq vs seen' in (n + m, seen''))"

definition opt_bytes :: "nat option \<Rightarrow> nat" where
  "opt_bytes b = (case b of Some n \<Rightarrow> n | None \<Rightarrow> 0)"

fun kv_bytes :: "kv_buffers \<Rightarrow> nat" where
  "kv_bytes (Packed b) = opt_bytes b"
| "kv_bytes (Quantized ks vs) = sum_list (map opt_bytes ks) + sum_list (map opt_bytes vs)"
| "kv_bytes (Arrays k v) = opt_bytes k + opt_bytes v"

text \<open>
  \<open>estimate_kv_cache_memory\<close>: an extracted state dictionary, then \<open>keys\<close>/\<open>values\<close>, then \<open>cache\<close>, then the
  sub-caches, then \<open>state\<close>.  Any other dictionary has \<open>keys\<close> and \<open>values\<close> methods, which count nothing.
\<close>

fun estimate_kv_cache_memory :: "'b cache_layer list \<Rightarrow> nat"
  and layer_memory :: "'b cache_layer \<Rightarrow> nat" where
  "estimate_kv_cache_memory [] = 0"
| "estimate_kv_cache_memory (l # ls) = layer_memory l + estimate_kv_cache_memory ls"
| "layer_memory (Dict_Layer c s) = (case s of Some st \<Rightarrow> fst (est_state st {}) | None \<Rightarrow> 0)"
| "layer_memory (Obj_Layer c kvb idx derived cl subs st tr ht b) =
     (case kvb of
        Some buf \<Rightarrow> kv_bytes buf + opt_bytes idx + derived
      | None \<Rightarrow>
          (case cl of
             Some xs \<Rightarrow> sum_list (map opt_bytes xs)
           | None \<Rightarrow>
               (case subs of
                  Some ls \<Rightarrow> estimate_kv_cache_memory ls
                | None \<Rightarrow> (case st of Some s \<Rightarrow> fst (est_state s {}) | None \<Rightarrow> 0))))"

section \<open>Cumulative state\<close>

definition cumulative_cls :: "string list" where
  "cumulative_cls = [''MambaCache'', ''BatchMambaCache'', ''ArraysCache'']"

fun type_name :: "'b cache_layer \<Rightarrow> string" where
  "type_name (Dict_Layer c s) = ''dict''"
| "type_name l = layer_class l"

fun is_cumulative_layer :: "'b cache_layer \<Rightarrow> bool" where
  "is_cumulative_layer (Dict_Layer c s) = (c \<in> set cumulative_cls)"
| "is_cumulative_layer l =
     (layer_class l \<in> set cumulative_cls \<or>
      (case sub_caches l of None \<Rightarrow> False | Some ls \<Rightarrow> (\<exists>s \<in> set ls. type_name s \<in> set cumulative_cls)))"

definition is_hybrid_ssm_cache :: "'b cache_layer list \<Rightarrow> bool" where
  "is_hybrid_ssm_cache ls \<longleftrightarrow> (\<exists>l \<in> set ls. is_cumulative_layer l)"

section \<open>Every array is counted once\<close>

fun arrays_of :: "cache_state \<Rightarrow> (nat \<times> nat option) list"
  and arrays_dict :: "(string \<times> cache_state) list \<Rightarrow> (nat \<times> nat option) list"
  and arrays_seq :: "cache_state list \<Rightarrow> (nat \<times> nat option) list" where
  "arrays_of (St_Array i b) = [(i, b)]"
| "arrays_of (St_Dict kvs) = arrays_dict kvs"
| "arrays_of (St_Seq xs) = arrays_seq xs"
| "arrays_of _ = []"
| "arrays_dict [] = []"
| "arrays_dict ((k, v) # kvs) = arrays_of v @ arrays_dict kvs"
| "arrays_seq [] = []"
| "arrays_seq (v # vs) = arrays_of v @ arrays_seq vs"

definition once :: "(nat \<Rightarrow> nat option) \<Rightarrow> (nat \<times> nat option) list \<Rightarrow> nat set \<Rightarrow> nat \<times> nat set" where
  "once sz xs seen = (\<Sum>i \<in> fst ` set xs - seen. opt_bytes (sz i), seen \<union> fst ` set xs)"

lemma once_append:
  "(let (n, seen') = once sz xs seen; (m, seen'') = once sz ys seen' in (n + m, seen'')) = once sz (xs @ ys) seen"
proof -
  let ?X = "fst ` set xs" and ?Y = "fst ` set ys"
  have "?X \<union> ?Y - seen = (?X - seen) \<union> (?Y - (seen \<union> ?X))" by blast
  moreover have "(\<Sum>i \<in> (?X - seen) \<union> (?Y - (seen \<union> ?X)). opt_bytes (sz i)) =
      (\<Sum>i \<in> ?X - seen. opt_bytes (sz i)) + (\<Sum>i \<in> ?Y - (seen \<union> ?X). opt_bytes (sz i))"
    by (rule sum.union_disjoint) auto
  ultimately show ?thesis by (simp add: once_def image_Un Un_assoc)
qed

lemma est_state_once:
  "\<forall>(i, b) \<in> set (arrays_of s). sz i = b \<Longrightarrow> est_state s seen = once sz (arrays_of s) seen"
  "\<forall>(i, b) \<in> set (arrays_dict kvs). sz i = b \<Longrightarrow> est_dict kvs seen = once sz (arrays_dict kvs) seen"
  "\<forall>(i, b) \<in> set (arrays_seq xs). sz i = b \<Longrightarrow> est_seq xs seen = once sz (arrays_seq xs) seen"
proof (induction s seen and kvs seen and xs seen rule: est_state_est_dict_est_seq.induct)
  case (7 k v kvs seen)
  have 1: "est_state v seen = once sz (arrays_of v) seen" using 7 by auto
  obtain n s where e: "est_state v seen = (n, s)" by (cases "est_state v seen")
  have 2: "est_dict kvs s = once sz (arrays_dict kvs) s" using e 7 by auto
  have 3: "once sz (arrays_of v) seen = (n, s)" using 1 e by simp
  show ?case using 2 3 e once_append [of sz "arrays_of v" seen "arrays_dict kvs"] by simp
next
  case (9 v vs seen)
  have 1: "est_state v seen = once sz (arrays_of v) seen" using 9 by auto
  obtain n s where e: "est_state v seen = (n, s)" by (cases "est_state v seen")
  have 2: "est_seq vs s = once sz (arrays_seq vs) s" using e 9 by auto
  have 3: "once sz (arrays_of v) seen = (n, s)" using 1 e by simp
  show ?case using 2 3 e once_append [of sz "arrays_of v" seen "arrays_seq vs"] by simp
qed (auto simp: once_def opt_bytes_def insert_absorb insert_Diff_if split: option.split)

text \<open>
  The estimate of a nested cache state counts every array once, however often and however deep it
  occurs: it is the sum of the sizes of the arrays reachable through dictionaries, lists and tuples.
\<close>

lemma state_estimate_counts_arrays_once:
  assumes "\<forall>(i, b) \<in> set (arrays_of s). sz i = b"
  shows "fst (est_state s {}) = (\<Sum>i \<in> fst ` set (arrays_of s). opt_bytes (sz i))"
  using est_state_once(1) [OF assms, of "{}"] by (simp add: once_def)

text \<open>Estimates add up over the layers.\<close>

lemma estimate_append: "estimate_kv_cache_memory (ls @ ms) = estimate_kv_cache_memory ls + estimate_kv_cache_memory ms"
  by (induction ls) simp_all

end
