(* ===== verification/Prefix_Trie.thy ===== *)
theory Prefix_Trie
  imports Token_Trie Typed_Lru Cache_Layers Cache_Key
begin

text \<open>
  \<open>PrefixCacheManager\<close> (\<open>vmlx_engine/prefix_cache.py\<close>): prompt caches keyed by token sequences in one trie
  per scope, with typed least-recently-used eviction under an entry and a byte limit.
\<close>

section \<open>State\<close>

record 'b prefix_entry =
  prompt_cache :: "'b cache_layer list"
  pe_count :: nat
  pe_type :: cache_type
  pe_nbytes :: nat

record prefix_stats =
  ps_hits :: nat
  ps_misses :: nat
  ps_tokens_saved :: nat
  ps_total_queries :: nat
  ps_evictions :: nat

definition new_prefix_stats :: prefix_stats where
  "new_prefix_stats = \<lparr>ps_hits = 0, ps_misses = 0, ps_tokens_saved = 0, ps_total_queries = 0, ps_evictions = 0\<rparr>"

definition ps_hit_rate :: "prefix_stats \<Rightarrow> rat" where
  "ps_hit_rate s = (if ps_total_queries s = 0 then 0 else of_nat (ps_hits s) / of_nat (ps_total_queries s))"

text \<open>A scope: the model key, with the request discriminator when there is one.\<close>

type_synonym scope = "string \<times> string option"
type_synonym prefix_key = "scope \<times> int list"

record 'b prefix_manager =
  pm_model_key :: string
  pm_max_size :: int
  pm_max_bytes :: "int option"
  pm_cache :: "(scope, 'b prefix_entry token_trie) pydict"
  pm_lru :: "prefix_key buckets"
  pm_n_bytes :: int
  pm_bytes_by_type :: "cache_type \<Rightarrow> int"
  pm_stats :: prefix_stats

definition new_prefix_manager :: "string \<Rightarrow> int \<Rightarrow> int option \<Rightarrow> 'b prefix_manager" where
  "new_prefix_manager mk entries bytes =
     \<lparr>pm_model_key = mk, pm_max_size = entries, pm_max_bytes = bytes, pm_cache = [], pm_lru = (\<lambda>_. []),
      pm_n_bytes = 0, pm_bytes_by_type = (\<lambda>_. 0), pm_stats = new_prefix_stats\<rparr>"

definition scoped_model_key ::
  "(pyval \<Rightarrow> string) \<Rightarrow> (pyval \<Rightarrow> string option) \<Rightarrow> 'b prefix_manager \<Rightarrow> pyval \<Rightarrow> scope" where
  "scoped_model_key rp dumps pm extra = (pm_model_key pm, canonical_cache_extra_marker rp dumps extra)"

section \<open>Search\<close>

definition get_cache_entry :: "'b prefix_manager \<Rightarrow> int list \<Rightarrow> scope \<Rightarrow> 'b prefix_entry option" where
  "get_cache_entry pm tokens sc =
     (case pd_get (pm_cache pm) sc of None \<Rightarrow> None | Some t \<Rightarrow> trie_lookup t tokens)"

text \<open>Exact, shorter, longer match and the common length.\<close>

definition search ::
  "'b prefix_manager \<Rightarrow> int list \<Rightarrow> scope \<Rightarrow> int list option \<times> int list option \<times> int list option \<times> nat" where
  "search pm tokens sc =
     (case pd_get (pm_cache pm) sc of
        None \<Rightarrow> (None, None, None, 0)
      | Some t \<Rightarrow>
          (case walk t [] tokens of
             Stuck n path \<Rightarrow> if entry n \<noteq> None then (None, Some path, None, 0) else (None, None, None, 0)
           | Reached n \<Rightarrow>
               if entry n \<noteq> None then (Some tokens, None, None, 0)
               else (case nearest_entry [(n, tokens)] of
                       Some p \<Rightarrow> (None, None, Some p, length tokens)
                     | None \<Rightarrow> (None, None, None, 0))))"

section \<open>Recency, eviction, deletion\<close>

definition total_lru_size :: "'b prefix_manager \<Rightarrow> nat" where
  "total_lru_size pm = total_size (pm_lru pm)"

definition remove_from_all_lru :: "prefix_key \<Rightarrow> 'b prefix_manager \<Rightarrow> 'b prefix_manager" where
  "remove_from_all_lru k pm = pm\<lparr>pm_lru := \<lambda>t. bucket_remove k (pm_lru pm t)\<rparr>"

definition touch_lru :: "prefix_key \<Rightarrow> 'b prefix_manager \<Rightarrow> 'b prefix_manager" where
  "touch_lru k pm =
     (case filter (\<lambda>t. k \<in> set (pm_lru pm t)) cache_type_priority of
        t # _ \<Rightarrow> pm\<lparr>pm_lru := (pm_lru pm)(t := bucket_push k (pm_lru pm t))\<rparr>
      | [] \<Rightarrow> pm\<lparr>pm_lru := (pm_lru pm)(Assistant := pm_lru pm Assistant @ [k])\<rparr>)"

definition delete_cache :: "prefix_key \<Rightarrow> 'b prefix_manager \<Rightarrow> 'b prefix_manager" where
  "delete_cache k pm =
     (case pd_get (pm_cache pm) (fst k) of
        None \<Rightarrow> pm
      | Some t \<Rightarrow> pm\<lparr>pm_cache := pd_set (pm_cache pm) (fst k) (trie_delete t (snd k))\<rparr>)"

definition untrack_bytes :: "'b prefix_entry \<Rightarrow> 'b prefix_manager \<Rightarrow> 'b prefix_manager" where
  "untrack_bytes e pm =
     pm\<lparr>pm_n_bytes := pm_n_bytes pm - int (pe_nbytes e),
        pm_bytes_by_type := (pm_bytes_by_type pm)
          (pe_type e := max 0 (pm_bytes_by_type pm (pe_type e) - int (pe_nbytes e)))\<rparr>"

definition evict_lru :: "'b prefix_manager \<Rightarrow> bool \<times> 'b prefix_manager" where
  "evict_lru pm =
     (case victim (pm_lru pm) of
        None \<Rightarrow> (False, pm)
      | Some (t, k) \<Rightarrow>
          (let pm1 = pm\<lparr>pm_lru := (pm_lru pm)(t := tl (pm_lru pm t))\<rparr>;
               pm2 = (case get_cache_entry pm1 (snd k) (fst k) of None \<Rightarrow> pm1 | Some e \<Rightarrow> untrack_bytes e pm1);
               pm3 = delete_cache k pm2
           in (True, pm3\<lparr>pm_stats := (pm_stats pm3)\<lparr>ps_evictions := ps_evictions (pm_stats pm3) + 1\<rparr>\<rparr>)))"

lemma delete_cache_lru [simp]: "pm_lru (delete_cache k pm) = pm_lru pm"
  by (simp add: delete_cache_def split: option.split)

lemma untrack_bytes_lru [simp]: "pm_lru (untrack_bytes e pm) = pm_lru pm"
  by (simp add: untrack_bytes_def)

lemma evict_lru_less: "evict_lru pm = (True, pm') \<Longrightarrow> Suc (total_lru_size pm') = total_lru_size pm"
  using victim_pop [of "pm_lru pm"]
  by (auto simp: evict_lru_def total_lru_size_def Let_def split: option.splits)

text \<open>\<open>while over: if not evict: break\<close>, counting the evictions.\<close>

function evict_while :: "('b prefix_manager \<Rightarrow> bool) \<Rightarrow> 'b prefix_manager \<Rightarrow> nat \<times> 'b prefix_manager" where
  "evict_while over pm =
     (if over pm then
        (case evict_lru pm of
           (False, pm') \<Rightarrow> (0, pm')
         | (True, pm') \<Rightarrow> (let (n, pm'') = evict_while over pm' in (Suc n, pm'')))
      else (0, pm))"
  by pat_completeness auto
termination
  by (relation "measure (\<lambda>(_, pm). total_lru_size pm)") (auto dest: evict_lru_less [OF sym])

declare evict_while.simps [simp del]

definition clear_prefix :: "'b prefix_manager \<Rightarrow> 'b prefix_manager" where
  "clear_prefix pm = pm\<lparr>pm_cache := [], pm_lru := (\<lambda>_. []), pm_n_bytes := 0, pm_bytes_by_type := (\<lambda>_. 0), pm_stats := new_prefix_stats\<rparr>"

definition trim_to :: "int \<Rightarrow> 'b prefix_manager \<Rightarrow> nat \<times> 'b prefix_manager" where
  "trim_to n pm =
     (if n \<le> 0 then (total_lru_size pm, clear_prefix pm) else evict_while (\<lambda>m. pm_n_bytes m > n) pm)"

section \<open>Fetch and store\<close>

fun has_trimmable :: "'b cache_layer \<Rightarrow> bool option" where
  "has_trimmable (Dict_Layer c s) = None"
| "has_trimmable l = trimmable l"

fun layer_has_trim :: "'b cache_layer \<Rightarrow> bool" where
  "layer_has_trim (Dict_Layer c s) = False"
| "layer_has_trim l = has_trim l"

definition can_trim_cache :: "'b cache_layer list \<Rightarrow> bool" where
  "can_trim_cache ls = (case ls of [] \<Rightarrow> False | l # _ \<Rightarrow>
     (case has_trimmable l of Some b \<Rightarrow> b | None \<Rightarrow> layer_has_trim l))"

text \<open>\<open>cache.trim(n)\<close> is the layer class's method; it works on a deep copy, so the stored entry keeps its layers.\<close>

definition trim_cache :: "(int \<Rightarrow> 'b cache_layer \<Rightarrow> 'b cache_layer) \<Rightarrow> 'b cache_layer list \<Rightarrow> int \<Rightarrow> 'b cache_layer list" where
  "trim_cache trim ls n = map (\<lambda>l. if layer_has_trim l then trim n l else l) ls"

definition note_hit :: "nat \<Rightarrow> 'b prefix_manager \<Rightarrow> 'b prefix_manager" where
  "note_hit saved pm = pm\<lparr>pm_stats := (pm_stats pm)
     \<lparr>ps_hits := ps_hits (pm_stats pm) + 1, ps_tokens_saved := ps_tokens_saved (pm_stats pm) + saved\<rparr>\<rparr>"

definition note_miss :: "'b prefix_manager \<Rightarrow> 'b prefix_manager" where
  "note_miss pm = pm\<lparr>pm_stats := (pm_stats pm)\<lparr>ps_misses := ps_misses (pm_stats pm) + 1\<rparr>\<rparr>"

definition note_query :: "'b prefix_manager \<Rightarrow> 'b prefix_manager" where
  "note_query pm = pm\<lparr>pm_stats := (pm_stats pm)\<lparr>ps_total_queries := ps_total_queries (pm_stats pm) + 1\<rparr>\<rparr>"

text \<open>A match counts when it is there and not the empty list.\<close>

definition matched :: "int list option \<Rightarrow> int list option" where
  "matched m = (if m = Some [] then None else m)"

definition entry_at :: "'b prefix_manager \<Rightarrow> int list option \<Rightarrow> scope \<Rightarrow> (int list \<times> 'b prefix_entry) option" where
  "entry_at pm m sc =
     (case matched m of None \<Rightarrow> None
      | Some ts \<Rightarrow> (case get_cache_entry pm ts sc of None \<Rightarrow> None | Some e \<Rightarrow> Some (ts, e)))"

definition fetch_cache ::
  "(pyval \<Rightarrow> string) \<Rightarrow> (pyval \<Rightarrow> string option) \<Rightarrow> (int \<Rightarrow> 'b cache_layer \<Rightarrow> 'b cache_layer) \<Rightarrow>
   'b prefix_manager \<Rightarrow> int list \<Rightarrow> pyval \<Rightarrow> ('b cache_layer list option \<times> int list) \<times> 'b prefix_manager" where
  "fetch_cache rp dumps trim pm0 tokens extra =
     (let pm = note_query pm0;
          sc = scoped_model_key rp dumps pm extra;
          (exact, shorter, longer, common) = search pm tokens sc
      in case entry_at pm exact sc of
           Some (ts, e) \<Rightarrow>
             ((Some (prompt_cache e), []), touch_lru (sc, tokens) (note_hit (length tokens) pm))
         | None \<Rightarrow>
             (case entry_at pm shorter sc of
                Some (ts, e) \<Rightarrow>
                  ((Some (prompt_cache e), drop (length ts) tokens), touch_lru (sc, ts) (note_hit (length ts) pm))
              | None \<Rightarrow>
                  (case entry_at pm longer sc of
                     Some (ts, e) \<Rightarrow>
                       if \<not> is_hybrid_ssm_cache (prompt_cache e) \<and> can_trim_cache (prompt_cache e) then
                         ((Some (trim_cache trim (prompt_cache e) (int (length ts) - int (length tokens))), []),
                          note_hit (length tokens) pm)
                       else ((None, tokens), note_miss pm)
                   | None \<Rightarrow> ((None, tokens), note_miss pm))))"

definition push_lru :: "cache_type \<Rightarrow> prefix_key \<Rightarrow> 'b prefix_manager \<Rightarrow> 'b prefix_manager" where
  "push_lru t k pm = pm\<lparr>pm_lru := (pm_lru pm)(t := bucket_push k (pm_lru pm t))\<rparr>"

text \<open>The new entry in the trie, with the byte counters and the bucket of its type.\<close>

definition write_entry :: "prefix_key \<Rightarrow> 'b cache_layer list \<Rightarrow> cache_type \<Rightarrow> 'b prefix_manager \<Rightarrow> 'b prefix_manager" where
  "write_entry k layers t pm =
     (let trie = (case pd_get (pm_cache pm) (fst k) of None \<Rightarrow> empty_token_trie | Some x \<Rightarrow> x);
          nb = estimate_kv_cache_memory layers;
          (pm1, n) = (case trie_lookup trie (snd k) of
             Some old \<Rightarrow> (remove_from_all_lru k (untrack_bytes old pm), pe_count old + 1)
           | None \<Rightarrow> (pm, 1));
          e = \<lparr>prompt_cache = layers, pe_count = n, pe_type = t, pe_nbytes = nb\<rparr>
      in push_lru t k
           (pm1\<lparr>pm_cache := pd_set (pm_cache pm1) (fst k) (trie_insert e trie (snd k)),
                pm_n_bytes := pm_n_bytes pm1 + int nb,
                pm_bytes_by_type := (pm_bytes_by_type pm1)(t := pm_bytes_by_type pm1 t + int nb)\<rparr>))"

definition evict_to_limits :: "'b prefix_manager \<Rightarrow> 'b prefix_manager" where
  "evict_to_limits pm =
     (let pm1 = snd (evict_while (\<lambda>m. int (total_lru_size m) > pm_max_size m) pm)
      in case pm_max_bytes pm1 of
           None \<Rightarrow> pm1
         | Some b \<Rightarrow> snd (evict_while (\<lambda>m. pm_n_bytes m > b) pm1))"

definition store_cache ::
  "(pyval \<Rightarrow> string) \<Rightarrow> (pyval \<Rightarrow> string option) \<Rightarrow> 'b prefix_manager \<Rightarrow> int list \<Rightarrow> 'b cache_layer list \<Rightarrow> string \<Rightarrow>
   pyval \<Rightarrow> 'b prefix_manager" where
  "store_cache rp dumps pm tokens layers ct extra =
     (if tokens = [] then pm
      else evict_to_limits (write_entry (scoped_model_key rp dumps pm extra, tokens) layers (cache_type_of ct) pm))"

definition reset_prefix_stats :: "'b prefix_manager \<Rightarrow> 'b prefix_manager" where
  "reset_prefix_stats pm = pm\<lparr>pm_stats := new_prefix_stats\<rparr>"

definition prefix_len :: "'b prefix_manager \<Rightarrow> nat" where
  "prefix_len pm = total_lru_size pm"

text \<open>\<open>get_stats\<close>, and \<open>len(manager)\<close>.\<close>

record prefix_report =
  rep_stats :: prefix_stats
  rep_hit_rate :: rat
  rep_nbytes :: int
  rep_nbytes_by_type :: "(cache_type \<times> int) list"
  rep_entries_by_type :: "(cache_type \<times> nat) list"
  rep_max_bytes :: "int option"

definition get_prefix_stats :: "'b prefix_manager \<Rightarrow> prefix_report" where
  "get_prefix_stats pm =
     \<lparr>rep_stats = pm_stats pm, rep_hit_rate = ps_hit_rate (pm_stats pm), rep_nbytes = pm_n_bytes pm,
      rep_nbytes_by_type = map (\<lambda>t. (t, pm_bytes_by_type pm t)) cache_type_priority,
      rep_entries_by_type = map (\<lambda>t. (t, length (pm_lru pm t))) cache_type_priority,
      rep_max_bytes = pm_max_bytes pm\<rparr>"

section \<open>Invariant\<close>

definition pm_view :: "'b prefix_manager \<Rightarrow> prefix_key contents" where
  "pm_view pm k = map_option (\<lambda>e. (pe_type e, pe_nbytes e)) (get_cache_entry pm (snd k) (fst k))"

definition tries_ok :: "'b prefix_manager \<Rightarrow> bool" where
  "tries_ok pm \<longleftrightarrow> (\<forall>sc t. pd_get (pm_cache pm) sc = Some t \<longrightarrow> trie_ok t) \<and> (\<forall>sc. get_cache_entry pm [] sc = None)"

definition stats_ok :: "prefix_stats \<Rightarrow> bool" where
  "stats_ok s \<longleftrightarrow> ps_hits s + ps_misses s = ps_total_queries s"

definition pm_ok :: "'b prefix_manager \<Rightarrow> bool" where
  "pm_ok pm \<longleftrightarrow> typed_ok (pm_view pm) (pm_lru pm) (pm_bytes_by_type pm) (pm_n_bytes pm) \<and> tries_ok pm \<and> stats_ok (pm_stats pm)"

lemma tries_get: "tries_ok pm \<Longrightarrow> pd_get (pm_cache pm) sc = Some t \<Longrightarrow> trie_ok t"
  unfolding tries_ok_def by blast

lemma pm_ok_new: "pm_ok (new_prefix_manager mk n b)"
proof -
  have v: "pm_view (new_prefix_manager mk n b) = (\<lambda>_. None)"
    by (simp add: fun_eq_iff pm_view_def get_cache_entry_def new_prefix_manager_def)
  show ?thesis using typed_ok_empty
    by (simp add: pm_ok_def v) (simp add: new_prefix_manager_def tries_ok_def stats_ok_def new_prefix_stats_def get_cache_entry_def)
qed

text \<open>The state outside the tries and the books does not matter to either.\<close>

lemma tries_nil: "tries_ok pm \<Longrightarrow> get_cache_entry pm [] sc = None"
  unfolding tries_ok_def by blast

lemma get_entry_frame [simp]:
  "get_cache_entry (pm_lru_update f pm) = get_cache_entry pm"
  "get_cache_entry (pm_stats_update g pm) = get_cache_entry pm"
  "get_cache_entry (pm_n_bytes_update h pm) = get_cache_entry pm"
  "get_cache_entry (pm_bytes_by_type_update i pm) = get_cache_entry pm"
  "get_cache_entry (untrack_bytes e pm) = get_cache_entry pm"
  by (simp_all add: fun_eq_iff get_cache_entry_def untrack_bytes_def)

lemma view_frame [simp]:
  "pm_view (pm_lru_update f pm) = pm_view pm"
  "pm_view (pm_stats_update g pm) = pm_view pm"
  "pm_view (pm_n_bytes_update h pm) = pm_view pm"
  "pm_view (pm_bytes_by_type_update i pm) = pm_view pm"
  by (simp_all add: fun_eq_iff pm_view_def)

lemma tries_frame [simp]:
  "tries_ok (pm_lru_update f pm) = tries_ok pm"
  "tries_ok (pm_stats_update g pm) = tries_ok pm"
  "tries_ok (pm_n_bytes_update h pm) = tries_ok pm"
  "tries_ok (pm_bytes_by_type_update i pm) = tries_ok pm"
  by (simp_all add: tries_ok_def)

lemma get_entry_delete:
  "get_cache_entry (delete_cache k pm) ts sc = (if (sc, ts) = k then None else get_cache_entry pm ts sc)"
  by (cases k) (auto simp: delete_cache_def get_cache_entry_def lookup_delete split: option.split)

lemma tries_delete: "tries_ok pm \<Longrightarrow> tries_ok (delete_cache k pm)"
proof (cases "pd_get (pm_cache pm) (fst k)")
  case (Some t)
  assume ok: "tries_ok pm"
  have "trie_ok t" using ok Some unfolding tries_ok_def by blast
  then have "trie_ok (trie_delete t (snd k))" by (rule trie_ok_delete)
  then have "\<forall>sc t. pd_get (pm_cache (delete_cache k pm)) sc = Some t \<longrightarrow> trie_ok t"
    using ok Some by (simp add: delete_cache_def tries_ok_def)
  then show ?thesis using ok unfolding tries_ok_def get_entry_delete by simp
qed (simp add: delete_cache_def)

lemma delete_frame [simp]:
  "pm_n_bytes (delete_cache k pm) = pm_n_bytes pm" "pm_bytes_by_type (delete_cache k pm) = pm_bytes_by_type pm"
  "pm_stats (delete_cache k pm) = pm_stats pm" "pm_max_size (delete_cache k pm) = pm_max_size pm"
  "pm_max_bytes (delete_cache k pm) = pm_max_bytes pm" "pm_model_key (delete_cache k pm) = pm_model_key pm"
  by (simp_all add: delete_cache_def split: option.split)

lemma untrack_frame [simp]:
  "pm_n_bytes (untrack_bytes e pm) = pm_n_bytes pm - int (pe_nbytes e)" "pm_stats (untrack_bytes e pm) = pm_stats pm"
  "pm_max_size (untrack_bytes e pm) = pm_max_size pm" "pm_max_bytes (untrack_bytes e pm) = pm_max_bytes pm"
  "pm_model_key (untrack_bytes e pm) = pm_model_key pm" "pm_cache (untrack_bytes e pm) = pm_cache pm"
  by (simp_all add: untrack_bytes_def)

lemma untrack_bytes_by_type:
  "pm_bytes_by_type (untrack_bytes e pm) =
   (pm_bytes_by_type pm)(pe_type e := max 0 (pm_bytes_by_type pm (pe_type e) - int (pe_nbytes e)))"
  by (simp add: untrack_bytes_def)

text \<open>
  An eviction removes exactly the victim: the least recently used entry of the least sticky type that has
  any.
\<close>

lemma evict_lru_spec:
  assumes "pm_ok pm"
  shows "case victim (pm_lru pm) of
     None \<Rightarrow> evict_lru pm = (False, pm)
   | Some (t, k) \<Rightarrow> \<exists>n pm'. evict_lru pm = (True, pm') \<and> pm_ok pm' \<and> pm_view pm k = Some (t, n) \<and>
       pm_n_bytes pm' = pm_n_bytes pm - int n \<and> pm_lru pm' = (pm_lru pm)(t := bucket_remove k (pm_lru pm t)) \<and>
       (\<forall>sc ts. get_cache_entry pm' ts sc = (if (sc, ts) = k then None else get_cache_entry pm ts sc)) \<and>
       pm_max_size pm' = pm_max_size pm \<and> pm_max_bytes pm' = pm_max_bytes pm \<and> pm_model_key pm' = pm_model_key pm \<and>
       pm_stats pm' = (pm_stats pm)\<lparr>ps_evictions := ps_evictions (pm_stats pm) + 1\<rparr>"
proof (cases "victim (pm_lru pm)")
  case (Some p)
  obtain t k where p: "p = (t, k)" by (cases p)
  have ok: "typed_ok (pm_view pm) (pm_lru pm) (pm_bytes_by_type pm) (pm_n_bytes pm)" and tr: "tries_ok pm"
    and st: "stats_ok (pm_stats pm)" using assms by (simp_all add: pm_ok_def)
  obtain n ks where n: "pm_view pm k = Some (t, n)" and ks: "pm_lru pm t = k # ks" "bucket_remove k (pm_lru pm t) = ks"
    using typed_ok_victim [OF ok] Some p by metis
  then obtain e where e: "get_cache_entry pm (snd k) (fst k) = Some e" "pe_type e = t" "pe_nbytes e = n"
    by (auto simp: pm_view_def)
  let ?pm = "delete_cache k (untrack_bytes e (pm\<lparr>pm_lru := (pm_lru pm)(t := ks)\<rparr>))"
  let ?pm' = "?pm\<lparr>pm_stats := (pm_stats ?pm)\<lparr>ps_evictions := ps_evictions (pm_stats ?pm) + 1\<rparr>\<rparr>"
  have ev: "evict_lru pm = (True, ?pm')" using Some p ks(1) e(1) by (simp add: evict_lru_def Let_def)
  have ent: "get_cache_entry ?pm' ts sc = (if (sc, ts) = k then None else get_cache_entry pm ts sc)" for sc ts
    by (simp add: get_entry_delete)
  have view: "pm_view ?pm' = (pm_view pm)(k := None)"
    unfolding fun_eq_iff pm_view_def ent by (auto simp: prod_eq_iff)
  have tr': "tries_ok ?pm'" using tries_delete [of "untrack_bytes e (pm\<lparr>pm_lru := (pm_lru pm)(t := ks)\<rparr>)" k] tr
    by (simp add: untrack_bytes_def)
  have by_type: "pm_bytes_by_type ?pm' = (pm_bytes_by_type pm)(t := pm_bytes_by_type pm t - int n)"
    using typed_ok_clamp [OF ok n] e by (simp add: untrack_bytes_by_type)
  have "typed_ok (pm_view ?pm') (pm_lru ?pm') (pm_bytes_by_type ?pm') (pm_n_bytes ?pm')"
    using typed_ok_delete [OF ok n] unfolding view by_type ks(2) by (simp add: e(3))
  then have "pm_ok ?pm'" unfolding pm_ok_def using tr' st by (simp add: stats_ok_def)
  then show ?thesis unfolding Some p option.case prod.case ev ks(2)
    using n ent e(3) by (intro exI [of _ n] exI [of _ ?pm']) simp
qed (simp add: evict_lru_def)

text \<open>Repeated eviction: the books stay, entries only go, and it ends within the bound or with nothing left.\<close>

definition sub_entries :: "'b prefix_manager \<Rightarrow> 'b prefix_manager \<Rightarrow> bool" where
  "sub_entries pm' pm \<longleftrightarrow>
     (\<forall>sc ts. get_cache_entry pm' ts sc = None \<or> get_cache_entry pm' ts sc = get_cache_entry pm ts sc) \<and>
     pm_max_size pm' = pm_max_size pm \<and> pm_max_bytes pm' = pm_max_bytes pm \<and> pm_model_key pm' = pm_model_key pm \<and>
     total_lru_size pm' \<le> total_lru_size pm \<and> pm_n_bytes pm' \<le> pm_n_bytes pm"

lemma sub_entries_refl [simp]: "sub_entries pm pm"
  by (simp add: sub_entries_def)

lemma sub_entries_trans: "sub_entries a b \<Longrightarrow> sub_entries b c \<Longrightarrow> sub_entries a c"
  unfolding sub_entries_def by (metis (no_types, lifting) order_trans)

lemma evict_lru_cases:
  assumes "pm_ok pm"
  obtains (none) "evict_lru pm = (False, pm)" "total_lru_size pm = 0" "pm_n_bytes pm = 0"
  | (one) pm' where "evict_lru pm = (True, pm')" "pm_ok pm'" "sub_entries pm' pm"
proof (cases "victim (pm_lru pm)")
  case None
  then have "pm_n_bytes pm = 0" using typed_ok_none assms unfolding pm_ok_def by blast
  then show thesis using evict_lru_spec [OF assms] None by (intro none) (simp_all add: total_lru_size_def victim_None_iff)
next
  case (Some p)
  obtain t k where p: "p = (t, k)" by (cases p)
  obtain n pm' where e: "evict_lru pm = (True, pm')" "pm_ok pm'" "pm_n_bytes pm' = pm_n_bytes pm - int n"
    and f: "\<forall>sc ts. get_cache_entry pm' ts sc = (if (sc, ts) = k then None else get_cache_entry pm ts sc)"
      "pm_max_size pm' = pm_max_size pm" "pm_max_bytes pm' = pm_max_bytes pm" "pm_model_key pm' = pm_model_key pm"
    using evict_lru_spec [OF assms] unfolding Some p option.case prod.case by blast
  have "sub_entries pm' pm" unfolding sub_entries_def using evict_lru_less [OF e(1)] e(3) f by simp
  then show thesis using one e by blast
qed

lemma evict_while_spec:
  "pm_ok pm \<Longrightarrow> evict_while over pm = (n, pm') \<Longrightarrow>
   pm_ok pm' \<and> sub_entries pm' pm \<and> n + total_lru_size pm' = total_lru_size pm \<and>
   (over pm' \<longrightarrow> total_lru_size pm' = 0 \<and> pm_n_bytes pm' = 0)"
proof (induction over pm arbitrary: n pm' rule: evict_while.induct)
  case (1 over pm)
  show ?case
  proof (cases "over pm")
    case True
    from 1(2) show ?thesis
    proof (cases rule: evict_lru_cases)
      case none
      then show ?thesis using 1(2,3) True by (simp add: evict_while.simps [of over pm])
    next
      case (one pm1)
      obtain m pm2 where r: "evict_while over pm1 = (m, pm2)" by (cases "evict_while over pm1")
      then have "n = Suc m" "pm' = pm2" using 1(3) True one(1) by (simp_all add: evict_while.simps [of over pm])
      moreover have "pm_ok pm2 \<and> sub_entries pm2 pm1 \<and> m + total_lru_size pm2 = total_lru_size pm1 \<and>
          (over pm2 \<longrightarrow> total_lru_size pm2 = 0 \<and> pm_n_bytes pm2 = 0)"
        using 1(1) [OF True one(1) [symmetric] _ one(2) r] by simp
      ultimately show ?thesis using evict_lru_less [OF one(1)] sub_entries_trans one(3) by auto
    qed
  qed (use 1(2,3) in \<open>simp add: evict_while.simps [of over pm]\<close>)
qed

lemma evict_while_stop: "\<not> over pm \<Longrightarrow> evict_while over pm = (0, pm)"
  by (simp add: evict_while.simps [of over pm])

lemma evict_to_limits_spec:
  assumes "pm_ok pm"
  shows "pm_ok (evict_to_limits pm)" (is ?A) and "sub_entries (evict_to_limits pm) pm" (is ?B)
    and "0 \<le> pm_max_size pm \<Longrightarrow> int (total_lru_size (evict_to_limits pm)) \<le> pm_max_size pm" (is "_ \<Longrightarrow> ?C")
    and "pm_max_bytes pm = Some b \<Longrightarrow> 0 \<le> b \<Longrightarrow> pm_n_bytes (evict_to_limits pm) \<le> b" (is "_ \<Longrightarrow> _ \<Longrightarrow> ?D")
proof -
  let ?over = "\<lambda>m :: 'a prefix_manager. int (total_lru_size m) > pm_max_size m"
  obtain n pm1 where e1: "evict_while ?over pm = (n, pm1)" by (cases "evict_while ?over pm")
  note s1 = evict_while_spec [OF assms e1]
  have size: "0 \<le> pm_max_size pm \<Longrightarrow> int (total_lru_size pm1) \<le> pm_max_size pm" using s1 by (auto simp: sub_entries_def)
  have "?A \<and> ?B \<and> (0 \<le> pm_max_size pm \<longrightarrow> ?C) \<and> (pm_max_bytes pm = Some b \<longrightarrow> 0 \<le> b \<longrightarrow> ?D)"
  proof (cases "pm_max_bytes pm1")
    case None
    then have "evict_to_limits pm = pm1" by (simp add: evict_to_limits_def e1)
    then show ?thesis using s1 size None by (simp add: sub_entries_def)
  next
    case (Some b')
    let ?over2 = "\<lambda>m :: 'a prefix_manager. pm_n_bytes m > b'"
    obtain m pm2 where e2: "evict_while ?over2 pm1 = (m, pm2)" by (cases "evict_while ?over2 pm1")
    note s2 = evict_while_spec [OF conjunct1 [OF s1] e2]
    have pm2: "evict_to_limits pm = pm2" by (simp add: evict_to_limits_def e1 e2 Some)
    have b': "pm_max_bytes pm = Some b'" using Some s1 by (simp add: sub_entries_def)
    have "?B" unfolding pm2 using sub_entries_trans s1 s2 by blast
    moreover have "0 \<le> pm_max_size pm \<longrightarrow> ?C" using size s2 by (auto simp: pm2 sub_entries_def)
    moreover have "0 \<le> b' \<longrightarrow> pm_n_bytes pm2 \<le> b'" using s2 by auto
    ultimately show ?thesis unfolding pm2 b' using s2 by auto
  qed
  then show ?A ?B "0 \<le> pm_max_size pm \<Longrightarrow> ?C" "pm_max_bytes pm = Some b \<Longrightarrow> 0 \<le> b \<Longrightarrow> ?D" by blast+
qed

lemma evict_to_limits_room:
  assumes "int (total_lru_size pm) \<le> pm_max_size pm" "\<And>b. pm_max_bytes pm = Some b \<Longrightarrow> pm_n_bytes pm \<le> b"
  shows "evict_to_limits pm = pm"
  using assms by (auto simp: evict_to_limits_def evict_while_stop Let_def split: option.split)

text \<open>Writing an entry: nothing else changes, and the key moves to the end of its type's bucket.\<close>

definition written_entry :: "prefix_key \<Rightarrow> 'b cache_layer list \<Rightarrow> cache_type \<Rightarrow> 'b prefix_manager \<Rightarrow> 'b prefix_entry" where
  "written_entry k layers t pm = \<lparr>prompt_cache = layers,
     pe_count = (case get_cache_entry pm (snd k) (fst k) of Some old \<Rightarrow> pe_count old + 1 | None \<Rightarrow> 1),
     pe_type = t, pe_nbytes = estimate_kv_cache_memory layers\<rparr>"

lemma write_entry_cache:
  "pm_cache (write_entry k layers t pm) =
   pd_set (pm_cache pm) (fst k) (trie_insert (written_entry k layers t pm)
     (case pd_get (pm_cache pm) (fst k) of None \<Rightarrow> empty_token_trie | Some x \<Rightarrow> x) (snd k))"
proof -
  let ?trie = "case pd_get (pm_cache pm) (fst k) of None \<Rightarrow> empty_token_trie | Some x \<Rightarrow> x"
  have look: "trie_lookup ?trie (snd k) = get_cache_entry pm (snd k) (fst k)"
    by (simp add: get_cache_entry_def split: option.split)
  show ?thesis unfolding write_entry_def Let_def look
    by (cases "get_cache_entry pm (snd k) (fst k)") (simp_all add: push_lru_def remove_from_all_lru_def written_entry_def)
qed

lemma get_entry_write:
  "get_cache_entry (write_entry k layers t pm) ts sc =
   (if (sc, ts) = k then Some (written_entry k layers t pm) else get_cache_entry pm ts sc)"
  by (cases k) (auto simp: get_cache_entry_def write_entry_cache lookup_insert split: option.split)

lemma write_entry_frame:
  "pm_max_size (write_entry k layers t pm) = pm_max_size pm" "pm_max_bytes (write_entry k layers t pm) = pm_max_bytes pm"
  "pm_model_key (write_entry k layers t pm) = pm_model_key pm" "pm_stats (write_entry k layers t pm) = pm_stats pm"
  by (simp_all add: write_entry_def Let_def push_lru_def remove_from_all_lru_def split: option.split)

definition forget_entry :: "prefix_key \<Rightarrow> 'b prefix_manager \<Rightarrow> 'b prefix_manager" where
  "forget_entry k pm =
     (case get_cache_entry pm (snd k) (fst k) of None \<Rightarrow> pm | Some old \<Rightarrow> remove_from_all_lru k (untrack_bytes old pm))"

lemma write_entry_books:
  "pm_lru (write_entry k layers t pm) = (pm_lru (forget_entry k pm))(t := bucket_push k (pm_lru (forget_entry k pm) t)) \<and>
   pm_n_bytes (write_entry k layers t pm) = pm_n_bytes (forget_entry k pm) + int (estimate_kv_cache_memory layers) \<and>
   pm_bytes_by_type (write_entry k layers t pm) =
     (pm_bytes_by_type (forget_entry k pm))
       (t := pm_bytes_by_type (forget_entry k pm) t + int (estimate_kv_cache_memory layers))"
proof -
  let ?trie = "case pd_get (pm_cache pm) (fst k) of None \<Rightarrow> empty_token_trie | Some x \<Rightarrow> x"
  have look: "trie_lookup ?trie us = get_cache_entry pm us (fst k)" for us
    by (simp add: get_cache_entry_def split: option.split)
  show ?thesis
    by (cases "get_cache_entry pm (snd k) (fst k)")
      (simp_all add: write_entry_def Let_def push_lru_def look forget_entry_def)
qed

lemma typed_ok_all_buckets:
  assumes ok: "typed_ok E lru bytes tot" and k: "E k = Some (t, n)"
  shows "(\<lambda>s. bucket_remove k (lru s)) = lru(t := bucket_remove k (lru t))"
proof
  fix s
  show "bucket_remove k (lru s) = (lru(t := bucket_remove k (lru t))) s"
    using typed_ok_in [OF ok, of k s] k by (cases "s = t") (auto intro!: bucket_remove_absent)
qed

lemma forget_entry_typed:
  assumes "typed_ok (pm_view pm) (pm_lru pm) (pm_bytes_by_type pm) (pm_n_bytes pm)"
  shows "typed_ok ((pm_view pm)(k := None)) (pm_lru (forget_entry k pm)) (pm_bytes_by_type (forget_entry k pm))
     (pm_n_bytes (forget_entry k pm))"
proof (cases "get_cache_entry pm (snd k) (fst k)")
  case None
  then have "(pm_view pm)(k := None) = pm_view pm" by (auto simp: fun_eq_iff pm_view_def)
  then show ?thesis using None assms by (simp add: forget_entry_def)
next
  case (Some old)
  then have v: "pm_view pm k = Some (pe_type old, pe_nbytes old)" by (simp add: pm_view_def)
  note D = typed_ok_delete [OF assms v]
  have "pm_bytes_by_type (forget_entry k pm) =
      (pm_bytes_by_type pm)(pe_type old := pm_bytes_by_type pm (pe_type old) - int (pe_nbytes old))"
    using Some typed_ok_clamp [OF assms v]
    by (simp add: forget_entry_def remove_from_all_lru_def untrack_bytes_by_type)
  moreover have "pm_lru (forget_entry k pm) = (pm_lru pm)(pe_type old := bucket_remove k (pm_lru pm (pe_type old)))"
    using Some typed_ok_all_buckets [OF assms v] by (simp add: forget_entry_def remove_from_all_lru_def)
  moreover have "pm_n_bytes (forget_entry k pm) = pm_n_bytes pm - int (pe_nbytes old)"
    using Some by (simp add: forget_entry_def remove_from_all_lru_def)
  ultimately show ?thesis using D by simp
qed

lemma tries_write:
  assumes "tries_ok pm" "snd k \<noteq> []"
  shows "tries_ok (write_entry k layers t pm)"
proof -
  let ?trie = "case pd_get (pm_cache pm) (fst k) of None \<Rightarrow> empty_token_trie | Some x \<Rightarrow> x"
  have t: "trie_ok ?trie"
    using tries_get [OF assms(1), of "fst k"] by (cases "pd_get (pm_cache pm) (fst k)") simp_all
  have i: "trie_ok (trie_insert e ?trie (snd k))" for e by (rule conjunct1 [OF trie_ok_insert [OF t]])
  have c: "pm_cache (write_entry k layers t pm) =
      pd_set (pm_cache pm) (fst k) (trie_insert (written_entry k layers t pm) ?trie (snd k))"
    by (rule write_entry_cache)
  have tries: "trie_ok x" if x: "pd_get (pm_cache (write_entry k layers t pm)) sc = Some x" for sc x
  proof (cases "sc = fst k")
    case True
    then show ?thesis using x i by (simp only: c pd_get_set fun_upd_same option.inject) blast
  next
    case False
    then have "pd_get (pm_cache pm) sc = Some x" using x by (simp add: c)
    then show ?thesis by (rule tries_get [OF assms(1)])
  qed
  have "get_cache_entry (write_entry k layers t pm) [] sc = None" for sc
    using assms by (cases k; cases sc) (simp add: get_entry_write tries_ok_def)
  then show ?thesis unfolding tries_ok_def using tries by blast
qed

lemma pm_ok_write:
  assumes "pm_ok pm" "snd k \<noteq> []"
  shows "pm_ok (write_entry k layers t pm)"
proof -
  let ?w = "write_entry k layers t pm" and ?n = "estimate_kv_cache_memory layers"
  have view: "pm_view ?w = ((pm_view pm)(k := None))(k \<mapsto> (t, ?n))"
    unfolding fun_eq_iff pm_view_def get_entry_write by (auto simp: prod_eq_iff written_entry_def)
  have "typed_ok ((pm_view pm)(k := None)) (pm_lru (forget_entry k pm)) (pm_bytes_by_type (forget_entry k pm))
      (pm_n_bytes (forget_entry k pm))"
    using assms(1) forget_entry_typed unfolding pm_ok_def by blast
  from typed_ok_insert [OF this, of k t ?n]
  have "typed_ok (pm_view ?w) (pm_lru ?w) (pm_bytes_by_type ?w) (pm_n_bytes ?w)"
    unfolding view using write_entry_books [of k layers t pm] by simp
  then show ?thesis using assms tries_write [of pm k layers t] by (simp add: pm_ok_def write_entry_frame)
qed

lemma pm_ok_store: "pm_ok pm \<Longrightarrow> pm_ok (store_cache rp dumps pm tokens layers ct extra)"
  by (simp add: store_cache_def evict_to_limits_spec(1) pm_ok_write)

lemma pm_ok_reset: "pm_ok pm \<Longrightarrow> pm_ok (reset_prefix_stats pm)"
  by (simp add: reset_prefix_stats_def pm_ok_def stats_ok_def new_prefix_stats_def)

text \<open>A present key is touched in its own bucket.\<close>

lemma touch_present:
  assumes "pm_ok pm" "get_cache_entry pm (snd k) (fst k) = Some e"
  shows "touch_lru k pm = pm\<lparr>pm_lru := (pm_lru pm)(pe_type e := bucket_push k (pm_lru pm (pe_type e)))\<rparr>"
proof -
  have "k \<in> set (pm_lru pm t) \<longleftrightarrow> t = pe_type e" for t
    using assms typed_ok_in [of "pm_view pm" "pm_lru pm" "pm_bytes_by_type pm" "pm_n_bytes pm" k t]
    by (auto simp: pm_ok_def pm_view_def)
  then show ?thesis by (cases "pe_type e") (simp_all add: touch_lru_def cache_type_priority_def)
qed

lemma pm_ok_touch:
  assumes "pm_ok pm" "get_cache_entry pm (snd k) (fst k) = Some e"
  shows "pm_ok (touch_lru k pm)"
proof -
  have ok: "typed_ok (pm_view pm) (pm_lru pm) (pm_bytes_by_type pm) (pm_n_bytes pm)" using assms(1) by (simp add: pm_ok_def)
  have "pm_view pm k = Some (pe_type e, pe_nbytes e)" using assms(2) by (simp add: pm_view_def)
  from typed_ok_refresh [OF ok this] show ?thesis using assms(1) by (simp add: touch_present [OF assms] pm_ok_def)
qed

section \<open>What a search finds\<close>

text \<open>
  On the sequences cached in a scope: an exact match; the longest beginning of the tokens that leads
  anywhere, if something is cached exactly there; or the shortest cached extension of the tokens.
\<close>

lemma search_spec:
  assumes "tries_ok pm" "search pm tokens sc = (exact, shorter, longer, n)"
  shows "exact = (if get_cache_entry pm tokens sc \<noteq> None then Some tokens else None)"
    and "shorter = Some p \<Longrightarrow> \<exists>k < length tokens. p = take k tokens \<and> get_cache_entry pm p sc \<noteq> None \<and>
       (\<forall>us. get_cache_entry pm (take (Suc k) tokens @ us) sc = None)"
    and "longer = Some p \<Longrightarrow> (\<exists>us. p = tokens @ us) \<and> get_cache_entry pm p sc \<noteq> None \<and> get_cache_entry pm tokens sc = None \<and>
       (\<forall>us. get_cache_entry pm (tokens @ us) sc \<noteq> None \<longrightarrow> length p \<le> length (tokens @ us))"
    and "exact = None \<Longrightarrow> longer = None \<Longrightarrow> get_cache_entry pm (tokens @ us) sc = None"
    and "exact = None \<Longrightarrow> shorter = None \<Longrightarrow> k < length tokens \<Longrightarrow> get_cache_entry pm (take k tokens) sc \<noteq> None \<Longrightarrow>
       \<exists>us. get_cache_entry pm (take (Suc k) tokens @ us) sc \<noteq> None"
proof -
  let ?E = "\<lambda>ts. get_cache_entry pm ts sc"
  have "exact = (if ?E tokens \<noteq> None then Some tokens else None) \<and>
    (\<forall>p. shorter = Some p \<longrightarrow> (\<exists>k < length tokens. p = take k tokens \<and> ?E p \<noteq> None \<and> (\<forall>us. ?E (take (Suc k) tokens @ us) = None))) \<and>
    (\<forall>p. longer = Some p \<longrightarrow> (\<exists>us. p = tokens @ us) \<and> ?E p \<noteq> None \<and> ?E tokens = None \<and>
       (\<forall>us. ?E (tokens @ us) \<noteq> None \<longrightarrow> length p \<le> length (tokens @ us))) \<and>
    (exact = None \<longrightarrow> longer = None \<longrightarrow> ?E (tokens @ us) = None) \<and>
    (exact = None \<longrightarrow> shorter = None \<longrightarrow> k < length tokens \<longrightarrow> ?E (take k tokens) \<noteq> None \<longrightarrow> (\<exists>us. ?E (take (Suc k) tokens @ us) \<noteq> None))"
  proof (cases "pd_get (pm_cache pm) sc")
    case None
    then show ?thesis using assms(2) by (auto simp: search_def get_cache_entry_def)
  next
    case (Some t)
    have t: "trie_ok t" using assms(1) Some unfolding tries_ok_def by blast
    have E: "?E ts = trie_lookup t ts" for ts using Some by (simp add: get_cache_entry_def)
    show ?thesis
    proof (cases "walk t [] tokens")
      case (Reached x)
      note node = walk_reached [OF Reached]
      have here: "?E tokens = entry x" using lookup_below [OF node, of "[]"] by (simp add: E lookup_Nil)
      have below: "\<exists>us. ?E (take (Suc j) tokens @ us) \<noteq> None" if "j < length tokens" for j
      proof -
        have "node_of t (take (Suc j) tokens @ drop (Suc j) tokens) \<noteq> None" using node by simp
        then have "node_of t (take (Suc j) tokens) \<noteq> None" unfolding node_of_append by (auto split: option.splits)
        moreover have "take (Suc j) tokens \<noteq> []" using that by (cases tokens) auto
        ultimately show ?thesis using node_iff [OF t] unfolding E by blast
      qed
      show ?thesis
      proof (cases "entry x")
        case None2: None
        have near: "case nearest_entry [(x, tokens)] of None \<Rightarrow> \<forall>ys. ?E (tokens @ ys) = None
          | Some r \<Rightarrow> (\<exists>ys. r = tokens @ ys) \<and> ?E r \<noteq> None \<and> (\<forall>ys. ?E (tokens @ ys) \<noteq> None \<longrightarrow> length r \<le> length (tokens @ ys))"
          using nearest_below [OF t node] unfolding E .
        have "(exact, shorter, longer) = (None, None, nearest_entry [(x, tokens)])"
          using assms(2) Some Reached None2 by (simp add: search_def split: option.splits)
        then show ?thesis using near here None2 below by (auto split: option.splits)
      next
        case (Some e)
        then have "(exact, shorter, longer) = (Some tokens, None, None)"
          using assms(2) \<open>pd_get (pm_cache pm) sc = Some t\<close> Reached by (simp add: search_def)
        then show ?thesis using here Some by simp
      qed
    next
      case (Stuck x path)
      obtain j where j: "j < length tokens" "path = take j tokens" "node_of t path = Some x" "node_of t (take (Suc j) tokens) = None"
        using walk_stuck [OF Stuck] by blast
      have dead: "?E (take (Suc j) tokens @ us) = None" for us
        using j(4) by (simp add: E trie_lookup_def node_of_append)
      have at: "?E path = entry x" using lookup_below [OF j(3), of "[]"] by (simp add: E lookup_Nil)
      have out: "?E (tokens @ us) = None" for us
        using dead [of "drop (Suc j) tokens @ us"] by (simp flip: append_assoc)
      have res: "(exact, shorter, longer) = (None, if entry x \<noteq> None then Some path else None, None)"
        using assms(2) Some Stuck by (auto simp: search_def split: if_splits)
      have "\<exists>us. ?E (take (Suc k) tokens @ us) \<noteq> None"
        if k: "entry x = None" "k < length tokens" "?E (take k tokens) \<noteq> None"
      proof -
        have "k < j"
        proof (rule ccontr)
          assume "\<not> k < j"
          then consider "k = j" | "Suc j \<le> k" by linarith
          then show False
          proof cases
            case 1
            then show ?thesis using k at j(2) by simp
          next
            case 2
            then have "take k tokens = take (Suc j) tokens @ drop (Suc j) (take k tokens)"
              by (metis append_take_drop_id min.absorb1 take_take)
            then show ?thesis using dead k(3) by metis
          qed
        qed
        then have p: "path = take (Suc k) tokens @ drop (Suc k) path" unfolding j(2)
          by (metis Suc_leI append_take_drop_id min.absorb1 take_take)
        then have "node_of t (take (Suc k) tokens) \<noteq> None" using j(3) node_of_append [of t "take (Suc k) tokens" "drop (Suc k) path"]
          by (auto split: option.splits)
        moreover have "take (Suc k) tokens \<noteq> []" using k(2) by (cases tokens) auto
        ultimately show ?thesis using node_iff [OF t] unfolding E by blast
      qed
      then show ?thesis using res j(1,2) at dead out out [of "[]"] by (auto split: if_splits)
    qed
  qed
  then show "exact = (if ?E tokens \<noteq> None then Some tokens else None)"
    "shorter = Some p \<Longrightarrow> \<exists>k < length tokens. p = take k tokens \<and> ?E p \<noteq> None \<and> (\<forall>us. ?E (take (Suc k) tokens @ us) = None)"
    "longer = Some p \<Longrightarrow> (\<exists>us. p = tokens @ us) \<and> ?E p \<noteq> None \<and> ?E tokens = None \<and>
       (\<forall>us. ?E (tokens @ us) \<noteq> None \<longrightarrow> length p \<le> length (tokens @ us))"
    "exact = None \<Longrightarrow> longer = None \<Longrightarrow> ?E (tokens @ us) = None"
    "exact = None \<Longrightarrow> shorter = None \<Longrightarrow> k < length tokens \<Longrightarrow> ?E (take k tokens) \<noteq> None \<Longrightarrow> \<exists>us. ?E (take (Suc k) tokens @ us) \<noteq> None"
    by blast+
qed

section \<open>Fetching\<close>

lemma count_frame [simp]:
  "get_cache_entry (note_hit n pm) = get_cache_entry pm" "get_cache_entry (note_miss pm) = get_cache_entry pm"
  "get_cache_entry (note_query pm) = get_cache_entry pm" "get_cache_entry (touch_lru k pm) = get_cache_entry pm"
  "search (note_query pm) = search pm" "scoped_model_key rp dumps (note_query pm) = scoped_model_key rp dumps pm"
  "tries_ok (note_query pm) = tries_ok pm"
  by (simp_all add: note_hit_def note_miss_def note_query_def touch_lru_def scoped_model_key_def fun_eq_iff search_def
    split: list.split)

text \<open>The answer, on the sequences cached in the request's scope.\<close>

definition served ::
  "(int \<Rightarrow> 'b cache_layer \<Rightarrow> 'b cache_layer) \<Rightarrow> (int list \<Rightarrow> 'b prefix_entry option) \<Rightarrow> int list \<Rightarrow>
   'b cache_layer list option \<times> int list \<Rightarrow> bool" where
  "served trim E tokens ans =
     (case ans of
        (Some layers, rest) \<Rightarrow>
          (\<exists>e. E tokens = Some e \<and> layers = prompt_cache e \<and> rest = []) \<or>
          (\<exists>k e. 0 < k \<and> k < length tokens \<and> E (take k tokens) = Some e \<and> layers = prompt_cache e \<and>
             rest = drop k tokens \<and> (\<forall>us. E (take (Suc k) tokens @ us) = None)) \<or>
          (\<exists>us e. us \<noteq> [] \<and> E tokens = None \<and> E (tokens @ us) = Some e \<and>
             (\<forall>vs. E (tokens @ vs) \<noteq> None \<longrightarrow> length us \<le> length vs) \<and>
             \<not> is_hybrid_ssm_cache (prompt_cache e) \<and> can_trim_cache (prompt_cache e) \<and>
             layers = trim_cache trim (prompt_cache e) (int (length us)) \<and> rest = [])
      | (None, rest) \<Rightarrow>
          rest = tokens \<and> E tokens = None \<and>
          ((\<forall>us. E (tokens @ us) = None) \<or>
           (\<exists>us e. E (tokens @ us) = Some e \<and> (is_hybrid_ssm_cache (prompt_cache e) \<or> \<not> can_trim_cache (prompt_cache e)))) \<and>
          (\<forall>k < length tokens. E (take k tokens) \<noteq> None \<longrightarrow> (\<exists>us. E (take (Suc k) tokens @ us) \<noteq> None)))"

lemma entry_at_iff:
  "entry_at pm m sc = Some (ts, e) \<longleftrightarrow> m = Some ts \<and> ts \<noteq> [] \<and> get_cache_entry pm ts sc = Some e"
  by (auto simp: entry_at_def matched_def split: option.splits)

lemma entry_at_None_iff:
  "entry_at pm m sc = None \<longleftrightarrow> (\<forall>ts. m = Some ts \<longrightarrow> ts \<noteq> [] \<longrightarrow> get_cache_entry pm ts sc = None)"
  by (auto simp: entry_at_def matched_def split: option.splits)

lemma no_match:
  assumes "tries_ok pm" "entry_at (note_query pm) m sc = None" "\<And>p. m = Some p \<Longrightarrow> get_cache_entry pm p sc \<noteq> None"
  shows "m = None"
proof (cases m)
  case (Some p)
  then have "get_cache_entry pm p sc \<noteq> None" by (rule assms(3))
  moreover from this have "p \<noteq> []" using tries_nil [OF assms(1), of sc] by auto
  ultimately show ?thesis using assms(2) Some by (simp add: entry_at_None_iff)
qed

lemma fetch_forms:
  assumes ok: "pm_ok pm" and f: "fetch_cache rp dumps trim pm tokens extra = (ans, pm')"
  defines "sc \<equiv> scoped_model_key rp dumps pm extra"
  shows "served trim (\<lambda>ts. get_cache_entry pm ts sc) tokens ans \<and>
    ((\<exists>n. pm' = note_hit n (note_query pm)) \<or>
     (\<exists>n ts e. get_cache_entry pm ts sc = Some e \<and> pm' = touch_lru (sc, ts) (note_hit n (note_query pm))) \<or>
     pm' = note_miss (note_query pm))"
proof -
  have tr: "tries_ok pm" using ok by (simp add: pm_ok_def)
  obtain exact shorter longer n where s: "search pm tokens sc = (exact, shorter, longer, n)"
    by (metis prod_cases4)
  note spec = search_spec [OF tr s]
  note F = f [unfolded fetch_cache_def Let_def count_frame, folded sc_def, unfolded s prod.case]
  show ?thesis
  proof (cases "entry_at (note_query pm) exact sc")
    case (Some te)
    then obtain e where e: "get_cache_entry pm tokens sc = Some e" "te = (tokens, e)" "exact = Some tokens"
      using spec(1) by (cases te) (auto simp: entry_at_iff split: if_splits)
    have a: "ans = (Some (prompt_cache e), [])" "pm' = touch_lru (sc, tokens) (note_hit (length tokens) (note_query pm))"
      using F Some e(2) by simp_all
    have "served trim (\<lambda>ts. get_cache_entry pm ts sc) tokens ans" using e(1) by (simp add: served_def a(1))
    then show ?thesis using e(1) a by auto
  next
    case None
    have e0: "exact = None" by (rule no_match [OF tr None]) (use spec(1) in \<open>simp split: if_splits\<close>)
    then have no: "get_cache_entry pm tokens sc = None" "exact = None" using spec(1) by (simp_all split: if_splits)
    show ?thesis
    proof (cases "entry_at (note_query pm) shorter sc")
      case (Some te)
      then obtain ts e where te: "te = (ts, e)" "shorter = Some ts" "ts \<noteq> []" "get_cache_entry pm ts sc = Some e"
        by (cases te) (auto simp: entry_at_iff)
      obtain k where k: "k < length tokens" "ts = take k tokens" "\<forall>us. get_cache_entry pm (take (Suc k) tokens @ us) sc = None"
        using spec(2) [OF te(2)] by blast
      have a: "ans = (Some (prompt_cache e), drop k tokens)" "pm' = touch_lru (sc, ts) (note_hit (length ts) (note_query pm))"
        using F None Some te(1) k(1,2) by simp_all
      have "0 < k" using te(3) k(2) by (cases k) auto
      then have "served trim (\<lambda>ts. get_cache_entry pm ts sc) tokens ans" using k te(4) by (auto simp: served_def a(1))
      then show ?thesis using te(4) a by auto
    next
      case no2: None
      have "shorter = None" by (rule no_match [OF tr no2]) (use spec(2) in blast)
      note passed = spec(5) [OF no(2) this]
      show ?thesis
      proof (cases "entry_at (note_query pm) longer sc")
        case (Some te)
        then obtain ts e where te: "te = (ts, e)" "longer = Some ts" "ts \<noteq> []" "get_cache_entry pm ts sc = Some e"
          by (cases te) (auto simp: entry_at_iff)
        obtain us where us: "ts = tokens @ us"
          and near: "\<forall>vs. get_cache_entry pm (tokens @ vs) sc \<noteq> None \<longrightarrow> length ts \<le> length (tokens @ vs)"
          using spec(3) [OF te(2)] by blast
        have ne: "us \<noteq> []" using no(1) te(4) us by auto
        show ?thesis
        proof (cases "\<not> is_hybrid_ssm_cache (prompt_cache e) \<and> can_trim_cache (prompt_cache e)")
          case True
          have a: "ans = (Some (trim_cache trim (prompt_cache e) (int (length us))), [])" "pm' = note_hit (length tokens) (note_query pm)"
            using F None no2 Some te(1) True us by simp_all
          have "served trim (\<lambda>ts. get_cache_entry pm ts sc) tokens ans"
            unfolding served_def a(1) prod.case option.case using ne no(1) te(4) us near True by (intro disjI2) auto
          then show ?thesis using a by auto
        next
          case False
          then have a: "ans = (None, tokens)" "pm' = note_miss (note_query pm)" using F None no2 Some te(1) by auto
          have "served trim (\<lambda>ts. get_cache_entry pm ts sc) tokens ans"
            unfolding served_def a(1) prod.case option.case using no(1) te(4) us False passed by blast
          then show ?thesis using a by simp
        qed
      next
        case no3: None
        have "longer = None" by (rule no_match [OF tr no3]) (use spec(3) in blast)
        note out = spec(4) [OF no(2) this]
        have a: "ans = (None, tokens)" "pm' = note_miss (note_query pm)" using F None no2 no3 by simp_all
        have "served trim (\<lambda>ts. get_cache_entry pm ts sc) tokens ans"
          unfolding served_def a(1) prod.case option.case using no(1) out passed by blast
        then show ?thesis using a by simp
      qed
    qed
  qed
qed

end
