(* ===== verification/Prefix_Reach.thy ===== *)
theory Prefix_Reach
  imports Prefix_Trie
begin

text \<open>
  The life of a \<open>PrefixCacheManager\<close>: any sequence of fetches, stores, trims and resets, and the properties
  of every state reached.
\<close>

inductive prefix_reachable ::
  "(pyval \<Rightarrow> string) \<Rightarrow> (pyval \<Rightarrow> string option) \<Rightarrow> (int \<Rightarrow> 'b cache_layer \<Rightarrow> 'b cache_layer) \<Rightarrow> 'b prefix_manager \<Rightarrow> bool"
  for rp dumps trim where
  created: "prefix_reachable rp dumps trim (new_prefix_manager mk entries bytes)"
| fetched: "prefix_reachable rp dumps trim pm \<Longrightarrow> prefix_reachable rp dumps trim (snd (fetch_cache rp dumps trim pm tokens extra))"
| stored: "prefix_reachable rp dumps trim pm \<Longrightarrow> prefix_reachable rp dumps trim (store_cache rp dumps pm tokens layers ct extra)"
| trimmed: "prefix_reachable rp dumps trim pm \<Longrightarrow> prefix_reachable rp dumps trim (snd (trim_to n pm))"
| cleared: "prefix_reachable rp dumps trim pm \<Longrightarrow> prefix_reachable rp dumps trim (clear_prefix pm)"
| reset: "prefix_reachable rp dumps trim pm \<Longrightarrow> prefix_reachable rp dumps trim (reset_prefix_stats pm)"

definition within_limits :: "'b prefix_manager \<Rightarrow> bool" where
  "within_limits pm \<longleftrightarrow> (0 \<le> pm_max_size pm \<longrightarrow> int (total_lru_size pm) \<le> pm_max_size pm) \<and>
     (\<forall>b. pm_max_bytes pm = Some b \<longrightarrow> 0 \<le> b \<longrightarrow> pm_n_bytes pm \<le> b)"

lemma count_ok: "pm_ok pm \<Longrightarrow> pm_ok (note_hit n (note_query pm)) \<and> pm_ok (note_miss (note_query pm))"
  by (simp add: pm_ok_def note_hit_def note_miss_def note_query_def stats_ok_def)

lemma count_limits: "within_limits (note_hit n (note_query pm)) = within_limits pm"
   "within_limits (note_miss (note_query pm)) = within_limits pm"
  by (simp_all add: within_limits_def total_lru_size_def note_hit_def note_miss_def note_query_def)

lemma touch_limits:
  assumes "pm_ok pm" "get_cache_entry pm (snd k) (fst k) = Some e"
  shows "within_limits (touch_lru k pm) = within_limits pm"
proof -
  have ok: "typed_ok (pm_view pm) (pm_lru pm) (pm_bytes_by_type pm) (pm_n_bytes pm)" using assms(1) by (simp add: pm_ok_def)
  have "k \<in> set (pm_lru pm (pe_type e))" using assms(2) typed_ok_in [OF ok, of k "pe_type e"] by (simp add: pm_view_def)
  then have "length (bucket_push k (pm_lru pm (pe_type e))) = length (pm_lru pm (pe_type e))"
    by (rule length_push [OF typed_ok_distinct [OF ok]])
  then have "total_lru_size (touch_lru k pm) = total_lru_size pm"
    using total_size_upd [of "pm_lru pm" "pe_type e" "bucket_push k (pm_lru pm (pe_type e))"]
    by (simp add: touch_present [OF assms] total_lru_size_def)
  then show ?thesis by (simp add: within_limits_def touch_present [OF assms])
qed

lemma fetch_keeps:
  assumes "pm_ok pm" "within_limits pm"
  shows "pm_ok (snd (fetch_cache rp dumps trim pm tokens extra)) \<and> within_limits (snd (fetch_cache rp dumps trim pm tokens extra))"
proof -
  obtain ans pm' where f: "fetch_cache rp dumps trim pm tokens extra = (ans, pm')" by fastforce
  let ?sc = "scoped_model_key rp dumps pm extra"
  from fetch_forms [OF assms(1) f] consider
    (hit) n where "pm' = note_hit n (note_query pm)"
  | (touch) n ts e where "get_cache_entry pm ts ?sc = Some e" "pm' = touch_lru (?sc, ts) (note_hit n (note_query pm))"
  | (miss) "pm' = note_miss (note_query pm)" by blast
  then have "pm_ok pm' \<and> within_limits pm'"
  proof cases
    case touch
    let ?q = "note_hit n (note_query pm)"
    have q: "pm_ok ?q" "get_cache_entry ?q (snd (?sc, ts)) (fst (?sc, ts)) = Some e" using count_ok [OF assms(1)] touch(1) by simp_all
    then show ?thesis using pm_ok_touch [OF q] touch_limits [OF q] assms(2) touch(2) by (simp add: count_limits)
  qed (use count_ok [OF assms(1)] assms(2) in \<open>simp_all add: count_limits\<close>)
  then show ?thesis by (simp add: f)
qed

lemma sub_limits: "sub_entries pm' pm \<Longrightarrow> within_limits pm \<Longrightarrow> within_limits pm'"
  unfolding within_limits_def sub_entries_def by (metis of_nat_mono order_trans)

lemma clear_keeps: "pm_ok (clear_prefix pm) \<and> within_limits (clear_prefix pm)"
proof -
  have v: "pm_view (clear_prefix pm) = (\<lambda>_. None)"
    by (simp add: fun_eq_iff pm_view_def get_cache_entry_def clear_prefix_def)
  have "pm_ok (clear_prefix pm)" using typed_ok_empty unfolding pm_ok_def v
    by (simp add: clear_prefix_def tries_ok_def stats_ok_def new_prefix_stats_def get_cache_entry_def)
  then show ?thesis by (simp add: within_limits_def clear_prefix_def total_lru_size_def total_size_eq)
qed

lemma trim_keeps:
  assumes "pm_ok pm" "within_limits pm"
  shows "pm_ok (snd (trim_to n pm)) \<and> within_limits (snd (trim_to n pm))"
proof (cases "n \<le> 0")
  case False
  obtain m pm' where e: "evict_while (\<lambda>m. pm_n_bytes m > n) pm = (m, pm')" by (cases "evict_while (\<lambda>m. pm_n_bytes m > n) pm")
  then show ?thesis using evict_while_spec [OF assms(1) e] sub_limits [OF _ assms(2)] False by (simp add: trim_to_def)
qed (simp add: trim_to_def clear_keeps)

lemma store_keeps:
  assumes "pm_ok pm" "within_limits pm"
  shows "pm_ok (store_cache rp dumps pm tokens layers ct extra) \<and> within_limits (store_cache rp dumps pm tokens layers ct extra)"
proof (cases "tokens = []")
  case False
  let ?w = "write_entry (scoped_model_key rp dumps pm extra, tokens) layers (cache_type_of ct) pm"
  have w: "pm_ok ?w" using pm_ok_write [OF assms(1)] False by simp
  have "pm_max_size (evict_to_limits ?w) = pm_max_size ?w" "pm_max_bytes (evict_to_limits ?w) = pm_max_bytes ?w"
    using evict_to_limits_spec(2) [OF w] by (simp_all add: sub_entries_def)
  then have "within_limits (evict_to_limits ?w)"
    using evict_to_limits_spec(3,4) [OF w] by (simp add: within_limits_def)
  then show ?thesis using False evict_to_limits_spec(1) [OF w] by (simp add: store_cache_def)
qed (simp add: store_cache_def assms)

lemma new_limits: "within_limits (new_prefix_manager mk entries bytes)"
  by (simp add: within_limits_def new_prefix_manager_def total_lru_size_def total_size_eq)

lemma reset_keeps: "pm_ok pm \<Longrightarrow> within_limits pm \<Longrightarrow> pm_ok (reset_prefix_stats pm) \<and> within_limits (reset_prefix_stats pm)"
  using pm_ok_reset by (simp add: within_limits_def reset_prefix_stats_def total_lru_size_def)

lemma reachable_ok: "prefix_reachable rp dumps trim pm \<Longrightarrow> pm_ok pm \<and> within_limits pm"
  by (induction rule: prefix_reachable.induct)
    (simp_all add: pm_ok_new new_limits fetch_keeps store_keeps trim_keeps clear_keeps reset_keeps)

section \<open>A concrete run\<close>

definition demo_layer :: "nat cache_layer" where
  "demo_layer = Obj_Layer ''KVCache'' (Some (Arrays (Some 8) (Some 8))) None 0 None None None None True 5"

definition demo_prefix :: "nat prefix_manager" where
  "demo_prefix =
     store_cache (\<lambda>_. []) (\<lambda>_. None)
       (store_cache (\<lambda>_. []) (\<lambda>_. None) (new_prefix_manager ''m'' 3 (Some 100)) [1] [demo_layer] ''system'' PyNone)
       [1, 2, 3] [demo_layer] ''assistant'' PyNone"

lemma demo_reachable: "prefix_reachable (\<lambda>_. []) (\<lambda>_. None) (\<lambda>_ l. l) demo_prefix"
  unfolding demo_prefix_def by (intro stored created)

lemma demo_prefix_eq:
  "demo_prefix =
     \<lparr>pm_model_key = ''m'', pm_max_size = 3, pm_max_bytes = Some 100,
      pm_cache = [((''m'', None), Trie None [(1, Trie (Some \<lparr>prompt_cache = [demo_layer], pe_count = 1, pe_type = System, pe_nbytes = 16\<rparr>)
         [(2, Trie None [(3, Trie (Some \<lparr>prompt_cache = [demo_layer], pe_count = 1, pe_type = Assistant, pe_nbytes = 16\<rparr>) [])])])])],
      pm_lru = (\<lambda>_. [])(System := [((''m'', None), [1])], Assistant := [((''m'', None), [1, 2, 3])]),
      pm_n_bytes = 32, pm_bytes_by_type = (\<lambda>_. 0)(System := 16, Assistant := 16), pm_stats = new_prefix_stats\<rparr>"
  by (simp add: demo_prefix_def store_cache_def evict_to_limits_def Let_def evict_while_stop write_entry_def new_prefix_manager_def
      scoped_model_key_def canonical_cache_extra_marker_def cache_type_of_def push_lru_def bucket_push_def
      total_lru_size_def total_size_eq demo_layer_def opt_bytes_def fun_eq_iff)

lemma demo_prefix_sel:
  "pm_model_key demo_prefix = ''m''" "pm_max_size demo_prefix = 3" "pm_max_bytes demo_prefix = Some 100"
  "pm_lru demo_prefix = (\<lambda>_. [])(System := [((''m'', None), [1])], Assistant := [((''m'', None), [1, 2, 3])])"
  "pm_n_bytes demo_prefix = 32"
  by (simp_all add: demo_prefix_eq)

lemma demo_entries:
  "get_cache_entry demo_prefix [1] (''m'', None) =
     Some \<lparr>prompt_cache = [demo_layer], pe_count = 1, pe_type = System, pe_nbytes = 16\<rparr>"
  "get_cache_entry demo_prefix [1, 2] (''m'', None) = None"
  "get_cache_entry demo_prefix [1, 2, 3] (''m'', None) =
     Some \<lparr>prompt_cache = [demo_layer], pe_count = 1, pe_type = Assistant, pe_nbytes = 16\<rparr>"
  "search demo_prefix [1, 7] (''m'', None) = (None, Some [1], None, 0)"
  "search demo_prefix [1, 2, 7] (''m'', None) = (None, None, None, 0)"
  by (simp_all add: get_cache_entry_def search_def demo_prefix_eq)

lemma demo_scope: "scoped_model_key rp dumps demo_prefix PyNone = (''m'', None)"
  by (simp add: scoped_model_key_def demo_prefix_sel canonical_cache_extra_marker_def)

section \<open>Properties\<close>

text \<open>
  C10. In every reachable state each cached sequence stands exactly once in the recency bucket of its type and
  in no other, a bucket lists nothing else, the byte counters are the sums of the entries' bytes per type
  and in total, and hits and misses add up to the queries.
\<close>

theorem prefix_books_balance:
  assumes "prefix_reachable rp dumps trim pm"
  shows "(\<forall>t. distinct (pm_lru pm t) \<and>
       (\<forall>sc ts. (sc, ts) \<in> set (pm_lru pm t) \<longleftrightarrow> (\<exists>e. get_cache_entry pm ts sc = Some e \<and> pe_type e = t)) \<and>
       pm_bytes_by_type pm t =
         (\<Sum>(sc, ts)\<leftarrow>pm_lru pm t. case get_cache_entry pm ts sc of Some e \<Rightarrow> int (pe_nbytes e) | None \<Rightarrow> 0)) \<and>
     pm_n_bytes pm = (\<Sum>t\<leftarrow>cache_type_priority. pm_bytes_by_type pm t) \<and>
     ps_hits (pm_stats pm) + ps_misses (pm_stats pm) = ps_total_queries (pm_stats pm)"
proof -
  have ok: "typed_ok (pm_view pm) (pm_lru pm) (pm_bytes_by_type pm) (pm_n_bytes pm)" and st: "stats_ok (pm_stats pm)"
    using reachable_ok [OF assms] by (simp_all add: pm_ok_def)
  have E: "entry_bytes (pm_view pm) = (\<lambda>(sc, ts). case get_cache_entry pm ts sc of Some e \<Rightarrow> int (pe_nbytes e) | None \<Rightarrow> 0)"
    by (auto simp: fun_eq_iff entry_bytes_def pm_view_def split: option.split)
  have "pm_bytes_by_type pm t =
      (\<Sum>(sc, ts)\<leftarrow>pm_lru pm t. case get_cache_entry pm ts sc of Some e \<Rightarrow> int (pe_nbytes e) | None \<Rightarrow> 0)" for t
    using typed_ok_bytes [OF ok, of t] unfolding bucket_bytes_def E .
  moreover have "(sc, ts) \<in> set (pm_lru pm t) \<longleftrightarrow> (\<exists>e. get_cache_entry pm ts sc = Some e \<and> pe_type e = t)" for t sc ts
    using typed_ok_in [OF ok, of "(sc, ts)" t] by (auto simp: pm_view_def)
  moreover have "pm_n_bytes pm = (\<Sum>t\<leftarrow>cache_type_priority. pm_bytes_by_type pm t)"
    using typed_ok_total [OF ok] by (simp add: cache_type_priority_def)
  ultimately show ?thesis using typed_ok_distinct [OF ok] st by (simp add: stats_ok_def)
qed

theorem prefix_books_balance_witness:
  "pm_n_bytes demo_prefix = (\<Sum>t\<leftarrow>cache_type_priority. pm_bytes_by_type demo_prefix t)"
  using prefix_books_balance [OF demo_reachable] by blast

text \<open>
  The limits hold at every call boundary: never more cached sequences than \<open>max_size\<close>, never more
  bytes than \<open>max_bytes\<close> (for limits that are not negative).
\<close>

lemma prefix_limits_hold:
  assumes "prefix_reachable rp dumps trim pm" "0 \<le> pm_max_size pm"
  shows "int (prefix_len pm) \<le> pm_max_size pm \<and> (\<forall>b \<ge> 0. pm_max_bytes pm = Some b \<longrightarrow> pm_n_bytes pm \<le> b)"
  using reachable_ok [OF assms(1)] assms(2) by (simp add: within_limits_def prefix_len_def)

text \<open>
  Eviction follows the types: when an entry is evicted it is the least recently used one of the first
  type, in the order assistant, user, system, that has any; its bytes are given back and every other cached
  sequence stays as it was.  It does nothing only when the cache is empty.
\<close>

lemma eviction_follows_priority:
  assumes "prefix_reachable rp dumps trim pm" "evict_lru pm = (evicted, pm')"
  shows "if evicted then
       \<exists>t sc ts e. pm_lru pm t \<noteq> [] \<and> hd (pm_lru pm t) = (sc, ts) \<and> (\<forall>s < t. pm_lru pm s = []) \<and>
         get_cache_entry pm ts sc = Some e \<and> pm_n_bytes pm' = pm_n_bytes pm - int (pe_nbytes e) \<and>
         (\<forall>sc' ts'. get_cache_entry pm' ts' sc' = (if (sc', ts') = (sc, ts) then None else get_cache_entry pm ts' sc'))
     else pm' = pm \<and> prefix_len pm = 0"
proof -
  have ok: "pm_ok pm" using reachable_ok [OF assms(1)] ..
  show ?thesis
  proof (cases "victim (pm_lru pm)")
    case None
    then have "evict_lru pm = (False, pm)" using evict_lru_spec [OF ok] by simp
    then show ?thesis using assms(2) None by (simp add: victim_None_iff prefix_len_def total_lru_size_def)
  next
    case (Some p)
    obtain t sc ts where p: "p = (t, (sc, ts))" by (cases p) auto
    obtain n pm1 where e: "evict_lru pm = (True, pm1)" "pm_view pm (sc, ts) = Some (t, n)" "pm_n_bytes pm1 = pm_n_bytes pm - int n"
      "\<forall>sc' ts'. get_cache_entry pm1 ts' sc' = (if (sc', ts') = (sc, ts) then None else get_cache_entry pm ts' sc')"
      using evict_lru_spec [OF ok] unfolding Some p option.case prod.case by blast
    obtain ent where "get_cache_entry pm ts sc = Some ent" "pe_nbytes ent = n" using e(2) by (auto simp: pm_view_def)
    moreover obtain ks where "pm_lru pm t = (sc, ts) # ks" "\<forall>s < t. pm_lru pm s = []"
      using victim_SomeD [of "pm_lru pm" t "(sc, ts)"] Some p by blast
    moreover have "evicted = True" "pm' = pm1" using e(1) assms(2) by simp_all
    ultimately show ?thesis using e(3,4)
      by (simp only: if_True) (intro exI [of _ t] exI [of _ sc] exI [of _ ts] exI [of _ ent]; simp)
  qed
qed

text \<open>
  C29. A fetch serves from what is cached in the request's scope and changes none of it: the entry of exactly
  these tokens; or an entry of a proper beginning of them after which nothing cached goes on with the next
  token, with the other tokens left to do; or the shortest cached extension, trimmed back to the request,
  never for a cache with cumulative layers or one that cannot be trimmed.  A miss leaves all tokens to do,
  and happens only when the tokens are not cached, no extension is cached that can be trimmed, and every
  cached beginning is the beginning of something that goes on with the next token.
\<close>

theorem fetch_serves_cached_prefix:
  assumes "prefix_reachable rp dumps trim pm" "fetch_cache rp dumps trim pm tokens extra = (ans, pm')"
  shows "served trim (\<lambda>ts. get_cache_entry pm ts (scoped_model_key rp dumps pm extra)) tokens ans \<and>
    (\<forall>ts sc. get_cache_entry pm' ts sc = get_cache_entry pm ts sc)"
proof -
  have ok: "pm_ok pm" using reachable_ok [OF assms(1)] ..
  note F = fetch_forms [OF ok assms(2)]
  from conjunct2 [OF F] have "get_cache_entry pm' = get_cache_entry pm" by (elim disjE exE conjE) (simp_all only: count_frame)
  then show ?thesis using conjunct1 [OF F] by simp
qed

theorem fetch_serves_cached_prefix_witness:
  "served (\<lambda>_ l. l) (\<lambda>ts. get_cache_entry demo_prefix ts (''m'', None)) [1, 7] (Some [demo_layer], [7])"
proof -
  let ?f = "fetch_cache (\<lambda>_. []) (\<lambda>_. None) (\<lambda>_ l. l) demo_prefix [1, 7] PyNone"
  have "fst ?f = (Some [demo_layer], [7])"
    by (simp add: fetch_cache_def Let_def demo_scope demo_entries entry_at_def matched_def)
  then have e: "?f = ((Some [demo_layer], [7]), snd ?f)" by (simp add: prod_eq_iff)
  show ?thesis using conjunct1 [OF fetch_serves_cached_prefix [OF demo_reachable e]] unfolding demo_scope .
qed

lemma length_push_le: "length (bucket_push k ks) \<le> Suc (length ks)"
  by (simp add: bucket_push_def)

lemma write_entry_room:
  "total_lru_size (write_entry k layers t pm) \<le> Suc (total_lru_size pm)"
  "pm_n_bytes (write_entry k layers t pm) \<le> pm_n_bytes pm + int (estimate_kv_cache_memory layers)"
proof -
  have "length (pm_lru (forget_entry k pm) s) \<le> length (pm_lru pm s)" for s
    by (simp add: forget_entry_def remove_from_all_lru_def bucket_remove_def split: option.split)
  then have "total_size (pm_lru (forget_entry k pm)) \<le> total_size (pm_lru pm)" unfolding total_size_eq by (intro add_mono)
  moreover have "total_size (pm_lru (write_entry k layers t pm)) \<le> Suc (total_size (pm_lru (forget_entry k pm)))"
    using total_size_upd [of "pm_lru (forget_entry k pm)" t "bucket_push k (pm_lru (forget_entry k pm) t)"]
      length_push_le [of k "pm_lru (forget_entry k pm) t"] unfolding write_entry_books [THEN conjunct1] by linarith
  ultimately show "total_lru_size (write_entry k layers t pm) \<le> Suc (total_lru_size pm)" by (simp add: total_lru_size_def)
  show "pm_n_bytes (write_entry k layers t pm) \<le> pm_n_bytes pm + int (estimate_kv_cache_memory layers)"
    using write_entry_books [of k layers t pm]
    by (simp add: forget_entry_def remove_from_all_lru_def split: option.split)
qed

text \<open>
  C30. Stored when there is room for one more sequence and its bytes, a prompt cache is what the next fetch of
  the same tokens in the same scope returns, whole and with nothing left to do, and every other cached
  sequence is kept.
\<close>

theorem store_then_fetch:
  assumes "prefix_reachable rp dumps trim pm" "tokens \<noteq> []" "int (prefix_len pm) < pm_max_size pm"
    "\<And>b. pm_max_bytes pm = Some b \<Longrightarrow> pm_n_bytes pm + int (estimate_kv_cache_memory layers) \<le> b"
  shows "let pm' = store_cache rp dumps pm tokens layers ct extra; sc = scoped_model_key rp dumps pm extra
     in fst (fetch_cache rp dumps trim pm' tokens extra) = (Some layers, []) \<and>
        (\<forall>ts sc'. (sc', ts) \<noteq> (sc, tokens) \<longrightarrow> get_cache_entry pm' ts sc' = get_cache_entry pm ts sc')"
proof -
  define sc where "sc = scoped_model_key rp dumps pm extra"
  define w where "w = write_entry (sc, tokens) layers (cache_type_of ct) pm"
  have "evict_to_limits w = w" unfolding w_def
  proof (rule evict_to_limits_room)
    show "int (total_lru_size (write_entry (sc, tokens) layers (cache_type_of ct) pm)) \<le>
        pm_max_size (write_entry (sc, tokens) layers (cache_type_of ct) pm)"
      using write_entry_room(1) [of "(sc, tokens)" layers "cache_type_of ct" pm] assms(3)
      by (simp add: write_entry_frame prefix_len_def)
    show "pm_n_bytes (write_entry (sc, tokens) layers (cache_type_of ct) pm) \<le> b"
      if "pm_max_bytes (write_entry (sc, tokens) layers (cache_type_of ct) pm) = Some b" for b
      using write_entry_room(2) [of "(sc, tokens)" layers "cache_type_of ct" pm] assms(4) [of b] that
      by (simp add: write_entry_frame)
  qed
  then have st: "store_cache rp dumps pm tokens layers ct extra = w" using assms(2) by (simp add: store_cache_def w_def sc_def)
  have ok: "pm_ok w" using pm_ok_write [of pm "(sc, tokens)"] reachable_ok [OF assms(1)] assms(2) by (simp add: w_def)
  have scw: "scoped_model_key rp dumps w extra = sc" by (simp add: w_def sc_def scoped_model_key_def write_entry_frame)
  have e: "get_cache_entry w tokens sc = Some (written_entry (sc, tokens) layers (cache_type_of ct) pm)"
    by (simp add: w_def get_entry_write)
  have go: "\<not> (\<forall>us. get_cache_entry w (take (Suc k) tokens @ us) sc = None)" for k
    using e by (metis append_take_drop_id option.distinct(1))
  obtain ans pm2 where f: "fetch_cache rp dumps trim w tokens extra = (ans, pm2)" by fastforce
  have "ans = (Some layers, [])"
    using conjunct1 [OF fetch_forms [OF ok f]] unfolding scw served_def
    by (simp only: e go split: prod.splits option.splits) (auto simp: written_entry_def)
  then have "fst (fetch_cache rp dumps trim w tokens extra) = (Some layers, [])" by (simp add: f)
  moreover have "get_cache_entry w ts sc' = get_cache_entry pm ts sc'" if "(sc', ts) \<noteq> (sc, tokens)" for ts sc'
    using that by (auto simp: w_def get_entry_write)
  ultimately show ?thesis unfolding st Let_def by (fold sc_def) blast
qed

theorem store_then_fetch_witness:
  "fst (fetch_cache (\<lambda>_. []) (\<lambda>_. None) (\<lambda>_ l. l)
     (store_cache (\<lambda>_. []) (\<lambda>_. None) demo_prefix [4, 5] [demo_layer] ''user'' PyNone) [4, 5] PyNone) = (Some [demo_layer], [])"
proof -
  have "prefix_len demo_prefix = 2" by (simp add: prefix_len_def total_lru_size_def total_size_eq demo_prefix_sel)
  moreover have "estimate_kv_cache_memory [demo_layer] = 16" by (simp add: demo_layer_def opt_bytes_def)
  ultimately show ?thesis
    using store_then_fetch [OF demo_reachable, of "[4, 5]" "[demo_layer]" "''user''" PyNone]
    by (simp add: demo_prefix_sel Let_def)
qed

text \<open>
  A cached beginning of the prompt is missed when a longer cached sequence branches off between it and
  the point where the prompt leaves the trie: the walk looks for an entry only at the node where it fails.
  So after caching a prompt \<open>[1]\<close> and a conversation \<open>[1, 2, 3]\<close>, a request \<open>[1, 2, 7]\<close> is a miss.
\<close>

lemma ancestor_behind_fork_is_missed:
  assumes "prefix_reachable rp dumps trim pm" "i < j" "j < length tokens"
    "get_cache_entry pm (take i tokens) (scoped_model_key rp dumps pm extra) \<noteq> None"
    "get_cache_entry pm (take j tokens) (scoped_model_key rp dumps pm extra) = None"
    "get_cache_entry pm (take j tokens @ us) (scoped_model_key rp dumps pm extra) \<noteq> None"
    "\<And>vs. get_cache_entry pm (take (Suc j) tokens @ vs) (scoped_model_key rp dumps pm extra) = None"
  shows "fst (fetch_cache rp dumps trim pm tokens extra) = (None, tokens)"
proof -
  let ?E = "\<lambda>ts. get_cache_entry pm ts (scoped_model_key rp dumps pm extra)"
  have ok: "pm_ok pm" using reachable_ok [OF assms(1)] ..
  obtain ans pm' where f: "fetch_cache rp dumps trim pm tokens extra = (ans, pm')" by fastforce
  have s: "served trim ?E tokens ans" by (rule conjunct1 [OF fetch_forms [OF ok f]])
  have out: "?E (tokens @ vs) = None" for vs using assms(7) [of "drop (Suc j) tokens @ vs"] by (simp flip: append_assoc)
  have no: "False" if k: "k < length tokens" "?E (take k tokens) \<noteq> None" "\<forall>us. ?E (take (Suc k) tokens @ us) = None" for k
  proof (cases "k < j")
    case True
    then have "take (Suc k) tokens @ drop (Suc k) (take j tokens) = take j tokens"
      by (metis Suc_leI append_take_drop_id min.absorb1 take_take)
    then have "take (Suc k) tokens @ (drop (Suc k) (take j tokens) @ us) = take j tokens @ us" by (simp flip: append_assoc)
    then show False using k(3) assms(6) by metis
  next
    case False
    then consider "k = j" | "Suc j \<le> k" by linarith
    then show False
    proof cases
      case 2
      then have "take (Suc j) tokens @ drop (Suc j) (take k tokens) = take k tokens"
        by (metis append_take_drop_id min.absorb1 take_take)
      then show False using k(2) assms(7) by metis
    qed (use k(2) assms(5) in simp)
  qed
  obtain a rest where ans: "ans = (a, rest)" by (cases ans)
  show ?thesis
  proof (cases a)
    case None
    then show ?thesis using s by (simp add: served_def ans f)
  next
    case (Some layers)
    then show ?thesis using s out [of "[]"] out no unfolding served_def ans Some prod.case option.case by auto
  qed
qed

end
