(* ===== verification/Memory_Cache.thy ===== *)
theory Memory_Cache
  imports Typed_Lru Cache_Layers Cache_Key
begin

text \<open>
  \<open>MemoryAwarePrefixCache\<close> (\<open>vmlx_engine/memory_cache.py\<close>): a flat dictionary of prompt caches under a byte
  budget that shrinks with the memory pressure of the machine, with typed recency, expiry and fetches that
  clone outside the lock.  A fetch is its two critical sections, with the clone between them; the clone and
  the truncation work on tensors and are parameters.
\<close>

section \<open>State\<close>

text \<open>A key: the tokens alone, or with the request discriminator.\<close>

datatype mem_key = Plain "int list" | Extra string "int list"

record 'b mem_entry =
  me_id :: nat
  me_tokens :: "int list"
  me_cache :: "'b cache_layer list"
  me_bytes :: nat
  me_last_accessed :: real
  me_type :: cache_type

record mem_stats =
  ms_hits :: nat
  ms_misses :: nat
  ms_evictions :: nat
  ms_tokens_saved :: nat
  ms_current :: int
  ms_max :: int
  ms_entry_count :: nat

record 'b mem_cache =
  mc_entries :: "(mem_key, 'b mem_entry) pydict"
  mc_lru :: "mem_key buckets"
  mc_bytes_by_type :: "cache_type \<Rightarrow> int"
  mc_base_limit :: int
  mc_max_memory :: int
  mc_current :: int
  mc_last_check :: real
  mc_ttl :: real
  mc_max_entries :: nat
  mc_stats :: mem_stats
  mc_next_id :: nat

definition fresh_mem_stats :: "int \<Rightarrow> mem_stats" where
  "fresh_mem_stats limit = \<lparr>ms_hits = 0, ms_misses = 0, ms_evictions = 0, ms_tokens_saved = 0, ms_current = 0,
     ms_max = limit, ms_entry_count = 0\<rparr>"

text \<open>The configuration's check, and a new cache: \<open>limit\<close> is what \<open>compute_memory_limit\<close> answered.\<close>

definition mem_config_ok :: "real \<Rightarrow> int \<Rightarrow> real \<Rightarrow> unit may_raise" where
  "mem_config_ok percent max_entries ttl_minutes =
     (if \<not> (0 < percent \<and> percent \<le> 1) then Inl ValueError
      else if max_entries < 1 then Inl ValueError
      else if ttl_minutes < 0 then Inl ValueError
      else Inr ())"

definition new_mem_cache :: "int \<Rightarrow> nat \<Rightarrow> real \<Rightarrow> real \<Rightarrow> 'b mem_cache" where
  "new_mem_cache limit max_entries ttl_minutes now =
     \<lparr>mc_entries = [], mc_lru = (\<lambda>_. []), mc_bytes_by_type = (\<lambda>_. 0), mc_base_limit = limit, mc_max_memory = limit,
      mc_current = 0, mc_last_check = now, mc_ttl = (if ttl_minutes > 0 then ttl_minutes * 60 else 0),
      mc_max_entries = max_entries, mc_stats = fresh_mem_stats limit, mc_next_id = 0\<rparr>"

definition mem_entry_key ::
  "(pyval \<Rightarrow> string) \<Rightarrow> (pyval \<Rightarrow> string option) \<Rightarrow> int list \<Rightarrow> pyval \<Rightarrow> mem_key" where
  "mem_entry_key rp dumps tokens extra =
     (case canonical_cache_extra_marker rp dumps extra of None \<Rightarrow> Plain tokens | Some m \<Rightarrow> Extra m tokens)"

fun mem_key_parts :: "mem_key \<Rightarrow> string option \<times> int list" where
  "mem_key_parts (Plain ts) = (None, ts)"
| "mem_key_parts (Extra m ts) = (Some m, ts)"

text \<open>The machine: binary floating point, and what \<open>psutil\<close> answers (\<open>None\<close> when it cannot).\<close>

record mem_env =
  env_entry_cap :: "int \<Rightarrow> int"
  env_low :: "int \<Rightarrow> int \<Rightarrow> bool"
  env_vm :: "(int \<times> int) option"

definition bytes_per_mb :: int where "bytes_per_mb = 1024 * 1024"
definition min_memory_bytes :: int where "min_memory_bytes = 100 * bytes_per_mb"
definition pressure_check_interval :: real where "pressure_check_interval = 60"

text \<open>
  The limit of a new cache.  The Metal counters are the bytes held (absent or not) and the working set, or
  \<open>None\<close> when they cannot be read; \<open>scale\<close> is \<open>int(x * max_memory_percent)\<close>.
\<close>

definition resolve_cache_memory_ceiling :: "(int option \<times> int) option \<Rightarrow> int" where
  "resolve_cache_memory_ceiling metal =
     (case metal of
        None \<Rightarrow> 32 * 1024 * bytes_per_mb
      | Some (held, ws) \<Rightarrow>
          if ws > 0 then max (ws - max 0 (case held of None \<Rightarrow> 0 | Some a \<Rightarrow> a)) (512 * bytes_per_mb)
          else 32 * 1024 * bytes_per_mb)"

definition compute_memory_limit :: "(int option \<times> int) option \<Rightarrow> int option \<Rightarrow> (int \<Rightarrow> int) \<Rightarrow> int \<Rightarrow> int" where
  "compute_memory_limit metal max_mb scale available =
     (let ceiling = resolve_cache_memory_ceiling metal
      in case max_mb of
           Some mb \<Rightarrow> min (mb * bytes_per_mb) ceiling
         | None \<Rightarrow>
             if available > 0 then max (min (scale available) ceiling) min_memory_bytes
             else max (min (scale (4 * 1024 * bytes_per_mb)) ceiling) min_memory_bytes)"

text \<open>The paged cache's budget, and whether a zero was asked for.\<close>

definition resolve_paged_resident_policy ::
  "(int option \<times> int) option \<Rightarrow> int option \<Rightarrow> (int \<Rightarrow> int) \<Rightarrow> int \<Rightarrow> bool \<Rightarrow> int \<times> bool" where
  "resolve_paged_resident_policy metal max_mb scale available disk_only =
     (if disk_only then (0, False) else (compute_memory_limit metal max_mb scale available, max_mb = Some 0))"

lemma memory_limit_nonneg:
  "(case max_mb of Some mb \<Rightarrow> 0 \<le> mb | None \<Rightarrow> True) \<Longrightarrow> 0 \<le> compute_memory_limit metal max_mb scale available"
  by (auto simp: compute_memory_limit_def resolve_cache_memory_ceiling_def Let_def bytes_per_mb_def min_memory_bytes_def
    split: option.split)

section \<open>Eviction and expiry\<close>

definition upd_mem_stats :: "(mem_stats \<Rightarrow> mem_stats) \<Rightarrow> 'b mem_cache \<Rightarrow> 'b mem_cache" where
  "upd_mem_stats f s = s\<lparr>mc_stats := f (mc_stats s)\<rparr>"

text \<open>Take an entry's bytes and one eviction off the books.\<close>

definition account_removed :: "'b mem_entry \<Rightarrow> 'b mem_cache \<Rightarrow> 'b mem_cache" where
  "account_removed e s =
     s\<lparr>mc_current := max 0 (mc_current s - int (me_bytes e)),
       mc_bytes_by_type := (mc_bytes_by_type s)(me_type e := max 0 (mc_bytes_by_type s (me_type e) - int (me_bytes e))),
       mc_stats := (mc_stats s)\<lparr>ms_evictions := ms_evictions (mc_stats s) + 1\<rparr>\<rparr>"

definition sync_stats :: "'b mem_cache \<Rightarrow> 'b mem_cache" where
  "sync_stats s = s\<lparr>mc_stats := (mc_stats s)\<lparr>ms_entry_count := length (mc_entries s), ms_current := mc_current s\<rparr>\<rparr>"

definition mem_evict_lru :: "'b mem_cache \<Rightarrow> bool \<times> 'b mem_cache" where
  "mem_evict_lru s =
     (if mc_entries s = [] then (False, s)
      else
        (let (k, s1) = (case victim (mc_lru s) of
               Some (t, k) \<Rightarrow> (k, s\<lparr>mc_lru := (mc_lru s)(t := tl (mc_lru s t))\<rparr>)
             | None \<Rightarrow> (fst (hd (mc_entries s)), s))
         in case pd_get (mc_entries s1) k of
              None \<Rightarrow> (False, s1)
            | Some e \<Rightarrow> (True, sync_stats (account_removed e (s1\<lparr>mc_entries := pd_del (mc_entries s1) k\<rparr>)))))"

definition drop_entry :: "mem_key \<Rightarrow> 'b mem_cache \<Rightarrow> 'b mem_cache" where
  "drop_entry k s =
     (case pd_get (mc_entries s) k of
        None \<Rightarrow> s
      | Some e \<Rightarrow> account_removed e (s\<lparr>mc_lru := (mc_lru s)(me_type e := bucket_remove k (mc_lru s (me_type e))),
          mc_entries := pd_del (mc_entries s) k\<rparr>))"

definition expired_keys :: "real \<Rightarrow> 'b mem_cache \<Rightarrow> mem_key list" where
  "expired_keys now s = map fst (filter (\<lambda>(k, e). now - me_last_accessed e > mc_ttl s) (mc_entries s))"

definition evict_expired :: "real \<Rightarrow> 'b mem_cache \<Rightarrow> nat \<times> 'b mem_cache" where
  "evict_expired now s =
     (if mc_ttl s \<le> 0 then (0, s)
      else (let ks = expired_keys now s; s1 = fold drop_entry ks s
            in (length ks, if ks \<noteq> [] then sync_stats s1 else s1)))"

definition check_memory_pressure :: "mem_env \<Rightarrow> real \<Rightarrow> 'b mem_cache \<Rightarrow> 'b mem_cache" where
  "check_memory_pressure env now s =
     (if now - mc_last_check s < pressure_check_interval then s
      else
        (let s1 = s\<lparr>mc_last_check := now\<rparr>
         in case env_vm env of
              None \<Rightarrow> s1
            | Some (available, tot) \<Rightarrow>
                if tot > 0 \<and> env_low env available tot then
                  (let reduced = max (available div 2) min_memory_bytes
                   in if reduced < mc_max_memory s1
                      then upd_mem_stats (\<lambda>st. st\<lparr>ms_max := reduced\<rparr>) (s1\<lparr>mc_max_memory := reduced\<rparr>) else s1)
                else if mc_max_memory s1 < mc_base_limit s1
                then upd_mem_stats (\<lambda>st. st\<lparr>ms_max := mc_base_limit s1\<rparr>) (s1\<lparr>mc_max_memory := mc_base_limit s1\<rparr>)
                else s1))"

lemma mem_evict_less: "mem_evict_lru s = (True, s') \<Longrightarrow> length (mc_entries s') < length (mc_entries s)"
  by (auto simp: mem_evict_lru_def sync_stats_def account_removed_def Let_def pd_get_Some_in_keys
    split: if_splits option.splits prod.splits intro!: length_pd_del_less)

text \<open>Evict until the new entry fits.\<close>

function make_room :: "nat \<Rightarrow> 'b mem_cache \<Rightarrow> 'b mem_cache" where
  "make_room n s =
     (if (mc_current s + int n > mc_max_memory s \<or> length (mc_entries s) \<ge> mc_max_entries s) \<and> mc_entries s \<noteq> [] then
        (case mem_evict_lru s of (False, s') \<Rightarrow> s' | (True, s') \<Rightarrow> make_room n s')
      else s)"
  by pat_completeness auto
termination
  by (relation "measure (\<lambda>(_, s). length (mc_entries s))") (auto dest: mem_evict_less [OF sym])

declare make_room.simps [simp del]

section \<open>Store and remove\<close>

text \<open>\<open>d[k] = True\<close> on a bucket.\<close>

definition bucket_set :: "'k \<Rightarrow> 'k list \<Rightarrow> 'k list" where
  "bucket_set k d = (if k \<in> set d then d else d @ [k])"

text \<open>A sequence stored again: it becomes the most recent, and its type may only rise.\<close>

definition refresh_entry :: "mem_key \<Rightarrow> cache_type \<Rightarrow> 'b mem_entry \<Rightarrow> 'b mem_cache \<Rightarrow> 'b mem_cache" where
  "refresh_entry k t old s =
     (let s1 = s\<lparr>mc_entries := pd_move_to_end (mc_entries s) k\<rparr>;
          t0 = me_type old;
          s2 = (if t > t0 then
                  (let by1 = (mc_bytes_by_type s1)(t0 := max 0 (mc_bytes_by_type s1 t0 - int (me_bytes old)))
                   in s1\<lparr>mc_bytes_by_type := by1(t := by1 t + int (me_bytes old)),
                         mc_lru := (mc_lru s1)(t0 := bucket_remove k (mc_lru s1 t0)),
                         mc_entries := pd_set (mc_entries s1) k (old\<lparr>me_type := t\<rparr>)\<rparr>)
                else s1);
          t' = max t t0
      in s2\<lparr>mc_lru := (mc_lru s2)(t' := bucket_push k (mc_lru s2 t'))\<rparr>)"

definition insert_entry :: "mem_key \<Rightarrow> 'b mem_entry \<Rightarrow> 'b mem_cache \<Rightarrow> 'b mem_cache" where
  "insert_entry k e s =
     sync_stats (s\<lparr>mc_entries := pd_set (mc_entries s) k e, mc_current := mc_current s + int (me_bytes e),
       mc_bytes_by_type := (mc_bytes_by_type s)(me_type e := mc_bytes_by_type s (me_type e) + int (me_bytes e)),
       mc_lru := (mc_lru s)(me_type e := bucket_set k (mc_lru s (me_type e))), mc_next_id := Suc (me_id e)\<rparr>)"

definition mem_store ::
  "(pyval \<Rightarrow> string) \<Rightarrow> (pyval \<Rightarrow> string option) \<Rightarrow> mem_env \<Rightarrow> real \<Rightarrow> 'b mem_cache \<Rightarrow> int list \<Rightarrow> 'b cache_layer list \<Rightarrow>
   string \<Rightarrow> pyval \<Rightarrow> bool \<times> 'b mem_cache" where
  "mem_store rp dumps env now s tokens layers ct extra =
     (if tokens = [] \<or> layers = [] then (False, s)
      else
        (let s1 = check_memory_pressure env now s;
             k = mem_entry_key rp dumps tokens extra;
             t = cache_type_of ct
         in case pd_get (mc_entries s1) k of
              Some old \<Rightarrow> (True, refresh_entry k t old s1)
            | None \<Rightarrow>
                (let s2 = (if mc_ttl s1 > 0 then snd (evict_expired now s1) else s1);
                     e = \<lparr>me_id = mc_next_id s2, me_tokens = tokens, me_cache = layers,
                          me_bytes = estimate_kv_cache_memory layers, me_last_accessed = now, me_type = t\<rparr>
                 in if int (me_bytes e) > env_entry_cap env (mc_max_memory s2) then (False, s2)
                    else (True, insert_entry k e (make_room (me_bytes e) s2)))))"

definition mem_remove ::
  "(pyval \<Rightarrow> string) \<Rightarrow> (pyval \<Rightarrow> string option) \<Rightarrow> 'b mem_cache \<Rightarrow> int list \<Rightarrow> pyval \<Rightarrow> bool \<times> 'b mem_cache" where
  "mem_remove rp dumps s tokens extra =
     (let k = mem_entry_key rp dumps tokens extra
      in if pd_get (mc_entries s) k = None then (False, s) else (True, sync_stats (drop_entry k s)))"

definition mem_reset_stats :: "'b mem_cache \<Rightarrow> 'b mem_cache" where
  "mem_reset_stats s = s\<lparr>mc_stats := (fresh_mem_stats (mc_max_memory s))
     \<lparr>ms_current := mc_current s, ms_entry_count := length (mc_entries s)\<rparr>\<rparr>"

definition mem_clear :: "'b mem_cache \<Rightarrow> 'b mem_cache" where
  "mem_clear s = s\<lparr>mc_entries := [], mc_lru := (\<lambda>_. []), mc_bytes_by_type := (\<lambda>_. 0), mc_current := 0,
     mc_stats := fresh_mem_stats (mc_max_memory s)\<rparr>"

definition mem_len :: "'b mem_cache \<Rightarrow> nat" where
  "mem_len s = length (mc_entries s)"

definition mem_contains :: "'b mem_cache \<Rightarrow> int list \<Rightarrow> bool" where
  "mem_contains s tokens \<longleftrightarrow> pd_get (mc_entries s) (Plain tokens) \<noteq> None"

text \<open>\<open>get_stats\<close> (exact ratios where the code rounds them) and the derived figures.\<close>

definition mem_hit_rate :: "mem_stats \<Rightarrow> rat" where
  "mem_hit_rate st = (if ms_hits st + ms_misses st > 0 then of_nat (ms_hits st) / of_nat (ms_hits st + ms_misses st) else 0)"

definition memory_utilization :: "mem_stats \<Rightarrow> rat" where
  "memory_utilization st = (if ms_max st = 0 then 0 else of_int (ms_current st) / of_int (ms_max st))"

definition memory_usage_mb :: "'b mem_cache \<Rightarrow> rat" where
  "memory_usage_mb s = of_int (mc_current s) / of_int bytes_per_mb"

definition memory_limit_mb :: "'b mem_cache \<Rightarrow> rat" where
  "memory_limit_mb s = of_int (mc_max_memory s) / of_int bytes_per_mb"

section \<open>Fetch\<close>

text \<open>The scan over the entries in order: the best forward match and the first reverse match so far.\<close>

fun scan_matches ::
  "string option \<Rightarrow> int list \<Rightarrow> (mem_key \<times> 'b mem_entry) list \<Rightarrow> ('b mem_entry \<times> nat) option \<Rightarrow> 'b mem_entry option \<Rightarrow>
   ('b mem_entry \<times> nat) option \<times> 'b mem_entry option" where
  "scan_matches m tokens [] fwd bwd = (fwd, bwd)"
| "scan_matches m tokens ((k, e) # items) fwd bwd =
     (let (m', ts) = mem_key_parts k; best = (case fwd of None \<Rightarrow> 0 | Some (_, n) \<Rightarrow> n)
      in if m' \<noteq> m then scan_matches m tokens items fwd bwd
         else if length ts < length tokens then
           (if length ts > best \<and> take (length ts) tokens = ts then scan_matches m tokens items (Some (e, length ts)) bwd
            else scan_matches m tokens items fwd bwd)
         else if length ts > length tokens then
           (if bwd = None \<and> take (length tokens) ts = tokens then scan_matches m tokens items fwd (Some e)
            else scan_matches m tokens items fwd bwd)
         else scan_matches m tokens items fwd bwd)"

text \<open>What the first critical section hands on: the hit, its key and length, whether it is forward, and the fallback.\<close>

record 'b mem_match =
  mm_hit :: "('b mem_entry \<times> mem_key \<times> nat \<times> bool) option"
  mm_reverse :: "'b mem_entry option"

definition fetch_match ::
  "(pyval \<Rightarrow> string) \<Rightarrow> (pyval \<Rightarrow> string option) \<Rightarrow> real \<Rightarrow> 'b mem_cache \<Rightarrow> int list \<Rightarrow> pyval \<Rightarrow>
   'b mem_match option \<times> 'b mem_cache" where
  "fetch_match rp dumps now s tokens extra =
     (let s1 = (if mc_ttl s > 0 then snd (evict_expired now s) else s);
          k = mem_entry_key rp dumps tokens extra
      in case pd_get (mc_entries s1) k of
           Some e \<Rightarrow> (Some \<lparr>mm_hit = Some (e, k, length tokens, False), mm_reverse = None\<rparr>, s1)
         | None \<Rightarrow>
             (let (fwd, bwd) = scan_matches (canonical_cache_extra_marker rp dumps extra) tokens (mc_entries s1) None None
              in if fwd = None \<and> bwd = None then
                   (None, upd_mem_stats (\<lambda>st. st\<lparr>ms_misses := ms_misses st + 1\<rparr>) s1)
                 else (Some \<lparr>mm_hit = map_option (\<lambda>(e, n). (e, mem_entry_key rp dumps (me_tokens e) extra, n, True)) fwd,
                             mm_reverse = bwd\<rparr>, s1)))"

text \<open>The clone, outside the lock: the layers, the entry they come from, the length served and the rest.\<close>

definition clone_match ::
  "(pyval \<Rightarrow> string) \<Rightarrow> (pyval \<Rightarrow> string option) \<Rightarrow> ('b cache_layer list \<Rightarrow> nat \<Rightarrow> 'b cache_layer list option) \<Rightarrow>
   ('b cache_layer list \<Rightarrow> nat \<Rightarrow> 'b cache_layer list option) \<Rightarrow> int list \<Rightarrow> pyval \<Rightarrow> 'b mem_match \<Rightarrow>
   ('b cache_layer list \<times> nat \<times> mem_key \<times> nat \<times> int list) option" where
  "clone_match rp dumps clone trunc tokens extra m =
     (let cut = (case mm_reverse m of
            None \<Rightarrow> None
          | Some e \<Rightarrow> map_option (\<lambda>c. (c, me_id e, mem_entry_key rp dumps (me_tokens e) extra, length tokens, []))
              (trunc (me_cache e) (length tokens)))
      in case mm_hit m of
           None \<Rightarrow> cut
         | Some (e, k, n, forward) \<Rightarrow>
             (case clone (me_cache e) n of
                Some c \<Rightarrow> Some (c, me_id e, k, n, if forward then drop n tokens else [])
              | None \<Rightarrow> cut))"

text \<open>The second critical section: an entry replaced or gone in between is left alone.\<close>

definition fetch_commit ::
  "real \<Rightarrow> int list \<Rightarrow> ('b cache_layer list \<times> nat \<times> mem_key \<times> nat \<times> int list) option \<Rightarrow> 'b mem_cache \<Rightarrow>
   ('b cache_layer list option \<times> int list) \<times> 'b mem_cache" where
  "fetch_commit now tokens r s =
     (case r of
        None \<Rightarrow> ((None, tokens), upd_mem_stats (\<lambda>st. st\<lparr>ms_misses := ms_misses st + 1\<rparr>) s)
      | Some (c, i, k, n, rest) \<Rightarrow>
          (let s1 = (case pd_get (mc_entries s) k of
                 Some e \<Rightarrow>
                   if me_id e = i then
                     s\<lparr>mc_entries := pd_set (pd_move_to_end (mc_entries s) k) k (e\<lparr>me_last_accessed := now\<rparr>),
                       mc_lru := (mc_lru s)(me_type e := bucket_push k (mc_lru s (me_type e)))\<rparr>
                   else s
               | None \<Rightarrow> s)
           in ((Some c, rest), upd_mem_stats (\<lambda>st. st\<lparr>ms_hits := ms_hits st + 1, ms_tokens_saved := ms_tokens_saved st + n\<rparr>) s1)))"

definition mem_fetch ::
  "(pyval \<Rightarrow> string) \<Rightarrow> (pyval \<Rightarrow> string option) \<Rightarrow> ('b cache_layer list \<Rightarrow> nat \<Rightarrow> 'b cache_layer list option) \<Rightarrow>
   ('b cache_layer list \<Rightarrow> nat \<Rightarrow> 'b cache_layer list option) \<Rightarrow> real \<Rightarrow> real \<Rightarrow> 'b mem_cache \<Rightarrow> int list \<Rightarrow> pyval \<Rightarrow>
   ('b cache_layer list option \<times> int list) \<times> 'b mem_cache" where
  "mem_fetch rp dumps clone trunc now now' s tokens extra =
     (if tokens = [] then ((None, tokens), upd_mem_stats (\<lambda>st. st\<lparr>ms_misses := ms_misses st + 1\<rparr>) s)
      else
        (case fetch_match rp dumps now s tokens extra of
           (None, s1) \<Rightarrow> ((None, tokens), s1)
         | (Some m, s1) \<Rightarrow> fetch_commit now' tokens (clone_match rp dumps clone trunc tokens extra m) s1))"

end
