(* ===== verification/Memory_Inv.thy ===== *)
theory Memory_Inv
  imports Memory_Cache
begin

text \<open>
  The books of \<open>MemoryAwarePrefixCache\<close>: what every operation of \<open>Memory_Cache\<close> keeps, in whatever order the
  critical sections run.
\<close>

section \<open>Invariant\<close>

definition mem_view :: "'b mem_cache \<Rightarrow> mem_key contents" where
  "mem_view s k = map_option (\<lambda>e. (me_type e, me_bytes e)) (pd_get (mc_entries s) k)"

definition mem_books :: "'b mem_cache \<Rightarrow> bool" where
  "mem_books s \<longleftrightarrow> pd_ok (mc_entries s) \<and> typed_ok (mem_view s) (mc_lru s) (mc_bytes_by_type s) (mc_current s) \<and>
     (\<forall>k e. pd_get (mc_entries s) k = Some e \<longrightarrow> me_id e < mc_next_id s \<and> me_tokens e = snd (mem_key_parts k))"

definition mem_synced :: "'b mem_cache \<Rightarrow> bool" where
  "mem_synced s \<longleftrightarrow> ms_entry_count (mc_stats s) = length (mc_entries s) \<and> ms_current (mc_stats s) = mc_current s \<and>
     ms_max (mc_stats s) = mc_max_memory s"

definition mem_within :: "'b mem_cache \<Rightarrow> bool" where
  "mem_within s \<longleftrightarrow> 0 \<le> mc_max_memory s \<and> mc_max_memory s \<le> mc_base_limit s \<and> mc_current s \<le> mc_base_limit s \<and>
     1 \<le> mc_max_entries s \<and> length (mc_entries s) \<le> mc_max_entries s"

definition mem_ok :: "'b mem_cache \<Rightarrow> bool" where
  "mem_ok s \<longleftrightarrow> mem_books s \<and> mem_synced s \<and> mem_within s"

lemma books_typed: "mem_books s \<Longrightarrow> typed_ok (mem_view s) (mc_lru s) (mc_bytes_by_type s) (mc_current s)"
  and books_pd: "mem_books s \<Longrightarrow> pd_ok (mc_entries s)"
  by (simp_all add: mem_books_def)

lemma view_eq: "mem_view s = (\<lambda>k. map_option (\<lambda>e. (me_type e, me_bytes e)) (pd_get (mc_entries s) k))"
  by (simp add: fun_eq_iff mem_view_def)

lemma mem_books_cong:
  "mem_books s \<Longrightarrow> mc_entries s' = mc_entries s \<Longrightarrow> mc_lru s' = mc_lru s \<Longrightarrow> mc_bytes_by_type s' = mc_bytes_by_type s \<Longrightarrow>
   mc_current s' = mc_current s \<Longrightarrow> mc_next_id s' = mc_next_id s \<Longrightarrow> mem_books s'"
  unfolding mem_books_def view_eq by simp

section \<open>Removal\<close>

text \<open>What only removes entries.\<close>

definition mem_shrunk :: "'b mem_cache \<Rightarrow> 'b mem_cache \<Rightarrow> bool" where
  "mem_shrunk s' s \<longleftrightarrow> mem_books s' \<and> mc_current s' \<le> mc_current s \<and> length (mc_entries s') \<le> length (mc_entries s) \<and>
     (\<forall>k. pd_get (mc_entries s') k = None \<or> pd_get (mc_entries s') k = pd_get (mc_entries s) k) \<and>
     mc_base_limit s' = mc_base_limit s \<and> mc_max_memory s' = mc_max_memory s \<and> mc_max_entries s' = mc_max_entries s \<and>
     mc_ttl s' = mc_ttl s \<and> mc_next_id s' = mc_next_id s \<and> ms_max (mc_stats s') = ms_max (mc_stats s)"

lemma mem_shrunk_refl: "mem_books s \<Longrightarrow> mem_shrunk s s"
  by (simp add: mem_shrunk_def)

lemma mem_shrunk_trans: "mem_shrunk a b \<Longrightarrow> mem_shrunk b c \<Longrightarrow> mem_shrunk a c"
  unfolding mem_shrunk_def by (metis (no_types, lifting) order_trans)

lemma shrunk_within: "mem_shrunk s' s \<Longrightarrow> mem_within s \<Longrightarrow> mem_within s'"
  by (auto simp: mem_shrunk_def mem_within_def)

lemma sync_frame [simp]:
  "mc_entries (sync_stats s) = mc_entries s" "mc_lru (sync_stats s) = mc_lru s" "mc_current (sync_stats s) = mc_current s"
  "mc_bytes_by_type (sync_stats s) = mc_bytes_by_type s" "mc_base_limit (sync_stats s) = mc_base_limit s"
  "mc_max_memory (sync_stats s) = mc_max_memory s" "mc_max_entries (sync_stats s) = mc_max_entries s"
  "mc_ttl (sync_stats s) = mc_ttl s" "mc_next_id (sync_stats s) = mc_next_id s" "ms_max (mc_stats (sync_stats s)) = ms_max (mc_stats s)"
  "mem_synced (sync_stats s) \<longleftrightarrow> ms_max (mc_stats s) = mc_max_memory s"
  by (simp_all add: sync_stats_def mem_synced_def)

lemma books_sync: "mem_books (sync_stats s) = mem_books s"
  by (simp add: mem_books_def mem_view_def fun_eq_iff view_eq)

lemma shrunk_sync: "mem_shrunk (sync_stats s') s = mem_shrunk s' s"
  by (simp add: mem_shrunk_def books_sync)

lemma drop_entry_eq:
  assumes "mem_books s" "pd_get (mc_entries s) k = Some e"
  shows "drop_entry k s = s\<lparr>mc_entries := pd_del (mc_entries s) k,
      mc_lru := (mc_lru s)(me_type e := bucket_remove k (mc_lru s (me_type e))),
      mc_current := mc_current s - int (me_bytes e),
      mc_bytes_by_type := (mc_bytes_by_type s)(me_type e := mc_bytes_by_type s (me_type e) - int (me_bytes e)),
      mc_stats := (mc_stats s)\<lparr>ms_evictions := ms_evictions (mc_stats s) + 1\<rparr>\<rparr>"
proof -
  have v: "mem_view s k = Some (me_type e, me_bytes e)" using assms(2) by (simp add: mem_view_def)
  show ?thesis
    using assms(2) typed_ok_clamp [OF books_typed [OF assms(1)] v] typed_ok_clamp_total [OF books_typed [OF assms(1)] v]
    by (simp add: drop_entry_def account_removed_def)
qed

lemma books_drop: "mem_books s \<Longrightarrow> mem_shrunk (drop_entry k s) s \<and> pd_get (mc_entries (drop_entry k s)) = (pd_get (mc_entries s))(k := None)"
proof (cases "pd_get (mc_entries s) k")
  case None
  assume b: "mem_books s"
  have "drop_entry k s = s" using None by (simp add: drop_entry_def)
  then show ?thesis using b None by (auto simp: mem_shrunk_refl fun_eq_iff)
next
  case (Some e)
  assume b: "mem_books s"
  note eq = drop_entry_eq [OF b Some]
  have v: "mem_view s k = Some (me_type e, me_bytes e)" using Some by (simp add: mem_view_def)
  have view: "mem_view (drop_entry k s) = (mem_view s)(k := None)" by (simp add: eq view_eq fun_eq_iff)
  have "typed_ok (mem_view (drop_entry k s)) (mc_lru (drop_entry k s)) (mc_bytes_by_type (drop_entry k s)) (mc_current (drop_entry k s))"
    unfolding view using typed_ok_delete [OF books_typed [OF b] v] by (simp add: eq)
  then have "mem_books (drop_entry k s)" using b by (simp add: mem_books_def) (simp add: eq)
  then show ?thesis using length_pd_del_le [of "mc_entries s" k] by (simp add: mem_shrunk_def) (simp add: eq)
qed

text \<open>Eviction is the removal of the victim.\<close>

lemma mem_evict_spec:
  assumes b: "mem_books s" and ne: "mc_entries s \<noteq> []"
  obtains t k e where "victim (mc_lru s) = Some (t, k)" "pd_get (mc_entries s) k = Some e" "me_type e = t"
    "mem_evict_lru s = (True, sync_stats (drop_entry k s))"
proof (cases "victim (mc_lru s)")
  case None
  obtain k0 e0 d where d: "mc_entries s = (k0, e0) # d" using ne by (cases "mc_entries s") auto
  then have "mem_view s k0 \<noteq> None" by (simp add: mem_view_def)
  then show thesis using typed_ok_none [OF books_typed [OF b] None] by simp
next
  case (Some p)
  obtain t k where p: "p = (t, k)" by (cases p)
  obtain n ks where n: "mem_view s k = Some (t, n)" "mc_lru s t = k # ks" "bucket_remove k (mc_lru s t) = ks"
    using typed_ok_victim [OF books_typed [OF b]] Some p by metis
  then obtain e where e: "pd_get (mc_entries s) k = Some e" "me_type e = t" by (auto simp: mem_view_def)
  have "mem_evict_lru s = (True, sync_stats (drop_entry k s))"
    using Some p ne e n(2,3) by (simp add: mem_evict_lru_def drop_entry_def)
  then show thesis using that Some p e by blast
qed

lemma fold_drop: "mem_books s \<Longrightarrow> mem_shrunk (fold drop_entry ks s) s"
proof (induction ks arbitrary: s)
  case (Cons k ks)
  have "mem_shrunk (drop_entry k s) s" using books_drop [OF Cons.prems] by blast
  moreover from this have "mem_shrunk (fold drop_entry ks (drop_entry k s)) (drop_entry k s)"
    by (intro Cons.IH) (simp add: mem_shrunk_def)
  ultimately show ?case using mem_shrunk_trans by (simp only: fold.simps comp_apply) blast
qed (simp add: mem_shrunk_refl)

lemma ok_shrunk_sync: "mem_ok s \<Longrightarrow> mem_shrunk s' s \<Longrightarrow> mem_ok (sync_stats s')"
  using shrunk_within [of s' s]
  by (simp add: mem_ok_def books_sync mem_shrunk_def) (simp add: mem_synced_def mem_within_def)

lemma ok_expired: "mem_ok s \<Longrightarrow> mem_ok (snd (evict_expired now s)) \<and> mem_shrunk (snd (evict_expired now s)) s"
proof -
  assume ok: "mem_ok s"
  then have b: "mem_books s" by (simp add: mem_ok_def)
  show ?thesis
  proof (cases "mc_ttl s \<le> 0 \<or> expired_keys now s = []")
    case True
    then show ?thesis using ok mem_shrunk_refl [OF b] by (auto simp: evict_expired_def Let_def)
  next
    case False
    then have "snd (evict_expired now s) = sync_stats (fold drop_entry (expired_keys now s) s)"
      by (simp add: evict_expired_def Let_def)
    then show ?thesis using ok_shrunk_sync [OF ok fold_drop [OF b]] fold_drop [OF b] by (simp add: shrunk_sync)
  qed
qed

text \<open>Making room: afterwards the new entry fits, or nothing is left.\<close>

lemma make_room_spec:
  "mem_books s \<Longrightarrow> mem_shrunk (make_room n s) s \<and>
   (mc_entries (make_room n s) = [] \<or>
    mc_current (make_room n s) + int n \<le> mc_max_memory s \<and> length (mc_entries (make_room n s)) < mc_max_entries s)"
proof (induction n s rule: make_room.induct)
  case (1 n s)
  let ?over = "(mc_current s + int n > mc_max_memory s \<or> length (mc_entries s) \<ge> mc_max_entries s) \<and> mc_entries s \<noteq> []"
  show ?case
  proof (cases ?over)
    case True
    then obtain k where e: "mem_evict_lru s = (True, sync_stats (drop_entry k s))"
      using mem_evict_spec [OF 1(2)] by metis
    let ?s = "sync_stats (drop_entry k s)"
    have sh: "mem_shrunk ?s s" using books_drop [OF 1(2)] by (simp add: shrunk_sync)
    have eq: "make_room n s = make_room n ?s" using True e by (simp add: make_room.simps [of n s])
    have "mem_books ?s" using sh by (simp add: mem_shrunk_def)
    from 1(1) [OF True e [symmetric] _ this]
    have IH: "mem_shrunk (make_room n ?s) ?s" "mc_entries (make_room n ?s) = [] \<or>
        mc_current (make_room n ?s) + int n \<le> mc_max_memory ?s \<and> length (mc_entries (make_room n ?s)) < mc_max_entries ?s"
      by simp_all
    have "mc_max_memory ?s = mc_max_memory s" "mc_max_entries ?s = mc_max_entries s" using sh unfolding mem_shrunk_def by simp_all
    then show ?thesis using mem_shrunk_trans [OF IH(1) sh] IH(2) unfolding eq by metis
  next
    case False
    then show ?thesis using 1(2) by (auto simp: make_room.simps [of n s] mem_shrunk_refl)
  qed
qed

section \<open>The other operations\<close>

text \<open>The share of the budget one entry may take is at most the budget.\<close>

definition env_sane :: "mem_env \<Rightarrow> bool" where
  "env_sane env \<longleftrightarrow> (\<forall>m \<ge> 0. env_entry_cap env m \<le> m)"

lemma pressure_frame:
  "mc_entries (check_memory_pressure env now s) = mc_entries s" "mc_lru (check_memory_pressure env now s) = mc_lru s"
  "mc_bytes_by_type (check_memory_pressure env now s) = mc_bytes_by_type s" "mc_current (check_memory_pressure env now s) = mc_current s"
  "mc_next_id (check_memory_pressure env now s) = mc_next_id s" "mc_base_limit (check_memory_pressure env now s) = mc_base_limit s"
  "mc_max_entries (check_memory_pressure env now s) = mc_max_entries s" "mc_ttl (check_memory_pressure env now s) = mc_ttl s"
  by (simp_all add: check_memory_pressure_def Let_def upd_mem_stats_def split: option.split)

lemma ok_pressure: "mem_ok s \<Longrightarrow> mem_ok (check_memory_pressure env now s)"
proof -
  assume ok: "mem_ok s"
  have m: "0 \<le> min_memory_bytes" by (simp add: min_memory_bytes_def bytes_per_mb_def)
  have "mem_books (check_memory_pressure env now s)"
    by (rule mem_books_cong [of s]) (use ok in \<open>simp_all add: mem_ok_def pressure_frame\<close>)
  moreover have "0 \<le> mc_max_memory (check_memory_pressure env now s) \<and>
      mc_max_memory (check_memory_pressure env now s) \<le> mc_base_limit s \<and>
      ms_max (mc_stats (check_memory_pressure env now s)) = mc_max_memory (check_memory_pressure env now s) \<and>
      ms_entry_count (mc_stats (check_memory_pressure env now s)) = ms_entry_count (mc_stats s) \<and>
      ms_current (mc_stats (check_memory_pressure env now s)) = ms_current (mc_stats s)"
    using ok m by (auto simp: check_memory_pressure_def Let_def upd_mem_stats_def mem_ok_def mem_within_def mem_synced_def
      split: option.split)
  ultimately show ?thesis using ok by (simp add: mem_ok_def mem_synced_def mem_within_def pressure_frame)
qed

text \<open>Storing a sequence again.\<close>

lemma refresh_frame:
  "mc_current (refresh_entry k t old s) = mc_current s" "mc_max_memory (refresh_entry k t old s) = mc_max_memory s"
  "mc_base_limit (refresh_entry k t old s) = mc_base_limit s" "mc_max_entries (refresh_entry k t old s) = mc_max_entries s"
  "mc_stats (refresh_entry k t old s) = mc_stats s" "mc_next_id (refresh_entry k t old s) = mc_next_id s"
  "mc_ttl (refresh_entry k t old s) = mc_ttl s"
  by (simp_all add: refresh_entry_def Let_def)

lemma refresh_get:
  assumes "pd_get (mc_entries s) k = Some old"
  shows "pd_get (mc_entries (refresh_entry k t old s)) = (pd_get (mc_entries s))(k \<mapsto> old\<lparr>me_type := max t (me_type old)\<rparr>)"
proof -
  have "old\<lparr>me_type := me_type old\<rparr> = old" by simp
  then show ?thesis using assms by (auto simp: refresh_entry_def Let_def max_def fun_eq_iff)
qed

lemma refresh_entries:
  assumes "pd_ok (mc_entries s)" "pd_get (mc_entries s) k = Some old"
  shows "pd_ok (mc_entries (refresh_entry k t old s)) \<and> length (mc_entries (refresh_entry k t old s)) = length (mc_entries s)"
proof -
  have "k \<in> fst ` set (mc_entries s)" using assms(2) by (rule pd_get_Some_in_keys)
  then show ?thesis using assms by (simp add: refresh_entry_def Let_def length_pd_set)
qed

lemma books_refresh:
  assumes b: "mem_books s" and k: "pd_get (mc_entries s) k = Some old"
  shows "mem_books (refresh_entry k t old s)"
proof -
  let ?n = "me_bytes old" and ?t0 = "me_type old" and ?s = "refresh_entry k t old s"
  note ty = books_typed [OF b]
  have v: "mem_view s k = Some (?t0, ?n)" using k by (simp add: mem_view_def)
  have view: "mem_view ?s = (mem_view s)(k \<mapsto> (max t ?t0, ?n))" by (simp add: view_eq refresh_get [OF k] fun_eq_iff)
  have "typed_ok (mem_view ?s) (mc_lru ?s) (mc_bytes_by_type ?s) (mc_current ?s)"
  proof (cases "t > ?t0")
    case True
    have n: "((mem_view s)(k := None)) k = None" by simp
    let ?lru = "(mc_lru s)(?t0 := bucket_remove k (mc_lru s ?t0))"
    let ?by = "(mc_bytes_by_type s)(?t0 := mc_bytes_by_type s ?t0 - int ?n)"
    have m: "max t ?t0 = t" using True by (simp add: max_absorb1 less_imp_le)
    have lru: "mc_lru ?s = ?lru(t := bucket_push k (?lru t))" using True by (simp only: refresh_entry_def Let_def m if_True) simp
    have bys: "mc_bytes_by_type ?s = ?by(t := ?by t + int ?n)"
      using True by (simp only: refresh_entry_def Let_def m if_True) (simp add: typed_ok_clamp [OF ty v])
    show ?thesis using typed_ok_insert [OF typed_ok_delete [OF ty v] n, of t ?n]
      unfolding view m refresh_frame lru bys fun_upd_upd diff_add_cancel .
  next
    case False
    then have m: "max t ?t0 = ?t0" by (simp add: max_absorb2)
    have "(mem_view s)(k \<mapsto> (?t0, ?n)) = mem_view s" using v by (auto simp: fun_eq_iff)
    then show ?thesis using typed_ok_refresh [OF ty v] False unfolding view m by (simp add: refresh_entry_def Let_def m)
  qed
  then show ?thesis using b refresh_entries [OF books_pd [OF b] k] k
    by (auto simp: mem_books_def refresh_get [OF k] refresh_frame)
qed

lemma ok_refresh: "mem_ok s \<Longrightarrow> pd_get (mc_entries s) k = Some old \<Longrightarrow> mem_ok (refresh_entry k t old s)"
  using books_refresh [of s k old t] refresh_entries [of s k old t]
  by (simp add: mem_ok_def mem_synced_def mem_within_def refresh_frame books_pd)

text \<open>Storing a new sequence.\<close>

lemma insert_frame [simp]:
  "mc_entries (insert_entry k e s) = pd_set (mc_entries s) k e" "mc_current (insert_entry k e s) = mc_current s + int (me_bytes e)"
  "mc_max_memory (insert_entry k e s) = mc_max_memory s" "mc_base_limit (insert_entry k e s) = mc_base_limit s"
  "mc_max_entries (insert_entry k e s) = mc_max_entries s" "mc_next_id (insert_entry k e s) = Suc (me_id e)"
  "mc_ttl (insert_entry k e s) = mc_ttl s"
  by (simp_all add: insert_entry_def)

lemma books_insert:
  assumes b: "mem_books s" and k: "pd_get (mc_entries s) k = None" and e: "me_id e = mc_next_id s" "me_tokens e = snd (mem_key_parts k)"
  shows "mem_books (insert_entry k e s)"
proof -
  let ?s = "insert_entry k e s"
  note ty = books_typed [OF b]
  have v: "mem_view s k = None" using k by (simp add: mem_view_def)
  have out: "k \<notin> set (mc_lru s (me_type e))" using typed_ok_in [OF ty, of k] v by simp
  have push: "bucket_set k (mc_lru s (me_type e)) = bucket_push k (mc_lru s (me_type e))"
    using out by (simp add: bucket_set_def bucket_push_eq bucket_remove_absent)
  have view: "mem_view ?s = (mem_view s)(k \<mapsto> (me_type e, me_bytes e))" by (simp add: view_eq fun_eq_iff)
  have "typed_ok (mem_view ?s) (mc_lru ?s) (mc_bytes_by_type ?s) (mc_current ?s)"
    unfolding view using typed_ok_insert [OF ty v, of "me_type e" "me_bytes e"] by (simp add: insert_entry_def push)
  moreover have "\<forall>k' e'. pd_get (mc_entries ?s) k' = Some e' \<longrightarrow> me_id e' < Suc (me_id e) \<and> me_tokens e' = snd (mem_key_parts k')"
    using b e by (auto simp: mem_books_def less_Suc_eq)
  ultimately show ?thesis using books_pd [OF b] by (simp add: mem_books_def)
qed

lemma key_parts: "snd (mem_key_parts (mem_entry_key rp dumps tokens extra)) = tokens"
  "fst (mem_key_parts (mem_entry_key rp dumps tokens extra)) = canonical_cache_extra_marker rp dumps extra"
  by (simp_all add: mem_entry_key_def split: option.split)

lemma shrunk_absent: "mem_shrunk s' s \<Longrightarrow> pd_get (mc_entries s) k = None \<Longrightarrow> pd_get (mc_entries s') k = None"
  unfolding mem_shrunk_def by metis

lemma ok_make_insert:
  assumes ok: "mem_ok s" and k: "pd_get (mc_entries s) k = None" and e: "me_id e = mc_next_id s" "me_tokens e = snd (mem_key_parts k)"
    and cap: "int (me_bytes e) \<le> mc_max_memory s"
  defines "s' \<equiv> insert_entry k e (make_room (me_bytes e) s)"
  shows "mem_ok s' \<and> mc_current s' \<le> mc_max_memory s' \<and> pd_get (mc_entries s') k = Some e"
proof -
  have b: "mem_books s" using ok by (simp add: mem_ok_def)
  let ?r = "make_room (me_bytes e) s"
  note room = make_room_spec [OF b, of "me_bytes e"]
  have rb: "mem_books ?r" and rf: "mc_max_memory ?r = mc_max_memory s" "mc_base_limit ?r = mc_base_limit s"
      "mc_max_entries ?r = mc_max_entries s" "mc_next_id ?r = mc_next_id s" "ms_max (mc_stats ?r) = ms_max (mc_stats s)"
    using room unfolding mem_shrunk_def by simp_all
  have rk: "pd_get (mc_entries ?r) k = None" using room shrunk_absent [OF _ k] by blast
  then have len: "length (mc_entries s') = Suc (length (mc_entries ?r))" by (simp add: s'_def length_pd_set pd_get_None_iff)
  have "mc_entries ?r = [] \<Longrightarrow> mc_current ?r = 0"
  proof -
    assume "mc_entries ?r = []"
    then have v: "mem_view ?r = (\<lambda>_. None)" by (simp add: view_eq)
    then have "victim (mc_lru ?r) = None" using typed_ok_victim [OF books_typed [OF rb]] by (cases "victim (mc_lru ?r)") fastforce+
    then show ?thesis using typed_ok_none [OF books_typed [OF rb]] by simp
  qed
  then have "mc_current s' \<le> mc_max_memory s" "length (mc_entries s') \<le> mc_max_entries s"
    using room cap ok len by (auto simp: s'_def mem_ok_def mem_within_def)
  moreover have "mem_books s'" unfolding s'_def using books_insert [OF rb rk] e rf by simp
  moreover have "mem_synced s'" using ok rf
    by (simp only: s'_def insert_entry_def sync_frame) (simp add: mem_ok_def mem_synced_def)
  ultimately show ?thesis using ok rf by (simp add: mem_ok_def mem_within_def s'_def)
qed

end
