(* ===== verification/Memory_Reach.thy ===== *)
theory Memory_Reach
  imports Memory_Inv
begin

text \<open>
  The life of a \<open>MemoryAwarePrefixCache\<close>: stores, removals and the two critical sections of fetches in any
  order, and the properties of every state reached.
\<close>

section \<open>Reachable states\<close>

text \<open>
  Between the match of a fetch and its commit any other operation may run, so a commit may come with the
  clone of an entry that was replaced or dropped since: the rule takes any clone.
\<close>

inductive mem_reachable ::
  "(pyval \<Rightarrow> string) \<Rightarrow> (pyval \<Rightarrow> string option) \<Rightarrow> 'b mem_cache \<Rightarrow> bool" for rp dumps where
  created: "0 \<le> limit \<Longrightarrow> 1 \<le> max_entries \<Longrightarrow> mem_reachable rp dumps (new_mem_cache limit max_entries ttl now)"
| matched: "mem_reachable rp dumps s \<Longrightarrow> mem_reachable rp dumps (snd (fetch_match rp dumps now s tokens extra))"
| committed: "mem_reachable rp dumps s \<Longrightarrow> mem_reachable rp dumps (snd (fetch_commit now tokens r s))"
| stored: "mem_reachable rp dumps s \<Longrightarrow> env_sane env \<Longrightarrow>
    mem_reachable rp dumps (snd (mem_store rp dumps env now s tokens layers ct extra))"
| removed: "mem_reachable rp dumps s \<Longrightarrow> mem_reachable rp dumps (snd (mem_remove rp dumps s tokens extra))"
| cleared: "mem_reachable rp dumps s \<Longrightarrow> mem_reachable rp dumps (mem_clear s)"
| reset: "mem_reachable rp dumps s \<Longrightarrow> mem_reachable rp dumps (mem_reset_stats s)"

lemma ok_stats:
  assumes "mem_ok s" "\<And>st. ms_entry_count (f st) = ms_entry_count st \<and> ms_current (f st) = ms_current st \<and> ms_max (f st) = ms_max st"
  shows "mem_ok (upd_mem_stats f s)"
proof -
  have "mem_books (upd_mem_stats f s)"
    by (rule mem_books_cong [of s]) (use assms(1) in \<open>simp_all add: mem_ok_def upd_mem_stats_def\<close>)
  then show ?thesis using assms by (simp add: mem_ok_def mem_synced_def mem_within_def upd_mem_stats_def)
qed

lemma ok_new: "0 \<le> limit \<Longrightarrow> 1 \<le> max_entries \<Longrightarrow> mem_ok (new_mem_cache limit max_entries ttl now)"
  by (simp add: mem_ok_def mem_books_def view_eq new_mem_cache_def typed_ok_empty mem_synced_def mem_within_def fresh_mem_stats_def)

lemma ok_clear: "mem_ok s \<Longrightarrow> mem_ok (mem_clear s)"
  by (simp add: mem_ok_def mem_books_def view_eq mem_clear_def typed_ok_empty mem_synced_def mem_within_def fresh_mem_stats_def)

lemma ok_reset: "mem_ok s \<Longrightarrow> mem_ok (mem_reset_stats s)"
proof -
  assume ok: "mem_ok s"
  have "mem_books (mem_reset_stats s)"
    by (rule mem_books_cong [of s]) (use ok in \<open>simp_all add: mem_ok_def mem_reset_stats_def\<close>)
  then show ?thesis using ok by (simp add: mem_ok_def mem_synced_def mem_within_def mem_reset_stats_def fresh_mem_stats_def)
qed

lemma ok_remove: "mem_ok s \<Longrightarrow> mem_ok (snd (mem_remove rp dumps s tokens extra))"
proof -
  assume ok: "mem_ok s"
  then have "mem_shrunk (drop_entry k s) s" for k using books_drop [of s k] by (simp add: mem_ok_def)
  then have "mem_ok (sync_stats (drop_entry k s))" for k by (rule ok_shrunk_sync [OF ok])
  then show ?thesis using ok by (simp add: mem_remove_def Let_def)
qed

lemma ok_match: "mem_ok s \<Longrightarrow> mem_ok (snd (fetch_match rp dumps now s tokens extra))"
proof -
  assume ok: "mem_ok s"
  define s1 where "s1 = (if mc_ttl s > 0 then snd (evict_expired now s) else s)"
  have ok1: "mem_ok s1" using ok ok_expired [OF ok] by (simp add: s1_def)
  have "mem_ok (upd_mem_stats (\<lambda>st. st\<lparr>ms_misses := ms_misses st + 1\<rparr>) s1)" by (rule ok_stats [OF ok1]) simp
  then show ?thesis using ok1 by (simp add: fetch_match_def s1_def [symmetric] Let_def split: option.split prod.split)
qed

text \<open>A commit refreshes at most the entry it served.\<close>

definition touch_served :: "real \<Rightarrow> mem_key \<Rightarrow> 'b mem_entry \<Rightarrow> 'b mem_cache \<Rightarrow> 'b mem_cache" where
  "touch_served now k e s =
     s\<lparr>mc_entries := pd_set (pd_move_to_end (mc_entries s) k) k (e\<lparr>me_last_accessed := now\<rparr>),
       mc_lru := (mc_lru s)(me_type e := bucket_push k (mc_lru s (me_type e)))\<rparr>"

lemma ok_touch_served:
  assumes ok: "mem_ok s" and k: "pd_get (mc_entries s) k = Some e"
  shows "mem_ok (touch_served now k e s)"
proof -
  let ?s = "touch_served now k e s"
  have b: "mem_books s" using ok by (simp add: mem_ok_def)
  have v: "mem_view s k = Some (me_type e, me_bytes e)" using k by (simp add: mem_view_def)
  have get: "pd_get (mc_entries ?s) = (pd_get (mc_entries s))(k \<mapsto> e\<lparr>me_last_accessed := now\<rparr>)" by (simp add: touch_served_def)
  have view: "mem_view ?s = mem_view s" using k by (auto simp: view_eq get fun_eq_iff)
  have "typed_ok (mem_view ?s) (mc_lru ?s) (mc_bytes_by_type ?s) (mc_current ?s)"
    using typed_ok_refresh [OF books_typed [OF b] v] unfolding view by (simp add: touch_served_def)
  moreover have "pd_ok (mc_entries ?s)" using books_pd [OF b] by (simp add: touch_served_def)
  moreover have "\<forall>k' e'. pd_get (mc_entries ?s) k' = Some e' \<longrightarrow> me_id e' < mc_next_id ?s \<and> me_tokens e' = snd (mem_key_parts k')"
    using b k unfolding mem_books_def get by (auto simp: touch_served_def)
  ultimately have "mem_books ?s" by (simp add: mem_books_def)
  moreover have "length (mc_entries ?s) = length (mc_entries s)"
    using pd_get_Some_in_keys [OF k] books_pd [OF b] by (simp add: touch_served_def length_pd_set)
  ultimately show ?thesis using ok by (simp add: mem_ok_def mem_synced_def mem_within_def) (simp add: touch_served_def)
qed

lemma fetch_commit_forms:
  "(\<exists>f. snd (fetch_commit now tokens r s) = upd_mem_stats f s \<and>
      (\<forall>st. ms_entry_count (f st) = ms_entry_count st \<and> ms_current (f st) = ms_current st \<and> ms_max (f st) = ms_max st)) \<or>
   (\<exists>f k e c n rest. snd (fetch_commit now tokens r s) = upd_mem_stats f (touch_served now k e s) \<and>
      (\<forall>st. ms_entry_count (f st) = ms_entry_count st \<and> ms_current (f st) = ms_current st \<and> ms_max (f st) = ms_max st) \<and>
      r = Some (c, me_id e, k, n, rest) \<and> pd_get (mc_entries s) k = Some e)"
proof (cases r)
  case None
  then show ?thesis by (intro disjI1 exI [of _ "\<lambda>st. st\<lparr>ms_misses := ms_misses st + 1\<rparr>"]) (simp add: fetch_commit_def)
next
  case (Some x)
  obtain c i k n rest where x: "x = (c, i, k, n, rest)" by (cases x)
  let ?f = "\<lambda>st. st\<lparr>ms_hits := ms_hits st + 1, ms_tokens_saved := ms_tokens_saved st + n\<rparr>"
  show ?thesis
  proof (cases "\<exists>e. pd_get (mc_entries s) k = Some e \<and> me_id e = i")
    case True
    then obtain e where e: "pd_get (mc_entries s) k = Some e" "me_id e = i" by blast
    then show ?thesis using Some x
      by (intro disjI2 exI [of _ ?f] exI [of _ k] exI [of _ e] exI [of _ c] exI [of _ n] exI [of _ rest])
        (simp add: fetch_commit_def touch_served_def)
  next
    case False
    then show ?thesis using Some x
      by (intro disjI1 exI [of _ ?f]) (simp add: fetch_commit_def split: option.split)
  qed
qed

lemma ok_commit:
  assumes "mem_ok s"
  shows "mem_ok (snd (fetch_commit now tokens r s))"
  using fetch_commit_forms [of now tokens r s]
proof (elim disjE exE conjE)
  fix f
  assume "snd (fetch_commit now tokens r s) = upd_mem_stats f s"
    "\<forall>st. ms_entry_count (f st) = ms_entry_count st \<and> ms_current (f st) = ms_current st \<and> ms_max (f st) = ms_max st"
  then show ?thesis using ok_stats [OF assms, of f] by simp
next
  fix f k e
  assume "snd (fetch_commit now tokens r s) = upd_mem_stats f (touch_served now k e s)"
    "\<forall>st. ms_entry_count (f st) = ms_entry_count st \<and> ms_current (f st) = ms_current st \<and> ms_max (f st) = ms_max st"
    "pd_get (mc_entries s) k = Some e"
  then show ?thesis using ok_stats [OF ok_touch_served [OF assms], of k e f now] by simp
qed

text \<open>The three ways a store ends.\<close>

lemma mem_store_cases:
  assumes ok: "mem_ok s" and sane: "env_sane env" and st: "mem_store rp dumps env now s tokens layers ct extra = (b, s')"
  defines "k \<equiv> mem_entry_key rp dumps tokens extra"
  obtains (refused) "b = False" "mem_ok s'" "\<forall>k. pd_get (mc_entries s') k = None \<or> pd_get (mc_entries s') k = pd_get (mc_entries s) k"
  | (again) old where "b = True" "mem_ok s'" "pd_get (mc_entries s) k = Some old"
      "pd_get (mc_entries s') = (pd_get (mc_entries s))(k \<mapsto> old\<lparr>me_type := max (cache_type_of ct) (me_type old)\<rparr>)"
  | (new) e where "b = True" "mem_ok s'" "mc_current s' \<le> mc_max_memory s'" "pd_get (mc_entries s) k = None"
      "pd_get (mc_entries s') k = Some e" "me_cache e = layers" "me_type e = cache_type_of ct" "me_tokens e = tokens"
      "me_last_accessed e = now" "tokens \<noteq> []" "layers \<noteq> []"
      "\<forall>k'. k' \<noteq> k \<longrightarrow> pd_get (mc_entries s') k' = None \<or> pd_get (mc_entries s') k' = pd_get (mc_entries s) k'"
proof (cases "tokens = [] \<or> layers = []")
  case True
  then show thesis using refused ok st by (simp add: mem_store_def)
next
  case False
  let ?s1 = "check_memory_pressure env now s"
  have ok1: "mem_ok ?s1" by (rule ok_pressure [OF ok])
  show thesis
  proof (cases "pd_get (mc_entries s) k")
    case (Some old)
    then have k1: "pd_get (mc_entries ?s1) k = Some old" by (simp add: pressure_frame)
    have "b = True" "s' = refresh_entry k (cache_type_of ct) old ?s1"
      using st False k1 by (simp_all add: mem_store_def Let_def k_def [symmetric])
    then show thesis using again [of old] Some ok_refresh [OF ok1 k1] by (simp add: refresh_get [OF k1] pressure_frame)
  next
    case None
    define s2 where "s2 = (if mc_ttl ?s1 > 0 then snd (evict_expired now ?s1) else ?s1)"
    define e where "e = \<lparr>me_id = mc_next_id s2, me_tokens = tokens, me_cache = layers,
      me_bytes = estimate_kv_cache_memory layers, me_last_accessed = now, me_type = cache_type_of ct\<rparr>"
    have b1: "mem_books ?s1" using ok1 by (simp add: mem_ok_def)
    have ok2: "mem_ok s2" and sh2: "mem_shrunk s2 ?s1"
      using ok1 ok_expired [OF ok1] mem_shrunk_refl [OF b1] by (simp_all add: s2_def)
    have k1: "pd_get (mc_entries ?s1) k = None" using None by (simp add: pressure_frame)
    then have k2: "pd_get (mc_entries s2) k = None" by (rule shrunk_absent [OF sh2])
    have sub: "\<forall>k. pd_get (mc_entries s2) k = None \<or> pd_get (mc_entries s2) k = pd_get (mc_entries s) k"
      using sh2 by (simp add: mem_shrunk_def pressure_frame)
    have res: "(b, s') = (if int (me_bytes e) > env_entry_cap env (mc_max_memory s2) then (False, s2)
        else (True, insert_entry k e (make_room (me_bytes e) s2)))"
      using st False k1 unfolding mem_store_def Let_def k_def [symmetric] s2_def [symmetric] e_def [symmetric] by simp
    show thesis
    proof (cases "int (me_bytes e) > env_entry_cap env (mc_max_memory s2)")
      case True
      then show thesis using res refused ok2 sub by simp
    next
      case small: False
      have "env_entry_cap env (mc_max_memory s2) \<le> mc_max_memory s2"
        using sane ok2 by (simp add: env_sane_def mem_ok_def mem_within_def)
      then have cap: "int (me_bytes e) \<le> mc_max_memory s2" using small by simp
      have s': "b = True" "s' = insert_entry k e (make_room (me_bytes e) s2)" using res small by simp_all
      have ins: "mem_ok s' \<and> mc_current s' \<le> mc_max_memory s' \<and> pd_get (mc_entries s') k = Some e"
        unfolding s'(2) by (rule ok_make_insert [OF ok2 k2 _ _ cap]) (simp_all add: e_def k_def key_parts)
      have "mem_shrunk (make_room (me_bytes e) s2) s2" using make_room_spec [of s2 "me_bytes e"] ok2 by (simp add: mem_ok_def)
      then have "\<forall>k. pd_get (mc_entries (make_room (me_bytes e) s2)) k = None \<or>
          pd_get (mc_entries (make_room (me_bytes e) s2)) k = pd_get (mc_entries s) k"
        using sub unfolding mem_shrunk_def by metis
      then have "\<forall>k'. k' \<noteq> k \<longrightarrow> pd_get (mc_entries s') k' = None \<or> pd_get (mc_entries s') k' = pd_get (mc_entries s) k'"
        unfolding s'(2) by simp
      then show thesis using new [of e] s'(1) ins None False by (simp add: e_def)
    qed
  qed
qed

lemma ok_store: "mem_ok s \<Longrightarrow> env_sane env \<Longrightarrow> mem_ok (snd (mem_store rp dumps env now s tokens layers ct extra))"
proof -
  assume a: "mem_ok s" "env_sane env"
  obtain b s' where st: "mem_store rp dumps env now s tokens layers ct extra = (b, s')" by fastforce
  from a st show ?thesis by (cases rule: mem_store_cases) (simp_all add: st)
qed

lemma mem_reachable_ok: "mem_reachable rp dumps s \<Longrightarrow> mem_ok s"
  by (induction rule: mem_reachable.induct)
    (simp_all add: ok_new ok_match ok_commit ok_store ok_remove ok_clear ok_reset)

end
