(* ===== verification/Memory_Fetch.thy ===== *)
theory Memory_Fetch
  imports Memory_Reach
begin

text \<open>What a fetch of \<open>MemoryAwarePrefixCache\<close> finds, and the properties of the cache.\<close>

section \<open>The scan\<close>

definition forward_at :: "string option \<Rightarrow> int list \<Rightarrow> mem_key \<Rightarrow> nat \<Rightarrow> bool" where
  "forward_at m tokens k n \<longleftrightarrow> fst (mem_key_parts k) = m \<and> 0 < n \<and> n < length tokens \<and> snd (mem_key_parts k) = take n tokens"

definition reverse_at :: "string option \<Rightarrow> int list \<Rightarrow> mem_key \<Rightarrow> bool" where
  "reverse_at m tokens k \<longleftrightarrow> fst (mem_key_parts k) = m \<and> (\<exists>us. us \<noteq> [] \<and> snd (mem_key_parts k) = tokens @ us)"

definition best_of :: "('b mem_entry \<times> nat) option \<Rightarrow> nat" where
  "best_of fwd = (case fwd of None \<Rightarrow> 0 | Some (_, n) \<Rightarrow> n)"

lemma best_of_some: "best_of (Some (e, n)) = n"
  by (simp add: best_of_def)

lemma reverse_test:
  "mem_key_parts k = (m, ts) \<Longrightarrow> length tokens < length ts \<Longrightarrow> take (length tokens) ts = tokens \<longleftrightarrow> reverse_at m tokens k"
proof -
  assume p: "mem_key_parts k = (m, ts)" and l: "length tokens < length ts"
  have "take (length tokens) ts = tokens \<longleftrightarrow> (\<exists>us. us \<noteq> [] \<and> ts = tokens @ us)"
  proof
    assume "take (length tokens) ts = tokens"
    then have "ts = tokens @ drop (length tokens) ts" using append_take_drop_id [of "length tokens" ts] by simp
    moreover have "drop (length tokens) ts \<noteq> []" using l by simp
    ultimately show "\<exists>us. us \<noteq> [] \<and> ts = tokens @ us" by blast
  qed auto
  then show ?thesis using p by (simp add: reverse_at_def)
qed

text \<open>One step of the scan.\<close>

definition scan_one ::
  "string option \<Rightarrow> int list \<Rightarrow> mem_key \<times> 'b mem_entry \<Rightarrow> ('b mem_entry \<times> nat) option \<times> 'b mem_entry option \<Rightarrow>
   ('b mem_entry \<times> nat) option \<times> 'b mem_entry option" where
  "scan_one m tokens ke acc =
     (let n = length (snd (mem_key_parts (fst ke)))
      in (if forward_at m tokens (fst ke) n \<and> n > best_of (fst acc) then Some (snd ke, n) else fst acc,
          if reverse_at m tokens (fst ke) \<and> snd acc = None then Some (snd ke) else snd acc))"

lemma scan_fold: "scan_matches m tokens items fwd bwd = fold (scan_one m tokens) items (fwd, bwd)"
proof (induction m tokens items fwd bwd rule: scan_matches.induct)
  case (2 m tokens k e items fwd bwd)
  obtain m' ts where p: "mem_key_parts k = (m', ts)" by (cases "mem_key_parts k")
  have f: "forward_at m tokens k (length ts) \<longleftrightarrow> m' = m \<and> ts \<noteq> [] \<and> length ts < length tokens \<and> take (length ts) tokens = ts"
    using p by (auto simp: forward_at_def)
  have r: "reverse_at m tokens k \<longleftrightarrow> m' = m \<and> length tokens < length ts \<and> take (length tokens) ts = tokens"
    using p reverse_test [of k m ts tokens] by (auto simp: reverse_at_def)
  have best: "(case fwd of None \<Rightarrow> 0 | Some (_, n) \<Rightarrow> n) = best_of fwd" by (simp add: best_of_def)
  note IH = 2 [OF p [symmetric] refl, unfolded best]
  have one: "scan_one m tokens (k, e) (fwd, bwd) =
      (if m' = m \<and> ts \<noteq> [] \<and> length ts < length tokens \<and> take (length ts) tokens = ts \<and> length ts > best_of fwd then Some (e, length ts) else fwd,
       if m' = m \<and> length tokens < length ts \<and> take (length tokens) ts = tokens \<and> bwd = None then Some e else bwd)"
    by (simp add: scan_one_def Let_def p f r)
  have pos: "length ts > best_of fwd \<Longrightarrow> ts \<noteq> []" by auto
  consider "m' \<noteq> m" | "m' = m" "length ts < length tokens" | "m' = m" "length ts > length tokens" | "m' = m" "length ts = length tokens"
    by linarith
  then show ?case
  proof cases
    case 1
    then show ?thesis using IH(1) by (simp add: one p best)
  next
    case 2
    then show ?thesis using IH(2,3) pos by (simp add: one p best)
  next
    case 3
    then show ?thesis using IH(4,5) by (simp add: one p best)
  next
    case 4
    then show ?thesis using IH(6) by (simp add: one p best)
  qed
qed simp

lemma scan_spec:
  assumes "fold (scan_one m tokens) items acc = (fwd, bwd)"
  shows "(fwd = Some (e, n) \<longrightarrow> fst acc = Some (e, n) \<or> (\<exists>k. (k, e) \<in> set items \<and> forward_at m tokens k n)) \<and>
     best_of (fst acc) \<le> best_of fwd \<and>
     (\<forall>(k, e) \<in> set items. \<forall>n. forward_at m tokens k n \<longrightarrow> n \<le> best_of fwd) \<and>
     (bwd = Some e \<longrightarrow> snd acc = Some e \<or> (\<exists>k. (k, e) \<in> set items \<and> reverse_at m tokens k)) \<and>
     (bwd = None \<longrightarrow> snd acc = None \<and> (\<forall>(k, e) \<in> set items. \<not> reverse_at m tokens k))"
  using assms
proof (induction items arbitrary: acc)
  case (Cons ke items)
  obtain k e1 where ke: "ke = (k, e1)" by (cases ke)
  let ?acc = "scan_one m tokens ke acc"
  define l where "l = length (snd (mem_key_parts k))"
  have uniq: "(\<forall>i. forward_at m tokens k i \<longrightarrow> i \<le> X) \<longleftrightarrow> (forward_at m tokens k l \<longrightarrow> l \<le> X)" for X
    by (auto simp: forward_at_def l_def)
  have one: "?acc = (if forward_at m tokens k l \<and> l > best_of (fst acc) then Some (e1, l) else fst acc,
      if reverse_at m tokens k \<and> snd acc = None then Some e1 else snd acc)"
    by (simp add: scan_one_def ke Let_def l_def)
  have step: "(fst ?acc = fst acc \<or> fst ?acc = Some (e1, l) \<and> forward_at m tokens k l) \<and>
      best_of (fst acc) \<le> best_of (fst ?acc) \<and> (\<forall>i. forward_at m tokens k i \<longrightarrow> i \<le> best_of (fst ?acc)) \<and>
      (snd ?acc = snd acc \<or> snd ?acc = Some e1 \<and> reverse_at m tokens k) \<and>
      (snd ?acc = None \<longrightarrow> snd acc = None \<and> \<not> reverse_at m tokens k)"
    unfolding one uniq by (cases "snd acc") (simp_all add: best_of_some not_less)
  have "fold (scan_one m tokens) items ?acc = (fwd, bwd)" using Cons.prems by simp
  note IH = Cons.IH [OF this]
  have "fwd = Some (e, n) \<longrightarrow> fst acc = Some (e, n) \<or> (\<exists>k. (k, e) \<in> set (ke # items) \<and> forward_at m tokens k n)"
  proof
    assume "fwd = Some (e, n)"
    then consider "fst ?acc = Some (e, n)" | k' where "(k', e) \<in> set items" "forward_at m tokens k' n" using IH by blast
    then show "fst acc = Some (e, n) \<or> (\<exists>k. (k, e) \<in> set (ke # items) \<and> forward_at m tokens k n)"
      using step by cases (auto simp: ke)
  qed
  moreover have mono: "best_of (fst ?acc) \<le> best_of fwd" using IH by simp
  moreover have "best_of (fst acc) \<le> best_of fwd" using mono step le_trans [of "best_of (fst acc)" "best_of (fst ?acc)"] by simp
  moreover have "i \<le> best_of fwd" if "forward_at m tokens k i" for i
    using mono step that le_trans [of i "best_of (fst ?acc)"] by simp
  then have "\<forall>(k, e) \<in> set (ke # items). \<forall>n. forward_at m tokens k n \<longrightarrow> n \<le> best_of fwd"
    using IH unfolding ke by simp
  moreover have "bwd = Some e \<longrightarrow> snd acc = Some e \<or> (\<exists>k. (k, e) \<in> set (ke # items) \<and> reverse_at m tokens k)"
  proof
    assume "bwd = Some e"
    then consider "snd ?acc = Some e" | k' where "(k', e) \<in> set items" "reverse_at m tokens k'" using IH by blast
    then show "snd acc = Some e \<or> (\<exists>k. (k, e) \<in> set (ke # items) \<and> reverse_at m tokens k)"
      using step by cases (auto simp: ke)
  qed
  moreover have "bwd = None \<longrightarrow> snd acc = None \<and> (\<forall>(k, e) \<in> set (ke # items). \<not> reverse_at m tokens k)"
    using IH step unfolding ke by simp
  ultimately show ?case by blast
qed (auto simp: best_of_def)

section \<open>Expiry\<close>

text \<open>The entry of a key, when it has not expired.\<close>

definition live_entry :: "real \<Rightarrow> 'b mem_cache \<Rightarrow> mem_key \<Rightarrow> 'b mem_entry option" where
  "live_entry now s k =
     (case pd_get (mc_entries s) k of
        None \<Rightarrow> None
      | Some e \<Rightarrow> if mc_ttl s > 0 \<and> now - me_last_accessed e > mc_ttl s then None else Some e)"

definition expire :: "real \<Rightarrow> 'b mem_cache \<Rightarrow> 'b mem_cache" where
  "expire now s = (if mc_ttl s > 0 then snd (evict_expired now s) else s)"

lemma fold_drop_get:
  "mem_books s \<Longrightarrow> pd_get (mc_entries (fold drop_entry ks s)) k = (if k \<in> set ks then None else pd_get (mc_entries s) k)"
proof (induction ks arbitrary: s)
  case (Cons k' ks)
  have "mem_books (drop_entry k' s)" and g: "pd_get (mc_entries (drop_entry k' s)) = (pd_get (mc_entries s))(k' := None)"
    using books_drop [OF Cons.prems, of k'] by (simp_all add: mem_shrunk_def)
  from Cons.IH [OF this(1)] g show ?case by simp
qed simp

lemma expire_get:
  assumes "mem_books s"
  shows "pd_get (mc_entries (expire now s)) k = live_entry now s k"
proof (cases "mc_ttl s > 0")
  case True
  have "k \<in> set (expired_keys now s) \<longleftrightarrow> (\<exists>e. pd_get (mc_entries s) k = Some e \<and> now - me_last_accessed e > mc_ttl s)"
    using pd_get_eq_Some_iff [OF books_pd [OF assms], of k] by (force simp: expired_keys_def)
  moreover have "mc_entries (expire now s) = mc_entries (fold drop_entry (expired_keys now s) s)"
    using True by (simp add: expire_def evict_expired_def Let_def)
  ultimately show ?thesis using True fold_drop_get [OF assms, of "expired_keys now s" k]
    by (auto simp: live_entry_def split: option.split)
qed (auto simp: expire_def live_entry_def split: option.split)

lemma ok_expire: "mem_ok s \<Longrightarrow> mem_ok (expire now s)"
  using ok_expired [of s now] by (simp add: expire_def)

section \<open>The answer\<close>

definition mem_key_of :: "string option \<Rightarrow> int list \<Rightarrow> mem_key" where
  "mem_key_of m ts = (case m of None \<Rightarrow> Plain ts | Some x \<Rightarrow> Extra x ts)"

lemma mem_entry_key_of: "mem_entry_key rp dumps ts extra = mem_key_of (canonical_cache_extra_marker rp dumps extra) ts"
  by (simp add: mem_entry_key_def mem_key_of_def)

lemma key_of_parts: "mem_key_of (fst (mem_key_parts k)) (snd (mem_key_parts k)) = k"
  by (cases k) (simp_all add: mem_key_of_def)

lemma parts_of_key [simp]: "mem_key_parts (mem_key_of m ts) = (m, ts)"
  by (simp add: mem_key_of_def split: option.split)

text \<open>The longest cached proper beginning of the tokens.\<close>

definition longest_beginning :: "(int list \<Rightarrow> 'b mem_entry option) \<Rightarrow> int list \<Rightarrow> nat \<Rightarrow> 'b mem_entry \<Rightarrow> bool" where
  "longest_beginning E tokens n e \<longleftrightarrow> 0 < n \<and> n < length tokens \<and> E (take n tokens) = Some e \<and>
     (\<forall>i. n < i \<longrightarrow> i < length tokens \<longrightarrow> E (take i tokens) = None)"

definition mem_served ::
  "('b cache_layer list \<Rightarrow> nat \<Rightarrow> 'b cache_layer list option) \<Rightarrow> ('b cache_layer list \<Rightarrow> nat \<Rightarrow> 'b cache_layer list option) \<Rightarrow>
   (int list \<Rightarrow> 'b mem_entry option) \<Rightarrow> int list \<Rightarrow> 'b cache_layer list option \<times> int list \<Rightarrow> bool" where
  "mem_served clone trunc E tokens ans =
     (case ans of
        (Some c, rest) \<Rightarrow>
          (\<exists>e. E tokens = Some e \<and> clone (me_cache e) (length tokens) = Some c \<and> rest = []) \<or>
          (\<exists>n e. E tokens = None \<and> longest_beginning E tokens n e \<and> clone (me_cache e) n = Some c \<and> rest = drop n tokens) \<or>
          (\<exists>us e. us \<noteq> [] \<and> E tokens = None \<and> E (tokens @ us) = Some e \<and> trunc (me_cache e) (length tokens) = Some c \<and> rest = [] \<and>
             (\<forall>n e. longest_beginning E tokens n e \<longrightarrow> clone (me_cache e) n = None))
      | (None, rest) \<Rightarrow>
          rest = tokens \<and> (\<forall>e. E tokens = Some e \<longrightarrow> clone (me_cache e) (length tokens) = None) \<and>
          (E tokens = None \<longrightarrow>
             (\<forall>n e. longest_beginning E tokens n e \<longrightarrow> clone (me_cache e) n = None) \<and>
             ((\<forall>us. us \<noteq> [] \<longrightarrow> E (tokens @ us) = None) \<or>
              (\<exists>us e. us \<noteq> [] \<and> E (tokens @ us) = Some e \<and> trunc (me_cache e) (length tokens) = None))))"

text \<open>What the scan hands to the clone.\<close>

lemma scan_found:
  fixes m :: "string option"
  assumes b: "pd_ok (mc_entries s)" and sc: "scan_matches m tokens (mc_entries s) None None = (fwd, bwd)"
  defines "E \<equiv> \<lambda>ts. pd_get (mc_entries s) (mem_key_of m ts)"
  shows "fwd = Some (e, n) \<Longrightarrow> longest_beginning E tokens n e"
    and "fwd = None \<Longrightarrow> \<not> longest_beginning E tokens i e"
    and "bwd = Some e \<Longrightarrow> \<exists>us. us \<noteq> [] \<and> E (tokens @ us) = Some e"
    and "bwd = None \<Longrightarrow> us \<noteq> [] \<Longrightarrow> E (tokens @ us) = None"
proof -
  have in_iff: "(k, e) \<in> set (mc_entries s) \<longleftrightarrow> E (snd (mem_key_parts k)) = Some e" if "fst (mem_key_parts k) = m" for k e
    using pd_get_eq_Some_iff [OF b, of k e] that key_of_parts [of k] by (simp add: E_def)
  note spec = scan_spec [OF sc [unfolded scan_fold], unfolded fst_conv snd_conv]
  have top: "i \<le> best_of fwd" if "0 < i" "i < length tokens" "E (take i tokens) = Some e" for i e
  proof -
    have f: "forward_at m tokens (mem_key_of m (take i tokens)) i" using that by (simp add: forward_at_def)
    have "(mem_key_of m (take i tokens), e) \<in> set (mc_entries s)" using that in_iff [of "mem_key_of m (take i tokens)" e] by simp
    from bspec [OF spec [THEN conjunct2, THEN conjunct2, THEN conjunct1] this] f show ?thesis by simp
  qed
  show "longest_beginning E tokens n e" if f: "fwd = Some (e, n)"
  proof -
    obtain k where k: "(k, e) \<in> set (mc_entries s)" "forward_at m tokens k n"
      using spec [of e n, THEN conjunct1] f by auto
    then have "0 < n" "n < length tokens" "E (take n tokens) = Some e" using in_iff [of k e] by (auto simp: forward_at_def)
    moreover have "E (take i tokens) = None" if "n < i" "i < length tokens" for i
      using top [of i] that f by (cases "E (take i tokens)") (auto simp: best_of_def)
    ultimately show ?thesis by (simp add: longest_beginning_def)
  qed
  show "\<not> longest_beginning E tokens i e" if "fwd = None"
    using top [of i e] that by (auto simp: longest_beginning_def best_of_def)
  show "\<exists>us. us \<noteq> [] \<and> E (tokens @ us) = Some e" if g: "bwd = Some e"
  proof -
    obtain k where k: "(k, e) \<in> set (mc_entries s)" "reverse_at m tokens k"
      using spec [of e, THEN conjunct2, THEN conjunct2, THEN conjunct2, THEN conjunct1] g by auto
    then show ?thesis using in_iff [of k e] by (auto simp: reverse_at_def)
  qed
  show "E (tokens @ us) = None" if "bwd = None" "us \<noteq> []"
  proof (cases "E (tokens @ us)")
    case (Some e)
    then have "(mem_key_of m (tokens @ us), e) \<in> set (mc_entries s)" using in_iff [of "mem_key_of m (tokens @ us)" e] by simp
    moreover have "reverse_at m tokens (mem_key_of m (tokens @ us))" using that(2) by (simp add: reverse_at_def)
    ultimately show ?thesis
      using spec [THEN conjunct2, THEN conjunct2, THEN conjunct2, THEN conjunct2] that(1) by auto
  qed
qed

lemma longest_unique: "longest_beginning E tokens n e \<Longrightarrow> longest_beginning E tokens n' e' \<Longrightarrow> n' = n \<and> e' = e"
proof -
  assume a: "longest_beginning E tokens n e" "longest_beginning E tokens n' e'"
  then have "\<not> n < n'" "\<not> n' < n" by (auto simp: longest_beginning_def)
  then show ?thesis using a by (simp add: longest_beginning_def)
qed

lemma commit_answer:
  "fst (fetch_commit now tokens r s) = (case r of None \<Rightarrow> (None, tokens) | Some (c, i, k, n, rest) \<Rightarrow> (Some c, rest))"
  by (simp add: fetch_commit_def split: option.split prod.split)

lemma mem_fetch_served:
  fixes rp dumps clone trunc extra now
  assumes b: "mem_books s" and ne: "tokens \<noteq> []"
  defines "E \<equiv> \<lambda>ts. live_entry now s (mem_key_of (canonical_cache_extra_marker rp dumps extra) ts)"
  shows "mem_served clone trunc E tokens (fst (mem_fetch rp dumps clone trunc now now' s tokens extra))"
proof -
  define m where "m = canonical_cache_extra_marker rp dumps extra"
  define s1 where "s1 = expire now s"
  have b1: "pd_ok (mc_entries s1)"
  proof (cases "mc_ttl s > 0")
    case True
    have "mem_books (fold drop_entry (expired_keys now s) s)" using fold_drop [OF b] by (simp add: mem_shrunk_def)
    then show ?thesis using True books_pd by (auto simp: s1_def expire_def evict_expired_def Let_def)
  qed (simp add: s1_def expire_def books_pd [OF b])
  have E: "pd_get (mc_entries s1) (mem_key_of m ts) = E ts" for ts
    unfolding s1_def expire_get [OF b] E_def m_def by (rule refl)
  show ?thesis
  proof (cases "E tokens")
    case (Some e)
    let ?m = "\<lparr>mm_hit = Some (e, mem_key_of m tokens, length tokens, False), mm_reverse = None\<rparr>"
    have "fetch_match rp dumps now s tokens extra = (Some ?m, s1)"
      using Some by (simp add: fetch_match_def Let_def mem_entry_key_of m_def [symmetric] E flip: expire_def s1_def)
    then have "fst (mem_fetch rp dumps clone trunc now now' s tokens extra) =
        (case clone (me_cache e) (length tokens) of None \<Rightarrow> (None, tokens) | Some c \<Rightarrow> (Some c, []))"
      using ne by (simp add: mem_fetch_def commit_answer clone_match_def split: option.split)
    then show ?thesis using Some by (simp add: mem_served_def split: option.split)
  next
    case None
    obtain fwd bwd where sc: "scan_matches m tokens (mc_entries s1) None None = (fwd, bwd)" by fastforce
    note found = scan_found [OF b1 sc, unfolded E]
    let ?hit = "map_option (\<lambda>(e, n). (e, mem_entry_key rp dumps (me_tokens e) extra, n, True)) fwd"
    let ?m = "\<lparr>mm_hit = ?hit, mm_reverse = bwd\<rparr>"
    have fm: "fetch_match rp dumps now s tokens extra = (if fwd = None \<and> bwd = None
        then (None, upd_mem_stats (\<lambda>st. st\<lparr>ms_misses := ms_misses st + 1\<rparr>) s1) else (Some ?m, s1))"
      using None sc by (simp add: fetch_match_def Let_def mem_entry_key_of m_def [symmetric] E flip: expire_def s1_def)
    have ans: "fst (mem_fetch rp dumps clone trunc now now' s tokens extra) =
        (case (case fwd of None \<Rightarrow> None | Some (e, n) \<Rightarrow> map_option (\<lambda>c. (c, drop n tokens)) (clone (me_cache e) n)) of
           Some (c, rest) \<Rightarrow> (Some c, rest)
         | None \<Rightarrow> (case bwd of None \<Rightarrow> (None, tokens)
            | Some e \<Rightarrow> (case trunc (me_cache e) (length tokens) of None \<Rightarrow> (None, tokens) | Some c \<Rightarrow> (Some c, []))))"
      using ne unfolding mem_fetch_def fm
      by (auto simp: commit_answer clone_match_def split: option.split)
    have noclone: "clone (me_cache e) n = None"
      if "longest_beginning E tokens n e" "case fwd of None \<Rightarrow> True | Some (e, n) \<Rightarrow> clone (me_cache e) n = None" for n e
      using that found(1) [of "fst (the fwd)" "snd (the fwd)"] found(2) [of n e] longest_unique [of E tokens n e]
      by (cases fwd) auto
    show ?thesis
    proof (cases "case fwd of None \<Rightarrow> True | Some (e, n) \<Rightarrow> clone (me_cache e) n = None")
      case False
      then obtain e n c where f: "fwd = Some (e, n)" "clone (me_cache e) n = Some c" by (cases fwd) auto
      then show ?thesis using ans None found(1) [of e n] unfolding mem_served_def by (simp only: ans) auto
    next
      case True
      note noc = noclone [OF _ True]
      show ?thesis
      proof (cases bwd)
        case None2: None
        have "fst (mem_fetch rp dumps clone trunc now now' s tokens extra) = (None, tokens)"
          using True None2 unfolding ans by (auto split: option.splits)
        then show ?thesis using None noc found(4) [OF None2] by (simp add: mem_served_def)
      next
        case (Some e)
        have a: "fst (mem_fetch rp dumps clone trunc now now' s tokens extra) =
            (case trunc (me_cache e) (length tokens) of None \<Rightarrow> (None, tokens) | Some c \<Rightarrow> (Some c, []))"
          using True Some unfolding ans by (auto split: option.splits)
        obtain us where us: "us \<noteq> []" "E (tokens @ us) = Some e" using found(3) [OF Some] by blast
        show ?thesis
        proof (cases "trunc (me_cache e) (length tokens)")
          case None3: None
          then show ?thesis using None noc us unfolding mem_served_def a by auto
        next
          case (Some c)
          then show ?thesis using None noc us unfolding mem_served_def a by auto
        qed
      qed
    qed
  qed
qed

text \<open>A fetch keeps the caches that have not expired.\<close>

lemma commit_caches:
  "map_option me_cache (pd_get (mc_entries (snd (fetch_commit now tokens r s))) k) = map_option me_cache (pd_get (mc_entries s) k)"
  using fetch_commit_forms [of now tokens r s]
proof (elim disjE exE conjE)
  fix f k' e
  assume "snd (fetch_commit now tokens r s) = upd_mem_stats f (touch_served now k' e s)" "pd_get (mc_entries s) k' = Some e"
  then show ?thesis by (simp add: upd_mem_stats_def touch_served_def)
qed (simp add: upd_mem_stats_def)

lemma match_entries: "mc_entries (snd (fetch_match rp dumps now s tokens extra)) = mc_entries (expire now s)"
  by (simp add: fetch_match_def Let_def upd_mem_stats_def split: option.split prod.split flip: expire_def)

lemma fetch_caches:
  assumes "mem_books s" "tokens \<noteq> []"
  shows "map_option me_cache (pd_get (mc_entries (snd (mem_fetch rp dumps clone trunc now now' s tokens extra))) k) =
    map_option me_cache (live_entry now s k)"
proof -
  obtain mo s1 where f: "fetch_match rp dumps now s tokens extra = (mo, s1)" by fastforce
  have "pd_get (mc_entries s1) k = live_entry now s k"
    using match_entries [of rp dumps now s tokens extra] expire_get [OF assms(1), of now k] f by simp
  then show ?thesis using assms(2) by (simp add: mem_fetch_def f commit_caches split: option.split)
qed

section \<open>A concrete run\<close>

definition demo_env :: mem_env where
  "demo_env = \<lparr>env_entry_cap = (\<lambda>m. m * 95 div 100), env_low = (\<lambda>a t. 5 * a < t), env_vm = None\<rparr>"

definition demo_mem_layer :: "nat cache_layer" where
  "demo_mem_layer = Obj_Layer ''KVCache'' (Some (Arrays (Some 8) (Some 8))) None 0 None None None None True 5"

definition demo_mem :: "nat mem_cache" where
  "demo_mem = snd (mem_store (\<lambda>_. []) (\<lambda>_. None) demo_env 0 (new_mem_cache 1000 3 0 0) [1, 2] [demo_mem_layer] ''user'' PyNone)"

lemma demo_env_sane: "env_sane demo_env"
proof -
  have "m * 95 div 100 \<le> m" if "0 \<le> m" for m :: int
    using zdiv_mono1 [of "m * 95" "m * 100" 100] that by simp
  then show ?thesis by (simp add: env_sane_def demo_env_def)
qed

lemma demo_mem_reachable: "mem_reachable (\<lambda>_. []) (\<lambda>_. None) demo_mem"
  unfolding demo_mem_def by (intro stored created demo_env_sane) simp_all

lemma demo_mem_eq:
  "demo_mem = \<lparr>mc_entries = [(Plain [1, 2], \<lparr>me_id = 0, me_tokens = [1, 2], me_cache = [demo_mem_layer], me_bytes = 16,
       me_last_accessed = 0, me_type = User\<rparr>)],
     mc_lru = (\<lambda>_. [])(User := [Plain [1, 2]]), mc_bytes_by_type = (\<lambda>_. 0)(User := 16), mc_base_limit = 1000,
     mc_max_memory = 1000, mc_current = 16, mc_last_check = 0, mc_ttl = 0, mc_max_entries = 3,
     mc_stats = \<lparr>ms_hits = 0, ms_misses = 0, ms_evictions = 0, ms_tokens_saved = 0, ms_current = 16, ms_max = 1000,
       ms_entry_count = 1\<rparr>, mc_next_id = 1\<rparr>"
proof -
  have r: "make_room n s = s" if "mc_entries s = []" for n and s :: "nat mem_cache"
    using that by (simp add: make_room.simps [of n s])
  show ?thesis
    by (simp add: demo_mem_def mem_store_def Let_def check_memory_pressure_def pressure_check_interval_def new_mem_cache_def
      mem_entry_key_def canonical_cache_extra_marker_def demo_env_def demo_mem_layer_def opt_bytes_def r insert_entry_def
      sync_stats_def bucket_set_def cache_type_of_def fresh_mem_stats_def fun_eq_iff)
qed

section \<open>Properties\<close>

text \<open>
  C31. In every reachable state, whatever the interleaving of stores, removals and the two halves of fetches:
  each cached key stands exactly once in the bucket of its entry's type, the byte counters are the sums of
  the entries' bytes, no more than \<open>max_entries\<close> entries and no more bytes than the base limit are held, and
  the published statistics are those of the state.
\<close>

theorem memory_books_balance:
  assumes "mem_reachable rp dumps s"
  shows "(\<forall>t. distinct (mc_lru s t) \<and>
       (\<forall>k. k \<in> set (mc_lru s t) \<longleftrightarrow> (\<exists>e. pd_get (mc_entries s) k = Some e \<and> me_type e = t)) \<and>
       mc_bytes_by_type s t = (\<Sum>k\<leftarrow>mc_lru s t. case pd_get (mc_entries s) k of Some e \<Rightarrow> int (me_bytes e) | None \<Rightarrow> 0)) \<and>
     mc_current s = (\<Sum>t\<leftarrow>cache_type_priority. mc_bytes_by_type s t) \<and>
     mc_current s \<le> mc_base_limit s \<and> mem_len s \<le> mc_max_entries s \<and>
     ms_entry_count (mc_stats s) = mem_len s \<and> ms_current (mc_stats s) = mc_current s \<and> ms_max (mc_stats s) = mc_max_memory s"
proof -
  have ok: "mem_ok s" by (rule mem_reachable_ok [OF assms])
  then have ty: "typed_ok (mem_view s) (mc_lru s) (mc_bytes_by_type s) (mc_current s)" by (simp add: mem_ok_def mem_books_def)
  have E: "entry_bytes (mem_view s) = (\<lambda>k. case pd_get (mc_entries s) k of Some e \<Rightarrow> int (me_bytes e) | None \<Rightarrow> 0)"
    by (simp add: fun_eq_iff entry_bytes_def mem_view_def split: option.split)
  have "mc_bytes_by_type s t = (\<Sum>k\<leftarrow>mc_lru s t. case pd_get (mc_entries s) k of Some e \<Rightarrow> int (me_bytes e) | None \<Rightarrow> 0)" for t
    using typed_ok_bytes [OF ty, of t] unfolding bucket_bytes_def E .
  moreover have "k \<in> set (mc_lru s t) \<longleftrightarrow> (\<exists>e. pd_get (mc_entries s) k = Some e \<and> me_type e = t)" for t k
    using typed_ok_in [OF ty, of k t] by (auto simp: mem_view_def)
  moreover have "mc_current s = (\<Sum>t\<leftarrow>cache_type_priority. mc_bytes_by_type s t)"
    using typed_ok_total [OF ty] by (simp add: cache_type_priority_def)
  ultimately show ?thesis using typed_ok_distinct [OF ty] ok by (simp add: mem_ok_def mem_synced_def mem_within_def mem_len_def)
qed

theorem memory_books_balance_witness: "mc_current demo_mem \<le> 1000 \<and> mem_len demo_mem \<le> 3"
  using memory_books_balance [OF demo_mem_reachable] by (simp add: demo_mem_eq)

text \<open>
  C32. A fetch answers from the unexpired entries of the request's discriminator: a clone of the entry of
  exactly these tokens; else a clone of the longest cached proper beginning, with the rest left to do; else,
  when there is none or it cannot be cloned, a cached extension cut to the request.  It misses only when
  what it found cannot be cloned or cut, it never hands out a stored cache itself, and the caches it leaves
  are the unexpired ones, unchanged.
\<close>

theorem memory_fetch_longest_prefix:
  assumes "mem_reachable rp dumps s" "tokens \<noteq> []" "mem_fetch rp dumps clone trunc now now' s tokens extra = (ans, s')"
  shows "mem_served clone trunc (\<lambda>ts. live_entry now s (mem_key_of (canonical_cache_extra_marker rp dumps extra) ts)) tokens ans \<and>
    (\<forall>k. map_option me_cache (pd_get (mc_entries s') k) = map_option me_cache (live_entry now s k))"
proof -
  have b: "mem_books s" using mem_reachable_ok [OF assms(1)] by (simp add: mem_ok_def)
  show ?thesis
    using mem_fetch_served [OF b assms(2), where clone = clone and trunc = trunc and now = now and now' = now' and rp = rp and dumps = dumps
        and extra = extra]
      fetch_caches [OF b assms(2), where clone = clone and trunc = trunc and now = now and now' = now' and rp = rp and dumps = dumps
        and extra = extra] assms(3) by simp
qed

theorem memory_fetch_longest_prefix_witness:
  "fst (mem_fetch (\<lambda>_. []) (\<lambda>_. None) (\<lambda>c _. Some c) (\<lambda>_ _. None) 1 1 demo_mem [1, 2, 3] PyNone) = (Some [demo_mem_layer], [3])"
proof -
  let ?E = "\<lambda>ts. live_entry 1 demo_mem (mem_key_of (canonical_cache_extra_marker (\<lambda>_. []) (\<lambda>_. None) PyNone) ts)"
  obtain ans s' where f: "mem_fetch (\<lambda>_. []) (\<lambda>_. None) (\<lambda>c _. Some c) (\<lambda>_ _. None) 1 1 demo_mem [1, 2, 3] PyNone = (ans, s')"
    by fastforce
  have sv: "mem_served (\<lambda>c _. Some c) (\<lambda>_ _. None) ?E [1, 2, 3] ans"
    using memory_fetch_longest_prefix [OF demo_mem_reachable _ f] by simp
  have E: "?E ts = (if ts = [1, 2] then pd_get (mc_entries demo_mem) (Plain [1, 2]) else None)" for ts
    by (simp add: live_entry_def demo_mem_eq mem_key_of_def canonical_cache_extra_marker_def)
  have e: "pd_get (mc_entries demo_mem) (Plain [1, 2]) = Some \<lparr>me_id = 0, me_tokens = [1, 2], me_cache = [demo_mem_layer],
      me_bytes = 16, me_last_accessed = 0, me_type = User\<rparr>" by (simp add: demo_mem_eq)
  have l: "longest_beginning ?E [1, 2, 3] 2 \<lparr>me_id = 0, me_tokens = [1, 2], me_cache = [demo_mem_layer],
      me_bytes = 16, me_last_accessed = 0, me_type = User\<rparr>" unfolding longest_beginning_def E e by auto
  have u: "n = 2 \<and> me_cache x = [demo_mem_layer]" if "longest_beginning ?E [1, 2, 3] n x" for n x
    using longest_unique [OF l that] by simp
  have n: "?E [1, 2, 3] = None" "?E ([1, 2, 3] @ us) = None" for us by (simp_all add: E)
  obtain a rest where ans: "ans = (a, rest)" by (cases ans)
  show ?thesis
  proof (cases a)
    case None
    then show ?thesis using sv l n unfolding mem_served_def ans by auto
  next
    case (Some c)
    then obtain i x where x: "longest_beginning ?E [1, 2, 3] i x" "c = me_cache x" "rest = drop i [1, 2, 3]"
      using sv n unfolding mem_served_def ans by auto
    then show ?thesis using u [OF x(1)] Some by (simp add: f ans)
  qed
qed

text \<open>
  C33. A store that reports success has the sequence cached: a new one with its layers, type and time, within
  the current byte budget; one cached before keeps its layers, and its type only ever rises in the order
  assistant, user, system.  A store that reports failure caches nothing.  Either way every other cached
  sequence is kept as it is or evicted, and none appears.
\<close>

theorem memory_store_outcome:
  assumes "mem_reachable rp dumps s" "env_sane env" "mem_store rp dumps env now s tokens layers ct extra = (b, s')"
  shows "let k = mem_entry_key rp dumps tokens extra in
    (\<forall>k'. k' \<noteq> k \<or> \<not> b \<longrightarrow> pd_get (mc_entries s') k' = None \<or> pd_get (mc_entries s') k' = pd_get (mc_entries s) k') \<and>
    (b \<longrightarrow> (case pd_get (mc_entries s) k of
       Some old \<Rightarrow> pd_get (mc_entries s') k = Some (old\<lparr>me_type := max (cache_type_of ct) (me_type old)\<rparr>)
     | None \<Rightarrow> (\<exists>e. pd_get (mc_entries s') k = Some e \<and> me_cache e = layers \<and> me_type e = cache_type_of ct \<and>
         me_last_accessed e = now \<and> mc_current s' \<le> mc_max_memory s')))"
  using mem_reachable_ok [OF assms(1)] assms(2,3)
proof (cases rule: mem_store_cases)
  case (new e)
  then show ?thesis by (simp add: Let_def)
qed (simp_all add: Let_def)

theorem memory_store_outcome_witness:
  "pd_get (mc_entries (snd (mem_store (\<lambda>_. []) (\<lambda>_. None) demo_env 5 demo_mem [1, 2] [demo_mem_layer] ''assistant'' PyNone)))
     (Plain [1, 2]) = pd_get (mc_entries demo_mem) (Plain [1, 2])"
proof -
  obtain b s' where st: "mem_store (\<lambda>_. []) (\<lambda>_. None) demo_env 5 demo_mem [1, 2] [demo_mem_layer] ''assistant'' PyNone = (b, s')"
    by fastforce
  have "b" using st by (simp add: mem_store_def Let_def check_memory_pressure_def pressure_check_interval_def demo_mem_eq
    mem_entry_key_def canonical_cache_extra_marker_def)
  then show ?thesis using memory_store_outcome [OF demo_mem_reachable demo_env_sane st] st
    by (simp add: Let_def mem_entry_key_def canonical_cache_extra_marker_def demo_mem_eq cache_type_of_def max_def cache_type_order)
qed

text \<open>
  The second half of a fetch cannot resurrect or disturb anything: when the entry it served was dropped
  or replaced by another under the same key in the meantime, the entries and their recency are exactly what
  they were; the clone is still returned and counted as a hit.
\<close>

lemma stale_commit_changes_nothing:
  assumes "mem_reachable rp dumps s" "pd_get (mc_entries s) k = None \<or> (\<exists>e. pd_get (mc_entries s) k = Some e \<and> me_id e \<noteq> i)"
  shows "let (ans, s') = fetch_commit now tokens (Some (c, i, k, n, rest)) s
     in ans = (Some c, rest) \<and> mc_entries s' = mc_entries s \<and> mc_lru s' = mc_lru s \<and> mc_current s' = mc_current s \<and>
        ms_hits (mc_stats s') = ms_hits (mc_stats s) + 1"
  using assms(2) by (auto simp: fetch_commit_def upd_mem_stats_def)

end
