(* ===== verification/Mesh_Wire.thy ===== *)
theory Mesh_Wire
  imports Py_Values "HOL-Library.Word"
begin

text \<open>
  The wire protocol of distributed inference (\<open>vmlx_engine/distributed/protocol.py\<close>): a four-byte big-endian
  length, a JSON header and an optional binary payload.  JSON itself is two parameters, \<open>dumps\<close> and \<open>loads\<close>
  (\<open>None\<close> when the bytes are no JSON object).
\<close>

section \<open>Messages\<close>

datatype message_type =
    JOIN | LOAD_LAYERS | FORWARD | CACHE_OP | HEALTH | SHUTDOWN
  | JOIN_ACK | LOAD_ACK | FORWARD_RESULT | CACHE_ACK | HEALTH_ACK | ERROR
  | BANDWIDTH_PROBE

fun message_value :: "message_type \<Rightarrow> string" where
  "message_value JOIN = ''join''"
| "message_value LOAD_LAYERS = ''load_layers''"
| "message_value FORWARD = ''forward''"
| "message_value CACHE_OP = ''cache_op''"
| "message_value HEALTH = ''health''"
| "message_value SHUTDOWN = ''shutdown''"
| "message_value JOIN_ACK = ''join_ack''"
| "message_value LOAD_ACK = ''load_ack''"
| "message_value FORWARD_RESULT = ''forward_result''"
| "message_value CACHE_ACK = ''cache_ack''"
| "message_value HEALTH_ACK = ''health_ack''"
| "message_value ERROR = ''error''"
| "message_value BANDWIDTH_PROBE = ''bandwidth_probe''"

definition message_types :: "message_type list" where
  "message_types = [JOIN, LOAD_LAYERS, FORWARD, CACHE_OP, HEALTH, SHUTDOWN, JOIN_ACK, LOAD_ACK, FORWARD_RESULT,
     CACHE_ACK, HEALTH_ACK, ERROR, BANDWIDTH_PROBE]"

text \<open>\<open>MessageType(v)\<close>: \<open>None\<close> for \<open>ValueError\<close>.\<close>

definition message_type_of :: "pyval \<Rightarrow> message_type option" where
  "message_type_of v = find (\<lambda>t. v = PyStr (message_value t)) message_types"

type_synonym bytes = "8 word list"
type_synonym header = "(string, pyval) pydict"

record message =
  msg_type :: message_type
  msg_metadata :: header
  msg_payload :: "bytes option"

definition payload_size :: "message \<Rightarrow> nat" where
  "payload_size m = (case msg_payload m of None \<Rightarrow> 0 | Some p \<Rightarrow> length p)"

section \<open>Encoding\<close>

text \<open>\<open>struct.pack(">I", n)\<close> raises for numbers of more than 32 bits; \<open>struct.unpack\<close>.\<close>

definition pack_be32 :: "nat \<Rightarrow> bytes option" where
  "pack_be32 n =
     (if n < 2 ^ 32 then Some [of_nat (n div 2 ^ 24), of_nat (n div 2 ^ 16), of_nat (n div 2 ^ 8), of_nat n] else None)"

definition unpack_be32 :: "bytes \<Rightarrow> nat" where
  "unpack_be32 bs = foldl (\<lambda>a b. a * 256 + unat b) 0 bs"

text \<open>The header: type, size and time stamp, then the metadata, which may replace them.\<close>

definition message_header :: "pyval \<Rightarrow> message \<Rightarrow> header" where
  "message_header ts m =
     foldl (\<lambda>d (k, v). pd_set d k v)
       [(''type'', PyStr (message_value (msg_type m))), (''size'', PyInt (int (payload_size m))), (''ts'', ts)] (msg_metadata m)"

definition encode_message :: "(header \<Rightarrow> bytes) \<Rightarrow> pyval \<Rightarrow> message \<Rightarrow> bytes option" where
  "encode_message dumps ts m =
     (let hb = dumps (message_header ts m)
      in case pack_be32 (length hb) of
           None \<Rightarrow> None
         | Some l \<Rightarrow> Some (l @ hb @ (case msg_payload m of None \<Rightarrow> [] | Some p \<Rightarrow> p)))"

section \<open>Decoding\<close>

datatype wire_error = Incomplete_Read | Header_Too_Large | Bad_Json | Missing_Type | Unknown_Type | Bad_Size

definition max_header :: nat where "max_header = 100 * 1024 * 1024"

text \<open>\<open>reader.readexactly(n)\<close> on the bytes the stream still holds.\<close>

definition readexactly :: "nat \<Rightarrow> bytes \<Rightarrow> wire_error + bytes \<times> bytes" where
  "readexactly n bs = (if length bs < n then Inl Incomplete_Read else Inr (take n bs, drop n bs))"

text \<open>The size field: an integer; anything else cannot be compared or read.\<close>

fun size_of_header :: "pyval option \<Rightarrow> wire_error + int" where
  "size_of_header None = Inr 0"
| "size_of_header (Some (PyInt n)) = Inr n"
| "size_of_header (Some (PyBool b)) = Inr (if b then 1 else 0)"
| "size_of_header (Some _) = Inl Bad_Size"

definition read_message :: "(bytes \<Rightarrow> header option) \<Rightarrow> bytes \<Rightarrow> wire_error + message \<times> bytes" where
  "read_message loads bs =
     (case readexactly 4 bs of
        Inl e \<Rightarrow> Inl e
      | Inr (lb, bs1) \<Rightarrow>
          (let n = unpack_be32 lb
           in if n > max_header then Inl Header_Too_Large
              else case readexactly n bs1 of
                Inl e \<Rightarrow> Inl e
              | Inr (hb, bs2) \<Rightarrow>
                  (case loads hb of
                     None \<Rightarrow> Inl Bad_Json
                   | Some h \<Rightarrow>
                       (case pd_get h ''type'' of
                          None \<Rightarrow> Inl Missing_Type
                        | Some v \<Rightarrow>
                            (case message_type_of v of
                               None \<Rightarrow> Inl Unknown_Type
                             | Some t \<Rightarrow>
                                 (let h1 = pd_del h ''type''
                                  in case size_of_header (pd_get h1 ''size'') of
                                       Inl e \<Rightarrow> Inl e
                                     | Inr sz \<Rightarrow>
                                         (let md = pd_del (pd_del h1 ''size'') ''ts''
                                          in if sz > 0 then
                                               (case readexactly (nat sz) bs2 of
                                                  Inl e \<Rightarrow> Inl e
                                                | Inr (p, bs3) \<Rightarrow> Inr (\<lparr>msg_type = t, msg_metadata = md, msg_payload = Some p\<rparr>, bs3))
                                             else Inr (\<lparr>msg_type = t, msg_metadata = md, msg_payload = None\<rparr>, bs2))))))))"

text \<open>Reading several messages off one stream.\<close>

fun read_messages :: "(bytes \<Rightarrow> header option) \<Rightarrow> nat \<Rightarrow> bytes \<Rightarrow> wire_error + message list \<times> bytes" where
  "read_messages loads 0 bs = Inr ([], bs)"
| "read_messages loads (Suc k) bs =
     (case read_message loads bs of
        Inl e \<Rightarrow> Inl e
      | Inr (m, bs1) \<Rightarrow> (case read_messages loads k bs1 of Inl e \<Rightarrow> Inl e | Inr (ms, bs2) \<Rightarrow> Inr (m # ms, bs2)))"

section \<open>Message builders\<close>

definition make_join :: "string \<Rightarrow> pyval \<Rightarrow> message" where
  "make_join secret node = \<lparr>msg_type = JOIN, msg_metadata = [(''secret'', PyStr secret), (''node'', node)], msg_payload = None\<rparr>"

definition make_join_ack :: "bool \<Rightarrow> pyval \<Rightarrow> message" where
  "make_join_ack accepted caps =
     \<lparr>msg_type = JOIN_ACK, msg_metadata = [(''accepted'', PyBool accepted), (''capabilities'', caps)], msg_payload = None\<rparr>"

definition make_load_layers :: "string \<Rightarrow> int \<Rightarrow> int \<Rightarrow> (pyval \<times> pyval) list option \<Rightarrow> message" where
  "make_load_layers path first last_excl quant =
     \<lparr>msg_type = LOAD_LAYERS,
      msg_metadata = [(''model_path'', PyStr path), (''layer_start'', PyInt first), (''layer_end'', PyInt last_excl),
        (''quantization'', PyDict (case quant of None \<Rightarrow> [] | Some d \<Rightarrow> d))], msg_payload = None\<rparr>"

definition make_health :: message where
  "make_health = \<lparr>msg_type = HEALTH, msg_metadata = [], msg_payload = None\<rparr>"

definition make_health_ack :: "header \<Rightarrow> message" where
  "make_health_ack stats = \<lparr>msg_type = HEALTH_ACK, msg_metadata = stats, msg_payload = None\<rparr>"

definition make_error :: "string \<Rightarrow> string \<Rightarrow> message" where
  "make_error code text = \<lparr>msg_type = ERROR, msg_metadata = [(''code'', PyStr code), (''message'', PyStr text)], msg_payload = None\<rparr>"

definition make_shutdown :: message where
  "make_shutdown = \<lparr>msg_type = SHUTDOWN, msg_metadata = [], msg_payload = None\<rparr>"

definition make_cache_release :: "string \<Rightarrow> message" where
  "make_cache_release rid =
     \<lparr>msg_type = CACHE_OP, msg_metadata = [(''op'', PyStr ''release''), (''request_id'', PyStr rid)], msg_payload = None\<rparr>"

text \<open>The request id of an acknowledgement is whatever value the release carried.\<close>

definition make_cache_ack :: "pyval \<Rightarrow> bool \<Rightarrow> message" where
  "make_cache_ack rid ok =
     \<lparr>msg_type = CACHE_ACK, msg_metadata = [(''request_id'', rid), (''success'', PyBool ok)], msg_payload = None\<rparr>"

section \<open>Length prefix and header\<close>

lemma unat_byte: "unat (of_nat n :: 8 word) = n mod 256"
  by (simp add: unat_of_nat)

lemma pack_unpack: "pack_be32 n = Some bs \<Longrightarrow> unpack_be32 bs = n \<and> length bs = 4"
proof -
  assume p: "pack_be32 n = Some bs"
  define a where "a = n div 256"
  define b where "b = a div 256"
  define c where "c = b div 256"
  have n: "n < 256 * (256 * (256 * 256))" using p by (simp add: pack_be32_def split: if_splits)
  have d: "n div 16777216 = c" "n div 65536 = b" "n div 256 = a" by (simp_all add: a_def b_def c_def div_mult2_eq [symmetric])
  have "bs = [of_nat c, of_nat b, of_nat a, of_nat n]" using p by (simp add: pack_be32_def d split: if_splits)
  moreover have "c < 256" using n by (simp add: a_def b_def c_def div_mult2_eq [symmetric] less_mult_imp_div_less)
  ultimately have "unpack_be32 bs = ((c * 256 + b mod 256) * 256 + a mod 256) * 256 + n mod 256"
    by (simp add: unpack_be32_def unat_byte)
  also have "\<dots> = n"
  proof -
    have "c * 256 + b mod 256 = b" unfolding c_def by (rule div_mult_mod_eq)
    moreover have "b * 256 + a mod 256 = a" unfolding b_def by (rule div_mult_mod_eq)
    moreover have "a * 256 + n mod 256 = n" unfolding a_def by (rule div_mult_mod_eq)
    ultimately show ?thesis by simp
  qed
  finally show ?thesis using \<open>bs = _\<close> by simp
qed

lemma message_type_roundtrip: "message_type_of (PyStr (message_value t)) = Some t"
  by (cases t) (simp_all add: message_type_of_def message_types_def)

definition reserved_keys :: "string set" where
  "reserved_keys = {''type'', ''size'', ''ts''}"

lemma foldl_pd_set_fresh:
  "pd_ok md \<Longrightarrow> fst ` set md \<inter> fst ` set d = {} \<Longrightarrow> foldl (\<lambda>d (k, v). pd_set d k v) d md = d @ md"
proof (induction md arbitrary: d)
  case (Cons kv md)
  obtain k v where kv: "kv = (k, v)" by (cases kv)
  have "k \<notin> fst ` set d" using Cons.prems(2) kv by auto
  then have s: "pd_set d k v = d @ [(k, v)]"
    by (induction d k v rule: pd_set.induct) auto
  have "foldl (\<lambda>d (k, v). pd_set d k v) (d @ [(k, v)]) md = (d @ [(k, v)]) @ md"
    by (rule Cons.IH) (use Cons.prems kv in auto)
  then show ?case by (simp add: kv s)
qed simp

lemma foldl_pd_set_get:
  "pd_ok md \<Longrightarrow> pd_get (foldl (\<lambda>d (k, v). pd_set d k v) d md) k = (case pd_get md k of None \<Rightarrow> pd_get d k | Some v \<Rightarrow> Some v)"
proof (induction md arbitrary: d)
  case (Cons kv md)
  obtain k' v where kv: "kv = (k', v)" by (cases kv)
  have "pd_get md k' = None" using Cons.prems by (simp add: kv pd_get_None_iff)
  then show ?case using Cons by (auto simp: kv split: option.splits)
qed simp

lemma filter_pd_set:
  "filter (\<lambda>(k, _). k \<notin> R) (pd_set d k v) = (if k \<in> R then filter (\<lambda>(k, _). k \<notin> R) d else pd_set (filter (\<lambda>(k, _). k \<notin> R) d) k v)"
  by (induction d k v rule: pd_set.induct) auto

lemma filter_foldl_pd_set:
  "filter (\<lambda>(k, _). k \<notin> R) (foldl (\<lambda>d (k, v). pd_set d k v) d md)
    = foldl (\<lambda>d (k, v). pd_set d k v) (filter (\<lambda>(k, _). k \<notin> R) d) (filter (\<lambda>(k, _). k \<notin> R) md)"
  by (induction md arbitrary: d) (auto simp: filter_pd_set)

text \<open>
  What a reader gets of a message: the three keys of the header are taken out of the metadata, and no payload and an
  empty one are the same.
\<close>

definition as_read :: "message \<Rightarrow> message" where
  "as_read m = m\<lparr>msg_metadata := filter (\<lambda>(k, _). k \<notin> reserved_keys) (msg_metadata m),
     msg_payload := if payload_size m = 0 then None else msg_payload m\<rparr>"

lemma as_read_same:
  "fst ` set (msg_metadata m) \<inter> reserved_keys = {} \<Longrightarrow> msg_payload m \<noteq> Some [] \<Longrightarrow> as_read m = m"
proof -
  assume a: "fst ` set (msg_metadata m) \<inter> reserved_keys = {}" "msg_payload m \<noteq> Some []"
  have "filter (\<lambda>(k, _). k \<notin> reserved_keys) (msg_metadata m) = msg_metadata m" using a(1) by (auto simp: filter_id_conv)
  moreover have "(if payload_size m = 0 then None else msg_payload m) = msg_payload m"
    using a(2) by (cases "msg_payload m") (auto simp: payload_size_def)
  ultimately show ?thesis by (simp add: as_read_def)
qed

text \<open>
  What a message needs to be read off the wire: its metadata is a dictionary that does not claim another type or size,
  and its header is a JSON object of at most 100 MB that survives \<open>dumps\<close> and \<open>loads\<close>.
\<close>

definition sendable :: "(header \<Rightarrow> bytes) \<Rightarrow> (bytes \<Rightarrow> header option) \<Rightarrow> pyval \<Rightarrow> message \<Rightarrow> bool" where
  "sendable dumps loads ts m \<longleftrightarrow> pd_ok (msg_metadata m) \<and>
     pd_get (msg_metadata m) ''type'' \<in> {None, Some (PyStr (message_value (msg_type m)))} \<and>
     pd_get (msg_metadata m) ''size'' \<in> {None, Some (PyInt (int (payload_size m)))} \<and>
     loads (dumps (message_header ts m)) = Some (message_header ts m) \<and> length (dumps (message_header ts m)) \<le> max_header"

lemma header_fields:
  assumes "sendable dumps loads ts m"
  shows "pd_get (message_header ts m) ''type'' = Some (PyStr (message_value (msg_type m)))"
    "pd_get (message_header ts m) ''size'' = Some (PyInt (int (payload_size m)))"
    "pd_del (pd_del (pd_del (message_header ts m) ''type'') ''size'') ''ts'' = filter (\<lambda>(k, _). k \<notin> reserved_keys) (msg_metadata m)"
proof -
  have ok: "pd_ok (msg_metadata m)" using assms by (simp add: sendable_def)
  show "pd_get (message_header ts m) ''type'' = Some (PyStr (message_value (msg_type m)))"
    "pd_get (message_header ts m) ''size'' = Some (PyInt (int (payload_size m)))"
    using assms by (auto simp: message_header_def foldl_pd_set_get [OF ok] sendable_def)
  have "pd_del (pd_del (pd_del d ''type'') ''size'') ''ts'' = filter (\<lambda>(k, _). k \<notin> reserved_keys) d" for d :: header
    by (induction d) (auto simp: pd_del_def reserved_keys_def)
  moreover have "pd_ok (filter (\<lambda>(k, _). k \<notin> reserved_keys) (msg_metadata m))"
    using ok by (simp add: pd_ok_def distinct_map_filter)
  then have "foldl (\<lambda>d (k, v). pd_set d k v) [] (filter (\<lambda>(k, _). k \<notin> reserved_keys) (msg_metadata m))
      = filter (\<lambda>(k, _). k \<notin> reserved_keys) (msg_metadata m)"
    using foldl_pd_set_fresh [of _ "[]"] by simp
  ultimately show "pd_del (pd_del (pd_del (message_header ts m) ''type'') ''size'') ''ts''
      = filter (\<lambda>(k, _). k \<notin> reserved_keys) (msg_metadata m)"
    by (simp add: message_header_def filter_foldl_pd_set) (simp add: reserved_keys_def)
qed

lemma read_encoded:
  assumes s: "sendable dumps loads ts m"
  shows "\<exists>bs. encode_message dumps ts m = Some bs \<and> read_message loads (bs @ rest) = Inr (as_read m, rest)"
proof -
  let ?h = "message_header ts m" and ?p = "case msg_payload m of None \<Rightarrow> [] | Some p \<Rightarrow> p"
  let ?hb = "dumps ?h"
  have len: "length ?hb \<le> max_header" and l: "loads ?hb = Some ?h" using s by (simp_all add: sendable_def)
  have "length ?hb < 2 ^ 32" using len by (simp add: max_header_def)
  then obtain lb where lb: "pack_be32 (length ?hb) = Some lb" by (simp add: pack_be32_def)
  note un = pack_unpack [OF lb]
  note t = header_fields(1) [OF s] and d3 = header_fields(3) [OF s]
  have sz: "size_of_header (pd_get (pd_del ?h ''type'') ''size'') = Inr (int (payload_size m))" by (simp add: header_fields(2) [OF s])
  have enc: "encode_message dumps ts m = Some (lb @ ?hb @ ?p)" by (simp add: encode_message_def lb Let_def)
  have r4: "readexactly 4 ((lb @ ?hb @ ?p) @ rest) = Inr (lb, ?hb @ ?p @ rest)" using un by (simp add: readexactly_def)
  have rh: "readexactly (unpack_be32 lb) (?hb @ ?p @ rest) = Inr (?hb, ?p @ rest)" using un by (simp add: readexactly_def)
  have big: "\<not> unpack_be32 lb > max_header" using un len by simp
  have "read_message loads ((lb @ ?hb @ ?p) @ rest) = Inr (as_read m, rest)"
    unfolding read_message_def r4 Let_def sum.case prod.case rh if_not_P [OF big] l option.case t message_type_roundtrip sz d3
    by (cases "msg_payload m") (auto simp: payload_size_def readexactly_def as_read_def)
  then show ?thesis using enc by blast
qed

section \<open>Framing\<close>

text \<open>
  C36. Framing holds and a message comes back as it was written.  Messages written one after the other are read off
  the stream in their order, and what follows stays for the next reader, when none of them puts another type or size
  into its metadata and the headers are JSON objects of at most 100 MB that survive \<open>dumps\<close> and \<open>loads\<close>.  Each has
  the type, metadata and payload it was sent with, less the metadata keys \<open>type\<close>, \<open>size\<close> and \<open>ts\<close>, which the
  header takes for itself, and an empty payload, which is none.
\<close>

theorem wire_roundtrip:
  assumes "\<forall>m \<in> set ms. sendable dumps loads ts m"
  shows "\<exists>bss. map (encode_message dumps ts) ms = map Some bss \<and>
    read_messages loads (length ms) (concat bss @ rest) = Inr (map as_read ms, rest)"
  using assms
proof (induction ms)
  case (Cons m ms)
  then obtain bss where bss: "map (encode_message dumps ts) ms = map Some bss"
      "read_messages loads (length ms) (concat bss @ rest) = Inr (map as_read ms, rest)" by auto
  obtain bs where "encode_message dumps ts m = Some bs" "read_message loads (bs @ concat bss @ rest) = Inr (as_read m, concat bss @ rest)"
    using read_encoded [of dumps loads ts m "concat bss @ rest"] Cons.prems by auto
  then show ?case using bss by (intro exI [of _ "bs # bss"]) simp
qed simp

definition demo_dumps :: "header \<Rightarrow> bytes" where
  "demo_dumps h = (case pd_get h ''size'' of Some (PyInt n) \<Rightarrow> [of_int n] | _ \<Rightarrow> [])"

definition demo_loads :: "bytes \<Rightarrow> header option" where
  "demo_loads bs = (case bs of [b] \<Rightarrow> Some [(''type'', PyStr ''bandwidth_probe''), (''size'', PyInt (uint b)), (''ts'', PyNone)] | _ \<Rightarrow> None)"

definition demo_probe :: message where
  "demo_probe = \<lparr>msg_type = BANDWIDTH_PROBE, msg_metadata = [], msg_payload = Some [7, 8]\<rparr>"

theorem wire_roundtrip_witness:
  "let reply = demo_probe\<lparr>msg_metadata := [(''size'', PyInt 2)]\<rparr>; none = demo_probe\<lparr>msg_payload := None\<rparr>
   in \<exists>bss. map (encode_message demo_dumps PyNone) [demo_probe, reply, none] = map Some bss \<and>
     read_messages demo_loads 3 (concat bss @ [9]) = Inr ([demo_probe, demo_probe, none], [9])"
proof -
  let ?r = "demo_probe\<lparr>msg_metadata := [(''size'', PyInt 2)]\<rparr>" and ?n = "demo_probe\<lparr>msg_payload := None\<rparr>"
  have "list_all (\<lambda>m. sendable demo_dumps demo_loads PyNone m) [demo_probe, ?r, ?n]"
    by (simp add: sendable_def demo_probe_def demo_dumps_def demo_loads_def message_header_def payload_size_def max_header_def)
  then have "\<forall>m \<in> set [demo_probe, ?r, ?n]. sendable demo_dumps demo_loads PyNone m" by simp
  moreover have "map as_read [demo_probe, ?r, ?n] = [demo_probe, demo_probe, ?n]"
    by (simp add: as_read_def demo_probe_def payload_size_def reserved_keys_def)
  ultimately show ?thesis
    using wire_roundtrip [of "[demo_probe, ?r, ?n]" demo_dumps demo_loads PyNone "[9]"]
    by (simp add: numeral_3_eq_3 Let_def del: read_messages.simps list.map)
qed

end
