(* ===== verification/Mesh_Worker.thy ===== *)
theory Mesh_Worker
  imports Mesh_Wire
begin

text \<open>
  A worker of distributed inference (\<open>vmlx_engine/distributed/worker.py\<close>): it authenticates a coordinator, loads
  a range of layers, runs them on hidden states it is sent with one KV cache slot per request, and reaps slots
  nobody touched for ten minutes.  The file system, the model loader, the layers and the tensor format are
  parameters.  The identity endpoint, the UDP responder and Bonjour are left out.
\<close>

section \<open>Nodes and what a worker calls\<close>

record node_info =
  ni_node_id :: string
  ni_hostname :: string
  ni_address :: string
  ni_port :: int
  ni_chip :: string
  ni_ram_gb :: int
  ni_gpu_cores :: int
  ni_available_gb :: real
  ni_status :: string
  ni_link_type :: string
  ni_bandwidth :: real
  ni_latency :: real
  ni_mlx_version :: string
  ni_vmlx_version :: string
  ni_assigned_layers :: "(int \<times> int) option"

definition node_to_dict :: "node_info \<Rightarrow> (pyval \<times> pyval) list" where
  "node_to_dict n =
     [(PyStr ''node_id'', PyStr (ni_node_id n)), (PyStr ''hostname'', PyStr (ni_hostname n)),
      (PyStr ''address'', PyStr (ni_address n)), (PyStr ''port'', PyInt (ni_port n)), (PyStr ''chip'', PyStr (ni_chip n)),
      (PyStr ''ram_gb'', PyInt (ni_ram_gb n)), (PyStr ''gpu_cores'', PyInt (ni_gpu_cores n)),
      (PyStr ''available_gb'', PyFloat (ni_available_gb n)), (PyStr ''status'', PyStr (ni_status n)),
      (PyStr ''link_type'', PyStr (ni_link_type n)), (PyStr ''measured_bandwidth_mbps'', PyFloat (ni_bandwidth n)),
      (PyStr ''measured_latency_ms'', PyFloat (ni_latency n)), (PyStr ''mlx_version'', PyStr (ni_mlx_version n)),
      (PyStr ''vmlx_version'', PyStr (ni_vmlx_version n)),
      (PyStr ''assigned_layers'', case ni_assigned_layers n of None \<Rightarrow> PyNone | Some (a, b) \<Rightarrow> PyList [PyInt a, PyInt b])]"

text \<open>Attention masks: row \<open>i\<close> says which columns position \<open>i\<close> of the query sees; \<open>None\<close> is no mask.\<close>

type_synonym mask = "bool list list option"

record ('m, 'l, 'c, 'h) mesh_env =
  real_path :: "string \<Rightarrow> string + string"
  is_dir :: "string \<Rightarrow> bool"
  has_config :: "string \<Rightarrow> bool"
  load_model :: "string \<Rightarrow> int \<Rightarrow> int \<Rightarrow> (string + 'm)"
  layers_list :: "'m \<Rightarrow> 'l list option"
  full_cache :: "'m \<Rightarrow> 'c list option"
  layer_count :: "'m \<Rightarrow> nat option"
  apply_layer :: "'l \<Rightarrow> mask \<Rightarrow> 'c option \<Rightarrow> 'h \<Rightarrow> 'h \<times> 'c option"
  save_tensor :: "'h \<Rightarrow> bytes"
  load_tensor :: "bytes \<Rightarrow> 'h option"
  seq_length :: "'h \<Rightarrow> nat"
  tensor_shape :: "'h \<Rightarrow> pyval"
  tensor_dtype :: "'h \<Rightarrow> string"
  gpu_memory_gb :: real
  exn_text :: "py_exn \<Rightarrow> string"
  value_repr :: "pyval \<Rightarrow> string"
  parse_int :: "string \<Rightarrow> int option"

section \<open>State\<close>

record ('m, 'l, 'c) worker =
  w_secret :: string
  w_roots :: "string list"
  w_info :: node_info
  w_model :: "'m option"
  w_layers :: "'l list option"
  w_start :: int
  w_end :: int
  w_cache :: "(string, 'c list option) pydict"
  w_touched :: "(string, real) pydict"
  w_authenticated :: bool
  w_requests :: int
  w_compute_ms :: real

definition new_worker :: "string \<Rightarrow> string list \<Rightarrow> node_info \<Rightarrow> ('m, 'l, 'c) worker may_raise" where
  "new_worker secret roots info =
     (if secret = [] then Inl ValueError
      else Inr \<lparr>w_secret = secret, w_roots = roots, w_info = info, w_model = None, w_layers = None, w_start = 0,
        w_end = 0, w_cache = [], w_touched = [], w_authenticated = False, w_requests = 0, w_compute_ms = 0\<rparr>)"

definition cache_ttl_seconds :: real where "cache_ttl_seconds = 600"

definition metadata_get :: "message \<Rightarrow> string \<Rightarrow> pyval \<Rightarrow> pyval" where
  "metadata_get m k d = (case pd_get (msg_metadata m) k of None \<Rightarrow> d | Some v \<Rightarrow> v)"

definition set_status :: "string \<Rightarrow> ('m, 'l, 'c) worker \<Rightarrow> ('m, 'l, 'c) worker" where
  "set_status s w = w\<lparr>w_info := (w_info w)\<lparr>ni_status := s\<rparr>\<rparr>"

text \<open>The replies with tensors or load results.\<close>

definition make_load_ack :: "bool \<Rightarrow> int \<Rightarrow> real \<Rightarrow> real \<Rightarrow> message" where
  "make_load_ack ok n used avail =
     \<lparr>msg_type = LOAD_ACK, msg_metadata = [(''success'', PyBool ok), (''layers_loaded'', PyInt n),
        (''memory_used_gb'', PyFloat used), (''memory_available_gb'', PyFloat avail)], msg_payload = None\<rparr>"

definition make_forward :: "('m, 'l, 'c, 'h) mesh_env \<Rightarrow> 'h \<Rightarrow> string \<Rightarrow> int \<Rightarrow> string option \<Rightarrow> message" where
  "make_forward env h rid pos cid =
     \<lparr>msg_type = FORWARD, msg_metadata = [(''request_id'', PyStr rid), (''seq_pos'', PyInt pos),
        (''cache_id'', case cid of None \<Rightarrow> PyNone | Some c \<Rightarrow> PyStr c),
        (''shape'', tensor_shape env h), (''dtype'', PyStr (tensor_dtype env h))],
      msg_payload = Some (save_tensor env h)\<rparr>"

definition make_forward_result :: "('m, 'l, 'c, 'h) mesh_env \<Rightarrow> 'h \<Rightarrow> string \<Rightarrow> real \<Rightarrow> message" where
  "make_forward_result env h rid ms =
     \<lparr>msg_type = FORWARD_RESULT, msg_metadata = [(''request_id'', PyStr rid), (''compute_time_ms'', PyFloat ms),
        (''shape'', tensor_shape env h), (''dtype'', PyStr (tensor_dtype env h))],
      msg_payload = Some (save_tensor env h)\<rparr>"

section \<open>Joining and loading\<close>

definition estimate_max_layers :: "real \<Rightarrow> int" where
  "estimate_max_layers gb = max 1 (trunc_real (gb / (1 / 2)))"

definition handle_join :: "('m, 'l, 'c) worker \<Rightarrow> message \<Rightarrow> ('m, 'l, 'c) worker \<times> message" where
  "handle_join w m =
     (if metadata_get m ''secret'' (PyStr []) \<noteq> PyStr (w_secret w)
      then (w, make_join_ack False (PyDict [(PyStr ''reason'', PyStr ''invalid_secret'')]))
      else
        (let w1 = set_status ''connected'' (w\<lparr>w_authenticated := True\<rparr>);
             caps = node_to_dict (w_info w1) @ [(PyStr ''max_layers'', PyInt (estimate_max_layers (ni_available_gb (w_info w1))))]
         in (w1, make_join_ack True (PyDict caps))))"

text \<open>\<open>_validate_model_path\<close>: \<open>None\<close>, or the error text.\<close>

fun join_text :: "string list \<Rightarrow> string" where
  "join_text [] = []"
| "join_text [s] = s"
| "join_text (s # ss) = s @ '', '' @ join_text ss"

definition validate_model_path :: "('m, 'l, 'c, 'h) mesh_env \<Rightarrow> string list \<Rightarrow> pyval \<Rightarrow> string option" where
  "validate_model_path env roots v =
     (case v of
        PyStr (c # cs) \<Rightarrow>
          (case real_path env (c # cs) of
             Inl e \<Rightarrow> Some (''model_path resolution failed: '' @ e)
           | Inr p \<Rightarrow>
               if \<not> is_dir env p then Some (''model_path is not a directory: '' @ p)
               else if \<not> has_config env p then Some ''model_path has no config.json''
               else if roots \<noteq> [] \<and> \<not> list_ex (\<lambda>r. p = r \<or> take (Suc (length r)) p = r @ ''/'') roots
                 then Some (''model_path '' @ p @ '' not under any allowed root ('' @ join_text roots @ '')'')
               else None)
      | _ \<Rightarrow> Some ''model_path must be a non-empty string'')"

text \<open>
  \<open>_handle_load_layers\<close> up to the thread that loads, and after it.  The first part answers with an error or
  leaves a load pending; other messages may be handled before the second part.
\<close>

definition auth_error :: message where
  "auth_error = make_error ''auth'' (''Not authenticated '' @ [CHR 0xE2, CHR 0x80, CHR 0x94] @ '' send JOIN first'')"

definition load_begin :: "('m, 'l, 'c, 'h) mesh_env \<Rightarrow> ('m, 'l, 'c) worker \<Rightarrow> message \<Rightarrow>
    ('m, 'l, 'c) worker \<times> (message + (string \<times> int \<times> int))" where
  "load_begin env w m =
     (if \<not> w_authenticated w then (w, Inl auth_error)
      else
        (let path = metadata_get m ''model_path'' (PyStr [])
         in case validate_model_path env (w_roots w) path of
              Some err \<Rightarrow> (w, Inl (make_error ''path'' err))
            | None \<Rightarrow>
                (case (py_int (parse_int env) (metadata_get m ''layer_start'' (PyInt (- 1))),
                       py_int (parse_int env) (metadata_get m ''layer_end'' (PyInt (- 1)))) of
                   (Inr a, Inr b) \<Rightarrow>
                     if a < 0 \<or> b \<le> a
                     then (w, Inl (make_error ''protocol'' (''invalid layer range ['' @ show_int a @ '', '' @ show_int b @ '')'')))
                     else (w\<lparr>w_start := a, w_end := b\<rparr>, Inr (the (py_str_of path), a, b))
                 | _ \<Rightarrow> (w, Inl (make_error ''protocol'' ''layer_start/layer_end must be integers'')))))"

text \<open>\<open>_load_layer_range\<close>.\<close>

definition load_layer_range :: "('m, 'l, 'c, 'h) mesh_env \<Rightarrow> string \<Rightarrow> int \<Rightarrow> int \<Rightarrow> ('m \<times> 'l list) option" where
  "load_layer_range env path a b =
     (case load_model env path a b of
        Inl e \<Rightarrow> None
      | Inr m \<Rightarrow> (case layers_list env m of None \<Rightarrow> None | Some ls \<Rightarrow> Some (m, take (nat b - nat a) (drop (nat a) ls))))"

text \<open>
  The second part reads \<open>self.layer_start\<close> and \<open>self.layer_end\<close> again after the load; the thread got the range
  as arguments.
\<close>

definition load_finish :: "('m, 'l, 'c, 'h) mesh_env \<Rightarrow> ('m, 'l, 'c) worker \<Rightarrow> string \<times> int \<times> int \<Rightarrow>
    ('m, 'l, 'c) worker \<times> message" where
  "load_finish env w = (\<lambda>(path, a, b).
     (case load_layer_range env path a b of
        None \<Rightarrow> (set_status ''error'' w, make_load_ack False 0 0 (ni_available_gb (w_info w)))
      | Some (m, ls) \<Rightarrow>
          (let w1 = set_status ''ready'' (w\<lparr>w_model := Some m, w_layers := Some ls\<rparr>);
               w2 = w1\<lparr>w_info := (w_info w1)\<lparr>ni_assigned_layers := Some (w_start w, w_end w)\<rparr>\<rparr>
           in (w2, make_load_ack True (w_end w - w_start w) (gpu_memory_gb env)
                     (ni_available_gb (w_info w2) - gpu_memory_gb env)))))"

section \<open>Forward passes\<close>

text \<open>
  \<open>_create_attention_mask\<close> and the coordinator's \<open>_build_causal_mask\<close>: row \<open>i\<close> gets its first \<open>offset + i + 1\<close>
  columns unmasked, with Python's meaning of a negative slice end.
\<close>

definition causal_mask :: "nat \<Rightarrow> int \<Rightarrow> mask may_raise" where
  "causal_mask q all =
     (if q = 1 then Inr None
      else if all < 0 then Inl ValueError
      else Inr (Some (map (\<lambda>i.
        let k = all - int q + int i + 1; e = (if k < 0 then max 0 (all + k) else k)
        in map (\<lambda>c. int c < e) [0..<nat all]) [0..<q])))"

text \<open>\<open>_make_layer_cache\<close>: the entries of the worker's range, \<open>None\<close> when entries and layers do not correspond.\<close>

definition make_layer_cache :: "('m, 'l, 'c, 'h) mesh_env \<Rightarrow> 'm option \<Rightarrow> int \<Rightarrow> int \<Rightarrow> 'c list option" where
  "make_layer_cache env mo a b =
     (case mo of None \<Rightarrow> None
      | Some m \<Rightarrow>
          (case full_cache env m of None \<Rightarrow> None
           | Some cs \<Rightarrow>
               if (case layer_count env m of None \<Rightarrow> False | Some n \<Rightarrow> length cs \<noteq> n) then None
               else if int (length cs) < b then None
               else Some (take (nat b - nat a) (drop (nat a) cs))))"

text \<open>
  The loop over the layers: with a nonempty slot layer \<open>i\<close> uses and updates entry \<open>i\<close>; a slot that is too short
  raises, with the entries used so far updated.
\<close>

fun run_layers :: "('l \<Rightarrow> mask \<Rightarrow> 'c option \<Rightarrow> 'h \<Rightarrow> 'h \<times> 'c option) \<Rightarrow> mask \<Rightarrow> 'l list \<Rightarrow> 'c list \<Rightarrow> 'h \<Rightarrow>
    'h may_raise \<times> 'c list" where
  "run_layers ap k [] cs h = (Inr h, cs)"
| "run_layers ap k (l # ls) [] h = (Inl IndexError, [])"
| "run_layers ap k (l # ls) (c # cs) h =
     (let (h1, c1) = ap l k (Some c) h; (r, cs1) = run_layers ap k ls cs h1
      in (r, (case c1 of None \<Rightarrow> c | Some c' \<Rightarrow> c') # cs1))"

definition run_uncached :: "('l \<Rightarrow> mask \<Rightarrow> 'c option \<Rightarrow> 'h \<Rightarrow> 'h \<times> 'c option) \<Rightarrow> mask \<Rightarrow> 'l list \<Rightarrow> 'h \<Rightarrow> 'h" where
  "run_uncached ap k ls h = foldl (\<lambda>h l. fst (ap l k None h)) h ls"

definition run_slot :: "('l \<Rightarrow> mask \<Rightarrow> 'c option \<Rightarrow> 'h \<Rightarrow> 'h \<times> 'c option) \<Rightarrow> mask \<Rightarrow> 'l list \<Rightarrow> 'c list option \<Rightarrow> 'h \<Rightarrow>
    'h may_raise \<times> 'c list option" where
  "run_slot ap k ls slot h =
     (case slot of
        Some (c # cs) \<Rightarrow> (let (r, cs1) = run_layers ap k ls (c # cs) h in (r, Some cs1))
      | _ \<Rightarrow> (Inr (run_uncached ap k ls h), slot))"

definition forward_slot :: "('m, 'l, 'c, 'h) mesh_env \<Rightarrow> ('m, 'l, 'c) worker \<Rightarrow> string \<Rightarrow> 'c list option" where
  "forward_slot env w rid =
     (case pd_get (w_cache w) rid of
        Some (Some slot) \<Rightarrow> Some slot
      | _ \<Rightarrow> make_layer_cache env (w_model w) (w_start w) (w_end w))"

definition run_forward :: "('m, 'l, 'c, 'h) mesh_env \<Rightarrow> real \<Rightarrow> real \<Rightarrow> ('m, 'l, 'c) worker \<Rightarrow> 'l list \<Rightarrow> string \<Rightarrow> int \<Rightarrow>
    'h \<Rightarrow> ('m, 'l, 'c) worker \<times> message may_raise" where
  "run_forward env now ms w ls rid pos h =
     (let slot = forward_slot env w rid;
          w1 = w\<lparr>w_cache := pd_set (w_cache w) rid slot, w_touched := pd_set (w_touched w) rid now\<rparr>
      in case causal_mask (seq_length env h) (pos + int (seq_length env h)) of
           Inl e \<Rightarrow> (w1, Inl e)
         | Inr k \<Rightarrow>
             (let (r, slot1) = run_slot (apply_layer env) k ls slot h;
                  w2 = w1\<lparr>w_cache := pd_set (w_cache w1) rid slot1\<rparr>
              in case r of
                   Inl e \<Rightarrow> (w2, Inl e)
                 | Inr h1 \<Rightarrow> (w2\<lparr>w_requests := w_requests w2 + 1, w_compute_ms := w_compute_ms w2 + ms\<rparr>,
                              Inr (make_forward_result env h1 rid ms))))"

definition handle_forward :: "('m, 'l, 'c, 'h) mesh_env \<Rightarrow> real \<Rightarrow> real \<Rightarrow> ('m, 'l, 'c) worker \<Rightarrow> message \<Rightarrow>
    ('m, 'l, 'c) worker \<times> message may_raise" where
  "handle_forward env now ms w m =
     (if \<not> w_authenticated w then (w, Inr auth_error)
      else case w_layers w of
        None \<Rightarrow> (w, Inr (make_error ''not_loaded'' ''No layers loaded''))
      | Some ls \<Rightarrow>
          (case metadata_get m ''request_id'' (PyStr []) of
             PyStr (c # cs) \<Rightarrow>
               (case py_int (parse_int env) (metadata_get m ''seq_pos'' (PyInt 0)) of
                  Inl _ \<Rightarrow> (w, Inr (make_error ''protocol'' ''seq_pos must be an integer''))
                | Inr pos \<Rightarrow>
                    (case load_tensor env (case msg_payload m of None \<Rightarrow> [] | Some p \<Rightarrow> p) of
                       None \<Rightarrow> (w, Inl ValueError)
                     | Some h \<Rightarrow> run_forward env now ms w ls (c # cs) pos h))
           | _ \<Rightarrow> (w, Inr (make_error ''protocol'' ''request_id is required for forward (non-empty string)''))))"

section \<open>Cache slots\<close>

text \<open>\<open>bool(v)\<close>, and whether \<open>v\<close> can be a dictionary key.\<close>

fun py_truthy :: "pyval \<Rightarrow> bool" where
  "py_truthy PyNone = False"
| "py_truthy (PyBool b) = b"
| "py_truthy (PyInt n) = (n \<noteq> 0)"
| "py_truthy (PyFloat x) = (x \<noteq> 0)"
| "py_truthy (PyStr s) = (s \<noteq> [])"
| "py_truthy (PyBytes s) = (s \<noteq> [])"
| "py_truthy (PyTuple vs) = (vs \<noteq> [])"
| "py_truthy (PyList vs) = (vs \<noteq> [])"
| "py_truthy (PyDict d) = (d \<noteq> [])"
| "py_truthy (PyArray _ _ _) = True"

fun json_hashable :: "pyval \<Rightarrow> bool" where
  "json_hashable (PyList _) = False"
| "json_hashable (PyDict _) = False"
| "json_hashable _ = True"

definition drop_slot :: "string \<Rightarrow> ('m, 'l, 'c) worker \<Rightarrow> ('m, 'l, 'c) worker" where
  "drop_slot rid w = w\<lparr>w_cache := pd_del (w_cache w) rid, w_touched := pd_del (w_touched w) rid\<rparr>"

definition handle_cache_op :: "('m, 'l, 'c, 'h) mesh_env \<Rightarrow> ('m, 'l, 'c) worker \<Rightarrow> message \<Rightarrow>
    ('m, 'l, 'c) worker \<times> message may_raise" where
  "handle_cache_op env w m =
     (if \<not> w_authenticated w then (w, Inr auth_error)
      else
        (let op = metadata_get m ''op'' (PyStr []); rid = metadata_get m ''request_id'' (PyStr [])
         in if op \<noteq> PyStr ''release''
            then (w, Inr (make_error ''protocol'' (''unknown cache op: '' @ py_str (value_repr env) op)))
            else if \<not> py_truthy rid then (w, Inr (make_error ''protocol'' ''request_id required''))
            else if \<not> json_hashable rid then (w, Inl TypeError)
            else (case rid of PyStr r \<Rightarrow> drop_slot r w | _ \<Rightarrow> w, Inr (make_cache_ack rid True))))"

text \<open>One round of \<open>_cache_sweeper\<close>.\<close>

definition stale_slots :: "real \<Rightarrow> ('m, 'l, 'c) worker \<Rightarrow> string list" where
  "stale_slots now w = map fst (filter (\<lambda>(_, ts). now - ts > cache_ttl_seconds) (w_touched w))"

definition sweep :: "real \<Rightarrow> ('m, 'l, 'c) worker \<Rightarrow> ('m, 'l, 'c) worker" where
  "sweep now w = foldl (\<lambda>w rid. drop_slot rid w) w (stale_slots now w)"

section \<open>Dispatch\<close>

definition handle_health :: "('m, 'l, 'c, 'h) mesh_env \<Rightarrow> ('m, 'l, 'c) worker \<Rightarrow> message" where
  "handle_health env w =
     make_health_ack
       [(''status'', PyStr (ni_status (w_info w))),
        (''layers'', PyStr (if w_layers w \<noteq> None \<and> w_layers w \<noteq> Some []
           then show_int (w_start w) @ ''-'' @ show_int (w_end w - 1) else ''none'')),
        (''requests_processed'', PyInt (w_requests w)),
        (''avg_compute_ms'', if w_requests w > 0 then PyFloat (w_compute_ms w / of_int (w_requests w)) else PyInt 0),
        (''gpu_memory_gb'', PyFloat (gpu_memory_gb env)), (''chip'', PyStr (ni_chip (w_info w))),
        (''ram_gb'', PyInt (ni_ram_gb (w_info w)))]"

definition handle_bandwidth_probe :: "message \<Rightarrow> message" where
  "handle_bandwidth_probe m =
     \<lparr>msg_type = BANDWIDTH_PROBE, msg_metadata = [(''size'', PyInt (int (payload_size m)))], msg_payload = msg_payload m\<rparr>"

definition handle_load_layers :: "('m, 'l, 'c, 'h) mesh_env \<Rightarrow> ('m, 'l, 'c) worker \<Rightarrow> message \<Rightarrow>
    ('m, 'l, 'c) worker \<times> message" where
  "handle_load_layers env w m =
     (case load_begin env w m of (w1, Inl reply) \<Rightarrow> (w1, reply) | (w1, Inr job) \<Rightarrow> load_finish env w1 job)"

definition upper_char :: "char \<Rightarrow> char" where
  "upper_char c = (let n = (of_char c :: nat) in if 97 \<le> n \<and> n \<le> 122 then char_of (n - 32) else c)"

text \<open>\<open>str\<close> of a \<open>MessageType\<close>: the member names are the values in capitals.\<close>

definition type_text :: "message_type \<Rightarrow> string" where
  "type_text t = ''MessageType.'' @ map upper_char (message_value t)"

definition dispatch :: "('m, 'l, 'c, 'h) mesh_env \<Rightarrow> real \<Rightarrow> real \<Rightarrow> ('m, 'l, 'c) worker \<Rightarrow> message \<Rightarrow>
    ('m, 'l, 'c) worker \<times> message option may_raise" where
  "dispatch env now ms w m =
     (case msg_type m of
        JOIN \<Rightarrow> (let (w1, r) = handle_join w m in (w1, Inr (Some r)))
      | LOAD_LAYERS \<Rightarrow> (let (w1, r) = handle_load_layers env w m in (w1, Inr (Some r)))
      | FORWARD \<Rightarrow> (let (w1, r) = handle_forward env now ms w m in (w1, map_sum id Some r))
      | CACHE_OP \<Rightarrow> (let (w1, r) = handle_cache_op env w m in (w1, map_sum id Some r))
      | HEALTH \<Rightarrow> (w, Inr (Some (handle_health env w)))
      | BANDWIDTH_PROBE \<Rightarrow> (w, Inr (Some (handle_bandwidth_probe m)))
      | SHUTDOWN \<Rightarrow> (set_status ''stopped'' w, Inr None)
      | t \<Rightarrow> (w, Inr (Some (make_error ''unknown_type'' (''Unknown message type: '' @ type_text t)))))"

text \<open>
  One turn of \<open>_handle_connection\<close>: the reply, and whether the connection stays open.  An exception is reported
  and closes the connection.
\<close>

definition serve :: "('m, 'l, 'c, 'h) mesh_env \<Rightarrow> real \<Rightarrow> real \<Rightarrow> ('m, 'l, 'c) worker \<Rightarrow> message \<Rightarrow>
    ('m, 'l, 'c) worker \<times> message option \<times> bool" where
  "serve env now ms w m =
     (case dispatch env now ms w m of
        (w1, Inr r) \<Rightarrow> (w1, r, msg_type m \<noteq> SHUTDOWN)
      | (w1, Inl e) \<Rightarrow> (w1, Some (make_error ''internal'' (exn_text env e)), False))"

section \<open>What a worker does over time\<close>

text \<open>
  The worker serves any number of connections; the trace lists which connection sent what and the reply, in the
  order the replies are made.  A load runs in a thread of its own between its two halves, the jobs under way are
  listed last.
\<close>

type_synonym exchange = "nat \<times> message \<times> message option"

inductive worker_trace :: "('m, 'l, 'c, 'h) mesh_env \<Rightarrow> ('m, 'l, 'c) worker \<Rightarrow> exchange list \<Rightarrow> ('m, 'l, 'c) worker \<Rightarrow>
    (nat \<times> message \<times> string \<times> int \<times> int) list \<Rightarrow> bool" for env w0 where
  start: "worker_trace env w0 [] w0 []"
| receive: "worker_trace env w0 tr w jobs \<Longrightarrow> msg_type m \<noteq> LOAD_LAYERS \<Longrightarrow> serve env now ms w m = (w1, reply, stays) \<Longrightarrow>
    worker_trace env w0 (tr @ [(c, m, reply)]) w1 jobs"
| refuse_load: "worker_trace env w0 tr w jobs \<Longrightarrow> msg_type m = LOAD_LAYERS \<Longrightarrow> load_begin env w m = (w1, Inl reply) \<Longrightarrow>
    worker_trace env w0 (tr @ [(c, m, Some reply)]) w1 jobs"
| begin_load: "worker_trace env w0 tr w jobs \<Longrightarrow> msg_type m = LOAD_LAYERS \<Longrightarrow> load_begin env w m = (w1, Inr job) \<Longrightarrow>
    worker_trace env w0 tr w1 (jobs @ [(c, m, job)])"
| end_load: "worker_trace env w0 tr w (js @ (c, m, job) # ks) \<Longrightarrow> load_finish env w job = (w1, reply) \<Longrightarrow>
    worker_trace env w0 (tr @ [(c, m, Some reply)]) w1 (js @ ks)"
| sweep_slots: "worker_trace env w0 tr w jobs \<Longrightarrow> worker_trace env w0 tr (sweep now w) jobs"

lemma sweep_fields [simp]:
  "w_authenticated (sweep now w) = w_authenticated w" "w_layers (sweep now w) = w_layers w" "w_secret (sweep now w) = w_secret w"
  "w_model (sweep now w) = w_model w"
proof -
  have "w_authenticated (foldl (\<lambda>w r. drop_slot r w) w rs) = w_authenticated w \<and>
      w_layers (foldl (\<lambda>w r. drop_slot r w) w rs) = w_layers w \<and> w_secret (foldl (\<lambda>w r. drop_slot r w) w rs) = w_secret w \<and>
      w_model (foldl (\<lambda>w r. drop_slot r w) w rs) = w_model w" for rs
    by (induction rs arbitrary: w) (simp_all add: drop_slot_def)
  then show "w_authenticated (sweep now w) = w_authenticated w" "w_layers (sweep now w) = w_layers w"
    "w_secret (sweep now w) = w_secret w" "w_model (sweep now w) = w_model w" by (simp_all add: sweep_def)
qed

lemma sweep_empty: "w_touched w = [] \<Longrightarrow> sweep now w = w"
  by (simp add: sweep_def stale_slots_def)

text \<open>A worker nobody has joined, and what it can do.\<close>

definition locked :: "string \<Rightarrow> ('m, 'l, 'c) worker \<Rightarrow> bool" where
  "locked secret w \<longleftrightarrow> w_secret w = secret \<and> \<not> w_authenticated w \<and> w_layers w = None \<and> w_model w = None \<and>
     w_cache w = [] \<and> w_touched w = []"

lemma locked_status [simp]: "locked secret (set_status s w) = locked secret w"
  by (simp add: locked_def set_status_def)

lemma serve_locked:
  assumes l: "locked secret w" and s: "serve env now ms w m = (w1, reply, stays)" and t: "msg_type m \<noteq> LOAD_LAYERS"
    and j: "msg_type m = JOIN \<Longrightarrow> metadata_get m ''secret'' (PyStr []) \<noteq> PyStr secret"
  shows "locked secret w1 \<and> (msg_type m \<in> {FORWARD, CACHE_OP} \<longrightarrow> reply = Some auth_error)"
proof -
  have "\<not> w_authenticated w" "w_secret w = secret" using l by (simp_all add: locked_def)
  then show ?thesis
    using s t j l by (cases "msg_type m")
      (auto simp: serve_def dispatch_def handle_join_def handle_forward_def handle_cache_op_def)
qed

lemma locked_run:
  assumes "worker_trace env w0 tr w jobs" "locked secret w0"
    "\<forall>(c, m, r) \<in> set tr. msg_type m = JOIN \<longrightarrow> metadata_get m ''secret'' (PyStr []) \<noteq> PyStr secret"
  shows "locked secret w \<and> jobs = [] \<and>
    (\<forall>(c, m, r) \<in> set tr. msg_type m \<in> {LOAD_LAYERS, FORWARD, CACHE_OP} \<longrightarrow> r = Some auth_error)"
  using assms
proof (induction rule: worker_trace.induct)
  case (receive tr w jobs m now ms w1 reply stays c)
  then have ih: "locked secret w" "jobs = []"
      "\<forall>(c, m, r) \<in> set tr. msg_type m \<in> {LOAD_LAYERS, FORWARD, CACHE_OP} \<longrightarrow> r = Some auth_error" by simp_all
  have "msg_type m = JOIN \<Longrightarrow> metadata_get m ''secret'' (PyStr []) \<noteq> PyStr secret" using receive.prems(2) by simp
  note step = serve_locked [OF ih(1) receive.hyps(3,2) this]
  show ?case using ih step receive.hyps(2) by simp
next
  case (refuse_load tr w jobs m w1 reply c)
  then have ih: "locked secret w" by simp
  then have "w1 = w" "reply = auth_error" using refuse_load.hyps by (simp_all add: load_begin_def locked_def)
  then show ?case using refuse_load by simp
next
  case (begin_load tr w jobs m w1 job c)
  then have "locked secret w" by simp
  then show ?case using begin_load.hyps by (simp add: load_begin_def locked_def)
next
  case (sweep_slots tr w jobs now)
  then show ?case using sweep_empty [of w now] by (simp add: locked_def)
qed simp_all

text \<open>
  C39. Before a JOIN that carries the cluster secret, on whichever connection and in whatever order messages come, a
  worker loads no model, keeps no cache slot, has no load under way, and answers every LOAD_LAYERS, FORWARD and
  CACHE_OP with the authentication error.
\<close>

theorem worker_requires_join:
  assumes "new_worker secret roots info = Inr w0" "worker_trace env w0 tr w jobs"
    "\<forall>(c, m, r) \<in> set tr. msg_type m = JOIN \<longrightarrow> metadata_get m ''secret'' (PyStr []) \<noteq> PyStr secret"
  shows "\<not> w_authenticated w \<and> w_layers w = None \<and> w_model w = None \<and> w_cache w = [] \<and> jobs = [] \<and>
    (\<forall>(c, m, r) \<in> set tr. msg_type m \<in> {LOAD_LAYERS, FORWARD, CACHE_OP} \<longrightarrow> r = Some auth_error)"
proof -
  have "locked secret w0" using assms(1) by (auto simp: new_worker_def locked_def split: if_splits)
  from locked_run [OF assms(2) this assms(3)] show ?thesis by (simp add: locked_def)
qed

section \<open>A worker to look at\<close>

definition demo_info :: node_info where
  "demo_info = \<lparr>ni_node_id = ''n1'', ni_hostname = ''h1'', ni_address = ''10.0.0.2'', ni_port = 9100, ni_chip = ''M3'',
     ni_ram_gb = 64, ni_gpu_cores = 40, ni_available_gb = 48, ni_status = ''discovered'', ni_link_type = ''unknown'',
     ni_bandwidth = 0, ni_latency = 0, ni_mlx_version = ''0.30'', ni_vmlx_version = ''1.0'', ni_assigned_layers = None\<rparr>"

text \<open>
  A model is its path; layer \<open>i\<close> appends its number to the hidden state and counts its uses in its cache entry.
\<close>

definition demo_env :: "(string, nat, nat, bytes) mesh_env" where
  "demo_env = \<lparr>real_path = Inr, is_dir = \<lambda>_. True, has_config = \<lambda>_. True, load_model = \<lambda>p _ _. Inr p,
     layers_list = \<lambda>_. Some [0, 1, 2, 3], full_cache = \<lambda>_. Some [0, 0, 0, 0], layer_count = \<lambda>_. Some 4,
     apply_layer = \<lambda>l _ c h. (h @ [of_nat l], map_option Suc c), save_tensor = \<lambda>h. h, load_tensor = Some,
     seq_length = \<lambda>_. 1, tensor_shape = \<lambda>_. PyList [], tensor_dtype = \<lambda>_. ''float16'', gpu_memory_gb = 1,
     exn_text = \<lambda>_. [], value_repr = \<lambda>_. [], parse_int = \<lambda>_. None\<rparr>"

definition demo_worker :: "(string, nat, nat) worker" where
  "demo_worker = \<lparr>w_secret = ''key'', w_roots = [], w_info = demo_info, w_model = None, w_layers = None, w_start = 0,
     w_end = 0, w_cache = [], w_touched = [], w_authenticated = False, w_requests = 0, w_compute_ms = 0\<rparr>"

lemma demo_worker_new: "new_worker ''key'' [] demo_info = Inr demo_worker"
  by (simp add: new_worker_def demo_worker_def)

theorem worker_requires_join_witness:
  "\<not> w_authenticated demo_worker \<and>
   (\<exists>w. worker_trace demo_env demo_worker [(1, make_cache_release ''r'', Some auth_error)] w [] \<and> w_layers w = None)"
proof -
  have "serve demo_env 0 0 demo_worker (make_cache_release ''r'') = (demo_worker, Some auth_error, True)"
    by (simp add: serve_def dispatch_def make_cache_release_def handle_cache_op_def demo_worker_def)
  then have tr: "worker_trace demo_env demo_worker ([] @ [(1, make_cache_release ''r'', Some auth_error)]) demo_worker []"
    by (rule worker_trace.receive [OF worker_trace.start, rotated]) (simp add: make_cache_release_def)
  from worker_requires_join [OF demo_worker_new this] show ?thesis
    using tr by (auto simp: make_cache_release_def)
qed

text \<open>
  Authentication belongs to the worker, not to the connection: once a coordinator has joined on one connection,
  another connection that never sends a JOIN has a model loaded and forward passes run.
\<close>

definition demo_load :: message where
  "demo_load = make_load_layers ''/m'' 1 3 None"

lemma one_join_opens_all_connections:
  "\<exists>tr w. worker_trace demo_env demo_worker tr w [] \<and>
     filter (\<lambda>(c, m, _). c = 2 \<and> msg_type m = JOIN) tr = [] \<and>
     (2, demo_load, Some (make_load_ack True 2 1 47)) \<in> set tr \<and>
     (2, make_forward demo_env [7] ''r'' 0 None, Some (make_forward_result demo_env [7, 1, 2] ''r'' 5)) \<in> set tr"
proof -
  obtain w1 ack where j: "serve demo_env 0 0 demo_worker (make_join ''key'' PyNone) = (w1, Some ack, True)"
      "w1 = set_status ''connected'' (demo_worker\<lparr>w_authenticated := True\<rparr>)"
    by (simp add: serve_def dispatch_def handle_join_def make_join_def metadata_get_def demo_worker_def Let_def)
  define w2 where "w2 = w1\<lparr>w_start := 1, w_end := 3\<rparr>"
  have b: "load_begin demo_env w1 demo_load = (w2, Inr (''/m'', 1, 3))"
    by (simp add: load_begin_def j(2) w2_def demo_load_def make_load_layers_def metadata_get_def validate_model_path_def
        demo_env_def demo_worker_def set_status_def)
  obtain w3 where f: "load_finish demo_env w2 (''/m'', 1, 3) = (w3, make_load_ack True 2 1 47)"
      "w_layers w3 = Some [1, 2]" "w_authenticated w3" "w_cache w3 = []" "w_model w3 = Some ''/m''" "w_start w3 = 1" "w_end w3 = 3"
    by (simp add: load_finish_def load_layer_range_def demo_env_def w2_def j(2) set_status_def demo_worker_def demo_info_def)
  have h: "\<exists>w4. serve demo_env 0 5 w3 (make_forward demo_env [7] ''r'' 0 None) =
      (w4, Some (make_forward_result demo_env [7, 1, 2] ''r'' 5), True)"
    using f(2-7)
    by (simp add: serve_def dispatch_def handle_forward_def make_forward_def metadata_get_def run_forward_def forward_slot_def
        make_layer_cache_def causal_mask_def run_slot_def Let_def make_forward_result_def demo_env_def)
  then obtain w4 where h: "serve demo_env 0 5 w3 (make_forward demo_env [7] ''r'' 0 None) =
      (w4, Some (make_forward_result demo_env [7, 1, 2] ''r'' 5), True)" by blast
  have t1: "worker_trace demo_env demo_worker ([] @ [(1, make_join ''key'' PyNone, Some ack)]) w1 []"
    by (rule worker_trace.receive [OF worker_trace.start _ j(1)]) (simp add: make_join_def)
  have t2: "worker_trace demo_env demo_worker [(1, make_join ''key'' PyNone, Some ack)] w2 ([] @ (2, demo_load, ''/m'', 1, 3) # [])"
    using worker_trace.begin_load [OF t1 _ b, of 2] by (simp add: demo_load_def make_load_layers_def)
  note t3 = worker_trace.end_load [OF t2 f(1)]
  have "worker_trace demo_env demo_worker (([(1, make_join ''key'' PyNone, Some ack)] @ [(2, demo_load, Some (make_load_ack True 2 1 47))]) @
      [(2, make_forward demo_env [7] ''r'' 0 None, Some (make_forward_result demo_env [7, 1, 2] ''r'' 5))]) w4 ([] @ [])"
    by (rule worker_trace.receive [OF t3 _ h]) (simp add: make_forward_def)
  then show ?thesis by (intro exI conjI) (auto simp: demo_load_def make_load_layers_def make_forward_def)
qed

section \<open>Cache slots follow touches\<close>

definition slots_ok :: "('m, 'l, 'c) worker \<Rightarrow> bool" where
  "slots_ok w \<longleftrightarrow> pd_ok (w_cache w) \<and> pd_ok (w_touched w) \<and> fst ` set (w_cache w) = fst ` set (w_touched w)"

lemma slots_ok_drop: "slots_ok w \<Longrightarrow> slots_ok (drop_slot r w)"
  by (simp add: slots_ok_def drop_slot_def)

lemma drop_slot_fields:
  "w_cache (drop_slot r w) = filter (\<lambda>x. fst x \<noteq> r) (w_cache w)"
  "w_touched (drop_slot r w) = filter (\<lambda>x. fst x \<noteq> r) (w_touched w)"
  by (simp_all add: drop_slot_def pd_del_def case_prod_unfold)

lemma drop_slots:
  "w_cache (foldl (\<lambda>w r. drop_slot r w) w rs) = filter (\<lambda>x. fst x \<notin> set rs) (w_cache w) \<and>
   w_touched (foldl (\<lambda>w r. drop_slot r w) w rs) = filter (\<lambda>x. fst x \<notin> set rs) (w_touched w)"
proof (induction rs arbitrary: w)
  case (Cons r rs)
  show ?case using Cons.IH [of "drop_slot r w"] by (simp add: drop_slot_fields)
qed simp

lemma slots_ok_sweep: "slots_ok w \<Longrightarrow> slots_ok (sweep now w)"
proof -
  have "slots_ok w \<Longrightarrow> slots_ok (foldl (\<lambda>w r. drop_slot r w) w rs)" for rs
    by (induction rs arbitrary: w) (simp_all add: slots_ok_drop)
  then show "slots_ok w \<Longrightarrow> slots_ok (sweep now w)" by (simp add: sweep_def)
qed

lemma slots_ok_forward: "slots_ok w \<Longrightarrow> slots_ok (fst (handle_forward env now ms w m))"
  by (auto simp: handle_forward_def run_forward_def slots_ok_def Let_def split: option.splits sum.splits pyval.splits list.splits prod.splits)

lemma slots_ok_frame [simp]:
  "slots_ok (set_status s w) = slots_ok w" "slots_ok (w\<lparr>w_authenticated := b\<rparr>) = slots_ok w"
  "slots_ok (w\<lparr>w_start := i, w_end := k\<rparr>) = slots_ok w" "slots_ok (w\<lparr>w_model := mo, w_layers := lo\<rparr>) = slots_ok w"
  "slots_ok (w\<lparr>w_info := nf\<rparr>) = slots_ok w"
  by (simp_all add: slots_ok_def set_status_def)

lemma slots_ok_load:
  "load_begin env w m = (w1, r) \<Longrightarrow> slots_ok w \<Longrightarrow> slots_ok w1"
  "load_finish env w job = (w1, reply) \<Longrightarrow> slots_ok w \<Longrightarrow> slots_ok w1"
  by (auto simp: load_begin_def load_finish_def Let_def split: if_splits option.splits sum.splits prod.splits)

lemma slots_ok_cache_op: "handle_cache_op env w m = (w1, r) \<Longrightarrow> slots_ok w \<Longrightarrow> slots_ok w1"
  using slots_ok_drop [of w] by (auto simp: handle_cache_op_def Let_def split: if_splits pyval.splits)

lemma slots_ok_serve: "serve env now ms w m = (w1, rest) \<Longrightarrow> slots_ok w \<Longrightarrow> slots_ok w1"
  using slots_ok_forward [of w env now ms m] slots_ok_cache_op [of env w m] slots_ok_load [of env]
  by (cases "msg_type m")
    (auto simp: serve_def dispatch_def handle_join_def handle_load_layers_def Let_def split: sum.splits prod.splits if_splits)

lemma trace_slots_ok: "worker_trace env w0 tr w jobs \<Longrightarrow> slots_ok w0 \<Longrightarrow> slots_ok w"
  by (induction rule: worker_trace.induct) (auto intro: slots_ok_serve slots_ok_load slots_ok_sweep)

lemma sweep_lookup:
  assumes "slots_ok w"
  shows "pd_get (w_cache (sweep now w)) rid =
    (case pd_get (w_touched w) rid of None \<Rightarrow> None | Some ts \<Rightarrow> if now - ts > 600 then None else pd_get (w_cache w) rid)"
proof -
  have k: "fst ` set (w_cache w) = fst ` set (w_touched w)" and ok: "pd_ok (w_touched w)" using assms by (simp_all add: slots_ok_def)
  have m: "rid \<in> set (stale_slots now w) \<longleftrightarrow> (\<exists>ts. pd_get (w_touched w) rid = Some ts \<and> now - ts > 600)"
    by (auto simp: stale_slots_def cache_ttl_seconds_def pd_get_eq_Some_iff [OF ok] image_iff)
  have f: "pd_get (filter (\<lambda>x. fst x \<notin> S) d) rid = (if rid \<in> S then None else pd_get d rid)" for S and d :: "(string, 'c list option) pydict"
    by (induction d) auto
  have n: "pd_get (w_touched w) rid = None \<Longrightarrow> pd_get (w_cache w) rid = None" using k by (simp add: pd_get_None_iff)
  show ?thesis using drop_slots [of w "stale_slots now w"] n
    by (auto simp: sweep_def f m split: option.splits)
qed

text \<open>
  In every reachable state of a worker the cache slots and their time stamps have the same keys, and a sweep
  removes the slots not touched for more than ten minutes and no other.
\<close>

lemma slots_follow_touches:
  assumes "new_worker secret roots info = Inr w0" "worker_trace env w0 tr w jobs"
  shows "fst ` set (w_cache w) = fst ` set (w_touched w) \<and> pd_ok (w_cache w) \<and> pd_ok (w_touched w) \<and>
    (\<forall>now rid. pd_get (w_cache (sweep now w)) rid =
       (case pd_get (w_touched w) rid of None \<Rightarrow> None | Some ts \<Rightarrow> if now - ts > 600 then None else pd_get (w_cache w) rid))"
proof -
  have "slots_ok w0" using assms(1) by (auto simp: new_worker_def slots_ok_def pd_ok_def split: if_splits)
  from trace_slots_ok [OF assms(2) this] have "slots_ok w" .
  then show ?thesis by (intro conjI allI sweep_lookup) (simp_all add: slots_ok_def)
qed

text \<open>
  The reply to a bandwidth probe says its size in the metadata, under a key the header has for itself: what arrives
  is a message without metadata.
\<close>

lemma probe_reply_loses_its_size:
  assumes "sendable dumps loads ts (handle_bandwidth_probe m)"
  shows "\<exists>bs. encode_message dumps ts (handle_bandwidth_probe m) = Some bs \<and>
    (case read_message loads bs of Inl _ \<Rightarrow> False | Inr (r, _) \<Rightarrow> msg_metadata r = [] \<and> msg_type r = BANDWIDTH_PROBE)"
  using read_encoded [OF assms, of "[]"] by (auto simp: as_read_def handle_bandwidth_probe_def reserved_keys_def)

end
