(* ===== verification/Mesh_Plan.thy ===== *)
theory Mesh_Plan
  imports Py_Values "HOL-Library.Char_ord" "HOL-Library.List_Lexorder" "HOL-Library.Product_Lexorder"
begin

text \<open>
  How a mesh of machines agrees on a coordinator (\<open>vmlx_engine/distributed/mesh_election.py\<close>) and how the
  layers of a model are divided among its nodes (\<open>vmlx_engine/distributed/layer_assign.py\<close>).  Scores, sizes
  and times are exact real numbers where the code computes with floats.
\<close>

section \<open>Election\<close>

record vote =
  v_node_id :: string
  v_hostname :: string
  v_score :: real
  v_ram_gb :: int
  v_gpu_cores :: int

record candidate = vote + v_voted_at :: real

text \<open>The score of a result: that of the winner, or \<open>float("inf")\<close> for a forced coordinator.\<close>

datatype result_score = Score real | Infinite_Score

record election_result =
  er_coordinator :: string
  er_hostname :: string
  er_score :: result_score
  er_candidates :: "candidate list"
  er_elected_at :: real

record election =
  el_local :: vote
  el_forced :: "string option"
  el_candidates :: "(string, candidate) pydict"
  el_in_progress :: bool
  el_event :: bool
  el_result :: "election_result option"

definition new_election :: "vote \<Rightarrow> string option \<Rightarrow> election" where
  "new_election own forced =
     \<lparr>el_local = own, el_forced = forced, el_candidates = [], el_in_progress = False, el_event = False, el_result = None\<rparr>"

definition receive_vote :: "election \<Rightarrow> real \<times> vote \<Rightarrow> election" where
  "receive_vote e = (\<lambda>(now, v). e\<lparr>el_candidates := pd_set (el_candidates e) (v_node_id v)
     \<lparr>v_node_id = v_node_id v, v_hostname = v_hostname v, v_score = v_score v, v_ram_gb = v_ram_gb v,
      v_gpu_cores = v_gpu_cores v, v_voted_at = now\<rparr>\<rparr>)"

text \<open>The sort key, and \<open>sorted(..., reverse=True)\<close>: descending, equal keys in their order.\<close>

definition vote_rank :: "'a vote_scheme \<Rightarrow> real \<times> string" where
  "vote_rank c = (v_score c, v_node_id c)"

definition sorted_desc :: "('a \<Rightarrow> 'b::linorder) \<Rightarrow> 'a list \<Rightarrow> 'a list" where
  "sorted_desc f xs = rev (sort_key f (rev xs))"

text \<open>
  \<open>start_election\<close> in its parts: the forced answer, the own vote before the wait, the count after it.
  The votes that arrive during the wait are received in between.  The callback \<open>on_elected\<close> is called
  with the result returned.
\<close>

definition forced_result :: "string \<Rightarrow> real \<Rightarrow> election_result" where
  "forced_result cid now =
     \<lparr>er_coordinator = cid, er_hostname = ''(forced)'', er_score = Infinite_Score, er_candidates = [], er_elected_at = now\<rparr>"

definition open_election :: "real \<Rightarrow> election \<Rightarrow> election" where
  "open_election now e = receive_vote (e\<lparr>el_in_progress := True\<rparr>) (now, el_local e)"

definition count_votes :: "real \<Rightarrow> election \<Rightarrow> election \<times> election_result may_raise" where
  "count_votes now e =
     (let cs = sorted_desc vote_rank (map snd (el_candidates e))
      in case cs of
           [] \<Rightarrow> (e, Inl IndexError)
         | w # _ \<Rightarrow>
             (let r = \<lparr>er_coordinator = v_node_id w, er_hostname = v_hostname w, er_score = Score (v_score w),
                er_candidates = cs, er_elected_at = now\<rparr>
              in (e\<lparr>el_result := Some r, el_in_progress := False, el_event := True\<rparr>, Inr r)))"

definition start_election :: "real \<Rightarrow> (real \<times> vote) list \<Rightarrow> real \<Rightarrow> election \<Rightarrow> election \<times> election_result may_raise" where
  "start_election t0 arriving t1 e =
     (if str_truthy (el_forced e)
      then (let r = forced_result (the (el_forced e)) t0 in (e\<lparr>el_result := Some r\<rparr>, Inr r))
      else count_votes t1 (foldl receive_vote (open_election t0 e) arriving))"

text \<open>\<open>wait_for_result\<close> once its wait is over: the result if the event was set, \<open>None\<close> on a timeout.\<close>

definition wait_for_result :: "election \<Rightarrow> election_result option" where
  "wait_for_result e = (if el_event e then el_result e else None)"

text \<open>The specification: of several votes of a node the last one counts.\<close>

definition last_vote :: "vote list \<Rightarrow> string \<Rightarrow> vote option" where
  "last_vote vs n = find (\<lambda>v. v_node_id v = n) (rev vs)"

lemma last_vote_snoc: "last_vote (vs @ [v]) n = (if v_node_id v = n then Some v else last_vote vs n)"
  by (simp add: last_vote_def)

lemma last_vote_member: "v \<in> set vs \<Longrightarrow> \<exists>u. last_vote vs (v_node_id v) = Some u"
  by (auto simp: last_vote_def find_None_iff simp flip: not_None_eq)

lemma truncate_voted: "vote.truncate \<lparr>v_node_id = v_node_id v, v_hostname = v_hostname v, v_score = v_score v,
    v_ram_gb = v_ram_gb v, v_gpu_cores = v_gpu_cores v, v_voted_at = now\<rparr> = (v :: vote)"
  by (simp add: vote.truncate_def)

definition ballot_ok :: "vote list \<Rightarrow> (string, candidate) pydict \<Rightarrow> bool" where
  "ballot_ok vs d \<longleftrightarrow> pd_ok d \<and> (\<forall>n. map_option vote.truncate (pd_get d n) = last_vote vs n)"

lemma ballot_ok_receive:
  "ballot_ok vs (el_candidates e) \<Longrightarrow> ballot_ok (vs @ [snd tv]) (el_candidates (receive_vote e tv))"
  by (cases tv) (simp add: ballot_ok_def receive_vote_def last_vote_snoc truncate_voted)

lemma receive_all:
  "ballot_ok vs (el_candidates e) \<Longrightarrow> ballot_ok (vs @ map snd tvs) (el_candidates (foldl receive_vote e tvs))"
proof (induction tvs arbitrary: e vs)
  case (Cons tv tvs)
  show ?case using Cons.IH [OF ballot_ok_receive [OF Cons.prems]] by simp
qed simp

lemma ballot_entry:
  assumes "ballot_ok vs d" "(n, c) \<in> set d"
  shows "v_node_id c = n" "last_vote vs n = Some (vote.truncate c)"
proof -
  have "pd_get d n = Some c" using assms by (simp add: ballot_ok_def pd_get_eq_Some_iff)
  then show l: "last_vote vs n = Some (vote.truncate c)" using assms(1) by (metis ballot_ok_def option.map(2))
  then have "v_node_id (vote.truncate c) = n" by (auto simp: last_vote_def find_Some_iff)
  then show "v_node_id c = n" by (simp add: vote.truncate_def)
qed

lemma vote_rank_truncate [simp]: "vote_rank (vote.truncate c) = vote_rank c"
  by (simp add: vote_rank_def vote.truncate_def)

text \<open>The ranking of the count depends on the last votes only.\<close>

definition ranking :: "(string, candidate) pydict \<Rightarrow> vote list" where
  "ranking d = map vote.truncate (sorted_desc vote_rank (map snd d))"

lemma ranking_props:
  assumes b: "ballot_ok vs d"
  shows "set (ranking d) = {v. \<exists>n. last_vote vs n = Some v}" "sorted (map vote_rank (rev (ranking d)))"
    "distinct (map vote_rank (rev (ranking d)))"
proof -
  have mem: "v \<in> set (ranking d) \<longleftrightarrow> (\<exists>n c. (n, c) \<in> set d \<and> v = vote.truncate c)" for v
    by (force simp: ranking_def sorted_desc_def image_iff)
  show "set (ranking d) = {v. \<exists>n. last_vote vs n = Some v}"
  proof (rule set_eqI, unfold mem, rule iffI)
    fix v assume "\<exists>n c. (n, c) \<in> set d \<and> v = vote.truncate c"
    then show "v \<in> {v. \<exists>n. last_vote vs n = Some v}" using ballot_entry(2) [OF b] by blast
  next
    fix v assume "v \<in> {v. \<exists>n. last_vote vs n = Some v}"
    then obtain n where "last_vote vs n = Some v" by blast
    then obtain c where c: "pd_get d n = Some c" "v = vote.truncate c"
      using b by (metis ballot_ok_def map_option_eq_Some)
    then show "\<exists>n c. (n, c) \<in> set d \<and> v = vote.truncate c" using map_of_SomeD by fast
  qed
  have r: "map vote_rank (rev (ranking d)) = map vote_rank (sort_key vote_rank (rev (map snd d)))"
    by (simp add: ranking_def sorted_desc_def rev_map comp_def)
  show "sorted (map vote_rank (rev (ranking d)))" unfolding r by simp
  have ids: "map v_node_id (map snd d) = map fst d" using ballot_entry(1) [OF b] by (auto intro: map_cong)
  have "distinct (map v_node_id (map snd d))" unfolding ids using b by (simp add: ballot_ok_def pd_ok_def)
  then have "distinct (map vote_rank (map snd d))"
    by (auto simp: distinct_map inj_on_def vote_rank_def)
  then have "distinct (map vote_rank (rev (map snd d)))" by (simp only: rev_map [symmetric] distinct_rev)
  then show "distinct (map vote_rank (rev (ranking d)))" unfolding r by (simp add: distinct_map)
qed

text \<open>Two ballots with the same last votes are counted alike.\<close>

lemma ranking_unique:
  assumes a: "ballot_ok va d" and b: "ballot_ok vb d'" and same: "last_vote va = last_vote vb"
  shows "ranking d = ranking d'"
proof -
  have s: "set (ranking d) = set (ranking d')" using ranking_props(1) [OF a] ranking_props(1) [OF b] same by simp
  have inj: "inj_on vote_rank (set (rev (ranking d)) \<union> set (rev (ranking d')))"
    using ranking_props(3) [OF a] s by (simp add: distinct_map)
  have "rev (ranking d) = rev (ranking d')"
    by (rule map_sorted_distinct_set_unique [OF inj]) (use ranking_props [OF a] ranking_props [OF b] s in auto)
  then show ?thesis by simp
qed

lemma ranking_head:
  assumes b: "ballot_ok vs d" and v: "last_vote vs n = Some v"
  obtains w cs where "ranking d = w # cs" "\<And>u. u \<in> set (ranking d) \<Longrightarrow> vote_rank u \<le> vote_rank w"
proof -
  have "v \<in> set (ranking d)" using ranking_props(1) [OF b] v by blast
  then obtain w cs where r: "ranking d = w # cs" by (cases "ranking d") auto
  have "vote_rank u \<le> vote_rank w" if "u \<in> set (ranking d)" for u
    using ranking_props(2) [OF b] that r by (auto simp: sorted_append)
  then show ?thesis using that r by blast
qed

lemma count_votes_ranking:
  assumes "ranking (el_candidates e) = w # cs"
  shows "\<exists>r. snd (count_votes now e) = Inr r \<and> er_coordinator r = v_node_id w \<and> er_hostname r = v_hostname w \<and>
    er_score r = Score (v_score w) \<and> map vote.truncate (er_candidates r) = ranking (el_candidates e) \<and>
    wait_for_result (fst (count_votes now e)) = Some r"
proof -
  obtain c cs' where c: "sorted_desc vote_rank (map snd (el_candidates e)) = c # cs'"
    using assms by (cases "sorted_desc vote_rank (map snd (el_candidates e))") (auto simp: ranking_def)
  then have "w = vote.truncate c" using assms by (simp add: ranking_def)
  then show ?thesis using c by (simp add: count_votes_def ranking_def wait_for_result_def vote.truncate_def Let_def)
qed

definition votes_seen :: "(real \<times> vote) list \<Rightarrow> vote \<Rightarrow> (real \<times> vote) list \<Rightarrow> vote list" where
  "votes_seen before own arriving = map snd before @ own # map snd arriving"

lemma election_ballot:
  "ballot_ok (votes_seen before own arriving)
     (el_candidates (foldl receive_vote (open_election t (foldl receive_vote (new_election own f) before)) arriving))"
proof -
  have l: "el_local (foldl receive_vote e vs) = el_local e" for e vs
    by (induction vs arbitrary: e) (simp_all add: receive_vote_def split: prod.splits)
  have "ballot_ok [] (el_candidates (new_election own f))" by (simp add: ballot_ok_def new_election_def last_vote_def)
  from receive_all [OF this, of before]
  have "ballot_ok (map snd before) (el_candidates ((foldl receive_vote (new_election own f) before)\<lparr>el_in_progress := True\<rparr>))"
    by simp
  from ballot_ok_receive [OF this, of "(t, own)"]
  have "ballot_ok (map snd before @ [own]) (el_candidates (open_election t (foldl receive_vote (new_election own f) before)))"
    by (simp add: open_election_def l new_election_def)
  from receive_all [OF this, of arriving] show ?thesis by (simp add: votes_seen_def)
qed

text \<open>
  C37. Two nodes that saw the same last vote of every node elect the same coordinator and the same ranking,
  whatever the order and times the votes arrived in: the elected node is one that voted, and none of them has a
  higher score, or the same score and a higher id.
\<close>

theorem election_agreement:
  assumes fa: "\<not> str_truthy fa" and fb: "\<not> str_truthy fb"
    and same: "last_vote (votes_seen before_a own_a arriving_a) = last_vote (votes_seen before_b own_b arriving_b)"
  shows "\<exists>ra rb w. snd (start_election t0 arriving_a t1 (foldl receive_vote (new_election own_a fa) before_a)) = Inr ra \<and>
    snd (start_election t2 arriving_b t3 (foldl receive_vote (new_election own_b fb) before_b)) = Inr rb \<and>
    er_coordinator ra = v_node_id w \<and> er_coordinator rb = v_node_id w \<and>
    map vote.truncate (er_candidates ra) = map vote.truncate (er_candidates rb) \<and>
    last_vote (votes_seen before_a own_a arriving_a) (v_node_id w) = Some w \<and>
    (\<forall>n v. last_vote (votes_seen before_a own_a arriving_a) n = Some v \<longrightarrow>
       v_score v < v_score w \<or> (v_score v = v_score w \<and> v_node_id v \<le> v_node_id w))"
proof -
  let ?ea = "foldl receive_vote (open_election t0 (foldl receive_vote (new_election own_a fa) before_a)) arriving_a"
  let ?eb = "foldl receive_vote (open_election t2 (foldl receive_vote (new_election own_b fb) before_b)) arriving_b"
  note ba = election_ballot [of before_a own_a arriving_a t0 fa] and bb = election_ballot [of before_b own_b arriving_b t2 fb]
  have f: "el_forced (foldl receive_vote e vs) = el_forced e" for e vs
    by (induction vs arbitrary: e) (simp_all add: receive_vote_def split: prod.splits)
  have eq: "ranking (el_candidates ?ea) = ranking (el_candidates ?eb)" by (rule ranking_unique [OF ba bb same])
  obtain v where own: "last_vote (votes_seen before_a own_a arriving_a) (v_node_id own_a) = Some v"
    using last_vote_member [of own_a "votes_seen before_a own_a arriving_a"] by (auto simp: votes_seen_def)
  then obtain w cs where w: "ranking (el_candidates ?ea) = w # cs"
      "\<And>u. u \<in> set (ranking (el_candidates ?ea)) \<Longrightarrow> vote_rank u \<le> vote_rank w"
    using ranking_head [OF ba own] by blast
  obtain ra where ra: "snd (count_votes t1 ?ea) = Inr ra" "er_coordinator ra = v_node_id w"
      "map vote.truncate (er_candidates ra) = ranking (el_candidates ?ea)"
    using count_votes_ranking [OF w(1)] by blast
  obtain rb where rb: "snd (count_votes t3 ?eb) = Inr rb" "er_coordinator rb = v_node_id w"
      "map vote.truncate (er_candidates rb) = ranking (el_candidates ?eb)"
    using count_votes_ranking [OF trans [OF eq [symmetric] w(1)]] w(1) eq by blast
  have "w \<in> set (ranking (el_candidates ?ea))" by (simp add: w(1))
  then obtain m where "last_vote (votes_seen before_a own_a arriving_a) m = Some w" using ranking_props(1) [OF ba] by blast
  then have lw: "last_vote (votes_seen before_a own_a arriving_a) (v_node_id w) = Some w"
    by (auto simp: last_vote_def find_Some_iff)
  have best: "v_score v < v_score w \<or> (v_score v = v_score w \<and> v_node_id v \<le> v_node_id w)"
    if "last_vote (votes_seen before_a own_a arriving_a) n = Some v" for n v
  proof -
    have "v \<in> set (ranking (el_candidates ?ea))" using ranking_props(1) [OF ba] that by blast
    from w(2) [OF this] show ?thesis by (auto simp: vote_rank_def)
  qed
  have sa: "start_election t0 arriving_a t1 (foldl receive_vote (new_election own_a fa) before_a) = count_votes t1 ?ea"
    and sb: "start_election t2 arriving_b t3 (foldl receive_vote (new_election own_b fb) before_b) = count_votes t3 ?eb"
    using fa fb by (simp_all add: start_election_def f new_election_def)
  show ?thesis
    unfolding sa sb by (intro exI [of _ ra] exI [of _ rb] exI [of _ w] conjI allI impI) (use ra rb lw best eq in auto)
qed

theorem election_agreement_witness:
  "\<exists>ra rb w. snd (start_election 0 [(1, \<lparr>v_node_id = ''b'', v_hostname = ''hb'', v_score = 7, v_ram_gb = 8, v_gpu_cores = 2\<rparr>)] 5
       (foldl receive_vote (new_election \<lparr>v_node_id = ''a'', v_hostname = ''ha'', v_score = 7, v_ram_gb = 8, v_gpu_cores = 2\<rparr> None) [])) = Inr ra \<and>
     snd (start_election 2 [] 7 (foldl receive_vote
       (new_election \<lparr>v_node_id = ''b'', v_hostname = ''hb'', v_score = 7, v_ram_gb = 8, v_gpu_cores = 2\<rparr> None)
       [(0, \<lparr>v_node_id = ''a'', v_hostname = ''ha'', v_score = 7, v_ram_gb = 8, v_gpu_cores = 2\<rparr>)])) = Inr rb \<and>
     er_coordinator ra = v_node_id (w :: vote) \<and> er_coordinator rb = v_node_id w"
proof -
  let ?a = "\<lparr>v_node_id = ''a'', v_hostname = ''ha'', v_score = 7, v_ram_gb = 8, v_gpu_cores = 2\<rparr>"
  let ?b = "\<lparr>v_node_id = ''b'', v_hostname = ''hb'', v_score = 7, v_ram_gb = 8, v_gpu_cores = 2\<rparr>"
  have same: "last_vote (votes_seen [] ?a [(1, ?b)]) = last_vote (votes_seen [(0, ?a)] ?b [])"
    by (simp add: votes_seen_def last_vote_def fun_eq_iff)
  show ?thesis using election_agreement [OF _ _ same, of None None 0 5 2 7] by auto
qed

section \<open>Layer profiles\<close>

record layer_profile =
  lp_index :: nat
  lp_memory :: real
  lp_is_moe :: bool
  lp_num_experts :: int
  lp_loaded_experts :: int
  lp_is_ssm :: bool

text \<open>The fields of a model configuration the estimate reads; an absent key is \<open>None\<close>.\<close>

record text_config =
  tc_routed_experts :: "int option"
  tc_num_experts :: "int option"
  tc_local_experts :: "int option"
  tc_layer_types :: "string list option"

text \<open>\<open>a or b or c or 0\<close> on counts.\<close>

definition int_or :: "int option \<Rightarrow> int \<Rightarrow> int" where
  "int_or x y = (case x of None \<Rightarrow> y | Some n \<Rightarrow> if n = 0 then y else n)"

definition experts_of :: "text_config \<Rightarrow> int" where
  "experts_of c = int_or (tc_routed_experts c) (int_or (tc_num_experts c) (int_or (tc_local_experts c) 0))"

text \<open>\<open>s in t\<close> on strings, and the layers whose lower-cased type contains one of two words.\<close>

definition substring :: "string \<Rightarrow> string \<Rightarrow> bool" where
  "substring s t \<longleftrightarrow> list_ex (\<lambda>i. take (length s) (drop i t) = s) [0..<Suc (length t)]"

definition layers_typed :: "string \<Rightarrow> string \<Rightarrow> string list \<Rightarrow> nat \<Rightarrow> bool" where
  "layers_typed a b ts i \<longleftrightarrow> i < length ts \<and> (substring a (py_lower (ts ! i)) \<or> substring b (py_lower (ts ! i)))"

text \<open>\<open>if layer_types\<close>: \<open>None\<close> and the empty list are false.\<close>

definition moe_layer :: "text_config \<Rightarrow> nat \<Rightarrow> bool" where
  "moe_layer c i =
     (case tc_layer_types c of Some (t # ts) \<Rightarrow> layers_typed ''moe'' ''sparse'' (t # ts) i | _ \<Rightarrow> True)"

definition ssm_layer :: "text_config \<Rightarrow> nat \<Rightarrow> bool" where
  "ssm_layer c i = (case tc_layer_types c of Some (t # ts) \<Rightarrow> layers_typed ''mamba'' ''ssm'' (t # ts) i | _ \<Rightarrow> False)"

text \<open>A model without layers divides by zero only on the expert path.\<close>

definition estimate_layer_profiles :: "text_config \<Rightarrow> real \<Rightarrow> nat \<Rightarrow> int \<Rightarrow> layer_profile list option" where
  "estimate_layer_profiles c total_gb n smelt =
     (let experts = experts_of c
      in if \<not> experts > 0 then
           Some (map (\<lambda>i. \<lparr>lp_index = i, lp_memory = total_gb / (of_nat n + 2), lp_is_moe = False, lp_num_experts = 0,
             lp_loaded_experts = 0, lp_is_ssm = False\<rparr>) [0..<n])
         else if n = 0 then None
         else
           (let backbone = total_gb * (3 / 10);
                expert0 = total_gb * (7 / 10);
                expert = (if smelt < 100 then expert0 * of_int smelt / 100 else expert0);
                per_backbone = backbone / (of_nat n + 2);
                per_expert = expert / of_nat n;
                loaded = max 1 (experts * smelt div 100)
            in Some (map (\<lambda>i.
                 if moe_layer c i
                 then \<lparr>lp_index = i, lp_memory = per_backbone + per_expert, lp_is_moe = True, lp_num_experts = experts,
                        lp_loaded_experts = (if smelt < 100 then loaded else experts), lp_is_ssm = ssm_layer c i\<rparr>
                 else \<lparr>lp_index = i, lp_memory = per_backbone, lp_is_moe = False, lp_num_experts = 0,
                        lp_loaded_experts = 0, lp_is_ssm = ssm_layer c i\<rparr>) [0..<n])))"

section \<open>Assignment\<close>

text \<open>A node dictionary: \<open>node_id\<close> is required, the other keys have defaults.\<close>

record plan_node =
  pn_id :: string
  pn_hostname :: "string option"
  pn_available :: "real option"
  pn_compute :: "real option"

record assignment =
  as_node_id :: string
  as_hostname :: string
  as_start :: nat
  as_end :: nat
  as_estimated :: real
  as_available :: real
  as_compute :: real

definition available_gb :: "plan_node \<Rightarrow> real" where
  "available_gb n = (case pn_available n of None \<Rightarrow> 0 | Some g \<Rightarrow> g)"

definition num_layers_of :: "assignment \<Rightarrow> int" where
  "num_layers_of a = int (as_end a) - int (as_start a)"

text \<open>\<open>round(x)\<close>: half to even.\<close>

definition py_round :: "real \<Rightarrow> int" where
  "py_round x =
     (let f = \<lfloor>x\<rfloor>; d = x - of_int f
      in if d < 1 / 2 then f else if d > 1 / 2 then f + 1 else if even f then f else f + 1)"

definition node_share :: "nat \<Rightarrow> real \<Rightarrow> nat \<Rightarrow> real \<Rightarrow> int" where
  "node_share n total_cap nodes cap =
     max 1 (py_round (of_nat n * (if total_cap > 0 then cap / total_cap else 1 / of_nat nodes)))"

definition assign_node :: "layer_profile list \<Rightarrow> plan_node \<Rightarrow> nat \<Rightarrow> nat \<Rightarrow> assignment" where
  "assign_node ps node i j =
     \<lparr>as_node_id = pn_id node, as_hostname = (case pn_hostname node of None \<Rightarrow> pn_id node | Some h \<Rightarrow> h),
      as_start = i, as_end = j, as_estimated = sum_list (map lp_memory (take (j - i) (drop i ps))),
      as_available = available_gb node, as_compute = (case pn_compute node of None \<Rightarrow> 1 | Some c \<Rightarrow> c)\<rparr>"

text \<open>The loop over the sorted nodes from layer \<open>i\<close> on.\<close>

fun assign_loop :: "layer_profile list \<Rightarrow> (real \<Rightarrow> int) \<Rightarrow> (plan_node \<times> real) list \<Rightarrow> nat \<Rightarrow> assignment list" where
  "assign_loop ps share [] i = []"
| "assign_loop ps share ((node, cap) # rest) i =
     (let j = (if rest = [] then length ps else min (i + nat (share cap)) (length ps))
      in if i \<ge> length ps then [] else assign_node ps node i j # assign_loop ps share rest j)"

definition sort_nodes :: "plan_node list \<Rightarrow> plan_node list" where
  "sort_nodes = sorted_desc available_gb"

definition assign_layers_by_ram :: "layer_profile list \<Rightarrow> plan_node list \<Rightarrow> real \<Rightarrow> assignment list may_raise" where
  "assign_layers_by_ram ps nodes overhead =
     (if nodes = [] then Inl ValueError
      else if ps = [] then Inl ValueError
      else
        (let sn = sort_nodes nodes;
             caps = map (\<lambda>n. max 0 (available_gb n - overhead)) sn;
             total_cap = sum_list caps
         in Inr (assign_loop ps (node_share (length ps) total_cap (length sn)) (zip sn caps) 0)))"

text \<open>\<open>assign_layers_balanced\<close>: \<open>None\<close> marks the division by zero that a node without layers would cause.\<close>

definition per_layer_times :: "assignment list \<Rightarrow> (string, real) pydict \<Rightarrow> (string, real) pydict option" where
  "per_layer_times as warmup =
     foldl (\<lambda>acc a. case acc of None \<Rightarrow> None | Some d \<Rightarrow>
         (let t = (case pd_get warmup (as_node_id a) of None \<Rightarrow> 0 | Some t \<Rightarrow> t)
          in if t > 0 then (if num_layers_of a = 0 then None else Some (pd_set d (as_node_id a) (t / of_int (num_layers_of a))))
             else Some d)) (Some []) as"

definition assign_layers_balanced ::
    "layer_profile list \<Rightarrow> plan_node list \<Rightarrow> (string, real) pydict option \<Rightarrow> real \<Rightarrow> assignment list option may_raise" where
  "assign_layers_balanced ps nodes warmup overhead =
     (case assign_layers_by_ram ps nodes overhead of
        Inl e \<Rightarrow> Inl e
      | Inr as \<Rightarrow>
          (case warmup of
             Some (w # ws) \<Rightarrow>
               (if length as < 2 then Inr (Some as)
                else case per_layer_times as (w # ws) of
                       None \<Rightarrow> Inr None
                     | Some ts \<Rightarrow> Inr (Some as))
           | _ \<Rightarrow> Inr (Some as)))"

section \<open>The plan covers every layer once\<close>

definition layer_range :: "assignment \<Rightarrow> nat list" where
  "layer_range a = [as_start a..<as_end a]"

lemma node_share_pos: "1 \<le> node_share n t k c"
  by (simp add: node_share_def)

lemma assign_node_range [simp]:
  "layer_range (assign_node ps node i j) = [i..<j]" "as_start (assign_node ps node i j) = i" "as_end (assign_node ps node i j) = j"
  by (simp_all add: layer_range_def assign_node_def)

lemma assign_loop_ranges:
  shows "(\<And>c. 1 \<le> share c) \<Longrightarrow> i < length ps \<Longrightarrow> nodes \<noteq> [] \<Longrightarrow>
    concat (map layer_range (assign_loop ps share nodes i)) = [i..<length ps] \<and>
    (\<forall>a \<in> set (assign_loop ps share nodes i). as_start a < as_end a \<and> as_end a \<le> length ps) \<and>
    assign_loop ps share nodes i \<noteq> []"
proof (induction ps share nodes i rule: assign_loop.induct)
  case (2 ps share node cap rest i)
  define j where "j = (if rest = [] then length ps else min (i + nat (share cap)) (length ps))"
  have pos: "0 < nat (share cap)" using 2(2) [of cap] by linarith
  have ij: "i < j" "j \<le> length ps" using 2(3) pos by (auto simp: j_def)
  have step: "assign_loop ps share ((node, cap) # rest) i = assign_node ps node i j # assign_loop ps share rest j"
    using 2(3) by (simp add: j_def Let_def)
  show ?case
  proof (cases "j < length ps \<and> rest \<noteq> []")
    case True
    have "concat (map layer_range (assign_loop ps share rest j)) = [j..<length ps] \<and>
        (\<forall>a \<in> set (assign_loop ps share rest j). as_start a < as_end a \<and> as_end a \<le> length ps)"
      using 2(1) [OF j_def] 2(2,3) True by simp
    then show ?thesis unfolding step using ij upt_add_eq_append [of i j "length ps - j"]
      by simp
  next
    case False
    then have "rest = [] \<or> length ps \<le> j" by auto
    then have j: "j = length ps" using ij(2) j_def by (cases "rest = []") simp_all
    have "assign_loop ps share rest (length ps) = []" by (cases rest) auto
    then have "assign_loop ps share ((node, cap) # rest) i = [assign_node ps node i (length ps)]" using step j by simp
    then show ?thesis using ij(1) j by (simp only: list.map concat.simps append_Nil2 list.set ball_simps assign_node_range) simp
  qed
qed simp

lemma assign_loop_ids:
  "map as_node_id (assign_loop ps share nodes i) =
     take (length (assign_loop ps share nodes i)) (map (pn_id \<circ> fst) nodes)"
  by (induction ps share nodes i rule: assign_loop.induct) (simp_all add: Let_def assign_node_def)

lemma assign_loop_length: "length (assign_loop ps share nodes i) \<le> length nodes"
  by (induction ps share nodes i rule: assign_loop.induct) (simp_all add: Let_def)

lemma take_range: "i \<le> j \<Longrightarrow> j \<le> length xs \<Longrightarrow> take (j - i) (drop i xs) = map (\<lambda>k. xs ! k) [i..<j]"
  by (rule nth_equalityI) auto

lemma assign_loop_memory:
  "(\<forall>a \<in> set (assign_loop ps share nodes i). as_start a < as_end a \<and> as_end a \<le> length ps) \<Longrightarrow>
   sum_list (map as_estimated (assign_loop ps share nodes i)) =
     sum_list (map (\<lambda>k. lp_memory (ps ! k)) (concat (map layer_range (assign_loop ps share nodes i))))"
  by (induction ps share nodes i rule: assign_loop.induct)
    (auto simp: Let_def assign_node_def layer_range_def take_range comp_def)

lemma sort_nodes_props:
  "length (sort_nodes nodes) = length nodes" "set (sort_nodes nodes) = set nodes"
  "sorted (map available_gb (rev (sort_nodes nodes)))"
  by (simp_all add: sort_nodes_def sorted_desc_def)

lemma plan_props:
  assumes r: "assign_layers_by_ram ps nodes overhead = Inr as"
  shows "nodes \<noteq> []" "ps \<noteq> []" "concat (map layer_range as) = [0..<length ps]"
    "list_all (\<lambda>a. as_start a < as_end a) as" "map as_node_id as = take (length as) (map pn_id (sort_nodes nodes))"
    "as \<noteq> []" "length as \<le> length nodes" "sum_list (map as_estimated as) = sum_list (map lp_memory ps)"
proof -
  show ne: "nodes \<noteq> []" "ps \<noteq> []" using r by (simp_all add: assign_layers_by_ram_def split: if_splits)
  define sn where "sn = sort_nodes nodes"
  define caps where "caps = map (\<lambda>n. max 0 (available_gb n - overhead)) sn"
  define share where "share = node_share (length ps) (sum_list caps) (length sn)"
  have as: "as = assign_loop ps share (zip sn caps) 0"
    using r ne by (simp add: assign_layers_by_ram_def Let_def caps_def sn_def share_def)
  have len: "length sn = length nodes" "length caps = length nodes" by (simp_all add: sn_def caps_def sort_nodes_props)
  have zne: "zip sn caps \<noteq> []" using ne len by (auto simp: zip_eq_Nil_iff)
  have "1 \<le> share c" for c by (simp add: share_def node_share_pos)
  note ranges = assign_loop_ranges [of share 0 ps, OF this _ zne, folded as]
  show "concat (map layer_range as) = [0..<length ps]" "list_all (\<lambda>a. as_start a < as_end a) as" "as \<noteq> []"
    using ranges ne by (auto simp: list_all_iff)
  have "map (pn_id \<circ> fst) (zip sn caps) = map pn_id sn" using len by (simp add: map_fst_zip flip: map_map)
  then show "map as_node_id as = take (length as) (map pn_id (sort_nodes nodes))"
    using assign_loop_ids [of ps share "zip sn caps" 0] by (simp add: as sn_def)
  show "length as \<le> length nodes" using assign_loop_length [of ps share "zip sn caps" 0] len by (simp add: as)
  have "map (\<lambda>k. lp_memory (ps ! k)) [0..<length ps] = map lp_memory ps" by (rule nth_equalityI) auto
  then show "sum_list (map as_estimated as) = sum_list (map lp_memory ps)"
    using assign_loop_memory [of ps share "zip sn caps" 0, folded as] ranges ne by simp
qed

text \<open>
  C38. Dividing a model among nodes gives each layer to exactly one node: the ranges are nonempty, adjacent and
  cover layers 0 to the last one, nodes get them in order of descending available memory (equals in the order
  given), the memory estimates add up to the model's, and a node may be left out but none is used twice.  Only
  an empty node or layer list raises \<open>ValueError\<close>.
\<close>

theorem layers_partitioned:
  "case assign_layers_by_ram ps nodes overhead of
     Inl e \<Rightarrow> e = ValueError \<and> (nodes = [] \<or> ps = [])
   | Inr as \<Rightarrow> nodes \<noteq> [] \<and> ps \<noteq> [] \<and> concat (map layer_range as) = [0..<length ps] \<and>
       list_all (\<lambda>a. as_start a < as_end a) as \<and>
       map as_node_id as = take (length as) (map pn_id (sort_nodes nodes)) \<and>
       0 < length as \<and> length as \<le> length nodes \<and>
       sorted (map available_gb (rev (sort_nodes nodes))) \<and>
       sum_list (map as_estimated as) = sum_list (map lp_memory ps)"
proof (cases "assign_layers_by_ram ps nodes overhead")
  case (Inl e)
  then show ?thesis by (auto simp: assign_layers_by_ram_def Let_def split: if_splits)
next
  case (Inr as)
  note p = plan_props [OF Inr]
  show ?thesis unfolding Inr sum.case
    by (intro conjI p sort_nodes_props) (use p(6) in simp)
qed

lemma per_layer_times_some:
  assumes "list_all (\<lambda>a. as_start a < as_end a) as"
  shows "per_layer_times as w \<noteq> None"
proof -
  have "\<exists>d'. foldl (\<lambda>acc a. case acc of None \<Rightarrow> None | Some d \<Rightarrow>
         (let t = (case pd_get w (as_node_id a) of None \<Rightarrow> 0 | Some t \<Rightarrow> t)
          in if t > 0 then (if num_layers_of a = 0 then None else Some (pd_set d (as_node_id a) (t / of_int (num_layers_of a))))
             else Some d)) (Some d) as = Some d'" for d
    using assms
  proof (induction as arbitrary: d)
    case (Cons a as)
    then have "num_layers_of a \<noteq> 0" by (simp add: num_layers_of_def)
    then show ?case using Cons by (simp add: Let_def)
  qed simp
  then show ?thesis by (auto simp: per_layer_times_def)
qed

text \<open>
  Calibration never changes a plan: whatever warm-up times are given, the balanced assignment is the one by
  available memory, although its documentation promises to move layers from slow nodes to fast ones.
\<close>

lemma balancing_changes_nothing:
  "assign_layers_balanced ps nodes warmup overhead =
     (case assign_layers_by_ram ps nodes overhead of Inl e \<Rightarrow> Inl e | Inr as \<Rightarrow> Inr (Some as))"
proof (cases "assign_layers_by_ram ps nodes overhead")
  case (Inr as)
  have "list_all (\<lambda>a. as_start a < as_end a) as" by (rule plan_props(4) [OF Inr])
  note some = per_layer_times_some [OF this]
  show ?thesis
  proof (cases "\<exists>w ws. warmup = Some (w # ws)")
    case True
    then obtain w ws where w: "warmup = Some (w # ws)" by blast
    show ?thesis using Inr w some [of "w # ws"] by (auto simp: assign_layers_balanced_def)
  qed (use Inr in \<open>auto simp: assign_layers_balanced_def split: option.splits list.splits\<close>)
qed (simp add: assign_layers_balanced_def)

end
