(* ===== verification/Mesh_Coordinator.thy ===== *)
theory Mesh_Coordinator
  imports Mesh_Worker Mesh_Plan
begin

text \<open>
  The coordinator of distributed inference (\<open>vmlx_engine/distributed/coordinator.py\<close>): it joins the workers,
  divides the layers, has every node load its range, and sends hidden states through the nodes in the order of the
  assignments.  The workers are those of \<open>Mesh_Worker\<close>, in a network that delivers messages as they were sent (the
  framing is \<open>Mesh_Wire\<close>'s) or does not reach a node at all; time-outs are not modelled.
\<close>

section \<open>Connections\<close>

type_synonym ('m, 'l, 'c) net = "(string, ('m, 'l, 'c) worker) pydict"

record ('m, 'l) coordinator =
  co_secret :: string
  co_workers :: "(string, node_info) pydict"
  co_assignments :: "assignment list"
  co_order :: "string list"
  co_model :: "'m option"
  co_local_layers :: "'l list option"
  co_local_assignment :: "assignment option"

definition new_coordinator :: "string \<Rightarrow> ('m, 'l) coordinator" where
  "new_coordinator secret = \<lparr>co_secret = secret, co_workers = [], co_assignments = [], co_order = [], co_model = None,
     co_local_layers = None, co_local_assignment = None\<rparr>"

text \<open>What the clock and the workers' stop watches show during a call.\<close>

record timing =
  tm_now :: real
  tm_ms :: real

text \<open>A request and its reply over a connection; \<open>None\<close> when the node is not there.\<close>

definition exchange :: "('m, 'l, 'c, 'h) mesh_env \<Rightarrow> timing \<Rightarrow> ('m, 'l, 'c) net \<Rightarrow> string \<Rightarrow> message \<Rightarrow>
    ('m, 'l, 'c) net \<times> message option" where
  "exchange env tm net n m =
     (case pd_get net n of
        None \<Rightarrow> (net, None)
      | Some w \<Rightarrow> (let (w1, reply, _) = serve env (tm_now tm) (tm_ms tm) w m in (pd_set net n w1, reply)))"

definition dict_get :: "(pyval \<times> pyval) list \<Rightarrow> string \<Rightarrow> pyval \<Rightarrow> pyval" where
  "dict_get d k v = (case map_of d (PyStr k) of None \<Rightarrow> v | Some x \<Rightarrow> x)"

text \<open>
  \<open>WorkerConnection.connect\<close> with the coordinator's own version; capabilities have the types a worker gives
  them, other values leave the field as it was.
\<close>

definition take_str :: "pyval \<Rightarrow> string \<Rightarrow> string" where
  "take_str v s = (case v of PyStr t \<Rightarrow> t | _ \<Rightarrow> s)"

definition take_int :: "pyval \<Rightarrow> int \<Rightarrow> int" where
  "take_int v i = (case v of PyInt j \<Rightarrow> j | _ \<Rightarrow> i)"

definition take_real :: "pyval \<Rightarrow> real \<Rightarrow> real" where
  "take_real v x = (case v of PyFloat y \<Rightarrow> y | PyInt j \<Rightarrow> of_int j | _ \<Rightarrow> x)"

definition versions_differ :: "pyval \<Rightarrow> string \<Rightarrow> bool" where
  "versions_differ v own \<longleftrightarrow> v \<noteq> PyStr ''unknown'' \<and> own \<noteq> ''unknown'' \<and> v \<noteq> PyStr own"

definition connected_node :: "(pyval \<times> pyval) list \<Rightarrow> node_info \<Rightarrow> node_info" where
  "connected_node caps n = n\<lparr>ni_chip := take_str (dict_get caps ''chip'' PyNone) (ni_chip n),
     ni_ram_gb := take_int (dict_get caps ''ram_gb'' PyNone) (ni_ram_gb n),
     ni_gpu_cores := take_int (dict_get caps ''gpu_cores'' PyNone) (ni_gpu_cores n),
     ni_available_gb := take_real (dict_get caps ''available_gb'' PyNone) (ni_available_gb n), ni_status := ''connected''\<rparr>"

definition connect :: "('m, 'l, 'c, 'h) mesh_env \<Rightarrow> timing \<Rightarrow> string \<Rightarrow> string \<Rightarrow> ('m, 'l, 'c) net \<Rightarrow> node_info \<Rightarrow>
    ('m, 'l, 'c) net \<times> node_info option" where
  "connect env tm own_version secret net n =
     (case exchange env tm net (ni_node_id n) (make_join secret (PyDict (node_to_dict n))) of
        (net1, None) \<Rightarrow> (net1, None)
      | (net1, Some r) \<Rightarrow>
          (net1,
           if msg_type r = JOIN_ACK \<and> py_truthy (metadata_get r ''accepted'' PyNone)
           then (case metadata_get r ''capabilities'' (PyDict []) of
                   PyDict caps \<Rightarrow>
                     if versions_differ (dict_get caps ''vmlx_version'' (PyStr ''unknown'')) own_version then None
                     else Some (connected_node caps n)
                 | _ \<Rightarrow> None)
           else None))"

text \<open>\<open>WorkerConnection.load_layers\<close>, \<open>forward\<close> and \<open>release_cache\<close>.\<close>

definition remote_load :: "('m, 'l, 'c, 'h) mesh_env \<Rightarrow> timing \<Rightarrow> ('m, 'l, 'c) net \<Rightarrow> string \<Rightarrow> string \<Rightarrow> nat \<Rightarrow> nat \<Rightarrow>
    ('m, 'l, 'c) net \<times> bool" where
  "remote_load env tm net n path a b =
     (case exchange env tm net n (make_load_layers path (int a) (int b) None) of
        (net1, Some r) \<Rightarrow> (net1, msg_type r = LOAD_ACK \<and> py_truthy (metadata_get r ''success'' PyNone))
      | (net1, None) \<Rightarrow> (net1, False))"

definition remote_forward :: "('m, 'l, 'c, 'h) mesh_env \<Rightarrow> timing \<Rightarrow> ('m, 'l, 'c) net \<Rightarrow> string \<Rightarrow> 'h \<Rightarrow> string \<Rightarrow> int \<Rightarrow>
    ('m, 'l, 'c) net \<times> 'h may_raise" where
  "remote_forward env tm net n h rid pos =
     (if rid = [] then (net, Inl ValueError)
      else case exchange env tm net n (make_forward env h rid pos (Some rid)) of
        (net1, Some r) \<Rightarrow>
          (net1, if msg_type r = FORWARD_RESULT
                 then (case load_tensor env (case msg_payload r of None \<Rightarrow> [] | Some p \<Rightarrow> p) of
                         None \<Rightarrow> Inl ValueError | Some h1 \<Rightarrow> Inr h1)
                 else Inl RuntimeError)
      | (net1, None) \<Rightarrow> (net1, Inl RuntimeError))"

definition remote_release :: "('m, 'l, 'c, 'h) mesh_env \<Rightarrow> timing \<Rightarrow> ('m, 'l, 'c) net \<Rightarrow> string \<Rightarrow> string \<Rightarrow>
    ('m, 'l, 'c) net \<times> bool" where
  "remote_release env tm net n rid =
     (case exchange env tm net n (make_cache_release rid) of
        (net1, Some r) \<Rightarrow> (net1, msg_type r = CACHE_ACK \<and> py_truthy (metadata_get r ''success'' (PyBool False)))
      | (net1, None) \<Rightarrow> (net1, False))"

section \<open>Setting up the cluster\<close>

text \<open>The model on disk, as the coordinator reads it before loading, and the coordinator's own machine.\<close>

record model_files =
  mf_path :: string
  mf_layers :: nat
  mf_config :: text_config
  mf_total_gb :: real

definition plan_node_of :: "string \<Rightarrow> node_info \<Rightarrow> plan_node" where
  "plan_node_of i n = \<lparr>pn_id = i, pn_hostname = Some (ni_hostname n), pn_available = Some (ni_available_gb n), pn_compute = Some 1\<rparr>"

fun connect_all :: "('m, 'l, 'c, 'h) mesh_env \<Rightarrow> timing \<Rightarrow> string \<Rightarrow> node_info list \<Rightarrow> ('m, 'l) coordinator \<times> ('m, 'l, 'c) net \<Rightarrow>
    plan_node list \<Rightarrow> (('m, 'l) coordinator \<times> ('m, 'l, 'c) net) \<times> plan_node list" where
  "connect_all env tm own [] s plan = (s, plan)"
| "connect_all env tm own (n # ns) (co, net) plan =
     (case connect env tm own (co_secret co) net n of
        (net1, None) \<Rightarrow> connect_all env tm own ns (co, net1) plan
      | (net1, Some n1) \<Rightarrow>
          connect_all env tm own ns (co\<lparr>co_workers := pd_set (co_workers co) (ni_node_id n) n1\<rparr>, net1)
            (plan @ [plan_node_of (ni_node_id n) n1]))"

definition layers_between :: "nat \<Rightarrow> nat \<Rightarrow> 'a list \<Rightarrow> 'a list" where
  "layers_between a b xs = take (b - a) (drop a xs)"

text \<open>The coordinator's own load: the range of the first assignment, or no layers at all.\<close>

definition local_load :: "('m, 'l, 'c, 'h) mesh_env \<Rightarrow> string \<Rightarrow> bool \<Rightarrow> ('m, 'l) coordinator \<Rightarrow> ('m, 'l) coordinator may_raise" where
  "local_load env path local co =
     (case co_assignments co of
        a # _ \<Rightarrow>
          if local then
            (case load_model env path (int (as_start a)) (int (as_end a)) of
               Inl _ \<Rightarrow> Inl RuntimeError
             | Inr m \<Rightarrow>
                 (case layers_list env m of
                    None \<Rightarrow> Inl ValueError
                  | Some ls \<Rightarrow> Inr (co\<lparr>co_local_assignment := Some a, co_model := Some m,
                      co_local_layers := Some (layers_between (as_start a) (as_end a) ls)\<rparr>)))
          else (case load_model env path 0 0 of Inl _ \<Rightarrow> Inl RuntimeError | Inr m \<Rightarrow> Inr (co\<lparr>co_model := Some m\<rparr>))
      | [] \<Rightarrow> (case load_model env path 0 0 of Inl _ \<Rightarrow> Inl RuntimeError | Inr m \<Rightarrow> Inr (co\<lparr>co_model := Some m\<rparr>)))"

fun load_workers :: "('m, 'l, 'c, 'h) mesh_env \<Rightarrow> timing \<Rightarrow> string \<Rightarrow> (string, node_info) pydict \<Rightarrow> assignment list \<Rightarrow>
    ('m, 'l, 'c) net \<Rightarrow> ('m, 'l, 'c) net \<times> unit may_raise" where
  "load_workers env tm path ws [] net = (net, Inr ())"
| "load_workers env tm path ws (a # as) net =
     (if as_node_id a = ''coordinator'' \<or> pd_get ws (as_node_id a) = None then load_workers env tm path ws as net
      else case remote_load env tm net (as_node_id a) path (as_start a) (as_end a) of
             (net1, ok) \<Rightarrow> if ok then load_workers env tm path ws as net1 else (net1, Inl RuntimeError))"

definition setup_cluster :: "('m, 'l, 'c, 'h) mesh_env \<Rightarrow> timing \<Rightarrow> string \<Rightarrow> model_files \<Rightarrow> int \<Rightarrow> node_info option \<Rightarrow>
    node_info list \<Rightarrow> ('m, 'l) coordinator \<times> ('m, 'l, 'c) net \<Rightarrow> (('m, 'l) coordinator \<times> ('m, 'l, 'c) net) \<times> unit may_raise" where
  "setup_cluster env tm own f smelt local nodes s0 =
     (if mf_layers f = 0 then (s0, Inl ValueError)
      else case estimate_layer_profiles (mf_config f) (mf_total_gb f) (mf_layers f) smelt of
        None \<Rightarrow> (s0, Inl ValueError)
      | Some profiles \<Rightarrow>
          (let own_node = (case local of None \<Rightarrow> [] | Some n \<Rightarrow> [plan_node_of ''coordinator'' n]);
               ((co, net), plan) = connect_all env tm own nodes s0 own_node
           in if plan = [] then ((co, net), Inl RuntimeError)
              else case assign_layers_by_ram profiles plan 2 of
                Inl e \<Rightarrow> ((co, net), Inl e)
              | Inr as \<Rightarrow>
                  (let co1 = co\<lparr>co_assignments := as\<rparr>
                   in case local_load env (mf_path f) (local \<noteq> None) co1 of
                        Inl e \<Rightarrow> ((co1, net), Inl e)
                      | Inr co2 \<Rightarrow>
                          (case load_workers env tm (mf_path f) (co_workers co2) as net of
                             (net1, Inl e) \<Rightarrow> ((co2, net1), Inl e)
                           | (net1, Inr _) \<Rightarrow> ((co2\<lparr>co_order := map as_node_id as\<rparr>, net1), Inr ())))))"

section \<open>Forward passes\<close>

text \<open>\<open>make_local_cache\<close>.\<close>

definition make_local_cache :: "('m, 'l, 'c, 'h) mesh_env \<Rightarrow> ('m, 'l) coordinator \<Rightarrow> 'c list option" where
  "make_local_cache env co =
     (case (co_local_layers co, co_local_assignment co) of
        (Some (l # ls), Some a) \<Rightarrow>
          (case co_model co of None \<Rightarrow> None
           | Some m \<Rightarrow>
               (case full_cache env m of None \<Rightarrow> None
                | Some cs \<Rightarrow>
                    if (case layers_list env m of None \<Rightarrow> False | Some xs \<Rightarrow> length cs \<noteq> length xs) then None
                    else if length cs < as_end a then None
                    else Some (layers_between (as_start a) (as_end a) cs)))
      | _ \<Rightarrow> None)"

text \<open>
  The pipeline over the assignments.  The coordinator's own step runs \<open>local_layers\<close>, whatever range the
  assignment has.
\<close>

fun pipeline :: "('m, 'l, 'c, 'h) mesh_env \<Rightarrow> timing \<Rightarrow> ('m, 'l) coordinator \<Rightarrow> string \<Rightarrow> int \<Rightarrow> mask \<Rightarrow> assignment list \<Rightarrow>
    ('m, 'l, 'c) net \<Rightarrow> 'c list option \<Rightarrow> 'h \<Rightarrow> (('m, 'l, 'c) net \<times> 'c list option) \<times> 'h may_raise" where
  "pipeline env tm co rid pos k [] net lc h = ((net, lc), Inr h)"
| "pipeline env tm co rid pos k (a # as) net lc h =
     (if as_node_id a = ''coordinator'' then
        (case co_local_layers co of
           Some (l # ls) \<Rightarrow>
             (case run_slot (apply_layer env) k (l # ls) lc h of
                (Inl e, lc1) \<Rightarrow> ((net, lc1), Inl e)
              | (Inr h1, lc1) \<Rightarrow> pipeline env tm co rid pos k as net lc1 h1)
         | _ \<Rightarrow> pipeline env tm co rid pos k as net lc h)
      else case pd_get (co_workers co) (as_node_id a) of
        None \<Rightarrow> ((net, lc), Inl KeyError)
      | Some _ \<Rightarrow>
          (case remote_forward env tm net (as_node_id a) h rid pos of
             (net1, Inl e) \<Rightarrow> ((net1, lc), Inl e)
           | (net1, Inr h1) \<Rightarrow> pipeline env tm co rid pos k as net1 lc h1))"

text \<open>\<open>forward\<close>: embedding and projection belong to the model and are parameters.\<close>

definition forward :: "('m, 'l, 'c, 'h) mesh_env \<Rightarrow> timing \<Rightarrow> ('m \<Rightarrow> 'i \<Rightarrow> 'h option) \<Rightarrow> ('m \<Rightarrow> 'h \<Rightarrow> 'o) \<Rightarrow>
    ('m, 'l) coordinator \<Rightarrow> 'i \<Rightarrow> string \<Rightarrow> int \<Rightarrow> ('m, 'l, 'c) net \<Rightarrow> 'c list option \<Rightarrow>
    (('m, 'l, 'c) net \<times> 'c list option) \<times> 'o may_raise" where
  "forward env tm emb project co ids rid pos net lc =
     (if rid = [] then ((net, lc), Inl ValueError)
      else case co_model co of
        None \<Rightarrow> ((net, lc), Inl RuntimeError)
      | Some m \<Rightarrow>
          (case emb m ids of
             None \<Rightarrow> ((net, lc), Inl RuntimeError)
           | Some h \<Rightarrow>
               (case causal_mask (seq_length env h) (pos + int (seq_length env h)) of
                  Inl e \<Rightarrow> ((net, lc), Inl e)
                | Inr k \<Rightarrow>
                    (case pipeline env tm co rid pos k (co_assignments co) net lc h of
                       (s, Inl e) \<Rightarrow> (s, Inl e)
                     | (s, Inr h1) \<Rightarrow> (s, Inr (project m h1))))))"

definition release_request :: "('m, 'l, 'c, 'h) mesh_env \<Rightarrow> timing \<Rightarrow> ('m, 'l) coordinator \<Rightarrow> string \<Rightarrow> ('m, 'l, 'c) net \<Rightarrow>
    ('m, 'l, 'c) net" where
  "release_request env tm co rid net =
     (if rid = [] then net else foldl (\<lambda>net n. fst (remote_release env tm net n rid)) net (map fst (co_workers co)))"

end
