(* ===== verification/Mesh_Pipeline.thy ===== *)
theory Mesh_Pipeline
  imports Mesh_Coordinator
begin

text \<open>
  What the pipeline of a cluster computes: with the coordinator on the first range, or on none, the forward passes
  of a request are those of one machine that runs all layers with one cache, pass after pass; with the coordinator
  on any other range they are not.
\<close>

section \<open>Running layers one segment after the other\<close>

lemma run_layers_length: "length cs = length ls \<Longrightarrow> length (snd (run_layers ap k ls cs h)) = length ls"
  by (induction ap k ls cs h rule: run_layers.induct) (auto simp: Let_def split: prod.splits)

lemma run_layers_total:
  assumes "length cs = length ls"
  obtains h1 cs1 where "run_layers ap k ls cs h = (Inr h1, cs1)" "length cs1 = length ls"
proof -
  have "\<exists>h1 cs1. run_layers ap k ls cs h = (Inr h1, cs1)"
    using assms by (induction ap k ls cs h rule: run_layers.induct) (auto simp: Let_def split: prod.splits)
  then show ?thesis using that run_layers_length [OF assms, of ap k h] by fastforce
qed

lemma run_layers_append:
  "length cs = length ls \<Longrightarrow> run_layers ap k ls cs h = (Inr h1, cs1) \<Longrightarrow>
   run_layers ap k (ls @ ls') (cs @ cs') h = (let (r, cs2) = run_layers ap k ls' cs' h1 in (r, cs1 @ cs2))"
proof (induction ap k ls cs h arbitrary: cs1 rule: run_layers.induct)
  case (3 ap k l ls c cs h)
  obtain h2 c2 where a: "ap l k (Some c) h = (h2, c2)" by (cases "ap l k (Some c) h")
  obtain r cs2 where r: "run_layers ap k ls cs h2 = (r, cs2)" by (cases "run_layers ap k ls cs h2")
  have "r = Inr h1" and cs1: "cs1 = (case c2 of None \<Rightarrow> c | Some c' \<Rightarrow> c') # cs2" using 3(3) a r by auto
  then have "run_layers ap k (ls @ ls') (cs @ cs') h2 = (let (r, cs3) = run_layers ap k ls' cs' h1 in (r, cs2 @ cs3))"
    using 3(1) [OF a [symmetric] refl, of cs2] 3(2) r by simp
  then show ?case using a cs1 by (simp add: Let_def split: prod.splits)
qed (auto split: prod.splits)

text \<open>What is relied on of tensors and layers: tensors survive the wire, and layers keep the number of positions.\<close>

definition sound_env :: "('m, 'l, 'c, 'h) mesh_env \<Rightarrow> bool" where
  "sound_env env \<longleftrightarrow> (\<forall>h. load_tensor env (save_tensor env h) = Some h) \<and>
     (\<forall>l k c h. seq_length env (fst (apply_layer env l k c h)) = seq_length env h)"

lemma run_layers_seq_length:
  assumes "sound_env env"
  shows "run_layers (apply_layer env) k ls cs h = (Inr h1, cs1) \<Longrightarrow> seq_length env h1 = seq_length env h"
proof (induction "apply_layer env" k ls cs h arbitrary: cs1 rule: run_layers.induct)
  case (3 k l ls c cs h)
  obtain h2 c2 where a: "apply_layer env l k (Some c) h = (h2, c2)" by (cases "apply_layer env l k (Some c) h")
  have "seq_length env h2 = seq_length env h" using assms a by (metis fst_conv sound_env_def)
  then show ?case using 3(1) [OF a [symmetric] refl] 3(2) a by (auto split: prod.splits)
qed auto

section \<open>One node's step\<close>

definition exec_of :: "('m, 'l) coordinator \<Rightarrow> assignment \<Rightarrow> assignment" where
  "exec_of co a = (if as_node_id a = ''coordinator'' then hd (co_assignments co) else a)"

definition seg_layers :: "'l list \<Rightarrow> ('m, 'l) coordinator \<Rightarrow> assignment \<Rightarrow> 'l list" where
  "seg_layers all co a = layers_between (as_start (exec_of co a)) (as_end (exec_of co a)) all"

definition seg_cache :: "('m, 'l, 'c, 'h) mesh_env \<Rightarrow> string \<Rightarrow> ('m, 'l, 'c) net \<Rightarrow> 'c list option \<Rightarrow> assignment \<Rightarrow> 'c list option" where
  "seg_cache env rid net lc a =
     (if as_node_id a = ''coordinator'' then lc
      else case pd_get net (as_node_id a) of None \<Rightarrow> None | Some w \<Rightarrow> forward_slot env w rid)"

definition seg_ok :: "('m, 'l, 'c, 'h) mesh_env \<Rightarrow> string \<Rightarrow> 'l list \<Rightarrow> ('m, 'l) coordinator \<Rightarrow> ('m, 'l, 'c) net \<Rightarrow>
    'c list option \<Rightarrow> assignment \<Rightarrow> bool" where
  "seg_ok env rid all co net lc a \<longleftrightarrow> seg_layers all co a \<noteq> [] \<and>
     (\<exists>cs. seg_cache env rid net lc a = Some cs \<and> length cs = length (seg_layers all co a)) \<and>
     (if as_node_id a = ''coordinator'' then co_local_layers co = Some (seg_layers all co a)
      else pd_get (co_workers co) (as_node_id a) \<noteq> None \<and>
        (\<exists>w. pd_get net (as_node_id a) = Some w \<and> w_authenticated w \<and> w_layers w = Some (seg_layers all co a)))"

lemma run_slot_nonempty:
  "length cs = length ls \<Longrightarrow> ls \<noteq> [] \<Longrightarrow>
   run_slot ap k ls (Some cs) h = (let (r, cs1) = run_layers ap k ls cs h in (r, Some cs1))"
  by (cases cs) (auto simp: run_slot_def)

lemma worker_forward:
  assumes env: "sound_env env" and rid: "rid \<noteq> []" and auth: "w_authenticated w" and ls: "w_layers w = Some ls" "ls \<noteq> []"
    and slot: "forward_slot env w rid = Some cs" "length cs = length ls"
    and k: "causal_mask (seq_length env h) (pos + int (seq_length env h)) = Inr k"
    and run: "run_layers (apply_layer env) k ls cs h = (Inr h1, cs1)"
  shows "\<exists>w1. serve env now ms w (make_forward env h rid pos (Some rid)) = (w1, Some (make_forward_result env h1 rid ms), True) \<and>
    w_authenticated w1 \<and> w_layers w1 = Some ls \<and> forward_slot env w1 rid = Some cs1"
proof -
  obtain c r where r: "rid = c # r" using rid by (cases rid) auto
  have lt: "load_tensor env (save_tensor env h) = Some h" using env by (simp add: sound_env_def)
  have rs: "run_slot (apply_layer env) k ls (Some cs) h = (Inr h1, Some cs1)"
    by (simp add: run_slot_nonempty [OF slot(2) ls(2)] run)
  let ?m = "make_forward env h rid pos (Some rid)"
  have "\<exists>w1. run_forward env now ms w ls rid pos h = (w1, Inr (make_forward_result env h1 rid ms)) \<and>
      w_authenticated w1 \<and> w_layers w1 = Some ls \<and> forward_slot env w1 rid = Some cs1"
    unfolding run_forward_def Let_def slot(1) k sum.case rs prod.case
    using auth ls by (simp add: forward_slot_def)
  then obtain w1 where w1: "run_forward env now ms w ls rid pos h = (w1, Inr (make_forward_result env h1 rid ms))"
    "w_authenticated w1" "w_layers w1 = Some ls" "forward_slot env w1 rid = Some cs1" by blast
  have "handle_forward env now ms w ?m = run_forward env now ms w ls rid pos h"
    using auth ls(1) lt r by (simp add: handle_forward_def make_forward_def metadata_get_def)
  then have "serve env now ms w ?m = (w1, Some (make_forward_result env h1 rid ms), True)"
    using w1(1) by (simp add: serve_def dispatch_def make_forward_def)
  then show ?thesis using w1 by blast
qed

lemma remote_step:
  assumes env: "sound_env env" and rid: "rid \<noteq> []" and ok: "seg_ok env rid all co net lc a" and a: "as_node_id a \<noteq> ''coordinator''"
    and k: "causal_mask (seq_length env h) (pos + int (seq_length env h)) = Inr k"
  shows "\<exists>net1 h1 cs cs1. remote_forward env tm net (as_node_id a) h rid pos = (net1, Inr h1) \<and>
    seg_cache env rid net lc a = Some cs \<and> length cs = length (seg_layers all co a) \<and>
    run_layers (apply_layer env) k (seg_layers all co a) cs h = (Inr h1, cs1) \<and>
    seg_cache env rid net1 lc a = Some cs1 \<and> seg_ok env rid all co net1 lc a \<and>
    (\<forall>n. n \<noteq> as_node_id a \<longrightarrow> pd_get net1 n = pd_get net n)"
proof -
  obtain w cs where w: "pd_get net (as_node_id a) = Some w" "w_authenticated w" "w_layers w = Some (seg_layers all co a)"
    and cs: "seg_cache env rid net lc a = Some cs" "length cs = length (seg_layers all co a)"
    and ne: "seg_layers all co a \<noteq> []" and co: "pd_get (co_workers co) (as_node_id a) \<noteq> None"
    using ok a by (auto simp: seg_ok_def)
  have slot: "forward_slot env w rid = Some cs" using cs(1) a w(1) by (simp add: seg_cache_def)
  obtain h1 cs1 where run: "run_layers (apply_layer env) k (seg_layers all co a) cs h = (Inr h1, cs1)"
      "length cs1 = length (seg_layers all co a)"
    by (rule run_layers_total [OF cs(2), of "apply_layer env" k h])
  obtain w1 where w1: "serve env (tm_now tm) (tm_ms tm) w (make_forward env h rid pos (Some rid)) =
        (w1, Some (make_forward_result env h1 rid (tm_ms tm)), True)"
      "w_authenticated w1" "w_layers w1 = Some (seg_layers all co a)" "forward_slot env w1 rid = Some cs1"
    using worker_forward [OF env rid w(2,3) ne slot cs(2) k run(1)] by blast
  let ?net = "pd_set net (as_node_id a) w1"
  have lt: "load_tensor env (save_tensor env h1) = Some h1" using env by (simp add: sound_env_def)
  have "remote_forward env tm net (as_node_id a) h rid pos = (?net, Inr h1)"
    using rid w(1) w1(1) lt by (simp add: remote_forward_def exchange_def make_forward_result_def)
  moreover have "seg_cache env rid ?net lc a = Some cs1" using a w1(4) by (simp add: seg_cache_def)
  moreover have "seg_ok env rid all co ?net lc a" using a w1 run(2) ne co by (simp add: seg_ok_def seg_cache_def)
  ultimately show ?thesis using cs run(1) by (intro exI [of _ ?net] exI [of _ h1] exI [of _ cs] exI [of _ cs1]) simp
qed

lemma seg_frame:
  assumes "as_node_id b \<noteq> ''coordinator'' \<Longrightarrow> pd_get net1 (as_node_id b) = pd_get net (as_node_id b)"
    and "as_node_id b = ''coordinator'' \<Longrightarrow> lc1 = lc"
  shows "seg_cache env rid net1 lc1 b = seg_cache env rid net lc b" "seg_ok env rid all co net1 lc1 b = seg_ok env rid all co net lc b"
  using assms by (auto simp: seg_cache_def seg_ok_def)

section \<open>The whole pipeline\<close>

definition caches_of :: "('m, 'l, 'c, 'h) mesh_env \<Rightarrow> string \<Rightarrow> ('m, 'l, 'c) net \<Rightarrow> 'c list option \<Rightarrow> assignment list \<Rightarrow> 'c list" where
  "caches_of env rid net lc as = concat (map (\<lambda>a. the (seg_cache env rid net lc a)) as)"

definition layers_of :: "'l list \<Rightarrow> ('m, 'l) coordinator \<Rightarrow> assignment list \<Rightarrow> 'l list" where
  "layers_of all co as = concat (map (seg_layers all co) as)"

lemma pipeline_step:
  assumes env: "sound_env env" and rid: "rid \<noteq> []"
    and ok: "seg_ok env rid all co net lc a"
    and k: "causal_mask (seq_length env h) (pos + int (seq_length env h)) = Inr k"
  shows "\<exists>net1 lc1 h1 cs cs1. pipeline env tm co rid pos k (a # as) net lc h = pipeline env tm co rid pos k as net1 lc1 h1 \<and>
    seg_cache env rid net lc a = Some cs \<and> length cs = length (seg_layers all co a) \<and>
    run_layers (apply_layer env) k (seg_layers all co a) cs h = (Inr h1, cs1) \<and>
    seg_cache env rid net1 lc1 a = Some cs1 \<and> seg_ok env rid all co net1 lc1 a \<and>
    (\<forall>n. n \<noteq> as_node_id a \<longrightarrow> pd_get net1 n = pd_get net n) \<and> (as_node_id a \<noteq> ''coordinator'' \<longrightarrow> lc1 = lc)"
proof (cases "as_node_id a = ''coordinator''")
  case True
  obtain cs where cs: "lc = Some cs" "length cs = length (seg_layers all co a)" "co_local_layers co = Some (seg_layers all co a)"
    and ne: "seg_layers all co a \<noteq> []" using ok True by (auto simp: seg_ok_def seg_cache_def)
  obtain h1 cs1 where run: "run_layers (apply_layer env) k (seg_layers all co a) cs h = (Inr h1, cs1)"
      "length cs1 = length (seg_layers all co a)"
    by (rule run_layers_total [OF cs(2), of "apply_layer env" k h])
  obtain l ls where l: "seg_layers all co a = l # ls" using ne by (cases "seg_layers all co a") auto
  have "run_slot (apply_layer env) k (seg_layers all co a) lc h = (Inr h1, Some cs1)"
    by (simp add: run_slot_nonempty [OF cs(2) ne] cs(1) run(1))
  then have "pipeline env tm co rid pos k (a # as) net lc h = pipeline env tm co rid pos k as net (Some cs1) h1"
    using True cs(3) l by simp
  moreover have "seg_ok env rid all co net (Some cs1) a" using True cs(3) run(2) ne by (simp add: seg_ok_def seg_cache_def)
  ultimately show ?thesis using True cs run(1) by (intro exI [of _ net] exI [of _ "Some cs1"] exI) (auto simp: seg_cache_def)
next
  case False
  obtain net1 h1 cs cs1 where r: "remote_forward env tm net (as_node_id a) h rid pos = (net1, Inr h1)"
      "seg_cache env rid net lc a = Some cs" "length cs = length (seg_layers all co a)"
      "run_layers (apply_layer env) k (seg_layers all co a) cs h = (Inr h1, cs1)"
      "seg_cache env rid net1 lc a = Some cs1" "seg_ok env rid all co net1 lc a" "\<forall>n. n \<noteq> as_node_id a \<longrightarrow> pd_get net1 n = pd_get net n"
    using remote_step [OF env rid ok False k] by blast
  have "pipeline env tm co rid pos k (a # as) net lc h = pipeline env tm co rid pos k as net1 lc h1"
    using False ok r(1) by (auto simp: seg_ok_def)
  then show ?thesis using r by blast
qed

lemma pipeline_runs:
  assumes env: "sound_env env" and rid: "rid \<noteq> []"
  shows "distinct (map as_node_id as) \<Longrightarrow> \<forall>a \<in> set as. seg_ok env rid all co net lc a \<Longrightarrow>
    causal_mask (seq_length env h) (pos + int (seq_length env h)) = Inr k \<Longrightarrow>
    \<exists>net1 lc1 h1. pipeline env tm co rid pos k as net lc h = ((net1, lc1), Inr h1) \<and>
      run_layers (apply_layer env) k (layers_of all co as) (caches_of env rid net lc as) h = (Inr h1, caches_of env rid net1 lc1 as) \<and>
      (\<forall>a \<in> set as. seg_ok env rid all co net1 lc1 a) \<and>
      (\<forall>n. n \<notin> as_node_id ` set as \<longrightarrow> pd_get net1 n = pd_get net n) \<and>
      (''coordinator'' \<notin> as_node_id ` set as \<longrightarrow> lc1 = lc)"
proof (induction as arbitrary: net lc h)
  case Nil
  then show ?case by (simp add: layers_of_def caches_of_def)
next
  case (Cons a as)
  have a_ok: "seg_ok env rid all co net lc a" using Cons.prems(2) by simp
  obtain net1 lc1 h1 cs cs1 where s: "pipeline env tm co rid pos k (a # as) net lc h = pipeline env tm co rid pos k as net1 lc1 h1"
      "seg_cache env rid net lc a = Some cs" "length cs = length (seg_layers all co a)"
      "run_layers (apply_layer env) k (seg_layers all co a) cs h = (Inr h1, cs1)"
      "seg_cache env rid net1 lc1 a = Some cs1" "seg_ok env rid all co net1 lc1 a"
      "\<forall>n. n \<noteq> as_node_id a \<longrightarrow> pd_get net1 n = pd_get net n" "as_node_id a \<noteq> ''coordinator'' \<longrightarrow> lc1 = lc"
    using pipeline_step [OF env rid a_ok Cons.prems(3)] by blast
  have fresh: "as_node_id a \<notin> as_node_id ` set as" using Cons.prems(1) by auto
  have fr: "seg_cache env rid net1 lc1 b = seg_cache env rid net lc b" "seg_ok env rid all co net1 lc1 b = seg_ok env rid all co net lc b"
    if "b \<in> set as" for b
  proof -
    have "as_node_id b \<noteq> as_node_id a" using that fresh by (metis imageI)
    then show "seg_cache env rid net1 lc1 b = seg_cache env rid net lc b" "seg_ok env rid all co net1 lc1 b = seg_ok env rid all co net lc b"
      by (intro seg_frame; use s(7,8) in simp)+
  qed
  have "seq_length env h1 = seq_length env h" by (rule run_layers_seq_length [OF env s(4)])
  then have k1: "causal_mask (seq_length env h1) (pos + int (seq_length env h1)) = Inr k" using Cons.prems(3) by simp
  obtain net2 lc2 h2 where ih: "pipeline env tm co rid pos k as net1 lc1 h1 = ((net2, lc2), Inr h2)"
      "run_layers (apply_layer env) k (layers_of all co as) (caches_of env rid net1 lc1 as) h1 = (Inr h2, caches_of env rid net2 lc2 as)"
      "\<forall>a \<in> set as. seg_ok env rid all co net2 lc2 a" "\<forall>n. n \<notin> as_node_id ` set as \<longrightarrow> pd_get net2 n = pd_get net1 n"
      "''coordinator'' \<notin> as_node_id ` set as \<longrightarrow> lc2 = lc1"
    using Cons.IH [of net1 lc1 h1] Cons.prems(1,2) fr(2) k1 by auto
  have later: "seg_cache env rid net2 lc2 a = seg_cache env rid net1 lc1 a" "seg_ok env rid all co net2 lc2 a = seg_ok env rid all co net1 lc1 a"
    by (intro seg_frame; use ih(4,5) fresh in auto)+
  have c0: "caches_of env rid net lc (a # as) = cs @ caches_of env rid net1 lc1 as"
    using s(2) fr(1) by (simp add: caches_of_def cong: map_cong)
  have c2: "caches_of env rid net2 lc2 (a # as) = cs1 @ caches_of env rid net2 lc2 as"
    using s(5) later(1) by (simp add: caches_of_def)
  have "run_layers (apply_layer env) k (layers_of all co (a # as)) (caches_of env rid net lc (a # as)) h =
      (Inr h2, caches_of env rid net2 lc2 (a # as))"
    using run_layers_append [OF s(3,4), of "layers_of all co as" "caches_of env rid net1 lc1 as"] ih(2) c0 c2
    by (simp add: layers_of_def)
  moreover have "\<forall>b \<in> set (a # as). seg_ok env rid all co net2 lc2 b" using ih(3) later(2) s(6) by simp
  moreover have "\<forall>n. n \<notin> as_node_id ` set (a # as) \<longrightarrow> pd_get net2 n = pd_get net n" using ih(4) s(7) by simp
  moreover have "''coordinator'' \<notin> as_node_id ` set (a # as) \<longrightarrow> lc2 = lc" using ih(5) s(8) by auto
  ultimately show ?case using s(1) ih(1) by auto
qed

section \<open>What a successful setup leaves\<close>

text \<open>
  What is relied on of the loader: whatever range is asked for, the model has the layers \<open>all\<close> in that range (other
  positions may hold unloaded ones), and \<open>make_cache\<close> makes one entry per layer.
\<close>

definition loads :: "('m, 'l, 'c, 'h) mesh_env \<Rightarrow> string \<Rightarrow> 'l list \<Rightarrow> 'c list \<Rightarrow> bool" where
  "loads env path all fresh \<longleftrightarrow> length fresh = length all \<and>
     (\<forall>a b m. load_model env path (int a) (int b) = Inr m \<longrightarrow>
        (\<exists>ls. layers_list env m = Some ls \<and> length ls = length all \<and> layers_between a b ls = layers_between a b all) \<and>
        full_cache env m = Some fresh \<and> (layer_count env m = None \<or> layer_count env m = Some (length all)))"

definition idle :: "string \<Rightarrow> ('m, 'l, 'c) net \<Rightarrow> bool" where
  "idle rid net \<longleftrightarrow> (\<forall>n w. pd_get net n = Some w \<longrightarrow> pd_get (w_cache w) rid = None)"

lemma idle_set: "idle rid net \<Longrightarrow> pd_get (w_cache w) rid = None \<Longrightarrow> idle rid (pd_set net n w)"
  by (simp add: idle_def)

lemma serve_join_cache: "serve env now ms w (make_join secret v) = (w1, r, st) \<Longrightarrow> w_cache w1 = w_cache w"
  by (auto simp: serve_def dispatch_def make_join_def handle_join_def set_status_def Let_def split: if_splits)

lemma connect_idle: "connect env tm own secret net n = (net1, r) \<Longrightarrow> idle rid net \<Longrightarrow> idle rid net1"
proof -
  assume c: "connect env tm own secret net n = (net1, r)" and i: "idle rid net"
  show "idle rid net1"
  proof (cases "pd_get net (ni_node_id n)")
    case None
    then show ?thesis using c i by (simp add: connect_def exchange_def)
  next
    case (Some w)
    obtain w1 x st where s: "serve env (tm_now tm) (tm_ms tm) w (make_join secret (PyDict (node_to_dict n))) = (w1, x, st)"
      by (cases "serve env (tm_now tm) (tm_ms tm) w (make_join secret (PyDict (node_to_dict n)))")
    have "net1 = pd_set net (ni_node_id n) w1"
      using c Some s by (auto simp: connect_def exchange_def split: option.splits)
    moreover have "pd_get (w_cache w1) rid = None" using serve_join_cache [OF s] i Some by (simp add: idle_def)
    ultimately show ?thesis using idle_set [OF i] by simp
  qed
qed

lemma connect_all_props:
  "connect_all env tm own ns (co, net) plan = ((co1, net1), plan1) \<Longrightarrow> distinct (map ni_node_id ns) \<Longrightarrow> idle rid net \<Longrightarrow>
   \<exists>ms. plan1 = plan @ ms \<and> pn_id ` set ms \<subseteq> ni_node_id ` set ns \<and> distinct (map pn_id ms) \<and>
     (\<forall>n. n \<in> pn_id ` set ms \<or> pd_get (co_workers co) n \<noteq> None \<longrightarrow> pd_get (co_workers co1) n \<noteq> None) \<and> idle rid net1 \<and>
     co_secret co1 = co_secret co"
proof (induction ns arbitrary: co net plan)
  case (Cons n ns)
  obtain net2 r where c: "connect env tm own (co_secret co) net n = (net2, r)"
    by (cases "connect env tm own (co_secret co) net n")
  note i = connect_idle [OF c Cons.prems(3)]
  show ?case
  proof (cases r)
    case None
    then have "connect_all env tm own ns (co, net2) plan = ((co1, net1), plan1)" using Cons.prems(1) c by simp
    from Cons.IH [OF this _ i] Cons.prems(2) obtain ms where ms: "plan1 = plan @ ms" "pn_id ` set ms \<subseteq> ni_node_id ` set ns"
      "distinct (map pn_id ms)" "\<forall>n. n \<in> pn_id ` set ms \<or> pd_get (co_workers co) n \<noteq> None \<longrightarrow> pd_get (co_workers co1) n \<noteq> None"
      "idle rid net1" "co_secret co1 = co_secret co" by auto
    have "pn_id ` set ms \<subseteq> ni_node_id ` set (n # ns)" using ms(2) by auto
    then show ?thesis using ms by blast
  next
    case (Some n1)
    let ?co = "co\<lparr>co_workers := pd_set (co_workers co) (ni_node_id n) n1\<rparr>" and ?p = "plan_node_of (ni_node_id n) n1"
    have "connect_all env tm own ns (?co, net2) (plan @ [?p]) = ((co1, net1), plan1)" using Cons.prems(1) c Some by simp
    from Cons.IH [OF this _ i] Cons.prems(2) obtain ms where ms: "plan1 = (plan @ [?p]) @ ms" "pn_id ` set ms \<subseteq> ni_node_id ` set ns"
      "distinct (map pn_id ms)" "\<forall>n. n \<in> pn_id ` set ms \<or> pd_get (co_workers ?co) n \<noteq> None \<longrightarrow> pd_get (co_workers co1) n \<noteq> None"
      "idle rid net1" "co_secret co1 = co_secret ?co" by auto
    have p: "pn_id ?p = ni_node_id n" by (simp add: plan_node_of_def)
    show ?thesis
      by (rule exI [of _ "?p # ms"]) (use ms p Cons.prems(2) in \<open>auto split: if_splits\<close>)
  qed
qed (auto intro: exI [of _ "[]"])

lemma connect_all_plan:
  assumes "connect_all env tm own ns (co, net) plan = ((co1, net1), plan1)" "distinct (map ni_node_id ns)" "idle rid net"
  shows "\<exists>ms. plan1 = plan @ ms \<and> pn_id ` set ms \<subseteq> ni_node_id ` set ns \<and> distinct (map pn_id ms) \<and>
     (\<forall>n. n \<in> pn_id ` set ms \<longrightarrow> pd_get (co_workers co1) n \<noteq> None) \<and> idle rid net1"
  using connect_all_props [OF assms] by (elim exE conjE) (intro exI conjI allI impI; (assumption | (drule spec, erule mp, erule disjI1)))

text \<open>A worker that has acknowledged its range.\<close>

definition holds_range :: "('m, 'l, 'c, 'h) mesh_env \<Rightarrow> string \<Rightarrow> assignment \<Rightarrow> ('m, 'l, 'c) worker \<Rightarrow> bool" where
  "holds_range env path a w \<longleftrightarrow> w_authenticated w \<and> w_start w = int (as_start a) \<and> w_end w = int (as_end a) \<and>
     (\<exists>m ls. load_model env path (int (as_start a)) (int (as_end a)) = Inr m \<and> w_model w = Some m \<and>
        layers_list env m = Some ls \<and> w_layers w = Some (layers_between (as_start a) (as_end a) ls))"

lemma load_acknowledged:
  assumes s: "handle_load_layers env w (make_load_layers path (int (as_start a)) (int (as_end a)) None) = (w1, r)"
    and ok: "msg_type r = LOAD_ACK" "py_truthy (metadata_get r ''success'' PyNone)"
  shows "holds_range env path a w1 \<and> w_cache w1 = w_cache w"
proof -
  let ?m = "make_load_layers path (int (as_start a)) (int (as_end a)) None"
  have e: "msg_type (make_error c t) \<noteq> LOAD_ACK" "msg_type auth_error \<noteq> LOAD_ACK" for c t
    by (simp_all add: make_error_def auth_error_def)
  obtain w2 x where b: "load_begin env w ?m = (w2, x)" by (cases "load_begin env w ?m")
  obtain job where j: "x = Inr job" using s ok(1) b e
    by (cases x) (auto simp: handle_load_layers_def load_begin_def Let_def make_load_layers_def metadata_get_def split: if_splits option.splits)
  have job: "job = (path, int (as_start a), int (as_end a))" and w2: "w2 = w\<lparr>w_start := int (as_start a), w_end := int (as_end a)\<rparr>"
    and au: "w_authenticated w"
    using b j by (auto simp: load_begin_def Let_def make_load_layers_def metadata_get_def split: if_splits option.splits)
  have f: "load_finish env w2 job = (w1, r)" using s b j by (simp add: handle_load_layers_def)
  have "load_layer_range env path (int (as_start a)) (int (as_end a)) \<noteq> None"
  proof
    assume "load_layer_range env path (int (as_start a)) (int (as_end a)) = None"
    then have "r = make_load_ack False 0 0 (ni_available_gb (w_info w2))" using f job by (simp add: load_finish_def)
    then show False using ok(2) by (simp add: make_load_ack_def metadata_get_def)
  qed
  then obtain m ls where l: "load_model env path (int (as_start a)) (int (as_end a)) = Inr m" "layers_list env m = Some ls"
      "load_layer_range env path (int (as_start a)) (int (as_end a)) = Some (m, layers_between (as_start a) (as_end a) ls)"
    by (auto simp: load_layer_range_def layers_between_def split: sum.splits option.splits)
  then show ?thesis using f job w2 au by (auto simp: load_finish_def holds_range_def set_status_def Let_def)
qed

lemma remote_load_ok:
  assumes "remote_load env tm net (as_node_id a) path (as_start a) (as_end a) = (net1, True)"
  obtains w w1 where "pd_get net (as_node_id a) = Some w" "net1 = pd_set net (as_node_id a) w1" "holds_range env path a w1"
    "w_cache w1 = w_cache w"
proof (cases "pd_get net (as_node_id a)")
  case (Some w)
  let ?m = "make_load_layers path (int (as_start a)) (int (as_end a)) None"
  obtain w1 r where h: "handle_load_layers env w ?m = (w1, r)" by (cases "handle_load_layers env w ?m")
  have t: "msg_type ?m = LOAD_LAYERS" by (simp add: make_load_layers_def)
  have s: "serve env (tm_now tm) (tm_ms tm) w ?m = (w1, Some r, True)" by (simp add: serve_def dispatch_def t h)
  have "msg_type r = LOAD_ACK" "py_truthy (metadata_get r ''success'' PyNone)" and n: "net1 = pd_set net (as_node_id a) w1"
    using assms Some s by (simp_all add: remote_load_def exchange_def)
  from load_acknowledged [OF h this(1,2)] show ?thesis using that Some n by blast
qed (use assms in \<open>simp add: remote_load_def exchange_def\<close>)

lemma load_workers_props:
  "load_workers env tm path ws as net = (net1, Inr ()) \<Longrightarrow> distinct (map as_node_id as) \<Longrightarrow> idle rid net \<Longrightarrow>
   (\<forall>a \<in> set as. as_node_id a \<noteq> ''coordinator'' \<and> pd_get ws (as_node_id a) \<noteq> None \<longrightarrow>
      (\<exists>w. pd_get net1 (as_node_id a) = Some w \<and> holds_range env path a w)) \<and>
   idle rid net1 \<and> (\<forall>n. n \<notin> as_node_id ` set as \<longrightarrow> pd_get net1 n = pd_get net n)"
proof (induction as arbitrary: net)
  case (Cons a as)
  show ?case
  proof (cases "as_node_id a = ''coordinator'' \<or> pd_get ws (as_node_id a) = None")
    case True
    then have l: "load_workers env tm path ws as net = (net1, Inr ())" using Cons.prems(1) by auto
    have "distinct (map as_node_id as)" using Cons.prems(2) by simp
    from Cons.IH [OF l this Cons.prems(3)] show ?thesis using True by auto
  next
    case False
    obtain net2 ok where r: "remote_load env tm net (as_node_id a) path (as_start a) (as_end a) = (net2, ok)"
      by (cases "remote_load env tm net (as_node_id a) path (as_start a) (as_end a)")
    then have ok and l: "load_workers env tm path ws as net2 = (net1, Inr ())"
      using Cons.prems(1) False by (auto split: if_splits)
    then have "remote_load env tm net (as_node_id a) path (as_start a) (as_end a) = (net2, True)" using r by simp
    then obtain w w1 where w: "pd_get net (as_node_id a) = Some w" "net2 = pd_set net (as_node_id a) w1" "holds_range env path a w1"
        "w_cache w1 = w_cache w" by (rule remote_load_ok)
    have "pd_get (w_cache w1) rid = None" using Cons.prems(3) w(1,4) by (simp add: idle_def)
    then have "idle rid net2" using idle_set [OF Cons.prems(3)] w(2) by simp
    moreover have d: "distinct (map as_node_id as)" "as_node_id a \<notin> as_node_id ` set as" using Cons.prems(2) by auto
    ultimately have ih: "\<forall>a \<in> set as. as_node_id a \<noteq> ''coordinator'' \<and> pd_get ws (as_node_id a) \<noteq> None \<longrightarrow>
        (\<exists>w. pd_get net1 (as_node_id a) = Some w \<and> holds_range env path a w)" "idle rid net1"
        "\<forall>n. n \<notin> as_node_id ` set as \<longrightarrow> pd_get net1 n = pd_get net2 n" using Cons.IH [OF l] by auto
    then show ?thesis using w(2,3) d(2) by auto
  qed
qed simp

lemma holds_range_slot:
  assumes h: "holds_range env path a w" and l: "loads env path all fresh" and e: "as_end a \<le> length all"
    and i: "pd_get (w_cache w) rid = None"
  shows "w_layers w = Some (layers_between (as_start a) (as_end a) all)"
    "forward_slot env w rid = Some (layers_between (as_start a) (as_end a) fresh)"
proof -
  obtain m ls where m: "load_model env path (int (as_start a)) (int (as_end a)) = Inr m" "w_model w = Some m"
    "layers_list env m = Some ls" "w_layers w = Some (layers_between (as_start a) (as_end a) ls)"
    "w_start w = int (as_start a)" "w_end w = int (as_end a)" using h by (auto simp: holds_range_def)
  obtain ls' where "layers_list env m = Some ls'" "layers_between (as_start a) (as_end a) ls' = layers_between (as_start a) (as_end a) all"
    and f: "full_cache env m = Some fresh" "layer_count env m = None \<or> layer_count env m = Some (length all)" "length fresh = length all"
    using l m(1) unfolding loads_def by blast
  then have f0: "layers_between (as_start a) (as_end a) ls = layers_between (as_start a) (as_end a) all" using m(3) by simp
  show "w_layers w = Some (layers_between (as_start a) (as_end a) all)" using m(4) f0 by simp
  show "forward_slot env w rid = Some (layers_between (as_start a) (as_end a) fresh)"
    using i m(2,5,6) f e by (auto simp: forward_slot_def make_layer_cache_def layers_between_def)
qed

lemma profiles_length: "estimate_layer_profiles c g n smelt = Some ps \<Longrightarrow> length ps = n"
  by (auto simp: estimate_layer_profiles_def Let_def split: if_splits)

lemma sort_nodes_distinct: "distinct (map pn_id plan) \<Longrightarrow> distinct (map pn_id (sort_nodes plan))"
  by (simp add: sort_nodes_def sorted_desc_def distinct_map)

lemma local_load_frame:
  assumes "local_load env path local co = Inr co1"
  shows "co_assignments co1 = co_assignments co" "co_workers co1 = co_workers co" "\<exists>m. co_model co1 = Some m"
  using assms by (auto simp: local_load_def split: list.splits if_splits sum.splits option.splits)

lemma local_load_layers:
  assumes l: "local_load env path True co = Inr co1" and a: "co_assignments co = a # as" and ld: "loads env path all fresh"
    and r: "as_start a < as_end a" "as_end a \<le> length all"
  shows "co_local_layers co1 = Some (layers_between (as_start a) (as_end a) all)"
    "make_local_cache env co1 = Some (layers_between (as_start a) (as_end a) fresh)"
proof -
  obtain m ls where m: "load_model env path (int (as_start a)) (int (as_end a)) = Inr m" "layers_list env m = Some ls"
    "co1 = co\<lparr>co_local_assignment := Some a, co_model := Some m, co_local_layers := Some (layers_between (as_start a) (as_end a) ls)\<rparr>"
    using l a by (auto simp: local_load_def split: sum.splits option.splits)
  obtain ls' where "layers_list env m = Some ls'" "length ls' = length all" "full_cache env m = Some fresh" "length fresh = length all"
      "layers_between (as_start a) (as_end a) ls' = layers_between (as_start a) (as_end a) all"
    using ld m(1) unfolding loads_def by blast
  then have f: "length ls = length all" "layers_between (as_start a) (as_end a) ls = layers_between (as_start a) (as_end a) all"
      "full_cache env m = Some fresh" "length fresh = length all" using m(2) by simp_all
  show "co_local_layers co1 = Some (layers_between (as_start a) (as_end a) all)" using m(3) f(2) by simp
  have "layers_between (as_start a) (as_end a) all \<noteq> []" using r by (simp add: layers_between_def)
  then obtain l ls0 where "layers_between (as_start a) (as_end a) all = l # ls0" by (cases "layers_between (as_start a) (as_end a) all") auto
  then show "make_local_cache env co1 = Some (layers_between (as_start a) (as_end a) fresh)"
    using m(2,3) f r by (simp add: make_local_cache_def)
qed

lemma local_cache_order: "make_local_cache env (co\<lparr>co_order := xs\<rparr>) = make_local_cache env co"
  by (simp add: make_local_cache_def cong: option.case_cong list.case_cong)

definition cluster_nodes_ok :: "node_info list \<Rightarrow> bool" where
  "cluster_nodes_ok nodes \<longleftrightarrow> distinct (map ni_node_id nodes) \<and> ''coordinator'' \<notin> ni_node_id ` set nodes"

lemma setup_parts:
  assumes "setup_cluster env tm own f smelt local nodes (co0, net0) = ((co, net), Inr ())"
  obtains ps co1 net1 plan as co2 where "estimate_layer_profiles (mf_config f) (mf_total_gb f) (mf_layers f) smelt = Some ps"
    "connect_all env tm own nodes (co0, net0) (case local of None \<Rightarrow> [] | Some n \<Rightarrow> [plan_node_of ''coordinator'' n]) = ((co1, net1), plan)"
    "assign_layers_by_ram ps plan 2 = Inr as"
    "local_load env (mf_path f) (local \<noteq> None) (co1\<lparr>co_assignments := as\<rparr>) = Inr co2"
    "load_workers env tm (mf_path f) (co_workers co2) as net1 = (net, Inr ())" "co = co2\<lparr>co_order := map as_node_id as\<rparr>"
proof -
  obtain ps where ps: "estimate_layer_profiles (mf_config f) (mf_total_gb f) (mf_layers f) smelt = Some ps"
    using assms by (auto simp: setup_cluster_def split: if_splits option.splits)
  let ?own = "case local of None \<Rightarrow> [] | Some n \<Rightarrow> [plan_node_of ''coordinator'' n]"
  obtain co1 net1 plan where c: "connect_all env tm own nodes (co0, net0) ?own = ((co1, net1), plan)"
    by (cases "connect_all env tm own nodes (co0, net0) ?own") (metis surj_pair)
  have s1: "setup_cluster env tm own f smelt local nodes (co0, net0) =
      (if plan = [] then ((co1, net1), Inl RuntimeError)
       else case assign_layers_by_ram ps plan 2 of
         Inl e \<Rightarrow> ((co1, net1), Inl e)
       | Inr as \<Rightarrow>
           (let co1 = co1\<lparr>co_assignments := as\<rparr>
            in case local_load env (mf_path f) (local \<noteq> None) co1 of
                 Inl e \<Rightarrow> ((co1, net1), Inl e)
               | Inr co2 \<Rightarrow>
                   (case load_workers env tm (mf_path f) (co_workers co2) as net1 of
                      (net1, Inl e) \<Rightarrow> ((co2, net1), Inl e)
                    | (net1, Inr _) \<Rightarrow> ((co2\<lparr>co_order := map as_node_id as\<rparr>, net1), Inr ()))))"
    using assms ps c by (simp add: setup_cluster_def split: if_splits)
  obtain as where as: "assign_layers_by_ram ps plan 2 = Inr as"
    using assms unfolding s1 by (cases "assign_layers_by_ram ps plan 2") (auto split: if_splits)
  obtain co2 where co2: "local_load env (mf_path f) (local \<noteq> None) (co1\<lparr>co_assignments := as\<rparr>) = Inr co2"
    using assms unfolding s1 as by (cases "local_load env (mf_path f) (local \<noteq> None) (co1\<lparr>co_assignments := as\<rparr>)")
      (simp_all split: if_splits)
  obtain net2 r where lw: "load_workers env tm (mf_path f) (co_workers co2) as net1 = (net2, r)"
    by (cases "load_workers env tm (mf_path f) (co_workers co2) as net1")
  have "r = Inr ()" "net2 = net" "co = co2\<lparr>co_order := map as_node_id as\<rparr>"
    using assms unfolding s1 as sum.case Let_def co2 lw by (auto split: if_splits sum.splits)
  then show ?thesis using that ps c as co2 lw by blast
qed

text \<open>The state after a setup, for a request no worker has seen yet.\<close>

definition cluster_ready :: "('m, 'l, 'c, 'h) mesh_env \<Rightarrow> 'l list \<Rightarrow> 'c list \<Rightarrow> string \<Rightarrow> ('m, 'l) coordinator \<Rightarrow>
    ('m, 'l, 'c) net \<Rightarrow> bool" where
  "cluster_ready env all fresh rid co net \<longleftrightarrow>
     co_assignments co \<noteq> [] \<and> distinct (map as_node_id (co_assignments co)) \<and>
     concat (map layer_range (co_assignments co)) = [0..<length all] \<and>
     (\<forall>a \<in> set (co_assignments co). as_start a < as_end a \<and> as_end a \<le> length all) \<and>
     (\<exists>m. co_model co = Some m) \<and>
     (\<forall>a \<in> set (co_assignments co). seg_ok env rid all co net (make_local_cache env co) a \<and>
        seg_cache env rid net (make_local_cache env co) a =
          Some (layers_between (as_start (exec_of co a)) (as_end (exec_of co a)) fresh))"

lemma concat_ranges_bound:
  "concat (map layer_range as) = [0..<n] \<Longrightarrow> a \<in> set as \<Longrightarrow> as_start a < as_end a \<Longrightarrow> as_end a \<le> n"
proof -
  assume c: "concat (map layer_range as) = [0..<n]" and a: "a \<in> set as" "as_start a < as_end a"
  have "as_end a - 1 \<in> set (concat (map layer_range as))" using a by (auto simp: layer_range_def intro!: bexI [of _ a])
  then show "as_end a \<le> n" unfolding c by auto
qed

lemma setup_ready:
  assumes s: "setup_cluster env tm own f smelt local nodes (new_coordinator secret, net0) = ((co, net), Inr ())"
    and ld: "loads env (mf_path f) all fresh" and n: "mf_layers f = length all"
    and idle: "idle rid net0" and nodes: "cluster_nodes_ok nodes"
  shows "cluster_ready env all fresh rid co net" "co_order co = map as_node_id (co_assignments co)"
    "local = None \<Longrightarrow> ''coordinator'' \<notin> set (co_order co)"
proof -
  let ?own = "case local of None \<Rightarrow> [] | Some n \<Rightarrow> [plan_node_of ''coordinator'' n]"
  obtain ps co1 net1 plan as co2 where p: "estimate_layer_profiles (mf_config f) (mf_total_gb f) (mf_layers f) smelt = Some ps"
    "connect_all env tm own nodes (new_coordinator secret, net0) ?own = ((co1, net1), plan)"
    "assign_layers_by_ram ps plan 2 = Inr as"
    "local_load env (mf_path f) (local \<noteq> None) (co1\<lparr>co_assignments := as\<rparr>) = Inr co2"
    "load_workers env tm (mf_path f) (co_workers co2) as net1 = (net, Inr ())" and co: "co = co2\<lparr>co_order := map as_node_id as\<rparr>"
    using setup_parts [OF s] by blast
  note pl = plan_props [OF p(3)] and fr = local_load_frame [OF p(4)]
  have as: "co_assignments co = as" "co_workers co = co_workers co1" and len: "length ps = length all"
    using co fr profiles_length [OF p(1)] n by simp_all
  have nd: "distinct (map ni_node_id nodes)" "''coordinator'' \<notin> ni_node_id ` set nodes" using nodes by (simp_all add: cluster_nodes_ok_def)
  obtain ms where ms: "plan = ?own @ ms" "pn_id ` set ms \<subseteq> ni_node_id ` set nodes" "distinct (map pn_id ms)"
      "\<forall>n. n \<in> pn_id ` set ms \<longrightarrow> pd_get (co_workers co1) n \<noteq> None" "idle rid net1"
    using connect_all_plan [OF p(2) nd(1) idle] by (elim exE conjE) (rule that)
  have own: "pn_id ` set ?own \<subseteq> {''coordinator''}" "distinct (map pn_id ?own)" by (auto simp: plan_node_of_def split: option.splits)
  have no_co: "''coordinator'' \<notin> pn_id ` set ms" by (rule contra_subsetD [OF ms(2) nd(2)])
  then have "{''coordinator''} \<inter> pn_id ` set ms = {}" by simp
  then have "pn_id ` set ?own \<inter> pn_id ` set ms = {}" using Int_mono [OF own(1) subset_refl, of "pn_id ` set ms"] by (simp only: subset_empty)
  then have dp: "distinct (map pn_id plan)" unfolding ms(1) map_append distinct_append set_map using own(2) ms(3) by (intro conjI)
  have ids: "as_node_id ` set as \<subseteq> pn_id ` set plan"
  proof -
    have "set (map as_node_id as) \<subseteq> set (map pn_id (sort_nodes plan))" unfolding pl(5) by (rule set_take_subset)
    then show ?thesis by (simp add: sort_nodes_props(2))
  qed
  have da: "distinct (map as_node_id as)"
    unfolding pl(5) by (rule distinct_take) (rule sort_nodes_distinct [OF dp])
  have remote: "''coordinator'' \<notin> as_node_id ` set as" if "local = None"
    using contra_subsetD [OF ids, of "''coordinator''"] no_co that ms(1) by simp
  have worker: "pd_get (co_workers co1) (as_node_id a) \<noteq> None" if "a \<in> set as" "as_node_id a \<noteq> ''coordinator''" for a
  proof -
    have "as_node_id a \<in> pn_id ` set ms" using that ids ms(1) own(1) by auto
    then show ?thesis using ms(4) by blast
  qed
  have r: "concat (map layer_range as) = [0..<length all]" "\<forall>a \<in> set as. as_start a < as_end a"
    using pl(3,4) len by (simp_all add: list_all_iff)
  then have b: "\<forall>a \<in> set as. as_start a < as_end a \<and> as_end a \<le> length all" using concat_ranges_bound by blast
  have hd: "hd as \<in> set as" "hd as # tl as = as" using pl(6) by (rule hd_in_set, rule list.collapse)
  have lf: "length fresh = length all" using ld by (simp add: loads_def)
  have lb: "layers_between (as_start a) (as_end a) all \<noteq> []"
    "length (layers_between (as_start a) (as_end a) fresh) = length (layers_between (as_start a) (as_end a) all)"
    if "a \<in> set as" for a using b that lf by (auto simp: layers_between_def)
  note ld2 = load_workers_props [OF p(5) da ms(5)]
  have seg: "seg_ok env rid all co net (make_local_cache env co) a \<and> seg_cache env rid net (make_local_cache env co) a =
      Some (layers_between (as_start (exec_of co a)) (as_end (exec_of co a)) fresh)" if a: "a \<in> set as" for a
  proof (cases "as_node_id a = ''coordinator''")
    case True
    then have "local \<noteq> None" using remote imageI [OF a, of as_node_id] by metis
    then have l: "local_load env (mf_path f) True (co1\<lparr>co_assignments := as\<rparr>) = Inr co2" using p(4) by simp
    have "co_assignments (co1\<lparr>co_assignments := as\<rparr>) = hd as # tl as" by (simp add: hd(2))
    note ll = local_load_layers [OF l this ld, OF bspec [OF b hd(1), THEN conjunct1] bspec [OF b hd(1), THEN conjunct2]]
    have "co_local_layers co = Some (layers_between (as_start (hd as)) (as_end (hd as)) all)"
      "make_local_cache env co = Some (layers_between (as_start (hd as)) (as_end (hd as)) fresh)"
      using ll co by (simp_all add: local_cache_order)
    then show ?thesis using True as lb [OF hd(1)] by (simp add: seg_ok_def seg_cache_def exec_of_def seg_layers_def)
  next
    case False
    obtain w where w: "pd_get net (as_node_id a) = Some w" "holds_range env (mf_path f) a w"
      using ld2 worker [OF a False] fr(2) a False by auto
    have i: "pd_get (w_cache w) rid = None" using ld2 w(1) by (simp add: idle_def)
    have e: "as_end a \<le> length all" using b a by simp
    note hs = holds_range_slot [OF w(2) ld e i]
    have "w_authenticated w" using w(2) by (simp add: holds_range_def)
    then show ?thesis using False w(1) hs worker [OF a False] as lb [OF a]
      by (simp add: seg_ok_def seg_cache_def exec_of_def seg_layers_def)
  qed
  show "cluster_ready env all fresh rid co net"
    unfolding cluster_ready_def as using pl(6) da r b seg fr(3) co by auto
  show "co_order co = map as_node_id (co_assignments co)" using co fr(1) by simp
  show "''coordinator'' \<notin> set (co_order co)" if "local = None"
    using remote [OF that] co by simp
qed

section \<open>Forward passes against one machine\<close>

text \<open>The reference: one machine runs the layers \<open>ls\<close> with the cache entries \<open>cs\<close>.\<close>

definition local_forward :: "('m, 'l, 'c, 'h) mesh_env \<Rightarrow> ('m \<Rightarrow> 'i \<Rightarrow> 'h option) \<Rightarrow> ('m \<Rightarrow> 'h \<Rightarrow> 'o) \<Rightarrow> 'm \<Rightarrow> 'l list \<Rightarrow>
    'i \<Rightarrow> int \<Rightarrow> 'c list \<Rightarrow> 'c list \<times> 'o may_raise" where
  "local_forward env emb project m ls ids pos cs =
     (case emb m ids of
        None \<Rightarrow> (cs, Inl RuntimeError)
      | Some h \<Rightarrow>
          (case causal_mask (seq_length env h) (pos + int (seq_length env h)) of
             Inl e \<Rightarrow> (cs, Inl e)
           | Inr k \<Rightarrow> (let (r, cs1) = run_layers (apply_layer env) k ls cs h in (cs1, map_sum id (project m) r))))"

fun local_forwards :: "('m, 'l, 'c, 'h) mesh_env \<Rightarrow> ('m \<Rightarrow> 'i \<Rightarrow> 'h option) \<Rightarrow> ('m \<Rightarrow> 'h \<Rightarrow> 'o) \<Rightarrow> 'm \<Rightarrow> 'l list \<Rightarrow>
    ('i \<times> int) list \<Rightarrow> 'c list \<Rightarrow> 'o may_raise list" where
  "local_forwards env emb project m ls [] cs = []"
| "local_forwards env emb project m ls ((ids, pos) # steps) cs =
     (let (cs1, r) = local_forward env emb project m ls ids pos cs in r # local_forwards env emb project m ls steps cs1)"

text \<open>The passes of one request through the cluster: prefill, then one token after the other.\<close>

fun forwards :: "('m, 'l, 'c, 'h) mesh_env \<Rightarrow> timing \<Rightarrow> ('m \<Rightarrow> 'i \<Rightarrow> 'h option) \<Rightarrow> ('m \<Rightarrow> 'h \<Rightarrow> 'o) \<Rightarrow> ('m, 'l) coordinator \<Rightarrow>
    string \<Rightarrow> ('i \<times> int) list \<Rightarrow> ('m, 'l, 'c) net \<times> 'c list option \<Rightarrow> 'o may_raise list" where
  "forwards env tm emb project co rid [] s = []"
| "forwards env tm emb project co rid ((ids, pos) # steps) s =
     (let (s1, r) = forward env tm emb project co ids rid pos (fst s) (snd s)
      in r # forwards env tm emb project co rid steps s1)"

lemma forward_refines:
  assumes env: "sound_env env" and rid: "rid \<noteq> []" and d: "distinct (map as_node_id (co_assignments co))"
    and ok: "\<forall>a \<in> set (co_assignments co). seg_ok env rid all co net lc a" and m: "co_model co = Some m"
    and f: "forward env tm emb project co ids rid pos net lc = ((net1, lc1), r)"
  shows "local_forward env emb project m (layers_of all co (co_assignments co)) ids pos (caches_of env rid net lc (co_assignments co)) =
      (caches_of env rid net1 lc1 (co_assignments co), r) \<and> (\<forall>a \<in> set (co_assignments co). seg_ok env rid all co net1 lc1 a)"
proof (cases "emb m ids")
  case None
  then show ?thesis using f rid m ok by (simp add: forward_def local_forward_def)
next
  case (Some h)
  show ?thesis
  proof (cases "causal_mask (seq_length env h) (pos + int (seq_length env h))")
    case (Inl e)
    then show ?thesis using f rid m ok Some by (simp add: forward_def local_forward_def)
  next
    case (Inr k)
    obtain net2 lc2 h1 where p: "pipeline env tm co rid pos k (co_assignments co) net lc h = ((net2, lc2), Inr h1)"
        "run_layers (apply_layer env) k (layers_of all co (co_assignments co)) (caches_of env rid net lc (co_assignments co)) h =
           (Inr h1, caches_of env rid net2 lc2 (co_assignments co))"
        "\<forall>a \<in> set (co_assignments co). seg_ok env rid all co net2 lc2 a"
      using pipeline_runs [OF env rid d ok Inr] by blast
    then show ?thesis using f rid m Some Inr by (simp add: forward_def local_forward_def)
  qed
qed

lemma forwards_refine:
  assumes env: "sound_env env" and rid: "rid \<noteq> []" and d: "distinct (map as_node_id (co_assignments co))" and m: "co_model co = Some m"
  shows "\<forall>a \<in> set (co_assignments co). seg_ok env rid all co net lc a \<Longrightarrow>
    forwards env tm emb project co rid steps (net, lc) =
      local_forwards env emb project m (layers_of all co (co_assignments co)) steps (caches_of env rid net lc (co_assignments co))"
proof (induction steps arbitrary: net lc)
  case (Cons st steps)
  obtain ids pos where st: "st = (ids, pos)" by (cases st)
  obtain net1 lc1 r where f: "forward env tm emb project co ids rid pos net lc = ((net1, lc1), r)"
    by (metis surj_pair)
  note step = forward_refines [OF env rid d Cons.prems m f]
  then show ?case using Cons.IH [of net1 lc1] f by (simp add: st)
qed simp

section \<open>The coordinator first, or elsewhere\<close>

definition executed_layers :: "('m, 'l) coordinator \<Rightarrow> nat list" where
  "executed_layers co = concat (map (\<lambda>a. layer_range (exec_of co a)) (co_assignments co))"

lemma layers_between_map: "i \<le> j \<Longrightarrow> j \<le> length xs \<Longrightarrow> layers_between i j xs = map ((!) xs) [i..<j]"
  by (simp add: layers_between_def take_range)

lemma ready_layers:
  assumes r: "cluster_ready env all fresh rid co net" and n: "length fresh = length all"
  shows "layers_of all co (co_assignments co) = map ((!) all) (executed_layers co)"
    "caches_of env rid net (make_local_cache env co) (co_assignments co) = map ((!) fresh) (executed_layers co)"
proof -
  have b: "as_start (exec_of co a) \<le> as_end (exec_of co a) \<and> as_end (exec_of co a) \<le> length all" if "a \<in> set (co_assignments co)" for a
  proof -
    have "exec_of co a \<in> set (co_assignments co)" using that r hd_in_set [of "co_assignments co"] by (auto simp: exec_of_def cluster_ready_def)
    then show ?thesis using r by (auto simp: cluster_ready_def)
  qed
  have "concat (map (seg_layers all co) (co_assignments co)) =
      concat (map (\<lambda>a. map ((!) all) (layer_range (exec_of co a))) (co_assignments co))"
    by (intro arg_cong [where f = concat] map_cong refl) (use b in \<open>simp add: seg_layers_def layers_between_map layer_range_def\<close>)
  then show "layers_of all co (co_assignments co) = map ((!) all) (executed_layers co)"
    by (simp add: layers_of_def executed_layers_def map_concat comp_def)
  have "concat (map (\<lambda>a. the (seg_cache env rid net (make_local_cache env co) a)) (co_assignments co)) =
      concat (map (\<lambda>a. map ((!) fresh) (layer_range (exec_of co a))) (co_assignments co))"
    by (intro arg_cong [where f = concat] map_cong refl)
      (use b r n in \<open>simp add: cluster_ready_def layers_between_map layer_range_def\<close>)
  then show "caches_of env rid net (make_local_cache env co) (co_assignments co) = map ((!) fresh) (executed_layers co)"
    by (simp add: caches_of_def executed_layers_def map_concat comp_def)
qed

lemma executed_in_order:
  assumes r: "cluster_ready env all fresh rid co net" and f: "as_node_id (hd (co_assignments co)) = ''coordinator'' \<or>
    ''coordinator'' \<notin> as_node_id ` set (co_assignments co)"
  shows "executed_layers co = [0..<length all]"
proof -
  have d: "distinct (map as_node_id (co_assignments co))" and ne: "co_assignments co \<noteq> []" using r by (simp_all add: cluster_ready_def)
  have e: "exec_of co a = a" if "a \<in> set (co_assignments co)" for a
  proof (cases "as_node_id a = ''coordinator''")
    case True
    then have "as_node_id (hd (co_assignments co)) = as_node_id a" using f that by (metis imageI)
    then have "hd (co_assignments co) = a" using d that hd_in_set [OF ne] by (meson distinct_map inj_onD)
    then show ?thesis using True by (simp add: exec_of_def)
  qed (simp add: exec_of_def)
  then have "executed_layers co = concat (map layer_range (co_assignments co))"
    unfolding executed_layers_def by (intro arg_cong [where f = concat] map_cong refl) simp
  then show ?thesis using r by (simp add: cluster_ready_def)
qed

lemma executed_out_of_order:
  assumes r: "cluster_ready env all fresh rid co net" and a: "a \<in> set (co_assignments co)" "as_node_id a = ''coordinator''"
    and f: "as_node_id (hd (co_assignments co)) \<noteq> ''coordinator''"
  shows "layer_range a \<noteq> []" "set (layer_range a) \<subseteq> {0..<length all}" "set (layer_range a) \<inter> set (executed_layers co) = {}"
proof -
  let ?as = "co_assignments co"
  have c: "concat (map layer_range ?as) = [0..<length all]" and d: "distinct (map as_node_id ?as)" and ne: "?as \<noteq> []"
    and pos: "as_start a < as_end a" "as_end a \<le> length all" using r a(1) by (auto simp: cluster_ready_def)
  show "layer_range a \<noteq> []" "set (layer_range a) \<subseteq> {0..<length all}" using pos by (auto simp: layer_range_def)
  obtain xs ys where s: "?as = xs @ a # ys" using a(1) by (meson split_list)
  have "distinct (concat (map layer_range ?as))" unfolding c by simp
  then have dis: "set (layer_range a) \<inter> set (layer_range b) = {}" if "b \<in> set xs \<union> set ys" for b
    using that unfolding s by auto
  have other: "exec_of co b \<in> set xs \<union> set ys" if "b \<in> set ?as" for b
  proof (cases "as_node_id b = ''coordinator''")
    case True
    have "hd ?as \<in> set ?as" "hd ?as \<noteq> a" using ne a(2) f by auto
    then show ?thesis using True s by (auto simp: exec_of_def)
  next
    case False
    then have "b \<noteq> a" using a(2) by auto
    then show ?thesis using False that s by (auto simp: exec_of_def)
  qed
  show "set (layer_range a) \<inter> set (executed_layers co) = {}"
    unfolding executed_layers_def using dis other by fastforce
qed

text \<open>Two clusters to look at: one machine more than a worker, with more memory than it, and with less.\<close>

definition demo_files :: model_files where
  "demo_files = \<lparr>mf_path = ''/m'', mf_layers = 4,
     mf_config = \<lparr>tc_routed_experts = None, tc_num_experts = None, tc_local_experts = None, tc_layer_types = None\<rparr>,
     mf_total_gb = 60\<rparr>"

definition demo_net :: "(string, nat, nat) net" where
  "demo_net = [(''n1'', demo_worker)]"

definition demo_time :: timing where
  "demo_time = \<lparr>tm_now = 0, tm_ms = 0\<rparr>"

definition demo_setup :: "real \<Rightarrow> ((string, nat) coordinator \<times> (string, nat, nat) net) \<times> unit may_raise" where
  "demo_setup gb = setup_cluster demo_env demo_time ''1.0'' demo_files 100 (Some (demo_info\<lparr>ni_available_gb := gb\<rparr>)) [demo_info]
     (new_coordinator ''key'', demo_net)"

lemma demo_laws: "sound_env demo_env" "loads demo_env p [0, 1, 2, 3] [0, 0, 0, 0]" "idle r demo_net" "cluster_nodes_ok [demo_info]"
  by (simp_all add: sound_env_def loads_def idle_def demo_env_def demo_net_def demo_worker_def cluster_nodes_ok_def demo_info_def)

lemma demo_connect:
  "connect_all demo_env demo_time ''1.0'' [demo_info] (new_coordinator ''key'', demo_net) plan =
     ((new_coordinator ''key''\<lparr>co_workers := [(''n1'', demo_info\<lparr>ni_status := ''connected''\<rparr>)]\<rparr>,
       [(''n1'', set_status ''connected'' (demo_worker\<lparr>w_authenticated := True\<rparr>))]),
      plan @ [plan_node_of ''n1'' demo_info])"
proof -
  have "serve demo_env 0 0 demo_worker (make_join ''key'' v) =
      (let w = set_status ''connected'' (demo_worker\<lparr>w_authenticated := True\<rparr>)
       in (w, Some (make_join_ack True (PyDict (node_to_dict (w_info w) @ [(PyStr ''max_layers'', PyInt 96)]))), True))" for v
    by (simp add: serve_def dispatch_def make_join_def handle_join_def metadata_get_def demo_worker_def Let_def set_status_def
        estimate_max_layers_def demo_info_def trunc_real_def)
  then show ?thesis
    by (simp add: connect_def exchange_def demo_net_def demo_time_def new_coordinator_def Let_def make_join_ack_def metadata_get_def
        set_status_def demo_worker_def demo_info_def node_to_dict_def dict_get_def versions_differ_def connected_node_def take_str_def
        take_int_def take_real_def plan_node_of_def)
qed

definition demo_assignments :: "real \<Rightarrow> assignment list may_raise" where
  "demo_assignments gb = assign_layers_by_ram
     (map (\<lambda>i. \<lparr>lp_index = i, lp_memory = 10, lp_is_moe = False, lp_num_experts = 0, lp_loaded_experts = 0, lp_is_ssm = False\<rparr>) [0, 1, 2, 3])
     [plan_node_of ''coordinator'' (demo_info\<lparr>ni_available_gb := gb\<rparr>), plan_node_of ''n1'' demo_info] 2"

lemma demo_assign:
  "\<exists>a b. demo_assignments 50 = Inr [a, b] \<and> as_node_id a = ''coordinator'' \<and> as_node_id b = ''n1'' \<and>
     as_start a = 0 \<and> as_end a = 2 \<and> as_start b = 2 \<and> as_end b = 4"
  "\<exists>a b. demo_assignments 26 = Inr [b, a] \<and> as_node_id a = ''coordinator'' \<and> as_node_id b = ''n1'' \<and>
     as_start b = 0 \<and> as_end b = 3 \<and> as_start a = 3 \<and> as_end a = 4"
  by (simp_all add: demo_assignments_def assign_layers_by_ram_def sort_nodes_def sorted_desc_def available_gb_def plan_node_of_def
      demo_info_def node_share_def py_round_def Let_def assign_node_def)

lemma demo_remote_load:
  assumes "s < e"
  shows "\<exists>w1. remote_load demo_env demo_time [(''n1'', set_status ''connected'' (demo_worker\<lparr>w_authenticated := True\<rparr>))] ''n1'' ''/m'' s e =
    ([(''n1'', w1)], True)"
  using assms
  by (simp add: remote_load_def exchange_def serve_def dispatch_def handle_load_layers_def load_begin_def load_finish_def
      load_layer_range_def make_load_layers_def metadata_get_def validate_model_path_def demo_env_def demo_worker_def set_status_def
      make_load_ack_def Let_def)

lemma demo_profiles:
  "estimate_layer_profiles (mf_config demo_files) (mf_total_gb demo_files) (mf_layers demo_files) 100 =
     Some (map (\<lambda>i. \<lparr>lp_index = i, lp_memory = 10, lp_is_moe = False, lp_num_experts = 0, lp_loaded_experts = 0, lp_is_ssm = False\<rparr>) [0, 1, 2, 3])"
  by (simp add: demo_files_def estimate_layer_profiles_def experts_of_def int_or_def upt_rec numeral_2_eq_2 [symmetric])

lemma demo_setup_done:
  assumes as: "demo_assignments gb = Inr as" and w: "as = xs @ b # ys" "as_node_id b = ''n1''"
    and c: "\<forall>a \<in> set (xs @ ys). as_node_id a = ''coordinator''" and lt: "as_start b < as_end b"
  shows "\<exists>co net. demo_setup gb = ((co, net), Inr ()) \<and> co_order co = map as_node_id as \<and> co_assignments co = as"
proof -
  let ?co = "new_coordinator ''key''\<lparr>co_workers := [(''n1'', demo_info\<lparr>ni_status := ''connected''\<rparr>)]\<rparr> :: (string, nat) coordinator"
  let ?net = "[(''n1'', set_status ''connected'' (demo_worker\<lparr>w_authenticated := True\<rparr>))]"
  have skip: "\<forall>a \<in> set zs. as_node_id a = ''coordinator'' \<Longrightarrow> load_workers env tm p ws (zs @ us) n = load_workers env tm p ws us n"
    for zs us env tm p ws and n :: "(string, nat, nat) net" by (induction zs) simp_all
  obtain w1 where w1: "remote_load demo_env demo_time ?net ''n1'' ''/m'' (as_start b) (as_end b) = ([(''n1'', w1)], True)"
    using demo_remote_load [OF lt] by blast
  have ne: "as \<noteq> []" using w(1) by simp
  obtain co2 where co2: "local_load demo_env ''/m'' True (?co\<lparr>co_assignments := as\<rparr>) = Inr co2"
    using ne by (cases as) (auto simp: local_load_def demo_env_def)
  note fr = local_load_frame [OF co2]
  have lw: "load_workers demo_env demo_time ''/m'' (co_workers co2) as ?net = ([(''n1'', w1)], Inr ())"
    using c skip [of ys demo_env demo_time "''/m''" _ "[]"] w1 w(2) fr(2) unfolding w(1) by (simp add: skip)
  have plan: "assign_layers_by_ram
      (map (\<lambda>i. \<lparr>lp_index = i, lp_memory = 10, lp_is_moe = False, lp_num_experts = 0, lp_loaded_experts = 0, lp_is_ssm = False\<rparr>) [0, 1, 2, 3])
      ([plan_node_of ''coordinator'' (demo_info\<lparr>ni_available_gb := gb\<rparr>)] @ [plan_node_of ''n1'' demo_info]) 2 = Inr as"
    using as by (simp add: demo_assignments_def)
  have "mf_layers demo_files = 4" "mf_path demo_files = ''/m''" by (simp_all add: demo_files_def)
  then have "demo_setup gb = ((co2\<lparr>co_order := map as_node_id as\<rparr>, [(''n1'', w1)]), Inr ())"
    unfolding demo_setup_def setup_cluster_def demo_profiles option.case Let_def demo_connect prod.case plan sum.case
    using co2 lw by simp
  then show ?thesis using fr(1) by simp
qed

text \<open>
  C7. After a successful setup with the coordinator on the first range, or on none, distributed inference is
  single-machine inference: the passes of a new request, prefill and then any number of decode steps, give the
  results of one machine that runs all layers in order with one cache per layer, whatever the division of layers
  among the nodes.  Tensors survive the wire, layers keep the number of positions, and the loader gives every node
  the model's layers in its range.
\<close>

theorem distributed_inference_is_local:
  assumes "setup_cluster env tm own f smelt local nodes (new_coordinator secret, net0) = ((co, net), Inr ())"
    and "sound_env env" and "loads env (mf_path f) all fresh" and "mf_layers f = length all" and "idle rid net0"
    and "cluster_nodes_ok nodes" and "rid \<noteq> []"
    and first: "hd (co_order co) = ''coordinator'' \<or> ''coordinator'' \<notin> set (co_order co)"
  shows "\<exists>m. co_model co = Some m \<and>
    forwards env tm emb project co rid steps (net, make_local_cache env co) = local_forwards env emb project m all steps fresh"
proof -
  note r = setup_ready [OF assms(1,3,4,5,6)]
  obtain m where m: "co_model co = Some m" using r(1) by (auto simp: cluster_ready_def)
  have d: "distinct (map as_node_id (co_assignments co))" and ne: "co_assignments co \<noteq> []"
    and ok: "\<forall>a \<in> set (co_assignments co). seg_ok env rid all co net (make_local_cache env co) a"
    using r(1) by (simp_all add: cluster_ready_def)
  have lf: "length fresh = length all" using assms(3) by (simp add: loads_def)
  have "as_node_id (hd (co_assignments co)) = ''coordinator'' \<or> ''coordinator'' \<notin> as_node_id ` set (co_assignments co)"
    using first ne by (simp add: r(2) hd_map)
  then have x: "executed_layers co = [0..<length all]" by (rule executed_in_order [OF r(1)])
  have "map ((!) all) [0..<length all] = all" "map ((!) fresh) [0..<length all] = fresh" using map_nth [of all] map_nth [of fresh] lf by simp_all
  then show ?thesis
    using forwards_refine [OF assms(2,7) d m ok] m by (simp add: ready_layers [OF r(1) lf] x)
qed

theorem distributed_inference_is_local_witness:
  "\<exists>co net m. demo_setup 50 = ((co, net), Inr ()) \<and>
     forwards demo_env demo_time (\<lambda>_. Some) (\<lambda>_ h. h) co ''r'' [([7], 0), ([8], 1)] (net, make_local_cache demo_env co) =
       local_forwards demo_env (\<lambda>_. Some) (\<lambda>_ h. h) (m :: string) [0, 1, 2, 3] [([7], 0), ([8], 1)] [0, 0, 0, 0]"
proof -
  obtain a b where ab: "demo_assignments 50 = Inr [a, b]" "as_node_id a = ''coordinator''" "as_node_id b = ''n1''"
    "as_start b < as_end b" using demo_assign(1) by auto
  obtain co net where s: "demo_setup 50 = ((co, net), Inr ())" "co_order co = [''coordinator'', ''n1'']"
    using demo_setup_done [OF ab(1), of "[a]" b "[]"] ab by auto
  have "mf_layers demo_files = length [0, 1, 2, 3 :: nat]" by (simp add: demo_files_def)
  from distributed_inference_is_local [OF s(1) [unfolded demo_setup_def] demo_laws(1,2) this demo_laws(3,4), where rid = "''r''"
      and emb = "\<lambda>_. Some" and project = "\<lambda>_ h. h" and steps = "[([7], 0), ([8], 1)]"] s(2)
  obtain m where "forwards demo_env demo_time (\<lambda>_. Some) (\<lambda>_ h. h) co ''r'' [([7], 0), ([8], 1)] (net, make_local_cache demo_env co) =
      local_forwards demo_env (\<lambda>_. Some) (\<lambda>_ h. h) m [0, 1, 2, 3] [([7], 0), ([8], 1)] [0, 0, 0, 0]"
    by (auto simp del: forwards.simps local_forwards.simps)
  then show ?thesis using s(1) by blast
qed

text \<open>
  With the coordinator on any other range than the first it still loads and runs the first range: every
  pass leaves out the coordinator's own layers and is the pass of a model without them, although the setup has
  succeeded.
\<close>

lemma misplaced_coordinator_skips_layers:
  assumes "setup_cluster env tm own f smelt local nodes (new_coordinator secret, net0) = ((co, net), Inr ())"
    and "sound_env env" and "loads env (mf_path f) all fresh" and "mf_layers f = length all" and "idle rid net0"
    and "cluster_nodes_ok nodes" and "rid \<noteq> []" and "a \<in> set (co_assignments co)" and "as_node_id a = ''coordinator''"
    and first: "hd (co_order co) \<noteq> ''coordinator''"
  shows "\<exists>m xs. co_model co = Some m \<and>
    forwards env tm emb project co rid steps (net, make_local_cache env co) =
      local_forwards env emb project m (map ((!) all) xs) steps (map ((!) fresh) xs) \<and>
    layer_range a \<noteq> [] \<and> set (layer_range a) \<subseteq> {0..<length all} \<and> set (layer_range a) \<inter> set xs = {}"
proof -
  note r = setup_ready [OF assms(1,3,4,5,6)]
  obtain m where m: "co_model co = Some m" using r(1) by (auto simp: cluster_ready_def)
  have d: "distinct (map as_node_id (co_assignments co))" and ne: "co_assignments co \<noteq> []"
    and ok: "\<forall>a \<in> set (co_assignments co). seg_ok env rid all co net (make_local_cache env co) a"
    using r(1) by (simp_all add: cluster_ready_def)
  have lf: "length fresh = length all" using assms(3) by (simp add: loads_def)
  have "as_node_id (hd (co_assignments co)) \<noteq> ''coordinator''" using first ne by (simp add: r(2) hd_map)
  note out = executed_out_of_order [OF r(1) assms(8,9) this]
  show ?thesis
    using forwards_refine [OF assms(2,7) d m ok, of tm emb project steps] m out by (auto simp: ready_layers [OF r(1) lf])
qed

end
