(* ===== verification/Reasoning_Markers.thy ===== *)
theory Reasoning_Markers
  imports Py_Values "HOL-Library.Sublist"
begin

text \<open>
  The string operations the reasoning parsers use, and the view of a growing text that never exposes half a
  marker (\<open>delta_safe_reasoning_marker_view\<close> in \<open>vmlx_engine/reasoning/think_parser.py\<close>,
  \<open>marker_prefix_hold_length\<close> in \<open>reasoning/base.py\<close>).  White space is ASCII white space.
\<close>

section \<open>Python string operations\<close>

text \<open>\<open>s.find(m)\<close> and \<open>m in s\<close>.\<close>

fun py_find :: "string \<Rightarrow> string \<Rightarrow> nat option" where
  "py_find [] m = (if m = [] then Some 0 else None)"
| "py_find (c # s) m = (if prefix m (c # s) then Some 0 else map_option Suc (py_find s m))"

definition py_contains :: "string \<Rightarrow> string \<Rightarrow> bool" where
  "py_contains s m \<longleftrightarrow> py_find s m \<noteq> None"

text \<open>\<open>s.rfind(m)\<close>: the last occurrence.\<close>

fun py_rfind :: "string \<Rightarrow> string \<Rightarrow> nat option" where
  "py_rfind [] m = (if m = [] then Some 0 else None)"
| "py_rfind (c # s) m =
     (case py_rfind s m of Some i \<Rightarrow> Some (Suc i) | None \<Rightarrow> if prefix m (c # s) then Some 0 else None)"

text \<open>\<open>s.lstrip()\<close>; \<open>s.strip()\<close> is \<open>py_strip\<close>.\<close>

definition py_lstrip :: "string \<Rightarrow> string" where
  "py_lstrip s = dropWhile space_char s"

text \<open>\<open>s.replace(a, b)\<close> for a nonempty \<open>a\<close>.\<close>

function py_replace :: "string \<Rightarrow> string \<Rightarrow> string \<Rightarrow> string" where
  "py_replace a b s =
     (if a = [] then s
      else case s of [] \<Rightarrow> []
        | c # s1 \<Rightarrow> if prefix a s then b @ py_replace a b (drop (length a) s) else c # py_replace a b s1)"
  by auto
termination by (relation "measure (\<lambda>(a, b, s). length s)") auto

declare py_replace.simps [simp del]

text \<open>\<open>s.partition(m)[2]\<close>: what follows the first occurrence, empty when there is none.\<close>

definition after_first :: "string \<Rightarrow> string \<Rightarrow> string" where
  "after_first s m = (case py_find s m of None \<Rightarrow> [] | Some i \<Rightarrow> drop (i + length m) s)"

section \<open>The safe view\<close>

text \<open>The longest suffix of the text that is a proper prefix of the marker.\<close>

definition hold_of :: "string \<Rightarrow> string \<Rightarrow> nat" where
  "hold_of t m =
     (case find (\<lambda>n. drop (length t - n) t = take n m) (rev [1..<Suc (min (length t) (length m - 1))]) of
        None \<Rightarrow> 0 | Some n \<Rightarrow> n)"

definition marker_prefix_hold_length :: "string \<Rightarrow> string list \<Rightarrow> nat" where
  "marker_prefix_hold_length t ms = foldl (\<lambda>h m. max h (hold_of t m)) 0 ms"

definition safe_prefix :: "string list \<Rightarrow> string \<Rightarrow> string" where
  "safe_prefix ms t =
     (let held = marker_prefix_hold_length t (filter (\<lambda>m. m \<noteq> []) ms) in if held > 0 then take (length t - held) t else t)"

definition delta_safe_view :: "string \<Rightarrow> string \<Rightarrow> string list \<Rightarrow> string \<times> string \<times> string" where
  "delta_safe_view previous current ms =
     (let p = safe_prefix ms previous; c = safe_prefix ms current
      in (p, c, if prefix p c then drop (length p) c else []))"

section \<open>What is held\<close>

lemma find_rev_upt_Some:
  assumes "find P (rev [a..<b]) = Some n"
  shows "P n" "a \<le> n" "n < b" "\<And>k. a \<le> k \<Longrightarrow> k < b \<Longrightarrow> P k \<Longrightarrow> k \<le> n"
proof -
  obtain i where i: "i < length (rev [a..<b])" "P (rev [a..<b] ! i)" "n = rev [a..<b] ! i" "\<forall>j<i. \<not> P (rev [a..<b] ! j)"
    using assms by (auto simp: find_Some_iff)
  have nth: "rev [a..<b] ! j = b - Suc j" if "j < b - a" for j using that by (simp add: rev_nth)
  have n: "n = b - Suc i" "i < b - a" using i nth [of i] by simp_all
  show "P n" "a \<le> n" "n < b" using i n by auto
  fix k assume k: "a \<le> k" "k < b" "P k"
  show "k \<le> n"
  proof (rule ccontr)
    assume "\<not> k \<le> n"
    then have "b - Suc k < i" "b - Suc k < b - a" using k n by auto
    moreover have "b - Suc (b - Suc k) = k" using k by simp
    ultimately show False using i(4) k(3) nth [of "b - Suc k"] by auto
  qed
qed

lemma hold_of_sound:
  "hold_of t m > 0 \<Longrightarrow> hold_of t m \<le> length t \<and> hold_of t m < length m \<and> drop (length t - hold_of t m) t = take (hold_of t m) m"
proof -
  assume p: "hold_of t m > 0"
  then obtain n where n: "find (\<lambda>n. drop (length t - n) t = take n m) (rev [1..<Suc (min (length t) (length m - 1))]) = Some n"
      "hold_of t m = n" by (auto simp: hold_of_def split: option.splits)
  from find_rev_upt_Some(1-3) [OF n(1)] show ?thesis using n(2) by auto
qed

lemma hold_of_max:
  "0 < n \<Longrightarrow> n \<le> length t \<Longrightarrow> n < length m \<Longrightarrow> drop (length t - n) t = take n m \<Longrightarrow> n \<le> hold_of t m"
proof -
  assume n: "0 < n" "n \<le> length t" "n < length m" "drop (length t - n) t = take n m"
  let ?P = "\<lambda>n. drop (length t - n) t = take n m" and ?xs = "[1..<Suc (min (length t) (length m - 1))]"
  have in_range: "1 \<le> n" "n < Suc (min (length t) (length m - 1))" using n by auto
  then have "n \<in> set (rev ?xs)" by (simp only: set_rev set_upt) auto
  then have "find ?P (rev ?xs) \<noteq> None" unfolding find_None_iff using n(4) by blast
  then obtain k where k: "find ?P (rev ?xs) = Some k" by blast
  then have "hold_of t m = k" by (simp add: hold_of_def)
  then show ?thesis using find_rev_upt_Some(4) [OF k in_range n(4)] by simp
qed

lemma foldl_max: "foldl (\<lambda>h m. max h (f m)) (a :: nat) ms = Max (insert a (f ` set ms))"
proof (induction ms arbitrary: a)
  case (Cons m ms)
  have "Max (insert a (insert (f m) (f ` set ms))) = Max (insert (max a (f m)) (f ` set ms))"
    by (cases "ms = []") (simp_all add: max.assoc)
  then show ?case using Cons.IH by simp
qed simp

lemma hold_length:
  "marker_prefix_hold_length t ms = 0 \<or> (\<exists>m \<in> set ms. marker_prefix_hold_length t ms = hold_of t m)"
  "m \<in> set ms \<Longrightarrow> hold_of t m \<le> marker_prefix_hold_length t ms"
proof -
  have "marker_prefix_hold_length t ms \<in> insert 0 (hold_of t ` set ms)"
    unfolding marker_prefix_hold_length_def foldl_max by (rule Max_in) auto
  then show "marker_prefix_hold_length t ms = 0 \<or> (\<exists>m \<in> set ms. marker_prefix_hold_length t ms = hold_of t m)" by auto
  show "m \<in> set ms \<Longrightarrow> hold_of t m \<le> marker_prefix_hold_length t ms"
    unfolding marker_prefix_hold_length_def foldl_max by (rule Max_ge) auto
qed

text \<open>
  The safe prefix leaves out a suffix that is a proper prefix of a marker, and no longer suffix is one.
\<close>

lemma safe_prefix_take: "\<exists>n \<le> length t. safe_prefix ms t = take n t \<and> (n = length t \<or> (\<exists>m \<in> set ms. length t - n < length m \<and> drop n t = take (length t - n) m))"
proof -
  let ?ms = "filter (\<lambda>m. m \<noteq> []) ms"
  let ?h = "marker_prefix_hold_length t ?ms"
  show ?thesis
  proof (cases "?h = 0")
    case True
    then show ?thesis by (auto simp: safe_prefix_def)
  next
    case False
    then obtain m where m: "m \<in> set ms" "?h = hold_of t m" using hold_length(1) [of t ?ms] by auto
    have "hold_of t m \<le> length t" "hold_of t m < length m" "drop (length t - hold_of t m) t = take (hold_of t m) m"
      using hold_of_sound [of t m] m(2) False by auto
    then show ?thesis using False m by (intro exI [of _ "length t - ?h"]) (auto simp: safe_prefix_def)
  qed
qed

lemma safe_prefix_length:
  assumes "m \<in> set ms" "0 < n" "n \<le> length t" "n < length m" "drop (length t - n) t = take n m"
  shows "length (safe_prefix ms t) \<le> length t - n"
proof -
  have "m \<in> set (filter (\<lambda>m. m \<noteq> []) ms)" using assms by auto
  then have "n \<le> marker_prefix_hold_length t (filter (\<lambda>m. m \<noteq> []) ms)"
    using hold_of_max [OF assms(2-5)] hold_length(2) order_trans by blast
  then show ?thesis using assms(2) by (simp add: safe_prefix_def)
qed

lemma safe_prefix_prefix: "prefix (safe_prefix ms t) t"
  using safe_prefix_take [of t ms] take_is_prefix by metis

text \<open>The safe prefix of a growing text only grows.\<close>

lemma safe_prefix_mono: "prefix (safe_prefix ms t) (safe_prefix ms (t @ d))"
proof -
  obtain n where n: "n \<le> length (t @ d)" "safe_prefix ms (t @ d) = take n (t @ d)"
    "n = length (t @ d) \<or> (\<exists>m \<in> set ms. length (t @ d) - n < length m \<and> drop n (t @ d) = take (length (t @ d) - n) m)"
    using safe_prefix_take [of "t @ d" ms] by blast
  have p: "prefix (safe_prefix ms t) (t @ d)" using safe_prefix_prefix [of ms t] prefix_prefix by blast
  have "length (safe_prefix ms t) \<le> n"
  proof (cases "length t \<le> n")
    case True
    then show ?thesis using prefix_length_le [OF safe_prefix_prefix, of ms t] by simp
  next
    case False
    then obtain m where m: "m \<in> set ms" "length (t @ d) - n < length m" "drop n (t @ d) = take (length (t @ d) - n) m"
      using n(3) by auto
    have "drop n t = take (length t - n) (drop n (t @ d))" using False by simp
    also have "\<dots> = take (length t - n) m" unfolding m(3) using False by simp
    finally have "drop (length t - (length t - n)) t = take (length t - n) m" using False by simp
    from safe_prefix_length [OF m(1) _ _ _ this] show ?thesis using False m(2) by simp
  qed
  then show ?thesis using p n(2) by (metis prefix_length_prefix take_is_prefix length_take min.absorb2 n(1))
qed

text \<open>Deltas of a text that arrives in pieces, and what they make up.\<close>

fun safe_deltas :: "string list \<Rightarrow> string \<Rightarrow> string list \<Rightarrow> string list" where
  "safe_deltas ms t [] = []"
| "safe_deltas ms t (d # ds) = snd (snd (delta_safe_view t (t @ d) ms)) # safe_deltas ms (t @ d) ds"

lemma safe_deltas_concat: "safe_prefix ms t @ concat (safe_deltas ms t ds) = safe_prefix ms (t @ concat ds)"
proof (induction ds arbitrary: t)
  case (Cons d ds)
  have m: "prefix (safe_prefix ms t) (safe_prefix ms (t @ d))" by (rule safe_prefix_mono)
  then have "safe_prefix ms t @ snd (snd (delta_safe_view t (t @ d) ms)) = safe_prefix ms (t @ d)"
    by (auto simp: delta_safe_view_def prefix_def Let_def)
  then show ?case using Cons.IH [of "t @ d"] by (simp flip: append_assoc)
qed simp

text \<open>
  Markers that begin with one character and have it nowhere else, as \<open><think>\<close> and the other tags do.
\<close>

definition tag_like :: "char \<Rightarrow> string \<Rightarrow> bool" where
  "tag_like c m \<longleftrightarrow> (\<exists>r. m = c # r \<and> c \<notin> set r)"

text \<open>No boundary of the safe view lies inside an occurrence of a marker.\<close>

lemma safe_boundary:
  assumes tags: "\<forall>m \<in> set ms. tag_like c m" and m: "m \<in> set ms"
    and at: "prefix m (drop i text)" and t: "prefix t text"
  shows "\<not> (i < length (safe_prefix ms t) \<and> length (safe_prefix ms t) < i + length m)"
proof
  assume b: "i < length (safe_prefix ms t) \<and> length (safe_prefix ms t) < i + length m"
  let ?p = "length (safe_prefix ms t)"
  obtain rest where whole: "text = t @ rest" using t by (auto simp: prefix_def)
  have pt: "?p \<le> length t" using prefix_length_le [OF safe_prefix_prefix] .
  show False
  proof (cases "length t < i + length m")
    case True
    have "drop i t = take (length t - i) (drop i text)" using whole b pt by simp
    also have "\<dots> = take (length t - i) m" using at True by (auto simp: prefix_def)
    finally have "drop (length t - (length t - i)) t = take (length t - i) m" using b pt by simp
    then have held: "drop (length t - (length t - i)) t = take (length t - i) m" .
    have "0 < length t - i" "length t - i \<le> length t" "length t - i < length m" using b pt True by linarith+
    from safe_prefix_length [OF m this held] show False using b pt by linarith
  next
    case False
    obtain n where n: "n \<le> length t" "safe_prefix ms t = take n t"
      "n = length t \<or> (\<exists>m' \<in> set ms. length t - n < length m' \<and> drop n t = take (length t - n) m')"
      using safe_prefix_take [of t ms] by blast
    have np: "n = ?p" using n(1,2) by simp
    then have "n < length t" using b False by simp
    then obtain m' where m': "m' \<in> set ms" "drop n t = take (length t - n) m'" using n(3) by auto
    obtain r' where r': "m' = c # r'" using tags m'(1) by (auto simp: tag_like_def)
    have "drop n t = c # take (length t - n - 1) r'" unfolding m'(2) r' using \<open>n < length t\<close> by (cases "length t - n") auto
    then have "t ! n = c" using hd_drop_conv_nth [OF \<open>n < length t\<close>] by simp
    moreover have "t ! n = m ! (n - i)"
    proof -
      have "drop i text ! (n - i) = m ! (n - i)" using at b np by (auto simp: prefix_def nth_append)
      moreover have "drop i text ! (n - i) = text ! n" using b np \<open>n < length t\<close> whole by (subst nth_drop) auto
      moreover have "text ! n = t ! n" using \<open>n < length t\<close> whole by (simp add: nth_append)
      ultimately show ?thesis by simp
    qed
    moreover have "m ! (n - i) \<noteq> c"
    proof -
      obtain r where r: "m = c # r" "c \<notin> set r" using tags m by (auto simp: tag_like_def)
      have "0 < n - i" "n - i < length m" using b np by auto
      then have "m ! (n - i) \<in> set r" using r(1) by (cases "n - i") auto
      then show ?thesis using r(2) by metis
    qed
    ultimately show False by simp
  qed
qed

end
