(* ===== verification/Think_Parser.thy ===== *)
theory Think_Parser
  imports Reasoning_Markers
begin

text \<open>
  \<open>BaseThinkingReasoningParser\<close> (\<open>vmlx_engine/reasoning/think_parser.py\<close>): the text of a model that thinks between
  \<open><think>\<close> and \<open></think>\<close>, split into reasoning and content, at once and delta by delta.  The parser keeps no
  text: a delta is classified from the accumulated text alone.
\<close>

section \<open>Parser and markers\<close>

record think_parser =
  tp_start :: string
  tp_end :: string
  tp_alternates :: "(string \<times> string) list"
  tp_in_prompt :: bool
  tp_explicit :: bool

definition new_parser :: "string \<Rightarrow> string \<Rightarrow> think_parser" where
  "new_parser s e = \<lparr>tp_start = s, tp_end = e, tp_alternates = [(''<thinking>'', ''</thinking>'')], tp_in_prompt = False,
     tp_explicit = False\<rparr>"

definition reset_state :: "bool \<Rightarrow> think_parser \<Rightarrow> think_parser" where
  "reset_state b p = p\<lparr>tp_in_prompt := b, tp_explicit := True\<rparr>"

definition marker_pairs :: "think_parser \<Rightarrow> (string \<times> string) list" where
  "marker_pairs p = foldl (\<lambda>ps q. if q \<in> set ps then ps else ps @ [q]) [(tp_start p, tp_end p)] (tp_alternates p)"

definition reasoning_markers :: "think_parser \<Rightarrow> string list" where
  "reasoning_markers p = concat (map (\<lambda>(s, e). [s, e]) (marker_pairs p))"

definition normalize :: "think_parser \<Rightarrow> string \<Rightarrow> string" where
  "normalize p t =
     foldl (\<lambda>t (s, e).
       let t1 = (if s \<noteq> tp_start p then py_replace s (tp_start p) t else t)
       in if e \<noteq> tp_end p then py_replace e (tp_end p) t1 else t1) t (marker_pairs p)"

definition safe_normalized_view :: "think_parser \<Rightarrow> string \<Rightarrow> string \<Rightarrow> string \<times> string \<times> string" where
  "safe_normalized_view p previous current =
     (let (rp, rc, _) = delta_safe_view previous current (reasoning_markers p); sp = normalize p rp; sc = normalize p rc
      in (sp, sc, if prefix sp sc then drop (length sp) sc else []))"

definition direct_rail :: "think_parser \<Rightarrow> string \<Rightarrow> bool" where
  "direct_rail p t \<longleftrightarrow> tp_explicit p \<and> \<not> tp_in_prompt p \<and> \<not> py_contains t (tp_start p)"

text \<open>\<open>_first_unquoted\<close>: occurrences behind a backtick are mentions.\<close>

definition find_from :: "string \<Rightarrow> string \<Rightarrow> nat \<Rightarrow> nat option" where
  "find_from t m i = (if length t < i then None else map_option (\<lambda>j. i + j) (py_find (drop i t) m))"

function unquoted_from :: "string \<Rightarrow> string \<Rightarrow> nat \<Rightarrow> nat option" where
  "unquoted_from t m i =
     (case find_from t m i of
        None \<Rightarrow> None
      | Some j \<Rightarrow> if j = 0 \<or> t ! (j - 1) \<noteq> CHR 0x60 then Some j else unquoted_from t m (j + 1))"
  by auto
termination
  by (relation "measure (\<lambda>(t, m, i). Suc (length t) - i)") (auto simp: find_from_def split: if_splits)

declare unquoted_from.simps [simp del]

definition first_unquoted :: "string \<Rightarrow> string \<Rightarrow> nat option" where
  "first_unquoted t m = unquoted_from t m 0"

lemma py_find_bound: "py_find s m = Some i \<Longrightarrow> i + length m \<le> length s"
proof (induction s m arbitrary: i rule: py_find.induct)
  case (2 c s m)
  then show ?case by (cases "prefix m (c # s)") (auto dest: prefix_length_le)
qed (auto split: if_splits)

lemma unquoted_bound: "unquoted_from t m i = Some j \<Longrightarrow> j + length m \<le> length t"
proof (induction t m i rule: unquoted_from.induct)
  case (1 t m i)
  then obtain k where k: "find_from t m i = Some k" by (auto simp: unquoted_from.simps [of t m i] split: option.splits)
  have b: "k + length m \<le> length t" using k py_find_bound by (fastforce simp: find_from_def split: if_splits)
  show ?case
  proof (cases "k = 0 \<or> t ! (k - 1) \<noteq> CHR 0x60")
    case True
    then show ?thesis using 1(2) k b by (simp add: unquoted_from.simps [of t m i])
  next
    case False
    then show ?thesis using 1(1) [OF k False] 1(2) k by (simp add: unquoted_from.simps [of t m i])
  qed
qed

text \<open>\<open>_strip_unopened_closes\<close>; with an empty marker, which no parser has, the code would not return.\<close>

function strip_closes :: "string \<Rightarrow> string \<Rightarrow> string" where
  "strip_closes e t =
     (if e = [] then t
      else case first_unquoted t e of None \<Rightarrow> t | Some j \<Rightarrow> strip_closes e (take j t @ drop (j + length e) t))"
  by auto
termination
proof (relation "measure (\<lambda>(e, t). length t)", goal_cases)
  case (2 e t j)
  then have "j + length e \<le> length t" "0 < length e" by (auto simp: first_unquoted_def dest: unquoted_bound)
  moreover from this have "length t - length e < length t" by linarith
  ultimately show ?case by simp
qed simp

declare strip_closes.simps [simp del]

section \<open>Complete output\<close>

definition or_none :: "string \<Rightarrow> string option" where
  "or_none s = (if s = [] then None else Some s)"

text \<open>The loop of case 1: reasoning and content parts, for nonempty markers.\<close>

function split_rails :: "string \<Rightarrow> string \<Rightarrow> bool \<Rightarrow> string \<Rightarrow> string list \<times> string list" where
  "split_rails s e r t =
     (if t = [] \<or> s = [] \<or> e = [] then ([], [])
      else if r then
        (case py_find t e of
           None \<Rightarrow> ([t], [])
         | Some i \<Rightarrow> (let (rs, cs) = split_rails s e False (drop (i + length e) t) in (take i t # rs, cs)))
      else
        (case py_find t s of
           None \<Rightarrow> ([], [t])
         | Some i \<Rightarrow> (let (rs, cs) = split_rails s e True (drop (i + length s) t) in (rs, take i t # cs))))"
  by auto
termination
  by (relation "measure (\<lambda>(s, e, r, t). length t)") auto

declare split_rails.simps [simp del]

fun join_lines :: "string list \<Rightarrow> string" where
  "join_lines [] = []"
| "join_lines [s] = s"
| "join_lines (s # ss) = s @ [CHR 0x0A] @ join_lines ss"

definition extract_reasoning :: "think_parser \<Rightarrow> string \<Rightarrow> string option \<times> string option" where
  "extract_reasoning p output =
     (let t = normalize p output
      in if direct_rail p t then (None, or_none (strip_closes (tp_end p) t))
         else if py_contains t (tp_start p) \<and> py_contains t (tp_end p) then
           (let (rs, cs) = split_rails (tp_start p) (tp_end p) False t
            in (or_none (join_lines (filter (\<lambda>s. s \<noteq> []) (map py_strip rs))), or_none (py_strip (concat cs))))
         else case first_unquoted t (tp_end p) of
           Some j \<Rightarrow> (or_none (py_strip (take j t)), or_none (py_strip (drop (j + length (tp_end p)) t)))
         | None \<Rightarrow>
             if py_contains t (tp_start p) then (or_none (py_strip (after_first t (tp_start p))), None)
             else if tp_in_prompt p then (or_none (py_strip t), None)
             else (None, Some output))"

section \<open>Streaming\<close>

record delta_message =
  d_reasoning :: "string option"
  d_content :: "string option"

definition delta :: "string option \<Rightarrow> string option \<Rightarrow> delta_message option" where
  "delta r c = Some \<lparr>d_reasoning = r, d_content = c\<rparr>"

definition content_after_boundary :: "think_parser \<Rightarrow> string \<Rightarrow> string \<Rightarrow> string" where
  "content_after_boundary p previous d =
     (if py_contains previous (tp_end p) \<and> py_strip (after_first previous (tp_end p)) = [] then py_lstrip d else d)"

definition content_or_skip :: "string \<Rightarrow> delta_message option" where
  "content_or_skip c = (if c = [] then None else delta None (Some c))"

text \<open>A delta with the end marker: reasoning before it, content behind it.\<close>

definition transition :: "think_parser \<Rightarrow> string \<Rightarrow> delta_message option" where
  "transition p d =
     (let i = the (py_find d (tp_end p))
      in delta (or_none (take i d)) (or_none (py_lstrip (drop (i + length (tp_end p)) d))))"

definition rail_index :: "nat option \<Rightarrow> int" where
  "rail_index i = (case i of None \<Rightarrow> -1 | Some n \<Rightarrow> int n)"

definition handle_explicit :: "think_parser \<Rightarrow> string \<Rightarrow> string \<Rightarrow> bool \<Rightarrow> bool \<Rightarrow> bool \<Rightarrow> delta_message option" where
  "handle_explicit p previous d start_in_prev end_in_prev end_in_delta =
     (let start_in_delta = py_contains d (tp_start p);
          ls = rail_index (py_rfind previous (tp_start p)); le = rail_index (py_rfind previous (tp_end p));
          inside = (ls \<ge> 0 \<and> ls > le)
      in if start_in_prev then
           (if inside \<and> end_in_delta then transition p d
            else if inside then delta (Some d) None
            else if end_in_prev then
              (if start_in_delta then
                 (let i = the (py_find d (tp_start p)); pre = take i d; after = drop (i + length (tp_start p)) d
                  in case py_find after (tp_end p) of
                       Some j \<Rightarrow> delta (or_none (take j after)) (or_none (pre @ py_lstrip (drop (j + length (tp_end p)) after)))
                     | None \<Rightarrow> delta (or_none after) (or_none pre))
               else content_or_skip (content_after_boundary p previous d))
            else delta (Some d) None)
         else if start_in_delta then
           (let i = the (py_find d (tp_start p))
            in if end_in_delta then
                 (let j = the (py_find d (tp_end p))
                  in delta (or_none (take (j - (i + length (tp_start p))) (drop (i + length (tp_start p)) d)))
                       (or_none (py_lstrip (drop (j + length (tp_end p)) d))))
               else delta (or_none (drop (i + length (tp_start p)) d)) None)
         else delta None (Some d))"

definition handle_implicit :: "think_parser \<Rightarrow> string \<Rightarrow> string \<Rightarrow> bool \<Rightarrow> bool \<Rightarrow> delta_message option" where
  "handle_implicit p previous d end_in_prev end_in_delta =
     (if end_in_delta then transition p d
      else if end_in_prev then content_or_skip (content_after_boundary p previous d)
      else delta (Some d) None)"

text \<open>The rest of \<open>extract_reasoning_streaming\<close> once the safe views are made.\<close>

definition classify :: "think_parser \<Rightarrow> string \<Rightarrow> string \<Rightarrow> string \<Rightarrow> delta_message option" where
  "classify p previous current d =
     (if d = [] then None
      else if direct_rail p current then
        (let before = strip_closes (tp_end p) previous; after = strip_closes (tp_end p) current
         in content_or_skip (if prefix before after then drop (length before) after else []))
      else if py_strip d = tp_start p then
        (let leading = take (the (py_find d (tp_start p))) d;
             reasoning = (py_contains previous (tp_start p) \<and> \<not> py_contains previous (tp_end p))
         in if leading \<noteq> [] \<and> \<not> reasoning then delta None (Some leading) else None)
      else if py_strip d = tp_end p then None
      else if py_contains current (tp_start p) then
        handle_explicit p previous d (py_contains previous (tp_start p)) (py_contains previous (tp_end p)) (py_contains d (tp_end p))
      else if py_contains current (tp_end p) then
        handle_implicit p previous d (py_contains previous (tp_end p)) (py_contains d (tp_end p))
      else if tp_in_prompt p then delta (Some d) None
      else delta None (Some d))"

definition extract_streaming :: "think_parser \<Rightarrow> string \<Rightarrow> string \<Rightarrow> delta_message option" where
  "extract_streaming p previous_text current_text =
     (let (previous, current, d) = safe_normalized_view p previous_text current_text in classify p previous current d)"

text \<open>A whole stream, and the text its reader has put together.\<close>

fun stream :: "think_parser \<Rightarrow> string \<Rightarrow> string list \<Rightarrow> delta_message option list" where
  "stream p t [] = []"
| "stream p t (d # ds) = extract_streaming p t (t @ d) # stream p (t @ d) ds"

definition opt_text :: "string option \<Rightarrow> string" where
  "opt_text x = (case x of None \<Rightarrow> [] | Some s \<Rightarrow> s)"

definition reasoning_text :: "delta_message option \<Rightarrow> string" where
  "reasoning_text d = (case d of None \<Rightarrow> [] | Some m \<Rightarrow> opt_text (d_reasoning m))"

definition content_text :: "delta_message option \<Rightarrow> string" where
  "content_text d = (case d of None \<Rightarrow> [] | Some m \<Rightarrow> opt_text (d_content m))"

end
