(* ===== verification/Think_Stream.thy ===== *)
theory Think_Stream
  imports Think_Parser
begin

text \<open>
  What the streaming parser puts together: no delta cuts a marker, and for an answer of one thought and its content
  the deltas, however the text was cut, add up to what the complete parse returns of the text released so far.
\<close>

section \<open>Searching text with tags\<close>

abbreviation lt :: char where "lt \<equiv> CHR ''<''"
abbreviation think_open :: string where "think_open \<equiv> ''<think>''"
abbreviation think_close :: string where "think_close \<equiv> ''</think>''"

lemma find_none: "py_find s m = None \<longleftrightarrow> \<not> sublist m s"
  by (induction s m rule: py_find.induct) (auto simp: sublist_Cons_right)

lemma rfind_none: "py_rfind s m = None \<longleftrightarrow> \<not> sublist m s"
  by (induction s m rule: py_rfind.induct) (auto simp: sublist_Cons_right split: option.splits)

text \<open>A tag absent from a text cannot straddle its end when the next character begins a tag.\<close>

lemma no_straddle:
  assumes "\<not> sublist (lt # m) (a # x)" "lt \<notin> set m" "s = [] \<or> hd s = lt"
  shows "\<not> prefix (lt # m) (a # x @ s)"
proof
  assume "prefix (lt # m) (a # x @ s)"
  then have "prefix (lt # m) ((a # x) @ s)" by simp
  moreover have "\<not> prefix (lt # m) (a # x)" using assms(1) prefix_imp_sublist by blast
  ultimately obtain y where y: "lt # m = (a # x) @ y" "prefix y s" by (metis prefix_append)
  have "y \<noteq> []"
  proof
    assume "y = []"
    then have "prefix (lt # m) (a # x)" using y(1) by simp
    then show False using \<open>\<not> prefix (lt # m) (a # x)\<close> by simp
  qed
  then obtain h ys where h: "y = h # ys" by (cases y) simp_all
  then have "h = lt" using assms(3) y(2) by (cases s) simp_all
  moreover have "h \<in> set m" using y(1) h by simp
  ultimately show False using assms(2) by simp
qed

lemma find_skip:
  "\<not> sublist (lt # m) x \<Longrightarrow> lt \<notin> set m \<Longrightarrow> s = [] \<or> hd s = lt \<Longrightarrow>
   py_find (x @ s) (lt # m) = map_option (\<lambda>i. length x + i) (py_find s (lt # m))"
proof (induction x)
  case Nil
  then show ?case by (cases "py_find s (lt # m)") auto
next
  case (Cons a x)
  have "\<not> sublist (lt # m) x" using Cons.prems(1) by (simp add: sublist_Cons_right)
  then show ?case
    using Cons.IH Cons.prems(2,3) no_straddle [OF Cons.prems] by (cases "py_find s (lt # m)") auto
qed

lemma free_tag: "lt \<notin> set x \<Longrightarrow> \<not> sublist (lt # m) x"
  by (auto simp: sublist_def)

lemma find_free: "\<not> sublist (lt # m) x \<Longrightarrow> py_find x (lt # m) = None"
  by (simp add: find_none)

lemma find_skip_free: "lt \<notin> set x \<Longrightarrow> py_find (x @ s) (lt # m) = map_option (\<lambda>i. length x + i) (py_find s (lt # m))"
  by (cases "py_find s (lt # m)") (induction x; auto)+

lemma find_prefix: "prefix m s \<Longrightarrow> py_find s m = Some 0"
  by (cases s) auto

lemma find_tag: "lt \<notin> set x \<Longrightarrow> \<not> prefix m x \<Longrightarrow> \<not> prefix x m \<Longrightarrow>
    py_find ((lt # x) @ s) (lt # m) = map_option (\<lambda>i. Suc (length x) + i) (py_find s (lt # m))"
proof -
  assume a: "lt \<notin> set x" "\<not> prefix m x" "\<not> prefix x m"
  have "\<not> prefix m (x @ s)"
  proof
    assume "prefix m (x @ s)"
    then have "prefix m x \<or> prefix x m" using prefix_same_cases [of m "x @ s" x] by simp
    then show False using a(2,3) by simp
  qed
  then show ?thesis using find_skip_free [OF a(1), of s m] by (simp add: option.map_comp comp_def)
qed

lemma rfind_skip:
  "\<not> sublist (lt # m) x \<Longrightarrow> lt \<notin> set m \<Longrightarrow> s = [] \<or> hd s = lt \<Longrightarrow>
   py_rfind (x @ s) (lt # m) = map_option (\<lambda>i. length x + i) (py_rfind s (lt # m))"
proof (induction x)
  case Nil
  then show ?case by (cases "py_rfind s (lt # m)") auto
next
  case (Cons a x)
  have "\<not> sublist (lt # m) x" using Cons.prems(1) by (simp add: sublist_Cons_right)
  then show ?case
    using Cons.IH Cons.prems(2,3) no_straddle [OF Cons.prems] by (cases "py_rfind s (lt # m)") auto
qed

lemma rfind_free: "\<not> sublist (lt # m) x \<Longrightarrow> py_rfind x (lt # m) = None"
  by (simp add: rfind_none)

lemma rfind_skip_free: "lt \<notin> set x \<Longrightarrow> py_rfind (x @ s) (lt # m) = map_option (\<lambda>i. length x + i) (py_rfind s (lt # m))"
  by (cases "py_rfind s (lt # m)") (induction x; auto)+

lemma rfind_tag: "lt \<notin> set x \<Longrightarrow> py_rfind ((lt # x) @ s) (lt # m) =
    (case py_rfind s (lt # m) of Some i \<Rightarrow> Some (Suc (length x) + i) | None \<Rightarrow> if prefix m (x @ s) then Some 0 else None)"
  using rfind_skip_free [of x s m] by (auto split: option.splits)

lemma replace_absent: "py_find s m = None \<Longrightarrow> py_replace m b s = s"
proof (induction m b s rule: py_replace.induct)
  case (1 a b s)
  show ?case
  proof (cases s)
    case Nil
    then show ?thesis by (simp add: py_replace.simps [of a b "[]"])
  next
    case (Cons c s1)
    then have "\<not> prefix a s" "py_find s1 a = None" using 1(3) by (auto split: if_splits)
    then show ?thesis using 1(2) Cons by (cases "a = []") (simp_all add: py_replace.simps [of a b "c # s1"])
  qed
qed

text \<open>Text without a tag, and the texts that occur: an open thought, and a closed one.\<close>

definition plain :: "string \<Rightarrow> bool" where
  "plain s \<longleftrightarrow> list_all (\<lambda>m. \<not> sublist m s) [think_open, think_close, ''<thinking>'', ''</thinking>'']"

lemma plain_factor: "plain (x @ y @ z) \<Longrightarrow> plain y"
proof -
  assume "plain (x @ y @ z)"
  moreover have "sublist m y \<Longrightarrow> sublist m (x @ y @ z)" for m
    by (rule sublist_order.order.trans [OF _ sublist_appendI])
  ultimately show ?thesis unfolding plain_def list_all_iff by blast
qed

lemma plain_nil [simp]: "plain []"
  by (simp add: plain_def)

lemma plain_find:
  "plain s \<Longrightarrow> py_find s think_open = None" "plain s \<Longrightarrow> py_find s think_close = None"
  "plain s \<Longrightarrow> py_find s ''<thinking>'' = None" "plain s \<Longrightarrow> py_find s ''</thinking>'' = None"
  "plain s \<Longrightarrow> py_rfind s think_open = None" "plain s \<Longrightarrow> py_rfind s think_close = None"
  by (simp_all add: plain_def find_none rfind_none)

lemma plain_skip:
  assumes "plain x" "s = [] \<or> hd s = lt" "m \<in> set [think_open, think_close, ''<thinking>'', ''</thinking>'']"
  shows "py_find (x @ s) m = map_option (\<lambda>i. length x + i) (py_find s m)" "py_rfind (x @ s) m = map_option (\<lambda>i. length x + i) (py_rfind s m)"
proof -
  have m: "\<not> sublist m x" using assms(1,3) by (auto simp: plain_def)
  obtain n where n: "m = lt # n" "lt \<notin> set n" using assms(3) by auto
  show "py_find (x @ s) m = map_option (\<lambda>i. length x + i) (py_find s m)"
    using find_skip [OF m [unfolded n(1)] n(2) assms(2)] by (simp add: n(1))
  show "py_rfind (x @ s) m = map_option (\<lambda>i. length x + i) (py_rfind s m)"
    using rfind_skip [OF m [unfolded n(1)] n(2) assms(2)] by (simp add: n(1))
qed

lemma open_find:
  assumes "plain r"
  shows "py_find (think_open @ r) think_open = Some 0" "py_find (think_open @ r) think_close = None"
    "py_find (think_open @ r) ''<thinking>'' = None" "py_find (think_open @ r) ''</thinking>'' = None"
    "py_rfind (think_open @ r) think_open = Some 0" "py_rfind (think_open @ r) think_close = None"
  using plain_find [OF assms]
    find_tag [of "''think>''" "''/think>''" r] find_tag [of "''think>''" "''thinking>''" r] find_tag [of "''think>''" "''/thinking>''" r]
    rfind_tag [of "''think>''" r "''think>''"] rfind_tag [of "''think>''" r "''/think>''"]
  by (simp_all del: py_find.simps py_rfind.simps add: find_prefix)

lemma tail_find:
  assumes "plain r" "plain c"
  shows "py_find (r @ think_close @ c) think_close = Some (length r)" "py_find (r @ think_close @ c) think_open = None"
    "py_find (r @ think_close @ c) ''<thinking>'' = None" "py_find (r @ think_close @ c) ''</thinking>'' = None"
    "py_rfind (r @ think_close @ c) think_close = Some (length r)" "py_rfind (r @ think_close @ c) think_open = None"
  using plain_find [OF assms(2)] plain_skip [OF assms(1), of "think_close @ c"]
    find_tag [of "''/think>''" "''think>''" c] find_tag [of "''/think>''" "''thinking>''" c] find_tag [of "''/think>''" "''/thinking>''" c]
    rfind_tag [of "''/think>''" c "''/think>''"] rfind_tag [of "''/think>''" c "''think>''"] find_prefix [of think_close "think_close @ c"]
  by (simp_all del: py_find.simps py_rfind.simps)

lemma closed_find:
  assumes "plain r" "plain c"
  shows "py_find (think_open @ r @ think_close @ c) think_open = Some 0"
    "py_find (think_open @ r @ think_close @ c) think_close = Some (7 + length r)"
    "py_find (think_open @ r @ think_close @ c) ''<thinking>'' = None" "py_find (think_open @ r @ think_close @ c) ''</thinking>'' = None"
    "py_rfind (think_open @ r @ think_close @ c) think_open = Some 0"
    "py_rfind (think_open @ r @ think_close @ c) think_close = Some (7 + length r)"
  using tail_find [OF assms] find_prefix [of think_open "think_open @ r @ think_close @ c"]
    find_tag [of "''think>''" "''/think>''" "r @ think_close @ c"] find_tag [of "''think>''" "''thinking>''" "r @ think_close @ c"]
    find_tag [of "''think>''" "''/thinking>''" "r @ think_close @ c"]
    rfind_tag [of "''think>''" "r @ think_close @ c" "''think>''"] rfind_tag [of "''think>''" "r @ think_close @ c" "''/think>''"]
  by (simp_all del: py_find.simps py_rfind.simps)

section \<open>White space at the ends\<close>

definition py_rstrip :: "string \<Rightarrow> string" where
  "py_rstrip s = rev (dropWhile space_char (rev s))"

definition blank :: "string \<Rightarrow> bool" where
  "blank s \<longleftrightarrow> list_all space_char s"

lemma blank_simps [simp]: "blank []" "blank (x @ y) \<longleftrightarrow> blank x \<and> blank y" "blank (rev x) \<longleftrightarrow> blank x"
  by (auto simp: blank_def list_all_iff)

lemma lstrip_nil [simp]: "py_lstrip s = [] \<longleftrightarrow> blank s"
  by (simp add: py_lstrip_def blank_def list_all_iff dropWhile_eq_Nil_conv)

lemma rstrip_nil [simp]: "py_rstrip s = [] \<longleftrightarrow> blank s"
  by (simp add: py_rstrip_def blank_def list_all_iff dropWhile_eq_Nil_conv)

lemma strip_lr: "py_strip s = py_rstrip (py_lstrip s)"
  by (simp add: py_strip_def py_rstrip_def py_lstrip_def)

lemma lstrip_append: "py_lstrip (x @ y) = (if blank x then py_lstrip y else py_lstrip x @ y)"
  by (induction x) (auto simp: py_lstrip_def blank_def)

lemma rstrip_append: "py_rstrip (x @ y) = (if blank y then py_rstrip x else x @ py_rstrip y)"
  using lstrip_append [of "rev y" "rev x"] by (auto simp: py_rstrip_def py_lstrip_def)

lemma strip_nil [simp]: "py_strip s = [] \<longleftrightarrow> blank s"
proof -
  have "blank (py_lstrip s) \<longleftrightarrow> blank s"
    by (induction s) (auto simp: py_lstrip_def blank_def)
  then show ?thesis by (simp add: strip_lr)
qed

lemma strip_blank_left: "blank w \<Longrightarrow> py_strip (w @ x) = py_strip x"
  by (simp add: strip_lr lstrip_append)

lemma strip_blank_right: "blank w \<Longrightarrow> py_strip (x @ w) = py_strip x"
proof (cases "blank x")
  case True
  moreover assume "blank w"
  ultimately have e: "py_strip (x @ w) = []" "py_strip x = []" by simp_all
  show ?thesis unfolding e ..
next
  case False
  moreover assume "blank w"
  ultimately show ?thesis by (simp add: strip_lr lstrip_append rstrip_append)
qed

lemma strip_around:
  assumes "\<not> space_char (hd z)" "\<not> space_char (last z)" "z \<noteq> []"
  shows "py_strip (x @ z @ y) = py_lstrip x @ z @ py_rstrip y"
proof -
  have nb: "\<not> blank z" using assms by (cases z) (auto simp: blank_def)
  have l: "py_lstrip z = z" using assms by (cases z) (auto simp: py_lstrip_def)
  have r: "py_rstrip z = z" using assms by (cases z rule: rev_cases) (auto simp: py_rstrip_def)
  have "py_lstrip (x @ z @ y) = py_lstrip x @ z @ y" using nb l lstrip_nil by (auto simp: lstrip_append)
  then show ?thesis using nb r by (auto simp: strip_lr rstrip_append)
qed

section \<open>The parser for the think tags: \<open>Qwen3ReasoningParser\<close>\<close>

definition qwen3_parser :: "bool \<Rightarrow> bool \<Rightarrow> think_parser" where
  "qwen3_parser b x = (new_parser think_open think_close)\<lparr>tp_in_prompt := b, tp_explicit := x\<rparr>"

lemma qwen3_parser_sel [simp]:
  "tp_start (qwen3_parser b x) = think_open" "tp_end (qwen3_parser b x) = think_close"
  "reasoning_markers (qwen3_parser b x) = [think_open, think_close, ''<thinking>'', ''</thinking>'']"
  by (simp_all add: qwen3_parser_def new_parser_def reasoning_markers_def marker_pairs_def)

lemma qwen3_parser_pairs: "marker_pairs (qwen3_parser b x) = [(think_open, think_close), (''<thinking>'', ''</thinking>'')]"
  by (simp add: qwen3_parser_def new_parser_def marker_pairs_def)

lemma normalize_plain: "py_find t ''<thinking>'' = None \<Longrightarrow> py_find t ''</thinking>'' = None \<Longrightarrow> normalize (qwen3_parser b x) t = t"
  by (simp add: normalize_def qwen3_parser_pairs replace_absent)

lemma normalize_forms:
  assumes "plain r" "plain c"
  shows "normalize (qwen3_parser b x) [] = []" "normalize (qwen3_parser b x) (think_open @ r) = think_open @ r"
    "normalize (qwen3_parser b x) (think_open @ r @ think_close @ c) = think_open @ r @ think_close @ c"
  using open_find [OF assms(1)] closed_find [OF assms] by (simp_all only: normalize_plain) (rule normalize_plain; simp)

lemma direct_rail_open: "py_find t think_open = Some i \<Longrightarrow> \<not> direct_rail (qwen3_parser b x) t"
  by (simp add: direct_rail_def py_contains_def)

section \<open>The deltas\<close>

lemma strip_factor: "\<exists>x y. d = x @ py_strip d @ y"
proof -
  let ?l = "dropWhile space_char d"
  have "?l = py_strip d @ rev (takeWhile space_char (rev ?l))"
    unfolding py_strip_def by (metis rev_append rev_rev_ident takeWhile_dropWhile_id)
  then show ?thesis by (metis takeWhile_dropWhile_id)
qed

lemma strip_plain: "plain d \<Longrightarrow> py_strip d \<noteq> think_open \<and> py_strip d \<noteq> think_close"
proof -
  assume "plain d"
  moreover obtain x y where "d = x @ py_strip d @ y" using strip_factor by blast
  ultimately have "plain (py_strip d)" using plain_factor [of x "py_strip d" y] by simp
  moreover have "\<not> plain think_open" "\<not> plain think_close" by (simp_all add: plain_def)
  ultimately show ?thesis by metis
qed

lemma strip_open: "py_strip (think_open @ r) = think_open @ py_rstrip r"
  using strip_around [of think_open "[]" r] by (simp add: space_char_def py_lstrip_def)

lemma strip_closed: "py_strip (think_open @ r @ think_close @ c) = think_open @ r @ think_close @ py_rstrip c"
  using strip_around [of "think_open @ r @ think_close" "[]" c] by (simp add: space_char_def py_lstrip_def)

lemma strip_tail: "py_strip (r @ think_close @ c) = py_lstrip r @ think_close @ py_rstrip c"
  by (rule strip_around) (simp_all add: space_char_def)

lemma tail_not_open: "r @ think_close @ c \<noteq> think_open"
proof
  assume "r @ think_close @ c = think_open"
  from arg_cong [OF this, of length] show False by simp
qed

lemma tail_is_close: "r @ think_close @ c = think_close \<longleftrightarrow> r = [] \<and> c = []"
proof
  assume "r @ think_close @ c = think_close"
  from arg_cong [OF this, of length] show "r = [] \<and> c = []" by simp
qed simp

lemmas message_simps = delta_def or_none_def opt_text_def reasoning_text_def content_text_def content_or_skip_def

lemma opt_or_none [simp]: "opt_text (or_none s) = s"
  by (simp add: message_simps)

lemma drop_closed [simp]: "drop (15 + length r) (think_open @ r @ think_close @ c) = c"
  by (simp add: numeral_eq_Suc)

text \<open>The opening marker, alone or with the beginning of the thought.\<close>

lemma delta_open:
  assumes "plain r"
  shows "classify (qwen3_parser b x) [] (think_open @ r) (think_open @ r) = (if blank r then None else delta (Some r) None)"
proof -
  note f = open_find [OF assms]
  have r: "\<not> blank r \<Longrightarrow> r \<noteq> []" by auto
  show ?thesis
    unfolding classify_def handle_explicit_def Let_def strip_open py_contains_def qwen3_parser_sel f direct_rail_def
    using r by (auto simp: or_none_def)
qed

lemma delta_open_closed:
  assumes "plain r" "plain c"
  shows "classify (qwen3_parser b x) [] (think_open @ r @ think_close @ c) (think_open @ r @ think_close @ c)
    = delta (or_none r) (or_none (py_lstrip c))"
proof -
  note f = closed_find [OF assms]
  show ?thesis
    unfolding classify_def handle_explicit_def Let_def strip_closed py_contains_def qwen3_parser_sel f direct_rail_def
    by (auto simp: numeral_eq_Suc)
qed

text \<open>More of the thought, its end, and what follows.\<close>

lemma delta_think:
  assumes "plain r" "plain d" "d \<noteq> []"
  shows "classify (qwen3_parser b x) (think_open @ r) (think_open @ r @ d) d = delta (Some d) None"
proof -
  note f = open_find [OF assms(1)] open_find [of "r @ d"]
  note n = strip_plain [OF assms(2)]
  have d: "py_find d think_open = None" "py_find d think_close = None" using plain_find [OF assms(2)] by auto
  show ?thesis
    unfolding classify_def handle_explicit_def Let_def py_contains_def qwen3_parser_sel direct_rail_def d
    using f n assms by (auto simp: rail_index_def)
qed

lemma delta_close:
  assumes "plain r" "plain r2" "plain c"
  shows "classify (qwen3_parser b x) (think_open @ r) (think_open @ r @ r2 @ think_close @ c) (r2 @ think_close @ c)
    = (if blank r2 \<and> blank c then None else delta (or_none r2) (or_none (py_lstrip c)))"
proof -
  note f = open_find [OF assms(1)] closed_find [of "r @ r2" c] tail_find [OF assms(2,3)]
  have n: "py_strip (r2 @ think_close @ c) \<noteq> think_open" "py_strip (r2 @ think_close @ c) = think_close \<longleftrightarrow> blank r2 \<and> blank c"
    unfolding strip_tail using tail_not_open tail_is_close by simp_all
  show ?thesis
    unfolding classify_def handle_explicit_def Let_def py_contains_def qwen3_parser_sel direct_rail_def n transition_def
    using f n assms by (auto simp: rail_index_def)
qed

lemma delta_content:
  assumes "plain r" "plain c" "plain d" "d \<noteq> []"
  shows "classify (qwen3_parser b x) (think_open @ r @ think_close @ c) (think_open @ r @ think_close @ c @ d) d
    = content_or_skip (if blank c then py_lstrip d else d)"
proof -
  note f = closed_find [OF assms(1,2)] closed_find [of r "c @ d"]
  note n = strip_plain [OF assms(3)]
  have d: "py_find d think_open = None" "py_find d think_close = None" using plain_find [OF assms(3)] by auto
  have a: "after_first (think_open @ r @ think_close @ c) think_close = c" unfolding after_first_def f by (simp add: numeral_eq_Suc)
  show ?thesis
    unfolding classify_def handle_explicit_def Let_def py_contains_def qwen3_parser_sel direct_rail_def d content_after_boundary_def a
    using f n assms by (auto simp: rail_index_def)
qed

section \<open>The views of an answer\<close>

abbreviation answer :: "string \<Rightarrow> string \<Rightarrow> string" where
  "answer r c \<equiv> think_open @ r @ think_close @ c"

abbreviation markers :: "string list" where
  "markers \<equiv> [think_open, think_close, ''<thinking>'', ''</thinking>'']"

text \<open>What the parser sees of an answer: nothing, an open thought, or the whole thought and some content.\<close>

definition view_of :: "string \<Rightarrow> string \<Rightarrow> string \<Rightarrow> bool" where
  "view_of r c v \<longleftrightarrow> v = [] \<or> (\<exists>n \<le> length r. v = think_open @ take n r) \<or> (\<exists>n \<le> length c. v = answer r (take n c))"

lemma take_answer:
  "k \<le> length r \<Longrightarrow> take (7 + k) (answer r c) = think_open @ take k r"
  "take (15 + length r + k) (answer r c) = answer r (take k c)"
  by (simp_all add: numeral_eq_Suc)

lemma safe_view_of:
  assumes "prefix t (answer r c)"
  shows "view_of r c (safe_prefix markers t)"
proof -
  let ?v = "safe_prefix markers t" and ?n = "length (safe_prefix markers t)"
  have tags: "\<forall>m \<in> set markers. tag_like lt m" by (simp add: tag_like_def)
  have pv: "prefix ?v (answer r c)" using safe_prefix_prefix assms prefix_order.trans by blast
  then have v: "?v = take ?n (answer r c)" unfolding prefix_def by (metis append_eq_conv_conj)
  have l: "?n \<le> length (answer r c)" using prefix_length_le [OF pv] .
  have opn: "prefix think_open (drop 0 (answer r c))" by simp
  have tl: "length think_open = 7" "length think_close = 8" by simp_all
  have ms: "think_open \<in> set markers" "think_close \<in> set markers" by simp_all
  from safe_boundary [OF tags ms(1) opn assms, unfolded tl] have n1: "?n = 0 \<or> 7 \<le> ?n" by linarith
  have close: "prefix think_close (drop (7 + length r) (answer r c))" by (simp add: numeral_eq_Suc)
  from safe_boundary [OF tags ms(2) close assms, unfolded tl] have n2: "?n \<le> 7 + length r \<or> 15 + length r \<le> ?n" by linarith
  consider "?n = 0" | "7 \<le> ?n" "?n \<le> 7 + length r" | "15 + length r \<le> ?n" using n1 n2 by linarith
  then show ?thesis
  proof cases
    case 1
    then show ?thesis by (simp add: view_of_def)
  next
    case 2
    then have k: "?n = 7 + (?n - 7)" "?n - 7 \<le> length r" by linarith+
    have "?v = think_open @ take (?n - 7) r" using v k(1) take_answer(1) [OF k(2)] by metis
    then show ?thesis using k(2) unfolding view_of_def by blast
  next
    case 3
    then have k: "?n = 15 + length r + (?n - (15 + length r))" by linarith
    have "length (answer r c) = 15 + length r + length c" by simp
    then have "?n - (15 + length r) \<le> length c" using l by linarith
    moreover have "?v = answer r (take (?n - (15 + length r)) c)" using v k take_answer(2) by metis
    ultimately show ?thesis unfolding view_of_def by blast
  qed
qed

lemma plain_take: "plain r \<Longrightarrow> plain (take n r)" "plain r \<Longrightarrow> plain (drop n r)"
  using plain_factor [of "[]" "take n r" "drop n r"] plain_factor [of "take n r" "drop n r" "[]"] by simp_all

lemma normalize_view: "plain r \<Longrightarrow> plain c \<Longrightarrow> view_of r c v \<Longrightarrow> normalize (qwen3_parser b x) v = v"
  unfolding view_of_def using normalize_forms plain_take by (metis plain_nil)

text \<open>One step of the stream is the classification of what the view gained.\<close>

lemma stream_step:
  assumes "plain r" "plain c" "prefix (t @ d) (answer r c)"
  shows "\<exists>w. safe_prefix markers (t @ d) = safe_prefix markers t @ w \<and>
    extract_streaming (qwen3_parser b x) t (t @ d) = classify (qwen3_parser b x) (safe_prefix markers t) (safe_prefix markers t @ w) w"
proof -
  obtain w where w: "safe_prefix markers (t @ d) = safe_prefix markers t @ w"
    using safe_prefix_mono [of markers t d] by (auto simp: prefix_def)
  have "prefix t (answer r c)" using assms(3) by (rule append_prefixD)
  then have n: "normalize (qwen3_parser b x) (safe_prefix markers t) = safe_prefix markers t"
    "normalize (qwen3_parser b x) (safe_prefix markers (t @ d)) = safe_prefix markers (t @ d)"
    using normalize_view [OF assms(1,2) safe_view_of] assms(3) by blast+
  have "extract_streaming (qwen3_parser b x) t (t @ d)
      = classify (qwen3_parser b x) (safe_prefix markers t) (safe_prefix markers t @ w) w"
    by (simp add: extract_streaming_def safe_normalized_view_def delta_safe_view_def Let_def n w [symmetric] del: append_Cons)
       (simp add: w)
  then show ?thesis using w by blast
qed

section \<open>What the reader has put together\<close>

definition gathered :: "string \<Rightarrow> string \<Rightarrow> string \<Rightarrow> string \<Rightarrow> string \<Rightarrow> bool" where
  "gathered r c v a b \<longleftrightarrow>
     (v = [] \<and> a = [] \<and> b = []) \<or>
     (\<exists>n w. v = think_open @ take n r \<and> take n r = w @ a \<and> blank w \<and> b = []) \<or>
     (\<exists>n. v = answer r (take n c) \<and> py_strip a = py_strip r \<and> b = py_lstrip (take n c))"

lemma gatheredI:
  "take n r = w @ a \<Longrightarrow> blank w \<Longrightarrow> gathered r c (think_open @ take n r) a []"
  "py_strip a = py_strip r \<Longrightarrow> b = py_lstrip (take n c) \<Longrightarrow> gathered r c (answer r (take n c)) a b"
  unfolding gathered_def by blast+

lemma message_parts [simp]:
  "reasoning_text None = []" "content_text None = []" "reasoning_text (delta a b) = opt_text a" "content_text (delta a b) = opt_text b"
  "reasoning_text (content_or_skip s) = []" "content_text (content_or_skip s) = s" "opt_text None = []" "opt_text (Some s) = s"
  by (simp_all add: message_simps)

lemma gather_open:
  assumes p: "plain r" "plain c" and v: "view_of r c w" and w: "w \<noteq> []"
  shows "gathered r c w (reasoning_text (classify (qwen3_parser b x) [] w w)) (content_text (classify (qwen3_parser b x) [] w w))"
  using v w unfolding view_of_def
proof (elim disjE exE conjE)
  fix n assume n: "w = think_open @ take n r"
  show ?thesis
  proof (cases "blank (take n r)")
    case True
    then show ?thesis unfolding n delta_open [OF plain_take(1) [OF p(1)]] by (simp del: append_Cons add: gatheredI(1) [of n r "take n r" "[]"])
  next
    case False
    then show ?thesis unfolding n delta_open [OF plain_take(1) [OF p(1)]] by (simp del: append_Cons add: gatheredI(1) [of n r "[]"])
  qed
next
  fix n assume n: "w = answer r (take n c)"
  show ?thesis unfolding n delta_open_closed [OF p(1) plain_take(1) [OF p(2)]] by (simp del: append_Cons add: gatheredI(2))
qed simp

lemma gather_thought:
  assumes p: "plain r" "plain c" and a: "take n r = u @ a" "blank u"
    and v: "view_of r c (think_open @ take n r @ w)" and w: "w \<noteq> []"
  shows "gathered r c (think_open @ take n r @ w)
    (a @ reasoning_text (classify (qwen3_parser b x) (think_open @ take n r) (think_open @ take n r @ w) w))
    (content_text (classify (qwen3_parser b x) (think_open @ take n r) (think_open @ take n r @ w) w))"
  using v unfolding view_of_def
proof (elim disjE exE conjE)
  fix k assume k: "think_open @ take n r @ w = think_open @ take k r"
  then have e: "take k r = take n r @ w" by simp
  have "plain w" using plain_factor [of "take n r" w "[]"] plain_take(1) [OF p(1), of k] e by simp
  then have d: "classify (qwen3_parser b x) (think_open @ take n r) (think_open @ take n r @ w) w = delta (Some w) None"
    by (rule delta_think [OF plain_take(1) [OF p(1)] _ w])
  have "gathered r c (think_open @ take n r @ w) (a @ w) []"
    using gatheredI(1) [of k r u "a @ w" c] a unfolding e by simp
  then show ?thesis unfolding d by simp
next
  fix k assume k: "think_open @ take n r @ w = answer r (take k c)"
  then have "take n r @ w = take n r @ drop n r @ think_close @ take k c" by (simp flip: append_assoc)
  then have e: "w = drop n r @ think_close @ take k c" by simp
  have d: "classify (qwen3_parser b x) (think_open @ take n r) (think_open @ take n r @ drop n r @ think_close @ take k c)
      (drop n r @ think_close @ take k c)
    = (if blank (drop n r) \<and> blank (take k c) then None else delta (or_none (drop n r)) (or_none (py_lstrip (take k c))))"
    by (rule delta_close [OF plain_take(1) [OF p(1)] plain_take(2) [OF p(1)] plain_take(1) [OF p(2)]])
  have r: "r = u @ a @ drop n r" using append_take_drop_id [of n r] a(1) by simp
  have s: "py_strip (a @ drop n r) = py_strip r" using strip_blank_left [OF a(2), of "a @ drop n r"] r by simp
  have s2: "blank (drop n r) \<Longrightarrow> py_strip a = py_strip r" using s strip_blank_right [of "drop n r" a] by simp
  have s3: "blank (take k c) \<Longrightarrow> [] = py_lstrip (take k c)" by (rule sym) simp
  have k2: "think_open @ take n r @ drop n r @ think_close @ take k c = answer r (take k c)" by (simp flip: append_assoc)
  show ?thesis
  proof (cases "blank (drop n r) \<and> blank (take k c)")
    case True
    then show ?thesis using d gatheredI(2) [OF s2 s3] unfolding e k2 by (simp del: append_Cons)
  next
    case False
    then show ?thesis using d [unfolded if_not_P [OF False]] gatheredI(2) [OF s refl] unfolding e k2 by (simp del: append_Cons)
  qed
qed simp

lemma gather_content:
  assumes p: "plain r" "plain c" and v: "view_of r c (answer r (take n c) @ w)" and w: "w \<noteq> []"
    and a: "py_strip a = py_strip r" "b = py_lstrip (take n c)"
  shows "gathered r c (answer r (take n c) @ w)
    (a @ reasoning_text (classify (qwen3_parser y x) (answer r (take n c)) (answer r (take n c) @ w) w))
    (b @ content_text (classify (qwen3_parser y x) (answer r (take n c)) (answer r (take n c) @ w) w))"
  using v unfolding view_of_def
proof (elim disjE exE conjE)
  fix k assume k: "k \<le> length r" "answer r (take n c) @ w = think_open @ take k r"
  from arg_cong [OF k(2), of length] k(1) show ?thesis by simp
next
  fix k assume k: "answer r (take n c) @ w = answer r (take k c)"
  then have e: "take k c = take n c @ w" by simp
  have "plain w" using plain_factor [of "take n c" w "[]"] plain_take(1) [OF p(2), of k] e by simp
  then have d: "classify (qwen3_parser y x) (answer r (take n c)) (answer r (take n c @ w)) w
      = content_or_skip (if blank (take n c) then py_lstrip w else w)"
    by (rule delta_content [OF p(1) plain_take(1) [OF p(2)] _ w])
  have l: "b @ (if blank (take n c) then py_lstrip w else w) = py_lstrip (take n c @ w)"
    using a(2) lstrip_nil [of "take n c"] by (auto simp: lstrip_append simp del: lstrip_nil)
  have "gathered r c (answer r (take n c @ w)) a (py_lstrip (take n c @ w))" using gatheredI(2) [OF a(1), of _ k c] e by simp
  moreover have e2: "answer r (take n c) @ w = answer r (take n c @ w)" by simp
  ultimately show ?thesis unfolding e2 d by (simp del: append_Cons add: l)
qed simp

lemma gather_step:
  assumes p: "plain r" "plain c" and g: "gathered r c v a b" and v: "view_of r c (v @ w)"
  shows "gathered r c (v @ w) (a @ reasoning_text (classify (qwen3_parser y x) v (v @ w) w))
    (b @ content_text (classify (qwen3_parser y x) v (v @ w) w))"
proof (cases "w = []")
  case True
  then show ?thesis using g by (simp add: classify_def)
next
  case False
  from g consider "v = []" "a = []" "b = []" | n u where "v = think_open @ take n r" "take n r = u @ a" "blank u" "b = []"
    | n where "v = answer r (take n c)" "py_strip a = py_strip r" "b = py_lstrip (take n c)"
    unfolding gathered_def by blast
  then show ?thesis
  proof cases
    case 1
    then show ?thesis using gather_open [OF p _ False] v by simp
  next
    case (2 n u)
    then show ?thesis using gather_thought [OF p 2(2,3) _ False] v by (simp del: append_Cons)
  next
    case (3 n)
    then show ?thesis using gather_content [OF p _ False 3(2,3)] v by (simp del: append_Cons)
  qed
qed

lemma gather_stream:
  assumes "plain r" "plain c"
  shows "gathered r c (safe_prefix markers t) a b \<Longrightarrow> prefix (t @ concat ds) (answer r c) \<Longrightarrow>
    gathered r c (safe_prefix markers (t @ concat ds)) (a @ concat (map reasoning_text (stream (qwen3_parser y x) t ds)))
      (b @ concat (map content_text (stream (qwen3_parser y x) t ds)))"
proof (induction ds arbitrary: t a b)
  case Nil
  then show ?case by (simp del: append_Cons)
next
  case (Cons d ds)
  have td: "prefix (t @ d) (answer r c)" using Cons.prems(2) append_prefixD [of "t @ d" "concat ds"] by (simp del: append_Cons)
  from stream_step [OF assms td] obtain w where w: "safe_prefix markers (t @ d) = safe_prefix markers t @ w"
    "extract_streaming (qwen3_parser y x) t (t @ d) = classify (qwen3_parser y x) (safe_prefix markers t) (safe_prefix markers t @ w) w"
    by blast
  have "view_of r c (safe_prefix markers t @ w)" using safe_view_of [OF td] unfolding w(1) .
  from gather_step [OF assms Cons.prems(1) this] have "gathered r c (safe_prefix markers (t @ d))
      (a @ reasoning_text (extract_streaming (qwen3_parser y x) t (t @ d))) (b @ content_text (extract_streaming (qwen3_parser y x) t (t @ d)))"
    unfolding w .
  from Cons.IH [OF this] show ?case using Cons.prems(2) by (simp del: append_Cons)
qed

section \<open>The complete parse\<close>

lemma split_answer:
  assumes "plain r" "plain c"
  shows "split_rails think_open think_close False (answer r c) = ([r], if c = [] then [[]] else [[], c])"
proof -
  have "split_rails think_open think_close False c = ([], if c = [] then [] else [c])"
    using plain_find(1) [OF assms(2)] by (simp add: split_rails.simps [of _ _ False c])
  moreover have "drop (length r + 8) (r @ think_close @ c) = c" by (simp add: numeral_eq_Suc)
  ultimately have "split_rails think_open think_close True (r @ think_close @ c) = ([r], if c = [] then [] else [c])"
    using tail_find(1) [OF assms] by (simp add: split_rails.simps [of _ _ True])
  moreover have "drop 7 (answer r c) = r @ think_close @ c" by (simp add: numeral_eq_Suc)
  ultimately show ?thesis
    using closed_find(1) [OF assms] by (simp add: split_rails.simps [of _ _ False "answer r c"] del: append_Cons)
qed

lemma extract_answer:
  assumes "plain r" "plain c"
  shows "extract_reasoning (qwen3_parser y x) (answer r c) = (or_none (py_strip r), or_none (py_strip c))"
proof -
  note f = closed_find [OF assms]
  have "join_lines (filter (\<lambda>s. s \<noteq> []) (map py_strip [r])) = py_strip r" by (simp del: strip_nil)
  then show ?thesis
    unfolding extract_reasoning_def Let_def normalize_forms(3) [OF assms] qwen3_parser_sel split_answer [OF assms] py_contains_def direct_rail_def f
    by auto
qed

section \<open>Properties\<close>

lemma safe_deltas_take: "take k (safe_deltas ms t ds) = safe_deltas ms t (take k ds)"
proof (induction ds arbitrary: k t)
  case (Cons d ds)
  then show ?case by (cases k) simp_all
qed simp

lemma safe_prefix_nil [simp]: "safe_prefix ms [] = []"
  using safe_prefix_prefix [of ms "[]"] by simp

lemma safe_deltas_view: "concat (take k (safe_deltas ms [] ds)) = safe_prefix ms (concat (take k ds))"
  using safe_deltas_concat [of ms "[]" "take k ds"] by (simp add: safe_deltas_take)

text \<open>
  C35. However a text is cut into pieces, the parser never sees half a tag: what has been released after any number of
  deltas does not end inside an occurrence of a marker in the whole text, and what is still held back at the end is
  the beginning of a marker.
\<close>

theorem markers_never_split:
  assumes "\<forall>m \<in> set ms. tag_like a m" "m \<in> set ms" "prefix m (drop i (concat ds))"
  shows "\<not> (i < length (concat (take k (safe_deltas ms [] ds))) \<and> length (concat (take k (safe_deltas ms [] ds))) < i + length m) \<and>
    (\<exists>held. concat ds = concat (safe_deltas ms [] ds) @ held \<and> (held = [] \<or> (\<exists>m \<in> set ms. strict_prefix held m)))"
proof (rule conjI)
  have "prefix (concat (take k ds)) (concat ds)"
    using prefixI [of "concat ds" "concat (take k ds)" "concat (drop k ds)"] by (simp flip: concat_append)
  from safe_boundary [OF assms this]
  show "\<not> (i < length (concat (take k (safe_deltas ms [] ds))) \<and> length (concat (take k (safe_deltas ms [] ds))) < i + length m)"
    unfolding safe_deltas_view .
next
  obtain n where n: "safe_prefix ms (concat ds) = take n (concat ds)"
    "n = length (concat ds) \<or> (\<exists>m \<in> set ms. length (concat ds) - n < length m \<and> drop n (concat ds) = take (length (concat ds) - n) m)"
    using safe_prefix_take [of "concat ds" ms] by blast
  have e: "concat (safe_deltas ms [] ds) = take n (concat ds)" using safe_deltas_concat [of ms "[]" ds] n(1) by simp
  have "drop n (concat ds) = [] \<or> (\<exists>m \<in> set ms. strict_prefix (drop n (concat ds)) m)"
    using n(2)
  proof (elim disjE bexE conjE)
    fix m assume m: "m \<in> set ms" "length (concat ds) - n < length m" "drop n (concat ds) = take (length (concat ds) - n) m"
    have "strict_prefix (drop n (concat ds)) m"
      unfolding m(3) using m(2) take_is_prefix [of "length (concat ds) - n" m] by (auto simp: strict_prefix_def)
    then show ?thesis using m(1) by blast
  qed simp
  then show "\<exists>held. concat ds = concat (safe_deltas ms [] ds) @ held \<and> (held = [] \<or> (\<exists>m \<in> set ms. strict_prefix held m))"
    unfolding e by (intro exI [of _ "drop n (concat ds)"]) simp
qed

theorem markers_never_split_witness:
  "safe_deltas markers [] [''a<th'', ''ink>b''] = [''a'', ''<think>b''] \<and>
   \<not> (1 < length (concat (take 1 (safe_deltas markers [] [''a<th'', ''ink>b'']))) \<and>
      length (concat (take 1 (safe_deltas markers [] [''a<th'', ''ink>b'']))) < 1 + length think_open)"
proof -
  have "\<forall>m \<in> set markers. tag_like lt m" by (simp add: tag_like_def)
  from markers_never_split [OF this, of think_open 1 "[''a<th'', ''ink>b'']" 1]
  have "\<not> (1 < length (concat (take 1 (safe_deltas markers [] [''a<th'', ''ink>b'']))) \<and>
      length (concat (take 1 (safe_deltas markers [] [''a<th'', ''ink>b'']))) < 1 + length think_open)" by simp
  moreover have "safe_deltas markers [] [''a<th'', ''ink>b''] = [''a'', ''<think>b'']" by code_simp
  ultimately show ?thesis by blast
qed

text \<open>What is held back at the end of an answer lies behind its closing tag: no beginning of a tag ends a tag.\<close>

lemma held_behind:
  assumes "\<forall>m \<in> set ms. last h \<notin> set (butlast m)"
  shows "\<exists>k. safe_prefix ms (h @ c) = h @ take k c"
proof -
  let ?t = "h @ c"
  obtain n where n: "safe_prefix ms ?t = take n ?t"
    "n = length ?t \<or> (\<exists>m \<in> set ms. length ?t - n < length m \<and> drop n ?t = take (length ?t - n) m)"
    using safe_prefix_take [of ?t ms] by blast
  have "length h \<le> n"
  proof (rule ccontr)
    assume "\<not> length h \<le> n"
    then have less: "n < length h" by simp
    with n(2) obtain m where m: "m \<in> set ms" "length ?t - n < length m" "drop n ?t = take (length ?t - n) m" by auto
    have "last h \<in> set (drop n h)" using last_drop [OF less] last_in_set [of "drop n h"] less by simp
    then have "last h \<in> set (take (length ?t - n) m)" using less unfolding m(3) [symmetric] by simp
    moreover have "set (take (length ?t - n) m) \<subseteq> set (butlast m)"
      using m(2) set_take_subset_set_take [of "length ?t - n" "length m - 1" m] by (simp add: butlast_conv_take)
    ultimately show False using assms m(1) by blast
  qed
  then show ?thesis using n(1) by auto
qed

lemma held_in_content: "\<exists>k. safe_prefix markers (answer r c) = answer r (take k c)"
  using held_behind [of markers "think_open @ r @ think_close" c] by simp

text \<open>
  C34. The stream of an answer of one thought and its content says what the complete parse says of all it has
  released, however the text is cut: put together, the reasoning deltas are the thought and the content deltas the
  content of the text less the end that may be the beginning of a tag, up to white space around them, whatever the
  request said about the prompt.  The thought and the content hold no tag.
\<close>

theorem streaming_matches_complete:
  assumes "concat ds = think_open @ r @ think_close @ c" "plain r" "plain c"
  shows "extract_reasoning (qwen3_parser b x) (safe_prefix (reasoning_markers (qwen3_parser b x)) (concat ds))
    = (or_none (py_strip (concat (map reasoning_text (stream (qwen3_parser b x) [] ds)))),
       or_none (py_strip (concat (map content_text (stream (qwen3_parser b x) [] ds)))))"
proof -
  have "gathered r c (safe_prefix markers []) [] []" by (simp add: gathered_def)
  from gather_stream [OF assms(2,3) this, of ds b x]
  have g: "gathered r c (safe_prefix markers (answer r c)) (concat (map reasoning_text (stream (qwen3_parser b x) [] ds)))
      (concat (map content_text (stream (qwen3_parser b x) [] ds)))"
    using assms(1) by (simp del: append_Cons)
  obtain j where j: "safe_prefix markers (answer r c) = answer r (take j c)" using held_in_content by blast
  have n: "answer r (take j c) \<noteq> think_open @ take n r" for n
  proof
    assume "answer r (take j c) = think_open @ take n r"
    from arg_cong [OF this, of length] show False by simp
  qed
  from g [unfolded j] n obtain k where k: "answer r (take j c) = answer r (take k c)"
    "py_strip (concat (map reasoning_text (stream (qwen3_parser b x) [] ds))) = py_strip r"
    "concat (map content_text (stream (qwen3_parser b x) [] ds)) = py_lstrip (take k c)"
    using list.distinct(2) [of lt] unfolding gathered_def append_Cons by blast
  have e: "take k c = take j c" using k(1) by simp
  have p: "plain (take j c)" using plain_factor [of "[]" "take j c" "drop j c"] assms(3) by simp
  have "py_strip (py_lstrip (take j c)) = py_strip (take j c)" by (simp add: strip_lr py_lstrip_def)
  then show ?thesis
    using extract_answer [OF assms(2) p, of b x] k(2,3) unfolding qwen3_parser_sel assms(1) j e by (simp del: append_Cons)
qed

theorem streaming_matches_complete_witness:
  "stream (qwen3_parser True True) [] [''<thi'', ''nk>a '', ''< b</th'', ''ink>'', ''  no <'', ''/'']
     = [None, delta (Some ''a '') None, delta (Some ''< b'') None, None, delta None (Some ''no ''), None] \<and>
   safe_prefix markers ''<think>a < b</think>  no </'' = ''<think>a < b</think>  no '' \<and>
   extract_reasoning (qwen3_parser True True) ''<think>a < b</think>  no '' = (Some ''a < b'', Some ''no'')"
proof -
  let ?ds = "[''<thi'', ''nk>a '', ''< b</th'', ''ink>'', ''  no <'', ''/'']"
  have p: "plain ''a < b''" "plain ''  no </''" by code_simp+
  have s: "stream (qwen3_parser True True) [] ?ds
     = [None, delta (Some ''a '') None, delta (Some ''< b'') None, None, delta None (Some ''no ''), None]" by code_simp
  have h: "safe_prefix markers ''<think>a < b</think>  no </'' = ''<think>a < b</think>  no ''" by code_simp
  have c: "concat ?ds = ''<think>a < b</think>  no </''" by simp
  have "concat ?ds = think_open @ ''a < b'' @ think_close @ ''  no </''" by simp
  from streaming_matches_complete [OF this p, of True True] h show ?thesis
    unfolding s c qwen3_parser_sel by (simp add: or_none_def py_strip_def space_char_def)
qed

text \<open>
  The end that is held back is lost to the stream: when the text ends there, as \<open>a <\<close> may, the complete parse of
  the whole text has it and no delta does.
\<close>

lemma held_end_is_lost:
  "extract_reasoning (qwen3_parser False False) ''<think>r</think>a <'' = (Some ''r'', Some ''a <'') \<and>
   map content_text (stream (qwen3_parser False False) [] [''<think>r</think>a <'']) = [''a '']"
  by (intro conjI; code_simp)

text \<open>
  Text in front of the opening tag is kept by the complete parse, and by the stream when a delta ends before the
  tag, but a stream whose delta holds both loses it: \<open>_handle_explicit_think\<close> returns only what follows the tag.
\<close>

lemma opening_delta_loses_text:
  "extract_reasoning (qwen3_parser False False) ''Hi<think>r</think>c'' = (Some ''r'', Some ''Hic'') \<and>
   map content_text (stream (qwen3_parser False False) [] [''Hi'', ''<think>r</think>c'']) = [''Hi'', ''c''] \<and>
   map content_text (stream (qwen3_parser False False) [] [''Hi<think>r</think>c'']) = [''c'']"
  by (intro conjI; code_simp)

end
