(* ===== verification/Single_Generator.thy ===== *)
theory Single_Generator
  imports Prelude "HOL-Library.Sublist"
begin

text \<open>
  \<open>SingleBatchGenerator\<close> (\<open>vmlx_engine/utils/single_batch_generator.py\<close>): the generator the scheduler uses when it
  runs one request at a time, with the admission check of \<open>utils/prefill_admission.py\<close>.  A key/value cache is
  represented by the tokens it has been fed; the network and the sampler are the function \<open>fwd\<close> from the tokens fed
  to the token sampled next, the state machine of \<open>mlx_lm\<close> is \<open>mt\<close>, which also says whether a token ends the
  generation.  Streams, evaluation, tracing, log probabilities and snapshots are left out.
\<close>

section \<open>Prefill admission\<close>

text \<open>\<open>int(observed * 1.25)\<close> truncates; readings are non-negative byte counts.\<close>

definition project_chunk_peak_bytes :: "int \<Rightarrow> int \<Rightarrow> int \<Rightarrow> int" where
  "project_chunk_peak_bytes active observed margin = active + max (observed * 5 div 4) margin"

definition prefill_valve_check :: "int \<Rightarrow> int \<Rightarrow> int \<Rightarrow> int \<Rightarrow> bool" where
  "prefill_valve_check active max_ws observed margin \<longleftrightarrow>
     max_ws \<le> 0 \<or> active \<le> 0 \<or> project_chunk_peak_bytes active observed margin \<le> max_ws"

section \<open>Requests and the generator\<close>

record 'm gen_request =
  g_uid :: int
  g_prompt :: "int list"
  g_context :: "int list"
  g_cache :: "int list option"
  g_max :: int
  g_matcher :: 'm
  g_media :: bool
  g_processed :: bool
  g_output :: "int list"
  g_finish :: "string option"
  g_next :: "int option"

record gen_response =
  gr_uid :: int
  gr_token :: int
  gr_finish :: "string option"
  gr_cache :: "int list"
  gr_all_tokens :: "int list"

record 'm single_gen =
  sg_max_tokens :: int
  sg_stops :: "int set"
  sg_start :: 'm
  sg_step_size :: nat
  sg_uid_count :: int
  sg_unprocessed :: "'m gen_request list"
  sg_request :: "'m gen_request option"

text \<open>What the generator reads while it works: the model, the machine, the memory readings, the split width.\<close>

record 'm gen_env =
  ge_fwd :: "int list \<Rightarrow> int"
  ge_match :: "'m \<Rightarrow> int \<Rightarrow> 'm \<times> bool"
  ge_active :: "nat \<Rightarrow> int"
  ge_max_ws :: int
  ge_margin :: int
  ge_valve :: bool
  ge_tail :: nat
  ge_msa :: bool

definition new_generator :: "int \<Rightarrow> int set \<Rightarrow> 'm \<Rightarrow> nat \<Rightarrow> 'm single_gen" where
  "new_generator mx stops m step =
     \<lparr>sg_max_tokens = mx, sg_stops = stops, sg_start = m, sg_step_size = step, sg_uid_count = 0,
      sg_unprocessed = [], sg_request = None\<rparr>"

text \<open>A prompt with its output budget, the restored cache and the tokens that cache stands for, and whether it carries media.\<close>

record gen_input =
  gi_prompt :: "int list"
  gi_max :: int
  gi_cache :: "int list option"
  gi_context :: "int list"
  gi_media :: bool

definition enqueue :: "gen_input \<Rightarrow> 'm single_gen \<Rightarrow> 'm single_gen" where
  "enqueue x g =
     g\<lparr>sg_uid_count := sg_uid_count g + 1,
       sg_unprocessed := sg_unprocessed g @
         [\<lparr>g_uid = sg_uid_count g, g_prompt = gi_prompt x, g_context = gi_context x, g_cache = gi_cache x,
           g_max = gi_max x, g_matcher = sg_start g, g_media = gi_media x, g_processed = False, g_output = [], g_finish = None,
           g_next = None\<rparr>]\<rparr>"

text \<open>
  \<open>insert\<close>: more than one request at a time is a \<open>NotImplementedError\<close> (a \<open>RuntimeError\<close>), an empty prompt a
  \<open>ValueError\<close>; a budget is always given.
\<close>

fun insert_each :: "gen_input list \<Rightarrow> 'm single_gen \<Rightarrow> 'm single_gen \<times> int list may_raise" where
  "insert_each [] g = (g, Inr [])"
| "insert_each (x # xs) g =
     (if gi_prompt x = [] then (g, Inl ValueError)
      else case insert_each xs (enqueue x g) of
        (g1, Inl e) \<Rightarrow> (g1, Inl e)
      | (g1, Inr us) \<Rightarrow> (g1, Inr (sg_uid_count g # us)))"

definition sg_insert :: "gen_input list \<Rightarrow> 'm single_gen \<Rightarrow> 'm single_gen \<times> int list may_raise" where
  "sg_insert xs g =
     (if (if sg_request g = None then 0 else 1) + length (sg_unprocessed g) + length xs > 1 then (g, Inl RuntimeError)
      else insert_each xs g)"

definition cache_tokens :: "'m gen_request \<Rightarrow> int list" where
  "cache_tokens r = (case g_cache r of None \<Rightarrow> [] | Some c \<Rightarrow> c)"

text \<open>\<open>_model_call\<close> feeds the cache.\<close>

definition fed :: "int list \<Rightarrow> 'm gen_request \<Rightarrow> 'm gen_request" where
  "fed ts r = r\<lparr>g_cache := Some (cache_tokens r @ ts)\<rparr>"

text \<open>\<open>_prefill\<close>: chunk by chunk, each one admitted first; a refused chunk leaves the earlier ones
  fed.  The configured step size is positive.\<close>

function prefill :: "'m gen_env \<Rightarrow> nat \<Rightarrow> nat \<Rightarrow> int list \<Rightarrow> 'm gen_request \<Rightarrow> 'm gen_request \<times> unit may_raise" where
  "prefill e step pos ts r =
     (if pos \<ge> length ts \<or> step = 0 then (r, Inr ())
      else let n = min step (length ts - pos); chunk = take n (drop pos ts)
           in if ge_valve e \<and> \<not> prefill_valve_check (ge_active e pos) (ge_max_ws e) 0 (ge_margin e) then (r, Inl RuntimeError)
              else prefill e step (pos + n) ts ((fed chunk r)\<lparr>g_context := g_context r @ chunk\<rparr>))"
  by auto
termination
  by (relation "measure (\<lambda>(e, step, pos, ts, r). length ts - pos)") auto

declare prefill.simps [simp del]

text \<open>\<open>_compute_next_from_input\<close>: the token enters the cache, the next one is sampled.\<close>

definition compute_next :: "'m gen_env \<Rightarrow> int \<Rightarrow> 'm gen_request \<Rightarrow> 'm gen_request" where
  "compute_next e t r = (let r1 = fed [t] r in r1\<lparr>g_next := Some (ge_fwd e (cache_tokens r1))\<rparr>)"

definition finish_reason_after_token :: "'m gen_env \<Rightarrow> int set \<Rightarrow> 'm gen_request \<Rightarrow> int \<Rightarrow> 'm gen_request \<times> string option" where
  "finish_reason_after_token e stops r t =
     (let (m, halted) = ge_match e (g_matcher r) t
      in (r\<lparr>g_matcher := m\<rparr>,
          if t \<in> stops then Some ''stop'' else if halted then Some ''stop''
          else if int (length (g_output r)) \<ge> g_max r then Some ''length'' else None))"

text \<open>
  \<open>_yield_current_and_schedule_next\<close>: the next token is computed before the current one is looked at, unless the
  current one is the last the budget allows.
\<close>

definition yield_current :: "'m gen_env \<Rightarrow> 'm gen_request \<Rightarrow> 'm single_gen \<Rightarrow> 'm single_gen \<times> gen_response may_raise" where
  "yield_current e r g =
     (case g_next r of
        None \<Rightarrow> (g\<lparr>sg_request := Some r\<rparr>, Inl RuntimeError)
      | Some t \<Rightarrow>
          (let r1 = (if int (length (g_output r)) + 1 \<ge> g_max r then r\<lparr>g_next := None\<rparr> else compute_next e t r);
               r2 = r1\<lparr>g_output := g_output r1 @ [t], g_context := g_context r1 @ [t]\<rparr>;
               (r3, why) = finish_reason_after_token e (sg_stops g) r2 t;
               r4 = r3\<lparr>g_finish := why\<rparr>
           in (g\<lparr>sg_request := (if why = None then Some r4 else None)\<rparr>,
               Inr \<lparr>gr_uid = g_uid r4, gr_token = t, gr_finish = why, gr_cache = cache_tokens r4, gr_all_tokens = g_context r4\<rparr>)))"

text \<open>
  \<open>_prefill_full_and_sample\<close>, for prompts with media and for the MSA cache: the last chunk is sampled from directly;
  media prompts are one chunk.
\<close>

function full_chunks :: "nat \<Rightarrow> nat \<Rightarrow> int list \<Rightarrow> 'm gen_request \<Rightarrow> nat \<times> 'm gen_request" where
  "full_chunks step pos ts r =
     (if length ts - pos \<le> step \<or> step = 0 then (pos, r)
      else let n0 = min step (length ts - pos); n = (if length ts - (pos + n0) = 1 \<and> n0 > 1 then n0 - 1 else n0); chunk = take n (drop pos ts)
           in full_chunks step (pos + n) ts ((fed chunk r)\<lparr>g_context := g_context r @ chunk\<rparr>))"
  by auto
termination
  by (relation "measure (\<lambda>(step, pos, ts, r). length ts - pos)") auto

declare full_chunks.simps [simp del]

definition prefill_full_and_sample :: "'m gen_env \<Rightarrow> nat \<Rightarrow> 'm gen_request \<Rightarrow> 'm gen_request" where
  "prefill_full_and_sample e step r =
     (let ts = g_prompt r; size = (if g_media r then length ts else max 1 step);
          (pos, r1) = full_chunks size 0 ts r; final = drop pos ts; r2 = fed final r1
      in r2\<lparr>g_next := Some (ge_fwd e (cache_tokens r2)), g_context := g_context r2 @ final\<rparr>)"

text \<open>All of the prompt but its last token, in two parts when the tail is computed by itself.\<close>

definition prefill_cold :: "'m gen_env \<Rightarrow> nat \<Rightarrow> 'm gen_request \<Rightarrow> 'm gen_request \<times> unit may_raise" where
  "prefill_cold e step r =
     (let cold = butlast (g_prompt r); tail = ge_tail e
      in if length (g_prompt r) > 1 then
           (if tail > 0 \<and> length cold > tail then
              (case prefill e step 0 (take (length cold - tail) cold) r of
                 (r1, Inl x) \<Rightarrow> (r1, Inl x)
               | (r1, Inr u) \<Rightarrow> prefill e step 0 (drop (length cold - tail) cold) r1)
            else prefill e step 0 cold r)
         else (r, Inr ()))"

definition start_request :: "'m gen_env \<Rightarrow> 'm gen_request \<Rightarrow> 'm single_gen \<Rightarrow> 'm single_gen \<times> gen_response may_raise" where
  "start_request e r g =
     (let r0 = r\<lparr>g_cache := Some (cache_tokens r)\<rparr>
      in if g_media r0 \<or> ge_msa e then
           yield_current e (prefill_full_and_sample e (sg_step_size g) (r0\<lparr>g_processed := True\<rparr>)) g
         else case prefill_cold e (sg_step_size g) r0 of
           (r1, Inl x) \<Rightarrow> (g\<lparr>sg_request := Some r1\<rparr>, Inl x)
         | (r1, Inr u) \<Rightarrow>
             (let t = last (g_prompt r1); r2 = compute_next e t (r1\<lparr>g_processed := True\<rparr>)
              in yield_current e (r2\<lparr>g_context := g_context r2 @ [t]\<rparr>) g))"

text \<open>\<open>next\<close>: the responses of a prompt that was started, and of one decode step.\<close>

definition sg_next :: "'m gen_env \<Rightarrow> 'm single_gen \<Rightarrow> 'm single_gen \<times> (gen_response list \<times> gen_response list) may_raise" where
  "sg_next e g =
     (case (sg_request g, sg_unprocessed g) of
        (None, r # rest) \<Rightarrow>
          (case start_request e r (g\<lparr>sg_unprocessed := rest, sg_request := Some r\<rparr>) of
             (g1, Inl x) \<Rightarrow> (g1, Inl x) | (g1, Inr a) \<Rightarrow> (g1, Inr ([a], [])))
      | (None, []) \<Rightarrow> (g, Inr ([], []))
      | (Some r, _) \<Rightarrow>
          (case yield_current e r g of (g1, Inl x) \<Rightarrow> (g1, Inl x) | (g1, Inr a) \<Rightarrow> (g1, Inr ([], [a]))))"

definition find_request :: "'m single_gen \<Rightarrow> int \<Rightarrow> 'm gen_request option" where
  "find_request g u =
     (case sg_request g of
        Some r \<Rightarrow> if g_uid r = u then Some r else find (\<lambda>r. g_uid r = u) (sg_unprocessed g)
      | None \<Rightarrow> find (\<lambda>r. g_uid r = u) (sg_unprocessed g))"

definition extract_cache :: "'m single_gen \<Rightarrow> int list \<Rightarrow> (int, int list option \<times> int list) pydict" where
  "extract_cache g us = concat (map (\<lambda>u. case find_request g u of None \<Rightarrow> [] | Some r \<Rightarrow> [(u, (g_cache r, g_context r))]) us)"

definition sg_remove :: "int list \<Rightarrow> 'm single_gen \<Rightarrow> 'm single_gen" where
  "sg_remove us g =
     g\<lparr>sg_request := (case sg_request g of None \<Rightarrow> None | Some r \<Rightarrow> if g_uid r \<in> set us then None else Some r),
       sg_unprocessed := filter (\<lambda>r. g_uid r \<notin> set us) (sg_unprocessed g)\<rparr>"


section \<open>What is generated\<close>

text \<open>
  The specification, without a cache and without looking ahead: the model continues the text token by token until a
  stop token, the machine or the budget ends it.
\<close>

definition ends_with :: "int set \<Rightarrow> int \<Rightarrow> nat \<Rightarrow> int \<Rightarrow> bool \<Rightarrow> string option" where
  "ends_with stops mx n t halted =
     (if t \<in> stops then Some ''stop'' else if halted then Some ''stop'' else if int n + 1 \<ge> mx then Some ''length'' else None)"

function continuation :: "'m gen_env \<Rightarrow> int set \<Rightarrow> int \<Rightarrow> 'm \<Rightarrow> nat \<Rightarrow> int list \<Rightarrow> (int \<times> string option) list" where
  "continuation e stops mx m n ctx =
     (let t = ge_fwd e ctx; why = ends_with stops mx n t (snd (ge_match e m t))
      in (t, why) # (if why = None then continuation e stops mx (fst (ge_match e m t)) (Suc n) (ctx @ [t]) else []))"
  by auto
termination
  by (relation "measure (\<lambda>(e, stops, mx, m, n, ctx). nat (mx - int n))") (auto simp: ends_with_def split: if_splits)

declare continuation.simps [simp del]

text \<open>A run: \<open>next\<close> again and again, and the tokens it hands out.\<close>

fun run_next :: "'m gen_env \<Rightarrow> nat \<Rightarrow> 'm single_gen \<Rightarrow> gen_response list may_raise \<times> 'm single_gen" where
  "run_next e 0 g = (Inr [], g)"
| "run_next e (Suc k) g =
     (case sg_next e g of
        (g1, Inl x) \<Rightarrow> (Inl x, g1)
      | (g1, Inr (a, b)) \<Rightarrow>
          (case run_next e k g1 of (Inl x, g2) \<Rightarrow> (Inl x, g2) | (Inr rest, g2) \<Rightarrow> (Inr (a @ b @ rest), g2)))"

definition tokens_of :: "gen_response list may_raise \<Rightarrow> (int \<times> string option) list may_raise" where
  "tokens_of x = map_sum id (map (\<lambda>r. (gr_token r, gr_finish r))) x"

definition ready :: "'m gen_env \<Rightarrow> int list \<Rightarrow> nat \<Rightarrow> 'm gen_request \<Rightarrow> bool" where
  "ready e ctx n r \<longleftrightarrow> cache_tokens r = ctx \<and> g_next r = Some (ge_fwd e ctx) \<and> length (g_output r) = n"

lemma fed_simps [simp]:
  "cache_tokens (fed ts r) = cache_tokens r @ ts" "g_output (fed ts r) = g_output r" "g_max (fed ts r) = g_max r"
  "g_matcher (fed ts r) = g_matcher r" "g_prompt (fed ts r) = g_prompt r" "g_uid (fed ts r) = g_uid r" "g_next (fed ts r) = g_next r"
  "g_media (fed ts r) = g_media r"
  by (simp_all add: fed_def cache_tokens_def)

lemma cache_tokens_upd [simp]:
  "cache_tokens (r\<lparr>g_context := c\<rparr>) = cache_tokens r" "cache_tokens (r\<lparr>g_next := x\<rparr>) = cache_tokens r"
  "cache_tokens (r\<lparr>g_output := os\<rparr>) = cache_tokens r" "cache_tokens (r\<lparr>g_matcher := m\<rparr>) = cache_tokens r"
  "cache_tokens (r\<lparr>g_finish := f\<rparr>) = cache_tokens r" "cache_tokens (r\<lparr>g_processed := b\<rparr>) = cache_tokens r"
  "cache_tokens (r\<lparr>g_cache := Some c\<rparr>) = c"
  by (simp_all add: cache_tokens_def)

lemma compute_next_simps [simp]:
  "cache_tokens (compute_next e t r) = cache_tokens r @ [t]" "g_next (compute_next e t r) = Some (ge_fwd e (cache_tokens r @ [t]))"
  "g_output (compute_next e t r) = g_output r" "g_max (compute_next e t r) = g_max r" "g_matcher (compute_next e t r) = g_matcher r"
  "g_uid (compute_next e t r) = g_uid r" "g_prompt (compute_next e t r) = g_prompt r"
  by (simp_all add: compute_next_def)

text \<open>One step of a ready request.\<close>

lemma yield_ready:
  fixes g :: "'m single_gen"
  assumes "ready e ctx n r"
  defines "t \<equiv> ge_fwd e ctx"
  defines "why \<equiv> ends_with (sg_stops g) (g_max r) n t (snd (ge_match e (g_matcher r) t))"
  shows "\<exists>r1 a. yield_current e r g = (g\<lparr>sg_request := (if why = None then Some r1 else None)\<rparr>, Inr a) \<and>
    gr_token a = t \<and> gr_finish a = why \<and> gr_uid a = g_uid r \<and>
    (why = None \<longrightarrow> ready e (ctx @ [t]) (Suc n) r1 \<and> g_matcher r1 = fst (ge_match e (g_matcher r) t) \<and> g_max r1 = g_max r)"
proof -
  obtain m h where m: "ge_match e (g_matcher r) t = (m, h)" by (cases "ge_match e (g_matcher r) t")
  have r: "g_next r = Some t" "cache_tokens r = ctx" "length (g_output r) = n" using assms(1) by (simp_all add: ready_def t_def)
  show ?thesis
    unfolding yield_current_def r option.case Let_def finish_reason_after_token_def
    using m r by (auto simp: why_def ends_with_def ready_def t_def)
qed

lemma run_ready:
  "ready e ctx n r \<Longrightarrow> sg_request g = Some r \<Longrightarrow>
   let xs = continuation e (sg_stops g) (g_max r) (g_matcher r) n ctx; (out, g1) = run_next e (length xs) g
   in tokens_of out = Inr xs \<and> g1 = g\<lparr>sg_request := None\<rparr>"
proof (induction e "sg_stops g" "g_max r" "g_matcher r" n ctx arbitrary: g r rule: continuation.induct)
  case (1 e n ctx g r)
  let ?t = "ge_fwd e ctx"
  let ?why = "ends_with (sg_stops g) (g_max r) n ?t (snd (ge_match e (g_matcher r) ?t))"
  let ?rest = "if ?why = None then continuation e (sg_stops g) (g_max r) (fst (ge_match e (g_matcher r) ?t)) (Suc n) (ctx @ [?t]) else []"
  have xs: "continuation e (sg_stops g) (g_max r) (g_matcher r) n ctx = (?t, ?why) # ?rest"
    by (subst continuation.simps) (simp add: Let_def)
  obtain r1 a where y0: "yield_current e r g = (g\<lparr>sg_request := (if ?why = None then Some r1 else None)\<rparr>, Inr a) \<and>
    gr_token a = ?t \<and> gr_finish a = ?why \<and> gr_uid a = g_uid r \<and>
    (?why = None \<longrightarrow> ready e (ctx @ [?t]) (Suc n) r1 \<and> g_matcher r1 = fst (ge_match e (g_matcher r) ?t) \<and> g_max r1 = g_max r)"
    using yield_ready [OF 1(2), of g] by (elim exE)
  note y = y0 [THEN conjunct1] y0 [THEN conjunct2, THEN conjunct1] y0 [THEN conjunct2, THEN conjunct2, THEN conjunct1]
    y0 [THEN conjunct2, THEN conjunct2, THEN conjunct2, THEN conjunct2]
  have nx: "sg_next e g = (g\<lparr>sg_request := (if ?why = None then Some r1 else None)\<rparr>, Inr ([], [a]))"
    using 1(3) y(1) by (simp add: sg_next_def)
  show ?case
  proof (cases "?why = None")
    case False
    then obtain f where f: "?why = Some f" by auto
    show ?thesis unfolding xs using nx y(2,3) by (simp add: tokens_of_def f)
  next
    case True
    let ?g = "g\<lparr>sg_request := Some r1\<rparr>"
    obtain out g1 where rn: "run_next e (length ?rest) ?g = (out, g1)" by fastforce
    have "tokens_of out = Inr ?rest \<and> g1 = ?g\<lparr>sg_request := None\<rparr>"
      using 1(1) [OF refl refl True, of ?g r1] y(4) True rn by (simp add: Let_def)
    then show ?thesis using xs nx y(2,3) True rn by (cases out) (auto simp: tokens_of_def Let_def)
  qed
qed

text \<open>The prefill feeds the prompt, in whatever pieces.\<close>

definition same_request :: "'m gen_request \<Rightarrow> 'm gen_request \<Rightarrow> bool" where
  "same_request r r1 \<longleftrightarrow> g_output r1 = g_output r \<and> g_max r1 = g_max r \<and> g_matcher r1 = g_matcher r \<and> g_prompt r1 = g_prompt r \<and>
     g_uid r1 = g_uid r \<and> g_media r1 = g_media r"

definition admits :: "'m gen_env \<Rightarrow> bool" where
  "admits e \<longleftrightarrow> ge_valve e \<longrightarrow> (\<forall>pos. prefill_valve_check (ge_active e pos) (ge_max_ws e) 0 (ge_margin e))"

lemma prefill_feeds:
  "admits e \<Longrightarrow> step > 0 \<Longrightarrow>
   \<exists>r1. prefill e step pos ts r = (r1, Inr ()) \<and> cache_tokens r1 = cache_tokens r @ drop pos ts \<and> same_request r r1"
proof (induction e step pos ts r rule: prefill.induct)
  case (1 e step pos ts r)
  show ?case
  proof (cases "pos \<ge> length ts")
    case True
    then show ?thesis by (simp add: prefill.simps [of e step pos] same_request_def)
  next
    case False
    let ?n = "min step (length ts - pos)"
    let ?c = "take ?n (drop pos ts)"
    have v: "\<not> (ge_valve e \<and> \<not> prefill_valve_check (ge_active e pos) (ge_max_ws e) 0 (ge_margin e))"
      using 1(2) by (auto simp: admits_def)
    have c: "\<not> (pos \<ge> length ts \<or> step = 0)" using False 1(3) by simp
    from 1(1) [OF c refl refl v 1(2,3)] obtain r1 where
      r1: "prefill e step (pos + ?n) ts ((fed ?c r)\<lparr>g_context := g_context r @ ?c\<rparr>) = (r1, Inr ())"
      "cache_tokens r1 = cache_tokens r @ ?c @ drop (pos + ?n) ts" "same_request r r1" by (auto simp: same_request_def)
    have "?c @ drop (pos + ?n) ts = drop pos ts" using append_take_drop_id [of ?n "drop pos ts"] by (simp add: add.commute)
    then show ?thesis using r1 c v by (auto simp: prefill.simps [of e step pos] Let_def)
  qed
qed

lemma full_chunks_feed:
  "step > 0 \<Longrightarrow> full_chunks step pos ts r = (p, r1) \<Longrightarrow> cache_tokens r1 @ drop p ts = cache_tokens r @ drop pos ts \<and> same_request r r1"
proof (induction step pos ts r arbitrary: p r1 rule: full_chunks.induct)
  case (1 step pos ts r)
  show ?case
  proof (cases "length ts - pos \<le> step")
    case True
    then show ?thesis using 1(3) by (auto simp: full_chunks.simps [of step pos] same_request_def)
  next
    case False
    define n where "n = (let n0 = min step (length ts - pos) in if length ts - (pos + n0) = 1 \<and> n0 > 1 then n0 - 1 else n0)"
    let ?r = "(fed (take n (drop pos ts)) r)\<lparr>g_context := g_context r @ take n (drop pos ts)\<rparr>"
    have c: "\<not> (length ts - pos \<le> step \<or> step = 0)" using False 1(2) by simp
    have f: "full_chunks step (pos + n) ts ?r = (p, r1)"
      using 1(3) unfolding full_chunks.simps [of step pos ts r] if_not_P [OF c] Let_def n_def .
    have j: "take n (drop pos ts) @ drop (pos + n) ts = drop pos ts"
      using append_take_drop_id [of n "drop pos ts"] by (simp add: add.commute)
    have "cache_tokens r1 @ drop p ts = cache_tokens ?r @ drop (pos + n) ts \<and> same_request ?r r1"
      by (rule 1(1) [OF c refl _ refl 1(2) f]) (simp add: n_def Let_def)
    then show ?thesis using j by (simp add: same_request_def)
  qed
qed

lemma prefill_cold_feeds:
  assumes "admits e" "step > 0"
  shows "\<exists>r1. prefill_cold e step r = (r1, Inr ()) \<and> cache_tokens r1 = cache_tokens r @ butlast (g_prompt r) \<and> same_request r r1"
proof -
  define cold where "cold = butlast (g_prompt r)"
  define k where "k = length cold - ge_tail e"
  consider "length (g_prompt r) \<le> 1" | "length (g_prompt r) > 1" "ge_tail e > 0 \<and> length cold > ge_tail e"
    | "length (g_prompt r) > 1" "\<not> (ge_tail e > 0 \<and> length cold > ge_tail e)" by linarith
  then show ?thesis
  proof cases
    case 1
    then show ?thesis by (cases "g_prompt r") (auto simp: prefill_cold_def same_request_def)
  next
    case 2
    obtain r1 where r1: "prefill e step 0 (take k cold) r = (r1, Inr ())"
      "cache_tokens r1 = cache_tokens r @ take k cold" "same_request r r1"
      using prefill_feeds [OF assms, of 0 "take k cold" r] by auto
    obtain r2 where r2: "prefill e step 0 (drop k cold) r1 = (r2, Inr ())"
      "cache_tokens r2 = cache_tokens r1 @ drop k cold" "same_request r1 r2"
      using prefill_feeds [OF assms, of 0 "drop k cold" r1] by auto
    have "prefill_cold e step r = (r2, Inr ())"
      using 2 r1(1) r2(1) unfolding prefill_cold_def Let_def cold_def [symmetric] k_def by simp
    then show ?thesis using r1(2,3) r2(2,3) by (auto simp: same_request_def cold_def)
  next
    case 3
    have "prefill_cold e step r = prefill e step 0 cold r"
      using 3 unfolding prefill_cold_def Let_def cold_def [symmetric] by auto
    then show ?thesis using prefill_feeds [OF assms, of 0 cold r] by (auto simp: cold_def)
  qed
qed

lemma start_ready:
  assumes "admits e" "sg_step_size g > 0" "g_prompt r \<noteq> []" "g_output r = []"
  shows "\<exists>r1. start_request e r g = yield_current e r1 g \<and> ready e (cache_tokens r @ g_prompt r) 0 r1 \<and>
    g_max r1 = g_max r \<and> g_matcher r1 = g_matcher r \<and> g_uid r1 = g_uid r"
proof (cases "g_media r \<or> ge_msa e")
  case True
  let ?r0 = "r\<lparr>g_cache := Some (cache_tokens r), g_processed := True\<rparr>"
  let ?size = "if g_media r then length (g_prompt r) else max 1 (sg_step_size g)"
  obtain p r1 where f: "full_chunks ?size 0 (g_prompt r) ?r0 = (p, r1)" by fastforce
  have "?size > 0" using assms(3) by (simp add: less_max_iff_disj)
  from full_chunks_feed [OF this f] have r1: "cache_tokens r1 @ drop p (g_prompt r) = cache_tokens r @ g_prompt r" "same_request r r1"
    by (auto simp: same_request_def)
  show ?thesis
    using True f r1 assms(4)
    by (intro exI [of _ "prefill_full_and_sample e (sg_step_size g) ?r0"])
      (auto simp: start_request_def Let_def prefill_full_and_sample_def ready_def same_request_def)
next
  case False
  let ?r0 = "r\<lparr>g_cache := Some (cache_tokens r)\<rparr>"
  obtain r1 where r1: "prefill_cold e (sg_step_size g) ?r0 = (r1, Inr ())"
    "cache_tokens r1 = cache_tokens r @ butlast (g_prompt r)" "same_request ?r0 r1"
    using prefill_cold_feeds [OF assms(1,2), of ?r0] by auto
  let ?t = "last (g_prompt r1)"
  let ?r2 = "compute_next e ?t (r1\<lparr>g_processed := True\<rparr>)"
  have whole: "cache_tokens r1 @ [?t] = cache_tokens r @ g_prompt r" using r1(2,3) assms(3) by (simp add: same_request_def)
  have "start_request e r g = yield_current e (?r2\<lparr>g_context := g_context ?r2 @ [?t]\<rparr>) g"
    using False r1(1) by (simp add: start_request_def Let_def)
  then show ?thesis
    using r1(3) whole assms(4)
    by (intro exI [of _ "?r2\<lparr>g_context := g_context ?r2 @ [?t]\<rparr>"]) (auto simp: ready_def same_request_def)
qed

section \<open>Properties\<close>

lemma new_generator_sel [simp]:
  "sg_max_tokens (new_generator mx st m k) = mx" "sg_stops (new_generator mx st m k) = st" "sg_start (new_generator mx st m k) = m"
  "sg_step_size (new_generator mx st m k) = k" "sg_uid_count (new_generator mx st m k) = 0"
  "sg_unprocessed (new_generator mx st m k) = []" "sg_request (new_generator mx st m k) = None"
  by (simp_all add: new_generator_def)

lemma insert_one: "sg_request g = None \<Longrightarrow> sg_unprocessed g = [] \<Longrightarrow> gi_prompt x \<noteq> [] \<Longrightarrow>
    sg_insert [x] g = (enqueue x g, Inr [sg_uid_count g])"
  by (simp add: sg_insert_def)

text \<open>
  C8. An idle generator given a prompt, with or without a restored cache, generates exactly the model's continuation of
  the text the cache stands for followed by the prompt: no token is lost to the one-token lookahead or to the chunks
  of the prefill, the last token alone carries a finish reason, and the generator is idle again, in one call of
  \<open>next\<close> per token.
\<close>

theorem generator_continues_the_text:
  assumes "sg_request g = None" "sg_unprocessed g = []" "gi_prompt x \<noteq> []" "admits e" "0 < sg_step_size g"
  shows "let ctx = (case gi_cache x of None \<Rightarrow> [] | Some c \<Rightarrow> c) @ gi_prompt x;
             expected = continuation e (sg_stops g) (gi_max x) (sg_start g) 0 ctx;
             (g1, uids) = sg_insert [x] g;
             (out, g2) = run_next e (length expected) g1
         in uids = Inr [sg_uid_count g] \<and> tokens_of out = Inr expected \<and> sg_request g2 = None \<and> sg_unprocessed g2 = []"
proof -
  define ctx where "ctx = (case gi_cache x of None \<Rightarrow> [] | Some c \<Rightarrow> c) @ gi_prompt x"
  define G where "G = enqueue x g"
  obtain r0 where q: "sg_unprocessed G = [r0]" "sg_request G = None" "g_prompt r0 = gi_prompt x" "g_output r0 = []" "g_max r0 = gi_max x"
    "g_matcher r0 = sg_start g" "cache_tokens r0 @ g_prompt r0 = ctx"
    using assms(1,2) by (simp add: G_def enqueue_def cache_tokens_def ctx_def)
  have G: "sg_stops G = sg_stops g" "sg_step_size G = sg_step_size g" by (simp_all add: G_def enqueue_def)
  let ?g = "G\<lparr>sg_unprocessed := [], sg_request := Some r0\<rparr>"
  obtain r1 where r1: "start_request e r0 ?g = yield_current e r1 ?g" "ready e ctx 0 r1" "g_max r1 = gi_max x" "g_matcher r1 = sg_start g"
    using start_ready [OF assms(4), of ?g r0] assms(3,5) q G by auto
  let ?g1 = "?g\<lparr>sg_request := Some r1\<rparr>"
  have y: "yield_current e r1 ?g = yield_current e r1 ?g1" by (simp add: yield_current_def Let_def split: option.split prod.split)
  have first: "sg_next e G = map_prod id (map_sum id (\<lambda>a. ([a], []))) (yield_current e r1 ?g1)"
    unfolding sg_next_def q(1,2) y [symmetric] r1(1) [symmetric] by (auto split: prod.split sum.split)
  have second: "sg_next e ?g1 = map_prod id (map_sum id (\<lambda>a. ([], [a]))) (yield_current e r1 ?g1)"
    unfolding sg_next_def by (auto split: prod.split sum.split)
  have same: "run_next e (Suc k) G = run_next e (Suc k) ?g1" for k
    unfolding run_next.simps first second
    by (cases "yield_current e r1 ?g1"; cases "snd (yield_current e r1 ?g1)") (auto split: prod.split sum.split)
  let ?xs = "continuation e (sg_stops g) (gi_max x) (sg_start g) 0 ctx"
  have "?xs \<noteq> []" by (subst continuation.simps) (simp add: Let_def)
  then obtain k where k: "length ?xs = Suc k" by (cases ?xs) auto
  obtain out g2 where out: "run_next e (length ?xs) ?g1 = (out, g2)" by fastforce
  have "tokens_of out = Inr ?xs \<and> g2 = ?g1\<lparr>sg_request := None\<rparr>"
    using run_ready [OF r1(2), of ?g1] r1(3,4) G out by (simp add: Let_def)
  then show ?thesis
    using insert_one [OF assms(1-3)] out same [of k] k unfolding ctx_def [symmetric] G_def [symmetric] by (simp add: Let_def)
qed

definition demo_gen_env :: "unit gen_env" where
  "demo_gen_env = \<lparr>ge_fwd = (\<lambda>ts. int (length ts)), ge_match = (\<lambda>m t. (m, False)), ge_active = (\<lambda>_. 1), ge_max_ws = 10,
     ge_margin = 2, ge_valve = True, ge_tail = 1, ge_msa = False\<rparr>"

theorem generator_continues_the_text_witness:
  "let g = new_generator 128 {6} () 2;
       (g1, uids) = sg_insert [\<lparr>gi_prompt = [9, 9, 9], gi_max = 5, gi_cache = Some [9], gi_context = [9], gi_media = False\<rparr>] g;
       (out, g2) = run_next demo_gen_env 3 g1
   in tokens_of out = Inr [(4, None), (5, None), (6, Some ''stop'')] \<and> sg_request g2 = None"
proof -
  let ?g = "new_generator 128 {6} () 2"
  let ?x = "\<lparr>gi_prompt = [9, 9, 9], gi_max = 5, gi_cache = Some [9], gi_context = [9], gi_media = False\<rparr>"
  have c: "continuation demo_gen_env {6} 5 () 0 [9, 9, 9, 9] = [(4, None), (5, None), (6, Some ''stop'')]"
    by (simp add: continuation.simps demo_gen_env_def ends_with_def Let_def)
  have a: "admits demo_gen_env" by (simp add: admits_def demo_gen_env_def prefill_valve_check_def project_chunk_peak_bytes_def)
  show ?thesis
    using generator_continues_the_text [of ?g ?x demo_gen_env] c a by (simp add: Let_def case_prod_unfold numeral_3_eq_3 del: run_next.simps)
qed

end
