(* ===== verification/Sched_State.thy ===== *)
theory Sched_State
  imports Requests Context_Limits Prompt_Lookup Sequence_Machine Reasoning_Markers Single_Generator
begin

text \<open>
  The scheduler of \<open>vmlx_engine/scheduler.py\<close>: its state, the admission of a request, aborts and their deferred half,
  idle tasks and resets.  Request objects live in a store of objects, since \<open>requests\<close>, \<open>waiting\<close> and \<open>running\<close>
  share them; \<open>self.batch_generator\<close> and the prompt caches are abstract states, \<open>'g\<close> and \<open>'c\<close>, with the calls the
  scheduler makes on them as the functions of the environment.  Logging, timing, telemetry and the Metal allocator's
  cache are left out.
\<close>

section \<open>Errors of a generation step\<close>

text \<open>The names of the exception's classes (\<open>type(e).__mro__\<close>) and \<open>str(e)\<close>.\<close>

record gen_error =
  er_classes :: "string list"
  er_text :: string

definition classify_allocation_error :: "gen_error \<Rightarrow> string option" where
  "classify_allocation_error e =
     (let text = py_lower (er_text e)
      in if text = [] then None
         else if list_ex (py_contains text) [''greater than the maximum allowed buffer size'', ''maximum allowed buffer size''] then Some ''permanent''
         else if ''PrefillAdmissionError'' \<in> set (er_classes e) then Some ''permanent''
         else if list_ex (py_contains text) [''out of memory'', ''cannot allocate memory'', ''allocation failed'', ''insufficient memory'']
           then Some ''transient''
         else if py_contains text ''[metal::malloc]'' then Some ''transient''
         else None)"

definition is_permanent_allocation_error :: "gen_error \<Rightarrow> bool" where
  "is_permanent_allocation_error e \<longleftrightarrow> classify_allocation_error e = Some ''permanent''"

definition cache_corruption_patterns :: "string list" where
  "cache_corruption_patterns =
     [[CHR 0x27] @ ''NoneType'' @ [CHR 0x27] @ '' object is not subscriptable'', ''BatchKVCache'', ''cache_data'', ''cache corruption'',
      ''cache mismatch'', ''dimension mismatch'', ''shape mismatch'', ''cannot merge'', ''cannot extract'',
      ''MTLCommandBuffer'', ''MTLDevice'', ''out of memory'', ''Cannot allocate memory'', ''Allocation failed'']"

definition is_cache_corruption_error :: "gen_error \<Rightarrow> bool" where
  "is_cache_corruption_error e \<longleftrightarrow>
     (if is_permanent_allocation_error e then False else list_ex (py_contains (er_text e)) cache_corruption_patterns)"

text \<open>The decision of \<open>step\<close> whether to clear the caches and try again.\<close>

definition is_cache_error :: "gen_error \<Rightarrow> bool" where
  "is_cache_error e \<longleftrightarrow>
     (if list_ex (\<lambda>c. c \<in> set (er_classes e)) [''DSV4PrefillMemoryError'', ''PrefillAdmissionError''] then False
      else is_cache_corruption_error e \<or> list_ex (\<lambda>c. c \<in> set (er_classes e)) [''IndexError'', ''TypeError''])"

section \<open>State\<close>

text \<open>
  A request object with the attributes the scheduler adds: \<open>_added_stop_tokens\<close>, \<open>_max_prompt_tokens\<close>,
  \<open>_encode_add_special_tokens\<close>, \<open>_sm_state\<close>.
\<close>

record sched_request =
  rq :: request
  rq_added_stops :: "int set option"
  rq_max_prompt :: int
  rq_add_special :: "bool option"
  rq_machine :: "run_state option"

record ('g, 'c) scheduler =
  sc_objs :: "nat \<Rightarrow> sched_request"
  sc_next_obj :: nat
  sc_requests :: "(string, nat) pydict"
  sc_waiting :: "nat list"
  sc_running :: "(string, nat) pydict"
  sc_finished_ids :: "string set"
  sc_uid_of :: "(string, int) pydict"
  sc_rid_of :: "(int, string) pydict"
  sc_pending_aborts :: "string list"
  sc_salvage :: "(string, nat) pydict"
  sc_detok :: "(string, int list) pydict"
  sc_gen :: "'g option"
  sc_gen_stops :: "int set"
  sc_sampler_params :: "(real \<times> real \<times> real \<times> int \<times> real) option"
  sc_stop_tokens :: "int set"
  sc_max_num_seqs :: int
  sc_paged :: bool
  sc_cache :: 'c
  sc_limits :: limits_state
  sc_machine :: "machine option"
  sc_pld_spec :: bool
  sc_pld_auto :: bool
  sc_pld_num_drafts :: nat
  sc_pld_max_temp :: real
  sc_pld_pending :: "(string, int list \<times> int \<times> int) pydict"
  sc_pld_index :: "(string, ngram_index) pydict"
  sc_pld_stats :: prompt_lookup_stats
  sc_pld_window :: int
  sc_idle :: "(string \<times> nat) list"
  sc_admitting :: "string set"
  sc_total_prompt :: int
  sc_total_completion :: int
  sc_processed :: int

text \<open>
  What the scheduler calls: the tokenizer and its incremental detokenizer, the environment variables and number
  parser of the context clamp, the generator, and the prompt caches.
\<close>

record prefix_hit =
  ph_cache :: "nat option"
  ph_cached :: int
  ph_remaining :: "int list option"

record ('g, 'c) sched_env =
  se_encode :: "string \<Rightarrow> bool option \<Rightarrow> int list"
  se_detok :: "int list \<Rightarrow> string"
  se_detok_final :: "int list \<Rightarrow> string"
  se_logprob :: "gen_response \<Rightarrow> real option"
  se_parse :: "string \<Rightarrow> int option"
  se_environ :: "string \<Rightarrow> string option"
  se_dsv4_max :: int
  se_create :: "sampling_params \<Rightarrow> int set \<Rightarrow> 'g option"
  se_shares_stops :: "'g \<Rightarrow> bool"
  se_releases :: "'g \<Rightarrow> bool"
  se_insert :: "'g \<Rightarrow> request \<Rightarrow> int list \<Rightarrow> int \<Rightarrow> nat option \<Rightarrow> 'g \<times> (gen_error + int list)"
  se_next :: "'g \<Rightarrow> int set \<Rightarrow> 'g \<times> (gen_error + gen_response list \<times> gen_response list)"
  se_remove :: "'g \<Rightarrow> int \<Rightarrow> 'g"
  se_tight :: "'g option \<Rightarrow> bool"
  se_active_batch :: "'g \<Rightarrow> bool"
  se_forward :: "'g \<Rightarrow> int \<Rightarrow> int option"
  se_take :: "'g \<Rightarrow> int \<Rightarrow> 'g \<times> nat option"
  se_predict :: "nat \<Rightarrow> int list \<Rightarrow> int list option"
  se_plausible :: "'g \<Rightarrow> int \<Rightarrow> int \<Rightarrow> bool"
  se_draw :: "'g \<Rightarrow> int \<Rightarrow> nat \<Rightarrow> int list \<Rightarrow> (nat \<times> int \<times> int) option"
  se_hybrid :: "nat \<Rightarrow> bool"
  se_trim :: "nat \<Rightarrow> nat \<Rightarrow> nat"
  se_reinsert :: "'g \<Rightarrow> int \<Rightarrow> int \<Rightarrow> nat option \<Rightarrow> 'g \<times> int list option"
  se_lookup :: "'c \<Rightarrow> request \<Rightarrow> 'c \<times> prefix_hit option"
  se_hydrate :: "'c \<Rightarrow> request \<Rightarrow> 'c \<times> prefix_hit option"
  se_release :: "'c \<Rightarrow> string \<Rightarrow> 'c"
  se_forget :: "'c \<Rightarrow> string \<Rightarrow> 'c"
  se_salvage :: "'g \<Rightarrow> int \<Rightarrow> request \<Rightarrow> 'c \<Rightarrow> 'c"
  se_store :: "'c \<Rightarrow> request \<Rightarrow> 'c"
  se_clear :: "'c \<Rightarrow> 'c"
  se_recreated :: "'c \<Rightarrow> 'c \<times> bool"

text \<open>The fields of \<open>Scheduler.__init__\<close> that are state here: the model's stop tokens and configuration are given.\<close>

definition new_scheduler :: "int set \<Rightarrow> int \<Rightarrow> bool \<Rightarrow> 'c \<Rightarrow> machine option \<Rightarrow> bool \<Rightarrow> bool \<Rightarrow> real \<Rightarrow> ('g, 'c) scheduler" where
  "new_scheduler stops seqs paged c m pld hybrid max_temp =
     \<lparr>sc_objs = (\<lambda>_. \<lparr>rq = new_request [] (PromptTokens []) sp_default 0, rq_added_stops = None, rq_max_prompt = 0, rq_add_special = None,
        rq_machine = None\<rparr>), sc_next_obj = 0, sc_requests = [], sc_waiting = [], sc_running = [], sc_finished_ids = {},
      sc_uid_of = [], sc_rid_of = [], sc_pending_aborts = [], sc_salvage = [], sc_detok = [], sc_gen = None, sc_gen_stops = {},
      sc_sampler_params = None, sc_stop_tokens = stops, sc_max_num_seqs = seqs, sc_paged = paged, sc_cache = c,
      sc_limits = initial_limits, sc_machine = m, sc_pld_spec = pld, sc_pld_auto = True, sc_pld_num_drafts = (if hybrid then 2 else 5),
      sc_pld_max_temp = max_temp, sc_pld_pending = [], sc_pld_index = [],
      sc_pld_stats = \<lparr>total_tokens = 0, draft_found = 0, first_hit = 0, total_hit_depth = 0, completed_seqs = 0\<rparr>,
      sc_pld_window = 1, sc_idle = [], sc_admitting = {}, sc_total_prompt = 0, sc_total_completion = 0, sc_processed = 0\<rparr>"

abbreviation the_req :: "('g, 'c) scheduler \<Rightarrow> nat \<Rightarrow> request" where
  "the_req s i \<equiv> rq (sc_objs s i)"

definition upd_obj :: "nat \<Rightarrow> (sched_request \<Rightarrow> sched_request) \<Rightarrow> ('g, 'c) scheduler \<Rightarrow> ('g, 'c) scheduler" where
  "upd_obj i f s = s\<lparr>sc_objs := (sc_objs s)(i := f (sc_objs s i))\<rparr>"

definition upd_req :: "nat \<Rightarrow> (request \<Rightarrow> request) \<Rightarrow> ('g, 'c) scheduler \<Rightarrow> ('g, 'c) scheduler" where
  "upd_req i f s = upd_obj i (\<lambda>o1. o1\<lparr>rq := f (rq o1)\<rparr>) s"

lemma upd_obj_fields [simp]:
  "sc_next_obj (upd_obj i f s) = sc_next_obj s" "sc_requests (upd_obj i f s) = sc_requests s" "sc_waiting (upd_obj i f s) = sc_waiting s"
  "sc_running (upd_obj i f s) = sc_running s" "sc_finished_ids (upd_obj i f s) = sc_finished_ids s" "sc_uid_of (upd_obj i f s) = sc_uid_of s"
  "sc_rid_of (upd_obj i f s) = sc_rid_of s" "sc_pending_aborts (upd_obj i f s) = sc_pending_aborts s" "sc_salvage (upd_obj i f s) = sc_salvage s"
  "sc_detok (upd_obj i f s) = sc_detok s" "sc_gen (upd_obj i f s) = sc_gen s" "sc_gen_stops (upd_obj i f s) = sc_gen_stops s"
  "sc_sampler_params (upd_obj i f s) = sc_sampler_params s" "sc_stop_tokens (upd_obj i f s) = sc_stop_tokens s" "sc_max_num_seqs (upd_obj i f s) = sc_max_num_seqs s"
  "sc_paged (upd_obj i f s) = sc_paged s" "sc_cache (upd_obj i f s) = sc_cache s" "sc_limits (upd_obj i f s) = sc_limits s"
  "sc_machine (upd_obj i f s) = sc_machine s" "sc_pld_spec (upd_obj i f s) = sc_pld_spec s" "sc_pld_auto (upd_obj i f s) = sc_pld_auto s"
  "sc_pld_num_drafts (upd_obj i f s) = sc_pld_num_drafts s" "sc_pld_max_temp (upd_obj i f s) = sc_pld_max_temp s" "sc_pld_pending (upd_obj i f s) = sc_pld_pending s"
  "sc_pld_index (upd_obj i f s) = sc_pld_index s" "sc_pld_stats (upd_obj i f s) = sc_pld_stats s" "sc_pld_window (upd_obj i f s) = sc_pld_window s"
  "sc_idle (upd_obj i f s) = sc_idle s" "sc_admitting (upd_obj i f s) = sc_admitting s" "sc_total_prompt (upd_obj i f s) = sc_total_prompt s"
  "sc_total_completion (upd_obj i f s) = sc_total_completion s" "sc_processed (upd_obj i f s) = sc_processed s"
  "sc_objs (upd_obj i f s) = (sc_objs s)(i := f (sc_objs s i))"
  by (simp_all add: upd_obj_def)

lemma upd_req_fields [simp]:
  "sc_next_obj (upd_req i f s) = sc_next_obj s" "sc_requests (upd_req i f s) = sc_requests s" "sc_waiting (upd_req i f s) = sc_waiting s"
  "sc_running (upd_req i f s) = sc_running s" "sc_finished_ids (upd_req i f s) = sc_finished_ids s" "sc_uid_of (upd_req i f s) = sc_uid_of s"
  "sc_rid_of (upd_req i f s) = sc_rid_of s" "sc_pending_aborts (upd_req i f s) = sc_pending_aborts s" "sc_salvage (upd_req i f s) = sc_salvage s"
  "sc_detok (upd_req i f s) = sc_detok s" "sc_gen (upd_req i f s) = sc_gen s" "sc_gen_stops (upd_req i f s) = sc_gen_stops s"
  "sc_sampler_params (upd_req i f s) = sc_sampler_params s" "sc_stop_tokens (upd_req i f s) = sc_stop_tokens s" "sc_max_num_seqs (upd_req i f s) = sc_max_num_seqs s"
  "sc_paged (upd_req i f s) = sc_paged s" "sc_cache (upd_req i f s) = sc_cache s" "sc_limits (upd_req i f s) = sc_limits s"
  "sc_machine (upd_req i f s) = sc_machine s" "sc_pld_spec (upd_req i f s) = sc_pld_spec s" "sc_pld_auto (upd_req i f s) = sc_pld_auto s"
  "sc_pld_num_drafts (upd_req i f s) = sc_pld_num_drafts s" "sc_pld_max_temp (upd_req i f s) = sc_pld_max_temp s" "sc_pld_pending (upd_req i f s) = sc_pld_pending s"
  "sc_pld_index (upd_req i f s) = sc_pld_index s" "sc_pld_stats (upd_req i f s) = sc_pld_stats s" "sc_pld_window (upd_req i f s) = sc_pld_window s"
  "sc_idle (upd_req i f s) = sc_idle s" "sc_admitting (upd_req i f s) = sc_admitting s" "sc_total_prompt (upd_req i f s) = sc_total_prompt s"
  "sc_total_completion (upd_req i f s) = sc_total_completion s" "sc_processed (upd_req i f s) = sc_processed s"
  "the_req (upd_req i f s) j = (if j = i then f (the_req s i) else the_req s j)"
  by (simp_all add: upd_req_def)

section \<open>Admission\<close>

datatype admission_error = Already_Exists | Empty_Prompt | Prompt_Too_Long int int | Long_Prefill int int

definition tokenize :: "('g, 'c) sched_env \<Rightarrow> sched_request \<Rightarrow> sched_request" where
  "tokenize env o1 =
     (case prompt_token_ids (rq o1) of
        Some _ \<Rightarrow> o1
      | None \<Rightarrow>
          (let ts = (case req_prompt (rq o1) of PromptText txt \<Rightarrow> se_encode env txt (rq_add_special o1) | PromptTokens ts \<Rightarrow> ts)
           in o1\<lparr>rq := (rq o1)\<lparr>prompt_token_ids := Some ts, num_prompt_tokens := int (length ts)\<rparr>\<rparr>))"

abbreviation prompt_ids :: "request \<Rightarrow> int list" where
  "prompt_ids r \<equiv> (case prompt_token_ids r of None \<Rightarrow> [] | Some ts \<Rightarrow> ts)"

definition clamp_budget :: "('g, 'c) sched_env \<Rightarrow> request \<Rightarrow> limits_state \<Rightarrow> request \<times> limits_state" where
  "clamp_budget env r l =
     (let (m, l1) = clamp_output_to_declared_context (se_parse env) (se_environ env) (PyInt (int (length (prompt_ids r))))
                      (PyInt (sp_max_tokens (sampling r))) (request_id r) l
      in (case m of PyInt k \<Rightarrow> r\<lparr>sampling := (sampling r)\<lparr>sp_max_tokens := k\<rparr>\<rparr> | _ \<Rightarrow> r, l1))"

text \<open>
  A hit of one of the prompt caches.  The lookup itself belongs to the caches; what it hands the request is its
  cache object, the number of tokens it covers and those left to compute.
\<close>

definition apply_hit :: "prefix_hit option \<Rightarrow> request \<Rightarrow> request" where
  "apply_hit h r =
     (case h of None \<Rightarrow> r
      | Some h \<Rightarrow> r\<lparr>prompt_cache := ph_cache h, cached_tokens := ph_cached h, remaining_tokens := ph_remaining h\<rparr>)"

definition add_request :: "('g, 'c) sched_env \<Rightarrow> sched_request \<Rightarrow> ('g, 'c) scheduler \<Rightarrow> ('g, 'c) scheduler \<times> (admission_error + unit)" where
  "add_request env o0 s =
     (let rid = request_id (rq o0)
      in if rid \<in> fst ` set (sc_requests s) then (s, Inl Already_Exists)
         else
           (let s1 = (if sc_pld_spec s \<and> sc_pld_auto s then s\<lparr>sc_pld_window := 1\<rparr> else s);
                o1 = tokenize env o0; n = int (length (prompt_ids (rq o1)))
            in if prompt_ids (rq o1) = [] then (s1, Inl Empty_Prompt)
               else if rq_max_prompt o1 > 0 \<and> n > rq_max_prompt o1 then (s1, Inl (Prompt_Too_Long n (rq_max_prompt o1)))
               else
                 (let (r2, l) = clamp_budget env (rq o1) (sc_limits s1); s2 = s1\<lparr>sc_limits := l\<rparr>
                  in if se_dsv4_max env > 0 \<and> n > se_dsv4_max env then (s2, Inl (Long_Prefill n (se_dsv4_max env)))
                     else
                       (let (c, r3) =
                              (if bypass_prefix_cache r2 then (sc_cache s2, r2\<lparr>remaining_tokens := prompt_token_ids r2\<rparr>)
                               else (let (c, h) = se_lookup env (sc_cache s2) r2 in (c, apply_hit h r2)));
                            i = sc_next_obj s2
                        in (s2\<lparr>sc_cache := c, sc_objs := (sc_objs s2)(i := o1\<lparr>rq := r3\<rparr>), sc_next_obj := i + 1,
                              sc_requests := pd_set (sc_requests s2) rid i, sc_waiting := sc_waiting s2 @ [i]\<rparr>, Inr ())))))"

text \<open>\<open>request_progress\<close>; the generator's own probe, where it has one, is the parameter.\<close>

definition request_progress :: "(int \<Rightarrow> int option) \<Rightarrow> ('g, 'c) scheduler \<Rightarrow> string \<Rightarrow> int option" where
  "request_progress probe s rid =
     (case pd_get (sc_requests s) rid of
        None \<Rightarrow> None
      | Some i \<Rightarrow>
          (let total = total_output_tokens (the_req s i)
           in case batch_uid (the_req s i) of
                None \<Rightarrow> Some total
              | Some u \<Rightarrow> (case probe u of None \<Rightarrow> Some total | Some p \<Rightarrow> Some (max total p))))"

section \<open>Aborts\<close>

text \<open>\<open>deque.remove\<close>: the first object equal to the request, and requests are equal by id.\<close>

fun remove_equal :: "(nat \<Rightarrow> sched_request) \<Rightarrow> request \<Rightarrow> nat list \<Rightarrow> nat list" where
  "remove_equal objs r [] = []"
| "remove_equal objs r (i # q) = (if req_eq (rq (objs i)) r then q else i # remove_equal objs r q)"

definition surviving_stops :: "('g, 'c) scheduler \<Rightarrow> (string \<Rightarrow> bool) \<Rightarrow> int set" where
  "surviving_stops s leaves =
     \<Union> (set (map (\<lambda>(rid, i). if leaves rid then {} else (case rq_added_stops (sc_objs s i) of None \<Rightarrow> {} | Some t \<Rightarrow> t)) (sc_running s)))"

definition abort_request :: "('g, 'c) sched_env \<Rightarrow> string \<Rightarrow> ('g, 'c) scheduler \<Rightarrow> ('g, 'c) scheduler \<times> bool" where
  "abort_request env rid s =
     (let s1 = s\<lparr>sc_pld_pending := pd_del (sc_pld_pending s) rid, sc_pld_index := pd_del (sc_pld_index s) rid\<rparr>
      in case pd_get (sc_requests s1) rid of
        None \<Rightarrow> (s1, False)
      | Some i \<Rightarrow>
          (let r = the_req s1 i;
               s2 = s1\<lparr>sc_requests := pd_del (sc_requests s1) rid\<rparr>;
               s3 = (if status r = WAITING then s2\<lparr>sc_waiting := remove_equal (sc_objs s2) r (sc_waiting s2)\<rparr> else s2);
               s4 = (if request_id r \<in> fst ` set (sc_uid_of s3) then
                       s3\<lparr>sc_pending_aborts := List.insert (request_id r) (sc_pending_aborts s3),
                          sc_salvage := (if sc_paged s3 \<and> \<not> bypass_prefix_cache r \<and> cached_tokens r < int (length (prompt_ids r))
                                         then pd_set (sc_salvage s3) (request_id r) i else sc_salvage s3)\<rparr>
                     else s3);
               added = (case rq_added_stops (sc_objs s4 i) of None \<Rightarrow> {} | Some t \<Rightarrow> t);
               s5 = (if added \<noteq> {} \<and> sc_gen s4 \<noteq> None
                     then s4\<lparr>sc_gen_stops := sc_gen_stops s4 - (added - surviving_stops s4 (\<lambda>k. k = request_id r))\<rparr> else s4);
               s6 = (if sc_paged s5 then s5\<lparr>sc_cache := se_forget env (sc_cache s5) rid\<rparr> else s5);
               s7 = s6\<lparr>sc_detok := pd_del (sc_detok s6) rid, sc_running := pd_del (sc_running s6) rid\<rparr>;
               s8 = upd_req i (\<lambda>r. set_finished r FINISHED_ABORTED None) s7
           in (s8\<lparr>sc_finished_ids := insert rid (sc_finished_ids s8)\<rparr>, True)))"

definition process_pending_abort :: "('g, 'c) sched_env \<Rightarrow> string \<Rightarrow> ('g, 'c) scheduler \<Rightarrow> ('g, 'c) scheduler" where
  "process_pending_abort env rid s =
     (let u = pd_get (sc_uid_of s) rid; saved = pd_get (sc_salvage s) rid;
          s1 = s\<lparr>sc_uid_of := pd_del (sc_uid_of s) rid, sc_salvage := pd_del (sc_salvage s) rid\<rparr>
      in case u of
        None \<Rightarrow> s1
      | Some u \<Rightarrow>
          (let s2 = (case sc_gen s1 of
                 None \<Rightarrow> s1
               | Some g \<Rightarrow>
                   s1\<lparr>sc_cache := (case saved of Some i \<Rightarrow> if sc_paged s1 then se_salvage env g u (the_req s1 i) (sc_cache s1) else sc_cache s1
                                   | None \<Rightarrow> sc_cache s1),
                      sc_gen := Some (se_remove env g u)\<rparr>)
           in s2\<lparr>sc_rid_of := pd_del (sc_rid_of s2) u\<rparr>))"

definition process_pending_aborts :: "('g, 'c) sched_env \<Rightarrow> ('g, 'c) scheduler \<Rightarrow> ('g, 'c) scheduler" where
  "process_pending_aborts env s =
     fold (process_pending_abort env) (sc_pending_aborts s) (s\<lparr>sc_pending_aborts := []\<rparr>)"

section \<open>Work, idle tasks, resets\<close>

definition has_requests :: "('g, 'c) scheduler \<Rightarrow> bool" where
  "has_requests s \<longleftrightarrow> sc_waiting s \<noteq> [] \<or> sc_running s \<noteq> [] \<or> sc_pending_aborts s \<noteq> []"

datatype idle_result = DONE | PARKED | RAISED

definition register_idle_task :: "string \<Rightarrow> nat \<Rightarrow> ('g, 'c) scheduler \<Rightarrow> ('g, 'c) scheduler" where
  "register_idle_task name f s = s\<lparr>sc_idle := sc_idle s @ [(name, f)]\<rparr>"

definition has_idle_tasks :: "('g, 'c) scheduler \<Rightarrow> bool" where
  "has_idle_tasks s \<longleftrightarrow> sc_idle s \<noteq> []"

definition run_one_idle_task ::
  "(nat \<Rightarrow> ('g, 'c) scheduler \<Rightarrow> ('g, 'c) scheduler \<times> idle_result) \<Rightarrow> ('g, 'c) scheduler \<Rightarrow> ('g, 'c) scheduler \<times> bool" where
  "run_one_idle_task call s =
     (case sc_idle s of
        [] \<Rightarrow> (s, False)
      | (name, f) # rest \<Rightarrow>
          (let (s1, res) = call f (s\<lparr>sc_idle := rest\<rparr>)
           in (if res = PARKED then s1\<lparr>sc_idle := (name, f) # sc_idle s1\<rparr> else s1, True)))"

definition begin_foreground_admission :: "string \<Rightarrow> ('g, 'c) scheduler \<Rightarrow> ('g, 'c) scheduler" where
  "begin_foreground_admission rid s = s\<lparr>sc_admitting := insert rid (sc_admitting s)\<rparr>"

definition end_foreground_admission :: "string \<Rightarrow> ('g, 'c) scheduler \<Rightarrow> ('g, 'c) scheduler" where
  "end_foreground_admission rid s = s\<lparr>sc_admitting := sc_admitting s - {rid}\<rparr>"

definition foreground_pending :: "('g, 'c) scheduler \<Rightarrow> bool" where
  "foreground_pending s \<longleftrightarrow> sc_waiting s \<noteq> [] \<or> sc_running s \<noteq> [] \<or> sc_pending_aborts s \<noteq> [] \<or> sc_admitting s \<noteq> {}"

definition get_request :: "('g, 'c) scheduler \<Rightarrow> string \<Rightarrow> nat option" where
  "get_request s rid = pd_get (sc_requests s) rid"

definition remove_finished_request :: "string \<Rightarrow> ('g, 'c) scheduler \<Rightarrow> ('g, 'c) scheduler \<times> nat option" where
  "remove_finished_request rid s = (s\<lparr>sc_requests := pd_del (sc_requests s) rid\<rparr>, pd_get (sc_requests s) rid)"

definition reset :: "('g, 'c) sched_env \<Rightarrow> ('g, 'c) scheduler \<Rightarrow> ('g, 'c) scheduler" where
  "reset env s =
     (let s1 = fold (\<lambda>rid s. fst (abort_request env rid s)) (pd_keys (sc_requests s)) s
      in s1\<lparr>sc_waiting := [], sc_running := [], sc_requests := [], sc_finished_ids := {}, sc_uid_of := [], sc_rid_of := [],
            sc_gen := None, sc_sampler_params := None, sc_detok := [], sc_cache := se_clear env (sc_cache s1)\<rparr>)"

section \<open>An environment for examples\<close>

text \<open>
  A generator that logs the prompts it is given with their budgets and numbers them, and that emits nothing by itself;
  examples replace the functions they are about.
\<close>

record toy_gen =
  tg_next :: int
  tg_log :: "(int list \<times> int) list"

definition toy_insert :: "toy_gen \<Rightarrow> int list \<Rightarrow> int \<Rightarrow> toy_gen" where
  "toy_insert g ts n = g\<lparr>tg_next := tg_next g + 1, tg_log := tg_log g @ [(ts, n)]\<rparr>"

definition toy_env :: "(toy_gen, unit) sched_env" where
  "toy_env =
     \<lparr>se_encode = (\<lambda>_ _. []), se_detok = (\<lambda>ts. map (\<lambda>t. char_of (nat t)) ts), se_detok_final = (\<lambda>ts. map (\<lambda>t. char_of (nat t)) ts),
      se_logprob = (\<lambda>_. None), se_parse = (\<lambda>_. None), se_environ = (\<lambda>_. None), se_dsv4_max = 0, se_create = (\<lambda>_ _. Some \<lparr>tg_next = 0, tg_log = []\<rparr>),
      se_shares_stops = (\<lambda>_. True), se_releases = (\<lambda>_. False), se_insert = (\<lambda>g r ts n c. (toy_insert g ts n, Inr [tg_next g])),
      se_next = (\<lambda>g stops. (g, Inr ([], []))), se_remove = (\<lambda>g u. g), se_tight = (\<lambda>_. False), se_active_batch = (\<lambda>_. True),
      se_forward = (\<lambda>g u. None), se_take = (\<lambda>g u. (g, Some 0)), se_predict = (\<lambda>kv ds. None), se_plausible = (\<lambda>g u d. True),
      se_draw = (\<lambda>g u kv ds. None), se_hybrid = (\<lambda>_. False), se_trim = (\<lambda>kv n. kv),
      se_reinsert = (\<lambda>g t n kv. (toy_insert g [t] n, Some [tg_next g])), se_lookup = (\<lambda>c r. (c, None)), se_hydrate = (\<lambda>c r. (c, None)),
      se_release = (\<lambda>c rid. c), se_forget = (\<lambda>c rid. c), se_salvage = (\<lambda>g u r c. c), se_store = (\<lambda>c r. c), se_clear = (\<lambda>c. c),
      se_recreated = (\<lambda>c. (c, False))\<rparr>"

end
