(* ===== verification/Sched_Spec.thy ===== *)
theory Sched_Spec
  imports Sched_State
begin

text \<open>
  Speculative decoding from the text itself (\<open>Scheduler._try_speculative_decode\<close>): drafts from the request's n-gram
  index are checked in one forward pass, the accepted ones and one more token are emitted, and the request goes back
  into the generator under a new identifier.  For a temperature of zero the tokens are compared with the most likely
  ones; the sampled acceptance is a parameter.
\<close>

section \<open>Acceptance\<close>

text \<open>\<open>p\<close> is the model's token after the text, the list its tokens after each draft.\<close>

fun count_accepted :: "int \<Rightarrow> int list \<Rightarrow> int list \<Rightarrow> nat" where
  "count_accepted p ps [] = 0"
| "count_accepted p ps (d # ds) = (if p = d then Suc (case ps of [] \<Rightarrow> 0 | q # qs \<Rightarrow> count_accepted q qs ds) else 0)"

definition bonus_token :: "int \<Rightarrow> int list \<Rightarrow> nat \<Rightarrow> int" where
  "bonus_token p ps n = (if n = 0 then p else ps ! (n - 1))"

definition is_greedy :: "real \<Rightarrow> bool" where
  "is_greedy temp \<longleftrightarrow> temp \<le> 167 / 100000000"

text \<open>Number of accepted drafts, the token behind them, and the correction a hybrid model falls back to.\<close>

definition verify_drafts :: "('g, 'c) sched_env \<Rightarrow> real \<Rightarrow> 'g \<Rightarrow> int \<Rightarrow> int \<Rightarrow> nat \<Rightarrow> int list \<Rightarrow> (nat \<times> int \<times> int) option" where
  "verify_drafts env temp g u p kv drafts =
     (if is_greedy temp then
        (case se_predict env kv drafts of
           None \<Rightarrow> None
         | Some ps \<Rightarrow> (let n = count_accepted p ps drafts in Some (n, bonus_token p ps n, p)))
      else se_draw env g u kv drafts)"

section \<open>The round\<close>

definition swap_uid :: "string \<Rightarrow> int \<Rightarrow> int \<Rightarrow> ('g, 'c) scheduler \<Rightarrow> ('g, 'c) scheduler" where
  "swap_uid rid old new s =
     s\<lparr>sc_uid_of := pd_set (sc_uid_of s) rid new, sc_rid_of := pd_set (pd_del (sc_rid_of s) old) new rid\<rparr>"

text \<open>The \<open>finally\<close> block: a request that was taken out and not put back is put back with its last token.\<close>

definition emergency_reinsert :: "('g, 'c) sched_env \<Rightarrow> string \<Rightarrow> int \<Rightarrow> int \<Rightarrow> int \<Rightarrow> nat option \<Rightarrow> 'g \<Rightarrow> ('g, 'c) scheduler \<Rightarrow> ('g, 'c) scheduler" where
  "emergency_reinsert env rid old last_token remaining kv g s =
     (case se_reinsert env g last_token (max 1 (remaining - 1)) kv of
        (g1, Some (u # us)) \<Rightarrow> swap_uid rid old u (s\<lparr>sc_gen := Some g1\<rparr>)
      | (g1, _) \<Rightarrow> s\<lparr>sc_gen := Some g1, sc_rid_of := pd_del (sc_rid_of s) old\<rparr>)"

definition put_back :: "('g, 'c) sched_env \<Rightarrow> string \<Rightarrow> int \<Rightarrow> int \<Rightarrow> int \<Rightarrow> nat \<Rightarrow> int \<Rightarrow> int \<Rightarrow> int list \<Rightarrow> 'g \<Rightarrow> ('g, 'c) scheduler \<Rightarrow>
    ('g, 'c) scheduler \<times> int list" where
  "put_back env rid old last_token remaining kv token budget extra g s =
     (case se_reinsert env g token budget (Some kv) of
        (g1, Some (u # us)) \<Rightarrow> (swap_uid rid old u (s\<lparr>sc_gen := Some g1\<rparr>), extra)
      | (g1, Some []) \<Rightarrow> (s\<lparr>sc_gen := Some g1\<rparr>, [])
      | (g1, None) \<Rightarrow> (emergency_reinsert env rid old last_token remaining (Some kv) g1 s, []))"

definition speculate :: "('g, 'c) sched_env \<Rightarrow> string \<Rightarrow> int \<Rightarrow> int \<Rightarrow> real \<Rightarrow> int \<Rightarrow> int list \<Rightarrow> 'g \<Rightarrow> ('g, 'c) scheduler \<Rightarrow>
    ('g, 'c) scheduler \<times> int list" where
  "speculate env rid u last_token temp remaining drafts0 g s =
     (case se_forward env g u of
        None \<Rightarrow> (s, [])
      | Some p \<Rightarrow>
          if (if is_greedy temp then p \<noteq> hd drafts0 else \<not> se_plausible env g u (hd drafts0)) then (s, [])
          else
            (let drafts = take (sc_pld_num_drafts s) drafts0; (g1, taken) = se_take env g u
             in case taken of
                  None \<Rightarrow> (emergency_reinsert env rid u last_token remaining None g1 s, [])
                | Some kv \<Rightarrow>
                    (case verify_drafts env temp g u p kv drafts of
                       None \<Rightarrow> (emergency_reinsert env rid u last_token remaining (Some kv) g1 s, [])
                     | Some (n, bonus, correction) \<Rightarrow>
                         if n < length drafts \<and> se_hybrid env kv then
                           put_back env rid u last_token remaining (se_trim env kv (length drafts)) correction (max 1 (remaining - 1)) [correction] g1 s
                         else
                           put_back env rid u last_token remaining (se_trim env kv (length drafts - n)) bonus
                             (max 1 (remaining - int n - 1)) (take n drafts @ [bonus]) g1 s)))"

definition try_speculative_decode :: "('g, 'c) sched_env \<Rightarrow> string \<Rightarrow> nat \<Rightarrow> int \<Rightarrow> ('g, 'c) scheduler \<Rightarrow> ('g, 'c) scheduler \<times> int list" where
  "try_speculative_decode env rid i last_token s =
     (let r = the_req s i; temp = sp_temperature (sampling r)
      in case sc_gen s of
        None \<Rightarrow> (s, [])
      | Some g \<Rightarrow>
          if temp > sc_pld_max_temp s \<or> \<not> se_active_batch env g then (s, [])
          else
            (let idx = (case pd_get (sc_pld_index s) rid of None \<Rightarrow> new_index | Some x \<Rightarrow> x);
                 (found, idx1) = find_drafts (prompt_ids r @ output_token_ids r) 5 3 idx;
                 s1 = s\<lparr>sc_pld_index := pd_set (sc_pld_index s) rid idx1\<rparr>;
                 remaining = sp_max_tokens (sampling r) - num_output_tokens r
             in if found = [] \<or> remaining \<le> 1 then (s1, [])
                else case pd_get (sc_uid_of s1) rid of
                  None \<Rightarrow> (s1, [])
                | Some u \<Rightarrow> speculate env rid u last_token temp remaining (take (nat (remaining - 1)) found) g s1))"

section \<open>Greedy speculation is greedy decoding\<close>


definition predictions :: "(int list \<Rightarrow> int) \<Rightarrow> int list \<Rightarrow> int list \<Rightarrow> int list" where
  "predictions f ctx drafts = map (\<lambda>i. f (ctx @ take (Suc i) drafts)) [0..<length drafts]"

lemma predictions_Cons [simp]: "predictions f ctx (d # ds) = f (ctx @ [d]) # predictions f (ctx @ [d]) ds"
  by (simp add: predictions_def map_upt_Suc del: upt_Suc)

lemma predictions_Nil [simp]: "predictions f ctx [] = []"
  by (simp add: predictions_def)







section \<open>Properties\<close>


text \<open>A scheduler in the middle of one greedy request, and a model that counts up.\<close>

definition demo_running :: "int list \<Rightarrow> int list \<Rightarrow> int \<Rightarrow> int \<Rightarrow> (toy_gen, unit) scheduler" where
  "demo_running prompt out mx lifetime =
     (let r = (new_request ''a'' (PromptTokens prompt) (sp_default\<lparr>sp_max_tokens := mx\<rparr>) 0)\<lparr>prompt_token_ids := Some prompt,
            num_prompt_tokens := int (length prompt), status := RUNNING, output_token_ids := out, total_output_tokens := lifetime\<rparr>;
          s = new_scheduler {} 1 False () None True False 1
      in s\<lparr>sc_objs := (sc_objs s)(0 := (sc_objs s 0)\<lparr>rq := r\<rparr>), sc_next_obj := 1, sc_requests := [(''a'', 0)], sc_running := [(''a'', 0)],
          sc_uid_of := [(''a'', 7)], sc_rid_of := [(7, ''a'')], sc_gen := Some \<lparr>tg_next = 8, tg_log = []\<rparr>\<rparr>)"

definition counting :: "int list \<Rightarrow> int" where
  "counting ctx = (last ctx + 1) mod 4"

definition counting_env :: "int list \<Rightarrow> (toy_gen, unit) sched_env" where
  "counting_env ctx = toy_env\<lparr>se_forward := (\<lambda>g u. Some (counting ctx)), se_predict := (\<lambda>kv ds. Some (predictions counting ctx ds))\<rparr>"



text \<open>
  The budget of speculation is not the budget of the request.  When the tokens of a round reach \<open>max_tokens\<close> exactly,
  the request is not ended but put back with a budget of one more token; and after a restart the round counts the
  tokens of the new run only, so a request whose remaining budget is one token is put back with five.
\<close>

lemma speculation_overruns_budget:
  "(let (s, extra) = try_speculative_decode (counting_env [0, 1, 2, 3, 0, 1]) ''a'' 0 1 (demo_running [0, 1, 2, 3] [0, 1] 4 2)
    in num_output_tokens (the_req s 0) + int (length extra) = sp_max_tokens (sampling (the_req s 0)) \<and>
       map_option tg_log (sc_gen s) = Some [([last extra], 1)]) \<and>
   (let (s, extra) = try_speculative_decode (counting_env [0, 1, 2, 3, 0, 1]) ''a'' 0 1 (demo_running [0, 1, 2, 3] [0, 1] 12 12)
    in remaining_output_budget (the_req s 0) = 1 \<and> length extra = 5 \<and> map_option tg_log (sc_gen s) = Some [([last extra], 5)])"
  by (intro conjI; code_simp)

end
