(* ===== verification/Sched_Emit.thy ===== *)
theory Sched_Emit
  imports Sched_Spec
begin

text \<open>
  What becomes of a token the generator emits (\<open>Scheduler._process_batch_responses\<close>): the token joins the request,
  drafts are measured and speculated, the detokenizer turns tokens into text, stop strings are looked for, and the
  output of the step is made.  The capture of the finished request's cache belongs to the environment's store.
\<close>

section \<open>Measuring drafts\<close>

definition measure_drafts :: "string \<Rightarrow> nat \<Rightarrow> int \<Rightarrow> ('g, 'c) scheduler \<Rightarrow> ('g, 'c) scheduler" where
  "measure_drafts rid i t s =
     (let r = the_req s i; current = num_output_tokens r - 1; st = sc_pld_stats s;
          (pending, st1) =
            (case pd_get (sc_pld_pending s) rid of
               None \<Rightarrow> (sc_pld_pending s, st)
             | Some (ds, start, hits) \<Rightarrow>
                 (let pos = current - start
                  in if 0 \<le> pos \<and> pos < int (length ds) \<and> t = ds ! nat pos then
                       (pd_set (sc_pld_pending s) rid (ds, start, hits + 1),
                        st\<lparr>first_hit := (if pos = 0 then first_hit st + 1 else first_hit st), total_hit_depth := total_hit_depth st + 1\<rparr>)
                     else (pd_del (sc_pld_pending s) rid, st\<lparr>completed_seqs := completed_seqs st + 1\<rparr>)));
          drafts = find_draft_tokens (prompt_ids r @ output_token_ids r) 5 3;
          (pending1, st2) =
            (if rid \<notin> fst ` set pending \<and> drafts \<noteq> []
             then (pd_set pending rid (drafts, num_output_tokens r, 0), st1\<lparr>draft_found := draft_found st1 + 1\<rparr>)
             else (pending, st1))
      in s\<lparr>sc_pld_pending := pending1, sc_pld_stats := st2\<lparr>total_tokens := total_tokens st2 + 1\<rparr>\<rparr>)"

section \<open>Speculative extension\<close>

definition request_stop_ids :: "request \<Rightarrow> int set" where
  "request_stop_ids r = (case sp_stop_token_ids (sampling r) of None \<Rightarrow> {} | Some ts \<Rightarrow> set ts)"

definition append_tokens :: "int list \<Rightarrow> request \<Rightarrow> request" where
  "append_tokens ts r = fold (\<lambda>t r. append_output_token r t) ts r"

text \<open>The drafts up to the first stop token, and whether there was one.\<close>

definition extend_speculatively ::
  "('g, 'c) sched_env \<Rightarrow> string \<Rightarrow> nat \<Rightarrow> gen_response \<Rightarrow> ('g, 'c) scheduler \<Rightarrow> ('g, 'c) scheduler \<times> int list \<times> bool" where
  "extend_speculatively env rid i resp s =
     (if sc_pld_spec s \<and> sc_pld_auto s \<and> \<not> sp_logprobs (sampling (the_req s i)) \<and> gr_finish resp = None \<and> sc_gen s \<noteq> None then
        (let (s1, raw) = try_speculative_decode env rid i (gr_token resp) s;
             stops = sc_stop_tokens s1 \<union> request_stop_ids (the_req s1 i);
             kept = takeWhile (\<lambda>t. t \<notin> stops) raw
         in (upd_req i (append_tokens kept) s1, kept, kept \<noteq> raw))
      else (s, [], False))"

section \<open>Text and stop strings\<close>

text \<open>\<open>_advance_request_state_machine\<close>: the machine first walks over the cached part of the prompt.\<close>

fun match_until_halt :: "machine \<Rightarrow> run_state \<Rightarrow> int list \<Rightarrow> run_state" where
  "match_until_halt m st [] = st"
| "match_until_halt m st (t # ts) =
     (case match_token m st t of
        Inl _ \<Rightarrow> st
      | Inr (st1, _, current) \<Rightarrow> if current = None then st1 else match_until_halt m st1 ts)"

definition start_machine :: "machine \<Rightarrow> request \<Rightarrow> run_state option" where
  "start_machine m r =
     (case make_state m of
        Inl _ \<Rightarrow> None
      | Inr st \<Rightarrow>
          (let cached = (if cached_tokens r > 0 then take (nat (cached_tokens r)) (prompt_ids r) else [])
           in if cached = [] then Some st
              else (case advance_from m st cached of Inl _ \<Rightarrow> Some st | Inr st1 \<Rightarrow> Some st1)))"

definition advance_request_state_machine :: "nat \<Rightarrow> int list \<Rightarrow> ('g, 'c) scheduler \<Rightarrow> ('g, 'c) scheduler" where
  "advance_request_state_machine i ts s =
     (case sc_machine s of
        None \<Rightarrow> s
      | Some m \<Rightarrow>
          (case (case rq_machine (sc_objs s i) of None \<Rightarrow> start_machine m (the_req s i) | Some st \<Rightarrow> Some st) of
             None \<Rightarrow> s
           | Some st \<Rightarrow> upd_obj i (\<lambda>o1. o1\<lparr>rq_machine := Some (match_until_halt m st ts)\<rparr>) s))"

definition is_request_in_reasoning :: "('g, 'c) scheduler \<Rightarrow> nat \<Rightarrow> bool" where
  "is_request_in_reasoning s i =
     (case rq_machine (sc_objs s i) of None \<Rightarrow> False | Some st \<Rightarrow> current_state st = Some ''reasoning'')"

text \<open>\<open>"<think>" in t and "</think>" not in t.split("<think>")[-1]\<close>.\<close>

definition text_in_think :: "string \<Rightarrow> bool" where
  "text_in_think t = (case py_rfind t ''<think>'' of None \<Rightarrow> False | Some j \<Rightarrow> \<not> py_contains (drop (j + 7) t) ''</think>'')"

definition py_find_from :: "string \<Rightarrow> string \<Rightarrow> nat \<Rightarrow> nat option" where
  "py_find_from t m i = (if length t < i then None else map_option (\<lambda>j. i + j) (py_find (drop i t) m))"

fun first_stop :: "string \<Rightarrow> nat \<Rightarrow> string list \<Rightarrow> nat option" where
  "first_stop full start [] = None"
| "first_stop full start (m # ms) = (case py_find_from full m start of Some j \<Rightarrow> Some j | None \<Rightarrow> first_stop full start ms)"

text \<open>Only the end of the text is searched: what is new, with room for a stop string that began before it.\<close>

definition search_start :: "string list \<Rightarrow> string \<Rightarrow> string \<Rightarrow> nat" where
  "search_start stops full new =
     (let start = (length full + 1) - (length new + Max (set (map length stops)))
      in case py_rfind full ''</think>'' of None \<Rightarrow> start | Some j \<Rightarrow> max start (j + 8))"

definition find_stop_string :: "string list \<Rightarrow> string \<Rightarrow> string \<Rightarrow> nat option" where
  "find_stop_string stops full new = first_stop full (search_start stops full new) stops"

definition stop_strings :: "request \<Rightarrow> string list" where
  "stop_strings r = (case sp_stop (sampling r) of None \<Rightarrow> [] | Some ss \<Rightarrow> ss)"

text \<open>The detokenizer and the stop check of one response: the new text and where a stop string cuts the whole.\<close>

definition decode_response ::
  "('g, 'c) sched_env \<Rightarrow> string \<Rightarrow> nat \<Rightarrow> gen_response \<Rightarrow> int list \<Rightarrow> bool \<Rightarrow> ('g, 'c) scheduler \<Rightarrow> ('g, 'c) scheduler \<times> string \<times> nat option" where
  "decode_response env rid i resp spec spec_hit s =
     (let seen = (case pd_get (sc_detok s) rid of None \<Rightarrow> [] | Some ts \<Rightarrow> ts);
          s0 = s\<lparr>sc_detok := pd_set (sc_detok s) rid seen\<rparr>; r = the_req s0 i;
          ends = (gr_finish resp = Some ''stop'' \<or> spec_hit);
          swallowed = (\<not> ends \<and> request_stop_ids r \<noteq> {} \<and> \<not> (case sc_gen s0 of None \<Rightarrow> False | Some g \<Rightarrow> se_shares_stops env g) \<and>
                       gr_token resp \<in> request_stop_ids r)
      in if ends \<or> swallowed then (s0, [], None)
         else
           (let toks = seen @ gr_token resp # spec; full = se_detok env toks; new = drop (length (se_detok env seen)) full;
                s1 = advance_request_state_machine i (gr_token resp # spec) (s0\<lparr>sc_detok := pd_set (sc_detok s0) rid toks\<rparr>);
                thinking = (if sc_machine s1 \<noteq> None then is_request_in_reasoning s1 i else text_in_think full)
            in if stop_strings r = [] \<or> thinking then (s1, new, None)
               else (case find_stop_string (stop_strings r) full new of
                       None \<Rightarrow> (s1, new, None)
                     | Some j \<Rightarrow> (s1, [], Some j))))"

section \<open>The output\<close>

definition effective_finish :: "gen_response \<Rightarrow> bool \<Rightarrow> nat option \<Rightarrow> string option" where
  "effective_finish resp spec_hit cutoff = (if cutoff \<noteq> None \<or> spec_hit then Some ''stop'' else gr_finish resp)"

definition set_finish_status :: "string \<Rightarrow> request \<Rightarrow> request" where
  "set_finish_status f r =
     (if f = ''stop'' then set_finished r FINISHED_STOPPED None
      else if f = ''length'' then set_finished r FINISHED_LENGTH_CAPPED None else r)"

definition record_logprob :: "('g, 'c) sched_env \<Rightarrow> gen_response \<Rightarrow> request \<Rightarrow> request" where
  "record_logprob env resp r =
     (if sp_logprobs (sampling r) then
        (case se_logprob env resp of None \<Rightarrow> r | Some p \<Rightarrow> r\<lparr>output_logprobs := output_logprobs r @ [p]\<rparr>)
      else r)"

definition token_output :: "string \<Rightarrow> request \<Rightarrow> int list \<Rightarrow> string \<Rightarrow> request_output" where
  "token_output rid r ids txt =
     \<lparr>ro_request_id = rid, ro_new_token_ids = ids, ro_new_text = txt, ro_output_token_ids = output_token_ids r, ro_output_text = [],
      ro_logprobs = (if sp_logprobs (sampling r) then Some (output_logprobs r) else None), ro_finished = False, ro_finish_reason = None,
      ro_prompt_tokens = num_prompt_tokens r, ro_completion_tokens = num_output_tokens r, ro_cached_tokens = cached_tokens r,
      ro_cache_detail = [], ro_error = None, ro_error_code = None, ro_error_prompt_tokens = None, ro_error_max_prompt_tokens = None,
      ro_error_source = None, ro_generated_at = 0\<rparr>"

text \<open>A finished request: its status, its whole text, and the generator is told when a stop string ended it.\<close>

definition finish_request ::
  "('g, 'c) sched_env \<Rightarrow> string \<Rightarrow> nat \<Rightarrow> string \<Rightarrow> nat option \<Rightarrow> request_output \<Rightarrow> ('g, 'c) scheduler \<Rightarrow> ('g, 'c) scheduler \<times> request_output" where
  "finish_request env rid i f cutoff out s =
     (let txt = se_detok_final env (case pd_get (sc_detok s) rid of None \<Rightarrow> [] | Some ts \<Rightarrow> ts);
          whole = (case cutoff of None \<Rightarrow> txt | Some j \<Rightarrow> take j txt);
          s1 = upd_req i (\<lambda>r. (set_finish_status f r)\<lparr>output_text := whole\<rparr>) s;
          s2 = (case (cutoff, sc_gen s1, pd_get (sc_uid_of s1) rid) of
                  (Some _, Some g, Some u) \<Rightarrow> s1\<lparr>sc_gen := Some (se_remove env g u)\<rparr>
                | _ \<Rightarrow> s1)
      in (s2\<lparr>sc_total_completion := sc_total_completion s2 + num_output_tokens (the_req s2 i), sc_processed := sc_processed s2 + 1\<rparr>,
          out\<lparr>ro_finished := True, ro_finish_reason := Some f, ro_output_text := whole\<rparr>))"

definition emit :: "('g, 'c) sched_env \<Rightarrow> string \<Rightarrow> nat \<Rightarrow> gen_response \<Rightarrow> ('g, 'c) scheduler \<Rightarrow> ('g, 'c) scheduler \<times> request_output" where
  "emit env rid i resp s =
     (let s1 = upd_req i (\<lambda>r. append_output_token r (gr_token resp)) s;
          s2 = (if sc_pld_spec s1 then measure_drafts rid i (gr_token resp) s1 else s1);
          (s3, spec, hit) = extend_speculatively env rid i resp s2;
          (s4, txt, cutoff) = decode_response env rid i resp spec hit s3;
          s5 = upd_req i (record_logprob env resp) s4;
          out = token_output rid (the_req s5 i) (gr_token resp # spec) txt
      in case effective_finish resp hit cutoff of
           None \<Rightarrow> (s5, out)
         | Some f \<Rightarrow> finish_request env rid i f cutoff out s5)"

definition process_response ::
  "('g, 'c) sched_env \<Rightarrow> gen_response \<Rightarrow> ('g, 'c) scheduler \<times> request_output list \<Rightarrow> ('g, 'c) scheduler \<times> request_output list" where
  "process_response env resp x =
     (let (s, outs) = x
      in case pd_get (sc_rid_of s) (gr_uid resp) of
           None \<Rightarrow> (s, outs)
         | Some rid \<Rightarrow>
             (case pd_get (sc_running s) rid of
                None \<Rightarrow> (s, outs)
              | Some i \<Rightarrow> (let (s1, out) = emit env rid i resp s in (s1, outs @ [out]))))"

definition process_batch_responses :: "('g, 'c) sched_env \<Rightarrow> gen_response list \<Rightarrow> ('g, 'c) scheduler \<Rightarrow>
    ('g, 'c) scheduler \<times> request_output list \<times> string list" where
  "process_batch_responses env resps s =
     (let (s1, outs) = fold (process_response env) resps (s, [])
      in (s1, outs, remdups (map ro_request_id (filter ro_finished outs))))"

section \<open>What a response leaves alone\<close>

text \<open>Speculation touches the generator, the two uid tables and the n-gram index; all the rest stays.\<close>

definition spec_rest :: "('g, 'c) scheduler \<Rightarrow> ('g, 'c) scheduler" where
  "spec_rest s = s\<lparr>sc_gen := None, sc_uid_of := [], sc_rid_of := [], sc_pld_index := []\<rparr>"

lemma spec_rest_upd [simp]:
  "spec_rest (s\<lparr>sc_gen := g\<rparr>) = spec_rest s" "spec_rest (s\<lparr>sc_uid_of := u\<rparr>) = spec_rest s"
  "spec_rest (s\<lparr>sc_rid_of := r\<rparr>) = spec_rest s" "spec_rest (s\<lparr>sc_pld_index := x\<rparr>) = spec_rest s"
  by (simp_all add: spec_rest_def)

lemma spec_rest_fields:
  "spec_rest a = spec_rest b \<Longrightarrow>
   sc_objs a = sc_objs b \<and> sc_next_obj a = sc_next_obj b \<and> sc_requests a = sc_requests b \<and> sc_waiting a = sc_waiting b \<and>
   sc_running a = sc_running b \<and> sc_finished_ids a = sc_finished_ids b \<and> sc_pending_aborts a = sc_pending_aborts b \<and> sc_salvage a = sc_salvage b \<and>
   sc_detok a = sc_detok b \<and> sc_gen_stops a = sc_gen_stops b \<and> sc_sampler_params a = sc_sampler_params b \<and> sc_stop_tokens a = sc_stop_tokens b \<and>
   sc_max_num_seqs a = sc_max_num_seqs b \<and> sc_paged a = sc_paged b \<and> sc_cache a = sc_cache b \<and> sc_limits a = sc_limits b \<and>
   sc_machine a = sc_machine b \<and> sc_pld_spec a = sc_pld_spec b \<and> sc_pld_auto a = sc_pld_auto b \<and> sc_pld_num_drafts a = sc_pld_num_drafts b \<and>
   sc_pld_max_temp a = sc_pld_max_temp b \<and> sc_pld_pending a = sc_pld_pending b \<and> sc_pld_stats a = sc_pld_stats b \<and> sc_pld_window a = sc_pld_window b \<and>
   sc_idle a = sc_idle b \<and> sc_admitting a = sc_admitting b \<and> sc_total_prompt a = sc_total_prompt b \<and> sc_total_completion a = sc_total_completion b \<and>
   sc_processed a = sc_processed b"
  by (cases a; cases b) (simp add: spec_rest_def)

lemma speculation_rest: "spec_rest (fst (try_speculative_decode env rid i t s)) = spec_rest s"
proof -
  have e: "spec_rest (emergency_reinsert env rid old t rem kv g s) = spec_rest s" for old t rem kv g s
    by (simp add: emergency_reinsert_def swap_uid_def split: prod.split option.split list.split)
  have p: "spec_rest (fst (put_back env rid old t rem kv token budget extra g s)) = spec_rest s" for old t rem kv token budget extra g s
    by (simp add: put_back_def swap_uid_def e split: prod.split option.split list.split)
  have "spec_rest (fst (speculate env rid u t temp rem ds g s)) = spec_rest s" for u temp rem ds g s
    by (simp add: speculate_def Let_def e p split: prod.split option.split)
  then show ?thesis
    by (simp add: try_speculative_decode_def Let_def split: prod.split option.split)
qed

end
