(* ===== verification/Sched_Text.thy ===== *)
theory Sched_Text
  imports Sched_Emit
begin

text \<open>
  The text of a request: stop strings are found as soon as they are complete, the streamed pieces add up to the
  detokenised output, and the cases where text or a stop is lost.
\<close>

section \<open>Stop strings\<close>





text \<open>The text behind the last thought, where stop strings count.\<close>

definition visible_from :: "string \<Rightarrow> nat" where
  "visible_from t = (case py_rfind t ''</think>'' of None \<Rightarrow> 0 | Some j \<Rightarrow> j + 8)"



lemma visible_plain: "py_rfind t ''</think>'' = None \<Longrightarrow> visible_from t = 0"
  by (simp add: visible_from_def)


section \<open>Streamed text\<close>

abbreviation pool_tokens :: "('g, 'c) scheduler \<Rightarrow> string \<Rightarrow> int list" where
  "pool_tokens s rid \<equiv> (case pd_get (sc_detok s) rid of None \<Rightarrow> [] | Some ts \<Rightarrow> ts)"

lemma append_fold_sampling: "sampling (append_tokens ts r) = sampling r"
  by (simp add: append_tokens_def fold_append_output)

lemma measure_frame [simp]:
  "sc_detok (measure_drafts rid i t s) = sc_detok s" "sc_objs (measure_drafts rid i t s) = sc_objs s"
  "sc_running (measure_drafts rid i t s) = sc_running s" "sc_gen (measure_drafts rid i t s) = sc_gen s"
  by (simp_all add: measure_drafts_def Let_def split: prod.split)

lemma extend_frame:
  assumes "extend_speculatively env rid i resp s = (s1, kept, halted)"
  shows "sc_detok s1 = sc_detok s" "sampling (the_req s1 j) = sampling (the_req s j)"
proof -
  have "sc_detok s1 = sc_detok s \<and> sampling (the_req s1 j) = sampling (the_req s j)"
  proof (cases "sc_pld_spec s \<and> sc_pld_auto s \<and> \<not> sp_logprobs (sampling (the_req s i)) \<and> gr_finish resp = None \<and> sc_gen s \<noteq> None")
    case True
    obtain s0 raw where t: "try_speculative_decode env rid i (gr_token resp) s = (s0, raw)" by fastforce
    have "sc_detok s0 = sc_detok s \<and> sc_objs s0 = sc_objs s"
      using spec_rest_fields [OF speculation_rest [of env rid i "gr_token resp" s, unfolded t fst_conv]] by blast
    then show ?thesis
      using assms unfolding extend_speculatively_def if_P [OF True] t prod.case Let_def by (auto simp: append_fold_sampling)
  next
    case False
    then show ?thesis using assms unfolding extend_speculatively_def if_not_P [OF False] by simp
  qed
  then show "sc_detok s1 = sc_detok s" "sampling (the_req s1 j) = sampling (the_req s j)" by simp_all
qed

lemma advance_frame [simp]:
  "sc_detok (advance_request_state_machine i ts s) = sc_detok s" "the_req (advance_request_state_machine i ts s) j = the_req s j"
  by (simp_all add: advance_request_state_machine_def split: option.split)

lemma decode_frame:
  "decode_response env rid i resp spec halted s = (s1, txt, cutoff) \<Longrightarrow> the_req s1 j = the_req s j"
  unfolding decode_response_def Let_def by (auto split: if_splits option.splits)

lemma decode_text:
  assumes "decode_response env rid i resp spec False s = (s1, txt, None)" "gr_finish resp \<noteq> Some ''stop''"
    "request_stop_ids (the_req s i) = {}"
  shows "txt = drop (length (se_detok env (pool_tokens s rid))) (se_detok env (pool_tokens s rid @ gr_token resp # spec)) \<and>
    pd_get (sc_detok s1) rid = Some (pool_tokens s rid @ gr_token resp # spec)"
  using assms unfolding decode_response_def Let_def by (auto split: if_splits option.splits)

lemma finish_finished [simp]: "ro_finished (snd (finish_request env rid i f cutoff out s))"
  by (simp add: finish_request_def Let_def)

lemma emit_text:
  assumes "emit env rid i resp s = (s1, out)" "\<not> ro_finished out" "request_stop_ids (the_req s i) = {}"
  shows "ro_new_text out = drop (length (se_detok env (pool_tokens s rid))) (se_detok env (pool_tokens s rid @ ro_new_token_ids out)) \<and>
    pool_tokens s1 rid = pool_tokens s rid @ ro_new_token_ids out \<and> sampling (the_req s1 i) = sampling (the_req s i)"
proof -
  obtain s2 where s2_def: "s2 = (let s1 = upd_req i (\<lambda>r. append_output_token r (gr_token resp)) s
    in if sc_pld_spec s1 then measure_drafts rid i (gr_token resp) s1 else s1)" by blast
  obtain s3 dr halted where s3: "extend_speculatively env rid i resp s2 = (s3, dr, halted)" by (metis prod_cases3)
  obtain s4 tx cutoff where s4: "decode_response env rid i resp dr halted s3 = (s4, tx, cutoff)" by (metis prod_cases3)
  let ?s5 = "upd_req i (record_logprob env resp) s4"
  let ?out = "token_output rid (the_req ?s5 i) (gr_token resp # dr) tx"
  have e: "(case effective_finish resp halted cutoff of None \<Rightarrow> (?s5, ?out) | Some f \<Rightarrow> finish_request env rid i f cutoff ?out ?s5) = (s1, out)"
    using assms(1) unfolding emit_def Let_def s2_def [unfolded Let_def, symmetric] s3 prod.case s4 .
  have n: "effective_finish resp halted cutoff = None"
  proof (rule ccontr)
    assume "effective_finish resp halted cutoff \<noteq> None"
    then obtain f where "effective_finish resp halted cutoff = Some f" by blast
    then have "out = snd (finish_request env rid i f cutoff ?out ?s5)" using e by simp
    then show False using assms(2) by simp
  qed
  then have c: "cutoff = None" "\<not> halted" "gr_finish resp = None" by (auto simp: effective_finish_def split: if_splits)
  have s2: "sc_detok s2 = sc_detok s" "sampling (the_req s2 i) = sampling (the_req s i)"
    by (simp_all add: s2_def Let_def append_output_token_def)
  have r: "request_stop_ids (the_req s3 i) = {}" using assms(3) s2 extend_frame(2) [OF s3, of i] by (simp add: request_stop_ids_def)
  have d: "sc_detok s3 = sc_detok s" using extend_frame(1) [OF s3] s2(1) by simp
  have "sampling (the_req s4 i) = sampling (the_req s i)" using decode_frame [OF s4, of i] extend_frame(2) [OF s3, of i] s2(2) by simp
  then have sam: "sampling (the_req ?s5 i) = sampling (the_req s i)" by (simp add: record_logprob_def split: option.split)
  have t: "tx = drop (length (se_detok env (pool_tokens s rid))) (se_detok env (pool_tokens s rid @ gr_token resp # dr)) \<and>
      pd_get (sc_detok s4) rid = Some (pool_tokens s rid @ gr_token resp # dr)"
    using decode_text [of env rid i resp dr s3 s4 tx] s4 c r unfolding d by simp
  have o: "s1 = ?s5" "out = ?out" using e unfolding n option.case by (metis prod.inject)+
  show ?thesis using t sam unfolding o by (simp add: token_output_def)
qed

text \<open>The responses of one request, one after the other.\<close>

fun emit_all :: "('g, 'c) sched_env \<Rightarrow> string \<Rightarrow> nat \<Rightarrow> gen_response list \<Rightarrow> ('g, 'c) scheduler \<Rightarrow> ('g, 'c) scheduler \<times> request_output list" where
  "emit_all env rid i [] s = (s, [])"
| "emit_all env rid i (x # xs) s =
     (let (s1, out) = emit env rid i x s; (s2, outs) = emit_all env rid i xs s1 in (s2, out # outs))"

text \<open>
  C17. Streamed text adds up.  Take a request in any state that has no stop token ids of its own, and a detokenizer
  that never takes text back when tokens are added.  Over responses none of which finishes the request, the text of
  the tokens its detokenizer had, followed by the pieces the outputs carry, is the text of those tokens and the ones
  the outputs carry, whatever speculation adds to a step.
\<close>

theorem streamed_text_adds_up:
  assumes "\<forall>a b. prefix (se_detok env a) (se_detok env (a @ b))"
    and "sp_stop_token_ids (sampling (the_req s i)) = None"
    and "filter ro_finished (snd (emit_all env rid i resps s)) = []"
  shows "se_detok env (pool_tokens s rid) @ concat (map ro_new_text (snd (emit_all env rid i resps s)))
    = se_detok env (pool_tokens s rid @ concat (map ro_new_token_ids (snd (emit_all env rid i resps s))))"
  using assms(2,3)
proof (induction resps arbitrary: s)
  case (Cons x xs)
  obtain s1 out where e: "emit env rid i x s = (s1, out)" by fastforce
  obtain s2 outs where es: "emit_all env rid i xs s1 = (s2, outs)" by fastforce
  have u: "\<not> ro_finished out" "filter ro_finished (snd (emit_all env rid i xs s1)) = []" using Cons.prems(2) e es by (simp_all split: if_splits)
  have "request_stop_ids (the_req s i) = {}" using Cons.prems(1) by (simp add: request_stop_ids_def)
  from emit_text [OF e u(1) this]
  have t: "ro_new_text out = drop (length (se_detok env (pool_tokens s rid))) (se_detok env (pool_tokens s rid @ ro_new_token_ids out))"
    "pool_tokens s1 rid = pool_tokens s rid @ ro_new_token_ids out" "sampling (the_req s1 i) = sampling (the_req s i)" by simp_all
  have "se_detok env (pool_tokens s rid) @ ro_new_text out = se_detok env (pool_tokens s1 rid)"
    unfolding t(1,2) using assms(1) by (auto simp: prefix_def) (metis append_eq_conv_conj)
  moreover have "sp_stop_token_ids (sampling (the_req s1 i)) = None" using Cons.prems(1) t(3) by simp
  ultimately show ?case using Cons.IH [OF _ u(2)] t(2) e es by (simp flip: append_assoc)
qed simp

definition demo_request :: "sampling_params \<Rightarrow> sched_request" where
  "demo_request sp = \<lparr>rq = (new_request ''r'' (PromptTokens [1, 2]) sp 0)\<lparr>prompt_token_ids := Some [1, 2]\<rparr>,
     rq_added_stops = None, rq_max_prompt = 0, rq_add_special = None, rq_machine = None\<rparr>"

definition demo_scheduler :: "sampling_params \<Rightarrow> (toy_gen, unit) scheduler" where
  "demo_scheduler sp =
     (new_scheduler {} 4 False () None False False 0)\<lparr>sc_objs := (\<lambda>_. demo_request sp), sc_next_obj := 1, sc_requests := [(''r'', 0)],
        sc_running := [(''r'', 0)], sc_uid_of := [(''r'', 7)], sc_rid_of := [(7, ''r'')], sc_gen := Some \<lparr>tg_next = 8, tg_log = []\<rparr>\<rparr>"

definition demo_response :: "int \<Rightarrow> gen_response" where
  "demo_response t = \<lparr>gr_uid = 7, gr_token = t, gr_finish = None, gr_cache = [], gr_all_tokens = []\<rparr>"

lemma demo_fields:
  "pd_get (sc_detok (demo_scheduler sp)) rid = None" "the_req (demo_scheduler sp) i = rq (demo_request sp)"
  "sampling (rq (demo_request sp)) = sp"
  by (simp_all add: demo_scheduler_def new_scheduler_def demo_request_def new_request_def)

theorem streamed_text_adds_up_witness:
  "let s = (demo_scheduler sp_default)\<lparr>sc_detok := [(''r'', [33, 33])]\<rparr>;
       outs = snd (emit_all toy_env ''r'' 0 [demo_response 104, demo_response 105] s)
   in ''!!'' @ concat (map ro_new_text outs) = ''!!hi''"
proof -
  let ?s = "(demo_scheduler sp_default)\<lparr>sc_detok := [(''r'', [33, 33])]\<rparr>"
  let ?e = "emit_all toy_env ''r'' 0 [demo_response 104, demo_response 105] ?s"
  have f: "filter ro_finished (snd ?e) = []" by code_simp
  have t: "concat (map ro_new_token_ids (snd ?e)) = [104, 105]" by code_simp
  have n: "sp_stop_token_ids (sampling (the_req ?s 0)) = None" by code_simp
  have q: "pool_tokens ?s ''r'' = [33, 33]" by code_simp
  have d: "se_detok toy_env [33, 33] = ''!!''" "se_detok toy_env ([33, 33] @ [104, 105]) = ''!!hi''" by code_simp+
  have p: "\<forall>a b. prefix (se_detok toy_env a) (se_detok toy_env (a @ b))" by (simp add: toy_env_def)
  from streamed_text_adds_up [OF p n f] show ?thesis unfolding t q d Let_def .
qed

section \<open>Where text or a stop is lost\<close>

text \<open>
  With a generator that has no stop set of its own, a request's stop token that is not also the model's is
  swallowed: the output has no text, the request is not finished, and the token never reaches the detokenizer.
\<close>

lemma stop_token_is_swallowed:
  assumes "sc_gen s = Some g" "\<not> se_shares_stops env g" "\<not> sc_pld_spec s" "gr_finish resp = None"
    and "sp_stop_token_ids (sampling (the_req s i)) = Some ts" "gr_token resp \<in> set ts"
  shows "ro_new_text (snd (emit env rid i resp s)) = [] \<and> \<not> ro_finished (snd (emit env rid i resp s)) \<and>
    pool_tokens (fst (emit env rid i resp s)) rid = pool_tokens s rid"
proof -
  let ?s = "upd_req i (\<lambda>r. append_output_token r (gr_token resp)) s"
  have e: "extend_speculatively env rid i resp ?s = (?s, [], False)" using assms(3) by (simp add: extend_speculatively_def)
  have r: "request_stop_ids (the_req ?s i) = set ts" using assms(5) by (simp add: request_stop_ids_def append_output_token_def)
  let ?d = "?s\<lparr>sc_detok := pd_set (sc_detok s) rid (pool_tokens s rid)\<rparr>"
  have d: "decode_response env rid i resp [] False ?s = (?d, [], None)"
    using assms r unfolding decode_response_def Let_def by (auto simp: r)
  have f: "effective_finish resp False None = None" using assms(4) by (simp add: effective_finish_def)
  have "emit env rid i resp s = (upd_req i (record_logprob env resp) ?d,
      token_output rid (the_req (upd_req i (record_logprob env resp) ?d) i) [gr_token resp] [])"
    unfolding emit_def Let_def upd_req_fields if_not_P [OF assms(3)] e prod.case d f option.case ..
  then show ?thesis by (simp add: token_output_def)
qed

text \<open>
  A stop token among accepted drafts ends the request before the text of this step is made: the ordinary token
  of the response and the drafts kept before the stop are in the token ids, and in no text.
\<close>

lemma speculative_stop_loses_text:
  assumes "extend_speculatively env rid i resp (let s1 = upd_req i (\<lambda>r. append_output_token r (gr_token resp)) s
      in if sc_pld_spec s1 then measure_drafts rid i (gr_token resp) s1 else s1) = (s3, kept, True)"
  shows "ro_finished (snd (emit env rid i resp s)) \<and> ro_new_token_ids (snd (emit env rid i resp s)) = gr_token resp # kept \<and>
    ro_new_text (snd (emit env rid i resp s)) = [] \<and> ro_output_text (snd (emit env rid i resp s)) = se_detok_final env (pool_tokens s3 rid)"
proof -
  let ?d = "s3\<lparr>sc_detok := pd_set (sc_detok s3) rid (pool_tokens s3 rid)\<rparr>"
  have d: "decode_response env rid i resp kept True s3 = (?d, [], None)" by (simp add: decode_response_def Let_def)
  have f: "effective_finish resp True None = Some ''stop''" by (simp add: effective_finish_def)
  have "emit env rid i resp s = finish_request env rid i ''stop'' None
      (token_output rid (the_req (upd_req i (record_logprob env resp) ?d) i) (gr_token resp # kept) []) (upd_req i (record_logprob env resp) ?d)"
    using assms unfolding emit_def Let_def by (simp add: d f)
  then show ?thesis by (simp add: finish_request_def Let_def token_output_def)
qed

text \<open>
  Of two stop strings that one step completes, the first in the list ends the text and not the first in the text;
  and a stop string that arrives in two steps has its beginning streamed, while the final text is cut before it.
\<close>

lemma stop_strings_leave_traces:
  "find_stop_string [''END'', ''##''] ''a##bEND'' ''a##bEND'' = Some 4 \<and>
   (let (s, outs) = emit_all toy_env ''r'' 0 [demo_response 104, demo_response 35, demo_response 35]
          (demo_scheduler (sp_default\<lparr>sp_stop := Some [''##'']\<rparr>))
    in map ro_new_text outs = [''h'', ''#'', []] \<and> map ro_finished outs = [False, False, True] \<and> ro_output_text (last outs) = ''h'')"
  by (intro conjI; code_simp)

end
