(* ===== verification/Sched_Step.thy ===== *)
theory Sched_Step
  imports Sched_Text
begin

text \<open>
  One scheduling step (\<open>Scheduler.step\<close>): deferred aborts, admission of waiting requests into the generator, one
  call of the generator with recovery from cache errors, the outputs, and the clean-up of finished requests.  What the
  worker does to make a cache hit usable (reconstruction, dequantisation, validation, the memory budget) and the storing
  of a finished request's cache belong to the environment.
\<close>

section \<open>The generator and its sampling parameters\<close>

definition sampler_key :: "sampling_params \<Rightarrow> real \<times> real \<times> real \<times> int \<times> real" where
  "sampler_key sp = (sp_temperature sp, sp_top_p sp, sp_min_p sp, sp_top_k sp, sp_repetition_penalty sp)"

text \<open>\<open>_ensure_batch_generator\<close>, with the stop set of \<open>_create_batch_generator\<close>; the value says whether caches were cleared.\<close>

definition ensure_batch_generator :: "('g, 'c) sched_env \<Rightarrow> sampling_params \<Rightarrow> ('g, 'c) scheduler \<Rightarrow> ('g, 'c) scheduler \<times> bool" where
  "ensure_batch_generator env sp s =
     (if sc_gen s = None \<or> sc_sampler_params s \<noteq> Some (sampler_key sp) then
        (if sc_gen s \<noteq> None \<and> sc_running s \<noteq> [] then (s, False)
         else
           (let (c, cleared) = (if sc_gen s = None then (sc_cache s, False) else se_recreated env (sc_cache s));
                stops = sc_stop_tokens s \<union> (case sp_stop_token_ids sp of None \<Rightarrow> {} | Some ts \<Rightarrow> set ts)
            in (s\<lparr>sc_cache := c, sc_gen := se_create env sp stops, sc_gen_stops := stops, sc_sampler_params := Some (sampler_key sp)\<rparr>, cleared)))
      else (s, False))"

section \<open>Admission of waiting requests\<close>

definition drop_hit :: "request \<Rightarrow> request" where
  "drop_hit r = r\<lparr>prompt_cache := None, cached_tokens := 0, remaining_tokens := prompt_token_ids r\<rparr>"

definition has_hit :: "request \<Rightarrow> bool" where
  "has_hit r \<longleftrightarrow> prompt_cache r \<noteq> None \<or> cached_tokens r > 0"

definition release_hit :: "('g, 'c) sched_env \<Rightarrow> nat \<Rightarrow> ('g, 'c) scheduler \<Rightarrow> ('g, 'c) scheduler" where
  "release_hit env i s =
     upd_req i drop_hit (s\<lparr>sc_cache := se_release env (sc_cache s) (request_id (the_req s i))\<rparr>)"

text \<open>The hit is made usable on the worker, or it is given up.\<close>

definition hydrate :: "('g, 'c) sched_env \<Rightarrow> nat \<Rightarrow> bool \<Rightarrow> ('g, 'c) scheduler \<Rightarrow> ('g, 'c) scheduler" where
  "hydrate env i cleared s =
     (if \<not> has_hit (the_req s i) then s
      else if cleared then upd_req i (\<lambda>r. r\<lparr>shared_prefix_blocks := 0\<rparr>) (release_hit env i s)
      else (let (c, h) = se_hydrate env (sc_cache s) (the_req s i); s1 = s\<lparr>sc_cache := c\<rparr>
            in case h of None \<Rightarrow> release_hit env i s1 | Some h \<Rightarrow> upd_req i (apply_hit (Some h)) s1))"

text \<open>An exact hit leaves nothing to compute: then the last token of the prompt starts the generation.\<close>

definition tokens_to_process :: "request \<Rightarrow> int list" where
  "tokens_to_process r =
     (case remaining_tokens r of
        None \<Rightarrow> prompt_ids r
      | Some ts \<Rightarrow> if ts = [] then drop (length (prompt_ids r) - 1) (prompt_ids r) else ts)"

text \<open>Insertion with the hit, then without it; no identifiers when both fail.\<close>

definition insert_request :: "('g, 'c) sched_env \<Rightarrow> nat \<Rightarrow> 'g \<Rightarrow> ('g, 'c) scheduler \<Rightarrow> ('g, 'c) scheduler \<times> int list option" where
  "insert_request env i g s =
     (let r = the_req s i
      in case se_insert env g r (tokens_to_process r) (remaining_output_budget r) (prompt_cache r) of
           (g1, Inr us) \<Rightarrow> (s\<lparr>sc_gen := Some g1\<rparr>, Some us)
         | (g1, Inl e) \<Rightarrow>
             (if prompt_cache r \<noteq> None then
                (let s1 = release_hit env i s; r1 = the_req s1 i
                 in case se_insert env g1 r1 (prompt_ids r1) (remaining_output_budget r1) None of
                      (g2, Inr us) \<Rightarrow> (s1\<lparr>sc_gen := Some g2\<rparr>, Some us)
                    | (g2, Inl e) \<Rightarrow> (s1\<lparr>sc_gen := Some g2\<rparr>, None))
              else (s\<lparr>sc_gen := Some g1\<rparr>, None)))"

definition start_running :: "('g, 'c) sched_env \<Rightarrow> nat \<Rightarrow> int \<Rightarrow> ('g, 'c) scheduler \<Rightarrow> ('g, 'c) scheduler" where
  "start_running env i u s =
     (let rid = request_id (the_req s i); ids = request_stop_ids (the_req s i);
          shares = (case sc_gen s of None \<Rightarrow> False | Some g \<Rightarrow> se_shares_stops env g);
          s1 = s\<lparr>sc_uid_of := pd_set (sc_uid_of s) rid u, sc_rid_of := pd_set (sc_rid_of s) u rid\<rparr>;
          s2 = upd_req i (\<lambda>r. r\<lparr>batch_uid := Some u, status := RUNNING\<rparr>) s1;
          s3 = s2\<lparr>sc_running := pd_set (sc_running s2) rid i\<rparr>;
          s4 = (if ids \<noteq> {} \<and> shares
                then upd_obj i (\<lambda>o1. o1\<lparr>rq_added_stops := Some ids\<rparr>) (s3\<lparr>sc_gen_stops := sc_gen_stops s3 \<union> ids\<rparr>) else s3)
      in s4\<lparr>sc_total_prompt := sc_total_prompt s4 + num_prompt_tokens (the_req s4 i)\<rparr>)"

text \<open>One request taken from the front of the queue: \<open>None\<close> when it goes back there, otherwise whether it runs.\<close>

definition admit_next :: "('g, 'c) sched_env \<Rightarrow> nat \<Rightarrow> ('g, 'c) scheduler \<Rightarrow> ('g, 'c) scheduler \<times> bool option" where
  "admit_next env i s =
     (let (s1, cleared) = ensure_batch_generator env (sampling (the_req s i)) s
      in case sc_gen s1 of
           None \<Rightarrow> (s1, None)
         | Some g \<Rightarrow>
             (case insert_request env i g (hydrate env i cleared s1) of
                (s2, None) \<Rightarrow> (s2, None)
              | (s2, Some []) \<Rightarrow> (s2, Some False)
              | (s2, Some (u # us)) \<Rightarrow> (start_running env i u s2, Some True)))"

fun schedule_from :: "('g, 'c) sched_env \<Rightarrow> nat list \<Rightarrow> ('g, 'c) scheduler \<Rightarrow> ('g, 'c) scheduler \<times> nat list" where
  "schedule_from env [] s = (s\<lparr>sc_waiting := []\<rparr>, [])"
| "schedule_from env (i # rest) s =
     (if int (length (sc_running s)) \<ge> sc_max_num_seqs s \<or> (sc_running s \<noteq> [] \<and> se_tight env (sc_gen s))
      then (s\<lparr>sc_waiting := i # rest\<rparr>, [])
      else case admit_next env i s of
             (s1, None) \<Rightarrow> (s1\<lparr>sc_waiting := i # rest\<rparr>, [])
           | (s1, Some runs) \<Rightarrow>
               (let (s2, more) = schedule_from env rest s1 in (s2, (if runs then i # more else more))))"

definition schedule_waiting :: "('g, 'c) sched_env \<Rightarrow> ('g, 'c) scheduler \<Rightarrow> ('g, 'c) scheduler \<times> nat list" where
  "schedule_waiting env s = schedule_from env (sc_waiting s) (s\<lparr>sc_waiting := []\<rparr>)"

section \<open>Clean-up of finished requests\<close>

text \<open>The finished request's cache is stored, a generator that retains it lets it go, and its own stop tokens leave the set.\<close>

definition release_finished :: "('g, 'c) sched_env \<Rightarrow> int set \<Rightarrow> string \<Rightarrow> nat \<Rightarrow> ('g, 'c) scheduler \<Rightarrow> ('g, 'c) scheduler" where
  "release_finished env surviving rid i s =
     (let a = (if bypass_prefix_cache (the_req s i) then s else s\<lparr>sc_cache := se_store env (sc_cache s) (the_req s i)\<rparr>);
          b = (case (sc_gen a, pd_get (sc_uid_of a) rid) of
                 (Some g, Some u) \<Rightarrow> if se_releases env g then a\<lparr>sc_gen := Some (se_remove env g u)\<rparr> else a
               | _ \<Rightarrow> a)
      in case (sc_gen b, rq_added_stops (sc_objs b i)) of
           (Some g, Some added) \<Rightarrow> b\<lparr>sc_gen_stops := sc_gen_stops b - (added - surviving - sc_stop_tokens b)\<rparr>
         | _ \<Rightarrow> b)"

definition cleanup_one :: "('g, 'c) sched_env \<Rightarrow> int set \<Rightarrow> string \<Rightarrow> ('g, 'c) scheduler \<Rightarrow> ('g, 'c) scheduler" where
  "cleanup_one env surviving rid s =
     (let s1 = s\<lparr>sc_pld_pending := pd_del (sc_pld_pending s) rid, sc_pld_index := pd_del (sc_pld_index s) rid\<rparr>;
          s2 = (case pd_get (sc_running s1) rid of None \<Rightarrow> s1 | Some i \<Rightarrow> release_finished env surviving rid i s1);
          s3 = s2\<lparr>sc_detok := pd_del (sc_detok s2) rid, sc_running := pd_del (sc_running s2) rid, sc_requests := pd_del (sc_requests s2) rid\<rparr>;
          s4 = (case pd_get (sc_uid_of s3) rid of
                  None \<Rightarrow> s3
                | Some u \<Rightarrow> s3\<lparr>sc_rid_of := pd_del (sc_rid_of s3) u, sc_uid_of := pd_del (sc_uid_of s3) rid\<rparr>)
      in s4\<lparr>sc_finished_ids := insert rid (sc_finished_ids s4)\<rparr>)"

definition cleanup_finished :: "('g, 'c) sched_env \<Rightarrow> string list \<Rightarrow> ('g, 'c) scheduler \<Rightarrow> ('g, 'c) scheduler" where
  "cleanup_finished env ids s = fold (cleanup_one env (surviving_stops s (\<lambda>k. k \<in> set ids))) ids s"

section \<open>Recovery\<close>

definition recover_from_cache_error :: "('g, 'c) sched_env \<Rightarrow> ('g, 'c) scheduler \<Rightarrow> ('g, 'c) scheduler" where
  "recover_from_cache_error env s =
     s\<lparr>sc_gen := None, sc_sampler_params := None, sc_cache := se_clear env (sc_cache s), sc_uid_of := [], sc_rid_of := []\<rparr>"

definition reschedule_one :: "string \<times> nat \<Rightarrow> ('g, 'c) scheduler \<Rightarrow> ('g, 'c) scheduler" where
  "reschedule_one x s =
     (let (rid, i) = x; s1 = upd_req i restart_request s
      in s1\<lparr>sc_detok := pd_del (sc_detok s1) rid, sc_pld_pending := pd_del (sc_pld_pending s1) rid, sc_pld_index := pd_del (sc_pld_index s1) rid,
            sc_waiting := i # sc_waiting s1, sc_running := pd_del (sc_running s1) rid\<rparr>)"

definition reschedule_running_requests :: "('g, 'c) scheduler \<Rightarrow> ('g, 'c) scheduler" where
  "reschedule_running_requests s = fold reschedule_one (sc_running s) s"

text \<open>Calling \<open>next\<close> on no generator at all.\<close>

definition no_generator :: gen_error where
  "no_generator = \<lparr>er_classes = [''AttributeError'', ''Exception''],
     er_text = [CHR 0x27] @ ''NoneType'' @ [CHR 0x27] @ '' object has no attribute '' @ [CHR 0x27] @ ''next'' @ [CHR 0x27]\<rparr>"

definition call_next :: "('g, 'c) sched_env \<Rightarrow> ('g, 'c) scheduler \<Rightarrow> ('g, 'c) scheduler \<times> (gen_error + gen_response list \<times> gen_response list)" where
  "call_next env s =
     (case sc_gen s of
        None \<Rightarrow> (s, Inl no_generator)
      | Some g \<Rightarrow> (let (g1, res) = se_next env g (sc_gen_stops s) in (s\<lparr>sc_gen := Some g1\<rparr>, res)))"

fun run_attempts :: "('g, 'c) sched_env \<Rightarrow> bool \<Rightarrow> nat \<Rightarrow> ('g, 'c) scheduler \<Rightarrow>
    ('g, 'c) scheduler \<times> (gen_error + request_output list \<times> string list)" where
  "run_attempts env defer retries s =
     (case call_next env s of
        (s1, Inr (prompts, generated)) \<Rightarrow>
          (let (s2, outs, fin) = process_batch_responses env (prompts @ generated) s1
           in (if defer then s2 else cleanup_finished env fin s2, Inr (outs, fin)))
      | (s1, Inl e) \<Rightarrow>
          (case retries of
             0 \<Rightarrow> (s1, Inl e)
           | Suc n \<Rightarrow>
               if is_cache_error e
               then run_attempts env defer n (fst (schedule_waiting env (reschedule_running_requests (recover_from_cache_error env s1))))
               else (s1, Inl e)))"

section \<open>The step\<close>

record scheduler_output =
  so_scheduled :: "string list"
  so_num_scheduled_tokens :: int
  so_finished :: "string list"
  so_outputs :: "request_output list"
  so_has_work :: bool

definition sched_step :: "('g, 'c) sched_env \<Rightarrow> nat \<Rightarrow> bool \<Rightarrow> ('g, 'c) scheduler \<Rightarrow> ('g, 'c) scheduler \<times> (gen_error + scheduler_output)" where
  "sched_step env max_retries defer s =
     (let (s1, started) = schedule_waiting env (process_pending_aborts env s);
          out = \<lparr>so_scheduled = map (\<lambda>i. request_id (the_req s1 i)) started,
                 so_num_scheduled_tokens = sum_list (map (\<lambda>i. num_prompt_tokens (the_req s1 i)) started),
                 so_finished = [], so_outputs = [], so_has_work = False\<rparr>
      in if sc_gen s1 \<noteq> None \<and> sc_running s1 \<noteq> [] then
           (case run_attempts env defer max_retries s1 of
              (s2, Inl e) \<Rightarrow> (s2, Inl e)
            | (s2, Inr (outs, fin)) \<Rightarrow>
                (s2\<lparr>sc_finished_ids := {}\<rparr>, Inr (out\<lparr>so_finished := fin, so_outputs := outs, so_has_work := True\<rparr>)))
         else (s1\<lparr>sc_finished_ids := {}\<rparr>, Inr out))"

end
