(* ===== verification/Sched_Books.thy ===== *)
theory Sched_Books
  imports Sched_Step
begin

text \<open>
  The books of the scheduler: every known request is waiting or running and never both, the running ones are at most
  \<open>max_num_seqs\<close> and carry an identifier of the generator, and the two identifier tables agree.  Here: the invariant and
  the operations on requests; the generator's side is a locale.
\<close>

section \<open>Invariant\<close>

definition books_of :: "nat list \<Rightarrow> ('g, 'c) scheduler \<Rightarrow> bool" where
  "books_of waiting s \<longleftrightarrow>
     pd_ok (sc_requests s) \<and> pd_ok (sc_running s) \<and> distinct waiting \<and>
     (\<forall>rid i. pd_get (sc_requests s) rid = Some i \<longrightarrow>
        request_id (the_req s i) = rid \<and> i < sc_next_obj s \<and> (i \<in> set waiting \<or> pd_get (sc_running s) rid = Some i)) \<and>
     (\<forall>rid i. pd_get (sc_running s) rid = Some i \<longrightarrow> pd_get (sc_requests s) rid = Some i \<and> status (the_req s i) \<noteq> WAITING) \<and>
     (\<forall>i \<in> set waiting. pd_get (sc_requests s) (request_id (the_req s i)) = Some i \<and> status (the_req s i) = WAITING) \<and>
     int (length (sc_running s)) \<le> max 0 (sc_max_num_seqs s)"

abbreviation books :: "('g, 'c) scheduler \<Rightarrow> bool" where
  "books s \<equiv> books_of (sc_waiting s) s"

text \<open>The tables against the ids that run, those whose abort is pending, and the identifiers the generator has given out.\<close>

definition uids_ok :: "('g \<Rightarrow> int) \<Rightarrow> string set \<Rightarrow> string set \<Rightarrow> 'g option \<Rightarrow> (string, int) pydict \<Rightarrow> (int, string) pydict \<Rightarrow> bool" where
  "uids_ok nu run pend gen uo ro \<longleftrightarrow>
     run \<inter> pend = {} \<and>
     (\<forall>u r. pd_get ro u = Some r \<longrightarrow> pd_get uo r = Some u) \<and>
     (\<forall>r u. pd_get uo r = Some u \<longrightarrow> (r \<in> run \<or> r \<in> pend) \<and> (case gen of None \<Rightarrow> False | Some g \<Rightarrow> u < nu g)) \<and>
     (\<forall>r \<in> run. pd_get uo r \<noteq> None)"

abbreviation run_ids :: "('g, 'c) scheduler \<Rightarrow> string set" where
  "run_ids s \<equiv> fst ` set (sc_running s)"

definition tables :: "('g \<Rightarrow> int) \<Rightarrow> ('g, 'c) scheduler \<Rightarrow> bool" where
  "tables nu s \<longleftrightarrow> uids_ok nu (run_ids s) (set (sc_pending_aborts s)) (sc_gen s) (sc_uid_of s) (sc_rid_of s)"

section \<open>The tables\<close>

lemma uids_okI:
  "run \<inter> pend = {} \<Longrightarrow> (\<And>u r. pd_get ro u = Some r \<Longrightarrow> pd_get uo r = Some u) \<Longrightarrow>
   (\<And>r u. pd_get uo r = Some u \<Longrightarrow> (r \<in> run \<or> r \<in> pend) \<and> (case gen of None \<Rightarrow> False | Some g \<Rightarrow> u < nu g)) \<Longrightarrow>
   (\<And>r. r \<in> run \<Longrightarrow> pd_get uo r \<noteq> None) \<Longrightarrow> uids_ok nu run pend gen uo ro"
  unfolding uids_ok_def by blast

lemma uids_okD:
  assumes "uids_ok nu run pend gen uo ro"
  shows "run \<inter> pend = {}" "pd_get ro u = Some r \<Longrightarrow> pd_get uo r = Some u"
    "pd_get uo r = Some u \<Longrightarrow> r \<in> run \<or> r \<in> pend" "pd_get uo r = Some u \<Longrightarrow> gen = Some g \<Longrightarrow> u < nu g"
    "pd_get uo r = Some u \<Longrightarrow> gen \<noteq> None" "r \<in> run \<Longrightarrow> pd_get uo r \<noteq> None"
  using assms unfolding uids_ok_def by (auto split: option.splits)

lemma uids_gen:
  assumes "uids_ok nu R P (Some g) uo ro" "nu g \<le> nu g1"
  shows "uids_ok nu R P (Some g1) uo ro"
proof (rule uids_okI)
  fix r u assume a: "pd_get uo r = Some u"
  have "u < nu g" using uids_okD(4) [OF assms(1) a refl] .
  then show "(r \<in> R \<or> r \<in> P) \<and> (case Some g1 of None \<Rightarrow> False | Some g \<Rightarrow> u < nu g)"
    using uids_okD(3) [OF assms(1) a] assms(2) by simp
qed (use uids_okD [OF assms(1)] in blast)+

lemma uids_fresh:
  assumes "uids_ok nu R P (Some g) uo ro" "nu g \<le> u"
  shows "pd_get ro u = None"
proof (cases "pd_get ro u")
  case (Some r)
  from uids_okD(4) [OF assms(1) uids_okD(2) [OF assms(1) Some] refl] assms(2) show ?thesis by simp
qed simp

lemma uids_swap:
  assumes "uids_ok nu R P (Some g) uo ro" "pd_get uo rid = Some old" "nu g \<le> u" "u < nu g1"
  shows "uids_ok nu R P (Some g1) (pd_set uo rid u) (pd_set (pd_del ro old) u rid)"
proof (rule uids_okI)
  fix u' r assume a: "pd_get (pd_set (pd_del ro old) u rid) u' = Some r"
  show "pd_get (pd_set uo rid u) r = Some u'"
  proof (cases "u' = u")
    case False
    then have b: "pd_get ro u' = Some r" "u' \<noteq> old" using a by (auto split: if_splits)
    have "pd_get uo r = Some u'" using uids_okD(2) [OF assms(1) b(1)] .
    then show ?thesis using b(2) assms(2) by auto
  qed (use a in simp)
next
  fix r u' assume a: "pd_get (pd_set uo rid u) r = Some u'"
  have l: "v < nu g1" if "pd_get uo x = Some v" for x v
    using uids_okD(4) [OF assms(1) that refl] assms(3,4) by simp
  show "(r \<in> R \<or> r \<in> P) \<and> (case Some g1 of None \<Rightarrow> False | Some g \<Rightarrow> u' < nu g)"
    using a l assms(4) uids_okD(3) [OF assms(1) assms(2)] uids_okD(3) [OF assms(1)] by (auto split: if_splits)
qed (use uids_okD(1,6) [OF assms(1)] in auto)

lemma uids_drop: "uids_ok nu R P g uo ro \<Longrightarrow> uids_ok nu R P g uo (pd_del ro old)"
  unfolding uids_ok_def by auto

lemma uids_start:
  assumes "uids_ok nu R {} (Some g) uo ro" "rid \<notin> R" "nu g \<le> u" "u < nu g1"
  shows "uids_ok nu (insert rid R) {} (Some g1) (pd_set uo rid u) (pd_set ro u rid)"
proof (rule uids_okI)
  have n: "pd_get uo rid = None" using uids_okD(3) [OF assms(1)] assms(2) by (cases "pd_get uo rid") auto
  fix u' r assume a: "pd_get (pd_set ro u rid) u' = Some r"
  show "pd_get (pd_set uo rid u) r = Some u'"
  proof (cases "u' = u")
    case False
    then have "pd_get uo r = Some u'" using a uids_okD(2) [OF assms(1), of u' r] by simp
    then show ?thesis using n by auto
  qed (use a in simp)
next
  fix r u' assume a: "pd_get (pd_set uo rid u) r = Some u'"
  have l: "v < nu g1" if "pd_get uo x = Some v" for x v
    using uids_okD(4) [OF assms(1) that refl] assms(3,4) by simp
  show "(r \<in> insert rid R \<or> r \<in> {}) \<and> (case Some g1 of None \<Rightarrow> False | Some g \<Rightarrow> u' < nu g)"
    using a l assms(4) uids_okD(3) [OF assms(1)] by (auto split: if_splits)
qed (use uids_okD(6) [OF assms(1)] in auto)

lemma uids_forget:
  "uids_ok nu R P g uo ro \<Longrightarrow> pd_get uo rid = Some u \<Longrightarrow> uids_ok nu (R - {rid}) P g (pd_del uo rid) (pd_del ro u)"
  unfolding uids_ok_def by auto

lemma uids_unknown: "uids_ok nu R P g uo ro \<Longrightarrow> pd_get uo rid = None \<Longrightarrow> uids_ok nu (R - {rid}) P g uo ro"
  unfolding uids_ok_def by auto

lemma uids_defer:
  "uids_ok nu R P g uo ro \<Longrightarrow> uids_ok nu (R - {rid}) (if rid \<in> fst ` set uo then insert rid P else P) g uo ro"
  unfolding uids_ok_def by (auto simp: pd_get_None_iff dest: pd_get_Some_in_keys)

lemma uids_empty: "uids_ok nu {} {} g [] []"
  by (simp add: uids_ok_def)

lemma uids_idle: "uids_ok nu {} {} g uo ro \<Longrightarrow> uids_ok nu {} {} g1 uo ro"
  unfolding uids_ok_def by auto

lemma uids_smaller:
  assumes "uids_ok nu R P g uo ro" "P' \<subseteq> P" "\<And>r. r \<in> P - P' \<Longrightarrow> pd_get uo r = None"
  shows "uids_ok nu R P' g uo ro"
proof (rule uids_okI)
  fix r u assume a: "pd_get uo r = Some u"
  show "(r \<in> R \<or> r \<in> P') \<and> (case g of None \<Rightarrow> False | Some g \<Rightarrow> u < nu g)"
    using uids_okD(3) [OF assms(1) a] uids_okD(4,5) [OF assms(1) a] assms(3) [of r] a by (cases g) auto
next
  show "R \<inter> P' = {}" using uids_okD(1) [OF assms(1)] assms(2) by blast
qed (simp_all add: uids_okD(2,6) [OF assms(1)])

lemma tables_frame [simp]:
  "tables nu (s\<lparr>sc_waiting := x1\<rparr>) = tables nu s" "tables nu (s\<lparr>sc_requests := x2\<rparr>) = tables nu s" "tables nu (s\<lparr>sc_objs := x3\<rparr>) = tables nu s"
  "tables nu (s\<lparr>sc_cache := x4\<rparr>) = tables nu s" "tables nu (s\<lparr>sc_gen_stops := x5\<rparr>) = tables nu s" "tables nu (s\<lparr>sc_sampler_params := x6\<rparr>) = tables nu s"
  "tables nu (s\<lparr>sc_detok := x7\<rparr>) = tables nu s" "tables nu (s\<lparr>sc_pld_pending := x8\<rparr>) = tables nu s" "tables nu (s\<lparr>sc_pld_index := x9\<rparr>) = tables nu s"
  "tables nu (s\<lparr>sc_pld_stats := xa\<rparr>) = tables nu s" "tables nu (s\<lparr>sc_finished_ids := xb\<rparr>) = tables nu s" "tables nu (s\<lparr>sc_total_prompt := xc\<rparr>) = tables nu s"
  "tables nu (s\<lparr>sc_total_completion := xd\<rparr>) = tables nu s" "tables nu (s\<lparr>sc_processed := xe\<rparr>) = tables nu s" "tables nu (s\<lparr>sc_next_obj := xf\<rparr>) = tables nu s"
  "tables nu (s\<lparr>sc_salvage := xg\<rparr>) = tables nu s" "tables nu (s\<lparr>sc_limits := xh\<rparr>) = tables nu s" "tables nu (s\<lparr>sc_pld_window := xi\<rparr>) = tables nu s"
  "tables nu (upd_req i f s) = tables nu s" "tables nu (upd_obj i f' s) = tables nu s"
  "tables nu ((upd_req i f s)\<lparr>sc_gen := g\<rparr>) = tables nu (s\<lparr>sc_gen := g\<rparr>)"
  by (simp_all add: tables_def)

lemma tables_swap:
  assumes "tables nu (s\<lparr>sc_gen := Some g\<rparr>)" "pd_get (sc_uid_of s) rid = Some old" "nu g \<le> u" "u < nu g1"
  shows "tables nu (swap_uid rid old u (s\<lparr>sc_gen := Some g1\<rparr>))"
  using uids_swap [of nu "run_ids s" "set (sc_pending_aborts s)" g "sc_uid_of s" "sc_rid_of s" rid old u g1] assms
  by (simp add: tables_def swap_uid_def)

lemma tables_gen: "tables nu (s\<lparr>sc_gen := Some g\<rparr>) \<Longrightarrow> nu g \<le> nu g1 \<Longrightarrow> tables nu (s\<lparr>sc_gen := Some g1\<rparr>)"
  by (simp add: tables_def uids_gen)

lemma tables_gen_same: "sc_gen s = Some g \<Longrightarrow> tables nu (s\<lparr>sc_gen := Some g\<rparr>) = tables nu s"
  by (simp add: tables_def)

text \<open>The books and the tables together.\<close>

definition sched_inv :: "('g \<Rightarrow> int) \<Rightarrow> ('g, 'c) scheduler \<Rightarrow> bool" where
  "sched_inv nu s \<longleftrightarrow> books s \<and> tables nu s"

section \<open>Requests\<close>

lemma books_frame [simp]:
  "books_of w (s\<lparr>sc_gen := x1\<rparr>) = books_of w s" "books_of w (s\<lparr>sc_uid_of := x2\<rparr>) = books_of w s" "books_of w (s\<lparr>sc_rid_of := x3\<rparr>) = books_of w s"
  "books_of w (s\<lparr>sc_cache := x4\<rparr>) = books_of w s" "books_of w (s\<lparr>sc_gen_stops := x5\<rparr>) = books_of w s" "books_of w (s\<lparr>sc_sampler_params := x6\<rparr>) = books_of w s"
  "books_of w (s\<lparr>sc_detok := x7\<rparr>) = books_of w s" "books_of w (s\<lparr>sc_pld_pending := x8\<rparr>) = books_of w s" "books_of w (s\<lparr>sc_pld_index := x9\<rparr>) = books_of w s"
  "books_of w (s\<lparr>sc_pld_stats := xa\<rparr>) = books_of w s" "books_of w (s\<lparr>sc_finished_ids := xb\<rparr>) = books_of w s" "books_of w (s\<lparr>sc_total_prompt := xc\<rparr>) = books_of w s"
  "books_of w (s\<lparr>sc_total_completion := xd\<rparr>) = books_of w s" "books_of w (s\<lparr>sc_processed := xe\<rparr>) = books_of w s" "books_of w (s\<lparr>sc_pending_aborts := xf\<rparr>) = books_of w s"
  "books_of w (s\<lparr>sc_waiting := xj\<rparr>) = books_of w s"
  "books_of w (s\<lparr>sc_salvage := xg\<rparr>) = books_of w s" "books_of w (s\<lparr>sc_limits := xh\<rparr>) = books_of w s" "books_of w (s\<lparr>sc_pld_window := xi\<rparr>) = books_of w s"
  by (simp_all add: books_of_def)

lemma books_upd_req [simp]:
  assumes "request_id (f (the_req s i)) = request_id (the_req s i)" "status (f (the_req s i)) = status (the_req s i)"
  shows "books_of w (upd_req i f s) = books_of w s"
proof -
  have e: "request_id (the_req (upd_req i f s) j) = request_id (the_req s j)" "status (the_req (upd_req i f s) j) = status (the_req s j)" for j
    using assms by simp_all
  show ?thesis unfolding books_of_def e by simp
qed

lemma books_upd_obj [simp]:
  assumes "rq (f (sc_objs s i)) = the_req s i"
  shows "books_of w (upd_obj i f s) = books_of w s"
proof -
  have e: "the_req (upd_obj i f s) j = the_req s j" for j using assms by simp
  show ?thesis unfolding books_of_def e by simp
qed

lemma books_ofI:
  "pd_ok (sc_requests s) \<Longrightarrow> pd_ok (sc_running s) \<Longrightarrow> distinct w \<Longrightarrow>
   (\<And>rid i. pd_get (sc_requests s) rid = Some i \<Longrightarrow>
      request_id (the_req s i) = rid \<and> i < sc_next_obj s \<and> (i \<in> set w \<or> pd_get (sc_running s) rid = Some i)) \<Longrightarrow>
   (\<And>rid i. pd_get (sc_running s) rid = Some i \<Longrightarrow> pd_get (sc_requests s) rid = Some i \<and> status (the_req s i) \<noteq> WAITING) \<Longrightarrow>
   (\<And>i. i \<in> set w \<Longrightarrow> pd_get (sc_requests s) (request_id (the_req s i)) = Some i \<and> status (the_req s i) = WAITING) \<Longrightarrow>
   int (length (sc_running s)) \<le> max 0 (sc_max_num_seqs s) \<Longrightarrow> books_of w s"
  unfolding books_of_def by simp

lemma books_ofD:
  assumes "books_of w s"
  shows "pd_ok (sc_requests s)" "pd_ok (sc_running s)" "distinct w"
    "pd_get (sc_requests s) rid = Some i \<Longrightarrow> request_id (the_req s i) = rid"
    "pd_get (sc_requests s) rid = Some i \<Longrightarrow> i < sc_next_obj s"
    "pd_get (sc_requests s) rid = Some i \<Longrightarrow> i \<in> set w \<or> pd_get (sc_running s) rid = Some i"
    "pd_get (sc_running s) rid = Some i \<Longrightarrow> pd_get (sc_requests s) rid = Some i"
    "pd_get (sc_running s) rid = Some i \<Longrightarrow> status (the_req s i) \<noteq> WAITING"
    "i \<in> set w \<Longrightarrow> pd_get (sc_requests s) (request_id (the_req s i)) = Some i"
    "i \<in> set w \<Longrightarrow> status (the_req s i) = WAITING"
    "int (length (sc_running s)) \<le> max 0 (sc_max_num_seqs s)"
  using assms unfolding books_of_def by simp_all

lemma books_not_waiting:
  "books_of w s \<Longrightarrow> i \<notin> set w \<Longrightarrow> request_id (f (the_req s i)) = request_id (the_req s i) \<Longrightarrow> status (f (the_req s i)) \<noteq> WAITING \<Longrightarrow>
   books_of w (upd_req i f s)"
  by (simp add: books_of_def) (metis (no_types, lifting))

lemma books_running_not_waiting: "books_of w s \<Longrightarrow> pd_get (sc_running s) rid = Some i \<Longrightarrow> i \<notin> set w"
  unfolding books_of_def by blast

lemma books_waiting_not_running: "books_of w s \<Longrightarrow> i \<in> set w \<Longrightarrow> request_id (the_req s i) \<notin> run_ids s"
  unfolding books_of_def by (metis option.inject option.exhaust pd_get_None_iff)

lemma books_running_id: "books_of w s \<Longrightarrow> pd_get (sc_running s) rid = Some i \<Longrightarrow> request_id (the_req s i) = rid"
  unfolding books_of_def by blast

lemma books_run_known: "books_of w s \<Longrightarrow> r \<in> run_ids s \<Longrightarrow> r \<in> fst ` set (sc_requests s) \<and> pd_get (sc_running s) r = pd_get (sc_requests s) r"
  by (metis books_ofD(7) pd_get_None_iff pd_get_Some_in_keys option.exhaust)

section \<open>Emission\<close>

text \<open>The part of the state that emission leaves alone.\<close>

definition queues :: "('g, 'c) scheduler \<Rightarrow> (string, nat) pydict \<times> nat list \<times> (string, nat) pydict \<times> string list \<times> nat \<times> int" where
  "queues s = (sc_requests s, sc_waiting s, sc_running s, sc_pending_aborts s, sc_next_obj s, sc_max_num_seqs s)"

lemma queues_fields:
  "queues a = queues b \<Longrightarrow> sc_requests a = sc_requests b \<and> sc_waiting a = sc_waiting b \<and> sc_running a = sc_running b \<and>
     sc_pending_aborts a = sc_pending_aborts b \<and> sc_next_obj a = sc_next_obj b \<and> sc_max_num_seqs a = sc_max_num_seqs b"
  by (simp add: queues_def)

lemma queues_frame [simp]:
  "queues (s\<lparr>sc_gen := x1\<rparr>) = queues s" "queues (s\<lparr>sc_uid_of := x2\<rparr>) = queues s" "queues (s\<lparr>sc_rid_of := x3\<rparr>) = queues s"
  "queues (s\<lparr>sc_cache := x4\<rparr>) = queues s" "queues (s\<lparr>sc_gen_stops := x5\<rparr>) = queues s" "queues (s\<lparr>sc_sampler_params := x6\<rparr>) = queues s"
  "queues (s\<lparr>sc_detok := x7\<rparr>) = queues s" "queues (s\<lparr>sc_pld_pending := x8\<rparr>) = queues s" "queues (s\<lparr>sc_pld_index := x9\<rparr>) = queues s"
  "queues (s\<lparr>sc_pld_stats := xa\<rparr>) = queues s" "queues (s\<lparr>sc_finished_ids := xb\<rparr>) = queues s" "queues (s\<lparr>sc_total_prompt := xc\<rparr>) = queues s"
  "queues (s\<lparr>sc_total_completion := xd\<rparr>) = queues s" "queues (s\<lparr>sc_processed := xe\<rparr>) = queues s" "queues (s\<lparr>sc_objs := xf\<rparr>) = queues s"
  "queues (upd_req i f s) = queues s" "queues (upd_obj i f' s) = queues s"
  by (simp_all add: queues_def)

text \<open>What emission may do to a request object: keep its id, and end it.\<close>

definition kept_request :: "request \<Rightarrow> request \<Rightarrow> bool" where
  "kept_request r r1 \<longleftrightarrow> request_id r1 = request_id r \<and> recovery_restarts r1 = recovery_restarts r \<and> (status r \<noteq> WAITING \<longrightarrow> status r1 \<noteq> WAITING)"

definition kept :: "nat \<Rightarrow> ('g, 'c) scheduler \<Rightarrow> ('g, 'c) scheduler \<Rightarrow> bool" where
  "kept i s s1 \<longleftrightarrow> queues s1 = queues s \<and> kept_request (the_req s i) (the_req s1 i) \<and> (\<forall>j. j \<noteq> i \<longrightarrow> the_req s1 j = the_req s j)"

lemma kept_refl [simp]: "kept i s s"
  by (simp add: kept_def kept_request_def)

lemma kept_trans: "kept i a b \<Longrightarrow> kept i b c \<Longrightarrow> kept i a c"
  by (auto simp: kept_def kept_request_def)

lemma kept_upd_req [simp]: "kept_request (the_req s i) (f (the_req s i)) \<Longrightarrow> kept i s (upd_req i f s)"
  by (simp add: kept_def)

lemma kept_append [simp]: "kept_request r (append_output_token r t)"
  by (simp add: kept_request_def append_output_token_def)

lemma kept_appends [simp]: "kept_request r (append_tokens ts r)"
  unfolding append_tokens_def
proof (induction ts arbitrary: r)
  case (Cons t ts)
  from Cons.IH [of "append_output_token r t"] kept_append [of r t] show ?case by (auto simp: kept_request_def)
qed (simp add: kept_request_def)

lemma kept_logprob [simp]: "kept_request r (record_logprob env resp r)"
  by (simp add: kept_request_def record_logprob_def split: option.split)

lemma kept_finish [simp]: "kept_request r ((set_finish_status f r)\<lparr>output_text := txt1\<rparr>)"
  by (simp add: kept_request_def set_finish_status_def set_finished_def)

lemma kept_books:
  assumes k: "kept i s s1" and b: "books_of w s" and w: "i \<notin> set w"
  shows "books_of w s1"
proof -
  have q: "sc_requests s1 = sc_requests s" "sc_running s1 = sc_running s" "sc_next_obj s1 = sc_next_obj s"
    "sc_max_num_seqs s1 = sc_max_num_seqs s" using queues_fields [of s1 s] k by (simp_all add: kept_def)
  have id: "request_id (the_req s1 j) = request_id (the_req s j)" "status (the_req s j) \<noteq> WAITING \<Longrightarrow> status (the_req s1 j) \<noteq> WAITING" for j
    using k by (cases "j = i"; simp add: kept_def kept_request_def)+
  have st: "status (the_req s1 j) = status (the_req s j)" if "j \<in> set w" for j
    using k w that by (cases "j = i") (auto simp: kept_def)
  show ?thesis using b id(2) st unfolding books_of_def q id(1) by simp
qed

lemma kept_measure: "kept i s (measure_drafts rid j t s)"
proof -
  have "queues (measure_drafts rid j t s) = queues s" by (simp add: measure_drafts_def Let_def split: prod.split)
  then show ?thesis by (simp add: kept_def kept_request_def)
qed

lemma kept_speculation: "kept i s (fst (extend_speculatively env rid i resp s))"
proof (cases "sc_pld_spec s \<and> sc_pld_auto s \<and> \<not> sp_logprobs (sampling (the_req s i)) \<and> gr_finish resp = None \<and> sc_gen s \<noteq> None")
  case True
  obtain s0 raw where t: "try_speculative_decode env rid i (gr_token resp) s = (s0, raw)" by fastforce
  have "kept i s s0"
    using spec_rest_fields [OF speculation_rest [of env rid i "gr_token resp" s, unfolded t fst_conv]]
    by (simp add: kept_def queues_def kept_request_def)
  then show ?thesis
    unfolding extend_speculatively_def if_P [OF True] t prod.case Let_def fst_conv by (rule kept_trans) simp
next
  case False
  show ?thesis unfolding extend_speculatively_def if_not_P [OF False] by simp
qed

lemma kept_decode: "kept i s (fst (decode_response env rid i resp spec halted s))"
proof -
  have q: "queues (fst (decode_response env rid i resp spec halted s)) = queues s"
    by (simp add: decode_response_def Let_def advance_request_state_machine_def split: option.split)
  moreover have "the_req (fst (decode_response env rid i resp spec halted s)) j = the_req s j" for j
    using decode_frame [of env rid i resp spec halted s] by (metis prod_cases3 fst_conv)
  ultimately show ?thesis by (simp add: kept_def kept_request_def)
qed

lemma kept_finish_request: "kept i s (fst (finish_request env rid i f cutoff out s))"
  unfolding kept_def finish_request_def Let_def
  by (simp add: kept_finish split: option.split)

lemma emit_parts:
  "\<exists>s2 s3 spec halted s4 txt1 cutoff.
     s2 = (let s1 = upd_req i (\<lambda>r. append_output_token r (gr_token resp)) s
           in if sc_pld_spec s1 then measure_drafts rid i (gr_token resp) s1 else s1) \<and>
     extend_speculatively env rid i resp s2 = (s3, spec, halted) \<and> decode_response env rid i resp spec halted s3 = (s4, txt1, cutoff) \<and>
     emit env rid i resp s =
       (let s5 = upd_req i (record_logprob env resp) s4; out = token_output rid (the_req s5 i) (gr_token resp # spec) txt1
        in case effective_finish resp halted cutoff of None \<Rightarrow> (s5, out) | Some f \<Rightarrow> finish_request env rid i f cutoff out s5)"
proof -
  obtain s2 where s2: "s2 = (let s1 = upd_req i (\<lambda>r. append_output_token r (gr_token resp)) s
    in if sc_pld_spec s1 then measure_drafts rid i (gr_token resp) s1 else s1)" by blast
  obtain s3 dr halted where s3: "extend_speculatively env rid i resp s2 = (s3, dr, halted)" by (metis prod_cases3)
  obtain s4 tx cutoff where s4: "decode_response env rid i resp dr halted s3 = (s4, tx, cutoff)" by (metis prod_cases3)
  have "emit env rid i resp s =
       (let s5 = upd_req i (record_logprob env resp) s4; out = token_output rid (the_req s5 i) (gr_token resp # dr) tx
        in case effective_finish resp halted cutoff of None \<Rightarrow> (s5, out) | Some f \<Rightarrow> finish_request env rid i f cutoff out s5)"
    unfolding emit_def Let_def s2 [unfolded Let_def, symmetric] s3 prod.case s4 ..
  with s2 s3 s4 show ?thesis by blast
qed

lemma kept_emit: "kept i s (fst (emit env rid i resp s))"
proof -
  obtain s2 s3 spec halted s4 txt1 cutoff where p:
    "s2 = (let s1 = upd_req i (\<lambda>r. append_output_token r (gr_token resp)) s
           in if sc_pld_spec s1 then measure_drafts rid i (gr_token resp) s1 else s1)"
    "extend_speculatively env rid i resp s2 = (s3, spec, halted)" "decode_response env rid i resp spec halted s3 = (s4, txt1, cutoff)"
    "emit env rid i resp s =
       (let s5 = upd_req i (record_logprob env resp) s4; out = token_output rid (the_req s5 i) (gr_token resp # spec) txt1
        in case effective_finish resp halted cutoff of None \<Rightarrow> (s5, out) | Some f \<Rightarrow> finish_request env rid i f cutoff out s5)"
    using emit_parts [of i resp s rid env] by blast
  let ?s1 = "upd_req i (\<lambda>r. append_output_token r (gr_token resp)) s"
  have a: "kept i s ?s1" by simp
  have "kept i s (measure_drafts rid i (gr_token resp) ?s1)" by (rule kept_trans [OF a kept_measure])
  with a have "kept i s s2" unfolding p(1) Let_def by (cases "sc_pld_spec ?s1") (simp_all only: if_True if_False)
  then have "kept i s s3" using kept_trans [OF _ kept_speculation [of i s2 env rid resp]] p(2) by simp
  then have "kept i s s4" using kept_trans [OF _ kept_decode [of i s3 env rid resp spec halted]] p(3) by simp
  then have "kept i s (upd_req i (record_logprob env resp) s4)" by (rule kept_trans) simp
  then show ?thesis unfolding p(4) Let_def
    by (cases "effective_finish resp halted cutoff") (simp_all add: kept_trans [OF _ kept_finish_request])
qed

section \<open>Leaving and joining\<close>

lemma release_frame [simp]:
  "queues (release_finished env sv rid i s) = queues s" "sc_objs (release_finished env sv rid i s) = sc_objs s"
  "sc_uid_of (release_finished env sv rid i s) = sc_uid_of s" "sc_rid_of (release_finished env sv rid i s) = sc_rid_of s"
  unfolding release_finished_def Let_def by (simp_all split: option.split)


lemma books_cleanup:
  assumes "books_of w s" "pd_get (sc_running s) rid = pd_get (sc_requests s) rid"
  shows "books_of w (s\<lparr>sc_running := pd_del (sc_running s) rid, sc_requests := pd_del (sc_requests s) rid\<rparr>)"
proof -
  have "request_id (the_req s i) \<noteq> rid" if "i \<in> set w" for i
    using assms that unfolding books_of_def by metis
  moreover have "length (pd_del (sc_running s) rid) \<le> length (sc_running s)" by (rule length_pd_del_le)
  ultimately show ?thesis
    using books_ofD [OF assms(1)] by (intro books_ofI) (auto split: if_splits)
qed

lemma books_start:
  assumes "books_of (i # w) s" "int (length (sc_running s)) < sc_max_num_seqs s" "request_id (f (the_req s i)) = request_id (the_req s i)"
    "status (f (the_req s i)) \<noteq> WAITING"
  shows "books_of w ((upd_req i f s)\<lparr>sc_running := pd_set (sc_running s) (request_id (the_req s i)) i\<rparr>)" (is "books_of w ?s1")
proof -
  let ?rid = "request_id (the_req s i)"
  note D = books_ofD [OF assms(1)]
  have i: "pd_get (sc_requests s) ?rid = Some i" "i \<notin> set w" using D(9) [of i] D(3) by simp_all
  have o: "j \<noteq> i" if "pd_get (sc_running s) rid = Some j" for rid j
    using books_running_not_waiting [OF assms(1) that] by auto
  have id: "request_id (the_req ?s1 j) = request_id (the_req s j)" for j using assms(3) by simp
  have rn: "pd_get (sc_running ?s1) = (pd_get (sc_running s))(?rid \<mapsto> i)" "sc_requests ?s1 = sc_requests s" by simp_all
  show ?thesis
  proof (rule books_ofI)
    fix rid j assume a: "pd_get (sc_requests ?s1) rid = Some j"
    then have b: "pd_get (sc_requests s) rid = Some j" by simp
    then show "request_id (the_req ?s1 j) = rid \<and> j < sc_next_obj ?s1 \<and> (j \<in> set w \<or> pd_get (sc_running ?s1) rid = Some j)"
      unfolding id rn using D(4-6) [OF b] i by auto
  next
    fix rid j assume a: "pd_get (sc_running ?s1) rid = Some j"
    show "pd_get (sc_requests ?s1) rid = Some j \<and> status (the_req ?s1 j) \<noteq> WAITING"
    proof (cases "rid = ?rid")
      case True
      then show ?thesis using a i assms(4) by simp
    next
      case False
      then have b: "pd_get (sc_running s) rid = Some j" using a by simp
      then show ?thesis using D(7,8) [OF b] o [OF b] by simp
    qed
  next
    fix j assume a: "j \<in> set w"
    then have "j \<noteq> i" using i(2) by blast
    then show "pd_get (sc_requests ?s1) (request_id (the_req ?s1 j)) = Some j \<and> status (the_req ?s1 j) = WAITING"
      using D(9,10) [of j] a by simp
  next
    show "int (length (sc_running ?s1)) \<le> max 0 (sc_max_num_seqs ?s1)" using assms(2) by (simp add: length_pd_set)
  qed (use D(1-3) in simp_all)
qed

text \<open>Outputs name requests that run.\<close>

lemma emit_output_id: "ro_request_id (snd (emit env rid i resp s)) = rid"
proof -
  obtain s2 s3 spec halted s4 txt1 cutoff where p: "emit env rid i resp s =
       (let s5 = upd_req i (record_logprob env resp) s4; out = token_output rid (the_req s5 i) (gr_token resp # spec) txt1
        in case effective_finish resp halted cutoff of None \<Rightarrow> (s5, out) | Some f \<Rightarrow> finish_request env rid i f cutoff out s5)"
    using emit_parts [of i resp s rid env] by blast
  show ?thesis unfolding p Let_def by (simp add: token_output_def finish_request_def Let_def split: option.split)
qed

lemma process_output_ids:
  "list_all (\<lambda>out. ro_request_id out \<in> run_ids (fst x)) (snd x) \<Longrightarrow>
   list_all (\<lambda>out. ro_request_id out \<in> run_ids (fst x)) (snd (process_response env resp x)) \<and>
   queues (fst (process_response env resp x)) = queues (fst x)"
proof (cases x)
  case (Pair s outs)
  assume l: "list_all (\<lambda>out. ro_request_id out \<in> run_ids (fst x)) (snd x)"
  have q: "queues (fst (emit env rid j resp s)) = queues s" for rid j using kept_emit [of j s env rid resp] by (simp add: kept_def)
  show ?thesis
    using l emit_output_id [of env _ _ resp s] q
    by (auto simp: process_response_def Pair pd_get_Some_in_keys split: option.split prod.split)
      (metis fst_conv snd_conv pd_get_Some_in_keys)+
qed

lemma process_fold_ids:
  "list_all (\<lambda>out. ro_request_id out \<in> run_ids (fst x)) (snd x) \<Longrightarrow>
   list_all (\<lambda>out. ro_request_id out \<in> run_ids (fst x)) (snd (fold (process_response env) resps x)) \<and>
   queues (fst (fold (process_response env) resps x)) = queues (fst x)"
proof (induction resps arbitrary: x)
  case (Cons r rs)
  from process_output_ids [OF Cons.prems, of env r] have p:
    "list_all (\<lambda>out. ro_request_id out \<in> run_ids (fst x)) (snd (process_response env r x))"
    "queues (fst (process_response env r x)) = queues (fst x)" by simp_all
  have "run_ids (fst (process_response env r x)) = run_ids (fst x)" using queues_fields [OF p(2)] by simp
  with Cons.IH [of "process_response env r x"] p show ?case by simp
qed simp

lemma process_batch_ids:
  assumes "process_batch_responses env resps s = (s1, outs, fin)"
  shows "list_all (\<lambda>out. ro_request_id out \<in> run_ids s) outs" "set fin \<subseteq> run_ids s" "queues s1 = queues s"
  using process_fold_ids [of "(s, [])" env resps] assms
  by (auto simp: process_batch_responses_def Let_def list_all_iff split: prod.splits)

section \<open>Rescheduling\<close>

lemma reschedule_one_books:
  assumes "books s" "sc_running s = (rid, i) # d"
  shows "books (reschedule_one (rid, i) s)" "sc_running (reschedule_one (rid, i) s) = d"
    "sc_requests (reschedule_one (rid, i) s) = sc_requests s" "sc_pending_aborts (reschedule_one (rid, i) s) = sc_pending_aborts s"
    "sc_gen (reschedule_one (rid, i) s) = sc_gen s" "sc_uid_of (reschedule_one (rid, i) s) = sc_uid_of s"
    "sc_rid_of (reschedule_one (rid, i) s) = sc_rid_of s"
proof -
  let ?s1 = "reschedule_one (rid, i) s"
  note D = books_ofD [OF assms(1)]
  have i: "pd_get (sc_running s) rid = Some i" using assms(2) by simp
  have n: "i \<notin> set (sc_waiting s)" by (rule books_running_not_waiting [OF assms(1) i])
  have k: "pd_get (sc_requests s) rid = Some i" "request_id (the_req s i) = rid" using D(7) [OF i] D(4) by simp_all
  have d: "pd_del (sc_running s) rid = d" using D(2) assms(2) by (auto simp: pd_del_Cons)
  have id: "request_id (the_req ?s1 j) = request_id (the_req s j)" for j by (simp add: reschedule_one_def Let_def restart_request_def)
  have o: "j \<noteq> i" if "pd_get d r = Some j" for r j
  proof
    assume "j = i"
    have "r \<in> fst ` set d" using that by (rule pd_get_Some_in_keys)
    then have "r \<noteq> rid" using D(2) assms(2) by auto
    then have "pd_get (sc_running s) r = Some i" using that assms(2) \<open>j = i\<close> by simp
    then have "request_id (the_req s i) = r" using D(4,7) by blast
    then show False using k(2) \<open>r \<noteq> rid\<close> by simp
  qed
  have e: "sc_running ?s1 = d" "sc_requests ?s1 = sc_requests s" "sc_waiting ?s1 = i # sc_waiting s" "sc_next_obj ?s1 = sc_next_obj s"
    "sc_max_num_seqs ?s1 = sc_max_num_seqs s" "status (the_req ?s1 i) = WAITING" "j \<noteq> i \<Longrightarrow> the_req ?s1 j = the_req s j" for j
    using d by (simp_all add: reschedule_one_def Let_def restart_request_def)
  have sub: "pd_get (sc_running s) r = Some j" if "pd_get d r = Some j" for r j
  proof -
    have "r \<in> fst ` set d" using that by (rule pd_get_Some_in_keys)
    then show ?thesis using D(2) assms(2) that by auto
  qed
  show "books ?s1"
  proof (rule books_ofI)
    fix r j assume "pd_get (sc_requests ?s1) r = Some j"
    then have a: "pd_get (sc_requests s) r = Some j" by (simp add: e)
    show "request_id (the_req ?s1 j) = r \<and> j < sc_next_obj ?s1 \<and> (j \<in> set (sc_waiting ?s1) \<or> pd_get (sc_running ?s1) r = Some j)"
      unfolding id e using D(4-6) [OF a] assms(2) k by (auto split: if_splits)
  next
    fix r j assume "pd_get (sc_running ?s1) r = Some j"
    then have a: "pd_get d r = Some j" by (simp add: e)
    show "pd_get (sc_requests ?s1) r = Some j \<and> status (the_req ?s1 j) \<noteq> WAITING"
      using D(7,8) [OF sub [OF a]] e(2,7) o [OF a] by simp
  next
    fix j assume "j \<in> set (sc_waiting ?s1)"
    then consider "j = i" | "j \<noteq> i" "j \<in> set (sc_waiting s)" by (auto simp: e)
    then show "pd_get (sc_requests ?s1) (request_id (the_req ?s1 j)) = Some j \<and> status (the_req ?s1 j) = WAITING"
      unfolding id using k e(2,6,7) D(9,10) [of j] by cases simp_all
  next
    show "int (length (sc_running ?s1)) \<le> max 0 (sc_max_num_seqs ?s1)" using D(11) assms(2) by (simp add: e)
  qed (use D(1-3) assms(2) n in \<open>auto simp: e\<close>)
  show "sc_running ?s1 = d" "sc_requests ?s1 = sc_requests s" by (simp_all add: e)
qed (simp_all add: reschedule_one_def Let_def)

lemma reschedule_books:
  assumes "books s"
  shows "books (reschedule_running_requests s) \<and> sc_running (reschedule_running_requests s) = [] \<and>
    sc_requests (reschedule_running_requests s) = sc_requests s \<and> sc_pending_aborts (reschedule_running_requests s) = sc_pending_aborts s \<and>
    sc_gen (reschedule_running_requests s) = sc_gen s \<and> sc_uid_of (reschedule_running_requests s) = sc_uid_of s \<and>
    sc_rid_of (reschedule_running_requests s) = sc_rid_of s"
proof -
  have "books (fold reschedule_one d a) \<and> sc_running (fold reschedule_one d a) = [] \<and> sc_requests (fold reschedule_one d a) = sc_requests a \<and>
      sc_pending_aborts (fold reschedule_one d a) = sc_pending_aborts a \<and> sc_gen (fold reschedule_one d a) = sc_gen a \<and>
      sc_uid_of (fold reschedule_one d a) = sc_uid_of a \<and> sc_rid_of (fold reschedule_one d a) = sc_rid_of a"
    if "books a" "sc_running a = d" for d and a :: "('a, 'b) scheduler"
    using that
  proof (induction d arbitrary: a)
    case (Cons x d)
    obtain rid i where x: "x = (rid, i)" by fastforce
    note r = reschedule_one_books [OF Cons.prems(1) Cons.prems(2) [unfolded x]]
    show ?case using Cons.IH [OF r(1,2)] r x by simp
  qed simp
  then show ?thesis unfolding reschedule_running_requests_def using assms by blast
qed

end
