(* ===== verification/Sched_Inv.thy ===== *)
theory Sched_Inv
  imports Sched_Books
begin

text \<open>
  The contract of the generator as a locale, and the books of the scheduler under it: every operation keeps them.
\<close>

section \<open>Scheduling\<close>

text \<open>What the scheduling loop keeps, and what it does to the two queues.\<close>

definition schedules :: "('g \<Rightarrow> int) \<Rightarrow> nat list \<Rightarrow> ('g, 'c) scheduler \<Rightarrow> ('g, 'c) scheduler \<Rightarrow> nat list \<Rightarrow> bool" where
  "schedules nu w s s1 started \<longleftrightarrow>
     books s1 \<and> tables nu s1 \<and> sc_pending_aborts s1 = [] \<and> sc_requests s1 = sc_requests s \<and> sc_max_num_seqs s1 = sc_max_num_seqs s \<and>
     started @ sc_waiting s1 = w \<and> map snd (sc_running s1) = map snd (sc_running s) @ started"

lemma hit_kept [simp]: "request_id (drop_hit r) = request_id r" "status (drop_hit r) = status r"
    "request_id (apply_hit h r) = request_id r" "status (apply_hit h r) = status r" "num_prompt_tokens (drop_hit r) = num_prompt_tokens r"
  by (simp_all add: drop_hit_def apply_hit_def split: option.split)

section \<open>The contract\<close>

text \<open>
  \<open>nu\<close> bounds the identifiers given out: an insertion that succeeds gives out exactly one new one, and no other call
  takes one back.
\<close>

locale generator_contract =
  fixes env :: "('g, 'c) sched_env" and nu :: "'g \<Rightarrow> int"
  assumes insert_ok: "se_insert env g r ts n c = (g1, Inr us) \<Longrightarrow> \<exists>u. us = [u] \<and> nu g \<le> u \<and> u < nu g1"
    and insert_failed: "se_insert env g r ts n c = (g1, Inl e) \<Longrightarrow> nu g \<le> nu g1"
    and reinsert_ok: "se_reinsert env g t n kv = (g1, Some us) \<Longrightarrow> \<exists>u. us = [u] \<and> nu g \<le> u \<and> u < nu g1"
    and reinsert_failed: "se_reinsert env g t n kv = (g1, None) \<Longrightarrow> nu g \<le> nu g1"
    and next_mono: "nu g \<le> nu (fst (se_next env g stops))"
    and remove_mono: "nu g \<le> nu (se_remove env g u)"
    and take_mono: "nu g \<le> nu (fst (se_take env g u))"
begin

lemma tables_emergency:
  assumes "tables nu (s\<lparr>sc_gen := Some g\<rparr>)" "pd_get (sc_uid_of s) rid = Some old"
  shows "tables nu (emergency_reinsert env rid old t rem kv g s)"
proof -
  obtain g1 res where r: "se_reinsert env g t (max 1 (rem - 1)) kv = (g1, res)" by fastforce
  show ?thesis
  proof (cases res)
    case None
    then show ?thesis using reinsert_failed r assms(1) by (simp add: emergency_reinsert_def tables_def uids_drop uids_gen)
  next
    case (Some us)
    obtain u where u: "us = [u]" "nu g \<le> u" "u < nu g1" using reinsert_ok r Some by blast
    show ?thesis using r Some u tables_swap [OF assms u(2,3)] by (simp add: emergency_reinsert_def)
  qed
qed

lemma tables_put_back:
  assumes "tables nu (s\<lparr>sc_gen := Some g\<rparr>)" "pd_get (sc_uid_of s) rid = Some old"
  shows "tables nu (fst (put_back env rid old t rem kv token budget extra g s))"
proof -
  obtain g1 res where r: "se_reinsert env g token budget (Some kv) = (g1, res)" by fastforce
  show ?thesis
  proof (cases res)
    case None
    then have "tables nu (s\<lparr>sc_gen := Some g1\<rparr>)" using reinsert_failed r tables_gen [OF assms(1)] by blast
    from tables_emergency [OF this assms(2)] show ?thesis using r None by (simp add: put_back_def)
  next
    case (Some us)
    obtain u where u: "us = [u]" "nu g \<le> u" "u < nu g1" using reinsert_ok r Some by blast
    show ?thesis using r Some u tables_swap [OF assms u(2,3)] by (simp add: put_back_def)
  qed
qed

lemma tables_speculate:
  assumes "tables nu s" "sc_gen s = Some g" "pd_get (sc_uid_of s) rid = Some u"
  shows "tables nu (fst (speculate env rid u t temp rem ds g s))"
proof -
  obtain g1 taken where k: "se_take env g u = (g1, taken)" by fastforce
  have "tables nu (s\<lparr>sc_gen := Some g1\<rparr>)" using tables_gen [where nu = nu and s = s and g = g] tables_gen_same [OF assms(2), of nu] assms(1) take_mono [of g u] k by simp
  note e = tables_emergency [OF this assms(3)] tables_put_back [OF this assms(3)]
  show ?thesis
    using assms(1) e unfolding speculate_def Let_def k by (simp split: option.split prod.split)
qed

lemma tables_try_speculative:
  assumes "tables nu s"
  shows "tables nu (fst (try_speculative_decode env rid i t s))"
proof -
  have *: "tables nu (fst (speculate env rid u t temp rem ds g (s\<lparr>sc_pld_index := x\<rparr>)))"
    if "sc_gen s = Some g" "pd_get (sc_uid_of s) rid = Some u" for g u temp rem ds x
    by (rule tables_speculate) (use assms that in simp_all)
  show ?thesis
    using assms * by (simp add: try_speculative_decode_def Let_def split: prod.split option.split)
qed

lemma tables_remove: "tables nu a \<Longrightarrow> sc_gen a = Some g \<Longrightarrow> tables nu (a\<lparr>sc_gen := Some (se_remove env g u)\<rparr>)"
  using tables_gen [of nu g a "se_remove env g u"] tables_gen_same [of a g nu] remove_mono by simp

text \<open>Emission.\<close>

lemma tables_emit:
  assumes "tables nu s"
  shows "tables nu (fst (emit env rid i resp s))"
proof -
  obtain s2 s3 spec halted s4 txt1 cutoff where p:
    "s2 = (let s1 = upd_req i (\<lambda>r. append_output_token r (gr_token resp)) s
           in if sc_pld_spec s1 then measure_drafts rid i (gr_token resp) s1 else s1)"
    "extend_speculatively env rid i resp s2 = (s3, spec, halted)" "decode_response env rid i resp spec halted s3 = (s4, txt1, cutoff)"
    "emit env rid i resp s =
       (let s5 = upd_req i (record_logprob env resp) s4; out = token_output rid (the_req s5 i) (gr_token resp # spec) txt1
        in case effective_finish resp halted cutoff of None \<Rightarrow> (s5, out) | Some f \<Rightarrow> finish_request env rid i f cutoff out s5)"
    using emit_parts [of i resp s rid env] by blast
  have m: "tables nu (measure_drafts rid i t a) = tables nu a" for t a
    by (simp add: measure_drafts_def Let_def split: prod.split)
  have "tables nu s2" using assms unfolding p(1) by (simp add: m Let_def)
  then have "tables nu (fst (extend_speculatively env rid i resp s2))"
    using tables_try_speculative [of s2 rid i "gr_token resp"]
    by (cases "try_speculative_decode env rid i (gr_token resp) s2") (simp add: extend_speculatively_def Let_def)
  then have "tables nu s3" by (simp add: p(2))
  then have "tables nu (fst (decode_response env rid i resp spec halted s3))"
    by (simp add: decode_response_def Let_def advance_request_state_machine_def split: option.split)
  then have s4: "tables nu s4" by (simp add: p(3))
    have f: "tables nu (fst (finish_request env rid i f cutoff out a))" if "tables nu a" for f out a
  proof -
    show ?thesis using that tables_remove unfolding finish_request_def Let_def by (auto split: option.split)
  qed
  show ?thesis
    unfolding p(4) Let_def using s4 f [of "upd_req i (record_logprob env resp) s4"] by (simp split: option.split)
qed

lemma inv_emit:
  assumes "sched_inv nu s" "pd_get (sc_running s) rid = Some i"
  shows "sched_inv nu (fst (emit env rid i resp s))"
proof -
  have b: "books s" "tables nu s" using assms(1) by (simp_all add: sched_inv_def)
  have w: "sc_waiting (fst (emit env rid i resp s)) = sc_waiting s"
    using queues_fields kept_emit [of i s env rid resp] unfolding kept_def by blast
  show ?thesis
    using kept_books [OF kept_emit b(1) books_running_not_waiting [OF b(1) assms(2)]] tables_emit [OF b(2)] w
    by (simp add: sched_inv_def)
qed

text \<open>A batch of responses.\<close>

lemma inv_process:
  "sched_inv nu (fst x) \<Longrightarrow> sched_inv nu (fst (process_response env resp x)) \<and> queues (fst (process_response env resp x)) = queues (fst x)"
proof (cases x)
  case (Pair s outs)
  assume i: "sched_inv nu (fst x)"
  have q: "queues (fst (emit env rid j resp s)) = queues s" for rid j using kept_emit [of j s env rid resp] by (simp add: kept_def)
  show ?thesis
  proof (cases "\<exists>rid j. pd_get (sc_rid_of s) (gr_uid resp) = Some rid \<and> pd_get (sc_running s) rid = Some j")
    case True
    then obtain rid j where r: "pd_get (sc_rid_of s) (gr_uid resp) = Some rid" "pd_get (sc_running s) rid = Some j" by blast
    show ?thesis using i r q inv_emit [of s rid j resp]
      by (cases "emit env rid j resp s") (simp add: process_response_def Pair, metis fst_conv)
  next
    case False
    then show ?thesis using i by (auto simp: process_response_def Pair split: option.split)
  qed
qed

lemma inv_process_fold:
  "sched_inv nu (fst x) \<Longrightarrow>
   sched_inv nu (fst (fold (process_response env) resps x)) \<and> queues (fst (fold (process_response env) resps x)) = queues (fst x)"
proof (induction resps arbitrary: x)
  case (Cons r rs)
  show ?case using inv_process [OF Cons.prems, of r] Cons.IH [of "process_response env r x"] by simp
qed simp

lemma inv_process_batch:
  assumes "process_batch_responses env resps s = (s1, outs, fin)" "sched_inv nu s"
  shows "sched_inv nu s1" "queues s1 = queues s"
  using inv_process_fold [of "(s, [])" resps] assms
  by (auto simp: process_batch_responses_def Let_def split: prod.splits)

text \<open>Clean-up.\<close>

lemma tables_release: "tables nu s \<Longrightarrow> tables nu (release_finished env sv rid i s)"
  using tables_remove [of s] tables_remove [of "s\<lparr>sc_cache := c\<rparr>" for c]
  unfolding release_finished_def Let_def by (auto split: option.split)

lemma inv_cleanup_one:
  assumes "sched_inv nu s" "pd_get (sc_running s) rid = pd_get (sc_requests s) rid"
  shows "sched_inv nu (cleanup_one env sv rid s)" "sc_running (cleanup_one env sv rid s) = pd_del (sc_running s) rid"
    "sc_requests (cleanup_one env sv rid s) = pd_del (sc_requests s) rid" "sc_waiting (cleanup_one env sv rid s) = sc_waiting s"
    "sc_pending_aborts (cleanup_one env sv rid s) = sc_pending_aborts s"
proof -
  let ?s1 = "s\<lparr>sc_pld_pending := pd_del (sc_pld_pending s) rid, sc_pld_index := pd_del (sc_pld_index s) rid\<rparr>"
  define s2 where "s2 = (case pd_get (sc_running ?s1) rid of None \<Rightarrow> ?s1 | Some i \<Rightarrow> release_finished env sv rid i ?s1)"
  have t0: "tables nu ?s1" "books ?s1" using assms(1) by (simp_all add: sched_inv_def)
  have f: "queues s2 = queues s \<and> sc_uid_of s2 = sc_uid_of s \<and> sc_rid_of s2 = sc_rid_of s \<and> sc_objs s2 = sc_objs s"
    unfolding s2_def by (simp split: option.split)
  note q = queues_fields [OF f [THEN conjunct1]]
  have t2: "tables nu s2" unfolding s2_def using tables_release [OF t0(1)] t0(1) by (simp split: option.split)
  have b2: "books_of (sc_waiting s) s2" using assms(1) f q unfolding sched_inv_def books_of_def by simp
  let ?s3 = "s2\<lparr>sc_detok := pd_del (sc_detok s2) rid, sc_running := pd_del (sc_running s2) rid, sc_requests := pd_del (sc_requests s2) rid\<rparr>"
  let ?s4 = "case pd_get (sc_uid_of ?s3) rid of None \<Rightarrow> ?s3
    | Some u \<Rightarrow> ?s3\<lparr>sc_rid_of := pd_del (sc_rid_of ?s3) u, sc_uid_of := pd_del (sc_uid_of ?s3) rid\<rparr>"
  have e: "cleanup_one env sv rid s = ?s4\<lparr>sc_finished_ids := insert rid (sc_finished_ids ?s4)\<rparr>"
    unfolding cleanup_one_def Let_def s2_def [symmetric] ..
  have "books_of (sc_waiting s) (s2\<lparr>sc_running := pd_del (sc_running s2) rid, sc_requests := pd_del (sc_requests s2) rid\<rparr>)"
    by (rule books_cleanup [OF b2]) (use assms(2) q in simp)
  then have b4: "books ?s4" using q by (simp add: books_of_def split: option.split)
  have t4: "tables nu ?s4"
    using t2 uids_forget [of nu "run_ids s2" _ _ _ _ rid] uids_unknown [of nu "run_ids s2" _ _ _ _ rid]
    by (simp add: tables_def split: option.split)
  show "sched_inv nu (cleanup_one env sv rid s)" unfolding e using b4 t4 by (simp add: sched_inv_def)
  show "sc_running (cleanup_one env sv rid s) = pd_del (sc_running s) rid" "sc_requests (cleanup_one env sv rid s) = pd_del (sc_requests s) rid"
    "sc_waiting (cleanup_one env sv rid s) = sc_waiting s" "sc_pending_aborts (cleanup_one env sv rid s) = sc_pending_aborts s"
    unfolding e using q by (simp_all split: option.split)
qed

lemma inv_cleanup:
  assumes "sched_inv nu s" "list_all (\<lambda>rid. pd_get (sc_running s) rid = pd_get (sc_requests s) rid) ids"
  shows "sched_inv nu (cleanup_finished env ids s) \<and> sc_pending_aborts (cleanup_finished env ids s) = sc_pending_aborts s \<and>
    fst ` set (sc_requests (cleanup_finished env ids s)) = fst ` set (sc_requests s) - set ids"
proof -
  have "sched_inv nu (fold (cleanup_one env sv) xs a) \<and> sc_pending_aborts (fold (cleanup_one env sv) xs a) = sc_pending_aborts a \<and>
      fst ` set (sc_requests (fold (cleanup_one env sv) xs a)) = fst ` set (sc_requests a) - set xs"
    if "sched_inv nu a" "list_all (\<lambda>rid. pd_get (sc_running a) rid = pd_get (sc_requests a) rid) xs" for sv xs a
    using that
  proof (induction xs arbitrary: a)
    case (Cons rid xs)
    then show ?case
      using inv_cleanup_one [of a rid sv] by (auto simp: list_all_iff)
  qed simp
  then show ?thesis unfolding cleanup_finished_def using assms by blast
qed

text \<open>Deferred aborts.\<close>

lemma pending_tables:
  assumes "uids_ok nu (run_ids s) (set (rid # rest)) (sc_gen s) (sc_uid_of s) (sc_rid_of s)"
  shows "let s1 = process_pending_abort env rid s
    in uids_ok nu (run_ids s1) (set rest) (sc_gen s1) (sc_uid_of s1) (sc_rid_of s1) \<and> queues s1 = queues s \<and> sc_objs s1 = sc_objs s"
proof -
  have r: "rid \<notin> run_ids s" using uids_okD(1) [OF assms] by auto
  show ?thesis
  proof (cases "pd_get (sc_uid_of s) rid")
    case None
    have "pd_del (sc_uid_of s) rid = sc_uid_of s" using None by (simp add: pd_get_None_iff)
    moreover have "uids_ok nu (run_ids s) (set rest) (sc_gen s) (sc_uid_of s) (sc_rid_of s)"
      by (rule uids_smaller [OF assms]) (use None in auto)
    ultimately show ?thesis using None by (simp add: process_pending_abort_def Let_def queues_def)
  next
    case (Some u)
    have "uids_ok nu (run_ids s) (set (rid # rest)) (sc_gen s) (pd_del (sc_uid_of s) rid) (pd_del (sc_rid_of s) u)"
      using uids_forget [OF assms Some] r by simp
    then have u: "uids_ok nu (run_ids s) (set rest) (sc_gen s) (pd_del (sc_uid_of s) rid) (pd_del (sc_rid_of s) u)"
      by (rule uids_smaller) auto
    then have "uids_ok nu (run_ids s) (set rest) (Some (se_remove env g u)) (pd_del (sc_uid_of s) rid) (pd_del (sc_rid_of s) u)"
      if "sc_gen s = Some g" for g using uids_gen [where g = g and ?g1.0 = "se_remove env g u"] remove_mono that u by simp
    with u Some show ?thesis by (cases "sc_gen s") (simp_all add: process_pending_abort_def Let_def queues_def)
  qed
qed

lemma inv_pending:
  assumes "sched_inv nu s"
  shows "sched_inv nu (process_pending_aborts env s)" "sc_pending_aborts (process_pending_aborts env s) = []"
    "sc_running (process_pending_aborts env s) = sc_running s" "sc_requests (process_pending_aborts env s) = sc_requests s"
    "sc_waiting (process_pending_aborts env s) = sc_waiting s" "sc_objs (process_pending_aborts env s) = sc_objs s"
    "sc_max_num_seqs (process_pending_aborts env s) = sc_max_num_seqs s"
proof -
  have *: "let s1 = fold (process_pending_abort env) xs a
      in uids_ok nu (run_ids s1) {} (sc_gen s1) (sc_uid_of s1) (sc_rid_of s1) \<and> queues s1 = queues a \<and> sc_objs s1 = sc_objs a"
    if "uids_ok nu (run_ids a) (set xs) (sc_gen a) (sc_uid_of a) (sc_rid_of a)" for xs a
    using that
  proof (induction xs arbitrary: a)
    case (Cons rid xs)
    from pending_tables [OF Cons.prems] show ?case using Cons.IH [of "process_pending_abort env rid a"] by (simp add: Let_def)
  qed simp
  let ?p = "process_pending_aborts env s"
  have p: "uids_ok nu (run_ids ?p) {} (sc_gen ?p) (sc_uid_of ?p) (sc_rid_of ?p)" "queues ?p = queues (s\<lparr>sc_pending_aborts := []\<rparr>)"
    "sc_objs ?p = sc_objs s"
    using * [of "s\<lparr>sc_pending_aborts := []\<rparr>" "sc_pending_aborts s"] assms
    by (simp_all add: process_pending_aborts_def Let_def sched_inv_def tables_def)
  note q = queues_fields [OF p(2)]
  show "sc_pending_aborts ?p = []" "sc_running ?p = sc_running s" "sc_requests ?p = sc_requests s" "sc_waiting ?p = sc_waiting s"
    "sc_objs ?p = sc_objs s" "sc_max_num_seqs ?p = sc_max_num_seqs s"
    using q p(3) by simp_all
  show "sched_inv nu ?p" using assms p q unfolding sched_inv_def tables_def books_of_def by simp
qed

text \<open>Admission.\<close>

lemma inv_ensure:
  assumes "tables nu s" "sc_pending_aborts s = []" "ensure_batch_generator env sp s = (s1, cleared)"
  shows "tables nu s1 \<and> queues s1 = queues s \<and> sc_objs s1 = sc_objs s"
proof (cases "(sc_gen s = None \<or> sc_sampler_params s \<noteq> Some (sampler_key sp)) \<and> (sc_gen s = None \<or> sc_running s = [])")
  case True
  have u: "uids_ok nu (run_ids s) {} (sc_gen s) (sc_uid_of s) (sc_rid_of s)" using assms(1,2) by (simp add: tables_def)
  have r: "run_ids s = {}"
  proof (rule ccontr)
    assume "run_ids s \<noteq> {}"
    then obtain rid where "rid \<in> run_ids s" by (metis ex_in_conv)
    then have "sc_gen s \<noteq> None" using uids_okD(5,6) [OF u] by blast
    then show False using True \<open>run_ids s \<noteq> {}\<close> by auto
  qed
  have "uids_ok nu {} {} g (sc_uid_of s) (sc_rid_of s)" for g using uids_idle [of nu "sc_gen s"] u r by simp
  moreover have "queues s1 = queues s \<and> sc_objs s1 = sc_objs s \<and> sc_uid_of s1 = sc_uid_of s \<and> sc_rid_of s1 = sc_rid_of s"
  proof -
    have "\<not> (sc_gen s \<noteq> None \<and> sc_running s \<noteq> [])" using True by argo
    then have "ensure_batch_generator env sp s =
       (let (c, cleared) = (if sc_gen s = None then (sc_cache s, False) else se_recreated env (sc_cache s));
            stops = sc_stop_tokens s \<union> (case sp_stop_token_ids sp of None \<Rightarrow> {} | Some ts \<Rightarrow> set ts)
        in (s\<lparr>sc_cache := c, sc_gen := se_create env sp stops, sc_gen_stops := stops, sc_sampler_params := Some (sampler_key sp)\<rparr>, cleared))"
      unfolding ensure_batch_generator_def using True by (simp only: if_True if_False simp_thms)
    then show ?thesis using assms(3) by (auto simp: Let_def split: prod.splits)
  qed
  ultimately show ?thesis using queues_fields [of s1 s] r assms(2) by (simp add: tables_def)
next
  case False
  then have "s1 = s" using assms(3) by (auto simp: ensure_batch_generator_def split: if_splits)
  then show ?thesis using assms(1) by simp
qed

lemma inv_release: "books_of w (release_hit env i s) = books_of w s \<and> tables nu (release_hit env i s) = tables nu s \<and>
    queues (release_hit env i s) = queues s \<and> sc_gen (release_hit env i s) = sc_gen s \<and>
    request_id (the_req (release_hit env i s) j) = request_id (the_req s j)"
  by (simp add: release_hit_def)

lemma inv_hydrate: "books_of w (hydrate env i c s) = books_of w s \<and> tables nu (hydrate env i c s) = tables nu s \<and>
    queues (hydrate env i c s) = queues s \<and> sc_gen (hydrate env i c s) = sc_gen s \<and>
    request_id (the_req (hydrate env i c s) j) = request_id (the_req s j)"
  using inv_release by (simp add: hydrate_def Let_def split: prod.split option.split)

lemma inv_insert:
  assumes "insert_request env i g s = (s1, res)" "tables nu s" "sc_gen s = Some g"
  shows "(\<forall>w. books_of w s1 = books_of w s) \<and> queues s1 = queues s \<and> request_id (the_req s1 j) = request_id (the_req s j) \<and>
    (case res of None \<Rightarrow> tables nu s1
     | Some us \<Rightarrow> \<exists>u g0 g1. us = [u] \<and> sc_gen s1 = Some g1 \<and> tables nu (s1\<lparr>sc_gen := Some g0\<rparr>) \<and> nu g0 \<le> u \<and> u < nu g1)"
proof -
  let ?r = "the_req s i"
  have t0: "tables nu (s\<lparr>sc_gen := Some g\<rparr>)" using assms(2) tables_gen_same [OF assms(3), of nu] by simp
  obtain g1 r1 where i1: "se_insert env g ?r (tokens_to_process ?r) (remaining_output_budget ?r) (prompt_cache ?r) = (g1, r1)" by fastforce
  show ?thesis
  proof (cases r1)
    case (Inr us)
    obtain u where u: "us = [u]" "nu g \<le> u" "u < nu g1" using insert_ok i1 Inr by blast
    have "s1 = s\<lparr>sc_gen := Some g1\<rparr>" "res = Some us" using assms(1) i1 Inr by (simp_all add: insert_request_def Let_def)
    with u t0 have "res = Some us \<and> us = [u] \<and> sc_gen s1 = Some g1 \<and> tables nu (s1\<lparr>sc_gen := Some g\<rparr>) \<and> nu g \<le> u \<and> u < nu g1" by simp
    then show ?thesis using \<open>s1 = _\<close> by (cases res) (simp, simp, blast)
  next
    case (Inl e)
    have m: "nu g \<le> nu g1" using insert_failed i1 Inl by blast
    have t1: "tables nu (s\<lparr>sc_gen := Some g1\<rparr>)" by (rule tables_gen [OF t0 m])
    show ?thesis
    proof (cases "prompt_cache ?r = None")
      case True
      then have "s1 = s\<lparr>sc_gen := Some g1\<rparr>" "res = None" using assms(1) i1 Inl by (simp_all add: insert_request_def Let_def)
      then show ?thesis using t1 by simp
    next
      case False
      let ?s1 = "release_hit env i s" let ?q = "the_req ?s1 i"
      obtain g2 r2 where i2: "se_insert env g1 ?q (prompt_ids ?q) (remaining_output_budget ?q) None = (g2, r2)" by fastforce
      have e: "s1 = ?s1\<lparr>sc_gen := Some g2\<rparr>" "res = (case r2 of Inl e \<Rightarrow> None | Inr us \<Rightarrow> Some us)"
        using assms(1) i1 i2 Inl False by (simp_all add: insert_request_def Let_def split: sum.splits)
      have t2: "tables nu (?s1\<lparr>sc_gen := Some g1\<rparr>)" using t1 by (simp add: release_hit_def tables_def)
      have rel: "books_of w (?s1\<lparr>sc_gen := Some g2\<rparr>) = books_of w s" "queues (?s1\<lparr>sc_gen := Some g2\<rparr>) = queues s"
        "request_id (the_req ?s1 j) = request_id (the_req s j)" for w using inv_release [of w i s j] by simp_all
      show ?thesis
      proof (cases r2)
        case (Inl e2)
        then show ?thesis using e rel tables_gen [OF t2] insert_failed i2 by simp
      next
        case (Inr us)
        obtain u where u: "us = [u]" "nu g1 \<le> u" "u < nu g2" using insert_ok i2 Inr by blast
        then show ?thesis using e rel t2 Inr by auto
      qed
    qed
  qed
qed

lemma inv_start:
  assumes "books_of (i # w) s" "tables nu (s\<lparr>sc_gen := Some g0\<rparr>)" "sc_gen s = Some g1" "nu g0 \<le> u" "u < nu g1" "sc_pending_aborts s = []"
    "int (length (sc_running s)) < sc_max_num_seqs s"
  shows "books_of w (start_running env i u s) \<and> tables nu (start_running env i u s) \<and> sc_pending_aborts (start_running env i u s) = [] \<and>
    sc_max_num_seqs (start_running env i u s) = sc_max_num_seqs s \<and> sc_requests (start_running env i u s) = sc_requests s \<and>
    sc_running (start_running env i u s) = pd_set (sc_running s) (request_id (the_req s i)) i \<and>
    request_id (the_req (start_running env i u s) j) = request_id (the_req s j)"
proof -
  let ?rid = "request_id (the_req s i)"
  let ?f = "\<lambda>r. r\<lparr>batch_uid := Some u, status := RUNNING\<rparr>"
  let ?s0 = "s\<lparr>sc_uid_of := pd_set (sc_uid_of s) ?rid u, sc_rid_of := pd_set (sc_rid_of s) u ?rid\<rparr>"
  let ?s3 = "(upd_req i ?f ?s0)\<lparr>sc_running := pd_set (sc_running s) ?rid i\<rparr>"
  let ?ids = "request_stop_ids (the_req s i)"
  let ?s4 = "if ?ids \<noteq> {} \<and> (case sc_gen s of None \<Rightarrow> False | Some g \<Rightarrow> se_shares_stops env g)
    then upd_obj i (\<lambda>o1. o1\<lparr>rq_added_stops := Some ?ids\<rparr>) (?s3\<lparr>sc_gen_stops := sc_gen_stops ?s3 \<union> ?ids\<rparr>) else ?s3"
  have e: "start_running env i u s = ?s4\<lparr>sc_total_prompt := sc_total_prompt ?s4 + num_prompt_tokens (the_req ?s4 i)\<rparr>"
    unfolding start_running_def Let_def by simp
  have "books_of w ((upd_req i ?f ?s0)\<lparr>sc_running := pd_set (sc_running ?s0) (request_id (the_req ?s0 i)) i\<rparr>)"
    by (rule books_start) (use assms(1,7) in simp_all)
  then have b3: "books_of w ?s3" by simp
  have n: "?rid \<notin> run_ids s" using books_waiting_not_running [OF assms(1), of i] by simp
  have "uids_ok nu (run_ids s) {} (Some g0) (sc_uid_of s) (sc_rid_of s)" using assms(2,6) by (simp add: tables_def)
  from uids_start [OF this n assms(4,5)] have t3: "tables nu ?s3" using assms(3,6) by (simp add: tables_def)
  have q: "sc_pending_aborts ?s4 = []" "sc_max_num_seqs ?s4 = sc_max_num_seqs s" "sc_requests ?s4 = sc_requests s"
    "sc_running ?s4 = pd_set (sc_running s) ?rid i" "request_id (the_req ?s4 j) = request_id (the_req s j)"
    using assms(6) by simp_all
  have "books_of w ?s4" "tables nu ?s4" using b3 t3 by (simp_all del: upd_req_fields)
  then show ?thesis unfolding e using q by simp
qed

lemma inv_admit:
  assumes "books_of (i # w) s" "tables nu s" "sc_pending_aborts s = []" "int (length (sc_running s)) < sc_max_num_seqs s"
    "admit_next env i s = (s1, res)"
  shows "tables nu s1 \<and> sc_pending_aborts s1 = [] \<and> sc_requests s1 = sc_requests s \<and> sc_max_num_seqs s1 = sc_max_num_seqs s \<and>
    (\<forall>j. request_id (the_req s1 j) = request_id (the_req s j)) \<and>
    (case res of None \<Rightarrow> books_of (i # w) s1 \<and> sc_running s1 = sc_running s
     | Some runs \<Rightarrow> runs \<and> books_of w s1 \<and> sc_running s1 = pd_set (sc_running s) (request_id (the_req s i)) i)"
proof -
  obtain s2 c where e: "ensure_batch_generator env (sampling (the_req s i)) s = (s2, c)" by fastforce
  have k2: "tables nu s2" "queues s2 = queues s" "sc_objs s2 = sc_objs s" using inv_ensure [OF assms(2,3) e] by simp_all
  note q2 = queues_fields [OF k2(2)]
  have b2: "books_of (i # w) s2" using assms(1) q2 k2(3) unfolding books_of_def by simp
  show ?thesis
  proof (cases "sc_gen s2")
    case None
    then have "s1 = s2" "res = None" using assms(5) e by (simp_all add: admit_next_def)
    then show ?thesis using k2 q2 b2 assms(3) by simp
  next
    case (Some g)
    let ?h = "hydrate env i c s2"
    have h: "tables nu ?h" "queues ?h = queues s" "sc_gen ?h = Some g" "books_of (i # w) ?h"
      "request_id (the_req ?h j) = request_id (the_req s j)" for j
      using inv_hydrate [of "i # w" i c s2 j] k2 b2 Some by simp_all
    obtain s3 r where ins: "insert_request env i g ?h = (s3, r)" by fastforce
    note k = inv_insert [OF ins h(1,3)]
    have k3: "books_of (i # w) s3" "queues s3 = queues s" "request_id (the_req s3 j) = request_id (the_req s j)" for j
      using k [of j] h(2,4,5) by simp_all
    note q3 = queues_fields [OF k3(2)]
    show ?thesis
    proof (cases r)
      case None
      then have "s1 = s3" "res = None" using assms(5) e Some ins by (simp_all add: admit_next_def)
      then show ?thesis using k [of 0] k3 q3 None assms(3) by simp
    next
      case us: (Some us)
      then obtain u g0 g1 where u: "us = [u]" "sc_gen s3 = Some g1" "tables nu (s3\<lparr>sc_gen := Some g0\<rparr>)" "nu g0 \<le> u" "u < nu g1"
        using k [of 0] by auto
      have s1: "s1 = start_running env i u s3" "res = Some True" using assms(5) e Some ins us u(1) by (simp_all add: admit_next_def)
      have "sc_pending_aborts s3 = []" "int (length (sc_running s3)) < sc_max_num_seqs s3" using q3 assms(3,4) by simp_all
      note st = inv_start [OF k3(1) u(3,2,4,5) this]
      show ?thesis unfolding s1 using st k3(3) q3 by simp
    qed
  qed
qed

lemma pd_set_new: "k \<notin> fst ` set d \<Longrightarrow> pd_set d k v = d @ [(k, v)]"
  by (induction d k v rule: pd_set.induct) auto

lemma inv_schedule_from:
  "books_of w s \<Longrightarrow> tables nu s \<Longrightarrow> sc_pending_aborts s = [] \<Longrightarrow> schedule_from env w s = (s1, started) \<Longrightarrow>
   schedules nu w s s1 started \<and> (\<forall>j. request_id (the_req s1 j) = request_id (the_req s j))"
proof (induction w arbitrary: s s1 started)
  case Nil
  then show ?case by (auto simp: schedules_def)
next
  case (Cons i w)
  show ?case
  proof (cases "int (length (sc_running s)) \<ge> sc_max_num_seqs s \<or> (sc_running s \<noteq> [] \<and> se_tight env (sc_gen s))")
    case True
    then have e: "s1 = s\<lparr>sc_waiting := i # w\<rparr>" "started = []" using Cons.prems(4) by simp_all
    show ?thesis unfolding e using Cons.prems(1-3) by (simp add: schedules_def)
  next
    case False
    obtain s2 res where a: "admit_next env i s = (s2, res)" by fastforce
    from False have "int (length (sc_running s)) < sc_max_num_seqs s" by simp
    note k = inv_admit [OF Cons.prems(1-3) this a]
    show ?thesis
    proof (cases res)
      case None
      then have e: "s1 = s2\<lparr>sc_waiting := i # w\<rparr>" "started = []"
        using Cons.prems(4) a unfolding schedule_from.simps if_not_P [OF False] by simp_all
      show ?thesis unfolding e using k None by (simp add: schedules_def)
    next
      case (Some runs)
      obtain s3 more where r: "schedule_from env w s2 = (s3, more)" by fastforce
      have e: "s1 = s3" "started = i # more"
        using Cons.prems(4) a r k Some unfolding schedule_from.simps if_not_P [OF False] by auto
      have "request_id (the_req s i) \<notin> run_ids s" using books_waiting_not_running [OF Cons.prems(1), of i] by simp
      then have "sc_running s2 = sc_running s @ [(request_id (the_req s i), i)]" using k Some pd_set_new by simp
      then show ?thesis using Cons.IH [OF _ _ _ r] k Some unfolding e by (simp add: schedules_def)
    qed
  qed
qed

lemma inv_schedule:
  assumes "sched_inv nu s" "sc_pending_aborts s = []" "schedule_waiting env s = (s1, started)"
  shows "schedules nu (sc_waiting s) s s1 started" "request_id (the_req s1 j) = request_id (the_req s j)"
  using inv_schedule_from [of "sc_waiting s" "s\<lparr>sc_waiting := []\<rparr>" s1 started] assms
  by (simp_all add: sched_inv_def schedule_waiting_def schedules_def)

text \<open>The generation attempts and the step.\<close>

lemma inv_recovered:
  assumes "sched_inv nu s" "sc_pending_aborts s = []"
  shows "sched_inv nu (reschedule_running_requests (recover_from_cache_error env s))"
    "sc_pending_aborts (reschedule_running_requests (recover_from_cache_error env s)) = []"
    "sc_requests (reschedule_running_requests (recover_from_cache_error env s)) = sc_requests s"
proof -
  let ?r = "recover_from_cache_error env s"
  have b: "books ?r" using assms(1) by (simp add: sched_inv_def recover_from_cache_error_def)
  note R = reschedule_books [OF b]
  show "sched_inv nu (reschedule_running_requests ?r)"
    using R assms(2) uids_empty by (simp add: sched_inv_def tables_def recover_from_cache_error_def)
  show "sc_pending_aborts (reschedule_running_requests ?r) = []" "sc_requests (reschedule_running_requests ?r) = sc_requests s"
    using R assms(2) by (simp_all add: recover_from_cache_error_def)
qed

lemma inv_next:
  assumes "call_next env s = (s1, res)" "sched_inv nu s"
  shows "sched_inv nu s1" "queues s1 = queues s"
  using assms next_mono tables_gen [of nu _ s] tables_gen_same [of s _ nu]
  by (auto simp: call_next_def sched_inv_def split: option.splits prod.splits) (metis fst_conv)+

lemma inv_attempts:
  "sched_inv nu s \<Longrightarrow> sc_pending_aborts s = [] \<Longrightarrow> run_attempts env defer n s = (s1, res) \<Longrightarrow>
   sched_inv nu s1 \<and> sc_pending_aborts s1 = [] \<and> fst ` set (sc_requests s1) \<subseteq> fst ` set (sc_requests s) \<and>
   (case res of Inl e \<Rightarrow> True
    | Inr (outs, fin) \<Rightarrow> list_all (\<lambda>out. ro_request_id out \<in> fst ` set (sc_requests s)) outs \<and> set fin \<subseteq> fst ` set (sc_requests s))"
proof (induction n arbitrary: s rule: less_induct)
  case (less n)
  note inv = less.prems(1) and pend = less.prems(2) and run = less.prems(3)
  obtain a r where c: "call_next env s = (a, r)" by fastforce
  note A = inv_next [OF c inv]
  note q = queues_fields [OF A(2)]
  show ?case
  proof (cases r)
    case (Inr pg)
    obtain ps gs where pg: "pg = (ps, gs)" by fastforce
    obtain b outs fin where p: "process_batch_responses env (ps @ gs) a = (b, outs, fin)" by (metis prod_cases3)
    note B = inv_process_batch [OF p A(1)] process_batch_ids [OF p]
    note qb = queues_fields [OF B(2)]
    have known: "x \<in> fst ` set (sc_requests s)" "pd_get (sc_running b) x = pd_get (sc_requests b) x" if "x \<in> run_ids a" for x
      using books_run_known [of "sc_waiting b" b x] B(1) that q qb by (simp_all add: sched_inv_def)
    have e: "s1 = (if defer then b else cleanup_finished env fin b)" "res = Inr (outs, fin)"
      using run c Inr pg p by (cases n; simp)+
    have "list_all (\<lambda>rid. pd_get (sc_running b) rid = pd_get (sc_requests b) rid) fin" using B(4) known(2) by (auto simp: list_all_iff)
    note C = inv_cleanup [OF B(1) this]
    have "set fin \<subseteq> fst ` set (sc_requests s)" using subsetD [OF B(4)] known(1) by (intro subsetI) simp
    moreover have "list_all (\<lambda>out. ro_request_id out \<in> fst ` set (sc_requests s)) outs"
      using B(3) known(1) unfolding list_all_iff by simp
    ultimately show ?thesis using e B(1) C q qb pend by auto
  next
    case (Inl e)
    show ?thesis
    proof (cases "n = 0 \<or> \<not> is_cache_error e")
      case True
      then have "s1 = a" "res = Inl e" using run c Inl by (cases n; simp)+
      then show ?thesis using A(1) q pend by simp
    next
      case False
      then obtain m where m: "n = Suc m" by (cases n) auto
      let ?w = "reschedule_running_requests (recover_from_cache_error env a)"
      obtain b st where sch: "schedule_waiting env ?w = (b, st)" by fastforce
      have w: "sched_inv nu ?w" "sc_pending_aborts ?w = []" "sc_requests ?w = sc_requests a" using inv_recovered [OF A(1)] q pend by simp_all
      from inv_schedule(1) [OF w(1,2) sch] have b: "sched_inv nu b" "sc_pending_aborts b = []" "sc_requests b = sc_requests s"
        using w(3) q by (simp_all add: schedules_def sched_inv_def)
      have "run_attempts env defer m b = (s1, res)" using run c Inl False m sch by simp
      from less.IH [OF _ b(1,2) this] show ?thesis unfolding m b(3) by blast
    qed
  qed
qed

lemma inv_step:
  assumes "sched_inv nu s" "sched_step env n defer s = (s1, res)"
  shows "sched_inv nu s1 \<and> fst ` set (sc_requests s1) \<subseteq> fst ` set (sc_requests s) \<and>
    (case res of Inl e \<Rightarrow> True
     | Inr out \<Rightarrow> list_all (\<lambda>x. ro_request_id x \<in> fst ` set (sc_requests s)) (so_outputs out) \<and>
         set (so_finished out) \<union> set (so_scheduled out) \<subseteq> fst ` set (sc_requests s))"
proof -
  let ?p = "process_pending_aborts env s"
  note P = inv_pending [OF assms(1)]
  obtain a st where sch: "schedule_waiting env ?p = (a, st)" by fastforce
  note S = inv_schedule [OF P(1,2) sch]
  have a: "sched_inv nu a" "sc_pending_aborts a = []" "sc_requests a = sc_requests s" "st @ sc_waiting a = sc_waiting s"
    using S(1) P(3-5) by (simp_all add: schedules_def sched_inv_def)
  have st: "set (map (\<lambda>i. request_id (the_req a i)) st) \<subseteq> fst ` set (sc_requests s)"
  proof
    fix x assume "x \<in> set (map (\<lambda>i. request_id (the_req a i)) st)"
    then obtain i where i: "i \<in> set st" "x = request_id (the_req a i)" by auto
    have "books s" using assms(1) by (simp add: sched_inv_def)
    moreover have "i \<in> set (sc_waiting s)" using i(1) a(4) by (metis Un_iff set_append)
    ultimately have "pd_get (sc_requests s) (request_id (the_req s i)) = Some i" by (rule books_ofD(9))
    then show "x \<in> fst ` set (sc_requests s)" using i(2) S(2) P(6) by (simp add: pd_get_Some_in_keys)
  qed
  have fin: "sched_inv nu (b\<lparr>sc_finished_ids := {}\<rparr>) = sched_inv nu b" for b by (simp add: sched_inv_def)
  show ?thesis
  proof (cases "sc_gen a \<noteq> None \<and> sc_running a \<noteq> []")
    case True
    obtain b r where r: "run_attempts env defer n a = (b, r)" by fastforce
    note R = inv_attempts [OF a(1,2) r]
    show ?thesis
    proof (cases r)
      case (Inl e)
      then have "s1 = b" "res = Inl e" using assms(2) True by (simp_all add: sched_step_def Let_def sch r del: run_attempts.simps)
      then show ?thesis using R a(3) by simp
    next
      case (Inr x)
      obtain outs fi where x: "x = (outs, fi)" by fastforce
      have s1: "s1 = b\<lparr>sc_finished_ids := {}\<rparr>" using assms(2) True Inr x by (simp add: sched_step_def Let_def sch r del: run_attempts.simps)
      obtain out where out: "res = Inr out" "so_outputs out = outs" "so_finished out = fi" "so_scheduled out = map (\<lambda>i. request_id (the_req a i)) st"
        using assms(2) True Inr x by (auto simp: sched_step_def Let_def sch r simp del: run_attempts.simps)
      have "list_all (\<lambda>out. ro_request_id out \<in> fst ` set (sc_requests s)) outs" "set fi \<subseteq> fst ` set (sc_requests s)"
        "sched_inv nu b" "fst ` set (sc_requests b) \<subseteq> fst ` set (sc_requests s)"
        using R a(3) Inr x by simp_all
      then show ?thesis unfolding s1 fin out sum.case out(2-4) using st by simp
    qed
  next
    case False
    then obtain out where out: "s1 = a\<lparr>sc_finished_ids := {}\<rparr>" "res = Inr out" "so_outputs out = []" "so_finished out = []"
      "so_scheduled out = map (\<lambda>i. request_id (the_req a i)) st"
      using assms(2) by (auto simp: sched_step_def Let_def sch simp del: run_attempts.simps)
    show ?thesis unfolding out(1,2) fin sum.case out(3-5) using a(1,3) st by simp
  qed
qed

end

section \<open>Restarts\<close>

text \<open>Only rescheduling counts a restart.\<close>

abbreviation restarts :: "('g, 'c) scheduler \<Rightarrow> nat \<Rightarrow> int" where
  "restarts s \<equiv> (\<lambda>i. recovery_restarts (the_req s i))"

lemma kept_restarts: "kept i s s1 \<Longrightarrow> restarts s1 = restarts s"
proof
  fix j assume "kept i s s1"
  then show "restarts s1 j = restarts s j" by (cases "j = i") (simp_all add: kept_def kept_request_def)
qed

lemma process_restarts: "restarts (fst (process_response env resp x)) = restarts (fst x)"
proof (cases x)
  case (Pair s outs)
  show ?thesis
  proof (cases "\<exists>rid j. pd_get (sc_rid_of s) (gr_uid resp) = Some rid \<and> pd_get (sc_running s) rid = Some j")
    case True
    then obtain rid j where r: "pd_get (sc_rid_of s) (gr_uid resp) = Some rid" "pd_get (sc_running s) rid = Some j" by blast
    show ?thesis using r kept_restarts [OF kept_emit [of j s env rid resp]]
      by (cases "emit env rid j resp s") (simp add: process_response_def Pair)
  next
    case False
    then show ?thesis by (auto simp: process_response_def Pair split: option.split)
  qed
qed

lemma process_fold_restarts: "restarts (fst (fold (process_response env) resps x)) = restarts (fst x)"
  by (induction resps arbitrary: x) (simp_all add: process_restarts)

lemma process_batch_restarts: "process_batch_responses env resps s = (s1, outs, fin) \<Longrightarrow> restarts s1 = restarts s"
  using process_fold_restarts [of env resps "(s, [])"] by (auto simp: process_batch_responses_def Let_def split: prod.splits)

lemma cleanup_one_objs: "sc_objs (cleanup_one env sv rid s) = sc_objs s"
  unfolding cleanup_one_def Let_def by (simp split: option.split)

lemma cleanup_objs: "sc_objs (cleanup_finished env ids s) = sc_objs s"
proof -
  have "sc_objs (fold (cleanup_one env sv) xs a) = sc_objs a" for sv xs a
    by (induction xs arbitrary: a) (simp_all add: cleanup_one_objs)
  then show ?thesis by (simp add: cleanup_finished_def)
qed

lemma hydrate_restarts: "restarts (hydrate env i c s) = restarts s"
  by (rule ext) (simp add: hydrate_def release_hit_def drop_hit_def apply_hit_def Let_def split: prod.split option.split)

lemma insert_restarts: "insert_request env i g s = (s1, res) \<Longrightarrow> restarts s1 = restarts s"
  by (rule ext) (auto simp: insert_request_def release_hit_def drop_hit_def Let_def split: prod.splits sum.splits if_splits)

lemma start_restarts: "restarts (start_running env i u s) = restarts s"
  by (rule ext) (simp add: start_running_def Let_def)

lemma admit_restarts:
  assumes "admit_next env i s = (s1, res)"
  shows "restarts s1 = restarts s"
proof -
  obtain s2 c where e: "ensure_batch_generator env (sampling (the_req s i)) s = (s2, c)" by fastforce
  have o: "sc_objs s2 = sc_objs s"
    using arg_cong [OF e, of "\<lambda>x. sc_objs (fst x)"] by (simp add: ensure_batch_generator_def Let_def split: if_splits prod.splits)
  show ?thesis
  proof (cases "sc_gen s2")
    case None
    then show ?thesis using assms e o by (simp add: admit_next_def)
  next
    case (Some g)
    obtain s3 r where ins: "insert_request env i g (hydrate env i c s2) = (s3, r)" by fastforce
    have "restarts s3 = restarts s" using insert_restarts [OF ins] hydrate_restarts [of env i c s2] o by simp
    then show ?thesis
      using assms e Some ins start_restarts [of env i _ s3] by (auto simp: admit_next_def split: option.splits list.splits)
  qed
qed

lemma schedule_restarts: "restarts (fst (schedule_waiting env s)) = restarts s"
proof -
  have "restarts (fst (schedule_from env w a)) = restarts a" for w a
  proof (induction w arbitrary: a)
    case (Cons i w)
    obtain s1 res where a: "admit_next env i a = (s1, res)" by fastforce
    have r: "restarts s1 = restarts a" by (rule admit_restarts [OF a])
    show ?case using Cons.IH [of s1] r a by (cases res; cases "schedule_from env w s1") simp_all
  qed simp
  then show ?thesis by (simp add: schedule_waiting_def)
qed

lemma running_objects_distinct: "books s \<Longrightarrow> distinct (map snd (sc_running s))"
proof -
  assume b: "books s"
  note D = books_ofD [OF b]
  have "inj_on snd (set (sc_running s))"
  proof (rule inj_onI)
    fix x y assume x: "x \<in> set (sc_running s)" and y: "y \<in> set (sc_running s)" and e: "snd x = snd y"
    have "pd_get (sc_running s) (fst x) = Some (snd x)" "pd_get (sc_running s) (fst y) = Some (snd y)"
      using x y D(2) by (simp_all add: pd_get_eq_Some_iff)
    then have "fst x = fst y" using D(4,7) e by metis
    then show "x = y" using e by (rule prod_eqI)
  qed
  moreover have "distinct (sc_running s)" using D(2) unfolding pd_ok_def distinct_map by (rule conjunct1)
  ultimately show ?thesis by (simp add: distinct_map)
qed

lemma reschedule_restarts: "books s \<Longrightarrow> restarts (reschedule_running_requests s) i \<le> restarts s i + 1"
proof -
  have one: "restarts (reschedule_one (rid, j) a) k = restarts a k + (if k = j then 1 else 0)" for rid j k and a :: "('a, 'b) scheduler"
    by (simp add: reschedule_one_def Let_def restart_request_def)
  have "distinct (map snd d) \<Longrightarrow> restarts (fold reschedule_one d a) k = restarts a k + (if k \<in> snd ` set d then 1 else 0)"
    for d k and a :: "('a, 'b) scheduler"
  proof (induction d arbitrary: a)
    case (Cons x d)
    obtain rid j where x: "x = (rid, j)" by fastforce
    have "distinct (map snd d)" "j \<notin> snd ` set d" using Cons.prems x by auto
    then show ?case using Cons.IH [of "reschedule_one x a"] one [of rid j a k] x by simp
  qed simp
  moreover assume "books s"
  ultimately show ?thesis using running_objects_distinct [of s] by (simp add: reschedule_running_requests_def)
qed

context generator_contract
begin

lemma attempts_restarts:
  "sched_inv nu s \<Longrightarrow> sc_pending_aborts s = [] \<Longrightarrow> restarts (fst (run_attempts env later n s)) i \<le> restarts s i + int n"
proof (induction n arbitrary: s rule: less_induct)
  case (less n)
  obtain a r where c: "call_next env s = (a, r)" by fastforce
  note A = inv_next [OF c less.prems(1)]
  have o: "restarts a = restarts s" using c by (auto simp: call_next_def split: option.splits prod.splits)
  show ?case
  proof (cases r)
    case (Inr pg)
    obtain ps gs where pg: "pg = (ps, gs)" by fastforce
    obtain b outs fin where p: "process_batch_responses env (ps @ gs) a = (b, outs, fin)" by (metis prod_cases3)
    have "restarts b = restarts s" using process_batch_restarts [OF p] o by simp
    moreover have "fst (run_attempts env later n s) = (if later then b else cleanup_finished env fin b)"
      using c Inr pg p by (cases n; simp)
    ultimately show ?thesis using fun_cong [of "restarts b" "restarts s" i] by (simp add: cleanup_objs)
  next
    case (Inl e)
    show ?thesis
    proof (cases "n = 0 \<or> \<not> is_cache_error e")
      case True
      then have "fst (run_attempts env later n s) = a" using c Inl by (cases n; simp)
      then show ?thesis using fun_cong [OF o, of i] by simp
    next
      case False
      then obtain m where m: "n = Suc m" by (cases n) auto
      let ?w = "reschedule_running_requests (recover_from_cache_error env a)"
      obtain b st where sch: "schedule_waiting env ?w = (b, st)" by fastforce
      have p: "sc_pending_aborts a = []" using queues_fields [OF A(2)] less.prems(2) by simp
      note w = inv_recovered [OF A(1) p]
      have b: "sched_inv nu b" "sc_pending_aborts b = []"
        using inv_schedule(1) [OF w(1,2) sch] by (simp_all add: schedules_def sched_inv_def)
      have "books (recover_from_cache_error env a)" using A(1) by (simp add: recover_from_cache_error_def sched_inv_def)
      from reschedule_restarts [OF this, of i] have "restarts ?w i \<le> restarts s i + 1"
        using fun_cong [OF o, of i] by (simp add: recover_from_cache_error_def)
      moreover have "restarts b i = restarts ?w i" using fun_cong [OF schedule_restarts [of env ?w], of i] sch by simp
      moreover have "fst (run_attempts env later n s) = fst (run_attempts env later m b)" using c Inl False m sch by simp
      ultimately show ?thesis using less.IH [OF _ b, of m] m by simp
    qed
  qed
qed

lemma step_restarts:
  assumes "sched_inv nu s"
  shows "restarts (fst (sched_step env n later s)) i \<le> restarts s i + int n"
proof -
  note P = inv_pending [OF assms]
  obtain a st where sch: "schedule_waiting env (process_pending_aborts env s) = (a, st)" by fastforce
  have a: "sched_inv nu a" "sc_pending_aborts a = []"
    using inv_schedule(1) [OF P(1,2) sch] by (simp_all add: schedules_def sched_inv_def)
  have r: "restarts a i = restarts s i"
    using fun_cong [OF schedule_restarts [of env "process_pending_aborts env s"], of i] P(6) sch by simp
  have "restarts (fst (sched_step env n later s)) i \<in> {restarts a i, restarts (fst (run_attempts env later n a)) i}"
    unfolding sched_step_def Let_def sch prod.case by (simp split: prod.split sum.split del: run_attempts.simps)
  then show ?thesis using attempts_restarts [OF a, of later n i] r by auto
qed

end

section \<open>Admission and aborts\<close>

lemma books_join:
  assumes "books s" "request_id (rq o1) \<notin> fst ` set (sc_requests s)" "status (rq o1) = WAITING"
  shows "books (s\<lparr>sc_objs := (sc_objs s)(sc_next_obj s := o1), sc_next_obj := sc_next_obj s + 1,
    sc_requests := pd_set (sc_requests s) (request_id (rq o1)) (sc_next_obj s), sc_waiting := sc_waiting s @ [sc_next_obj s]\<rparr>)" (is "books ?s1")
proof -
  let ?i = "sc_next_obj s" and ?rid = "request_id (rq o1)"
  note D = books_ofD [OF assms(1)]
  have lt: "j < ?i" if "pd_get (sc_requests s) r = Some j" for r j using D(5) that by blast
  have o: "the_req ?s1 j = the_req s j" if "j < ?i" for j using that by simp
  have other: "r \<noteq> ?rid" if "pd_get (sc_requests s) r = Some j" for r j using assms(2) that pd_get_Some_in_keys by metis
  show ?thesis
  proof (rule books_ofI)
    fix r j assume a: "pd_get (sc_requests ?s1) r = Some j"
    show "request_id (the_req ?s1 j) = r \<and> j < sc_next_obj ?s1 \<and> (j \<in> set (sc_waiting ?s1) \<or> pd_get (sc_running ?s1) r = Some j)"
    proof (cases "r = ?rid")
      case True
      then show ?thesis using a by simp
    next
      case False
      then have b: "pd_get (sc_requests s) r = Some j" using a by simp
      show ?thesis unfolding o [OF lt [OF b]] using D(4-6) [OF b] by auto
    qed
  next
    fix r j assume "pd_get (sc_running ?s1) r = Some j"
    then have a: "pd_get (sc_running s) r = Some j" by simp
    show "pd_get (sc_requests ?s1) r = Some j \<and> status (the_req ?s1 j) \<noteq> WAITING"
      unfolding o [OF lt [OF D(7) [OF a]]] using D(7,8) [OF a] other [OF D(7) [OF a]] by simp
  next
    fix j assume "j \<in> set (sc_waiting ?s1)"
    then consider "j = ?i" | "j \<in> set (sc_waiting s)" by auto
    then show "pd_get (sc_requests ?s1) (request_id (the_req ?s1 j)) = Some j \<and> status (the_req ?s1 j) = WAITING"
    proof cases
      case 1
      then show ?thesis using assms(3) by simp
    next
      case 2
      show ?thesis unfolding o [OF lt [OF D(9) [OF 2]]] using D(9,10) [OF 2] other [OF D(9) [OF 2]] by simp
    qed
  next
    show "distinct (sc_waiting ?s1)" using D(3) lt D(9) by auto
  qed (use D(1,2,11) in simp_all)
qed

lemma admission_kept:
  "request_id (rq (tokenize env o1)) = request_id (rq o1)" "status (rq (tokenize env o1)) = status (rq o1)"
  "request_id (fst (clamp_budget env r l)) = request_id r" "status (fst (clamp_budget env r l)) = status r"
  by (simp_all add: tokenize_def clamp_budget_def Let_def split: option.split prod.split pyval.split)

lemma inv_add:
  assumes "sched_inv nu s" "status (rq o0) = WAITING"
  shows "sched_inv nu (fst (add_request env o0 s))"
proof -
  define s1 where "s1 = (if sc_pld_spec s \<and> sc_pld_auto s then s\<lparr>sc_pld_window := 1\<rparr> else s)"
  let ?o = "tokenize env o0" and ?rid = "request_id (rq o0)"
  obtain r2 l where c: "clamp_budget env (rq ?o) (sc_limits s1) = (r2, l)" by fastforce
  let ?s2 = "s1\<lparr>sc_limits := l\<rparr>"
  obtain ch r3 where cr: "(if bypass_prefix_cache r2 then (sc_cache ?s2, r2\<lparr>remaining_tokens := prompt_token_ids r2\<rparr>)
    else case se_lookup env (sc_cache ?s2) r2 of (ch, h) \<Rightarrow> (ch, apply_hit h r2)) = (ch, r3)" by fastforce
  have id: "request_id r3 = ?rid" "status r3 = WAITING"
    using cr admission_kept(1,2) [of env o0] admission_kept(3,4) [of env "rq ?o" "sc_limits s1"] assms(2) c
    by (auto split: if_splits prod.splits)
  have i1: "sched_inv nu s1" using assms(1) by (simp add: sched_inv_def s1_def)
  then have i2: "sched_inv nu ?s2" by (simp add: sched_inv_def)
  have r1: "sc_requests s1 = sc_requests s" by (simp add: s1_def)
  let ?j = "?s2\<lparr>sc_cache := ch, sc_objs := (sc_objs ?s2)(sc_next_obj ?s2 := ?o\<lparr>rq := r3\<rparr>), sc_next_obj := sc_next_obj ?s2 + 1,
    sc_requests := pd_set (sc_requests ?s2) ?rid (sc_next_obj ?s2), sc_waiting := sc_waiting ?s2 @ [sc_next_obj ?s2]\<rparr>"
  have j: "sched_inv nu ?j" if n: "?rid \<notin> fst ` set (sc_requests s)"
  proof -
    have "books (?s2\<lparr>sc_cache := ch\<rparr>)" using i2 by (simp add: sched_inv_def)
    from books_join [OF this, of "?o\<lparr>rq := r3\<rparr>"] have "books ?j" using n id r1 by simp
    moreover have "tables nu ?j" using i2 by (simp add: sched_inv_def)
    ultimately show ?thesis by (simp add: sched_inv_def)
  qed
  let ?n = "int (length (prompt_ids (rq ?o)))"
  have "fst (add_request env o0 s) = (if ?rid \<in> fst ` set (sc_requests s) then s
      else if prompt_ids (rq ?o) = [] then s1 else if rq_max_prompt ?o > 0 \<and> ?n > rq_max_prompt ?o then s1
      else if se_dsv4_max env > 0 \<and> ?n > se_dsv4_max env then ?s2 else ?j)"
    unfolding add_request_def Let_def s1_def [symmetric] c prod.case cr by (simp only: if_distrib [of fst] fst_conv)
  then show ?thesis using assms(1) i1 i2 j by (simp only: split: if_split) blast
qed

text \<open>An abort takes the request out of both queues.\<close>

lemma books_cong:
  "sc_requests a = sc_requests b \<Longrightarrow> sc_running a = sc_running b \<Longrightarrow> sc_next_obj a = sc_next_obj b \<Longrightarrow>
   sc_max_num_seqs a = sc_max_num_seqs b \<Longrightarrow> sc_objs a = sc_objs b \<Longrightarrow> books_of w a = books_of w b"
  by (simp add: books_of_def)

lemma books_leave:
  assumes "books s" "pd_get (sc_requests s) rid = Some i"
  shows "books_of (filter (\<lambda>j. j \<noteq> i) (sc_waiting s))
    (upd_req i f (s\<lparr>sc_requests := pd_del (sc_requests s) rid, sc_running := pd_del (sc_running s) rid\<rparr>))" (is "books_of ?w ?s1")
proof -
  note D = books_ofD [OF assms(1)]
  have idi: "request_id (the_req s i) = rid" using D(4) [OF assms(2)] .
  have ne: "j \<noteq> i" if "pd_get (sc_requests s) r = Some j" "r \<noteq> rid" for r j using D(4) [OF that(1)] idi that(2) by auto
  have o: "the_req ?s1 j = the_req s j" if "j \<noteq> i" for j using that by simp
  show ?thesis
  proof (rule books_ofI)
    fix r j assume "pd_get (sc_requests ?s1) r = Some j"
    then have a: "pd_get (sc_requests s) r = Some j" "r \<noteq> rid" by (auto split: if_splits)
    show "request_id (the_req ?s1 j) = r \<and> j < sc_next_obj ?s1 \<and> (j \<in> set ?w \<or> pd_get (sc_running ?s1) r = Some j)"
      unfolding o [OF ne [OF a]] using D(4-6) [OF a(1)] ne [OF a] a(2) by auto
  next
    fix r j assume "pd_get (sc_running ?s1) r = Some j"
    then have a: "pd_get (sc_running s) r = Some j" "r \<noteq> rid" by (auto split: if_splits)
    show "pd_get (sc_requests ?s1) r = Some j \<and> status (the_req ?s1 j) \<noteq> WAITING"
      unfolding o [OF ne [OF D(7) [OF a(1)] a(2)]] using D(7,8) [OF a(1)] a(2) by simp
  next
    fix j assume "j \<in> set ?w"
    then have a: "j \<in> set (sc_waiting s)" "j \<noteq> i" by auto
    have "request_id (the_req s j) \<noteq> rid" using D(9) [OF a(1)] assms(2) a(2) by auto
    then show "pd_get (sc_requests ?s1) (request_id (the_req ?s1 j)) = Some j \<and> status (the_req ?s1 j) = WAITING"
      unfolding o [OF a(2)] using D(9,10) [OF a(1)] by simp
  next
    show "int (length (sc_running ?s1)) \<le> max 0 (sc_max_num_seqs ?s1)"
      using D(11) length_pd_del_le [of "sc_running s" rid] by simp
  qed (use D(1-3) in simp_all)
qed

lemma remove_equal_filter:
  "distinct q \<Longrightarrow> (\<And>j. j \<in> set q \<Longrightarrow> request_id (rq (objs j)) = request_id r \<Longrightarrow> j = i) \<Longrightarrow>
   (i \<in> set q \<Longrightarrow> request_id (rq (objs i)) = request_id r) \<Longrightarrow> remove_equal objs r q = filter (\<lambda>j. j \<noteq> i) q"
proof (induction q)
  case (Cons a q)
  show ?case
  proof (cases "a = i")
    case True
    then have "filter (\<lambda>j. j \<noteq> i) q = q" using Cons.prems(1) by (auto simp: filter_id_conv)
    then show ?thesis using True Cons.prems(3) by (simp add: req_eq_def)
  next
    case False
    then have "request_id (rq (objs a)) \<noteq> request_id r" using Cons.prems(2) by auto
    then show ?thesis using False Cons by (simp add: req_eq_def)
  qed
qed simp

text \<open>The state after an abort, field by field.\<close>

lemma abort_fields:
  assumes "pd_get (sc_requests s) rid = Some i"
  shows "sc_requests (fst (abort_request env rid s)) = pd_del (sc_requests s) rid"
    "sc_running (fst (abort_request env rid s)) = pd_del (sc_running s) rid"
    "sc_waiting (fst (abort_request env rid s)) = (if status (the_req s i) = WAITING then remove_equal (sc_objs s) (the_req s i) (sc_waiting s) else sc_waiting s)"
    "sc_pending_aborts (fst (abort_request env rid s)) = (if request_id (the_req s i) \<in> fst ` set (sc_uid_of s)
       then List.insert (request_id (the_req s i)) (sc_pending_aborts s) else sc_pending_aborts s)"
    "sc_uid_of (fst (abort_request env rid s)) = sc_uid_of s" "sc_rid_of (fst (abort_request env rid s)) = sc_rid_of s"
    "sc_gen (fst (abort_request env rid s)) = sc_gen s" "sc_next_obj (fst (abort_request env rid s)) = sc_next_obj s"
    "sc_max_num_seqs (fst (abort_request env rid s)) = sc_max_num_seqs s"
    "sc_objs (fst (abort_request env rid s)) = sc_objs (upd_req i (\<lambda>r. set_finished r FINISHED_ABORTED None) s)"
proof -
  define s1 where "s1 = s\<lparr>sc_pld_pending := pd_del (sc_pld_pending s) rid, sc_pld_index := pd_del (sc_pld_index s) rid\<rparr>"
  define s2 where "s2 = s1\<lparr>sc_requests := pd_del (sc_requests s1) rid\<rparr>"
  let ?r = "the_req s1 i"
  define s3 where "s3 = (if status ?r = WAITING then s2\<lparr>sc_waiting := remove_equal (sc_objs s2) ?r (sc_waiting s2)\<rparr> else s2)"
  define s4 where "s4 = (if request_id ?r \<in> fst ` set (sc_uid_of s3) then
      s3\<lparr>sc_pending_aborts := List.insert (request_id ?r) (sc_pending_aborts s3),
         sc_salvage := (if sc_paged s3 \<and> \<not> bypass_prefix_cache ?r \<and> cached_tokens ?r < int (length (prompt_ids ?r))
                        then pd_set (sc_salvage s3) (request_id ?r) i else sc_salvage s3)\<rparr> else s3)"
  define added where "added = (case rq_added_stops (sc_objs s4 i) of None \<Rightarrow> {} | Some t \<Rightarrow> t)"
  define s5 where "s5 = (if added \<noteq> {} \<and> sc_gen s4 \<noteq> None
     then s4\<lparr>sc_gen_stops := sc_gen_stops s4 - (added - surviving_stops s4 (\<lambda>k. k = request_id ?r))\<rparr> else s4)"
  define s6 where "s6 = (if sc_paged s5 then s5\<lparr>sc_cache := se_forget env (sc_cache s5) rid\<rparr> else s5)"
  define s7 where "s7 = s6\<lparr>sc_detok := pd_del (sc_detok s6) rid, sc_running := pd_del (sc_running s6) rid\<rparr>"
  have get: "pd_get (sc_requests s1) rid = Some i" using assms by (simp add: s1_def)
  have e: "fst (abort_request env rid s) = (let s8 = upd_req i (\<lambda>r. set_finished r FINISHED_ABORTED None) s7
      in s8\<lparr>sc_finished_ids := insert rid (sc_finished_ids s8)\<rparr>)"
    unfolding abort_request_def Let_def s1_def [symmetric] get option.case fst_conv
      s2_def [symmetric] s3_def [symmetric] s4_def [symmetric] added_def [symmetric] s5_def [symmetric] s6_def [symmetric] s7_def [symmetric] ..
  have f3: "sc_requests s3 = pd_del (sc_requests s) rid" "sc_running s3 = sc_running s" "sc_uid_of s3 = sc_uid_of s" "sc_rid_of s3 = sc_rid_of s"
    "sc_gen s3 = sc_gen s" "sc_next_obj s3 = sc_next_obj s" "sc_max_num_seqs s3 = sc_max_num_seqs s" "sc_objs s3 = sc_objs s"
    "sc_pending_aborts s3 = sc_pending_aborts s"
    "sc_waiting s3 = (if status (the_req s i) = WAITING then remove_equal (sc_objs s) (the_req s i) (sc_waiting s) else sc_waiting s)"
    by (simp_all add: s3_def s2_def s1_def)
  have f4: "sc_requests s4 = sc_requests s3" "sc_running s4 = sc_running s3" "sc_uid_of s4 = sc_uid_of s3" "sc_rid_of s4 = sc_rid_of s3"
    "sc_gen s4 = sc_gen s3" "sc_next_obj s4 = sc_next_obj s3" "sc_max_num_seqs s4 = sc_max_num_seqs s3" "sc_objs s4 = sc_objs s3"
    "sc_pending_aborts s4 = (if request_id (the_req s i) \<in> fst ` set (sc_uid_of s) then List.insert (request_id (the_req s i)) (sc_pending_aborts s)
       else sc_pending_aborts s)" "sc_waiting s4 = sc_waiting s3"
    unfolding f3(3,9) [symmetric] by (simp_all add: s4_def s1_def)
  have f6: "sc_requests s6 = sc_requests s4" "sc_running s6 = sc_running s4" "sc_uid_of s6 = sc_uid_of s4" "sc_rid_of s6 = sc_rid_of s4"
    "sc_gen s6 = sc_gen s4" "sc_next_obj s6 = sc_next_obj s4" "sc_max_num_seqs s6 = sc_max_num_seqs s4" "sc_objs s6 = sc_objs s4"
    "sc_pending_aborts s6 = sc_pending_aborts s4" "sc_waiting s6 = sc_waiting s4"
    by (simp_all add: s6_def s5_def)
  show "sc_requests (fst (abort_request env rid s)) = pd_del (sc_requests s) rid"
    "sc_running (fst (abort_request env rid s)) = pd_del (sc_running s) rid"
    "sc_waiting (fst (abort_request env rid s)) = (if status (the_req s i) = WAITING then remove_equal (sc_objs s) (the_req s i) (sc_waiting s) else sc_waiting s)"
    "sc_pending_aborts (fst (abort_request env rid s)) = (if request_id (the_req s i) \<in> fst ` set (sc_uid_of s)
       then List.insert (request_id (the_req s i)) (sc_pending_aborts s) else sc_pending_aborts s)"
    "sc_uid_of (fst (abort_request env rid s)) = sc_uid_of s" "sc_rid_of (fst (abort_request env rid s)) = sc_rid_of s"
    "sc_gen (fst (abort_request env rid s)) = sc_gen s" "sc_next_obj (fst (abort_request env rid s)) = sc_next_obj s"
    "sc_max_num_seqs (fst (abort_request env rid s)) = sc_max_num_seqs s"
    "sc_objs (fst (abort_request env rid s)) = sc_objs (upd_req i (\<lambda>r. set_finished r FINISHED_ABORTED None) s)"
    unfolding e Let_def by (simp_all add: s7_def f6 f4 f3 upd_req_def)
qed

lemma inv_abort:
  assumes "sched_inv nu s"
  shows "sched_inv nu (fst (abort_request env rid s))"
proof (cases "pd_get (sc_requests s) rid")
  case None
  then show ?thesis using assms by (simp add: abort_request_def Let_def sched_inv_def)
next
  case (Some i)
  let ?a = "fst (abort_request env rid s)"
  note F = abort_fields [OF Some, of env]
  have b: "books s" "tables nu s" using assms by (simp_all add: sched_inv_def)
  note D = books_ofD [OF b(1)]
  have id: "request_id (the_req s i) = rid" using D(4) [OF Some] .
  have w: "sc_waiting ?a = filter (\<lambda>j. j \<noteq> i) (sc_waiting s)"
  proof (cases "status (the_req s i) = WAITING")
    case True
    have "remove_equal (sc_objs s) (the_req s i) (sc_waiting s) = filter (\<lambda>j. j \<noteq> i) (sc_waiting s)"
      proof (rule remove_equal_filter [OF D(3)])
      fix j assume "j \<in> set (sc_waiting s)" "request_id (the_req s j) = request_id (the_req s i)"
      then show "j = i" using D(9) [of j] Some id by simp
    qed simp
    then show ?thesis using True F(3) by simp
  next
    case False
    then have "i \<notin> set (sc_waiting s)" using D(10) [of i] by auto
    then have "filter (\<lambda>j. j \<noteq> i) (sc_waiting s) = sc_waiting s" by (auto intro: filter_True)
    then show ?thesis using False F(3) by simp
  qed
  have "books ?a"
    unfolding w using books_leave [OF b(1) Some, of "\<lambda>r. set_finished r FINISHED_ABORTED None"]
    by (subst (asm) books_cong [of _ ?a]) (simp_all add: F(1,2,8-10), simp_all add: upd_req_def)
  moreover have "tables nu ?a"
    using uids_defer [OF b(2) [unfolded tables_def], of rid] id by (cases "rid \<in> fst ` set (sc_uid_of s)") (simp_all add: tables_def F(2,4-7))
  ultimately show ?thesis by (simp add: sched_inv_def)
qed

lemma abort_requests: "fst ` set (sc_requests (fst (abort_request env rid s))) = fst ` set (sc_requests s) - {rid}"
proof (cases "pd_get (sc_requests s) rid")
  case None
  then have "fst ` set (sc_requests (fst (abort_request env rid s))) = fst ` set (sc_requests s)"
    by (simp add: abort_request_def Let_def)
  moreover have "rid \<notin> fst ` set (sc_requests s)" using None by (simp add: pd_get_None_iff)
  ultimately show ?thesis by simp
qed (simp add: abort_fields(1))

end
