(* ===== verification/Sched_Reach.thy ===== *)
theory Sched_Reach
  imports Sched_Inv
begin

text \<open>
  The scheduler over its single-request generator: what holds in every state the operations can reach, and what a step
  reports.
\<close>

section \<open>The single-request generator keeps the contract\<close>

text \<open>
  \<open>SingleBatchGenerator\<close> in the scheduler's environment.  A cache object stands for the tokens \<open>stored\<close> gives it, the
  generator's own stop set is the shared one, \<open>describe\<close> gives class names and text of its exceptions.  It has no
  \<open>active_batch\<close>, so nothing is ever taken out of it for speculation.
\<close>

definition single_env ::
  "'m gen_env \<Rightarrow> 'm \<Rightarrow> nat \<Rightarrow> (nat \<Rightarrow> int list) \<Rightarrow> (py_exn \<Rightarrow> gen_error) \<Rightarrow> ('m single_gen, 'c) sched_env \<Rightarrow> ('m single_gen, 'c) sched_env" where
  "single_env e m chunk stored describe base = base\<lparr>
     se_create := (\<lambda>sp stops. Some (new_generator (sp_max_tokens sp) stops m chunk)),
     se_shares_stops := (\<lambda>_. True), se_releases := (\<lambda>_. False), se_active_batch := (\<lambda>_. False),
     se_insert := (\<lambda>g r ts n c.
       case sg_insert [\<lparr>gi_prompt = ts, gi_max = n, gi_cache = map_option stored c,
              gi_context = (if c = None then [] else take (nat (cached_tokens r)) (prompt_ids r)), gi_media = False\<rparr>] g of
         (g1, Inl x) \<Rightarrow> (g1, Inl (describe x)) | (g1, Inr us) \<Rightarrow> (g1, Inr us)),
     se_next := (\<lambda>g stops.
       case sg_next e (g\<lparr>sg_stops := stops\<rparr>) of (g1, Inl x) \<Rightarrow> (g1, Inl (describe x)) | (g1, Inr res) \<Rightarrow> (g1, Inr res)),
     se_remove := (\<lambda>g u. sg_remove [u] g), se_take := (\<lambda>g u. (g, None)), se_reinsert := (\<lambda>g t n kv. (g, None))\<rparr>"

lemma yield_count: "sg_uid_count (fst (yield_current e r g)) = sg_uid_count g"
  by (simp add: yield_current_def Let_def split: option.split prod.split)

lemma next_count: "sg_uid_count (fst (sg_next e g)) = sg_uid_count g"
proof -
  have s: "sg_uid_count (fst (start_request e r g)) = sg_uid_count g" for r g
    by (simp add: start_request_def Let_def yield_count split: prod.split sum.split)
  have y: "sg_uid_count (fst (sg_next e g)) = sg_uid_count g" if "sg_request g = Some r" for r
    using yield_count [of e r g] that by (cases "yield_current e r g"; cases "snd (yield_current e r g)") (simp_all add: sg_next_def)
  have n: "sg_uid_count (fst (sg_next e g)) = sg_uid_count g" if "sg_request g = None" "sg_unprocessed g = r # rest" for r rest
    using s [of r "g\<lparr>sg_unprocessed := rest, sg_request := Some r\<rparr>"] that
    by (cases "start_request e r (g\<lparr>sg_unprocessed := rest, sg_request := Some r\<rparr>)";
        cases "snd (start_request e r (g\<lparr>sg_unprocessed := rest, sg_request := Some r\<rparr>))") (simp_all add: sg_next_def)
  show ?thesis
    by (cases "sg_request g"; cases "sg_unprocessed g") (simp_all add: y n, simp add: sg_next_def)
qed

lemma insert_count:
  "sg_insert [x] g = (g1, Inr us) \<Longrightarrow> us = [sg_uid_count g] \<and> sg_uid_count g1 = sg_uid_count g + 1"
  "sg_insert [x] g = (g1, Inl err) \<Longrightarrow> sg_uid_count g1 = sg_uid_count g"
  by (auto simp: sg_insert_def enqueue_def split: if_splits)

interpretation sg: generator_contract "single_env e m chunk stored describe base" sg_uid_count
  for e m chunk stored describe base
proof unfold_locales
  let ?env = "single_env e m chunk stored describe base"
  show "\<exists>u. us = [u] \<and> sg_uid_count g \<le> u \<and> u < sg_uid_count g1" if "se_insert ?env g r ts n c = (g1, Inr us)" for g r ts n c g1 us
    using that insert_count(1) by (fastforce simp: single_env_def split: prod.splits sum.splits)
  show "sg_uid_count g \<le> sg_uid_count g1" if "se_insert ?env g r ts n c = (g1, Inl x)" for g r ts n c g1 x
    using that insert_count(2) by (fastforce simp: single_env_def split: prod.splits sum.splits)
  show "sg_uid_count g \<le> sg_uid_count (fst (se_next ?env g stops))" for g stops
    using next_count [of e "g\<lparr>sg_stops := stops\<rparr>"]
    by (cases "sg_next e (g\<lparr>sg_stops := stops\<rparr>)"; cases "snd (sg_next e (g\<lparr>sg_stops := stops\<rparr>))") (simp_all add: single_env_def case_prod_unfold)
qed (simp_all add: single_env_def sg_remove_def)

section \<open>Reachable states\<close>

inductive sched_reach :: "('g, 'c) sched_env \<Rightarrow> nat \<Rightarrow> ('g, 'c) scheduler \<Rightarrow> ('g, 'c) scheduler \<Rightarrow> bool"
  for env :: "('g, 'c) sched_env" and retries :: nat and s0 :: "('g, 'c) scheduler" where
  at_start: "sched_reach env retries s0 s0"
| after_add: "sched_reach env retries s0 s \<Longrightarrow> status (rq o1) = WAITING \<Longrightarrow> sched_reach env retries s0 (fst (add_request env o1 s))"
| after_abort: "sched_reach env retries s0 s \<Longrightarrow> sched_reach env retries s0 (fst (abort_request env rid s))"
| after_step: "sched_reach env retries s0 s \<Longrightarrow> sched_reach env retries s0 (fst (sched_step env retries later s))"
| after_cleanup: "sched_reach env retries s0 s \<Longrightarrow> list_all (\<lambda>rid. pd_get (sc_running s) rid = pd_get (sc_requests s) rid) ids \<Longrightarrow>
    sched_reach env retries s0 (cleanup_finished env ids s)"
| after_reset: "sched_reach env retries s0 s \<Longrightarrow> sched_reach env retries s0 (reset env s)"

fun sched_steps :: "('g, 'c) sched_env \<Rightarrow> nat \<Rightarrow> bool \<Rightarrow> nat \<Rightarrow> ('g, 'c) scheduler \<Rightarrow> ('g, 'c) scheduler \<times> request_output list" where
  "sched_steps env retries later 0 s = (s, [])"
| "sched_steps env retries later (Suc k) s =
     (let (s1, res) = sched_step env retries later s; (s2, outs) = sched_steps env retries later k s1
      in (s2, (case res of Inl e \<Rightarrow> [] | Inr out \<Rightarrow> so_outputs out) @ outs))"

lemma inv_start_state: "sched_inv nu (new_scheduler stops seqs paged c mch pld hyb temp)"
  by (simp add: sched_inv_def books_of_def tables_def uids_ok_def new_scheduler_def)

lemma inv_reset: "sched_inv nu (reset env s)"
  by (simp add: reset_def Let_def sched_inv_def books_of_def tables_def uids_ok_def)

context generator_contract
begin

lemma reach_inv:
  "sched_reach env retries s0 s \<Longrightarrow> sched_inv nu s0 \<Longrightarrow> sched_inv nu s"
proof (induction rule: sched_reach.induct)
  case (after_step s later)
  show ?case using inv_step [OF after_step.IH [OF after_step.prems], of retries later] by (metis prod.collapse)
qed (simp_all add: inv_add inv_abort inv_cleanup inv_reset)

text \<open>Any number of steps, and everything they hand out.\<close>

lemma inv_steps:
  "sched_inv nu s \<Longrightarrow> rid \<notin> fst ` set (sc_requests s) \<Longrightarrow>
   list_all (\<lambda>out. ro_request_id out \<noteq> rid) (snd (sched_steps env retries later k s)) \<and>
   rid \<notin> fst ` set (sc_requests (fst (sched_steps env retries later k s)))"
proof (induction k arbitrary: s)
  case (Suc k)
  obtain s1 res where st: "sched_step env retries later s = (s1, res)" by fastforce
  note I = inv_step [OF Suc.prems(1) st]
  have r1: "rid \<notin> fst ` set (sc_requests s1)" using I Suc.prems(2) by blast
  obtain s2 outs where rest: "sched_steps env retries later k s1 = (s2, outs)" by fastforce
  have "list_all (\<lambda>out. ro_request_id out \<noteq> rid) outs \<and> rid \<notin> fst ` set (sc_requests s2)"
    using Suc.IH [of s1] I r1 rest by simp
  moreover have "list_all (\<lambda>out. ro_request_id out \<noteq> rid) (case res of Inl e \<Rightarrow> [] | Inr out \<Rightarrow> so_outputs out)"
    using I Suc.prems(2) by (cases res) (auto simp: list_all_iff)
  ultimately show ?case using st rest by simp
qed simp

end

section \<open>Properties\<close>

text \<open>
  C2. The scheduler's books balance in every state its operations can reach, whatever is added, aborted, failed and
  recovered in between: every known request is waiting or running and never both, at most \<open>max_num_seqs\<close> run, each
  running request has an identifier of the generator, and every identifier leads back to the request that holds it.
\<close>

theorem scheduler_books_balance:
  assumes "sched_reach (single_env e m chunk stored describe base) retries (new_scheduler stops seqs paged c mch pld hyb temp) s"
  shows "distinct (map (\<lambda>i. request_id (the_req s i)) (sc_waiting s) @ pd_keys (sc_running s)) \<and>
    set (pd_keys (sc_requests s)) = set (map (\<lambda>i. request_id (the_req s i)) (sc_waiting s) @ pd_keys (sc_running s)) \<and>
    int (length (sc_running s)) \<le> max 0 (sc_max_num_seqs s) \<and>
    list_all (\<lambda>rid. pd_get (sc_uid_of s) rid \<noteq> None) (pd_keys (sc_running s)) \<and>
    list_all (\<lambda>u. pd_get (sc_uid_of s) (the (pd_get (sc_rid_of s) u)) = Some u) (pd_keys (sc_rid_of s))"
proof -
  have i: "sched_inv sg_uid_count s" by (rule sg.reach_inv [OF assms inv_start_state])
  then have b: "books s" and t: "uids_ok sg_uid_count (run_ids s) (set (sc_pending_aborts s)) (sc_gen s) (sc_uid_of s) (sc_rid_of s)"
    by (simp_all add: sched_inv_def tables_def)
  note D = books_ofD [OF b]
  have inj: "inj_on (\<lambda>i. request_id (the_req s i)) (set (sc_waiting s))"
    by (rule inj_onI) (metis D(9) option.inject)
  have sep: "request_id (the_req s i) \<notin> run_ids s" if "i \<in> set (sc_waiting s)" for i
    by (rule books_waiting_not_running [OF b that])
  have keys: "fst ` set (sc_requests s) = (\<lambda>i. request_id (the_req s i)) ` set (sc_waiting s) \<union> run_ids s"
  proof (intro equalityI subsetI)
    fix r assume "r \<in> fst ` set (sc_requests s)"
    then obtain i where a: "pd_get (sc_requests s) r = Some i"
      using pd_get_None_iff [of "sc_requests s" r] by (cases "pd_get (sc_requests s) r") simp_all
    show "r \<in> (\<lambda>i. request_id (the_req s i)) ` set (sc_waiting s) \<union> run_ids s"
      using D(4) [OF a] D(6) [OF a] by (auto dest: pd_get_Some_in_keys)
  next
    fix r assume "r \<in> (\<lambda>i. request_id (the_req s i)) ` set (sc_waiting s) \<union> run_ids s"
    then consider i where "i \<in> set (sc_waiting s)" "r = request_id (the_req s i)" | "r \<in> run_ids s" by auto
    then show "r \<in> fst ` set (sc_requests s)"
    proof cases
      case 1
      then show ?thesis using pd_get_Some_in_keys [OF D(9) [OF 1(1)]] by simp
    next
      case 2
      then show ?thesis using books_run_known [OF b] by simp
    qed
  qed
  have d: "distinct (map (\<lambda>i. request_id (the_req s i)) (sc_waiting s) @ pd_keys (sc_running s))"
  proof -
    have "(\<lambda>i. request_id (the_req s i)) ` set (sc_waiting s) \<inter> run_ids s = {}"
    proof (rule equals0I)
      fix x assume x: "x \<in> (\<lambda>i. request_id (the_req s i)) ` set (sc_waiting s) \<inter> run_ids s"
      from IntD1 [OF x] have "x \<notin> run_ids s" by (rule imageE) (simp add: sep)
      then show False using IntD2 [OF x] by (rule notE)
    qed
    moreover have "distinct (map (\<lambda>i. request_id (the_req s i)) (sc_waiting s))" unfolding distinct_map using D(3) inj by (rule conjI)
    moreover note D(2) [unfolded pd_ok_def]
    ultimately show ?thesis unfolding distinct_append set_map by (intro conjI)
  qed
  have u: "pd_get (sc_uid_of s) (the (pd_get (sc_rid_of s) v)) = Some v" if v: "v \<in> fst ` set (sc_rid_of s)" for v
  proof -
    obtain r where r: "pd_get (sc_rid_of s) v = Some r"
      using v pd_get_None_iff [of "sc_rid_of s" v] by (cases "pd_get (sc_rid_of s) v") simp_all
    then show ?thesis using uids_okD(2) [OF t r] by simp
  qed
  show ?thesis using d keys D(11) u uids_okD(6) [OF t] by (simp add: list_all_iff)
qed

text \<open>A small scheduler to run: one request at a time, a model whose next token is the length of the text.\<close>

definition small_base :: "(unit single_gen, unit) sched_env" where
  "small_base =
     \<lparr>se_encode = (\<lambda>_ _. []), se_detok = map (\<lambda>t. char_of (nat t)), se_detok_final = map (\<lambda>t. char_of (nat t)),
      se_logprob = (\<lambda>_. None), se_parse = (\<lambda>_. None), se_environ = (\<lambda>_. None), se_dsv4_max = 0, se_create = (\<lambda>_ _. None),
      se_shares_stops = (\<lambda>_. True), se_releases = (\<lambda>_. False), se_insert = (\<lambda>g r ts n c. (g, Inr [])),
      se_next = (\<lambda>g stops. (g, Inr ([], []))), se_remove = (\<lambda>g u. g), se_tight = (\<lambda>_. False), se_active_batch = (\<lambda>_. False),
      se_forward = (\<lambda>g u. None), se_take = (\<lambda>g u. (g, None)), se_predict = (\<lambda>kv ds. None), se_plausible = (\<lambda>g u d. True),
      se_draw = (\<lambda>g u kv ds. None), se_hybrid = (\<lambda>_. False), se_trim = (\<lambda>kv n. kv), se_reinsert = (\<lambda>g t n kv. (g, None)),
      se_lookup = (\<lambda>c r. (c, None)), se_hydrate = (\<lambda>c r. (c, None)), se_release = (\<lambda>c rid. c), se_forget = (\<lambda>c rid. c),
      se_salvage = (\<lambda>g u r c. c), se_store = (\<lambda>c r. c), se_clear = (\<lambda>c. c), se_recreated = (\<lambda>c. (c, False))\<rparr>"

definition small_env :: "(unit single_gen, unit) sched_env" where
  "small_env = single_env demo_gen_env () 2 (\<lambda>_. []) (\<lambda>_. \<lparr>er_classes = [], er_text = []\<rparr>) small_base"

text \<open>The same with too little memory for a prefill, and an exception that is taken for a cache error.\<close>

definition failing_env :: "(unit single_gen, unit) sched_env" where
  "failing_env = single_env (demo_gen_env\<lparr>ge_max_ws := 1\<rparr>) () 2 (\<lambda>_. []) (\<lambda>_. \<lparr>er_classes = [''IndexError''], er_text = []\<rparr>) small_base"

definition small_start :: "(unit single_gen, unit) scheduler" where
  "small_start = new_scheduler {6} 1 False () None False False 0"

definition small_request :: "string \<Rightarrow> int list \<Rightarrow> sched_request" where
  "small_request rid ts = \<lparr>rq = new_request rid (PromptTokens ts) sp_default 0, rq_added_stops = None, rq_max_prompt = 0,
     rq_add_special = None, rq_machine = None\<rparr>"

definition small_run :: "(unit single_gen, unit) scheduler" where
  "small_run = fst (sched_step small_env 2 False (fst (add_request small_env (small_request ''b'' [1])
     (fst (add_request small_env (small_request ''a'' [9, 9, 9, 9]) small_start)))))"

lemma small_reach: "sched_reach small_env 2 small_start small_run"
  unfolding small_run_def
  by (intro after_step after_add at_start) (simp_all add: small_request_def new_request_def)

theorem scheduler_books_balance_witness:
  "distinct (map (\<lambda>i. request_id (the_req small_run i)) (sc_waiting small_run) @ pd_keys (sc_running small_run)) \<and>
   pd_keys (sc_running small_run) = [''a''] \<and> map (\<lambda>i. request_id (the_req small_run i)) (sc_waiting small_run) = [''b'']"
proof -
  have "pd_keys (sc_running small_run) = [''a'']" "map (\<lambda>i. request_id (the_req small_run i)) (sc_waiting small_run) = [''b'']"
    by code_simp+
  then show ?thesis
    using scheduler_books_balance [OF small_reach [unfolded small_env_def small_start_def]] by blast
qed

text \<open>
  C16. An aborted request is silent: however many steps follow, none of their outputs carries its id, unless it is added
  again.
\<close>

theorem aborted_request_is_silent:
  assumes "sched_reach (single_env e m chunk stored describe base) retries (new_scheduler stops seqs paged c mch pld hyb temp) s"
  shows "list_all (\<lambda>out. ro_request_id out \<noteq> rid)
    (snd (sched_steps (single_env e m chunk stored describe base) retries later k (fst (abort_request (single_env e m chunk stored describe base) rid s))))"
proof -
  let ?env = "single_env e m chunk stored describe base"
  have i: "sched_inv sg_uid_count (fst (abort_request ?env rid s))"
    by (rule inv_abort [OF sg.reach_inv [OF assms inv_start_state]])
  have "rid \<notin> fst ` set (sc_requests (fst (abort_request ?env rid s)))" by (simp add: abort_requests)
  then show ?thesis by (rule sg.inv_steps [OF i, THEN conjunct1])
qed

theorem aborted_request_is_silent_witness:
  "list_all (\<lambda>out. ro_request_id out \<noteq> ''a'') (snd (sched_steps small_env 2 False 4 (fst (abort_request small_env ''a'' small_run)))) \<and>
   map ro_request_id (snd (sched_steps small_env 2 False 4 (fst (abort_request small_env ''a'' small_run)))) = [''b'', ''b'', ''b'', ''b'']"
proof -
  have "map ro_request_id (snd (sched_steps small_env 2 False 4 (fst (abort_request small_env ''a'' small_run)))) = [''b'', ''b'', ''b'', ''b'']"
    by code_simp
  then show ?thesis
    using aborted_request_is_silent [OF small_reach [unfolded small_env_def small_start_def], of "''a''" False 4]
    unfolding small_env_def by simp
qed

text \<open>
  C11. Scheduling is first in, first out and loses nothing: what was waiting is what the step started followed by what
  still waits, and the started requests run behind those that ran already.
\<close>

theorem scheduling_is_fifo:
  assumes "sched_reach (single_env e m chunk stored describe base) retries (new_scheduler stops seqs paged c mch pld hyb temp) s"
  shows "let s0 = process_pending_aborts (single_env e m chunk stored describe base) s;
             (s1, started) = schedule_waiting (single_env e m chunk stored describe base) s0
         in started @ sc_waiting s1 = sc_waiting s \<and> map snd (sc_running s1) = map snd (sc_running s) @ started \<and> sc_requests s1 = sc_requests s"
proof -
  let ?env = "single_env e m chunk stored describe base"
  have i: "sched_inv sg_uid_count s" by (rule sg.reach_inv [OF assms inv_start_state])
  obtain s1 started where sch: "schedule_waiting ?env (process_pending_aborts ?env s) = (s1, started)" by fastforce
  have P: "sched_inv sg_uid_count (process_pending_aborts ?env s)" "sc_pending_aborts (process_pending_aborts ?env s) = []"
    "sc_running (process_pending_aborts ?env s) = sc_running s" "sc_requests (process_pending_aborts ?env s) = sc_requests s"
    "sc_waiting (process_pending_aborts ?env s) = sc_waiting s"
    by (rule sg.inv_pending [OF i])+
  show ?thesis using sg.inv_schedule(1) [OF P(1,2) sch] P(3-5) sch by (simp add: schedules_def Let_def)
qed

theorem scheduling_is_fifo_witness:
  "let s0 = process_pending_aborts small_env (fst (abort_request small_env ''a'' small_run)); (s1, started) = schedule_waiting small_env s0
   in started @ sc_waiting s1 = [1] \<and> map fst (sc_running s1) = [''b'']"
proof -
  have r: "sched_reach small_env 2 small_start (fst (abort_request small_env ''a'' small_run))" by (rule after_abort [OF small_reach])
  have w: "sc_waiting (fst (abort_request small_env ''a'' small_run)) = [1]" by code_simp
  have n: "map fst (sc_running (fst (schedule_waiting small_env (process_pending_aborts small_env (fst (abort_request small_env ''a'' small_run)))))) = [''b'']"
    by code_simp
  show ?thesis
    using scheduling_is_fifo [OF r [unfolded small_env_def small_start_def]] w n
    unfolding small_env_def [symmetric] by (simp add: Let_def case_prod_unfold)
qed

text \<open>
  C18. Recovery is bounded: however often the generator fails in a step, no request is restarted more often than
  \<open>max_retries\<close> says.
\<close>

theorem restarts_bounded_by_retries:
  assumes "sched_reach (single_env e m chunk stored describe base) retries (new_scheduler stops seqs paged c mch pld hyb temp) s"
  shows "recovery_restarts (the_req (fst (sched_step (single_env e m chunk stored describe base) n later s)) i) \<le> recovery_restarts (the_req s i) + int n"
  by (rule sg.step_restarts [OF sg.reach_inv [OF assms inv_start_state]])

theorem restarts_bounded_by_retries_witness:
  "let s = fst (add_request failing_env (small_request ''a'' [9, 9, 9, 9]) small_start); s1 = fst (sched_step failing_env 2 False s)
   in recovery_restarts (the_req s1 0) = 2 \<and> recovery_restarts (the_req s1 0) \<le> recovery_restarts (the_req s 0) + 2"
proof -
  let ?s = "fst (add_request failing_env (small_request ''a'' [9, 9, 9, 9]) small_start)"
  have r: "sched_reach failing_env 2 small_start ?s"
    by (intro after_add at_start) (simp add: small_request_def new_request_def)
  have n: "recovery_restarts (the_req (fst (sched_step failing_env 2 False ?s)) 0) = 2" by code_simp
  show ?thesis
    using restarts_bounded_by_retries [OF r [unfolded failing_env_def small_start_def], of 2 False 0] n
    unfolding failing_env_def [symmetric] small_start_def [symmetric] Let_def by simp
qed

section \<open>Where the code and its intent part\<close>

text \<open>
  An abort takes a stop token out of the generator's set even when the model itself stops there, while the clean-up
  of a finished request leaves such a token in: after the abort the next request runs through its end.
\<close>

lemma abort_drops_model_stops:
  "let s = fst (sched_step small_env 2 False (fst (add_request small_env
        ((small_request ''a'' [9, 9, 9])\<lparr>rq := (rq (small_request ''a'' [9, 9, 9]))\<lparr>sampling := sp_default\<lparr>sp_stop_token_ids := Some [6]\<rparr>\<rparr>\<rparr>) small_start)))
   in 6 \<in> sc_stop_tokens s \<and> 6 \<in> sc_gen_stops s \<and> 6 \<in> sc_gen_stops (cleanup_finished small_env [''a''] s) \<and>
      6 \<notin> sc_gen_stops (fst (abort_request small_env ''a'' s))"
  by code_simp

text \<open>
  Rescheduling clears the generation state of a request except the reasoning state machine: the new run starts in
  the state the old one ended in.
\<close>

lemma restart_keeps_machine:
  "rq_machine (sc_objs (reschedule_running_requests s) i) = rq_machine (sc_objs s i)"
proof -
  have "rq_machine (sc_objs (fold reschedule_one d a) i) = rq_machine (sc_objs a i)" for d a
    by (induction d arbitrary: a) (simp_all add: reschedule_one_def Let_def upd_req_def upd_obj_def split: prod.split)
  then show ?thesis by (simp add: reschedule_running_requests_def)
qed

end
