(* ===== verification/Sched_Finish.thy ===== *)
theory Sched_Finish
  imports Sched_Reach
begin

text \<open>
  When a request ends: in a step that leaves the clean-up for later, the requests with a finished status are exactly
  those the step reports as finished, and these are still running.  The generator's contract is extended by the finish
  reasons it may give.
\<close>

section \<open>What ends no request\<close>

abbreviation has_ended :: "('g, 'c) scheduler \<Rightarrow> nat \<Rightarrow> bool" where
  "has_ended s i \<equiv> status_is_finished (status (the_req s i))"

definition ends_none :: "('g, 'c) scheduler \<Rightarrow> ('g, 'c) scheduler \<Rightarrow> bool" where
  "ends_none s s1 \<longleftrightarrow> (\<forall>j. has_ended s1 j \<longrightarrow> has_ended s j)"

lemma ends_none_same: "sc_objs s1 = sc_objs s \<Longrightarrow> ends_none s s1"
  by (simp add: ends_none_def)

lemma ends_none_trans: "ends_none a b \<Longrightarrow> ends_none b c \<Longrightarrow> ends_none a c"
  by (simp add: ends_none_def)

lemma not_ended [simp]: "\<not> status_is_finished WAITING" "\<not> status_is_finished RUNNING"
    "status_is_finished FINISHED_STOPPED" "status_is_finished FINISHED_LENGTH_CAPPED" "status_is_finished FINISHED_ABORTED"
  by (simp_all add: status_is_finished_def)

lemma ends_hydrate: "ends_none s (hydrate env i c s)"
  by (simp add: ends_none_def hydrate_def release_hit_def Let_def split: prod.split option.split)

lemma ends_insert: "insert_request env i g s = (s1, res) \<Longrightarrow> ends_none s s1"
  by (auto simp: ends_none_def insert_request_def release_hit_def Let_def split: prod.splits sum.splits if_splits)

lemma ends_start: "ends_none s (start_running env i u s)"
  by (simp add: ends_none_def start_running_def Let_def)

lemma ends_admit:
  assumes "admit_next env i s = (s1, res)"
  shows "ends_none s s1"
proof -
  obtain s2 c where e: "ensure_batch_generator env (sampling (the_req s i)) s = (s2, c)" by fastforce
  have o: "ends_none s s2"
    using arg_cong [OF e, of "\<lambda>x. sc_objs (fst x)"]
    by (intro ends_none_same) (simp add: ensure_batch_generator_def Let_def split: if_splits prod.splits)
  show ?thesis
  proof (cases "sc_gen s2")
    case None
    then show ?thesis using assms e o by (simp add: admit_next_def)
  next
    case (Some g)
    obtain s3 r where ins: "insert_request env i g (hydrate env i c s2) = (s3, r)" by fastforce
    have "ends_none s s3" by (rule ends_none_trans [OF ends_none_trans [OF o ends_hydrate] ends_insert [OF ins]])
    then show ?thesis
      using assms e Some ins ends_none_trans [OF _ ends_start [of s3 env i]] by (auto simp: admit_next_def split: option.splits list.splits)
  qed
qed

lemma ends_schedule: "ends_none s (fst (schedule_waiting env s))"
proof -
  have "ends_none a (fst (schedule_from env w a))" for w a
  proof (induction w arbitrary: a)
    case (Cons i w)
    obtain s1 res where a: "admit_next env i a = (s1, res)" by fastforce
    have r: "ends_none a s1" by (rule ends_admit [OF a])
    show ?case using ends_none_trans [OF r Cons.IH [of s1]] r a
      by (cases res; cases "schedule_from env w s1") (simp_all add: ends_none_def)
  qed (simp add: ends_none_def)
  from this [of "s\<lparr>sc_waiting := []\<rparr>" "sc_waiting s"] show ?thesis by (simp add: schedule_waiting_def ends_none_def)
qed

lemma ends_reschedule: "ends_none s (reschedule_running_requests (recover_from_cache_error env s))"
proof -
  have "ends_none a (fold reschedule_one d a)" for d and a :: "('g, 'c) scheduler"
  proof (induction d arbitrary: a)
    case (Cons x d)
    have "ends_none a (reschedule_one x a)" by (cases x) (simp add: reschedule_one_def Let_def ends_none_def restart_request_def)
    with Cons.IH [of "reschedule_one x a"] show ?case using ends_none_trans by simp
  qed (simp add: ends_none_def)
  from this [of "recover_from_cache_error env s" "sc_running s"]
  show ?thesis by (simp add: reschedule_running_requests_def recover_from_cache_error_def ends_none_def)
qed

lemma pending_objs: "sc_objs (process_pending_aborts env s) = sc_objs s"
proof -
  have "sc_objs (fold (process_pending_abort env) xs a) = sc_objs a" for xs a
    by (induction xs arbitrary: a) (simp_all add: process_pending_abort_def Let_def split: option.split)
  then show ?thesis by (simp add: process_pending_aborts_def)
qed

lemma next_objs: "call_next env s = (s1, res) \<Longrightarrow> sc_objs s1 = sc_objs s"
  by (auto simp: call_next_def split: option.splits prod.splits)

section \<open>What a response ends\<close>

definition proper_reason :: "gen_response \<Rightarrow> bool" where
  "proper_reason r \<longleftrightarrow> gr_finish r \<in> {None, Some ''stop'', Some ''length''}"

lemma append_status [simp]: "status (append_output_token r t) = status r" "status (append_tokens ts r) = status r"
    "status (record_logprob env resp r) = status r"
proof -
  show a: "status (append_output_token r t) = status r" for r t by (simp add: append_output_token_def)
  show "status (append_tokens ts r) = status r" unfolding append_tokens_def by (induction ts arbitrary: r) (simp_all add: a)
qed (simp add: record_logprob_def split: option.split)

lemma speculative_status: "extend_speculatively env rid i resp s = (s1, drafts, halted) \<Longrightarrow> status (the_req s1 i) = status (the_req s i)"
proof (cases "sc_pld_spec s \<and> sc_pld_auto s \<and> \<not> sp_logprobs (sampling (the_req s i)) \<and> gr_finish resp = None \<and> sc_gen s \<noteq> None")
  case True
  assume e: "extend_speculatively env rid i resp s = (s1, drafts, halted)"
  obtain s0 raw where t: "try_speculative_decode env rid i (gr_token resp) s = (s0, raw)" by fastforce
  have "sc_objs s0 = sc_objs s" using spec_rest_fields [OF speculation_rest [of env rid i "gr_token resp" s, unfolded t fst_conv]] by simp
  then show ?thesis using e unfolding extend_speculatively_def if_P [OF True] t prod.case Let_def by auto
next
  case False
  assume "extend_speculatively env rid i resp s = (s1, drafts, halted)"
  then show ?thesis unfolding extend_speculatively_def if_not_P [OF False] by simp
qed

lemma emit_ends:
  assumes "emit env rid i resp s = (s1, out)" "proper_reason resp"
  shows "has_ended s1 i \<longleftrightarrow> has_ended s i \<or> ro_finished out"
proof -
  obtain s2 s3 spec halted s4 txt1 cutoff where p:
    "s2 = (let s1 = upd_req i (\<lambda>r. append_output_token r (gr_token resp)) s
           in if sc_pld_spec s1 then measure_drafts rid i (gr_token resp) s1 else s1)"
    "extend_speculatively env rid i resp s2 = (s3, spec, halted)" "decode_response env rid i resp spec halted s3 = (s4, txt1, cutoff)"
    "emit env rid i resp s =
       (let s5 = upd_req i (record_logprob env resp) s4; out = token_output rid (the_req s5 i) (gr_token resp # spec) txt1
        in case effective_finish resp halted cutoff of None \<Rightarrow> (s5, out) | Some f \<Rightarrow> finish_request env rid i f cutoff out s5)"
    using emit_parts [of i resp s rid env] by blast
  have m: "sc_objs (measure_drafts rid i t a) = sc_objs a" for t and a :: "('a, 'b) scheduler"
    by (simp add: measure_drafts_def Let_def split: prod.split)
  have "status (the_req s2 i) = status (the_req s i)" by (simp add: p(1) m Let_def)
  then have st: "status (the_req s4 i) = status (the_req s i)"
    using speculative_status [OF p(2)] decode_frame [OF p(3), of i] by simp
  show ?thesis
  proof (cases "effective_finish resp halted cutoff")
    case None
    then show ?thesis using assms(1) st unfolding p(4) by (auto simp: Let_def token_output_def)
  next
    case (Some f)
    then have f: "f = ''stop'' \<or> f = ''length''"
      using assms(2) by (auto simp: effective_finish_def proper_reason_def split: if_splits)
    show ?thesis using assms(1) f st unfolding p(4) Some
      by (auto simp: Let_def finish_request_def set_finish_status_def set_finished_def split: option.splits)
  qed
qed

text \<open>The finished outputs so far, against the running requests.\<close>

definition finish_agrees :: "('g, 'c) scheduler \<Rightarrow> request_output list \<Rightarrow> bool" where
  "finish_agrees s outs \<longleftrightarrow>
     (\<forall>rid i. pd_get (sc_running s) rid = Some i \<longrightarrow> has_ended s i = (rid \<in> ro_request_id ` set (filter ro_finished outs)))"

context generator_contract
begin

lemma process_agrees:
  assumes "sched_inv nu s" "finish_agrees s outs" "proper_reason resp" "process_response env resp (s, outs) = (s1, outs1)"
  shows "finish_agrees s1 outs1"
proof (cases "\<exists>rid j. pd_get (sc_rid_of s) (gr_uid resp) = Some rid \<and> pd_get (sc_running s) rid = Some j")
  case False
  then show ?thesis using assms(2,4) by (auto simp: process_response_def split: option.splits)
next
  case True
  then obtain rid j where r: "pd_get (sc_rid_of s) (gr_uid resp) = Some rid" "pd_get (sc_running s) rid = Some j" by blast
  obtain a out where e: "emit env rid j resp s = (a, out)" by fastforce
  have s1: "s1 = a" "outs1 = outs @ [out]" using assms(4) r e by (simp_all add: process_response_def)
  have id: "ro_request_id out = rid" using emit_output_id [of env rid j resp s] e by simp
  have k: "kept j s a" using kept_emit [of j s env rid resp] e by simp
  have run: "sc_running a = sc_running s" using queues_fields k unfolding kept_def by blast
  have b: "books s" using assms(1) by (simp add: sched_inv_def)
  show ?thesis unfolding finish_agrees_def s1 run
  proof (intro allI impI)
    fix q i assume q: "pd_get (sc_running s) q = Some i"
    have old: "has_ended s i = (q \<in> ro_request_id ` set (filter ro_finished outs))" using assms(2) q by (simp add: finish_agrees_def)
    show "has_ended a i = (q \<in> ro_request_id ` set (filter ro_finished (outs @ [out])))"
    proof (cases "q = rid")
      case True
      then have "i = j" using q r(2) by simp
      then show ?thesis using emit_ends [OF e assms(3)] old True id by simp
    next
      case False
      have "i \<noteq> j" using books_running_id [OF b q] books_running_id [OF b r(2)] False by auto
      then have "the_req a i = the_req s i" using k by (simp add: kept_def)
      then show ?thesis using old False id by simp
    qed
  qed
qed

lemma batch_agrees:
  "sched_inv nu s \<Longrightarrow> finish_agrees s outs \<Longrightarrow> list_all proper_reason resps \<Longrightarrow>
   fold (process_response env) resps (s, outs) = (s1, outs1) \<Longrightarrow> finish_agrees s1 outs1"
proof (induction resps arbitrary: s outs)
  case (Cons r rs)
  obtain a outs2 where p: "process_response env r (s, outs) = (a, outs2)" by fastforce
  have "sched_inv nu a" using inv_process [of "(s, outs)" r] Cons.prems(1) p by simp
  moreover have "finish_agrees a outs2" using process_agrees [OF Cons.prems(1,2) _ p] Cons.prems(3) by simp
  ultimately show ?case using Cons.IH Cons.prems(3,4) p by simp
qed simp

end

section \<open>What a step ends\<close>

locale finishing_generator = generator_contract +
  assumes reasons: "se_next env g stops = (g1, Inr (ps, gs)) \<Longrightarrow> list_all proper_reason (ps @ gs)"

text \<open>No request the scheduler knows has ended, and after a step: the ones that have are those reported.\<close>

definition all_live :: "('g, 'c) scheduler \<Rightarrow> bool" where
  "all_live s \<longleftrightarrow> (\<forall>rid i. pd_get (sc_requests s) rid = Some i \<longrightarrow> \<not> has_ended s i)"

definition ended_are :: "string set \<Rightarrow> ('g, 'c) scheduler \<Rightarrow> bool" where
  "ended_are fin s \<longleftrightarrow> (\<forall>rid i. pd_get (sc_requests s) rid = Some i \<longrightarrow> has_ended s i = (rid \<in> fin)) \<and>
     (\<forall>rid \<in> fin. pd_get (sc_running s) rid \<noteq> None)"

lemma all_live_mono: "all_live s \<Longrightarrow> ends_none s s1 \<Longrightarrow> sc_requests s1 = sc_requests s \<Longrightarrow> all_live s1"
  by (auto simp: all_live_def ends_none_def)

lemma ended_are_empty: "ended_are {} s = all_live s"
  by (auto simp: ended_are_def all_live_def)

context finishing_generator
begin

lemma attempts_end:
  "sched_inv nu s \<Longrightarrow> sc_pending_aborts s = [] \<Longrightarrow> all_live s \<Longrightarrow> run_attempts env True n s = (s1, Inr (outs, fin)) \<Longrightarrow>
   ended_are (set fin) s1 \<and> set fin = ro_request_id ` set (filter ro_finished outs) \<and> sc_requests s1 = sc_requests s"
proof (induction n arbitrary: s rule: less_induct)
  case (less n)
  obtain a r where c: "call_next env s = (a, r)" by fastforce
  note A = inv_next [OF c less.prems(1)]
  note q = queues_fields [OF A(2)]
  have live: "all_live a" by (rule all_live_mono [OF less.prems(3) ends_none_same [OF next_objs [OF c]]]) (simp add: q)
  show ?case
  proof (cases r)
    case (Inr pg)
    obtain ps gs where pg: "pg = (ps, gs)" by fastforce
    have why: "list_all proper_reason (ps @ gs)" using c Inr pg reasons by (auto simp: call_next_def split: option.splits prod.splits)
    obtain b outs0 where f: "fold (process_response env) (ps @ gs) (a, []) = (b, outs0)" by fastforce
    have p: "process_batch_responses env (ps @ gs) a = (b, outs0, remdups (map ro_request_id (filter ro_finished outs0)))"
      by (simp add: process_batch_responses_def f [simplified])
    have e: "s1 = b" "outs = outs0" "fin = remdups (map ro_request_id (filter ro_finished outs0))"
      using less.prems(4) c Inr pg p by (cases n; simp)+
    have "finish_agrees a []" using live books_run_known [of "sc_waiting a" a] A(1)
      by (auto simp: finish_agrees_def all_live_def sched_inv_def dest: pd_get_Some_in_keys) (metis pd_get_Some_in_keys)
    note G = batch_agrees [OF A(1) this why f]
    note B = inv_process_batch [OF p A(1)] process_batch_ids [OF p]
    note qb = queues_fields [OF B(2)]
    have b: "books b" using B(1) by (simp add: sched_inv_def)
    have fin: "set fin = ro_request_id ` set (filter ro_finished outs)" unfolding e by simp
    have "ended_are (set fin) b" unfolding ended_are_def
    proof (intro conjI allI impI ballI)
      fix rid i assume k: "pd_get (sc_requests b) rid = Some i"
      show "has_ended b i = (rid \<in> set fin)"
      proof (cases "i \<in> set (sc_waiting b)")
        case True
        have "status (the_req b i) = WAITING" by (rule books_ofD(10) [OF b True])
        moreover have "rid \<notin> run_ids b" using books_waiting_not_running [OF b True] books_ofD(4) [OF b k] by simp
        moreover have "set fin \<subseteq> run_ids b" using B(4) qb e(3) by simp
        ultimately show ?thesis by auto
      next
        case False
        then have "pd_get (sc_running b) rid = Some i" using books_ofD(6) [OF b k] by simp
        then show ?thesis using G fin e by (simp add: finish_agrees_def)
      qed
    next
      fix rid assume "rid \<in> set fin"
      then have "rid \<in> run_ids b" using B(4) qb e(3) by auto
      then show "pd_get (sc_running b) rid \<noteq> None" by (simp add: pd_get_None_iff)
    qed
    then show ?thesis using e(1) fin qb q by simp
  next
    case (Inl e)
    obtain m where m: "n = Suc m" "is_cache_error e" using less.prems(4) c Inl by (cases n) (auto split: if_splits)
    let ?w = "reschedule_running_requests (recover_from_cache_error env a)"
    obtain b st where sch: "schedule_waiting env ?w = (b, st)" by fastforce
    have w: "sched_inv nu ?w" "sc_pending_aborts ?w = []" "sc_requests ?w = sc_requests a"
      using inv_recovered [OF A(1)] q less.prems(2) by simp_all
    from inv_schedule(1) [OF w(1,2) sch] have b: "sched_inv nu b" "sc_pending_aborts b = []" "sc_requests b = sc_requests s"
      using w(3) q by (simp_all add: schedules_def sched_inv_def)
    have "ends_none a b" using ends_none_trans [OF ends_reschedule ends_schedule [of ?w env]] sch by (metis fst_conv)
    then have "all_live b" using live all_live_mono b(3) q by metis
    note live_b = this
    have "run_attempts env True m b = (s1, Inr (outs, fin))" using less.prems(4) c Inl m sch by simp
    from less.IH [OF _ b(1,2) live_b this] show ?thesis unfolding m(1) b(3) by (metis lessI)
  qed
qed

lemma step_ends:
  assumes "sched_inv nu s" "all_live s" "sched_step env n True s = (s1, Inr out)"
  shows "ended_are (set (so_finished out)) s1 \<and> set (so_finished out) = ro_request_id ` set (filter ro_finished (so_outputs out)) \<and>
    sc_requests s1 = sc_requests s"
proof -
  let ?p = "process_pending_aborts env s"
  note P = inv_pending [OF assms(1)]
  obtain a st where sch: "schedule_waiting env ?p = (a, st)" by fastforce
  note S = inv_schedule [OF P(1,2) sch]
  have a: "sched_inv nu a" "sc_pending_aborts a = []" "sc_requests a = sc_requests s"
    using S(1) P(3-5) by (simp_all add: schedules_def sched_inv_def)
  have "ends_none s a" using ends_none_trans [OF ends_none_same [OF pending_objs] ends_schedule [of ?p env]] sch by (metis fst_conv)
  then have live: "all_live a" using all_live_mono [OF assms(2)] a(3) by simp
  have same: "ended_are F (x\<lparr>sc_finished_ids := {}\<rparr>) = ended_are F x" for F and x :: "('g, 'c) scheduler" by (simp add: ended_are_def)
  show ?thesis
  proof (cases "sc_gen a \<noteq> None \<and> sc_running a \<noteq> []")
    case True
    obtain b r where r: "run_attempts env True n a = (b, r)" by fastforce
    then obtain outs fin where x: "r = Inr (outs, fin)" "s1 = b\<lparr>sc_finished_ids := {}\<rparr>" "so_finished out = fin" "so_outputs out = outs"
      using assms(3) True by (cases r) (auto simp: sched_step_def Let_def sch simp del: run_attempts.simps)
    have "ended_are (set fin) b \<and> set fin = ro_request_id ` set (filter ro_finished outs) \<and> sc_requests b = sc_requests s"
      using attempts_end [OF a(1,2) live r [unfolded x(1)]] unfolding a(3) .
    then show ?thesis unfolding x(2-4) same by (elim conjE, intro conjI) (assumption, assumption, simp)
  next
    case False
    then show ?thesis
      using assms(3) live a(3) by (auto simp: sched_step_def Let_def sch ended_are_empty all_live_def simp del: run_attempts.simps)
  qed
qed

end

section \<open>The single-request generator\<close>

lemma yield_reason: "yield_current e r g = (g1, Inr a) \<Longrightarrow> proper_reason a"
  by (auto simp: yield_current_def finish_reason_after_token_def proper_reason_def Let_def split: option.splits prod.splits if_splits)

lemma next_reasons: "sg_next e g = (g1, Inr (ps, gs)) \<Longrightarrow> list_all proper_reason (ps @ gs)"
  by (auto simp: sg_next_def start_request_def Let_def yield_reason split: option.splits list.splits prod.splits sum.splits if_splits)

interpretation fg: finishing_generator "single_env e m chunk stored describe base" sg_uid_count
  for e m chunk stored describe base
proof unfold_locales
  show "list_all proper_reason (ps @ gs)" if "se_next (single_env e m chunk stored describe base) g stops = (g1, Inr (ps, gs))" for g stops g1 ps gs
    using that by (auto simp: single_env_def split: prod.splits sum.splits dest!: next_reasons)
qed

end
