(* ===== verification/Engine_Core.thy ===== *)
theory Engine_Core
  imports Sched_Finish Output_Collector
begin

text \<open>
  \<open>EngineCore\<close> (\<open>vmlx_engine/engine_core.py\<close>): the coroutines around one scheduler.  Clients register a request with a
  collector, a stream state and a finished event; the engine loop steps the scheduler and distributes its outputs;
  clean-up takes a request out of all tables.  Coroutine switches happen only at \<open>await\<close>, so every operation here is the
  code between two awaits.  The step runs in the loop's own thread (no step executor).
\<close>

section \<open>State\<close>

text \<open>
  The collector and the event of a registration are created together and carry one object number.  \<open>en_fence\<close> is
  \<open>_terminal_cleanup_complete\<close>: a coroutine that waits for it is woken by the next \<open>set\<close> and does not look at the flag
  again, so it remembers how often the flag had been set when it began to wait.  \<open>en_cleaning\<close> holds the finished
  ids while the loop is between the distribution of a terminal output and the clean-up; the last three fields are the
  loop's local variables.
\<close>

record ('g, 'c) engine =
  en_sched :: "('g, 'c) scheduler"
  en_interval :: int
  en_cols :: "(string, nat) pydict"
  en_states :: "(string, stream_state) pydict"
  en_events :: "(string, nat) pydict"
  en_objs :: col_system
  en_set :: "nat set"
  en_next :: nat
  en_fence :: bool
  en_opened :: nat
  en_waiters :: "(sched_request \<times> nat) list"
  en_running :: bool
  en_closed :: bool
  en_shut :: bool
  en_steps :: int
  en_cleaning :: "string list option"
  en_orphans :: "(string, int) pydict"
  en_first_seen :: "(string, real) pydict"
  en_ghost_counter :: int

definition new_engine :: "int \<Rightarrow> ('g, 'c) scheduler \<Rightarrow> ('g, 'c) engine" where
  "new_engine interval s =
     \<lparr>en_sched = s, en_interval = interval, en_cols = [], en_states = [], en_events = [],
      en_objs = \<lparr>cols = (\<lambda>_. new_collector True), waiting_consumers = 0\<rparr>, en_set = {}, en_next = 0, en_fence = True, en_opened = 0,
      en_waiters = [], en_running = False, en_closed = False, en_shut = False, en_steps = 0, en_cleaning = None,
      en_orphans = [], en_first_seen = [], en_ghost_counter = 0\<rparr>"

text \<open>The two clocks, \<open>perf_counter\<close> and \<open>monotonic\<close>.\<close>

record clock =
  perf :: real
  monotonic :: real

definition set_fence :: "('g, 'c) engine \<Rightarrow> ('g, 'c) engine" where
  "set_fence e = (if en_fence e then e else e\<lparr>en_fence := True, en_opened := en_opened e + 1\<rparr>)"

definition put_output :: "clock \<Rightarrow> nat \<Rightarrow> request_output \<Rightarrow> ('g, 'c) engine \<Rightarrow> ('g, 'c) engine" where
  "put_output t n out e = e\<lparr>en_objs := upd_col (en_objs e) n (col_put (perf t) (cols (en_objs e) n) out)\<rparr>"

definition plain_output :: "clock \<Rightarrow> string \<Rightarrow> request_output" where
  "plain_output t rid =
     \<lparr>ro_request_id = rid, ro_new_token_ids = [], ro_new_text = [], ro_output_token_ids = [], ro_output_text = [], ro_logprobs = None,
      ro_finished = False, ro_finish_reason = None, ro_prompt_tokens = 0, ro_completion_tokens = 0, ro_cached_tokens = 0,
      ro_cache_detail = [], ro_error = None, ro_error_code = None, ro_error_prompt_tokens = None, ro_error_max_prompt_tokens = None,
      ro_error_source = None, ro_generated_at = perf t\<rparr>"

section \<open>Clean-up of one request\<close>

definition aborted_output :: "clock \<Rightarrow> string \<Rightarrow> string \<times> int list \<Rightarrow> request_output" where
  "aborted_output t rid held =
     (plain_output t rid)\<lparr>ro_new_text := fst held, ro_new_token_ids := snd held, ro_finished := True, ro_finish_reason := Some ''aborted''\<rparr>"

definition abort_in_scheduler :: "('g, 'c) sched_env \<Rightarrow> string \<Rightarrow> ('g, 'c) engine \<Rightarrow> ('g, 'c) engine" where
  "abort_in_scheduler env rid e = e\<lparr>en_sched := fst (abort_request env rid (en_sched e))\<rparr>"

definition cleanup_request :: "('g, 'c) sched_env \<Rightarrow> clock \<Rightarrow> string \<Rightarrow> ('g, 'c) engine \<Rightarrow> ('g, 'c) engine" where
  "cleanup_request env t rid e =
     (let e1 = (case pd_get (en_cols e) rid of
                  None \<Rightarrow> e
                | Some n \<Rightarrow>
                    (let held = (case pd_get (en_states e) rid of None \<Rightarrow> ([], []) | Some st \<Rightarrow> fst (drain_pending st))
                     in put_output t n (aborted_output t rid held) (e\<lparr>en_cols := pd_del (en_cols e) rid\<rparr>)));
          e2 = e1\<lparr>en_states := pd_del (en_states e1) rid\<rparr>;
          e3 = (case pd_get (en_events e2) rid of
                  None \<Rightarrow> e2
                | Some n \<Rightarrow> e2\<lparr>en_events := pd_del (en_events e2) rid, en_set := insert n (en_set e2)\<rparr>)
      in case get_request (en_sched e3) rid of
           None \<Rightarrow> abort_in_scheduler env rid e3
         | Some i \<Rightarrow> if req_is_finished (the_req (en_sched e3) i) then e3 else abort_in_scheduler env rid e3)"

definition abort_engine_request :: "('g, 'c) sched_env \<Rightarrow> clock \<Rightarrow> string \<Rightarrow> ('g, 'c) engine \<Rightarrow> ('g, 'c) engine \<times> bool" where
  "abort_engine_request env t rid e =
     (cleanup_request env t rid e, rid \<in> fst ` set (en_cols e) \<or> rid \<in> fst ` set (en_events e))"

section \<open>Adding a request\<close>

text \<open>
  The request object \<open>add_request\<close> makes, with the attributes this model has: expanded token ids, the caches' bypass, the
  encoder's flag and the cap on the prompt.
\<close>

definition client_request ::
  "string \<Rightarrow> prompt \<Rightarrow> sampling_params option \<Rightarrow> real \<Rightarrow> int list option \<Rightarrow> bool \<Rightarrow> bool option \<Rightarrow> int option \<Rightarrow> sched_request" where
  "client_request rid p sp arrival ids bypass special cap =
     (let r = new_request rid p (case sp of None \<Rightarrow> sp_post_init sp_default | Some sp \<Rightarrow> sp) arrival;
          r1 = (case ids of None \<Rightarrow> r | Some ts \<Rightarrow> r\<lparr>prompt_token_ids := Some ts, num_prompt_tokens := int (length ts)\<rparr>)
      in \<lparr>rq = (if bypass then r1\<lparr>bypass_prefix_cache := True\<rparr> else r1), rq_added_stops = None,
          rq_max_prompt = (case cap of None \<Rightarrow> 0 | Some n \<Rightarrow> if n > 0 then n else 0), rq_add_special = special, rq_machine = None\<rparr>)"

lemma client_request_new: "status (rq (client_request rid p sp arrival ids bypass special cap)) = WAITING"
  by (simp add: client_request_def Let_def new_request_def split: option.split)

text \<open>What follows the wait for the fence: the registration, and the scheduler's own admission.\<close>

definition register_request :: "string \<Rightarrow> ('g, 'c) engine \<Rightarrow> ('g, 'c) engine" where
  "register_request rid e =
     (let n = en_next e
      in e\<lparr>en_cols := pd_set (en_cols e) rid n,
           en_states := pd_set (en_states e) rid
             \<lparr>stream_interval = en_interval e, sent_tokens = 0, pending_new_text = [], pending_new_token_ids = []\<rparr>,
           en_events := pd_set (en_events e) rid n, en_objs := upd_col (en_objs e) n (new_collector True), en_next := n + 1\<rparr>)"

definition end_admission :: "string \<Rightarrow> ('g, 'c) engine \<Rightarrow> ('g, 'c) engine" where
  "end_admission rid e = e\<lparr>en_sched := end_foreground_admission rid (en_sched e)\<rparr>"

definition finish_add :: "('g, 'c) sched_env \<Rightarrow> clock \<Rightarrow> sched_request \<Rightarrow> ('g, 'c) engine \<Rightarrow> ('g, 'c) engine \<times> (admission_error + string)" where
  "finish_add env t o1 e =
     (let rid = request_id (rq o1); e1 = register_request rid e
      in case add_request env o1 (en_sched e1) of
           (s, Inr _) \<Rightarrow> (end_admission rid (e1\<lparr>en_sched := s\<rparr>), Inr rid)
         | (s, Inl x) \<Rightarrow> (end_admission rid (cleanup_request env t rid (e1\<lparr>en_sched := s\<rparr>)), Inl x))"

text \<open>Up to the wait: \<open>None\<close> when the coroutine is suspended there.\<close>

definition begin_add ::
  "('g, 'c) sched_env \<Rightarrow> clock \<Rightarrow> sched_request \<Rightarrow> ('g, 'c) engine \<Rightarrow> ('g, 'c) engine \<times> (admission_error + string) option" where
  "begin_add env t o1 e =
     (let e1 = e\<lparr>en_sched := begin_foreground_admission (request_id (rq o1)) (en_sched e)\<rparr>
      in if en_fence e1 then (case finish_add env t o1 e1 of (e2, res) \<Rightarrow> (e2, Some res))
         else (e1\<lparr>en_waiters := en_waiters e1 @ [(o1, en_opened e1)]\<rparr>, None))"

definition drop_waiter :: "nat \<Rightarrow> ('g, 'c) engine \<Rightarrow> ('g, 'c) engine" where
  "drop_waiter k e = e\<lparr>en_waiters := take k (en_waiters e) @ drop (k + 1) (en_waiters e)\<rparr>"

definition resume_add :: "('g, 'c) sched_env \<Rightarrow> clock \<Rightarrow> nat \<Rightarrow> ('g, 'c) engine \<Rightarrow> ('g, 'c) engine" where
  "resume_add env t k e =
     (if k < length (en_waiters e) \<and> snd (en_waiters e ! k) < en_opened e
      then fst (finish_add env t (fst (en_waiters e ! k)) (drop_waiter k e)) else e)"

text \<open>A waiting coroutine is cancelled.\<close>

definition cancel_add :: "nat \<Rightarrow> ('g, 'c) engine \<Rightarrow> ('g, 'c) engine" where
  "cancel_add k e =
     (if k < length (en_waiters e) then end_admission (request_id (rq (fst (en_waiters e ! k)))) (drop_waiter k e) else e)"

section \<open>The engine loop\<close>

definition forget_orphan :: "string \<Rightarrow> ('g, 'c) engine \<Rightarrow> ('g, 'c) engine" where
  "forget_orphan rid e = e\<lparr>en_orphans := pd_del (en_orphans e) rid, en_first_seen := pd_del (en_first_seen e) rid\<rparr>"

definition count_orphan :: "('g, 'c) sched_env \<Rightarrow> clock \<Rightarrow> string \<Rightarrow> ('g, 'c) engine \<Rightarrow> ('g, 'c) engine" where
  "count_orphan env t rid e =
     (let count = (case pd_get (en_orphans e) rid of None \<Rightarrow> 0 | Some k \<Rightarrow> k) + 1;
          seen = (if rid \<in> fst ` set (en_first_seen e) then en_first_seen e else pd_set (en_first_seen e) rid (monotonic t));
          elapsed = monotonic t - (case pd_get seen rid of None \<Rightarrow> 0 | Some x \<Rightarrow> x);
          e1 = e\<lparr>en_orphans := pd_set (en_orphans e) rid count, en_first_seen := seen\<rparr>
      in if count \<ge> 10 \<or> elapsed > 30 then forget_orphan rid (abort_in_scheduler env rid e1) else e1)"

definition deliver :: "clock \<Rightarrow> nat \<Rightarrow> request_output \<Rightarrow> ('g, 'c) engine \<Rightarrow> ('g, 'c) engine" where
  "deliver t n out e =
     (if en_interval e = 1 then put_output t n out e
      else case pd_get (en_states e) (ro_request_id out) of
             None \<Rightarrow> e
           | Some st \<Rightarrow>
               (case distribute False (perf t) (st, cols (en_objs e) n) out of
                  (st1, c) \<Rightarrow> e\<lparr>en_states := pd_set (en_states e) (ro_request_id out) st1, en_objs := upd_col (en_objs e) n c\<rparr>))"

definition distribute_output :: "('g, 'c) sched_env \<Rightarrow> clock \<Rightarrow> request_output \<Rightarrow> ('g, 'c) engine \<Rightarrow> ('g, 'c) engine" where
  "distribute_output env t out e =
     (let rid = ro_request_id out;
          e1 = (case pd_get (en_cols e) rid of
                  Some n \<Rightarrow> deliver t n out (forget_orphan rid e)
                | None \<Rightarrow> count_orphan env t rid e)
      in if ro_finished out then
           (let e2 = forget_orphan rid e1
            in case pd_get (en_events e2) rid of None \<Rightarrow> e2 | Some n \<Rightarrow> e2\<lparr>en_set := insert n (en_set e2)\<rparr>)
         else e1)"

definition ghost_check :: "('g, 'c) sched_env \<Rightarrow> ('g, 'c) engine \<Rightarrow> ('g, 'c) engine" where
  "ghost_check env e =
     (let e1 = e\<lparr>en_ghost_counter := en_ghost_counter e + 1\<rparr>
      in if en_ghost_counter e1 \<ge> 50 then
           (let e2 = e1\<lparr>en_ghost_counter := 0\<rparr>
            in fold (abort_in_scheduler env) (filter (\<lambda>rid. rid \<notin> fst ` set (en_cols e2)) (pd_keys (sc_running (en_sched e2)))) e2)
         else e1)"

definition error_output :: "clock \<Rightarrow> string \<Rightarrow> string \<Rightarrow> request_output" where
  "error_output t rid msg =
     (plain_output t rid)\<lparr>ro_finished := True, ro_finish_reason := Some ''error'', ro_error := Some (''Engine loop error: '' @ msg),
        ro_error_code := Some ''engine_loop_error'', ro_error_source := Some ''engine_loop''\<rparr>"

definition fail_one :: "clock \<Rightarrow> string \<Rightarrow> string \<times> nat \<Rightarrow> ('g, 'c) engine \<Rightarrow> ('g, 'c) engine" where
  "fail_one t msg x e =
     (let e1 = put_output t (snd x) (error_output t (fst x) msg) e
      in case pd_get (en_events e1) (fst x) of None \<Rightarrow> e1 | Some n \<Rightarrow> e1\<lparr>en_set := insert n (en_set e1)\<rparr>)"

definition fail_active_requests :: "('g, 'c) sched_env \<Rightarrow> clock \<Rightarrow> string \<Rightarrow> ('g, 'c) engine \<Rightarrow> ('g, 'c) engine" where
  "fail_active_requests env t msg e =
     (let e1 = fold (fail_one t msg) (en_cols e) e;
          ids = pd_keys (sc_running (en_sched e1)) @ map (\<lambda>i. request_id (the_req (en_sched e1) i)) (sc_waiting (en_sched e1))
      in fold (abort_in_scheduler env) ids e1)"

definition loop_failed :: "('g, 'c) sched_env \<Rightarrow> clock \<Rightarrow> string \<Rightarrow> ('g, 'c) engine \<Rightarrow> ('g, 'c) engine" where
  "loop_failed env t msg e = (fail_active_requests env t msg (set_fence e))\<lparr>en_orphans := [], en_first_seen := []\<rparr>"

text \<open>
  One round of the loop up to its first await.  An idle task is a function on the caches (the only one registered
  derives a recurrent state again).
\<close>

definition idle_call :: "(nat \<Rightarrow> 'c \<Rightarrow> 'c \<times> idle_result) \<Rightarrow> nat \<Rightarrow> ('g, 'c) scheduler \<Rightarrow> ('g, 'c) scheduler \<times> idle_result" where
  "idle_call task f s = (let (c, res) = task f (sc_cache s) in (s\<lparr>sc_cache := c\<rparr>, res))"

definition loop_round ::
  "('g, 'c) sched_env \<Rightarrow> nat \<Rightarrow> (nat \<Rightarrow> 'c \<Rightarrow> 'c \<times> idle_result) \<Rightarrow> clock \<Rightarrow> ('g, 'c) engine \<Rightarrow> ('g, 'c) engine" where
  "loop_round env retries task t e =
     (if has_requests (en_sched e) then
        (case sched_step env retries True (en_sched e) of
           (s, Inl x) \<Rightarrow> loop_failed env t (er_text x) (e\<lparr>en_sched := s\<rparr>)
         | (s, Inr out) \<Rightarrow>
             (let e1 = e\<lparr>en_sched := s, en_steps := en_steps e + 1\<rparr>;
                  e2 = (if so_finished out \<noteq> [] then e1\<lparr>en_fence := False\<rparr> else e1);
                  e3 = fold (distribute_output env t) (so_outputs out) (ghost_check env e2)
              in if so_finished out \<noteq> [] then e3\<lparr>en_cleaning := Some (so_finished out)\<rparr> else e3))
      else if has_idle_tasks (en_sched e) then e\<lparr>en_sched := fst (run_one_idle_task (idle_call task) (en_sched e))\<rparr>
      else e)"

text \<open>The loop goes on behind the await: the deferred clean-up.\<close>

definition loop_cleanup :: "('g, 'c) sched_env \<Rightarrow> ('g, 'c) engine \<Rightarrow> ('g, 'c) engine" where
  "loop_cleanup env e =
     (case en_cleaning e of
        None \<Rightarrow> e
      | Some ids \<Rightarrow> set_fence (e\<lparr>en_sched := cleanup_finished env ids (en_sched e), en_cleaning := None\<rparr>))"

definition engine_turn ::
  "('g, 'c) sched_env \<Rightarrow> nat \<Rightarrow> (nat \<Rightarrow> 'c \<Rightarrow> 'c \<times> idle_result) \<Rightarrow> clock \<Rightarrow> ('g, 'c) engine \<Rightarrow> ('g, 'c) engine" where
  "engine_turn env retries task t e =
     (if \<not> en_running e then e else if en_cleaning e = None then loop_round env retries task t e else loop_cleanup env e)"

section \<open>Start, stop, close\<close>

definition start_engine :: "('g, 'c) engine \<Rightarrow> ('g, 'c) engine" where
  "start_engine e =
     (if en_running e then e
      else e\<lparr>en_running := True, en_cleaning := None, en_orphans := [], en_first_seen := [], en_ghost_counter := 0\<rparr>)"

definition shutdown :: "('g, 'c) engine \<Rightarrow> ('g, 'c) engine" where
  "shutdown e = (if en_shut e then e else e\<lparr>en_shut := True, en_sched := (en_sched e)\<lparr>sc_idle := []\<rparr>\<rparr>)"

text \<open>
  \<open>stop\<close>, behind its wait: the loop's task is cancelled at the await where it stands.  Inside the \<open>try\<close>, where
  \<open>caught\<close> says it is and where a loop in its clean-up always is, the handler fails the active requests; before its first run,
  or in the \<open>sleep(0.1)\<close> of the handler of an earlier exception, the task just ends.
\<close>

definition stop_engine :: "('g, 'c) sched_env \<Rightarrow> clock \<Rightarrow> bool \<Rightarrow> ('g, 'c) engine \<Rightarrow> ('g, 'c) engine" where
  "stop_engine env t caught e =
     (let e1 = (if \<not> en_running e then e
                else if \<not> caught \<and> en_cleaning e = None then e\<lparr>en_running := False\<rparr>
                else (fail_active_requests env t ''Engine cancelled'' (set_fence (e\<lparr>en_cleaning := None\<rparr>)))\<lparr>en_running := False\<rparr>)
      in shutdown e1)"

definition close_engine :: "('g, 'c) sched_env \<Rightarrow> ('g, 'c) engine \<Rightarrow> ('g, 'c) engine" where
  "close_engine env e =
     (if en_closed e then e
      else (let e1 = shutdown (e\<lparr>en_closed := True\<rparr>); e2 = e1\<lparr>en_sched := reset env (en_sched e1)\<rparr>
            in e2\<lparr>en_objs := fold (\<lambda>n c. col_clear c n) (map snd (en_cols e2)) (en_objs e2),
                  en_cols := [], en_states := [], en_events := []\<rparr>))"

section \<open>Consumers\<close>

text \<open>
  A public stream (\<open>stream_outputs\<close>, without a time-out): it polls, blocks in \<open>get\<close>, or holds a finished output back at
  the fence; after a finished output, or an exception, it cleans its request up.
\<close>

datatype phase = Polling | Blocked | Fenced request_output nat | Ended

record public_stream =
  st_rid :: string
  st_col :: nat
  st_phase :: phase

definition open_stream :: "string \<Rightarrow> ('g, 'c) engine \<Rightarrow> public_stream option" where
  "open_stream rid e = map_option (\<lambda>n. \<lparr>st_rid = rid, st_col = n, st_phase = Polling\<rparr>) (pd_get (en_cols e) rid)"

definition end_stream :: "('g, 'c) sched_env \<Rightarrow> clock \<Rightarrow> public_stream \<Rightarrow> ('g, 'c) engine \<Rightarrow> public_stream \<times> ('g, 'c) engine" where
  "end_stream env t c e = (c\<lparr>st_phase := Ended\<rparr>, cleanup_request env t (st_rid c) e)"

definition yield_output ::
  "('g, 'c) sched_env \<Rightarrow> clock \<Rightarrow> request_output \<Rightarrow> public_stream \<Rightarrow> ('g, 'c) engine \<Rightarrow> public_stream \<times> ('g, 'c) engine \<times> request_output option" where
  "yield_output env t out c e =
     (if \<not> ro_finished out then (c\<lparr>st_phase := Polling\<rparr>, e, Some out)
      else if en_fence e then (case end_stream env t c e of (c1, e1) \<Rightarrow> (c1, e1, Some out))
      else (c\<lparr>st_phase := Fenced out (en_opened e)\<rparr>, e, None))"

definition stream_turn ::
  "('g, 'c) sched_env \<Rightarrow> clock \<Rightarrow> public_stream \<Rightarrow> ('g, 'c) engine \<Rightarrow> public_stream \<times> ('g, 'c) engine \<times> request_output option" where
  "stream_turn env t c e =
     (case st_phase c of
        Polling \<Rightarrow>
          (case col_get_nowait (cols (en_objs e) (st_col c)) of
             (None, _) \<Rightarrow> (c\<lparr>st_phase := Blocked\<rparr>, e\<lparr>en_objs := get_enter (en_objs e) (st_col c)\<rparr>, None)
           | (Some out, k) \<Rightarrow> yield_output env t out c (e\<lparr>en_objs := upd_col (en_objs e) (st_col c) k\<rparr>))
      | Blocked \<Rightarrow>
          (case get_test (en_objs e) (st_col c) of
             (Suspend, _) \<Rightarrow> (c, e, None)
           | (Raise _, os) \<Rightarrow> (case end_stream env t c (e\<lparr>en_objs := os\<rparr>) of (c1, e1) \<Rightarrow> (c1, e1, None))
           | (Return out, os) \<Rightarrow> yield_output env t out c (e\<lparr>en_objs := os\<rparr>))
      | Fenced out k \<Rightarrow>
          (if k < en_opened e then (case end_stream env t c e of (c1, e1) \<Rightarrow> (c1, e1, Some out)) else (c, e, None))
      | Ended \<Rightarrow> (c, e, None))"

text \<open>
  \<open>generate\<close> behind its wait for the finished event, up to the fence: the collector is looked up again and drained (it
  holds at most one output).
\<close>

definition generate_result :: "string \<Rightarrow> ('g, 'c) engine \<Rightarrow> ('g, 'c) engine \<times> request_output may_raise" where
  "generate_result rid e =
     (case pd_get (en_cols e) rid of
        None \<Rightarrow> (e, Inl RuntimeError)
      | Some n \<Rightarrow>
          (case col_get_nowait (cols (en_objs e) n) of
             (None, _) \<Rightarrow> (e, Inl RuntimeError)
           | (Some out, c) \<Rightarrow> (e\<lparr>en_objs := upd_col (en_objs e) n c\<rparr>, Inr out)))"

end
