(* ===== verification/Engine_Inv.thy ===== *)
theory Engine_Inv
  imports Engine_Core
begin

text \<open>
  What the engine keeps: its three tables agree, they hold every request the scheduler knows, and an event that is set
  has an output in its collector.
\<close>

section \<open>Ended requests under the scheduler's operations\<close>

lemma add_effect:
  assumes "add_request env o1 s = (s1, res)" "status (rq o1) = WAITING"
  shows "sc_running s1 = sc_running s"
    "res = Inl x \<Longrightarrow> sc_requests s1 = sc_requests s \<and> sc_objs s1 = sc_objs s"
    "res = Inr u \<Longrightarrow> request_id (rq o1) \<notin> fst ` set (sc_requests s) \<and> sc_requests s1 = pd_set (sc_requests s) (request_id (rq o1)) (sc_next_obj s) \<and>
       status (the_req s1 (sc_next_obj s)) = WAITING \<and> (\<forall>j. j \<noteq> sc_next_obj s \<longrightarrow> the_req s1 j = the_req s j)"
proof -
  define s0 where "s0 = (if sc_pld_spec s \<and> sc_pld_auto s then s\<lparr>sc_pld_window := 1\<rparr> else s)"
  have f: "sc_running s0 = sc_running s" "sc_requests s0 = sc_requests s" "sc_objs s0 = sc_objs s" "sc_next_obj s0 = sc_next_obj s"
    by (simp_all add: s0_def)
  let ?o = "tokenize env o1" and ?rid = "request_id (rq o1)"
  obtain r2 l where c: "clamp_budget env (rq ?o) (sc_limits s0) = (r2, l)" by fastforce
  obtain ch r3 where cr: "(if bypass_prefix_cache r2 then (sc_cache (s0\<lparr>sc_limits := l\<rparr>), r2\<lparr>remaining_tokens := prompt_token_ids r2\<rparr>)
    else case se_lookup env (sc_cache (s0\<lparr>sc_limits := l\<rparr>)) r2 of (ch, h) \<Rightarrow> (ch, apply_hit h r2)) = (ch, r3)" by fastforce
  have st: "status r3 = WAITING"
    using cr admission_kept(1,2) [of env o1] admission_kept(3,4) [of env "rq ?o" "sc_limits s0"] assms(2) c
    by (auto split: if_splits prod.splits)
  note e = assms(1) [unfolded add_request_def Let_def s0_def [symmetric] c prod.case cr]
  show "sc_running s1 = sc_running s" "res = Inl x \<Longrightarrow> sc_requests s1 = sc_requests s \<and> sc_objs s1 = sc_objs s"
    using e f by (auto split: if_splits)
  show "res = Inr u \<Longrightarrow> ?rid \<notin> fst ` set (sc_requests s) \<and> sc_requests s1 = pd_set (sc_requests s) ?rid (sc_next_obj s) \<and>
       status (the_req s1 (sc_next_obj s)) = WAITING \<and> (\<forall>j. j \<noteq> sc_next_obj s \<longrightarrow> the_req s1 j = the_req s j)"
    using e f st by (auto split: if_splits)
qed

lemma ended_are_known: "ended_are F s \<Longrightarrow> books s \<Longrightarrow> rid \<in> F \<Longrightarrow> \<exists>i. pd_get (sc_requests s) rid = Some i \<and> has_ended s i"
  unfolding ended_are_def by (metis books_ofD(7) not_None_eq)

lemma ended_are_add:
  assumes "ended_are F s" "books s" "add_request env o1 s = (s1, res)" "status (rq o1) = WAITING"
  shows "ended_are F s1"
proof (cases res)
  case (Inl x)
  then show ?thesis using assms(1) add_effect(1,2) [OF assms(3,4)] by (simp add: ended_are_def)
next
  case (Inr u)
  let ?i = "sc_next_obj s" and ?rid = "request_id (rq o1)"
  note A = add_effect(1) [OF assms(3,4)] add_effect(3) [OF assms(3,4) Inr]
  have new: "?rid \<notin> F" using ended_are_known [OF assms(1,2), of ?rid] A(2) by (auto simp: pd_get_Some_in_keys)
  have old: "j \<noteq> ?i" if "pd_get (sc_requests s) rid = Some j" for rid j using books_ofD(5) [OF assms(2) that] by simp
  have "has_ended s1 i = (rid \<in> F)" if "pd_get (sc_requests s1) rid = Some i" for rid i
  proof (cases "rid = ?rid")
    case True
    then show ?thesis using A(2) that new by simp
  next
    case False
    then have k: "pd_get (sc_requests s) rid = Some i" using A(2) that by simp
    then show ?thesis using assms(1) A(2) old [OF k] by (simp add: ended_are_def)
  qed
  then show ?thesis using assms(1) A(1) by (simp add: ended_are_def)
qed

lemma abort_unknown:
  assumes "pd_get (sc_requests s) rid = None"
  shows "sc_requests (fst (abort_request env rid s)) = sc_requests s" "sc_running (fst (abort_request env rid s)) = sc_running s"
    "sc_objs (fst (abort_request env rid s)) = sc_objs s"
  using assms by (simp_all add: abort_request_def Let_def)

lemma ended_are_abort:
  assumes "ended_are F s" "books s" "rid \<notin> F"
  shows "ended_are F (fst (abort_request env rid s))"
proof (cases "pd_get (sc_requests s) rid")
  case None
  then show ?thesis using assms(1) abort_unknown [OF None, of env] by (simp add: ended_are_def)
next
  case (Some i)
  note A = abort_fields(1,2,10) [OF Some, of env]
  have "has_ended (fst (abort_request env rid s)) j = (r \<in> F)" if k: "pd_get (sc_requests (fst (abort_request env rid s))) r = Some j" for r j
  proof -
    have r: "r \<noteq> rid" "pd_get (sc_requests s) r = Some j" using k A(1) by (auto split: if_splits)
    then have "j \<noteq> i" using books_ofD(4) [OF assms(2) r(2)] books_ofD(4) [OF assms(2) Some] by auto
    then have "the_req (fst (abort_request env rid s)) j = the_req s j" unfolding A(3) by simp
    then show ?thesis using assms(1) r(2) by (simp add: ended_are_def)
  qed
  then show ?thesis using assms A(2) unfolding ended_are_def by auto
qed

lemma ended_are_nothing: "sc_requests s = [] \<Longrightarrow> ended_are {} s"
  by (simp add: ended_are_def)

text \<open>Aborting a list of requests.\<close>

lemma abort_all:
  "fst ` set (sc_requests (fold (\<lambda>rid s. fst (abort_request env rid s)) ids s)) = fst ` set (sc_requests s) - set ids"
  by (induction ids arbitrary: s) (auto simp: abort_requests)

lemma inv_abort_all: "sched_inv nu s \<Longrightarrow> sched_inv nu (fold (\<lambda>rid s. fst (abort_request env rid s)) ids s)"
  by (induction ids arbitrary: s) (simp_all add: inv_abort)

lemma books_known:
  assumes "books s"
  shows "fst ` set (sc_requests s) \<subseteq> set (pd_keys (sc_running s) @ map (\<lambda>i. request_id (the_req s i)) (sc_waiting s))"
proof
  fix r assume "r \<in> fst ` set (sc_requests s)"
  then obtain i where a: "pd_get (sc_requests s) r = Some i"
    using pd_get_None_iff [of "sc_requests s" r] by (cases "pd_get (sc_requests s) r") simp_all
  show "r \<in> set (pd_keys (sc_running s) @ map (\<lambda>i. request_id (the_req s i)) (sc_waiting s))"
    using books_ofD(4) [OF assms a] books_ofD(6) [OF assms a] by (auto dest: pd_get_Some_in_keys)
qed

section \<open>The invariant\<close>

definition cleaning_ids :: "('g, 'c) engine \<Rightarrow> string set" where
  "cleaning_ids e = (case en_cleaning e of None \<Rightarrow> {} | Some ids \<Rightarrow> set ids)"

text \<open>The tables: one number per registration, the same in both; a stream state for each.\<close>

definition desk_ok :: "('g, 'c) engine \<Rightarrow> bool" where
  "desk_ok e \<longleftrightarrow> pd_ok (en_cols e) \<and> en_events e = en_cols e \<and> pd_keys (en_states e) = pd_keys (en_cols e) \<and>
     distinct (map snd (en_cols e)) \<and> (\<forall>n \<in> snd ` set (en_cols e). n < en_next e) \<and> (\<forall>n \<in> en_set e. n < en_next e) \<and>
     (\<forall>n. col_aggregate (cols (en_objs e) n))"

text \<open>An event that is set has an answer, unless its collector is one that was read (a number of \<open>P\<close>).\<close>

definition answered :: "nat set \<Rightarrow> ('g, 'c) engine \<Rightarrow> bool" where
  "answered P e \<longleftrightarrow> (\<forall>n \<in> snd ` set (en_cols e). n \<in> en_set e \<longrightarrow> n \<notin> P \<longrightarrow> col_output (cols (en_objs e) n) \<noteq> None)"

definition all_served :: "('g, 'c) engine \<Rightarrow> bool" where
  "all_served e \<longleftrightarrow> fst ` set (sc_requests (en_sched e)) \<subseteq> fst ` set (en_cols e) \<union> cleaning_ids e"

definition engine_inv :: "('g \<Rightarrow> int) \<Rightarrow> nat set \<Rightarrow> ('g, 'c) engine \<Rightarrow> bool" where
  "engine_inv nu P e \<longleftrightarrow> sched_inv nu (en_sched e) \<and> ended_are (cleaning_ids e) (en_sched e) \<and> desk_ok e \<and> answered P e \<and> all_served e \<and>
     en_fence e = (en_cleaning e = None) \<and> (\<not> en_running e \<longrightarrow> en_cleaning e = None) \<and> en_orphans e = [] \<and> en_first_seen e = []"

lemma engine_invI:
  "sched_inv nu (en_sched e) \<Longrightarrow> ended_are (cleaning_ids e) (en_sched e) \<Longrightarrow> desk_ok e \<Longrightarrow> answered P e \<Longrightarrow> all_served e \<Longrightarrow>
   en_fence e = (en_cleaning e = None) \<Longrightarrow> (\<not> en_running e \<Longrightarrow> en_cleaning e = None) \<Longrightarrow> en_orphans e = [] \<Longrightarrow> en_first_seen e = [] \<Longrightarrow>
   engine_inv nu P e"
  by (simp add: engine_inv_def)

lemma engine_invD:
  assumes "engine_inv nu P e"
  shows "sched_inv nu (en_sched e)" "ended_are (cleaning_ids e) (en_sched e)" "desk_ok e" "answered P e" "all_served e"
    "en_fence e = (en_cleaning e = None)" "\<not> en_running e \<Longrightarrow> en_cleaning e = None" "en_orphans e = []" "en_first_seen e = []"
    "books (en_sched e)"
  using assms by (simp_all add: engine_inv_def sched_inv_def)

lemma desk_keys: "desk_ok e \<Longrightarrow> fst ` set (en_states e) = fst ` set (en_cols e)"
  unfolding desk_ok_def by (metis list.set_map)

text \<open>Two registrations never share a number.\<close>

lemma desk_number:
  assumes "desk_ok e" "pd_get (en_cols e) r1 = Some n" "pd_get (en_cols e) r2 = Some n"
  shows "r1 = r2"
proof -
  have "inj_on snd (set (en_cols e))" using assms(1) by (simp add: desk_ok_def distinct_map)
  then show ?thesis using inj_onD [of snd _ "(r1, n)" "(r2, n)"] map_of_SomeD [OF assms(2)] map_of_SomeD [OF assms(3)] by simp
qed

subsection \<open>Frames\<close>

text \<open>Everything but the scheduler, and what the tables' invariant looks at.\<close>

lemma inv_sched_frame:
  assumes "engine_inv nu P e" "sched_inv nu s" "sc_requests s = sc_requests (en_sched e)" "sc_running s = sc_running (en_sched e)"
    "sc_objs s = sc_objs (en_sched e)"
  shows "engine_inv nu P (e\<lparr>en_sched := s\<rparr>)"
  using assms by (simp add: engine_inv_def ended_are_def desk_ok_def answered_def all_served_def cleaning_ids_def)

lemma inv_admitting: "sched_inv nu (s\<lparr>sc_admitting := x\<rparr>) = sched_inv nu s" "sched_inv nu (s\<lparr>sc_idle := y\<rparr>) = sched_inv nu s"
    "sched_inv nu (s\<lparr>sc_idle := y, sc_cache := c\<rparr>) = sched_inv nu s"
  by (simp_all add: sched_inv_def books_of_def tables_def)

lemma inv_end_admission: "engine_inv nu P e \<Longrightarrow> engine_inv nu P (end_admission rid e)"
  using inv_sched_frame [of nu P e] engine_invD(1) [of nu P e] by (simp add: end_admission_def end_foreground_admission_def inv_admitting)

lemma inv_begin_admission: "engine_inv nu P e \<Longrightarrow> engine_inv nu P (e\<lparr>en_sched := begin_foreground_admission rid (en_sched e)\<rparr>)"
  using inv_sched_frame [of nu P e] engine_invD(1) [of nu P e] by (simp add: begin_foreground_admission_def inv_admitting)

text \<open>Fields no part of the invariant reads.\<close>

lemma inv_other [simp]:
  "engine_inv nu P (e\<lparr>en_waiters := x1\<rparr>) = engine_inv nu P e" "engine_inv nu P (e\<lparr>en_steps := x2\<rparr>) = engine_inv nu P e"
  "engine_inv nu P (e\<lparr>en_ghost_counter := x3\<rparr>) = engine_inv nu P e" "engine_inv nu P (e\<lparr>en_shut := x4\<rparr>) = engine_inv nu P e"
  "engine_inv nu P (e\<lparr>en_closed := x5\<rparr>) = engine_inv nu P e"
  by (simp_all add: engine_inv_def desk_ok_def answered_def all_served_def cleaning_ids_def)

subsection \<open>Objects\<close>

text \<open>Collectors keep what they hold.\<close>

definition keeps_outputs :: "col_system \<Rightarrow> col_system \<Rightarrow> bool" where
  "keeps_outputs a b \<longleftrightarrow> (\<forall>n. (col_output (cols a n) \<noteq> None \<longrightarrow> col_output (cols b n) \<noteq> None) \<and>
     (col_aggregate (cols a n) \<longrightarrow> col_aggregate (cols b n)))"

lemma outputs_refl [simp]: "keeps_outputs a a"
  by (simp add: keeps_outputs_def)

lemma outputs_trans: "keeps_outputs a b \<Longrightarrow> keeps_outputs b c \<Longrightarrow> keeps_outputs a c"
  by (simp add: keeps_outputs_def)

lemma put_nonempty [simp]: "\<exists>x. col_output (col_put now c out) = Some x"
  by (simp add: col_put_def Let_def split: option.split)

lemma upd_col_get: "cols (upd_col s n c) m = (if m = n then c else cols s m)"
  by (simp add: upd_col_def)

lemma keeps_put: "keeps_outputs (en_objs e) (en_objs (put_output t n out e))"
  by (simp add: keeps_outputs_def put_output_def upd_col_get)

lemma put_fields [simp]:
  "en_sched (put_output t n out e) = en_sched e" "en_interval (put_output t n out e) = en_interval e" "en_cols (put_output t n out e) = en_cols e"
  "en_states (put_output t n out e) = en_states e" "en_events (put_output t n out e) = en_events e" "en_set (put_output t n out e) = en_set e"
  "en_next (put_output t n out e) = en_next e" "en_fence (put_output t n out e) = en_fence e" "en_opened (put_output t n out e) = en_opened e"
  "en_waiters (put_output t n out e) = en_waiters e" "en_running (put_output t n out e) = en_running e" "en_closed (put_output t n out e) = en_closed e"
  "en_cleaning (put_output t n out e) = en_cleaning e" "en_orphans (put_output t n out e) = en_orphans e"
  "en_first_seen (put_output t n out e) = en_first_seen e" "en_shut (put_output t n out e) = en_shut e" "en_steps (put_output t n out e) = en_steps e"
  "\<exists>x. col_output (cols (en_objs (put_output t n out e)) n) = Some x"
  by (simp_all add: put_output_def)

text \<open>The frame that \<open>cleanup_request\<close>, the distribution and the failure of the loop share.\<close>

definition rest_of :: "('g, 'c) engine \<Rightarrow> nat \<times> bool \<times> bool \<times> string list option \<times> nat \<times> int \<times> (sched_request \<times> nat) list \<times> bool \<times> bool" where
  "rest_of e = (en_next e, en_fence e, en_running e, en_cleaning e, en_opened e, en_interval e, en_waiters e, en_closed e, en_shut e)"

lemma rest_fields:
  "rest_of a = rest_of b \<Longrightarrow> en_next a = en_next b \<and> en_fence a = en_fence b \<and> en_running a = en_running b \<and> en_cleaning a = en_cleaning b \<and>
     en_opened a = en_opened b \<and> en_interval a = en_interval b \<and> en_waiters a = en_waiters b \<and> cleaning_ids a = cleaning_ids b"
  by (simp add: rest_of_def cleaning_ids_def)

lemma rest_frame [simp]:
  "rest_of (e\<lparr>en_sched := x1\<rparr>) = rest_of e" "rest_of (e\<lparr>en_cols := x2\<rparr>) = rest_of e" "rest_of (e\<lparr>en_states := x3\<rparr>) = rest_of e"
  "rest_of (e\<lparr>en_events := x4\<rparr>) = rest_of e" "rest_of (e\<lparr>en_objs := x5\<rparr>) = rest_of e" "rest_of (e\<lparr>en_set := x6\<rparr>) = rest_of e"
  "rest_of (e\<lparr>en_orphans := x7\<rparr>) = rest_of e" "rest_of (e\<lparr>en_first_seen := x8\<rparr>) = rest_of e" "rest_of (e\<lparr>en_ghost_counter := x9\<rparr>) = rest_of e"
  "rest_of (e\<lparr>en_steps := xa\<rparr>) = rest_of e" "rest_of (put_output t n out e) = rest_of e" "rest_of (abort_in_scheduler env rid e) = rest_of e"
  by (simp_all add: rest_of_def put_output_def abort_in_scheduler_def)

lemma abort_fields_engine [simp]:
  "en_cols (abort_in_scheduler env rid e) = en_cols e" "en_states (abort_in_scheduler env rid e) = en_states e"
  "en_events (abort_in_scheduler env rid e) = en_events e" "en_objs (abort_in_scheduler env rid e) = en_objs e"
  "en_set (abort_in_scheduler env rid e) = en_set e" "en_orphans (abort_in_scheduler env rid e) = en_orphans e"
  "en_first_seen (abort_in_scheduler env rid e) = en_first_seen e"
  "en_sched (abort_in_scheduler env rid e) = fst (abort_request env rid (en_sched e))"
  by (simp_all add: abort_in_scheduler_def)

section \<open>Clean-up\<close>

definition spares :: "('g, 'c) scheduler \<Rightarrow> string \<Rightarrow> bool" where
  "spares s rid \<longleftrightarrow> (case get_request s rid of None \<Rightarrow> False | Some i \<Rightarrow> has_ended s i)"

lemma cleanup_fields:
  "en_cols (cleanup_request env t rid e) = pd_del (en_cols e) rid"
  "en_states (cleanup_request env t rid e) = pd_del (en_states e) rid"
  "en_events (cleanup_request env t rid e) = pd_del (en_events e) rid"
  "en_set (cleanup_request env t rid e) = (case pd_get (en_events e) rid of None \<Rightarrow> en_set e | Some n \<Rightarrow> insert n (en_set e))"
  "en_sched (cleanup_request env t rid e) = (if spares (en_sched e) rid then en_sched e else fst (abort_request env rid (en_sched e)))"
  "rest_of (cleanup_request env t rid e) = rest_of e"
  "en_orphans (cleanup_request env t rid e) = en_orphans e" "en_first_seen (cleanup_request env t rid e) = en_first_seen e"
proof -
  define e1 where "e1 = (case pd_get (en_cols e) rid of None \<Rightarrow> e
    | Some n \<Rightarrow> (let held = (case pd_get (en_states e) rid of None \<Rightarrow> ([], []) | Some st \<Rightarrow> fst (drain_pending st))
                in put_output t n (aborted_output t rid held) (e\<lparr>en_cols := pd_del (en_cols e) rid\<rparr>)))"
  define e2 where "e2 = e1\<lparr>en_states := pd_del (en_states e1) rid\<rparr>"
  define e3 where "e3 = (case pd_get (en_events e2) rid of None \<Rightarrow> e2
    | Some n \<Rightarrow> e2\<lparr>en_events := pd_del (en_events e2) rid, en_set := insert n (en_set e2)\<rparr>)"
  have c: "cleanup_request env t rid e = (case get_request (en_sched e3) rid of None \<Rightarrow> abort_in_scheduler env rid e3
    | Some i \<Rightarrow> if req_is_finished (the_req (en_sched e3) i) then e3 else abort_in_scheduler env rid e3)"
    unfolding cleanup_request_def Let_def e1_def [symmetric, unfolded Let_def] e2_def [symmetric] e3_def [symmetric] ..
  have f1: "en_cols e1 = pd_del (en_cols e) rid" "en_states e1 = en_states e" "en_events e1 = en_events e" "en_set e1 = en_set e"
    "en_sched e1 = en_sched e" "rest_of e1 = rest_of e" "en_orphans e1 = en_orphans e" "en_first_seen e1 = en_first_seen e"
    using pd_del_absent [of rid "en_cols e"] by (simp_all add: e1_def Let_def pd_get_None_iff split: option.split)
  have f3: "en_cols e3 = pd_del (en_cols e) rid" "en_states e3 = pd_del (en_states e) rid" "en_events e3 = pd_del (en_events e) rid"
    "en_set e3 = (case pd_get (en_events e) rid of None \<Rightarrow> en_set e | Some n \<Rightarrow> insert n (en_set e))" "en_sched e3 = en_sched e"
    "rest_of e3 = rest_of e" "en_orphans e3 = en_orphans e" "en_first_seen e3 = en_first_seen e"
    using pd_del_absent [of rid "en_events e"] f1 by (auto simp: e3_def e2_def pd_get_None_iff dest: pd_get_Some_in_keys split: option.split)
  have c3: "cleanup_request env t rid e = (if spares (en_sched e) rid then e3 else abort_in_scheduler env rid e3)"
    unfolding c f3(5) by (simp add: spares_def req_is_finished_def split: option.split)
  show "en_cols (cleanup_request env t rid e) = pd_del (en_cols e) rid"
    "en_states (cleanup_request env t rid e) = pd_del (en_states e) rid"
    "en_events (cleanup_request env t rid e) = pd_del (en_events e) rid"
    "en_set (cleanup_request env t rid e) = (case pd_get (en_events e) rid of None \<Rightarrow> en_set e | Some n \<Rightarrow> insert n (en_set e))"
    "en_sched (cleanup_request env t rid e) = (if spares (en_sched e) rid then en_sched e else fst (abort_request env rid (en_sched e)))"
    "rest_of (cleanup_request env t rid e) = rest_of e"
    "en_orphans (cleanup_request env t rid e) = en_orphans e" "en_first_seen (cleanup_request env t rid e) = en_first_seen e"
    unfolding c3 using f3 by simp_all
qed

lemma cleanup_objs_eq:
  "en_objs (cleanup_request env t rid e) =
     (case pd_get (en_cols e) rid of None \<Rightarrow> en_objs e
      | Some n \<Rightarrow> en_objs (put_output t n (aborted_output t rid (case pd_get (en_states e) rid of None \<Rightarrow> ([], []) | Some st \<Rightarrow> fst (drain_pending st))) e))"
  by (simp add: cleanup_request_def Let_def put_output_def split: option.split)

lemma cleanup_keeps: "keeps_outputs (en_objs e) (en_objs (cleanup_request env t rid e))"
  by (simp add: cleanup_objs_eq keeps_put split: option.split)

text \<open>The sentinel.\<close>

lemma put_finished: "ro_finished out \<Longrightarrow> col_put now c out = c1 \<Longrightarrow> \<exists>x. col_output c1 = Some x \<and> ro_finished x"
  by (auto simp: col_put_def merge_outputs_def Let_def split: option.splits if_splits)

lemma cleanup_sentinel:
  assumes "pd_get (en_cols e) rid = Some n"
  shows "\<exists>x. col_output (cols (en_objs (cleanup_request env t rid e)) n) = Some x \<and> ro_finished x"
  unfolding cleanup_objs_eq assms option.case put_output_def
  by (simp add: upd_col_get) (rule put_finished [OF _ refl], simp add: aborted_output_def)

lemma distinct_numbers_del: "distinct (map snd d) \<Longrightarrow> distinct (map snd (pd_del d k))"
  by (induction d) (auto simp: pd_del_Cons set_pd_del)

lemma number_gone: "distinct (map snd d) \<Longrightarrow> pd_get d k = Some n \<Longrightarrow> n \<notin> snd ` set (pd_del d k)"
proof
  assume d: "distinct (map snd d)" "pd_get d k = Some n" and "n \<in> snd ` set (pd_del d k)"
  then obtain k1 where "(k1, n) \<in> set d" "k1 \<noteq> k" by (auto simp: set_pd_del)
  then show False using d(1) inj_onD [of snd "set d" "(k1, n)" "(k, n)"] map_of_SomeD [OF d(2)] by (simp add: distinct_map)
qed

lemma desk_cleanup:
  assumes "desk_ok e"
  shows "desk_ok (cleanup_request env t rid e)"
proof -
  note F = cleanup_fields [of env t rid e]
  have r: "en_next (cleanup_request env t rid e) = en_next e" using rest_fields [OF F(6)] by simp
  have n: "n < en_next e" if "pd_get (en_cols e) rid = Some n" for n
    using assms map_of_SomeD [OF that] by (force simp: desk_ok_def)
  have a: "col_aggregate (cols (en_objs (cleanup_request env t rid e)) m)" for m
    using cleanup_keeps [of e env t rid] assms by (simp add: keeps_outputs_def desk_ok_def)
  have k: "pd_keys (pd_del (en_states e) rid) = pd_keys (pd_del (en_cols e) rid)" using assms by (simp add: pd_keys_del desk_ok_def)
  show ?thesis using assms n a k distinct_numbers_del [of "en_cols e" rid]
    unfolding desk_ok_def F(1-4) r by (auto simp: set_pd_del split: option.splits)
qed

context generator_contract
begin

lemma inv_cleanup_request:
  assumes "engine_inv nu P e"
  shows "engine_inv nu P (cleanup_request env t rid e)"
proof -
  let ?e = "cleanup_request env t rid e"
  note D = engine_invD [OF assms]
  note F = cleanup_fields [of env t rid e]
  note R = rest_fields [OF F(6)]
  have sp: "rid \<in> cleaning_ids e" if "spares (en_sched e) rid"
    using that D(2) by (auto simp: spares_def get_request_def ended_are_def split: option.splits)
  have ns: "rid \<notin> cleaning_ids e" if "\<not> spares (en_sched e) rid"
    using that ended_are_known [OF D(2,10), of rid] by (auto simp: spares_def get_request_def)
  show ?thesis
  proof (rule engine_invI)
    show "sched_inv nu (en_sched ?e)" unfolding F(5) using D(1) by (simp add: inv_abort)
    show "ended_are (cleaning_ids ?e) (en_sched ?e)" using R F(5) D(2) ended_are_abort [OF D(2,10) ns] by simp
    show "desk_ok ?e" by (rule desk_cleanup [OF D(3)])
    have ev: "en_events e = en_cols e" "distinct (map snd (en_cols e))" using D(3) by (simp_all add: desk_ok_def)
    show "answered P ?e" unfolding answered_def F(1,4) ev(1)
    proof (intro ballI impI)
      fix n assume n: "n \<in> snd ` set (pd_del (en_cols e) rid)" "n \<in> (case pd_get (en_cols e) rid of None \<Rightarrow> en_set e | Some n \<Rightarrow> insert n (en_set e))" "n \<notin> P"
      have "n \<in> en_set e" using n(1,2) number_gone [OF ev(2)] by (auto split: option.splits)
      moreover have "n \<in> snd ` set (en_cols e)" using n(1) by (auto simp: set_pd_del)
      ultimately have "col_output (cols (en_objs e) n) \<noteq> None" using D(4) n(3) unfolding answered_def by blast
      then show "col_output (cols (en_objs ?e) n) \<noteq> None" using cleanup_keeps [of e env t rid] by (simp add: keeps_outputs_def)
    qed
    show "all_served ?e"
      using D(5) sp R unfolding all_served_def F(1,5) by (auto simp: abort_requests)
  qed (use R D(6-9) F(7,8) in simp_all)
qed

end

section \<open>Registration\<close>

lemma numbers_set: "snd ` set (pd_set d k v) \<subseteq> insert v (snd ` set d)"
  by (induction d k v rule: pd_set.induct) auto

lemma distinct_numbers_set: "distinct (map snd d) \<Longrightarrow> v \<notin> snd ` set d \<Longrightarrow> distinct (map snd (pd_set d k v))"
proof (induction d k v rule: pd_set.induct)
  case (2 k' v' d k v)
  then show ?case using numbers_set [of d k v] by auto
qed simp

lemma register_fields:
  "en_sched (register_request rid e) = en_sched e" "en_cols (register_request rid e) = pd_set (en_cols e) rid (en_next e)"
  "en_events (register_request rid e) = pd_set (en_events e) rid (en_next e)" "en_set (register_request rid e) = en_set e"
  "en_next (register_request rid e) = en_next e + 1" "en_fence (register_request rid e) = en_fence e"
  "en_cleaning (register_request rid e) = en_cleaning e" "en_running (register_request rid e) = en_running e"
  "en_orphans (register_request rid e) = en_orphans e" "en_first_seen (register_request rid e) = en_first_seen e"
  "cols (en_objs (register_request rid e)) n = (if n = en_next e then new_collector True else cols (en_objs e) n)"
  "pd_keys (en_states (register_request rid e)) = (if rid \<in> fst ` set (en_states e) then pd_keys (en_states e) else pd_keys (en_states e) @ [rid])"
  "en_opened (register_request rid e) = en_opened e" "cleaning_ids (register_request rid e) = cleaning_ids e"
  by (simp_all add: register_request_def Let_def upd_col_get pd_keys_set cleaning_ids_def)

lemma inv_register:
  assumes "engine_inv nu P e"
  shows "engine_inv nu P (register_request rid e)"
proof -
  let ?e = "register_request rid e"
  note D = engine_invD [OF assms]
  note F = register_fields
  have d: "pd_ok (en_cols e)" "en_events e = en_cols e" "pd_keys (en_states e) = pd_keys (en_cols e)" "distinct (map snd (en_cols e))"
    "n \<in> snd ` set (en_cols e) \<Longrightarrow> n < en_next e" "m \<in> en_set e \<Longrightarrow> m < en_next e" "col_aggregate (cols (en_objs e) k)" for n m k
    using D(3) unfolding desk_ok_def by blast+
  have new: "en_next e \<notin> snd ` set (en_cols e)" "en_next e \<notin> en_set e" using d(5,6) by blast+
  show ?thesis
  proof (rule engine_invI)
    show "desk_ok ?e" unfolding desk_ok_def F
    proof (intro conjI ballI allI)
      show "(if rid \<in> fst ` set (en_states e) then pd_keys (en_states e) else pd_keys (en_states e) @ [rid]) = pd_keys (pd_set (en_cols e) rid (en_next e))"
        using desk_keys [OF D(3)] d(3) by (simp add: pd_keys_set)
      show "n < en_next e + 1" if "n \<in> snd ` set (pd_set (en_cols e) rid (en_next e))" for n
        using subsetD [OF numbers_set that] d(5) [of n] by (metis insertE less_add_one less_SucI Suc_eq_plus1)
    qed (use d new distinct_numbers_set [OF d(4) new(1)] in \<open>auto simp: new_collector_def dest: d(6)\<close>)
    show "answered P ?e" unfolding answered_def F
    proof (intro ballI impI)
      fix n assume n: "n \<in> snd ` set (pd_set (en_cols e) rid (en_next e))" "n \<in> en_set e" "n \<notin> P"
      then have m: "n \<noteq> en_next e" "n \<in> snd ` set (en_cols e)" using new subsetD [OF numbers_set n(1)] by auto
      then show "col_output (if n = en_next e then new_collector True else cols (en_objs e) n) \<noteq> None"
        using D(4) n(2,3) m(2) unfolding answered_def if_not_P [OF m(1)] by blast
    qed
    show "all_served ?e" using D(5) unfolding all_served_def F by auto
  qed (use D in \<open>simp_all add: F\<close>)
qed

text \<open>The scheduler may take the request in once it is registered.\<close>

lemma inv_sched_add:
  assumes "engine_inv nu P e" "request_id (rq o1) \<in> fst ` set (en_cols e)" "add_request env o1 (en_sched e) = (s, res)" "status (rq o1) = WAITING"
  shows "engine_inv nu P (e\<lparr>en_sched := s\<rparr>)"
proof -
  note D = engine_invD [OF assms(1)]
  have k: "fst ` set (sc_requests s) \<subseteq> insert (request_id (rq o1)) (fst ` set (sc_requests (en_sched e)))"
    using add_effect(2,3) [OF assms(3,4)] by (cases res) auto
  have i: "sched_inv nu s" using inv_add [OF D(1) assms(4), of env] assms(3) by simp
  have n: "ended_are (cleaning_ids e) s" by (rule ended_are_add [OF D(2,10) assms(3,4)])
  have "fst ` set (sc_requests s) \<subseteq> fst ` set (en_cols e) \<union> cleaning_ids e"
    using D(5) assms(2) by (intro subset_trans [OF k]) (simp add: all_served_def)
  then show ?thesis using D(3,4,6-9) i n by (simp add: engine_inv_def desk_ok_def answered_def all_served_def cleaning_ids_def)
qed

context generator_contract
begin

lemma inv_finish_add:
  assumes "engine_inv nu P e" "status (rq o1) = WAITING"
  shows "engine_inv nu P (fst (finish_add env t o1 e))"
proof -
  let ?r = "register_request (request_id (rq o1)) e"
  obtain s res where a: "add_request env o1 (en_sched ?r) = (s, res)" by fastforce
  have "request_id (rq o1) \<in> fst ` set (en_cols ?r)" by (simp add: register_fields)
  from inv_sched_add [OF inv_register [OF assms(1)] this a assms(2)] have "engine_inv nu P (?r\<lparr>en_sched := s\<rparr>)" .
  then show ?thesis
    using a inv_cleanup_request [of P "?r\<lparr>en_sched := s\<rparr>"] by (cases res) (simp_all add: finish_add_def Let_def inv_end_admission)
qed

lemma inv_begin_add:
  assumes "engine_inv nu P e" "status (rq o1) = WAITING"
  shows "engine_inv nu P (fst (begin_add env t o1 e))"
proof -
  let ?e = "e\<lparr>en_sched := begin_foreground_admission (request_id (rq o1)) (en_sched e)\<rparr>"
  have i: "engine_inv nu P ?e" by (rule inv_begin_admission [OF assms(1)])
  show ?thesis
    using i inv_finish_add [OF i assms(2), of t] by (cases "finish_add env t o1 ?e") (simp add: begin_add_def Let_def)
qed

end

lemma inv_drop_waiter: "engine_inv nu P e \<Longrightarrow> engine_inv nu P (drop_waiter k e)"
  by (simp add: drop_waiter_def)

lemma inv_cancel_add: "engine_inv nu P e \<Longrightarrow> engine_inv nu P (cancel_add k e)"
  by (simp add: cancel_add_def inv_end_admission inv_drop_waiter)

section \<open>Distribution\<close>

definition desk_inv :: "nat set \<Rightarrow> ('g, 'c) engine \<Rightarrow> bool" where
  "desk_inv P e \<longleftrightarrow> desk_ok e \<and> answered P e \<and> en_orphans e = [] \<and> en_first_seen e = []"

lemma desk_invD: "desk_inv P e \<Longrightarrow> desk_ok e \<and> answered P e \<and> en_orphans e = [] \<and> en_first_seen e = []"
  by (simp add: desk_inv_def)

text \<open>What changes in a step that hands something to the collectors: stream states, objects, events that are set.\<close>

definition same_tables :: "('g, 'c) engine \<Rightarrow> ('g, 'c) engine \<Rightarrow> bool" where
  "same_tables e a \<longleftrightarrow> en_cols a = en_cols e \<and> en_events a = en_events e \<and> pd_keys (en_states a) = pd_keys (en_states e) \<and>
     en_orphans a = en_orphans e \<and> en_first_seen a = en_first_seen e \<and> rest_of a = rest_of e \<and> keeps_outputs (en_objs e) (en_objs a)"

lemma same_refl [simp]: "same_tables e e"
  by (simp add: same_tables_def)

lemma same_trans: "same_tables a b \<Longrightarrow> same_tables b c \<Longrightarrow> same_tables a c"
  using outputs_trans by (auto simp: same_tables_def)

lemma same_put [simp]: "same_tables e (put_output t n out e)"
  by (simp add: same_tables_def keeps_put)

lemma desk_inv_same:
  assumes "desk_inv P e" "same_tables e a"
    "\<And>n. n \<in> en_set a \<Longrightarrow> n \<in> en_set e \<or> (n \<in> snd ` set (en_cols e) \<and> col_output (cols (en_objs a) n) \<noteq> None)"
  shows "desk_inv P a"
proof -
  have d: "desk_ok e" "answered P e" using desk_invD [OF assms(1)] by simp_all
  have f: "en_cols a = en_cols e" "en_events a = en_events e" "pd_keys (en_states a) = pd_keys (en_states e)" "en_orphans a = en_orphans e"
    "en_first_seen a = en_first_seen e" "en_next a = en_next e" "keeps_outputs (en_objs e) (en_objs a)"
    using assms(2) rest_fields [of a e] by (simp_all add: same_tables_def)
  have lt: "n < en_next e" if "n \<in> en_set a" for n using assms(3) [OF that] d(1) unfolding desk_ok_def by blast
  have k: "col_aggregate (cols (en_objs a) n)" for n using d(1) f(7) by (simp add: desk_ok_def keeps_outputs_def)
  have "desk_ok a" using d(1) f lt k by (simp add: desk_ok_def)
  moreover have "answered P a" unfolding answered_def f(1)
  proof (intro ballI impI)
    fix n assume n: "n \<in> snd ` set (en_cols e)" "n \<in> en_set a" "n \<notin> P"
    show "col_output (cols (en_objs a) n) \<noteq> None"
    proof (cases "n \<in> en_set e")
      case True
      then have "col_output (cols (en_objs e) n) \<noteq> None" using d(2) n unfolding answered_def by blast
      then show ?thesis using f(7) by (simp add: keeps_outputs_def)
    qed (use assms(3) [OF n(2)] in simp)
  qed
  ultimately show ?thesis using assms(1) f by (simp add: desk_inv_def)
qed

lemma distribute_col:
  assumes "distribute False now (st, c) out = (st1, c1)"
  shows "col_output c \<noteq> None \<Longrightarrow> col_output c1 \<noteq> None" "col_aggregate c \<Longrightarrow> col_aggregate c1"
    "ro_finished out \<Longrightarrow> col_output c1 \<noteq> None"
  using assms by (auto simp: distribute_def Let_def should_send_def split: if_splits prod.splits)

lemma states_keys: "k \<in> fst ` set d \<Longrightarrow> pd_keys (pd_set d k v) = pd_keys d"
  by (simp add: pd_keys_set)

lemma deliver_same:
  assumes "desk_ok e" "pd_get (en_cols e) (ro_request_id out) = Some n"
  shows "same_tables e (deliver t n out e)" "en_sched (deliver t n out e) = en_sched e" "en_set (deliver t n out e) = en_set e"
    "ro_finished out \<Longrightarrow> col_output (cols (en_objs (deliver t n out e)) n) \<noteq> None"
proof -
  have "ro_request_id out \<in> fst ` set (en_states e)" using desk_keys [OF assms(1)] pd_get_Some_in_keys [OF assms(2)] by simp
  then obtain st where st: "pd_get (en_states e) (ro_request_id out) = Some st" "ro_request_id out \<in> fst ` set (en_states e)"
    by (metis option.exhaust pd_get_None_iff)
  obtain st1 c where d: "distribute False (perf t) (st, cols (en_objs e) n) out = (st1, c)" by fastforce
  have e: "deliver t n out e = (if en_interval e = 1 then put_output t n out e
      else e\<lparr>en_states := pd_set (en_states e) (ro_request_id out) st1, en_objs := upd_col (en_objs e) n c\<rparr>)"
    by (simp add: deliver_def st d)
  have "keeps_outputs (en_objs e) (upd_col (en_objs e) n c)"
    using distribute_col(1,2) [OF d] by (simp add: keeps_outputs_def upd_col_get)
  then show "same_tables e (deliver t n out e)" unfolding e using same_put [of e t n out] by (simp add: same_tables_def states_keys [OF st(2)])
  show "en_sched (deliver t n out e) = en_sched e" "en_set (deliver t n out e) = en_set e" unfolding e by simp_all
  show "ro_finished out \<Longrightarrow> col_output (cols (en_objs (deliver t n out e)) n) \<noteq> None"
    unfolding e using distribute_col(3) [OF d] by (simp add: upd_col_get)
qed

text \<open>An output of a registered request.\<close>

lemma distribute_output_same:
  assumes "desk_inv P e" "ro_request_id out \<in> fst ` set (en_cols e)"
  shows "same_tables e (distribute_output env t out e)" "en_sched (distribute_output env t out e) = en_sched e"
    "desk_inv P (distribute_output env t out e)"
    "ro_finished out \<Longrightarrow> pd_get (en_cols e) (ro_request_id out) = Some n \<Longrightarrow> n \<in> en_set (distribute_output env t out e)"
proof -
  obtain k where k: "pd_get (en_cols e) (ro_request_id out) = Some k" using assms(2) by (metis option.exhaust pd_get_None_iff)
  have d: "desk_ok e" "en_events e = en_cols e" "en_orphans e = []" "en_first_seen e = []"
    using desk_invD [OF assms(1)] by (simp_all add: desk_ok_def)
  have kin: "k \<in> snd ` set (en_cols e)" using imageI [OF map_of_SomeD [OF k], of snd] by simp
  have fo: "forget_orphan r a = a" if "en_orphans a = []" "en_first_seen a = []" for r and a :: "('g, 'c) engine"
    using that by (simp add: forget_orphan_def)
  let ?a = "deliver t k out e"
  note S = deliver_same [OF d(1) k, of t]
  have a: "en_orphans ?a = []" "en_first_seen ?a = []" "en_events ?a = en_cols e" "en_cols ?a = en_cols e"
    using S(1) d by (simp_all add: same_tables_def)
  have e: "distribute_output env t out e = (if ro_finished out then ?a\<lparr>en_set := insert k (en_set e)\<rparr> else ?a)"
    by (simp add: distribute_output_def Let_def k fo d fo [OF a(1,2)] a(3) S(3))
  show s: "same_tables e (distribute_output env t out e)" unfolding e using S(1) by (simp add: same_tables_def)
  show "en_sched (distribute_output env t out e) = en_sched e" unfolding e using S(2) by simp
  show "desk_inv P (distribute_output env t out e)"
  proof (rule desk_inv_same [OF assms(1) s])
    fix m assume "m \<in> en_set (distribute_output env t out e)"
    then show "m \<in> en_set e \<or> m \<in> snd ` set (en_cols e) \<and> col_output (cols (en_objs (distribute_output env t out e)) m) \<noteq> None"
      unfolding e using S(3,4) kin by (auto split: if_splits)
  qed
  show "ro_finished out \<Longrightarrow> pd_get (en_cols e) (ro_request_id out) = Some n \<Longrightarrow> n \<in> en_set (distribute_output env t out e)"
    unfolding e using k by simp
qed

lemma distribute_all:
  "desk_inv P e \<Longrightarrow> list_all (\<lambda>out. ro_request_id out \<in> fst ` set (en_cols e)) outs \<Longrightarrow>
   same_tables e (fold (distribute_output env t) outs e) \<and> en_sched (fold (distribute_output env t) outs e) = en_sched e \<and>
   desk_inv P (fold (distribute_output env t) outs e)"
proof (induction outs arbitrary: e)
  case (Cons out outs)
  let ?a = "distribute_output env t out e"
  have r: "ro_request_id out \<in> fst ` set (en_cols e)" using Cons.prems(2) by simp
  note S = distribute_output_same(1-3) [OF Cons.prems(1) r, where env = env and t = t]
  have "en_cols ?a = en_cols e" using S(1) by (simp add: same_tables_def)
  then have "list_all (\<lambda>out. ro_request_id out \<in> fst ` set (en_cols ?a)) outs" using Cons.prems(2) by simp
  from Cons.IH [OF S(3) this] S(1,2) show ?case using same_trans by auto
qed simp

section \<open>Failure\<close>

lemma fail_one_same:
  assumes "desk_inv P e" "(rid, n) \<in> set (en_cols e)"
  shows "same_tables e (fail_one t msg (rid, n) e)" "en_sched (fail_one t msg (rid, n) e) = en_sched e" "desk_inv P (fail_one t msg (rid, n) e)"
    "en_set (fail_one t msg (rid, n) e) = insert n (en_set e)"
proof -
  have d: "en_events e = en_cols e" "pd_ok (en_cols e)" using desk_invD [OF assms(1)] by (simp_all add: desk_ok_def)
  have g: "pd_get (en_cols e) rid = Some n" using assms(2) d(2) by (simp add: pd_get_eq_Some_iff)
  let ?p = "put_output t n (error_output t rid msg) e"
  have e: "fail_one t msg (rid, n) e = ?p\<lparr>en_set := insert n (en_set e)\<rparr>" by (simp add: fail_one_def Let_def d g)
  show s: "same_tables e (fail_one t msg (rid, n) e)" unfolding e using same_put [of e t n "error_output t rid msg"] by (simp add: same_tables_def)
  show "en_sched (fail_one t msg (rid, n) e) = en_sched e" "en_set (fail_one t msg (rid, n) e) = insert n (en_set e)" unfolding e by simp_all
  have "snd (rid, n) \<in> snd ` set (en_cols e)" by (rule imageI [OF assms(2)])
  then show "desk_inv P (fail_one t msg (rid, n) e)" by (intro desk_inv_same [OF assms(1) s]) (auto simp: e)
qed

lemma fail_all:
  "desk_inv P e \<Longrightarrow> set d \<subseteq> set (en_cols e) \<Longrightarrow>
   same_tables e (fold (fail_one t msg) d e) \<and> en_sched (fold (fail_one t msg) d e) = en_sched e \<and> desk_inv P (fold (fail_one t msg) d e) \<and>
   en_set (fold (fail_one t msg) d e) = snd ` set d \<union> en_set e"
proof (induction d arbitrary: e)
  case (Cons x d)
  obtain rid n where x: "x = (rid, n)" by fastforce
  have m: "(rid, n) \<in> set (en_cols e)" using Cons.prems(2) x by simp
  note S = fail_one_same [OF Cons.prems(1) m, of t msg]
  have "en_cols (fail_one t msg (rid, n) e) = en_cols e" using S(1) by (simp add: same_tables_def)
  then have "set d \<subseteq> set (en_cols (fail_one t msg (rid, n) e))" using Cons.prems(2) by simp
  from Cons.IH [OF S(3) this] S(1,2,4) show ?case using same_trans x by auto
qed simp

lemma abort_fold:
  "fold (abort_in_scheduler env) ids e = e\<lparr>en_sched := fold (\<lambda>rid s. fst (abort_request env rid s)) ids (en_sched e)\<rparr>"
  by (induction ids arbitrary: e) (simp_all add: abort_in_scheduler_def)

end
