(* ===== verification/Engine_Reach.thy ===== *)
theory Engine_Reach
  imports Engine_Inv
begin

text \<open>
  The engine's loop keeps the invariant, and with it every state the clients, the loop and the consumers can reach
  together; the properties of these states.
\<close>

section \<open>Failure of the loop\<close>

text \<open>The loop's failure tells everybody and empties the scheduler, in whatever state it finds them.\<close>

lemma fail_active_fields:
  assumes "desk_inv P e" "books (en_sched e)"
  shows "same_tables e (fail_active_requests env t msg e)" "desk_inv P (fail_active_requests env t msg e)"
    "en_set (fail_active_requests env t msg e) = snd ` set (en_cols e) \<union> en_set e"
    "sc_requests (en_sched (fail_active_requests env t msg e)) = []"
    "sched_inv nu (en_sched e) \<Longrightarrow> sched_inv nu (en_sched (fail_active_requests env t msg e))"
proof -
  define a where "a = fold (fail_one t msg) (en_cols e) e"
  note A = fail_all [OF assms(1), of "en_cols e" t msg, folded a_def, simplified]
  define ids where "ids = pd_keys (sc_running (en_sched e)) @ map (\<lambda>i. request_id (the_req (en_sched e) i)) (sc_waiting (en_sched e))"
  let ?s = "fold (\<lambda>rid s. fst (abort_request env rid s)) ids (en_sched e)"
  have f: "fail_active_requests env t msg e = a\<lparr>en_sched := ?s\<rparr>"
    using A by (simp add: fail_active_requests_def Let_def a_def [symmetric] ids_def [symmetric] abort_fold del: fold_append)
  have es: "en_sched (fail_active_requests env t msg e) = ?s" unfolding f by (simp del: fold_append)
  have st: "same_tables a (a\<lparr>en_sched := x\<rparr>)" for x by (simp add: same_tables_def)
  show "same_tables e (fail_active_requests env t msg e)" unfolding f using same_trans [OF _ st] A by blast
  have d: "desk_inv P a" using A by blast
  show "desk_inv P (fail_active_requests env t msg e)" unfolding f by (rule desk_inv_same [OF d st]) simp
  show "en_set (fail_active_requests env t msg e) = snd ` set (en_cols e) \<union> en_set e" unfolding f using A by simp
  have "fst ` set (sc_requests ?s) = fst ` set (sc_requests (en_sched e)) - set ids" by (rule abort_all)
  also have "\<dots> = {}" using books_known [OF assms(2), folded ids_def] by (simp only: Diff_eq_empty_iff)
  finally have "fst ` set (sc_requests ?s) = {}" .
  then have "sc_requests ?s = []" by simp
  then show "sc_requests (en_sched (fail_active_requests env t msg e)) = []" unfolding es .
  show "sched_inv nu (en_sched e) \<Longrightarrow> sched_inv nu (en_sched (fail_active_requests env t msg e))" 
    unfolding es by (rule inv_abort_all)
qed

lemma inv_fail:
  assumes "desk_inv P e" "sched_inv nu (en_sched e)" "en_fence e" "en_cleaning e = None"
  shows "engine_inv nu P (fail_active_requests env t msg e)"
proof -
  let ?a = "fail_active_requests env t msg e"
  have b: "books (en_sched e)" using assms(2) by (simp add: sched_inv_def)
  note F = fail_active_fields [OF assms(1) b, where env = env and t = t and msg = msg]
  have r: "rest_of ?a = rest_of e" using F(1) by (simp add: same_tables_def)
  note R = rest_fields [OF r]
  have c: "cleaning_ids ?a = {}" using assms(4) R by (simp add: cleaning_ids_def)
  show ?thesis
  proof (rule engine_invI)
    show "ended_are (cleaning_ids ?a) (en_sched ?a)" unfolding c by (rule ended_are_nothing [OF F(4)])
    show "all_served ?a" using F(4) by (simp add: all_served_def)
  qed (use F(2,5) desk_invD [OF F(2)] assms R in auto)
qed

section \<open>The rounds of the loop\<close>

lemma inv_locals: "engine_inv nu P e \<Longrightarrow> engine_inv nu P (e\<lparr>en_orphans := [], en_first_seen := []\<rparr>)"
  by (simp add: engine_inv_def desk_ok_def answered_def all_served_def cleaning_ids_def)

lemma inv_desk: "engine_inv nu P e \<Longrightarrow> desk_inv P e"
  by (simp add: engine_inv_def desk_inv_def)

lemma desk_sched [simp]:
  "desk_inv P (e\<lparr>en_sched := s\<rparr>) = desk_inv P e" "desk_inv P (e\<lparr>en_fence := x\<rparr>) = desk_inv P e" "desk_inv P (e\<lparr>en_cleaning := y\<rparr>) = desk_inv P e"
  "desk_inv P (e\<lparr>en_steps := z\<rparr>) = desk_inv P e" "desk_inv P (e\<lparr>en_ghost_counter := k\<rparr>) = desk_inv P e" "desk_inv P (e\<lparr>en_opened := j\<rparr>) = desk_inv P e"
  "desk_inv P (e\<lparr>en_running := i\<rparr>) = desk_inv P e"
  by (simp_all add: desk_inv_def desk_ok_def answered_def)

lemma set_fence_fields [simp]:
  "en_fence (set_fence e)" "en_cleaning (set_fence e) = en_cleaning e" "en_sched (set_fence e) = en_sched e"
  "desk_inv P (set_fence e) = desk_inv P e" "en_cols (set_fence e) = en_cols e" "en_running (set_fence e) = en_running e"
  by (simp_all add: set_fence_def)

lemma inv_loop_failed:
  assumes "desk_inv P e" "sched_inv nu (en_sched e)" "en_cleaning e = None"
  shows "engine_inv nu P (loop_failed env t msg e)"
  unfolding loop_failed_def by (rule inv_locals, rule inv_fail) (use assms in simp_all)

text \<open>No running request is without a collector, so the search for ghosts finds none.\<close>

lemma no_ghosts:
  assumes "fst ` set (sc_running (en_sched e)) \<subseteq> fst ` set (en_cols e)"
  shows "\<exists>k. ghost_check env e = e\<lparr>en_ghost_counter := k\<rparr>"
proof -
  have "filter (\<lambda>rid. rid \<notin> fst ` set (en_cols e)) (pd_keys (sc_running (en_sched e))) = []"
    using assms by (auto simp: filter_empty_conv)
  then show ?thesis by (auto simp: ghost_check_def Let_def)
qed

lemma idle_changes: "\<exists>c y. fst (run_one_idle_task (idle_call task) s) = s\<lparr>sc_idle := y, sc_cache := c\<rparr>"
proof (cases "sc_idle s")
  case Nil
  have "fst (run_one_idle_task (idle_call task) s) = s" by (simp add: run_one_idle_task_def Nil)
  also have "\<dots> = s\<lparr>sc_idle := sc_idle s, sc_cache := sc_cache s\<rparr>" by simp
  finally show ?thesis by (intro exI)
next
  case (Cons x rest)
  obtain name f where x: "x = (name, f)" by fastforce
  obtain c res where c: "task f (sc_cache s) = (c, res)" by fastforce
  have "fst (run_one_idle_task (idle_call task) s) =
      s\<lparr>sc_idle := if res = PARKED then (name, f) # rest else rest, sc_cache := c\<rparr>"
    by (simp add: run_one_idle_task_def idle_call_def Cons x c)
  then show ?thesis by blast
qed

context finishing_generator
begin

lemma inv_loop_round:
  assumes "engine_inv nu P e" "en_cleaning e = None" "en_running e"
  shows "engine_inv nu P (loop_round env retries task t e)"
proof -
  note D = engine_invD [OF assms(1)]
  have c: "cleaning_ids e = {}" using assms(2) by (simp add: cleaning_ids_def)
  consider (idle) "\<not> has_requests (en_sched e)" "has_idle_tasks (en_sched e)" | (rest) "\<not> has_requests (en_sched e)" "\<not> has_idle_tasks (en_sched e)"
    | (step) "has_requests (en_sched e)" by blast
  then show ?thesis
  proof cases
    case idle
    let ?s = "fst (run_one_idle_task (idle_call task) (en_sched e))"
    obtain c y where s: "?s = (en_sched e)\<lparr>sc_idle := y, sc_cache := c\<rparr>" using idle_changes [of task "en_sched e"] by blast
    have "sched_inv nu ?s" unfolding s inv_admitting(3) by (rule D(1))
    then show ?thesis using inv_sched_frame [OF assms(1)] idle s by (simp add: loop_round_def)
  next
    case rest
    then show ?thesis using assms(1) by (simp add: loop_round_def)
  next
    case step
    obtain s res where st: "sched_step env retries True (en_sched e) = (s, res)" by fastforce
    note I = inv_step [OF D(1) st]
    show ?thesis
    proof (cases res)
      case (Inl x)
      have "engine_inv nu P (loop_failed env t (er_text x) (e\<lparr>en_sched := s\<rparr>))"
        using inv_desk [OF assms(1)] I assms(2) by (intro inv_loop_failed) simp_all
      then show ?thesis using step st Inl by (simp add: loop_round_def)
    next
      case (Inr out)
      have "all_live (en_sched e)" using D(2) c by (simp add: ended_are_empty)
      note S = step_ends [OF D(1) this st [unfolded Inr]]
      have known: "fst ` set (sc_requests s) \<subseteq> fst ` set (en_cols e)" using D(5) c S by (simp add: all_served_def)
      define e2 where "e2 = (if so_finished out \<noteq> [] then e\<lparr>en_sched := s, en_steps := en_steps e + 1, en_fence := False\<rparr>
          else e\<lparr>en_sched := s, en_steps := en_steps e + 1\<rparr>)"
      have E2: "en_sched e2 = s" "en_cols e2 = en_cols e" "desk_inv P e2" "en_cleaning e2 = None" "en_running e2 = en_running e"
        "en_fence e2 = (so_finished out = [])"
        using inv_desk [OF assms(1)] D(6) assms(2) by (simp_all add: e2_def)
      have "books s" using I by (simp add: sched_inv_def)
      from books_run_known [OF this] have "run_ids s \<subseteq> fst ` set (sc_requests s)" by (intro subsetI) simp
      then have "fst ` set (sc_running (en_sched e2)) \<subseteq> fst ` set (en_cols e2)" unfolding E2(1,2) using known by (rule subset_trans)
      from no_ghosts [OF this, of env] obtain k where g: "ghost_check env e2 = e2\<lparr>en_ghost_counter := k\<rparr>" ..
      let ?g = "e2\<lparr>en_ghost_counter := k\<rparr>"
      have "list_all (\<lambda>x. ro_request_id x \<in> fst ` set (sc_requests (en_sched e))) (so_outputs out)" using I Inr by simp
      then have o: "list_all (\<lambda>x. ro_request_id x \<in> fst ` set (en_cols ?g)) (so_outputs out)"
        using D(5) c E2(2) by (auto simp: all_served_def list_all_iff)
      have dg: "desk_inv P ?g" using E2(3) by simp
      let ?e3 = "fold (distribute_output env t) (so_outputs out) ?g"
      note A = distribute_all [OF dg o, of env t]
      have r: "rest_of ?e3 = rest_of e2" "en_cols ?e3 = en_cols e" "en_sched ?e3 = s"
        using A E2 unfolding same_tables_def by simp_all
      note R = rest_fields [OF r(1)]
      let ?e4 = "if so_finished out \<noteq> [] then ?e3\<lparr>en_cleaning := Some (so_finished out)\<rparr> else ?e3"
      let ?raw = "fold (distribute_output env t) (so_outputs out) (ghost_check env e2)"
      have "loop_round env retries task t e = (if so_finished out \<noteq> [] then ?raw\<lparr>en_cleaning := Some (so_finished out)\<rparr> else ?raw)"
        unfolding e2_def using step st Inr by (simp add: loop_round_def Let_def)
      then have e4: "loop_round env retries task t e = ?e4" unfolding g .
      have cl: "cleaning_ids ?e4 = set (so_finished out)" using R E2(4) by (simp add: cleaning_ids_def)
      have f4: "en_sched ?e4 = s" "en_cols ?e4 = en_cols e" "desk_inv P ?e4" "en_fence ?e4 = (en_cleaning ?e4 = None)"
        "en_running ?e4 = en_running e" using r A R E2 by simp_all
      show ?thesis unfolding e4
      proof (rule engine_invI)
        show "ended_are (cleaning_ids ?e4) (en_sched ?e4)" unfolding cl f4(1) using S by blast
        show "all_served ?e4" unfolding all_served_def f4(1,2) using known by blast
      qed (use f4 I desk_invD [OF f4(3)] assms(3) in simp_all)
    qed
  qed
qed

end

section \<open>Clean-up, start, stop and close\<close>

lemma cleanup_requests_get:
  "pd_get (sc_requests (cleanup_finished env ids s)) rid = (if rid \<in> set ids then None else pd_get (sc_requests s) rid)"
proof -
  have one: "sc_requests (cleanup_one env sv r a) = pd_del (sc_requests a) r" for sv r a
  proof -
    have "sc_requests (release_finished env sv r i b) = sc_requests b" for i b using queues_fields [OF release_frame(1)] by blast
    then show ?thesis by (simp add: cleanup_one_def Let_def split: option.split)
  qed
  have "pd_get (sc_requests (fold (cleanup_one env sv) xs a)) rid = (if rid \<in> set xs then None else pd_get (sc_requests a) rid)" for sv xs a
    by (induction xs arbitrary: a) (simp_all add: one)
  then show ?thesis by (simp add: cleanup_finished_def)
qed

context generator_contract
begin

lemma inv_loop_cleanup:
  assumes "engine_inv nu P e"
  shows "engine_inv nu P (loop_cleanup env e)"
proof (cases "en_cleaning e")
  case None
  then show ?thesis using assms by (simp add: loop_cleanup_def)
next
  case (Some ids)
  note D = engine_invD [OF assms]
  let ?s = "cleanup_finished env ids (en_sched e)"
  let ?a = "e\<lparr>en_sched := ?s, en_cleaning := None\<rparr>"
  have c: "cleaning_ids e = set ids" using Some by (simp add: cleaning_ids_def)
  have "list_all (\<lambda>rid. pd_get (sc_running (en_sched e)) rid = pd_get (sc_requests (en_sched e)) rid) ids"
    using D(2) books_ofD(7) [OF D(10)] unfolding c ended_are_def list_all_iff by (metis not_None_eq)
  note C = inv_cleanup [OF D(1) this]
  have live: "all_live ?s" using D(2) unfolding all_live_def cleanup_objs cleanup_requests_get c ended_are_def by (auto split: if_splits)
  have sv: "fst ` set (sc_requests ?s) \<subseteq> fst ` set (en_cols e)" using C D(5) c by (auto simp: all_served_def)
  have "engine_inv nu P (set_fence ?a)"
  proof (rule engine_invI)
    show "ended_are (cleaning_ids (set_fence ?a)) (en_sched (set_fence ?a))" using live by (simp add: cleaning_ids_def ended_are_empty)
    show "all_served (set_fence ?a)" using le_supI1 [OF sv] by (simp add: all_served_def)
  qed (use C inv_desk [OF assms] desk_invD [of P "set_fence ?a"] in simp_all)
  then show ?thesis using Some by (simp add: loop_cleanup_def)
qed

end

lemma inv_start_engine: "engine_inv nu P e \<Longrightarrow> engine_inv nu P (start_engine e)"
  by (auto simp: start_engine_def engine_inv_def desk_ok_def answered_def all_served_def cleaning_ids_def)

lemma inv_shutdown: "engine_inv nu P e \<Longrightarrow> engine_inv nu P (shutdown e)"
proof -
  assume i: "engine_inv nu P e"
  have "sched_inv nu ((en_sched e)\<lparr>sc_idle := []\<rparr>)" using engine_invD(1) [OF i] by (simp add: inv_admitting)
  then have "engine_inv nu P (e\<lparr>en_shut := True, en_sched := (en_sched e)\<lparr>sc_idle := []\<rparr>\<rparr>)"
    by (intro inv_sched_frame) (simp_all add: i)
  with i show ?thesis by (simp add: shutdown_def)
qed

lemma inv_stop_engine:
  assumes "engine_inv nu P e"
  shows "engine_inv nu P (stop_engine env t caught e)"
proof -
  let ?a = "fail_active_requests env t ''Engine cancelled'' (set_fence (e\<lparr>en_cleaning := None\<rparr>))"
  have i: "engine_inv nu P ?a"
    by (rule inv_fail) (use inv_desk [OF assms] engine_invD(1) [OF assms] in simp_all)
  have "rest_of ?a = rest_of (set_fence (e\<lparr>en_cleaning := None\<rparr>))"
    using fail_active_fields(1) [of P "set_fence (e\<lparr>en_cleaning := None\<rparr>)" env t "''Engine cancelled''"] inv_desk [OF assms] engine_invD(10) [OF assms]
    by (simp add: same_tables_def)
  then have "en_cleaning ?a = None" using rest_fields by fastforce
  then have "engine_inv nu P (?a\<lparr>en_running := False\<rparr>)"
    using i by (simp add: engine_inv_def desk_ok_def answered_def all_served_def cleaning_ids_def)
  moreover have "engine_inv nu P (e\<lparr>en_running := False\<rparr>)" if "en_cleaning e = None"
    using assms that by (simp add: engine_inv_def desk_ok_def answered_def all_served_def cleaning_ids_def)
  ultimately show ?thesis
    using inv_shutdown [OF assms] inv_shutdown [of nu P "?a\<lparr>en_running := False\<rparr>"] inv_shutdown [of nu P "e\<lparr>en_running := False\<rparr>"]
    by (simp add: stop_engine_def Let_def)
qed

lemma clear_aggregate: "col_aggregate (cols (fold (\<lambda>n c. col_clear c n) ns os) m) = col_aggregate (cols os m)"
  by (induction ns arbitrary: os) (auto simp: col_clear_def Let_def upd_col_get)

lemma inv_close_engine:
  assumes "engine_inv nu P e" "en_cleaning e = None"
  shows "engine_inv nu P (close_engine env e)"
proof (cases "en_closed e")
  case False
  note D = engine_invD [OF assms(1)]
  define e1 where "e1 = shutdown (e\<lparr>en_closed := True\<rparr>)"
  have f: "en_cleaning e1 = None" "en_fence e1 = en_fence e" "en_running e1 = en_running e" "en_orphans e1 = []" "en_first_seen e1 = []"
    "en_set e1 = en_set e" "en_next e1 = en_next e" "en_objs e1 = en_objs e"
    using assms(2) D(8,9) by (simp_all add: e1_def shutdown_def)
  have r: "sc_requests (reset env s) = []" for s by (simp add: reset_def Let_def)
  have d: "n < en_next e" if "n \<in> en_set e" for n using D(3) that unfolding desk_ok_def by blast
  have a: "col_aggregate (cols (en_objs e) n)" for n using D(3) unfolding desk_ok_def by blast
  have "engine_inv nu P (e1\<lparr>en_sched := reset env (en_sched e1), en_objs := fold (\<lambda>n c. col_clear c n) (map snd (en_cols e1)) (en_objs e1),
      en_cols := [], en_states := [], en_events := []\<rparr>)"
    using f D(6) d a assms(2)
    by (simp add: engine_inv_def inv_reset ended_are_nothing r desk_ok_def answered_def all_served_def cleaning_ids_def clear_aggregate)
  then show ?thesis using False by (simp add: close_engine_def Let_def e1_def)
qed (use assms in \<open>simp add: close_engine_def\<close>)

section \<open>Consumers\<close>

text \<open>A consumer that reads collectors of \<open>P\<close> only.\<close>

lemma inv_objs:
  assumes "engine_inv nu P e" "\<And>m. m \<notin> P \<Longrightarrow> col_output (cols os m) = col_output (cols (en_objs e) m)"
    "\<And>m. col_aggregate (cols os m) = col_aggregate (cols (en_objs e) m)"
  shows "engine_inv nu P (e\<lparr>en_objs := os\<rparr>)"
  using assms by (simp add: engine_inv_def desk_ok_def answered_def all_served_def cleaning_ids_def)

lemma get_enter_cols: "col_output (cols (get_enter os n) m) = col_output (cols os m)" "col_aggregate (cols (get_enter os n) m) = col_aggregate (cols os m)"
  by (simp_all add: get_enter_def upd_col_get)

lemma nowait_aggregate: "col_get_nowait c = (r, c1) \<Longrightarrow> col_aggregate c1 = col_aggregate c"
  by (auto simp: col_get_nowait_def split: option.splits)

lemma get_test_cols:
  assumes "get_test os n = (r, os1)"
  shows "m \<noteq> n \<Longrightarrow> cols os1 m = cols os m" "col_aggregate (cols os1 m) = col_aggregate (cols os m)"
  using assms nowait_aggregate [of "cols os n"]
  by (auto simp: get_test_def get_leave_def Let_def upd_col_get split: if_splits prod.splits option.splits)

context generator_contract
begin

lemma inv_yield:
  assumes "engine_inv nu P e"
  shows "engine_inv nu P (fst (snd (yield_output env t out c e)))"
  using assms inv_cleanup_request [OF assms] by (simp add: yield_output_def end_stream_def)

lemma inv_stream_turn:
  assumes "engine_inv nu P e" "st_col c \<in> P"
  shows "engine_inv nu P (fst (snd (stream_turn env t c e)))"
proof (cases "st_phase c")
  case Polling
  obtain r k where g: "col_get_nowait (cols (en_objs e) (st_col c)) = (r, k)" by fastforce
  have i1: "engine_inv nu P (e\<lparr>en_objs := get_enter (en_objs e) (st_col c)\<rparr>)" by (rule inv_objs [OF assms(1)]) (simp_all add: get_enter_cols)
  have i2: "engine_inv nu P (e\<lparr>en_objs := upd_col (en_objs e) (st_col c) k\<rparr>)"
    by (rule inv_objs [OF assms(1)]) (use assms(2) nowait_aggregate [OF g] in \<open>auto simp: upd_col_get\<close>)
  show ?thesis using i1 inv_yield [OF i2] Polling g by (cases r) (simp_all add: stream_turn_def)
next
  case Blocked
  obtain r os where g: "get_test (en_objs e) (st_col c) = (r, os)" by fastforce
  have n: "cols os m = cols (en_objs e) m" if "m \<notin> P" for m using get_test_cols(1) [OF g, of m] assms(2) that by auto
  have i: "engine_inv nu P (e\<lparr>en_objs := os\<rparr>)" by (rule inv_objs [OF assms(1)]) (simp_all add: n get_test_cols(2) [OF g])
  show ?thesis using assms(1) inv_yield [OF i] inv_cleanup_request [OF i] Blocked g by (cases r) (simp_all add: stream_turn_def end_stream_def)
next
  case (Fenced out k)
  then show ?thesis using assms(1) inv_cleanup_request [OF assms(1)] by (simp add: stream_turn_def end_stream_def)
qed (use assms in \<open>simp add: stream_turn_def\<close>)

end

lemma inv_generate_result:
  assumes "engine_inv nu P e" "pd_get (en_cols e) rid = Some n" "n \<in> P"
  shows "engine_inv nu P (fst (generate_result rid e))"
proof -
  obtain r c where g: "col_get_nowait (cols (en_objs e) n) = (r, c)" by fastforce
  have "engine_inv nu P (e\<lparr>en_objs := upd_col (en_objs e) n c\<rparr>)"
    by (rule inv_objs [OF assms(1)]) (use assms(3) nowait_aggregate [OF g] in \<open>auto simp: upd_col_get\<close>)
  then show ?thesis using assms(1,2) g by (cases r) (simp_all add: generate_result_def)
qed

end
