(* ===== verification/Engine_Props.thy ===== *)
theory Engine_Props
  imports Engine_Reach
begin

text \<open>
  Every interleaving of the clients, the loop and the consumers: one action at a time, each the code between two awaits.
  The properties of the states they reach.
\<close>

section \<open>Actions\<close>

datatype action = Add sched_request | Resume nat | Cancel_Add nat | Abort string | Turn | Start | Stop bool | Close | Read public_stream | Generate string

definition act ::
  "('g, 'c) sched_env \<Rightarrow> nat \<Rightarrow> (nat \<Rightarrow> 'c \<Rightarrow> 'c \<times> idle_result) \<Rightarrow> clock \<Rightarrow> action \<Rightarrow> ('g, 'c) engine \<Rightarrow> ('g, 'c) engine" where
  "act env retries task t a e =
     (case a of
        Add o1 \<Rightarrow> fst (begin_add env t o1 e)
      | Resume k \<Rightarrow> resume_add env t k e
      | Cancel_Add k \<Rightarrow> cancel_add k e
      | Abort rid \<Rightarrow> fst (abort_engine_request env t rid e)
      | Turn \<Rightarrow> engine_turn env retries task t e
      | Start \<Rightarrow> start_engine e
      | Stop caught \<Rightarrow> stop_engine env t caught e
      | Close \<Rightarrow> close_engine env e
      | Read c \<Rightarrow> fst (snd (stream_turn env t c e))
      | Generate rid \<Rightarrow> fst (generate_result rid e))"

text \<open>
  A request object is new when it is added; the engine is not closed in the middle of a clean-up; streams and
  \<open>generate\<close> read collectors of \<open>P\<close>.
\<close>

definition admissible :: "nat set \<Rightarrow> action \<Rightarrow> ('g, 'c) engine \<Rightarrow> bool" where
  "admissible P a e =
     (case a of
        Add o1 \<Rightarrow> status (rq o1) = WAITING
      | Close \<Rightarrow> en_cleaning e = None
      | Read c \<Rightarrow> st_col c \<in> P
      | Generate rid \<Rightarrow> (case pd_get (en_cols e) rid of None \<Rightarrow> True | Some n \<Rightarrow> n \<in> P)
      | _ \<Rightarrow> True)"

inductive engine_reach ::
  "('g, 'c) sched_env \<Rightarrow> nat \<Rightarrow> (nat \<Rightarrow> 'c \<Rightarrow> 'c \<times> idle_result) \<Rightarrow> nat set \<Rightarrow> ('g, 'c) engine \<Rightarrow> ('g, 'c) engine \<Rightarrow> bool"
  for env :: "('g, 'c) sched_env" and retries task P e0 where
  here: "engine_reach env retries task P e0 e0"
| after: "engine_reach env retries task P e0 e \<Longrightarrow> admissible P a e \<Longrightarrow> engine_reach env retries task P e0 (act env retries task t a e)"

section \<open>What an action leaves alone\<close>

lemma deliver_rest [simp]: "rest_of (deliver t n out e) = rest_of e" "en_cols (deliver t n out e) = en_cols e" "en_sched (deliver t n out e) = en_sched e"
    "en_events (deliver t n out e) = en_events e" "en_set (deliver t n out e) = en_set e"
  by (simp_all add: deliver_def split: option.split prod.split)

lemma forget_rest [simp]: "rest_of (forget_orphan r e) = rest_of e" "en_cols (forget_orphan r e) = en_cols e" "en_events (forget_orphan r e) = en_events e"
    "en_set (forget_orphan r e) = en_set e" "en_objs (forget_orphan r e) = en_objs e" "en_sched (forget_orphan r e) = en_sched e"
  by (simp_all add: forget_orphan_def)

lemma orphan_rest [simp]: "rest_of (count_orphan env t r e) = rest_of e" "en_cols (count_orphan env t r e) = en_cols e"
    "en_events (count_orphan env t r e) = en_events e" "en_set (count_orphan env t r e) = en_set e" "en_objs (count_orphan env t r e) = en_objs e"
  by (simp_all add: count_orphan_def Let_def)

lemma distribute_rest: "rest_of (distribute_output env t out e) = rest_of e" "en_cols (distribute_output env t out e) = en_cols e"
    "en_events (distribute_output env t out e) = en_events e"
  by (simp_all add: distribute_output_def Let_def split: option.split)

lemma distribute_fold_rest: "rest_of (fold (distribute_output env t) outs e) = rest_of e \<and> en_cols (fold (distribute_output env t) outs e) = en_cols e \<and>
    en_events (fold (distribute_output env t) outs e) = en_events e"
  by (induction outs arbitrary: e) (simp_all add: distribute_rest)

lemma abort_fold_rest: "rest_of (fold (abort_in_scheduler env) ids e) = rest_of e" "en_cols (fold (abort_in_scheduler env) ids e) = en_cols e"
    "en_events (fold (abort_in_scheduler env) ids e) = en_events e" "en_objs (fold (abort_in_scheduler env) ids e) = en_objs e"
    "en_set (fold (abort_in_scheduler env) ids e) = en_set e"
  by (induction ids arbitrary: e) simp_all

lemma ghost_rest: "rest_of (ghost_check env e) = rest_of e" "en_cols (ghost_check env e) = en_cols e" "en_events (ghost_check env e) = en_events e"
    "en_objs (ghost_check env e) = en_objs e" "en_set (ghost_check env e) = en_set e"
  by (simp_all add: ghost_check_def Let_def abort_fold_rest)

lemma fail_one_rest: "rest_of (fail_one t msg x e) = rest_of e" "en_cols (fail_one t msg x e) = en_cols e" "en_events (fail_one t msg x e) = en_events e"
  by (simp_all add: fail_one_def Let_def split: option.split)

lemma fail_fold_rest: "rest_of (fold (fail_one t msg) d e) = rest_of e \<and> en_cols (fold (fail_one t msg) d e) = en_cols e \<and>
    en_events (fold (fail_one t msg) d e) = en_events e"
  by (induction d arbitrary: e) (simp_all add: fail_one_rest)

lemma fail_active_rest: "rest_of (fail_active_requests env t msg e) = rest_of e" "en_cols (fail_active_requests env t msg e) = en_cols e"
    "en_events (fail_active_requests env t msg e) = en_events e"
  by (simp_all add: fail_active_requests_def Let_def abort_fold_rest fail_fold_rest del: fold_append)

lemma round_tables: "en_cols (loop_round env retries task t e) = en_cols e" "en_waiters (loop_round env retries task t e) = en_waiters e"
    "en_next (loop_round env retries task t e) = en_next e"
proof -
  have f: "en_cols (loop_failed env t msg a) = en_cols a \<and> en_waiters (loop_failed env t msg a) = en_waiters a \<and> en_next (loop_failed env t msg a) = en_next a"
    for msg and a :: "('a, 'b) engine"
    using rest_fields [OF fail_active_rest(1) [of env t msg "set_fence a"]] by (simp add: loop_failed_def fail_active_rest) (simp add: set_fence_def)
  have d: "en_waiters (fold (distribute_output env t) outs (ghost_check env a)) = en_waiters a \<and>
      en_next (fold (distribute_output env t) outs (ghost_check env a)) = en_next a" for outs and a :: "('a, 'b) engine"
    using rest_fields [of "fold (distribute_output env t) outs (ghost_check env a)" a] by (simp add: distribute_fold_rest ghost_rest)
  show "en_cols (loop_round env retries task t e) = en_cols e" "en_waiters (loop_round env retries task t e) = en_waiters e"
    "en_next (loop_round env retries task t e) = en_next e"
    by (simp_all add: loop_round_def Let_def f d distribute_fold_rest ghost_rest split: prod.split sum.split)
qed

lemma turn_tables: "en_cols (engine_turn env retries task t e) = en_cols e" "en_waiters (engine_turn env retries task t e) = en_waiters e"
  by (simp_all add: engine_turn_def round_tables loop_cleanup_def set_fence_def split: option.split)

lemma stop_tables: "en_cols (stop_engine env t caught e) = en_cols e" "en_waiters (stop_engine env t caught e) = en_waiters e"
  using rest_fields [OF fail_active_rest(1) [of env t "''Engine cancelled''" "set_fence (e\<lparr>en_cleaning := None\<rparr>)"]]
  by (simp_all add: stop_engine_def shutdown_def Let_def fail_active_rest set_fence_def)

section \<open>The invariant in every reachable state\<close>

definition waiters_fresh :: "('g, 'c) engine \<Rightarrow> bool" where
  "waiters_fresh e \<longleftrightarrow> list_all (\<lambda>w. status (rq (fst w)) = WAITING) (en_waiters e)"

lemma cleanup_waiters: "en_waiters (cleanup_request env t rid e) = en_waiters e"
  using rest_fields [OF cleanup_fields(6)] by blast

lemma finish_waiters: "en_waiters (fst (finish_add env t o1 e)) = en_waiters e"
  by (simp add: finish_add_def register_request_def end_admission_def cleanup_waiters Let_def split: prod.split sum.split)

lemma drop_waiters: "waiters_fresh e \<Longrightarrow> waiters_fresh (drop_waiter k e)"
  by (auto simp: waiters_fresh_def drop_waiter_def list_all_iff dest: in_set_takeD in_set_dropD)

lemma yield_waiters: "en_waiters (fst (snd (yield_output env t out c e))) = en_waiters e"
  by (simp add: yield_output_def end_stream_def cleanup_waiters)

lemma stream_waiters: "en_waiters (fst (snd (stream_turn env t c e))) = en_waiters e"
  by (simp add: stream_turn_def end_stream_def cleanup_waiters yield_waiters split: phase.split prod.split option.split get_result.split)

lemma act_fresh: "waiters_fresh e \<Longrightarrow> admissible P a e \<Longrightarrow> waiters_fresh (act env retries task t a e)"
proof (cases a)
  case (Add o1)
  assume w: "waiters_fresh e" "admissible P a e"
  let ?e = "e\<lparr>en_sched := begin_foreground_admission (request_id (rq o1)) (en_sched e)\<rparr>"
  show ?thesis using w Add finish_waiters [of env t o1 ?e]
    by (cases "finish_add env t o1 ?e") (simp add: act_def begin_add_def Let_def waiters_fresh_def admissible_def)
next
  case (Resume k)
  assume w: "waiters_fresh e"
  show ?thesis using drop_waiters [OF w, of k] w unfolding Resume
    by (simp add: act_def resume_add_def waiters_fresh_def finish_waiters)
next
  case (Cancel_Add k)
  assume w: "waiters_fresh e"
  show ?thesis using drop_waiters [OF w, of k] w unfolding Cancel_Add
    by (simp add: act_def cancel_add_def waiters_fresh_def end_admission_def)
next
  case (Generate rid)
  assume w: "waiters_fresh e"
  show ?thesis using w Generate by (simp add: act_def generate_result_def waiters_fresh_def split: option.split prod.split)
qed (simp_all add: act_def waiters_fresh_def abort_engine_request_def cleanup_waiters turn_tables stop_tables start_engine_def close_engine_def
    shutdown_def Let_def stream_waiters)

context finishing_generator
begin

lemma inv_turn: "engine_inv nu P e \<Longrightarrow> engine_inv nu P (engine_turn env retries task t e)"
  using inv_loop_round inv_loop_cleanup by (simp add: engine_turn_def)

lemma inv_act:
  assumes "engine_inv nu P e" "waiters_fresh e" "admissible P a e"
  shows "engine_inv nu P (act env retries task t a e)"
proof (cases a)
  case (Resume k)
  have "status (rq (fst (en_waiters e ! k))) = WAITING" if "k < length (en_waiters e)"
    using assms(2) nth_mem [OF that] by (simp add: waiters_fresh_def list_all_iff)
  then show ?thesis unfolding Resume
    using assms(1) inv_finish_add [OF inv_drop_waiter [OF assms(1)]] by (simp add: act_def resume_add_def)
next
  case (Generate rid)
  show ?thesis
  proof (cases "pd_get (en_cols e) rid")
    case None
    then show ?thesis using assms(1) Generate by (simp add: act_def generate_result_def)
  next
    case (Some n)
    then show ?thesis using inv_generate_result [OF assms(1) Some] assms(3) Generate by (simp add: act_def admissible_def)
  qed
qed (use assms(1,3) inv_begin_add [OF assms(1)] inv_cancel_add [OF assms(1)] inv_cleanup_request [OF assms(1)] inv_turn [OF assms(1)]
    inv_start_engine [OF assms(1)] inv_stop_engine [OF assms(1)] inv_close_engine [OF assms(1)] inv_stream_turn [OF assms(1)]
    in \<open>simp_all add: act_def admissible_def abort_engine_request_def\<close>)

lemma reach_engine_inv:
  "engine_reach env retries task P e0 e \<Longrightarrow> engine_inv nu P e0 \<Longrightarrow> waiters_fresh e0 \<Longrightarrow> engine_inv nu P e \<and> waiters_fresh e"
  by (induction rule: engine_reach.induct) (simp_all add: inv_act act_fresh)

end

lemma inv_new_engine: "engine_inv nu P (new_engine interval (new_scheduler stops seqs paged c mch pld hyb temp)) \<and>
    waiters_fresh (new_engine interval (new_scheduler stops seqs paged c mch pld hyb temp))"
  using inv_start_state [of nu stops seqs paged c mch pld hyb temp]
  by (simp add: engine_inv_def new_engine_def desk_ok_def answered_def all_served_def cleaning_ids_def waiters_fresh_def new_collector_def
      ended_are_def, simp add: new_scheduler_def)

text \<open>The engine over a scheduler with the single-request generator.\<close>

lemmas reach_inv = fg.reach_engine_inv [OF _ inv_new_engine [THEN conjunct1] inv_new_engine [THEN conjunct2], THEN conjunct1]

section \<open>What happens to a collector\<close>

text \<open>A consumer is told when its collector holds a finished output, or was cancelled so that \<open>get\<close> raises.\<close>

definition told :: "collector \<Rightarrow> bool" where
  "told c \<longleftrightarrow> (case col_output c of None \<Rightarrow> False | Some out \<Rightarrow> ro_finished out) \<or> col_cancelled c"

text \<open>The id an action registers.\<close>

definition registers :: "action \<Rightarrow> ('g, 'c) engine \<Rightarrow> string option" where
  "registers a e =
     (case a of
        Add o1 \<Rightarrow> if en_fence e then Some (request_id (rq o1)) else None
      | Resume k \<Rightarrow> if k < length (en_waiters e) \<and> snd (en_waiters e ! k) < en_opened e then Some (request_id (rq (fst (en_waiters e ! k)))) else None
      | _ \<Rightarrow> None)"

lemma finish_cols:
  "en_cols (fst (finish_add env t o1 e)) =
     (case snd (finish_add env t o1 e) of
        Inr _ \<Rightarrow> pd_set (en_cols e) (request_id (rq o1)) (en_next e)
      | Inl _ \<Rightarrow> pd_del (pd_set (en_cols e) (request_id (rq o1)) (en_next e)) (request_id (rq o1)))"
  by (simp add: finish_add_def Let_def end_admission_def cleanup_fields register_fields split: prod.split sum.split)

lemma finish_other: "request_id (rq o1) \<noteq> rid \<Longrightarrow> pd_get (en_cols (fst (finish_add env t o1 e))) rid = pd_get (en_cols e) rid"
  unfolding finish_cols by (simp split: sum.split)

lemma cleanup_told:
  assumes "pd_get (en_cols e) rid = Some n" "pd_get (en_cols (cleanup_request env t r e)) rid \<noteq> Some n"
  shows "told (cols (en_objs (cleanup_request env t r e)) n)"
proof -
  have "r = rid" using assms by (auto simp: cleanup_fields split: if_splits)
  with cleanup_sentinel [OF assms(1), of env t] show ?thesis by (auto simp: told_def)
qed

lemma yield_told:
  assumes "pd_get (en_cols e) rid = Some n" "pd_get (en_cols (fst (snd (yield_output env t out c e)))) rid \<noteq> Some n"
  shows "told (cols (en_objs (fst (snd (yield_output env t out c e)))) n)"
  using assms cleanup_told [OF assms(1), of env t "st_rid c"] by (auto simp: yield_output_def end_stream_def split: if_splits)

lemma stream_told:
  assumes "pd_get (en_cols e) rid = Some n" "pd_get (en_cols (fst (snd (stream_turn env t c e)))) rid \<noteq> Some n"
  shows "told (cols (en_objs (fst (snd (stream_turn env t c e)))) n)"
proof (cases "st_phase c")
  case Polling
  obtain r k where g: "col_get_nowait (cols (en_objs e) (st_col c)) = (r, k)" by fastforce
  show ?thesis
    using assms Polling g yield_told [of "e\<lparr>en_objs := upd_col (en_objs e) (st_col c) k\<rparr>" rid n env t _ c] by (cases r) (simp_all add: stream_turn_def)
next
  case Blocked
  obtain r os where g: "get_test (en_objs e) (st_col c) = (r, os)" by fastforce
  show ?thesis
    using assms Blocked g yield_told [of "e\<lparr>en_objs := os\<rparr>" rid n env t _ c] cleanup_told [of "e\<lparr>en_objs := os\<rparr>" rid n env t "st_rid c"]
    by (cases r) (simp_all add: stream_turn_def end_stream_def)
next
  case (Fenced out k)
  then show ?thesis using assms cleanup_told [OF assms(1), of env t "st_rid c"] by (auto simp: stream_turn_def end_stream_def split: if_splits)
next
  case Ended
  then show ?thesis using assms by (simp add: stream_turn_def)
qed

lemma clear_cancels: "n \<in> set ns \<Longrightarrow> col_cancelled (cols (fold (\<lambda>n c. col_clear c n) ns os) n)"
proof -
  have k: "col_cancelled (cols os m) \<Longrightarrow> col_cancelled (cols (col_clear os j) m)" "col_cancelled (cols (col_clear os j) j)" for os m j
    by (auto simp: col_clear_def Let_def upd_col_get)
  have f: "col_cancelled (cols os m) \<Longrightarrow> col_cancelled (cols (fold (\<lambda>n c. col_clear c n) ns os) m)" for ns os m
    by (induction ns arbitrary: os) (simp_all add: k(1))
  show "n \<in> set ns \<Longrightarrow> col_cancelled (cols (fold (\<lambda>n c. col_clear c n) ns os) n)"
    by (induction ns arbitrary: os) (auto simp: k(2) f)
qed

lemma close_told:
  assumes "pd_get (en_cols e) rid = Some n" "pd_get (en_cols (close_engine env e)) rid \<noteq> Some n"
  shows "told (cols (en_objs (close_engine env e)) n)"
proof -
  have c: "\<not> en_closed e" using assms by (auto simp: close_engine_def)
  have "snd (rid, n) \<in> snd ` set (en_cols e)" by (rule imageI [OF map_of_SomeD [OF assms(1)]])
  then have "col_cancelled (cols (fold (\<lambda>n c. col_clear c n) (map snd (en_cols e)) (en_objs e)) n)" by (intro clear_cancels) simp
  then show ?thesis using c by (simp add: close_engine_def Let_def shutdown_def told_def)
qed

lemma act_told:
  assumes "pd_get (en_cols e) rid = Some n" "registers a e \<noteq> Some rid" "pd_get (en_cols (act env retries task t a e)) rid \<noteq> Some n"
  shows "told (cols (en_objs (act env retries task t a e)) n)"
proof (cases a)
  case (Add o1)
  let ?e = "e\<lparr>en_sched := begin_foreground_admission (request_id (rq o1)) (en_sched e)\<rparr>"
  have "pd_get (en_cols (fst (begin_add env t o1 e))) rid = Some n"
    using assms(1,2) finish_other [of o1 rid env t ?e] Add by (cases "finish_add env t o1 ?e") (auto simp: begin_add_def registers_def Let_def)
  then show ?thesis using assms(3) Add by (simp add: act_def)
next
  case (Resume k)
  have "pd_get (en_cols (resume_add env t k e)) rid = Some n"
    using assms(1,2) finish_other [of "fst (en_waiters e ! k)" rid env t "drop_waiter k e"] Resume
    by (auto simp: resume_add_def registers_def drop_waiter_def)
  then show ?thesis using assms(3) Resume by (simp add: act_def)
next
  case (Abort r)
  then show ?thesis using assms(3) cleanup_told [OF assms(1), of env t r] by (simp add: act_def abort_engine_request_def)
next
  case (Read c)
  then show ?thesis using assms(3) stream_told [OF assms(1), of env t c] by (simp add: act_def)
next
  case Close
  then show ?thesis using assms(3) close_told [OF assms(1), of env] by (simp add: act_def)
next
  case (Generate r)
  then show ?thesis using assms by (simp add: act_def generate_result_def split: option.splits prod.splits)
qed (use assms in \<open>simp_all add: act_def cancel_add_def end_admission_def drop_waiter_def turn_tables stop_tables start_engine_def split: if_splits\<close>)

section \<open>Failure\<close>

definition has_error :: "collector \<Rightarrow> bool" where
  "has_error c \<longleftrightarrow> (case col_output c of None \<Rightarrow> False | Some out \<Rightarrow> ro_finished out \<and> ro_finish_reason out = Some ''error'')"

lemma put_error: "has_error (col_put now c (error_output t rid msg))"
  by (simp add: has_error_def col_put_def Let_def merge_outputs_def error_output_def split: option.split)

lemma fail_fold_errors:
  "distinct (map snd d) \<Longrightarrow> x \<in> set d \<Longrightarrow> has_error (cols (en_objs (fold (fail_one t msg) d e)) (snd x))"
proof -
  have o: "cols (en_objs (fail_one t msg y e)) m = (if m = snd y then col_put (perf t) (cols (en_objs e) m) (error_output t (fst y) msg) else cols (en_objs e) m)"
    for y m and e :: "('a, 'b) engine"
    by (simp add: fail_one_def put_output_def Let_def upd_col_get split: option.split)
  have k: "m \<notin> snd ` set d \<Longrightarrow> cols (en_objs (fold (fail_one t msg) d e)) m = cols (en_objs e) m" for d m and e :: "('a, 'b) engine"
    by (induction d arbitrary: e) (simp_all add: o)
  show "distinct (map snd d) \<Longrightarrow> x \<in> set d \<Longrightarrow> has_error (cols (en_objs (fold (fail_one t msg) d e)) (snd x))"
  proof (induction d arbitrary: e)
    case (Cons y d)
    show ?case
    proof (cases "x = y")
      case True
      then show ?thesis using Cons.prems(1) by (simp add: k o put_error)
    qed (use Cons in simp)
  qed simp
qed

lemma fail_active_errors: "distinct (map snd (en_cols e)) \<Longrightarrow> list_all (\<lambda>x. has_error (cols (en_objs (fail_active_requests env t msg e)) (snd x))) (en_cols e)"
  using fail_fold_errors [of "en_cols e" _ t msg e]
  by (simp add: fail_active_requests_def Let_def abort_fold_rest list_all_iff del: fold_append)

end
