(* ===== verification/Engine_Strand.thy ===== *)
theory Engine_Strand
  imports Engine_Props
begin

text \<open>
  A collector that no table holds any more: nothing but its own reader touches it again.  The consumer of a request whose
  id is added a second time is left with such a collector.
\<close>

section \<open>Collectors no table holds\<close>

definition apart :: "nat \<Rightarrow> ('g, 'c) engine \<Rightarrow> bool" where
  "apart n e \<longleftrightarrow> n < en_next e \<and> n \<notin> snd ` set (en_cols e) \<and> n \<notin> snd ` set (en_events e)"

definition sight :: "nat \<Rightarrow> ('g, 'c) engine \<Rightarrow> collector \<times> bool" where
  "sight n e = (cols (en_objs e) n, n \<in> en_set e)"

definition leaves :: "nat \<Rightarrow> ('g, 'c) engine \<Rightarrow> ('g, 'c) engine \<Rightarrow> bool" where
  "leaves n e a \<longleftrightarrow> apart n a \<and> sight n a = sight n e"

lemma leaves_after: "leaves n a b \<Longrightarrow> (apart n b \<Longrightarrow> leaves n b c) \<Longrightarrow> leaves n a c"
  by (simp add: leaves_def)

lemma leaves_refl: "apart n e \<Longrightarrow> leaves n e e"
  by (simp add: leaves_def)

lemma in_numbers: "pd_get d r = Some k \<Longrightarrow> k \<in> snd ` set d"
  using imageI [OF map_of_SomeD, of d r k snd] by simp

lemma numbers_del: "n \<notin> snd ` set d \<Longrightarrow> n \<notin> snd ` set (pd_del d k)"
  by (auto simp: set_pd_del)

text \<open>The tables and the objects of the engine alone decide.\<close>

lemma leavesI:
  assumes "apart n e" "en_next e \<le> en_next a" "snd ` set (en_cols a) \<subseteq> snd ` set (en_cols e)" "snd ` set (en_events a) \<subseteq> snd ` set (en_events e)"
    "cols (en_objs a) n = cols (en_objs e) n" "n \<in> en_set a \<longleftrightarrow> n \<in> en_set e"
  shows "leaves n e a"
  using assms by (auto simp: leaves_def apart_def sight_def)

lemma leaves_cleanup:
  assumes "apart n e"
  shows "leaves n e (cleanup_request env t rid e)"
proof (rule leavesI [OF assms])
  have r: "en_next (cleanup_request env t rid e) = en_next e" using rest_fields [OF cleanup_fields(6)] by blast
  then show "en_next e \<le> en_next (cleanup_request env t rid e)" by simp
  show "snd ` set (en_cols (cleanup_request env t rid e)) \<subseteq> snd ` set (en_cols e)"
    "snd ` set (en_events (cleanup_request env t rid e)) \<subseteq> snd ` set (en_events e)" by (auto simp: cleanup_fields set_pd_del)
  show "cols (en_objs (cleanup_request env t rid e)) n = cols (en_objs e) n"
    using assms in_numbers [of "en_cols e" rid] unfolding cleanup_objs_eq put_output_def by (auto simp: apart_def upd_col_get split: option.split)
  show "n \<in> en_set (cleanup_request env t rid e) \<longleftrightarrow> n \<in> en_set e"
    using assms in_numbers [of "en_events e" rid] by (auto simp: apart_def cleanup_fields split: option.split)
qed

lemma leaves_sched: "apart n e \<Longrightarrow> leaves n e (e\<lparr>en_sched := s\<rparr>)"
  by (rule leavesI) simp_all

lemma leaves_register: "apart n e \<Longrightarrow> leaves n e (register_request rid e)"
  using subsetD [OF numbers_set, of n "en_cols e" rid "en_next e"] subsetD [OF numbers_set, of n "en_events e" rid "en_next e"]
  by (auto simp: leaves_def apart_def sight_def register_fields)

lemma leaves_finish_add:
  assumes "apart n e"
  shows "leaves n e (fst (finish_add env t o1 e))"
proof -
  let ?r = "register_request (request_id (rq o1)) e"
  obtain s res where a: "add_request env o1 (en_sched ?r) = (s, res)" by fastforce
  have r: "leaves n e (?r\<lparr>en_sched := s\<rparr>)"
    by (rule leaves_after [OF leaves_register [OF assms]]) (rule leaves_sched)
  show ?thesis
  proof (cases res)
    case (Inl x)
    have c: "leaves n e (cleanup_request env t (request_id (rq o1)) (?r\<lparr>en_sched := s\<rparr>))" by (rule leaves_after [OF r]) (rule leaves_cleanup)
    show ?thesis using a Inl leaves_after [OF c leaves_sched] by (simp add: finish_add_def Let_def end_admission_def)
  next
    case (Inr u)
    show ?thesis using a Inr leaves_after [OF r leaves_sched] by (simp add: finish_add_def Let_def end_admission_def)
  qed
qed

lemma leaves_distribute: "apart n e \<Longrightarrow> leaves n e (distribute_output env t out e)"
proof (rule leavesI)
  assume a: "apart n e"
  have r: "en_next (distribute_output env t out e) = en_next e" using rest_fields [OF distribute_rest(1)] by blast
  then show "en_next e \<le> en_next (distribute_output env t out e)" by simp
  have d: "cols (en_objs (deliver t k out b)) n = cols (en_objs b) n" if "k \<noteq> n" for k and b :: "('a, 'b) engine"
    using that by (simp add: deliver_def put_output_def upd_col_get split: option.split prod.split)
  show "cols (en_objs (distribute_output env t out e)) n = cols (en_objs e) n"
  proof (cases "pd_get (en_cols e) (ro_request_id out)")
    case None
    then show ?thesis by (simp add: distribute_output_def Let_def split: option.split)
  next
    case (Some k)
    have "k \<noteq> n" using a in_numbers [OF Some] by (auto simp: apart_def)
    then show ?thesis using Some by (simp add: distribute_output_def Let_def d split: option.split)
  qed
  show "n \<in> en_set (distribute_output env t out e) \<longleftrightarrow> n \<in> en_set e"
    using a in_numbers [of "en_events e" "ro_request_id out"]
    by (auto simp: distribute_output_def Let_def apart_def split: option.split)
qed (simp_all add: distribute_rest)

lemma leaves_distribute_fold: "apart n e \<Longrightarrow> leaves n e (fold (distribute_output env t) outs e)"
proof (induction outs arbitrary: e)
  case (Cons out outs)
  have l: "leaves n e (distribute_output env t out e)" by (rule leaves_distribute [OF Cons.prems])
  from leaves_after [OF l Cons.IH] show ?case by simp
qed (simp add: leaves_refl)

lemma leaves_ghost: "apart n e \<Longrightarrow> leaves n e (ghost_check env e)"
  using rest_fields [OF ghost_rest(1) [of env e]] by (intro leavesI) (simp_all add: ghost_rest)

lemma leaves_fail_fold: "apart n e \<Longrightarrow> n \<notin> snd ` set d \<Longrightarrow> leaves n e (fold (fail_one t msg) d e)"
proof (induction d arbitrary: e)
  case (Cons x d)
  have r: "en_next (fail_one t msg x e) = en_next e" using rest_fields [OF fail_one_rest(1)] by blast
  have l: "leaves n e (fail_one t msg x e)"
  proof (rule leavesI [OF Cons.prems(1)])
    show "cols (en_objs (fail_one t msg x e)) n = cols (en_objs e) n"
      using Cons.prems(2) by (simp add: fail_one_def put_output_def Let_def upd_col_get split: option.split)
    show "n \<in> en_set (fail_one t msg x e) \<longleftrightarrow> n \<in> en_set e"
      using Cons.prems(1) in_numbers [of "en_events e" "fst x"] by (auto simp: fail_one_def Let_def apart_def split: option.split)
  qed (simp_all add: r fail_one_rest)
  from leaves_after [OF l Cons.IH] Cons.prems(2) show ?case by simp
qed (simp add: leaves_refl)

lemma leaves_fail_active:
  assumes "apart n e"
  shows "leaves n e (fail_active_requests env t msg e)"
proof -
  have f: "leaves n e (fold (fail_one t msg) (en_cols e) e)" by (rule leaves_fail_fold [OF assms]) (use assms in \<open>simp add: apart_def\<close>)
  from leaves_after [OF f leaves_sched] show ?thesis by (simp add: fail_active_requests_def Let_def abort_fold del: fold_append)
qed

lemma leaves_fence: "apart n e \<Longrightarrow> leaves n e (set_fence e)"
  by (rule leavesI) (simp_all add: set_fence_def)

lemma leaves_failed:
  assumes "apart n e"
  shows "leaves n e (loop_failed env t msg e)"
proof -
  have "leaves n e (fail_active_requests env t msg (set_fence e))" by (rule leaves_after [OF leaves_fence [OF assms]]) (rule leaves_fail_active)
  then show ?thesis by (simp add: loop_failed_def leaves_def apart_def sight_def)
qed

lemma leaves_round:
  assumes "apart n e"
  shows "leaves n e (loop_round env retries task t e)"
proof -
  have s: "leaves n e (loop_failed env t msg (e\<lparr>en_sched := s\<rparr>))" for msg s
    by (rule leaves_after [OF leaves_sched [OF assms]]) (rule leaves_failed)
  have d: "leaves n e (fold (distribute_output env t) outs (ghost_check env b))" if "leaves n e b" for outs b
    by (rule leaves_after [OF leaves_after [OF that leaves_ghost] leaves_distribute_fold])
  have b: "leaves n e (e\<lparr>en_sched := s, en_steps := k\<rparr>)" "leaves n e (e\<lparr>en_sched := s, en_steps := k, en_fence := False\<rparr>)" for s k
    using assms by (simp_all add: leaves_def apart_def sight_def)
  have c: "leaves n e (a\<lparr>en_cleaning := x\<rparr>) = leaves n e a" for a x by (simp add: leaves_def apart_def sight_def)
  show ?thesis
    using s d [OF b(1)] d [OF b(2)] leaves_sched [OF assms] leaves_refl [OF assms]
    by (simp add: loop_round_def Let_def c split: prod.split sum.split)
qed

lemma leaves_stop:
  assumes "apart n e"
  shows "leaves n e (stop_engine env t caught e)"
proof -
  let ?a = "e\<lparr>en_cleaning := None\<rparr>"
  have "leaves n e ?a" using assms by (simp add: leaves_def apart_def sight_def)
  from leaves_after [OF leaves_after [OF this leaves_fence] leaves_fail_active] leaves_refl [OF assms]
  show ?thesis by (simp add: stop_engine_def shutdown_def Let_def leaves_def apart_def sight_def)
qed

lemma clear_other: "n \<notin> set ns \<Longrightarrow> cols (fold (\<lambda>n c. col_clear c n) ns os) n = cols os n"
  by (induction ns arbitrary: os) (auto simp: col_clear_def Let_def upd_col_get)

lemma leaves_close:
  assumes "apart n e"
  shows "leaves n e (close_engine env e)"
proof -
  have "n \<notin> set (map snd (en_cols e))" using assms by (simp add: apart_def)
  from clear_other [OF this] show ?thesis
    using leaves_refl [OF assms] assms by (simp add: close_engine_def shutdown_def Let_def leaves_def apart_def sight_def)
qed

lemma leaves_objs: "apart n e \<Longrightarrow> cols os n = cols (en_objs e) n \<Longrightarrow> leaves n e (e\<lparr>en_objs := os\<rparr>)"
  by (rule leavesI) simp_all

lemma leaves_then_cleanup: "leaves n e b \<Longrightarrow> leaves n e (cleanup_request env t rid b)"
  by (erule leaves_after) (rule leaves_cleanup)

lemma leaves_yield: "leaves n e b \<Longrightarrow> leaves n e (fst (snd (yield_output env t out c b)))"
  by (simp add: yield_output_def end_stream_def leaves_then_cleanup)

lemma leaves_stream:
  assumes "apart n e" "st_col c \<noteq> n"
  shows "leaves n e (fst (snd (stream_turn env t c e)))"
proof (cases "st_phase c")
  case Polling
  obtain r k where g: "col_get_nowait (cols (en_objs e) (st_col c)) = (r, k)" by fastforce
  have "leaves n e (e\<lparr>en_objs := get_enter (en_objs e) (st_col c)\<rparr>)" "leaves n e (e\<lparr>en_objs := upd_col (en_objs e) (st_col c) k\<rparr>)"
    using assms by (intro leaves_objs; simp add: get_enter_def upd_col_get)+
  then show ?thesis using Polling g by (cases r) (simp_all add: stream_turn_def leaves_yield)
next
  case Blocked
  obtain r os where g: "get_test (en_objs e) (st_col c) = (r, os)" by fastforce
  have "leaves n e (e\<lparr>en_objs := os\<rparr>)" by (rule leaves_objs [OF assms(1)]) (use get_test_cols(1) [OF g] assms(2) in simp)
  then show ?thesis using Blocked g leaves_refl [OF assms(1)] by (cases r) (simp_all add: stream_turn_def leaves_yield end_stream_def leaves_then_cleanup)
qed (use leaves_refl [OF assms(1)] in \<open>simp_all add: stream_turn_def end_stream_def leaves_then_cleanup\<close>)

lemma leaves_act:
  assumes "apart n e" "\<And>c. a = Read c \<Longrightarrow> st_col c \<noteq> n"
  shows "leaves n e (act env retries task t a e)"
proof (cases a)
  case (Add o1)
  let ?e = "e\<lparr>en_sched := begin_foreground_admission (request_id (rq o1)) (en_sched e)\<rparr>"
  have b: "leaves n e ?e" by (rule leaves_sched [OF assms(1)])
  then have "leaves n e (fst (finish_add env t o1 ?e))" by (rule leaves_after) (rule leaves_finish_add)
  with b show ?thesis using Add
    by (cases "finish_add env t o1 ?e") (simp add: act_def begin_add_def Let_def, simp add: leaves_def apart_def sight_def)
next
  case (Resume k)
  have "leaves n e (drop_waiter k e)" using assms(1) by (simp add: drop_waiter_def leaves_def apart_def sight_def)
  then have "leaves n e (fst (finish_add env t (fst (en_waiters e ! k)) (drop_waiter k e)))" by (rule leaves_after) (rule leaves_finish_add)
  then show ?thesis using Resume leaves_refl [OF assms(1)] by (simp add: act_def resume_add_def)
next
  case (Cancel_Add k)
  then show ?thesis using assms(1) by (simp add: act_def cancel_add_def end_admission_def drop_waiter_def leaves_def apart_def sight_def)
next
  case (Abort rid)
  then show ?thesis using leaves_cleanup [OF assms(1)] by (simp add: act_def abort_engine_request_def)
next
  case Turn
  have "leaves n e (loop_cleanup env e)" using assms(1) by (simp add: loop_cleanup_def set_fence_def leaves_def apart_def sight_def split: option.split)
  then show ?thesis using Turn leaves_round [OF assms(1)] leaves_refl [OF assms(1)] by (simp add: act_def engine_turn_def)
next
  case Start
  then show ?thesis using assms(1) by (simp add: act_def start_engine_def leaves_def apart_def sight_def)
next
  case (Read c)
  then show ?thesis using leaves_stream [OF assms(1) assms(2) [OF Read]] by (simp add: act_def)
next
  case (Generate rid)
  show ?thesis
  proof (cases "pd_get (en_cols e) rid")
    case None
    then show ?thesis using Generate leaves_refl [OF assms(1)] by (simp add: act_def generate_result_def)
  next
    case (Some k)
    then have "k \<noteq> n" using assms(1) in_numbers [OF Some] by (auto simp: apart_def)
    then show ?thesis using Generate Some leaves_refl [OF assms(1)] leaves_objs [OF assms(1)]
      by (simp add: act_def generate_result_def upd_col_get split: option.split prod.split)
  qed
qed (use leaves_stop [OF assms(1)] leaves_close [OF assms(1)] in \<open>simp_all add: act_def\<close>)

text \<open>Nothing in it, nothing to come, and its event is not set: whoever waits there waits for ever.\<close>

definition silent :: "nat \<Rightarrow> ('g, 'c) engine \<Rightarrow> bool" where
  "silent n e \<longleftrightarrow> apart n e \<and> col_output (cols (en_objs e) n) = None \<and> \<not> told (cols (en_objs e) n) \<and> n \<notin> en_set e"

lemma silent_leaves: "silent n e \<Longrightarrow> leaves n e a \<Longrightarrow> silent n a"
  by (simp add: silent_def leaves_def sight_def)

text \<open>Its own reader polls, and then blocks.\<close>

lemma silent_stream:
  assumes "silent n e" "st_col c = n"
  shows "silent n (fst (snd (stream_turn env t c e))) \<and> (st_phase c \<in> {Polling, Blocked} \<longrightarrow> snd (snd (stream_turn env t c e)) = None)"
proof -
  have a: "apart n e" "col_output (cols (en_objs e) n) = None" "\<not> col_cancelled (cols (en_objs e) n)"
    using assms(1) by (simp_all add: silent_def told_def)
  have g: "col_get_nowait (cols (en_objs e) n) = (None, cols (en_objs e) n)" by (simp add: col_get_nowait_def a)
  have t: "get_test (en_objs e) n = (Suspend, en_objs e)" by (simp add: get_test_def a)
  have "silent n (e\<lparr>en_objs := get_enter (en_objs e) n\<rparr>)"
    using assms(1) by (simp add: silent_def apart_def told_def get_enter_def upd_col_get)
  then show ?thesis
    using assms g t silent_leaves [OF assms(1) leaves_cleanup [OF a(1)]] by (cases "st_phase c") (simp_all add: stream_turn_def end_stream_def)
qed

lemma silent_act: "silent n e \<Longrightarrow> silent n (act env retries task t a e)"
proof -
  assume s: "silent n e"
  show ?thesis
  proof (cases "\<exists>c. a = Read c \<and> st_col c = n")
    case True
    then show ?thesis using silent_stream [OF s] by (auto simp: act_def)
  next
    case False
    have "apart n e" using s by (simp add: silent_def)
    then show ?thesis by (rule silent_leaves [OF s leaves_act]) (use False in blast)
  qed
qed

lemma silent_reach: "engine_reach env retries task P e0 e \<Longrightarrow> silent n e0 \<Longrightarrow> silent n e"
  by (induction rule: engine_reach.induct) (simp_all add: silent_act)

end
