(* ===== verification/Engine_Service.thy ===== *)
theory Engine_Service
  imports Engine_Strand
begin

text \<open>
  What the engine promises its clients, over a scheduler with the single-request generator: who is served, what a failed
  step does, who is told when a request leaves, and the cases where a consumer is left waiting.  Model ownership
  (\<open>vmlx_engine/model_registry.py\<close>) is at the end.
\<close>

section \<open>Runs\<close>

fun run_acts ::
  "('g, 'c) sched_env \<Rightarrow> nat \<Rightarrow> (nat \<Rightarrow> 'c \<Rightarrow> 'c \<times> idle_result) \<Rightarrow> clock \<Rightarrow> action list \<Rightarrow> ('g, 'c) engine \<Rightarrow> ('g, 'c) engine" where
  "run_acts env retries task t [] e = e"
| "run_acts env retries task t (a # as) e = run_acts env retries task t as (act env retries task t a e)"

fun all_admissible ::
  "nat set \<Rightarrow> ('g, 'c) sched_env \<Rightarrow> nat \<Rightarrow> (nat \<Rightarrow> 'c \<Rightarrow> 'c \<times> idle_result) \<Rightarrow> clock \<Rightarrow> action list \<Rightarrow> ('g, 'c) engine \<Rightarrow> bool" where
  "all_admissible P env retries task t [] e = True"
| "all_admissible P env retries task t (a # as) e =
     (admissible P a e \<and> all_admissible P env retries task t as (act env retries task t a e))"

lemma run_reach:
  "engine_reach env retries task P e0 e \<Longrightarrow> all_admissible P env retries task t as e \<Longrightarrow>
   engine_reach env retries task P e0 (run_acts env retries task t as e)"
  by (induction as arbitrary: e) (auto intro: engine_reach.after)

text \<open>A small engine to run; the failing one has too little memory for a prefill, and its error is not a cache error.\<close>

definition no_task :: "nat \<Rightarrow> unit \<Rightarrow> unit \<times> idle_result" where
  "no_task f c = (c, DONE)"

definition noon :: clock where
  "noon = \<lparr>perf = 0, monotonic = 0\<rparr>"

definition small_engine :: "(unit single_gen, unit) engine" where
  "small_engine = new_engine 1 small_start"

definition broken_env :: "(unit single_gen, unit) sched_env" where
  "broken_env = single_env (demo_gen_env\<lparr>ge_max_ws := 1\<rparr>) () 2 (\<lambda>_. []) (\<lambda>_. \<lparr>er_classes = [''RuntimeError''], er_text = ''no memory''\<rparr>) small_base"

section \<open>Who is served\<close>

text \<open>
  C1. The engine serves exactly what it schedules, in whatever order clients add, abort and read, the loop steps, fails,
  starts, stops and closes: collectors and events are the same registrations under pairwise different numbers, every
  registration has a stream state, every request the scheduler knows has a collector or is being cleaned up after its last
  output, the fence is closed exactly then, and no output was ever without a consumer.
\<close>

theorem engine_serves_what_it_schedules:
  assumes "engine_reach (single_env g m chunk stored describe base) retries task P
    (new_engine interval (new_scheduler stops seqs paged c mch pld hyb temp)) e"
  shows "en_events e = en_cols e \<and> pd_keys (en_states e) = pd_keys (en_cols e) \<and> distinct (pd_keys (en_cols e)) \<and> distinct (map snd (en_cols e)) \<and>
    set (pd_keys (sc_requests (en_sched e))) \<subseteq> set (pd_keys (en_cols e)) \<union> cleaning_ids e \<and>
    en_fence e = (en_cleaning e = None) \<and> en_orphans e = []"
proof -
  note D = engine_invD [OF reach_inv [OF assms]]
  show ?thesis using D(3,5,6,8) by (simp add: desk_ok_def all_served_def pd_ok_def)
qed

theorem engine_serves_what_it_schedules_witness:
  "let e = run_acts small_env 2 no_task noon [Start, Add (small_request ''a'' [9, 9, 9]), Add (small_request ''b'' [1]), Turn] small_engine
   in pd_keys (en_cols e) = [''a'', ''b''] \<and> pd_keys (sc_requests (en_sched e)) = [''a'', ''b''] \<and> en_fence e \<and> en_orphans e = []"
proof -
  let ?as = "[Start, Add (small_request ''a'' [9, 9, 9]), Add (small_request ''b'' [1]), Turn]"
  let ?e = "run_acts small_env 2 no_task noon ?as small_engine"
  have r: "engine_reach small_env 2 no_task {} small_engine ?e" by (rule run_reach [OF here]) code_simp
  have n: "pd_keys (en_cols ?e) = [''a'', ''b'']" "pd_keys (sc_requests (en_sched ?e)) = [''a'', ''b'']" "en_fence ?e" by code_simp+
  show ?thesis
    using engine_serves_what_it_schedules [OF r [unfolded small_env_def small_engine_def small_start_def]] n
    unfolding small_env_def [symmetric] small_engine_def [symmetric] small_start_def [symmetric] Let_def by blast
qed

section \<open>A failed step\<close>

text \<open>
  C13. A step that fails leaves nobody waiting and nothing behind: in the same turn the scheduler forgets every request, and
  every registered consumer finds an output that is finished with the reason \<open>error\<close>, with its event set and the fence open.
\<close>

theorem failed_step_tells_every_consumer:
  assumes "engine_reach (single_env g m chunk stored describe base) retries task P
      (new_engine interval (new_scheduler stops seqs paged c mch pld hyb temp)) e"
    "en_running e" "en_cleaning e = None" "has_requests (en_sched e)"
    "sched_step (single_env g m chunk stored describe base) retries True (en_sched e) = (s, Inl x)"
  shows "let e1 = act (single_env g m chunk stored describe base) retries task t Turn e
         in sc_requests (en_sched e1) = [] \<and> en_cols e1 = en_cols e \<and> en_fence e1 \<and>
            list_all (\<lambda>(rid, n). n \<in> en_set e1 \<and> has_error (cols (en_objs e1) n)) (en_cols e1)"
proof -
  let ?env = "single_env g m chunk stored describe base"
  note i = reach_inv [OF assms(1)]
  note D = engine_invD [OF i]
  let ?a = "set_fence (e\<lparr>en_sched := s\<rparr>)"
  let ?f = "fail_active_requests ?env t (er_text x) ?a"
  have e1: "act ?env retries task t Turn e = ?f\<lparr>en_orphans := [], en_first_seen := []\<rparr>"
    using assms(2-5) by (simp add: act_def engine_turn_def loop_round_def loop_failed_def)
  have d: "desk_inv P ?a" using inv_desk [OF i] by simp
  have b: "books (en_sched ?a)" using sg.inv_step [OF D(1) assms(5)] by (simp add: sched_inv_def)
  note F = fail_active_fields [OF d b, where env = ?env and t = t and msg = "er_text x"]
  have dist: "distinct (map snd (en_cols ?a))" using D(3) by (simp add: desk_ok_def)
  have "list_all (\<lambda>x. has_error (cols (en_objs ?f) (snd x))) (en_cols ?a)" by (rule fail_active_errors [OF dist])
  moreover have "en_fence ?f" using rest_fields [OF fail_active_rest(1) [of ?env t "er_text x" ?a]] by simp
  ultimately show ?thesis
    using F(3,4) unfolding Let_def e1 by (simp add: fail_active_rest(2) list_all_iff case_prod_unfold imageI)
qed

theorem failed_step_tells_every_consumer_witness:
  "let e = run_acts broken_env 2 no_task noon [Start, Add (small_request ''a'' [9, 9, 9, 9]), Add (small_request ''b'' [1])] small_engine;
       e1 = act broken_env 2 no_task noon Turn e
   in sc_requests (en_sched e1) = [] \<and> pd_keys (en_cols e1) = [''a'', ''b''] \<and>
      list_all (\<lambda>(rid, n). n \<in> en_set e1 \<and> has_error (cols (en_objs e1) n)) (en_cols e1)"
proof -
  let ?as = "[Start, Add (small_request ''a'' [9, 9, 9, 9]), Add (small_request ''b'' [1])]"
  let ?e = "run_acts broken_env 2 no_task noon ?as small_engine"
  have r: "engine_reach broken_env 2 no_task {} small_engine ?e" by (rule run_reach [OF here]) code_simp
  have n: "pd_keys (en_cols ?e) = [''a'', ''b'']" "en_running ?e" "en_cleaning ?e = None" "has_requests (en_sched ?e)"
    "isl (snd (sched_step broken_env 2 True (en_sched ?e)))"
    by code_simp+
  then obtain s x where f: "sched_step broken_env 2 True (en_sched ?e) = (s, Inl x)" by (metis isl_def prod.collapse)
  have t: "let e1 = act broken_env 2 no_task noon Turn ?e
      in sc_requests (en_sched e1) = [] \<and> en_cols e1 = en_cols ?e \<and> en_fence e1 \<and> list_all (\<lambda>(rid, n). n \<in> en_set e1 \<and> has_error (cols (en_objs e1) n)) (en_cols e1)"
    using failed_step_tells_every_consumer [OF r [unfolded broken_env_def small_engine_def small_start_def], of s x noon] n(2-4) f
    unfolding broken_env_def [symmetric] small_engine_def [symmetric] small_start_def [symmetric] by (simp only: simp_thms)
  then show ?thesis using n(1) unfolding Let_def by (metis (no_types, lifting))
qed

section \<open>Leaving\<close>

text \<open>
  C14. No consumer is dropped silently: whatever action takes a collector out of the engine's table, that collector then
  holds a finished output or is cancelled, so that whoever waits there returns or raises.  The one exception is adding a
  request under the id that is in use.
\<close>

theorem no_consumer_is_dropped_silently:
  assumes "pd_get (en_cols e) rid = Some n" "registers a e \<noteq> Some rid" "pd_get (en_cols (act env retries task t a e)) rid \<noteq> Some n"
  shows "told (cols (en_objs (act env retries task t a e)) n)"
  by (rule act_told [OF assms])

theorem no_consumer_is_dropped_silently_witness:
  "let e = run_acts small_env 2 no_task noon [Start, Add (small_request ''a'' [9, 9, 9])] small_engine
   in told (cols (en_objs (act small_env 2 no_task noon (Abort ''a'') e)) 0) \<and> \<not> told (cols (en_objs e) 0)"
proof -
  let ?e = "run_acts small_env 2 no_task noon [Start, Add (small_request ''a'' [9, 9, 9])] small_engine"
  have n: "pd_get (en_cols ?e) ''a'' = Some 0" "registers (Abort ''a'') ?e \<noteq> Some ''a''"
    "pd_get (en_cols (act small_env 2 no_task noon (Abort ''a'') ?e)) ''a'' \<noteq> Some 0" "\<not> told (cols (en_objs ?e) 0)"
    by code_simp+
  show ?thesis using no_consumer_is_dropped_silently [OF n(1-3)] n(4) by (simp add: Let_def)
qed

text \<open>
  C15. What \<open>generate\<close> does behind its wait.  Once the finished event of its request is set, the collector nobody else
  has read holds an output and \<open>generate\<close> returns one, as long as the request is registered; when an abort or a
  cancellation has set the event, the collector is gone and \<open>generate\<close> raises its \<open>RuntimeError\<close>.  The third error,
  a registered collector without an output, does not occur.
\<close>

theorem generate_after_its_wait:
  assumes "engine_reach (single_env g m chunk stored describe base) retries task P
      (new_engine interval (new_scheduler stops seqs paged c mch pld hyb temp)) e"
    "case pd_get (en_cols e) rid of None \<Rightarrow> True | Some n \<Rightarrow> n \<in> en_set e \<and> n \<notin> P"
  shows "case pd_get (en_cols e) rid of
      None \<Rightarrow> snd (generate_result rid e) = Inl RuntimeError
    | Some n \<Rightarrow> (\<exists>out. snd (generate_result rid e) = Inr out)"
proof (cases "pd_get (en_cols e) rid")
  case None
  then show ?thesis by (simp add: generate_result_def)
next
  case (Some n)
  note D = engine_invD [OF reach_inv [OF assms(1)]]
  have "col_output (cols (en_objs e) n) \<noteq> None" using D(4) in_numbers [OF Some] assms(2) Some unfolding answered_def by auto
  then show ?thesis by (auto simp: generate_result_def Some col_get_nowait_def)
qed

theorem generate_after_its_wait_witness:
  "let e = run_acts small_env 2 no_task noon [Start, Add (small_request ''a'' [9, 9, 9]), Add (small_request ''b'' [9, 9]), Abort ''b'',
       Turn, Turn, Turn, Turn] small_engine
   in (\<exists>out. snd (generate_result ''a'' e) = Inr out) \<and> map_sum id ro_finished (snd (generate_result ''a'' e)) = Inr True \<and>
      1 \<in> en_set e \<and> snd (generate_result ''b'' e) = Inl RuntimeError"
proof -
  let ?as = "[Start, Add (small_request ''a'' [9, 9, 9]), Add (small_request ''b'' [9, 9]), Abort ''b'', Turn, Turn, Turn, Turn]"
  let ?e = "run_acts small_env 2 no_task noon ?as small_engine"
  have r: "engine_reach small_env 2 no_task {} small_engine ?e" by (rule run_reach [OF here]) code_simp
  have n: "pd_get (en_cols ?e) ''a'' = Some 0" "0 \<in> en_set ?e" "map_sum id ro_finished (snd (generate_result ''a'' ?e)) = Inr True"
    "pd_get (en_cols ?e) ''b'' = None" "1 \<in> en_set ?e"
    by code_simp+
  note w = generate_after_its_wait [OF r [unfolded small_env_def small_engine_def small_start_def]]
  show ?thesis
    using w [of "''a''"] w [of "''b''"] n
    unfolding small_env_def [symmetric] small_engine_def [symmetric] small_start_def [symmetric] Let_def by simp
qed

end
