(* ===== verification/Engine_Gaps.thy ===== *)
theory Engine_Gaps
  imports Engine_Service
begin

text \<open>
  Consumers the engine leaves waiting: an id that is added twice, and a model whose ownership is taken away
  (\<open>vmlx_engine/model_registry.py\<close>); a fence that lets a waiting admission through although it is closed, and text that
  a failure drops.
\<close>

section \<open>An id added twice\<close>

lemma number_replaced: "distinct (map snd d) \<Longrightarrow> pd_get d k = Some n \<Longrightarrow> v \<noteq> n \<Longrightarrow> n \<notin> snd ` set (pd_set d k v)"
proof (induction d k v rule: pd_set.induct)
  case (2 k' v' d k v)
  show ?case
  proof (cases "k' = k")
    case False
    then have "pd_get d k = Some n" "v' \<noteq> n" using 2(2,3) in_numbers [of d k n] by auto
    then show ?thesis using 2(1) [OF False] 2(2,4) False by simp
  qed (use 2 in auto)
qed simp

lemma duplicate_fields:
  assumes "desk_ok e" "en_fence e" "pd_get (en_cols e) (request_id (rq o1)) = Some n" "request_id (rq o1) \<in> fst ` set (sc_requests (en_sched e))"
  shows "snd (begin_add env t o1 e) = Some (Inl Already_Exists)" "leaves n (e\<lparr>en_cols := [], en_events := []\<rparr>) (fst (begin_add env t o1 e))"
proof -
  let ?rid = "request_id (rq o1)"
  let ?e = "e\<lparr>en_sched := begin_foreground_admission ?rid (en_sched e)\<rparr>"
  let ?r = "register_request ?rid ?e"
  have k: "?rid \<in> fst ` set (sc_requests (en_sched ?r))" using assms(4) by (simp add: register_fields begin_foreground_admission_def)
  have add: "add_request env o1 (en_sched ?r) = (en_sched ?r, Inl Already_Exists)" using k by (simp add: add_request_def Let_def)
  have f: "begin_add env t o1 e = (end_admission ?rid (cleanup_request env t ?rid ?r), Some (Inl Already_Exists))"
    using assms(2) add by (simp add: begin_add_def finish_add_def Let_def)
  show "snd (begin_add env t o1 e) = Some (Inl Already_Exists)" unfolding f by simp
  have d: "en_events e = en_cols e" "distinct (map snd (en_cols e))" "n < en_next e"
    using assms(1) in_numbers [OF assms(3)] unfolding desk_ok_def by blast+
  have "n \<notin> snd ` set (pd_set (en_cols e) ?rid (en_next e))" by (rule number_replaced [OF d(2) assms(3)]) (use d(3) in simp)
  then have "leaves n (e\<lparr>en_cols := [], en_events := []\<rparr>) ?r"
    using d by (simp add: leaves_def apart_def sight_def register_fields)
  then have "leaves n (e\<lparr>en_cols := [], en_events := []\<rparr>) (cleanup_request env t ?rid ?r)" by (rule leaves_then_cleanup)
  from leaves_after [OF this leaves_sched] show "leaves n (e\<lparr>en_cols := [], en_events := []\<rparr>) (fst (begin_add env t o1 e))"
    unfolding f by (simp add: end_admission_def)
qed

text \<open>
  C40. Adding a request under an id in use leaves the first consumer waiting for ever: the addition is refused, but it has
  already replaced the collector and the event of the running request and then aborts it.  Whatever happens afterwards, the
  first collector stays empty and uncancelled and the first event unset.
\<close>

theorem duplicate_id_strands_first_consumer:
  assumes "engine_reach (single_env g m chunk stored describe base) retries task P
      (new_engine interval (new_scheduler stops seqs paged c mch pld hyb temp)) e"
    "en_fence e" "request_id (rq o1) \<in> set (pd_keys (sc_requests (en_sched e)))" "pd_get (en_cols e) (request_id (rq o1)) = Some n"
    "col_output (cols (en_objs e) n) = None" "\<not> col_cancelled (cols (en_objs e) n)" "n \<notin> en_set e"
    "engine_reach (single_env g m chunk stored describe base) retries task Q
      (fst (begin_add (single_env g m chunk stored describe base) t o1 e)) e2"
  shows "snd (begin_add (single_env g m chunk stored describe base) t o1 e) = Some (Inl Already_Exists) \<and>
    col_output (cols (en_objs e2) n) = None \<and> \<not> col_cancelled (cols (en_objs e2) n) \<and> n \<notin> en_set e2 \<and> n \<notin> snd ` set (en_cols e2)"
proof -
  let ?env = "single_env g m chunk stored describe base"
  have d: "desk_ok e" by (rule engine_invD(3) [OF reach_inv [OF assms(1)]])
  have r: "request_id (rq o1) \<in> fst ` set (sc_requests (en_sched e))" using assms(3) by simp
  note D = duplicate_fields [OF d assms(2,4) r, where env = ?env and t = t]
  have "silent n (fst (begin_add ?env t o1 e))" using D(2) assms(5-7) by (simp add: silent_def leaves_def sight_def told_def)
  from silent_reach [OF assms(8) this] D(1) show ?thesis by (simp add: silent_def apart_def told_def)
qed

theorem duplicate_id_strands_first_consumer_witness:
  "let e = run_acts small_env 2 no_task noon [Start, Add (small_request ''a'' [9, 9, 9])] small_engine;
       e1 = act small_env 2 no_task noon (Add (small_request ''a'' [9, 9, 9])) e;
       e2 = run_acts small_env 2 no_task noon [Turn, Abort ''a'', Add (small_request ''a'' [9, 9, 9]), Turn, Turn, Turn, Turn, Turn] e1
   in col_output (cols (en_objs e2) 0) = None \<and> 0 \<notin> en_set e2 \<and> col_output (cols (en_objs e2) 2) \<noteq> None"
proof -
  let ?as = "[Start, Add (small_request ''a'' [9, 9, 9])]"
  let ?bs = "[Turn, Abort ''a'', Add (small_request ''a'' [9, 9, 9]), Turn, Turn, Turn, Turn, Turn]"
  let ?e = "run_acts small_env 2 no_task noon ?as small_engine"
  let ?e1 = "fst (begin_add small_env noon (small_request ''a'' [9, 9, 9]) ?e)"
  let ?e2 = "run_acts small_env 2 no_task noon ?bs ?e1"
  have r: "engine_reach small_env 2 no_task {} small_engine ?e" by (rule run_reach [OF here]) code_simp
  have q: "engine_reach small_env 2 no_task {} ?e1 ?e2" by (rule run_reach [OF here]) code_simp
  have n: "en_fence ?e" "request_id (rq (small_request ''a'' [9, 9, 9])) \<in> set (pd_keys (sc_requests (en_sched ?e)))"
    "pd_get (en_cols ?e) (request_id (rq (small_request ''a'' [9, 9, 9]))) = Some 0" "col_output (cols (en_objs ?e) 0) = None"
    "\<not> col_cancelled (cols (en_objs ?e) 0)" "0 \<notin> en_set ?e" "map_option ro_finished (col_output (cols (en_objs ?e2) 2)) = Some True"
    by code_simp+
  have x: "?e1 = act small_env 2 no_task noon (Add (small_request ''a'' [9, 9, 9])) ?e" by (simp add: act_def)
  have "col_output (cols (en_objs ?e2) 0) = None \<and> 0 \<notin> en_set ?e2"
    using duplicate_id_strands_first_consumer [OF r [unfolded small_env_def small_engine_def small_start_def], of "small_request ''a'' [9, 9, 9]" 0 "{}" noon ?e2] n(1-6) q
    unfolding small_env_def [symmetric] small_engine_def [symmetric] small_start_def [symmetric] by (simp only: simp_thms)
  moreover have "col_output (cols (en_objs ?e2) 2) \<noteq> None" using n(7) by (metis option.distinct(1) option.map(1))
  ultimately show ?thesis unfolding x Let_def by blast
qed

section \<open>The fence\<close>

text \<open>
  A coroutine that waits for the fence is woken by its opening and does not look again: when the next step finishes
  another request at once, the fence is closed when the admission resumes, and the request is looked up in the caches
  before the finished one has been stored.
\<close>

definition two_finish :: "action list" where
  "two_finish = [Start, Add (small_request ''a'' [9, 9, 9, 9, 9]), Add (small_request ''b'' [9, 9, 9, 9, 9, 9]), Turn, Turn,
     Add (small_request ''c'' [1]), Turn, Turn]"

lemma waiting_admission_passes_closed_fence:
  "let e = run_acts small_env 2 no_task noon two_finish small_engine; e1 = act small_env 2 no_task noon (Resume 0) e
   in \<not> en_fence e \<and> en_cleaning e = Some [''b''] \<and> pd_keys (sc_requests (en_sched e)) = [''b''] \<and>
      \<not> en_fence e1 \<and> pd_keys (sc_requests (en_sched e1)) = [''b'', ''c'']"
  by code_simp

section \<open>Text held back\<close>

text \<open>
  The error output of a failed loop carries none of the text the stream state holds back, and the stream that reads it
  ends: with an interval above one the tokens since the last delivery are lost, although an abort hands them over.
\<close>

lemma failure_keeps_text_back:
  "let run = run_acts small_env 2 no_task noon [Start, Add (small_request ''a'' [65, 66]), Turn, Turn] (small_engine\<lparr>en_interval := 9\<rparr>);
       read = \<lparr>st_rid = ''a'', st_col = 0, st_phase = Polling\<rparr>; e = act small_env 2 no_task noon (Read read) run
   in map_option (\<lambda>st. length (pending_new_text st)) (pd_get (en_states e) ''a'') = Some 1 \<and>
      buffered_text (cols (en_objs (loop_failed small_env noon ''lost'' e)) 0) = [] \<and>
      length (buffered_text (cols (en_objs (cleanup_request small_env noon ''a'' e)) 0)) = 1"
  by code_simp

section \<open>Stopping\<close>

text \<open>
  A stop that cancels the loop outside its \<open>try\<close> tells nobody: a request added before the loop's first run, or while the
  handler of an exception sleeps, keeps its empty collector in the table and its event unset, and the stopped loop has
  no later turn.
\<close>

lemma stop_outside_try_strands_consumer:
  "let e = run_acts small_env 2 no_task noon [Start, Add (small_request ''a'' [9, 9, 9]), Stop False] small_engine
   in \<not> en_running e \<and> pd_get (en_cols e) ''a'' = Some 0 \<and> col_output (cols (en_objs e) 0) = None \<and>
      \<not> col_cancelled (cols (en_objs e) 0) \<and> 0 \<notin> en_set e"
  by code_simp

section \<open>Ownership of a model\<close>

text \<open>
  The registry of owners: for each model the engine that uses it, by a weak reference (\<open>alive\<close>: the engines not yet
  collected) and its id.  Engines are numbered objects.
\<close>

type_synonym registry = "(nat, nat \<times> string) pydict"

definition reset_owner :: "('g, 'c) sched_env \<Rightarrow> nat \<Rightarrow> (nat \<Rightarrow> ('g, 'c) engine) \<Rightarrow> nat \<Rightarrow> ('g, 'c) engine" where
  "reset_owner env o1 engines = engines(o1 := (engines o1)\<lparr>en_sched := reset env (en_sched (engines o1))\<rparr>)"

definition acquire ::
  "('g, 'c) sched_env \<Rightarrow> nat set \<Rightarrow> nat \<Rightarrow> nat \<Rightarrow> string \<Rightarrow> bool \<Rightarrow> registry \<times> (nat \<Rightarrow> ('g, 'c) engine) \<Rightarrow>
   (registry \<times> (nat \<Rightarrow> ('g, 'c) engine)) \<times> (unit + unit)" where
  "acquire env alive model who id1 force x =
     (let (owners, engines) = x; taken = (pd_set owners model (who, id1), engines)
      in case pd_get owners model of
           None \<Rightarrow> (taken, Inr ())
         | Some (o1, oid) \<Rightarrow>
             (if o1 \<in> alive \<and> oid \<noteq> id1 then
                (if force then ((pd_set owners model (who, id1), reset_owner env o1 engines), Inr ()) else (x, Inl ()))
              else (taken, Inr ())))"

definition release_model :: "nat \<Rightarrow> string \<Rightarrow> registry \<Rightarrow> registry \<times> bool" where
  "release_model model id1 owners =
     (case pd_get owners model of
        None \<Rightarrow> (owners, False)
      | Some (_, oid) \<Rightarrow> if oid = id1 then (pd_del owners model, True) else (owners, False))"

definition is_owned :: "nat set \<Rightarrow> nat \<Rightarrow> registry \<Rightarrow> registry \<times> bool \<times> string option" where
  "is_owned alive model owners =
     (case pd_get owners model of
        None \<Rightarrow> (owners, False, None)
      | Some (o1, oid) \<Rightarrow> if o1 \<in> alive then (owners, True, Some oid) else (pd_del owners model, False, None))"

definition cleanup_registry :: "nat set \<Rightarrow> registry \<Rightarrow> registry \<times> nat" where
  "cleanup_registry alive owners =
     (let stale = filter (\<lambda>(model, o1, _). o1 \<notin> alive) owners
      in (fold (\<lambda>(model, _) d. pd_del d model) stale owners, length stale))"

text \<open>A scheduler without requests steps in vain.\<close>

lemma empty_step:
  assumes "sc_waiting s = []" "sc_running s = []"
  shows "\<exists>s1 out. sched_step env n later s = (s1, Inr out) \<and> so_outputs out = [] \<and> so_finished out = [] \<and> sc_waiting s1 = [] \<and> sc_running s1 = []"
proof -
  have p: "sc_waiting (fold (process_pending_abort env) xs a) = sc_waiting a \<and> sc_running (fold (process_pending_abort env) xs a) = sc_running a"
    for xs and a :: "('a, 'b) scheduler"
    by (induction xs arbitrary: a) (simp_all add: process_pending_abort_def Let_def split: option.split)
  let ?p = "process_pending_aborts env s"
  have e: "sc_waiting ?p = []" "sc_running ?p = []" using p assms by (simp_all add: process_pending_aborts_def)
  then have "schedule_waiting env ?p = (?p\<lparr>sc_waiting := []\<rparr>, [])" by (simp add: schedule_waiting_def)
  then show ?thesis using e by (simp add: sched_step_def Let_def)
qed

definition idle_desk :: "('g, 'c) engine \<Rightarrow> bool" where
  "idle_desk e \<longleftrightarrow> sc_waiting (en_sched e) = [] \<and> sc_running (en_sched e) = [] \<and> en_cleaning e = None"

lemma idle_turn:
  assumes "idle_desk e" "fst ` set (sc_running (en_sched e)) \<subseteq> fst ` set (en_cols e)"
  shows "idle_desk (engine_turn env retries task t e) \<and> en_objs (engine_turn env retries task t e) = en_objs e \<and>
    en_set (engine_turn env retries task t e) = en_set e"
proof -
  obtain s1 out where st: "sched_step env retries True (en_sched e) = (s1, Inr out)" "so_outputs out = []" "so_finished out = []"
    "sc_waiting s1 = []" "sc_running s1 = []"
    using empty_step [of "en_sched e" env retries True] assms(1) by (auto simp: idle_desk_def)
  have g: "\<exists>k. ghost_check env (e\<lparr>en_sched := s1, en_steps := en_steps e + 1\<rparr>) = e\<lparr>en_sched := s1, en_steps := en_steps e + 1, en_ghost_counter := k\<rparr>"
    using no_ghosts [of "e\<lparr>en_sched := s1, en_steps := en_steps e + 1\<rparr>" env] st(5) by simp
  obtain c y where i: "fst (run_one_idle_task (idle_call task) (en_sched e)) = (en_sched e)\<lparr>sc_idle := y, sc_cache := c\<rparr>"
    using idle_changes [of task "en_sched e"] by blast
  show ?thesis using assms(1) st g i by (auto simp: engine_turn_def loop_round_def idle_desk_def)
qed

lemma idle_turns:
  "idle_desk e \<Longrightarrow> idle_desk ((engine_turn env retries task t ^^ k) e) \<and> en_objs ((engine_turn env retries task t ^^ k) e) = en_objs e \<and>
     en_set ((engine_turn env retries task t ^^ k) e) = en_set e"
proof (induction k)
  case (Suc k)
  then show ?case using idle_turn [of "(engine_turn env retries task t ^^ k) e" env retries task t] by (simp add: idle_desk_def)
qed simp

text \<open>
  Taking a model over by force leaves the previous owner's consumers waiting: its scheduler is emptied without a word to
  the collectors, and however long its loop goes on, none of them receives anything and no finished event is set.
\<close>

lemma forced_takeover_strands_consumers:
  assumes "pd_get owners model = Some (o1, oid)" "o1 \<in> alive" "oid \<noteq> id1" "en_cleaning (engines o1) = None"
  shows "let e = engines o1; e1 = snd (fst (acquire env alive model who id1 True (owners, engines))) o1
         in sc_requests (en_sched e1) = [] \<and> en_cols e1 = en_cols e \<and>
            en_objs ((engine_turn env retries task t ^^ k) e1) = en_objs e \<and> en_set ((engine_turn env retries task t ^^ k) e1) = en_set e"
proof -
  let ?e1 = "(engines o1)\<lparr>en_sched := reset env (en_sched (engines o1))\<rparr>"
  have a: "snd (fst (acquire env alive model who id1 True (owners, engines))) o1 = ?e1"
    using assms by (simp add: acquire_def reset_owner_def)
  have "idle_desk ?e1" using assms(4) by (simp add: idle_desk_def reset_def Let_def)
  from idle_turns [OF this, where env = env and retries = retries and task = task and t = t and k = k] show ?thesis unfolding a by (simp add: Let_def reset_def)
qed

end
