(* ===== verification/Ar_Safety.thy ===== *)
theory Ar_Safety
  imports Py_Values
begin

text \<open>
  The governor that keeps native multi-token prediction from losing to plain autoregressive decoding
  (\<open>native_mtp_ar_safety.py\<close>): one sample per verify cycle, a warm-up that fixes the anchor, a ring of
  the last \<open>window + 1\<close> samples, and a verdict once the ring is full.  Python's floats are real numbers
  here: rounding and NaN are outside the model.  The process environment and the parsing of numbers are
  parameters.
\<close>

section \<open>Environment\<close>

record process_env =
  getenv :: "string \<Rightarrow> string option"
  int_of_text :: "string \<Rightarrow> int option"
  float_of_text :: "string \<Rightarrow> real option"

fun env_raw :: "process_env \<Rightarrow> string list \<Rightarrow> string option" where
  "env_raw env [] = None"
| "env_raw env (name # names) =
     (case getenv env name of Some value \<Rightarrow> Some value | None \<Rightarrow> env_raw env names)"

definition false_words :: "string list" where
  "false_words = [''0'', ''false'', ''no'', ''off'']"

definition env_flag :: "process_env \<Rightarrow> bool \<Rightarrow> string list \<Rightarrow> bool" where
  "env_flag env dflt names =
     (case env_raw env names of
        None \<Rightarrow> dflt
      | Some raw \<Rightarrow> py_lower (py_strip raw) \<notin> set false_words)"

definition env_int :: "process_env \<Rightarrow> int \<Rightarrow> string list \<Rightarrow> int \<Rightarrow> int" where
  "env_int env dflt names least =
     max least (case env_raw env names of
                  None \<Rightarrow> dflt
                | Some raw \<Rightarrow> (case int_of_text env raw of Some v \<Rightarrow> v | None \<Rightarrow> dflt))"

definition env_float :: "process_env \<Rightarrow> real \<Rightarrow> string list \<Rightarrow> real" where
  "env_float env dflt names =
     (case env_raw env names of
        None \<Rightarrow> dflt
      | Some raw \<Rightarrow> (case float_of_text env raw of Some v \<Rightarrow> v | None \<Rightarrow> dflt))"

definition ar_safety_enabled :: "process_env \<Rightarrow> bool" where
  "ar_safety_enabled env =
     env_flag env True [''VMLINUX_NATIVE_MTP_AR_SAFETY'', ''VMLX_NATIVE_MTP_AR_SAFETY'']"

definition ar_safety_warmup_cycles :: "process_env \<Rightarrow> bool \<Rightarrow> int" where
  "ar_safety_warmup_cycles env primed =
     env_int env (if primed then 8 else 16)
       [''VMLINUX_NATIVE_MTP_AR_SAFETY_WARMUP'', ''VMLX_NATIVE_MTP_AR_SAFETY_WARMUP''] 1"

definition ar_safety_window_cycles :: "process_env \<Rightarrow> int" where
  "ar_safety_window_cycles env =
     env_int env 8 [''VMLINUX_NATIVE_MTP_AR_SAFETY_WINDOW'', ''VMLX_NATIVE_MTP_AR_SAFETY_WINDOW''] 4"

definition ar_safety_margin :: "process_env \<Rightarrow> real" where
  "ar_safety_margin env =
     env_float env 1 [''VMLINUX_NATIVE_MTP_RUNTIME_COST_MARGIN'', ''VMLX_NATIVE_MTP_RUNTIME_COST_MARGIN'']"

definition ar_safety_seed_margin :: "process_env \<Rightarrow> real" where
  "ar_safety_seed_margin env =
     max (ar_safety_margin env)
       (env_float env (11 / 10) [''VMLINUX_NATIVE_MTP_SEED_COST_MARGIN'', ''VMLX_NATIVE_MTP_SEED_COST_MARGIN''])"

section \<open>The verdict on a window\<close>

definition median :: "real list \<Rightarrow> real" where
  "median values = (if values = [] then 0 else sort values ! (length values div 2))"

definition windowed_ar_verdict ::
  "real \<Rightarrow> real \<Rightarrow> real \<Rightarrow> int \<Rightarrow> real \<Rightarrow> real \<Rightarrow> real list option \<Rightarrow> (real \<times> real) option" where
  "windowed_ar_verdict ar_step_ms anchor_cycle_ms cur_cycle_ms delta_emitted delta_wall_ms margin per_cycle =
     (if ar_step_ms \<le> 0 then None
      else if delta_emitted \<le> 0 \<or> delta_wall_ms \<le> 0 then None
      else
        (let mtp_ms_per_tok = delta_wall_ms / of_int delta_emitted;
             scale = (if 0 < anchor_cycle_ms \<and> 0 < cur_cycle_ms then max 1 (cur_cycle_ms / anchor_cycle_ms) else 1);
             ar_baseline = ar_step_ms * scale;
             threshold = ar_baseline * margin
         in if mtp_ms_per_tok \<le> threshold then None
            else if (case per_cycle of None \<Rightarrow> False | Some xs \<Rightarrow> xs \<noteq> [] \<and> median xs \<le> threshold) then None
            else Some (mtp_ms_per_tok, ar_baseline)))"

section \<open>State and trips\<close>

type_synonym ring_entry = "int \<times> int \<times> real"

record ar_state =
  anchor_cycle_ms :: real
  anchor_context_tokens :: int
  prompt_tokens :: int
  last_cycle_t :: real
  cycle_base :: int
  warmup_cycle_ms :: "real list"
  ring :: "ring_entry list"

definition ar_init :: ar_state where
  "ar_init = \<lparr>anchor_cycle_ms = 0, anchor_context_tokens = 0, prompt_tokens = 0, last_cycle_t = 0,
     cycle_base = 0, warmup_cycle_ms = [], ring = []\<rparr>"

definition ar_reset :: "int \<Rightarrow> ar_state \<Rightarrow> ar_state" where
  "ar_reset base st = st\<lparr>anchor_cycle_ms := 0, anchor_context_tokens := 0, last_cycle_t := 0,
     cycle_base := base, warmup_cycle_ms := [], ring := []\<rparr>"

record ar_trip =
  t_cycles :: int
  t_mtp_ms_per_tok :: real
  t_ar_baseline :: real
  t_seed_ar_ms :: real
  t_margin :: real
  t_window :: int
  t_cycle_median :: real
  t_cycle_max :: real
  t_anchor :: real
  t_cur :: real
  t_anchor_context :: int
  t_context_now :: int

text \<open>\<open>ArSafetyTrip.reason\<close>; \<open>fmt n x\<close> is the text of \<open>x\<close> with \<open>n\<close> digits after the point.\<close>

definition trip_reason :: "(nat \<Rightarrow> real \<Rightarrow> string) \<Rightarrow> ar_trip \<Rightarrow> int \<Rightarrow> string" where
  "trip_reason fmt t prior_depth =
     ''windowed_ar_safety d'' @ show_int prior_depth @
     '' mtp_ms_per_tok='' @ fmt 1 (t_mtp_ms_per_tok t) @
     ''>ar_baseline='' @ fmt 1 (t_ar_baseline t) @
     ''(seed='' @ fmt 1 (t_seed_ar_ms t) @ '')x'' @ fmt 2 (t_margin t)"

section \<open>One cycle\<close>

text \<open>Neighbouring ring entries: the wall of a cycle, and its cost per token when it emitted any.\<close>

definition cycle_walls :: "ring_entry list \<Rightarrow> real list" where
  "cycle_walls r = map (\<lambda>((_, _, t), (_, _, t')). (t' - t) * 1000) (zip r (tl r))"

definition cycle_costs :: "ring_entry list \<Rightarrow> real list" where
  "cycle_costs r =
     map (\<lambda>((_, e, t), (_, e', t')). (t' - t) * 1000 / of_int (e' - e))
       (filter (\<lambda>((_, e, _), (_, e', _)). e < e') (zip r (tl r)))"

definition py_max0 :: "real list \<Rightarrow> real" where
  "py_max0 xs = (case xs of [] \<Rightarrow> 0 | x # xs \<Rightarrow> fold max xs x)"

definition ar_warm :: "ar_state \<Rightarrow> int \<Rightarrow> int \<Rightarrow> int \<Rightarrow> real \<Rightarrow> ar_state" where
  "ar_warm st warmup cycles emitted now =
     (let st1 = (if 0 < last_cycle_t st
                 then st\<lparr>warmup_cycle_ms := warmup_cycle_ms st @ [(now - last_cycle_t st) * 1000]\<rparr> else st);
          st2 = st1\<lparr>last_cycle_t := now\<rparr>
      in if cycles = warmup \<and> anchor_cycle_ms st2 \<le> 0
         then (let anchor = median (warmup_cycle_ms st2);
                   st3 = (if 0 < anchor
                          then st2\<lparr>anchor_cycle_ms := anchor,
                                   anchor_context_tokens := max 1 (prompt_tokens st2 + emitted)\<rparr>
                          else st2)
               in st3\<lparr>ring := ring st3 @ [(cycles, emitted, now)]\<rparr>)
         else st2)"

definition ar_early_abort :: "ar_state \<Rightarrow> int \<Rightarrow> int \<Rightarrow> real \<Rightarrow> real \<Rightarrow> real \<Rightarrow> ar_trip option" where
  "ar_early_abort st cycles emitted now seed margin =
     (case hd (ring st) of (_, e0, t0) \<Rightarrow>
        let d_e = emitted - e0; d_ms = (now - t0) * 1000
        in if 0 < d_e \<and> seed * (3 / 2) < d_ms / of_int d_e
           then Some \<lparr>t_cycles = cycles + cycle_base st, t_mtp_ms_per_tok = d_ms / of_int d_e,
                  t_ar_baseline = seed, t_seed_ar_ms = seed, t_margin = margin,
                  t_window = int (length (ring st)) - 1,
                  t_cycle_median = median (cycle_costs (ring st)), t_cycle_max = py_max0 (cycle_costs (ring st)),
                  t_anchor = 0, t_cur = 0, t_anchor_context = prompt_tokens st + e0,
                  t_context_now = prompt_tokens st + emitted\<rparr>
           else None)"

definition ar_judge ::
  "ar_state \<Rightarrow> int \<Rightarrow> int \<Rightarrow> int \<Rightarrow> real \<Rightarrow> real \<Rightarrow> real \<Rightarrow> bool \<Rightarrow> bool \<Rightarrow> ar_state \<times> ar_trip option" where
  "ar_judge st window cycles emitted now seed margin probe scale_context =
     (case hd (ring st) of (_, e0, t0) \<Rightarrow>
        let per_cycle_ms = cycle_walls (ring st);
            per_tok = cycle_costs (ring st);
            cur_cycle_ms = median per_cycle_ms;
            context_now = prompt_tokens st + emitted
        in if anchor_cycle_ms st \<le> 0 \<and> cur_cycle_ms \<le> 0 then (st, None)
           else
             (let st' = (if anchor_cycle_ms st \<le> 0
                         then st\<lparr>anchor_cycle_ms := cur_cycle_ms, anchor_context_tokens := max 1 context_now\<rparr>
                         else st)
              in case windowed_ar_verdict seed (if scale_context then anchor_cycle_ms st' else 0) cur_cycle_ms
                        (emitted - e0) ((now - t0) * 1000) margin (if probe then None else Some per_tok) of
                   None \<Rightarrow> (st', None)
                 | Some (mtp_ms, baseline) \<Rightarrow>
                     (st', Some \<lparr>t_cycles = cycles + cycle_base st', t_mtp_ms_per_tok = mtp_ms,
                        t_ar_baseline = baseline, t_seed_ar_ms = seed, t_margin = margin, t_window = window,
                        t_cycle_median = median per_tok, t_cycle_max = py_max0 per_tok,
                        t_anchor = anchor_cycle_ms st', t_cur = cur_cycle_ms,
                        t_anchor_context = anchor_context_tokens st', t_context_now = context_now\<rparr>)))"

text \<open>The optional arguments of \<open>ar_safety_step\<close>.\<close>

record ar_opts =
  o_primed :: bool
  o_margin :: "real option"
  o_probe :: bool
  o_scale_context :: bool
  o_baseline_measured :: bool

definition ar_defaults :: ar_opts where
  "ar_defaults = \<lparr>o_primed = True, o_margin = None, o_probe = False, o_scale_context = True,
     o_baseline_measured = False\<rparr>"

definition step_warmup :: "process_env \<Rightarrow> ar_opts \<Rightarrow> int" where
  "step_warmup env opts = (if o_probe opts then 4 else ar_safety_warmup_cycles env (o_primed opts))"

definition step_margin :: "process_env \<Rightarrow> ar_opts \<Rightarrow> real" where
  "step_margin env opts =
     (case o_margin opts of Some m \<Rightarrow> m
      | None \<Rightarrow> if o_baseline_measured opts then ar_safety_margin env else ar_safety_seed_margin env)"

definition push_ring :: "int \<Rightarrow> ring_entry \<Rightarrow> ring_entry list \<Rightarrow> ring_entry list" where
  "push_ring window x r =
     (let r' = r @ [x] in if window + 1 < int (length r') then drop (length r' - nat (window + 1)) r' else r')"

definition ar_safety_step ::
  "process_env \<Rightarrow> ar_state \<Rightarrow> int \<Rightarrow> int \<Rightarrow> real \<Rightarrow> real \<Rightarrow> ar_opts \<Rightarrow> ar_state \<times> ar_trip option" where
  "ar_safety_step env st total_cycles emitted now seed opts =
     (if seed \<le> 0 then (st, None)
      else if \<not> ar_safety_enabled env then (st, None)
      else
        (let cycles = total_cycles - cycle_base st;
             warmup = step_warmup env opts
         in if cycles \<le> warmup then (ar_warm st warmup cycles emitted now, None)
            else
              (let window = ar_safety_window_cycles env;
                   st1 = st\<lparr>ring := push_ring window (cycles, emitted, now) (ring st)\<rparr>;
                   margin = step_margin env opts
               in if int (length (ring st1)) \<le> window
                  then (st1, if o_probe opts \<and> 5 \<le> length (ring st1)
                             then ar_early_abort st1 cycles emitted now seed margin else None)
                  else ar_judge st1 window cycles emitted now seed margin (o_probe opts) (o_scale_context opts))))"

section \<open>Facts on the window\<close>

lemma window_at_least_4: "4 \<le> ar_safety_window_cycles env"
  by (simp add: ar_safety_window_cycles_def env_int_def)

lemma warmup_at_least_1: "1 \<le> ar_safety_warmup_cycles env primed"
  by (simp add: ar_safety_warmup_cycles_def env_int_def)

lemma step_warmup_pos: "1 \<le> step_warmup env opts"
  using warmup_at_least_1 by (simp add: step_warmup_def)

lemma median_mem: "xs \<noteq> [] \<Longrightarrow> median xs \<in> set xs"
proof -
  assume ne: "xs \<noteq> []"
  then have "length xs div 2 < length (sort xs)" by (cases xs) simp_all
  then have "sort xs ! (length xs div 2) \<in> set (sort xs)" by (rule nth_mem)
  then show ?thesis using ne by (simp add: median_def)
qed

lemma median_Nil [simp]: "median [] = 0"
  by (simp add: median_def)

lemma median_ge: "xs \<noteq> [] \<Longrightarrow> list_all (\<lambda>x. a \<le> x) xs \<Longrightarrow> a \<le> median xs"
  using median_mem by (auto simp: list_all_iff)

lemma median_gt: "xs \<noteq> [] \<Longrightarrow> list_all (\<lambda>x. a < x) xs \<Longrightarrow> a < median xs"
  using median_mem by (auto simp: list_all_iff)

lemma median_le: "xs \<noteq> [] \<Longrightarrow> list_all (\<lambda>x. x \<le> b) xs \<Longrightarrow> median xs \<le> b"
  using median_mem by (auto simp: list_all_iff)

lemma length_push_ring:
  "0 \<le> window \<Longrightarrow> int (length (push_ring window x r)) = min (window + 1) (int (length r) + 1)"
  by (auto simp: push_ring_def Let_def)

lemma push_ring_not_Nil: "0 \<le> window \<Longrightarrow> push_ring window x r \<noteq> []"
  using length_push_ring [of window x r] by auto

lemma last_push_ring: "0 \<le> window \<Longrightarrow> last (push_ring window x r) = x"
  by (auto simp: push_ring_def Let_def last_drop)

end
