(* ===== verification/Depth_Control.thy ===== *)
theory Depth_Control
  imports Ar_Safety
begin

text \<open>
  The request-local controller of the native draft depth (\<open>native_mtp_adaptive.py\<close>): a rolling window of
  timed cycles per depth, one neighbouring depth probed at a time, and the probe kept only when its
  confirmed tokens per second beat the origin's by the hysteresis.  \<open>md\<close> is the depth ceiling
  \<open>native_mtp_max_depth()\<close>, read from an environment that does not change during a request; \<open>fmt\<close> is
  Python's number formatting (\<open>fmt (Some n)\<close> is \<open>:.nf\<close>, \<open>fmt None\<close> is \<open>str\<close>).
\<close>

section \<open>State\<close>

definition native_mtp_max_depth :: "process_env \<Rightarrow> int" where
  "native_mtp_max_depth env =
     (let raw = py_strip (case env_raw env [''VMLINUX_NATIVE_MTP_MAX_DEPTH'', ''VMLX_NATIVE_MTP_MAX_DEPTH''] of
                            Some r \<Rightarrow> r | None \<Rightarrow> [])
      in if raw = [] then 3
         else (case int_of_text env raw of None \<Rightarrow> 3 | Some v \<Rightarrow> max 1 (min 8 v)))"

record depth_sample =
  elapsed_ms :: real
  confirmed_tokens :: int
  accepted_drafts :: int
  s_cycle :: int

record depth_decision =
  target_depth :: int
  d_reason :: string
  d_event :: string

record depth_transition =
  tr_cycle :: int
  tr_from :: int
  tr_to :: int
  tr_event :: string
  tr_reason :: string

record depth_state =
  samples_by_depth :: "depth_sample list list"
  last_sample_cycle :: "int list"
  last_probe_cycle :: "int list"
  probe_revert_counts :: "int list"
  active_probe_origin :: int
  active_probe_target :: int
  last_change_cycle :: int
  armed_at :: real
  armed_depth :: int
  transitions :: "depth_transition list"

definition depth_init :: "int \<Rightarrow> depth_state" where
  "depth_init md = \<lparr>samples_by_depth = replicate (nat md) [], last_sample_cycle = replicate (nat md) 0,
     last_probe_cycle = replicate (nat md) 0, probe_revert_counts = replicate (nat md) 0,
     active_probe_origin = 0, active_probe_target = 0, last_change_cycle = 0, armed_at = 0, armed_depth = 0,
     transitions = []\<rparr>"

text \<open>\<open>max(1, min(native_mtp_max_depth(), int(depth or 1)))\<close>.\<close>

definition bounded_depth :: "int \<Rightarrow> int \<Rightarrow> int" where
  "bounded_depth md depth = max 1 (min md (if depth = 0 then 1 else depth))"

text \<open>The list position of a depth.\<close>

abbreviation slot :: "int \<Rightarrow> nat" where
  "slot depth \<equiv> nat (depth - 1)"

section \<open>Recording cycles\<close>

definition add_depth_cycle_sample ::
  "int \<Rightarrow> depth_state \<Rightarrow> int \<Rightarrow> int \<Rightarrow> real \<Rightarrow> int \<Rightarrow> int \<Rightarrow> depth_state \<times> bool" where
  "add_depth_cycle_sample md st depth accepted elapsed cycle window =
     (let depth = bounded_depth md depth;
          accepted = max 0 (min depth accepted)
      in if elapsed \<le> 0 then (st, False)
         else
           (let sample = \<lparr>elapsed_ms = elapsed, confirmed_tokens = 1 + accepted, accepted_drafts = accepted,
                          s_cycle = max 0 cycle\<rparr>;
                bucket = samples_by_depth st ! slot depth @ [sample];
                kept = drop (nat (max 0 (int (length bucket) - max 1 window))) bucket
            in (st\<lparr>samples_by_depth := (samples_by_depth st)[slot depth := kept],
                   last_sample_cycle := (last_sample_cycle st)[slot depth := s_cycle sample]\<rparr>, True)))"

definition finish_armed_depth_cycle ::
  "int \<Rightarrow> depth_state \<Rightarrow> int \<Rightarrow> int \<Rightarrow> int \<Rightarrow> real \<Rightarrow> int \<Rightarrow> depth_state \<times> bool" where
  "finish_armed_depth_cycle md st depth accepted cycle now window =
     (let st' = st\<lparr>armed_at := 0, armed_depth := 0\<rparr>
      in if armed_at st \<le> 0 \<or> armed_depth st \<noteq> bounded_depth md depth then (st', False)
         else add_depth_cycle_sample md st' depth accepted ((now - armed_at st) * 1000) cycle window)"

definition arm_depth_cycle :: "int \<Rightarrow> depth_state \<Rightarrow> int \<Rightarrow> real \<Rightarrow> depth_state" where
  "arm_depth_cycle md st depth now = st\<lparr>armed_depth := bounded_depth md depth, armed_at := now\<rparr>"

section \<open>Reading the windows\<close>

definition bucket_of :: "int \<Rightarrow> depth_state \<Rightarrow> int \<Rightarrow> depth_sample list" where
  "bucket_of md st depth = samples_by_depth st ! slot (bounded_depth md depth)"

definition depth_value_tps :: "int \<Rightarrow> depth_state \<Rightarrow> int \<Rightarrow> int \<Rightarrow> real option" where
  "depth_value_tps md st depth minimum_samples =
     (let bucket = bucket_of md st depth;
          elapsed = sum_list (map elapsed_ms bucket)
      in if int (length bucket) < max 1 minimum_samples then None
         else if elapsed \<le> 0 then None
         else Some (1000 * of_int (sum_list (map confirmed_tokens bucket)) / elapsed))"

definition depth_conditional_acceptance :: "int \<Rightarrow> depth_state \<Rightarrow> int \<Rightarrow> int \<Rightarrow> real option" where
  "depth_conditional_acceptance md st depth minimum_samples =
     (let depth = bounded_depth md depth;
          bucket = bucket_of md st depth;
          reached = length (filter (\<lambda>s. depth - 1 \<le> accepted_drafts s) bucket);
          accepted = length (filter (\<lambda>s. depth \<le> accepted_drafts s) bucket)
      in if int (length bucket) < max 1 minimum_samples then None
         else if reached = 0 then Some 0
         else Some (of_nat accepted / of_nat reached))"

section \<open>Transitions\<close>

definition record_transition ::
  "int \<Rightarrow> depth_state \<Rightarrow> int \<Rightarrow> int \<Rightarrow> int \<Rightarrow> string \<Rightarrow> string \<Rightarrow> depth_state" where
  "record_transition md st cycle origin target event reason =
     (let trs = transitions st @ [\<lparr>tr_cycle = cycle, tr_from = bounded_depth md origin,
                                   tr_to = bounded_depth md target, tr_event = event, tr_reason = reason\<rparr>]
      in st\<lparr>transitions := drop (length trs - 24) trs\<rparr>)"

definition note_forced_depth_change ::
  "int \<Rightarrow> depth_state \<Rightarrow> int \<Rightarrow> int \<Rightarrow> int \<Rightarrow> string \<Rightarrow> depth_state" where
  "note_forced_depth_change md st origin target cycle reason =
     (let origin = bounded_depth md origin;
          target = bounded_depth md target;
          st' = st\<lparr>active_probe_origin := 0, active_probe_target := 0,
                   probe_revert_counts := replicate (nat md) 0\<rparr>
      in if target = origin then st'
         else record_transition md (st'\<lparr>last_change_cycle := cycle\<rparr>) cycle origin target ''safety_change'' reason)"

section \<open>Choosing a depth\<close>

record depth_policy =
  minimum_samples :: int
  cooldown_cycles :: int
  probe_interval_cycles :: int
  hysteresis :: real
  raise_min_acceptance :: real
  initial_probe_cycles :: int

text \<open>The clamping at the head of \<open>choose_depth_by_value\<close>.\<close>

definition clamp_policy :: "depth_policy \<Rightarrow> depth_policy" where
  "clamp_policy p =
     (let ms = max 2 (minimum_samples p);
          cd = max ms (cooldown_cycles p)
      in p\<lparr>minimum_samples := ms, cooldown_cycles := cd,
           probe_interval_cycles := max cd (probe_interval_cycles p),
           initial_probe_cycles := max ms (initial_probe_cycles p),
           hysteresis := max 0 (hysteresis p)\<rparr>)"

definition depth_label :: "int \<Rightarrow> string" where
  "depth_label d = CHR ''D'' # show_int d"

definition probe_reason :: "(nat option \<Rightarrow> real \<Rightarrow> string) \<Rightarrow> int \<Rightarrow> real \<Rightarrow> string \<Rightarrow> int \<Rightarrow> real \<Rightarrow> real \<Rightarrow> string" where
  "probe_reason fmt current target_value cmp origin origin_value h =
     ''probe_value '' @ depth_label current @ ''='' @ fmt (Some 2) target_value @ cmp @
     depth_label origin @ ''='' @ fmt (Some 2) origin_value @ ''x'' @ fmt (Some 3) (1 + h)"

text \<open>The verdict on an open probe whose target is the current depth.\<close>

definition settle_probe ::
  "int \<Rightarrow> (nat option \<Rightarrow> real \<Rightarrow> string) \<Rightarrow> depth_policy \<Rightarrow> depth_state \<Rightarrow> int \<Rightarrow> int \<Rightarrow>
   depth_state \<times> depth_decision option" where
  "settle_probe md fmt p st current cycle =
     (let origin = active_probe_origin st in
      case (depth_value_tps md st current (minimum_samples p), depth_value_tps md st origin (minimum_samples p)) of
        (Some tv, Some ov) \<Rightarrow>
          (let st1 = st\<lparr>active_probe_origin := 0, active_probe_target := 0\<rparr>
           in if ov * (1 + hysteresis p) \<le> tv
              then (let reason = probe_reason fmt current tv ''>='' origin ov (hysteresis p);
                        st2 = st1\<lparr>probe_revert_counts := (probe_revert_counts st1)[slot current := 0],
                                  last_change_cycle := cycle\<rparr>
                    in (record_transition md st2 cycle origin current ''probe_keep'' reason,
                        Some \<lparr>target_depth = current, d_reason = reason, d_event = ''probe_keep''\<rparr>))
              else (let reason = probe_reason fmt current tv ''<'' origin ov (hysteresis p);
                        st2 = st1\<lparr>last_change_cycle := cycle,
                                  probe_revert_counts := (probe_revert_counts st1)[slot current :=
                                    min 31 (probe_revert_counts st1 ! slot current + 1)]\<rparr>
                    in (record_transition md st2 cycle current origin ''probe_revert'' reason,
                        Some \<lparr>target_depth = origin, d_reason = reason, d_event = ''probe_revert''\<rparr>)))
      | _ \<Rightarrow> (st, None))"

definition probe_candidates :: "int \<Rightarrow> depth_policy \<Rightarrow> depth_state \<Rightarrow> int \<Rightarrow> int \<Rightarrow> int list" where
  "probe_candidates md p st current deepest =
     (if current < deepest \<and>
         (case depth_conditional_acceptance md st current (minimum_samples p) of
            Some a \<Rightarrow> raise_min_acceptance p \<le> a | None \<Rightarrow> False)
      then [current + 1] else []) @
     (if 1 < current then [current - 1] else [])"

text \<open>The first candidate whose recent window already beats the current depth.\<close>

fun beating_candidate :: "int \<Rightarrow> depth_policy \<Rightarrow> depth_state \<Rightarrow> real \<Rightarrow> int list \<Rightarrow> int option" where
  "beating_candidate md p st cv [] = None"
| "beating_candidate md p st cv (c # cs) =
     (case depth_value_tps md st c (minimum_samples p) of
        Some v \<Rightarrow> if cv * (1 + hysteresis p) < v then Some c else beating_candidate md p st cv cs
      | None \<Rightarrow> beating_candidate md p st cv cs)"

text \<open>Whether the interval of a candidate, doubled for each loss up to four times, has passed.\<close>

definition probe_due :: "depth_policy \<Rightarrow> depth_state \<Rightarrow> int \<Rightarrow> int \<Rightarrow> bool" where
  "probe_due p st cycle c =
     (let last_probe = last_probe_cycle st ! slot c;
          losses = max 0 (probe_revert_counts st ! slot c);
          effective = probe_interval_cycles p * push_bit (nat (min losses 2)) 1
      in last_probe \<le> 0 \<or> effective \<le> cycle - last_probe)"

fun due_candidate :: "depth_policy \<Rightarrow> depth_state \<Rightarrow> int \<Rightarrow> int list \<Rightarrow> int option" where
  "due_candidate p st cycle [] = None"
| "due_candidate p st cycle (c # cs) = (if probe_due p st cycle c then Some c else due_candidate p st cycle cs)"

definition neighbour_reason :: "(nat option \<Rightarrow> real \<Rightarrow> string) \<Rightarrow> int \<Rightarrow> int \<Rightarrow> real \<Rightarrow> real option \<Rightarrow> string" where
  "neighbour_reason fmt current candidate cv acceptance =
     ''neighbor_probe '' @ depth_label current @ ''->'' @ show_int candidate @
     '' current_value='' @ fmt (Some 2) cv @
     '' conditional_accept='' @ (case acceptance of Some a \<Rightarrow> fmt None a | None \<Rightarrow> ''n/a'')"

definition open_probe ::
  "int \<Rightarrow> (nat option \<Rightarrow> real \<Rightarrow> string) \<Rightarrow> depth_policy \<Rightarrow> depth_state \<Rightarrow> int \<Rightarrow> int \<Rightarrow> int \<Rightarrow> real \<Rightarrow>
   depth_state \<times> depth_decision option" where
  "open_probe md fmt p st current candidate cycle cv =
     (let st1 = st\<lparr>samples_by_depth := (samples_by_depth st)[slot candidate := []],
                   active_probe_origin := current, active_probe_target := candidate,
                   last_probe_cycle := (last_probe_cycle st)[slot candidate := cycle],
                   last_change_cycle := cycle\<rparr>;
          reason = neighbour_reason fmt current candidate cv
                     (depth_conditional_acceptance md st current (minimum_samples p))
      in (record_transition md st1 cycle current candidate ''probe_start'' reason,
          Some \<lparr>target_depth = candidate, d_reason = reason, d_event = ''probe_start''\<rparr>))"

definition choose_neighbour ::
  "int \<Rightarrow> (nat option \<Rightarrow> real \<Rightarrow> string) \<Rightarrow> depth_policy \<Rightarrow> depth_state \<Rightarrow> int \<Rightarrow> int \<Rightarrow> int \<Rightarrow>
   depth_state \<times> depth_decision option" where
  "choose_neighbour md fmt p st current deepest cycle =
     (case depth_value_tps md st current (minimum_samples p) of
        None \<Rightarrow> (st, None)
      | Some cv \<Rightarrow>
          if transitions st = [] \<and> cycle < initial_probe_cycles p then (st, None)
          else if cycle - last_change_cycle st < cooldown_cycles p then (st, None)
          else
            (let cs = probe_candidates md p st current deepest in
             case beating_candidate md p st cv cs of
               Some c \<Rightarrow> open_probe md fmt p st current c cycle cv
             | None \<Rightarrow>
                 (case due_candidate p st cycle cs of
                    Some c \<Rightarrow> open_probe md fmt p st current c cycle cv
                  | None \<Rightarrow> (st, None))))"

definition choose_depth_by_value ::
  "int \<Rightarrow> (nat option \<Rightarrow> real \<Rightarrow> string) \<Rightarrow> depth_policy \<Rightarrow> depth_state \<Rightarrow> int \<Rightarrow> int \<Rightarrow> int \<Rightarrow>
   depth_state \<times> depth_decision option" where
  "choose_depth_by_value md fmt policy st current_depth depth_ceiling cycle =
     (let current = bounded_depth md current_depth;
          deepest = bounded_depth md depth_ceiling;
          cycle = max 0 cycle;
          p = clamp_policy policy
      in if active_probe_target st = 0 then choose_neighbour md fmt p st current deepest cycle
         else if active_probe_target st \<noteq> current \<or>
                 \<bar>active_probe_target st - active_probe_origin st\<bar> \<noteq> 1
         then choose_neighbour md fmt p (st\<lparr>active_probe_origin := 0, active_probe_target := 0\<rparr>)
                current deepest cycle
         else settle_probe md fmt p st current cycle)"

section \<open>Snapshot\<close>

record depth_snapshot =
  values_tok_s :: "(string \<times> real option) list"
  conditional_acceptance :: "(string \<times> real option) list"
  sample_counts :: "(string \<times> nat) list"
  snap_origin :: int
  snap_target :: int
  snap_reverts :: "(string \<times> int) list"
  snap_transitions :: "depth_transition list"

definition depths :: "int \<Rightarrow> int list" where
  "depths md = [1..md]"

text \<open>\<open>rnd n x\<close> is Python's \<open>round(x, n)\<close>.\<close>

definition adaptive_value_snapshot ::
  "int \<Rightarrow> (nat \<Rightarrow> real \<Rightarrow> real) \<Rightarrow> depth_state \<Rightarrow> int \<Rightarrow> depth_snapshot" where
  "adaptive_value_snapshot md rnd st minimum =
     (let key = (\<lambda>d. CHR ''d'' # show_int d) in
      \<lparr>values_tok_s = map (\<lambda>d. (key d, map_option (rnd 3) (depth_value_tps md st d minimum))) (depths md),
       conditional_acceptance =
         map (\<lambda>d. (key d, map_option (rnd 6) (depth_conditional_acceptance md st d minimum))) (depths md),
       sample_counts = map (\<lambda>d. (key d, length (samples_by_depth st ! slot d))) (depths md),
       snap_origin = active_probe_origin st, snap_target = active_probe_target st,
       snap_reverts = map (\<lambda>d. (key d, probe_revert_counts st ! slot d)) (depths md),
       snap_transitions = transitions st\<rparr>)"

end
