(* ===== verification/Depth_Props.thy ===== *)
theory Depth_Props
  imports Depth_Control
begin

text \<open>
  What the depth controller keeps over any sequence of its operations: the books of windows, probes and transitions,
  the evidence behind each decision, and that a probe ends once both of its windows are filled.
\<close>

section \<open>The books\<close>

definition sample_ok :: "int \<Rightarrow> depth_sample \<Rightarrow> bool" where
  "sample_ok depth x \<longleftrightarrow> 0 < elapsed_ms x \<and> 0 \<le> accepted_drafts x \<and> accepted_drafts x \<le> depth \<and>
     confirmed_tokens x = 1 + accepted_drafts x \<and> 0 \<le> s_cycle x"

definition transition_ok :: "int \<Rightarrow> depth_transition \<Rightarrow> bool" where
  "transition_ok md x \<longleftrightarrow> 1 \<le> tr_from x \<and> tr_from x \<le> md \<and> 1 \<le> tr_to x \<and> tr_to x \<le> md \<and>
     (tr_event x = ''safety_change'' \<or> \<bar>tr_from x - tr_to x\<bar> = 1)"

definition probe_ok :: "int \<Rightarrow> int \<Rightarrow> depth_state \<Rightarrow> bool" where
  "probe_ok md ms st \<longleftrightarrow> (active_probe_target st = 0 \<and> active_probe_origin st = 0) \<or>
     (1 \<le> active_probe_origin st \<and> active_probe_origin st \<le> md \<and> 1 \<le> active_probe_target st \<and> active_probe_target st \<le> md \<and>
      \<bar>active_probe_target st - active_probe_origin st\<bar> = 1 \<and>
      ms \<le> int (length (samples_by_depth st ! slot (active_probe_origin st))))"

definition windows_ok :: "int \<Rightarrow> int \<Rightarrow> depth_sample list list \<Rightarrow> bool" where
  "windows_ok md w bs \<longleftrightarrow> length bs = nat md \<and>
     (\<forall>i < nat md. int (length (bs ! i)) \<le> max 1 w \<and> list_all (sample_ok (int i + 1)) (bs ! i))"

definition debts_ok :: "int \<Rightarrow> int list \<Rightarrow> bool" where
  "debts_ok md cs \<longleftrightarrow> length cs = nat md \<and> list_all (\<lambda>c. 0 \<le> c \<and> c \<le> 31) cs"

definition depth_inv :: "int \<Rightarrow> int \<Rightarrow> int \<Rightarrow> depth_state \<Rightarrow> bool" where
  "depth_inv md w ms st \<longleftrightarrow> windows_ok md w (samples_by_depth st) \<and> debts_ok md (probe_revert_counts st) \<and>
     length (last_sample_cycle st) = nat md \<and> length (last_probe_cycle st) = nat md \<and> probe_ok md ms st \<and>
     length (transitions st) \<le> 24 \<and> list_all (transition_ok md) (transitions st)"

lemma depth_invI:
  "windows_ok md w (samples_by_depth st) \<Longrightarrow> debts_ok md (probe_revert_counts st) \<Longrightarrow>
   length (last_sample_cycle st) = nat md \<Longrightarrow> length (last_probe_cycle st) = nat md \<Longrightarrow> probe_ok md ms st \<Longrightarrow>
   length (transitions st) \<le> 24 \<Longrightarrow> list_all (transition_ok md) (transitions st) \<Longrightarrow> depth_inv md w ms st"
  by (simp add: depth_inv_def)

lemma bounded_range [simp]: "1 \<le> md \<Longrightarrow> 1 \<le> bounded_depth md d \<and> bounded_depth md d \<le> md"
  by (auto simp: bounded_depth_def)

lemma bounded_same: "1 \<le> d \<Longrightarrow> d \<le> md \<Longrightarrow> bounded_depth md d = d"
  by (auto simp: bounded_depth_def)

lemma slot_less: "1 \<le> d \<Longrightarrow> d \<le> md \<Longrightarrow> slot d < nat md"
  by simp

lemma windows_nth:
  assumes "windows_ok md w bs" "1 \<le> d" "d \<le> md"
  shows "int (length (bs ! slot d)) \<le> max 1 w" "list_all (sample_ok d) (bs ! slot d)"
proof -
  have "int (slot d) + 1 = d" using assms(2) by simp
  then show "int (length (bs ! slot d)) \<le> max 1 w" "list_all (sample_ok d) (bs ! slot d)"
    using assms(1) slot_less [OF assms(2,3)] unfolding windows_ok_def by metis+
qed

lemma windows_ok_set:
  "windows_ok md w bs \<Longrightarrow> int (length b) \<le> max 1 w \<Longrightarrow> list_all (sample_ok d) b \<Longrightarrow> 1 \<le> d \<Longrightarrow>
   windows_ok md w (bs[slot d := b])"
proof -
  assume a: "windows_ok md w bs" "int (length b) \<le> max 1 w" "list_all (sample_ok d) b" "1 \<le> d"
  have "int (length (bs[slot d := b] ! i)) \<le> max 1 w \<and> list_all (sample_ok (int i + 1)) (bs[slot d := b] ! i)" if "i < nat md" for i
  proof (cases "i = slot d")
    case True
    then have "int i + 1 = d" "bs[slot d := b] ! i = b" using a(1,4) that by (simp_all add: windows_ok_def)
    then show ?thesis using a(2,3) by simp
  next
    case False
    then show ?thesis using a(1) that by (simp add: windows_ok_def)
  qed
  then show ?thesis using a(1) by (simp add: windows_ok_def)
qed

lemma grown_bucket: "length (bs ! i) \<le> length b \<Longrightarrow> length (bs ! j) \<le> length (bs[i := b] ! j)"
  by (cases "i < length bs") (auto simp: nth_list_update list_update_beyond)

lemma debts_ok_set: "debts_ok md cs \<Longrightarrow> 0 \<le> c \<Longrightarrow> c \<le> 31 \<Longrightarrow> debts_ok md (cs[i := c])"
  by (cases "i < length cs") (auto simp: debts_ok_def list_all_iff dest!: set_update_subset_insert [THEN subsetD])

lemma debts_nth: "debts_ok md cs \<Longrightarrow> i < nat md \<Longrightarrow> 0 \<le> cs ! i \<and> cs ! i \<le> 31"
  by (simp add: debts_ok_def list_all_length)

section \<open>The operations keep them\<close>

lemma record_keeps:
  assumes "length (transitions st) \<le> 24" "list_all (transition_ok md) (transitions st)"
    and "1 \<le> md" "ev = ''safety_change'' \<or> \<bar>bounded_depth md o1 - bounded_depth md t1\<bar> = 1"
  shows "length (transitions (record_transition md st c o1 t1 ev r)) \<le> 24"
    "list_all (transition_ok md) (transitions (record_transition md st c o1 t1 ev r))"
proof -
  let ?trs = "transitions st @ [\<lparr>tr_cycle = c, tr_from = bounded_depth md o1, tr_to = bounded_depth md t1, tr_event = ev, tr_reason = r\<rparr>]"
  have "list_all (transition_ok md) ?trs" using assms by (simp add: transition_ok_def)
  then have "list_all (transition_ok md) (drop n ?trs)" for n unfolding list_all_iff using set_drop_subset by fast
  moreover have "transitions (record_transition md st c o1 t1 ev r) = drop (length ?trs - 24) ?trs"
    by (simp add: record_transition_def Let_def)
  ultimately show "list_all (transition_ok md) (transitions (record_transition md st c o1 t1 ev r))" by (simp only:)
qed (simp add: record_transition_def Let_def)

lemma record_fields [simp]:
  "samples_by_depth (record_transition md st c o1 t1 ev r) = samples_by_depth st"
  "probe_revert_counts (record_transition md st c o1 t1 ev r) = probe_revert_counts st"
  "last_sample_cycle (record_transition md st c o1 t1 ev r) = last_sample_cycle st"
  "last_probe_cycle (record_transition md st c o1 t1 ev r) = last_probe_cycle st"
  "active_probe_origin (record_transition md st c o1 t1 ev r) = active_probe_origin st"
  "active_probe_target (record_transition md st c o1 t1 ev r) = active_probe_target st"
  "last_change_cycle (record_transition md st c o1 t1 ev r) = last_change_cycle st"
  by (simp_all add: record_transition_def Let_def)

lemma inv_record:
  "depth_inv md w ms st \<Longrightarrow> 1 \<le> md \<Longrightarrow> ev = ''safety_change'' \<or> \<bar>bounded_depth md o1 - bounded_depth md t1\<bar> = 1 \<Longrightarrow>
   depth_inv md w ms (record_transition md st c o1 t1 ev r)"
  using record_keeps [of st md ev o1 t1] by (simp add: depth_inv_def probe_ok_def)

lemma init_inv: "depth_inv md w ms (depth_init md)"
  by (auto simp: depth_inv_def depth_init_def windows_ok_def debts_ok_def probe_ok_def list_all_iff)

lemma add_keeps:
  assumes i: "depth_inv md w ms st" and md: "1 \<le> md"
  shows "depth_inv md w ms (fst (add_depth_cycle_sample md st depth accepted elapsed cycle w))"
proof (cases "elapsed \<le> 0")
  case True
  then show ?thesis using i by (simp add: add_depth_cycle_sample_def Let_def)
next
  case False
  define d where "d = bounded_depth md depth"
  define x where "x = \<lparr>elapsed_ms = elapsed, confirmed_tokens = 1 + max 0 (min d accepted), accepted_drafts = max 0 (min d accepted),
      s_cycle = max 0 cycle\<rparr>"
  define old where "old = samples_by_depth st ! slot d"
  define b where "b = drop (nat (max 0 (int (length (old @ [x])) - max 1 w))) (old @ [x])"
  have d: "1 \<le> d" "d \<le> md" using md by (simp_all add: d_def)
  have r: "fst (add_depth_cycle_sample md st depth accepted elapsed cycle w)
      = st\<lparr>samples_by_depth := (samples_by_depth st)[slot d := b], last_sample_cycle := (last_sample_cycle st)[slot d := s_cycle x]\<rparr>"
    using False by (simp add: add_depth_cycle_sample_def Let_def d_def x_def old_def b_def)
  have w: "windows_ok md w (samples_by_depth st)" using i by (simp add: depth_inv_def)
  have l: "int (length old) \<le> max 1 w" "list_all (sample_ok d) old"
    using windows_nth [OF w d] by (simp_all add: old_def)
  have "sample_ok d x" using False d by (simp add: sample_ok_def x_def)
  then have "list_all (sample_ok d) (old @ [x])" using l(2) by simp
  then have "list_all (sample_ok d) b" unfolding b_def list_all_iff using set_drop_subset by fast
  moreover have len: "int (length b) \<le> max 1 w" "length old \<le> length b" using l(1) by (auto simp: b_def)
  ultimately have "windows_ok md w ((samples_by_depth st)[slot d := b])" using windows_ok_set [OF w] d(1) by blast
  moreover have "probe_ok md ms (st\<lparr>samples_by_depth := (samples_by_depth st)[slot d := b],
      last_sample_cycle := (last_sample_cycle st)[slot d := s_cycle x]\<rparr>)"
    using i grown_bucket [OF len(2) [unfolded old_def], of "slot (active_probe_origin st)"]
    by (auto simp: depth_inv_def probe_ok_def)
  ultimately show ?thesis using i unfolding r by (simp add: depth_inv_def)
qed

lemma finish_keeps:
  assumes "depth_inv md w ms st" "1 \<le> md"
  shows "depth_inv md w ms (fst (finish_armed_depth_cycle md st depth accepted cycle now w))"
proof -
  have "depth_inv md w ms (st\<lparr>armed_at := 0, armed_depth := 0\<rparr>)" using assms(1) by (simp add: depth_inv_def probe_ok_def)
  then show ?thesis using add_keeps [OF _ assms(2)] by (simp add: finish_armed_depth_cycle_def Let_def)
qed

lemma arm_keeps: "depth_inv md w ms st \<Longrightarrow> depth_inv md w ms (arm_depth_cycle md st depth now)"
  by (simp add: arm_depth_cycle_def depth_inv_def probe_ok_def)

lemma note_keeps:
  assumes "depth_inv md w ms st" "1 \<le> md"
  shows "depth_inv md w ms (note_forced_depth_change md st o1 t1 cycle reason)"
proof -
  define st1 where "st1 = st\<lparr>active_probe_origin := 0, active_probe_target := 0, probe_revert_counts := replicate (nat md) 0\<rparr>"
  define st2 where "st2 = st1\<lparr>last_change_cycle := cycle\<rparr>"
  have 1: "depth_inv md w ms st1" using assms(1) by (auto simp: st1_def depth_inv_def probe_ok_def debts_ok_def list_all_iff)
  then have 2: "depth_inv md w ms st2" by (simp add: st2_def depth_inv_def probe_ok_def)
  have "depth_inv md w ms (record_transition md st2 cycle (bounded_depth md o1) (bounded_depth md t1) ''safety_change'' reason)"
    using 2 assms(2) by (rule inv_record) simp
  then show ?thesis using 1 by (simp add: note_forced_depth_change_def Let_def st1_def st2_def)
qed

section \<open>Decisions\<close>

lemma value_enough: "depth_value_tps md st d ms = Some v \<Longrightarrow> ms \<le> int (length (bucket_of md st d)) \<and> bucket_of md st d \<noteq> []"
  by (auto simp: depth_value_tps_def Let_def split: if_splits)

lemma value_measured:
  assumes "depth_inv md w m st" "1 \<le> md" "1 \<le> ms" "ms \<le> int (length (bucket_of md st d))"
  shows "\<exists>v. depth_value_tps md st d ms = Some v"
proof -
  let ?b = "bucket_of md st d"
  have "list_all (sample_ok (bounded_depth md d)) ?b"
    using assms(1,2) windows_nth(2) [of md w "samples_by_depth st" "bounded_depth md d"] by (simp add: depth_inv_def bucket_of_def)
  then have p: "x \<in> set (map elapsed_ms ?b) \<Longrightarrow> 0 < x" for x by (auto simp: list_all_iff sample_ok_def)
  have "?b \<noteq> []" using assms(3,4) by auto
  then have "0 < sum_list (map elapsed_ms ?b)"
  proof (cases ?b)
    case (Cons x xs)
    have "y \<in> set (map elapsed_ms xs) \<Longrightarrow> 0 \<le> y" for y using p [of y] Cons by auto
    then have "0 \<le> sum_list (map elapsed_ms xs)" by (rule sum_list_nonneg)
    moreover have "0 < elapsed_ms x" using p Cons by simp
    ultimately show ?thesis using Cons by simp
  qed simp
  then show ?thesis using assms(3,4) by (simp add: depth_value_tps_def Let_def)
qed

lemma clamp_bounds [simp]: "2 \<le> minimum_samples (clamp_policy p)" "0 \<le> hysteresis (clamp_policy p)"
  by (simp_all add: clamp_policy_def Let_def)

lemma beating_member: "beating_candidate md p st cv cs = Some c \<Longrightarrow> c \<in> set cs"
  by (induction cs) (auto split: option.splits if_splits)

lemma due_member: "due_candidate p st cycle cs = Some c \<Longrightarrow> c \<in> set cs"
  by (induction cs) (auto split: if_splits)

lemma candidate_range:
  "c \<in> set (probe_candidates md p st current deepest) \<Longrightarrow> 1 \<le> current \<Longrightarrow> current \<le> md \<Longrightarrow> deepest \<le> md \<Longrightarrow>
   1 \<le> c \<and> c \<le> md \<and> \<bar>c - current\<bar> = 1 \<and>
   (current < c \<longrightarrow> c \<le> deepest \<and> (\<exists>a. depth_conditional_acceptance md st current (minimum_samples p) = Some a \<and> raise_min_acceptance p \<le> a))"
  by (auto simp: probe_candidates_def split: if_splits option.splits)

text \<open>The evidence a decision at \<open>current\<close> rests on.\<close>

definition settled_by :: "int \<Rightarrow> depth_policy \<Rightarrow> depth_state \<Rightarrow> int \<Rightarrow> depth_decision \<Rightarrow> bool" where
  "settled_by md p st current d \<longleftrightarrow>
     active_probe_target st = current \<and> \<bar>current - active_probe_origin st\<bar> = 1 \<and>
     (\<exists>tv ov. depth_value_tps md st current (minimum_samples p) = Some tv \<and>
        depth_value_tps md st (active_probe_origin st) (minimum_samples p) = Some ov \<and>
        (if ov * (1 + hysteresis p) \<le> tv then d_event d = ''probe_keep'' \<and> target_depth d = current
         else d_event d = ''probe_revert'' \<and> target_depth d = active_probe_origin st))"

definition probed_by :: "int \<Rightarrow> depth_policy \<Rightarrow> depth_state \<Rightarrow> int \<Rightarrow> int \<Rightarrow> int \<Rightarrow> depth_decision \<Rightarrow> depth_state \<Rightarrow> bool" where
  "probed_by md p st current deepest cycle d st' \<longleftrightarrow> d_event d = ''probe_start'' \<and> \<bar>target_depth d - current\<bar> = 1 \<and>
     (current < target_depth d \<longrightarrow> target_depth d \<le> deepest \<and>
        (\<exists>a. depth_conditional_acceptance md st current (minimum_samples p) = Some a \<and> raise_min_acceptance p \<le> a)) \<and>
     depth_value_tps md st current (minimum_samples p) \<noteq> None \<and> cooldown_cycles p \<le> cycle - last_change_cycle st \<and>
     active_probe_origin st' = current \<and> active_probe_target st' = target_depth d \<and>
     samples_by_depth st' = (samples_by_depth st)[slot (target_depth d) := []]"

lemma settle_sound:
  assumes i: "depth_inv md w (minimum_samples p) st" and md: "1 \<le> md" and c: "active_probe_target st = current"
    "\<bar>current - active_probe_origin st\<bar> = 1" and r: "settle_probe md fmt p st current cycle = (st', dec)"
  shows "depth_inv md w (minimum_samples p) st' \<and> (case dec of None \<Rightarrow> st' = st | Some d \<Rightarrow> settled_by md p st current d)"
proof (cases dec)
  case None
  then have "st' = st" using r by (auto simp: settle_probe_def Let_def split: option.splits if_splits)
  then show ?thesis using i None by simp
next
  case (Some d)
  have b: "1 \<le> current" "current \<le> md" "1 \<le> active_probe_origin st" "active_probe_origin st \<le> md"
    using i c by (auto simp: depth_inv_def probe_ok_def)
  obtain tv ov where v: "depth_value_tps md st current (minimum_samples p) = Some tv"
    "depth_value_tps md st (active_probe_origin st) (minimum_samples p) = Some ov"
    using r Some by (auto simp: settle_probe_def Let_def split: option.splits)
  have n: "0 \<le> probe_revert_counts st ! slot current" using i debts_nth [OF _ slot_less [OF b(1,2)]] by (auto simp: depth_inv_def)
  have a: "\<bar>bounded_depth md current - bounded_depth md (active_probe_origin st)\<bar> = 1"
    "\<bar>bounded_depth md (active_probe_origin st) - bounded_depth md current\<bar> = 1"
    using b c(2) by (simp_all add: bounded_same abs_minus_commute)
  have "settled_by md p st current d" using r Some v c by (auto simp: settle_probe_def settled_by_def Let_def split: if_splits)
  moreover have "depth_inv md w (minimum_samples p) st'"
  proof (cases "ov * (1 + hysteresis p) \<le> tv")
    case True
    define s2 where "s2 = st\<lparr>active_probe_origin := 0, active_probe_target := 0,
        probe_revert_counts := (probe_revert_counts st)[slot current := 0], last_change_cycle := cycle\<rparr>"
    have "depth_inv md w (minimum_samples p) s2" using i by (simp add: s2_def depth_inv_def probe_ok_def debts_ok_set)
    moreover have "st' = record_transition md s2 cycle (active_probe_origin st) current ''probe_keep''
        (probe_reason fmt current tv ''>='' (active_probe_origin st) ov (hysteresis p))"
      using r v True by (simp add: settle_probe_def Let_def s2_def)
    ultimately show ?thesis using inv_record md a(2) by simp
  next
    case False
    define s2 where "s2 = st\<lparr>active_probe_origin := 0, active_probe_target := 0, last_change_cycle := cycle,
        probe_revert_counts := (probe_revert_counts st)[slot current := min 31 (probe_revert_counts st ! slot current + 1)]\<rparr>"
    have "depth_inv md w (minimum_samples p) s2" using i n by (simp add: s2_def depth_inv_def probe_ok_def debts_ok_set)
    moreover have "st' = record_transition md s2 cycle current (active_probe_origin st) ''probe_revert''
        (probe_reason fmt current tv ''<'' (active_probe_origin st) ov (hysteresis p))"
      using r v False by (simp add: settle_probe_def Let_def s2_def)
    ultimately show ?thesis using inv_record md a(1) by simp
  qed
  ultimately show ?thesis using Some by simp
qed

lemma open_inv:
  assumes i: "depth_inv md w (minimum_samples p) st" and b: "1 \<le> current" "current \<le> md" "1 \<le> c" "c \<le> md" "\<bar>c - current\<bar> = 1"
    and v: "minimum_samples p \<le> int (length (samples_by_depth st ! slot current))"
  shows "depth_inv md w (minimum_samples p) (fst (open_probe md fmt p st current c cycle cv))"
proof -
  define s1 where "s1 = st\<lparr>samples_by_depth := (samples_by_depth st)[slot c := []], active_probe_origin := current,
      active_probe_target := c, last_probe_cycle := (last_probe_cycle st)[slot c := cycle], last_change_cycle := cycle\<rparr>"
  have "windows_ok md w ((samples_by_depth st)[slot c := []])"
    using windows_ok_set [of md w "samples_by_depth st" "[]" c] i b(3) by (simp add: depth_inv_def)
  moreover have "slot c \<noteq> slot current" using b by auto
  ultimately have "depth_inv md w (minimum_samples p) s1" using i b v by (simp add: s1_def depth_inv_def probe_ok_def)
  moreover have "\<bar>bounded_depth md current - bounded_depth md c\<bar> = 1" using b by (simp add: bounded_same abs_minus_commute)
  ultimately show ?thesis using b(1,2) inv_record [of md w "minimum_samples p" s1 "''probe_start''" current c]
    by (simp add: open_probe_def Let_def s1_def)
qed

lemma neighbour_sound:
  assumes i: "depth_inv md w (minimum_samples p) st" and b: "1 \<le> current" "current \<le> md" "deepest \<le> md"
    and r: "choose_neighbour md fmt p st current deepest cycle = (st', dec)"
  shows "depth_inv md w (minimum_samples p) st' \<and>
    (case dec of None \<Rightarrow> st' = st | Some d \<Rightarrow> probed_by md p st current deepest cycle d st')"
proof (cases dec)
  case None
  then have "st' = st" using r by (auto simp: choose_neighbour_def open_probe_def Let_def split: option.splits if_splits)
  then show ?thesis using i None by simp
next
  case (Some d)
  let ?cs = "probe_candidates md p st current deepest"
  obtain cv c where cv: "depth_value_tps md st current (minimum_samples p) = Some cv"
    and cool: "cooldown_cycles p \<le> cycle - last_change_cycle st" and c: "c \<in> set ?cs"
    and o: "(st', Some d) = open_probe md fmt p st current c cycle cv"
    using r Some beating_member due_member unfolding choose_neighbour_def Let_def
    by (auto split: option.splits if_splits) metis+
  note range = candidate_range [OF c b]
  have "minimum_samples p \<le> int (length (samples_by_depth st ! slot current))"
    using value_enough [OF cv] b by (simp add: bucket_of_def bounded_same)
  from open_inv [OF i b(1,2) _ _ _ this] range have "depth_inv md w (minimum_samples p) (fst (open_probe md fmt p st current c cycle cv))" by blast
  moreover have "probed_by md p st current deepest cycle d st'"
    using o range cv cool by (simp add: probed_by_def open_probe_def Let_def)
  ultimately show ?thesis using Some o by (metis fst_conv option.simps(5))
qed

text \<open>
  Every decision is measured: it keeps a probe whose windows say that it wins by the hysteresis, takes back one that
  does not, or starts one at a neighbouring depth, deeper only within the ceiling and on enough acceptance.
\<close>

lemma choose_sound:
  fixes policy :: depth_policy
  defines "p \<equiv> clamp_policy policy"
  assumes i: "depth_inv md w (minimum_samples p) st" and md: "1 \<le> md"
    and r: "choose_depth_by_value md fmt policy st current deepest cycle = (st', dec)"
  shows "depth_inv md w (minimum_samples p) st' \<and> (case dec of
      None \<Rightarrow> samples_by_depth st' = samples_by_depth st \<and> transitions st' = transitions st
    | Some d \<Rightarrow> 1 \<le> target_depth d \<and> target_depth d \<le> md \<and>
        (settled_by md p st (bounded_depth md current) d \<or>
         probed_by md p st (bounded_depth md current) (bounded_depth md deepest) (max 0 cycle) d st'))"
proof -
  let ?c = "bounded_depth md current" and ?d = "bounded_depth md deepest" and ?y = "max 0 cycle"
  have b: "1 \<le> ?c" "?c \<le> md" "?d \<le> md" using md by simp_all
  let ?t = "active_probe_target st" and ?o = "active_probe_origin st"
  consider "?t = 0" | "?t \<noteq> 0" "?t \<noteq> ?c \<or> \<bar>?t - ?o\<bar> \<noteq> 1" | "?t \<noteq> 0" "?t = ?c" "\<bar>?t - ?o\<bar> = 1" by blast
  then show ?thesis
  proof cases
    case 1
    then have "choose_neighbour md fmt p st ?c ?d ?y = (st', dec)" using r by (simp add: choose_depth_by_value_def Let_def p_def)
    from neighbour_sound [OF i b this] show ?thesis
      using b by (cases dec) (auto simp: probed_by_def depth_inv_def probe_ok_def)
  next
    case 2
    define s0 where "s0 = st\<lparr>active_probe_origin := 0, active_probe_target := 0\<rparr>"
    have n: "choose_neighbour md fmt p s0 ?c ?d ?y = (st', dec)" using 2 r by (auto simp: choose_depth_by_value_def Let_def p_def s0_def)
    have "depth_inv md w (minimum_samples p) s0" using i by (simp add: s0_def depth_inv_def probe_ok_def)
    from neighbour_sound [OF this b n] have q: "depth_inv md w (minimum_samples p) st'"
      "case dec of None \<Rightarrow> st' = s0 | Some d \<Rightarrow> probed_by md p s0 ?c ?d ?y d st'" by simp_all
    have "probed_by md p s0 ?c ?d ?y d st' = probed_by md p st ?c ?d ?y d st'" for d
      by (simp add: probed_by_def s0_def depth_value_tps_def depth_conditional_acceptance_def bucket_of_def)
    then show ?thesis using q by (cases dec) (auto simp: s0_def probed_by_def depth_inv_def probe_ok_def)
  next
    case 3
    then have "settle_probe md fmt p st ?c ?y = (st', dec)" using r by (simp add: choose_depth_by_value_def Let_def p_def)
    from settle_sound [OF i md 3(2) _ this] 3 show ?thesis
      using i b by (cases dec) (auto simp: settled_by_def depth_inv_def probe_ok_def split: if_splits)
  qed
qed

section \<open>Runs of the controller\<close>

text \<open>The calls a lane makes on the state of a request, in any order and with any readings.\<close>

datatype depth_call =
    Arm int real
  | Finish int int int real
  | Forced int int int string
  | Choose int int int

fun depth_call_step ::
  "int \<Rightarrow> int \<Rightarrow> (nat option \<Rightarrow> real \<Rightarrow> string) \<Rightarrow> depth_policy \<Rightarrow> depth_call \<Rightarrow> depth_state \<Rightarrow> depth_state" where
  "depth_call_step md w fmt p (Arm d now) st = arm_depth_cycle md st d now"
| "depth_call_step md w fmt p (Finish d accepted cycle now) st = fst (finish_armed_depth_cycle md st d accepted cycle now w)"
| "depth_call_step md w fmt p (Forced o1 t1 cycle reason) st = note_forced_depth_change md st o1 t1 cycle reason"
| "depth_call_step md w fmt p (Choose current deepest cycle) st = fst (choose_depth_by_value md fmt p st current deepest cycle)"

definition depth_run ::
  "int \<Rightarrow> int \<Rightarrow> (nat option \<Rightarrow> real \<Rightarrow> string) \<Rightarrow> depth_policy \<Rightarrow> depth_call list \<Rightarrow> depth_state" where
  "depth_run md w fmt p cs = fold (depth_call_step md w fmt p) cs (depth_init md)"

lemma call_keeps:
  assumes "depth_inv md w (minimum_samples (clamp_policy p)) st" "1 \<le> md"
  shows "depth_inv md w (minimum_samples (clamp_policy p)) (depth_call_step md w fmt p c st)"
proof (cases c)
  case (Choose current deepest cycle)
  then show ?thesis using choose_sound [OF assms prod.collapse [symmetric], of fmt current deepest cycle] by simp
qed (use assms arm_keeps finish_keeps note_keeps in simp_all)

lemma run_inv: "1 \<le> md \<Longrightarrow> depth_inv md w (minimum_samples (clamp_policy p)) (depth_run md w fmt p cs)"
proof (induction cs rule: rev_induct)
  case (snoc c cs)
  then show ?case using call_keeps by (simp add: depth_run_def)
qed (simp add: depth_run_def init_inv)

text \<open>
  The controller's books and decisions.  After any calls every window holds at most its width of samples, each with a
  positive duration and a confirmed count within the depth, the transitions are the last 24, all within the ceiling and
  between neighbours unless a safety gate forced them, and an open probe is one step from an origin whose window is
  still filled.  Whatever is decided next is measured in these windows.
\<close>

lemma depth_controller_sound:
  assumes "1 \<le> md" "choose_depth_by_value md fmt p (depth_run md w fmt p cs) current deepest cycle = (st', Some d)"
  shows "depth_inv md w (minimum_samples (clamp_policy p)) (depth_run md w fmt p cs) \<and> 1 \<le> target_depth d \<and> target_depth d \<le> md \<and>
    (settled_by md (clamp_policy p) (depth_run md w fmt p cs) (bounded_depth md current) d \<or>
     probed_by md (clamp_policy p) (depth_run md w fmt p cs) (bounded_depth md current) (bounded_depth md deepest) (max 0 cycle) d st')"
  using choose_sound [OF run_inv [OF assms(1)] assms] run_inv [OF assms(1)] by simp

text \<open>A probe ends: once the window of its target is filled, the next call at the target settles it.\<close>

lemma open_probe_settles:
  assumes "1 \<le> md" and t: "active_probe_target (depth_run md w fmt p cs) = current" "current \<noteq> 0"
    and full: "minimum_samples (clamp_policy p) \<le> int (length (samples_by_depth (depth_run md w fmt p cs) ! slot current))"
  shows "\<exists>d st'. choose_depth_by_value md fmt p (depth_run md w fmt p cs) current deepest cycle = (st', Some d) \<and>
    d_event d \<in> {''probe_keep'', ''probe_revert''} \<and> active_probe_target st' = 0"
proof -
  let ?st = "depth_run md w fmt p cs" and ?p = "clamp_policy p"
  have i: "depth_inv md w (minimum_samples ?p) ?st" by (rule run_inv [OF assms(1)])
  have b: "1 \<le> current" "current \<le> md" "1 \<le> active_probe_origin ?st" "active_probe_origin ?st \<le> md"
    "\<bar>current - active_probe_origin ?st\<bar> = 1" "minimum_samples ?p \<le> int (length (samples_by_depth ?st ! slot (active_probe_origin ?st)))"
    using i t by (auto simp: depth_inv_def probe_ok_def)
  have ms: "1 \<le> minimum_samples ?p" using clamp_bounds(1) [of p] by linarith
  obtain tv where "depth_value_tps md ?st current (minimum_samples ?p) = Some tv"
    using value_measured [OF i assms(1) ms, of current] full b(1,2) by (auto simp: bucket_of_def bounded_same)
  moreover obtain ov where "depth_value_tps md ?st (active_probe_origin ?st) (minimum_samples ?p) = Some ov"
    using value_measured [OF i assms(1) ms, of "active_probe_origin ?st"] b(3,4,6) by (auto simp: bucket_of_def bounded_same)
  moreover have "choose_depth_by_value md fmt p ?st current deepest cycle = settle_probe md fmt ?p ?st current (max 0 cycle)"
    using t b by (simp add: choose_depth_by_value_def Let_def bounded_same)
  ultimately show ?thesis by (simp add: settle_probe_def Let_def)
qed

text \<open>
  A window narrower than the samples a verdict asks for never fills: the environment may set both, and the controller
  then decides nothing at all.
\<close>

lemma narrow_window_is_inert:
  assumes "1 \<le> md" "max 1 w < minimum_samples (clamp_policy p)"
  shows "snd (choose_depth_by_value md fmt p (depth_run md w fmt p cs) current deepest cycle) = None"
proof (rule ccontr)
  assume "\<not> ?thesis"
  then obtain d st' where d: "choose_depth_by_value md fmt p (depth_run md w fmt p cs) current deepest cycle = (st', Some d)"
    by (metis not_None_eq prod.collapse)
  have i: "depth_inv md w (minimum_samples (clamp_policy p)) (depth_run md w fmt p cs)" by (rule run_inv [OF assms(1)])
  have "depth_value_tps md (depth_run md w fmt p cs) (bounded_depth md current) (minimum_samples (clamp_policy p)) \<noteq> None"
    using depth_controller_sound [OF assms(1) d] by (auto simp: settled_by_def probed_by_def)
  then have "minimum_samples (clamp_policy p) \<le> int (length (bucket_of md (depth_run md w fmt p cs) (bounded_depth md current)))"
    using value_enough by blast
  moreover have "int (length (bucket_of md (depth_run md w fmt p cs) (bounded_depth md current))) \<le> max 1 w"
    using i windows_nth(1) [of md w _ "bounded_depth md (bounded_depth md current)"] assms(1) by (simp add: depth_inv_def bucket_of_def)
  ultimately show False using assms(2) by linarith
qed

end
