(* ===== verification/Ar_Props.thy ===== *)
theory Ar_Props
  imports Ar_Safety
begin

text \<open>
  When the governor trips, and when it does not: a trip is justified by the whole window, a majority of healthy
  cycles prevents it, a fresh window is never judged, and a window of losing cycles ends in a trip as soon as it
  is full.
\<close>

section \<open>Medians\<close>

lemma median_le_majority:
  assumes "length xs div 2 < length (filter (\<lambda>x. x \<le> b) xs)"
  shows "median xs \<le> (b::real)"
proof -
  let ?ys = "sort xs" and ?m = "length xs div 2"
  have ne: "xs \<noteq> []" using assms by auto
  have m: "?m < length ?ys" using ne by (cases xs) simp_all
  have "length (filter (\<lambda>x. x \<le> b) ?ys) = length (filter (\<lambda>x. x \<le> b) xs)"
    by (simp add: filter_sort)
  then have c: "?m < card {i. i < length ?ys \<and> ?ys ! i \<le> b}" using assms by (simp add: length_filter_conv_card)
  have "?ys ! ?m \<le> b"
  proof (rule ccontr)
    assume gt: "\<not> ?ys ! ?m \<le> b"
    have "{i. i < length ?ys \<and> ?ys ! i \<le> b} \<subseteq> {..<?m}"
    proof
      fix i assume "i \<in> {i. i < length ?ys \<and> ?ys ! i \<le> b}"
      then have i: "i < length ?ys" "?ys ! i \<le> b" by simp_all
      have "\<not> ?m \<le> i"
      proof
        assume "?m \<le> i"
        then have "?ys ! ?m \<le> ?ys ! i" using i by (intro sorted_nth_mono) simp_all
        with i gt show False by linarith
      qed
      then show "i \<in> {..<?m}" by simp
    qed
    from card_mono [OF _ this] show False using c by simp
  qed
  then show ?thesis using ne by (simp add: median_def)
qed

section \<open>What a trip means\<close>

lemma judged_trip:
  assumes "ar_judge st window c em now seed margin probe scaled = (st', Some t)" and "hd (ring st) = (c0, e0, t0)"
  shows "ring st' = ring st \<and> e0 < em \<and> t_mtp_ms_per_tok t = (now - t0) * 1000 / of_int (em - e0) \<and>
    0 < seed \<and> seed \<le> t_ar_baseline t \<and> t_ar_baseline t * margin < t_mtp_ms_per_tok t \<and>
    (probe \<or> cycle_costs (ring st) = [] \<or> t_ar_baseline t * margin < median (cycle_costs (ring st)))"
  using assms
  by (auto simp: ar_judge_def windowed_ar_verdict_def Let_def not_le mult_le_cancel_left1 split: if_splits option.splits prod.splits)

lemma early_trip:
  assumes "ar_early_abort st c em now seed margin = Some t" and "hd (ring st) = (c0, e0, t0)"
  shows "e0 < em \<and> t_mtp_ms_per_tok t = (now - t0) * 1000 / of_int (em - e0) \<and> t_ar_baseline t = seed \<and>
    seed * (3 / 2) < t_mtp_ms_per_tok t"
  using assms by (auto simp: ar_early_abort_def Let_def split: if_splits)

text \<open>The ring a step judges.\<close>

definition pushed :: "process_env \<Rightarrow> ar_state \<Rightarrow> int \<Rightarrow> int \<Rightarrow> real \<Rightarrow> ring_entry list" where
  "pushed env st tot em now = push_ring (ar_safety_window_cycles env) (tot - cycle_base st, em, now) (ring st)"

lemma step_trip_cases:
  assumes "ar_safety_step env st tot em now seed opts = (st', Some t)"
  shows "0 < seed" "ar_safety_enabled env" "step_warmup env opts < tot - cycle_base st"
    and "int (length (pushed env st tot em now)) \<le> ar_safety_window_cycles env \<and> o_probe opts \<and>
        ar_early_abort (st\<lparr>ring := pushed env st tot em now\<rparr>) (tot - cycle_base st) em now seed (step_margin env opts) = Some t \<or>
      int (length (pushed env st tot em now)) = ar_safety_window_cycles env + 1 \<and>
        ar_judge (st\<lparr>ring := pushed env st tot em now\<rparr>) (ar_safety_window_cycles env) (tot - cycle_base st) em now seed
          (step_margin env opts) (o_probe opts) (o_scale_context opts) = (st', Some t)"
  using assms length_push_ring [of "ar_safety_window_cycles env" "(tot - cycle_base st, em, now)" "ring st"]
    window_at_least_4 [of env]
  by (auto simp: ar_safety_step_def pushed_def Let_def split: if_splits)

section \<open>A losing window\<close>

text \<open>
  Between neighbouring entries the wall lies in \<open>lo..hi\<close> milliseconds and every token costs more than
  \<open>bound\<close>.
\<close>

definition losing_pair :: "real \<Rightarrow> real \<Rightarrow> real \<Rightarrow> ring_entry \<times> ring_entry \<Rightarrow> bool" where
  "losing_pair lo hi bound = (\<lambda>((_, e, t), (_, e', t')). e < e' \<and> lo \<le> (t' - t) * 1000 \<and> (t' - t) * 1000 \<le> hi \<and>
     bound * of_int (e' - e) < (t' - t) * 1000)"

definition losing_ring :: "real \<Rightarrow> real \<Rightarrow> real \<Rightarrow> ring_entry list \<Rightarrow> bool" where
  "losing_ring lo hi bound r \<longleftrightarrow> list_all (losing_pair lo hi bound) (zip r (tl r))"

lemma losing_ring_Cons:
  "losing_ring lo hi bound (x # y # r) \<longleftrightarrow> losing_pair lo hi bound (x, y) \<and> losing_ring lo hi bound (y # r)"
  by (simp add: losing_ring_def)

lemma losing_ring_small [simp]: "losing_ring lo hi bound []" "losing_ring lo hi bound [x]"
  by (simp_all add: losing_ring_def)

lemma losing_ring_snoc:
  "r \<noteq> [] \<Longrightarrow> losing_ring lo hi bound r \<Longrightarrow> losing_pair lo hi bound (last r, x) \<Longrightarrow> losing_ring lo hi bound (r @ [x])"
proof (induction r)
  case (Cons y r)
  then show ?case by (cases r) (simp_all add: losing_ring_Cons)
qed simp

text \<open>The whole ring loses: its walls, its costs and its mean.\<close>

lemma losing_walls: "losing_ring lo hi bound r \<Longrightarrow> list_all (\<lambda>x. lo \<le> x \<and> x \<le> hi) (cycle_walls r)"
  by (auto simp: losing_ring_def losing_pair_def cycle_walls_def list_all_iff)

lemma losing_costs: "losing_ring lo hi bound r \<Longrightarrow> list_all (\<lambda>x. bound < x) (cycle_costs r)"
  by (fastforce simp: losing_ring_def losing_pair_def cycle_costs_def list_all_iff less_divide_eq)

lemma losing_mean:
  "losing_ring lo hi bound ((c0, e0, t0) # r) \<Longrightarrow> r \<noteq> [] \<Longrightarrow> last r = (c, e, t) \<Longrightarrow>
   e0 < e \<and> bound * of_int (e - e0) < (t - t0) * 1000"
proof (induction r arbitrary: c0 e0 t0)
  case (Cons y r)
  obtain c1 e1 t1 where y: "y = (c1, e1, t1)" by (rule prod_cases3)
  have p: "e0 < e1" "bound * of_int (e1 - e0) < (t1 - t0) * 1000"
    using Cons.prems(1) by (simp_all add: y losing_ring_Cons losing_pair_def)
  show ?case
  proof (cases r)
    case Nil
    then show ?thesis using p Cons.prems(3) by (simp add: y)
  next
    case (Cons z zs)
    then have "e1 < e \<and> bound * of_int (e - e1) < (t - t1) * 1000"
      using Cons.IH [of c1 e1 t1] Cons.prems by (simp add: y losing_ring_Cons)
    then show ?thesis using p by (simp add: algebra_simps)
  qed
qed simp

lemma walls_not_Nil: "2 \<le> length r \<Longrightarrow> cycle_walls r \<noteq> []"
  by (cases r rule: remdups_adj.cases) (simp_all add: cycle_walls_def)

text \<open>A full losing ring trips, with an anchor that is unset or a wall of the same range.\<close>

lemma losing_judge:
  assumes lose: "losing_ring lo hi bound (ring st)" and two: "2 \<le> length (ring st)" and l: "last (ring st) = (c, em, now)"
    and pos: "0 < lo" "lo \<le> hi" "0 < seed" "0 \<le> margin" and b: "seed * (hi / lo) * margin \<le> bound"
    and anchor: "anchor_cycle_ms st \<le> 0 \<or> lo \<le> anchor_cycle_ms st \<and> anchor_cycle_ms st \<le> hi"
  shows "snd (ar_judge st window cyc em now seed margin False scaled) \<noteq> None"
proof -
  obtain c0 e0 t0 r where r: "ring st = (c0, e0, t0) # r" "r \<noteq> []"
    using two by (cases "ring st") (auto, metis One_nat_def Suc_le_mono le_zero_eq length_0_conv nat.simps(3))
  have mean: "e0 < em" "bound * of_int (em - e0) < (now - t0) * 1000"
    using losing_mean [of lo hi bound c0 e0 t0 r c em now] lose l r by simp_all
  have cur: "lo \<le> median (cycle_walls (ring st))" "median (cycle_walls (ring st)) \<le> hi"
    using losing_walls [OF lose] walls_not_Nil [OF two] median_mem by (auto simp: list_all_iff)
  have costs: "cycle_costs (ring st) \<noteq> [] \<longrightarrow> bound < median (cycle_costs (ring st))"
    using losing_costs [OF lose] median_gt by blast
  define a where "a = (if anchor_cycle_ms st \<le> 0 then median (cycle_walls (ring st)) else anchor_cycle_ms st)"
  have a: "lo \<le> a" "a \<le> hi" using cur anchor by (auto simp: a_def)
  define scale where "scale = (if 0 < (if scaled then a else 0) \<and> 0 < median (cycle_walls (ring st))
      then max 1 (median (cycle_walls (ring st)) / (if scaled then a else 0)) else 1)"
  have one: "1 \<le> hi / lo" using pos by simp
  have "median (cycle_walls (ring st)) / a \<le> hi / lo"
    using a cur pos by (intro frac_le) simp_all
  then have s: "scale \<le> hi / lo" "1 \<le> scale" using one by (auto simp: scale_def)
  have th: "seed * scale * margin \<le> bound"
    using s pos by (intro order_trans [OF _ b] mult_right_mono mult_left_mono) simp_all
  have pt: "0 < real_of_int (em - e0)" using mean(1) by simp
  have "0 \<le> bound" using th s pos by (smt (verit) mult_nonneg_nonneg)
  then have wall: "0 < (now - t0) * 1000" using mean(2) pt by (smt (verit) mult_nonneg_nonneg)
  have "seed * scale * margin * of_int (em - e0) \<le> bound * of_int (em - e0)"
    using th pt by (intro mult_right_mono) simp_all
  then have over: "seed * scale * margin < (now - t0) * 1000 / of_int (em - e0)"
    unfolding pos_less_divide_eq [OF pt] using mean(2) by (rule le_less_trans)
  define st1 where "st1 = (if anchor_cycle_ms st \<le> 0
      then st\<lparr>anchor_cycle_ms := median (cycle_walls (ring st)), anchor_context_tokens := max 1 (prompt_tokens st + em)\<rparr> else st)"
  have st1: "anchor_cycle_ms st1 = a" by (simp add: st1_def a_def)
  have curpos: "\<not> median (cycle_walls (ring st)) \<le> 0" using cur pos by linarith
  have "windowed_ar_verdict seed (if scaled then a else 0) (median (cycle_walls (ring st))) (em - e0) ((now - t0) * 1000)
      margin (Some (cycle_costs (ring st))) \<noteq> None"
    using costs th mean(1) wall pos(3) over
    unfolding windowed_ar_verdict_def Let_def scale_def [symmetric] by auto
  then show ?thesis
    unfolding ar_judge_def Let_def st1_def [symmetric] using r(1) curpos by (cases scaled) (auto simp: st1 split: option.splits)
qed


section \<open>Runs of the governor\<close>

text \<open>
  One sample per verify cycle: the tokens it emitted and the clock.  \<open>safety_run\<close> stops at the first trip; it
  also returns how many samples are left.
\<close>

fun safety_run ::
  "process_env \<Rightarrow> ar_opts \<Rightarrow> real \<Rightarrow> ar_state \<Rightarrow> int \<Rightarrow> int \<Rightarrow> (int \<times> real) list \<Rightarrow> ar_state \<times> ar_trip option \<times> nat" where
  "safety_run env opts seed st c em [] = (st, None, 0)"
| "safety_run env opts seed st c em ((d, now) # xs) =
     (case ar_safety_step env st (c + 1) (em + d) now seed opts of
        (st', Some t) \<Rightarrow> (st', Some t, length xs)
      | (st', None) \<Rightarrow> safety_run env opts seed st' (c + 1) (em + d) xs)"

text \<open>Every sample but the first, which only stamps a fresh window, loses against its predecessor.\<close>

fun losing_from :: "real \<Rightarrow> real \<Rightarrow> real \<Rightarrow> real \<Rightarrow> (int \<times> real) list \<Rightarrow> bool" where
  "losing_from lo hi bound t0 [] \<longleftrightarrow> True"
| "losing_from lo hi bound t0 ((d, t) # xs) \<longleftrightarrow>
     losing_pair lo hi bound ((0, 0, t0), (0, d, t)) \<and> losing_from lo hi bound t xs"

lemma losing_from_append:
  "losing_from lo hi bound t0 (xs @ ys) \<longleftrightarrow>
   losing_from lo hi bound t0 xs \<and> losing_from lo hi bound (if xs = [] then t0 else snd (last xs)) ys"
  by (induction xs arbitrary: t0) auto

lemma losing_pair_shift:
  "losing_pair lo hi bound ((c, e, t), (c', e + d, t')) = losing_pair lo hi bound ((0, 0, t), (0, d, t'))"
  by (simp add: losing_pair_def)

text \<open>Where a fresh window stands after \<open>i\<close> cycles.\<close>

definition fresh_inv :: "process_env \<Rightarrow> ar_opts \<Rightarrow> real \<Rightarrow> real \<Rightarrow> real \<Rightarrow> ar_state \<Rightarrow> int \<Rightarrow> int \<Rightarrow> real \<Rightarrow> bool" where
  "fresh_inv env opts lo hi bound st c em now \<longleftrightarrow>
     (let i = c - cycle_base st; w = step_warmup env opts; r = ring st in
      0 \<le> i \<and> (anchor_cycle_ms st \<le> 0 \<or> lo \<le> anchor_cycle_ms st \<and> anchor_cycle_ms st \<le> hi) \<and>
      (if i < w then r = [] \<and> anchor_cycle_ms st \<le> 0 \<and> list_all (\<lambda>x. lo \<le> x \<and> x \<le> hi) (warmup_cycle_ms st) \<and>
         last_cycle_t st = (if i = 0 then 0 else now)
       else int (length r) = i - w + 1 \<and> losing_ring lo hi bound r \<and> last r = (i, em, now)))"

lemma warm_step:
  assumes inv: "fresh_inv env opts lo hi bound st c em t0" and w: "c - cycle_base st < step_warmup env opts"
    and p: "losing_pair lo hi bound ((0, 0, t0), (0, d, now))"
    and on: "0 < seed" "ar_safety_enabled env"
  shows "snd (ar_safety_step env st (c + 1) (em + d) now seed opts) = None \<and>
    fresh_inv env opts lo hi bound (fst (ar_safety_step env st (c + 1) (em + d) now seed opts)) (c + 1) (em + d) now \<and>
    cycle_base (fst (ar_safety_step env st (c + 1) (em + d) now seed opts)) = cycle_base st"
proof -
  let ?i = "c - cycle_base st" and ?w = "step_warmup env opts"
  have f: "0 \<le> ?i" "ring st = []" "anchor_cycle_ms st \<le> 0" "list_all (\<lambda>x. lo \<le> x \<and> x \<le> hi) (warmup_cycle_ms st)"
    "last_cycle_t st = (if ?i = 0 then 0 else t0)"
    using inv w by (simp_all add: fresh_inv_def Let_def)
  have step: "ar_safety_step env st (c + 1) (em + d) now seed opts = (ar_warm st ?w (?i + 1) (em + d) now, None)"
    using w on by (simp add: ar_safety_step_def Let_def algebra_simps)
  define wm where "wm = (if 0 < last_cycle_t st then warmup_cycle_ms st @ [(now - last_cycle_t st) * 1000] else warmup_cycle_ms st)"
  have wm: "list_all (\<lambda>x. lo \<le> x \<and> x \<le> hi) wm"
    using f p by (auto simp: wm_def losing_pair_def split: if_splits)
  have m: "median wm \<le> 0 \<or> lo \<le> median wm \<and> median wm \<le> hi"
    using wm median_mem [of wm] by (cases "wm = []") (auto simp: list_all_iff)
  have fld: "ring (ar_warm st ?w (?i + 1) (em + d) now) = (if ?i + 1 = ?w then [(?i + 1, em + d, now)] else [])"
    "anchor_cycle_ms (ar_warm st ?w (?i + 1) (em + d) now) =
      (if ?i + 1 = ?w \<and> 0 < median wm then median wm else anchor_cycle_ms st)"
    "warmup_cycle_ms (ar_warm st ?w (?i + 1) (em + d) now) = wm"
    "last_cycle_t (ar_warm st ?w (?i + 1) (em + d) now) = now"
    "cycle_base (ar_warm st ?w (?i + 1) (em + d) now) = cycle_base st"
    using f by (simp_all add: ar_warm_def wm_def Let_def)
  show ?thesis
    using f w m wm unfolding step fresh_inv_def Let_def fst_conv snd_conv fld by auto
qed

lemma window_step:
  assumes inv: "fresh_inv env opts lo hi bound st c em t0" and w: "step_warmup env opts \<le> c - cycle_base st"
    and p: "losing_pair lo hi bound ((0, 0, t0), (0, d, now))"
    and on: "0 < seed" "ar_safety_enabled env" and settled: "\<not> o_probe opts"
    and pos: "0 < lo" "lo \<le> hi" "0 \<le> step_margin env opts" and b: "seed * (hi / lo) * step_margin env opts \<le> bound"
  defines "n \<equiv> step_warmup env opts + ar_safety_window_cycles env"
  shows "c + 1 - cycle_base st < n \<Longrightarrow> snd (ar_safety_step env st (c + 1) (em + d) now seed opts) = None \<and>
      fresh_inv env opts lo hi bound (fst (ar_safety_step env st (c + 1) (em + d) now seed opts)) (c + 1) (em + d) now \<and>
      cycle_base (fst (ar_safety_step env st (c + 1) (em + d) now seed opts)) = cycle_base st"
    and "c + 1 - cycle_base st = n \<Longrightarrow> snd (ar_safety_step env st (c + 1) (em + d) now seed opts) \<noteq> None"
proof -
  let ?i = "c - cycle_base st" and ?w = "step_warmup env opts" and ?n = "ar_safety_window_cycles env"
  let ?x = "(?i + 1, em + d, now)"
  have f: "anchor_cycle_ms st \<le> 0 \<or> lo \<le> anchor_cycle_ms st \<and> anchor_cycle_ms st \<le> hi"
    "int (length (ring st)) = ?i - ?w + 1" "losing_ring lo hi bound (ring st)" "last (ring st) = (?i, em, t0)"
    using inv w by (simp_all add: fresh_inv_def Let_def)
  have ne: "ring st \<noteq> []" using f(2) w by auto
  have lr: "losing_ring lo hi bound (ring st @ [?x])"
    using f(3,4) ne p by (intro losing_ring_snoc) (simp_all add: losing_pair_shift)
  have push: "push_ring ?n ?x (ring st) = ring st @ [?x]" if "?i + 1 \<le> ?w + ?n"
    using that f(2) by (simp add: push_ring_def)
  define st1 where "st1 = st\<lparr>ring := ring st @ [?x]\<rparr>"
  have step: "ar_safety_step env st (c + 1) (em + d) now seed opts =
      (if int (length (ring st1)) \<le> ?n then (st1, None)
       else ar_judge st1 ?n (?i + 1) (em + d) now seed (step_margin env opts) False (o_scale_context opts))"
    if "?i + 1 \<le> ?w + ?n"
    using w on settled push [OF that] by (simp add: ar_safety_step_def Let_def st1_def algebra_simps)
  have s1: "ring st1 = ring st @ [?x]" "cycle_base st1 = cycle_base st" "anchor_cycle_ms st1 = anchor_cycle_ms st"
    by (simp_all add: st1_def)
  have len: "int (length (ring st1)) = ?i - ?w + 2" using f(2) by (simp add: s1)
  show "snd (ar_safety_step env st (c + 1) (em + d) now seed opts) = None \<and>
      fresh_inv env opts lo hi bound (fst (ar_safety_step env st (c + 1) (em + d) now seed opts)) (c + 1) (em + d) now \<and>
      cycle_base (fst (ar_safety_step env st (c + 1) (em + d) now seed opts)) = cycle_base st"
    if "c + 1 - cycle_base st < n"
  proof -
    have "ar_safety_step env st (c + 1) (em + d) now seed opts = (st1, None)"
      using step len that by (simp add: n_def)
    moreover have "fresh_inv env opts lo hi bound st1 (c + 1) (em + d) now"
      using inv w f(1) lr len by (simp add: fresh_inv_def Let_def s1 algebra_simps)
    ultimately show ?thesis by (simp add: s1)
  qed
  show "snd (ar_safety_step env st (c + 1) (em + d) now seed opts) \<noteq> None" if "c + 1 - cycle_base st = n"
  proof -
    have "ar_safety_step env st (c + 1) (em + d) now seed opts =
        ar_judge st1 ?n (?i + 1) (em + d) now seed (step_margin env opts) False (o_scale_context opts)"
      using step len that by (simp add: n_def)
    moreover have "2 \<le> length (ring st1)" using ne by (cases "ring st") (simp_all add: s1)
    ultimately show ?thesis
      using losing_judge [of lo hi bound st1 "?i + 1" "em + d" now seed "step_margin env opts"] lr f(1) pos on(1) b
      by (simp add: s1)
  qed
qed


lemma losing_run:
  assumes "fresh_inv env opts lo hi bound st c em t0" "losing_from lo hi bound t0 xs"
    and on: "0 < seed" "ar_safety_enabled env" and settled: "\<not> o_probe opts"
    and pos: "0 < lo" "lo \<le> hi" "0 \<le> step_margin env opts" and b: "seed * (hi / lo) * step_margin env opts \<le> bound"
  defines "n \<equiv> step_warmup env opts + ar_safety_window_cycles env"
  shows "c - cycle_base st < n \<Longrightarrow> n \<le> c - cycle_base st + int (length xs) \<Longrightarrow>
    \<exists>st' t. safety_run env opts seed st c em xs = (st', Some t, nat (c - cycle_base st + int (length xs) - n))"
  using assms(1,2)
proof (induction xs arbitrary: st c em t0)
  case (Cons x xs)
  obtain d now where x: "x = (d, now)" by (rule prod.exhaust)
  have p: "losing_pair lo hi bound ((0, 0, t0), (0, d, now))" and rest: "losing_from lo hi bound now xs"
    using Cons.prems(4) by (simp_all add: x)
  let ?s = "ar_safety_step env st (c + 1) (em + d) now seed opts"
  have n: "step_warmup env opts < n" using window_at_least_4 [of env] by (simp add: n_def)
  show ?case
  proof (cases "c + 1 - cycle_base st = n")
    case True
    then have "snd ?s \<noteq> None"
      using n by (intro window_step(2) [OF Cons.prems(3) _ p on settled pos b]) (simp_all add: n_def)
    then show ?thesis using True by (cases ?s) (auto simp: x)
  next
    case False
    then have less: "c + 1 - cycle_base st < n" using Cons.prems(1) by simp
    have "snd ?s = None \<and> fresh_inv env opts lo hi bound (fst ?s) (c + 1) (em + d) now \<and> cycle_base (fst ?s) = cycle_base st"
    proof (cases "c - cycle_base st < step_warmup env opts")
      case True
      then show ?thesis by (rule warm_step [OF Cons.prems(3) _ p on])
    next
      case False
      then show ?thesis using less
        by (intro window_step(1) [OF Cons.prems(3) _ p on settled pos b]) (simp_all add: n_def)
    qed
    then obtain st' where s: "?s = (st', None)" and i: "fresh_inv env opts lo hi bound st' (c + 1) (em + d) now"
      and base: "cycle_base st' = cycle_base st" by (cases ?s) auto
    have "c + 1 - cycle_base st' < n" "n \<le> c + 1 - cycle_base st' + int (length xs)"
      using less Cons.prems(2) by (simp_all add: base)
    from Cons.IH [OF this i rest] obtain st'' t where
      r: "safety_run env opts seed st' (c + 1) (em + d) xs = (st'', Some t, nat (c + 1 - cycle_base st' + int (length xs) - n))"
      by blast
    have "nat (c + 1 - cycle_base st' + int (length xs) - n) = nat (c - cycle_base st + int (length (x # xs)) - n)"
      by (simp add: base)
    then show ?thesis using r by (simp only: x safety_run.simps s prod.case option.case) blast
  qed
qed simp

lemma fresh_window: "anchor_cycle_ms st = 0 \<Longrightarrow> warmup_cycle_ms st = [] \<Longrightarrow> ring st = [] \<Longrightarrow> last_cycle_t st = 0 \<Longrightarrow>
   fresh_inv env opts lo hi bound st (cycle_base st) em t0"
  using step_warmup_pos [of env opts] by (simp add: fresh_inv_def Let_def)

section \<open>Properties\<close>

text \<open>A request in the default environment: cycles of one second and one token.\<close>

definition plain_env :: process_env where
  "plain_env = \<lparr>getenv = (\<lambda>_. None), int_of_text = (\<lambda>_. None), float_of_text = (\<lambda>_. None)\<rparr>"

definition slow_state :: ar_state where
  "slow_state = ar_init\<lparr>ring := map (\<lambda>i. (i, i, of_int i)) [8..15]\<rparr>"

text \<open>
  The governor demotes only on evidence.  When a step trips, the mean cost per token over the ring it has just
  extended exceeds the baseline, which is never below the measured plain step, times the margin, and outside a probe
  so does the median of the per-cycle costs; a probe may instead be cut short, before its ring is full, by a mean
  above one and a half times the plain step.
\<close>

lemma trip_is_justified:
  assumes "ar_safety_step env st total_cycles emitted now seed opts = (st', Some t)"
  shows "case hd (pushed env st total_cycles emitted now) of (_, e0, t0) \<Rightarrow>
    e0 < emitted \<and> t_mtp_ms_per_tok t = (now - t0) * 1000 / of_int (emitted - e0) \<and>
    seed \<le> t_ar_baseline t \<and>
    (if int (length (pushed env st total_cycles emitted now)) \<le> ar_safety_window_cycles env
     then o_probe opts \<and> seed * (3 / 2) < t_mtp_ms_per_tok t
     else t_ar_baseline t * step_margin env opts < t_mtp_ms_per_tok t \<and>
       (o_probe opts \<or> cycle_costs (pushed env st total_cycles emitted now) = [] \<or>
        t_ar_baseline t * step_margin env opts < median (cycle_costs (pushed env st total_cycles emitted now))))"
proof -
  obtain c0 e0 t0 where hd: "hd (pushed env st total_cycles emitted now) = (c0, e0, t0)" by (rule prod_cases3)
  from step_trip_cases(4) [OF assms] show ?thesis
  proof (elim disjE conjE)
    assume a: "int (length (pushed env st total_cycles emitted now)) \<le> ar_safety_window_cycles env" "o_probe opts"
      "ar_early_abort (st\<lparr>ring := pushed env st total_cycles emitted now\<rparr>) (total_cycles - cycle_base st) emitted now seed
        (step_margin env opts) = Some t"
 
    have "hd (ring (st\<lparr>ring := pushed env st total_cycles emitted now\<rparr>)) = (c0, e0, t0)" using hd by simp
    from early_trip [OF a(3) this]
    have "e0 < emitted" "t_mtp_ms_per_tok t = (now - t0) * 1000 / of_int (emitted - e0)" "t_ar_baseline t = seed"
      "seed * (3 / 2) < t_mtp_ms_per_tok t" by blast+
    then show ?thesis unfolding hd prod.case using a(1,2) by (simp only: if_True simp_thms order_refl)
  next
    assume a: "int (length (pushed env st total_cycles emitted now)) = ar_safety_window_cycles env + 1"
      "ar_judge (st\<lparr>ring := pushed env st total_cycles emitted now\<rparr>) (ar_safety_window_cycles env)
        (total_cycles - cycle_base st) emitted now seed (step_margin env opts) (o_probe opts) (o_scale_context opts) = (st', Some t)"
    then show ?thesis using judged_trip [OF a(2)] hd by auto
  qed
qed

lemma trip_is_justified_example:
  "case snd (ar_safety_step plain_env slow_state 16 16 16 500 ar_defaults) of None \<Rightarrow> False
    | Some t \<Rightarrow> t_mtp_ms_per_tok t = 1000 \<and> 500 \<le> t_ar_baseline t \<and> t_ar_baseline t * (11 / 10) < 1000"
proof -
  have "case snd (ar_safety_step plain_env slow_state 16 16 16 500 ar_defaults) of None \<Rightarrow> False | Some t \<Rightarrow> True"
    by code_simp
  then obtain st' t where s: "ar_safety_step plain_env slow_state 16 16 16 500 ar_defaults = (st', Some t)"
    by (cases "ar_safety_step plain_env slow_state 16 16 16 500 ar_defaults") (auto split: option.splits)
  have r: "hd (pushed plain_env slow_state 16 16 16) = (8, 8, 8)" "length (pushed plain_env slow_state 16 16 16) = 9"
    "ar_safety_window_cycles plain_env = 8" "step_margin plain_env ar_defaults = 11 / 10"
    by code_simp+
  show ?thesis using trip_is_justified [OF s] by (simp add: s r)
qed

text \<open>
  Stalls do not demote.  Outside a probe a step does not trip when more than half of a window's cycles stay
  within the plain step times the margin, however slow the others were.
\<close>

lemma healthy_majority_never_trips:
  assumes "\<not> o_probe opts" "0 \<le> step_margin env opts"
    and maj: "ar_safety_window_cycles env div 2 <
      int (length (filter (\<lambda>x. x \<le> seed * step_margin env opts)
        (cycle_costs (pushed env st total_cycles emitted now))))"
  shows "snd (ar_safety_step env st total_cycles emitted now seed opts) = None"
proof (rule ccontr)
  let ?r = "pushed env st total_cycles emitted now" and ?m = "step_margin env opts" and ?w = "ar_safety_window_cycles env"
  assume "snd (ar_safety_step env st total_cycles emitted now seed opts) \<noteq> None"
  then obtain st' t where step: "ar_safety_step env st total_cycles emitted now seed opts = (st', Some t)"
    by (cases "ar_safety_step env st total_cycles emitted now seed opts") auto
  note c = step_trip_cases [OF step]
  obtain c0 e0 t0 where hd: "hd ?r = (c0, e0, t0)" by (rule prod_cases3)
  from c(4) assms(1) have len: "int (length ?r) = ?w + 1"
    and j: "ar_judge (st\<lparr>ring := ?r\<rparr>) ?w (total_cycles - cycle_base st) emitted now seed ?m False (o_scale_context opts) = (st', Some t)"
    by auto
  have costs: "length (cycle_costs ?r) \<le> length ?r - 1"
    using length_filter_le [of "\<lambda>((_, e, _), (_, e', _)). e < e'" "zip ?r (tl ?r)"] by (simp add: cycle_costs_def)
  have "length (cycle_costs ?r) div 2 < length (filter (\<lambda>x. x \<le> seed * ?m) (cycle_costs ?r))"
  proof -
    have "int (length (cycle_costs ?r)) \<le> ?w" using costs len window_at_least_4 [of env] by arith
    then have "int (length (cycle_costs ?r) div 2) \<le> ?w div 2" by (simp add: zdiv_int zdiv_mono1)
    then show ?thesis using maj by linarith
  qed
  from median_le_majority [OF this] have med: "median (cycle_costs ?r) \<le> seed * ?m" .
  have "cycle_costs ?r \<noteq> []" using maj window_at_least_4 [of env] by auto
  then have b: "seed \<le> t_ar_baseline t" "t_ar_baseline t * ?m < median (cycle_costs ?r)"
    using judged_trip [OF j] hd by simp_all
  have "seed * ?m \<le> t_ar_baseline t * ?m" using b(1) assms(2) by (rule mult_right_mono)
  then show False using b(2) med by linarith
qed

lemma healthy_majority_never_trips_example:
  "snd (ar_safety_step plain_env slow_state 16 16 16 1000 ar_defaults) = None"
proof (rule healthy_majority_never_trips)
  show "\<not> o_probe ar_defaults" "0 \<le> step_margin plain_env ar_defaults" by code_simp+
  show "ar_safety_window_cycles plain_env div 2 < int (length (filter (\<lambda>x. x \<le> 1000 * step_margin plain_env ar_defaults)
      (cycle_costs (pushed plain_env slow_state 16 16 16))))" by code_simp
qed

text \<open>
  A request never keeps speculating at a loss.  When a fresh window sees cycles whose walls lie in \<open>lo..hi\<close> and
  whose tokens all cost more than the plain step, scaled by the largest growth \<open>hi / lo\<close> and the margin, the
  governor trips exactly when warm-up and window are over, and not before.
\<close>

lemma losing_window_trips:
  assumes "losing_from lo hi bound t0 xs" "0 < seed" "ar_safety_enabled env" "\<not> o_probe opts"
    and "0 < lo" "lo \<le> hi" "0 \<le> step_margin env opts" "seed * (hi / lo) * step_margin env opts \<le> bound"
    and "step_warmup env opts + ar_safety_window_cycles env \<le> int (length xs)"
  shows "\<exists>st' t. safety_run env opts seed (ar_reset base st) base emitted xs =
    (st', Some t, nat (int (length xs) - (step_warmup env opts + ar_safety_window_cycles env)))"
proof -
  have base: "cycle_base (ar_reset base st) = base" by (simp add: ar_reset_def)
  have "fresh_inv env opts lo hi bound (ar_reset base st) base emitted t0"
    using fresh_window [of "ar_reset base st" env opts lo hi bound emitted t0] by (simp add: ar_reset_def)
  from losing_run [OF this assms(1-8)] show ?thesis
    using assms(9) step_warmup_pos [of env opts] window_at_least_4 [of env] by (simp add: base)
qed

lemma losing_window_trips_example:
  "\<exists>st' t. safety_run plain_env ar_defaults 500 (ar_reset 0 ar_init) 0 0 (map (\<lambda>i. (1, of_int i)) [1..20]) = (st', Some t, 4)"
proof -
  have n: "step_warmup plain_env ar_defaults + ar_safety_window_cycles plain_env = 16" by code_simp
  have h: "losing_from 1000 1000 550 0 (map (\<lambda>i. (1, of_int i)) [1..20])" "ar_safety_enabled plain_env"
    "\<not> o_probe ar_defaults" "step_margin plain_env ar_defaults = 11 / 10" "length (map (\<lambda>i. (1 :: int, of_int i :: real)) [1..20]) = 20"
    by code_simp+
  show ?thesis
    using losing_window_trips [OF h(1) _ h(2,3), of 500 0 ar_init 0] by (simp add: n h(4,5) del: length_map)
qed

end
