(* ===== verification/Mtp_Text.thy ===== *)
theory Mtp_Text
  imports Depth_Control
begin

text \<open>
  The text lane of native multi-token prediction
  (\<open>patches/mlx_lm_mtp/batch_generator.py\<close>): its per-request state and what happens to it after a verify
  cycle, the depth controller, the governor, the cost gate and the arming of the next interval.  The
  clock readings and phase timings of a cycle are inputs.  The lane's private copies of the environment readers
  (\<open>_adaptive_env_int\<close>, \<open>_adaptive_env_float\<close>, \<open>_adaptive_env_flag\<close>) are those of \<open>Ar_Safety\<close>.
\<close>

section \<open>State\<close>

record mtp_stats =
  cycles :: int
  accepts :: int
  rejects :: int
  init_emits :: int
  draft_emits :: int
  bonus_emits :: int
  verify_emits :: int
  stats_depth :: int
  starting_depth :: int
  stats_ceiling :: int
  depth_policy_name :: string
  drafts_proposed :: int
  drafts_accepted :: int
  accepted_by_depth :: "int list"
  drafted_by_depth :: "int list"
  seed_main_forwards :: int
  verify_main_forwards :: int
  mtp_forwards :: nat
  backbone_ms :: real
  mtp_head_ms :: real
  sample_ms :: real
  cache_ops_ms :: real
  retained_on_rejects :: int
  prompt_prime_source :: string
  value_snapshot :: "depth_snapshot option"
  fallback_reason :: "string option"
  fallback_cost_ratio :: "real option"
  fallback_mtp_ms_per_token :: "real option"
  fallback_ar_step_ms :: "real option"

definition stats_init :: mtp_stats where
  "stats_init = \<lparr>cycles = 0, accepts = 0, rejects = 0, init_emits = 0, draft_emits = 0, bonus_emits = 0,
     verify_emits = 0, stats_depth = 1, starting_depth = 1, stats_ceiling = 1, depth_policy_name = ''fixed'',
     drafts_proposed = 0, drafts_accepted = 0, accepted_by_depth = [0, 0, 0], drafted_by_depth = [0, 0, 0],
     seed_main_forwards = 0, verify_main_forwards = 0, mtp_forwards = 0, backbone_ms = 0, mtp_head_ms = 0,
     sample_ms = 0, cache_ops_ms = 0, retained_on_rejects = 0, prompt_prime_source = ''unprimed'',
     value_snapshot = None, fallback_reason = None, fallback_cost_ratio = None,
     fallback_mtp_ms_per_token = None, fallback_ar_step_ms = None\<rparr>"

record mtp_state =
  m_queue :: "(int \<times> string) list"
  m_next_main :: "int option"
  m_drafts :: "int list"
  m_depth :: int
  m_ceiling :: int
  m_adaptive :: bool
  m_value :: depth_state
  m_pending :: bool
  m_reason :: "string option"
  m_ar_step_ms :: real
  m_span_start :: real
  m_safety :: ar_state
  m_stats :: mtp_stats

definition mtp_init :: "int \<Rightarrow> mtp_state" where
  "mtp_init md = \<lparr>m_queue = [], m_next_main = None, m_drafts = [], m_depth = 1, m_ceiling = 1, m_adaptive = False,
     m_value = depth_init md, m_pending = False, m_reason = None, m_ar_step_ms = 0, m_span_start = 0,
     m_safety = ar_init, m_stats = stats_init\<rparr>"

text \<open>The text of numbers, rounding, and the environment.\<close>

record mtp_io =
  io_env :: process_env
  io_fmt :: "nat option \<Rightarrow> real \<Rightarrow> string"
  io_round :: "nat \<Rightarrow> real \<Rightarrow> real"

abbreviation io_depths :: "mtp_io \<Rightarrow> int" where
  "io_depths io \<equiv> native_mtp_max_depth (io_env io)"

text \<open>What the clock shows during one verify cycle: four durations and the readings of \<open>perf_counter\<close>.\<close>

record cycle_times =
  ct_start :: real
  ct_backbone :: real
  ct_sample :: real
  ct_cache :: real
  ct_finish :: real
  ct_safety :: real
  ct_cost :: real
  ct_arm :: real
  ct_head :: real

section \<open>The depth controller in the lane\<close>

definition adaptive_depth_enabled :: "process_env \<Rightarrow> bool" where
  "adaptive_depth_enabled env =
     env_flag env True [''VMLINUX_NATIVE_MTP_ADAPTIVE_DEPTH'', ''VMLX_NATIVE_MTP_ADAPTIVE_DEPTH'']"

definition adaptive_value_min_samples :: "process_env \<Rightarrow> int" where
  "adaptive_value_min_samples env =
     env_int env 8 [''VMLINUX_NATIVE_MTP_VALUE_MIN_SAMPLES'', ''VMLX_NATIVE_MTP_VALUE_MIN_SAMPLES''] 2"

definition adaptive_value_window :: "process_env \<Rightarrow> int" where
  "adaptive_value_window env =
     env_int env 16 [''VMLINUX_NATIVE_MTP_VALUE_WINDOW'', ''VMLX_NATIVE_MTP_VALUE_WINDOW''] 4"

definition lane_policy :: "process_env \<Rightarrow> depth_policy" where
  "lane_policy env =
     \<lparr>minimum_samples = adaptive_value_min_samples env,
      cooldown_cycles = env_int env 8
        [''VMLINUX_NATIVE_MTP_VALUE_COOLDOWN_CYCLES'', ''VMLX_NATIVE_MTP_VALUE_COOLDOWN_CYCLES''] 2,
      probe_interval_cycles = env_int env 48
        [''VMLINUX_NATIVE_MTP_VALUE_PROBE_INTERVAL_CYCLES'', ''VMLX_NATIVE_MTP_VALUE_PROBE_INTERVAL_CYCLES''] 4,
      hysteresis = env_float env (5 / 100)
        [''VMLINUX_NATIVE_MTP_VALUE_HYSTERESIS'', ''VMLX_NATIVE_MTP_VALUE_HYSTERESIS''],
      raise_min_acceptance = env_float env (88 / 100)
        [''VMLINUX_NATIVE_MTP_VALUE_RAISE_MIN_ACCEPT'', ''VMLX_NATIVE_MTP_VALUE_RAISE_MIN_ACCEPT''],
      initial_probe_cycles = 48\<rparr>"

definition adaptive_arm_cycle :: "mtp_io \<Rightarrow> mtp_state \<Rightarrow> real \<Rightarrow> mtp_state" where
  "adaptive_arm_cycle io s now =
     (if \<not> m_adaptive s then s
      else s\<lparr>m_value := arm_depth_cycle (io_depths io) (m_value s) (m_depth s) now\<rparr>)"

definition adaptive_finish_cycle :: "mtp_io \<Rightarrow> mtp_state \<Rightarrow> int \<Rightarrow> int \<Rightarrow> real \<Rightarrow> mtp_state" where
  "adaptive_finish_cycle io s completed_depth accepted now =
     (if \<not> m_adaptive s then s
      else
        (let md = io_depths io;
             cyc = cycles (m_stats s);
             v1 = fst (finish_armed_depth_cycle md (m_value s) completed_depth accepted cyc now
                         (adaptive_value_window (io_env io)));
             (v2, decision) = choose_depth_by_value md (io_fmt io) (lane_policy (io_env io)) v1
                                (m_depth s) (m_ceiling s) cyc;
             snap = adaptive_value_snapshot md (io_round io) v2 (adaptive_value_min_samples (io_env io));
             s1 = s\<lparr>m_value := v2, m_stats := (m_stats s)\<lparr>value_snapshot := Some snap\<rparr>\<rparr>
         in case decision of
              None \<Rightarrow> s1
            | Some d \<Rightarrow>
                (let target = max 1 (min (m_ceiling s) (target_depth d))
                 in s1\<lparr>m_depth := target, m_stats := (m_stats s1)\<lparr>stats_depth := target\<rparr>\<rparr>)))"

section \<open>The governor in the lane\<close>

definition text_ar_safety_fallback :: "mtp_io \<Rightarrow> mtp_state \<Rightarrow> real \<Rightarrow> mtp_state \<times> bool" where
  "text_ar_safety_fallback io s now =
     (if m_pending s then (s, False)
      else
        (let cyc = cycles (m_stats s);
             (g, trip) = ar_safety_step (io_env io) (m_safety s) cyc (cyc + drafts_accepted (m_stats s)) now
               (m_ar_step_ms s)
               (ar_defaults\<lparr>o_primed := (prompt_prime_source (m_stats s) \<noteq> ''unprimed'' \<and>
                                         prompt_prime_source (m_stats s) \<noteq> [])\<rparr>);
             s1 = s\<lparr>m_safety := g\<rparr>
         in case trip of
              None \<Rightarrow> (s1, False)
            | Some t \<Rightarrow>
                (let prior = (if m_depth s = 0 then 1 else m_depth s)
                 in if 1 < prior
                    then (s1\<lparr>m_depth := 1, m_safety := ar_reset cyc g\<rparr>, False)
                    else
                      (let reason = trip_reason (\<lambda>n. io_fmt io (Some n)) t prior
                       in (s1\<lparr>m_pending := True, m_reason := Some reason,
                              m_stats := (m_stats s)\<lparr>fallback_reason := Some reason,
                                fallback_mtp_ms_per_token := Some (t_mtp_ms_per_tok t),
                                fallback_ar_step_ms := Some (t_ar_baseline t)\<rparr>\<rparr>, True)))))"

section \<open>The cost gate\<close>

definition timing_total_ms :: "mtp_stats \<Rightarrow> real" where
  "timing_total_ms st = backbone_ms st + mtp_head_ms st + sample_ms st + cache_ops_ms st"

definition confirmed_tokens_from_cycles :: "mtp_stats \<Rightarrow> int" where
  "confirmed_tokens_from_cycles st = max 0 (cycles st) + max 0 (drafts_accepted st)"

definition cost_ratio :: "mtp_stats \<Rightarrow> real \<Rightarrow> real option \<Rightarrow> (real \<times> real) option" where
  "cost_ratio st ar_ms elapsed =
     (if ar_ms \<le> 0 then None
      else
        (let mtp_ms = (case elapsed of Some e \<Rightarrow> if 0 < e then e else timing_total_ms st
                       | None \<Rightarrow> timing_total_ms st);
             confirmed = confirmed_tokens_from_cycles st
         in if mtp_ms \<le> 0 \<or> confirmed \<le> 0 then None
            else (let per_token = mtp_ms / of_int confirmed in Some (per_token / ar_ms, per_token))))"

definition cost_gate_explicit :: "process_env \<Rightarrow> bool" where
  "cost_gate_explicit env =
     env_flag env False [''VMLINUX_NATIVE_MTP_COST_FALLBACK'', ''VMLX_NATIVE_MTP_COST_FALLBACK'']"

text \<open>Baseline, threshold, first judged cycle, elapsed wall and reason of the two gates.\<close>

definition cost_gate_settings ::
  "process_env \<Rightarrow> mtp_state \<Rightarrow> real \<Rightarrow> real \<times> real \<times> int \<times> real option \<times> string" where
  "cost_gate_settings env s now =
     (if cost_gate_explicit env
      then (env_float env 0 [''VMLINUX_NATIVE_MTP_AR_STEP_MS'', ''VMLX_NATIVE_MTP_AR_STEP_MS'',
              ''VMLINUX_NATIVE_MTP_COST_AR_STEP_MS'', ''VMLX_NATIVE_MTP_COST_AR_STEP_MS''],
            env_float env 1 [''VMLINUX_NATIVE_MTP_COST_RATIO_THRESHOLD'', ''VMLX_NATIVE_MTP_COST_RATIO_THRESHOLD''],
            env_int env 8 [''VMLINUX_NATIVE_MTP_COST_MIN_CYCLES'', ''VMLX_NATIVE_MTP_COST_MIN_CYCLES''] 1,
            None, ''calibrated_cost'')
      else (m_ar_step_ms s,
            env_float env (5 / 4) [''VMLINUX_NATIVE_MTP_RUNTIME_COST_MARGIN'', ''VMLX_NATIVE_MTP_RUNTIME_COST_MARGIN''],
            env_int env 48 [''VMLINUX_NATIVE_MTP_RUNTIME_COST_MIN_CYCLES'',
              ''VMLX_NATIVE_MTP_RUNTIME_COST_MIN_CYCLES''] 8,
            (if 0 < m_span_start s then Some (max 0 ((now - m_span_start s) * 1000)) else None),
            ''runtime_cost''))"

definition cost_reason :: "(nat option \<Rightarrow> real \<Rightarrow> string) \<Rightarrow> string \<Rightarrow> real \<Rightarrow> real \<Rightarrow> real \<Rightarrow> real \<Rightarrow> string" where
  "cost_reason fmt prefix ratio threshold per_token ar_ms =
     prefix @ '' cost_ratio='' @ fmt (Some 3) ratio @ ''>=threshold='' @ fmt (Some 3) threshold @
     '' mtp_ms_per_token='' @ fmt (Some 2) per_token @ '' ar_step_ms='' @ fmt (Some 2) ar_ms"

definition text_cost_fallback :: "mtp_io \<Rightarrow> mtp_state \<Rightarrow> real \<Rightarrow> mtp_state \<times> bool" where
  "text_cost_fallback io s now =
     (if m_pending s \<or>
         \<not> (cost_gate_explicit (io_env io) \<or>
            m_adaptive s \<and> env_flag (io_env io) True
              [''VMLINUX_NATIVE_MTP_RUNTIME_COST_GATE'', ''VMLX_NATIVE_MTP_RUNTIME_COST_GATE''])
      then (s, False)
      else
        (case cost_gate_settings (io_env io) s now of
           (ar_ms, threshold, minimum_cycles, elapsed, prefix) \<Rightarrow>
             if cycles (m_stats s) < minimum_cycles then (s, False)
             else (case cost_ratio (m_stats s) ar_ms elapsed of
                     None \<Rightarrow> (s, False)
                   | Some (ratio, per_token) \<Rightarrow>
                       if ratio < threshold then (s, False)
                       else
                         (let reason = cost_reason (io_fmt io) prefix ratio threshold per_token ar_ms
                          in (s\<lparr>m_pending := True, m_reason := Some reason,
                                m_stats := (m_stats s)\<lparr>fallback_reason := Some reason,
                                  fallback_cost_ratio := Some ratio, fallback_mtp_ms_per_token := Some per_token,
                                  fallback_ar_step_ms := Some ar_ms\<rparr>\<rparr>, True)))))"

text \<open>\<open>safety or cost\<close>: the gate is asked only when the governor did not trip.\<close>

definition lane_fallback :: "mtp_io \<Rightarrow> mtp_state \<Rightarrow> real \<Rightarrow> real \<Rightarrow> mtp_state \<times> bool" where
  "lane_fallback io s t_safety t_cost =
     (case text_ar_safety_fallback io s t_safety of
        (s1, True) \<Rightarrow> (s1, True)
      | (s1, False) \<Rightarrow> text_cost_fallback io s1 t_cost)"

end
