(* ===== verification/Mtp_Cycle.thy ===== *)
theory Mtp_Cycle
  imports Mtp_Text
begin

text \<open>
  Drafting and verification in the text lane (\<open>patches/mlx_lm_mtp/batch_generator.py\<close>) for a greedy sampler
  without logits processors: the bridge from the standard step, the verify cycle with its roll back, the emission
  queue, the hand-over to plain decoding, and the patched \<open>GenerationBatch.next\<close>; the stock step is the one of
  \<open>utils/mamba_cache.py\<close>.  A cache layer is represented by the tokens it has been fed.  The network with its
  greedy sampler is a function of the histories of the layers, the draft head any function of the number of its
  calls and the tokens it sees; \<open>e_configured\<close> is what \<open>native_mtp_effective_depth\<close> answers, \<open>None\<close> when it raises.
\<close>

section \<open>Cache layers and batches\<close>

record layer =
  l_toks :: "int list"
  l_snap :: "int list option"
  l_snapshots :: bool
  l_partial :: bool
  l_rollback :: bool
  l_trimmable :: bool

record 'm mtp_batch =
  b_tokens :: "int list"
  b_layers :: "layer list"
  b_next :: "int option"
  b_num :: int
  b_max :: int
  b_matcher :: 'm
  b_rows :: nat
  b_mtp :: "mtp_state option"

datatype mtp_exn = MtpStepFallback string | MtpRuntimeError string

text \<open>
  The model side: the greedy continuation of the layers' histories, the head's proposal, whether a recording layer
  accepts to drop tokens, whether an advance crosses the live-encode threshold of a layer, the stop matcher, and the
  epilogue of the unmodified \<open>next()\<close>.
\<close>

record 'm mtp_env =
  e_io :: mtp_io
  e_fwd :: "int list list \<Rightarrow> int"
  e_head :: "nat \<Rightarrow> int list \<Rightarrow> int"
  e_rollback_ok :: "int list \<Rightarrow> nat \<Rightarrow> bool"
  e_crossing :: "int list \<Rightarrow> nat \<Rightarrow> bool"
  e_match :: "'m \<Rightarrow> int \<Rightarrow> 'm \<times> bool"
  e_configured :: "(int \<times> string) option"
  e_prime :: string
  e_epilogue :: "'m mtp_batch \<Rightarrow> int \<Rightarrow> 'm mtp_batch \<times> int \<times> string option"

definition feed_layer :: "int list \<Rightarrow> layer \<Rightarrow> layer" where
  "feed_layer ts l = l\<lparr>l_toks := l_toks l @ ts\<rparr>"

text \<open>A verify forward with \<open>n_confirmed=1\<close>: recurrent layers leave a snapshot after the first token.\<close>

definition feed_verify :: "int list \<Rightarrow> layer \<Rightarrow> layer" where
  "feed_verify ts l =
     (if l_snapshots l then l\<lparr>l_toks := l_toks l @ ts, l_snap := Some (l_toks l @ take 1 ts)\<rparr> else feed_layer ts l)"

definition next_of :: "'m mtp_env \<Rightarrow> layer list \<Rightarrow> int" where
  "next_of e ls = e_fwd e (map l_toks ls)"

text \<open>\<open>_effective_depth_resolution\<close>: the configured depth, 1 unless every layer can take partial prefixes back.\<close>

fun layers_allow_depth :: "layer list \<Rightarrow> bool" where
  "layers_allow_depth [] = True"
| "layers_allow_depth (l # ls) =
     (if l_partial l \<and> l_rollback l then layers_allow_depth ls
      else if l_snap l \<noteq> None then False
      else if \<not> l_trimmable l then False
      else layers_allow_depth ls)"

definition effective_depth_resolution :: "(int \<times> string) option \<Rightarrow> layer list \<Rightarrow> int \<times> string" where
  "effective_depth_resolution configured ls =
     (let (depth, source) = (case configured of Some ds \<Rightarrow> ds | None \<Rightarrow> (1, ''resolution_error''));
          depth = max 1 (min 3 (if depth = 0 then 1 else depth))
      in if depth \<le> 1 then (1, source)
         else if layers_allow_depth ls then (depth, source) else (1, source))"

section \<open>Roll back\<close>

definition can_roll_back :: "layer \<Rightarrow> bool" where
  "can_roll_back l \<longleftrightarrow> l_rollback l \<or> l_snap l \<noteq> None \<or> l_trimmable l"

definition drop_last :: "nat \<Rightarrow> 'a list \<Rightarrow> 'a list" where
  "drop_last n xs = take (length xs - n) xs"

fun roll_back_each :: "'m mtp_env \<Rightarrow> nat \<Rightarrow> layer list \<Rightarrow> layer list \<times> bool" where
  "roll_back_each e n [] = ([], True)"
| "roll_back_each e n (l # ls) =
     (if l_rollback l
      then (if \<not> e_rollback_ok e (l_toks l) n then (l # ls, False)
            else (let (ls', ok) = roll_back_each e n ls in (l\<lparr>l_toks := drop_last n (l_toks l)\<rparr> # ls', ok)))
      else (case l_snap l of
              Some snap \<Rightarrow> (let (ls', ok) = roll_back_each e n ls in (l\<lparr>l_toks := snap, l_snap := None\<rparr> # ls', ok))
            | None \<Rightarrow> (let (ls', ok) = roll_back_each e n ls in (l\<lparr>l_toks := drop_last n (l_toks l)\<rparr> # ls', ok))))"

definition restore_or_trim :: "'m mtp_env \<Rightarrow> nat \<Rightarrow> layer list \<Rightarrow> layer list \<times> bool" where
  "restore_or_trim e n ls = (if list_all can_roll_back ls then roll_back_each e n ls else (ls, False))"

definition clear_rollback :: "layer list \<Rightarrow> layer list" where
  "clear_rollback ls = map (\<lambda>l. l\<lparr>l_snap := None\<rparr>) ls"

section \<open>Drafting\<close>

text \<open>\<open>max(1, depth)\<close> calls of the head, each on the chain so far.\<close>

fun draft_tokens :: "'m mtp_env \<Rightarrow> nat \<Rightarrow> nat \<Rightarrow> int list \<Rightarrow> int list" where
  "draft_tokens e 0 calls chain = []"
| "draft_tokens e (Suc n) calls chain =
     (let d = e_head e (Suc calls) chain in d # draft_tokens e n (Suc calls) (chain @ [d]))"

definition draft_chain :: "'m mtp_env \<Rightarrow> real \<Rightarrow> int list \<Rightarrow> mtp_state \<Rightarrow> mtp_state" where
  "draft_chain e head_ms chain s =
     (let n = nat (max 1 (m_depth s)); st = m_stats s
      in s\<lparr>m_drafts := draft_tokens e n (mtp_forwards st) chain,
           m_stats := st\<lparr>mtp_forwards := mtp_forwards st + n, mtp_head_ms := mtp_head_ms st + head_ms\<rparr>\<rparr>)"

section \<open>The bridge from the standard step\<close>

text \<open>
  \<open>_post_init_mtp\<close>: one more forward at the sampled token, whose duration seeds the governor's baseline.
\<close>

definition post_init_mtp :: "'m mtp_env \<Rightarrow> real \<Rightarrow> cycle_times \<Rightarrow> 'm mtp_batch \<Rightarrow> 'm mtp_batch" where
  "post_init_mtp e seed_ms ct b =
     (if b_next b = None \<or> b_rows b = 0 then b
      else
        (let main = the (b_next b);
             ls = map (feed_layer [main]) (b_layers b);
             nxt = next_of e ls;
             env = io_env (e_io e);
             ceil = fst (effective_depth_resolution (e_configured e) ls);
             ad = adaptive_depth_enabled env;
             d = (if ad then 1 else ceil);
             st = stats_init\<lparr>stats_depth := d, starting_depth := d, stats_ceiling := ceil,
                    depth_policy_name := (if ad then ''adaptive'' else ''fixed''), seed_main_forwards := 1,
                    prompt_prime_source := e_prime e\<rparr>;
             s = (mtp_init (io_depths (e_io e)))\<lparr>m_ar_step_ms := seed_ms,
                    m_safety := ar_init\<lparr>prompt_tokens := int (length (b_tokens b))\<rparr>,
                    m_ceiling := ceil, m_adaptive := ad, m_depth := d, m_stats := st,
                    m_next_main := Some nxt, m_queue := [(main, ''init''), (nxt, ''init'')]\<rparr>;
             s' = draft_chain e (ct_head ct) [nxt] (adaptive_arm_cycle (e_io e) s (ct_arm ct))
         in b\<lparr>b_layers := ls, b_mtp := Some s'\<rparr>))"

definition has_prefix :: "string \<Rightarrow> string \<Rightarrow> bool" where
  "has_prefix p s \<longleftrightarrow> take (length p) s = p"

fun has_infix :: "string \<Rightarrow> string \<Rightarrow> bool" where
  "has_infix p [] \<longleftrightarrow> p = []"
| "has_infix p (c # cs) \<longleftrightarrow> has_prefix p (c # cs) \<or> has_infix p cs"

text \<open>
  \<open>_adaptive_mtp_activation_decision\<close>: an adaptive request of an unseen workload stays plain; a fixed
  policy, an explicit depth or a tuning record activates the lane.
\<close>

definition activation_decision :: "process_env \<Rightarrow> int \<times> string \<Rightarrow> bool \<times> int \<times> string" where
  "activation_decision env resolved =
     (case resolved of (depth, source) \<Rightarrow>
        if \<not> adaptive_depth_enabled env then (True, depth, ''fixed_policy'')
        else if has_prefix ''VML'' source then (True, depth, source)
        else if has_infix ''vmlx_mtp_tuning.json'' source then (True, depth, source)
        else (False, depth, ''adaptive_unseen_ar''))"

text \<open>The part of \<open>patched_init\<close> after the unmodified constructor.\<close>

definition patched_init :: "'m mtp_env \<Rightarrow> real \<Rightarrow> cycle_times \<Rightarrow> 'm mtp_batch \<Rightarrow> 'm mtp_batch" where
  "patched_init e seed_ms ct b =
     (if b_rows b \<noteq> 1 then b
      else case activation_decision (io_env (e_io e))
                  (effective_depth_resolution (e_configured e) (b_layers b)) of
        (False, _) \<Rightarrow> b
      | (True, _) \<Rightarrow> post_init_mtp e seed_ms ct b)"

section \<open>The verify cycle\<close>

text \<open>Longest-prefix acceptance of a greedy sampler.\<close>

fun accepted_prefix :: "int list \<Rightarrow> int list \<Rightarrow> nat" where
  "accepted_prefix (d # ds) (s # ss) = (if s = d then Suc (accepted_prefix ds ss) else 0)"
| "accepted_prefix _ _ = 0"

definition sampled_ids :: "'m mtp_env \<Rightarrow> layer list \<Rightarrow> int list \<Rightarrow> int list" where
  "sampled_ids e ls inputs = map (\<lambda>i. next_of e (map (feed_layer (take (Suc i) inputs)) ls)) [0..<length inputs]"

text \<open>\<open>drafted_by_depth[i] += 1\<close> and \<open>accepted_by_depth[i] += 1\<close> for the first positions.\<close>

definition bump_first :: "nat \<Rightarrow> int list \<Rightarrow> int list" where
  "bump_first n xs = map (\<lambda>(i, x). if i < n then x + 1 else x) (zip [0..<length xs] xs)"

definition count_cycle :: "nat \<Rightarrow> nat \<Rightarrow> cycle_times \<Rightarrow> mtp_stats \<Rightarrow> mtp_stats" where
  "count_cycle n k ct st =
     st\<lparr>backbone_ms := backbone_ms st + ct_backbone ct, sample_ms := sample_ms st + ct_sample ct,
        cycles := cycles st + 1, verify_main_forwards := verify_main_forwards st + 1,
        drafts_proposed := drafts_proposed st + int n, drafts_accepted := drafts_accepted st + int k,
        drafted_by_depth := bump_first n (drafted_by_depth st),
        accepted_by_depth := bump_first k (accepted_by_depth st),
        accepts := accepts st + (if k = n then 1 else 0), rejects := rejects st + (if k = n then 0 else 1)\<rparr>"

definition count_rollback :: "bool \<Rightarrow> cycle_times \<Rightarrow> mtp_stats \<Rightarrow> mtp_stats" where
  "count_rollback full ct st =
     st\<lparr>retained_on_rejects := retained_on_rejects st + (if full then 0 else 1),
        cache_ops_ms := cache_ops_ms st + ct_cache ct\<rparr>"

text \<open>
  What follows a sound verification of \<open>n\<close> drafts of which \<open>k\<close> were accepted: the depth decision, the queue, and
  either the fallback decision or the next chain.
\<close>

definition after_verify ::
  "'m mtp_env \<Rightarrow> cycle_times \<Rightarrow> nat \<Rightarrow> nat \<Rightarrow> int \<Rightarrow> mtp_state \<Rightarrow> mtp_state" where
  "after_verify e ct n k emit_id s =
     (let s1 = adaptive_finish_cycle (e_io e) s (int n) (int k) (ct_finish ct);
          s2 = s1\<lparr>m_queue := m_queue s1 @ map (\<lambda>d. (d, ''draft'')) (take k (m_drafts s1)) @
                              [(emit_id, if k = n then ''bonus'' else ''verify'')],
                  m_next_main := Some emit_id\<rparr>;
          (s3, stop) = lane_fallback (e_io e) s2 (ct_safety ct) (ct_cost ct)
      in if stop then s3\<lparr>m_drafts := []\<rparr>
         else draft_chain e (ct_head ct) [emit_id] (adaptive_arm_cycle (e_io e) s3 (ct_arm ct)))"

definition run_verify_cycle ::
  "'m mtp_env \<Rightarrow> cycle_times \<Rightarrow> mtp_state \<Rightarrow> layer list \<Rightarrow> (mtp_state \<times> layer list) \<times> mtp_exn option" where
  "run_verify_cycle e ct s ls =
     (if m_next_main s = None \<or> m_drafts s = []
      then ((s, ls), Some (MtpStepFallback ''verify cycle entered without next_main / drafts''))
      else
        (let n = length (m_drafts s)
         in if list_ex (\<lambda>l. e_crossing e (l_toks l) (n + 1)) ls
            then ((s, ls), Some (MtpStepFallback ''tq live-encode crossing in verify advance''))
            else
              (let inputs = the (m_next_main s) # m_drafts s;
                   sampled = sampled_ids e ls inputs;
                   fed = map (feed_verify inputs) ls;
                   k = accepted_prefix (m_drafts s) sampled;
                   s1 = s\<lparr>m_stats := count_cycle n k ct (m_stats s)\<rparr>;
                   (ls', ok) = (if k = n then (clear_rollback fed, True) else restore_or_trim e (n - k) fed)
               in if \<not> ok
                  then ((s1, ls'), Some (MtpRuntimeError ''native MTP cache rejected rollback''))
                  else
                    ((after_verify e ct n k (sampled ! k)
                        (s1\<lparr>m_stats := count_rollback (k = n) ct (m_stats s1)\<rparr>), ls'), None))))"

section \<open>Emission\<close>

definition bump_emit_stat :: "string \<Rightarrow> mtp_stats \<Rightarrow> mtp_stats" where
  "bump_emit_stat source st =
     (if source = ''init'' then st\<lparr>init_emits := init_emits st + 1\<rparr>
      else if source = ''draft'' then st\<lparr>draft_emits := draft_emits st + 1\<rparr>
      else if source = ''bonus'' then st\<lparr>bonus_emits := bonus_emits st + 1\<rparr>
      else if source = ''verify'' then st\<lparr>verify_emits := verify_emits st + 1\<rparr> else st)"

text \<open>The epilogue on a token that is already in the history: budget, matcher, retirement.\<close>

definition emission_epilogue ::
  "('m \<Rightarrow> int \<Rightarrow> 'm \<times> bool) \<Rightarrow> 'm mtp_batch \<Rightarrow> int \<Rightarrow> 'm mtp_batch \<times> int \<times> string option" where
  "emission_epilogue match_token b tok =
     (let num = b_num b + 1;
          (m, stopped) = match_token (b_matcher b) tok;
          reason = (if stopped then Some ''stop'' else if b_max b \<le> num then Some ''length'' else None);
          b' = b\<lparr>b_num := num, b_matcher := m\<rparr>
      in if reason \<noteq> None then (b'\<lparr>b_mtp := None, b_rows := 0\<rparr>, tok, reason) else (b', tok, None))"

definition emit_response :: "'m mtp_env \<Rightarrow> 'm mtp_batch \<Rightarrow> int \<Rightarrow> 'm mtp_batch \<times> int \<times> string option" where
  "emit_response e b tok = emission_epilogue (e_match e) (b\<lparr>b_tokens := b_tokens b @ [tok]\<rparr>) tok"

text \<open>Take the first queued token, count it and emit it.\<close>

definition pop_and_emit :: "'m mtp_env \<Rightarrow> mtp_state \<Rightarrow> 'm mtp_batch \<Rightarrow> 'm mtp_batch \<times> int \<times> string option" where
  "pop_and_emit e s b =
     (case hd (m_queue s) of (tok, source) \<Rightarrow>
        emit_response e (b\<lparr>b_mtp := Some (s\<lparr>m_queue := tl (m_queue s),
                                            m_stats := bump_emit_stat source (m_stats s)\<rparr>)\<rparr>) tok)"

definition mtp_next ::
  "'m mtp_env \<Rightarrow> cycle_times \<Rightarrow> mtp_state \<Rightarrow> 'm mtp_batch \<Rightarrow>
   'm mtp_batch \<times> (mtp_exn + int \<times> string option)" where
  "mtp_next e ct s b =
     (if m_queue s \<noteq> [] then (case pop_and_emit e s b of (b', r) \<Rightarrow> (b', Inr r))
      else
        (let s0 = (if cycles (m_stats s) = 0 \<and> m_span_start s \<le> 0 then s\<lparr>m_span_start := ct_start ct\<rparr> else s)
         in case run_verify_cycle e ct s0 (b_layers b) of
              ((s1, ls), Some ex) \<Rightarrow> (b\<lparr>b_mtp := Some s1, b_layers := ls\<rparr>, Inl ex)
            | ((s1, ls), None) \<Rightarrow>
                (let b1 = b\<lparr>b_mtp := Some s1, b_layers := ls\<rparr>
                 in if m_queue s1 = [] then (b1, Inl (MtpStepFallback ''verify cycle produced no emit tokens''))
                    else (case pop_and_emit e s1 b1 of (b', r) \<Rightarrow> (b', Inr r)))))"

section \<open>Plain decoding\<close>

text \<open>\<open>_step_with_sync\<close>: the pending token enters cache and history, the next one is sampled.\<close>

definition gb_step :: "'m mtp_env \<Rightarrow> 'm mtp_batch \<Rightarrow> 'm mtp_batch \<times> int" where
  "gb_step e b =
     (let tok = the (b_next b); ls = map (feed_layer [tok]) (b_layers b)
      in (b\<lparr>b_layers := ls, b_next := Some (next_of e ls), b_tokens := b_tokens b @ [tok]\<rparr>, tok))"

definition original_next :: "'m mtp_env \<Rightarrow> 'm mtp_batch \<Rightarrow> 'm mtp_batch \<times> int \<times> string option" where
  "original_next e b = (case gb_step e b of (b', tok) \<Rightarrow> e_epilogue e b' tok)"

definition handoff_ready :: "'m mtp_batch \<Rightarrow> mtp_state \<Rightarrow> string" where
  "handoff_ready b s =
     (if m_queue s \<noteq> [] then ''pending_queue''
      else case m_next_main s of
        None \<Rightarrow> ''missing_next_main''
      | Some t \<Rightarrow>
          if b_tokens b = [] then ''missing_visible_token''
          else if t \<noteq> last (b_tokens b) then ''next_main_mismatch''
          else if list_ex (\<lambda>l. l_snap l \<noteq> None) (b_layers b) then ''pending_rollback_state''
          else ''ready'')"

definition prepare_ar_handoff :: "'m mtp_env \<Rightarrow> mtp_state \<Rightarrow> 'm mtp_batch \<Rightarrow> 'm mtp_batch \<times> mtp_exn option" where
  "prepare_ar_handoff e s b =
     (if handoff_ready b s \<noteq> ''ready''
      then (b, Some (MtpRuntimeError (''native MTP AR fallback unsafe: '' @ handoff_ready b s)))
      else
        (let visible = last (b_tokens b);
             b1 = b\<lparr>b_tokens := butlast (b_tokens b), b_next := m_next_main s\<rparr>;
             (b2, consumed) = gb_step e b1
         in if consumed \<noteq> visible
            then (b2, Some (MtpRuntimeError ''native MTP AR fallback consumed the wrong boundary token''))
            else (b2\<lparr>b_mtp := None\<rparr>, None)))"

definition mtp_eligible :: "'m mtp_batch \<Rightarrow> bool" where
  "mtp_eligible b \<longleftrightarrow> b_rows b = 1"

definition patched_next ::
  "'m mtp_env \<Rightarrow> cycle_times \<Rightarrow> 'm mtp_batch \<Rightarrow> 'm mtp_batch \<times> (mtp_exn + int \<times> string option)" where
  "patched_next e ct b =
     (case (if mtp_eligible b then b_mtp b else None) of
        None \<Rightarrow> (case original_next e b of (b', r) \<Rightarrow> (b', Inr r))
      | Some s \<Rightarrow>
          (case mtp_next e ct s b of
             (b1, Inl (MtpStepFallback _)) \<Rightarrow>
               (case original_next e (b1\<lparr>b_mtp := None\<rparr>) of (b', r) \<Rightarrow> (b', Inr r))
           | (b1, Inl ex) \<Rightarrow> (b1, Inl ex)
           | (b1, Inr (tok, fin)) \<Rightarrow>
               (case b_mtp b1 of
                  None \<Rightarrow> (b1, Inr (tok, fin))
                | Some s1 \<Rightarrow>
                    if m_pending s1 \<and> m_queue s1 = [] \<and> fin = None
                    then (case prepare_ar_handoff e s1 b1 of
                            (b2, Some ex) \<Rightarrow> (b2, Inl ex)
                          | (b2, None) \<Rightarrow> (b2, Inr (tok, fin)))
                    else (b1, Inr (tok, fin)))))"

end
