(* ===== verification/Mtp_Greedy.thy ===== *)
theory Mtp_Greedy
  imports Mtp_Cycle
begin

text \<open>
  Greedy identity of the text lane: whatever the draft head proposes, however the depth controller and the
  governor change the chain, the patched \<open>next\<close> emits the responses of plain decoding, also across the
  hand-over.  The fall-back that would break it is excluded here (\<open>lane_env_ok\<close>) and shown in \<open>Mtp_Props\<close>.
\<close>

section \<open>Runs\<close>

text \<open>Calls of the patched \<open>next\<close> until the request retires or raises, and the same number of plain calls.\<close>

fun patched_run :: "'m mtp_env \<Rightarrow> cycle_times list \<Rightarrow> 'm mtp_batch \<Rightarrow> (mtp_exn + int \<times> string option) list" where
  "patched_run e [] b = []"
| "patched_run e (ct # cts) b =
     (if b_rows b = 0 then []
      else case patched_next e ct b of
        (b', Inr r) \<Rightarrow> Inr r # patched_run e cts b'
      | (b', Inl ex) \<Rightarrow> [Inl ex])"

fun plain_run :: "'m mtp_env \<Rightarrow> nat \<Rightarrow> 'm mtp_batch \<Rightarrow> (int \<times> string option) list" where
  "plain_run e 0 b = []"
| "plain_run e (Suc n) b =
     (if b_rows b = 0 then []
      else case original_next e b of (b', r) \<Rightarrow> r # plain_run e n b')"

text \<open>
  What the lane relies on: recording layers take any suffix back, no advance crosses a live-encode threshold, the
  unmodified epilogue is the one \<open>_emit_response\<close> mirrors; a recurrent layer has only its snapshot.
\<close>

definition lane_env_ok :: "'m mtp_env \<Rightarrow> bool" where
  "lane_env_ok e \<longleftrightarrow> (\<forall>ts n. e_rollback_ok e ts n) \<and> (\<forall>ts n. \<not> e_crossing e ts n) \<and>
     (\<forall>b t. e_epilogue e b t = emission_epilogue (e_match e) b t)"

definition layer_ok :: "layer \<Rightarrow> bool" where
  "layer_ok l \<longleftrightarrow> l_snap l = None \<and>
     (if l_snapshots l then \<not> l_rollback l \<and> \<not> l_trimmable l else l_rollback l \<or> l_trimmable l)"

section \<open>The greedy continuation\<close>

fun cont :: "(int list list \<Rightarrow> int) \<Rightarrow> int list list \<Rightarrow> int \<Rightarrow> nat \<Rightarrow> int list" where
  "cont f H t 0 = []"
| "cont f H t (Suc n) = (let H' = map (\<lambda>h. h @ [t]) H in t # cont f H' (f H') n)"

lemma length_cont [simp]: "length (cont f H t n) = n"
  by (induction n arbitrary: H t) (simp_all add: Let_def)

text \<open>Verification extends the histories by the accepted drafts and continues greedily.\<close>

lemma prefix_is_greedy:
  assumes "ss = map (\<lambda>i. f (map (\<lambda>h. h @ take i ds) H)) [0..<Suc (length ds)]"
  shows "take (accepted_prefix ds ss) ds @ [ss ! accepted_prefix ds ss] = cont f H (f H) (Suc (accepted_prefix ds ss))
    \<and> accepted_prefix ds ss \<le> length ds"
  using assms
proof (induction ds arbitrary: H ss)
  case Nil
  then show ?case by (simp add: Let_def)
next
  case (Cons d ds)
  let ?H = "map (\<lambda>h. h @ [d]) H"
  define ss' where ss': "ss' = map (\<lambda>i. f (map (\<lambda>h. h @ take i ds) ?H)) [0..<Suc (length ds)]"
  have "[0..<Suc (length (d # ds))] = 0 # map Suc [0..<Suc (length ds)]"
    by (simp add: map_Suc_upt upt_conv_Cons del: upt_Suc)
  then have ss: "ss = f H # ss'" unfolding Cons.prems ss' by (simp add: comp_def del: upt_Suc)
  show ?case
  proof (cases "f H = d")
    case True
    then show ?thesis using Cons.IH [OF ss'] by (simp add: ss Let_def)
  next
    case False
    then show ?thesis by (simp add: ss Let_def)
  qed
qed

declare cont.simps(2) [simp del]

section \<open>Layers\<close>

abbreviation histories :: "layer list \<Rightarrow> int list list" where
  "histories ls \<equiv> map l_toks ls"

lemma drop_last_append [simp]: "drop_last (length ys) (xs @ ys) = xs"
  by (simp add: drop_last_def)

lemma drop_last_tail: "k \<le> length ds \<Longrightarrow> drop_last (length ds - k) (xs @ y # ds) = xs @ y # take k ds"
  by (simp add: drop_last_def)

lemma feed_keeps [simp]:
  "l_toks (feed_layer ts l) = l_toks l @ ts" "l_snap (feed_layer ts l) = l_snap l" "l_snapshots (feed_layer ts l) = l_snapshots l"
  "l_partial (feed_layer ts l) = l_partial l" "l_rollback (feed_layer ts l) = l_rollback l"
  "l_trimmable (feed_layer ts l) = l_trimmable l" "layer_ok (feed_layer ts l) = layer_ok l"
  by (simp_all add: feed_layer_def layer_ok_def)

lemma feed_verify_keeps [simp]:
  "l_toks (feed_verify ts l) = l_toks l @ ts" "l_snapshots (feed_verify ts l) = l_snapshots l"
  "l_partial (feed_verify ts l) = l_partial l" "l_rollback (feed_verify ts l) = l_rollback l"
  "l_trimmable (feed_verify ts l) = l_trimmable l"
  "layer_ok l \<Longrightarrow> l_snap (feed_verify ts l) = (if l_snapshots l then Some (l_toks l @ take 1 ts) else None)"
  by (simp_all add: feed_verify_def layer_ok_def)

lemma layer_ok_can_roll_back: "layer_ok l \<Longrightarrow> can_roll_back (feed_verify ts l)"
  by (auto simp: layer_ok_def can_roll_back_def split: if_splits)

lemma restored:
  assumes "lane_env_ok e" "list_all layer_ok ls" "k \<le> length ds"
    and "list_ex l_snapshots ls \<Longrightarrow> k = 0"
  shows "roll_back_each e (length ds - k) (map (feed_verify (y # ds)) ls) =
    (map (feed_layer (y # take k ds)) ls, True)"
  using assms(2,4)
proof (induction ls)
  case (Cons l ls)
  have IH: "roll_back_each e (length ds - k) (map (feed_verify (y # ds)) ls) = (map (feed_layer (y # take k ds)) ls, True)"
    using Cons by simp
  have ok: "layer_ok l" using Cons.prems by simp
  have rb: "e_rollback_ok e ts n" for ts n using assms(1) by (simp add: lane_env_ok_def)
  show ?case
  proof (cases "l_snapshots l")
    case True
    then have "\<not> l_rollback l" "k = 0" using ok Cons.prems by (simp_all add: layer_ok_def)
    moreover from this have "feed_verify (y # ds) l = l\<lparr>l_toks := l_toks l @ y # ds, l_snap := Some (l_toks l @ [y])\<rparr>"
      and "feed_layer [y] l = l\<lparr>l_toks := l_toks l @ [y], l_snap := None\<rparr>"
      using True ok by (simp_all add: feed_verify_def feed_layer_def layer_ok_def)
    ultimately show ?thesis using IH by simp
  next
    case False
    then have "l_snap l = None" using ok by (simp add: layer_ok_def)
    moreover have "feed_verify (y # ds) l = l\<lparr>l_toks := l_toks l @ y # ds\<rparr>"
      and "feed_layer (y # take k ds) l = l\<lparr>l_toks := l_toks l @ y # take k ds\<rparr>"
      using False by (simp_all add: feed_verify_def feed_layer_def)
    ultimately show ?thesis using IH rb assms(3) by (simp add: drop_last_tail)
  qed
qed simp

lemma verified_layers:
  assumes "lane_env_ok e" "list_all layer_ok ls" "k \<le> length ds"
    and "list_ex l_snapshots ls \<Longrightarrow> length ds \<le> 1"
  shows "(if k = length ds then (clear_rollback (map (feed_verify (y # ds)) ls), True)
          else restore_or_trim e (length ds - k) (map (feed_verify (y # ds)) ls)) =
    (map (feed_layer (y # take k ds)) ls, True)"
proof (cases "k = length ds")
  case True
  have "clear_rollback (map (feed_verify (y # ds)) ls) = map (feed_layer (y # ds)) ls"
    using assms(2) by (auto simp: clear_rollback_def feed_verify_def feed_layer_def layer_ok_def list_all_iff)
  then show ?thesis using True by simp
next
  case False
  then have "list_ex l_snapshots ls \<Longrightarrow> k = 0" using assms(3,4) by fastforce
  moreover have "list_all can_roll_back (map (feed_verify (y # ds)) ls)"
    using assms(2) layer_ok_can_roll_back by (auto simp: list_all_iff)
  ultimately show ?thesis using False restored [OF assms(1-3)] by (simp add: restore_or_trim_def)
qed

lemma list_ex_snapshots_feed [simp]: "list_ex l_snapshots (map (feed_layer ts) ls) = list_ex l_snapshots ls"
  by (simp add: list_ex_iff)

lemma list_all_layer_ok_feed [simp]: "list_all layer_ok (map (feed_layer ts) ls) = list_all layer_ok ls"
  by (simp add: list_all_iff)

lemma histories_feed [simp]: "histories (map (feed_layer ts) ls) = map (\<lambda>h. h @ ts) (histories ls)"
  by simp

lemma layers_allow_depth_snapshots:
  "list_all layer_ok ls \<Longrightarrow> layers_allow_depth ls \<Longrightarrow> \<not> list_ex l_snapshots ls"
  by (induction ls) (auto simp: layer_ok_def split: if_splits)

lemma resolution_bounds:
  "effective_depth_resolution c ls = (d, src) \<Longrightarrow> 1 \<le> d \<and> d \<le> 3"
  by (auto simp: effective_depth_resolution_def Let_def split: prod.splits if_splits)

lemma resolution_snapshots:
  "list_all layer_ok ls \<Longrightarrow> list_ex l_snapshots ls \<Longrightarrow> fst (effective_depth_resolution c ls) = 1"
  using layers_allow_depth_snapshots [of ls]
  by (auto simp: effective_depth_resolution_def Let_def split: prod.splits)


section \<open>What the controllers leave alone\<close>

text \<open>They touch depth, measurements and the pending flag only, and keep the depth below the ceiling.\<close>

definition chain_kept :: "mtp_state \<Rightarrow> mtp_state \<Rightarrow> bool" where
  "chain_kept s s' \<longleftrightarrow> m_queue s' = m_queue s \<and> m_next_main s' = m_next_main s \<and> m_drafts s' = m_drafts s \<and>
     m_ceiling s' = m_ceiling s \<and> m_adaptive s' = m_adaptive s \<and> m_ar_step_ms s' = m_ar_step_ms s \<and>
     (m_depth s \<le> m_ceiling s \<longrightarrow> 1 \<le> m_ceiling s \<longrightarrow> m_depth s' \<le> m_ceiling s')"

lemma chain_kept_trans: "chain_kept s s' \<Longrightarrow> chain_kept s' s'' \<Longrightarrow> chain_kept s s''"
  by (auto simp: chain_kept_def)

lemma chain_kept_refl [simp]: "chain_kept s s"
  by (simp add: chain_kept_def)

lemma arm_kept [simp]: "chain_kept s (adaptive_arm_cycle io s now)" "m_pending (adaptive_arm_cycle io s now) = m_pending s"
  by (simp_all add: chain_kept_def adaptive_arm_cycle_def)

lemma finish_kept [simp]:
  "chain_kept s (adaptive_finish_cycle io s n k now)" "m_pending (adaptive_finish_cycle io s n k now) = m_pending s"
  by (auto simp: chain_kept_def adaptive_finish_cycle_def Let_def split: prod.split option.split)

lemma safety_kept:
  "chain_kept s (fst (text_ar_safety_fallback io s now))"
  "\<not> m_pending s \<Longrightarrow> m_pending (fst (text_ar_safety_fallback io s now)) = snd (text_ar_safety_fallback io s now)"
  by (auto simp: chain_kept_def text_ar_safety_fallback_def Let_def split: prod.split option.split)

lemma cost_kept:
  "chain_kept s (fst (text_cost_fallback io s now))"
  "\<not> m_pending s \<Longrightarrow> m_pending (fst (text_cost_fallback io s now)) = snd (text_cost_fallback io s now)"
  by (auto simp: chain_kept_def text_cost_fallback_def Let_def split: prod.split option.split)

lemma lane_kept:
  "chain_kept s (fst (lane_fallback io s t1 t2))"
  "\<not> m_pending s \<Longrightarrow> m_pending (fst (lane_fallback io s t1 t2)) = snd (lane_fallback io s t1 t2)"
proof -
  obtain s1 b where 1: "text_ar_safety_fallback io s t1 = (s1, b)" by fastforce
  have k: "chain_kept s s1" and p: "\<not> m_pending s \<Longrightarrow> m_pending s1 = b"
    using safety_kept [of s io t1] 1 by simp_all
  show "chain_kept s (fst (lane_fallback io s t1 t2))"
    using k chain_kept_trans [OF k cost_kept(1) [of s1 io t2]] by (cases b) (simp_all add: lane_fallback_def 1)
  show "m_pending (fst (lane_fallback io s t1 t2)) = snd (lane_fallback io s t1 t2)" if "\<not> m_pending s"
    using p [OF that] cost_kept(2) [of s1 io t2] by (cases b) (simp_all add: lane_fallback_def 1)
qed

lemma length_draft_tokens [simp]: "length (draft_tokens e n c ch) = n"
  by (induction n arbitrary: c ch) (simp_all add: Let_def)

text \<open>A state whose chain can be verified at any time it is not pending.\<close>

definition chain_ready :: "mtp_state \<Rightarrow> layer list \<Rightarrow> bool" where
  "chain_ready s ls \<longleftrightarrow> 1 \<le> m_ceiling s \<and> m_depth s \<le> m_ceiling s \<and> list_all layer_ok ls \<and>
     (list_ex l_snapshots ls \<longrightarrow> m_ceiling s = 1) \<and>
     (\<not> m_pending s \<longrightarrow> m_drafts s \<noteq> [] \<and> int (length (m_drafts s)) \<le> m_ceiling s)"

lemma draft_chain_simps [simp]:
  "m_queue (draft_chain e h ch s) = m_queue s" "m_next_main (draft_chain e h ch s) = m_next_main s"
  "m_ceiling (draft_chain e h ch s) = m_ceiling s" "m_depth (draft_chain e h ch s) = m_depth s"
  "m_pending (draft_chain e h ch s) = m_pending s" "length (m_drafts (draft_chain e h ch s)) = nat (max 1 (m_depth s))"
  by (simp_all add: draft_chain_def Let_def)

lemma draft_chain_ready:
  "1 \<le> m_ceiling s \<Longrightarrow> m_depth s \<le> m_ceiling s \<Longrightarrow> list_all layer_ok ls \<Longrightarrow>
   (list_ex l_snapshots ls \<Longrightarrow> m_ceiling s = 1) \<Longrightarrow> chain_ready (draft_chain e h ch s) ls"
proof -
  assume a: "1 \<le> m_ceiling s" "m_depth s \<le> m_ceiling s" "list_all layer_ok ls" "list_ex l_snapshots ls \<Longrightarrow> m_ceiling s = 1"
  have "m_drafts (draft_chain e h ch s) \<noteq> []"
    using draft_chain_simps(6) [of e h ch s] by (auto simp del: draft_chain_simps(6))
  then show ?thesis using a by (simp add: chain_ready_def)
qed

lemma after_verify_spec:
  assumes "chain_ready s ls" "\<not> m_pending s" "m_queue s = []"
    and "list_all layer_ok ls'" "list_ex l_snapshots ls' = list_ex l_snapshots ls"
    and s'_def: "s' = after_verify e ct n k emit_id s"
  shows "map fst (m_queue s') = take k (m_drafts s) @ [emit_id] \<and> m_next_main s' = Some emit_id \<and> chain_ready s' ls'"
proof -
  define s1 where "s1 = adaptive_finish_cycle (e_io e) s (int n) (int k) (ct_finish ct)"
  define s2 where "s2 = s1\<lparr>m_queue := m_queue s1 @ map (\<lambda>d. (d, ''draft'')) (take k (m_drafts s1)) @
                              [(emit_id, if k = n then ''bonus'' else ''verify'')],
                  m_next_main := Some emit_id\<rparr>"
  obtain s3 stop where 3: "lane_fallback (e_io e) s2 (ct_safety ct) (ct_cost ct) = (s3, stop)" by fastforce
  have s': "s' = (if stop then s3\<lparr>m_drafts := []\<rparr>
         else draft_chain e (ct_head ct) [emit_id] (adaptive_arm_cycle (e_io e) s3 (ct_arm ct)))"
    unfolding s'_def after_verify_def Let_def s1_def [symmetric] s2_def [symmetric] 3 by simp
  have k1: "chain_kept s s1" and p1: "m_pending s1 = m_pending s" by (simp_all add: s1_def)
  have "\<not> m_pending s2" using p1 assms(2) by (simp add: s2_def)
  then have k3: "chain_kept s2 s3" and p3: "m_pending s3 = stop"
    using lane_kept [of s2 "e_io e" "ct_safety ct" "ct_cost ct"] unfolding 3 by simp_all
  have q: "map fst (m_queue s3) = take k (m_drafts s) @ [emit_id]" "m_next_main s3 = Some emit_id"
    "m_ceiling s3 = m_ceiling s" "m_depth s3 \<le> m_ceiling s" "1 \<le> m_ceiling s"
    using k1 k3 assms(1,3) by (simp_all add: chain_kept_def s2_def chain_ready_def comp_def)
  have c1: "list_ex l_snapshots ls' \<Longrightarrow> m_ceiling s = 1" using assms(1,5) by (simp add: chain_ready_def)
  show ?thesis
  proof (cases stop)
    case True
    then show ?thesis using q p3 assms(4) c1 by (simp add: s' chain_ready_def)
  next
    case False
    let ?a = "adaptive_arm_cycle (e_io e) s3 (ct_arm ct)"
    have a: "chain_kept s3 ?a" "m_pending ?a = m_pending s3" by simp_all
    then have "m_ceiling ?a = m_ceiling s" "m_depth ?a \<le> m_ceiling s" using q by (simp_all add: chain_kept_def)
    then have "chain_ready (draft_chain e (ct_head ct) [emit_id] ?a) ls'"
      using q(5) assms(4) c1 by (intro draft_chain_ready) simp_all
    then show ?thesis using False q a by (simp add: s' chain_kept_def)
  qed
qed

section \<open>Following the plain run\<close>

text \<open>
  \<open>H\<close> and \<open>t\<close> are the histories and the pending token of the plain run: the queue is its continuation,
  the layers are ahead by all queued tokens but the last, or one behind when the queue is empty.
\<close>

definition tracks :: "'m mtp_env \<Rightarrow> mtp_state \<Rightarrow> layer list \<Rightarrow> int list list \<Rightarrow> int \<Rightarrow> bool" where
  "tracks e s ls H t \<longleftrightarrow>
     (let q = map fst (m_queue s) in
      if q \<noteq> [] then q = cont (e_fwd e) H t (length q) \<and> histories ls = map (\<lambda>h. h @ butlast q) H \<and>
        m_next_main s = Some (last q)
      else \<not> m_pending s \<and> t = e_fwd e H \<and>
        (case m_next_main s of None \<Rightarrow> False | Some nm \<Rightarrow> H = map (\<lambda>h. h @ [nm]) (histories ls)))"

lemma sampled_ids_histories:
  "sampled_ids e ls (nm # ds) =
   map (\<lambda>i. e_fwd e (map (\<lambda>h. h @ take i ds) (map (\<lambda>h. h @ [nm]) (histories ls)))) [0..<Suc (length ds)]"
  by (simp add: sampled_ids_def next_of_def comp_def del: upt_Suc)

lemma tracks_queueI:
  "map fst (m_queue s) = q \<Longrightarrow> q \<noteq> [] \<Longrightarrow> q = cont (e_fwd e) H t (length q) \<Longrightarrow>
   histories ls = map (\<lambda>h. h @ butlast q) H \<Longrightarrow> m_next_main s = Some (last q) \<Longrightarrow> tracks e s ls H t"
  by (simp add: tracks_def Let_def)

lemma tracks_queueD:
  assumes "tracks e s ls H t" "map fst (m_queue s) = q" "q \<noteq> []"
  shows "q = cont (e_fwd e) H t (length q)" "histories ls = map (\<lambda>h. h @ butlast q) H" "m_next_main s = Some (last q)"
  using assms(1) unfolding tracks_def Let_def assms(2) using assms(3) by simp_all

lemma verify_follows:
  assumes env: "lane_env_ok e" and ready: "chain_ready s ls" and tr: "tracks e s ls H t" and q: "m_queue s = []"
  shows "\<exists>s' ls'. run_verify_cycle e ct s ls = ((s', ls'), None) \<and> chain_ready s' ls' \<and> tracks e s' ls' H t \<and>
    m_queue s' \<noteq> []"
proof -
  obtain nm where nm: "m_next_main s = Some nm" and H: "H = map (\<lambda>h. h @ [nm]) (histories ls)"
    and t: "t = e_fwd e H" and np: "\<not> m_pending s"
    using tr q by (auto simp: tracks_def split: option.splits)
  let ?ds = "m_drafts s" and ?f = "e_fwd e"
  have ds: "?ds \<noteq> []" and len: "int (length ?ds) \<le> m_ceiling s"
    and ok: "list_all layer_ok ls" and snap: "list_ex l_snapshots ls \<Longrightarrow> m_ceiling s = 1"
    using ready np by (simp_all add: chain_ready_def)
  define ss where "ss = sampled_ids e ls (nm # ?ds)"
  define k where "k = accepted_prefix ?ds ss"
  have ss: "ss = map (\<lambda>i. ?f (map (\<lambda>h. h @ take i ?ds) H)) [0..<Suc (length ?ds)]"
    unfolding ss_def H by (rule sampled_ids_histories)
  have acc: "take k ?ds @ [ss ! k] = cont ?f H t (Suc k)" and kn: "k \<le> length ?ds"
    using prefix_is_greedy [OF ss] by (simp_all add: k_def t)
  let ?ls = "map (feed_layer (nm # take k ?ds)) ls"
  have lay: "(if k = length ?ds then (clear_rollback (map (feed_verify (nm # ?ds)) ls), True)
          else restore_or_trim e (length ?ds - k) (map (feed_verify (nm # ?ds)) ls)) = (?ls, True)"
    using snap len by (intro verified_layers [OF env ok kn]) fastforce
  define s1 where "s1 = s\<lparr>m_stats := count_rollback (k = length ?ds) ct (count_cycle (length ?ds) k ct (m_stats s))\<rparr>"
  have cross: "\<not> list_ex (\<lambda>l. e_crossing e (l_toks l) (length ?ds + 1)) ls"
    using env by (simp add: lane_env_ok_def list_ex_iff)
  let ?s' = "after_verify e ct (length ?ds) k (ss ! k) s1"
  have run: "run_verify_cycle e ct s ls = ((?s', ?ls), None)"
    using cross ds
    by (simp only: run_verify_cycle_def nm option.sel option.distinct Let_def if_False simp_thms
          ss_def [symmetric] k_def [symmetric] lay prod.case) (simp add: s1_def)
  have 1: "chain_ready s1 ls" "\<not> m_pending s1" "m_queue s1 = []" "m_drafts s1 = ?ds"
    using ready np q by (simp_all add: s1_def chain_ready_def)
  have av: "map fst (m_queue ?s') = take k ?ds @ [ss ! k]" "m_next_main ?s' = Some (ss ! k)" "chain_ready ?s' ?ls"
    using after_verify_spec [OF 1(1-3) _ _ refl, of ?ls e ct "length ?ds" k "ss ! k"] ok 1(4) by simp_all
  have "length (take k ?ds @ [ss ! k]) = Suc k" using kn by simp
  with acc have cq: "take k ?ds @ [ss ! k] = cont ?f H t (length (take k ?ds @ [ss ! k]))" by argo
  have "tracks e ?s' ?ls H t"
    by (rule tracks_queueI [OF av(1) _ cq]) (simp_all add: H av(2))
  moreover have "m_queue ?s' \<noteq> []" using av(1) by auto
  ultimately show ?thesis using run av(3) by blast
qed


text \<open>Emitting the head of the queue is one plain step.\<close>

lemma pop_follows:
  assumes tr: "tracks e s ls H t" and q: "m_queue s = (tok, src) # rest"
    and s': "s' = s\<lparr>m_queue := rest, m_stats := st\<rparr>" and H': "H' = map (\<lambda>h. h @ [t]) H"
  shows "tok = t \<and> (if rest \<noteq> [] \<or> \<not> m_pending s then tracks e s' ls H' (e_fwd e H')
    else histories ls = H \<and> m_next_main s = Some t)"
proof -
  let ?r = "map fst rest" and ?f = "e_fwd e"
  have c: "tok # ?r = cont ?f H t (Suc (length ?r))" and h: "histories ls = map (\<lambda>h. h @ butlast (tok # ?r)) H"
    and nm: "m_next_main s = Some (last (tok # ?r))"
    using tracks_queueD [OF tr _ list.distinct(2), of tok ?r] by (simp_all only: q list.map fst_conv length_Cons)
  have t: "tok = t" and c': "?r = cont ?f H' (?f H') (length ?r)" using c by (simp_all add: cont.simps(2) Let_def H')
  show ?thesis
  proof (cases rest)
    case Nil
    then show ?thesis using t h nm by (simp add: tracks_def H' s' comp_def)
  next
    case (Cons x xs)
    then have "butlast (tok # ?r) = tok # butlast ?r" and "last (tok # ?r) = last ?r" by simp_all
    then have h': "histories ls = map (\<lambda>h. h @ butlast ?r) H'" and nm': "m_next_main s = Some (last ?r)"
      using h nm t by (simp_all add: H')
    have q': "map fst (m_queue s') = ?r" and ne: "?r \<noteq> []" by (simp_all add: s' Cons)
    have "tracks e s' ls H' (?f H')"
      by (rule tracks_queueI [OF q' ne c' h']) (simp add: s' nm')
    then show ?thesis using t Cons by simp
  qed
qed

section \<open>Greedy identity\<close>

definition same_books :: "'m mtp_batch \<Rightarrow> 'm mtp_batch \<Rightarrow> bool" where
  "same_books pb sb \<longleftrightarrow> b_tokens pb = b_tokens sb \<and> b_num pb = b_num sb \<and> b_max pb = b_max sb \<and>
     b_matcher pb = b_matcher sb \<and> b_rows pb = b_rows sb"

definition follows :: "'m mtp_env \<Rightarrow> 'm mtp_batch \<Rightarrow> 'm mtp_batch \<Rightarrow> bool" where
  "follows e pb sb \<longleftrightarrow> same_books pb sb \<and> b_rows sb = 1 \<and> b_mtp sb = None \<and>
     (case b_next sb of None \<Rightarrow> False
      | Some t \<Rightarrow>
          (case b_mtp pb of
             None \<Rightarrow> histories (b_layers pb) = histories (b_layers sb) \<and> b_next pb = Some t
           | Some s \<Rightarrow> chain_ready s (b_layers pb) \<and> tracks e s (b_layers pb) (histories (b_layers sb)) t))"

definition retired :: "'m mtp_batch \<Rightarrow> bool" where
  "retired b \<longleftrightarrow> b_rows b = 0"

text \<open>The epilogue sees the books only.\<close>

lemma epilogue_same:
  assumes "same_books pb sb" "emission_epilogue f sb tok = (sb', r)"
  obtains pb' where "emission_epilogue f pb tok = (pb', r)" "same_books pb' sb'"
    "fst r = tok"
    "snd r = None \<Longrightarrow> pb' = pb\<lparr>b_num := b_num pb', b_matcher := b_matcher pb'\<rparr> \<and>
       sb' = sb\<lparr>b_num := b_num sb', b_matcher := b_matcher sb'\<rparr>"
    "snd r \<noteq> None \<Longrightarrow> retired pb' \<and> retired sb' \<and> b_mtp pb' = None"
proof -
  obtain pb' r' where p: "emission_epilogue f pb tok = (pb', r')" by (rule prod.exhaust)
  obtain m stopped where m: "f (b_matcher sb) tok = (m, stopped)" by (rule prod.exhaust)
  define fin where "fin = (if stopped then Some ''stop'' else if b_max sb \<le> b_num sb + 1 then Some ''length'' else None)"
  have eqs: "b_num pb = b_num sb" "b_max pb = b_max sb" "b_matcher pb = b_matcher sb"
    using assms(1) by (simp_all add: same_books_def)
  have e: "emission_epilogue f b tok =
      (if fin \<noteq> None then (b\<lparr>b_num := b_num sb + 1, b_matcher := m, b_mtp := None, b_rows := 0\<rparr>, tok, fin)
       else (b\<lparr>b_num := b_num sb + 1, b_matcher := m\<rparr>, tok, None))"
    if "b_num b = b_num sb" "b_max b = b_max sb" "b_matcher b = b_matcher sb" for b :: "'a mtp_batch"
    using that by (simp add: emission_epilogue_def m fin_def)
  have 1: "(pb', r') = (if fin \<noteq> None then (pb\<lparr>b_num := b_num sb + 1, b_matcher := m, b_mtp := None, b_rows := 0\<rparr>, tok, fin)
       else (pb\<lparr>b_num := b_num sb + 1, b_matcher := m\<rparr>, tok, None))"
    unfolding p [symmetric] by (rule e [OF eqs])
  have 2: "(sb', r) = (if fin \<noteq> None then (sb\<lparr>b_num := b_num sb + 1, b_matcher := m, b_mtp := None, b_rows := 0\<rparr>, tok, fin)
       else (sb\<lparr>b_num := b_num sb + 1, b_matcher := m\<rparr>, tok, None))"
    unfolding assms(2) [symmetric] by (rule e [OF refl refl refl])
  show thesis
  proof (cases "fin = None")
    case True
    then have ps: "pb' = pb\<lparr>b_num := b_num sb + 1, b_matcher := m\<rparr>" "r' = (tok, None)"
      and ss: "sb' = sb\<lparr>b_num := b_num sb + 1, b_matcher := m\<rparr>" "r = (tok, None)" using 1 2 by simp_all
    show thesis
      by (rule that [of pb']) (use p assms(1) in \<open>simp_all add: ps ss same_books_def\<close>)
  next
    case False
    then have ps: "pb' = pb\<lparr>b_num := b_num sb + 1, b_matcher := m, b_mtp := None, b_rows := 0\<rparr>" "r' = (tok, fin)"
      and ss: "sb' = sb\<lparr>b_num := b_num sb + 1, b_matcher := m, b_mtp := None, b_rows := 0\<rparr>" "r = (tok, fin)"
      using 1 2 by simp_all
    show thesis
      by (rule that [of pb']) (use p assms(1) False in \<open>simp_all add: ps ss same_books_def retired_def\<close>)
  qed
qed


text \<open>A call in the lane is the emission of a queued token, verified first when the queue is empty.\<close>

lemma mtp_next_pops:
  assumes env: "lane_env_ok e" and ready: "chain_ready s (b_layers b)" and tr: "tracks e s (b_layers b) H t"
  shows "\<exists>s0 ls. chain_ready s0 ls \<and> tracks e s0 ls H t \<and> m_queue s0 \<noteq> [] \<and>
    mtp_next e ct s b = (case pop_and_emit e s0 (b\<lparr>b_layers := ls\<rparr>) of (b', r) \<Rightarrow> (b', Inr r))"
proof (cases "m_queue s = []")
  case False
  then show ?thesis using ready tr
    by (intro exI [of _ s] exI [of _ "b_layers b"]) (simp add: mtp_next_def)
next
  case True
  define s0 where "s0 = (if cycles (m_stats s) = 0 \<and> m_span_start s \<le> 0 then s\<lparr>m_span_start := ct_start ct\<rparr> else s)"
  have "chain_ready s0 (b_layers b)" "tracks e s0 (b_layers b) H t" "m_queue s0 = []"
    using ready tr True by (simp_all add: s0_def chain_ready_def tracks_def)
  from verify_follows [OF env this]
  obtain s1 ls where run: "run_verify_cycle e ct s0 (b_layers b) = ((s1, ls), None)"
    and ok: "chain_ready s1 ls" "tracks e s1 ls H t" "m_queue s1 \<noteq> []" by blast
  have "mtp_next e ct s b = (case pop_and_emit e s1 (b\<lparr>b_mtp := Some s1, b_layers := ls\<rparr>) of (b', r) \<Rightarrow> (b', Inr r))"
    using True run ok(3) by (simp add: mtp_next_def s0_def [symmetric] Let_def)
  moreover have "pop_and_emit e s1 (b\<lparr>b_mtp := Some s1, b_layers := ls\<rparr>) = pop_and_emit e s1 (b\<lparr>b_layers := ls\<rparr>)"
    by (simp add: pop_and_emit_def split: prod.split)
  ultimately show ?thesis using ok by auto
qed

lemma handoff_follows:
  assumes "chain_ready s ls" "m_queue s = []" "m_next_main s = Some t" "b_layers b = ls" "b_tokens b = ts @ [t]"
  shows "prepare_ar_handoff e s b =
    (b\<lparr>b_layers := map (feed_layer [t]) ls, b_next := Some (next_of e (map (feed_layer [t]) ls)), b_mtp := None\<rparr>, None)"
proof -
  have "\<not> list_ex (\<lambda>l. l_snap l \<noteq> None) ls"
    using assms(1) by (auto simp: chain_ready_def layer_ok_def list_ex_iff list_all_iff)
  then have "handoff_ready b s = ''ready''" using assms by (simp add: handoff_ready_def)
  moreover have "ts @ [t] = b_tokens b" using assms(5) by simp
  ultimately show ?thesis using assms(2-4)
    by (simp add: prepare_ar_handoff_def gb_step_def assms(5) Let_def)
qed

lemma plain_step:
  assumes "lane_env_ok e" "b_next sb = Some t"
  shows "original_next e sb = emission_epilogue (e_match e)
    (sb\<lparr>b_layers := map (feed_layer [t]) (b_layers sb), b_next := Some (next_of e (map (feed_layer [t]) (b_layers sb))),
        b_tokens := b_tokens sb @ [t]\<rparr>) t"
  using assms by (simp add: original_next_def gb_step_def lane_env_ok_def Let_def)

lemma next_of_histories: "histories ls = histories ls' \<Longrightarrow> next_of e (map (feed_layer ts) ls) = next_of e (map (feed_layer ts) ls')"
  unfolding next_of_def histories_feed by simp

lemma step_follows:
  assumes env: "lane_env_ok e" and fol: "follows e pb sb" and step: "original_next e sb = (sb', r)"
  shows "\<exists>pb'. patched_next e ct pb = (pb', Inr r) \<and>
    (if snd r = None then follows e pb' sb' else retired pb' \<and> retired sb')"
proof -
  obtain t where t: "b_next sb = Some t" using fol by (auto simp: follows_def split: option.splits)
  have rows: "b_rows pb = 1" "b_rows sb = 1" "b_mtp sb = None" and books: "same_books pb sb"
    using fol by (simp_all add: follows_def same_books_def)
  define L where "L = map (feed_layer [t]) (b_layers sb)"
  define sx where "sx = sb\<lparr>b_layers := L, b_next := Some (next_of e L), b_tokens := b_tokens sb @ [t]\<rparr>"
  have epi: "emission_epilogue (e_match e) sx t = (sb', r)"
    using step unfolding plain_step [OF env t] L_def [symmetric] sx_def [symmetric] .
  have sx: "b_rows sx = 1" "b_mtp sx = None" "b_layers sx = L" "b_next sx = Some (next_of e L)" using rows by (simp_all add: sx_def)
  show ?thesis
  proof (cases "b_mtp pb")
    case None
    then have h: "histories (b_layers pb) = histories (b_layers sb)" and nx: "b_next pb = Some t"
      using fol t by (simp_all add: follows_def)
    define P where "P = map (feed_layer [t]) (b_layers pb)"
    define px where "px = pb\<lparr>b_layers := P, b_next := Some (next_of e P), b_tokens := b_tokens pb @ [t]\<rparr>"
    have bx: "same_books px sx" using books by (simp add: px_def sx_def same_books_def)
    have P: "next_of e P = next_of e L" "histories P = histories L"
      using next_of_histories [OF h] h unfolding P_def L_def by (simp_all only: histories_feed)
    obtain pb' where pb': "emission_epilogue (e_match e) px t = (pb', r)" "same_books pb' sb'"
      and go: "snd r = None \<Longrightarrow> pb' = px\<lparr>b_num := b_num pb', b_matcher := b_matcher pb'\<rparr> \<and>
        sb' = sx\<lparr>b_num := b_num sb', b_matcher := b_matcher sb'\<rparr>"
      and fin: "snd r \<noteq> None \<Longrightarrow> retired pb' \<and> retired sb' \<and> b_mtp pb' = None"
      using epilogue_same [OF bx epi] by metis
    have "patched_next e ct pb = (pb', Inr r)"
      using None plain_step [OF env nx] pb'(1) by (simp add: patched_next_def P_def px_def)
    moreover have "follows e pb' sb'" if "snd r = None"
    proof -
      have p: "b_layers pb' = P" "b_mtp pb' = None" "b_next pb' = Some (next_of e P)"
        using go [OF that, THEN conjunct1] None by (metis mtp_batch.select_convs mtp_batch.surjective mtp_batch.update_convs px_def)+
      have s: "b_layers sb' = L" "b_mtp sb' = None" "b_next sb' = Some (next_of e L)" "b_rows sb' = 1"
        using go [OF that, THEN conjunct2] sx by (metis mtp_batch.select_convs mtp_batch.surjective mtp_batch.update_convs)+
      show ?thesis using p s P pb'(2) by (simp add: follows_def)
    qed
    ultimately show ?thesis using fin by auto
  next
    case (Some s)
    then have ready: "chain_ready s (b_layers pb)" and tr: "tracks e s (b_layers pb) (histories (b_layers sb)) t"
      using fol t by (simp_all add: follows_def)
    obtain s0 ls where r0: "chain_ready s0 ls" and tr0: "tracks e s0 ls (histories (b_layers sb)) t"
      and q0: "m_queue s0 \<noteq> []"
      and nx: "mtp_next e ct s pb = (case pop_and_emit e s0 (pb\<lparr>b_layers := ls\<rparr>) of (b', r) \<Rightarrow> (b', Inr r))"
      using mtp_next_pops [OF env ready tr] by blast
    obtain tok src rest where q: "m_queue s0 = (tok, src) # rest" using q0 by (cases "m_queue s0") auto
    define s1 where "s1 = s0\<lparr>m_queue := rest, m_stats := bump_emit_stat src (m_stats s0)\<rparr>"
    have pop: "tok = t" and on: "rest \<noteq> [] \<or> \<not> m_pending s0 \<Longrightarrow> tracks e s1 ls (histories L) (next_of e L)"
      and off: "\<not> (rest \<noteq> [] \<or> \<not> m_pending s0) \<Longrightarrow> histories ls = histories (b_layers sb) \<and> m_next_main s0 = Some t"
      using pop_follows [OF tr0 q s1_def refl] by (simp_all add: L_def next_of_def histories_feed del: map_map split: if_splits)
    have r1: "chain_ready s1 ls" using r0 by (simp add: s1_def chain_ready_def)
    define px where "px = pb\<lparr>b_layers := ls, b_mtp := Some s1, b_tokens := b_tokens pb @ [t]\<rparr>"
    have bx: "same_books px sx" using books by (simp add: px_def sx_def same_books_def)
    have px: "b_mtp px = Some s1" "b_layers px = ls" "b_tokens px = b_tokens pb @ [t]" "b_next px = b_next pb"
      by (simp_all add: px_def)
    obtain pb' where pb': "emission_epilogue (e_match e) px t = (pb', r)" "same_books pb' sb'"
      and tk: "fst r = t"
      and go: "snd r = None \<Longrightarrow> pb' = px\<lparr>b_num := b_num pb', b_matcher := b_matcher pb'\<rparr> \<and>
        sb' = sx\<lparr>b_num := b_num sb', b_matcher := b_matcher sb'\<rparr>"
      and fin: "snd r \<noteq> None \<Longrightarrow> retired pb' \<and> retired sb' \<and> b_mtp pb' = None"
      using epilogue_same [OF bx epi] by metis
    have "pop_and_emit e s0 (pb\<lparr>b_layers := ls\<rparr>) = (pb', r)"
      using pb'(1) by (simp add: pop_and_emit_def q pop emit_response_def px_def s1_def)
    with nx have mn: "mtp_next e ct s pb = (pb', Inr r)" by simp
    show ?thesis
    proof (cases "snd r = None")
      case False
      with fin mn Some rows show ?thesis
        by (cases r) (auto simp: patched_next_def mtp_eligible_def)
    next
      case True
      have p: "b_layers pb' = ls" "b_mtp pb' = Some s1" "b_tokens pb' = b_tokens pb @ [t]"
        using go [OF True, THEN conjunct1] px by (metis mtp_batch.select_convs mtp_batch.surjective mtp_batch.update_convs)+
      have s: "b_layers sb' = L" "b_mtp sb' = None" "b_next sb' = Some (next_of e L)" "b_rows sb' = 1"
        using go [OF True, THEN conjunct2] sx by (metis mtp_batch.select_convs mtp_batch.surjective mtp_batch.update_convs)+
      have m1: "m_pending s1 = m_pending s0" "m_queue s1 = rest" "m_next_main s1 = m_next_main s0" by (simp_all add: s1_def)
      show ?thesis
      proof (cases "rest \<noteq> [] \<or> \<not> m_pending s0")
        case True
        then have "patched_next e ct pb = (pb', Inr r)"
          using mn Some rows p(2) m1 by (cases r) (auto simp: patched_next_def mtp_eligible_def)
        moreover have "follows e pb' sb'" using p s r1 on [OF True] pb'(2) by (simp add: follows_def)
        ultimately show ?thesis using \<open>snd r = None\<close> by simp
      next
        case off': False
        have h: "histories ls = histories (b_layers sb)" and nm: "m_next_main s1 = Some t" using off [OF off'] m1 by simp_all
        let ?ls = "map (feed_layer [t]) ls"
        let ?pb = "pb'\<lparr>b_layers := ?ls, b_next := Some (next_of e ?ls), b_mtp := None\<rparr>"
        have "prepare_ar_handoff e s1 pb' = (?pb, None)"
          using off' m1 by (intro handoff_follows [OF r1 _ nm p(1) p(3)]) simp
        then have "patched_next e ct pb = (?pb, Inr r)"
          using mn Some rows p(2) m1 off' True by (cases r) (simp add: patched_next_def mtp_eligible_def)
        moreover have "histories ?ls = histories L" "next_of e ?ls = next_of e L"
          using next_of_histories [OF h] h unfolding L_def by (simp_all only: histories_feed)
        then have "follows e ?pb sb'" using s pb'(2) by (simp add: follows_def same_books_def)
        ultimately show ?thesis using True by auto
      qed
    qed
  qed
qed


lemma runs_agree:
  "lane_env_ok e \<Longrightarrow> follows e pb sb \<Longrightarrow> patched_run e cts pb = map Inr (plain_run e (length cts) sb)"
proof (induction cts arbitrary: pb sb)
  case (Cons ct cts)
  obtain sb' r where step: "original_next e sb = (sb', r)" by (rule prod.exhaust)
  obtain pb' where n: "patched_next e ct pb = (pb', Inr r)"
    and f: "if snd r = None then follows e pb' sb' else retired pb' \<and> retired sb'"
    using step_follows [OF Cons.prems step] by blast
  have rows: "b_rows pb = 1" "b_rows sb = 1" using Cons.prems(2) by (simp_all add: follows_def same_books_def)
  have "patched_run e cts pb' = map Inr (plain_run e (length cts) sb')"
  proof (cases "snd r = None")
    case True
    then show ?thesis using f Cons.IH [OF Cons.prems(1)] by simp
  next
    case False
    then have "b_rows pb' = 0" "b_rows sb' = 0" using f by (auto simp: retired_def)
    then show ?thesis by (cases cts) simp_all
  qed
  then show ?case using rows n step by simp
qed simp

lemma post_init_follows:
  assumes "b_rows b = 1" "b_next b \<noteq> None" "b_mtp b = None" "list_all layer_ok (b_layers b)"
  shows "follows e (post_init_mtp e seed ct b) b"
proof -
  obtain t where t: "b_next b = Some t" using assms(2) by auto
  let ?ls = "map (feed_layer [t]) (b_layers b)"
  obtain s where b': "post_init_mtp e seed ct b = b\<lparr>b_layers := ?ls, b_mtp := Some s\<rparr>"
    and ready: "chain_ready s ?ls" and q: "m_queue s = [(t, ''init''), (next_of e ?ls, ''init'')]"
    and nm: "m_next_main s = Some (next_of e ?ls)"
  proof -
    define ceil where "ceil = fst (effective_depth_resolution (e_configured e) ?ls)"
    have c: "1 \<le> ceil" using resolution_bounds by (metis ceil_def prod.collapse)
    have c1: "list_ex l_snapshots ?ls \<Longrightarrow> ceil = 1"
      unfolding ceil_def by (rule resolution_snapshots) (simp_all add: assms(4))
    define st where "st = stats_init\<lparr>stats_depth := (if adaptive_depth_enabled (io_env (e_io e)) then 1 else ceil),
        starting_depth := (if adaptive_depth_enabled (io_env (e_io e)) then 1 else ceil), stats_ceiling := ceil,
        depth_policy_name := (if adaptive_depth_enabled (io_env (e_io e)) then ''adaptive'' else ''fixed''),
        seed_main_forwards := 1, prompt_prime_source := e_prime e\<rparr>"
    define s0 where "s0 = (mtp_init (io_depths (e_io e)))\<lparr>m_ar_step_ms := seed,
                    m_safety := ar_init\<lparr>prompt_tokens := int (length (b_tokens b))\<rparr>,
                    m_ceiling := ceil, m_adaptive := adaptive_depth_enabled (io_env (e_io e)),
                    m_depth := (if adaptive_depth_enabled (io_env (e_io e)) then 1 else ceil), m_stats := st,
                    m_next_main := Some (next_of e ?ls), m_queue := [(t, ''init''), (next_of e ?ls, ''init'')]\<rparr>"
    let ?a = "adaptive_arm_cycle (e_io e) s0 (ct_arm ct)"
    let ?s = "draft_chain e (ct_head ct) [next_of e ?ls] ?a"
    have "post_init_mtp e seed ct b = b\<lparr>b_layers := ?ls, b_mtp := Some ?s\<rparr>"
      using assms(1,2) by (simp add: post_init_mtp_def t Let_def s0_def st_def ceil_def)
    moreover have a: "chain_kept s0 ?a" by simp
    have d: "m_ceiling s0 = ceil" "m_depth s0 \<le> ceil" using c by (simp_all add: s0_def)
    have "chain_ready ?s ?ls"
      using a d c c1 assms(4) by (intro draft_chain_ready) (simp_all add: chain_kept_def)
    moreover have "m_queue ?s = [(t, ''init''), (next_of e ?ls, ''init'')]" "m_next_main ?s = Some (next_of e ?ls)"
      using a by (simp_all add: chain_kept_def s0_def)
    ultimately show thesis using that by blast
  qed
  have qf: "map fst (m_queue s) = [t, next_of e ?ls]" by (simp add: q)
  have cq: "[t, next_of e ?ls] = cont (e_fwd e) (histories (b_layers b)) t (length [t, next_of e ?ls])"
    by (simp add: cont.simps(2) next_of_def Let_def comp_def)
  have "tracks e s ?ls (histories (b_layers b)) t"
    by (rule tracks_queueI [OF qf _ cq]) (simp_all add: nm)
  then show ?thesis using assms(1,3) t ready by (simp add: b' follows_def same_books_def)
qed

lemma plain_follows:
  "b_rows b = 1 \<Longrightarrow> b_next b \<noteq> None \<Longrightarrow> b_mtp b = None \<Longrightarrow> follows e b b"
  by (auto simp: follows_def same_books_def)

lemma init_follows:
  assumes "b_rows b = 1" "b_next b \<noteq> None" "b_mtp b = None" "list_all layer_ok (b_layers b)"
  shows "follows e (patched_init e seed ct b) b"
  using post_init_follows [OF assms] plain_follows [OF assms(1-3)]
  by (simp add: patched_init_def split: prod.split bool.split)

end
