(* ===== verification/Mtp_Props.thy ===== *)
theory Mtp_Props
  imports Ar_Props Mtp_Greedy
begin

text \<open>
  The text lane as a whole: greedy identity, the return of a losing request to plain decoding, and the fall-back that
  replays a token.
\<close>

section \<open>The governor inside the lane\<close>

text \<open>
  The verify cycles of a request between which the queue drains, whatever they accept: each is what follows a
  verification, until the lane gives up.
\<close>

definition cycle_tail :: "'m mtp_env \<Rightarrow> cycle_times \<Rightarrow> nat \<Rightarrow> mtp_state \<Rightarrow> mtp_state" where
  "cycle_tail e ct k s =
     (let n = length (m_drafts s)
      in after_verify e ct n k 0
           (s\<lparr>m_queue := [], m_stats := count_rollback (k = n) ct (count_cycle n k ct (m_stats s))\<rparr>))"

fun lane_cycles :: "'m mtp_env \<Rightarrow> (cycle_times \<times> nat) list \<Rightarrow> mtp_state \<Rightarrow> mtp_state" where
  "lane_cycles e [] s = s"
| "lane_cycles e ((ct, k) # xs) s = (if m_pending s then s else lane_cycles e xs (cycle_tail e ct k s))"

definition samples :: "(cycle_times \<times> nat) list \<Rightarrow> (int \<times> real) list" where
  "samples xs = map (\<lambda>(ct, k). (1 + int k, ct_safety ct)) xs"

lemma lane_pending: "m_pending s \<Longrightarrow> lane_cycles e xs s = s"
  by (cases xs) auto

definition lane_opts :: "mtp_state \<Rightarrow> ar_opts" where
  "lane_opts s = ar_defaults\<lparr>o_primed := (prompt_prime_source (m_stats s) \<noteq> ''unprimed'' \<and>
                                          prompt_prime_source (m_stats s) \<noteq> [])\<rparr>"

definition emitted_by :: "mtp_state \<Rightarrow> int" where
  "emitted_by s = cycles (m_stats s) + drafts_accepted (m_stats s)"

text \<open>What stays fixed over a fixed-depth request.\<close>

definition same_lane :: "mtp_state \<Rightarrow> mtp_state \<Rightarrow> bool" where
  "same_lane s s' \<longleftrightarrow> m_adaptive s' = m_adaptive s \<and> m_ar_step_ms s' = m_ar_step_ms s \<and> lane_opts s' = lane_opts s"

lemma cost_fallback_fields:
  "m_adaptive (fst (text_cost_fallback io s t)) = m_adaptive s \<and>
   m_ar_step_ms (fst (text_cost_fallback io s t)) = m_ar_step_ms s \<and>
   m_safety (fst (text_cost_fallback io s t)) = m_safety s \<and> m_depth (fst (text_cost_fallback io s t)) = m_depth s \<and>
   cycles (m_stats (fst (text_cost_fallback io s t))) = cycles (m_stats s) \<and>
   drafts_accepted (m_stats (fst (text_cost_fallback io s t))) = drafts_accepted (m_stats s) \<and>
   prompt_prime_source (m_stats (fst (text_cost_fallback io s t))) = prompt_prime_source (m_stats s)"
  by (simp add: text_cost_fallback_def Let_def split: option.split prod.split)

lemma draft_chain_fields:
  "m_adaptive (draft_chain e h ch s) = m_adaptive s" "m_ar_step_ms (draft_chain e h ch s) = m_ar_step_ms s"
  "m_safety (draft_chain e h ch s) = m_safety s" "cycles (m_stats (draft_chain e h ch s)) = cycles (m_stats s)"
  "drafts_accepted (m_stats (draft_chain e h ch s)) = drafts_accepted (m_stats s)"
  "prompt_prime_source (m_stats (draft_chain e h ch s)) = prompt_prime_source (m_stats s)"
  by (simp_all add: draft_chain_def Let_def)

lemma cycle_tail_cases:
  assumes "\<not> m_adaptive s" "\<not> m_pending s" "1 \<le> m_depth s"
    and step: "ar_safety_step (io_env (e_io e)) (m_safety s) (cycles (m_stats s) + 1) (emitted_by s + (1 + int k))
      (ct_safety ct) (m_ar_step_ms s) (lane_opts s) = (g, trip)"
  defines "s' \<equiv> cycle_tail e ct k s"
  shows "m_pending s' \<or>
    (same_lane s s' \<and> cycles (m_stats s') = cycles (m_stats s) + 1 \<and> emitted_by s' = emitted_by s + (1 + int k) \<and>
     \<not> m_pending s' \<and>
     (case trip of None \<Rightarrow> m_safety s' = g \<and> m_depth s' = m_depth s
      | Some _ \<Rightarrow> 1 < m_depth s \<and> m_depth s' = 1 \<and> m_safety s' = ar_reset (cycles (m_stats s')) g))"
proof -
  let ?n = "length (m_drafts s)" and ?io = "e_io e"
  define s0 where "s0 = s\<lparr>m_queue := [], m_stats := count_rollback (k = ?n) ct (count_cycle ?n k ct (m_stats s))\<rparr>"
  define s2 where "s2 = s0\<lparr>m_queue := map (\<lambda>d. (d, ''draft'')) (take k (m_drafts s0)) @
                              [(0, if k = ?n then ''bonus'' else ''verify'')], m_next_main := Some 0\<rparr>"
  obtain s3 stop where 3: "lane_fallback ?io s2 (ct_safety ct) (ct_cost ct) = (s3, stop)" by fastforce
  have s': "s' = (if stop then s3\<lparr>m_drafts := []\<rparr> else draft_chain e (ct_head ct) [0] s3)"
  proof -
    have f: "adaptive_finish_cycle ?io s0 (int ?n) (int k) (ct_finish ct) = s0"
      using assms(1) by (simp add: adaptive_finish_cycle_def s0_def)
    have "chain_kept s2 s3" using lane_kept(1) [of s2 ?io "ct_safety ct" "ct_cost ct"] by (simp add: 3)
    then have "adaptive_arm_cycle ?io s3 (ct_arm ct) = s3"
      using assms(1) by (simp add: adaptive_arm_cycle_def chain_kept_def s2_def s0_def)
    moreover have "m_queue s0 = []" by (simp add: s0_def)
    ultimately show ?thesis
      unfolding s'_def cycle_tail_def after_verify_def Let_def s0_def [symmetric] f using 3 by (simp add: s2_def)
  qed
  have "\<not> m_pending s2" using assms(2) by (simp add: s2_def s0_def)
  then have pend: "m_pending s3 = stop" using lane_kept(2) [of s2 ?io "ct_safety ct" "ct_cost ct"] by (simp add: 3)
  have st: "cycles (m_stats s2) = cycles (m_stats s) + 1" "drafts_accepted (m_stats s2) = drafts_accepted (m_stats s) + int k"
    "prompt_prime_source (m_stats s2) = prompt_prime_source (m_stats s)" "m_depth s2 = m_depth s" "m_safety s2 = m_safety s"
    "m_ar_step_ms s2 = m_ar_step_ms s" "m_adaptive s2 = m_adaptive s" "m_pending s2 = m_pending s"
    by (simp_all add: s2_def s0_def count_rollback_def count_cycle_def)
  have saf: "text_ar_safety_fallback ?io s2 (ct_safety ct) =
      (case trip of None \<Rightarrow> (s2\<lparr>m_safety := g\<rparr>, False)
       | Some t \<Rightarrow> if 1 < m_depth s then (s2\<lparr>m_safety := ar_reset (cycles (m_stats s2)) g, m_depth := 1\<rparr>, False)
                   else (fst (text_ar_safety_fallback ?io s2 (ct_safety ct)), True))"
    using step assms(2,3) st
    by (simp add: text_ar_safety_fallback_def Let_def lane_opts_def emitted_by_def algebra_simps split: option.split)
  show ?thesis
  proof (cases stop)
    case True
    then show ?thesis using pend by (simp add: s')
  next
    case False
    then have np: "\<not> m_pending s'" using pend by (simp add: s')
    obtain s1 b where 1: "text_ar_safety_fallback ?io s2 (ct_safety ct) = (s1, b)" by fastforce
    have "\<not> b" using 3 False by (cases b) (simp_all add: lane_fallback_def 1)
    then have c: "text_cost_fallback ?io s1 (ct_cost ct) = (s3, False)" using 3 False by (simp add: lane_fallback_def 1)
    have s1: "case trip of None \<Rightarrow> s1 = s2\<lparr>m_safety := g\<rparr>
        | Some t \<Rightarrow> 1 < m_depth s \<and> s1 = s2\<lparr>m_safety := ar_reset (cycles (m_stats s2)) g, m_depth := 1\<rparr>"
      using saf \<open>\<not> b\<close> unfolding 1 by (auto split: option.splits if_splits)
    have "m_adaptive s' = m_adaptive s1 \<and> m_ar_step_ms s' = m_ar_step_ms s1 \<and> m_safety s' = m_safety s1 \<and>
        m_depth s' = m_depth s1 \<and> cycles (m_stats s') = cycles (m_stats s1) \<and>
        drafts_accepted (m_stats s') = drafts_accepted (m_stats s1) \<and>
        prompt_prime_source (m_stats s') = prompt_prime_source (m_stats s1)"
      using cost_fallback_fields [of ?io s1 "ct_cost ct"] False by (simp add: c s' draft_chain_fields)
    then show ?thesis
      using np s1 st by (auto simp: same_lane_def lane_opts_def emitted_by_def split: option.splits)
  qed
qed


lemma safety_run_rest: "safety_run env opts seed st c em xs = (st', Some t, rest) \<Longrightarrow> rest < length xs"
proof (induction xs arbitrary: st c em)
  case (Cons x xs)
  then show ?case by (cases x) (fastforce split: prod.splits option.splits)
qed simp

lemma lane_segment:
  assumes "\<not> m_adaptive s" "1 \<le> m_depth s"
    and "safety_run (io_env (e_io e)) (lane_opts s) (m_ar_step_ms s) (m_safety s) (cycles (m_stats s)) (emitted_by s)
      (samples xs) = (st', Some t, rest)"
  shows "m_pending (lane_cycles e xs s) \<or>
    (\<exists>s2. 1 < m_depth s \<and> lane_cycles e xs s = lane_cycles e (drop (length xs - rest) xs) s2 \<and> same_lane s s2 \<and>
      \<not> m_pending s2 \<and> m_depth s2 = 1 \<and> m_safety s2 = ar_reset (cycles (m_stats s2)) st')"
  using assms
proof (induction xs arbitrary: s)
  case Nil
  then show ?case by (simp add: samples_def)
next
  case (Cons x xs)
  obtain ct k where x: "x = (ct, k)" by (rule prod.exhaust)
  show ?case
  proof (cases "m_pending s")
    case True
    then show ?thesis by (simp add: lane_pending)
  next
    case np: False
    let ?s' = "cycle_tail e ct k s"
    let ?step = "ar_safety_step (io_env (e_io e)) (m_safety s) (cycles (m_stats s) + 1) (emitted_by s + (1 + int k))
      (ct_safety ct) (m_ar_step_ms s) (lane_opts s)"
    obtain g trip where step: "?step = (g, trip)" by (rule prod.exhaust)
    have lane: "lane_cycles e (x # xs) s = lane_cycles e xs ?s'" using np by (simp add: x)
    have run: "safety_run (io_env (e_io e)) (lane_opts s) (m_ar_step_ms s) (m_safety s) (cycles (m_stats s)) (emitted_by s)
        ((1 + int k, ct_safety ct) # samples xs) = (st', Some t, rest)"
      using Cons.prems(3) by (simp add: samples_def x)
    note tail = cycle_tail_cases [OF Cons.prems(1) np Cons.prems(2) step]
    show ?thesis
    proof (cases "m_pending ?s'")
      case True
      then show ?thesis by (simp add: lane lane_pending)
    next
      case False
      with tail have sr: "same_lane s ?s'" and cyc: "cycles (m_stats ?s') = cycles (m_stats s) + 1"
        and em: "emitted_by ?s' = emitted_by s + (1 + int k)" and np': "\<not> m_pending ?s'"
        and tr: "case trip of None \<Rightarrow> m_safety ?s' = g \<and> m_depth ?s' = m_depth s
          | Some _ \<Rightarrow> 1 < m_depth s \<and> m_depth ?s' = 1 \<and> m_safety ?s' = ar_reset (cycles (m_stats ?s')) g"
        by blast+
      show ?thesis
      proof (cases trip)
        case (Some u)
        then have "st' = g" "rest = length xs" using run by (simp_all add: step samples_def)
        then show ?thesis using Some tr sr np' unfolding lane by (intro disjI2 exI [of _ ?s']) simp
      next
        case None
        then have run': "safety_run (io_env (e_io e)) (lane_opts ?s') (m_ar_step_ms ?s') (m_safety ?s')
            (cycles (m_stats ?s')) (emitted_by ?s') (samples xs) = (st', Some t, rest)"
          using run tr sr cyc em by (simp add: step same_lane_def)
        have ad: "\<not> m_adaptive ?s'" "1 \<le> m_depth ?s'" using None tr sr Cons.prems(1,2) by (simp_all add: same_lane_def)
        have "rest < length xs" using safety_run_rest [OF run'] by (simp add: samples_def)
        then have d: "drop (length (x # xs) - rest) (x # xs) = drop (length xs - rest) xs" by (simp add: Suc_diff_le)
        have dep: "m_depth ?s' = m_depth s" using None tr by simp
        have tr2: "same_lane s s2" if "same_lane ?s' s2" for s2 using that sr by (simp add: same_lane_def)
        from Cons.IH [OF ad run'] show ?thesis unfolding lane d dep using tr2 by blast
      qed
    qed
  qed
qed

text \<open>What losing means for a request: its plain step, its clock, twice the length of a window.\<close>

definition losing_request :: "'m mtp_env \<Rightarrow> mtp_state \<Rightarrow> real \<Rightarrow> real \<Rightarrow> real \<Rightarrow> (cycle_times \<times> nat) list \<Rightarrow> bool" where
  "losing_request e s lo hi t0 xs \<longleftrightarrow>
     (let env = io_env (e_io e) in
      0 < m_ar_step_ms s \<and> 0 < lo \<and> lo \<le> hi \<and> 0 \<le> ar_safety_seed_margin env \<and>
      losing_from lo hi (m_ar_step_ms s * (hi / lo) * ar_safety_seed_margin env) t0 (samples xs))"

lemma losing_segment:
  assumes l: "losing_request e s lo hi t0 xs" and on: "ar_safety_enabled (io_env (e_io e))"
    and fresh: "m_safety s = ar_reset (cycles (m_stats s)) g" and ad: "\<not> m_adaptive s" "1 \<le> m_depth s"
    and n: "n = step_warmup (io_env (e_io e)) (lane_opts s) + ar_safety_window_cycles (io_env (e_io e))" "n \<le> int (length xs)"
  shows "m_pending (lane_cycles e xs s) \<or>
    (\<exists>s2 g2. 1 < m_depth s \<and> lane_cycles e xs s = lane_cycles e (drop (nat n) xs) s2 \<and> same_lane s s2 \<and>
      \<not> m_pending s2 \<and> m_depth s2 = 1 \<and> m_safety s2 = ar_reset (cycles (m_stats s2)) g2)"
proof -
  let ?env = "io_env (e_io e)"
  have opts: "\<not> o_probe (lane_opts s)" "step_margin ?env (lane_opts s) = ar_safety_seed_margin ?env"
    by (simp_all add: lane_opts_def ar_defaults_def step_margin_def)
  have len: "length (samples xs) = length xs" by (simp add: samples_def)
  have "fresh_inv ?env (lane_opts s) lo hi (m_ar_step_ms s * (hi / lo) * ar_safety_seed_margin ?env)
      (m_safety s) (cycles (m_stats s)) (emitted_by s) t0"
    using fresh_window [of "m_safety s"] by (simp add: fresh ar_reset_def)
  from losing_run [OF this] obtain st' t where
    run: "safety_run ?env (lane_opts s) (m_ar_step_ms s) (m_safety s) (cycles (m_stats s)) (emitted_by s) (samples xs) =
      (st', Some t, nat (int (length xs) - n))"
    using l on opts n step_warmup_pos [of ?env "lane_opts s"] window_at_least_4 [of ?env]
    by (fastforce simp: losing_request_def Let_def len fresh ar_reset_def)
  have "length xs - nat (int (length xs) - n) = nat n" using n(2) step_warmup_pos [of ?env "lane_opts s"]
      window_at_least_4 [of ?env] n(1) by linarith
  with lane_segment [OF ad run] show ?thesis by auto
qed

lemma losing_request_later:
  assumes "losing_request e s lo hi t0 xs" "same_lane s s'"
  shows "\<exists>t1. losing_request e s' lo hi t1 (drop m xs)"
proof -
  have "samples xs = samples (take m xs) @ samples (drop m xs)"
    by (simp add: samples_def flip: map_append)
  then show ?thesis using assms unfolding losing_request_def Let_def same_lane_def
    by (metis losing_from_append)
qed

section \<open>The pending token of the stock generator\<close>

text \<open>Calls that stay in the lane.\<close>

fun lane_after :: "'m mtp_env \<Rightarrow> cycle_times list \<Rightarrow> 'm mtp_batch \<Rightarrow> 'm mtp_batch option" where
  "lane_after e [] b = (if b_mtp b \<noteq> None \<and> mtp_eligible b then Some b else None)"
| "lane_after e (ct # cts) b =
     (if b_mtp b = None \<or> \<not> mtp_eligible b then None
      else case patched_next e ct b of (b', Inr _) \<Rightarrow> lane_after e cts b' | (b', Inl _) \<Rightarrow> None)"

lemma epilogue_keeps: "emission_epilogue f b tok = (b', r) \<Longrightarrow> b_next b' = b_next b \<and> (b_mtp b = None \<longrightarrow> b_mtp b' = None)"
  by (auto simp: emission_epilogue_def Let_def split: prod.splits if_splits)

lemma pop_keeps: "pop_and_emit e s b = (b', r) \<Longrightarrow> b_next b' = b_next b"
  by (auto simp: pop_and_emit_def emit_response_def dest!: epilogue_keeps split: prod.splits)

lemma mtp_next_keeps: "mtp_next e ct s b = (b', r) \<Longrightarrow> b_next b' = b_next b"
proof (cases "m_queue s = []")
  case False
  assume "mtp_next e ct s b = (b', r)"
  moreover obtain b1 r1 where p: "pop_and_emit e s b = (b1, r1)" by (rule prod.exhaust)
  ultimately show ?thesis using False pop_keeps [OF p] by (simp add: mtp_next_def)
next
  case True
  assume n: "mtp_next e ct s b = (b', r)"
  define s0 where "s0 = (if cycles (m_stats s) = 0 \<and> m_span_start s \<le> 0 then s\<lparr>m_span_start := ct_start ct\<rparr> else s)"
  obtain s1 ls ex where run: "run_verify_cycle e ct s0 (b_layers b) = ((s1, ls), ex)" by (metis prod.exhaust)
  let ?b = "b\<lparr>b_mtp := Some s1, b_layers := ls\<rparr>"
  obtain b1 r1 where p: "pop_and_emit e s1 ?b = (b1, r1)" by (rule prod.exhaust)
  have nx: "mtp_next e ct s b = (case ex of Some x \<Rightarrow> (?b, Inl x)
      | None \<Rightarrow> if m_queue s1 = [] then (?b, Inl (MtpStepFallback ''verify cycle produced no emit tokens''))
                else (b1, Inr r1))"
    using True by (simp add: mtp_next_def Let_def s0_def [symmetric] run p split: option.split)
  show ?thesis using n pop_keeps [OF p] unfolding nx by (auto split: option.splits if_splits)
qed

text \<open>Outside the lane the stock step never brings it back.\<close>

definition leaves_lane :: "'m mtp_env \<Rightarrow> bool" where
  "leaves_lane e \<longleftrightarrow> (\<forall>b tok. b_mtp b = None \<longrightarrow> b_mtp (fst (e_epilogue e b tok)) = None)"

lemma original_next_stays_out:
  "leaves_lane e \<Longrightarrow> b_mtp b = None \<Longrightarrow> original_next e b = (b', r) \<Longrightarrow> b_mtp b' = None"
proof -
  assume l: "leaves_lane e" and b: "b_mtp b = None" and o: "original_next e b = (b', r)"
  obtain b1 tok where g: "gb_step e b = (b1, tok)" by (rule prod.exhaust)
  then have "b_mtp b1 = None" using b by (auto simp: gb_step_def Let_def)
  then have "b_mtp (fst (e_epilogue e b1 tok)) = None" using l by (simp add: leaves_lane_def)
  then show ?thesis using o by (simp add: original_next_def g)
qed

lemma patched_next_keeps:
  assumes "leaves_lane e" "b_mtp b = Some s" "mtp_eligible b" "patched_next e ct b = (b', Inr r)" "b_mtp b' \<noteq> None"
  shows "b_next b' = b_next b"
proof -
  obtain b1 out where n: "mtp_next e ct s b = (b1, out)" by (rule prod.exhaust)
  have k: "b_next b1 = b_next b" by (rule mtp_next_keeps [OF n])
  show ?thesis
  proof (cases out)
    case (Inl ex)
    then show ?thesis
      using assms n original_next_stays_out [OF assms(1), of "b1\<lparr>b_mtp := None\<rparr>"]
      by (cases ex) (auto simp: patched_next_def split: prod.splits)
  next
    case (Inr tf)
    obtain tok fin where tf: "tf = (tok, fin)" by (rule prod.exhaust)
    show ?thesis
      using assms n k Inr
      by (auto simp: patched_next_def tf prepare_ar_handoff_def Let_def gb_step_def split: prod.splits option.splits if_splits)
  qed
qed

lemma lane_after_next:
  assumes "leaves_lane e" "lane_after e cts b = Some b'"
  shows "b_next b' = b_next b \<and> mtp_eligible b'"
  using assms(2)
proof (induction cts arbitrary: b)
  case Nil
  then show ?case by (auto split: if_splits)
next
  case (Cons ct cts)
  obtain s where s: "b_mtp b = Some s" "mtp_eligible b" using Cons.prems by (auto split: if_splits)
  obtain b1 r where n: "patched_next e ct b = (b1, Inr r)" "lane_after e cts b1 = Some b'"
    using Cons.prems s by (auto split: prod.splits sum.splits)
  have "b_mtp b1 \<noteq> None" using n(2) by (cases cts) (auto split: if_splits)
  then show ?case using Cons.IH [OF n(2)] patched_next_keeps [OF assms(1) s n(1)] by simp
qed

lemma emission_leaves_lane: "e_epilogue e = emission_epilogue (e_match e) \<Longrightarrow> leaves_lane e"
  unfolding leaves_lane_def using epilogue_keeps by (metis prod.collapse)

section \<open>A demonstration environment\<close>

text \<open>A model that counts upwards, a head that is wrong on every third call, a fixed depth of two.\<close>

definition demo_proc :: process_env where
  "demo_proc = \<lparr>getenv = (\<lambda>name. if name = ''VMLX_NATIVE_MTP_ADAPTIVE_DEPTH'' then Some ''0'' else None),
     int_of_text = (\<lambda>_. None), float_of_text = (\<lambda>_. None)\<rparr>"

definition demo_io :: mtp_io where
  "demo_io = \<lparr>io_env = demo_proc, io_fmt = (\<lambda>_ _. []), io_round = (\<lambda>_ x. x)\<rparr>"

definition demo_match :: "nat \<Rightarrow> int \<Rightarrow> nat \<times> bool" where
  "demo_match m t = (m, t = 99)"

definition demo_mtp :: "(int list \<Rightarrow> nat \<Rightarrow> bool) \<Rightarrow> nat mtp_env" where
  "demo_mtp crossing = \<lparr>e_io = demo_io, e_fwd = (\<lambda>hs. case hs of [] \<Rightarrow> 0 | h # _ \<Rightarrow> last h + 1),
     e_head = (\<lambda>calls chain. if calls mod 3 = 0 then 0 else last chain + 1), e_rollback_ok = (\<lambda>_ _. True),
     e_crossing = crossing, e_match = demo_match, e_configured = Some (2, ''VMLX_NATIVE_MTP_DEPTH''),
     e_prime = ''unprimed'', e_epilogue = emission_epilogue demo_match\<rparr>"

definition demo_times :: "real \<Rightarrow> cycle_times" where
  "demo_times t = \<lparr>ct_start = t, ct_backbone = 0, ct_sample = 0, ct_cache = 0, ct_finish = t, ct_safety = t,
     ct_cost = t, ct_arm = t, ct_head = 0\<rparr>"

definition demo_batch :: "nat mtp_batch" where
  "demo_batch = \<lparr>b_tokens = [1, 2, 3],
     b_layers = [\<lparr>l_toks = [1, 2, 3], l_snap = None, l_snapshots = False, l_partial = False, l_rollback = False,
                  l_trimmable = True\<rparr>],
     b_next = Some 4, b_num = 0, b_max = 100, b_matcher = 0, b_rows = 1, b_mtp = None\<rparr>"

section \<open>Properties\<close>

text \<open>
  C5. Greedy identity.  Over recording, trimmable and snapshotting layers that can be rolled back, and when no verify
  advance crosses a live-encode threshold, the patched \<open>next\<close> of a greedy request
  returns, call by call, the tokens and finish reasons of plain decoding: whatever the head drafts, however the depth
  controller, the governor and the cost gate change or end the speculation, across roll backs and the hand-over, and
  whether or not the lane was activated at all.
\<close>

theorem mtp_greedy_identity:
  assumes "lane_env_ok e" "b_rows b = 1" "b_next b \<noteq> None" "b_mtp b = None" "list_all layer_ok (b_layers b)"
  shows "patched_run e cts (patched_init e seed_ms ct0 b) = map Inr (plain_run e (length cts) b)"
  using assms(1) init_follows [OF assms(2-5)] by (rule runs_agree)

theorem mtp_greedy_identity_witness:
  "patched_run (demo_mtp (\<lambda>_ _. False)) (replicate 6 (demo_times 0)) (patched_init (demo_mtp (\<lambda>_ _. False)) 0 (demo_times 0) demo_batch)
    = map Inr [(4, None), (5, None), (6, None), (7, None), (8, None), (9, None)]"
proof -
  have "plain_run (demo_mtp (\<lambda>_ _. False)) 6 demo_batch = [(4, None), (5, None), (6, None), (7, None), (8, None), (9, None)]"
    by code_simp
  moreover have "lane_env_ok (demo_mtp (\<lambda>_ _. False))" by (simp add: lane_env_ok_def demo_mtp_def)
  ultimately show ?thesis
    using mtp_greedy_identity [of "demo_mtp (\<lambda>_ _. False)" demo_batch "replicate 6 (demo_times 0)" 0 "demo_times 0"]
    by (simp add: demo_batch_def layer_ok_def)
qed

text \<open>
  The fall-back of the verify cycle replays a token.  As long as the lane emits, the stock generator's pending
  token stays the one the request began with; a verify cycle that gives up with \<open>_MtpStepFallback\<close>, as it does
  before a live-encode crossing, hands over to the stock step, which feeds and emits that first token again.
\<close>

lemma fallback_replays_first_token:
  assumes "lane_after e cts (post_init_mtp e seed_ms ct0 b) = Some b'" "b_next b = Some t" "b_mtp b = None"
    and "b_mtp b' = Some s" "mtp_next e ct s b' = (b1, Inl (MtpStepFallback why))"
    and epi: "e_epilogue e = emission_epilogue (e_match e)"
  shows "\<exists>b2 fin. patched_next e ct b' = (b2, Inr (t, fin))"
proof -
  have "b_next (post_init_mtp e seed_ms ct0 b) = Some t" using assms(2) by (simp add: post_init_mtp_def Let_def)
  then have b': "b_next b' = Some t" "mtp_eligible b'" using lane_after_next [OF emission_leaves_lane [OF epi] assms(1)] by simp_all
  then have "b_next b1 = Some t" using mtp_next_keeps [OF assms(5)] by simp
  then have "\<exists>b2 fin. original_next e (b1\<lparr>b_mtp := None\<rparr>) = (b2, t, fin)"
    by (simp add: original_next_def gb_step_def Let_def epi emission_epilogue_def split: prod.split)
  then show ?thesis using b'(2) assms(4,5) by (auto simp: patched_next_def)
qed

definition demo_crossing :: "nat mtp_env" where
  "demo_crossing = demo_mtp (\<lambda>ts n. 8 \<le> length ts + n)"

lemma fallback_replays_first_token_example:
  "map_option (\<lambda>b'. case snd (patched_next demo_crossing (demo_times 0) b') of Inl _ \<Rightarrow> 0 | Inr (t, _) \<Rightarrow> t)
      (lane_after demo_crossing (replicate 5 (demo_times 0)) (post_init_mtp demo_crossing 0 (demo_times 0) demo_batch)) = Some 4 \<and>
    patched_run demo_crossing (replicate 7 (demo_times 0)) (patched_init demo_crossing 0 (demo_times 0) demo_batch) =
      map Inr [(4, None), (5, None), (6, None), (7, None), (8, None), (4, None), (5, None)] \<and>
    plain_run demo_crossing 7 demo_batch = [(4, None), (5, None), (6, None), (7, None), (8, None), (9, None), (10, None)]"
proof (intro conjI)
  have "case lane_after demo_crossing (replicate 5 (demo_times 0)) (post_init_mtp demo_crossing 0 (demo_times 0) demo_batch) of
      None \<Rightarrow> False
    | Some b' \<Rightarrow> (case b_mtp b' of None \<Rightarrow> False
        | Some s \<Rightarrow> (case snd (mtp_next demo_crossing (demo_times 0) s b') of Inl (MtpStepFallback _) \<Rightarrow> True | _ \<Rightarrow> False))"
    by code_simp
  then obtain b' s b1 why where
    r: "lane_after demo_crossing (replicate 5 (demo_times 0)) (post_init_mtp demo_crossing 0 (demo_times 0) demo_batch) = Some b'"
    and f: "b_mtp b' = Some s" "mtp_next demo_crossing (demo_times 0) s b' = (b1, Inl (MtpStepFallback why))"
    by (auto split: option.splits sum.splits mtp_exn.splits prod.splits) (metis prod.collapse)
  have "b_next demo_batch = Some 4" "b_mtp demo_batch = None"
    and "e_epilogue demo_crossing = emission_epilogue (e_match demo_crossing)"
    by (simp_all add: demo_batch_def demo_crossing_def demo_mtp_def)
  from fallback_replays_first_token [OF r this(1,2) f this(3)]
  obtain b2 fin where "patched_next demo_crossing (demo_times 0) b' = (b2, Inr (4, fin))" by blast
  then show "map_option (\<lambda>b'. case snd (patched_next demo_crossing (demo_times 0) b') of Inl _ \<Rightarrow> 0 | Inr (t, _) \<Rightarrow> t)
      (lane_after demo_crossing (replicate 5 (demo_times 0)) (post_init_mtp demo_crossing 0 (demo_times 0) demo_batch)) = Some 4"
    by (simp add: r)
qed (code_simp, code_simp)

text \<open>
  A request at a fixed depth never keeps losing to plain decoding.  From the bridge on, when every verify cycle
  costs more per emitted token than the plain step the bridge measured, scaled by the growth of the walls and the
  margin, then after two windows, whatever the verifications accept, the lane has decided to fall back: the first
  window drops the depth to one, or falls back at once when it is one already, the second falls back.
\<close>

lemma losing_request_falls_back:
  assumes init: "b_mtp (post_init_mtp e seed_ms ct0 b) = Some s" and fixed: "\<not> adaptive_depth_enabled (io_env (e_io e))"
    and fresh: "b_mtp b = None"
    and on: "ar_safety_enabled (io_env (e_io e))" and l: "losing_request e s lo hi t0 xs"
    and len: "2 * (step_warmup (io_env (e_io e)) (lane_opts s) + ar_safety_window_cycles (io_env (e_io e))) \<le> int (length xs)"
  shows "m_pending (lane_cycles e xs s)"
proof -
  define n where "n = step_warmup (io_env (e_io e)) (lane_opts s) + ar_safety_window_cycles (io_env (e_io e))"
  have n0: "0 \<le> n"
    using step_warmup_pos [of "io_env (e_io e)" "lane_opts s"] window_at_least_4 [of "io_env (e_io e)"] by (simp add: n_def)
  have len': "2 * n \<le> int (length xs)" using len by (simp add: n_def)
  have "b_next b \<noteq> None" "b_rows b \<noteq> 0" using init fresh by (auto simp: post_init_mtp_def split: if_splits)
  then obtain s0 where s: "s = draft_chain e (ct_head ct0) [the (m_next_main s0)] s0" and na: "\<not> m_adaptive s0"
    and sf: "m_safety s0 = ar_init\<lparr>prompt_tokens := int (length (b_tokens b))\<rparr>" and cy: "cycles (m_stats s0) = 0"
    and d: "1 \<le> m_depth s0"
  proof -
    define ls where "ls = map (feed_layer [the (b_next b)]) (b_layers b)"
    define ceil where "ceil = fst (effective_depth_resolution (e_configured e) ls)"
    define st where "st = stats_init\<lparr>stats_depth := ceil, starting_depth := ceil, stats_ceiling := ceil,
        depth_policy_name := ''fixed'', seed_main_forwards := 1, prompt_prime_source := e_prime e\<rparr>"
    define s0 where "s0 = (mtp_init (io_depths (e_io e)))\<lparr>m_ar_step_ms := seed_ms,
                    m_safety := ar_init\<lparr>prompt_tokens := int (length (b_tokens b))\<rparr>,
                    m_ceiling := ceil, m_adaptive := False, m_depth := ceil, m_stats := st,
                    m_next_main := Some (next_of e ls), m_queue := [(the (b_next b), ''init''), (next_of e ls, ''init'')]\<rparr>"
    have "1 \<le> ceil" using resolution_bounds by (metis ceil_def prod.collapse)
    moreover have "s = draft_chain e (ct_head ct0) [next_of e ls] (adaptive_arm_cycle (e_io e) s0 (ct_arm ct0))"
      using init \<open>b_next b \<noteq> None\<close> \<open>b_rows b \<noteq> 0\<close> fixed
      by (simp add: post_init_mtp_def Let_def ls_def ceil_def st_def s0_def)
    moreover have "adaptive_arm_cycle (e_io e) s0 (ct_arm ct0) = s0" by (simp add: adaptive_arm_cycle_def s0_def)
    moreover have "m_next_main s0 = Some (next_of e ls)" "\<not> m_adaptive s0" "m_depth s0 = ceil" "cycles (m_stats s0) = 0"
      "m_safety s0 = ar_init\<lparr>prompt_tokens := int (length (b_tokens b))\<rparr>"
      by (simp_all add: s0_def st_def stats_init_def)
    ultimately show thesis using that [of s0] by simp
  qed
  have ad: "\<not> m_adaptive s" "1 \<le> m_depth s" and f: "m_safety s = ar_reset (cycles (m_stats s)) (m_safety s)"
    using na d sf cy by (simp_all add: s draft_chain_fields ar_reset_def ar_init_def)
  from losing_segment [OF l on f ad n_def] len' n0
  consider "m_pending (lane_cycles e xs s)"
    | s2 g2 where "lane_cycles e xs s = lane_cycles e (drop (nat n) xs) s2" "same_lane s s2" "m_depth s2 = 1"
        "m_safety s2 = ar_reset (cycles (m_stats s2)) g2"
    by auto
  then show ?thesis
  proof cases
    case 2
    obtain t1 where l2: "losing_request e s2 lo hi t1 (drop (nat n) xs)" using losing_request_later [OF l 2(2)] by blast
    have ad2: "\<not> m_adaptive s2" "1 \<le> m_depth s2" and o2: "lane_opts s2 = lane_opts s" using 2(2,3) ad(1) by (simp_all add: same_lane_def)
    have n2: "n = step_warmup (io_env (e_io e)) (lane_opts s2) + ar_safety_window_cycles (io_env (e_io e))"
      by (simp add: n_def o2)
    have "n \<le> int (length (drop (nat n) xs))" using len' n0 by simp
    from losing_segment [OF l2 on 2(4) ad2 n2 this] show ?thesis using 2(1,3) by simp
  qed
qed

lemma losing_request_falls_back_example:
  "case b_mtp (post_init_mtp (demo_mtp (\<lambda>_ _. False)) 500 (demo_times 0) demo_batch) of None \<Rightarrow> False
    | Some s \<Rightarrow> m_pending (lane_cycles (demo_mtp (\<lambda>_ _. False)) (map (\<lambda>i. (demo_times (of_int i), 0)) [1..48]) s)"
proof -
  let ?e = "demo_mtp (\<lambda>_ _. False)" and ?xs = "map (\<lambda>i. (demo_times (of_int i), 0 :: nat)) [1..48]"
  have "case b_mtp (post_init_mtp ?e 500 (demo_times 0) demo_batch) of None \<Rightarrow> False
    | Some s \<Rightarrow> losing_request ?e s 1000 1000 0 ?xs \<and>
        2 * (step_warmup (io_env (e_io ?e)) (lane_opts s) + ar_safety_window_cycles (io_env (e_io ?e))) \<le> int (length ?xs)"
    by code_simp
  then obtain s where s: "b_mtp (post_init_mtp ?e 500 (demo_times 0) demo_batch) = Some s"
    and l: "losing_request ?e s 1000 1000 0 ?xs"
    and n: "2 * (step_warmup (io_env (e_io ?e)) (lane_opts s) + ar_safety_window_cycles (io_env (e_io ?e))) \<le> int (length ?xs)"
    by (auto split: option.splits)
  have "\<not> adaptive_depth_enabled (io_env (e_io ?e))" "ar_safety_enabled (io_env (e_io ?e))" by code_simp+
  moreover have "b_mtp demo_batch = None" by (simp add: demo_batch_def)
  ultimately have "m_pending (lane_cycles ?e ?xs s)" using losing_request_falls_back [OF s _ _ _ l n] by blast
  then show ?thesis unfolding s by simp
qed

end
