(* ===== verification/Spec2Isabelle.thy ===== *)
theory Spec2Isabelle
  imports Output_Collector Paged_Reach Sequence_Machine Context_Limits Prompt_Lookup Prefix_Reach Memory_Fetch Mesh_Pipeline Think_Stream Engine_Gaps Depth_Props Mtp_Props
begin

text \<open>
  A verification development for vMLX Engine, an inference server for language models on Apple silicon
  (Python, \<open>src/vmlx_engine\<close>).  It models the engine's own bookkeeping: the requests, their scheduling and the hand-over
  of their output, the caches that let a request reuse the computed prefix of an earlier one, the automata and indices
  that run over token sequences, and the parts of distributed inference that decide who computes what.

  The program's parts and how they interact.  \<open>server.py\<close> and \<open>engine/*\<close> accept requests; a scheduler
  (\<open>scheduler.py\<close>) admits them, looks their prompts up in a prompt cache, runs an MLX batch generator and hands
  each new output to the request's collector (\<open>engine_core.py\<close>, \<open>output_collector.py\<close>).  Three prompt caches are
  alternatives of one another: the paged cache (\<open>paged_cache.py\<close>, blocks addressed by chain hashes), the
  trie cache (\<open>prefix_cache.py\<close>) and the memory-aware cache (\<open>memory_cache.py\<close>).  A generation is watched by a
  sequence state machine (\<open>state_machine.py\<close>), may draft tokens from its own text (\<open>prompt_lookup.py\<close>), and has
  its output budget clamped to the model's context (\<open>context_limits.py\<close>).  Distributed inference
  (\<open>distributed/*\<close>) elects a coordinator, divides the layers and talks to the workers over a framed protocol.

  Theories and the code they model.

  Shared: \<open>Prelude\<close> (exceptions as values, ordered dictionaries), \<open>Py_Values\<close> (dynamic values, their text),
  \<open>Bounded_Store\<close> (locale of size-bounded registries, interpreted by the clamp and effort registries of
  \<open>Context_Limits\<close> and the factory cache of \<open>Sequence_Machine\<close>).

  Requests and output: \<open>Requests\<close> (\<open>request.py\<close>; \<open>Scheduler._reschedule_running_requests\<close>): the fields of a
  request and what a restart keeps of them.  \<open>Output_Collector\<close> (\<open>output_collector.py\<close>, one step of \<open>EngineCore._engine_loop\<close>): a step relation
  of the engine, the collector and its consumer; no output is lost or repeated, the consumer counter is exact.

  Scheduling.  \<open>Single_Generator\<close> (\<open>utils/single_batch_generator.py\<close> with the chunk valve of
  \<open>utils/prefill_admission.py\<close>): chunked prefill and decoding of one request at a time; a key/value cache stands for the
  tokens it was fed, and the tokens emitted are the network's own continuation of the prompt.  Over it
  \<open>scheduler.py\<close>: \<open>Sched_State\<close> (the fields of \<open>Scheduler\<close>, request objects in a store because the three queues share
  them, admission, aborts and their deferred half), \<open>Sched_Spec\<close> (speculation from the text: drafts, acceptance,
  commit; greedy acceptance changes no token), \<open>Sched_Emit\<close> (one token of the generator: detokenizer, stop strings,
  budget, the output of the step), \<open>Sched_Text\<close> (stop strings are found when complete, the streamed pieces add up to the
  text, and where text is lost), \<open>Sched_Step\<close> (\<open>step\<close>: deferred aborts, first-come admission into the generator, the
  call of the generator with its retries, clean-up).  \<open>Sched_Books\<close> and \<open>Sched_Inv\<close> state the invariant of the queues and
  identifier tables and the generator's contract (locale \<open>generator_contract\<close>), \<open>Sched_Reach\<close> interprets the locale on the
  single-request generator and draws the properties of the reachable states.  Parameters there: the calls on the generator and
  on the prompt caches (\<open>sched_env\<close>), making a hit usable and storing a finished cache among them, the detokenizer, and
  the acceptance of drafts under sampling; the speculation tuner's switch is a field that no step changes.

  The engine around the scheduler (\<open>engine_core.py\<close>, \<open>model_registry.py\<close>): \<open>Sched_Finish\<close> (when a request ends:
  locale \<open>finishing_generator\<close>, which extends the contract by the finish reasons, interpreted on the single-request
  generator), \<open>Engine_Core\<close> (registration with collector, stream state and event, the fence between clean-up and admission,
  the loop with its distribution, failure and clean-up, start, stop, close, public streams, \<open>generate\<close>), \<open>Engine_Inv\<close> and
  \<open>Engine_Reach\<close> (the invariant of the tables and that every operation keeps it), \<open>Engine_Props\<close> (the actions of clients,
  loop and consumers, each the code between two awaits, and the reachable states), \<open>Engine_Strand\<close> (collectors no table
  holds), \<open>Engine_Service\<close> (who is served and told) and \<open>Engine_Gaps\<close> (who is not: an id added twice, a model taken over, a stop
  outside the loop's \<open>try\<close>, text a failure drops, and an admission that passes the closed fence).

  Native multi-token prediction in the text lane: a model's own draft head proposes tokens that one forward verifies.
  \<open>Ar_Safety\<close> (\<open>native_mtp_ar_safety.py\<close>: the governor that compares the cost of a window of cycles with plain
  decoding), \<open>Depth_Control\<close> (\<open>native_mtp_adaptive.py\<close>: which draft depth pays), \<open>Mtp_Text\<close> and \<open>Mtp_Cycle\<close>
  (\<open>patches/mlx_lm_mtp/batch_generator.py\<close>: the lane's state and gates; bridge, verify cycle, roll back, emission,
  hand-over, the patched \<open>next\<close>; the stock step is \<open>_step_with_sync\<close> of \<open>utils/mamba_cache.py\<close>).  A cache layer is
  the tokens it was fed, the network with its greedy sampler a function of the layers' histories, the head any
  function; clock readings are inputs.  \<open>Depth_Props\<close>: the controller's invariant over any sequence of calls, the
  evidence of its decisions, that a probe ends, and that a window too narrow decides nothing.  \<open>Ar_Props\<close>: a trip is
  justified, a healthy majority never trips, a losing window does.  \<open>Mtp_Greedy\<close>: the simulation between the lane and
  plain decoding, each call of the patched \<open>next\<close> against one plain step (\<open>follows\<close>).  \<open>Mtp_Props\<close>: greedy
  identity, the return of a losing request to plain decoding within two windows, and the fall-back that replays a token.

  Paged cache (\<open>paged_cache.py\<close>, \<open>cache_key.py\<close>): \<open>Free_Queue\<close> (the doubly linked free list in a heap of blocks;
  locale \<open>lru_list\<close>), \<open>Block_Hash_Map\<close> (the content index; locale \<open>content_index\<close>), \<open>Cache_Key\<close> and \<open>Block_Hash\<close>
  (discriminators and chain hashes), \<open>Paged_State\<close> (\<open>PagedCacheManager\<close>'s fields and constructor), \<open>Paged_Evict\<close>
  (payload release, the durability fence, byte budget), \<open>Paged_Inv\<close> (the invariant), \<open>Paged_Alloc\<close>
  (allocation), \<open>Paged_Refs\<close> (reference counts, block tables, copy on write), \<open>Paged_Prefix\<close> and \<open>Paged_Lookup\<close>
  (registration, lookup, promotion from disk, \<open>find_shared_prefix\<close>), \<open>Paged_Reach\<close> (one call of any public
  operation as a step; the reachable states and the manager's properties).

  Trie cache and memory-aware cache: \<open>Token_Trie\<close> (nested token dictionaries), \<open>Typed_Lru\<close> (the recency buckets both
  caches share), \<open>Cache_Layers\<close> (layer objects and byte estimates), \<open>Prefix_Trie\<close> and \<open>Prefix_Reach\<close>
  (\<open>PrefixCacheManager\<close>), \<open>Memory_Cache\<close>, \<open>Memory_Inv\<close>, \<open>Memory_Reach\<close>, \<open>Memory_Fetch\<close>
  (\<open>MemoryAwarePrefixCache\<close>; the two critical sections of a fetch are separate steps, so that stores and evictions
  may come between them).

  Tokens: \<open>State_Machine\<close> (Aho-Corasick tries with failure links, the machine) and \<open>Sequence_Machine\<close> (its
  specification without tries and the refinement), \<open>Context_Limits\<close>, \<open>Prompt_Lookup\<close> (the scan and the
  incremental n-gram index).

  Reasoning output (\<open>reasoning/\<close>): \<open>Reasoning_Markers\<close> (Python's string searches, the view that never shows half a
  marker), \<open>Think_Parser\<close> (\<open>think_parser.py\<close>: complete and streaming extraction), \<open>Think_Stream\<close> (markers are
  never split, the stream agrees with the complete parse of what it has released of an answer of one thought, and what
  it loses: text in front of a tag, the end that is held back).

  Distributed inference (\<open>distributed/\<close>): \<open>Mesh_Wire\<close> (\<open>protocol.py\<close>: framing and message builders), \<open>Mesh_Plan\<close>
  (\<open>mesh_election.py\<close>, \<open>layer_assign.py\<close>), \<open>Mesh_Worker\<close> (\<open>worker.py\<close>: handlers, slots, the sweeper, and
  traces of what a worker is sent on all its connections), \<open>Mesh_Coordinator\<close> (\<open>coordinator.py\<close>: setup and forward
  passes over a network of workers) and \<open>Mesh_Pipeline\<close> (the cluster against one machine).  The last composes the
  others: the plan decides the ranges, the workers load them, the pipeline runs them; with the coordinator first the
  result is that of one machine, pass after pass, and with the coordinator elsewhere it provably is not.

  Conventions.  An operation of a class is a function from the state record to the new state and the result;
  a raised exception is \<open>Inl\<close>.  Calls that hold one lock are one step; where the code releases the lock or
  awaits, the model has a step of its own.  Clocks, random identifiers, the Metal memory counters, hash functions,
  \<open>repr\<close>, JSON, the disk store and the layers' own methods are parameters, with what is relied on as named
  hypotheses.  Integers are unbounded, as Python's; byte lists are \<open>8 word list\<close>.  Floats that are only compared,
  divided or added are exact rationals, logging is left out.

  Loops, bounds and fuel.  Structural loops are \<open>fun\<close> (the scheduling loop consumes the queue, the retries of a step
  its retry budget); \<open>full_chunks\<close>, \<open>shrink\<close>, \<open>make_room\<close>, \<open>evict_while\<close> and \<open>nearest_entry\<close>
  have termination proofs by the size of what they consume.  \<open>walk_free\<close> and \<open>find_shared_loop\<close> are
  \<open>partial_function (option)\<close>: \<open>find_shared_prefix_returns\<close> shows when the latter returns and
  \<open>empty_registration_diverges\<close> when it does not.  \<open>force_drop_loop\<close> takes one unit of fuel more than there are
  blocks, and each round drops a payload; the failure-link walk \<open>chase\<close> of \<open>State_Machine\<close> takes the depth of its
  node, and each link goes to a strictly shallower one; both are shown to be enough.

  Not modelled, and why: tensors and everything that computes on them (the multi-request
  batch generators of \<open>mlx_lm\<close>, but for its greedy text lane above, and of the multimodal engine, which the scheduler's
  theories take as a parameter; model
  implementations, kernels, loaders, quantisation, \<open>BlockAwarePrefixCache\<close>), whose behaviour is MLX's; the HTTP layer
  and API schemas, the disk stores (SQLite, files, threads), sockets and discovery, and media processing, which are I/O; the tool-call
  parsers, which are regular expressions; tables of model families; the TypeScript panel, the C++ extension and vendored code.
\<close>

end
